(* ===== verification/Prelude.thy ===== *)
theory Prelude
  imports Main "HOL-Library.Word" "HOL-Library.Monad_Syntax"
begin

text \<open>
  What every component of the development shares: the machine integer types of
  \<^verbatim>\<open>include/rtdef.h\<close>, the error numbers, the meaning of \<^verbatim>\<open>RT_ASSERT\<close>, the alignment
  macros, and the generic lemmas on lists, functions and words.

  Control flow.  A kernel routine is a function into \<open>'a option\<close>: \<open>Some\<close> is the value it
  returns, \<open>None\<close> means that it does not return a defined value.  There are three reasons
  for \<open>None\<close>, all named where they occur: an \<^verbatim>\<open>RT_ASSERT\<close> that fails (the handler spins for
  ever, \<^verbatim>\<open>src/kservice.c\<close>), a C operation whose behaviour is undefined (an entry taken from
  an empty list, a shift by 32 or more), and a loop that never ends
  (\<open>partial_function (option)\<close>).
\<close>

unbundle bit_operations_syntax

type_synonym u8 = "8 word"
type_synonym u16 = "16 word"
type_synonym u32 = "32 word"

section \<open>Error numbers, limits\<close>

text \<open>\<^verbatim>\<open>rt_err_t\<close> is a signed long that only ever holds the constants below or their
  negations, so it is modelled as an \<open>int\<close>.\<close>

type_synonym rt_err_t = int

definition RT_EOK :: rt_err_t where "RT_EOK = 0"
definition RT_ERROR :: rt_err_t where "RT_ERROR = 1"
definition RT_ETIMEOUT :: rt_err_t where "RT_ETIMEOUT = 2"
definition RT_EFULL :: rt_err_t where "RT_EFULL = 3"
definition RT_EEMPTY :: rt_err_t where "RT_EEMPTY = 4"
definition RT_ENOMEM :: rt_err_t where "RT_ENOMEM = 5"
definition RT_EINTR :: rt_err_t where "RT_EINTR = 9"

definition RT_TICK_MAX :: u32 where "RT_TICK_MAX = 0xffffffff"

lemmas err_defs = RT_EOK_def RT_ERROR_def RT_ETIMEOUT_def RT_EFULL_def RT_EEMPTY_def
  RT_ENOMEM_def RT_EINTR_def

section \<open>Assertions and alignment\<close>

text \<open>
  \<^verbatim>\<open>RT_ASSERT\<close> with \<^verbatim>\<open>RT_DEBUG\<close> on and no hook installed: \<^verbatim>\<open>rt_assert_handler\<close> prints and
  then loops for ever, so nothing after a failed assertion runs.
\<close>

definition RT_ASSERT :: "bool \<Rightarrow> unit option" where
  "RT_ASSERT b = (if b then Some () else None)"

lemma RT_ASSERT_simps [simp]: "RT_ASSERT True = Some ()" "RT_ASSERT False = None"
  by (simp_all add: RT_ASSERT_def)

lemma RT_ASSERT_bind_Some [simp]:
  "(RT_ASSERT b \<bind> k) = Some r \<longleftrightarrow> b \<and> k () = Some r"
  by (simp add: RT_ASSERT_def)

lemma RT_ASSERT_eq_Some [simp]: "RT_ASSERT b = Some u \<longleftrightarrow> b"
  by (simp add: RT_ASSERT_def)

lemma RT_ASSERT_bind: "b \<Longrightarrow> (RT_ASSERT b \<bind> k) = k ()"
  by simp

definition RT_ALIGN_SIZE :: u32 where "RT_ALIGN_SIZE = 4"

definition RT_ALIGN :: "u32 \<Rightarrow> u32 \<Rightarrow> u32" where
  "RT_ALIGN sz align = (sz + align - 1) AND NOT (align - 1)"

definition RT_ALIGN_DOWN :: "u32 \<Rightarrow> u32 \<Rightarrow> u32" where
  "RT_ALIGN_DOWN sz align = sz AND NOT (align - 1)"

section \<open>Generic lemmas\<close>

lemma Option_bind_Some_iff [simp]:
  "(m \<bind> k) = Some r \<longleftrightarrow> (\<exists>a. m = Some a \<and> k a = Some r)"
  by (cases m) auto

lemma removeAll_notin [simp]: "x \<notin> set xs \<Longrightarrow> removeAll x xs = xs"
  by (induction xs) auto

lemma distinct_removeAll_eq_filter: "removeAll x xs = filter (\<lambda>y. y \<noteq> x) xs"
  by (induction xs) auto

text \<open>Insertion of an element in front of another one, the list view of
  \<^verbatim>\<open>rt_list_insert_before\<close> on an inner node.\<close>

fun insert_before :: "'a \<Rightarrow> 'a \<Rightarrow> 'a list \<Rightarrow> 'a list" where
  "insert_before y n [] = []"
| "insert_before y n (x # xs) = (if x = y then n # x # xs else x # insert_before y n xs)"

lemma insert_before_split:
  "y \<notin> set xs \<Longrightarrow> insert_before y n (xs @ y # ys) = xs @ n # y # ys"
  by (induction xs) auto

lemma insert_before_notin: "y \<notin> set xs \<Longrightarrow> insert_before y n xs = xs"
  by (induction xs) auto

lemma set_insert_before:
  "set (insert_before y n xs) = (if y \<in> set xs then insert n (set xs) else set xs)"
  by (induction xs) auto

lemma distinct_insert_before:
  "distinct xs \<Longrightarrow> n \<notin> set xs \<Longrightarrow> distinct (insert_before y n xs)"
  by (induction xs) (auto simp: set_insert_before)

text \<open>Counting up below another word, or down, does not wrap around.\<close>

lemma unat_Suc_less:
  fixes i n :: "'a::len word"
  assumes "unat i < unat n"
  shows "unat (i + 1) = Suc (unat i)"
proof -
  have "i < n" using assms by (simp add: word_less_nat_alt)
  then have "i \<noteq> - 1" by auto
  then have "i + 1 \<noteq> 0" by (simp add: eq_neg_iff_add_eq_0)
  then show ?thesis by (simp add: unatSuc add.commute)
qed

lemma unat_pred:
  fixes w :: "'a::len word"
  assumes "unat w = Suc k"
  shows "unat (w - 1) = k"
proof -
  have "w \<noteq> 0" using assms by auto
  then show ?thesis using assms by (simp add: unat_minus_one)
qed

lemma u32_bound: "unat w < 2 ^ 32" for w :: u32
  using unsigned_less [of w] by simp


section \<open>Alignment\<close>

lemma clear_low: "x AND NOT 3 = x - take_bit 2 x" for x :: u32
proof -
  have m: "(3 :: u32) = mask 2" by (simp add: mask_eq_exp_minus_1)
  have "x AND NOT 3 = push_bit 2 (drop_bit 2 x)"
    unfolding m by (rule bit_word_eqI) (auto simp: bit_simps not_less dest!: le_Suc_ex)
  then show ?thesis using bits_ident [of 2 x] by (simp add: algebra_simps)
qed

lemma unat_low: "unat (take_bit 2 x) = unat x mod 4" for x :: u32
  unfolding unsigned_take_bit_eq by (simp add: take_bit_eq_mod)

lemma unat_clear_low: "unat (x AND NOT 3) = unat x - unat x mod 4" for x :: u32
proof -
  have "take_bit 2 x \<le> x" by (simp add: word_le_nat_alt unat_low)
  then show ?thesis unfolding clear_low by (simp add: unat_sub unat_low)
qed

lemma unat_align:
  assumes "unat sz + 3 < 2 ^ 32"
  shows "unat (RT_ALIGN sz RT_ALIGN_SIZE) = (unat sz + 3) div 4 * 4"
proof -
  have "unat (sz + 3) = unat sz + 3" using assms by (simp add: unat_word_ariths)
  moreover have "RT_ALIGN sz RT_ALIGN_SIZE = (sz + 3) AND NOT 3" by (simp add: RT_ALIGN_def RT_ALIGN_SIZE_def add.commute)
  ultimately show ?thesis using unat_clear_low [of "sz + 3"] by (simp only: minus_mod_eq_div_mult)
qed

lemma unat_align_down: "unat (RT_ALIGN_DOWN sz RT_ALIGN_SIZE) = unat sz div 4 * 4"
  using unat_clear_low [of sz] by (simp add: RT_ALIGN_DOWN_def RT_ALIGN_SIZE_def minus_mod_eq_div_mult)

end
