(* ===== verification/Rt_List.thy ===== *)
theory Rt_List
  imports Prelude
begin

text \<open>
  The intrusive doubly linked lists of \<^verbatim>\<open>include/rtservice.h\<close>, at the level of pointers.
  A heap of nodes is a record of two fields, the \<^verbatim>\<open>next\<close> and the \<^verbatim>\<open>prev\<close> pointer of every
  node; each routine performs the stores of the C code in the order of the C code.

  The theory then shows what those stores mean: \<open>dll h l xs\<close> says that the list whose head
  node is \<open>l\<close> holds exactly the nodes \<open>xs\<close>, and every routine is proved to implement an
  operation on \<open>xs\<close>.  The abstract queues on which the scheduler and the other components
  are built (theory \<open>Queues\<close>) are obtained from this refinement.
\<close>

section \<open>The routines\<close>

record 'a links =
  lnext :: "'a \<Rightarrow> 'a"
  lprev :: "'a \<Rightarrow> 'a"

definition set_next :: "'a \<Rightarrow> 'a \<Rightarrow> 'a links \<Rightarrow> 'a links" where
  "set_next a b h = h\<lparr>lnext := (lnext h)(a := b)\<rparr>"

definition set_prev :: "'a \<Rightarrow> 'a \<Rightarrow> 'a links \<Rightarrow> 'a links" where
  "set_prev a b h = h\<lparr>lprev := (lprev h)(a := b)\<rparr>"

definition rt_list_init :: "'a \<Rightarrow> 'a links \<Rightarrow> 'a links" where
  "rt_list_init l h = set_next l l (set_prev l l h)"

definition rt_list_insert_after :: "'a \<Rightarrow> 'a \<Rightarrow> 'a links \<Rightarrow> 'a links" where
  "rt_list_insert_after l n h =
     (let h = set_prev (lnext h l) n h;
          h = set_next n (lnext h l) h;
          h = set_next l n h
      in set_prev n l h)"

definition rt_list_insert_before :: "'a \<Rightarrow> 'a \<Rightarrow> 'a links \<Rightarrow> 'a links" where
  "rt_list_insert_before l n h =
     (let h = set_next (lprev h l) n h;
          h = set_prev n (lprev h l) h;
          h = set_prev l n h
      in set_next n l h)"

definition rt_list_remove :: "'a \<Rightarrow> 'a links \<Rightarrow> 'a links" where
  "rt_list_remove n h =
     (let h = set_prev (lnext h n) (lprev h n) h;
          h = set_next (lprev h n) (lnext h n) h
      in set_next n n (set_prev n n h))"

definition rt_list_isempty :: "'a \<Rightarrow> 'a links \<Rightarrow> bool" where
  "rt_list_isempty l h = (lnext h l = l)"

text \<open>The loop of \<^verbatim>\<open>rt_list_len\<close>; on a list that never comes back to its head it does
  not return.\<close>

partial_function (option) rt_list_len_loop :: "'a \<Rightarrow> 'a links \<Rightarrow> 'a \<Rightarrow> u32 \<Rightarrow> u32 option" where
  "rt_list_len_loop l h p len =
     (if lnext h p \<noteq> l then rt_list_len_loop l h (lnext h p) (len + 1) else Some len)"

definition rt_list_len :: "'a \<Rightarrow> 'a links \<Rightarrow> u32 option" where
  "rt_list_len l h = rt_list_len_loop l h l 0"

text \<open>\<^verbatim>\<open>rt_list_for_each\<close>: the nodes the cursor visits.\<close>

partial_function (option) rt_list_visit :: "'a \<Rightarrow> 'a links \<Rightarrow> 'a \<Rightarrow> 'a list option" where
  "rt_list_visit l h pos =
     (if pos \<noteq> l then rt_list_visit l h (lnext h pos) \<bind> (\<lambda>xs. Some (pos # xs)) else Some [])"

definition rt_list_for_each :: "'a \<Rightarrow> 'a links \<Rightarrow> 'a list option" where
  "rt_list_for_each l h = rt_list_visit l h (lnext h l)"

section \<open>Chains of nodes\<close>

fun chain :: "'a links \<Rightarrow> 'a \<Rightarrow> 'a list \<Rightarrow> 'a \<Rightarrow> bool" where
  "chain h a [] b \<longleftrightarrow> lnext h a = b \<and> lprev h b = a"
| "chain h a (x # xs) b \<longleftrightarrow> lnext h a = x \<and> lprev h x = a \<and> chain h x xs b"

definition dll :: "'a links \<Rightarrow> 'a \<Rightarrow> 'a list \<Rightarrow> bool" where
  "dll h l xs \<longleftrightarrow> chain h l xs l \<and> distinct (l # xs)"

lemma chain_append [simp]:
  "chain h a (xs @ y # ys) b \<longleftrightarrow> chain h a xs y \<and> chain h y ys b"
  by (induction xs arbitrary: a) auto

lemma set_next_sel [simp]:
  "lnext (set_next a b h) = (lnext h)(a := b)" "lprev (set_next a b h) = lprev h"
  by (simp_all add: set_next_def)

lemma set_prev_sel [simp]:
  "lprev (set_prev a b h) = (lprev h)(a := b)" "lnext (set_prev a b h) = lnext h"
  by (simp_all add: set_prev_def)

text \<open>A chain only depends on the \<^verbatim>\<open>next\<close> pointers of its first node and of its inner nodes,
  and on the \<^verbatim>\<open>prev\<close> pointers of its inner nodes and of its last node.\<close>

lemma chain_cong:
  "(\<And>n. n \<in> set (a # xs) \<Longrightarrow> lnext h' n = lnext h n) \<Longrightarrow>
   (\<And>n. n \<in> set (xs @ [b]) \<Longrightarrow> lprev h' n = lprev h n) \<Longrightarrow>
   chain h' a xs b = chain h a xs b"
  by (induction xs arbitrary: a) auto

lemma chain_last: "chain h a xs b \<Longrightarrow> lprev h b = last (a # xs)"
  by (induction xs arbitrary: a) auto

lemma chain_first: "chain h a xs b \<Longrightarrow> lnext h a = hd (xs @ [b])"
  by (cases xs) auto

lemma links_after:
  "lnext (rt_list_insert_after l n h) = (lnext h)(n := lnext h l, l := n)"
  "lprev (rt_list_insert_after l n h) = (lprev h)(lnext h l := n, n := l)"
  by (simp_all add: rt_list_insert_after_def Let_def)

lemma links_before:
  "lnext (rt_list_insert_before l n h) = (lnext h)(lprev h l := n, n := l)"
  "lprev (rt_list_insert_before l n h) = (lprev h)(n := lprev h l, l := n)"
  by (simp_all add: rt_list_insert_before_def Let_def)

lemma links_remove:
  "lnext h n \<noteq> n \<Longrightarrow>
   lnext (rt_list_remove n h) = (lnext h)(lprev h n := lnext h n, n := n)"
  "lprev (rt_list_remove n h) = (lprev h)(lnext h n := lprev h n, n := n)"
  by (auto simp: rt_list_remove_def Let_def)

lemma links_remove_self:
  assumes "lnext h n = n" "lprev h n = n"
  shows "lnext (rt_list_remove n h) = lnext h" "lprev (rt_list_remove n h) = lprev h"
  using assms by (auto simp: rt_list_remove_def Let_def fun_eq_iff)

section \<open>The routines on a well-formed list\<close>

lemma dll_distinct: "dll h l xs \<Longrightarrow> distinct (l # xs)"
  by (simp add: dll_def)

lemma dll_init: "dll (rt_list_init l h) l []"
  by (simp add: dll_def rt_list_init_def)

lemma dll_isempty: "dll h l xs \<Longrightarrow> rt_list_isempty l h \<longleftrightarrow> xs = []"
  by (cases xs) (auto simp: dll_def rt_list_isempty_def)

lemma dll_first: "dll h l (x # xs) \<Longrightarrow> lnext h l = x"
  by (simp add: dll_def)

lemma dll_insert_after_head:
  assumes d: "dll h l xs" and n: "n \<notin> set (l # xs)"
  shows "dll (rt_list_insert_after l n h) l (n # xs)"
proof (cases xs)
  case Nil
  with d n show ?thesis by (simp add: dll_def links_after)
next
  case (Cons x ys)
  with d n have "chain (rt_list_insert_after l n h) x ys l = chain h x ys l"
    by (intro chain_cong) (auto simp: dll_def links_after)
  with d n Cons show ?thesis by (auto simp: dll_def links_after)
qed

lemma chain_insert_before_last:
  assumes c: "chain h a xs y" and n: "n \<notin> set (y # a # xs)"
    and dist: "distinct (a # xs)" and y: "y \<notin> set xs"
  shows "chain (rt_list_insert_before y n h) a (xs @ [n]) y"
proof -
  have p: "lprev h y = last (a # xs)" using c by (rule chain_last)
  show ?thesis
  proof (cases xs rule: rev_cases)
    case Nil
    with c n p show ?thesis by (auto simp: links_before)
  next
    case (snoc ys z)
    with c have cz: "chain h a ys z" and z: "lnext h z = y" "lprev h y = z" by auto
    have "chain (rt_list_insert_before y n h) a ys z = chain h a ys z"
      using snoc n dist y z by (intro chain_cong) (auto simp: links_before)
    with cz snoc n z y dist show ?thesis by (auto simp: links_before)
  qed
qed

lemma dll_insert_before_head:
  assumes d: "dll h l xs" and n: "n \<notin> set (l # xs)"
  shows "dll (rt_list_insert_before l n h) l (xs @ [n])"
  using chain_insert_before_last [of h l xs l n] d n by (auto simp: dll_def)

lemma dll_insert_before_node:
  assumes d: "dll h l (xs @ y # ys)" and n: "n \<notin> set (l # xs @ y # ys)"
  shows "dll (rt_list_insert_before y n h) l (xs @ n # y # ys)"
proof -
  have c: "chain h l xs y" "chain h y ys l" using d by (auto simp: dll_def)
  have c1: "chain (rt_list_insert_before y n h) l (xs @ [n]) y"
    using d n by (intro chain_insert_before_last [OF c(1)]) (auto simp: dll_def)
  have p: "lprev h y = last (l # xs)" using c(1) by (rule chain_last)
  have "chain (rt_list_insert_before y n h) y ys l = chain h y ys l"
    using d n p by (intro chain_cong) (auto simp: links_before dll_def split: if_splits dest: last_in_set)
  with c c1 d n show ?thesis by (auto simp: dll_def)
qed

lemma dll_remove:
  assumes d: "dll h l (xs @ n # ys)"
  shows "dll (rt_list_remove n h) l (xs @ ys)"
    and "lnext (rt_list_remove n h) n = n" "lprev (rt_list_remove n h) n = n"
proof -
  have c: "chain h l xs n" "chain h n ys l" using d by (auto simp: dll_def)
  have p: "lprev h n = last (l # xs)" using c(1) by (rule chain_last)
  have q: "lnext h n = hd (ys @ [l])" using c(2) by (rule chain_first)
  have pn: "lprev h n \<noteq> n" using p d by (auto simp: dll_def split: if_splits)
  have qn: "lnext h n \<noteq> n" using q d by (cases ys) (auto simp: dll_def)
  note r = links_remove(1) [OF qn] links_remove(2) [of n h]
  show "lnext (rt_list_remove n h) n = n" "lprev (rt_list_remove n h) n = n"
    by (simp_all add: r)
  have dist: "distinct (l # xs @ n # ys)" using d by (simp add: dll_def)
  have "chain (rt_list_remove n h) l (xs @ ys) l"
  proof (cases ys)
    case Nil
    have ql: "lnext h n = l" using q Nil by simp
    show ?thesis
    proof (cases xs rule: rev_cases)
      case Nil
      with p ql dist show ?thesis using \<open>ys = []\<close> by (auto simp: r)
    next
      case (snoc zs z)
      have pz: "lprev h n = z" using p snoc by simp
      have "chain (rt_list_remove n h) l zs z = chain h l zs z"
        using snoc dist pz ql by (intro chain_cong) (auto simp: r)
      with c snoc Nil pz ql dist show ?thesis by (auto simp: r)
    qed
  next
    case (Cons y zs)
    have qy: "lnext h n = y" using q Cons by simp
    have cy: "chain (rt_list_remove n h) y zs l = chain h y zs l"
      using Cons dist p qy by (intro chain_cong) (auto simp: r split: if_splits dest: last_in_set)
    show ?thesis
    proof (cases xs rule: rev_cases)
      case Nil
      have "lprev h n = l" using p Nil by simp
      with c Cons cy qy dist Nil show ?thesis by (auto simp: r)
    next
      case (snoc ws w)
      have pw: "lprev h n = w" using p snoc by simp
      have "chain (rt_list_remove n h) l ws w = chain h l ws w"
        using snoc dist pw qy Cons by (intro chain_cong) (auto simp: r)
      with c Cons cy qy dist snoc pw show ?thesis by (auto simp: r)
    qed
  qed
  with dist show "dll (rt_list_remove n h) l (xs @ ys)" by (auto simp: dll_def)
qed

section \<open>Traversals\<close>

lemma rt_list_visit_chain:
  "chain h a xs l \<Longrightarrow> l \<notin> set xs \<Longrightarrow> rt_list_visit l h (lnext h a) = Some xs"
proof (induction xs arbitrary: a)
  case Nil
  then show ?case by (simp add: rt_list_visit.simps)
next
  case (Cons x xs)
  then have "rt_list_visit l h (lnext h x) = Some xs" by simp
  with Cons.prems show ?case by (subst rt_list_visit.simps) auto
qed

lemma rt_list_for_each_dll: "dll h l xs \<Longrightarrow> rt_list_for_each l h = Some xs"
  by (auto simp: rt_list_for_each_def dll_def intro: rt_list_visit_chain)

lemma rt_list_len_loop_chain:
  "chain h a xs l \<Longrightarrow> l \<notin> set xs \<Longrightarrow>
   rt_list_len_loop l h a len = Some (len + of_nat (length xs))"
proof (induction xs arbitrary: a len)
  case Nil
  then show ?case by (simp add: rt_list_len_loop.simps)
next
  case (Cons x xs)
  then have "rt_list_len_loop l h x (len + 1) = Some (len + 1 + of_nat (length xs))" by simp
  with Cons.prems show ?case
    by (subst rt_list_len_loop.simps) (auto simp: algebra_simps)
qed

lemma rt_list_len_dll: "dll h l xs \<Longrightarrow> rt_list_len l h = Some (of_nat (length xs))"
  using rt_list_len_loop_chain [of h l xs l 0] by (simp add: rt_list_len_def dll_def)

lemma dll_unique: "dll h l xs \<Longrightarrow> dll h l ys \<Longrightarrow> xs = ys"
  by (metis rt_list_for_each_dll option.inject)

text \<open>Stores that touch no node of a list leave the list alone.\<close>

lemma dll_frame:
  "dll h l xs \<Longrightarrow> (\<And>n. n \<in> set (l # xs) \<Longrightarrow> lnext h' n = lnext h n \<and> lprev h' n = lprev h n) \<Longrightarrow>
   dll h' l xs"
  using chain_cong [of l xs h' h l] by (auto simp: dll_def)

end
