(* ===== verification/Queues.thy ===== *)
theory Queues
  imports Rt_List
begin

text \<open>
  Families of lists.  The kernel keeps many list heads (one ready list per priority, the
  list of threads suspended on each object, the defunct list) and one list node per thread;
  a thread is linked in at most one of them.  The abstract state of such a family is a
  function from heads to lists of elements.

  The locale \<open>list_heads\<close> is the interface the scheduler relies on.  It is interpreted twice:
  on the pointer heaps of theory \<open>Rt_List\<close>, which proves that the C routines keep the
  promise, and on the abstract queues, on which the components of the kernel are modelled.
\<close>

section \<open>Abstract queues\<close>

type_synonym ('h, 'n) queues = "'h \<Rightarrow> 'n list"

definition q_insert_tail :: "'h \<Rightarrow> 'n \<Rightarrow> ('h, 'n) queues \<Rightarrow> ('h, 'n) queues" where
  "q_insert_tail h n Q = Q(h := Q h @ [n])"

definition q_insert_head :: "'h \<Rightarrow> 'n \<Rightarrow> ('h, 'n) queues \<Rightarrow> ('h, 'n) queues" where
  "q_insert_head h n Q = Q(h := n # Q h)"

definition q_insert_before :: "'n \<Rightarrow> 'n \<Rightarrow> ('h, 'n) queues \<Rightarrow> ('h, 'n) queues" where
  "q_insert_before m n Q = (\<lambda>h. insert_before m n (Q h))"

definition q_remove :: "'n \<Rightarrow> ('h, 'n) queues \<Rightarrow> ('h, 'n) queues" where
  "q_remove n Q = (\<lambda>h. removeAll n (Q h))"

definition q_ok :: "('h, 'n) queues \<Rightarrow> bool" where
  "q_ok Q \<longleftrightarrow> (\<forall>h. distinct (Q h)) \<and>
              (\<forall>h h' n. n \<in> set (Q h) \<and> n \<in> set (Q h') \<longrightarrow> h = h')"

lemmas q_defs = q_insert_tail_def q_insert_head_def q_insert_before_def q_remove_def

lemma q_okD: "q_ok Q \<Longrightarrow> distinct (Q h)"
    "q_ok Q \<Longrightarrow> n \<in> set (Q h) \<Longrightarrow> n \<in> set (Q h') \<Longrightarrow> h = h'"
  by (auto simp: q_ok_def)

section \<open>The interface\<close>

locale list_heads =
  fixes members :: "'s \<Rightarrow> 'h \<Rightarrow> 'n list"
    and wf :: "'s \<Rightarrow> bool"
    and insert_tail :: "'h \<Rightarrow> 'n \<Rightarrow> 's \<Rightarrow> 's"
    and insert_head :: "'h \<Rightarrow> 'n \<Rightarrow> 's \<Rightarrow> 's"
    and insert_at :: "'n \<Rightarrow> 'n \<Rightarrow> 's \<Rightarrow> 's"
    and unlink :: "'n \<Rightarrow> 's \<Rightarrow> 's"
    and isempty :: "'h \<Rightarrow> 's \<Rightarrow> bool"
  assumes wf_members: "wf s \<Longrightarrow> q_ok (members s)"
    and insert_tail: "wf s \<Longrightarrow> \<forall>h. n \<notin> set (members s h) \<Longrightarrow>
      wf (insert_tail h n s) \<and> members (insert_tail h n s) = q_insert_tail h n (members s)"
    and insert_head: "wf s \<Longrightarrow> \<forall>h. n \<notin> set (members s h) \<Longrightarrow>
      wf (insert_head h n s) \<and> members (insert_head h n s) = q_insert_head h n (members s)"
    and insert_at: "wf s \<Longrightarrow> \<forall>h. n \<notin> set (members s h) \<Longrightarrow> m \<in> set (members s l) \<Longrightarrow>
      wf (insert_at m n s) \<and> members (insert_at m n s) = q_insert_before m n (members s)"
    and unlink: "wf s \<Longrightarrow>
      wf (unlink n s) \<and> members (unlink n s) = q_remove n (members s)"
    and isempty: "wf s \<Longrightarrow> isempty h s \<longleftrightarrow> members s h = []"
begin

lemma unlink_free: "wf s \<Longrightarrow> n \<notin> set (members (unlink n s) h)"
  using unlink [of s n] by (simp add: q_remove_def)

text \<open>Unlinking an element and appending it to a list moves it there, and nowhere else.\<close>

lemma move_to_tail:
  assumes "wf s"
  shows "wf (insert_tail h n (unlink n s))"
    and "members (insert_tail h n (unlink n s)) =
         (\<lambda>h'. removeAll n (members s h') @ (if h' = h then [n] else []))"
  using insert_tail [of "unlink n s" n h] unlink [of s n] unlink_free [of s n] assms
  by (auto simp: q_defs fun_eq_iff)

text \<open>Requeueing the first element of a list rotates that list and leaves the others.\<close>

lemma rotate_head:
  assumes s: "wf s" and m: "members s h = n # ns"
  shows "members (insert_tail h n (unlink n s)) = (members s)(h := ns @ [n])"
proof -
  have q: "q_ok (members s)" using s by (rule wf_members)
  then have "n \<notin> set ns" using m q_okD(1) [OF q, of h] by simp
  moreover have "n \<notin> set (members s h')" if "h' \<noteq> h" for h'
    using q_okD(2) [OF q, of n h h'] m that by auto
  ultimately show ?thesis
    by (auto simp: move_to_tail [OF s] fun_eq_iff m)
qed

text \<open>Taking the first element out leaves the tail of its list.\<close>

lemma unlink_first:
  assumes s: "wf s" and m: "members s h = n # ns"
  shows "members (unlink n s) = (members s)(h := ns)"
proof -
  have q: "q_ok (members s)" using s by (rule wf_members)
  then have "n \<notin> set ns" using m q_okD(1) [OF q, of h] by simp
  moreover have "n \<notin> set (members s h')" if "h' \<noteq> h" for h'
    using q_okD(2) [OF q, of n h h'] m that by auto
  ultimately show ?thesis
    using unlink [OF s] by (auto simp: q_remove_def fun_eq_iff m)
qed

end

section \<open>The abstract queues provide the interface\<close>

lemma q_ok_insert:
  assumes "q_ok Q" "\<forall>h. n \<notin> set (Q h)"
  shows "q_ok (q_insert_tail l n Q)" "q_ok (q_insert_head l n Q)"
  using assms by (fastforce simp: q_ok_def q_defs)+

lemma q_ok_insert_before:
  assumes "q_ok Q" "\<forall>h. n \<notin> set (Q h)"
  shows "q_ok (q_insert_before m n Q)"
  using assms
  by (auto simp: q_ok_def q_defs distinct_insert_before set_insert_before split: if_splits) blast+

lemma q_ok_remove: "q_ok Q \<Longrightarrow> q_ok (q_remove n Q)"
  by (auto simp: q_ok_def q_defs distinct_removeAll)

interpretation aq: list_heads "\<lambda>Q. Q" q_ok q_insert_tail q_insert_head q_insert_before
    q_remove "\<lambda>h Q. Q h = []"
  by unfold_locales (simp_all add: q_ok_insert q_ok_insert_before q_ok_remove)

section \<open>The pointer lists provide the interface\<close>

text \<open>One heap holds all heads and all elements.\<close>

datatype ('h, 'n) lnode = Head 'h | Node (node_of: 'n)

definition unlinked :: "('h, 'n) lnode links \<Rightarrow> 'n \<Rightarrow> bool" where
  "unlinked h n \<longleftrightarrow> lnext h (Node n) = Node n \<and> lprev h (Node n) = Node n"

definition repr :: "('h, 'n) lnode links \<Rightarrow> ('h, 'n) queues \<Rightarrow> bool" where
  "repr h Q \<longleftrightarrow> q_ok Q \<and> (\<forall>l. dll h (Head l) (map Node (Q l))) \<and>
     (\<forall>n. (\<forall>l. n \<notin> set (Q l)) \<longrightarrow> unlinked h n)"

lemma reprD:
  "repr h Q \<Longrightarrow> q_ok Q" "repr h Q \<Longrightarrow> dll h (Head l) (map Node (Q l))"
  "repr h Q \<Longrightarrow> \<forall>l. n \<notin> set (Q l) \<Longrightarrow> unlinked h n"
  by (auto simp: repr_def)

lemma dll_ends:
  assumes "dll h l xs"
  shows "lnext h l \<in> insert l (set xs)" "lprev h l \<in> insert l (set xs)"
proof -
  have c: "chain h l xs l" using assms by (simp add: dll_def)
  then show "lnext h l \<in> insert l (set xs)" "lprev h l \<in> insert l (set xs)"
    using chain_first [OF c] chain_last [OF c] by (cases xs, auto)+
qed

lemma dll_inner:
  assumes d: "dll h l xs" and n: "n \<in> set xs"
  shows "lnext h n \<in> insert l (set xs)" "lprev h n \<in> insert l (set xs)"
proof -
  obtain ys zs where xs: "xs = ys @ n # zs" using n by (auto simp: in_set_conv_decomp)
  have "chain h l ys n" "chain h n zs l" using d by (auto simp: dll_def xs)
  then have "lprev h n = last (l # ys)" "lnext h n = hd (zs @ [l])"
    by (auto dest: chain_last chain_first)
  then show "lnext h n \<in> insert l (set xs)" "lprev h n \<in> insert l (set xs)"
    by (cases zs, auto simp: xs)+
qed

text \<open>A family keeps its other lists when one of them is replaced by stores that stay
  within its own nodes and the node \<open>n\<close>.\<close>

lemma repr_upd:
  assumes r: "repr h Q" and Q': "q_ok Q'" "\<And>l'. l' \<noteq> l \<Longrightarrow> Q' l' = Q l'"
    and d: "dll h' (Head l) (map Node (Q' l))"
    and n: "\<forall>l'. l' \<noteq> l \<longrightarrow> n \<notin> set (Q l')"
    and sub: "Q l = [] \<or> set (Q l) \<subseteq> insert n (set (Q' l))"
    and un: "n \<notin> set (Q' l) \<Longrightarrow> unlinked h' n"
    and frame: "\<And>x. x \<notin> insert (Head l) (insert (Node n) (Node ` set (Q l))) \<Longrightarrow>
      lnext h' x = lnext h x \<and> lprev h' x = lprev h x"
  shows "repr h' Q'"
proof -
  have "dll h' (Head l') (map Node (Q' l'))" for l'
  proof (cases "l' = l")
    case False
    have "\<And>m. m \<in> set (Q l') \<Longrightarrow> m \<notin> set (Q l)"
      using q_okD(2) [OF reprD(1) [OF r]] False by blast
    with False n show ?thesis
      by (auto simp: Q'(2) intro!: dll_frame [OF reprD(2) [OF r]] frame)
  qed (use d in simp)
  moreover have "unlinked h' m" if m: "\<forall>l'. m \<notin> set (Q' l')" for m
  proof (cases "m = n")
    case False
    have free: "m \<notin> set (Q l')" for l'
    proof (cases "l' = l")
      case True
      then show ?thesis using m sub False by auto
    next
      case neq: False
      then show ?thesis using m Q'(2) [OF neq] by metis
    qed
    then have "unlinked h m" using reprD(3) [OF r] by simp
    moreover have "lnext h' (Node m) = lnext h (Node m) \<and> lprev h' (Node m) = lprev h (Node m)"
      using free False by (intro frame) auto
    ultimately show ?thesis by (simp add: unlinked_def)
  qed (use un m in blast)
  ultimately show ?thesis using Q'(1) by (simp add: repr_def)
qed

lemma repr_insert_tail:
  assumes r: "repr h Q" and n: "\<forall>l. n \<notin> set (Q l)"
  shows "repr (rt_list_insert_before (Head l) (Node n) h) (q_insert_tail l n Q)"
proof (rule repr_upd [OF r, where l = l and n = n])
  show "q_ok (q_insert_tail l n Q)" using r n by (simp add: reprD q_ok_insert)
  show "dll (rt_list_insert_before (Head l) (Node n) h) (Head l)
      (map Node (q_insert_tail l n Q l))"
    using dll_insert_before_head [OF reprD(2) [OF r, of l], of "Node n"] n
    by (auto simp: q_defs)
  show "lnext (rt_list_insert_before (Head l) (Node n) h) x = lnext h x \<and>
      lprev (rt_list_insert_before (Head l) (Node n) h) x = lprev h x"
    if "x \<notin> insert (Head l) (insert (Node n) (Node ` set (Q l)))" for x
    using dll_ends(2) [OF reprD(2) [OF r, of l]] that by (auto simp: links_before)
qed (use n in \<open>auto simp: q_defs\<close>)

lemma repr_insert_head:
  assumes r: "repr h Q" and n: "\<forall>l. n \<notin> set (Q l)"
  shows "repr (rt_list_insert_after (Head l) (Node n) h) (q_insert_head l n Q)"
proof (rule repr_upd [OF r, where l = l and n = n])
  show "q_ok (q_insert_head l n Q)" using r n by (simp add: reprD q_ok_insert)
  show "dll (rt_list_insert_after (Head l) (Node n) h) (Head l)
      (map Node (q_insert_head l n Q l))"
    using dll_insert_after_head [OF reprD(2) [OF r, of l], of "Node n"] n
    by (auto simp: q_defs)
  show "lnext (rt_list_insert_after (Head l) (Node n) h) x = lnext h x \<and>
      lprev (rt_list_insert_after (Head l) (Node n) h) x = lprev h x"
    if "x \<notin> insert (Head l) (insert (Node n) (Node ` set (Q l)))" for x
    using dll_ends(1) [OF reprD(2) [OF r, of l]] that by (auto simp: links_after)
qed (use n in \<open>auto simp: q_defs\<close>)

lemma repr_insert_before:
  assumes r: "repr h Q" and n: "\<forall>l. n \<notin> set (Q l)" and m: "m \<in> set (Q l)"
  shows "repr (rt_list_insert_before (Node m) (Node n) h) (q_insert_before m n Q)"
proof (rule repr_upd [OF r, where l = l and n = n])
  obtain xs ys where Ql: "Q l = xs @ m # ys" and mx: "m \<notin> set xs"
    using split_list_first [OF m] by blast
  have d: "dll h (Head l) (map Node xs @ Node m # map Node ys)"
    using reprD(2) [OF r, of l] by (simp add: Ql)
  show "q_ok (q_insert_before m n Q)" using r n by (simp add: reprD q_ok_insert_before)
  show "q_insert_before m n Q l' = Q l'" if "l' \<noteq> l" for l'
    using q_okD(2) [OF reprD(1) [OF r] m, of l'] that
    by (auto simp: q_defs intro: insert_before_notin)
  have nn: "Node n \<notin> set (Head l # map Node xs @ Node m # map Node ys)"
    using spec [OF n, of l] by (auto simp: Ql)
  show "dll (rt_list_insert_before (Node m) (Node n) h) (Head l)
      (map Node (q_insert_before m n Q l))"
    using dll_insert_before_node [OF d nn] by (simp add: q_defs Ql insert_before_split [OF mx])
  show "lnext (rt_list_insert_before (Node m) (Node n) h) x = lnext h x \<and>
      lprev (rt_list_insert_before (Node m) (Node n) h) x = lprev h x"
    if "x \<notin> insert (Head l) (insert (Node n) (Node ` set (Q l)))" for x
    using dll_inner(2) [OF reprD(2) [OF r, of l], of "Node m"] m that by (auto simp: links_before)
qed (use n m in \<open>auto simp: q_defs set_insert_before\<close>)

lemma removeAll_split:
  "n \<notin> set xs \<Longrightarrow> n \<notin> set ys \<Longrightarrow> removeAll n (xs @ n # ys) = xs @ ys"
  by simp

lemma repr_remove:
  assumes r: "repr h Q"
  shows "repr (rt_list_remove (Node n) h) (q_remove n Q)"
proof (cases "\<exists>l. n \<in> set (Q l)")
  case False
  then have u: "unlinked h n" using reprD(3) [OF r] by blast
  then have "rt_list_remove (Node n) h = h"
    using links_remove_self [of h "Node n"] by (simp add: unlinked_def links.equality)
  moreover have "q_remove n Q = Q" using False by (auto simp: q_defs fun_eq_iff)
  ultimately show ?thesis using r by simp
next
  case True
  then obtain l where l: "n \<in> set (Q l)" by blast
  then obtain xs ys where Ql: "Q l = xs @ n # ys" by (auto simp: in_set_conv_decomp)
  have nxy: "n \<notin> set xs" "n \<notin> set ys" using q_okD(1) [OF reprD(1) [OF r], of l] Ql by auto
  have d: "dll h (Head l) (map Node xs @ Node n # map Node ys)"
    using reprD(2) [OF r, of l] by (simp add: Ql)
  have other: "n \<notin> set (Q l')" if "l' \<noteq> l" for l'
    using q_okD(2) [OF reprD(1) [OF r] l, of l'] that by blast
  show ?thesis
  proof (rule repr_upd [OF r, where l = l and n = n])
    show "q_ok (q_remove n Q)" using r by (simp add: reprD q_ok_remove)
    show "dll (rt_list_remove (Node n) h) (Head l) (map Node (q_remove n Q l))"
      using dll_remove(1) [OF d] nxy by (simp add: q_defs Ql)
    show "unlinked (rt_list_remove (Node n) h) n"
      using dll_remove(2,3) [OF d] by (simp add: unlinked_def)
    show "lnext (rt_list_remove (Node n) h) x = lnext h x \<and>
        lprev (rt_list_remove (Node n) h) x = lprev h x"
      if "x \<notin> insert (Head l) (insert (Node n) (Node ` set (Q l)))" for x
      using dll_inner [OF reprD(2) [OF r, of l], of "Node n"] l that
      by (auto simp: rt_list_remove_def Let_def)
  qed (use other in \<open>auto simp: q_defs\<close>)
qed

text \<open>The elements of a list, read off the heap by the traversal macro.\<close>

definition links_members :: "('h, 'n) lnode links \<Rightarrow> 'h \<Rightarrow> 'n list" where
  "links_members h l =
     (case rt_list_for_each (Head l) h of Some ns \<Rightarrow> map node_of ns | None \<Rightarrow> [])"

lemma links_members_repr: "repr h Q \<Longrightarrow> links_members h = Q"
  by (auto simp: links_members_def fun_eq_iff rt_list_for_each_dll [OF reprD(2)] comp_def)

definition links_wf :: "('h, 'n) lnode links \<Rightarrow> bool" where
  "links_wf h \<longleftrightarrow> (\<exists>Q. repr h Q)"

lemma links_wf_repr: "links_wf h \<longleftrightarrow> repr h (links_members h)"
  by (auto simp: links_wf_def links_members_repr)

lemma links_step:
  "repr h' Q' \<Longrightarrow> links_wf h' \<and> links_members h' = Q'"
  by (auto simp: links_wf_def links_members_repr)

interpretation pl: list_heads links_members links_wf
    "\<lambda>l n. rt_list_insert_before (Head l) (Node n)"
    "\<lambda>l n. rt_list_insert_after (Head l) (Node n)"
    "\<lambda>m n. rt_list_insert_before (Node m) (Node n)"
    "\<lambda>n. rt_list_remove (Node n)"
    "\<lambda>l. rt_list_isempty (Head l)"
proof (unfold_locales, goal_cases)
  case (1 s)
  then show ?case by (simp add: links_wf_repr reprD)
next
  case (2 s n h)
  then show ?case by (intro links_step repr_insert_tail) (simp_all add: links_wf_repr)
next
  case (3 s n h)
  then show ?case by (intro links_step repr_insert_head) (simp_all add: links_wf_repr)
next
  case (4 s n m l)
  then show ?case by (intro links_step repr_insert_before) (simp_all add: links_wf_repr)
next
  case (5 s n)
  then show ?case by (intro links_step repr_remove) (simp_all add: links_wf_repr)
next
  case (6 s h)
  then show ?case using dll_isempty [OF reprD(2), of s "links_members s" h]
    by (simp add: links_wf_repr)
qed

text \<open>A linked node whose two neighbours are the same node is alone in its list: the test by
  which \<^verbatim>\<open>rt_thread_yield\<close> sees that there is nobody to yield to.\<close>

lemma next_neq_prev:
  assumes r: "repr h Q" and n: "n \<in> set (Q l)"
  shows "lnext h (Node n) \<noteq> lprev h (Node n) \<longleftrightarrow> 1 < length (Q l)"
proof -
  obtain xs ys where Ql: "Q l = xs @ n # ys" using n by (auto simp: in_set_conv_decomp)
  have d: "dll h (Head l) (map Node xs @ Node n # map Node ys)"
    using reprD(2) [OF r, of l] by (simp add: Ql)
  then have "lprev h (Node n) = last (Head l # map Node xs)"
    "lnext h (Node n) = hd (map Node ys @ [Head l])"
    by (auto simp: dll_def dest: chain_last chain_first)
  moreover have "distinct (xs @ n # ys)"
    using q_okD(1) [OF reprD(1) [OF r], of l] by (simp add: Ql)
  ultimately show ?thesis
    by (cases ys; cases xs rule: rev_cases) (auto simp: Ql)
qed

end
