(* ===== verification/Ffs.thy ===== *)
theory Ffs
  imports Prelude
begin

text \<open>
  Find-first-set, \<^verbatim>\<open>__rt_ffs\<close> of \<^verbatim>\<open>src/kservice.c\<close>: the table-driven search for the least
  significant set bit that the scheduler uses to find the highest ready priority.  The
  theory proves it against the mathematical definition for every 32-bit value.
\<close>

section \<open>The table and the function\<close>

definition lowest_bit_bitmap :: "int list" where
  "lowest_bit_bitmap =
    [0, 0, 1, 0, 2, 0, 1, 0, 3, 0, 1, 0, 2, 0, 1, 0,
     4, 0, 1, 0, 2, 0, 1, 0, 3, 0, 1, 0, 2, 0, 1, 0,
     5, 0, 1, 0, 2, 0, 1, 0, 3, 0, 1, 0, 2, 0, 1, 0,
     4, 0, 1, 0, 2, 0, 1, 0, 3, 0, 1, 0, 2, 0, 1, 0,
     6, 0, 1, 0, 2, 0, 1, 0, 3, 0, 1, 0, 2, 0, 1, 0,
     4, 0, 1, 0, 2, 0, 1, 0, 3, 0, 1, 0, 2, 0, 1, 0,
     5, 0, 1, 0, 2, 0, 1, 0, 3, 0, 1, 0, 2, 0, 1, 0,
     4, 0, 1, 0, 2, 0, 1, 0, 3, 0, 1, 0, 2, 0, 1, 0,
     7, 0, 1, 0, 2, 0, 1, 0, 3, 0, 1, 0, 2, 0, 1, 0,
     4, 0, 1, 0, 2, 0, 1, 0, 3, 0, 1, 0, 2, 0, 1, 0,
     5, 0, 1, 0, 2, 0, 1, 0, 3, 0, 1, 0, 2, 0, 1, 0,
     4, 0, 1, 0, 2, 0, 1, 0, 3, 0, 1, 0, 2, 0, 1, 0,
     6, 0, 1, 0, 2, 0, 1, 0, 3, 0, 1, 0, 2, 0, 1, 0,
     4, 0, 1, 0, 2, 0, 1, 0, 3, 0, 1, 0, 2, 0, 1, 0,
     5, 0, 1, 0, 2, 0, 1, 0, 3, 0, 1, 0, 2, 0, 1, 0,
     4, 0, 1, 0, 2, 0, 1, 0, 3, 0, 1, 0, 2, 0, 1, 0]"

definition rt_ffs :: "u32 \<Rightarrow> int" where
  "rt_ffs v =
     (if v = 0 then 0
      else if v AND 0xff \<noteq> 0 then lowest_bit_bitmap ! unat (v AND 0xff) + 1
      else if v AND 0xff00 \<noteq> 0
        then lowest_bit_bitmap ! unat (drop_bit 8 (v AND 0xff00)) + 9
      else if v AND 0xff0000 \<noteq> 0
        then lowest_bit_bitmap ! unat (drop_bit 16 (v AND 0xff0000)) + 17
      else lowest_bit_bitmap ! unat (drop_bit 24 (v AND 0xff000000)) + 25)"

section \<open>The table is right\<close>

definition is_lowest_bit :: "nat \<Rightarrow> nat \<Rightarrow> bool" where
  "is_lowest_bit b i \<longleftrightarrow> bit b i \<and> (\<forall>j<i. \<not> bit b j)"

text \<open>The table checked entry by entry: \<open>b = 2 ^ e * odd\<close>.\<close>

fun table_ok :: "nat \<Rightarrow> int list \<Rightarrow> bool" where
  "table_ok b [] = True"
| "table_ok b (e # es) \<longleftrightarrow>
     (b = 0 \<or> 0 \<le> e \<and> odd (b div 2 ^ nat e) \<and> b mod 2 ^ nat e = 0) \<and> table_ok (b + 1) es"

lemma table_ok_bitmap: "table_ok 0 lowest_bit_bitmap"
  by (simp add: lowest_bit_bitmap_def)

lemma table_ok_nth:
  "table_ok b es \<Longrightarrow> i < length es \<Longrightarrow> b + i \<noteq> 0 \<Longrightarrow>
   0 \<le> es ! i \<and> odd ((b + i) div 2 ^ nat (es ! i)) \<and> (b + i) mod 2 ^ nat (es ! i) = 0"
proof (induction es arbitrary: b i)
  case (Cons e es)
  show ?case
  proof (cases i)
    case (Suc j)
    with Cons.prems Cons.IH [of "b + 1" j] show ?thesis by simp
  qed (use Cons.prems in auto)
qed simp

lemma bitmap_correct:
  assumes "0 < b" "b < 256"
  shows "is_lowest_bit b (nat (lowest_bit_bitmap ! b))" "0 \<le> lowest_bit_bitmap ! b"
proof -
  let ?e = "nat (lowest_bit_bitmap ! b)"
  have "length lowest_bit_bitmap = 256" by (simp add: lowest_bit_bitmap_def)
  then have *: "0 \<le> lowest_bit_bitmap ! b" "odd (b div 2 ^ ?e)" "take_bit ?e b = 0"
    using table_ok_nth [OF table_ok_bitmap, of b] assms by (auto simp: take_bit_eq_mod)
  then have "\<not> bit b j" if "j < ?e" for j
    using that bit_take_bit_iff [of ?e b j] by simp
  with * show "is_lowest_bit b ?e" "0 \<le> lowest_bit_bitmap ! b"
    by (simp_all add: is_lowest_bit_def bit_iff_odd)
qed

section \<open>The function is right\<close>

text \<open>The byte of \<open>v\<close> that a branch looks at.\<close>

definition byte_at :: "nat \<Rightarrow> u32 \<Rightarrow> nat" where
  "byte_at k v = unat (drop_bit k (v AND push_bit k 0xff))"

lemma ff_mask: "(0xff :: u32) = mask 8"
  by (simp add: mask_eq_exp_minus_1)

lemma byte_bit: "bit (byte_at k v) i \<longleftrightarrow> i < 8 \<and> k + i < 32 \<and> bit v (k + i)"
  by (auto simp: byte_at_def ff_mask bit_unsigned_iff bit_drop_bit_eq bit_and_iff bit_push_bit_iff
      bit_mask_iff simp del: drop_bit_and dest: bit_imp_le_length)

lemma byte_bound: "byte_at k v < 256"
proof -
  have "byte_at k v = take_bit 8 (byte_at k v)"
    by (rule bit_eqI) (auto simp: bit_take_bit_iff byte_bit)
  then show ?thesis using take_bit_nat_less_exp [of 8 "byte_at k v"] by simp
qed

text \<open>One branch: the lower bytes are zero and this one is not.\<close>

lemma byte_lowest:
  fixes v :: u32 and k :: nat
  defines "b \<equiv> byte_at k v"
  assumes nz: "b \<noteq> 0" and low: "\<And>i. i < k \<Longrightarrow> \<not> bit v i"
  shows "\<exists>n. lowest_bit_bitmap ! b = int n \<and> bit v (k + n) \<and> (\<forall>i < k + n. \<not> bit v i)"
proof -
  define n where "n = nat (lowest_bit_bitmap ! b)"
  have b: "0 < b" "b < 256" using nz by (simp_all add: b_def byte_bound)
  then have n: "lowest_bit_bitmap ! b = int n" and l: "is_lowest_bit b n"
    using bitmap_correct by (simp_all add: n_def)
  have "bit v (k + n)" and n8: "n < 8" "k + n < 32"
    using l by (simp_all add: is_lowest_bit_def b_def byte_bit)
  moreover have "\<not> bit v i" if "i < k + n" for i
  proof (cases "i < k")
    case False
    define j where "j = i - k"
    have j: "i = k + j" "j < n" using False that by (simp_all add: j_def)
    then have "\<not> bit b j" using l by (simp add: is_lowest_bit_def)
    with j n8 show ?thesis by (simp add: b_def byte_bit)
  qed (use low in simp)
  ultimately show ?thesis using n by blast
qed

lemma byte_zero:
  fixes v :: u32
  assumes z: "v AND push_bit k 0xff = 0" and i: "k \<le> i" "i < k + 8" "i < 32"
  shows "\<not> bit v i"
proof -
  have "byte_at k v = 0" by (simp only: byte_at_def z) simp
  with byte_bit [of k v "i - k"] i show ?thesis by simp
qed

lemma byte_masks:
  "(0xff :: u32) = push_bit 0 0xff" "(0xff00 :: u32) = push_bit 8 0xff"
  "(0xff0000 :: u32) = push_bit 16 0xff" "(0xff000000 :: u32) = push_bit 24 0xff"
  by (simp_all add: push_bit_eq_mult)

lemma byte_nonzero:
  assumes "v AND push_bit k 0xff \<noteq> 0"
  shows "byte_at k v \<noteq> 0"
proof
  assume z: "byte_at k v = 0"
  have "v AND push_bit k 0xff = 0"
  proof (rule bit_word_eqI)
    fix i assume "i < LENGTH(32)"
    have "\<not> bit (byte_at k v) (i - k)" using z by simp
    then have "k \<le> i \<Longrightarrow> i - k < 8 \<Longrightarrow> \<not> bit v i"
      using \<open>i < LENGTH(32)\<close> by (simp add: byte_bit)
    then show "bit (v AND push_bit k 0xff) i = bit 0 i"
      by (auto simp: ff_mask bit_and_iff bit_push_bit_iff bit_mask_iff)
  qed
  with assms show False by simp
qed

text \<open>\<open>rt_ffs\<close> returns one more than the index of the lowest set bit.\<close>

lemma rt_ffs_lowest:
  assumes "v \<noteq> 0"
  shows "\<exists>n. rt_ffs v = int n + 1 \<and> n < 32 \<and> bit v n \<and> (\<forall>i<n. \<not> bit v i)"
proof -
  have branch: "\<exists>n. lowest_bit_bitmap ! byte_at k v + int k + 1 = int n + 1 \<and> n < 32 \<and>
      bit v n \<and> (\<forall>i<n. \<not> bit v i)"
    if nz: "v AND push_bit k 0xff \<noteq> 0" and low: "\<And>i. i < k \<Longrightarrow> \<not> bit v i" for k
  proof -
    obtain n where n: "lowest_bit_bitmap ! byte_at k v = int n"
      "bit v (k + n)" "\<forall>i < k + n. \<not> bit v i"
      using byte_lowest [OF byte_nonzero [OF nz] low] by blast
    then show ?thesis
      using bit_imp_le_length [OF n(2)] by (intro exI [of _ "k + n"]) auto
  qed
  have low8: "\<not> bit v i" if "v AND push_bit 0 0xff = 0" "i < 8" for i
    using byte_zero [OF that(1)] that(2) by simp
  have low16: "\<not> bit v i" if "v AND push_bit 0 0xff = 0" "v AND push_bit 8 0xff = 0" "i < 16" for i
    using byte_zero [OF that(2), of i] low8 [OF that(1)] that(3) by (cases "i < 8") auto
  have low24: "\<not> bit v i" if "v AND push_bit 0 0xff = 0" "v AND push_bit 8 0xff = 0"
      "v AND push_bit 16 0xff = 0" "i < 24" for i
    using byte_zero [OF that(3), of i] low16 [OF that(1,2)] that(4) by (cases "i < 16") auto
  have all: "v AND push_bit 24 0xff \<noteq> 0" if "v AND push_bit 0 0xff = 0"
      "v AND push_bit 8 0xff = 0" "v AND push_bit 16 0xff = 0"
  proof
    assume z: "v AND push_bit 24 0xff = 0"
    have "\<not> bit v i" if "i < 32" for i
      using byte_zero [OF z, of i] low24 [OF \<open>v AND push_bit 0 0xff = 0\<close>
          \<open>v AND push_bit 8 0xff = 0\<close> \<open>v AND push_bit 16 0xff = 0\<close>, of i] that
      by (cases "i < 24") auto
    then have "v = 0" by (intro bit_word_eqI) simp
    with assms show False by simp
  qed
  have eq: "rt_ffs v =
     (if v AND push_bit 0 0xff \<noteq> 0 then lowest_bit_bitmap ! byte_at 0 v + int 0 + 1
      else if v AND push_bit 8 0xff \<noteq> 0 then lowest_bit_bitmap ! byte_at 8 v + int 8 + 1
      else if v AND push_bit 16 0xff \<noteq> 0 then lowest_bit_bitmap ! byte_at 16 v + int 16 + 1
      else lowest_bit_bitmap ! byte_at 24 v + int 24 + 1)"
    using assms unfolding rt_ffs_def byte_masks(2-4) by (simp add: byte_at_def)
  show ?thesis
  proof (cases "v AND push_bit 0 0xff = 0")
    case 0: True
    show ?thesis
    proof (cases "v AND push_bit 8 0xff = 0")
      case 8: True
      show ?thesis
      proof (cases "v AND push_bit 16 0xff = 0")
        case True
        with 0 8 show ?thesis using branch [OF all low24] eq by simp
      next
        case False
        with 0 8 show ?thesis using branch [OF False low16] eq by simp
      qed
    next
      case False
      with 0 show ?thesis using branch [OF False low8] eq by simp
    qed
  next
    case False
    then show ?thesis using branch [OF False] eq by simp
  qed
qed

end
