(* ===== verification/Kernel_State.thy ===== *)
theory Kernel_State
  imports Queues Ffs
begin

text \<open>
  The data of the kernel: the structs of \<^verbatim>\<open>include/rtdef.h\<close> as records, and one record
  \<open>kernel\<close> for the variables of \<^verbatim>\<open>src/scheduler.c\<close>, \<^verbatim>\<open>src/timer.c\<close>, \<^verbatim>\<open>src/clock.c\<close>,
  \<^verbatim>\<open>src/irq.c\<close>, \<^verbatim>\<open>src/object.c\<close>, \<^verbatim>\<open>libcpu/cpuport.c\<close> and the memory in which the kernel
  objects live.

  Addresses of objects are abstract: a thread control block, a timer and each kind of IPC
  object has its own numbering.  A list node embedded in an object is identified with that
  object, so a list of threads is a list of thread numbers; theory \<open>Queues\<close> proves that the
  pointer operations of the code do to the pointers what the list operations used here do to
  the lists, as long as a node that is inserted is not already linked.

  Interrupts are disabled around every sequence of stores the code protects, so a routine is
  one atomic step up to the point where it gives up the processor.  A call that blocks is
  split there: the locals the C stack keeps across \<^verbatim>\<open>rt_schedule()\<close> are saved in a \<open>frame\<close>,
  and a second definition models the code that runs when the thread is scheduled again.
\<close>

section \<open>Identifiers\<close>

type_synonym tid = nat

datatype tmid = ThreadTimer tid | UserTimer nat

datatype oref = OThread tid | OTimer tmid | OSem nat | OMutex nat | OEvent nat
  | OMailBox nat | OMessageQueue nat | OMemPool nat

datatype ipcq = QSem nat | QMutex nat | QEvent nat | QMailBox nat | QMbSender nat
  | QMessageQueue nat | QMemPool nat

datatype qhead = Ready nat | Suspend ipcq | Defunct

section \<open>Object classes, flags, states\<close>

definition RT_NAME_MAX :: nat where "RT_NAME_MAX = 8"

definition RT_Object_Class_Null :: u8 where "RT_Object_Class_Null = 0"
definition RT_Object_Class_Thread :: u8 where "RT_Object_Class_Thread = 1"
definition RT_Object_Class_Semaphore :: u8 where "RT_Object_Class_Semaphore = 2"
definition RT_Object_Class_Mutex :: u8 where "RT_Object_Class_Mutex = 3"
definition RT_Object_Class_Event :: u8 where "RT_Object_Class_Event = 4"
definition RT_Object_Class_MailBox :: u8 where "RT_Object_Class_MailBox = 5"
definition RT_Object_Class_MessageQueue :: u8 where "RT_Object_Class_MessageQueue = 6"
definition RT_Object_Class_MemHeap :: u8 where "RT_Object_Class_MemHeap = 7"
definition RT_Object_Class_MemPool :: u8 where "RT_Object_Class_MemPool = 8"
definition RT_Object_Class_Device :: u8 where "RT_Object_Class_Device = 9"
definition RT_Object_Class_Timer :: u8 where "RT_Object_Class_Timer = 10"
definition RT_Object_Class_Module :: u8 where "RT_Object_Class_Module = 11"
definition RT_Object_Class_Unknown :: u8 where "RT_Object_Class_Unknown = 12"
definition RT_Object_Class_Static :: u8 where "RT_Object_Class_Static = 0x80"

lemmas class_defs = RT_Object_Class_Null_def RT_Object_Class_Thread_def
  RT_Object_Class_Semaphore_def RT_Object_Class_Mutex_def RT_Object_Class_Event_def
  RT_Object_Class_MailBox_def RT_Object_Class_MessageQueue_def RT_Object_Class_MemHeap_def
  RT_Object_Class_MemPool_def RT_Object_Class_Device_def RT_Object_Class_Timer_def
  RT_Object_Class_Module_def RT_Object_Class_Unknown_def RT_Object_Class_Static_def

definition RT_THREAD_INIT :: u8 where "RT_THREAD_INIT = 0x00"
definition RT_THREAD_READY :: u8 where "RT_THREAD_READY = 0x01"
definition RT_THREAD_SUSPEND :: u8 where "RT_THREAD_SUSPEND = 0x02"
definition RT_THREAD_CLOSE :: u8 where "RT_THREAD_CLOSE = 0x04"
definition RT_THREAD_STAT_MASK :: u8 where "RT_THREAD_STAT_MASK = 0x0f"

lemmas stat_defs = RT_THREAD_INIT_def RT_THREAD_READY_def RT_THREAD_SUSPEND_def
  RT_THREAD_CLOSE_def RT_THREAD_STAT_MASK_def

definition RT_TIMER_FLAG_ACTIVATED :: u8 where "RT_TIMER_FLAG_ACTIVATED = 0x1"
definition RT_TIMER_FLAG_ONE_SHOT :: u8 where "RT_TIMER_FLAG_ONE_SHOT = 0x0"
definition RT_TIMER_FLAG_PERIODIC :: u8 where "RT_TIMER_FLAG_PERIODIC = 0x2"

lemmas tflag_defs = RT_TIMER_FLAG_ACTIVATED_def RT_TIMER_FLAG_ONE_SHOT_def
  RT_TIMER_FLAG_PERIODIC_def

definition RT_IPC_FLAG_FIFO :: u8 where "RT_IPC_FLAG_FIFO = 0x00"
definition RT_IPC_FLAG_PRIO :: u8 where "RT_IPC_FLAG_PRIO = 0x01"

definition RT_IPC_CMD_RESET :: int where "RT_IPC_CMD_RESET = 0x01"

definition RT_THREAD_PRIORITY_MAX :: nat where "RT_THREAD_PRIORITY_MAX = 32"

section \<open>Structs\<close>

record rt_object =
  oname :: string
  otype :: u8
  oflag :: u8

record rt_thread =
  th_error :: rt_err_t
  stat :: u8
  current_priority :: u8
  init_priority :: u8
  number_mask :: u32
  event_set :: u32
  event_info :: u8
  th_init_tick :: u32
  remaining_tick :: u32
  cleanup :: bool   \<comment> \<open>whether a cleanup function is installed\<close>

text \<open>What a timer calls when it expires: \<^verbatim>\<open>rt_thread_timeout\<close> on a thread, or a function
  and a parameter of the application.\<close>

datatype timeout = ThreadTimeout tid | UserTimeout nat nat

record rt_timer =
  timeout_func :: timeout
  init_tick :: u32
  timeout_tick :: u32

record rt_semaphore =
  sem_value :: u16

record rt_mutex =
  mutex_value :: u16
  original_priority :: u8
  hold :: u8
  owner :: "tid option"

record rt_event =
  ev_set :: u32

record rt_mailbox =
  msg_pool :: "nat \<Rightarrow> u32"
  mb_size :: u16
  mb_entry :: u16
  in_offset :: u16
  out_offset :: u16

text \<open>A message queue and its pool: the blocks of the pool are numbered, \<open>msg_next\<close> is the
  \<^verbatim>\<open>next\<close> pointer in the header of a block (\<open>None\<close> for \<^verbatim>\<open>RT_NULL\<close>) and \<open>msg_data\<close> the bytes
  behind the header.\<close>

record rt_messagequeue =
  msg_size :: u16
  max_msgs :: u16
  mq_entry :: u16
  msg_queue_head :: "nat option"
  msg_queue_tail :: "nat option"
  msg_queue_free :: "nat option"
  msg_next :: "nat \<Rightarrow> nat option"
  msg_data :: "nat \<Rightarrow> u8 list"

text \<open>A memory pool.  The word in front of a block holds the address of the next free block, or of
  the pool that the block was taken from.\<close>

record rt_mempool =
  start_address :: u32
  mp_size :: u32
  block_size :: u32
  block_list :: u32
  block_total_count :: u32
  block_free_count :: u32
  suspend_thread_count :: u32

datatype cell = Block u32 | Pool nat

section \<open>Calls that were switched out\<close>

text \<open>The locals that a blocked call keeps on its stack.\<close>

datatype frame =
    FSleep
  | FSemTake nat
  | FMutexTake nat u32         \<comment> \<open>mutex, time\<close>
  | FEventRecv nat
  | FMbSend nat u32 u32 u32     \<comment> \<open>mailbox, value, timeout, tick\_delta\<close>
  | FMbRecv nat u32 u32         \<comment> \<open>mailbox, timeout, tick\_delta\<close>
  | FMqRecv nat u32 u32 u32     \<comment> \<open>queue, size, timeout, tick\_delta\<close>
  | FMpAlloc nat u32 u32        \<comment> \<open>pool, time, before\_sleep\<close>

text \<open>A call either returns or gives up the processor with its frame saved.\<close>

datatype 'r call = Return 'r | Blocked

section \<open>The kernel\<close>

record kernel =
  lock_nest :: u16                          \<comment> \<open>\<open>rt_scheduler_lock_nest\<close>, signed\<close>
  current_thread :: "tid option"
  cur_priority :: u8                        \<comment> \<open>\<open>rt_current_priority\<close>\<close>
  ready_group :: u32                        \<comment> \<open>\<open>rt_thread_ready_priority_group\<close>\<close>
  queues :: "(qhead, tid) queues"
  threads :: "tid \<Rightarrow> rt_thread"
  objs :: "oref \<Rightarrow> rt_object"
  container :: "u8 \<Rightarrow> oref list"            \<comment> \<open>\<open>rt_object_container\<close> by class\<close>
  timers :: "tmid \<Rightarrow> rt_timer"
  timer_list :: "tmid list"                 \<comment> \<open>\<open>rt_timer_list[0]\<close>\<close>
  random_nr :: u32
  rt_tick :: u32
  irq_nest :: u8                            \<comment> \<open>\<open>rt_interrupt_nest\<close>\<close>
  switch_flag :: u32                        \<comment> \<open>\<open>rt_thread_switch_interrupt_flag\<close>\<close>
  switch_from :: "tid option"
  switch_to :: "tid option"
  cpu :: "tid option"                       \<comment> \<open>whose registers the processor holds\<close>
  sems :: "nat \<Rightarrow> rt_semaphore"
  mutexes :: "nat \<Rightarrow> rt_mutex"
  events :: "nat \<Rightarrow> rt_event"
  mailboxes :: "nat \<Rightarrow> rt_mailbox"
  mqs :: "nat \<Rightarrow> rt_messagequeue"
  frames :: "tid \<Rightarrow> frame option"
  mempools :: "nat \<Rightarrow> rt_mempool"
  cells :: "u32 \<Rightarrow> cell"                     \<comment> \<open>the words in front of the blocks of all pools\<close>
  global_errno :: rt_err_t                  \<comment> \<open>\<open>__rt_errno\<close>\<close>

text \<open>Stores into one field of one object.\<close>

definition upd_thread :: "tid \<Rightarrow> (rt_thread \<Rightarrow> rt_thread) \<Rightarrow> kernel \<Rightarrow> kernel" where
  "upd_thread t f s = s\<lparr>threads := (threads s)(t := f (threads s t))\<rparr>"

definition upd_obj :: "oref \<Rightarrow> (rt_object \<Rightarrow> rt_object) \<Rightarrow> kernel \<Rightarrow> kernel" where
  "upd_obj x f s = s\<lparr>objs := (objs s)(x := f (objs s x))\<rparr>"

definition upd_timer :: "tmid \<Rightarrow> (rt_timer \<Rightarrow> rt_timer) \<Rightarrow> kernel \<Rightarrow> kernel" where
  "upd_timer x f s = s\<lparr>timers := (timers s)(x := f (timers s x))\<rparr>"

definition set_frame :: "tid \<Rightarrow> frame option \<Rightarrow> kernel \<Rightarrow> kernel" where
  "set_frame t fr s = s\<lparr>frames := (frames s)(t := fr)\<rparr>"

lemmas upd_defs = upd_thread_def upd_obj_def upd_timer_def set_frame_def

text \<open>\<^verbatim>\<open>thread->stat & RT_THREAD_STAT_MASK\<close>\<close>

definition tstat :: "rt_thread \<Rightarrow> u8" where
  "tstat th = stat th AND RT_THREAD_STAT_MASK"

definition thread_stat :: "kernel \<Rightarrow> tid \<Rightarrow> u8" where
  "thread_stat s t = tstat (threads s t)"

text \<open>\<^verbatim>\<open>state | (thread->stat & ~RT_THREAD_STAT_MASK)\<close>\<close>

definition with_stat :: "u8 \<Rightarrow> rt_thread \<Rightarrow> rt_thread" where
  "with_stat st th = th\<lparr>stat := st OR (stat th AND NOT RT_THREAD_STAT_MASK)\<rparr>"

lemma tstat_with_stat [simp]:
  "tstat (with_stat RT_THREAD_READY th) = RT_THREAD_READY"
  "tstat (with_stat RT_THREAD_SUSPEND th) = RT_THREAD_SUSPEND"
  by (simp_all add: tstat_def with_stat_def stat_defs and.assoc and.left_commute
      bit.conj_disj_distrib2 flip: word_bw_assocs)

lemma with_stat_sel [simp]:
  "current_priority (with_stat st th) = current_priority th"
  "init_priority (with_stat st th) = init_priority th"
  "number_mask (with_stat st th) = number_mask th"
  "th_error (with_stat st th) = th_error th"
  by (simp_all add: with_stat_def)

lemma tstat_assign [simp]:
  "tstat (th\<lparr>stat := RT_THREAD_SUSPEND\<rparr>) = RT_THREAD_SUSPEND"
  "tstat (th\<lparr>stat := RT_THREAD_CLOSE\<rparr>) = RT_THREAD_CLOSE"
  "tstat (th\<lparr>stat := RT_THREAD_INIT\<rparr>) = RT_THREAD_INIT"
  by (simp_all add: tstat_def stat_defs)

lemma stat_neq [simp]:
  "RT_THREAD_READY \<noteq> RT_THREAD_SUSPEND" "RT_THREAD_SUSPEND \<noteq> RT_THREAD_READY"
  "RT_THREAD_READY \<noteq> RT_THREAD_CLOSE" "RT_THREAD_CLOSE \<noteq> RT_THREAD_READY"
  "RT_THREAD_READY \<noteq> RT_THREAD_INIT" "RT_THREAD_INIT \<noteq> RT_THREAD_READY"
  "RT_THREAD_SUSPEND \<noteq> RT_THREAD_CLOSE" "RT_THREAD_CLOSE \<noteq> RT_THREAD_SUSPEND"
  "RT_THREAD_SUSPEND \<noteq> RT_THREAD_INIT" "RT_THREAD_INIT \<noteq> RT_THREAD_SUSPEND"
  "RT_THREAD_CLOSE \<noteq> RT_THREAD_INIT" "RT_THREAD_INIT \<noteq> RT_THREAD_CLOSE"
  by (simp_all add: stat_defs)

section \<open>The state after reset\<close>

text \<open>The \<^verbatim>\<open>.bss\<close> segment is zeroed by \<^verbatim>\<open>start.S\<close>; list heads are set up by
  \<^verbatim>\<open>rt_system_scheduler_init\<close> and \<^verbatim>\<open>rt_system_timer_init\<close>.\<close>

definition zero_kernel :: kernel where
  "zero_kernel = \<lparr>lock_nest = 0, current_thread = None, cur_priority = 0, ready_group = 0,
     queues = (\<lambda>_. []),
     threads = (\<lambda>_. \<lparr>th_error = 0, stat = 0, current_priority = 0, init_priority = 0,
       number_mask = 0, event_set = 0, event_info = 0, th_init_tick = 0, remaining_tick = 0,
       cleanup = False\<rparr>),
     objs = (\<lambda>_. \<lparr>oname = [], otype = 0, oflag = 0\<rparr>), container = (\<lambda>_. []),
     timers = (\<lambda>_. \<lparr>timeout_func = UserTimeout 0 0, init_tick = 0, timeout_tick = 0\<rparr>),
     timer_list = [], random_nr = 0, rt_tick = 0, irq_nest = 0, switch_flag = 0,
     switch_from = None, switch_to = None, cpu = None,
     sems = (\<lambda>_. \<lparr>sem_value = 0\<rparr>),
     mutexes = (\<lambda>_. \<lparr>mutex_value = 0, original_priority = 0, hold = 0, owner = None\<rparr>),
     events = (\<lambda>_. \<lparr>ev_set = 0\<rparr>),
     mailboxes = (\<lambda>_. \<lparr>msg_pool = (\<lambda>_. 0), mb_size = 0, mb_entry = 0, in_offset = 0,
       out_offset = 0\<rparr>),
     mqs = (\<lambda>_. \<lparr>msg_size = 0, max_msgs = 0, mq_entry = 0, msg_queue_head = None,
       msg_queue_tail = None, msg_queue_free = None, msg_next = (\<lambda>_. None),
       msg_data = (\<lambda>_. [])\<rparr>),
     frames = (\<lambda>_. None),
     mempools = (\<lambda>_. \<lparr>start_address = 0, mp_size = 0, block_size = 0, block_list = 0, block_total_count = 0,
       block_free_count = 0, suspend_thread_count = 0\<rparr>),
     cells = (\<lambda>_. Block 0), global_errno = 0\<rparr>"

end
