(* ===== verification/Scheduler.thy ===== *)
theory Scheduler
  imports Kernel_State
begin

text \<open>
  The priority scheduler, \<^verbatim>\<open>src/scheduler.c\<close> (configuration \<^verbatim>\<open>RT_THREAD_PRIORITY_MAX = 32\<close>,
  so one 32-bit group word), with the context switch requests of \<^verbatim>\<open>libcpu/cpuport.c\<close> and
  the interrupt nesting counter of \<^verbatim>\<open>src/irq.c\<close>.

  Its invariant, \<open>sched_inv\<close>, ties together what the code keeps in four places: the state
  and the priority fields of the threads, the lists the threads are linked in, and the bits
  of the ready group.
\<close>

section \<open>Context switches\<close>

text \<open>\<^verbatim>\<open>rt_hw_context_switch\<close> and \<^verbatim>\<open>rt_hw_context_switch_to\<close> are assembly; what the C code
  relies on is that the processor then runs the other thread.\<close>

definition rt_hw_context_switch :: "tid \<Rightarrow> tid \<Rightarrow> kernel \<Rightarrow> kernel" where
  "rt_hw_context_switch from_thread to_thread s = s\<lparr>cpu := Some to_thread\<rparr>"

definition rt_hw_context_switch_interrupt :: "tid \<Rightarrow> tid \<Rightarrow> kernel \<Rightarrow> kernel" where
  "rt_hw_context_switch_interrupt from_thread to_thread s =
     (let s = (if switch_flag s = 0 then s\<lparr>switch_from := Some from_thread\<rparr> else s)
      in s\<lparr>switch_to := Some to_thread, switch_flag := 1\<rparr>)"

text \<open>The exit path of the trap entry performs the switch that was requested, if any.\<close>

definition trap_exit :: "kernel \<Rightarrow> kernel" where
  "trap_exit s = (if switch_flag s = 0 then s else s\<lparr>switch_flag := 0, cpu := switch_to s\<rparr>)"

section \<open>The scheduler\<close>

definition rt_system_scheduler_init :: "kernel \<Rightarrow> kernel" where
  "rt_system_scheduler_init s =
     s\<lparr>lock_nest := 0,
       queues := (\<lambda>h. case h of
           Ready p \<Rightarrow> if p < RT_THREAD_PRIORITY_MAX then [] else queues s (Ready p)
         | Defunct \<Rightarrow> [] | Suspend q \<Rightarrow> queues s (Suspend q)),
       cur_priority := of_nat (RT_THREAD_PRIORITY_MAX - 1),
       current_thread := None, ready_group := 0\<rparr>"

text \<open>The first thread of the highest ready priority.  With no thread ready the code would
  index the table with -1, and with an empty list it would take the list head for a thread:
  neither has a defined result.\<close>

definition highest_ready :: "kernel \<Rightarrow> (int \<times> tid) option" where
  "highest_ready s =
     (let p = rt_ffs (ready_group s) - 1
      in if p < 0 then None
         else case queues s (Ready (nat p)) of [] \<Rightarrow> None | t # _ \<Rightarrow> Some (p, t))"

definition rt_system_scheduler_start :: "kernel \<Rightarrow> kernel option" where
  "rt_system_scheduler_start s = do {
     (p, to_thread) \<leftarrow> highest_ready s;
     Some (s\<lparr>current_thread := Some to_thread, cpu := Some to_thread\<rparr>)
   }"

definition rt_schedule :: "kernel \<Rightarrow> kernel option" where
  "rt_schedule s =
     (if lock_nest s = 0 then do {
        (p, to_thread) \<leftarrow> highest_ready s;
        (if Some to_thread \<noteq> current_thread s then do {
           from_thread \<leftarrow> current_thread s;
           let s = s\<lparr>cur_priority := word_of_int p, current_thread := Some to_thread\<rparr>;
           Some (if irq_nest s = 0 then rt_hw_context_switch from_thread to_thread s
                 else rt_hw_context_switch_interrupt from_thread to_thread s)
         }
         else Some s)
      }
      else Some s)"

definition rt_schedule_insert_thread :: "tid \<Rightarrow> kernel \<Rightarrow> kernel" where
  "rt_schedule_insert_thread t s =
     (let s = upd_thread t (with_stat RT_THREAD_READY) s;
          s = s\<lparr>queues := q_insert_tail (Ready (unat (current_priority (threads s t)))) t (queues s)\<rparr>
      in s\<lparr>ready_group := ready_group s OR number_mask (threads s t)\<rparr>)"

definition rt_schedule_remove_thread :: "tid \<Rightarrow> kernel \<Rightarrow> kernel" where
  "rt_schedule_remove_thread t s =
     (let s = s\<lparr>queues := q_remove t (queues s)\<rparr>
      in if queues s (Ready (unat (current_priority (threads s t)))) = []
         then s\<lparr>ready_group := ready_group s AND NOT (number_mask (threads s t))\<rparr>
         else s)"

definition rt_enter_critical :: "kernel \<Rightarrow> kernel" where
  "rt_enter_critical s = s\<lparr>lock_nest := lock_nest s + 1\<rparr>"

definition rt_exit_critical :: "kernel \<Rightarrow> kernel option" where
  "rt_exit_critical s =
     (let s = s\<lparr>lock_nest := lock_nest s - 1\<rparr>
      in if sint (lock_nest s) \<le> 0
         then let s = s\<lparr>lock_nest := 0\<rparr>
              in if current_thread s \<noteq> None then rt_schedule s else Some s
         else Some s)"

definition rt_critical_level :: "kernel \<Rightarrow> u16" where
  "rt_critical_level s = lock_nest s"

section \<open>Interrupt nesting\<close>

definition rt_interrupt_enter :: "kernel \<Rightarrow> kernel" where
  "rt_interrupt_enter s = s\<lparr>irq_nest := irq_nest s + 1\<rparr>"

definition rt_interrupt_leave :: "kernel \<Rightarrow> kernel" where
  "rt_interrupt_leave s = s\<lparr>irq_nest := irq_nest s - 1\<rparr>"

definition rt_interrupt_get_nest :: "kernel \<Rightarrow> u8" where
  "rt_interrupt_get_nest s = irq_nest s"

text \<open>The context checks of \<^verbatim>\<open>include/rtdebug.h\<close>.\<close>

definition RT_DEBUG_NOT_IN_INTERRUPT :: "kernel \<Rightarrow> unit option" where
  "RT_DEBUG_NOT_IN_INTERRUPT s = RT_ASSERT (rt_interrupt_get_nest s = 0)"

definition RT_DEBUG_IN_THREAD_CONTEXT :: "kernel \<Rightarrow> unit option" where
  "RT_DEBUG_IN_THREAD_CONTEXT s = do {
     RT_ASSERT (current_thread s \<noteq> None);
     RT_DEBUG_NOT_IN_INTERRUPT s
   }"

lemmas debug_defs = RT_DEBUG_NOT_IN_INTERRUPT_def RT_DEBUG_IN_THREAD_CONTEXT_def
  rt_interrupt_get_nest_def

section \<open>The invariant\<close>

text \<open>\<^verbatim>\<open>thread->number_mask = 1L << thread->current_priority\<close>, for a priority below 32.\<close>

definition prio_mask :: "u8 \<Rightarrow> u32" where
  "prio_mask p = push_bit (unat p) 1"

lemma bit_prio_mask: "bit (prio_mask p) q \<longleftrightarrow> q = unat p \<and> q < 32"
  by (auto simp: prio_mask_def bit_push_bit_iff bit_1_iff simp del: push_bit_of_1)

definition thread_ok :: "rt_thread \<Rightarrow> bool" where
  "thread_ok th \<longleftrightarrow> unat (init_priority th) < RT_THREAD_PRIORITY_MAX \<and>
     (tstat th = RT_THREAD_READY \<or> tstat th = RT_THREAD_SUSPEND \<longrightarrow>
        unat (current_priority th) < RT_THREAD_PRIORITY_MAX \<and>
        number_mask th = prio_mask (current_priority th))"

definition sched_ok :: "(qhead, tid) queues \<Rightarrow> u32 \<Rightarrow> (tid \<Rightarrow> rt_thread) \<Rightarrow> bool" where
  "sched_ok Q g th \<longleftrightarrow>
     q_ok Q \<and>
     (\<forall>t p. t \<in> set (Q (Ready p)) \<longleftrightarrow>
        tstat (th t) = RT_THREAD_READY \<and> unat (current_priority (th t)) = p) \<and>
     (\<forall>t q. t \<in> set (Q (Suspend q)) \<longrightarrow> tstat (th t) = RT_THREAD_SUSPEND) \<and>
     (\<forall>t. t \<in> set (Q Defunct) \<longrightarrow> tstat (th t) = RT_THREAD_CLOSE) \<and>
     (\<forall>t. thread_ok (th t)) \<and>
     (\<forall>p. bit g p \<longleftrightarrow> Q (Ready p) \<noteq> [])"

abbreviation sched_inv :: "kernel \<Rightarrow> bool" where
  "sched_inv s \<equiv> sched_ok (queues s) (ready_group s) (threads s)"

lemma sched_okD:
  assumes "sched_ok Q g th"
  shows "q_ok Q"
    and "t \<in> set (Q (Ready p)) \<longleftrightarrow>
           tstat (th t) = RT_THREAD_READY \<and> unat (current_priority (th t)) = p"
    and "t \<in> set (Q (Suspend q)) \<Longrightarrow> tstat (th t) = RT_THREAD_SUSPEND"
    and "t \<in> set (Q Defunct) \<Longrightarrow> tstat (th t) = RT_THREAD_CLOSE"
    and "thread_ok (th t)"
    and "bit g p \<longleftrightarrow> Q (Ready p) \<noteq> []"
  using assms unfolding sched_ok_def by blast+

text \<open>Only the state, the priorities and the mask of a thread matter.\<close>

lemma sched_ok_cong_thread:
  "stat r = stat (th t) \<Longrightarrow> current_priority r = current_priority (th t) \<Longrightarrow>
   init_priority r = init_priority (th t) \<Longrightarrow> number_mask r = number_mask (th t) \<Longrightarrow>
   sched_ok Q g (th(t := r)) = sched_ok Q g th"
  by (auto simp: sched_ok_def thread_ok_def tstat_def)

text \<open>A thread that is neither ready, nor suspended, nor closed is linked nowhere.\<close>

lemma init_unlinked:
  assumes s: "sched_ok Q g th" and t: "tstat (th t) = RT_THREAD_INIT"
  shows "t \<notin> set (Q h)"
proof (cases h)
  case (Ready p)
  with t show ?thesis by (simp add: sched_okD(2) [OF s])
next
  case (Suspend q)
  with t show ?thesis using sched_okD(3) [OF s, of t q] by auto
next
  case Defunct
  with t show ?thesis using sched_okD(4) [OF s, of t] by auto
qed

lemma ready_only:
  assumes s: "sched_ok Q g th" and t: "tstat (th t) = RT_THREAD_READY" and h: "t \<in> set (Q h)"
  shows "h = Ready (unat (current_priority (th t)))"
  using q_okD(2) [OF sched_okD(1) [OF s] h] sched_okD(2) [OF s] t by blast

section \<open>Which thread is chosen\<close>

lemma ready_prio_bound:
  "sched_ok Q g th \<Longrightarrow> Q (Ready p) \<noteq> [] \<Longrightarrow> p < 32"
  using sched_okD(6) [of Q g th p] bit_imp_le_length [of g p] by simp

lemma group_zero:
  "sched_ok Q g th \<Longrightarrow> g = 0 \<longleftrightarrow> (\<forall>p. Q (Ready p) = [])"
  using sched_okD(6) [of Q g th] bit_word_eqI [of g 0] by auto

text \<open>\<open>highest_ready\<close> finds the first thread of the first non-empty ready list.\<close>

lemma highest_ready_iff:
  assumes s: "sched_inv s"
  shows "highest_ready s = Some (int p, t) \<longleftrightarrow>
    (\<exists>ts. queues s (Ready p) = t # ts) \<and> (\<forall>q<p. queues s (Ready q) = [])"
proof (cases "ready_group s = 0")
  case True
  then have "queues s (Ready p) = []" using group_zero [OF s] by blast
  with True show ?thesis by (simp add: highest_ready_def rt_ffs_def)
next
  case False
  then obtain n where n: "rt_ffs (ready_group s) = int n + 1" "bit (ready_group s) n"
      "\<forall>i<n. \<not> bit (ready_group s) i"
    using rt_ffs_lowest by blast
  then have ne: "queues s (Ready n) \<noteq> []" and low: "\<forall>i<n. queues s (Ready i) = []"
    by (auto simp: sched_okD(6) [OF s])
  show ?thesis
  proof
    assume "highest_ready s = Some (int p, t)"
    with n ne low show "(\<exists>ts. queues s (Ready p) = t # ts) \<and> (\<forall>q<p. queues s (Ready q) = [])"
      by (auto simp: highest_ready_def split: list.splits)
  next
    assume a: "(\<exists>ts. queues s (Ready p) = t # ts) \<and> (\<forall>q<p. queues s (Ready q) = [])"
    then have "p = n" using ne low by (metis linorder_neqE_nat list.distinct(1))
    with n a show "highest_ready s = Some (int p, t)"
      by (auto simp: highest_ready_def split: list.splits)
  qed
qed

lemma highest_ready_int:
  "highest_ready s = Some (p, t) \<Longrightarrow> 0 \<le> p"
  by (auto simp: highest_ready_def Let_def split: if_splits list.splits)

lemma highest_ready_ex:
  assumes s: "sched_inv s" and ne: "queues s (Ready q) \<noteq> []"
  obtains p t where "highest_ready s = Some (int p, t)"
proof -
  define p where "p = (LEAST p. queues s (Ready p) \<noteq> [])"
  have "queues s (Ready p) \<noteq> []" unfolding p_def using ne by (rule LeastI)
  moreover have "\<forall>q<p. queues s (Ready q) = []"
    using not_less_Least [of _ "\<lambda>p. queues s (Ready p) \<noteq> []"] unfolding p_def by blast
  moreover obtain t ts where "queues s (Ready p) = t # ts"
    using \<open>queues s (Ready p) \<noteq> []\<close> by (meson neq_Nil_conv)
  ultimately have "highest_ready s = Some (int p, t)"
    using highest_ready_iff [OF s, of p t] by blast
  then show thesis by (rule that)
qed

text \<open>\<open>runs_highest s\<close>: the current thread is the one the scheduler would choose.\<close>

definition runs_highest :: "kernel \<Rightarrow> bool" where
  "runs_highest s \<longleftrightarrow> (\<exists>p t. current_thread s = Some t \<and> highest_ready s = Some (p, t))"

lemma runs_highestD:
  assumes s: "sched_inv s" and h: "runs_highest s"
  obtains t ts where "current_thread s = Some t" "thread_stat s t = RT_THREAD_READY"
    "queues s (Ready (unat (current_priority (threads s t)))) = t # ts"
    "\<And>u. thread_stat s u = RT_THREAD_READY \<Longrightarrow>
       current_priority (threads s t) \<le> current_priority (threads s u)"
proof -
  obtain p t where c: "current_thread s = Some t" and hr: "highest_ready s = Some (p, t)"
    using h by (auto simp: runs_highest_def)
  define n where "n = nat p"
  have p: "p = int n" using highest_ready_int [OF hr] by (simp add: n_def)
  obtain ts where q: "queues s (Ready n) = t # ts" and low: "\<forall>q<n. queues s (Ready q) = []"
    using hr unfolding p highest_ready_iff [OF s] by blast
  have t: "thread_stat s t = RT_THREAD_READY" "unat (current_priority (threads s t)) = n"
    using sched_okD(2) [OF s, of t n] q by (auto simp: thread_stat_def)
  have "current_priority (threads s t) \<le> current_priority (threads s u)"
    if u: "thread_stat s u = RT_THREAD_READY" for u
  proof (rule ccontr)
    assume "\<not> ?thesis"
    then have "unat (current_priority (threads s u)) < n"
      using t(2) by (simp add: word_le_nat_alt)
    with low have "queues s (Ready (unat (current_priority (threads s u)))) = []" by blast
    with u show False
      using sched_okD(2) [OF s, of u "unat (current_priority (threads s u))"]
      by (simp add: thread_stat_def)
  qed
  with c t q show thesis by (intro that) auto
qed

section \<open>What the scheduler leaves alone\<close>

text \<open>\<open>sched_frame s s'\<close>: the two states differ at most in which thread runs.\<close>

definition sched_frame :: "kernel \<Rightarrow> kernel \<Rightarrow> bool" where
  "sched_frame s s' \<longleftrightarrow> lock_nest s' = lock_nest s \<and> ready_group s' = ready_group s \<and>
     queues s' = queues s \<and> threads s' = threads s \<and> objs s' = objs s \<and>
     container s' = container s \<and> timers s' = timers s \<and> timer_list s' = timer_list s \<and>
     random_nr s' = random_nr s \<and> rt_tick s' = rt_tick s \<and> irq_nest s' = irq_nest s \<and>
     sems s' = sems s \<and> mutexes s' = mutexes s \<and> events s' = events s \<and>
     mailboxes s' = mailboxes s \<and> mqs s' = mqs s \<and> frames s' = frames s \<and>
     mempools s' = mempools s \<and> cells s' = cells s \<and> global_errno s' = global_errno s"

lemma sched_frame_sel:
  assumes "sched_frame s s'"
  shows "lock_nest s' = lock_nest s" "ready_group s' = ready_group s" "queues s' = queues s"
    "threads s' = threads s" "objs s' = objs s" "container s' = container s"
    "timers s' = timers s" "timer_list s' = timer_list s" "random_nr s' = random_nr s"
    "rt_tick s' = rt_tick s" "irq_nest s' = irq_nest s" "sems s' = sems s"
    "mutexes s' = mutexes s" "events s' = events s" "mailboxes s' = mailboxes s"
    "mqs s' = mqs s" "frames s' = frames s" "mempools s' = mempools s" "cells s' = cells s"
    "global_errno s' = global_errno s"
  using assms by (simp_all add: sched_frame_def)

lemma sched_frame_refl [simp]: "sched_frame s s"
  by (simp add: sched_frame_def)

text \<open>Either nothing changes, or the processor is handed over.\<close>

lemma rt_schedule_cases:
  assumes "rt_schedule s = Some s'"
  obtains (same) "s' = s" "lock_nest s = 0 \<Longrightarrow> runs_highest s"
  | (switch) p t f where "lock_nest s = 0" "highest_ready s = Some (p, t)"
    "current_thread s = Some f" "t \<noteq> f"
    "s' = (let s1 = s\<lparr>cur_priority := word_of_int p, current_thread := Some t\<rparr>
           in if irq_nest s = 0 then rt_hw_context_switch f t s1
              else rt_hw_context_switch_interrupt f t s1)"
proof (cases "lock_nest s = 0")
  case False
  then show thesis using assms by (intro same) (simp_all add: rt_schedule_def)
next
  case True
  with assms obtain p t where h: "highest_ready s = Some (p, t)"
    by (cases "highest_ready s") (auto simp: rt_schedule_def)
  show thesis
  proof (cases "current_thread s = Some t")
    case True
    with h show thesis
      using assms \<open>lock_nest s = 0\<close> by (intro same) (simp_all add: rt_schedule_def runs_highest_def)
  next
    case False
    with h \<open>lock_nest s = 0\<close> assms obtain f where "current_thread s = Some f" "t \<noteq> f"
      by (cases "current_thread s") (auto simp: rt_schedule_def)
    with h \<open>lock_nest s = 0\<close> show thesis
      using assms by (intro switch [OF \<open>lock_nest s = 0\<close> h])
        (auto simp: rt_schedule_def Let_def)
  qed
qed

lemma rt_schedule_frame:
  assumes "rt_schedule s = Some s'"
  shows "sched_frame s s'"
  using assms
  by (cases rule: rt_schedule_cases) (simp_all add: rt_hw_context_switch_def
      rt_hw_context_switch_interrupt_def Let_def sched_frame_def)

lemmas rt_schedule_sel = sched_frame_sel [OF rt_schedule_frame]

section \<open>Scheduling\<close>

text \<open>With the scheduler unlocked, the thread that runs afterwards is the highest ready one.\<close>

lemma rt_schedule_runs_highest:
  assumes "rt_schedule s = Some s'" "lock_nest s = 0"
  shows "runs_highest s'"
proof -
  have h: "highest_ready s' = highest_ready s"
    by (simp add: highest_ready_def Let_def rt_schedule_sel [OF assms(1)])
  from assms(1) show ?thesis
  proof (cases rule: rt_schedule_cases)
    case same
    then show ?thesis using assms(2) by simp
  next
    case (switch p t f)
    then have "current_thread s' = Some t"
      by (simp add: rt_hw_context_switch_def rt_hw_context_switch_interrupt_def Let_def)
    with switch(2) h show ?thesis by (simp add: runs_highest_def)
  qed
qed

lemma rt_schedule_locked: "lock_nest s \<noteq> 0 \<Longrightarrow> rt_schedule s = Some s"
  by (simp add: rt_schedule_def)

lemma rt_schedule_no_switch: "runs_highest s \<Longrightarrow> rt_schedule s = Some s"
  by (auto simp: rt_schedule_def runs_highest_def)

text \<open>It returns a defined result as soon as one thread is ready (the idle thread always
  is) and the scheduler was started.\<close>

lemma rt_schedule_total:
  assumes "sched_inv s" "queues s (Ready q) \<noteq> []" "current_thread s \<noteq> None"
  shows "\<exists>s'. rt_schedule s = Some s'"
proof -
  obtain p t where "highest_ready s = Some (int p, t)"
    using assms(1,2) by (rule highest_ready_ex)
  with assms(3) show ?thesis by (auto simp: rt_schedule_def Let_def)
qed

section \<open>The invariant is kept\<close>

lemma sched_ok_insert:
  assumes s: "sched_ok Q g th" and t: "\<forall>h. t \<notin> set (Q h)"
    and r: "thread_ok r" "tstat r = RT_THREAD_READY"
  shows "sched_ok (q_insert_tail (Ready (unat (current_priority r))) t Q)
     (g OR number_mask r) (th(t := r))"
proof -
  let ?p = "unat (current_priority r)"
  have p: "?p < 32" "number_mask r = prio_mask (current_priority r)"
    using r by (auto simp: thread_ok_def RT_THREAD_PRIORITY_MAX_def)
  show ?thesis
    unfolding sched_ok_def
  proof (intro conjI allI impI)
    show "q_ok (q_insert_tail (Ready ?p) t Q)"
      using sched_okD(1) [OF s] t by (rule q_ok_insert)
  next
    fix u q
    show "u \<in> set (q_insert_tail (Ready ?p) t Q (Ready q)) \<longleftrightarrow>
      tstat ((th(t := r)) u) = RT_THREAD_READY \<and> unat (current_priority ((th(t := r)) u)) = q"
      using sched_okD(2) [OF s, of u q] t r by (auto simp: q_defs)
  next
    fix u q assume "u \<in> set (q_insert_tail (Ready ?p) t Q (Suspend q))"
    then show "tstat ((th(t := r)) u) = RT_THREAD_SUSPEND"
      using sched_okD(3) [OF s, of u q] t by (auto simp: q_defs)
  next
    fix u assume "u \<in> set (q_insert_tail (Ready ?p) t Q Defunct)"
    then show "tstat ((th(t := r)) u) = RT_THREAD_CLOSE"
      using sched_okD(4) [OF s, of u] t by (auto simp: q_defs)
  next
    fix u show "thread_ok ((th(t := r)) u)" using sched_okD(5) [OF s] r by simp
  next
    fix q show "bit (g OR number_mask r) q \<longleftrightarrow> q_insert_tail (Ready ?p) t Q (Ready q) \<noteq> []"
      using sched_okD(6) [OF s, of q] p
      by (auto simp: q_defs bit_or_iff bit_prio_mask)
  qed
qed

lemma sched_ok_remove:
  assumes s: "sched_ok Q g th"
    and t: "tstat (th t) = RT_THREAD_READY \<or> tstat (th t) = RT_THREAD_SUSPEND"
    and r: "thread_ok r" "tstat r \<noteq> RT_THREAD_READY"
  shows "sched_ok (q_remove t Q)
     (if q_remove t Q (Ready (unat (current_priority (th t)))) = []
      then g AND NOT (number_mask (th t)) else g) (th(t := r))"
proof -
  let ?p = "unat (current_priority (th t))"
  have p: "?p < 32" "number_mask (th t) = prio_mask (current_priority (th t))"
    using sched_okD(5) [OF s, of t] t
    by (auto simp: thread_ok_def RT_THREAD_PRIORITY_MAX_def)
  have other: "t \<notin> set (Q (Ready q))" if "q \<noteq> ?p" for q
    using sched_okD(2) [OF s, of t q] that by simp
  show ?thesis
    unfolding sched_ok_def
  proof (intro conjI allI impI)
    show "q_ok (q_remove t Q)" using sched_okD(1) [OF s] by (rule q_ok_remove)
  next
    fix u q
    show "u \<in> set (q_remove t Q (Ready q)) \<longleftrightarrow>
      tstat ((th(t := r)) u) = RT_THREAD_READY \<and> unat (current_priority ((th(t := r)) u)) = q"
      using sched_okD(2) [OF s, of u q] r by (auto simp: q_defs)
  next
    fix u q assume "u \<in> set (q_remove t Q (Suspend q))"
    then show "tstat ((th(t := r)) u) = RT_THREAD_SUSPEND"
      using sched_okD(3) [OF s, of u q] by (auto simp: q_defs)
  next
    fix u assume "u \<in> set (q_remove t Q Defunct)"
    then show "tstat ((th(t := r)) u) = RT_THREAD_CLOSE"
      using sched_okD(4) [OF s, of u] by (auto simp: q_defs)
  next
    fix u show "thread_ok ((th(t := r)) u)" using sched_okD(5) [OF s] r by simp
  next
    fix q
    show "bit (if q_remove t Q (Ready ?p) = [] then g AND NOT (number_mask (th t)) else g) q
      \<longleftrightarrow> q_remove t Q (Ready q) \<noteq> []"
    proof (cases "q = ?p")
      case True
      then show ?thesis
        using sched_okD(6) [OF s, of q] p ready_prio_bound [OF s, of q]
        by (auto simp: q_defs bit_and_iff bit_not_iff bit_prio_mask)
    next
      case False
      then show ?thesis
        using sched_okD(6) [OF s, of q] p ready_prio_bound [OF s, of q] other [OF False]
        by (auto simp: q_defs bit_and_iff bit_not_iff bit_prio_mask)
    qed
  qed
qed

text \<open>Linking an unlinked thread into a list it may be in.\<close>

lemma sched_ok_link:
  assumes s: "sched_ok Q g th" and t: "\<forall>h. t \<notin> set (Q h)" and Q': "q_ok Q'"
    and others: "\<And>h'. h' \<noteq> h \<Longrightarrow> Q' h' = Q h'" and h: "set (Q' h) = insert t (set (Q h))"
    and st: "(\<exists>q. h = Suspend q) \<and> tstat (th t) = RT_THREAD_SUSPEND \<or>
             h = Defunct \<and> tstat (th t) = RT_THREAD_CLOSE"
  shows "sched_ok Q' g th"
proof -
  have "Q' (Ready p) = Q (Ready p)" for p using st by (intro others) auto
  moreover have "u \<in> set (Q' h') \<longleftrightarrow> u \<in> set (Q h') \<or> u = t \<and> h' = h" for u h'
    using others h by (cases "h' = h") auto
  ultimately show ?thesis
    using s Q' st unfolding sched_ok_def by auto
qed

text \<open>The two scheduler routines, as they are used: a thread becomes ready, a thread stops
  being ready.\<close>

lemma thread_ok_with_stat:
  assumes "thread_ok th" "tstat th = RT_THREAD_READY \<or> tstat th = RT_THREAD_SUSPEND"
  shows "thread_ok (with_stat st th)"
  using assms by (simp add: thread_ok_def)

lemma insert_thread_inv:
  assumes s: "sched_inv s" and t: "\<forall>h. t \<notin> set (queues s h)"
    and st: "thread_stat s t = RT_THREAD_SUSPEND"
  shows "sched_inv (rt_schedule_insert_thread t s)"
proof -
  have "thread_ok (with_stat RT_THREAD_READY (threads s t))"
    using st sched_okD(5) [OF s] by (intro thread_ok_with_stat) (auto simp: thread_stat_def)
  from sched_ok_insert [OF s t this] show ?thesis
    by (simp add: rt_schedule_insert_thread_def Let_def upd_thread_def)
qed

lemma insert_thread_sel:
  "threads (rt_schedule_insert_thread t s) =
     (threads s)(t := with_stat RT_THREAD_READY (threads s t))"
  "queues (rt_schedule_insert_thread t s) =
     q_insert_tail (Ready (unat (current_priority (threads s t)))) t (queues s)"
  "lock_nest (rt_schedule_insert_thread t s) = lock_nest s"
  "current_thread (rt_schedule_insert_thread t s) = current_thread s"
  "irq_nest (rt_schedule_insert_thread t s) = irq_nest s"
  "objs (rt_schedule_insert_thread t s) = objs s"
  "container (rt_schedule_insert_thread t s) = container s"
  "timers (rt_schedule_insert_thread t s) = timers s"
  "timer_list (rt_schedule_insert_thread t s) = timer_list s"
  "rt_tick (rt_schedule_insert_thread t s) = rt_tick s"
  "sems (rt_schedule_insert_thread t s) = sems s"
  "mutexes (rt_schedule_insert_thread t s) = mutexes s"
  "events (rt_schedule_insert_thread t s) = events s"
  "mailboxes (rt_schedule_insert_thread t s) = mailboxes s"
  "mqs (rt_schedule_insert_thread t s) = mqs s"
  "frames (rt_schedule_insert_thread t s) = frames s"
  by (simp_all add: rt_schedule_insert_thread_def Let_def upd_thread_def)

lemma remove_thread_sel:
  "threads (rt_schedule_remove_thread t s) = threads s"
  "queues (rt_schedule_remove_thread t s) = q_remove t (queues s)"
  "ready_group (rt_schedule_remove_thread t s) =
     (if q_remove t (queues s) (Ready (unat (current_priority (threads s t)))) = []
      then ready_group s AND NOT (number_mask (threads s t)) else ready_group s)"
  "lock_nest (rt_schedule_remove_thread t s) = lock_nest s"
  "current_thread (rt_schedule_remove_thread t s) = current_thread s"
  "irq_nest (rt_schedule_remove_thread t s) = irq_nest s"
  "objs (rt_schedule_remove_thread t s) = objs s"
  "container (rt_schedule_remove_thread t s) = container s"
  "timers (rt_schedule_remove_thread t s) = timers s"
  "timer_list (rt_schedule_remove_thread t s) = timer_list s"
  "rt_tick (rt_schedule_remove_thread t s) = rt_tick s"
  "sems (rt_schedule_remove_thread t s) = sems s"
  "mutexes (rt_schedule_remove_thread t s) = mutexes s"
  "events (rt_schedule_remove_thread t s) = events s"
  "mailboxes (rt_schedule_remove_thread t s) = mailboxes s"
  "mqs (rt_schedule_remove_thread t s) = mqs s"
  "frames (rt_schedule_remove_thread t s) = frames s"
  by (simp_all add: rt_schedule_remove_thread_def Let_def)

lemma scheduler_init_inv:
  assumes "\<forall>t. thread_ok (threads s t) \<and> tstat (threads s t) = RT_THREAD_INIT"
    and "\<forall>q. queues s (Suspend q) = []" and "\<forall>p. RT_THREAD_PRIORITY_MAX \<le> p \<longrightarrow> queues s (Ready p) = []"
  shows "sched_inv (rt_system_scheduler_init s)"
proof -
  have "queues (rt_system_scheduler_init s) h = []" for h
    using assms(2,3) by (cases h) (auto simp: rt_system_scheduler_init_def)
  with assms(1) show ?thesis
    by (simp add: sched_ok_def q_ok_def) (simp add: rt_system_scheduler_init_def)
qed

lemma zero_threads [simp]:
  "tstat (threads zero_kernel t) = RT_THREAD_INIT" "thread_ok (threads zero_kernel t)"
  by (simp_all add: zero_kernel_def tstat_def stat_defs thread_ok_def RT_THREAD_PRIORITY_MAX_def)

end
