(* ===== verification/Object.thy ===== *)
theory Object
  imports Scheduler
begin

text \<open>
  The object system, \<^verbatim>\<open>src/object.c\<close>: every kernel object starts with a \<^verbatim>\<open>struct rt_object\<close>
  and is linked in the container of its class while it is alive.

  Object names are character lists without NUL bytes; \<^verbatim>\<open>rt_strncpy\<close> and \<^verbatim>\<open>rt_strncmp\<close> with
  \<^verbatim>\<open>RT_NAME_MAX\<close> keep and compare the first eight characters.
\<close>

section \<open>The routines\<close>

text \<open>The classes that have a row in \<^verbatim>\<open>rt_object_container\<close> (modules are not configured).\<close>

definition object_classes :: "u8 list" where
  "object_classes =
     [RT_Object_Class_Thread, RT_Object_Class_Semaphore, RT_Object_Class_Mutex,
      RT_Object_Class_Event, RT_Object_Class_MailBox, RT_Object_Class_MessageQueue,
      RT_Object_Class_MemHeap, RT_Object_Class_MemPool, RT_Object_Class_Device,
      RT_Object_Class_Timer]"

definition rt_object_get_information :: "u8 \<Rightarrow> u8 option" where
  "rt_object_get_information type = find (\<lambda>c. c = type) object_classes"

definition rt_object_is_systemobject :: "oref \<Rightarrow> kernel \<Rightarrow> bool" where
  "rt_object_is_systemobject x s \<longleftrightarrow> otype (objs s x) AND RT_Object_Class_Static \<noteq> 0"

definition rt_object_get_type :: "oref \<Rightarrow> kernel \<Rightarrow> u8" where
  "rt_object_get_type x s = otype (objs s x) AND NOT RT_Object_Class_Static"

definition object_link :: "u8 \<Rightarrow> oref \<Rightarrow> kernel \<Rightarrow> kernel" where
  "object_link c x s = s\<lparr>container := q_insert_head c x (container s)\<rparr>"

definition object_unlink :: "oref \<Rightarrow> kernel \<Rightarrow> kernel" where
  "object_unlink x s = s\<lparr>container := q_remove x (container s)\<rparr>"

definition rt_object_init :: "oref \<Rightarrow> u8 \<Rightarrow> string \<Rightarrow> kernel \<Rightarrow> kernel option" where
  "rt_object_init x type name s = do {
     information \<leftarrow> rt_object_get_information type;
     let s = rt_enter_critical s;
     RT_ASSERT (\<forall>y \<in> set (container s information). y \<noteq> x);
     s \<leftarrow> rt_exit_critical s;
     let s = upd_obj x (\<lambda>r. r\<lparr>otype := type OR RT_Object_Class_Static,
                               oname := take RT_NAME_MAX name\<rparr>) s;
     Some (object_link information x s)
   }"

definition rt_object_detach :: "oref \<Rightarrow> kernel \<Rightarrow> kernel" where
  "rt_object_detach x s =
     (let s = upd_obj x (\<lambda>r. r\<lparr>otype := 0\<rparr>) s in object_unlink x s)"

text \<open>\<^verbatim>\<open>rt_memset(object, 0, object_size)\<close>.\<close>

definition zero_object :: "oref \<Rightarrow> kernel \<Rightarrow> kernel" where
  "zero_object x s =
     (let s = upd_obj x (\<lambda>_. objs zero_kernel x) s
      in case x of
           OThread t \<Rightarrow> upd_thread t (\<lambda>_. threads zero_kernel t)
             (upd_obj (OTimer (ThreadTimer t)) (\<lambda>_. objs zero_kernel (OTimer (ThreadTimer t)))
               (upd_timer (ThreadTimer t) (\<lambda>_. timers zero_kernel (ThreadTimer t)) s))
         | OTimer m \<Rightarrow> upd_timer m (\<lambda>_. timers zero_kernel m) s
         | OSem n \<Rightarrow> s\<lparr>sems := (sems s)(n := sems zero_kernel n)\<rparr>
         | OMutex n \<Rightarrow> s\<lparr>mutexes := (mutexes s)(n := mutexes zero_kernel n)\<rparr>
         | OEvent n \<Rightarrow> s\<lparr>events := (events s)(n := events zero_kernel n)\<rparr>
         | OMailBox n \<Rightarrow> s\<lparr>mailboxes := (mailboxes s)(n := mailboxes zero_kernel n)\<rparr>
         | OMessageQueue n \<Rightarrow> s\<lparr>mqs := (mqs s)(n := mqs zero_kernel n)\<rparr>
         | OMemPool n \<Rightarrow> s\<lparr>mempools := (mempools s)(n := mempools zero_kernel n)\<rparr>)"

text \<open>\<open>mem\<close> is what \<^verbatim>\<open>RT_KERNEL_MALLOC\<close> returns: the object at the fresh address, or
  \<open>None\<close> for \<^verbatim>\<open>RT_NULL\<close>.  The allocator has its own theory, \<open>Mem\<close>.\<close>

definition rt_object_allocate ::
  "oref option \<Rightarrow> u8 \<Rightarrow> string \<Rightarrow> kernel \<Rightarrow> (oref option \<times> kernel) option" where
  "rt_object_allocate mem type name s = do {
     RT_DEBUG_NOT_IN_INTERRUPT s;
     information \<leftarrow> rt_object_get_information type;
     (case mem of
        None \<Rightarrow> Some (None, s)
      | Some x \<Rightarrow>
          let s = zero_object x s;
              s = upd_obj x (\<lambda>r. r\<lparr>otype := type, oflag := 0, oname := take RT_NAME_MAX name\<rparr>) s
          in Some (Some x, object_link information x s))
   }"

definition rt_object_delete :: "oref \<Rightarrow> kernel \<Rightarrow> kernel option" where
  "rt_object_delete x s = do {
     RT_ASSERT (otype (objs s x) AND RT_Object_Class_Static = 0);
     let s = upd_obj x (\<lambda>r. r\<lparr>otype := 0\<rparr>) s;
     Some (object_unlink x s)
   }"

definition rt_object_find ::
  "string option \<Rightarrow> u8 \<Rightarrow> kernel \<Rightarrow> (oref option \<times> kernel) option" where
  "rt_object_find name type s =
     (case name of
        None \<Rightarrow> Some (None, s)
      | Some n \<Rightarrow>
          if RT_Object_Class_Unknown < type then Some (None, s)
          else do {
            RT_DEBUG_NOT_IN_INTERRUPT s;
            let s = rt_enter_critical s;
            information \<leftarrow> rt_object_get_information type;
            let r = find (\<lambda>x. take RT_NAME_MAX (oname (objs s x)) = take RT_NAME_MAX n)
                      (container s information);
            s \<leftarrow> rt_exit_critical s;
            Some (r, s)
          })"

section \<open>Object types\<close>

lemma get_information_iff [simp]:
  "rt_object_get_information c = Some c' \<longleftrightarrow> c' = c \<and> c \<in> set object_classes"
  by (auto simp: rt_object_get_information_def find_Some_iff in_set_conv_nth object_classes_def
      class_defs nth_Cons' split: if_splits)

lemma class_bits:
  "c \<in> set object_classes \<Longrightarrow> c AND RT_Object_Class_Static = 0"
  "c \<in> set object_classes \<Longrightarrow> c AND NOT RT_Object_Class_Static = c"
  "c \<in> set object_classes \<Longrightarrow> (c OR RT_Object_Class_Static) AND NOT RT_Object_Class_Static = c"
  "c \<in> set object_classes \<Longrightarrow> (c OR RT_Object_Class_Static) AND RT_Object_Class_Static \<noteq> 0"
  "c \<in> set object_classes \<Longrightarrow> c \<noteq> 0"
  by (auto simp: object_classes_def class_defs)

section \<open>A critical section that does not switch\<close>

definition quiet :: "kernel \<Rightarrow> bool" where
  "quiet s \<longleftrightarrow> (if lock_nest s = 0 then current_thread s = None \<or> runs_highest s
                else 0 < sint (lock_nest s) \<and> sint (lock_nest s) < 32767)"

lemma critical_section:
  assumes "quiet s"
  shows "rt_exit_critical (rt_enter_critical s) = Some s"
proof (cases "lock_nest s = 0")
  case True
  have id: "s\<lparr>lock_nest := 0\<rparr> = s" using True by (metis kernel.surjective kernel.update_convs(1))
  have "runs_highest s \<Longrightarrow> rt_schedule s = Some s" by (rule rt_schedule_no_switch)
  with True assms show ?thesis
    by (auto simp: quiet_def rt_exit_critical_def rt_enter_critical_def Let_def id)
next
  case False
  with assms show ?thesis
    by (simp add: quiet_def rt_exit_critical_def rt_enter_critical_def Let_def)
qed

section \<open>The containers\<close>

text \<open>Live objects are exactly the linked ones, each in the container of its class.\<close>

definition object_inv :: "kernel \<Rightarrow> bool" where
  "object_inv s \<longleftrightarrow> q_ok (container s) \<and>
     (\<forall>c x. x \<in> set (container s c) \<longleftrightarrow> c \<noteq> 0 \<and> rt_object_get_type x s = c)"

lemma object_init_spec:
  assumes "quiet s" "object_inv s" "c \<in> set object_classes" "rt_object_get_type x s = 0"
  shows "\<exists>s'. rt_object_init x c name s = Some s' \<and> object_inv s' \<and>
    rt_object_get_type x s' = c \<and> rt_object_is_systemobject x s' \<and>
    s' = s\<lparr>objs := (objs s)(x := (objs s x)\<lparr>otype := c OR RT_Object_Class_Static,
             oname := take RT_NAME_MAX name\<rparr>),
           container := q_insert_head c x (container s)\<rparr>"
proof -
  have nin: "\<forall>d. x \<notin> set (container s d)"
    using assms(2,4) by (auto simp: object_inv_def)
  have ok: "q_ok (q_insert_head c x (container s))"
    using assms(2) nin by (intro q_ok_insert) (simp_all add: object_inv_def)
  let ?s' = "s\<lparr>objs := (objs s)(x := (objs s x)\<lparr>otype := c OR RT_Object_Class_Static,
             oname := take RT_NAME_MAX name\<rparr>),
           container := q_insert_head c x (container s)\<rparr>"
  have "rt_object_init x c name s = Some ?s'"
    using assms(3) nin critical_section [OF assms(1)]
    by (auto simp: rt_object_init_def Let_def object_link_def upd_obj_def
        rt_enter_critical_def RT_ASSERT_def)
  moreover have "object_inv ?s'"
    using assms(2-4) nin ok class_bits
    by (auto simp: object_inv_def rt_object_get_type_def q_defs)
  ultimately show ?thesis
    using class_bits(3,4) [OF assms(3)]
    by (auto simp: rt_object_get_type_def rt_object_is_systemobject_def)
qed

lemma object_detach_inv:
  assumes "object_inv s"
  shows "object_inv (rt_object_detach x s)" "rt_object_get_type x (rt_object_detach x s) = 0"
  using assms
  by (auto simp: object_inv_def rt_object_detach_def object_unlink_def upd_obj_def Let_def
      rt_object_get_type_def q_ok_remove) (auto simp: q_defs)

lemma object_delete_inv:
  assumes "object_inv s" "rt_object_delete x s = Some s'"
  shows "object_inv s'" "\<not> rt_object_is_systemobject x s"
proof -
  have "s' = rt_object_detach x s" "\<not> rt_object_is_systemobject x s"
    using assms(2)
    by (auto simp: rt_object_delete_def rt_object_detach_def rt_object_is_systemobject_def Let_def)
  then show "object_inv s'" "\<not> rt_object_is_systemobject x s"
    using object_detach_inv [OF assms(1)] by simp_all
qed

text \<open>A lookup by name finds the youngest live object of the class with that name.\<close>

lemma object_find_spec:
  assumes "quiet s" "irq_nest s = 0" "c \<in> set object_classes"
  shows "rt_object_find (Some n) c s =
    Some (find (\<lambda>x. take RT_NAME_MAX (oname (objs s x)) = take RT_NAME_MAX n) (container s c), s)"
proof -
  have "\<not> RT_Object_Class_Unknown < c"
    using assms(3) by (auto simp: object_classes_def class_defs)
  moreover have "rt_object_get_information c = Some c" using assms(3) by simp
  moreover have "objs (rt_enter_critical s) = objs s"
      "container (rt_enter_critical s) = container s"
    by (simp_all add: rt_enter_critical_def)
  ultimately show ?thesis
    using critical_section [OF assms(1)] assms(2)
    by (simp add: rt_object_find_def debug_defs Let_def)
qed

end
