(* ===== verification/Timer.thy ===== *)
theory Timer
  imports Object
begin

text \<open>
  The timers, \<^verbatim>\<open>src/timer.c\<close>, in the configured shape: \<^verbatim>\<open>RT_TIMER_SKIP_LIST_LEVEL = 1\<close>, so
  the skip list is one list, ordered by expiry, and hard timers only.

  Ticks are 32-bit counters that wrap around, and the code orders them by the sign of a
  difference.  \<open>tick_key\<close> is the signed number of ticks until a timer expires; the list is
  sorted by it, and the insertion of \<^verbatim>\<open>rt_timer_start\<close> keeps it sorted.
\<close>

section \<open>The routines\<close>

definition timer_flag :: "kernel \<Rightarrow> tmid \<Rightarrow> u8" where
  "timer_flag s m = oflag (objs s (OTimer m))"

definition set_timer_flag :: "tmid \<Rightarrow> (u8 \<Rightarrow> u8) \<Rightarrow> kernel \<Rightarrow> kernel" where
  "set_timer_flag m f s = upd_obj (OTimer m) (\<lambda>r. r\<lparr>oflag := f (oflag r)\<rparr>) s"

definition rt_timer_init_raw :: "tmid \<Rightarrow> timeout \<Rightarrow> u32 \<Rightarrow> u8 \<Rightarrow> kernel \<Rightarrow> kernel" where
  "rt_timer_init_raw m timeout time flag s =
     (let s = set_timer_flag m (\<lambda>_. flag) s;
          s = set_timer_flag m (\<lambda>f. f AND NOT RT_TIMER_FLAG_ACTIVATED) s;
          s = upd_timer m (\<lambda>r. r\<lparr>timeout_func := timeout, timeout_tick := 0, init_tick := time\<rparr>) s
      in s\<lparr>timer_list := removeAll m (timer_list s)\<rparr>)"

definition rt_timer_list_next_timeout :: "kernel \<Rightarrow> u32" where
  "rt_timer_list_next_timeout s =
     (case timer_list s of [] \<Rightarrow> RT_TICK_MAX | m # _ \<Rightarrow> timeout_tick (timers s m))"

definition rt_timer_next_timeout_tick :: "kernel \<Rightarrow> u32" where
  "rt_timer_next_timeout_tick s = rt_timer_list_next_timeout s"

definition rt_timer_remove :: "tmid \<Rightarrow> kernel \<Rightarrow> kernel" where
  "rt_timer_remove m s = s\<lparr>timer_list := removeAll m (timer_list s)\<rparr>"

definition rt_timer_init ::
  "tmid \<Rightarrow> string \<Rightarrow> timeout \<Rightarrow> u32 \<Rightarrow> u8 \<Rightarrow> kernel \<Rightarrow> kernel option" where
  "rt_timer_init m name timeout time flag s = do {
     s \<leftarrow> rt_object_init (OTimer m) RT_Object_Class_Timer name s;
     Some (rt_timer_init_raw m timeout time flag s)
   }"

definition rt_timer_detach :: "tmid \<Rightarrow> kernel \<Rightarrow> (rt_err_t \<times> kernel) option" where
  "rt_timer_detach m s = do {
     RT_ASSERT (rt_object_get_type (OTimer m) s = RT_Object_Class_Timer);
     RT_ASSERT (rt_object_is_systemobject (OTimer m) s);
     let s = rt_timer_remove m s;
     let s = rt_object_detach (OTimer m) s;
     Some (RT_EOK, s)
   }"

definition rt_timer_create ::
  "oref option \<Rightarrow> string \<Rightarrow> timeout \<Rightarrow> u32 \<Rightarrow> u8 \<Rightarrow> kernel \<Rightarrow> (tmid option \<times> kernel) option" where
  "rt_timer_create mem name timeout time flag s = do {
     (x, s) \<leftarrow> rt_object_allocate mem RT_Object_Class_Timer name s;
     (case x of
        Some (OTimer m) \<Rightarrow> Some (Some m, rt_timer_init_raw m timeout time flag s)
      | _ \<Rightarrow> Some (None, s))
   }"

definition rt_timer_delete :: "tmid \<Rightarrow> kernel \<Rightarrow> (rt_err_t \<times> kernel) option" where
  "rt_timer_delete m s = do {
     RT_ASSERT (rt_object_get_type (OTimer m) s = RT_Object_Class_Timer);
     RT_ASSERT (\<not> rt_object_is_systemobject (OTimer m) s);
     let s = rt_timer_remove m s;
     s \<leftarrow> rt_object_delete (OTimer m) s;
     Some (RT_EOK, s)
   }"

text \<open>The walk along the list: the new timer goes in front of the first timer that expires
  strictly later, in the order of a wrapping counter.\<close>

fun timer_insert :: "(tmid \<Rightarrow> u32) \<Rightarrow> tmid \<Rightarrow> tmid list \<Rightarrow> tmid list" where
  "timer_insert f m [] = [m]"
| "timer_insert f m (t # ts) =
     (if f t - f m = 0 then t # timer_insert f m ts
      else if f t - f m < RT_TICK_MAX div 2 then m # t # ts
      else t # timer_insert f m ts)"

definition rt_timer_start :: "tmid \<Rightarrow> kernel \<Rightarrow> (rt_err_t \<times> kernel) option" where
  "rt_timer_start m s = do {
     RT_ASSERT (rt_object_get_type (OTimer m) s = RT_Object_Class_Timer);
     let s = rt_timer_remove m s;
     let s = set_timer_flag m (\<lambda>f. f AND NOT RT_TIMER_FLAG_ACTIVATED) s;
     RT_ASSERT (init_tick (timers s m) < RT_TICK_MAX div 2);
     let s = upd_timer m (\<lambda>r. r\<lparr>timeout_tick := rt_tick s + init_tick r\<rparr>) s;
     let s = s\<lparr>random_nr := random_nr s + 1\<rparr>;
     let s = s\<lparr>timer_list := timer_insert (\<lambda>t. timeout_tick (timers s t)) m (timer_list s)\<rparr>;
     let s = set_timer_flag m (\<lambda>f. f OR RT_TIMER_FLAG_ACTIVATED) s;
     Some (RT_EOK, s)
   }"

definition rt_timer_stop :: "tmid \<Rightarrow> kernel \<Rightarrow> (rt_err_t \<times> kernel) option" where
  "rt_timer_stop m s = do {
     RT_ASSERT (rt_object_get_type (OTimer m) s = RT_Object_Class_Timer);
     (if timer_flag s m AND RT_TIMER_FLAG_ACTIVATED = 0 then Some (- RT_ERROR, s)
      else
        let s = rt_timer_remove m s;
            s = set_timer_flag m (\<lambda>f. f AND NOT RT_TIMER_FLAG_ACTIVATED) s
        in Some (RT_EOK, s))
   }"

definition RT_TIMER_CTRL_SET_TIME :: int where "RT_TIMER_CTRL_SET_TIME = 0"
definition RT_TIMER_CTRL_GET_TIME :: int where "RT_TIMER_CTRL_GET_TIME = 1"
definition RT_TIMER_CTRL_SET_ONESHOT :: int where "RT_TIMER_CTRL_SET_ONESHOT = 2"
definition RT_TIMER_CTRL_SET_PERIODIC :: int where "RT_TIMER_CTRL_SET_PERIODIC = 3"

lemmas tctrl_defs = RT_TIMER_CTRL_SET_TIME_def RT_TIMER_CTRL_GET_TIME_def
  RT_TIMER_CTRL_SET_ONESHOT_def RT_TIMER_CTRL_SET_PERIODIC_def

text \<open>\<open>arg\<close> is the word the pointer argument points to, before and after the call.\<close>

definition rt_timer_control ::
  "tmid \<Rightarrow> int \<Rightarrow> u32 \<Rightarrow> kernel \<Rightarrow> (rt_err_t \<times> u32 \<times> kernel) option" where
  "rt_timer_control m cmd arg s = do {
     RT_ASSERT (rt_object_get_type (OTimer m) s = RT_Object_Class_Timer);
     (if cmd = RT_TIMER_CTRL_GET_TIME then Some (RT_EOK, init_tick (timers s m), s)
      else if cmd = RT_TIMER_CTRL_SET_TIME
        then Some (RT_EOK, arg, upd_timer m (\<lambda>r. r\<lparr>init_tick := arg\<rparr>) s)
      else if cmd = RT_TIMER_CTRL_SET_ONESHOT
        then Some (RT_EOK, arg, set_timer_flag m (\<lambda>f. f AND NOT RT_TIMER_FLAG_PERIODIC) s)
      else if cmd = RT_TIMER_CTRL_SET_PERIODIC
        then Some (RT_EOK, arg, set_timer_flag m (\<lambda>f. f OR RT_TIMER_FLAG_PERIODIC) s)
      else Some (RT_EOK, arg, s))
   }"

definition rt_system_timer_init :: "kernel \<Rightarrow> kernel" where
  "rt_system_timer_init s = s\<lparr>timer_list := []\<rparr>"

section \<open>Order of expiry\<close>

text \<open>Ticks until \<open>timeout\<close>, seen from \<open>now\<close>; negative when it lies in the past.\<close>

definition tick_key :: "u32 \<Rightarrow> u32 \<Rightarrow> int" where
  "tick_key now timeout = sint (timeout - now)"

text \<open>The window in which the code's comparison is the order of the keys: what
  \<^verbatim>\<open>rt_timer_start\<close> allows, and one tick of lateness.\<close>

definition in_window :: "int \<Rightarrow> bool" where
  "in_window k \<longleftrightarrow> -1 \<le> k \<and> k \<le> 0x7ffffffe"

lemma half_tick: "RT_TICK_MAX div 2 = (0x7fffffff :: u32)"
  by (simp add: RT_TICK_MAX_def)

lemma later_iff:
  assumes a: "in_window (tick_key now a)" and b: "in_window (tick_key now b)" "0 \<le> tick_key now b"
  shows "a - b = 0 \<longleftrightarrow> tick_key now a = tick_key now b"
    and "a - b \<noteq> 0 \<Longrightarrow> a - b < RT_TICK_MAX div 2 \<longleftrightarrow> tick_key now b < tick_key now a"
proof -
  let ?a = "a - now" and ?b = "b - now"
  have ab: "a - b = ?a - ?b" by simp
  have w: "-1 \<le> sint ?a" "sint ?a \<le> 0x7ffffffe" "0 \<le> sint ?b" "sint ?b \<le> 0x7ffffffe"
    using a b by (auto simp: in_window_def tick_key_def)
  have inj: "sint ?a = sint ?b \<longleftrightarrow> a = b"
    by (auto dest: signed_word_eqI)
  then show "a - b = 0 \<longleftrightarrow> tick_key now a = tick_key now b"
    by (simp add: tick_key_def)
  have u: "uint (a - b) = (sint ?a - sint ?b) mod 2 ^ 32"
  proof -
    have "a - b = word_of_int (sint ?a - sint ?b)" unfolding ab by simp
    then have "uint (a - b) = take_bit 32 (sint ?a - sint ?b)"
      by (simp only: unsigned_of_int) simp
    then show ?thesis by (simp add: take_bit_eq_mod)
  qed
  have "uint (a - b) < 0x7fffffff \<longleftrightarrow> 0 \<le> sint ?a - sint ?b"
  proof (cases "0 \<le> sint ?a - sint ?b")
    case True
    then have "(sint ?a - sint ?b) mod 2 ^ 32 = sint ?a - sint ?b"
      using w by (intro mod_pos_pos_trivial) auto
    then show ?thesis using u w True by simp
  next
    case False
    then have "(sint ?a - sint ?b) mod 2 ^ 32 = sint ?a - sint ?b + 2 ^ 32"
      using w mod_pos_pos_trivial [of "sint ?a - sint ?b + 2 ^ 32" "2 ^ 32"] by simp
    then show ?thesis using u w False by simp
  qed
  then show "a - b < RT_TICK_MAX div 2 \<longleftrightarrow> tick_key now b < tick_key now a" if "a - b \<noteq> 0"
    using that inj by (auto simp: half_tick word_less_def tick_key_def order_le_less)
qed


section \<open>The timer list\<close>

definition timer_key :: "kernel \<Rightarrow> tmid \<Rightarrow> int" where
  "timer_key s m = tick_key (rt_tick s) (timeout_tick (timers s m))"

definition timer_inv :: "kernel \<Rightarrow> bool" where
  "timer_inv s \<longleftrightarrow> distinct (timer_list s) \<and>
     sorted_wrt (\<lambda>a b. timer_key s a \<le> timer_key s b) (timer_list s) \<and>
     (\<forall>m \<in> set (timer_list s). in_window (timer_key s m) \<and>
        timer_flag s m AND RT_TIMER_FLAG_ACTIVATED \<noteq> 0 \<and>
        rt_object_get_type (OTimer m) s = RT_Object_Class_Timer)"

lemma timer_invD:
  assumes "timer_inv s"
  shows "distinct (timer_list s)"
    and "sorted_wrt (\<lambda>a b. timer_key s a \<le> timer_key s b) (timer_list s)"
    and "m \<in> set (timer_list s) \<Longrightarrow> in_window (timer_key s m)"
    and "m \<in> set (timer_list s) \<Longrightarrow> timer_flag s m AND RT_TIMER_FLAG_ACTIVATED \<noteq> 0"
    and "m \<in> set (timer_list s) \<Longrightarrow> rt_object_get_type (OTimer m) s = RT_Object_Class_Timer"
  using assms by (auto simp: timer_inv_def)

text \<open>On a sorted list the walk puts the new timer behind every timer that expires no later
  and in front of every timer that expires later.\<close>

lemma timer_insert_split:
  assumes "sorted_wrt (\<lambda>a b. tick_key now (f a) \<le> tick_key now (f b)) ts"
    and "\<forall>t \<in> set ts. in_window (tick_key now (f t))"
    and "in_window (tick_key now (f m))" "0 \<le> tick_key now (f m)"
  shows "timer_insert f m ts =
    filter (\<lambda>t. tick_key now (f t) \<le> tick_key now (f m)) ts @ m #
    filter (\<lambda>t. tick_key now (f m) < tick_key now (f t)) ts"
  using assms(1,2)
proof (induction ts)
  case (Cons t ts)
  have t: "in_window (tick_key now (f t))" using Cons.prems by simp
  note l = later_iff [OF t assms(3,4)]
  show ?case
  proof (cases "tick_key now (f m) < tick_key now (f t)")
    case True
    then have "f t - f m \<noteq> 0" "f t - f m < RT_TICK_MAX div 2" using l by auto
    moreover have "filter (\<lambda>t. tick_key now (f t) \<le> tick_key now (f m)) ts = []"
        "filter (\<lambda>t. tick_key now (f m) < tick_key now (f t)) ts = ts"
      using Cons.prems(1) True by (auto simp: filter_empty_conv filter_id_conv)
    ultimately show ?thesis using True by simp
  next
    case False
    then have "f t - f m = 0 \<or> \<not> f t - f m < RT_TICK_MAX div 2" using l(2) by blast
    moreover have "timer_insert f m ts =
      filter (\<lambda>t. tick_key now (f t) \<le> tick_key now (f m)) ts @ m #
      filter (\<lambda>t. tick_key now (f m) < tick_key now (f t)) ts"
      using Cons by simp
    ultimately show ?thesis using False by auto
  qed
qed simp

lemma set_timer_insert [simp]: "set (timer_insert f m ts) = insert m (set ts)"
  by (induction ts) auto

lemma distinct_timer_insert: "distinct ts \<Longrightarrow> m \<notin> set ts \<Longrightarrow> distinct (timer_insert f m ts)"
  by (induction ts) auto

lemma timer_insert_cong:
  "\<forall>t \<in> insert m (set ts). f t = g t \<Longrightarrow> timer_insert f m ts = timer_insert g m ts"
  by (induction ts) auto

lemma sorted_timer_insert:
  assumes "sorted_wrt (\<lambda>a b. tick_key now (f a) \<le> tick_key now (f b)) ts"
    and "\<forall>t \<in> set ts. in_window (tick_key now (f t))"
    and "in_window (tick_key now (f m))" "0 \<le> tick_key now (f m)"
  shows "sorted_wrt (\<lambda>a b. tick_key now (f a) \<le> tick_key now (f b)) (timer_insert f m ts)"
  unfolding timer_insert_split [OF assms]
  using assms(1) by (auto simp: sorted_wrt_append intro: sorted_wrt_filter)

section \<open>What the timer routines do\<close>

text \<open>\<open>timer_frame\<close>: nothing but the state of timers changed; what they call and whether
  they are periodic stayed.\<close>

definition timer_frame :: "kernel \<Rightarrow> kernel \<Rightarrow> bool" where
  "timer_frame s s' \<longleftrightarrow> lock_nest s' = lock_nest s \<and> ready_group s' = ready_group s \<and>
     queues s' = queues s \<and> threads s' = threads s \<and> container s' = container s \<and>
     current_thread s' = current_thread s \<and> rt_tick s' = rt_tick s \<and> irq_nest s' = irq_nest s \<and>
     sems s' = sems s \<and> mutexes s' = mutexes s \<and> events s' = events s \<and>
     mailboxes s' = mailboxes s \<and> mqs s' = mqs s \<and> frames s' = frames s \<and>
     mempools s' = mempools s \<and> cells s' = cells s \<and> global_errno s' = global_errno s \<and>
     (\<forall>x. otype (objs s' x) = otype (objs s x)) \<and>
     (\<forall>x. (\<forall>m. x \<noteq> OTimer m) \<longrightarrow> objs s' x = objs s x) \<and>
     (\<forall>m. timeout_func (timers s' m) = timeout_func (timers s m)) \<and>
     (\<forall>m. timer_flag s' m AND RT_TIMER_FLAG_PERIODIC = timer_flag s m AND RT_TIMER_FLAG_PERIODIC)"

lemma timer_frame_sel:
  assumes "timer_frame s s'"
  shows "lock_nest s' = lock_nest s" "ready_group s' = ready_group s" "queues s' = queues s"
    "threads s' = threads s" "container s' = container s" "current_thread s' = current_thread s"
    "rt_tick s' = rt_tick s" "irq_nest s' = irq_nest s" "sems s' = sems s"
    "mutexes s' = mutexes s" "events s' = events s" "mailboxes s' = mailboxes s"
    "mqs s' = mqs s" "frames s' = frames s" "otype (objs s' x) = otype (objs s x)"
    "rt_object_get_type x s' = rt_object_get_type x s"
    "rt_object_is_systemobject x s' = rt_object_is_systemobject x s"
    "timeout_func (timers s' m) = timeout_func (timers s m)"
    "timer_flag s' m AND RT_TIMER_FLAG_PERIODIC = timer_flag s m AND RT_TIMER_FLAG_PERIODIC"
    "mempools s' = mempools s" "cells s' = cells s" "global_errno s' = global_errno s"
  using assms by (simp_all add: timer_frame_def rt_object_get_type_def rt_object_is_systemobject_def)

lemma timer_frame_refl [simp]: "timer_frame s s"
  by (simp add: timer_frame_def)

lemma timer_frame_trans: "timer_frame s t \<Longrightarrow> timer_frame t u \<Longrightarrow> timer_frame s u"
  by (simp add: timer_frame_def)

lemmas timer_step_defs = rt_timer_remove_def set_timer_flag_def timer_flag_def
  upd_obj_def upd_timer_def

lemma activated_neq_0 [simp]: "RT_TIMER_FLAG_ACTIVATED \<noteq> 0"
  by (simp add: tflag_defs)

lemma set_activated [simp]:
  "(f AND NOT RT_TIMER_FLAG_ACTIVATED) OR RT_TIMER_FLAG_ACTIVATED = f OR RT_TIMER_FLAG_ACTIVATED"
  by (rule bit_eqI) (auto simp: bit_or_iff bit_and_iff bit_not_iff)

lemma timer_remove_sel [simp]:
  "timers (rt_timer_remove m s) = timers s" "objs (rt_timer_remove m s) = objs s"
  "rt_tick (rt_timer_remove m s) = rt_tick s"
  "timer_list (rt_timer_remove m s) = removeAll m (timer_list s)"
  "timer_flag (rt_timer_remove m s) = timer_flag s"
  by (simp_all add: rt_timer_remove_def timer_flag_def fun_eq_iff)

lemma set_timer_flag_sel [simp]:
  "timers (set_timer_flag m f s) = timers s" "rt_tick (set_timer_flag m f s) = rt_tick s"
  "timer_list (set_timer_flag m f s) = timer_list s"
  "timer_flag (set_timer_flag m f s) = (timer_flag s)(m := f (timer_flag s m))"
  by (simp_all add: set_timer_flag_def upd_obj_def timer_flag_def fun_eq_iff)

lemma upd_timer_sel [simp]:
  "timers (upd_timer m f s) = (timers s)(m := f (timers s m))"
  "rt_tick (upd_timer m f s) = rt_tick s" "timer_list (upd_timer m f s) = timer_list s"
  "objs (upd_timer m f s) = objs s" "timer_flag (upd_timer m f s) = timer_flag s"
  by (simp_all add: upd_timer_def timer_flag_def fun_eq_iff)

lemma timer_flag_cong [simp]:
  "timer_flag (s\<lparr>timer_list := l\<rparr>) = timer_flag s" "timer_flag (s\<lparr>random_nr := r\<rparr>) = timer_flag s"
  by (simp_all add: timer_flag_def fun_eq_iff)

lemma activated_periodic [simp]:
  "(f AND NOT RT_TIMER_FLAG_ACTIVATED) AND RT_TIMER_FLAG_PERIODIC = f AND RT_TIMER_FLAG_PERIODIC"
  "(f OR RT_TIMER_FLAG_ACTIVATED) AND RT_TIMER_FLAG_PERIODIC = f AND RT_TIMER_FLAG_PERIODIC"
  by (simp_all add: tflag_defs and.assoc bit.conj_disj_distrib2)

lemma rt_timer_remove_frame: "timer_frame s (rt_timer_remove m s)"
  by (simp add: timer_frame_def) (simp add: rt_timer_remove_def)

lemma set_timer_flag_frame:
  "(\<And>x. f x AND RT_TIMER_FLAG_PERIODIC = x AND RT_TIMER_FLAG_PERIODIC) \<Longrightarrow>
   timer_frame s (set_timer_flag m f s)"
  by (simp add: timer_frame_def) (simp add: set_timer_flag_def upd_obj_def)

lemma upd_timer_frame:
  "(\<And>r. timeout_func (f r) = timeout_func r) \<Longrightarrow> timer_frame s (upd_timer m f s)"
  by (simp add: timer_frame_def) (simp add: upd_timer_def)

lemma timer_list_frame:
  "timer_frame s (s\<lparr>timer_list := l\<rparr>)" "timer_frame s (s\<lparr>random_nr := r\<rparr>)"
  by (simp_all add: timer_frame_def)

lemma rt_timer_start_eq:
  assumes "rt_timer_start m s = Some (e, s')"
  shows "e = RT_EOK" "init_tick (timers s m) < RT_TICK_MAX div 2"
    and "rt_object_get_type (OTimer m) s = RT_Object_Class_Timer"
    and "timers s' = (timers s)(m := (timers s m)\<lparr>timeout_tick := rt_tick s + init_tick (timers s m)\<rparr>)"
    and "timer_list s' = timer_insert (\<lambda>t. timeout_tick (timers s' t)) m (removeAll m (timer_list s))"
    and "timer_flag s' = (timer_flag s)(m := timer_flag s m OR RT_TIMER_FLAG_ACTIVATED)"
    and "timer_frame s s'"
proof -
  define s1 where "s1 = set_timer_flag m (\<lambda>f. f AND NOT RT_TIMER_FLAG_ACTIVATED) (rt_timer_remove m s)"
  define s2 where "s2 = upd_timer m (\<lambda>r. r\<lparr>timeout_tick := rt_tick s1 + init_tick r\<rparr>) s1"
  define s3 where "s3 = s2\<lparr>random_nr := random_nr s2 + 1\<rparr>"
  define s4 where "s4 = s3\<lparr>timer_list := timer_insert (\<lambda>t. timeout_tick (timers s3 t)) m (timer_list s3)\<rparr>"
  have a: "e = RT_EOK" "rt_object_get_type (OTimer m) s = RT_Object_Class_Timer"
      "init_tick (timers s1 m) < RT_TICK_MAX div 2"
      "s' = set_timer_flag m (\<lambda>f. f OR RT_TIMER_FLAG_ACTIVATED) s4"
    using assms by (auto simp: rt_timer_start_def Let_def s1_def s2_def s3_def s4_def cong: if_cong)
  show "e = RT_EOK" "rt_object_get_type (OTimer m) s = RT_Object_Class_Timer" using a by simp_all
  show "init_tick (timers s m) < RT_TICK_MAX div 2" using a(3) by (simp add: s1_def)
  show t: "timers s' = (timers s)(m := (timers s m)\<lparr>timeout_tick := rt_tick s + init_tick (timers s m)\<rparr>)"
    by (simp add: a(4) s1_def s2_def s3_def s4_def)
  have "timer_list s' = timer_insert (\<lambda>t. timeout_tick (timers s3 t)) m (removeAll m (timer_list s))"
    by (simp add: a(4) s1_def s2_def s3_def s4_def)
  moreover have "timers s3 = timers s'" by (simp add: a(4) s4_def)
  ultimately show "timer_list s' = timer_insert (\<lambda>t. timeout_tick (timers s' t)) m (removeAll m (timer_list s))"
    by simp
  show "timer_flag s' = (timer_flag s)(m := timer_flag s m OR RT_TIMER_FLAG_ACTIVATED)"
    by (simp add: a(4) s1_def s2_def s3_def s4_def)
  have "timer_frame s s1"
    unfolding s1_def by (rule timer_frame_trans [OF rt_timer_remove_frame set_timer_flag_frame]) simp
  moreover have "timer_frame s1 s2" unfolding s2_def by (rule upd_timer_frame) simp
  moreover have "timer_frame s2 s3" unfolding s3_def by (rule timer_list_frame)
  moreover have "timer_frame s3 s4" unfolding s4_def by (rule timer_list_frame)
  moreover have "timer_frame s4 s'" unfolding a(4) by (rule set_timer_flag_frame) simp
  ultimately show "timer_frame s s'" by (blast intro: timer_frame_trans)
qed

lemma rt_timer_start_total:
  "rt_object_get_type (OTimer m) s = RT_Object_Class_Timer \<Longrightarrow>
   init_tick (timers s m) < RT_TICK_MAX div 2 \<Longrightarrow> \<exists>s'. rt_timer_start m s = Some (RT_EOK, s')"
  by (simp add: rt_timer_start_def timer_step_defs Let_def)

lemma activated_or [simp]: "(f OR RT_TIMER_FLAG_ACTIVATED) AND RT_TIMER_FLAG_ACTIVATED \<noteq> 0"
proof
  assume "(f OR RT_TIMER_FLAG_ACTIVATED) AND RT_TIMER_FLAG_ACTIVATED = 0"
  moreover have "bit ((f OR RT_TIMER_FLAG_ACTIVATED) AND RT_TIMER_FLAG_ACTIVATED) 0"
    by (simp add: tflag_defs bit_or_iff bit_and_iff)
  ultimately show False by simp
qed

lemma tick_key_start:
  assumes "d < RT_TICK_MAX div 2"
  shows "0 \<le> tick_key now (now + d)" "in_window (tick_key now (now + d))"
    "tick_key now (now + d) = int (unat d)"
proof -
  have d: "uint d < 0x7fffffff" using assms by (simp add: half_tick word_less_def)
  have "- (2 ^ 31) \<le> uint d" by (rule order_trans [OF _ uint_ge_0]) simp
  with d have "sint d = int (unat d)"
    by (simp add: sint_uint signed_take_bit_int_eq_self)
  then show "tick_key now (now + d) = int (unat d)" by (simp add: tick_key_def)
  with d order_trans [OF _ uint_ge_0, of "-1" d]
  show "0 \<le> tick_key now (now + d)" "in_window (tick_key now (now + d))"
    by (simp_all add: in_window_def)
qed

lemma rt_timer_start_inv:
  assumes inv: "timer_inv s" and st: "rt_timer_start m s = Some (e, s')"
  shows "timer_inv s'" "set (timer_list s') = insert m (set (timer_list s))"
    "timer_key s' m = int (unat (init_tick (timers s m)))"
    "\<And>t. t \<noteq> m \<Longrightarrow> timer_key s' t = timer_key s t"
proof -
  note e = rt_timer_start_eq [OF st]
  have now: "rt_tick s' = rt_tick s" using e(7) by (simp add: timer_frame_sel)
  have km: "timer_key s' m = int (unat (init_tick (timers s m)))"
    using tick_key_start(3) [OF e(2), of "rt_tick s"] by (simp add: timer_key_def e(4) now)
  then show "timer_key s' m = int (unat (init_tick (timers s m)))" .
  have win: "in_window (timer_key s' m)" "0 \<le> timer_key s' m"
    using tick_key_start(2) [OF e(2), of "rt_tick s"] km by (simp_all add: timer_key_def e(4) now)
  show kt: "\<And>t. t \<noteq> m \<Longrightarrow> timer_key s' t = timer_key s t"
    by (simp add: timer_key_def e(4) now)
  let ?ts = "removeAll m (timer_list s)"
  show set': "set (timer_list s') = insert m (set (timer_list s))" by (auto simp: e(5))
  have "sorted_wrt (\<lambda>a b. timer_key s a \<le> timer_key s b) ?ts"
    using timer_invD(2) [OF inv] by (simp add: distinct_removeAll_eq_filter sorted_wrt_filter)
  then have "sorted_wrt (\<lambda>a b. timer_key s' a \<le> timer_key s' b) ?ts"
    by (rule sorted_wrt_mono_rel [rotated]) (auto simp: kt)
  then have sorted: "sorted_wrt (\<lambda>a b. timer_key s' a \<le> timer_key s' b) (timer_list s')"
    unfolding e(5) timer_key_def
    using timer_invD(3) [OF inv] win kt
    by (intro sorted_timer_insert) (auto simp: timer_key_def)
  have "distinct (timer_list s')"
    unfolding e(5) using timer_invD(1) [OF inv]
    by (intro distinct_timer_insert) (simp_all add: distinct_removeAll)
  moreover have "in_window (timer_key s' t) \<and> timer_flag s' t AND RT_TIMER_FLAG_ACTIVATED \<noteq> 0 \<and>
      rt_object_get_type (OTimer t) s' = RT_Object_Class_Timer"
    if "t \<in> set (timer_list s')" for t
  proof (cases "t = m")
    case True
    then show ?thesis using win e(3) by (simp add: e(6) timer_frame_sel(16) [OF e(7)])
  next
    case False
    then show ?thesis using that timer_invD(3-5) [OF inv, of t]
      by (simp add: set' kt e(6) timer_frame_sel(16) [OF e(7)])
  qed
  ultimately show "timer_inv s'" using sorted by (simp add: timer_inv_def)
qed

lemma rt_timer_remove_inv:
  assumes "timer_inv s"
  shows "timer_inv (rt_timer_remove m s)"
  using assms
  by (auto simp: timer_inv_def rt_timer_remove_def timer_key_def timer_flag_def
      rt_object_get_type_def distinct_removeAll_eq_filter sorted_wrt_filter)

lemma set_timer_flag_inv:
  "timer_inv s \<Longrightarrow> m \<notin> set (timer_list s) \<Longrightarrow> timer_inv (set_timer_flag m f s)"
  by (auto simp: timer_inv_def timer_step_defs timer_key_def rt_object_get_type_def)

lemma rt_timer_stop_eq:
  assumes "timer_inv s" "rt_timer_stop m s = Some (e, s')"
  shows "timer_frame s s'" "timer_inv s'" "timers s' = timers s"
    "timer_list s' = removeAll m (timer_list s)"
proof -
  have "timer_frame s s' \<and> timer_inv s' \<and> timers s' = timers s \<and>
      timer_list s' = removeAll m (timer_list s)"
  proof (cases "timer_flag s m AND RT_TIMER_FLAG_ACTIVATED = 0")
    case True
    then have "m \<notin> set (timer_list s)" using timer_invD(4) [OF assms(1)] by blast
    with True assms show ?thesis by (auto simp: rt_timer_stop_def)
  next
    case False
    then have s': "s' = set_timer_flag m (\<lambda>f. f AND NOT RT_TIMER_FLAG_ACTIVATED) (rt_timer_remove m s)"
      using assms(2) by (auto simp: rt_timer_stop_def Let_def)
    have "timer_inv s'"
      unfolding s' using rt_timer_remove_inv [OF assms(1)]
      by (rule set_timer_flag_inv) (simp add: rt_timer_remove_def)
    moreover have "timer_frame s s'"
      unfolding s' by (rule timer_frame_trans [OF rt_timer_remove_frame set_timer_flag_frame]) simp
    ultimately show ?thesis by (simp add: s' timer_step_defs)
  qed
  then show "timer_frame s s'" "timer_inv s'" "timers s' = timers s"
    "timer_list s' = removeAll m (timer_list s)" by blast+
qed

lemma rt_timer_stop_total:
  "rt_object_get_type (OTimer m) s = RT_Object_Class_Timer \<Longrightarrow>
   \<exists>e s'. rt_timer_stop m s = Some (e, s')"
  by (simp add: rt_timer_stop_def Let_def)

lemma rt_timer_set_time:
  "rt_object_get_type (OTimer m) s = RT_Object_Class_Timer \<Longrightarrow>
   rt_timer_control m RT_TIMER_CTRL_SET_TIME v s =
     Some (RT_EOK, v, upd_timer m (\<lambda>r. r\<lparr>init_tick := v\<rparr>) s)"
  by (simp add: rt_timer_control_def tctrl_defs)

lemma set_init_tick_inv:
  "timer_inv (upd_timer m (\<lambda>r. r\<lparr>init_tick := v\<rparr>) s) = timer_inv s"
proof -
  have "timer_key (upd_timer m (\<lambda>r. r\<lparr>init_tick := v\<rparr>) s) = timer_key s"
    by (simp add: timer_key_def upd_timer_def fun_eq_iff)
  then show ?thesis
    by (simp add: timer_inv_def) (simp add: timer_flag_def upd_timer_def rt_object_get_type_def)
qed

text \<open>A tick moves every timer one step closer, as long as none is overdue.\<close>

lemma tick_key_step:
  assumes "in_window (tick_key now a)"
  shows "tick_key (now + 1) a = tick_key now a - 1"
proof -
  have "sint (a - now - 1) = sint (a - now) - 1"
    unfolding sint_word_diff [of "a - now" 1]
    using assms by (simp add: in_window_def tick_key_def signed_take_bit_int_eq_self)
  then show ?thesis by (simp add: tick_key_def algebra_simps)
qed

lemma tick_inv:
  assumes inv: "timer_inv s" and due: "\<forall>m \<in> set (timer_list s). 0 \<le> timer_key s m"
  shows "timer_inv (s\<lparr>rt_tick := rt_tick s + 1\<rparr>)"
    "\<forall>m \<in> set (timer_list s). timer_key (s\<lparr>rt_tick := rt_tick s + 1\<rparr>) m = timer_key s m - 1"
proof -
  let ?s = "s\<lparr>rt_tick := rt_tick s + 1\<rparr>"
  show k: "\<forall>m \<in> set (timer_list s). timer_key ?s m = timer_key s m - 1"
    using timer_invD(3) [OF inv] by (auto simp: timer_key_def intro: tick_key_step)
  have "sorted_wrt (\<lambda>a b. timer_key ?s a \<le> timer_key ?s b) (timer_list s)"
    using timer_invD(2) [OF inv] by (rule sorted_wrt_mono_rel [rotated]) (simp add: k)
  moreover have "\<forall>m \<in> set (timer_list s). in_window (timer_key ?s m)"
  proof
    fix m assume m: "m \<in> set (timer_list s)"
    show "in_window (timer_key ?s m)"
      using timer_invD(3) [OF inv m] bspec [OF k m] bspec [OF due m] by (simp add: in_window_def)
  qed
  ultimately show "timer_inv ?s"
    using inv by (simp add: timer_inv_def timer_flag_def rt_object_get_type_def)
qed

text \<open>A timer is due when the code's test says so.\<close>

definition is_due :: "kernel \<Rightarrow> tmid \<Rightarrow> bool" where
  "is_due s m \<longleftrightarrow> rt_tick s - timeout_tick (timers s m) < RT_TICK_MAX div 2"

lemma is_due_iff:
  assumes "in_window (timer_key s m)"
  shows "is_due s m \<longleftrightarrow> timer_key s m \<le> 0"
proof (cases "timer_key s m = 0 \<or> timer_key s m = -1")
  case True
  then have "rt_tick s - timeout_tick (timers s m) = 0 \<or>
      rt_tick s - timeout_tick (timers s m) = 1"
    by (metis (no_types, lifting) timer_key_def tick_key_def minus_diff_eq neg_0_equal_iff_equal
        signed_word_eqI sint_0 sint_n1 verit_minus_simplify(4))
  with True show ?thesis by (auto simp: is_due_def half_tick)
next
  case False
  then have k: "1 \<le> timer_key s m" "timer_key s m \<le> 0x7ffffffe"
    using assms by (auto simp: in_window_def)
  let ?d = "timeout_tick (timers s m) - rt_tick s"
  have d: "uint ?d = timer_key s m"
    using k uint_sint [of ?d] by (simp add: timer_key_def tick_key_def take_bit_int_eq_self)
  have "uint (- ?d) = (- uint ?d) mod 2 ^ 32"
    using uint_word_ariths(4) [of ?d] by simp
  also have "\<dots> = 2 ^ 32 - uint ?d"
    using k d mod_pos_pos_trivial [of "2 ^ 32 - uint ?d" "2 ^ 32"] by simp
  finally have "uint (- ?d) = 2 ^ 32 - uint ?d" .
  then have "\<not> - ?d < RT_TICK_MAX div 2"
    using k d by (simp add: half_tick word_less_def)
  with k show ?thesis by (simp add: is_due_def)
qed

end
