(* ===== verification/Thread.thy ===== *)
theory Thread
  imports Timer
begin

text \<open>
  Threads, \<^verbatim>\<open>src/thread.c\<close>: creation, start, suspension, wake-up, time-out, yielding,
  sleeping, priority change and the ways a thread ends.

  \<open>core_inv\<close> is the invariant of scheduler, timers and threads together; every routine of
  the file is shown to keep it.  Calls that give up the processor come in two halves, see
  \<open>block_point\<close>.
\<close>

section \<open>Priorities and time\<close>

text \<open>\<^verbatim>\<open>1L << thread->current_priority\<close>: undefined for a shift by 32 or more.\<close>

definition shl1 :: "u8 \<Rightarrow> u32 option" where
  "shl1 p = (if unat p < 32 then Some (prio_mask p) else None)"

definition RT_TICK_PER_SECOND :: int where "RT_TICK_PER_SECOND = 100"

text \<open>\<open>ms\<close> is signed; for a non-negative value C's division and remainder are those of the
  integers.\<close>

definition rt_tick_from_millisecond :: "u32 \<Rightarrow> u32" where
  "rt_tick_from_millisecond ms =
     (if sint ms < 0 then - 1
      else word_of_int (RT_TICK_PER_SECOND * (sint ms div 1000)) +
           word_of_int ((RT_TICK_PER_SECOND * (sint ms mod 1000) + 999) div 1000))"

section \<open>The routines\<close>

definition rt_thread_self :: "kernel \<Rightarrow> tid option" where
  "rt_thread_self s = current_thread s"

definition is_thread :: "tid \<Rightarrow> kernel \<Rightarrow> bool" where
  "is_thread t s \<longleftrightarrow> rt_object_get_type (OThread t) s = RT_Object_Class_Thread"

definition rt_thread_suspend :: "tid \<Rightarrow> kernel \<Rightarrow> (rt_err_t \<times> kernel) option" where
  "rt_thread_suspend t s = do {
     RT_ASSERT (is_thread t s);
     (if thread_stat s t \<noteq> RT_THREAD_READY then Some (- RT_ERROR, s)
      else do {
        let s = upd_thread t (with_stat RT_THREAD_SUSPEND) s;
        let s = rt_schedule_remove_thread t s;
        (e, s) \<leftarrow> rt_timer_stop (ThreadTimer t) s;
        Some (RT_EOK, s)
      })
   }"

definition rt_thread_resume :: "tid \<Rightarrow> kernel \<Rightarrow> (rt_err_t \<times> kernel) option" where
  "rt_thread_resume t s = do {
     RT_ASSERT (is_thread t s);
     (if thread_stat s t \<noteq> RT_THREAD_SUSPEND then Some (- RT_ERROR, s)
      else do {
        let s = s\<lparr>queues := q_remove t (queues s)\<rparr>;
        (e, s) \<leftarrow> rt_timer_stop (ThreadTimer t) s;
        Some (RT_EOK, rt_schedule_insert_thread t s)
      })
   }"

definition rt_thread_timeout :: "tid \<Rightarrow> kernel \<Rightarrow> kernel option" where
  "rt_thread_timeout t s = do {
     RT_ASSERT (thread_stat s t = RT_THREAD_SUSPEND);
     RT_ASSERT (is_thread t s);
     let s = upd_thread t (\<lambda>r. r\<lparr>th_error := - RT_ETIMEOUT\<rparr>) s;
     let s = s\<lparr>queues := q_remove t (queues s)\<rparr>;
     let s = rt_schedule_insert_thread t s;
     rt_schedule s
   }"

definition rt_thread_init_raw :: "tid \<Rightarrow> string \<Rightarrow> u8 \<Rightarrow> u32 \<Rightarrow> kernel \<Rightarrow> (rt_err_t \<times> kernel) option"
  where
  "rt_thread_init_raw t name priority tick s = do {
     RT_ASSERT (unat priority < RT_THREAD_PRIORITY_MAX);
     let s = upd_thread t (\<lambda>r. r\<lparr>init_priority := priority, current_priority := priority,
         number_mask := 0, th_init_tick := tick, remaining_tick := tick, th_error := RT_EOK,
         stat := RT_THREAD_INIT, cleanup := False\<rparr>) s;
     s \<leftarrow> rt_timer_init (ThreadTimer t) (oname (objs s (OThread t))) (ThreadTimeout t) 0
           RT_TIMER_FLAG_ONE_SHOT s;
     Some (RT_EOK, s)
   }"

definition rt_thread_init :: "tid \<Rightarrow> string \<Rightarrow> u8 \<Rightarrow> u32 \<Rightarrow> kernel \<Rightarrow> (rt_err_t \<times> kernel) option"
  where
  "rt_thread_init t name priority tick s = do {
     s \<leftarrow> rt_object_init (OThread t) RT_Object_Class_Thread name s;
     rt_thread_init_raw t name priority tick s
   }"

text \<open>\<open>mem\<close> and \<open>stack\<close> are the answers of the allocator for the control block and for the
  stack.\<close>

definition rt_thread_create ::
  "oref option \<Rightarrow> bool \<Rightarrow> string \<Rightarrow> u8 \<Rightarrow> u32 \<Rightarrow> kernel \<Rightarrow> (tid option \<times> kernel) option" where
  "rt_thread_create mem stack name priority tick s = do {
     (x, s) \<leftarrow> rt_object_allocate mem RT_Object_Class_Thread name s;
     (case x of
        Some (OThread t) \<Rightarrow>
          if \<not> stack then do {
            s \<leftarrow> rt_object_delete (OThread t) s;
            Some (None, s)
          }
          else do {
            (e, s) \<leftarrow> rt_thread_init_raw t name priority tick s;
            Some (Some t, s)
          }
      | _ \<Rightarrow> Some (None, s))
   }"

definition rt_thread_startup :: "tid \<Rightarrow> kernel \<Rightarrow> (rt_err_t \<times> kernel) option" where
  "rt_thread_startup t s = do {
     RT_ASSERT (thread_stat s t = RT_THREAD_INIT);
     RT_ASSERT (is_thread t s);
     let s = upd_thread t (\<lambda>r. r\<lparr>current_priority := init_priority r\<rparr>) s;
     m \<leftarrow> shl1 (current_priority (threads s t));
     let s = upd_thread t (\<lambda>r. r\<lparr>number_mask := m\<rparr>) s;
     let s = upd_thread t (\<lambda>r. r\<lparr>stat := RT_THREAD_SUSPEND\<rparr>) s;
     (e, s) \<leftarrow> rt_thread_resume t s;
     s \<leftarrow> (if rt_thread_self s \<noteq> None then rt_schedule s else Some s);
     Some (RT_EOK, s)
   }"

text \<open>The end of a thread: a static thread without cleanup function leaves the object
  system at once, any other goes to the list the idle thread empties.\<close>

definition thread_to_defunct :: "tid \<Rightarrow> kernel \<Rightarrow> kernel" where
  "thread_to_defunct t s = s\<lparr>queues := q_insert_head Defunct t (queues s)\<rparr>"

definition rt_thread_exit :: "kernel \<Rightarrow> kernel option" where
  "rt_thread_exit s = do {
     t \<leftarrow> current_thread s;
     let s = rt_schedule_remove_thread t s;
     let s = upd_thread t (\<lambda>r. r\<lparr>stat := RT_THREAD_CLOSE\<rparr>) s;
     (e, s) \<leftarrow> rt_timer_detach (ThreadTimer t) s;
     let s = (if rt_object_is_systemobject (OThread t) s \<and> \<not> cleanup (threads s t)
              then rt_object_detach (OThread t) s
              else thread_to_defunct t s);
     rt_schedule s
   }"

definition rt_thread_detach :: "tid \<Rightarrow> kernel \<Rightarrow> (rt_err_t \<times> kernel) option" where
  "rt_thread_detach t s = do {
     RT_ASSERT (is_thread t s);
     RT_ASSERT (rt_object_is_systemobject (OThread t) s);
     let s = (if thread_stat s t \<noteq> RT_THREAD_INIT then rt_schedule_remove_thread t s else s);
     (e, s) \<leftarrow> rt_timer_detach (ThreadTimer t) s;
     let s = upd_thread t (\<lambda>r. r\<lparr>stat := RT_THREAD_CLOSE\<rparr>) s;
     let s = (if rt_object_is_systemobject (OThread t) s \<and> \<not> cleanup (threads s t)
              then rt_object_detach (OThread t) s
              else thread_to_defunct t s);
     Some (RT_EOK, s)
   }"

definition rt_thread_delete :: "tid \<Rightarrow> kernel \<Rightarrow> (rt_err_t \<times> kernel) option" where
  "rt_thread_delete t s = do {
     RT_ASSERT (is_thread t s);
     RT_ASSERT (\<not> rt_object_is_systemobject (OThread t) s);
     let s = (if thread_stat s t \<noteq> RT_THREAD_INIT then rt_schedule_remove_thread t s else s);
     (e, s) \<leftarrow> rt_timer_detach (ThreadTimer t) s;
     let s = upd_thread t (\<lambda>r. r\<lparr>stat := RT_THREAD_CLOSE\<rparr>) s;
     Some (RT_EOK, thread_to_defunct t s)
   }"

text \<open>A ready thread is alone in its list when \<^verbatim>\<open>tlist.next == tlist.prev\<close>
  (lemma \<open>next_neq_prev\<close> of theory \<open>Queues\<close>).\<close>

definition rt_thread_yield :: "kernel \<Rightarrow> (rt_err_t \<times> kernel) option" where
  "rt_thread_yield s = do {
     t \<leftarrow> current_thread s;
     let p = unat (current_priority (threads s t));
     (if thread_stat s t = RT_THREAD_READY \<and> 1 < length (queues s (Ready p)) then do {
        let s = s\<lparr>queues := q_insert_tail (Ready p) t (q_remove t (queues s))\<rparr>;
        s \<leftarrow> rt_schedule s;
        Some (RT_EOK, s)
      }
      else Some (RT_EOK, s))
   }"

text \<open>
  \<open>block_point t fr after s\<close> is \<^verbatim>\<open>rt_schedule()\<close> in the middle of a routine that thread \<open>t\<close>
  executes.  If another thread is chosen, \<open>t\<close> stops here with its frame saved; \<open>after\<close>, the
  rest of the routine, runs when \<open>t\<close> is scheduled again.  If the scheduler does not switch
  (it is locked), the rest runs at once.
\<close>

definition block_point ::
  "tid \<Rightarrow> frame \<Rightarrow> (kernel \<Rightarrow> ('r call \<times> kernel) option) \<Rightarrow> kernel \<Rightarrow> ('r call \<times> kernel) option"
  where
  "block_point t fr after s = do {
     s \<leftarrow> rt_schedule s;
     (if current_thread s = Some t then after s
      else Some (Blocked, set_frame t (Some fr) s))
   }"

definition rt_thread_sleep_wake :: "tid \<Rightarrow> kernel \<Rightarrow> (rt_err_t call \<times> kernel) option" where
  "rt_thread_sleep_wake t s =
     (let s = (if th_error (threads s t) = - RT_ETIMEOUT
               then upd_thread t (\<lambda>r. r\<lparr>th_error := RT_EOK\<rparr>) s else s)
      in Some (Return RT_EOK, s))"

text \<open>\<open>start_wait_timer\<close>: set the thread's own timer and start it.\<close>

definition start_wait_timer :: "tid \<Rightarrow> u32 \<Rightarrow> kernel \<Rightarrow> kernel option" where
  "start_wait_timer t tick s = do {
     (e, v, s) \<leftarrow> rt_timer_control (ThreadTimer t) RT_TIMER_CTRL_SET_TIME tick s;
     (e, s) \<leftarrow> rt_timer_start (ThreadTimer t) s;
     Some s
   }"

definition rt_thread_sleep :: "u32 \<Rightarrow> kernel \<Rightarrow> (rt_err_t call \<times> kernel) option" where
  "rt_thread_sleep tick s = do {
     t \<leftarrow> current_thread s;
     RT_ASSERT (is_thread t s);
     (e, s) \<leftarrow> rt_thread_suspend t s;
     s \<leftarrow> start_wait_timer t tick s;
     block_point t FSleep (rt_thread_sleep_wake t) s
   }"

definition rt_thread_delay :: "u32 \<Rightarrow> kernel \<Rightarrow> (rt_err_t call \<times> kernel) option" where
  "rt_thread_delay tick s = rt_thread_sleep tick s"

definition rt_thread_mdelay :: "u32 \<Rightarrow> kernel \<Rightarrow> (rt_err_t call \<times> kernel) option" where
  "rt_thread_mdelay ms s = rt_thread_sleep (rt_tick_from_millisecond ms) s"

definition RT_THREAD_CTRL_STARTUP :: int where "RT_THREAD_CTRL_STARTUP = 0"
definition RT_THREAD_CTRL_CLOSE :: int where "RT_THREAD_CTRL_CLOSE = 1"
definition RT_THREAD_CTRL_CHANGE_PRIORITY :: int where "RT_THREAD_CTRL_CHANGE_PRIORITY = 2"

lemmas thctrl_defs = RT_THREAD_CTRL_STARTUP_def RT_THREAD_CTRL_CLOSE_def
  RT_THREAD_CTRL_CHANGE_PRIORITY_def

definition change_priority :: "tid \<Rightarrow> u8 \<Rightarrow> kernel \<Rightarrow> kernel option" where
  "change_priority t prio s =
     (if thread_stat s t = RT_THREAD_READY then do {
        let s = rt_schedule_remove_thread t s;
        let s = upd_thread t (\<lambda>r. r\<lparr>current_priority := prio\<rparr>) s;
        m \<leftarrow> shl1 (current_priority (threads s t));
        let s = upd_thread t (\<lambda>r. r\<lparr>number_mask := m\<rparr>) s;
        Some (rt_schedule_insert_thread t s)
      }
      else do {
        let s = upd_thread t (\<lambda>r. r\<lparr>current_priority := prio\<rparr>) s;
        m \<leftarrow> shl1 (current_priority (threads s t));
        Some (upd_thread t (\<lambda>r. r\<lparr>number_mask := m\<rparr>) s)
      })"

definition rt_thread_control :: "tid \<Rightarrow> int \<Rightarrow> u8 \<Rightarrow> kernel \<Rightarrow> (rt_err_t \<times> kernel) option" where
  "rt_thread_control t cmd arg s = do {
     RT_ASSERT (is_thread t s);
     (if cmd = RT_THREAD_CTRL_CHANGE_PRIORITY then do {
        s \<leftarrow> change_priority t arg s;
        Some (RT_EOK, s)
      }
      else if cmd = RT_THREAD_CTRL_STARTUP then rt_thread_startup t s
      else if cmd = RT_THREAD_CTRL_CLOSE then rt_thread_delete t s
      else Some (RT_EOK, s))
   }"

definition rt_thread_find :: "string \<Rightarrow> kernel \<Rightarrow> (oref option \<times> kernel) option" where
  "rt_thread_find name s = do {
     let s = (if rt_thread_self s \<noteq> None then rt_enter_critical s else s);
     information \<leftarrow> rt_object_get_information RT_Object_Class_Thread;
     let r = find (\<lambda>x. take RT_NAME_MAX (oname (objs s x)) = take RT_NAME_MAX name)
               (container s information);
     s \<leftarrow> (if rt_thread_self s \<noteq> None then rt_exit_critical s else Some s);
     Some (r, s)
   }"

section \<open>The invariant of scheduler, timers and threads\<close>

text \<open>A thread timer that runs belongs to a suspended thread, and only the timer of a thread
  wakes that thread.\<close>

definition wakeups_ok :: "kernel \<Rightarrow> bool" where
  "wakeups_ok s \<longleftrightarrow>
     (\<forall>t. ThreadTimer t \<in> set (timer_list s) \<longrightarrow> thread_stat s t = RT_THREAD_SUSPEND) \<and>
     (\<forall>m t. timeout_func (timers s m) = ThreadTimeout t \<longrightarrow> m = ThreadTimer t)"

definition alive :: "kernel \<Rightarrow> tid \<Rightarrow> bool" where
  "alive s t \<longleftrightarrow> is_thread t s \<and>
     rt_object_get_type (OTimer (ThreadTimer t)) s = RT_Object_Class_Timer \<and>
     rt_object_is_systemobject (OTimer (ThreadTimer t)) s \<and>
     timeout_func (timers s (ThreadTimer t)) = ThreadTimeout t \<and>
     timer_flag s (ThreadTimer t) AND RT_TIMER_FLAG_PERIODIC = 0"

definition alive_ok :: "kernel \<Rightarrow> bool" where
  "alive_ok s \<longleftrightarrow> (\<forall>t. thread_stat s t = RT_THREAD_READY \<or> thread_stat s t = RT_THREAD_SUSPEND \<longrightarrow>
     alive s t)"

definition core_inv :: "kernel \<Rightarrow> bool" where
  "core_inv s \<longleftrightarrow> sched_inv s \<and> timer_inv s \<and> wakeups_ok s \<and> alive_ok s"

lemma core_invD:
  assumes "core_inv s"
  shows "sched_inv s" "timer_inv s" "wakeups_ok s" "alive_ok s"
    and "thread_stat s t = RT_THREAD_READY \<or> thread_stat s t = RT_THREAD_SUSPEND \<Longrightarrow> alive s t"
    and "ThreadTimer t \<in> set (timer_list s) \<Longrightarrow> thread_stat s t = RT_THREAD_SUSPEND"
  using assms by (auto simp: core_inv_def alive_ok_def wakeups_ok_def)

section \<open>Frames\<close>

text \<open>\<open>kframe\<close>: the routines that move one thread between lists change thread states, lists
  and timers, and nothing else.\<close>

definition kframe :: "kernel \<Rightarrow> kernel \<Rightarrow> bool" where
  "kframe s s' \<longleftrightarrow> lock_nest s' = lock_nest s \<and> container s' = container s \<and>
     current_thread s' = current_thread s \<and> rt_tick s' = rt_tick s \<and> irq_nest s' = irq_nest s \<and>
     sems s' = sems s \<and> mutexes s' = mutexes s \<and> events s' = events s \<and>
     mailboxes s' = mailboxes s \<and> mqs s' = mqs s \<and> frames s' = frames s \<and>
     mempools s' = mempools s \<and> cells s' = cells s \<and> global_errno s' = global_errno s \<and>
     (\<forall>x. otype (objs s' x) = otype (objs s x)) \<and>
     (\<forall>x. (\<forall>m. x \<noteq> OTimer m) \<longrightarrow> objs s' x = objs s x) \<and>
     (\<forall>m. timeout_func (timers s' m) = timeout_func (timers s m)) \<and>
     (\<forall>m. timer_flag s' m AND RT_TIMER_FLAG_PERIODIC = timer_flag s m AND RT_TIMER_FLAG_PERIODIC)"

lemma kframe_sel:
  assumes "kframe s s'"
  shows "lock_nest s' = lock_nest s" "container s' = container s"
    "current_thread s' = current_thread s" "rt_tick s' = rt_tick s" "irq_nest s' = irq_nest s"
    "sems s' = sems s" "mutexes s' = mutexes s" "events s' = events s"
    "mailboxes s' = mailboxes s" "mqs s' = mqs s" "frames s' = frames s"
    "otype (objs s' x) = otype (objs s x)"
    "rt_object_get_type x s' = rt_object_get_type x s"
    "rt_object_is_systemobject x s' = rt_object_is_systemobject x s"
    "is_thread t s' = is_thread t s" "alive s' t = alive s t"
    "timeout_func (timers s' m) = timeout_func (timers s m)"
    "(\<forall>m. x \<noteq> OTimer m) \<Longrightarrow> objs s' x = objs s x"
    "mempools s' = mempools s" "cells s' = cells s" "global_errno s' = global_errno s"
  using assms by (simp_all add: kframe_def rt_object_get_type_def rt_object_is_systemobject_def
      is_thread_def alive_def)

lemma kframe_refl [simp]: "kframe s s"
  by (simp add: kframe_def)

lemma kframe_trans: "kframe s t \<Longrightarrow> kframe t u \<Longrightarrow> kframe s u"
  by (simp add: kframe_def)

lemma timer_frame_kframe: "timer_frame s s' \<Longrightarrow> kframe s s'"
  by (simp add: timer_frame_def kframe_def)

lemma timer_flag_upd [simp]:
  "timer_flag (s\<lparr>threads := th\<rparr>) = timer_flag s" "timer_flag (s\<lparr>queues := q\<rparr>) = timer_flag s"
  "timer_flag (s\<lparr>ready_group := g\<rparr>) = timer_flag s"
  by (simp_all add: timer_flag_def fun_eq_iff)

lemma kframe_upd [simp]:
  "kframe s (upd_thread t f s)" "kframe s (s\<lparr>queues := q\<rparr>)"
  "kframe s (rt_schedule_insert_thread t s)" "kframe s (rt_schedule_remove_thread t s)"
  by (simp_all add: kframe_def upd_thread_def rt_schedule_insert_thread_def
      rt_schedule_remove_thread_def Let_def)

lemma core_inv_kframe:
  assumes inv: "core_inv s" and f: "kframe s s'" and "sched_inv s'" "timer_inv s'"
    and tl: "\<And>t. ThreadTimer t \<in> set (timer_list s') \<Longrightarrow> thread_stat s' t = RT_THREAD_SUSPEND"
    and al: "\<And>t. thread_stat s' t = RT_THREAD_READY \<or> thread_stat s' t = RT_THREAD_SUSPEND \<Longrightarrow>
      thread_stat s t = RT_THREAD_READY \<or> thread_stat s t = RT_THREAD_SUSPEND \<or> alive s t"
  shows "core_inv s'"
proof -
  have "wakeups_ok s'"
    using core_invD(3) [OF inv] tl by (simp add: wakeups_ok_def kframe_sel(17) [OF f])
  moreover have "alive_ok s'"
    using al core_invD(5) [OF inv] by (auto simp: alive_ok_def kframe_sel(16) [OF f])
  ultimately show ?thesis using assms by (simp add: core_inv_def)
qed

lemma sched_frame_thread [simp]:
  assumes "sched_frame s s'"
  shows "thread_stat s' t = thread_stat s t" "is_thread t s' = is_thread t s"
    "timer_flag s' m = timer_flag s m" "alive s' t = alive s t" "timer_key s' m = timer_key s m"
    "rt_object_get_type x s' = rt_object_get_type x s"
    "rt_object_is_systemobject x s' = rt_object_is_systemobject x s"
  using sched_frame_sel [OF assms]
  by (simp_all add: thread_stat_def is_thread_def timer_flag_def alive_def timer_key_def
      rt_object_get_type_def rt_object_is_systemobject_def)

lemma runs_highest_cong:
  assumes "queues s' = queues s" "ready_group s' = ready_group s"
    "current_thread s' = current_thread s"
  shows "runs_highest s' = runs_highest s"
  using assms by (simp add: runs_highest_def highest_ready_def Let_def)

lemma quiet_cong:
  assumes "queues s' = queues s" "ready_group s' = ready_group s"
    "current_thread s' = current_thread s" "lock_nest s' = lock_nest s"
  shows "quiet s' = quiet s"
  using assms runs_highest_cong [OF assms(1-3)] by (simp add: quiet_def)

lemma sched_frame_core_inv:
  assumes "sched_frame s s'"
  shows "core_inv s' = core_inv s"
  using sched_frame_sel [OF assms] sched_frame_thread [OF assms]
  by (simp add: core_inv_def timer_inv_def wakeups_ok_def alive_ok_def)

lemmas rt_schedule_core_inv = sched_frame_core_inv [OF rt_schedule_frame]

section \<open>Suspending and resuming\<close>

text \<open>What the two routines do to the state, as a client sees it.\<close>

definition suspended :: "tid \<Rightarrow> kernel \<Rightarrow> kernel \<Rightarrow> bool" where
  "suspended t s s' \<longleftrightarrow> kframe s s' \<and> queues s' = q_remove t (queues s) \<and>
     threads s' = (threads s)(t := with_stat RT_THREAD_SUSPEND (threads s t)) \<and>
     timers s' = timers s \<and> timer_list s' = timer_list s"

definition resumed :: "tid \<Rightarrow> kernel \<Rightarrow> kernel \<Rightarrow> bool" where
  "resumed t s s' \<longleftrightarrow> kframe s s' \<and>
     queues s' = q_insert_tail (Ready (unat (current_priority (threads s t)))) t
                   (q_remove t (queues s)) \<and>
     threads s' = (threads s)(t := with_stat RT_THREAD_READY (threads s t)) \<and>
     timers s' = timers s \<and> timer_list s' = removeAll (ThreadTimer t) (timer_list s)"

lemma suspendedD:
  assumes "suspended t s s'"
  shows "kframe s s'" "queues s' = q_remove t (queues s)"
    "threads s' = (threads s)(t := with_stat RT_THREAD_SUSPEND (threads s t))"
    "timers s' = timers s" "timer_list s' = timer_list s"
    "thread_stat s' u = (if u = t then RT_THREAD_SUSPEND else thread_stat s u)"
  using assms by (simp_all add: suspended_def thread_stat_def)

lemma resumedD:
  assumes "resumed t s s'"
  shows "kframe s s'"
    "queues s' = q_insert_tail (Ready (unat (current_priority (threads s t)))) t
                   (q_remove t (queues s))"
    "threads s' = (threads s)(t := with_stat RT_THREAD_READY (threads s t))"
    "timers s' = timers s" "timer_list s' = removeAll (ThreadTimer t) (timer_list s)"
    "thread_stat s' u = (if u = t then RT_THREAD_READY else thread_stat s u)"
  using assms by (simp_all add: resumed_def thread_stat_def)

lemma timer_inv_unlist:
  "timer_inv s \<Longrightarrow> timers s' = timers s \<Longrightarrow> timer_list s' = timer_list s \<Longrightarrow>
   rt_tick s' = rt_tick s \<Longrightarrow> objs s' = objs s \<Longrightarrow> timer_inv s'"
  by (simp add: timer_inv_def timer_key_def timer_flag_def rt_object_get_type_def)

lemma rt_thread_suspend_spec:
  assumes inv: "core_inv s" and t: "thread_stat s t = RT_THREAD_READY"
  shows "\<exists>s'. rt_thread_suspend t s = Some (RT_EOK, s') \<and> suspended t s s' \<and> core_inv s'"
proof -
  have al: "alive s t" using core_invD(5) [OF inv] t by blast
  define s1 where "s1 = rt_schedule_remove_thread t (upd_thread t (with_stat RT_THREAD_SUSPEND) s)"
  have k1: "kframe s s1"
    unfolding s1_def by (rule kframe_trans [OF kframe_upd(1) kframe_upd(4)])
  have s1: "queues s1 = q_remove t (queues s)" "timers s1 = timers s"
      "timer_list s1 = timer_list s" "objs s1 = objs s" "rt_tick s1 = rt_tick s"
      "threads s1 = (threads s)(t := with_stat RT_THREAD_SUSPEND (threads s t))"
    by (simp_all add: s1_def remove_thread_sel) (simp_all add: upd_thread_def)
  have g1: "ready_group s1 =
     (if q_remove t (queues s) (Ready (unat (current_priority (threads s t)))) = []
      then ready_group s AND NOT (number_mask (threads s t)) else ready_group s)"
    by (simp add: s1_def remove_thread_sel upd_thread_def)
  have "thread_ok (with_stat RT_THREAD_SUSPEND (threads s t))"
    using sched_okD(5) [OF core_invD(1) [OF inv], of t] t
    by (intro thread_ok_with_stat) (auto simp: thread_stat_def)
  from sched_ok_remove [OF core_invD(1) [OF inv] _ this, of t] t
  have sc1: "sched_inv s1" by (simp add: thread_stat_def s1 g1)
  have ti1: "timer_inv s1"
    by (rule timer_inv_unlist [OF core_invD(2) [OF inv] s1(2,3,5,4)])
  have "rt_object_get_type (OTimer (ThreadTimer t)) s1 = RT_Object_Class_Timer"
    using al by (simp add: alive_def kframe_sel(13) [OF k1])
  then obtain e s2 where stop: "rt_timer_stop (ThreadTimer t) s1 = Some (e, s2)"
    using rt_timer_stop_total by blast
  note s2 = rt_timer_stop_eq [OF ti1 stop]
  have nin: "ThreadTimer t \<notin> set (timer_list s)" using core_invD(6) [OF inv, of t] t by auto
  have "rt_thread_suspend t s = Some (RT_EOK, s2)"
    using al t stop
    by (simp add: rt_thread_suspend_def alive_def Let_def flip: s1_def)
  moreover have "suspended t s s2"
    using kframe_trans [OF k1 timer_frame_kframe [OF s2(1)]] nin
    by (simp add: suspended_def timer_frame_sel [OF s2(1)] s1 s2)
  moreover have "core_inv s2"
  proof (rule core_inv_kframe [OF inv suspendedD(1) [OF \<open>suspended t s s2\<close>]])
    show "sched_inv s2" using sc1 by (simp add: timer_frame_sel [OF s2(1)])
    show "timer_inv s2" by (rule s2(2))
    show "ThreadTimer u \<in> set (timer_list s2) \<Longrightarrow> thread_stat s2 u = RT_THREAD_SUSPEND" for u
      using core_invD(6) [OF inv, of u]
      by (simp add: suspendedD [OF \<open>suspended t s s2\<close>])
  qed (use t suspendedD(6) [OF \<open>suspended t s s2\<close>] in \<open>auto split: if_splits\<close>)
  ultimately show ?thesis by blast
qed

text \<open>A suspended thread that is linked in no list becomes ready.\<close>

lemma make_ready_sched_inv:
  assumes s: "sched_inv s" and t: "thread_stat s t = RT_THREAD_SUSPEND"
  shows "sched_inv (s\<lparr>queues := q_remove t (queues s)\<rparr>)"
    and "sched_inv (rt_schedule_insert_thread t (s\<lparr>queues := q_remove t (queues s)\<rparr>))"
proof -
  let ?s = "s\<lparr>queues := q_remove t (queues s)\<rparr>"
  have nin: "t \<notin> set (queues s (Ready p))" for p
    using sched_okD(2) [OF s] t by (simp add: thread_stat_def)
  then have r: "q_remove t (queues s) (Ready p) = queues s (Ready p)" for p
    by (simp add: q_remove_def)
  have sub: "set (q_remove t (queues s) h) \<subseteq> set (queues s h)" for h
    by (auto simp: q_remove_def)
  have q: "q_ok (q_remove t (queues s))" using sched_okD(1) [OF s] by (rule q_ok_remove)
  have "sched_ok (q_remove t (queues s)) (ready_group s) (threads s)"
    using sched_okD(2-6) [OF s] q subsetD [OF sub]
    unfolding sched_ok_def r by metis
  then show i: "sched_inv ?s" by simp
  show "sched_inv (rt_schedule_insert_thread t ?s)"
    by (rule insert_thread_inv [OF i]) (use t in \<open>simp_all add: q_remove_def thread_stat_def\<close>)
qed

lemma rt_thread_resume_spec:
  assumes inv: "core_inv s" and t: "thread_stat s t = RT_THREAD_SUSPEND"
  shows "\<exists>s'. rt_thread_resume t s = Some (RT_EOK, s') \<and> resumed t s s' \<and> core_inv s'"
proof -
  have al: "alive s t" using core_invD(5) [OF inv] t by blast
  define s1 where "s1 = s\<lparr>queues := q_remove t (queues s)\<rparr>"
  have k1: "kframe s s1" by (simp add: s1_def)
  have ti1: "timer_inv s1"
    by (rule timer_inv_unlist [OF core_invD(2) [OF inv]]) (simp_all add: s1_def)
  have "rt_object_get_type (OTimer (ThreadTimer t)) s1 = RT_Object_Class_Timer"
    using al by (simp add: alive_def kframe_sel(13) [OF k1])
  then obtain e s2 where stop: "rt_timer_stop (ThreadTimer t) s1 = Some (e, s2)"
    using rt_timer_stop_total by blast
  note s2 = rt_timer_stop_eq [OF ti1 stop]
  define s3 where "s3 = rt_schedule_insert_thread t s2"
  have k3: "kframe s s3"
    unfolding s3_def
    by (rule kframe_trans [OF kframe_trans [OF k1 timer_frame_kframe [OF s2(1)]] kframe_upd(3)])
  have st1: "thread_stat s1 t = RT_THREAD_SUSPEND" using t by (simp add: s1_def thread_stat_def)
  have s2q: "queues s2 = queues s1" "threads s2 = threads s1" "ready_group s2 = ready_group s1"
    using timer_frame_sel [OF s2(1)] by simp_all
  have "rt_thread_resume t s = Some (RT_EOK, s3)"
    using al t stop
    by (simp add: rt_thread_resume_def alive_def Let_def s3_def flip: s1_def)
  moreover have r: "resumed t s s3"
    using k3 by (simp add: resumed_def) (simp add: s3_def insert_thread_sel s2q s2 s1_def)
  moreover have "core_inv s3"
  proof (rule core_inv_kframe [OF inv k3])
    have "sched_inv s2"
      using make_ready_sched_inv(1) [OF core_invD(1) [OF inv] t] s2q by (simp add: s1_def)
    then show "sched_inv s3"
      unfolding s3_def
      by (rule insert_thread_inv) (use st1 in \<open>simp_all add: s2q thread_stat_def s1_def q_remove_def\<close>)
    show "timer_inv s3"
      by (rule timer_inv_unlist [OF s2(2)])
        (simp_all add: s3_def insert_thread_sel)
    show "ThreadTimer u \<in> set (timer_list s3) \<Longrightarrow> thread_stat s3 u = RT_THREAD_SUSPEND" for u
      using core_invD(6) [OF inv, of u] by (auto simp: resumedD [OF r])
  qed (use t resumedD(6) [OF r] in \<open>auto split: if_splits\<close>)
  ultimately show ?thesis by blast
qed

lemma rt_thread_suspend_error:
  "is_thread t s \<Longrightarrow> thread_stat s t \<noteq> RT_THREAD_READY \<Longrightarrow> rt_thread_suspend t s = Some (- RT_ERROR, s)"
  "is_thread t s \<Longrightarrow> thread_stat s t \<noteq> RT_THREAD_SUSPEND \<Longrightarrow> rt_thread_resume t s = Some (- RT_ERROR, s)"
  by (simp_all add: rt_thread_suspend_def rt_thread_resume_def)

lemma rt_thread_suspend_inv:
  assumes "core_inv s" "rt_thread_suspend t s = Some (e, s')"
  shows "core_inv s'"
proof (cases "thread_stat s t = RT_THREAD_READY")
  case True
  then show ?thesis using rt_thread_suspend_spec [OF assms(1)] assms(2) by fastforce
next
  case False
  then show ?thesis using assms by (auto simp: rt_thread_suspend_def)
qed

lemma rt_thread_resume_inv:
  assumes "core_inv s" "rt_thread_resume t s = Some (e, s')"
  shows "core_inv s'"
proof (cases "thread_stat s t = RT_THREAD_SUSPEND")
  case True
  then show ?thesis using rt_thread_resume_spec [OF assms(1)] assms(2) by fastforce
next
  case False
  then show ?thesis using assms by (auto simp: rt_thread_resume_def)
qed

section \<open>Time-outs and sleeping\<close>

text \<open>The time-out function of a thread's timer, called when the timer was taken off the
  list: the thread becomes ready with the error \<open>- RT_ETIMEOUT\<close>.\<close>

definition timed_out :: "tid \<Rightarrow> kernel \<Rightarrow> kernel \<Rightarrow> bool" where
  "timed_out t s s' \<longleftrightarrow> (\<exists>s1. kframe s s1 \<and> sched_frame s1 s' \<and>
     queues s1 = q_insert_tail (Ready (unat (current_priority (threads s t)))) t
                   (q_remove t (queues s)) \<and>
     threads s1 = (threads s)(t := with_stat RT_THREAD_READY
                    ((threads s t)\<lparr>th_error := - RT_ETIMEOUT\<rparr>)) \<and>
     timers s1 = timers s \<and> timer_list s1 = timer_list s)"

lemma upd_thread_sel [simp]:
  "threads (upd_thread t f s) = (threads s)(t := f (threads s t))"
  "queues (upd_thread t f s) = queues s" "ready_group (upd_thread t f s) = ready_group s"
  "timers (upd_thread t f s) = timers s" "timer_list (upd_thread t f s) = timer_list s"
  "objs (upd_thread t f s) = objs s" "rt_tick (upd_thread t f s) = rt_tick s"
  "lock_nest (upd_thread t f s) = lock_nest s" "irq_nest (upd_thread t f s) = irq_nest s"
  "current_thread (upd_thread t f s) = current_thread s"
  "container (upd_thread t f s) = container s" "frames (upd_thread t f s) = frames s"
  "sems (upd_thread t f s) = sems s" "mutexes (upd_thread t f s) = mutexes s"
  "events (upd_thread t f s) = events s" "mailboxes (upd_thread t f s) = mailboxes s"
  "mqs (upd_thread t f s) = mqs s" "mempools (upd_thread t f s) = mempools s" "cells (upd_thread t f s) = cells s"
  "global_errno (upd_thread t f s) = global_errno s"
  by (simp_all add: upd_thread_def)

lemma upd_thread_cong_inv:
  assumes "core_inv s" "stat (f (threads s t)) = stat (threads s t)"
    "current_priority (f (threads s t)) = current_priority (threads s t)"
    "init_priority (f (threads s t)) = init_priority (threads s t)"
    "number_mask (f (threads s t)) = number_mask (threads s t)"
  shows "core_inv (upd_thread t f s)"
proof (rule core_inv_kframe [OF assms(1) kframe_upd(1)])
  have st: "thread_stat (upd_thread t f s) u = thread_stat s u" for u
    using assms(2) by (simp add: thread_stat_def tstat_def)
  show "sched_inv (upd_thread t f s)"
    using core_invD(1) [OF assms(1)] assms(2-) by (simp add: sched_ok_cong_thread)
  show "timer_inv (upd_thread t f s)"
    by (rule timer_inv_unlist [OF core_invD(2) [OF assms(1)]]) simp_all
  show "ThreadTimer u \<in> set (timer_list (upd_thread t f s)) \<Longrightarrow>
      thread_stat (upd_thread t f s) u = RT_THREAD_SUSPEND" for u
    using core_invD(6) [OF assms(1)] by (simp add: st)
  show "thread_stat (upd_thread t f s) u = RT_THREAD_READY \<or>
      thread_stat (upd_thread t f s) u = RT_THREAD_SUSPEND \<Longrightarrow>
      thread_stat s u = RT_THREAD_READY \<or> thread_stat s u = RT_THREAD_SUSPEND \<or> alive s u" for u
    by (auto simp: st)
qed

lemma rt_thread_timeout_spec:
  assumes inv: "core_inv s" and t: "thread_stat s t = RT_THREAD_SUSPEND"
    and nin: "ThreadTimer t \<notin> set (timer_list s)" and cur: "current_thread s \<noteq> None"
  shows "\<exists>s'. rt_thread_timeout t s = Some s' \<and> timed_out t s s' \<and> core_inv s' \<and>
    current_thread s' \<noteq> None \<and> (lock_nest s = 0 \<longrightarrow> runs_highest s')"
proof -
  have al: "alive s t" using core_invD(5) [OF inv] t by blast
  define s1 where "s1 = upd_thread t (\<lambda>r. r\<lparr>th_error := - RT_ETIMEOUT\<rparr>) s"
  define s2 where "s2 = rt_schedule_insert_thread t (s1\<lparr>queues := q_remove t (queues s1)\<rparr>)"
  have i1: "core_inv s1" unfolding s1_def by (rule upd_thread_cong_inv [OF inv]) simp_all
  have k2: "kframe s s2"
    unfolding s2_def s1_def by (intro kframe_trans [OF _ kframe_upd(3)] kframe_trans [OF _ kframe_upd(2)])
      simp
  have st1: "thread_stat s1 u = thread_stat s u" for u
    by (simp add: s1_def thread_stat_def tstat_def)
  have sel: "queues s2 = q_insert_tail (Ready (unat (current_priority (threads s t)))) t
        (q_remove t (queues s))"
      "threads s2 = (threads s)(t := with_stat RT_THREAD_READY
                    ((threads s t)\<lparr>th_error := - RT_ETIMEOUT\<rparr>))"
      "timers s2 = timers s" "timer_list s2 = timer_list s" "current_thread s2 = current_thread s"
      "lock_nest s2 = lock_nest s"
    by (simp_all add: s2_def insert_thread_sel s1_def)
  have st2: "thread_stat s2 u = (if u = t then RT_THREAD_READY else thread_stat s u)" for u
    by (simp add: thread_stat_def sel)
  have sc2: "sched_inv s2"
    unfolding s2_def by (rule make_ready_sched_inv(2) [OF core_invD(1) [OF i1]]) (simp add: st1 t)
  have i2: "core_inv s2"
  proof (rule core_inv_kframe [OF inv k2 sc2])
    show "timer_inv s2"
      by (rule timer_inv_unlist [OF core_invD(2) [OF i1]])
        (simp_all add: s2_def insert_thread_sel)
    show "ThreadTimer u \<in> set (timer_list s2) \<Longrightarrow> thread_stat s2 u = RT_THREAD_SUSPEND" for u
      using core_invD(6) [OF inv, of u] nin by (auto simp: st2 sel)
  qed (use t in \<open>auto simp: st2 split: if_splits\<close>)
  have "queues s2 (Ready (unat (current_priority (threads s t)))) \<noteq> []"
    by (simp add: sel q_insert_tail_def)
  then obtain s3 where s3: "rt_schedule s2 = Some s3"
    using rt_schedule_total [OF sc2] cur by (metis sel(5))
  have "rt_thread_timeout t s = Some s3"
    using al t s3 st1 by (simp add: rt_thread_timeout_def alive_def is_thread_def
        rt_object_get_type_def Let_def s2_def s1_def)
  moreover have "timed_out t s s3"
    unfolding timed_out_def using k2 sel rt_schedule_frame [OF s3] by blast
  moreover have "core_inv s3" using i2 rt_schedule_core_inv [OF s3] by simp
  moreover have "current_thread s3 \<noteq> None"
    using s3
  proof (cases rule: rt_schedule_cases)
    case same
    then show ?thesis using cur sel(5) by simp
  next
    case (switch p u f)
    then show ?thesis
      by (simp add: rt_hw_context_switch_def rt_hw_context_switch_interrupt_def Let_def)
  qed
  moreover have "lock_nest s = 0 \<longrightarrow> runs_highest s3"
    using rt_schedule_runs_highest [OF s3] sel(6) by simp
  ultimately show ?thesis by blast
qed

text \<open>Starting the timer of a suspended thread.\<close>

definition timer_armed :: "tid \<Rightarrow> u32 \<Rightarrow> kernel \<Rightarrow> kernel \<Rightarrow> bool" where
  "timer_armed t tick s s' \<longleftrightarrow> kframe s s' \<and> queues s' = queues s \<and> threads s' = threads s \<and>
     set (timer_list s') = insert (ThreadTimer t) (set (timer_list s)) \<and>
     timer_key s' (ThreadTimer t) = int (unat tick) \<and>
     (\<forall>m. m \<noteq> ThreadTimer t \<longrightarrow> timer_key s' m = timer_key s m)"

lemma upd_timer_kframe:
  "(\<And>r. timeout_func (f r) = timeout_func r) \<Longrightarrow> kframe s (upd_timer m f s)"
  by (rule timer_frame_kframe [OF upd_timer_frame])

lemma start_wait_timer_spec:
  assumes inv: "core_inv s" and t: "thread_stat s t = RT_THREAD_SUSPEND"
    and tick: "tick < RT_TICK_MAX div 2"
  shows "\<exists>s'. start_wait_timer t tick s = Some s' \<and> timer_armed t tick s s' \<and> core_inv s'"
proof -
  have al: "alive s t" using core_invD(5) [OF inv] t by blast
  define s1 where "s1 = upd_timer (ThreadTimer t) (\<lambda>r. r\<lparr>init_tick := tick\<rparr>) s"
  have ty: "rt_object_get_type (OTimer (ThreadTimer t)) s = RT_Object_Class_Timer"
    using al by (simp add: alive_def)
  have ctl: "rt_timer_control (ThreadTimer t) RT_TIMER_CTRL_SET_TIME tick s = Some (RT_EOK, tick, s1)"
    using rt_timer_set_time [OF ty] by (simp add: s1_def)
  have f1: "timer_frame s s1" unfolding s1_def by (rule upd_timer_frame) simp
  have ti1: "timer_inv s1" unfolding s1_def set_init_tick_inv by (rule core_invD(2) [OF inv])
  have it: "init_tick (timers s1 (ThreadTimer t)) = tick" by (simp add: s1_def)
  have ty1: "rt_object_get_type (OTimer (ThreadTimer t)) s1 = RT_Object_Class_Timer"
    using ty by (simp add: timer_frame_sel [OF f1])
  obtain s2 where st: "rt_timer_start (ThreadTimer t) s1 = Some (RT_EOK, s2)"
    using rt_timer_start_total [OF ty1] tick by (auto simp: it)
  note e = rt_timer_start_eq [OF st] and i = rt_timer_start_inv [OF ti1 st]
  have f2: "timer_frame s s2" using f1 e(7) by (rule timer_frame_trans)
  note sel = timer_frame_sel [OF f2]
  have tl1: "timer_list s1 = timer_list s" by (simp add: s1_def)
  have key1: "timer_key s1 = timer_key s" by (simp add: s1_def timer_key_def fun_eq_iff)
  have armed: "timer_armed t tick s s2"
    using timer_frame_kframe [OF f2] i(2-4)
    by (simp add: timer_armed_def sel it tl1 key1)
  moreover have "core_inv s2"
  proof (rule core_inv_kframe [OF inv timer_frame_kframe [OF f2]])
    show "sched_inv s2" using core_invD(1) [OF inv] by (simp add: sel)
    show "timer_inv s2" by (rule i(1))
    show "ThreadTimer u \<in> set (timer_list s2) \<Longrightarrow> thread_stat s2 u = RT_THREAD_SUSPEND" for u
      using core_invD(6) [OF inv, of u] t by (auto simp: i(2) tl1 sel thread_stat_def)
  qed (auto simp: thread_stat_def sel)
  moreover have "start_wait_timer t tick s = Some s2"
    by (simp add: start_wait_timer_def ctl st)
  ultimately show ?thesis by blast
qed

lemma timer_armedD:
  assumes "timer_armed t tick s s'"
  shows "kframe s s'" "queues s' = queues s" "threads s' = threads s"
    "set (timer_list s') = insert (ThreadTimer t) (set (timer_list s))"
    "timer_key s' (ThreadTimer t) = int (unat tick)"
    "m \<noteq> ThreadTimer t \<Longrightarrow> timer_key s' m = timer_key s m"
    "thread_stat s' u = thread_stat s u"
  using assms by (simp_all add: timer_armed_def thread_stat_def)

text \<open>A call that leaves at a block point: the thread is not ready, so another one runs.\<close>

lemma block_point_blocks:
  assumes inv: "core_inv s" and t: "thread_stat s t \<noteq> RT_THREAD_READY"
    and cur: "current_thread s = Some t" and lock: "lock_nest s = 0"
    and bp: "block_point t fr after s = Some (r, s')"
  obtains s1 where "rt_schedule s = Some s1" "r = Blocked" "s' = set_frame t (Some fr) s1"
    "runs_highest s1" "current_thread s1 \<noteq> Some t" "sched_frame s s1"
proof -
  obtain s1 where s1: "rt_schedule s = Some s1"
    using bp by (auto simp: block_point_def)
  have f: "sched_frame s s1" using s1 by (rule rt_schedule_frame)
  have rh: "runs_highest s1" using s1 lock by (rule rt_schedule_runs_highest)
  have sc: "sched_inv s1" using core_invD(1) [OF inv] by (simp add: sched_frame_sel [OF f])
  have "current_thread s1 \<noteq> Some t"
    using runs_highestD [OF sc rh] t sched_frame_thread(1) [OF f, of t] by (metis option.inject)
  with bp s1 have "r = Blocked" "s' = set_frame t (Some fr) s1" by (auto simp: block_point_def)
  with s1 rh f \<open>current_thread s1 \<noteq> Some t\<close> show thesis by (intro that)
qed

lemma set_frame_core_inv [simp]: "core_inv (set_frame t fr s) = core_inv s"
  by (simp add: core_inv_def timer_inv_def wakeups_ok_def alive_ok_def set_frame_def
      thread_stat_def timer_key_def timer_flag_def alive_def is_thread_def rt_object_get_type_def
      rt_object_is_systemobject_def)

lemma runs_highest_set_frame [simp]: "runs_highest (set_frame t fr s) = runs_highest s"
  by (simp add: runs_highest_def highest_ready_def set_frame_def Let_def)

lemma rt_thread_sleep_spec:
  assumes inv: "core_inv s" and cur: "current_thread s = Some t" and lock: "lock_nest s = 0"
    and t: "thread_stat s t = RT_THREAD_READY" and tick: "tick < RT_TICK_MAX div 2"
    and other: "u \<noteq> t" "thread_stat s u = RT_THREAD_READY"
  shows "\<exists>s'. rt_thread_sleep tick s = Some (Blocked, s') \<and> core_inv s' \<and> runs_highest s' \<and>
    current_thread s' \<noteq> Some t \<and> frames s' t = Some FSleep \<and>
    thread_stat s' t = RT_THREAD_SUSPEND \<and> (\<forall>h. t \<notin> set (queues s' h)) \<and>
    set (timer_list s') = insert (ThreadTimer t) (set (timer_list s)) \<and>
    timer_key s' (ThreadTimer t) = int (unat tick) \<and>
    (\<forall>m. m \<noteq> ThreadTimer t \<longrightarrow> timer_key s' m = timer_key s m) \<and> lock_nest s' = 0 \<and>
    (\<forall>u. u \<noteq> t \<longrightarrow> threads s' u = threads s u)"
proof -
  obtain s1 where s1: "rt_thread_suspend t s = Some (RT_EOK, s1)" "suspended t s s1" "core_inv s1"
    using rt_thread_suspend_spec [OF inv t] by blast
  have st1: "thread_stat s1 t = RT_THREAD_SUSPEND" by (simp add: suspendedD(6) [OF s1(2)])
  obtain s2 where s2: "start_wait_timer t tick s1 = Some s2" "timer_armed t tick s1 s2" "core_inv s2"
    using start_wait_timer_spec [OF s1(3) st1 tick] by blast
  have k: "kframe s s2"
    using suspendedD(1) [OF s1(2)] timer_armedD(1) [OF s2(2)] by (rule kframe_trans)
  have q: "queues s2 = q_remove t (queues s)"
    by (simp add: timer_armedD(2) [OF s2(2)] suspendedD(2) [OF s1(2)])
  have "u \<in> set (queues s (Ready (unat (current_priority (threads s u)))))"
    using other(2) sched_okD(2) [OF core_invD(1) [OF inv], of u] by (simp add: thread_stat_def)
  then have "u \<in> set (queues s2 (Ready (unat (current_priority (threads s u)))))"
    using other(1) by (simp add: q q_remove_def)
  then have "queues s2 (Ready (unat (current_priority (threads s u)))) \<noteq> []" by auto
  then obtain s3 where s3: "rt_schedule s2 = Some s3"
    using rt_schedule_total [OF core_invD(1) [OF s2(3)]] cur kframe_sel(3) [OF k] by fastforce
  have "alive s t" using core_invD(5) [OF inv] t by blast
  then have eq: "rt_thread_sleep tick s = block_point t FSleep (rt_thread_sleep_wake t) s2"
    using cur s1(1) s2(1) by (simp add: rt_thread_sleep_def alive_def)
  have ready2: "thread_stat s2 t = RT_THREAD_SUSPEND"
    using st1 timer_armedD(7) [OF s2(2), of t] by simp
  have "block_point t FSleep (rt_thread_sleep_wake t) s2 \<noteq> None"
    using s3 by (auto simp: block_point_def rt_thread_sleep_wake_def)
  then obtain r s' where bp: "block_point t FSleep (rt_thread_sleep_wake t) s2 = Some (r, s')" by auto
  have r2: "thread_stat s2 t \<noteq> RT_THREAD_READY" using ready2 by simp
  have c2: "current_thread s2 = Some t" "lock_nest s2 = 0"
    using cur lock by (simp_all add: kframe_sel [OF k])
  obtain s4 where s4: "r = Blocked" "s' = set_frame t (Some FSleep) s4" "runs_highest s4"
    "current_thread s4 \<noteq> Some t" "sched_frame s2 s4"
    by (rule block_point_blocks [OF s2(3) r2 c2 bp])
  note f = sched_frame_sel [OF s4(5)]
  have th: "threads s' = threads s2" "queues s' = queues s2" "timer_list s' = timer_list s2"
    by (simp_all add: s4(2) set_frame_def f)
  have key: "timer_key s' = timer_key s2"
    by (simp add: s4(2) set_frame_def f timer_key_def fun_eq_iff)
  have "core_inv s'" using s2(3) sched_frame_core_inv [OF s4(5)] by (simp add: s4(2))
  moreover have "runs_highest s'" "current_thread s' \<noteq> Some t" "frames s' t = Some FSleep"
      using s4(3,4) by (simp_all add: s4(2)) (simp_all add: set_frame_def)
  moreover have "thread_stat s' t = RT_THREAD_SUSPEND" using ready2 by (simp add: thread_stat_def th)
  moreover have "\<forall>h. t \<notin> set (queues s' h)" by (simp add: th q q_remove_def)
  moreover have "\<forall>u. u \<noteq> t \<longrightarrow> threads s' u = threads s u"
    by (simp add: th timer_armedD(3) [OF s2(2)] suspendedD(3) [OF s1(2)])
  moreover have "set (timer_list s') = insert (ThreadTimer t) (set (timer_list s))"
      "timer_key s' (ThreadTimer t) = int (unat tick)"
      using timer_armedD(4,5) [OF s2(2)] suspendedD(5) [OF s1(2)] by (simp_all add: th key)
  moreover have "timer_key s1 = timer_key s"
    using kframe_sel(4) [OF suspendedD(1) [OF s1(2)]] suspendedD(4) [OF s1(2)]
    by (simp add: timer_key_def fun_eq_iff)
  then have "\<forall>m. m \<noteq> ThreadTimer t \<longrightarrow> timer_key s' m = timer_key s m"
    using timer_armedD(6) [OF s2(2)] by (simp add: key)
  moreover have "lock_nest s' = 0" using c2(2) by (simp add: s4(2) set_frame_def f)
  ultimately show ?thesis using eq bp s4(1) by simp
qed

section \<open>Yielding\<close>

text \<open>Moving a ready thread to the end of its list keeps the scheduler invariant.\<close>

lemma requeue_sched_inv:
  assumes s: "sched_inv s" and t: "t \<in> set (queues s (Ready p))"
  shows "sched_inv (s\<lparr>queues := q_insert_tail (Ready p) t (q_remove t (queues s))\<rparr>)"
proof -
  let ?Q = "q_insert_tail (Ready p) t (q_remove t (queues s))"
  have t2: "h = Ready p" if "t \<in> set (queues s h)" for h
    using q_okD(2) [OF sched_okD(1) [OF s] that t] .
  have mem: "set (?Q h) = set (queues s h)" for h
  proof (cases "h = Ready p")
    case True
    then show ?thesis using t by (auto simp: q_defs)
  next
    case False
    then have "t \<notin> set (queues s h)" using t2 [of h] by blast
    with False show ?thesis by (simp add: q_defs)
  qed
  have "q_ok ?Q"
    using q_ok_insert(1) [OF q_ok_remove [OF sched_okD(1) [OF s]]] by (simp add: q_remove_def)
  moreover have "?Q h = [] \<longleftrightarrow> queues s h = []" for h
    using mem [of h] by (metis set_empty)
  ultimately have "sched_ok ?Q (ready_group s) (threads s)"
    using s by (simp add: sched_ok_def mem)
  then show ?thesis by simp
qed

lemma queues_core_inv:
  assumes "core_inv s" "sched_inv (s\<lparr>queues := q\<rparr>)"
  shows "core_inv (s\<lparr>queues := q\<rparr>)"
proof (rule core_inv_kframe [OF assms(1) kframe_upd(2) assms(2)])
  show "timer_inv (s\<lparr>queues := q\<rparr>)"
    by (rule timer_inv_unlist [OF core_invD(2) [OF assms(1)]]) simp_all
qed (use core_invD(6) [OF assms(1)] in \<open>auto simp: thread_stat_def\<close>)

lemma rt_thread_yield_spec:
  assumes inv: "core_inv s" and rh: "runs_highest s" and lock: "lock_nest s = 0"
    and cur: "current_thread s = Some t"
    and q: "queues s (Ready (unat (current_priority (threads s t)))) = t # ts"
  shows "\<exists>s'. rt_thread_yield s = Some (RT_EOK, s') \<and> core_inv s' \<and> runs_highest s' \<and>
    current_thread s' = Some (hd (ts @ [t])) \<and> threads s' = threads s \<and>
    queues s' = (queues s)(Ready (unat (current_priority (threads s t))) := ts @ [t])"
proof -
  let ?p = "unat (current_priority (threads s t))"
  have st: "thread_stat s t = RT_THREAD_READY"
    using sched_okD(2) [OF core_invD(1) [OF inv], of t ?p] q by (simp add: thread_stat_def)
  show ?thesis
  proof (cases "ts = []")
    case True
    have "(queues s)(Ready ?p := [t]) = queues s" using q True by (auto simp: fun_eq_iff)
    with True show ?thesis
      using inv rh cur q st by (simp add: rt_thread_yield_def Let_def)
  next
    case False
    define s1 where "s1 = s\<lparr>queues := q_insert_tail (Ready ?p) t (q_remove t (queues s))\<rparr>"
    have Q1: "queues s1 = (queues s)(Ready ?p := ts @ [t])"
      using aq.rotate_head [OF sched_okD(1) [OF core_invD(1) [OF inv]] q] by (simp add: s1_def)
    have tin: "t \<in> set (queues s (Ready ?p))" by (simp add: q)
    have sc1: "sched_inv s1"
      unfolding s1_def by (rule requeue_sched_inv [OF core_invD(1) [OF inv] tin])
    have i1: "core_inv s1" unfolding s1_def
      by (rule queues_core_inv [OF inv]) (use sc1 in \<open>simp add: s1_def\<close>)
    have ne: "queues s1 (Ready ?p) \<noteq> []" by (simp add: Q1)
    have cur1: "current_thread s1 \<noteq> None" "lock_nest s1 = 0" "threads s1 = threads s"
      using cur lock by (simp_all add: s1_def)
    obtain s2 where s2: "rt_schedule s1 = Some s2"
      using rt_schedule_total [OF sc1 ne cur1(1)] by blast
    have eq: "rt_thread_yield s = Some (RT_EOK, s2)"
      using cur st q False s2 by (simp add: rt_thread_yield_def Let_def s1_def)
    have rh2: "runs_highest s2" by (rule rt_schedule_runs_highest [OF s2 cur1(2)])
    obtain p where hp: "highest_ready s = Some (int p, t)"
      using rh cur highest_ready_int [of s] by (auto simp: runs_highest_def) (metis nonneg_int_cases)
    then have p: "p = ?p" "\<forall>q<p. queues s (Ready q) = []"
      using highest_ready_iff [OF core_invD(1) [OF inv], of p t]
        sched_okD(2) [OF core_invD(1) [OF inv], of t p] by auto
    have "highest_ready s1 = Some (int ?p, hd (ts @ [t]))"
      unfolding highest_ready_iff [OF sc1] using p False by (cases ts) (auto simp: Q1)
    moreover have "highest_ready s2 = highest_ready s1"
      using rt_schedule_sel [OF s2] by (simp add: highest_ready_def Let_def)
    ultimately have "current_thread s2 = Some (hd (ts @ [t]))"
      using rh2 by (auto simp: runs_highest_def)
    then show ?thesis
      using eq rh2 i1 rt_schedule_core_inv [OF s2] rt_schedule_sel [OF s2] Q1 cur1(3)
      by simp
  qed
qed

section \<open>Priorities\<close>

text \<open>A thread that is not ready: only its fields change.\<close>

lemma upd_thread_inv:
  assumes inv: "core_inv s" and st: "tstat (f (threads s t)) = thread_stat s t"
    and nr: "thread_stat s t \<noteq> RT_THREAD_READY" and ok: "thread_ok (f (threads s t))"
  shows "core_inv (upd_thread t f s)"
proof (rule core_inv_kframe [OF inv kframe_upd(1)])
  have st': "thread_stat (upd_thread t f s) u = thread_stat s u" for u
    using st by (simp add: thread_stat_def)
  note sd = sched_okD [OF core_invD(1) [OF inv]]
  have rd: "t \<notin> set (queues s (Ready p))" for p
    using sd(2) [of t p] nr by (simp add: thread_stat_def)
  show "sched_inv (upd_thread t f s)"
    unfolding sched_ok_def
    using sd(1) sd(2-4,6) ok sd(5) st' nr rd
    by (auto simp: thread_stat_def)
  show "timer_inv (upd_thread t f s)"
    by (rule timer_inv_unlist [OF core_invD(2) [OF inv]]) simp_all
  show "ThreadTimer u \<in> set (timer_list (upd_thread t f s)) \<Longrightarrow>
      thread_stat (upd_thread t f s) u = RT_THREAD_SUSPEND" for u
    using core_invD(6) [OF inv] by (simp add: st')
qed (auto simp: thread_stat_def st split: if_splits)

lemma change_priority_blocked:
  assumes inv: "core_inv s" and nr: "thread_stat s t \<noteq> RT_THREAD_READY"
    and p: "unat prio < RT_THREAD_PRIORITY_MAX"
  shows "\<exists>s'. change_priority t prio s = Some s' \<and> core_inv s' \<and> kframe s s' \<and>
    queues s' = queues s \<and> timers s' = timers s \<and> timer_list s' = timer_list s \<and>
    threads s' = (threads s)(t := (threads s t)\<lparr>current_priority := prio,
                    number_mask := prio_mask prio\<rparr>)"
proof -
  let ?f = "\<lambda>r. r\<lparr>current_priority := prio, number_mask := prio_mask prio\<rparr>"
  have "change_priority t prio s = Some (upd_thread t ?f s)"
    using nr p by (simp add: change_priority_def shl1_def RT_THREAD_PRIORITY_MAX_def Let_def)
      (simp add: upd_thread_def)
  moreover have "core_inv (upd_thread t ?f s)"
    using nr p sched_okD(5) [OF core_invD(1) [OF inv], of t]
    by (intro upd_thread_inv [OF inv]) (auto simp: thread_ok_def thread_stat_def tstat_def)
  ultimately show ?thesis by simp
qed

lemma change_priority_ready:
  assumes inv: "core_inv s" and r: "thread_stat s t = RT_THREAD_READY"
    and p: "unat prio < RT_THREAD_PRIORITY_MAX"
  shows "\<exists>s'. change_priority t prio s = Some s' \<and> core_inv s' \<and> kframe s s' \<and>
    timers s' = timers s \<and> timer_list s' = timer_list s \<and>
    queues s' = q_insert_tail (Ready (unat prio)) t (q_remove t (queues s)) \<and>
    threads s' = (threads s)(t := with_stat RT_THREAD_READY
      ((threads s t)\<lparr>current_priority := prio, number_mask := prio_mask prio\<rparr>))"
proof -
  let ?f = "\<lambda>r. r\<lparr>current_priority := prio, number_mask := prio_mask prio\<rparr>"
  let ?r = "?f (threads s t)"
  note sc = core_invD(1) [OF inv]
  define s1 where "s1 = upd_thread t ?f (rt_schedule_remove_thread t s)"
  define s2 where "s2 = rt_schedule_insert_thread t s1"
  have eq: "change_priority t prio s = Some s2"
    using r p by (simp add: change_priority_def shl1_def RT_THREAD_PRIORITY_MAX_def Let_def
        s2_def s1_def remove_thread_sel)
      (simp add: upd_thread_def)
  have k: "kframe s s2"
    unfolding s2_def s1_def
    by (intro kframe_trans [OF _ kframe_upd(3)] kframe_trans [OF _ kframe_upd(1)]) simp
  have sel: "queues s2 = q_insert_tail (Ready (unat prio)) t (q_remove t (queues s))"
      "threads s2 = (threads s)(t := with_stat RT_THREAD_READY ?r)"
      "timers s2 = timers s" "timer_list s2 = timer_list s" "rt_tick s2 = rt_tick s"
      "objs s2 = objs s"
    by (simp_all add: s2_def s1_def insert_thread_sel remove_thread_sel)
  have st2: "thread_stat s2 u = thread_stat s u" for u
    using r by (simp add: thread_stat_def sel)
  have ok: "thread_ok (with_stat RT_THREAD_READY ?r)"
    using p sched_okD(5) [OF sc, of t] by (simp add: thread_ok_def)
  have nc: "thread_ok ((threads s t)\<lparr>stat := RT_THREAD_CLOSE\<rparr>)"
    using sched_okD(5) [OF sc, of t] by (simp add: thread_ok_def)
  let ?g = "if q_remove t (queues s) (Ready (unat (current_priority (threads s t)))) = []
      then ready_group s AND NOT (number_mask (threads s t)) else ready_group s"
  have c: "sched_ok (q_remove t (queues s)) ?g
      ((threads s)(t := (threads s t)\<lparr>stat := RT_THREAD_CLOSE\<rparr>))"
    using sched_ok_remove [OF sc _ nc] r by (simp add: thread_stat_def)
  have "sched_inv s2"
    using sched_ok_insert [OF c, of t "with_stat RT_THREAD_READY ?r"] ok
    by (simp add: sel q_remove_def) (simp add: s2_def s1_def rt_schedule_insert_thread_def Let_def
        remove_thread_sel q_remove_def)
  then have "core_inv s2"
  proof (rule core_inv_kframe [OF inv k])
    show "timer_inv s2" by (rule timer_inv_unlist [OF core_invD(2) [OF inv] sel(3-6)])
    show "ThreadTimer u \<in> set (timer_list s2) \<Longrightarrow> thread_stat s2 u = RT_THREAD_SUSPEND" for u
      using core_invD(6) [OF inv, of u] by (simp add: sel st2)
  qed (auto simp: st2)
  with eq k sel show ?thesis by blast
qed

lemma change_priority_inv:
  assumes "core_inv s" "change_priority t prio s = Some s'"
  shows "core_inv s'" "kframe s s'" "unat prio < RT_THREAD_PRIORITY_MAX"
    "thread_stat s' u = thread_stat s u" "timers s' = timers s" "timer_list s' = timer_list s"
    "current_priority (threads s' t) = prio"
    "u \<noteq> t \<Longrightarrow> threads s' u = threads s u" "\<forall>q. queues s' (Suspend q) = queues s (Suspend q)"
proof -
  show p: "unat prio < RT_THREAD_PRIORITY_MAX"
    using assms(2) by (auto simp: change_priority_def shl1_def RT_THREAD_PRIORITY_MAX_def Let_def
        split: if_splits)
  have "core_inv s' \<and> kframe s s' \<and> thread_stat s' u = thread_stat s u \<and> timers s' = timers s \<and>
     timer_list s' = timer_list s \<and> current_priority (threads s' t) = prio \<and>
     (u \<noteq> t \<longrightarrow> threads s' u = threads s u) \<and> (\<forall>q. queues s' (Suspend q) = queues s (Suspend q))"
  proof (cases "thread_stat s t = RT_THREAD_READY")
    case True
    have "t \<notin> set (queues s (Suspend q))" for q
      using True sched_okD(3) [OF core_invD(1) [OF assms(1)], of t q] by (auto simp: thread_stat_def)
    with True show ?thesis
      using change_priority_ready [OF assms(1) True p] assms(2)
      by (auto simp: thread_stat_def q_defs)
  next
    case False
    then show ?thesis
      using change_priority_blocked [OF assms(1) False p] assms(2)
      by (auto simp: thread_stat_def tstat_def)
  qed
  then show "core_inv s'" "kframe s s'" "thread_stat s' u = thread_stat s u" "timers s' = timers s"
    "timer_list s' = timer_list s" "current_priority (threads s' t) = prio"
    "u \<noteq> t \<Longrightarrow> threads s' u = threads s u" "\<forall>q. queues s' (Suspend q) = queues s (Suspend q)"
    by blast+
qed

section \<open>Birth\<close>

lemma sched_ok_unlinked:
  assumes s: "sched_ok Q g th" and un: "\<And>h. t \<notin> set (Q h)"
    and r: "thread_ok r" "tstat r \<noteq> RT_THREAD_READY"
  shows "sched_ok Q g (th(t := r))"
  unfolding sched_ok_def
proof (intro conjI allI impI)
  show "q_ok Q" by (rule sched_okD(1) [OF s])
  show "u \<in> set (Q (Ready p)) \<longleftrightarrow>
      tstat ((th(t := r)) u) = RT_THREAD_READY \<and> unat (current_priority ((th(t := r)) u)) = p" for u p
    using sched_okD(2) [OF s, of u p] un [of "Ready p"] r(2) by (cases "u = t") simp_all
  show "u \<in> set (Q (Suspend q)) \<Longrightarrow> tstat ((th(t := r)) u) = RT_THREAD_SUSPEND" for u q
    using sched_okD(3) [OF s, of u q] un by auto
  show "u \<in> set (Q Defunct) \<Longrightarrow> tstat ((th(t := r)) u) = RT_THREAD_CLOSE" for u
    using sched_okD(4) [OF s, of u] un by auto
  show "thread_ok ((th(t := r)) u)" for u using sched_okD(5) [OF s] r(1) by simp
  show "bit g p \<longleftrightarrow> Q (Ready p) \<noteq> []" for p by (rule sched_okD(6) [OF s])
qed

lemma rt_thread_startup_spec:
  assumes inv: "core_inv s" and t: "thread_stat s t = RT_THREAD_INIT" and al: "alive s t"
  shows "\<exists>s1 s'. rt_thread_startup t s = Some (RT_EOK, s') \<and> core_inv s' \<and>
    sched_frame s1 s' \<and> kframe s s1 \<and>
    queues s1 = q_insert_tail (Ready (unat (init_priority (threads s t)))) t (queues s) \<and>
    thread_stat s' t = RT_THREAD_READY \<and>
    current_priority (threads s' t) = init_priority (threads s t) \<and>
    (\<forall>u. u \<noteq> t \<longrightarrow> threads s' u = threads s u) \<and>
    (current_thread s = None \<longrightarrow> s' = s1) \<and> timer_list s' = removeAll (ThreadTimer t) (timer_list s) \<and>
    (current_thread s \<noteq> None \<and> lock_nest s = 0 \<longrightarrow> runs_highest s')"
proof -
  let ?p = "init_priority (threads s t)"
  let ?f = "\<lambda>r. r\<lparr>current_priority := ?p, number_mask := prio_mask ?p, stat := RT_THREAD_SUSPEND\<rparr>"
  note sc = core_invD(1) [OF inv]
  have p: "unat ?p < RT_THREAD_PRIORITY_MAX" using sched_okD(5) [OF sc, of t] by (simp add: thread_ok_def)
  define s1 where "s1 = upd_thread t ?f s"
  have st1: "thread_stat s1 u = (if u = t then RT_THREAD_SUSPEND else thread_stat s u)" for u
    by (simp add: s1_def thread_stat_def tstat_def stat_defs)
  have un: "t \<notin> set (queues s h)" for h
    using init_unlinked [OF sc] t by (simp add: thread_stat_def)
  have i1: "core_inv s1"
  proof (rule core_inv_kframe [OF inv])
    show "kframe s s1" by (simp add: s1_def)
    show "sched_inv s1"
      using sched_ok_unlinked [OF sc un, of "?f (threads s t)"] p
      by (simp add: s1_def thread_ok_def)
    show "timer_inv s1"
      by (rule timer_inv_unlist [OF core_invD(2) [OF inv]]) (simp_all add: s1_def)
    show "ThreadTimer u \<in> set (timer_list s1) \<Longrightarrow> thread_stat s1 u = RT_THREAD_SUSPEND" for u
      using core_invD(6) [OF inv, of u] t by (auto simp: s1_def [THEN arg_cong, of timer_list] st1)
  qed (use al in \<open>auto simp: st1 split: if_splits\<close>)
  have "thread_stat s1 t = RT_THREAD_SUSPEND" by (simp add: st1)
  then obtain s2 where s2: "rt_thread_resume t s1 = Some (RT_EOK, s2)" "resumed t s1 s2" "core_inv s2"
    using rt_thread_resume_spec [OF i1] by blast
  note r = resumedD [OF s2(2)]
  have k2: "kframe s s2" using kframe_trans [OF _ r(1)] by (simp add: s1_def)
  have q2: "queues s2 = q_insert_tail (Ready (unat ?p)) t (queues s)"
    using un by (simp add: r(2) s1_def q_remove_def)
  have th2: "thread_stat s2 t = RT_THREAD_READY" "current_priority (threads s2 t) = ?p"
      "\<forall>u. u \<noteq> t \<longrightarrow> threads s2 u = threads s u"
    using r(6) [of t] by (simp_all add: r(3) s1_def)
  have ne: "queues s2 (Ready (unat ?p)) \<noteq> []" by (simp add: q2 q_insert_tail_def)
  have cur: "current_thread s2 = current_thread s" "lock_nest s2 = lock_nest s"
    using kframe_sel [OF k2] by simp_all
  obtain s3 where s3: "(if rt_thread_self s2 \<noteq> None then rt_schedule s2 else Some s2) = Some s3"
    using rt_schedule_total [OF core_invD(1) [OF s2(3)] ne]
    by (cases "current_thread s2 = None") (auto simp: rt_thread_self_def)
  have f3: "sched_frame s2 s3"
    using s3 rt_schedule_frame by (auto split: if_splits)
  have "rt_thread_startup t s = Some (RT_EOK, s3)"
  proof -
    have a: "is_thread t (upd_thread t f s) = is_thread t s" for f
      by (simp add: is_thread_def rt_object_get_type_def)
    have "shl1 ?p = Some (prio_mask ?p)" using p by (simp add: shl1_def RT_THREAD_PRIORITY_MAX_def)
    moreover have "upd_thread t (\<lambda>r. r\<lparr>stat := RT_THREAD_SUSPEND\<rparr>)
        (upd_thread t (\<lambda>r. r\<lparr>number_mask := prio_mask ?p\<rparr>)
          (upd_thread t (\<lambda>r. r\<lparr>current_priority := init_priority r\<rparr>) s)) = s1"
      by (simp add: s1_def upd_thread_def)
    moreover have "is_thread t s" using al by (simp add: alive_def)
    ultimately show ?thesis
      using t s2(1) s3 unfolding rt_thread_startup_def Let_def
      by (simp add: a) 
  qed
  moreover have "core_inv s3" using s2(3) sched_frame_core_inv [OF f3] by simp
  moreover have "current_thread s = None \<longrightarrow> s3 = s2"
    using s3 cur by (auto simp: rt_thread_self_def)
  moreover have "current_thread s \<noteq> None \<and> lock_nest s = 0 \<longrightarrow> runs_highest s3"
    using s3 cur rt_schedule_runs_highest [of s2 s3] by (auto simp: rt_thread_self_def)
  moreover have "timer_list s3 = removeAll (ThreadTimer t) (timer_list s)"
    by (simp add: sched_frame_sel(8) [OF f3] r(5) s1_def)
  ultimately show ?thesis
    using f3 k2 q2 th2 sched_frame_sel(4) [OF f3] sched_frame_thread(1) [OF f3, of t]
    by (intro exI [of _ s2] exI [of _ s3]) simp
qed

text \<open>\<open>born t s s'\<close>: thread \<open>t\<close> and its timer became objects, nothing else happened.\<close>

definition born :: "tid \<Rightarrow> kernel \<Rightarrow> kernel \<Rightarrow> bool" where
  "born t s s' \<longleftrightarrow> (\<forall>x. x \<noteq> OThread t \<and> x \<noteq> OTimer (ThreadTimer t) \<longrightarrow> objs s' x = objs s x) \<and>
     (\<forall>u. u \<noteq> t \<longrightarrow> threads s' u = threads s u) \<and> queues s' = queues s \<and> ready_group s' = ready_group s \<and>
     timer_list s' = timer_list s \<and> rt_tick s' = rt_tick s \<and> sems s' = sems s \<and> irq_nest s' = irq_nest s \<and>
     switch_flag s' = switch_flag s \<and> switch_to s' = switch_to s \<and> cpu s' = cpu s \<and>
     current_thread s' = current_thread s \<and> lock_nest s' = lock_nest s \<and> frames s' = frames s"

lemma bornD:
  assumes "born t s s'"
  shows "x \<noteq> OThread t \<Longrightarrow> x \<noteq> OTimer (ThreadTimer t) \<Longrightarrow> objs s' x = objs s x"
    "u \<noteq> t \<Longrightarrow> threads s' u = threads s u" "queues s' = queues s" "ready_group s' = ready_group s"
    "timer_list s' = timer_list s" "rt_tick s' = rt_tick s" "sems s' = sems s" "irq_nest s' = irq_nest s"
    "switch_flag s' = switch_flag s" "switch_to s' = switch_to s" "cpu s' = cpu s"
    "current_thread s' = current_thread s" "lock_nest s' = lock_nest s" "frames s' = frames s"
  using assms by (simp_all add: born_def)

text \<open>\<open>rt_thread_init_raw\<close> on a thread that has just become an object, static or not, whose timer
  is none yet.\<close>

lemma rt_thread_init_raw_spec:
  assumes inv: "core_inv s" and q: "quiet s"
    and dead: "rt_object_get_type (OTimer (ThreadTimer t)) s = 0"
    and st: "thread_stat s t = RT_THREAD_INIT \<or>
      thread_stat s t = RT_THREAD_CLOSE \<and> t \<notin> set (queues s Defunct)"
    and p: "unat priority < RT_THREAD_PRIORITY_MAX"
    and s1: "object_inv s1" "rt_object_get_type (OThread t) s1 = RT_Object_Class_Thread"
    and e1: "s1 = s\<lparr>objs := (objs s)(OThread t := r), container := C\<rparr>"
  shows "\<exists>s'. rt_thread_init_raw t name priority tick s1 = Some (RT_EOK, s') \<and> core_inv s' \<and>
    object_inv s' \<and> alive s' t \<and> thread_stat s' t = RT_THREAD_INIT \<and>
    rt_object_is_systemobject (OThread t) s' = rt_object_is_systemobject (OThread t) s1 \<and>
    init_priority (threads s' t) = priority \<and> remaining_tick (threads s' t) = tick \<and>
    \<not> cleanup (threads s' t) \<and> queues s' = queues s \<and> current_thread s' = current_thread s \<and>
    lock_nest s' = lock_nest s \<and> born t s s'"
proof -
  let ?T = RT_Object_Class_Thread and ?M = RT_Object_Class_Timer
  let ?f = "\<lambda>r. r\<lparr>init_priority := priority, current_priority := priority,
         number_mask := 0, th_init_tick := tick, remaining_tick := tick, th_error := RT_EOK,
         stat := RT_THREAD_INIT, cleanup := False\<rparr>"
  have cls: "?M \<in> set object_classes" by (simp add: object_classes_def)
  define s2 where "s2 = upd_thread t ?f s1"
  have o2: "objs s2 = objs s1" "container s2 = container s1" by (simp_all add: s2_def)
  have h2: "rt_object_get_type x s2 = rt_object_get_type x s1" for x
    by (simp add: rt_object_get_type_def o2)
  have st2: "thread_stat s2 u = (if u = t then RT_THREAD_INIT else thread_stat s u)" for u
    by (simp add: s2_def thread_stat_def e1 tstat_def stat_defs)
  have un: "t \<notin> set (queues s h)" for h
    using st sched_okD(2-4) [OF core_invD(1) [OF inv], of t]
    by (cases h) (auto simp: thread_stat_def)
  have q2: "quiet s2"
    using q quiet_cong [of s2 s] by (simp add: s2_def e1)
  have "rt_object_get_type (OTimer (ThreadTimer t)) s2 = 0"
    using dead by (simp add: h2) (simp add: rt_object_get_type_def e1)
  moreover have "object_inv s2" using s1(1) by (simp add: object_inv_def h2 o2)
  ultimately obtain s3 where s3:
    "rt_object_init (OTimer (ThreadTimer t)) ?M (oname (objs s2 (OThread t))) s2 = Some s3"
    "object_inv s3" "rt_object_get_type (OTimer (ThreadTimer t)) s3 = ?M"
    "rt_object_is_systemobject (OTimer (ThreadTimer t)) s3"
    and e3: "s3 = s2\<lparr>objs := (objs s2)(OTimer (ThreadTimer t) :=
        (objs s2 (OTimer (ThreadTimer t)))\<lparr>otype := ?M OR RT_Object_Class_Static,
             oname := take RT_NAME_MAX (oname (objs s2 (OThread t)))\<rparr>),
        container := q_insert_head ?M (OTimer (ThreadTimer t)) (container s2)\<rparr>"
    using object_init_spec [OF q2 _ cls] by blast
  define s4 where "s4 = rt_timer_init_raw (ThreadTimer t) (ThreadTimeout t) 0 RT_TIMER_FLAG_ONE_SHOT s3"
  have nt: "ThreadTimer t \<notin> set (timer_list s)"
    using core_invD(6) [OF inv, of t] st by auto
  have sel: "queues s4 = queues s" "threads s4 = (threads s)(t := ?f (threads s t))"
      "timer_list s4 = timer_list s" "rt_tick s4 = rt_tick s" "ready_group s4 = ready_group s"
      "current_thread s4 = current_thread s" "container s4 = container s3"
      "lock_nest s4 = lock_nest s"
      "\<And>m. m \<noteq> ThreadTimer t \<Longrightarrow> timers s4 m = timers s m"
      "\<And>m. m \<noteq> ThreadTimer t \<Longrightarrow> timer_flag s4 m = timer_flag s m"
      "timeout_func (timers s4 (ThreadTimer t)) = ThreadTimeout t"
      "timer_flag s4 (ThreadTimer t) = 0"
    using nt by (simp_all add: s4_def rt_timer_init_raw_def Let_def set_timer_flag_def upd_obj_def
        upd_timer_def e3 s2_def e1 timer_flag_def tflag_defs upd_thread_def)
  have ty: "rt_object_get_type x s4 = rt_object_get_type x s3"
      "rt_object_is_systemobject x s4 = rt_object_is_systemobject x s3" for x
    by (simp_all add: s4_def rt_timer_init_raw_def Let_def set_timer_flag_def upd_obj_def
        upd_timer_def rt_object_get_type_def rt_object_is_systemobject_def)
  have tyo: "rt_object_get_type x s4 = (if x = OThread t then ?T
      else if x = OTimer (ThreadTimer t) then ?M else rt_object_get_type x s)" for x
    using s1(2) s3(3) by (simp add: ty) (simp add: rt_object_get_type_def e3 s2_def e1 split: if_splits)
  have syso: "rt_object_is_systemobject x s4 = rt_object_is_systemobject x s"
    if "x \<noteq> OThread t" "x \<noteq> OTimer (ThreadTimer t)" for x
    using that by (simp add: ty) (simp add: rt_object_is_systemobject_def e3 s2_def e1)
  have sys: "rt_object_is_systemobject (OThread t) s4 = rt_object_is_systemobject (OThread t) s1"
    by (simp add: ty) (simp add: rt_object_is_systemobject_def e3 s2_def)
  have st4: "thread_stat s4 u = (if u = t then RT_THREAD_INIT else thread_stat s u)" for u
    by (simp add: thread_stat_def sel tstat_def stat_defs)
  have key: "timer_key s4 m = timer_key s m" if "m \<noteq> ThreadTimer t" for m
    using that by (simp add: timer_key_def sel)
  have al: "alive s4 t"
    using s3(4) by (simp add: alive_def is_thread_def tyo sel) (simp add: ty)
  have ne: "m \<noteq> ThreadTimer t" if "m \<in> set (timer_list s)" for m using nt that by blast
  have "sched_inv s4"
    using sched_ok_unlinked [OF core_invD(1) [OF inv] un, of "?f (threads s t)"] p
    by (simp add: sel thread_ok_def tstat_def stat_defs)
  then have sc4: "sched_inv s4" .
  have "sorted_wrt (\<lambda>a b. timer_key s4 a \<le> timer_key s4 b) (timer_list s)"
    using timer_invD(2) [OF core_invD(2) [OF inv]]
    by (rule sorted_wrt_mono_rel [rotated]) (simp add: key ne)
  moreover have "in_window (timer_key s4 m) \<and> timer_flag s4 m AND RT_TIMER_FLAG_ACTIVATED \<noteq> 0 \<and>
      rt_object_get_type (OTimer m) s4 = RT_Object_Class_Timer" if m: "m \<in> set (timer_list s)" for m
    using timer_invD(3-5) [OF core_invD(2) [OF inv] m] ne [OF m] by (simp add: sel key tyo)
  ultimately have ti: "timer_inv s4"
    using timer_invD(1) [OF core_invD(2) [OF inv]] by (simp add: timer_inv_def sel)
  have "thread_stat s4 u = RT_THREAD_SUSPEND" if "ThreadTimer u \<in> set (timer_list s4)" for u
    using core_invD(6) [OF inv, of u] that nt by (cases "u = t") (simp_all add: sel(3) st4)
  moreover have "m = ThreadTimer u" if "timeout_func (timers s4 m) = ThreadTimeout u" for m u
    using core_invD(3) [OF inv] that sel(9,11)
    by (cases "m = ThreadTimer t") (simp_all add: wakeups_ok_def)
  ultimately have wk: "wakeups_ok s4" by (simp add: wakeups_ok_def)
  have "alive s4 u" if "alive s u" "u \<noteq> t" for u
    using that by (simp add: alive_def is_thread_def tyo sel syso)
  then have "alive_ok s4"
    using core_invD(5) [OF inv] al by (auto simp: alive_ok_def st4)
  with sc4 ti wk have "core_inv s4" by (simp add: core_inv_def)
  moreover have "object_inv s4" using s3(2) by (simp add: object_inv_def ty sel)
  moreover have "rt_thread_init_raw t name priority tick s1 = Some (RT_EOK, s4)"
    using s3(1) p
    by (simp add: rt_thread_init_raw_def rt_timer_init_def Let_def s4_def flip: s2_def)
  moreover have "born t s s4"
    by (simp add: born_def sel) (simp add: s4_def rt_timer_init_raw_def Let_def set_timer_flag_def upd_obj_def
        upd_timer_def e3 s2_def e1 upd_thread_def)
  ultimately show ?thesis using al st4 sys sel by simp
qed

text \<open>\<open>rt_thread_init\<close> turns two dead objects, the thread and its timer, into live ones.\<close>

lemma rt_thread_init_spec:
  assumes inv: "core_inv s" and obj: "object_inv s" and q: "quiet s"
    and dead: "rt_object_get_type (OThread t) s = 0"
      "rt_object_get_type (OTimer (ThreadTimer t)) s = 0"
    and st: "thread_stat s t = RT_THREAD_INIT \<or>
      thread_stat s t = RT_THREAD_CLOSE \<and> t \<notin> set (queues s Defunct)"
    and p: "unat priority < RT_THREAD_PRIORITY_MAX"
  shows "\<exists>s'. rt_thread_init t name priority tick s = Some (RT_EOK, s') \<and> core_inv s' \<and>
    object_inv s' \<and> alive s' t \<and> thread_stat s' t = RT_THREAD_INIT \<and>
    rt_object_is_systemobject (OThread t) s' \<and>
    init_priority (threads s' t) = priority \<and> remaining_tick (threads s' t) = tick \<and>
    \<not> cleanup (threads s' t) \<and> queues s' = queues s \<and> current_thread s' = current_thread s \<and>
    lock_nest s' = lock_nest s \<and> born t s s'"
proof -
  let ?T = RT_Object_Class_Thread
  have cls: "?T \<in> set object_classes" by (simp add: object_classes_def)
  obtain s1 where s1: "rt_object_init (OThread t) ?T name s = Some s1" "object_inv s1"
    "rt_object_get_type (OThread t) s1 = ?T" "rt_object_is_systemobject (OThread t) s1"
    and e1: "s1 = s\<lparr>objs := (objs s)(OThread t := (objs s (OThread t))\<lparr>otype := ?T OR RT_Object_Class_Static,
             oname := take RT_NAME_MAX name\<rparr>), container := q_insert_head ?T (OThread t) (container s)\<rparr>"
    using object_init_spec [OF q obj cls dead(1)] by blast
  show ?thesis
    using rt_thread_init_raw_spec [OF inv q dead(2) st p s1(2,3) e1, of name tick] s1(1,4)
    by (simp add: rt_thread_init_def)
qed

text \<open>\<open>rt_thread_create\<close> with memory for the control block and for the stack.\<close>

lemma zero_thread_inv:
  assumes inv: "core_inv s" and obj: "object_inv s"
    and dead: "rt_object_get_type (OThread t) s = 0" "rt_object_get_type (OTimer (ThreadTimer t)) s = 0"
    and st: "thread_stat s t = RT_THREAD_INIT \<or> thread_stat s t = RT_THREAD_CLOSE \<and> t \<notin> set (queues s Defunct)"
  shows "core_inv (zero_object (OThread t) s)" "object_inv (zero_object (OThread t) s)"
    "rt_object_get_type x (zero_object (OThread t) s) = rt_object_get_type x s"
    "thread_stat (zero_object (OThread t) s) t = RT_THREAD_INIT"
    "queues (zero_object (OThread t) s) = queues s" "ready_group (zero_object (OThread t) s) = ready_group s"
    "container (zero_object (OThread t) s) = container s"
    "current_thread (zero_object (OThread t) s) = current_thread s"
    "lock_nest (zero_object (OThread t) s) = lock_nest s" "born t s (zero_object (OThread t) s)"
proof -
  let ?s = "zero_object (OThread t) s"
  have ot: "otype (objs s (OThread t)) AND NOT RT_Object_Class_Static = 0"
      "otype (objs s (OTimer (ThreadTimer t))) AND NOT RT_Object_Class_Static = 0"
    using dead by (simp_all add: rt_object_get_type_def)
  have sel: "threads ?s = (threads s)(t := threads zero_kernel t)" "timers ?s = (timers s)(ThreadTimer t := timers zero_kernel (ThreadTimer t))"
      "objs ?s = (objs s)(OThread t := objs zero_kernel (OThread t), OTimer (ThreadTimer t) := objs zero_kernel (OTimer (ThreadTimer t)))"
      "timer_list ?s = timer_list s" "rt_tick ?s = rt_tick s"
    by (simp_all add: zero_object_def upd_obj_def upd_thread_def upd_timer_def Let_def fun_upd_twist)
  show "born t s ?s"
    by (simp add: born_def zero_object_def upd_obj_def upd_thread_def upd_timer_def Let_def)
  show q: "queues ?s = queues s" "ready_group ?s = ready_group s" "container ?s = container s"
      "current_thread ?s = current_thread s" "lock_nest ?s = lock_nest s"
    by (simp_all add: zero_object_def upd_obj_def upd_thread_def upd_timer_def Let_def)
  have z: "stat (threads zero_kernel t) = 0" "init_priority (threads zero_kernel t) = 0"
      "otype (objs zero_kernel x) = 0" "timeout_func (timers zero_kernel m) = UserTimeout 0 0" for x m
    by (simp_all add: zero_kernel_def)
  show ty: "rt_object_get_type x ?s = rt_object_get_type x s" for x
    using dead by (simp add: rt_object_get_type_def sel z)
  then show "object_inv ?s" using obj by (simp add: object_inv_def q)
  have st': "thread_stat ?s u = (if u = t then RT_THREAD_INIT else thread_stat s u)" for u
    by (simp add: thread_stat_def sel z tstat_def stat_defs)
  then show "thread_stat ?s t = RT_THREAD_INIT" by simp
  have un: "t \<notin> set (queues s h)" for h
    using st sched_okD(2-4) [OF core_invD(1) [OF inv], of t] by (cases h) (auto simp: thread_stat_def)
  have nt: "ThreadTimer t \<notin> set (timer_list s)" using core_invD(6) [OF inv, of t] st by auto
  have "sched_inv ?s"
    using sched_ok_unlinked [OF core_invD(1) [OF inv] un, of "threads zero_kernel t"]
    by (simp add: sel q thread_ok_def z tstat_def stat_defs RT_THREAD_PRIORITY_MAX_def)
  moreover have "timer_inv ?s"
  proof -
    have tm: "timer_key ?s m = timer_key s m" "timer_flag ?s m = timer_flag s m" if "m \<in> set (timer_list s)" for m
      using that nt by (auto simp: timer_key_def timer_flag_def sel)
    have "sorted_wrt (\<lambda>a b. timer_key ?s a \<le> timer_key ?s b) (timer_list s)"
      using timer_invD(2) [OF core_invD(2) [OF inv]]
      by (rule sorted_wrt_mono_rel [rotated]) (simp add: tm)
    then show ?thesis
      using core_invD(2) [OF inv] by (simp add: timer_inv_def sel ty tm)
  qed
  moreover have "wakeups_ok ?s"
    using core_invD(3) [OF inv] nt by (auto simp: wakeups_ok_def sel st' z)
  moreover have "alive ?s u" if "alive s u" "u \<noteq> t" for u
    using that by (simp add: alive_def is_thread_def ty) (simp add: rt_object_is_systemobject_def timer_flag_def sel)
  then have "alive_ok ?s" using core_invD(5) [OF inv] by (auto simp: alive_ok_def st')
  ultimately show "core_inv ?s" by (simp add: core_inv_def)
qed

lemma rt_thread_create_spec:
  assumes inv: "core_inv s" and obj: "object_inv s" and q: "quiet s" and irq: "irq_nest s = 0"
    and dead: "rt_object_get_type (OThread t) s = 0" "rt_object_get_type (OTimer (ThreadTimer t)) s = 0"
    and st: "thread_stat s t = RT_THREAD_INIT \<or> thread_stat s t = RT_THREAD_CLOSE \<and> t \<notin> set (queues s Defunct)"
    and p: "unat priority < RT_THREAD_PRIORITY_MAX"
  shows "\<exists>s'. rt_thread_create (Some (OThread t)) True name priority tick s = Some (Some t, s') \<and> core_inv s' \<and>
    object_inv s' \<and> alive s' t \<and> thread_stat s' t = RT_THREAD_INIT \<and>
    \<not> rt_object_is_systemobject (OThread t) s' \<and>
    init_priority (threads s' t) = priority \<and> remaining_tick (threads s' t) = tick \<and>
    \<not> cleanup (threads s' t) \<and> queues s' = queues s \<and> current_thread s' = current_thread s \<and>
    lock_nest s' = lock_nest s \<and> born t s s'"
proof -
  let ?T = RT_Object_Class_Thread and ?s0 = "zero_object (OThread t) s"
  note z = zero_thread_inv [OF inv obj dead st]
  let ?r = "(objs ?s0 (OThread t))\<lparr>otype := ?T, oflag := 0, oname := take RT_NAME_MAX name\<rparr>"
  define s1 where "s1 = ?s0\<lparr>objs := (objs ?s0)(OThread t := ?r), container := q_insert_head ?T (OThread t) (container ?s0)\<rparr>"
  have cls: "?T \<in> set object_classes" by (simp add: object_classes_def)
  have al: "rt_object_allocate (Some (OThread t)) ?T name s = Some (Some (OThread t), s1)"
    using irq cls by (simp add: rt_object_allocate_def debug_defs Let_def object_link_def upd_obj_def s1_def)
  have nin: "OThread t \<notin> set (container ?s0 c)" for c
    using z(2) dead(1) z(3) [of "OThread t"] by (auto simp: object_inv_def)
  have ty: "rt_object_get_type x s1 = (if x = OThread t then ?T else rt_object_get_type x ?s0)" for x
    using class_bits(2) [OF cls] by (simp add: rt_object_get_type_def s1_def)
  have co: "container s1 = q_insert_head ?T (OThread t) (container ?s0)" by (simp add: s1_def)
  have "q_ok (container s1)"
    using z(2) nin by (auto simp: object_inv_def co intro: q_ok_insert)
  then have o1: "object_inv s1"
    using z(2) nin class_bits(5) [OF cls] dead(1) z(3) [of "OThread t"]
    unfolding object_inv_def ty co by (auto simp: q_insert_head_def)
  have q0: "quiet ?s0" using q quiet_cong [of ?s0 s] z(5,6,8,9) by simp
  have d0: "rt_object_get_type (OTimer (ThreadTimer t)) ?s0 = 0" using dead(2) z(3) by simp
  have ns: "\<not> rt_object_is_systemobject (OThread t) s1"
    using class_bits(1) [OF cls] by (simp add: rt_object_is_systemobject_def s1_def)
  have T1: "rt_object_get_type (OThread t) s1 = ?T" by (simp add: ty)
  have tr: "born t s s'" if "born t ?s0 s'" for s'
    using that z(10) by (simp add: born_def)
  show ?thesis
    using rt_thread_init_raw_spec [OF z(1) q0 d0 disjI1 [OF z(4)] p o1 T1 s1_def, of name tick] al ns tr
    by (auto simp: rt_thread_create_def z(5,8,9))
qed

section \<open>Death\<close>

text \<open>A thread ends: it leaves every list, its timer stops being an object, and it is closed.\<close>

lemma close_core_inv:
  assumes inv: "core_inv s" and sc: "sched_inv s'" and tm: "timers s' = timers s"
    and tl: "timer_list s' = removeAll (ThreadTimer t) (timer_list s)"
    and tick: "rt_tick s' = rt_tick s" and fl: "timer_flag s' = timer_flag s"
    and ty: "\<And>x. x \<noteq> OThread t \<Longrightarrow> x \<noteq> OTimer (ThreadTimer t) \<Longrightarrow> otype (objs s' x) = otype (objs s x)"
    and st: "thread_stat s' t = RT_THREAD_CLOSE"
    and th: "\<And>u. u \<noteq> t \<Longrightarrow> threads s' u = threads s u"
  shows "core_inv s'"
proof -
  have key: "timer_key s' = timer_key s" by (simp add: timer_key_def tm tick fun_eq_iff)
  have st': "thread_stat s' u = (if u = t then RT_THREAD_CLOSE else thread_stat s u)" for u
    using st th by (auto simp: thread_stat_def)
  have ty': "rt_object_get_type (OTimer m) s' = rt_object_get_type (OTimer m) s"
    if "m \<noteq> ThreadTimer t" for m
    using ty [of "OTimer m"] that by (simp add: rt_object_get_type_def)
  have "sorted_wrt (\<lambda>a b. timer_key s a \<le> timer_key s b) (timer_list s')"
    using timer_invD(2) [OF core_invD(2) [OF inv]]
    by (simp add: tl distinct_removeAll_eq_filter sorted_wrt_filter)
  moreover have "distinct (timer_list s')"
    using timer_invD(1) [OF core_invD(2) [OF inv]] by (simp add: tl distinct_removeAll)
  ultimately have ti: "timer_inv s'"
    using timer_invD(3-5) [OF core_invD(2) [OF inv]] ty'
    by (simp add: timer_inv_def key fl) (auto simp: tl)
  have "alive s' u = alive s u" if "u \<noteq> t" for u
    using ty [of "OThread u"] ty [of "OTimer (ThreadTimer u)"] that
    by (simp add: alive_def is_thread_def rt_object_get_type_def rt_object_is_systemobject_def tm fl)
  then have "alive_ok s'"
    using core_invD(5) [OF inv] by (auto simp: alive_ok_def st' split: if_splits)
  moreover have "wakeups_ok s'"
    using core_invD(3) [OF inv] by (auto simp: wakeups_ok_def tl tm st')
  ultimately show ?thesis using sc ti by (simp add: core_inv_def)
qed

text \<open>The queues after the thread was closed: linked nowhere, or at the head of the defunct
  list.\<close>

lemma close_sched_ok:
  assumes s: "sched_ok Q g th"
    and t: "tstat (th t) = RT_THREAD_READY \<or> tstat (th t) = RT_THREAD_SUSPEND \<or>
            tstat (th t) = RT_THREAD_INIT \<and> g' = g"
    and g': "tstat (th t) \<noteq> RT_THREAD_INIT \<Longrightarrow> g' =
      (if q_remove t Q (Ready (unat (current_priority (th t)))) = []
       then g AND NOT (number_mask (th t)) else g)"
  shows "sched_ok (q_remove t Q) g' (th(t := (th t)\<lparr>stat := RT_THREAD_CLOSE\<rparr>))"
    and "sched_ok (q_insert_head Defunct t (q_remove t Q)) g'
           (th(t := (th t)\<lparr>stat := RT_THREAD_CLOSE\<rparr>))"
proof -
  have r: "thread_ok ((th t)\<lparr>stat := RT_THREAD_CLOSE\<rparr>)"
    using sched_okD(5) [OF s, of t] by (simp add: thread_ok_def)
  show 1: "sched_ok (q_remove t Q) g' (th(t := (th t)\<lparr>stat := RT_THREAD_CLOSE\<rparr>))"
  proof (cases "tstat (th t) = RT_THREAD_INIT")
    case True
    then have un: "t \<notin> set (Q h)" for h by (rule init_unlinked [OF s])
    then have "q_remove t Q = Q" by (auto simp: q_remove_def fun_eq_iff)
    then show ?thesis using sched_ok_unlinked [OF s un r] t True by simp
  next
    case False
    then show ?thesis using sched_ok_remove [OF s _ r] t g' by auto
  qed
  show "sched_ok (q_insert_head Defunct t (q_remove t Q)) g'
           (th(t := (th t)\<lparr>stat := RT_THREAD_CLOSE\<rparr>))"
    by (rule sched_ok_link [OF 1, where t = t and h = Defunct])
      (use q_ok_insert(2) [OF sched_okD(1) [OF 1]] in \<open>auto simp: q_defs\<close>)
qed

lemma timer_detach_eq:
  "rt_object_get_type (OTimer m) s = RT_Object_Class_Timer \<Longrightarrow>
   rt_object_is_systemobject (OTimer m) s \<Longrightarrow>
   rt_timer_detach m s = Some (RT_EOK, rt_object_detach (OTimer m) (rt_timer_remove m s))"
  by (simp add: rt_timer_detach_def rt_timer_remove_def rt_object_get_type_def
      rt_object_is_systemobject_def Let_def)

lemma object_detach_sel [simp]:
  "queues (rt_object_detach x s) = queues s" "threads (rt_object_detach x s) = threads s"
  "ready_group (rt_object_detach x s) = ready_group s" "timers (rt_object_detach x s) = timers s"
  "timer_list (rt_object_detach x s) = timer_list s" "rt_tick (rt_object_detach x s) = rt_tick s"
  "lock_nest (rt_object_detach x s) = lock_nest s" "irq_nest (rt_object_detach x s) = irq_nest s"
  "current_thread (rt_object_detach x s) = current_thread s"
  "frames (rt_object_detach x s) = frames s"
  "timer_flag (rt_object_detach x s) = timer_flag s"
  "sems (rt_object_detach x s) = sems s" "mutexes (rt_object_detach x s) = mutexes s"
  "events (rt_object_detach x s) = events s" "mailboxes (rt_object_detach x s) = mailboxes s"
  "mqs (rt_object_detach x s) = mqs s"
  "container (rt_object_detach x s) = q_remove x (container s)"
  "objs (rt_object_detach x s) = (objs s)(x := (objs s x)\<lparr>otype := 0\<rparr>)"
  by (simp_all add: rt_object_detach_def object_unlink_def upd_obj_def Let_def timer_flag_def
      fun_eq_iff)

text \<open>What is left of a thread that ended.  \<open>keep\<close> says that it waits in the defunct list for
  the idle thread; otherwise it is no object any more.\<close>

definition buried :: "bool \<Rightarrow> tid \<Rightarrow> kernel \<Rightarrow> kernel \<Rightarrow> bool" where
  "buried keep t s s' \<longleftrightarrow>
     queues s' = (if keep then q_insert_head Defunct t (q_remove t (queues s))
                  else q_remove t (queues s)) \<and>
     ready_group s' =
       (if thread_stat s t \<noteq> RT_THREAD_INIT \<and>
           q_remove t (queues s) (Ready (unat (current_priority (threads s t)))) = []
        then ready_group s AND NOT (number_mask (threads s t)) else ready_group s) \<and>
     threads s' = (threads s)(t := (threads s t)\<lparr>stat := RT_THREAD_CLOSE\<rparr>) \<and>
     timers s' = timers s \<and> timer_list s' = removeAll (ThreadTimer t) (timer_list s) \<and>
     timer_flag s' = timer_flag s \<and> rt_tick s' = rt_tick s \<and> lock_nest s' = lock_nest s \<and>
     current_thread s' = current_thread s \<and>
     (\<forall>x. otype (objs s' x) = (if x = OTimer (ThreadTimer t) \<or> \<not> keep \<and> x = OThread t then 0
                                else otype (objs s x))) \<and>
     container s' = (if keep then q_remove (OTimer (ThreadTimer t)) (container s)
                     else q_remove (OThread t) (q_remove (OTimer (ThreadTimer t)) (container s)))"

lemma buriedD:
  assumes "buried keep t s s'"
  shows "queues s' = (if keep then q_insert_head Defunct t (q_remove t (queues s))
                  else q_remove t (queues s))"
    "ready_group s' =
       (if thread_stat s t \<noteq> RT_THREAD_INIT \<and>
           q_remove t (queues s) (Ready (unat (current_priority (threads s t)))) = []
        then ready_group s AND NOT (number_mask (threads s t)) else ready_group s)"
    "threads s' = (threads s)(t := (threads s t)\<lparr>stat := RT_THREAD_CLOSE\<rparr>)"
    "timers s' = timers s" "timer_list s' = removeAll (ThreadTimer t) (timer_list s)"
    "timer_flag s' = timer_flag s" "rt_tick s' = rt_tick s"
    "otype (objs s' x) = (if x = OTimer (ThreadTimer t) \<or> \<not> keep \<and> x = OThread t then 0
                                else otype (objs s x))"
    "container s' = (if keep then q_remove (OTimer (ThreadTimer t)) (container s)
                     else q_remove (OThread t) (q_remove (OTimer (ThreadTimer t)) (container s)))"
    "lock_nest s' = lock_nest s" "current_thread s' = current_thread s"
  using assms by (simp_all add: buried_def)

lemma buried_inv:
  assumes b: "buried keep t s s'" and inv: "core_inv s" and ne: "thread_stat s t \<noteq> RT_THREAD_CLOSE"
    and st: "thread_stat s t = RT_THREAD_READY \<or> thread_stat s t = RT_THREAD_SUSPEND \<or>
             thread_stat s t = RT_THREAD_INIT"
  shows "core_inv s'"
proof (rule close_core_inv [OF inv _ buriedD(4,5,7,6) [OF b]])
  show "sched_inv s'"
    using close_sched_ok [OF core_invD(1) [OF inv], of t "ready_group s'"] st
    by (auto simp: buriedD [OF b] thread_stat_def)
  show "thread_stat s' t = RT_THREAD_CLOSE"
    by (simp add: thread_stat_def buriedD [OF b])
qed (simp_all add: buriedD(8,3) [OF b])

lemma buried_object_inv:
  assumes b: "buried keep t s s'" and inv: "object_inv s"
  shows "object_inv s'"
proof -
  have "rt_object_get_type x s' = (if x = OTimer (ThreadTimer t) \<or> \<not> keep \<and> x = OThread t then 0
      else rt_object_get_type x s)" for x
    by (simp add: rt_object_get_type_def buriedD(8) [OF b])
  moreover have "x \<in> set (container s' c) \<longleftrightarrow> x \<in> set (container s c) \<and>
      \<not> (x = OTimer (ThreadTimer t) \<or> \<not> keep \<and> x = OThread t)" for x c
    by (auto simp: buriedD(9) [OF b] q_remove_def)
  moreover have "q_ok (container s')"
    using inv by (simp add: buriedD(9) [OF b] object_inv_def q_ok_remove)
  ultimately show ?thesis using inv by (auto simp: object_inv_def)
qed

lemmas bury_simps = rt_timer_remove_def thread_to_defunct_def remove_thread_sel upd_thread_def
  thread_stat_def rt_object_is_systemobject_def rt_object_get_type_def

lemma remove_thread_object [simp]:
  "rt_object_get_type x (rt_schedule_remove_thread t s) = rt_object_get_type x s"
  "rt_object_is_systemobject x (rt_schedule_remove_thread t s) = rt_object_is_systemobject x s"
  "rt_object_get_type x (upd_thread t f s) = rt_object_get_type x s"
  "rt_object_is_systemobject x (upd_thread t f s) = rt_object_is_systemobject x s"
  by (simp_all add: rt_object_get_type_def rt_object_is_systemobject_def remove_thread_sel)

lemma timer_gone_object [simp]:
  "rt_object_is_systemobject (OThread t) (rt_object_detach (OTimer m) s) =
     rt_object_is_systemobject (OThread t) s"
  "rt_object_is_systemobject x (rt_timer_remove m s) = rt_object_is_systemobject x s"
  "threads (rt_timer_remove m s) = threads s"
  by (simp_all add: rt_object_is_systemobject_def) (simp add: rt_timer_remove_def)

lemma init_not_queued:
  "core_inv s \<Longrightarrow> thread_stat s t = RT_THREAD_INIT \<Longrightarrow> q_remove t (queues s) = queues s"
  using init_unlinked [OF core_invD(1), of s t] by (auto simp: q_remove_def thread_stat_def fun_eq_iff)

definition leave_lists :: "tid \<Rightarrow> kernel \<Rightarrow> kernel" where
  "leave_lists t s = upd_thread t (\<lambda>r. r\<lparr>stat := RT_THREAD_CLOSE\<rparr>)
     (rt_object_detach (OTimer (ThreadTimer t)) (rt_timer_remove (ThreadTimer t)
       (if thread_stat s t \<noteq> RT_THREAD_INIT then rt_schedule_remove_thread t s else s)))"

lemma leave_lists_sel:
  assumes "core_inv s"
  shows "queues (leave_lists t s) = q_remove t (queues s)"
    "threads (leave_lists t s) = (threads s)(t := (threads s t)\<lparr>stat := RT_THREAD_CLOSE\<rparr>)"
    "timers (leave_lists t s) = timers s"
    "timer_list (leave_lists t s) = removeAll (ThreadTimer t) (timer_list s)"
    "timer_flag (leave_lists t s) = timer_flag s" "rt_tick (leave_lists t s) = rt_tick s"
    "objs (leave_lists t s) = (objs s)(OTimer (ThreadTimer t) :=
        (objs s (OTimer (ThreadTimer t)))\<lparr>otype := 0\<rparr>)"
    "container (leave_lists t s) = q_remove (OTimer (ThreadTimer t)) (container s)"
    "lock_nest (leave_lists t s) = lock_nest s"
    "current_thread (leave_lists t s) = current_thread s"
    "ready_group (leave_lists t s) =
       (if thread_stat s t \<noteq> RT_THREAD_INIT \<and>
           q_remove t (queues s) (Ready (unat (current_priority (threads s t)))) = []
        then ready_group s AND NOT (number_mask (threads s t)) else ready_group s)"
  using init_not_queued [OF assms, of t]
  by (simp_all add: leave_lists_def remove_thread_sel)
    (simp_all add: rt_timer_remove_def remove_thread_sel timer_flag_def fun_eq_iff upd_thread_def)

lemma buried_leave_lists:
  assumes "core_inv s"
  shows "buried True t s (thread_to_defunct t (leave_lists t s))"
    and "buried False t s (rt_object_detach (OThread t) (leave_lists t s))"
proof -
  have "timer_flag (thread_to_defunct t s') = timer_flag s'" for s'
    by (simp add: thread_to_defunct_def timer_flag_def fun_eq_iff)
  then show "buried True t s (thread_to_defunct t (leave_lists t s))"
    by (simp add: buried_def thread_to_defunct_def leave_lists_sel [OF assms])
  show "buried False t s (rt_object_detach (OThread t) (leave_lists t s))"
    by (simp add: buried_def leave_lists_sel [OF assms])
qed

lemma rt_thread_detach_eq:
  assumes "core_inv s" "alive s t" "rt_object_is_systemobject (OThread t) s"
  shows "rt_thread_detach t s = Some (RT_EOK,
    if cleanup (threads s t) then thread_to_defunct t (leave_lists t s)
    else rt_object_detach (OThread t) (leave_lists t s))"
proof -
  have "rt_object_is_systemobject (OThread t) (leave_lists t s)"
    using assms(3) by (simp add: rt_object_is_systemobject_def leave_lists_sel [OF assms(1)])
  then show ?thesis
    using assms(2,3)
    by (simp add: rt_thread_detach_def alive_def timer_detach_eq Let_def remove_thread_sel
        flip: leave_lists_def)
qed

lemma rt_thread_delete_eq:
  assumes "alive s t" "\<not> rt_object_is_systemobject (OThread t) s"
  shows "rt_thread_delete t s = Some (RT_EOK, thread_to_defunct t (leave_lists t s))"
  using assms
  by (simp add: rt_thread_delete_def alive_def timer_detach_eq Let_def flip: leave_lists_def)

lemma rt_thread_exit_eq:
  assumes "core_inv s" "current_thread s = Some t" "alive s t" "thread_stat s t \<noteq> RT_THREAD_INIT"
  shows "rt_thread_exit s = rt_schedule
    (if rt_object_is_systemobject (OThread t) s \<and> \<not> cleanup (threads s t)
     then rt_object_detach (OThread t) (leave_lists t s)
     else thread_to_defunct t (leave_lists t s))"
proof -
  have e: "rt_object_detach (OTimer (ThreadTimer t)) (rt_timer_remove (ThreadTimer t)
       (upd_thread t (\<lambda>r. r\<lparr>stat := RT_THREAD_CLOSE\<rparr>) (rt_schedule_remove_thread t s))) =
     leave_lists t s"
    using assms(4) by (simp add: leave_lists_def rt_object_detach_def object_unlink_def Let_def
        upd_obj_def rt_timer_remove_def upd_thread_def)
  have "rt_object_is_systemobject (OThread t) (leave_lists t s) =
      rt_object_is_systemobject (OThread t) s"
    by (simp add: rt_object_is_systemobject_def leave_lists_sel [OF assms(1)])
  then show ?thesis
    using assms(2-)
    by (simp add: rt_thread_exit_def alive_def timer_detach_eq Let_def e leave_lists_sel [OF assms(1)])
qed

section \<open>Facts about the clients of these routines\<close>

lemma rt_schedule_current:
  assumes "rt_schedule s = Some s'" "current_thread s \<noteq> None"
  shows "current_thread s' \<noteq> None"
  using assms(1)
proof (cases rule: rt_schedule_cases)
  case same
  then show ?thesis using assms(2) by simp
next
  case (switch p u f)
  then show ?thesis
    by (simp add: rt_hw_context_switch_def rt_hw_context_switch_interrupt_def Let_def)
qed

text \<open>What a routine that only moves the calling thread within its ready list may change.\<close>

lemma rt_thread_yield_inv:
  assumes inv: "core_inv s" and y: "rt_thread_yield s = Some (e, s')"
  shows "core_inv s'" "e = RT_EOK" "threads s' = threads s" "timers s' = timers s"
    "timer_list s' = timer_list s" "rt_tick s' = rt_tick s" "lock_nest s' = lock_nest s"
    "timer_flag s' = timer_flag s" "current_thread s' \<noteq> None" "objs s' = objs s"
    "container s' = container s" "sems s' = sems s"
    "\<forall>q. queues s' (Suspend q) = queues s (Suspend q)"
proof -
  obtain t where t: "current_thread s = Some t" using y by (auto simp: rt_thread_yield_def)
  let ?p = "unat (current_priority (threads s t))"
  define s1 where "s1 = s\<lparr>queues := q_insert_tail (Ready ?p) t (q_remove t (queues s))\<rparr>"
  have "core_inv s' \<and> e = RT_EOK \<and> threads s' = threads s \<and> timers s' = timers s \<and>
    timer_list s' = timer_list s \<and> rt_tick s' = rt_tick s \<and> lock_nest s' = lock_nest s \<and>
    timer_flag s' = timer_flag s \<and> current_thread s' \<noteq> None \<and> objs s' = objs s \<and>
    container s' = container s \<and> sems s' = sems s \<and>
    (\<forall>q. queues s' (Suspend q) = queues s (Suspend q))"
  proof (cases "thread_stat s t = RT_THREAD_READY \<and> 1 < length (queues s (Ready ?p))")
    case True
    then have tin: "t \<in> set (queues s (Ready ?p))"
      using sched_okD(2) [OF core_invD(1) [OF inv], of t ?p] by (simp add: thread_stat_def)
    have s2: "rt_schedule s1 = Some s'" "e = RT_EOK"
      using y t True by (auto simp: rt_thread_yield_def Let_def s1_def)
    have "core_inv s1"
      unfolding s1_def
      by (rule queues_core_inv [OF inv requeue_sched_inv [OF core_invD(1) [OF inv] tin]])
    moreover have "queues s (Suspend q) = removeAll t (queues s (Suspend q))" for q
      using q_okD(2) [OF sched_okD(1) [OF core_invD(1) [OF inv]] tin, of "Suspend q"] by force
    moreover have "current_thread s' \<noteq> None"
      using rt_schedule_current [OF s2(1)] t by (simp add: s1_def)
    ultimately show ?thesis
      using rt_schedule_core_inv [OF s2(1)] rt_schedule_sel [OF s2(1)] s2(2)
      by (simp add: s1_def timer_flag_def fun_eq_iff q_defs)
  next
    case False
    then show ?thesis using inv y t by (auto simp: rt_thread_yield_def Let_def split: if_splits)
  qed
  then show "core_inv s'" "e = RT_EOK" "threads s' = threads s" "timers s' = timers s"
    "timer_list s' = timer_list s" "rt_tick s' = rt_tick s" "lock_nest s' = lock_nest s"
    "timer_flag s' = timer_flag s" "current_thread s' \<noteq> None" "objs s' = objs s"
    "container s' = container s" "sems s' = sems s"
    "\<forall>q. queues s' (Suspend q) = queues s (Suspend q)" by blast+
qed

lemma rt_thread_yield_total:
  assumes "core_inv s" "current_thread s \<noteq> None"
  shows "\<exists>s'. rt_thread_yield s = Some (RT_EOK, s')"
proof -
  obtain t where t: "current_thread s = Some t" using assms(2) by auto
  let ?p = "unat (current_priority (threads s t))"
  let ?s = "s\<lparr>queues := q_insert_tail (Ready ?p) t (q_remove t (queues s))\<rparr>"
  show ?thesis
  proof (cases "thread_stat s t = RT_THREAD_READY \<and> 1 < length (queues s (Ready ?p))")
    case True
    then have "t \<in> set (queues s (Ready ?p))"
      using sched_okD(2) [OF core_invD(1) [OF assms(1)], of t ?p] by (simp add: thread_stat_def)
    then have "sched_inv ?s" by (rule requeue_sched_inv [OF core_invD(1) [OF assms(1)]])
    moreover have "queues ?s (Ready ?p) \<noteq> []" by (simp add: q_insert_tail_def)
    ultimately obtain s' where "rt_schedule ?s = Some s'"
      using rt_schedule_total [of ?s ?p] t by auto
    then show ?thesis using t True by (simp add: rt_thread_yield_def Let_def)
  next
    case False
    then show ?thesis using t by (auto simp: rt_thread_yield_def Let_def)
  qed
qed

lemma rt_thread_control_priority:
  assumes "is_thread t s"
  shows "rt_thread_control t RT_THREAD_CTRL_CHANGE_PRIORITY p s =
    (case change_priority t p s of None \<Rightarrow> None | Some s' \<Rightarrow> Some (RT_EOK, s'))"
  using assms by (simp add: rt_thread_control_def split: option.splits)

text \<open>The conversion of milliseconds rounds up, and does not overflow.\<close>

lemma rt_tick_from_millisecond_ceil:
  assumes "0 \<le> sint ms"
  shows "uint (rt_tick_from_millisecond ms) = (RT_TICK_PER_SECOND * sint ms + 999) div 1000"
proof -
  have b: "sint ms < 2 ^ 31" using sint_lt [of ms] by simp
  have s: "RT_TICK_PER_SECOND * (sint ms div 1000) +
      (RT_TICK_PER_SECOND * (sint ms mod 1000) + 999) div 1000 =
      (RT_TICK_PER_SECOND * sint ms + 999) div 1000"
  proof -
    have "RT_TICK_PER_SECOND * sint ms + 999 =
        (RT_TICK_PER_SECOND * (sint ms mod 1000) + 999) + 1000 * (RT_TICK_PER_SECOND * (sint ms div 1000))"
      using mult_div_mod_eq [of 1000 "sint ms"] by (simp only: RT_TICK_PER_SECOND_def)
    then show ?thesis by simp
  qed
  have "0 \<le> (RT_TICK_PER_SECOND * sint ms + 999) div 1000"
      "(RT_TICK_PER_SECOND * sint ms + 999) div 1000 < 2 ^ 32"
    using assms b zdiv_mono1 [of "100 * sint ms + 999" "100 * 2 ^ 31 + 999" 1000]
    by (simp_all add: RT_TICK_PER_SECOND_def)
  then have "uint (word_of_int ((RT_TICK_PER_SECOND * sint ms + 999) div 1000) :: u32) =
      (RT_TICK_PER_SECOND * sint ms + 999) div 1000"
    by (simp add: unsigned_of_int take_bit_int_eq_self)
  moreover have "rt_tick_from_millisecond ms =
      word_of_int ((RT_TICK_PER_SECOND * sint ms + 999) div 1000)"
    unfolding s [symmetric] using assms by (simp add: rt_tick_from_millisecond_def)
  ultimately show ?thesis by simp
qed

end
