(* ===== verification/Clock.thy ===== *)
theory Clock
  imports Thread
begin

text \<open>
  The system tick, \<^verbatim>\<open>src/clock.c\<close>, and the expiry of timers, \<^verbatim>\<open>rt_timer_check\<close> of
  \<^verbatim>\<open>src/timer.c\<close>.

  The functions that the application hangs on its own timers are a parameter \<open>cb\<close>: the
  number of the function, the parameter, and the kernel state when it is called.  \<open>cb_ok\<close>
  states what the kernel expects of them: they keep the invariant and the clock, and of the
  timers they at most stop some.
\<close>

section \<open>The routines\<close>

type_synonym callbacks = "nat \<Rightarrow> nat \<Rightarrow> kernel \<Rightarrow> kernel option"

definition rt_tick_get :: "kernel \<Rightarrow> u32" where
  "rt_tick_get s = rt_tick s"

definition rt_tick_set :: "u32 \<Rightarrow> kernel \<Rightarrow> kernel" where
  "rt_tick_set tick s = s\<lparr>rt_tick := tick\<rparr>"

text \<open>The body of the loop: \<open>m\<close> has expired.\<close>

definition run_timeout :: "callbacks \<Rightarrow> tmid \<Rightarrow> kernel \<Rightarrow> kernel option" where
  "run_timeout cb m s =
     (case timeout_func (timers s m) of
        ThreadTimeout t \<Rightarrow> rt_thread_timeout t s
      | UserTimeout f p \<Rightarrow> cb f p s)"

definition timer_expire :: "callbacks \<Rightarrow> tmid \<Rightarrow> kernel \<Rightarrow> kernel option" where
  "timer_expire cb m s = do {
     let s = rt_timer_remove m s;
     s \<leftarrow> run_timeout cb m s;
     (if timer_flag s m AND RT_TIMER_FLAG_PERIODIC \<noteq> 0 \<and>
         timer_flag s m AND RT_TIMER_FLAG_ACTIVATED \<noteq> 0
      then do {
        let s = set_timer_flag m (\<lambda>f. f AND NOT RT_TIMER_FLAG_ACTIVATED) s;
        (e, s) \<leftarrow> rt_timer_start m s;
        Some s
      }
      else Some (set_timer_flag m (\<lambda>f. f AND NOT RT_TIMER_FLAG_ACTIVATED) s))
   }"

partial_function (option) timer_check_loop :: "callbacks \<Rightarrow> u32 \<Rightarrow> kernel \<Rightarrow> kernel option" where
  "timer_check_loop cb current_tick s =
     (case timer_list s of
        [] \<Rightarrow> Some s
      | t # ts \<Rightarrow>
          if current_tick - timeout_tick (timers s t) < RT_TICK_MAX div 2 then do {
            s \<leftarrow> timer_expire cb t s;
            timer_check_loop cb (rt_tick_get s) s
          }
          else Some s)"

definition rt_timer_check :: "callbacks \<Rightarrow> kernel \<Rightarrow> kernel option" where
  "rt_timer_check cb s = timer_check_loop cb (rt_tick_get s) s"

definition rt_tick_increase :: "callbacks \<Rightarrow> kernel \<Rightarrow> kernel option" where
  "rt_tick_increase cb s = do {
     let s = s\<lparr>rt_tick := rt_tick s + 1\<rparr>;
     t \<leftarrow> rt_thread_self s;
     let s = upd_thread t (\<lambda>r. r\<lparr>remaining_tick := remaining_tick r - 1\<rparr>) s;
     s \<leftarrow> (if remaining_tick (threads s t) = 0 then do {
            let s = upd_thread t (\<lambda>r. r\<lparr>remaining_tick := th_init_tick r\<rparr>) s;
            (e, s) \<leftarrow> rt_thread_yield s;
            Some s
          }
          else Some s);
     rt_timer_check cb s
   }"

section \<open>What is expected of the application's functions\<close>

text \<open>\<open>timers_shrink s s'\<close>: some timers were taken off the list, nothing else happened to
  timers.\<close>

definition timers_shrink :: "kernel \<Rightarrow> kernel \<Rightarrow> bool" where
  "timers_shrink s s' \<longleftrightarrow> rt_tick s' = rt_tick s \<and> timers s' = timers s \<and>
     (\<exists>P. timer_list s' = filter P (timer_list s)) \<and>
     (\<forall>m. timer_flag s' m AND RT_TIMER_FLAG_PERIODIC = timer_flag s m AND RT_TIMER_FLAG_PERIODIC) \<and>
     (\<forall>m. rt_object_get_type (OTimer m) s = RT_Object_Class_Timer \<longrightarrow>
          rt_object_get_type (OTimer m) s' = RT_Object_Class_Timer) \<and>
     lock_nest s' = lock_nest s \<and> (current_thread s \<noteq> None \<longrightarrow> current_thread s' \<noteq> None)"

definition cb_ok :: "callbacks \<Rightarrow> bool" where
  "cb_ok cb \<longleftrightarrow> (\<forall>f p s. core_inv s \<and> current_thread s \<noteq> None \<longrightarrow>
     (\<exists>s'. cb f p s = Some s' \<and> core_inv s' \<and> timers_shrink s s'))"

definition cb_none :: callbacks where
  "cb_none f p s = Some s"

lemma filter_all [simp]: "\<exists>P. xs = filter P xs"
  by (rule exI [of _ "\<lambda>_. True"]) simp

lemma timers_shrink_refl [simp]: "timers_shrink s s"
  by (simp add: timers_shrink_def)

lemma cb_ok_none: "cb_ok cb_none"
  by (simp add: cb_ok_def cb_none_def)

section \<open>One expiry\<close>

text \<open>The timers that have expired, and those that are still to come.\<close>

abbreviation due :: "kernel \<Rightarrow> tmid \<Rightarrow> bool" where
  "due s m \<equiv> timer_key s m \<le> 0"

definition periods_ok :: "kernel \<Rightarrow> bool" where
  "periods_ok s \<longleftrightarrow> (\<forall>m. rt_object_get_type (OTimer m) s = RT_Object_Class_Timer \<and>
     timer_flag s m AND RT_TIMER_FLAG_PERIODIC \<noteq> 0 \<longrightarrow>
     0 < init_tick (timers s m) \<and> init_tick (timers s m) < RT_TICK_MAX div 2)"

lemma timed_out_shrink:
  assumes "timed_out t s s'" "current_thread s' \<noteq> None"
  shows "timers_shrink s s'"
proof -
  obtain s1 where k: "kframe s s1" and f: "sched_frame s1 s'"
    and eq: "timers s1 = timers s" "timer_list s1 = timer_list s"
    using assms(1) by (auto simp: timed_out_def)
  have "timer_flag s' m AND RT_TIMER_FLAG_PERIODIC = timer_flag s m AND RT_TIMER_FLAG_PERIODIC" for m
    using k by (simp add: sched_frame_thread [OF f] kframe_def)
  then show ?thesis
    using assms(2) by (auto simp: timers_shrink_def eq sched_frame_sel [OF f] sched_frame_thread [OF f]
        kframe_sel [OF k])
qed

lemma remove_timer_core_inv:
  assumes "core_inv s"
  shows "core_inv (rt_timer_remove m s)"
proof (rule core_inv_kframe [OF assms timer_frame_kframe [OF rt_timer_remove_frame]])
  have sel: "queues (rt_timer_remove m s) = queues s" "threads (rt_timer_remove m s) = threads s"
    "ready_group (rt_timer_remove m s) = ready_group s"
    by (simp_all add: rt_timer_remove_def)
  then show "sched_inv (rt_timer_remove m s)" using core_invD(1) [OF assms] by simp
  show "timer_inv (rt_timer_remove m s)" using core_invD(2) [OF assms] by (rule rt_timer_remove_inv)
  show "ThreadTimer t \<in> set (timer_list (rt_timer_remove m s)) \<Longrightarrow>
      thread_stat (rt_timer_remove m s) t = RT_THREAD_SUSPEND" for t
    using core_invD(6) [OF assms, of t] by (simp add: thread_stat_def sel)
qed (auto simp: thread_stat_def rt_timer_remove_def)

lemma timer_key_remove [simp]: "timer_key (rt_timer_remove m s) = timer_key s"
  by (simp add: timer_key_def fun_eq_iff)

text \<open>The function of an expired timer runs to its end.\<close>

lemma run_timeout_spec:
  assumes inv: "core_inv s" and m: "m \<in> set (timer_list s)" and cb: "cb_ok cb"
    and cur: "current_thread s \<noteq> None"
  shows "\<exists>s'. run_timeout cb m (rt_timer_remove m s) = Some s' \<and> core_inv s' \<and>
    timers_shrink (rt_timer_remove m s) s'"
proof -
  let ?s = "rt_timer_remove m s"
  have i: "core_inv ?s" using inv by (rule remove_timer_core_inv)
  have c: "current_thread ?s \<noteq> None" using cur by (simp add: rt_timer_remove_def)
  show ?thesis
  proof (cases "timeout_func (timers s m)")
    case (ThreadTimeout t)
    then have mt: "m = ThreadTimer t" using core_invD(3) [OF inv] by (auto simp: wakeups_ok_def)
    then have "thread_stat s t = RT_THREAD_SUSPEND" using core_invD(6) [OF inv] m by blast
    then have "thread_stat ?s t = RT_THREAD_SUSPEND" by (simp add: thread_stat_def)
    moreover have "ThreadTimer t \<notin> set (timer_list ?s)" by (simp add: mt)
    ultimately obtain s' where "rt_thread_timeout t ?s = Some s'" "timed_out t ?s s'" "core_inv s'"
        "current_thread s' \<noteq> None"
      using rt_thread_timeout_spec [OF i _ _ c] by blast
    then show ?thesis using ThreadTimeout timed_out_shrink by (auto simp: run_timeout_def)
  next
    case (UserTimeout f p)
    then show ?thesis using cb i c by (simp add: run_timeout_def cb_ok_def)
  qed
qed

lemma set_timer_flag_core_inv:
  assumes inv: "core_inv s" and m: "m \<notin> set (timer_list s)"
    and f: "\<And>x. f x AND RT_TIMER_FLAG_PERIODIC = x AND RT_TIMER_FLAG_PERIODIC"
  shows "core_inv (set_timer_flag m f s)"
proof (rule core_inv_kframe [OF inv timer_frame_kframe [OF set_timer_flag_frame]])
  have sel: "queues (set_timer_flag m f s) = queues s" "threads (set_timer_flag m f s) = threads s"
    "ready_group (set_timer_flag m f s) = ready_group s"
    by (simp_all add: set_timer_flag_def upd_obj_def)
  then show "sched_inv (set_timer_flag m f s)" using core_invD(1) [OF inv] by simp
  show "timer_inv (set_timer_flag m f s)"
    using core_invD(2) [OF inv] m by (rule set_timer_flag_inv)
  show "ThreadTimer t \<in> set (timer_list (set_timer_flag m f s)) \<Longrightarrow>
      thread_stat (set_timer_flag m f s) t = RT_THREAD_SUSPEND" for t
    using core_invD(6) [OF inv, of t] by (simp add: thread_stat_def sel)
qed (auto simp: f thread_stat_def set_timer_flag_def upd_obj_def)

text \<open>A timer of the application may be started at any time.\<close>

lemma rt_timer_start_core_inv:
  assumes inv: "core_inv s" and st: "rt_timer_start m s = Some (e, s')"
    and m: "\<And>t. m = ThreadTimer t \<Longrightarrow> thread_stat s t = RT_THREAD_SUSPEND"
  shows "core_inv s'" "kframe s s'"
proof -
  note e = rt_timer_start_eq [OF st] and i = rt_timer_start_inv [OF core_invD(2) [OF inv] st]
  note sel = timer_frame_sel [OF e(7)]
  show k: "kframe s s'" by (rule timer_frame_kframe [OF e(7)])
  show "core_inv s'"
  proof (rule core_inv_kframe [OF inv k])
    show "sched_inv s'" using core_invD(1) [OF inv] by (simp add: sel)
    show "timer_inv s'" by (rule i(1))
    show "ThreadTimer t \<in> set (timer_list s') \<Longrightarrow> thread_stat s' t = RT_THREAD_SUSPEND" for t
      using core_invD(6) [OF inv, of t] m by (auto simp: i(2) sel thread_stat_def)
  qed (auto simp: thread_stat_def sel)
qed

definition due_set :: "kernel \<Rightarrow> tmid set" where
  "due_set s = {m \<in> set (timer_list s). due s m}"

lemma periods_ok_shrink:
  assumes "periods_ok s" "timers s' = timers s"
    "\<And>m. timer_flag s' m AND RT_TIMER_FLAG_PERIODIC = timer_flag s m AND RT_TIMER_FLAG_PERIODIC"
    "\<And>m. timer_flag s m AND RT_TIMER_FLAG_PERIODIC \<noteq> 0 \<Longrightarrow>
       rt_object_get_type (OTimer m) s' = rt_object_get_type (OTimer m) s"
  shows "periods_ok s'"
  using assms by (auto simp: periods_ok_def)

text \<open>One turn of the loop: the first timer leaves the set of the due ones, and no timer
  becomes due.\<close>

lemma timer_expire_spec:
  assumes inv: "core_inv s" and m: "m \<in> set (timer_list s)" and cb: "cb_ok cb"
    and cur: "current_thread s \<noteq> None" and per: "\<And>m. timer_flag s m AND RT_TIMER_FLAG_PERIODIC \<noteq> 0 \<Longrightarrow>
      0 < init_tick (timers s m) \<and> init_tick (timers s m) < RT_TICK_MAX div 2"
  shows "\<exists>s'. timer_expire cb m s = Some s' \<and> core_inv s' \<and> current_thread s' \<noteq> None \<and>
    rt_tick s' = rt_tick s \<and> due_set s' \<subseteq> due_set s - {m} \<and>
    set (timer_list s') \<subseteq> set (timer_list s) \<and>
    (\<forall>m. init_tick (timers s' m) = init_tick (timers s m)) \<and>
    (\<forall>m. timer_flag s' m AND RT_TIMER_FLAG_PERIODIC = timer_flag s m AND RT_TIMER_FLAG_PERIODIC) \<and>
    lock_nest s' = lock_nest s"
proof -
  obtain s1 where s1: "run_timeout cb m (rt_timer_remove m s) = Some s1" "core_inv s1"
    and sh: "timers_shrink (rt_timer_remove m s) s1"
    using run_timeout_spec [OF inv m cb cur] by blast
  obtain P where P: "timer_list s1 = filter P (removeAll m (timer_list s))"
    using sh by (auto simp: timers_shrink_def)
  have eq: "rt_tick s1 = rt_tick s" "timers s1 = timers s" "lock_nest s1 = lock_nest s"
      "\<And>m. timer_flag s1 m AND RT_TIMER_FLAG_PERIODIC = timer_flag s m AND RT_TIMER_FLAG_PERIODIC"
    and c1: "current_thread s1 \<noteq> None"
    using sh cur by (auto simp: timers_shrink_def rt_timer_remove_def timer_flag_def)
  have key: "timer_key s1 = timer_key s" by (simp add: timer_key_def eq fun_eq_iff)
  have nin: "m \<notin> set (timer_list s1)" by (simp add: P)
  define s2 where "s2 = set_timer_flag m (\<lambda>f. f AND NOT RT_TIMER_FLAG_ACTIVATED) s1"
  have i2: "core_inv s2"
    unfolding s2_def by (rule set_timer_flag_core_inv [OF s1(2) nin]) simp
  have sel2: "rt_tick s2 = rt_tick s" "timers s2 = timers s" "timer_list s2 = timer_list s1"
      "lock_nest s2 = lock_nest s" "current_thread s2 = current_thread s1"
      "\<And>m. timer_flag s2 m AND RT_TIMER_FLAG_PERIODIC = timer_flag s m AND RT_TIMER_FLAG_PERIODIC"
    using eq by (simp_all add: s2_def) (simp_all add: set_timer_flag_def upd_obj_def)
  have key2: "timer_key s2 = timer_key s" by (simp add: timer_key_def sel2 fun_eq_iff)
  show ?thesis
  proof (cases "timer_flag s1 m AND RT_TIMER_FLAG_PERIODIC \<noteq> 0 \<and>
      timer_flag s1 m AND RT_TIMER_FLAG_ACTIVATED \<noteq> 0")
    case False
    then have "timer_expire cb m s = Some s2"
      using s1(1) by (auto simp: timer_expire_def Let_def s2_def)
    moreover have "due_set s2 \<subseteq> due_set s - {m}"
      by (auto simp: due_set_def sel2 key2 P)
    ultimately show ?thesis using i2 c1 sel2 by (auto simp: P)
  next
    case True
    then have p: "0 < init_tick (timers s m)" "init_tick (timers s m) < RT_TICK_MAX div 2"
      using per [of m] eq(4) by auto
    have nt: "m \<noteq> ThreadTimer t" for t
    proof
      assume mt: "m = ThreadTimer t"
      then have "alive s t" using core_invD(6,5) [OF inv] m by blast
      then show False using True eq(4) mt by (simp add: alive_def)
    qed
    have "rt_object_get_type (OTimer m) s1 = RT_Object_Class_Timer"
      using sh timer_invD(5) [OF core_invD(2) [OF inv] m]
      by (auto simp: timers_shrink_def rt_object_get_type_def)
    then have ty: "rt_object_get_type (OTimer m) s2 = RT_Object_Class_Timer"
      by (simp add: s2_def set_timer_flag_def upd_obj_def rt_object_get_type_def)
    then obtain s3 where s3: "rt_timer_start m s2 = Some (RT_EOK, s3)"
      using rt_timer_start_total [OF ty] p(2) by (auto simp: sel2)
    note e = rt_timer_start_eq [OF s3] and i = rt_timer_start_inv [OF core_invD(2) [OF i2] s3]
    note fr = timer_frame_sel [OF e(7)]
    have "0 < unat (init_tick (timers s m))"
      using p(1) by (simp add: word_less_nat_alt)
    then have pos: "\<not> due s3 m" unfolding i(3) sel2 by linarith
    have "due_set s3 \<subseteq> due_set s - {m}"
    proof
      fix x assume x: "x \<in> due_set s3"
      then have "x \<noteq> m" using pos by (auto simp: due_set_def)
      with x show "x \<in> due_set s - {m}" by (auto simp: due_set_def i(2,4) sel2 key2 P)
    qed
    moreover have "timer_expire cb m s = Some s3"
      using s1(1) s3 True by (simp add: timer_expire_def Let_def s2_def)
    moreover have "core_inv s3" using rt_timer_start_core_inv(1) [OF i2 s3] nt by blast
    moreover have "init_tick (timers s3 x) = init_tick (timers s x)" for x
      by (simp add: e(4) sel2)
    ultimately show ?thesis
      using c1 m by (auto simp: fr sel2 i(2) P)
  qed
qed

text \<open>The loop ends, with no timer due.\<close>

lemma timer_check_loop_spec:
  assumes "core_inv s" "cb_ok cb" "current_thread s \<noteq> None"
    and "\<And>m. timer_flag s m AND RT_TIMER_FLAG_PERIODIC \<noteq> 0 \<Longrightarrow>
      0 < init_tick (timers s m) \<and> init_tick (timers s m) < RT_TICK_MAX div 2"
  shows "\<exists>s'. timer_check_loop cb (rt_tick s) s = Some s' \<and> core_inv s' \<and>
    current_thread s' \<noteq> None \<and> rt_tick s' = rt_tick s \<and> due_set s' = {} \<and>
    set (timer_list s') \<subseteq> set (timer_list s) \<and> lock_nest s' = lock_nest s"
  using assms
proof (induction "card (due_set s)" arbitrary: s rule: less_induct)
  case less
  note inv = less.prems(1)
  show ?case
  proof (cases "timer_list s")
    case Nil
    then show ?thesis
      using less.prems by (subst timer_check_loop.simps) (simp add: due_set_def)
  next
    case (Cons t ts)
    have win: "in_window (timer_key s t)"
      using timer_invD(3) [OF core_invD(2) [OF inv], of t] Cons by simp
    show ?thesis
    proof (cases "is_due s t")
      case False
      then have "0 < timer_key s t" using is_due_iff [OF win] by simp
      then have "due_set s = {}"
        using timer_invD(2) [OF core_invD(2) [OF inv]] Cons by (fastforce simp: due_set_def)
      then show ?thesis
        using less.prems False Cons
        by (subst timer_check_loop.simps) (simp add: is_due_def)
    next
      case True
      have t: "t \<in> set (timer_list s)" using Cons by simp
      obtain s1 where s1: "timer_expire cb t s = Some s1" "core_inv s1" "current_thread s1 \<noteq> None"
          "rt_tick s1 = rt_tick s" "due_set s1 \<subseteq> due_set s - {t}"
          "set (timer_list s1) \<subseteq> set (timer_list s)" "lock_nest s1 = lock_nest s"
        and per: "\<forall>m. init_tick (timers s1 m) = init_tick (timers s m)"
          "\<forall>m. timer_flag s1 m AND RT_TIMER_FLAG_PERIODIC = timer_flag s m AND RT_TIMER_FLAG_PERIODIC"
        using timer_expire_spec [OF inv t less.prems(2-4)] by blast
      have fin: "finite (due_set s)" by (simp add: due_set_def)
      have "t \<in> due_set s" using True is_due_iff [OF win] t by (simp add: due_set_def)
      then have "card (due_set s1) < card (due_set s)"
        using s1(5) fin by (metis card_Diff1_less card_mono finite_Diff le_less_trans)
      then obtain s' where "timer_check_loop cb (rt_tick s1) s1 = Some s'" "core_inv s'"
          "current_thread s' \<noteq> None" "rt_tick s' = rt_tick s1" "due_set s' = {}"
          "set (timer_list s') \<subseteq> set (timer_list s1)" "lock_nest s' = lock_nest s1"
        using less.hyps [OF _ s1(2) less.prems(2) s1(3)] less.prems(4) per by auto
      moreover have "timer_check_loop cb (rt_tick s) s = timer_check_loop cb (rt_tick s1) s1"
        using True Cons s1(1)
        by (subst timer_check_loop.simps) (simp add: is_due_def rt_tick_get_def)
      ultimately show ?thesis using s1(4,6,7) by auto
    qed
  qed
qed

section \<open>Who is woken\<close>

lemma expire_thread:
  assumes inv: "core_inv s" and l: "timer_list s = ThreadTimer t # ts"
    and cur: "current_thread s \<noteq> None"
  shows "\<exists>s'. timer_expire cb (ThreadTimer t) s = Some s' \<and> core_inv s' \<and>
    current_thread s' \<noteq> None \<and> timers s' = timers s \<and> rt_tick s' = rt_tick s \<and>
    timer_list s' = ts \<and> lock_nest s' = lock_nest s \<and>
    threads s' = (threads s)(t := with_stat RT_THREAD_READY
                    ((threads s t)\<lparr>th_error := - RT_ETIMEOUT\<rparr>)) \<and>
    (lock_nest s = 0 \<longrightarrow> runs_highest s')"
proof -
  let ?s = "rt_timer_remove (ThreadTimer t) s"
  have m: "ThreadTimer t \<in> set (timer_list s)" using l by simp
  have st: "thread_stat s t = RT_THREAD_SUSPEND" using core_invD(6) [OF inv m] .
  have al: "alive s t" using core_invD(5) [OF inv] st by blast
  have i: "core_inv ?s" using inv by (rule remove_timer_core_inv)
  have c: "current_thread ?s \<noteq> None" "lock_nest ?s = lock_nest s"
    using cur by (simp_all add: rt_timer_remove_def)
  have st': "thread_stat ?s t = RT_THREAD_SUSPEND" "ThreadTimer t \<notin> set (timer_list ?s)"
    using st by (simp_all add: thread_stat_def)
  obtain s1 where s1: "rt_thread_timeout t ?s = Some s1" "timed_out t ?s s1" "core_inv s1"
      "current_thread s1 \<noteq> None" "lock_nest s = 0 \<longrightarrow> runs_highest s1"
    using rt_thread_timeout_spec [OF i st' c(1)] unfolding c(2) by blast
  obtain s0 where k: "kframe ?s s0" and f: "sched_frame s0 s1"
    and e: "threads s0 = (threads s)(t := with_stat RT_THREAD_READY
                    ((threads s t)\<lparr>th_error := - RT_ETIMEOUT\<rparr>))"
      "timers s0 = timers s" "timer_list s0 = removeAll (ThreadTimer t) (timer_list s)"
    using s1(2) by (auto simp: timed_out_def)
  have ts: "removeAll (ThreadTimer t) (timer_list s) = ts"
    using timer_invD(1) [OF core_invD(2) [OF inv]] by (simp add: l)
  have "timer_flag s1 (ThreadTimer t) AND RT_TIMER_FLAG_PERIODIC = 0"
    using al k by (simp add: alive_def sched_frame_thread [OF f] kframe_def)
  moreover have "timeout_func (timers s (ThreadTimer t)) = ThreadTimeout t"
    using al by (simp add: alive_def)
  ultimately have eq: "timer_expire cb (ThreadTimer t) s =
      Some (set_timer_flag (ThreadTimer t) (\<lambda>f. f AND NOT RT_TIMER_FLAG_ACTIVATED) s1)"
    using s1(1) by (simp add: timer_expire_def Let_def run_timeout_def)
  have tl1: "timer_list s1 = ts" using e(3) ts by (simp add: sched_frame_sel [OF f])
  have nin: "ThreadTimer t \<notin> set (timer_list s1)"
    using timer_invD(1) [OF core_invD(2) [OF inv]] by (simp add: l tl1)
  let ?s2 = "set_timer_flag (ThreadTimer t) (\<lambda>f. f AND NOT RT_TIMER_FLAG_ACTIVATED) s1"
  have "core_inv ?s2" by (rule set_timer_flag_core_inv [OF s1(3) nin]) simp
  moreover have "runs_highest ?s2 = runs_highest s1"
    by (rule runs_highest_cong) (simp_all add: set_timer_flag_def upd_obj_def)
  moreover have "lock_nest s1 = lock_nest s" "threads s1 = threads s0" "timers s1 = timers s"
      "rt_tick s1 = rt_tick s"
    using e(2) kframe_sel [OF k] by (simp_all add: sched_frame_sel [OF f] c)
  ultimately show ?thesis
    using eq s1(4,5) tl1 e(1) by (simp add: set_timer_flag_def upd_obj_def)
qed

text \<open>When only thread timers are due, exactly the threads of the due timers are woken, and
  exactly the due timers leave the list.\<close>

lemma timer_check_loop_wakes:
  assumes "core_inv s" "current_thread s \<noteq> None" "lock_nest s = 0"
    and "\<forall>m \<in> set (timer_list s). due s m \<longrightarrow> (\<exists>t. m = ThreadTimer t)"
  shows "\<exists>s'. timer_check_loop cb (rt_tick s) s = Some s' \<and> core_inv s' \<and>
    timer_list s' = filter (\<lambda>m. \<not> due s m) (timer_list s) \<and> timers s' = timers s \<and>
    rt_tick s' = rt_tick s \<and> lock_nest s' = 0 \<and> current_thread s' \<noteq> None \<and>
    (\<forall>t. threads s' t = (if ThreadTimer t \<in> set (timer_list s) \<and> due s (ThreadTimer t)
       then with_stat RT_THREAD_READY ((threads s t)\<lparr>th_error := - RT_ETIMEOUT\<rparr>)
       else threads s t)) \<and>
    ((\<exists>m \<in> set (timer_list s). due s m) \<longrightarrow> runs_highest s')"
  using assms
proof (induction "timer_list s" arbitrary: s)
  case Nil
  then show ?case by (subst timer_check_loop.simps) simp
next
  case (Cons m ms)
  note inv = Cons.prems(1) and l = Cons.hyps(2) [symmetric]
  have win: "in_window (timer_key s m)"
    using timer_invD(3) [OF core_invD(2) [OF inv], of m] by (simp add: l)
  have sorted: "\<forall>x \<in> set ms. timer_key s m \<le> timer_key s x"
    using timer_invD(2) [OF core_invD(2) [OF inv]] by (simp add: l)
  show ?case
  proof (cases "due s m")
    case False
    then have "\<not> is_due s m" using is_due_iff [OF win] by simp
    moreover have "\<forall>x \<in> set (timer_list s). \<not> due s x" using False sorted by (auto simp: l)
    ultimately show ?thesis
      using inv Cons.prems(2,3) by (subst timer_check_loop.simps) (auto simp: l is_due_def)
  next
    case True
    then have d: "is_due s m" using is_due_iff [OF win] by simp
    obtain t where t: "m = ThreadTimer t" using Cons.prems(4) True by (auto simp: l)
    obtain s1 where s1: "timer_expire cb m s = Some s1" "core_inv s1" "current_thread s1 \<noteq> None"
        "timers s1 = timers s" "rt_tick s1 = rt_tick s" "timer_list s1 = ms" "lock_nest s1 = 0"
        "threads s1 = (threads s)(t := with_stat RT_THREAD_READY
                    ((threads s t)\<lparr>th_error := - RT_ETIMEOUT\<rparr>))" "runs_highest s1"
      using expire_thread [OF inv l [unfolded t] Cons.prems(2), of cb, unfolded Cons.prems(3)] t
      by blast
    have key: "timer_key s1 = timer_key s" by (simp add: timer_key_def s1 fun_eq_iff)
    have nt: "ThreadTimer t \<notin> set ms"
      using timer_invD(1) [OF core_invD(2) [OF inv]] by (simp add: l t)
    have "\<forall>m \<in> set (timer_list s1). due s1 m \<longrightarrow> (\<exists>t. m = ThreadTimer t)"
      using Cons.prems(4) by (auto simp: s1(6) key l)
    from Cons.hyps(1) [OF s1(6) [symmetric] s1(2,3,7) this]
    obtain s' where s': "timer_check_loop cb (rt_tick s1) s1 = Some s'" "core_inv s'"
        "timer_list s' = filter (\<lambda>m. \<not> due s m) ms" "timers s' = timers s" "rt_tick s' = rt_tick s"
        "lock_nest s' = 0" "current_thread s' \<noteq> None"
        "\<forall>u. threads s' u = (if ThreadTimer u \<in> set ms \<and> due s (ThreadTimer u)
       then with_stat RT_THREAD_READY ((threads s1 u)\<lparr>th_error := - RT_ETIMEOUT\<rparr>)
       else threads s1 u)" "(\<exists>m \<in> set ms. due s m) \<longrightarrow> runs_highest s'"
      by (auto simp: s1(4-6) key)
    have eq: "timer_check_loop cb (rt_tick s) s = timer_check_loop cb (rt_tick s1) s1"
      using d l s1(1) by (subst timer_check_loop.simps) (simp add: is_due_def rt_tick_get_def)
    have "runs_highest s'"
    proof (cases "\<exists>m \<in> set ms. due s m")
      case False
      then have "s' = s1"
        using s'(1) s1(6) s1(2)
        by (subst (asm) timer_check_loop.simps)
          (auto split: list.splits if_splits simp: is_due_def [symmetric] key
             dest!: is_due_iff [THEN iffD1, rotated] intro: timer_invD(3) [OF core_invD(2)])
      then show ?thesis using s1(9) by simp
    qed (use s'(9) in simp)
    then show ?thesis
      using eq s'(1-8) nt True by (auto simp: l t s1(8))
  qed
qed

definition woken :: "kernel \<Rightarrow> kernel \<Rightarrow> bool" where
  "woken s s' \<longleftrightarrow> (\<forall>t. threads s' t =
     (if ThreadTimer t \<in> set (timer_list s) \<and> due s (ThreadTimer t)
      then with_stat RT_THREAD_READY ((threads s t)\<lparr>th_error := - RT_ETIMEOUT\<rparr>)
      else threads s t))"

lemma timer_check_loop_woken:
  assumes "core_inv s" "current_thread s \<noteq> None" "lock_nest s = 0"
    and "\<forall>m \<in> set (timer_list s). due s m \<longrightarrow> (\<exists>t. m = ThreadTimer t)"
  obtains s' where "timer_check_loop cb (rt_tick s) s = Some s'" "core_inv s'"
    "timer_list s' = filter (\<lambda>m. \<not> due s m) (timer_list s)" "timers s' = timers s"
    "rt_tick s' = rt_tick s" "lock_nest s' = 0" "current_thread s' \<noteq> None" "woken s s'"
  using timer_check_loop_wakes [OF assms, of cb, folded woken_def] by blast

section \<open>One tick\<close>

text \<open>Between two ticks no timer is overdue.\<close>

definition timers_ahead :: "kernel \<Rightarrow> bool" where
  "timers_ahead s \<longleftrightarrow> (\<forall>m \<in> set (timer_list s). 0 \<le> timer_key s m)"

text \<open>The part of \<open>rt_tick_increase\<close> before the timers are checked.\<close>

definition tick_slice :: "kernel \<Rightarrow> kernel option" where
  "tick_slice s = do {
     let s = s\<lparr>rt_tick := rt_tick s + 1\<rparr>;
     t \<leftarrow> rt_thread_self s;
     let s = upd_thread t (\<lambda>r. r\<lparr>remaining_tick := remaining_tick r - 1\<rparr>) s;
     (if remaining_tick (threads s t) = 0 then do {
            let s = upd_thread t (\<lambda>r. r\<lparr>remaining_tick := th_init_tick r\<rparr>) s;
            (e, s) \<leftarrow> rt_thread_yield s;
            Some s
          }
          else Some s)
   }"

lemma rt_tick_increase_split:
  "rt_tick_increase cb s = tick_slice s \<bind> rt_timer_check cb"
  by (cases "rt_thread_self (s\<lparr>rt_tick := rt_tick s + 1\<rparr>)")
    (simp_all add: rt_tick_increase_def tick_slice_def Let_def)

lemma advance_clock_core_inv:
  assumes inv: "core_inv s" and a: "timers_ahead s"
  shows "core_inv (s\<lparr>rt_tick := rt_tick s + 1\<rparr>)"
  using tick_inv(1) [OF core_invD(2) [OF inv]] a core_invD(1,3,4) [OF inv]
  by (simp add: core_inv_def timers_ahead_def wakeups_ok_def alive_ok_def thread_stat_def alive_def
      is_thread_def rt_object_get_type_def rt_object_is_systemobject_def timer_flag_def)

definition slice_thread :: "rt_thread \<Rightarrow> rt_thread" where
  "slice_thread r = r\<lparr>remaining_tick :=
     (if remaining_tick r - 1 = 0 then th_init_tick r else remaining_tick r - 1)\<rparr>"

lemma tick_slice_spec:
  assumes inv: "core_inv s" and a: "timers_ahead s" and cur: "current_thread s = Some t"
  shows "\<exists>s'. tick_slice s = Some s' \<and> core_inv s' \<and> rt_tick s' = rt_tick s + 1 \<and>
    timers s' = timers s \<and> timer_list s' = timer_list s \<and> timer_flag s' = timer_flag s \<and>
    lock_nest s' = lock_nest s \<and> current_thread s' \<noteq> None \<and>
    threads s' = (threads s)(t := slice_thread (threads s t)) \<and>
    (\<forall>m \<in> set (timer_list s). timer_key s' m = timer_key s m - 1)"
proof -
  define s0 where "s0 = s\<lparr>rt_tick := rt_tick s + 1\<rparr>"
  define s1 where "s1 = upd_thread t slice_thread s0"
  have i0: "core_inv s0" unfolding s0_def by (rule advance_clock_core_inv [OF inv a])
  have i1: "core_inv s1"
    unfolding s1_def by (rule upd_thread_cong_inv [OF i0]) (simp_all add: slice_thread_def)
  have sel: "rt_tick s1 = rt_tick s + 1" "timers s1 = timers s" "timer_list s1 = timer_list s"
      "timer_flag s1 = timer_flag s" "lock_nest s1 = lock_nest s" "current_thread s1 = Some t"
      "threads s1 = (threads s)(t := slice_thread (threads s t))"
    using cur by (simp_all add: s1_def s0_def timer_flag_def fun_eq_iff)
  have key: "timer_key s' m = timer_key s m - 1"
    if "m \<in> set (timer_list s)" "rt_tick s' = rt_tick s + 1" "timers s' = timers s" for m s'
  proof -
    have "timer_key s' m = timer_key (s\<lparr>rt_tick := rt_tick s + 1\<rparr>) m"
      using that(2,3) by (simp add: timer_key_def)
    then show ?thesis
      using bspec [OF tick_inv(2) [OF core_invD(2) [OF inv]] that(1)] a
      by (simp add: timers_ahead_def)
  qed
  show ?thesis
  proof (cases "remaining_tick (threads s t) - 1 = 0")
    case True
    have e: "upd_thread t (\<lambda>r. r\<lparr>remaining_tick := th_init_tick r\<rparr>)
        (upd_thread t (\<lambda>r. r\<lparr>remaining_tick := remaining_tick r - 1\<rparr>) s0) = s1"
      using True by (simp add: s1_def s0_def upd_thread_def slice_thread_def)
    obtain s2 where s2: "rt_thread_yield s1 = Some (RT_EOK, s2)"
      using rt_thread_yield_total [OF i1] sel(6) by auto
    note y = rt_thread_yield_inv [OF i1 s2]
    have "tick_slice s = Some s2"
      unfolding tick_slice_def rt_thread_self_def Let_def
      using cur True s2 by (simp add: e [unfolded s0_def])
    then show ?thesis using y sel key by auto
  next
    case False
    then have "tick_slice s = Some s1"
      using cur by (simp add: tick_slice_def rt_thread_self_def Let_def s1_def s0_def slice_thread_def
          upd_thread_def)
    then show ?thesis using i1 sel key by auto
  qed
qed

lemma rt_tick_increase_spec:
  assumes inv: "core_inv s" and a: "timers_ahead s" and cur: "current_thread s \<noteq> None"
    and cb: "cb_ok cb"
    and per: "\<And>m. timer_flag s m AND RT_TIMER_FLAG_PERIODIC \<noteq> 0 \<Longrightarrow>
      0 < init_tick (timers s m) \<and> init_tick (timers s m) < RT_TICK_MAX div 2"
  shows "\<exists>s'. rt_tick_increase cb s = Some s' \<and> core_inv s' \<and> rt_tick s' = rt_tick s + 1 \<and>
    current_thread s' \<noteq> None \<and> (\<forall>m \<in> set (timer_list s'). 0 < timer_key s' m) \<and>
    lock_nest s' = lock_nest s"
proof -
  obtain t where t: "current_thread s = Some t" using cur by auto
  obtain s1 where s1: "tick_slice s = Some s1" "core_inv s1" "rt_tick s1 = rt_tick s + 1"
      "timers s1 = timers s" "timer_flag s1 = timer_flag s" "lock_nest s1 = lock_nest s"
      "current_thread s1 \<noteq> None"
    using tick_slice_spec [OF inv a t] by blast
  obtain s' where s': "timer_check_loop cb (rt_tick s1) s1 = Some s'" "core_inv s'"
      "current_thread s' \<noteq> None" "rt_tick s' = rt_tick s1" "due_set s' = {}"
      "lock_nest s' = lock_nest s1"
    using timer_check_loop_spec [OF s1(2) cb s1(7)] per unfolding s1(4,5) by blast
  then show ?thesis
    using s1 by (auto simp: rt_tick_increase_split rt_timer_check_def rt_tick_get_def due_set_def
        not_le [symmetric])
qed

section \<open>Many ticks\<close>

fun ticks :: "callbacks \<Rightarrow> nat \<Rightarrow> kernel \<Rightarrow> kernel option" where
  "ticks cb 0 s = Some s"
| "ticks cb (Suc n) s = rt_tick_increase cb s \<bind> ticks cb n"

text \<open>Between its start and its expiry nothing happens to the thread of a timer; at the expiry
  it becomes ready with the time-out error.\<close>

lemma tick_step_thread_timers:
  assumes inv: "core_inv s" and a: "timers_ahead s" and cur: "current_thread s = Some c"
    and lock: "lock_nest s = 0"
    and th: "\<forall>m \<in> set (timer_list s). \<exists>t. m = ThreadTimer t"
  shows "\<exists>s'. rt_tick_increase cb s = Some s' \<and> core_inv s' \<and> timers_ahead s' \<and>
    timers s' = timers s \<and> lock_nest s' = 0 \<and> current_thread s' \<noteq> None \<and>
    rt_tick s' = rt_tick s + 1 \<and>
    timer_list s' = filter (\<lambda>m. 1 < timer_key s m) (timer_list s) \<and>
    (\<forall>m \<in> set (timer_list s'). timer_key s' m = timer_key s m - 1) \<and>
    (\<forall>t. t \<noteq> c \<longrightarrow> threads s' t =
       (if ThreadTimer t \<in> set (timer_list s) \<and> timer_key s (ThreadTimer t) \<le> 1
        then with_stat RT_THREAD_READY ((threads s t)\<lparr>th_error := - RT_ETIMEOUT\<rparr>)
        else threads s t))"
proof -
  obtain s1 where s1: "tick_slice s = Some s1" "core_inv s1" "rt_tick s1 = rt_tick s + 1"
      "timers s1 = timers s" "timer_list s1 = timer_list s" "lock_nest s1 = lock_nest s"
      "current_thread s1 \<noteq> None" "threads s1 = (threads s)(c := slice_thread (threads s c))"
      "\<forall>m \<in> set (timer_list s). timer_key s1 m = timer_key s m - 1"
    using tick_slice_spec [OF inv a cur] by blast
  have due1: "due s1 m \<longleftrightarrow> timer_key s m \<le> 1" if "m \<in> set (timer_list s)" for m
    using bspec [OF s1(9) that] by auto
  have th1: "\<forall>m \<in> set (timer_list s1). due s1 m \<longrightarrow> (\<exists>t. m = ThreadTimer t)"
    using th by (simp add: s1(5))
  have lock1: "lock_nest s1 = 0" using s1(6) lock by simp
  obtain s' where s': "timer_check_loop cb (rt_tick s1) s1 = Some s'" "core_inv s'"
      "timer_list s' = filter (\<lambda>m. \<not> due s1 m) (timer_list s1)" "timers s' = timers s1"
      "rt_tick s' = rt_tick s1" "lock_nest s' = 0" "current_thread s' \<noteq> None" "woken s1 s'"
    by (rule timer_check_loop_woken [OF s1(2,7) lock1 th1])
  have tl: "timer_list s' = filter (\<lambda>m. 1 < timer_key s m) (timer_list s)"
    unfolding s'(3) s1(5) by (rule filter_cong [OF refl]) (simp add: due1 not_le)
  have key: "timer_key s' m = timer_key s m - 1" if "m \<in> set (timer_list s)" for m
  proof -
    have "timer_key s' m = timer_key s1 m" by (simp add: timer_key_def s'(4,5))
    then show ?thesis using bspec [OF s1(9) that] by simp
  qed
  have keys: "\<forall>m \<in> set (timer_list s'). timer_key s' m = timer_key s m - 1"
    using key by (simp add: tl)
  have "timers_ahead s'" unfolding timers_ahead_def using key by (simp add: tl)
  moreover have "rt_tick_increase cb s = Some s'"
    by (simp add: rt_tick_increase_split s1(1) rt_timer_check_def rt_tick_get_def s'(1))
  moreover have "threads s' t = (if ThreadTimer t \<in> set (timer_list s) \<and> timer_key s (ThreadTimer t) \<le> 1
        then with_stat RT_THREAD_READY ((threads s t)\<lparr>th_error := - RT_ETIMEOUT\<rparr>)
        else threads s t)" if "t \<noteq> c" for t
    using s'(8) [unfolded woken_def, THEN spec, of t] due1 [of "ThreadTimer t"] that
    by (cases "ThreadTimer t \<in> set (timer_list s)") (simp_all add: s1(5,8))
  moreover have "timers s' = timers s" "rt_tick s' = rt_tick s + 1"
    by (simp_all add: s'(4,5) s1(3,4))
  ultimately show ?thesis using s'(2,6,7) tl keys by blast
qed

text \<open>The thread that runs is a ready one; a tick keeps it so.\<close>

definition cur_ready :: "kernel \<Rightarrow> bool" where
  "cur_ready s \<longleftrightarrow> (\<exists>c. current_thread s = Some c \<and> thread_stat s c = RT_THREAD_READY)"

lemma runs_highest_cur_ready: "core_inv s \<Longrightarrow> runs_highest s \<Longrightarrow> cur_ready s"
  by (erule runs_highestD [OF core_invD(1)]) (auto simp: cur_ready_def)

lemma tick_slice_cur_ready:
  assumes inv: "core_inv s" and a: "timers_ahead s" and c: "cur_ready s"
    and lock: "lock_nest s = 0" and ts: "tick_slice s = Some s'"
  shows "cur_ready s'"
proof -
  obtain t where t: "current_thread s = Some t" "thread_stat s t = RT_THREAD_READY"
    using c by (auto simp: cur_ready_def)
  obtain s1 where s1: "tick_slice s = Some s1" "core_inv s1" "lock_nest s1 = lock_nest s"
    "threads s1 = (threads s)(t := slice_thread (threads s t))"
    using tick_slice_spec [OF inv a t(1)] by blast
  then have eq: "s1 = s'" using ts by simp
  have st: "thread_stat s' u = thread_stat s u" for u
    using s1(4) by (simp add: eq thread_stat_def tstat_def slice_thread_def)
  have "current_thread s' = Some t \<or> runs_highest s'"
  proof (rule ccontr)
    assume n: "\<not> ?thesis"
    then obtain s2 e where y: "rt_thread_yield s2 = Some (e, s')" "current_thread s2 = Some t"
        "lock_nest s2 = 0"
      using ts t(1) lock
      by (auto simp: tick_slice_def rt_thread_self_def Let_def split: if_splits)
    let ?p = "unat (current_priority (threads s2 t))"
    let ?s3 = "s2\<lparr>queues := q_insert_tail (Ready ?p) t (q_remove t (queues s2))\<rparr>"
    have "rt_schedule ?s3 = Some s' \<or> s' = s2"
      using y(1,2) by (auto simp: rt_thread_yield_def Let_def split: if_splits)
    then show False
      using n y(2,3) rt_schedule_runs_highest [of ?s3 s'] by auto
  qed
  then show ?thesis
  proof
    assume "current_thread s' = Some t"
    then show ?thesis using t(2) st by (simp add: cur_ready_def)
  next
    assume "runs_highest s'"
    then show ?thesis using runs_highest_cur_ready s1(2) by (simp add: eq)
  qed
qed

lemma timer_check_no_due:
  assumes "timer_inv s" "\<forall>m \<in> set (timer_list s). \<not> due s m"
  shows "timer_check_loop cb (rt_tick s) s = Some s"
proof (cases "timer_list s")
  case (Cons m ms)
  have "\<not> is_due s m"
    using is_due_iff [OF timer_invD(3) [OF assms(1), of m]] assms(2) by (simp add: Cons)
  then show ?thesis by (subst timer_check_loop.simps) (simp add: Cons is_due_def)
qed (subst timer_check_loop.simps, simp)

lemma rt_tick_increase_cur_ready:
  assumes inv: "core_inv s" and a: "timers_ahead s" and c: "cur_ready s"
    and lock: "lock_nest s = 0" and th: "\<forall>m \<in> set (timer_list s). \<exists>t. m = ThreadTimer t"
    and ti: "rt_tick_increase cb s = Some s'"
  shows "cur_ready s'"
proof -
  obtain t where t: "current_thread s = Some t" using c by (auto simp: cur_ready_def)
  obtain s1 where s1: "tick_slice s = Some s1" "core_inv s1" "lock_nest s1 = lock_nest s"
      "timer_list s1 = timer_list s" "current_thread s1 \<noteq> None"
    using tick_slice_spec [OF inv a t] by blast
  have c1: "cur_ready s1" by (rule tick_slice_cur_ready [OF inv a c lock s1(1)])
  have loop: "timer_check_loop cb (rt_tick s1) s1 = Some s'"
    using ti s1(1) by (simp add: rt_tick_increase_split rt_timer_check_def rt_tick_get_def)
  show ?thesis
  proof (cases "\<exists>m \<in> set (timer_list s1). due s1 m")
    case False
    then have "s' = s1" using timer_check_no_due [of s1 cb] core_invD(2) [OF s1(2)] loop by simp
    then show ?thesis using c1 by simp
  next
    case True
    have th1: "\<forall>m \<in> set (timer_list s1). due s1 m \<longrightarrow> (\<exists>t. m = ThreadTimer t)"
      using th by (simp add: s1(4))
    have l1: "lock_nest s1 = 0" using s1(3) lock by simp
    have "core_inv s' \<and> runs_highest s'"
      using timer_check_loop_wakes [OF s1(2,5) l1 th1, of cb] True loop by auto
    then show ?thesis using runs_highest_cur_ready by blast
  qed
qed

text \<open>A thread whose timer has \<open>k\<close> ticks to go sleeps through the first \<open>k - 1\<close> ticks.\<close>

lemma ticks_asleep:
  assumes "core_inv s" "timers_ahead s" "cur_ready s" "lock_nest s = 0"
    and "\<forall>m \<in> set (timer_list s). \<exists>t. m = ThreadTimer t"
    and "ThreadTimer t \<in> set (timer_list s)" "int n < timer_key s (ThreadTimer t)"
  obtains s' where "ticks cb n s = Some s'" "core_inv s'" "timers_ahead s'" "cur_ready s'"
    "lock_nest s' = 0" "\<forall>m \<in> set (timer_list s'). \<exists>t. m = ThreadTimer t"
    "ThreadTimer t \<in> set (timer_list s')" "threads s' t = threads s t"
    "timer_key s' (ThreadTimer t) = timer_key s (ThreadTimer t) - int n"
  using assms
proof (induction n arbitrary: s thesis)
  case 0
  then show ?case by simp
next
  case (Suc n)
  obtain c where c: "current_thread s = Some c" "thread_stat s c = RT_THREAD_READY"
    using Suc.prems(4) by (auto simp: cur_ready_def)
  have tc: "t \<noteq> c"
    using core_invD(6) [OF Suc.prems(2) Suc.prems(7)] c(2) by auto
  obtain s1 where s1: "rt_tick_increase cb s = Some s1" "core_inv s1" "timers_ahead s1"
      "lock_nest s1 = 0" "timer_list s1 = filter (\<lambda>m. 1 < timer_key s m) (timer_list s)"
      "\<forall>m \<in> set (timer_list s1). timer_key s1 m = timer_key s m - 1"
    and th: "\<forall>t. t \<noteq> c \<longrightarrow> threads s1 t =
       (if ThreadTimer t \<in> set (timer_list s) \<and> timer_key s (ThreadTimer t) \<le> 1
        then with_stat RT_THREAD_READY ((threads s t)\<lparr>th_error := - RT_ETIMEOUT\<rparr>)
        else threads s t)"
    using tick_step_thread_timers [OF Suc.prems(2,3) c(1) Suc.prems(5,6)] by blast
  have e1: "threads s1 t = threads s t" using th tc Suc.prems(8) by auto
  have tin: "ThreadTimer t \<in> set (timer_list s1)"
    using Suc.prems(7,8) by (simp add: s1(5))
  have k: "timer_key s1 (ThreadTimer t) = timer_key s (ThreadTimer t) - 1"
    using s1(6) tin by blast
  have c1: "cur_ready s1"
    by (rule rt_tick_increase_cur_ready [OF Suc.prems(2-6) s1(1)])
  have th1: "\<forall>m \<in> set (timer_list s1). \<exists>t. m = ThreadTimer t"
    using Suc.prems(6) by (simp add: s1(5))
  have lt: "int n < timer_key s1 (ThreadTimer t)" using Suc.prems(8) k by simp
  obtain s' where s': "ticks cb n s1 = Some s'" "core_inv s'" "timers_ahead s'" "cur_ready s'"
    "lock_nest s' = 0" "\<forall>m \<in> set (timer_list s'). \<exists>t. m = ThreadTimer t"
    "ThreadTimer t \<in> set (timer_list s')" "threads s' t = threads s1 t"
    "timer_key s' (ThreadTimer t) = timer_key s1 (ThreadTimer t) - int n"
    by (rule Suc.IH [OF _ s1(2,3) c1 s1(4) th1 tin lt])
  show ?case
    by (rule Suc.prems(1) [OF _ s'(2-7)]) (use s'(1,8,9) s1(1) e1 k in simp_all)
qed

lemma ticks_append: "ticks cb (m + n) s = ticks cb m s \<bind> ticks cb n"
proof (induction m arbitrary: s)
  case (Suc m)
  then show ?case by (cases "rt_tick_increase cb s") simp_all
qed simp

lemma ticks_wake:
  assumes "core_inv s" "timers_ahead s" "cur_ready s" "lock_nest s = 0"
    and "\<forall>m \<in> set (timer_list s). \<exists>t. m = ThreadTimer t"
    and "ThreadTimer t \<in> set (timer_list s)" "timer_key s (ThreadTimer t) = int (Suc n)"
  shows "\<exists>s'. ticks cb (Suc n) s = Some s' \<and> core_inv s' \<and> thread_stat s' t = RT_THREAD_READY \<and>
    th_error (threads s' t) = - RT_ETIMEOUT \<and> ThreadTimer t \<notin> set (timer_list s')"
proof -
  have lt: "int n < timer_key s (ThreadTimer t)" by (simp add: assms(7))
  obtain s1 where s1: "ticks cb n s = Some s1" "core_inv s1" "timers_ahead s1" "cur_ready s1"
    "lock_nest s1 = 0" "\<forall>m \<in> set (timer_list s1). \<exists>t. m = ThreadTimer t"
    "ThreadTimer t \<in> set (timer_list s1)" "threads s1 t = threads s t"
    "timer_key s1 (ThreadTimer t) = timer_key s (ThreadTimer t) - int n"
    by (rule ticks_asleep [OF assms(1-6) lt])
  obtain c where c: "current_thread s1 = Some c" "thread_stat s1 c = RT_THREAD_READY"
    using s1(4) by (auto simp: cur_ready_def)
  have tc: "t \<noteq> c" using core_invD(6) [OF s1(2,7)] c(2) by auto
  obtain s2 where s2: "rt_tick_increase cb s1 = Some s2" "core_inv s2"
      "timer_list s2 = filter (\<lambda>m. 1 < timer_key s1 m) (timer_list s1)"
    and th: "\<forall>t. t \<noteq> c \<longrightarrow> threads s2 t =
       (if ThreadTimer t \<in> set (timer_list s1) \<and> timer_key s1 (ThreadTimer t) \<le> 1
        then with_stat RT_THREAD_READY ((threads s1 t)\<lparr>th_error := - RT_ETIMEOUT\<rparr>)
        else threads s1 t)"
    using tick_step_thread_timers [OF s1(2,3) c(1) s1(5,6)] by blast
  have k: "timer_key s1 (ThreadTimer t) = 1" using s1(9) assms(7) by simp
  have "ticks cb (Suc n) s = Some s2"
    using ticks_append [of cb n 1 s] s1(1) s2(1) by simp
  moreover have "thread_stat s2 t = RT_THREAD_READY" "th_error (threads s2 t) = - RT_ETIMEOUT"
    using th tc k s1(7) by (simp_all add: thread_stat_def)
  moreover have "ThreadTimer t \<notin> set (timer_list s2)" by (simp add: s2(3) k)
  ultimately show ?thesis using s2(2) by blast
qed

section \<open>A periodic timer with period zero\<close>

text \<open>\<^verbatim>\<open>rt_timer_init\<close> and \<^verbatim>\<open>rt_timer_control\<close> accept a period of zero.  Such a timer is due
  again as soon as it was restarted, so the loop in the interrupt handler never ends.\<close>

definition stuck :: "tmid \<Rightarrow> kernel \<Rightarrow> bool" where
  "stuck m s \<longleftrightarrow> timer_list s = [m] \<and> (\<exists>f p. timeout_func (timers s m) = UserTimeout f p) \<and>
     rt_object_get_type (OTimer m) s = RT_Object_Class_Timer \<and>
     timer_flag s m AND RT_TIMER_FLAG_PERIODIC \<noteq> 0 \<and>
     timer_flag s m AND RT_TIMER_FLAG_ACTIVATED \<noteq> 0 \<and>
     init_tick (timers s m) = 0 \<and> timeout_tick (timers s m) = rt_tick s"

lemma stuck_step:
  assumes "stuck m s"
  shows "\<exists>s'. timer_expire cb_none m s = Some s' \<and> stuck m s'"
proof -
  obtain f p where f: "timeout_func (timers s m) = UserTimeout f p"
    using assms by (auto simp: stuck_def)
  define s1 where "s1 = set_timer_flag m (\<lambda>f. f AND NOT RT_TIMER_FLAG_ACTIVATED) (rt_timer_remove m s)"
  have sel: "timers s1 = timers s" "timer_list s1 = []" "rt_tick s1 = rt_tick s"
      "timer_flag s1 m AND RT_TIMER_FLAG_PERIODIC \<noteq> 0"
      "rt_object_get_type (OTimer m) s1 = RT_Object_Class_Timer"
    using assms by (simp_all add: s1_def stuck_def)
      (simp_all add: set_timer_flag_def upd_obj_def rt_object_get_type_def)
  have "init_tick (timers s1 m) < RT_TICK_MAX div 2"
    using assms by (simp add: sel stuck_def half_tick)
  then obtain s2 where s2: "rt_timer_start m s1 = Some (RT_EOK, s2)"
    using rt_timer_start_total [OF sel(5)] by blast
  note e = rt_timer_start_eq [OF s2] and fr = timer_frame_sel [OF rt_timer_start_eq(7) [OF s2]]
  have "timer_expire cb_none m s = Some s2"
    using assms f s2
    by (simp add: timer_expire_def Let_def run_timeout_def cb_none_def stuck_def s1_def)
  moreover have "stuck m s2"
    using assms f sel
    by (simp add: stuck_def e fr)
  ultimately show ?thesis by blast
qed

lemma stuck_diverges:
  assumes "stuck m s"
  shows "timer_check_loop cb_none (rt_tick s) s = None"
proof -
  have "\<not> (cb = cb_none \<and> now = rt_tick s \<and> stuck m s)"
    if "timer_check_loop cb now s = Some y" for cb now s y
  proof (rule timer_check_loop.raw_induct [where P = "\<lambda>cb now s y.
      \<not> (cb = cb_none \<and> now = rt_tick s \<and> stuck m s)", OF _ that])
    fix loop cb now s y
    assume 1: "\<And>cb now s y. loop cb now s = Some y \<Longrightarrow>
        \<not> (cb = cb_none \<and> now = rt_tick s \<and> stuck m s)"
      and 2: "(case timer_list s of [] \<Rightarrow> Some s
        | t # ts \<Rightarrow> if now - timeout_tick (timers s t) < RT_TICK_MAX div 2
            then timer_expire cb t s \<bind> (\<lambda>s. loop cb (rt_tick_get s) s) else Some s) = Some y"
    show "\<not> (cb = cb_none \<and> now = rt_tick s \<and> stuck m s)"
    proof
      assume a: "cb = cb_none \<and> now = rt_tick s \<and> stuck m s"
      then obtain s' where s': "timer_expire cb_none m s = Some s'" "stuck m s'"
        using stuck_step by blast
      have l: "timer_list s = [m]" "now - timeout_tick (timers s m) = 0"
        using a by (auto simp: stuck_def)
      then have "loop cb_none (rt_tick s') s' = Some y"
        using 2 a s'(1) by (simp add: half_tick rt_tick_get_def)
      then show False using 1 s'(2) by blast
    qed
  qed
  then show ?thesis using assms by (cases "timer_check_loop cb_none (rt_tick s) s") auto
qed

end
