(* ===== verification/Ipc.thy ===== *)
theory Ipc
  imports Clock
begin

text \<open>
  The part of \<^verbatim>\<open>src/ipc.c\<close> that all kinds of IPC objects share: threads queue up on an
  object in order of arrival or of priority, and are taken off the queue one at a time or
  all at once.
\<close>

section \<open>The routines\<close>

text \<open>The position of a thread in a queue ordered by priority: in front of the first thread
  of a strictly lower priority (a larger number).\<close>

fun prio_insert :: "(tid \<Rightarrow> u8) \<Rightarrow> tid \<Rightarrow> tid list \<Rightarrow> tid list" where
  "prio_insert pr t [] = [t]"
| "prio_insert pr t (u # us) = (if pr t < pr u then t # u # us else u # prio_insert pr t us)"

definition ipc_insert :: "u8 \<Rightarrow> (tid \<Rightarrow> u8) \<Rightarrow> tid \<Rightarrow> tid list \<Rightarrow> tid list" where
  "ipc_insert flag pr t us =
     (if flag = RT_IPC_FLAG_FIFO then us @ [t]
      else if flag = RT_IPC_FLAG_PRIO then prio_insert pr t us else us)"

text \<open>The object that a queue belongs to.\<close>

fun queue_object :: "ipcq \<Rightarrow> oref" where
  "queue_object (QSem n) = OSem n"
| "queue_object (QMutex n) = OMutex n"
| "queue_object (QEvent n) = OEvent n"
| "queue_object (QMailBox n) = OMailBox n"
| "queue_object (QMbSender n) = OMailBox n"
| "queue_object (QMessageQueue n) = OMessageQueue n"
| "queue_object (QMemPool n) = OMemPool n"

definition rt_ipc_object_init :: "ipcq \<Rightarrow> kernel \<Rightarrow> kernel" where
  "rt_ipc_object_init q s = s\<lparr>queues := (queues s)(Suspend q := [])\<rparr>"

text \<open>The thread is linked into the queue whatever \<^verbatim>\<open>rt_thread_suspend\<close> returned.  If it is still
  on a list, because it was not ready, the pointers of both lists are destroyed, and the model
  has no value.\<close>

definition linked :: "tid \<Rightarrow> kernel \<Rightarrow> bool" where
  "linked t s \<longleftrightarrow> (\<exists>h. t \<in> set (queues s h))"

definition rt_ipc_list_suspend :: "ipcq \<Rightarrow> tid \<Rightarrow> u8 \<Rightarrow> kernel \<Rightarrow> (rt_err_t \<times> kernel) option" where
  "rt_ipc_list_suspend q t flag s = do {
     (e, s) \<leftarrow> rt_thread_suspend t s;
     let us = ipc_insert flag (\<lambda>u. current_priority (threads s u)) t (queues s (Suspend q));
     (if linked t s then None else Some (RT_EOK, s\<lparr>queues := (queues s)(Suspend q := us)\<rparr>))
   }"

definition rt_ipc_list_resume :: "ipcq \<Rightarrow> kernel \<Rightarrow> (rt_err_t \<times> kernel) option" where
  "rt_ipc_list_resume q s =
     (case queues s (Suspend q) of
        [] \<Rightarrow> None
      | t # _ \<Rightarrow> do { (e, s) \<leftarrow> rt_thread_resume t s; Some (RT_EOK, s) })"

partial_function (option) rt_ipc_list_resume_all :: "ipcq \<Rightarrow> kernel \<Rightarrow> kernel option" where
  "rt_ipc_list_resume_all q s =
     (case queues s (Suspend q) of
        [] \<Rightarrow> Some s
      | t # _ \<Rightarrow> do {
          let s = upd_thread t (\<lambda>r. r\<lparr>th_error := - RT_ERROR\<rparr>) s;
          (e, s) \<leftarrow> rt_thread_resume t s;
          rt_ipc_list_resume_all q s
        })"

text \<open>The start of every blocking call: queue up, and start the timer if the caller waits for
  a limited time.  \<open>time\<close> is signed.\<close>

definition suspend_with_timer :: "tid \<Rightarrow> ipcq \<Rightarrow> u8 \<Rightarrow> u32 \<Rightarrow> kernel \<Rightarrow> kernel option" where
  "suspend_with_timer t q flag time s = do {
     (e, s) \<leftarrow> rt_ipc_list_suspend q t flag s;
     (if 0 < sint time then start_wait_timer t time s else Some s)
   }"

text \<open>What is left of a limited waiting time when the call has to wait once more: the ticks since
  \<open>start\<close> are taken off, in the arithmetic of the wrapping counter.\<close>

definition time_left :: "u32 \<Rightarrow> u32 \<Rightarrow> u32 \<Rightarrow> u32" where
  "time_left timeout start now =
     (if 0 < sint timeout then
        (let tick_delta = now - start; timeout = timeout - tick_delta
         in if sint timeout < 0 then 0 else timeout)
      else timeout)"

lemma time_left_pos:
  assumes "0 < sint timeout" "now = start + of_nat n" "n < 2 ^ 31"
  shows "sint (time_left timeout start now) = max 0 (sint timeout - int n)"
proof -
  have b: "sint timeout < 2 ^ 31" using sint_lt [of timeout] by simp
  have n: "sint (of_nat n :: u32) = int n"
    using assms(3) by (simp add: signed_of_nat signed_take_bit_int_eq_self)
  have "sint (timeout - of_nat n) = sint timeout - int n"
    using b assms(1,3) by (simp add: sint_word_ariths n signed_take_bit_int_eq_self)
  then show ?thesis using assms(1,2) by (auto simp: time_left_def Let_def)
qed

lemma time_left_forever: "sint timeout \<le> 0 \<Longrightarrow> time_left timeout start now = timeout"
  by (simp add: time_left_def)

lemma block_point_mono [partial_function_mono]:
  assumes "\<And>s. mono_option (\<lambda>f. A f s)"
  shows "mono_option (\<lambda>f. block_point t fr (A f) s)"
  unfolding block_point_def
  by (intro bind_mono call_mono if_mono option.const_mono assms)

section \<open>The order of the queues\<close>

lemma set_prio_insert [simp]: "set (prio_insert pr t us) = insert t (set us)"
  by (induction us) auto

lemma distinct_prio_insert: "distinct us \<Longrightarrow> t \<notin> set us \<Longrightarrow> distinct (prio_insert pr t us)"
  by (induction us) auto

text \<open>On a queue in order of priority, the thread goes behind those of its own or a higher
  priority and in front of those of a lower one.\<close>

lemma prio_insert_split:
  assumes "sorted_wrt (\<lambda>a b. pr a \<le> pr b) us"
  shows "prio_insert pr t us =
    filter (\<lambda>u. pr u \<le> pr t) us @ t # filter (\<lambda>u. pr t < pr u) us"
  using assms
proof (induction us)
  case (Cons u us)
  show ?case
  proof (cases "pr t < pr u")
    case True
    then have "\<forall>v \<in> set us. pr t < pr v" using Cons.prems by auto
    then have "filter (\<lambda>u. pr u \<le> pr t) us = []" "filter (\<lambda>u. pr t < pr u) us = us"
      by (auto simp: filter_empty_conv filter_id_conv)
    with True show ?thesis by simp
  next
    case False
    then show ?thesis using Cons by auto
  qed
qed simp

lemma sorted_prio_insert:
  assumes "sorted_wrt (\<lambda>a b. pr a \<le> pr b) us"
  shows "sorted_wrt (\<lambda>a b. pr a \<le> pr b) (prio_insert pr t us)"
  unfolding prio_insert_split [OF assms]
  using assms by (auto simp: sorted_wrt_append intro: sorted_wrt_filter)

text \<open>The loop of \<^verbatim>\<open>rt_ipc_list_suspend\<close> inserts in front of the node it stopped at, or at the
  end of the list: one of the two insertions of the list interface.\<close>

lemma prio_insert_as_list_op:
  "distinct us \<Longrightarrow> prio_insert pr t us =
     (case find (\<lambda>u. pr t < pr u) us of None \<Rightarrow> us @ [t] | Some u \<Rightarrow> insert_before u t us)"
proof (induction us)
  case (Cons u us)
  show ?case
  proof (cases "find (\<lambda>u. pr t < pr u) us")
    case (Some v)
    then have "v \<in> set us" by (auto simp: find_Some_iff)
    then have "u \<noteq> v" using Cons.prems by auto
    then show ?thesis using Cons Some by simp
  qed (use Cons in simp)
qed simp

lemma ipc_insert_set:
  assumes "flag = RT_IPC_FLAG_FIFO \<or> flag = RT_IPC_FLAG_PRIO"
  shows "set (ipc_insert flag pr t us) = insert t (set us)"
    and "distinct us \<Longrightarrow> t \<notin> set us \<Longrightarrow> distinct (ipc_insert flag pr t us)"
  using assms by (auto simp: ipc_insert_def distinct_prio_insert)

lemma q_ok_link:
  assumes q: "q_ok Q" and un: "\<forall>h. t \<notin> set (Q h)" and us: "distinct us" "set us = insert t (set (Q l))"
  shows "q_ok (Q(l := us))"
proof -
  have "h = h'" if "n \<in> set ((Q(l := us)) h)" "n \<in> set ((Q(l := us)) h')" for h h' n
  proof (cases "n = t")
    case True
    have "h = l" using that(1) un unfolding True by (cases "h = l") simp_all
    moreover have "h' = l" using that(2) un unfolding True by (cases "h' = l") simp_all
    ultimately show ?thesis by simp
  next
    case False
    have "n \<in> set (Q h)" using that(1) us(2) False by (cases "h = l") simp_all
    moreover have "n \<in> set (Q h')" using that(2) us(2) False by (cases "h' = l") simp_all
    ultimately show ?thesis by (rule q_okD(2) [OF q])
  qed
  moreover have "distinct ((Q(l := us)) h)" for h using q_okD(1) [OF q] us(1) by simp
  ultimately show ?thesis unfolding q_ok_def by blast
qed

section \<open>Queueing up\<close>

definition queued :: "tid \<Rightarrow> ipcq \<Rightarrow> u8 \<Rightarrow> kernel \<Rightarrow> kernel \<Rightarrow> bool" where
  "queued t q flag s s' \<longleftrightarrow> kframe s s' \<and>
     queues s' = (q_remove t (queues s))(Suspend q :=
       ipc_insert flag (\<lambda>u. current_priority (threads s u)) t (queues s (Suspend q))) \<and>
     threads s' = (threads s)(t := with_stat RT_THREAD_SUSPEND (threads s t))"

lemma queuedD:
  assumes "queued t q flag s s'"
  shows "kframe s s'" "queues s' = (q_remove t (queues s))(Suspend q :=
       ipc_insert flag (\<lambda>u. current_priority (threads s u)) t (queues s (Suspend q)))"
    "threads s' = (threads s)(t := with_stat RT_THREAD_SUSPEND (threads s t))"
    "thread_stat s' u = (if u = t then RT_THREAD_SUSPEND else thread_stat s u)"
  using assms by (simp_all add: queued_def thread_stat_def)

lemma rt_ipc_list_suspend_spec:
  assumes inv: "core_inv s" and t: "thread_stat s t = RT_THREAD_READY"
    and flag: "flag = RT_IPC_FLAG_FIFO \<or> flag = RT_IPC_FLAG_PRIO"
  shows "\<exists>s'. rt_ipc_list_suspend q t flag s = Some (RT_EOK, s') \<and> queued t q flag s s' \<and>
    core_inv s' \<and> timers s' = timers s \<and> timer_list s' = timer_list s"
proof -
  obtain s1 where s1: "rt_thread_suspend t s = Some (RT_EOK, s1)" "suspended t s s1" "core_inv s1"
    using rt_thread_suspend_spec [OF inv t] by blast
  note d = suspendedD [OF s1(2)]
  have tq: "t \<notin> set (queues s (Suspend q))"
    using t sched_okD(3) [OF core_invD(1) [OF inv], of t q] by (auto simp: thread_stat_def)
  have q1: "queues s1 (Suspend q) = queues s (Suspend q)" using tq by (simp add: d(2) q_remove_def)
  let ?us = "ipc_insert flag (\<lambda>u. current_priority (threads s u)) t (queues s (Suspend q))"
  let ?Q = "(queues s1)(Suspend q := ?us)"
  have pr: "(\<lambda>u. current_priority (threads s1 u)) = (\<lambda>u. current_priority (threads s u))"
    by (auto simp: d(3))
  have un: "\<forall>h. t \<notin> set (queues s1 h)" by (simp add: d(2) q_remove_def)
  have us: "distinct ?us" "set ?us = insert t (set (queues s1 (Suspend q)))"
    using ipc_insert_set [OF flag] tq q_okD(1) [OF sched_okD(1) [OF core_invD(1) [OF inv]]]
    by (simp_all add: q1)
  have ok: "q_ok ?Q" by (rule q_ok_link [OF sched_okD(1) [OF core_invD(1) [OF s1(3)]] un us])
  have "sched_ok ?Q (ready_group s1) (threads s1)"
    by (rule sched_ok_link [OF core_invD(1) [OF s1(3)] un ok, where h = "Suspend q"])
      (use ipc_insert_set(1) [OF flag] d(6) [of t] q1 in \<open>auto simp: thread_stat_def\<close>)
  then have "core_inv (s1\<lparr>queues := ?Q\<rparr>)" by (intro queues_core_inv s1(3)) simp
  moreover have "rt_ipc_list_suspend q t flag s = Some (RT_EOK, s1\<lparr>queues := ?Q\<rparr>)"
    using un by (simp add: rt_ipc_list_suspend_def s1(1) Let_def q1 pr linked_def)
  moreover have "queued t q flag s (s1\<lparr>queues := ?Q\<rparr>)"
    using kframe_trans [OF d(1) kframe_upd(2)] by (simp add: queued_def d(2,3))
  ultimately show ?thesis by (simp add: d(4,5))
qed

text \<open>The whole start of a blocking call.\<close>

lemma suspend_with_timer_spec:
  assumes inv: "core_inv s" and t: "thread_stat s t = RT_THREAD_READY"
    and flag: "flag = RT_IPC_FLAG_FIFO \<or> flag = RT_IPC_FLAG_PRIO"
    and time: "sint time \<noteq> 0x7fffffff"
  shows "\<exists>s'. suspend_with_timer t q flag time s = Some s' \<and> queued t q flag s s' \<and> core_inv s' \<and>
    (if 0 < sint time
     then set (timer_list s') = insert (ThreadTimer t) (set (timer_list s)) \<and>
          timer_key s' (ThreadTimer t) = sint time
     else timer_list s' = timer_list s) \<and>
    (\<forall>m. m \<noteq> ThreadTimer t \<longrightarrow> timer_key s' m = timer_key s m)"
proof -
  obtain s1 where s1: "rt_ipc_list_suspend q t flag s = Some (RT_EOK, s1)" "queued t q flag s s1"
      "core_inv s1" "timers s1 = timers s" "timer_list s1 = timer_list s"
    using rt_ipc_list_suspend_spec [OF inv t flag] by blast
  note d = queuedD [OF s1(2)]
  have key: "timer_key s1 = timer_key s"
    by (simp add: timer_key_def s1(4) kframe_sel [OF d(1)] fun_eq_iff)
  show ?thesis
  proof (cases "0 < sint time")
    case False
    then show ?thesis using s1 key by (simp add: suspend_with_timer_def)
  next
    case True
    have "sint time < 2 ^ 31" using sint_lt [of time] by simp
    then have ub: "sint time < 0x7fffffff" using time by simp
    have ut: "uint time = sint time"
      using True ub uint_sint [of time] by (simp add: take_bit_int_eq_self)
    then have "time < RT_TICK_MAX div 2" using ub by (simp add: half_tick word_less_def)
    moreover have "thread_stat s1 t = RT_THREAD_SUSPEND" by (simp add: d(4))
    ultimately obtain s2 where s2: "start_wait_timer t time s1 = Some s2" "timer_armed t time s1 s2"
        "core_inv s2"
      using start_wait_timer_spec [OF s1(3)] by blast
    note a = timer_armedD [OF s2(2)]
    have "suspend_with_timer t q flag time s = Some s2"
      using True s1(1) s2(1) by (simp add: suspend_with_timer_def)
    moreover have "queued t q flag s s2"
      using kframe_trans [OF d(1) a(1)] by (simp add: queued_def a(2,3) d(2,3))
    moreover have "int (unat time) = sint time" using ut by simp
    ultimately show ?thesis using True s2(3) a(4-6) s1(5) key by simp
  qed
qed

section \<open>Blocking\<close>

lemma block_point_spec:
  assumes inv: "core_inv s" and t: "thread_stat s t \<noteq> RT_THREAD_READY"
    and cur: "current_thread s = Some t" and lock: "lock_nest s = 0"
    and other: "thread_stat s u = RT_THREAD_READY"
  shows "\<exists>s'. block_point t fr after s = Some (Blocked, s') \<and> core_inv s' \<and> runs_highest s' \<and>
    current_thread s' \<noteq> Some t \<and> (\<exists>s1. sched_frame s s1 \<and> s' = set_frame t (Some fr) s1)"
proof -
  note sc = core_invD(1) [OF inv]
  have "queues s (Ready (unat (current_priority (threads s u)))) \<noteq> []"
    using sched_okD(2) [OF sc, of u] other by (force simp: thread_stat_def)
  then obtain s1 where s1: "rt_schedule s = Some s1"
    using rt_schedule_total [OF sc] cur by auto
  have f: "sched_frame s s1" using s1 by (rule rt_schedule_frame)
  have rh: "runs_highest s1" using s1 lock by (rule rt_schedule_runs_highest)
  have i1: "core_inv s1" using inv sched_frame_core_inv [OF f] by simp
  have "cur_ready s1" by (rule runs_highest_cur_ready [OF i1 rh])
  then have c: "current_thread s1 \<noteq> Some t"
    using t sched_frame_thread(1) [OF f, of t] by (auto simp: cur_ready_def)
  then have "block_point t fr after s = Some (Blocked, set_frame t (Some fr) s1)"
    by (simp add: block_point_def s1)
  moreover have "current_thread (set_frame t (Some fr) s1) = current_thread s1"
    by (simp add: set_frame_def)
  ultimately show ?thesis using f rh i1 c by auto
qed

text \<open>With the scheduler locked the rest of the call runs at once, although the thread is no
  longer ready.\<close>

lemma block_point_locked:
  "lock_nest s \<noteq> 0 \<Longrightarrow> current_thread s = Some t \<Longrightarrow> block_point t fr after s = after s"
  by (simp add: block_point_def rt_schedule_locked)

section \<open>Waking up\<close>

lemma rt_ipc_list_resume_spec:
  assumes inv: "core_inv s" and q: "queues s (Suspend q) = t # ts"
  shows "\<exists>s'. rt_ipc_list_resume q s = Some (RT_EOK, s') \<and> resumed t s s' \<and> core_inv s' \<and>
    queues s' (Suspend q) = ts \<and> (\<forall>q'. q' \<noteq> q \<longrightarrow> queues s' (Suspend q') = queues s (Suspend q'))"
proof -
  have t: "thread_stat s t = RT_THREAD_SUSPEND"
    using sched_okD(3) [OF core_invD(1) [OF inv], of t q] by (simp add: q thread_stat_def)
  obtain s1 where s1: "rt_thread_resume t s = Some (RT_EOK, s1)" "resumed t s s1" "core_inv s1"
    using rt_thread_resume_spec [OF inv t] by blast
  have u: "q_remove t (queues s) = (queues s)(Suspend q := ts)"
    by (rule aq.unlink_first [OF sched_okD(1) [OF core_invD(1) [OF inv]] q])
  show ?thesis
    using s1 by (simp add: rt_ipc_list_resume_def q resumedD(2) [OF s1(2)] u q_insert_tail_def)
qed

text \<open>The pattern of every routine that wakes a waiting thread: take the first one off the queue
  and schedule.\<close>

lemma wake_first_spec:
  assumes inv: "core_inv s" and q: "queues s (Suspend q) = t # ts" and cur: "current_thread s \<noteq> None"
  shows "\<exists>s1 s'. rt_ipc_list_resume q s = Some (RT_EOK, s1) \<and> rt_schedule s1 = Some s' \<and>
    resumed t s s1 \<and> sched_frame s1 s' \<and> core_inv s' \<and> queues s' (Suspend q) = ts \<and>
    (\<forall>q'. q' \<noteq> q \<longrightarrow> queues s' (Suspend q') = queues s (Suspend q')) \<and>
    (lock_nest s = 0 \<longrightarrow> runs_highest s')"
proof -
  obtain s1 where s1: "rt_ipc_list_resume q s = Some (RT_EOK, s1)" "resumed t s s1" "core_inv s1"
      "queues s1 (Suspend q) = ts" "\<forall>q'. q' \<noteq> q \<longrightarrow> queues s1 (Suspend q') = queues s (Suspend q')"
    using rt_ipc_list_resume_spec [OF inv q] by blast
  note d = resumedD [OF s1(2)]
  have "queues s1 (Ready (unat (current_priority (threads s t)))) \<noteq> []"
    by (simp add: d(2) q_insert_tail_def)
  then obtain s' where s': "rt_schedule s1 = Some s'"
    using rt_schedule_total [OF core_invD(1) [OF s1(3)]] cur by (metis kframe_sel(3) d(1))
  have "core_inv s'" using s1(3) rt_schedule_core_inv [OF s'] by simp
  moreover have "lock_nest s = 0 \<longrightarrow> runs_highest s'"
    using rt_schedule_runs_highest [OF s'] kframe_sel(1) [OF d(1)] by simp
  ultimately show ?thesis
    using s1 s' rt_schedule_frame [OF s'] by (simp add: rt_schedule_sel [OF s'])
qed

text \<open>What follows a store or a fetch: the first thread of the queue \<open>q\<close>, if any, is made ready.\<close>

definition served :: "ipcq \<Rightarrow> kernel \<Rightarrow> kernel \<Rightarrow> bool" where
  "served q s s' \<longleftrightarrow> core_inv s' \<and> mailboxes s' = mailboxes s \<and> mqs s' = mqs s \<and>
     objs s' (queue_object q) = objs s (queue_object q) \<and>
     queues s' (Suspend q) = tl (queues s (Suspend q)) \<and>
     (\<forall>q'. q' \<noteq> q \<longrightarrow> queues s' (Suspend q') = queues s (Suspend q')) \<and>
     (\<forall>t. thread_stat s' t = (if queues s (Suspend q) \<noteq> [] \<and> t = hd (queues s (Suspend q))
        then RT_THREAD_READY else thread_stat s t)) \<and>
     (queues s (Suspend q) = [] \<longrightarrow> s' = s) \<and>
     (queues s (Suspend q) \<noteq> [] \<longrightarrow> lock_nest s = 0 \<longrightarrow> runs_highest s')"

lemma served_core_inv: "served q s s' \<Longrightarrow> core_inv s'"
  by (simp add: served_def)

lemma serve_spec:
  assumes inv: "core_inv s" and cur: "current_thread s \<noteq> None"
  shows "\<exists>s'. (if queues s (Suspend q) \<noteq> [] then do {
      (e, s) \<leftarrow> rt_ipc_list_resume q s; s \<leftarrow> rt_schedule s; Some (r, s) }
    else Some (r, s)) = Some (r, s') \<and> served q s s'"
proof (cases "queues s (Suspend q)")
  case Nil
  then show ?thesis using inv by (simp add: served_def)
next
  case (Cons t ts)
  obtain s1 s' where s': "rt_ipc_list_resume q s = Some (RT_EOK, s1)" "rt_schedule s1 = Some s'"
      "resumed t s s1" "sched_frame s1 s'" "core_inv s'" "queues s' (Suspend q) = ts"
      "\<forall>q'. q' \<noteq> q \<longrightarrow> queues s' (Suspend q') = queues s (Suspend q')"
      "lock_nest s = 0 \<longrightarrow> runs_highest s'"
    using wake_first_spec [OF inv Cons cur] by blast
  note d = resumedD [OF s'(3)] and k = kframe_sel [OF resumedD(1) [OF s'(3)]]
  have "objs s' (queue_object q) = objs s (queue_object q)"
    using k(18) [of "queue_object q"] by (cases q) (simp_all add: sched_frame_sel [OF s'(4)])
  moreover have "thread_stat s' u = (if u = t then RT_THREAD_READY else thread_stat s u)" for u
    using d(6) [of u] by (simp add: sched_frame_thread [OF s'(4)])
  ultimately have "served q s s'"
    using s'(5-8) k by (simp add: served_def Cons sched_frame_sel [OF s'(4)])
  then show ?thesis using s'(1,2) Cons by (intro exI [of _ s']) simp
qed

text \<open>The pattern of every routine that waits: queue up, start the timer, and let another thread
  run.\<close>

definition waits :: "tid \<Rightarrow> ipcq \<Rightarrow> frame \<Rightarrow> kernel \<Rightarrow> kernel \<Rightarrow> bool" where
  "waits t q fr s s' \<longleftrightarrow> runs_highest s' \<and> current_thread s' \<noteq> Some t \<and>
     threads s' = (threads s)(t := with_stat RT_THREAD_SUSPEND (threads s t)) \<and>
     queues s' (Suspend q) =
       ipc_insert (oflag (objs s (queue_object q))) (\<lambda>u. current_priority (threads s u)) t (queues s (Suspend q)) \<and>
     (\<forall>q'. q' \<noteq> q \<longrightarrow> queues s' (Suspend q') = queues s (Suspend q')) \<and>
     frames s' = (frames s)(t := Some fr) \<and>
     (\<forall>x. (\<forall>m. x \<noteq> OTimer m) \<longrightarrow> objs s' x = objs s x) \<and>
     sems s' = sems s \<and> mutexes s' = mutexes s \<and> events s' = events s \<and>
     mailboxes s' = mailboxes s \<and> mqs s' = mqs s"

lemma waitsD:
  assumes "waits t q fr s s'"
  shows "runs_highest s'" "current_thread s' \<noteq> Some t"
    "threads s' = (threads s)(t := with_stat RT_THREAD_SUSPEND (threads s t))"
    "queues s' (Suspend q) =
       ipc_insert (oflag (objs s (queue_object q))) (\<lambda>u. current_priority (threads s u)) t (queues s (Suspend q))"
    "q' \<noteq> q \<Longrightarrow> queues s' (Suspend q') = queues s (Suspend q')"
    "frames s' = (frames s)(t := Some fr)" "(\<forall>m. x \<noteq> OTimer m) \<Longrightarrow> objs s' x = objs s x"
    "mailboxes s' = mailboxes s" "mqs s' = mqs s" "thread_stat s' t = RT_THREAD_SUSPEND"
  using assms by (simp_all add: waits_def thread_stat_def)

lemma wait_spec:
  assumes inv: "core_inv s" and t: "thread_stat s t = RT_THREAD_READY"
    and flag: "f = RT_IPC_FLAG_FIFO \<or> f = RT_IPC_FLAG_PRIO"
    and f: "f = oflag (objs s (queue_object q))"
    and cur: "current_thread s = Some t" and lock: "lock_nest s = 0"
    and other: "u \<noteq> t" "thread_stat s u = RT_THREAD_READY" and time: "sint time \<noteq> 0x7fffffff"
  shows "\<exists>s2 s'. suspend_with_timer t q f time s = Some s2 \<and>
    block_point t fr after s2 = Some (Blocked, s') \<and> core_inv s' \<and> waits t q fr s s'"
proof -
  obtain s2 where s2: "suspend_with_timer t q f time s = Some s2" "queued t q f s s2" "core_inv s2"
    using suspend_with_timer_spec [OF inv t flag time, of q] by blast
  note d = queuedD [OF s2(2)] and k = kframe_sel [OF queuedD(1) [OF s2(2)]]
  have nr: "thread_stat s2 t \<noteq> RT_THREAD_READY" and ur: "thread_stat s2 u = RT_THREAD_READY"
    using other by (simp_all add: d(4))
  have c2: "current_thread s2 = Some t" "lock_nest s2 = 0" using cur lock by (simp_all add: k)
  obtain s3 s' where s': "block_point t fr after s2 = Some (Blocked, s')" "core_inv s'"
      "runs_highest s'" "current_thread s' \<noteq> Some t"
    and fr: "sched_frame s2 s3" and eq: "s' = set_frame t (Some fr) s3"
    using block_point_spec [OF s2(3) nr c2 ur] by blast
  note g = sched_frame_sel [OF fr]
  have nq: "t \<notin> set (queues s (Suspend q'))" for q'
    using t sched_okD(3) [OF core_invD(1) [OF inv], of t q'] by (auto simp: thread_stat_def)
  have "waits t q fr s s'"
    using s'(3,4) g k nq d(2,3) f by (simp add: waits_def eq set_frame_def q_remove_def)
  then show ?thesis using s2(1) s'(1,2) by blast
qed

text \<open>Every waiting thread is released with the error \<open>- RT_ERROR\<close>, in the order of the queue.\<close>

definition flushed :: "tid list \<Rightarrow> kernel \<Rightarrow> kernel \<Rightarrow> bool" where
  "flushed ts s s' \<longleftrightarrow> kframe s s' \<and>
     (\<forall>t. threads s' t = (if t \<in> set ts
        then with_stat RT_THREAD_READY ((threads s t)\<lparr>th_error := - RT_ERROR\<rparr>) else threads s t)) \<and>
     timer_list s' = filter (\<lambda>m. m \<notin> ThreadTimer ` set ts) (timer_list s) \<and> timers s' = timers s \<and>
     (\<forall>p. queues s' (Ready p) =
        queues s (Ready p) @ filter (\<lambda>t. unat (current_priority (threads s t)) = p) ts)"

lemma flushedD:
  assumes "flushed ts s s'"
  shows "kframe s s'" "threads s' t = (if t \<in> set ts
        then with_stat RT_THREAD_READY ((threads s t)\<lparr>th_error := - RT_ERROR\<rparr>) else threads s t)"
    "timer_list s' = filter (\<lambda>m. m \<notin> ThreadTimer ` set ts) (timer_list s)" "timers s' = timers s"
    "queues s' (Ready p) =
        queues s (Ready p) @ filter (\<lambda>t. unat (current_priority (threads s t)) = p) ts"
    "thread_stat s' t = (if t \<in> set ts then RT_THREAD_READY else thread_stat s t)"
  using assms by (simp_all add: flushed_def thread_stat_def)

lemma flushed_Nil [simp]: "flushed [] s s"
  by (simp add: flushed_def)

lemma flushed_Cons:
  assumes r: "resumed t (upd_thread t (\<lambda>r. r\<lparr>th_error := - RT_ERROR\<rparr>) s) s1"
    and nr: "\<And>p. t \<notin> set (queues s (Ready p))" and t: "t \<notin> set ts" and f: "flushed ts s1 s'"
  shows "flushed (t # ts) s s'"
proof -
  note d = resumedD [OF r] and g = flushedD [OF f]
  have k: "kframe s s'"
    using kframe_trans [OF kframe_trans [OF kframe_upd(1) d(1)] g(1)] .
  have th1: "threads s1 = (threads s)(t := with_stat RT_THREAD_READY ((threads s t)\<lparr>th_error := - RT_ERROR\<rparr>))"
    by (simp add: d(3))
  have "threads s' u = (if u \<in> set (t # ts)
        then with_stat RT_THREAD_READY ((threads s u)\<lparr>th_error := - RT_ERROR\<rparr>) else threads s u)" for u
    using g(2) [of u] t by (simp add: th1)
  moreover have "timer_list s' = filter (\<lambda>m. m \<notin> ThreadTimer ` set (t # ts)) (timer_list s)"
    by (simp add: g(3) d(5) distinct_removeAll_eq_filter conj_commute)
  moreover have "queues s' (Ready p) =
        queues s (Ready p) @ filter (\<lambda>u. unat (current_priority (threads s u)) = p) (t # ts)" for p
  proof -
    have "filter (\<lambda>u. unat (current_priority (threads s1 u)) = p) ts =
        filter (\<lambda>u. unat (current_priority (threads s u)) = p) ts"
      using t by (intro filter_cong) (auto simp: th1)
    moreover have "queues s1 (Ready p) = queues s (Ready p) @
        (if unat (current_priority (threads s t)) = p then [t] else [])"
      using nr by (simp add: d(2) q_defs)
    ultimately show ?thesis using g(5) [of p] by simp
  qed
  ultimately show ?thesis using k by (simp add: flushed_def g(4) d(4))
qed

lemma rt_ipc_list_resume_all_spec:
  assumes "core_inv s" "queues s (Suspend q) = ts"
  shows "\<exists>s'. rt_ipc_list_resume_all q s = Some s' \<and> flushed ts s s' \<and> core_inv s' \<and>
    queues s' (Suspend q) = [] \<and>
    (\<forall>q'. q' \<noteq> q \<longrightarrow> queues s' (Suspend q') = queues s (Suspend q')) \<and> queues s' Defunct = queues s Defunct"
  using assms
proof (induction ts arbitrary: s)
  case Nil
  then show ?case by (subst rt_ipc_list_resume_all.simps) simp
next
  case (Cons t ts)
  note inv = Cons.prems(1) and q = Cons.prems(2)
  note sc = core_invD(1) [OF inv]
  have t: "thread_stat s t = RT_THREAD_SUSPEND"
    using sched_okD(3) [OF sc, of t q] by (simp add: q thread_stat_def)
  let ?s = "upd_thread t (\<lambda>r. r\<lparr>th_error := - RT_ERROR\<rparr>) s"
  have i: "core_inv ?s" by (rule upd_thread_cong_inv [OF inv]) simp_all
  have "thread_stat ?s t = RT_THREAD_SUSPEND" using t by (simp add: thread_stat_def tstat_def)
  then obtain s1 where s1: "rt_thread_resume t ?s = Some (RT_EOK, s1)" "resumed t ?s s1" "core_inv s1"
    using rt_thread_resume_spec [OF i] by blast
  have u: "q_remove t (queues s) = (queues s)(Suspend q := ts)"
    by (rule aq.unlink_first [OF sched_okD(1) [OF sc] q])
  have q1: "queues s1 (Suspend q) = ts"
      "\<forall>q'. q' \<noteq> q \<longrightarrow> queues s1 (Suspend q') = queues s (Suspend q')"
      "queues s1 Defunct = queues s Defunct"
    by (simp_all add: resumedD(2) [OF s1(2)] u q_insert_tail_def)
  obtain s' where s': "rt_ipc_list_resume_all q s1 = Some s'" "flushed ts s1 s'" "core_inv s'"
      "queues s' (Suspend q) = []"
      "\<forall>q'. q' \<noteq> q \<longrightarrow> queues s' (Suspend q') = queues s1 (Suspend q')"
      "queues s' Defunct = queues s1 Defunct"
    using Cons.IH [OF s1(3) q1(1)] by blast
  have "t \<notin> set ts" using q_okD(1) [OF sched_okD(1) [OF sc], of "Suspend q"] by (simp add: q)
  moreover have "t \<notin> set (queues s (Ready p))" for p
    using sched_okD(2) [OF sc, of t p] t by (simp add: thread_stat_def)
  ultimately have "flushed (t # ts) s s'" by (intro flushed_Cons [OF s1(2) _ _ s'(2)])
  moreover have "rt_ipc_list_resume_all q s = Some s'"
    using q s1(1) s'(1) by (subst rt_ipc_list_resume_all.simps) (simp add: Let_def)
  ultimately show ?case using s'(3-6) q1 by simp
qed

lemma core_inv_cong:
  assumes inv: "core_inv s" and f: "queues s' = queues s" "ready_group s' = ready_group s"
    "threads s' = threads s" "timers s' = timers s" "timer_list s' = timer_list s"
    "rt_tick s' = rt_tick s" "objs s' = objs s"
  shows "core_inv s'"
proof -
  have tf: "timer_flag s' = timer_flag s" by (simp add: timer_flag_def fun_eq_iff f)
  have "alive s' t = alive s t" for t
    by (simp add: alive_def is_thread_def rt_object_get_type_def rt_object_is_systemobject_def f tf)
  then show ?thesis
    using inv timer_inv_unlist [OF core_invD(2) [OF inv] f(4,5,6,7)]
    by (simp add: core_inv_def wakeups_ok_def alive_ok_def thread_stat_def f)
qed

text \<open>What an IPC object is besides its queue: creating and destroying one keeps the rest of
  the kernel as it is.\<close>

lemma ipc_object_init_inv:
  assumes inv: "core_inv s" and q: "queues s (Suspend q) = []"
  shows "rt_ipc_object_init q s = s"
proof -
  have "(queues s)(Suspend q := []) = queues s" using q by (auto simp: fun_eq_iff)
  then show ?thesis by (simp add: rt_ipc_object_init_def)
qed

lemma object_detach_core_inv:
  assumes inv: "core_inv s" and x: "\<forall>t. x \<noteq> OThread t" "\<forall>m. x \<noteq> OTimer m"
  shows "core_inv (rt_object_detach x s)"
proof -
  let ?s = "rt_object_detach x s"
  have ty: "rt_object_get_type y ?s = rt_object_get_type y s"
      "rt_object_is_systemobject y ?s = rt_object_is_systemobject y s" if "y \<noteq> x" for y
    using that by (simp_all add: rt_object_get_type_def rt_object_is_systemobject_def)
  have key: "timer_key ?s = timer_key s" by (simp add: timer_key_def fun_eq_iff)
  have ne: "OThread t \<noteq> x" "OTimer m \<noteq> x" for t m using x by auto
  have "alive ?s t = alive s t" for t
    by (simp add: alive_def is_thread_def ty ne)
  moreover have "timer_inv ?s"
    using core_invD(2) [OF inv] by (simp add: timer_inv_def key ty ne)
  ultimately show ?thesis
    using inv by (simp add: core_inv_def wakeups_ok_def alive_ok_def thread_stat_def)
qed

lemma object_init_core_inv:
  assumes inv: "core_inv s" and x: "\<forall>t. x \<noteq> OThread t" "\<forall>m. x \<noteq> OTimer m"
  shows "core_inv (s\<lparr>objs := (objs s)(x := r), container := c\<rparr>)"
proof -
  let ?s = "s\<lparr>objs := (objs s)(x := r), container := c\<rparr>"
  have ty: "objs ?s (OThread t) = objs s (OThread t)" "objs ?s (OTimer m) = objs s (OTimer m)" for t m
    using x by auto
  have key: "timer_key ?s = timer_key s" "timer_flag ?s = timer_flag s"
    using ty by (simp_all add: timer_key_def timer_flag_def fun_eq_iff)
  have "alive ?s t = alive s t" for t
    using ty key(2) by (simp add: alive_def is_thread_def rt_object_get_type_def
        rt_object_is_systemobject_def)
  moreover have "timer_inv ?s"
    using core_invD(2) [OF inv] ty key by (simp add: timer_inv_def rt_object_get_type_def)
  ultimately show ?thesis
    using inv by (simp add: core_inv_def wakeups_ok_def alive_ok_def thread_stat_def)
qed

end
