(* ===== verification/Semaphore.thy ===== *)
theory Semaphore
  imports Ipc
begin

text \<open>
  Semaphores, the first kind of IPC object of \<^verbatim>\<open>src/ipc.c\<close>.  \<open>sem_abs\<close> is what a client
  sees: the number of free tokens and the queue of waiting threads; \<open>sem_ok\<close> says that
  tokens and waiting threads exclude each other.
\<close>

section \<open>The routines\<close>

definition is_sem :: "nat \<Rightarrow> kernel \<Rightarrow> bool" where
  "is_sem n s \<longleftrightarrow> rt_object_get_type (OSem n) s = RT_Object_Class_Semaphore"

definition upd_sem :: "nat \<Rightarrow> (rt_semaphore \<Rightarrow> rt_semaphore) \<Rightarrow> kernel \<Rightarrow> kernel" where
  "upd_sem n f s = s\<lparr>sems := (sems s)(n := f (sems s n))\<rparr>"

definition rt_sem_init :: "nat \<Rightarrow> string \<Rightarrow> u32 \<Rightarrow> u8 \<Rightarrow> kernel \<Rightarrow> (rt_err_t \<times> kernel) option" where
  "rt_sem_init n name value flag s = do {
     RT_ASSERT (value < 0x10000);
     s \<leftarrow> rt_object_init (OSem n) RT_Object_Class_Semaphore name s;
     let s = rt_ipc_object_init (QSem n) s;
     let s = upd_sem n (\<lambda>r. r\<lparr>sem_value := ucast value\<rparr>) s;
     Some (RT_EOK, upd_obj (OSem n) (\<lambda>r. r\<lparr>oflag := flag\<rparr>) s)
   }"

definition rt_sem_detach :: "nat \<Rightarrow> kernel \<Rightarrow> (rt_err_t \<times> kernel) option" where
  "rt_sem_detach n s = do {
     RT_ASSERT (is_sem n s);
     RT_ASSERT (rt_object_is_systemobject (OSem n) s);
     s \<leftarrow> rt_ipc_list_resume_all (QSem n) s;
     Some (RT_EOK, rt_object_detach (OSem n) s)
   }"

definition rt_sem_create ::
  "oref option \<Rightarrow> string \<Rightarrow> u32 \<Rightarrow> u8 \<Rightarrow> kernel \<Rightarrow> (nat option \<times> kernel) option" where
  "rt_sem_create mem name value flag s = do {
     RT_DEBUG_NOT_IN_INTERRUPT s;
     RT_ASSERT (value < 0x10000);
     (x, s) \<leftarrow> rt_object_allocate mem RT_Object_Class_Semaphore name s;
     (case x of
        Some (OSem n) \<Rightarrow>
          let s = rt_ipc_object_init (QSem n) s;
              s = upd_sem n (\<lambda>r. r\<lparr>sem_value := ucast value\<rparr>) s
          in Some (Some n, upd_obj (OSem n) (\<lambda>r. r\<lparr>oflag := flag\<rparr>) s)
      | _ \<Rightarrow> Some (None, s))
   }"

definition rt_sem_delete :: "nat \<Rightarrow> kernel \<Rightarrow> (rt_err_t \<times> kernel) option" where
  "rt_sem_delete n s = do {
     RT_DEBUG_NOT_IN_INTERRUPT s;
     RT_ASSERT (is_sem n s);
     RT_ASSERT (\<not> rt_object_is_systemobject (OSem n) s);
     s \<leftarrow> rt_ipc_list_resume_all (QSem n) s;
     s \<leftarrow> rt_object_delete (OSem n) s;
     Some (RT_EOK, s)
   }"

text \<open>What \<^verbatim>\<open>rt_sem_take\<close> does after it was scheduled again.\<close>

definition rt_sem_take_wake :: "tid \<Rightarrow> kernel \<Rightarrow> (rt_err_t call \<times> kernel) option" where
  "rt_sem_take_wake t s =
     (if th_error (threads s t) \<noteq> RT_EOK then Some (Return (th_error (threads s t)), s)
      else Some (Return RT_EOK, s))"

definition rt_sem_take :: "nat \<Rightarrow> u32 \<Rightarrow> kernel \<Rightarrow> (rt_err_t call \<times> kernel) option" where
  "rt_sem_take n time s = do {
     RT_ASSERT (is_sem n s);
     (if 0 < sem_value (sems s n)
      then Some (Return RT_EOK, upd_sem n (\<lambda>r. r\<lparr>sem_value := sem_value r - 1\<rparr>) s)
      else if time = 0 then Some (Return (- RT_ETIMEOUT), s)
      else do {
        RT_DEBUG_IN_THREAD_CONTEXT s;
        t \<leftarrow> rt_thread_self s;
        let s = upd_thread t (\<lambda>r. r\<lparr>th_error := RT_EOK\<rparr>) s;
        s \<leftarrow> suspend_with_timer t (QSem n) (oflag (objs s (OSem n))) time s;
        block_point t (FSemTake n) (rt_sem_take_wake t) s
      })
   }"

definition rt_sem_trytake :: "nat \<Rightarrow> kernel \<Rightarrow> (rt_err_t call \<times> kernel) option" where
  "rt_sem_trytake n s = rt_sem_take n 0 s"

definition rt_sem_release :: "nat \<Rightarrow> kernel \<Rightarrow> (rt_err_t \<times> kernel) option" where
  "rt_sem_release n s = do {
     RT_ASSERT (is_sem n s);
     (need_schedule, s) \<leftarrow>
       (if queues s (Suspend (QSem n)) \<noteq> [] then do {
          (e, s) \<leftarrow> rt_ipc_list_resume (QSem n) s;
          Some (True, s)
        }
        else Some (False, upd_sem n (\<lambda>r. r\<lparr>sem_value := sem_value r + 1\<rparr>) s));
     s \<leftarrow> (if need_schedule then rt_schedule s else Some s);
     Some (RT_EOK, s)
   }"

definition rt_sem_control :: "nat \<Rightarrow> int \<Rightarrow> u32 \<Rightarrow> kernel \<Rightarrow> (rt_err_t \<times> kernel) option" where
  "rt_sem_control n cmd arg s = do {
     RT_ASSERT (is_sem n s);
     (if cmd = RT_IPC_CMD_RESET then do {
        s \<leftarrow> rt_ipc_list_resume_all (QSem n) s;
        let s = upd_sem n (\<lambda>r. r\<lparr>sem_value := ucast arg\<rparr>) s;
        s \<leftarrow> rt_schedule s;
        Some (RT_EOK, s)
      }
      else Some (- RT_ERROR, s))
   }"

section \<open>The client's view\<close>

definition sem_abs :: "nat \<Rightarrow> kernel \<Rightarrow> nat \<times> tid list" where
  "sem_abs n s = (unat (sem_value (sems s n)), queues s (Suspend (QSem n)))"

definition sem_ok :: "nat \<Rightarrow> kernel \<Rightarrow> bool" where
  "sem_ok n s \<longleftrightarrow> is_sem n s \<and> (0 < sem_value (sems s n) \<longrightarrow> queues s (Suspend (QSem n)) = []) \<and>
     (oflag (objs s (OSem n)) = RT_IPC_FLAG_FIFO \<or> oflag (objs s (OSem n)) = RT_IPC_FLAG_PRIO)"

definition sems_ok :: "kernel \<Rightarrow> bool" where
  "sems_ok s \<longleftrightarrow> (\<forall>n. is_sem n s \<longrightarrow> sem_ok n s)"

text \<open>A bounded counting semaphore with a queue.\<close>

definition abs_release :: "nat \<times> tid list \<Rightarrow> nat \<times> tid list" where
  "abs_release a = (case a of (v, []) \<Rightarrow> (v + 1, []) | (v, t # ts) \<Rightarrow> (v, ts))"

lemma upd_sem_sel [simp]:
  "sems (upd_sem n f s) = (sems s)(n := f (sems s n))" "queues (upd_sem n f s) = queues s"
  "threads (upd_sem n f s) = threads s" "objs (upd_sem n f s) = objs s"
  "ready_group (upd_sem n f s) = ready_group s" "timers (upd_sem n f s) = timers s"
  "timer_list (upd_sem n f s) = timer_list s" "rt_tick (upd_sem n f s) = rt_tick s"
  "container (upd_sem n f s) = container s" "current_thread (upd_sem n f s) = current_thread s"
  "lock_nest (upd_sem n f s) = lock_nest s" "irq_nest (upd_sem n f s) = irq_nest s"
  "frames (upd_sem n f s) = frames s" "mutexes (upd_sem n f s) = mutexes s"
  "events (upd_sem n f s) = events s" "mailboxes (upd_sem n f s) = mailboxes s"
  "mqs (upd_sem n f s) = mqs s"
  by (simp_all add: upd_sem_def)

lemma upd_sem_core_inv [simp]: "core_inv s \<Longrightarrow> core_inv (upd_sem n f s)"
  by (rule core_inv_cong) simp_all

lemma kframe_sem [simp]: "kframe s s' \<Longrightarrow> is_sem n s' = is_sem n s"
  by (simp add: is_sem_def kframe_sel)

section \<open>Taking\<close>

lemma sem_take_available:
  assumes "is_sem n s" "0 < sem_value (sems s n)" "core_inv s"
  shows "\<exists>s'. rt_sem_take n time s = Some (Return RT_EOK, s') \<and> core_inv s' \<and>
    sem_abs n s' = (fst (sem_abs n s) - 1, snd (sem_abs n s)) \<and>
    s' = upd_sem n (\<lambda>r. r\<lparr>sem_value := sem_value r - 1\<rparr>) s"
proof -
  have "unat (sem_value (sems s n) - 1) = unat (sem_value (sems s n)) - 1"
    using assms(2) by (metis unat_minus_one word_neq_0_conv)
  then show ?thesis using assms by (simp add: rt_sem_take_def sem_abs_def)
qed

lemma sem_take_timeout:
  "is_sem n s \<Longrightarrow> sem_value (sems s n) = 0 \<Longrightarrow>
   rt_sem_take n 0 s = Some (Return (- RT_ETIMEOUT), s)"
  by (simp add: rt_sem_take_def)

text \<open>A thread that finds no token queues up, and another thread runs.\<close>

lemma sem_take_blocks:
  assumes inv: "core_inv s" and ok: "sem_ok n s" and v: "sem_value (sems s n) = 0"
    and cur: "current_thread s = Some t" and t: "thread_stat s t = RT_THREAD_READY"
    and ctx: "lock_nest s = 0" "irq_nest s = 0"
    and other: "u \<noteq> t" "thread_stat s u = RT_THREAD_READY"
    and time: "time \<noteq> 0" "sint time \<noteq> 0x7fffffff"
  shows "\<exists>s'. rt_sem_take n time s = Some (Blocked, s') \<and> core_inv s' \<and> sem_ok n s' \<and>
    runs_highest s' \<and> current_thread s' \<noteq> Some t \<and> frames s' = (frames s)(t := Some (FSemTake n)) \<and>
    sem_abs n s' = (0, ipc_insert (oflag (objs s (OSem n)))
      (\<lambda>u. current_priority (threads s u)) t (snd (sem_abs n s))) \<and>
    thread_stat s' t = RT_THREAD_SUSPEND \<and> th_error (threads s' t) = RT_EOK \<and>
    (0 < sint time \<longrightarrow> ThreadTimer t \<in> set (timer_list s') \<and>
       timer_key s' (ThreadTimer t) = sint time) \<and>
    (\<not> 0 < sint time \<longrightarrow> timer_list s' = timer_list s)"
proof -
  let ?f = "oflag (objs s (OSem n))"
  define s1 where "s1 = upd_thread t (\<lambda>r. r\<lparr>th_error := RT_EOK\<rparr>) s"
  have i1: "core_inv s1" unfolding s1_def by (rule upd_thread_cong_inv [OF inv]) simp_all
  have t1: "thread_stat s1 t = RT_THREAD_READY" using t by (simp add: s1_def thread_stat_def tstat_def)
  have f: "?f = RT_IPC_FLAG_FIFO \<or> ?f = RT_IPC_FLAG_PRIO" using ok by (simp add: sem_ok_def)
  obtain s2 where s2: "suspend_with_timer t (QSem n) ?f time s1 = Some s2" "queued t (QSem n) ?f s1 s2"
      "core_inv s2"
    and tm: "if 0 < sint time
     then set (timer_list s2) = insert (ThreadTimer t) (set (timer_list s1)) \<and>
          timer_key s2 (ThreadTimer t) = sint time
     else timer_list s2 = timer_list s1"
    using suspend_with_timer_spec [OF i1 t1 f time(2), of "QSem n"] by blast
  note d = queuedD [OF s2(2)]
  have k: "kframe s s2" using kframe_trans [OF _ d(1)] by (simp add: s1_def)
  have nr: "thread_stat s2 t \<noteq> RT_THREAD_READY" by (simp add: d(4))
  have ur: "thread_stat s2 u = RT_THREAD_READY"
    using other by (simp add: d(4)) (simp add: s1_def thread_stat_def)
  have c2: "current_thread s2 = Some t" "lock_nest s2 = 0"
    using cur ctx by (simp_all add: kframe_sel [OF k])
  obtain s3 s' where s': "block_point t (FSemTake n) (rt_sem_take_wake t) s2 = Some (Blocked, s')"
      "core_inv s'" "runs_highest s'" "current_thread s' \<noteq> Some t"
    and fr: "sched_frame s2 s3" and eq: "s' = set_frame t (Some (FSemTake n)) s3"
    using block_point_spec [OF s2(3) nr c2 ur] by blast
  note g = sched_frame_sel [OF fr]
  have take: "rt_sem_take n time s = Some (Blocked, s')"
    using ok v time(1) cur ctx s2(1) s'(1)
    by (simp add: rt_sem_take_def sem_ok_def debug_defs rt_thread_self_def Let_def s1_def)
  have sel: "queues s' = queues s2" "threads s' = threads s2" "timer_list s' = timer_list s2"
      "sems s' = sems s" "frames s' = (frames s)(t := Some (FSemTake n))" "objs s' = objs s2"
    using g kframe_sel [OF k] by (simp_all add: eq set_frame_def)
  have key: "timer_key s' = timer_key s2"
    by (simp add: eq set_frame_def timer_key_def g fun_eq_iff)
  have "sem_ok n s'"
    using ok v kframe_sel(18) [OF k, of "OSem n"] kframe_sem [OF k, of n]
    by (simp add: sem_ok_def sel is_sem_def rt_object_get_type_def)
  moreover have "sem_abs n s' = (0, ipc_insert ?f (\<lambda>u. current_priority (threads s u)) t (snd (sem_abs n s)))"
    using v by (simp add: sem_abs_def sel d(2)) (simp add: s1_def, rule arg_cong [where f = "\<lambda>p. ipc_insert ?f p t _"], auto)
  moreover have "thread_stat s' t = RT_THREAD_SUSPEND" "th_error (threads s' t) = RT_EOK"
    using d(4) [of t] by (simp_all add: thread_stat_def sel d(3)) (simp add: s1_def)
  moreover have "0 < sint time \<longrightarrow> ThreadTimer t \<in> set (timer_list s') \<and>
       timer_key s' (ThreadTimer t) = sint time" "\<not> 0 < sint time \<longrightarrow> timer_list s' = timer_list s"
    using tm by (auto simp: sel key s1_def)
  ultimately show ?thesis using take s'(2-4) sel(5) by blast
qed

section \<open>Releasing\<close>

lemma sem_release_free:
  assumes "is_sem n s" "queues s (Suspend (QSem n)) = []"
  shows "rt_sem_release n s = Some (RT_EOK, upd_sem n (\<lambda>r. r\<lparr>sem_value := sem_value r + 1\<rparr>) s)"
  using assms by (simp add: rt_sem_release_def)

lemma sem_release_waiter:
  assumes inv: "core_inv s" and n: "is_sem n s" and q: "queues s (Suspend (QSem n)) = t # ts"
    and cur: "current_thread s \<noteq> None"
  shows "\<exists>s1 s'. rt_sem_release n s = Some (RT_EOK, s') \<and> resumed t s s1 \<and> sched_frame s1 s' \<and>
    core_inv s' \<and> queues s' (Suspend (QSem n)) = ts \<and> sems s' = sems s \<and>
    (lock_nest s = 0 \<longrightarrow> runs_highest s')"
proof -
  obtain s1 where s1: "rt_ipc_list_resume (QSem n) s = Some (RT_EOK, s1)" "resumed t s s1"
      "core_inv s1" "queues s1 (Suspend (QSem n)) = ts"
    using rt_ipc_list_resume_spec [OF inv q] by blast
  note d = resumedD [OF s1(2)]
  have "queues s1 (Ready (unat (current_priority (threads s t)))) \<noteq> []"
    by (simp add: d(2) q_insert_tail_def)
  then obtain s' where s': "rt_schedule s1 = Some s'"
    using rt_schedule_total [OF core_invD(1) [OF s1(3)]] cur by (metis kframe_sel(3) d(1))
  note g = rt_schedule_sel [OF s']
  have "rt_sem_release n s = Some (RT_EOK, s')"
    using n q s1(1) s' by (simp add: rt_sem_release_def)
  moreover have "core_inv s'" using s1(3) rt_schedule_core_inv [OF s'] by simp
  moreover have "lock_nest s = 0 \<longrightarrow> runs_highest s'"
    using rt_schedule_runs_highest [OF s'] kframe_sel(1) [OF d(1)] by simp
  ultimately show ?thesis
    using s1(2,4) rt_schedule_frame [OF s'] g kframe_sel(6) [OF d(1)]
    by (intro exI [of _ s1] exI [of _ s']) simp
qed

text \<open>Releasing is the step of the abstract semaphore, as long as the 16-bit counter does not
  wrap around.\<close>

lemma sem_release_refines:
  assumes inv: "core_inv s" and ok: "sem_ok n s" and cur: "current_thread s \<noteq> None"
    and v: "sem_value (sems s n) \<noteq> 0xFFFF"
  shows "\<exists>s'. rt_sem_release n s = Some (RT_EOK, s') \<and> core_inv s' \<and> sem_ok n s' \<and>
    sem_abs n s' = abs_release (sem_abs n s)"
proof (cases "queues s (Suspend (QSem n))")
  case Nil
  let ?s = "upd_sem n (\<lambda>r. r\<lparr>sem_value := sem_value r + 1\<rparr>) s"
  have "(- 1 :: u16) = 0xFFFF" by code_simp
  with v have "sem_value (sems s n) \<noteq> - 1" by metis
  then have "sem_value (sems s n) + 1 \<noteq> 0" by (metis add.commute add_eq_0_iff)
  then have "unat (sem_value (sems s n) + 1) = unat (sem_value (sems s n)) + 1"
    by (metis Suc_eq_plus1 add.commute unatSuc)
  then show ?thesis
    using ok inv Nil sem_release_free [of n s]
    by (auto simp: sem_ok_def sem_abs_def abs_release_def is_sem_def rt_object_get_type_def)
next
  case (Cons t ts)
  have n: "is_sem n s" using ok by (simp add: sem_ok_def)
  obtain s1 s' where s': "rt_sem_release n s = Some (RT_EOK, s')" "resumed t s s1" "sched_frame s1 s'"
      "core_inv s'" "queues s' (Suspend (QSem n)) = ts" "sems s' = sems s"
    using sem_release_waiter [OF inv n Cons cur] by blast
  have k: "kframe s s1" by (rule resumedD(1) [OF s'(2)])
  have "objs s' (OSem n) = objs s (OSem n)"
    using sched_frame_sel(5) [OF s'(3)] kframe_sel(18) [OF k, of "OSem n"] by simp
  then have "sem_ok n s'"
    using ok Cons s'(6) by (auto simp: sem_ok_def is_sem_def rt_object_get_type_def)
  then show ?thesis
    using s' Cons by (simp add: sem_abs_def abs_release_def)
qed

text \<open>The counter has no overflow check: a release at 65535 takes all tokens away.\<close>

lemma sem_release_wraps:
  assumes "is_sem n s" "queues s (Suspend (QSem n)) = []" "sem_value (sems s n) = 0xFFFF"
  shows "\<exists>s'. rt_sem_release n s = Some (RT_EOK, s') \<and> sem_value (sems s' n) = 0"
  using assms by (simp add: sem_release_free)

text \<open>With the scheduler locked a take that should block returns success without a token.\<close>

lemma sem_take_locked:
  assumes inv: "core_inv s" and ok: "sem_ok n s" and v: "sem_value (sems s n) = 0"
    and cur: "current_thread s = Some t" and t: "thread_stat s t = RT_THREAD_READY"
    and ctx: "lock_nest s \<noteq> 0" "irq_nest s = 0" and time: "time \<noteq> 0" "sint time \<noteq> 0x7fffffff"
  shows "\<exists>s'. rt_sem_take n time s = Some (Return RT_EOK, s') \<and> sem_value (sems s' n) = 0 \<and>
    t \<in> set (queues s' (Suspend (QSem n)))"
proof -
  let ?f = "oflag (objs s (OSem n))"
  define s1 where "s1 = upd_thread t (\<lambda>r. r\<lparr>th_error := RT_EOK\<rparr>) s"
  have i1: "core_inv s1" unfolding s1_def by (rule upd_thread_cong_inv [OF inv]) simp_all
  have t1: "thread_stat s1 t = RT_THREAD_READY" using t by (simp add: s1_def thread_stat_def tstat_def)
  have f: "?f = RT_IPC_FLAG_FIFO \<or> ?f = RT_IPC_FLAG_PRIO" using ok by (simp add: sem_ok_def)
  obtain s2 where s2: "suspend_with_timer t (QSem n) ?f time s1 = Some s2" "queued t (QSem n) ?f s1 s2"
    using suspend_with_timer_spec [OF i1 t1 f time(2), of "QSem n"] by blast
  note d = queuedD [OF s2(2)]
  have k: "kframe s s2" using kframe_trans [OF _ d(1)] by (simp add: s1_def)
  have c2: "lock_nest s2 \<noteq> 0" "current_thread s2 = Some t" "sems s2 = sems s"
    using cur ctx by (simp_all add: kframe_sel [OF k])
  have "th_error (threads s2 t) = RT_EOK" by (simp add: d(3)) (simp add: s1_def)
  then have "rt_sem_take n time s = Some (Return RT_EOK, s2)"
    using ok v time(1) cur ctx s2(1)
    by (simp add: rt_sem_take_def sem_ok_def debug_defs rt_thread_self_def Let_def s1_def
        rt_sem_take_wake_def block_point_locked [OF c2(1,2)])
  then show ?thesis using v ipc_insert_set(1) [OF f] by (simp add: d(2) c2(3))
qed

section \<open>Creating, resetting, destroying\<close>

lemma sem_init_spec:
  assumes inv: "core_inv s" and obj: "object_inv s" and q: "quiet s"
    and dead: "rt_object_get_type (OSem n) s = 0" and e: "queues s (Suspend (QSem n)) = []"
    and v: "value < 0x10000" and f: "flag = RT_IPC_FLAG_FIFO \<or> flag = RT_IPC_FLAG_PRIO"
  shows "\<exists>s'. rt_sem_init n name value flag s = Some (RT_EOK, s') \<and> core_inv s' \<and> object_inv s' \<and>
    sem_ok n s' \<and> sem_abs n s' = (unat value, [])"
proof -
  let ?C = RT_Object_Class_Semaphore
  have cls: "?C \<in> set object_classes" by (simp add: object_classes_def)
  obtain s1 where s1: "rt_object_init (OSem n) ?C name s = Some s1" "object_inv s1"
    "rt_object_get_type (OSem n) s1 = ?C"
    and e1: "s1 = s\<lparr>objs := (objs s)(OSem n := (objs s (OSem n))\<lparr>otype := ?C OR RT_Object_Class_Static,
             oname := take RT_NAME_MAX name\<rparr>), container := q_insert_head ?C (OSem n) (container s)\<rparr>"
    using object_init_spec [OF q obj cls dead] by blast
  let ?s2 = "upd_obj (OSem n) (\<lambda>r. r\<lparr>oflag := flag\<rparr>) (upd_sem n (\<lambda>r. r\<lparr>sem_value := ucast value\<rparr>) s1)"
  have i1: "core_inv s1" unfolding e1 by (rule object_init_core_inv [OF inv]) simp_all
  have q1: "queues s1 (Suspend (QSem n)) = []" using e by (simp add: e1)
  have "rt_sem_init n name value flag s = Some (RT_EOK, ?s2)"
    using v s1(1) by (simp add: rt_sem_init_def ipc_object_init_inv [OF i1 q1] Let_def)
  moreover have ty: "rt_object_get_type x ?s2 = rt_object_get_type x s1" for x
    by (simp add: rt_object_get_type_def upd_obj_def)
  moreover have "object_inv ?s2" using s1(2) by (simp add: object_inv_def ty) (simp add: upd_obj_def)
  moreover have "core_inv ?s2"
  proof -
    have "?s2 = (upd_sem n (\<lambda>r. r\<lparr>sem_value := ucast value\<rparr>) s1)\<lparr>objs := (objs s1)(OSem n :=
        (objs s1 (OSem n))\<lparr>oflag := flag\<rparr>), container := container s1\<rparr>"
      by (simp add: upd_obj_def upd_sem_def)
    also have "core_inv \<dots>"
      using object_init_core_inv [OF upd_sem_core_inv [OF i1], of "OSem n"] by simp
    finally show ?thesis .
  qed
  moreover have "unat (ucast value :: u16) = unat value"
    using v by (simp add: unsigned_ucast_eq take_bit_nat_eq_self word_less_nat_alt)
  then have "sem_abs n ?s2 = (unat value, [])"
    by (simp add: sem_abs_def upd_obj_def q1)
  moreover have "sem_ok n ?s2"
    using s1(3) f q1 by (simp add: sem_ok_def is_sem_def ty) (simp add: upd_obj_def)
  ultimately show ?thesis by blast
qed

text \<open>Detaching and resetting release every waiting thread with an error.\<close>

lemma sem_detach_spec:
  assumes inv: "core_inv s" and obj: "object_inv s" and n: "is_sem n s"
    and st: "rt_object_is_systemobject (OSem n) s"
  shows "\<exists>s1. rt_sem_detach n s = Some (RT_EOK, rt_object_detach (OSem n) s1) \<and>
    flushed (queues s (Suspend (QSem n))) s s1 \<and> queues s1 (Suspend (QSem n)) = [] \<and>
    core_inv (rt_object_detach (OSem n) s1) \<and> object_inv (rt_object_detach (OSem n) s1) \<and>
    \<not> is_sem n (rt_object_detach (OSem n) s1)"
proof -
  obtain s1 where s1: "rt_ipc_list_resume_all (QSem n) s = Some s1"
      "flushed (queues s (Suspend (QSem n))) s s1" "core_inv s1" "queues s1 (Suspend (QSem n)) = []"
    using rt_ipc_list_resume_all_spec [OF inv refl] by blast
  note k = flushedD(1) [OF s1(2)]
  have "rt_sem_detach n s = Some (RT_EOK, rt_object_detach (OSem n) s1)"
    using n st s1(1) by (simp add: rt_sem_detach_def)
  moreover have "object_inv s1"
    using obj by (simp add: object_inv_def kframe_sel [OF k])
  moreover have "core_inv (rt_object_detach (OSem n) s1)"
    by (rule object_detach_core_inv [OF s1(3)]) simp_all
  moreover have "\<not> is_sem n (rt_object_detach (OSem n) s1)"
    by (simp add: is_sem_def rt_object_get_type_def class_defs)
  ultimately show ?thesis using s1(2,4) object_detach_inv by blast
qed

lemma sem_reset_spec:
  assumes inv: "core_inv s" and ok: "sem_ok n s" and cur: "cur_ready s"
  shows "\<exists>s1 s'. rt_sem_control n RT_IPC_CMD_RESET arg s = Some (RT_EOK, s') \<and>
    flushed (queues s (Suspend (QSem n))) s s1 \<and> sched_frame (upd_sem n (\<lambda>r. r\<lparr>sem_value := ucast arg\<rparr>) s1) s' \<and>
    core_inv s' \<and> sem_ok n s' \<and> sem_abs n s' = (unat arg mod 2 ^ 16, [])"
proof -
  obtain s1 where s1: "rt_ipc_list_resume_all (QSem n) s = Some s1"
      "flushed (queues s (Suspend (QSem n))) s s1" "core_inv s1" "queues s1 (Suspend (QSem n)) = []"
    using rt_ipc_list_resume_all_spec [OF inv refl] by blast
  note f = flushedD [OF s1(2)] and k = flushedD(1) [OF s1(2)]
  let ?s2 = "upd_sem n (\<lambda>r. r\<lparr>sem_value := ucast arg\<rparr>) s1"
  obtain c where c: "current_thread s = Some c" "thread_stat s c = RT_THREAD_READY"
    using cur by (auto simp: cur_ready_def)
  let ?p = "unat (current_priority (threads s c))"
  have "queues s (Ready ?p) \<noteq> []"
    using sched_okD(2) [OF core_invD(1) [OF inv], of c ?p] c(2) by (force simp: thread_stat_def)
  then have "queues ?s2 (Ready ?p) \<noteq> []" by (simp add: f(5))
  then obtain s' where s': "rt_schedule ?s2 = Some s'"
    using rt_schedule_total [of ?s2 ?p] core_invD(1) [OF s1(3)] c(1) kframe_sel(3) [OF k] by auto
  note g = rt_schedule_sel [OF s']
  have "rt_sem_control n RT_IPC_CMD_RESET arg s = Some (RT_EOK, s')"
    using ok s1(1) s' by (simp add: rt_sem_control_def sem_ok_def Let_def)
  moreover have "core_inv s'" using s1(3) rt_schedule_core_inv [OF s'] by simp
  moreover have "objs s' (OSem n) = objs s (OSem n)"
    using kframe_sel(18) [OF k, of "OSem n"] by (simp add: g)
  then have "sem_ok n s'"
    using ok s1(4) by (simp add: sem_ok_def is_sem_def rt_object_get_type_def g)
  moreover have "sem_abs n s' = (unat arg mod 2 ^ 16, [])"
    using s1(4) by (simp add: sem_abs_def g unsigned_ucast_eq take_bit_eq_mod)
  ultimately show ?thesis using s1(2) rt_schedule_frame [OF s'] by blast
qed

end
