(* ===== verification/Demo.thy ===== *)
theory Demo
  imports Semaphore
begin

text \<open>
  A small running system, on which the properties are applied: the idle thread 0 (priority
  31), two threads 1 and 2 of priority 10, of which 1 runs, and a thread 3 of priority 5 that
  waits on the queue \<open>q\<close> of an IPC object with a time-out in five ticks.  Semaphore 0 has one
  token, the other IPC objects are idle.  In \<open>demo\<close> thread 3 waits for semaphore 1.
\<close>

definition demo_thread :: "u8 \<Rightarrow> u8 \<Rightarrow> rt_thread" where
  "demo_thread p st = \<lparr>th_error = 0, stat = st, current_priority = p, init_priority = p,
     number_mask = prio_mask p, event_set = 0, event_info = 0, th_init_tick = 20,
     remaining_tick = 1, cleanup = False\<rparr>"

definition demo_type :: "oref \<Rightarrow> u8" where
  "demo_type x = (case x of
     OThread t \<Rightarrow> if t < 4 then RT_Object_Class_Thread OR RT_Object_Class_Static else 0
   | OTimer m \<Rightarrow> (case m of
        ThreadTimer t \<Rightarrow> if t < 4 then RT_Object_Class_Timer OR RT_Object_Class_Static else 0
      | UserTimer k \<Rightarrow> 0)
   | OSem n \<Rightarrow> if n < 2 then RT_Object_Class_Semaphore OR RT_Object_Class_Static else 0
   | OMutex n \<Rightarrow> if n = 0 then RT_Object_Class_Mutex OR RT_Object_Class_Static else 0
   | OEvent n \<Rightarrow> if n = 0 then RT_Object_Class_Event OR RT_Object_Class_Static else 0
   | OMailBox n \<Rightarrow> if n = 0 then RT_Object_Class_MailBox OR RT_Object_Class_Static else 0
   | OMessageQueue n \<Rightarrow> if n = 0 then RT_Object_Class_MessageQueue OR RT_Object_Class_Static else 0
   | OMemPool n \<Rightarrow> if n = 0 then RT_Object_Class_MemPool OR RT_Object_Class_Static else 0)"

definition demo_queues :: "ipcq \<Rightarrow> (qhead, tid) queues" where
  "demo_queues q = (\<lambda>_. [])(Ready 10 := [1, 2], Ready 31 := [0], Suspend q := [3])"

fun demo_frame :: "ipcq \<Rightarrow> frame" where
  "demo_frame (QSem n) = FSemTake n"
| "demo_frame (QMutex n) = FMutexTake n 5"
| "demo_frame (QEvent n) = FEventRecv n"
| "demo_frame (QMailBox n) = FMbRecv n 5 0"
| "demo_frame (QMbSender n) = FMbSend n 7 5 0"
| "demo_frame (QMessageQueue n) = FMqRecv n 4 5 0"
| "demo_frame (QMemPool n) = FMpAlloc n 5 0"

definition demo_threads :: "tid \<Rightarrow> rt_thread" where
  "demo_threads = (threads zero_kernel)(
     0 := demo_thread 31 RT_THREAD_READY, 1 := demo_thread 10 RT_THREAD_READY,
     2 := demo_thread 10 RT_THREAD_READY, 3 := demo_thread 5 RT_THREAD_SUSPEND)"

definition demo_container :: "u8 \<Rightarrow> oref list" where
  "demo_container = (\<lambda>_. [])(
     RT_Object_Class_Thread := [OThread 3, OThread 2, OThread 1, OThread 0],
     RT_Object_Class_Timer := [OTimer (ThreadTimer 3), OTimer (ThreadTimer 2),
       OTimer (ThreadTimer 1), OTimer (ThreadTimer 0)],
     RT_Object_Class_Semaphore := [OSem 1, OSem 0], RT_Object_Class_Mutex := [OMutex 0],
     RT_Object_Class_Event := [OEvent 0], RT_Object_Class_MailBox := [OMailBox 0],
     RT_Object_Class_MessageQueue := [OMessageQueue 0], RT_Object_Class_MemPool := [OMemPool 0])"

definition demo_on :: "ipcq \<Rightarrow> kernel" where
  "demo_on q = zero_kernel\<lparr>
     current_thread := Some 1, cpu := Some 1, cur_priority := 10,
     ready_group := prio_mask 10 OR prio_mask 31, queues := demo_queues q,
     threads := demo_threads,
     objs := (\<lambda>x. \<lparr>oname = (if x = OThread 1 then ''main'' else ''''), otype = demo_type x,
       oflag = (if x = OTimer (ThreadTimer 3) then RT_TIMER_FLAG_ACTIVATED else 0)\<rparr>),
     container := demo_container,
     timers := (\<lambda>m. case m of
         ThreadTimer t \<Rightarrow> \<lparr>timeout_func = ThreadTimeout t, init_tick = 5, timeout_tick = 5\<rparr>
       | UserTimer k \<Rightarrow> \<lparr>timeout_func = UserTimeout k 0, init_tick = 0, timeout_tick = 0\<rparr>),
     timer_list := [ThreadTimer 3],
     sems := (sems zero_kernel)(0 := \<lparr>sem_value = 1\<rparr>),
     mutexes := (mutexes zero_kernel)(0 := \<lparr>mutex_value = 1, original_priority = 0xff, hold = 0,
       owner = None\<rparr>),
     mailboxes := (mailboxes zero_kernel)(0 := (mailboxes zero_kernel 0)\<lparr>mb_size := 4\<rparr>),
     frames := (\<lambda>_. None)(3 := Some (demo_frame q))\<rparr>"

abbreviation demo :: kernel where "demo \<equiv> demo_on (QSem 1)"

lemma demo_sel [simp]:
  "current_thread (demo_on q) = Some 1" "queues (demo_on q) = demo_queues q" "threads (demo_on q) = demo_threads"
  "lock_nest (demo_on q) = 0" "irq_nest (demo_on q) = 0" "rt_tick (demo_on q) = 0" "timer_list (demo_on q) = [ThreadTimer 3]"
  "sem_value (sems (demo_on q) 0) = 1" "sem_value (sems (demo_on q) 1) = 0"
  "sem_value (sems (demo_on q) (Suc 0)) = 0"
  by (simp_all add: demo_on_def zero_kernel_def)

lemma demo_queues_sel [simp]:
  "demo_queues q (Ready 10) = [1, 2]" "demo_queues q (Ready 31) = [0]"
  "demo_queues q (Suspend q) = [3]" "q' \<noteq> q \<Longrightarrow> demo_queues q (Suspend q') = []"
  "demo_queues q Defunct = []"
  by (simp_all add: demo_queues_def)

lemma demo_thread_sel [simp]:
  "tstat (demo_thread p RT_THREAD_READY) = RT_THREAD_READY"
  "tstat (demo_thread p RT_THREAD_SUSPEND) = RT_THREAD_SUSPEND"
  "current_priority (demo_thread p st) = p" "init_priority (demo_thread p st) = p"
  "number_mask (demo_thread p st) = prio_mask p" "remaining_tick (demo_thread p st) = 1"
  "th_init_tick (demo_thread p st) = 20" "th_error (demo_thread p st) = 0"
  by (simp_all add: demo_thread_def tstat_def stat_defs)

lemma demo_thread_ok:
  "unat p < 32 \<Longrightarrow> thread_ok (demo_thread p st)"
  by (simp add: thread_ok_def RT_THREAD_PRIORITY_MAX_def)

lemma demo_threads_sel [simp]:
  "demo_threads 0 = demo_thread 31 RT_THREAD_READY" "demo_threads 1 = demo_thread 10 RT_THREAD_READY"
  "demo_threads (Suc 0) = demo_thread 10 RT_THREAD_READY"
  "demo_threads 2 = demo_thread 10 RT_THREAD_READY" "demo_threads 3 = demo_thread 5 RT_THREAD_SUSPEND"
  by (simp_all add: demo_threads_def)

lemma demo_stat:
  "tstat (demo_threads t) = (if t < 3 then RT_THREAD_READY
     else if t = 3 then RT_THREAD_SUSPEND else RT_THREAD_INIT)"
proof -
  have "t = 0 \<or> t = 1 \<or> t = 2 \<or> t = 3 \<or> 3 < t" by linarith
  then show ?thesis by (auto simp: demo_threads_def)
qed

lemma demo_mem:
  "t \<in> set (demo_queues q h) \<longleftrightarrow> h = Ready 10 \<and> (t = 1 \<or> t = 2) \<or> h = Ready 31 \<and> t = 0 \<or>
     h = Suspend q \<and> t = 3"
  by (auto simp: demo_queues_def)

lemma demo_on_sched: "sched_inv (demo_on q)"
proof -
  have "q_ok (demo_queues q)"
    unfolding q_ok_def by (auto simp: demo_mem) (auto simp: demo_queues_def)
  moreover have "t \<in> set (demo_queues q (Ready p)) \<longleftrightarrow>
      tstat (demo_threads t) = RT_THREAD_READY \<and> unat (current_priority (demo_threads t)) = p" for t p
  proof -
    have "t = 0 \<or> t = 1 \<or> t = 2 \<or> 3 \<le> t" by linarith
    then show ?thesis by (auto simp: demo_mem demo_stat)
  qed
  moreover have "thread_ok (demo_threads t)" for t
    by (simp add: demo_threads_def demo_thread_ok)
  moreover have "bit (prio_mask 10 OR prio_mask 31) p \<longleftrightarrow> demo_queues q (Ready p) \<noteq> []" for p
    by (auto simp: bit_or_iff bit_prio_mask demo_queues_def)
  moreover have "ready_group (demo_on q) = prio_mask 10 OR prio_mask 31" by (simp add: demo_on_def)
  ultimately show ?thesis
    by (simp add: sched_ok_def demo_mem demo_stat)
qed

lemma demo_on_types:
  "rt_object_get_type x (demo_on q) = demo_type x AND NOT RT_Object_Class_Static"
  "rt_object_is_systemobject x (demo_on q) \<longleftrightarrow> demo_type x AND RT_Object_Class_Static \<noteq> 0"
  by (simp_all add: rt_object_get_type_def rt_object_is_systemobject_def demo_on_def)

lemma demo_on_timer:
  "timeout_func (timers (demo_on q) (ThreadTimer t)) = ThreadTimeout t"
  "timeout_func (timers (demo_on q) (UserTimer k)) = UserTimeout k 0"
  "timer_flag (demo_on q) m = (if m = ThreadTimer 3 then RT_TIMER_FLAG_ACTIVATED else 0)"
  "timer_key (demo_on q) (ThreadTimer t) = 5"
  by (simp_all add: demo_on_def zero_kernel_def timer_flag_def timer_key_def tick_key_def)

lemma demo_on_core: "core_inv (demo_on q)"
proof -
  have al: "alive (demo_on q) t" if "t < 4" for t
    using that by (simp add: alive_def is_thread_def demo_on_types demo_type_def demo_on_timer class_defs
        tflag_defs)
  have "thread_stat (demo_on q) t = RT_THREAD_READY \<or> thread_stat (demo_on q) t = RT_THREAD_SUSPEND \<Longrightarrow> t < 4" for t
    by (auto simp: thread_stat_def demo_stat split: if_splits)
  then have "alive_ok (demo_on q)" using al by (auto simp: alive_ok_def)
  moreover have "wakeups_ok (demo_on q)"
  proof -
    have "m = ThreadTimer t" if "timeout_func (timers (demo_on q) m) = ThreadTimeout t" for m t
      using that by (cases m) (simp_all add: demo_on_timer)
    then show ?thesis by (simp add: wakeups_ok_def thread_stat_def demo_stat)
  qed
  moreover have "timer_inv (demo_on q)"
    by (simp add: timer_inv_def demo_on_timer in_window_def demo_on_types demo_type_def)
      (simp add: class_defs tflag_defs)
  ultimately show ?thesis using demo_on_sched by (simp add: core_inv_def)
qed

lemma demo_on_highest: "runs_highest (demo_on q)"
proof -
  have "highest_ready (demo_on q) = Some (int 10, 1)"
    unfolding highest_ready_iff [OF demo_on_sched] by (auto simp: demo_queues_def)
  then show ?thesis by (auto simp: runs_highest_def)
qed

lemma demo_on_quiet: "quiet (demo_on q)"
  by (simp add: quiet_def demo_on_highest)

lemma demo_on_cur_ready: "cur_ready (demo_on q)"
  by (simp add: cur_ready_def thread_stat_def demo_stat)

lemma demo_on_ahead: "timers_ahead (demo_on q)"
  by (simp add: timers_ahead_def demo_on_timer)

lemma demo_on_object: "object_inv (demo_on q)"
proof -
  have c: "container (demo_on q) = demo_container" by (simp add: demo_on_def)
  have less: "t < 4 \<longleftrightarrow> t = 3 \<or> t = 2 \<or> t = 1 \<or> t = 0" "t < 2 \<longleftrightarrow> t = 1 \<or> t = 0" for t :: nat
    by auto
  note defs = demo_container_def demo_type_def class_defs less
  have mem: "x \<in> set (demo_container c) \<longleftrightarrow> c \<noteq> 0 \<and> demo_type x AND NOT RT_Object_Class_Static = c" for c x
  proof (cases x)
    case (OTimer m)
    then show ?thesis by (cases m) (auto simp: defs)
  qed (auto simp: defs)
  moreover have "distinct (demo_container c)" for c
    by (simp add: demo_container_def)
  ultimately have "q_ok demo_container" by (auto simp: q_ok_def)
  then show ?thesis by (simp add: object_inv_def c mem demo_on_types)
qed

lemma demo_on_sem: "sem_ok 0 (demo_on (QSem 1))" "sem_ok 1 (demo_on q)"
  by (simp_all add: sem_ok_def is_sem_def demo_on_types demo_type_def class_defs)
    (simp_all add: demo_on_def RT_IPC_FLAG_FIFO_def zero_kernel_def)

lemma demo_on_periodic: "timer_flag (demo_on q) m AND RT_TIMER_FLAG_PERIODIC = 0"
  by (simp add: demo_on_timer tflag_defs)

text \<open>The same for \<open>demo\<close>.\<close>

lemmas demo_sched = demo_on_sched [where q = "QSem 1"]
lemmas demo_types = demo_on_types
lemmas demo_timer = demo_on_timer
lemmas demo_core = demo_on_core [where q = "QSem 1"]
lemmas demo_highest = demo_on_highest [where q = "QSem 1"]
lemmas demo_quiet = demo_on_quiet [where q = "QSem 1"]
lemmas demo_cur_ready = demo_on_cur_ready [where q = "QSem 1"]
lemmas demo_ahead = demo_on_ahead [where q = "QSem 1"]
lemmas demo_object = demo_on_object [where q = "QSem 1"]
lemmas demo_periodic = demo_on_periodic [where q = "QSem 1"]
lemmas demo_sem = demo_on_sem(1) demo_on_sem(2) [where q = "QSem 1"]

end
