(* ===== verification/Kernel_Props.thy ===== *)
theory Kernel_Props
  imports Demo
begin

text \<open>
  The properties of lists, scheduler, timers, threads, clock and semaphores.  Each is stated
  over the routines of the model and followed, where it has hypotheses, by an application to
  the system of theory \<open>Demo\<close>.
\<close>

section \<open>Lists\<close>

text \<open>C10: The pointer routines of \<^verbatim>\<open>include/rtservice.h\<close> implement lists of nodes.  On a heap
  that represents a family of disjoint lists, inserting an unlinked node at the end, at the
  front or before a member, and unlinking any node, give heaps that represent the families
  with the corresponding list operations applied; a traversal visits the list in order and
  \<^verbatim>\<open>rt_list_len\<close> returns its length.\<close>

theorem list_ops_refine:
  assumes "repr h Q" "\<forall>l. n \<notin> set (Q l)" "m \<in> set (Q k)"
  shows "repr (rt_list_insert_before (Head l) (Node n) h) (q_insert_tail l n Q) \<and>
    repr (rt_list_insert_after (Head l) (Node n) h) (q_insert_head l n Q) \<and>
    repr (rt_list_insert_before (Node m) (Node n) h) (q_insert_before m n Q) \<and>
    repr (rt_list_remove (Node m) h) (q_remove m Q) \<and>
    rt_list_for_each (Head l) h = Some (map Node (Q l)) \<and>
    rt_list_len (Head l) h = Some (of_nat (length (Q l))) \<and>
    (rt_list_isempty (Head l) h \<longleftrightarrow> Q l = [])"
  using repr_insert_tail [OF assms(1,2)] repr_insert_head [OF assms(1,2)]
    repr_insert_before [OF assms] repr_remove [OF assms(1)]
    rt_list_for_each_dll [OF reprD(2) [OF assms(1)]] rt_list_len_dll [OF reprD(2) [OF assms(1)]]
    dll_isempty [OF reprD(2) [OF assms(1)]]
  by simp

text \<open>A heap with one list, to which two nodes are appended.\<close>

definition heap0 :: "(nat, nat) lnode links" where
  "heap0 = \<lparr>lnext = id, lprev = id\<rparr>"

lemma heap0_repr: "repr heap0 (\<lambda>_. [])"
  by (simp add: repr_def q_ok_def dll_def unlinked_def heap0_def)

theorem list_ops_refine_witness:
  "repr (rt_list_insert_before (Head 0) (Node 8)
      (rt_list_insert_before (Head 0) (Node 7) heap0)) ((\<lambda>_. [])(0 := [7, 8]))"
proof -
  have r: "repr (rt_list_insert_before (Head 0) (Node 7) heap0) ((\<lambda>_. [])(0 := [7]))"
    using repr_insert_tail [OF heap0_repr, of 7 0] by (simp add: q_insert_tail_def)
  show ?thesis
    using list_ops_refine [OF r, of 8 7 0 0] by (simp add: q_insert_tail_def)
qed

section \<open>Scheduler\<close>

text \<open>C11: \<^verbatim>\<open>__rt_ffs\<close> returns 0 for 0 and otherwise one plus the number of the lowest bit that
  is set, for every 32-bit word.\<close>

theorem ffs_correct:
  "rt_ffs v = (if v = 0 then 0 else int (LEAST n. bit v n) + 1)"
proof (cases "v = 0")
  case False
  then obtain n where n: "rt_ffs v = int n + 1" "bit v n" "\<forall>i<n. \<not> bit v i"
    using rt_ffs_lowest by blast
  have "(LEAST n. bit v n) = n"
    by (rule Least_equality) (use n(2,3) not_le_imp_less in blast)+
  with n(1) False show ?thesis by simp
qed (simp add: rt_ffs_def)

text \<open>C1: Scheduling.  When the scheduler runs unlocked and some thread is ready, it returns
  with the first thread of the highest ready priority as the current thread; no ready
  thread has a higher priority, and nothing but the choice of the thread has changed.\<close>

theorem schedule_runs_highest:
  assumes "core_inv s" "lock_nest s = 0" "current_thread s \<noteq> None" "queues s (Ready q) \<noteq> []"
  shows "\<exists>s' t ts. rt_schedule s = Some s' \<and> current_thread s' = Some t \<and>
    queues s (Ready (unat (current_priority (threads s t)))) = t # ts \<and>
    (\<forall>u. thread_stat s u = RT_THREAD_READY \<longrightarrow>
       current_priority (threads s t) \<le> current_priority (threads s u)) \<and>
    sched_frame s s' \<and> core_inv s'"
proof -
  obtain s' where s': "rt_schedule s = Some s'"
    using rt_schedule_total [OF core_invD(1) [OF assms(1)] assms(4,3)] by blast
  have f: "sched_frame s s'" using s' by (rule rt_schedule_frame)
  have i: "core_inv s'" using assms(1) rt_schedule_core_inv [OF s'] by simp
  from runs_highestD [OF core_invD(1) [OF i] rt_schedule_runs_highest [OF s' assms(2)]]
  obtain t ts where "current_thread s' = Some t"
    "queues s' (Ready (unat (current_priority (threads s' t)))) = t # ts"
    "\<And>u. thread_stat s' u = RT_THREAD_READY \<Longrightarrow>
       current_priority (threads s' t) \<le> current_priority (threads s' u)" by metis
  then show ?thesis
    using s' f i sched_frame_sel [OF f] sched_frame_thread(1) [OF f] by auto
qed

theorem schedule_runs_highest_witness:
  "\<exists>s'. rt_schedule demo = Some s' \<and> core_inv s'"
proof -
  have "queues demo (Ready 31) \<noteq> []" by simp
  from schedule_runs_highest [OF demo_core _ _ this] show ?thesis by auto
qed

text \<open>Round robin.  When the running thread yields, it goes to the end of the ready list of
  its priority and the next thread of that list runs; a thread that is alone in its list goes
  on running.\<close>

theorem yield_round_robin:
  assumes "core_inv s" "runs_highest s" "lock_nest s = 0" "current_thread s = Some t"
    and "queues s (Ready (unat (current_priority (threads s t)))) = t # ts"
  shows "\<exists>s'. rt_thread_yield s = Some (RT_EOK, s') \<and> core_inv s' \<and> runs_highest s' \<and>
    current_thread s' = Some (hd (ts @ [t])) \<and> threads s' = threads s \<and>
    queues s' = (queues s)(Ready (unat (current_priority (threads s t))) := ts @ [t])"
  by (rule rt_thread_yield_spec [OF assms])

theorem yield_round_robin_witness:
  "\<exists>s'. rt_thread_yield demo = Some (RT_EOK, s') \<and> current_thread s' = Some 2 \<and>
     queues s' (Ready 10) = [2, 1]"
  using yield_round_robin [OF demo_core demo_highest, of 1 "[2]"] by auto

section \<open>Timers\<close>

text \<open>C7: \<^verbatim>\<open>rt_timer_start\<close> puts the timer behind all timers that expire no later and in front of
  all that expire later, in the order of the wrapping tick counter, for any length up to half
  the range of the counter; the list stays sorted.\<close>

theorem timer_start_sorted:
  assumes "core_inv s" "rt_object_get_type (OTimer m) s = RT_Object_Class_Timer"
    and "init_tick (timers s m) < RT_TICK_MAX div 2"
  shows "\<exists>s'. rt_timer_start m s = Some (RT_EOK, s') \<and> timer_inv s' \<and>
    timer_key s' m = int (unat (init_tick (timers s m))) \<and>
    timer_list s' =
      filter (\<lambda>t. timer_key s' t \<le> timer_key s' m) (removeAll m (timer_list s)) @ m #
      filter (\<lambda>t. timer_key s' m < timer_key s' t) (removeAll m (timer_list s))"
proof -
  obtain s' where s': "rt_timer_start m s = Some (RT_EOK, s')"
    using rt_timer_start_total [OF assms(2,3)] by blast
  note e = rt_timer_start_eq [OF s'] and i = rt_timer_start_inv [OF core_invD(2) [OF assms(1)] s']
  have now: "rt_tick s' = rt_tick s" by (simp add: timer_frame_sel [OF e(7)])
  have k: "timer_key s' x = tick_key (rt_tick s) (timeout_tick (timers s' x))" for x
    by (simp add: timer_key_def now)
  let ?ts = "removeAll m (timer_list s)"
  have "sorted_wrt (\<lambda>a b. timer_key s' a \<le> timer_key s' b) ?ts"
    using sorted_wrt_filter [OF timer_invD(2) [OF core_invD(2) [OF assms(1)]], of "\<lambda>x. x \<noteq> m"]
    unfolding distinct_removeAll_eq_filter
    by (rule sorted_wrt_mono_rel [rotated]) (simp add: i(4))
  moreover have "\<forall>t \<in> set ?ts. in_window (timer_key s' t)"
    using timer_invD(3) [OF core_invD(2) [OF assms(1)]] i(4) by simp
  moreover have "in_window (timer_key s' m)" "0 \<le> timer_key s' m"
    using timer_invD(3) [OF i(1), of m] i(2,3) by simp_all
  ultimately have "timer_list s' = filter (\<lambda>t. timer_key s' t \<le> timer_key s' m) ?ts @ m #
      filter (\<lambda>t. timer_key s' m < timer_key s' t) ?ts"
    unfolding e(5) k by (rule timer_insert_split)
  then show ?thesis using s' i(1,3) by blast
qed

theorem timer_start_sorted_witness:
  "\<exists>s'. rt_timer_start (ThreadTimer 2) demo = Some (RT_EOK, s') \<and>
     timer_list s' = [ThreadTimer 3, ThreadTimer 2]"
proof -
  have "rt_object_get_type (OTimer (ThreadTimer 2)) demo = RT_Object_Class_Timer"
    by (simp add: demo_types demo_type_def class_defs)
  moreover have "init_tick (timers demo (ThreadTimer 2)) = 5" by (simp add: demo_on_def)
  ultimately obtain s' where s': "rt_timer_start (ThreadTimer 2) demo = Some (RT_EOK, s')"
    "timer_key s' (ThreadTimer 2) = 5"
    "timer_list s' =
      filter (\<lambda>t. timer_key s' t \<le> timer_key s' (ThreadTimer 2)) [ThreadTimer 3] @ ThreadTimer 2 #
      filter (\<lambda>t. timer_key s' (ThreadTimer 2) < timer_key s' t) [ThreadTimer 3]"
    using timer_start_sorted [OF demo_core, of "ThreadTimer 2"] by (auto simp: half_tick)
  have "timer_key s' (ThreadTimer 3) = 5"
    using rt_timer_start_inv(4) [OF core_invD(2) [OF demo_core] s'(1), of "ThreadTimer 3"]
    by (simp add: demo_timer)
  then show ?thesis using s' by simp
qed

text \<open>C8: The tick interrupt ends.  If no timer is overdue, no periodic timer has period zero and
  the application's functions return, \<^verbatim>\<open>rt_tick_increase\<close> returns, advances the clock by one,
  keeps the invariant, and leaves no timer in the list that is due.\<close>

theorem tick_increase_total:
  assumes "core_inv s" "timers_ahead s" "current_thread s \<noteq> None" "cb_ok cb"
    and "\<forall>m. timer_flag s m AND RT_TIMER_FLAG_PERIODIC \<noteq> 0 \<longrightarrow>
      0 < init_tick (timers s m) \<and> init_tick (timers s m) < RT_TICK_MAX div 2"
  shows "\<exists>s'. rt_tick_increase cb s = Some s' \<and> core_inv s' \<and> rt_tick s' = rt_tick s + 1 \<and>
    current_thread s' \<noteq> None \<and> (\<forall>m \<in> set (timer_list s'). 0 < timer_key s' m)"
  using rt_tick_increase_spec [OF assms(1-4)] assms(5) by blast

theorem tick_increase_total_witness:
  "\<exists>s'. rt_tick_increase cb_none demo = Some s' \<and> rt_tick s' = 1"
  using tick_increase_total [OF demo_core demo_ahead _ cb_ok_none] demo_periodic by auto

text \<open>A periodic timer with period zero, which \<^verbatim>\<open>rt_timer_init\<close> and \<^verbatim>\<open>rt_timer_control\<close> accept,
  makes \<^verbatim>\<open>rt_timer_check\<close> loop for ever in the tick interrupt.\<close>

theorem zero_period_diverges:
  assumes "stuck m s"
  shows "rt_timer_check cb_none s = None"
  using stuck_diverges [OF assms] by (simp add: rt_timer_check_def rt_tick_get_def)

definition stuck_demo :: kernel where
  "stuck_demo = zero_kernel\<lparr>timer_list := [UserTimer 0],
     objs := (objs zero_kernel)(OTimer (UserTimer 0) := \<lparr>oname = ''t'',
       otype = RT_Object_Class_Timer OR RT_Object_Class_Static,
       oflag = RT_TIMER_FLAG_PERIODIC OR RT_TIMER_FLAG_ACTIVATED\<rparr>)\<rparr>"

theorem zero_period_diverges_witness: "rt_timer_check cb_none stuck_demo = None"
  by (rule zero_period_diverges [of "UserTimer 0"])
    (simp add: stuck_def stuck_demo_def zero_kernel_def timer_flag_def rt_object_get_type_def
      class_defs tflag_defs)

text \<open>When the only timers that are due belong to threads, \<^verbatim>\<open>rt_timer_check\<close> wakes exactly
  their threads, each with the error \<open>- RT_ETIMEOUT\<close>, takes exactly the due timers off the list
  and, if there was one, leaves the highest ready thread running.\<close>

theorem timer_check_wakes:
  assumes "core_inv s" "current_thread s \<noteq> None" "lock_nest s = 0"
    and "\<forall>m \<in> set (timer_list s). due s m \<longrightarrow> (\<exists>t. m = ThreadTimer t)"
  shows "\<exists>s'. rt_timer_check cb s = Some s' \<and> core_inv s' \<and>
    timer_list s' = filter (\<lambda>m. \<not> due s m) (timer_list s) \<and>
    (\<forall>t. threads s' t = (if ThreadTimer t \<in> set (timer_list s) \<and> due s (ThreadTimer t)
       then with_stat RT_THREAD_READY ((threads s t)\<lparr>th_error := - RT_ETIMEOUT\<rparr>)
       else threads s t)) \<and>
    ((\<exists>m \<in> set (timer_list s). due s m) \<longrightarrow> runs_highest s')"
  using timer_check_loop_wakes [OF assms, of cb]
  unfolding rt_timer_check_def rt_tick_get_def by blast

theorem timer_check_wakes_witness:
  "\<exists>s'. rt_timer_check cb_none demo = Some s' \<and> timer_list s' = [ThreadTimer 3]"
  using timer_check_wakes [OF demo_core, of cb_none] by (auto simp: demo_timer)

section \<open>Threads\<close>

text \<open>C6: Sleeping takes exactly as long as asked for.  A thread that sleeps for \<open>n > 0\<close> ticks gives
  up the processor; if only thread timers are running and nobody else wakes it, it is still
  suspended after \<open>k < n\<close> ticks, and after the tick number \<open>n\<close> it is ready again, with the
  time-out error that the second half of \<^verbatim>\<open>rt_thread_sleep\<close> clears.\<close>

theorem sleep_duration:
  assumes inv: "core_inv s" "timers_ahead s" and cur: "current_thread s = Some t"
    and lock: "lock_nest s = 0" and t: "thread_stat s t = RT_THREAD_READY"
    and other: "u \<noteq> t" "thread_stat s u = RT_THREAD_READY"
    and th: "\<forall>m \<in> set (timer_list s). \<exists>t. m = ThreadTimer t"
    and n: "0 < n" "n < 0x7fffffff"
  shows "\<exists>s'. rt_thread_sleep (of_nat n) s = Some (Blocked, s') \<and> runs_highest s' \<and>
    (\<forall>k<n. \<exists>s''. ticks cb k s' = Some s'' \<and> thread_stat s'' t = RT_THREAD_SUSPEND) \<and>
    (\<exists>s''. ticks cb n s' = Some s'' \<and> thread_stat s'' t = RT_THREAD_READY \<and>
       rt_thread_sleep_wake t s'' =
         Some (Return RT_EOK, upd_thread t (\<lambda>r. r\<lparr>th_error := RT_EOK\<rparr>) s''))"
proof -
  have tick: "of_nat n < RT_TICK_MAX div 2" "int (unat (of_nat n :: u32)) = int n"
    using n by (simp_all add: half_tick word_less_nat_alt unat_of_nat)
  obtain s' where s': "rt_thread_sleep (of_nat n) s = Some (Blocked, s')" "core_inv s'" "runs_highest s'"
      "thread_stat s' t = RT_THREAD_SUSPEND" "lock_nest s' = 0"
      "set (timer_list s') = insert (ThreadTimer t) (set (timer_list s))"
      "timer_key s' (ThreadTimer t) = int n"
      "\<forall>m. m \<noteq> ThreadTimer t \<longrightarrow> timer_key s' m = timer_key s m"
    using rt_thread_sleep_spec [OF inv(1) cur lock t tick(1) other] unfolding tick(2) by blast
  have ahead: "timers_ahead s'"
    using inv(2) s'(6-8) unfolding timers_ahead_def by (metis insert_iff of_nat_0_le_iff)
  have c: "cur_ready s'" using runs_highest_cur_ready s'(2,3) by blast
  have th': "\<forall>m \<in> set (timer_list s'). \<exists>t. m = ThreadTimer t" using th s'(6) by auto
  have tin: "ThreadTimer t \<in> set (timer_list s')" by (simp add: s'(6))
  have asleep: "\<exists>s''. ticks cb k s' = Some s'' \<and> thread_stat s'' t = RT_THREAD_SUSPEND" if "k < n" for k
  proof -
    have k: "int k < timer_key s' (ThreadTimer t)" using that by (simp add: s'(7))
    show ?thesis
      by (rule ticks_asleep [OF s'(2) ahead c s'(5) th' tin k, of cb])
        (use s'(4) in \<open>auto simp: thread_stat_def\<close>)
  qed
  obtain j where j: "n = Suc j" using n(1) by (cases n) auto
  have "timer_key s' (ThreadTimer t) = int (Suc j)" by (simp add: s'(7) j)
  from ticks_wake [OF s'(2) ahead c s'(5) th' tin this, of cb]
  obtain s'' where "ticks cb n s' = Some s''" "thread_stat s'' t = RT_THREAD_READY"
      "th_error (threads s'' t) = - RT_ETIMEOUT" by (auto simp: j)
  then show ?thesis
    using s'(1,3) asleep by (auto simp: rt_thread_sleep_wake_def)
qed

theorem sleep_duration_witness:
  "\<exists>s' s''. rt_thread_sleep 3 demo = Some (Blocked, s') \<and> ticks cb_none 3 s' = Some s'' \<and>
     thread_stat s'' 1 = RT_THREAD_READY"
  using sleep_duration [OF demo_core demo_ahead, of 1 2 3 cb_none]
  by (auto simp: thread_stat_def)

text \<open>Suspending a ready thread takes it off its ready list and resuming it appends it to
  that list again: nothing else changes, and afterwards it runs only if it is the first of the
  highest non-empty list.  On a thread in any other state the two calls return \<open>- RT_ERROR\<close> and
  change nothing.\<close>

theorem suspend_resume:
  assumes "core_inv s" "thread_stat s t = RT_THREAD_READY"
  shows "\<exists>s1 s2. rt_thread_suspend t s = Some (RT_EOK, s1) \<and> rt_thread_resume t s1 = Some (RT_EOK, s2) \<and>
    core_inv s1 \<and> core_inv s2 \<and> (\<forall>h. t \<notin> set (queues s1 h)) \<and>
    queues s2 = q_insert_tail (Ready (unat (current_priority (threads s t)))) t
                  (q_remove t (queues s)) \<and>
    thread_stat s2 t = RT_THREAD_READY \<and> (\<forall>u. u \<noteq> t \<longrightarrow> threads s2 u = threads s u) \<and>
    rt_thread_resume t s2 = Some (- RT_ERROR, s2) \<and> rt_thread_suspend t s1 = Some (- RT_ERROR, s1)"
proof -
  obtain s1 where s1: "rt_thread_suspend t s = Some (RT_EOK, s1)" "suspended t s s1" "core_inv s1"
    using rt_thread_suspend_spec [OF assms] by blast
  note d1 = suspendedD [OF s1(2)]
  have st1: "thread_stat s1 t = RT_THREAD_SUSPEND" by (simp add: d1(6))
  obtain s2 where s2: "rt_thread_resume t s1 = Some (RT_EOK, s2)" "resumed t s1 s2" "core_inv s2"
    using rt_thread_resume_spec [OF s1(3) st1] by blast
  note d2 = resumedD [OF s2(2)]
  have "is_thread t s1" "is_thread t s2"
    using core_invD(5) [OF assms(1)] assms(2)
    by (auto simp: alive_def kframe_sel(15) [OF d1(1)] kframe_sel(15) [OF d2(1)])
  moreover have "q_remove t (q_remove t (queues s)) = q_remove t (queues s)"
    by (simp add: q_remove_def)
  ultimately show ?thesis
    using s1(1,3) s2(1,3) st1 d2(6) [of t]
    by (intro exI [of _ s1] exI [of _ s2])
      (simp add: rt_thread_suspend_error d1(2,3) d2(2,3), simp add: q_remove_def)
qed

theorem suspend_resume_witness:
  "\<exists>s1 s2. rt_thread_suspend 2 demo = Some (RT_EOK, s1) \<and> rt_thread_resume 2 s1 = Some (RT_EOK, s2)"
  using suspend_resume [OF demo_core, of 2] by (auto simp: thread_stat_def)

text \<open>A thread is born in two steps.  \<^verbatim>\<open>rt_thread_init\<close> on a dead control block makes the
  thread and its timer objects of their classes, without touching any list of threads;
  \<^verbatim>\<open>rt_thread_startup\<close> then makes it ready at its initial priority, and the processor goes to
  the highest ready thread.\<close>

theorem thread_birth:
  assumes "core_inv s" "object_inv s" "quiet s" "lock_nest s = 0" "current_thread s \<noteq> None"
    and "rt_object_get_type (OThread t) s = 0"
      "rt_object_get_type (OTimer (ThreadTimer t)) s = 0" "thread_stat s t = RT_THREAD_INIT"
    and "unat priority < RT_THREAD_PRIORITY_MAX"
  shows "\<exists>s1 s2. rt_thread_init t name priority tick s = Some (RT_EOK, s1) \<and>
    rt_thread_startup t s1 = Some (RT_EOK, s2) \<and> object_inv s1 \<and> core_inv s1 \<and> core_inv s2 \<and>
    queues s1 = queues s \<and> alive s2 t \<and> thread_stat s2 t = RT_THREAD_READY \<and>
    queues s2 = q_insert_tail (Ready (unat priority)) t (queues s) \<and> runs_highest s2"
proof -
  obtain s1 where s1: "rt_thread_init t name priority tick s = Some (RT_EOK, s1)" "core_inv s1"
      "object_inv s1" "alive s1 t" "thread_stat s1 t = RT_THREAD_INIT"
      "init_priority (threads s1 t) = priority" "queues s1 = queues s"
      "current_thread s1 = current_thread s" "lock_nest s1 = lock_nest s"
    using rt_thread_init_spec [OF assms(1-3,6,7) disjI1 [OF assms(8)] assms(9), of name tick] by blast
  obtain s1' s2 where s2: "rt_thread_startup t s1 = Some (RT_EOK, s2)" "core_inv s2"
      "sched_frame s1' s2" "kframe s1 s1'"
      "queues s1' = q_insert_tail (Ready (unat (init_priority (threads s1 t)))) t (queues s1)"
      "thread_stat s2 t = RT_THREAD_READY"
      "current_thread s1 \<noteq> None \<and> lock_nest s1 = 0 \<longrightarrow> runs_highest s2"
    using rt_thread_startup_spec [OF s1(2,5,4)] by blast
  have "alive s2 t" using core_invD(5) [OF s2(2)] s2(6) by blast
  moreover have "queues s2 = q_insert_tail (Ready (unat priority)) t (queues s)"
    using sched_frame_sel(3) [OF s2(3)] s2(5) by (simp add: s1(6,7))
  moreover have "runs_highest s2" using s2(7) assms(4,5) by (simp add: s1(8,9))
  ultimately show ?thesis
    using s1(1-3,7) s2(1,2,6) by blast
qed

theorem thread_birth_witness:
  "\<exists>s1 s2. rt_thread_init 4 ''t4'' 3 20 demo = Some (RT_EOK, s1) \<and>
     rt_thread_startup 4 s1 = Some (RT_EOK, s2) \<and> thread_stat s2 4 = RT_THREAD_READY"
proof -
  have "rt_object_get_type (OThread 4) demo = 0"
    "rt_object_get_type (OTimer (ThreadTimer 4)) demo = 0"
    "thread_stat demo 4 = RT_THREAD_INIT"
    by (simp_all add: demo_types demo_type_def thread_stat_def demo_stat)
  then show ?thesis
    using thread_birth [OF demo_core demo_object demo_quiet, of 4 3 "''t4''" 20]
    by (auto simp: RT_THREAD_PRIORITY_MAX_def)
qed

text \<open>Detaching a live static thread, in any state, unlinks it everywhere, removes its timer
  and closes it; without a cleanup function it is no object afterwards and in no list, with
  one it is the first of the list that the idle thread empties.  The invariants of scheduler
  and object system are kept.\<close>

theorem detach_thread:
  assumes "core_inv s" "object_inv s" "alive s t" "rt_object_is_systemobject (OThread t) s"
    and "thread_stat s t = RT_THREAD_READY \<or> thread_stat s t = RT_THREAD_SUSPEND \<or>
         thread_stat s t = RT_THREAD_INIT"
  shows "\<exists>s'. rt_thread_detach t s = Some (RT_EOK, s') \<and> core_inv s' \<and> object_inv s' \<and>
    thread_stat s' t = RT_THREAD_CLOSE \<and> ThreadTimer t \<notin> set (timer_list s') \<and>
    queues s' = (if cleanup (threads s t) then q_insert_head Defunct t (q_remove t (queues s))
                 else q_remove t (queues s)) \<and>
    (is_thread t s' \<longleftrightarrow> cleanup (threads s t)) \<and>
    rt_object_get_type (OTimer (ThreadTimer t)) s' = 0"
proof -
  let ?c = "cleanup (threads s t)"
  define s' where "s' = (if ?c then thread_to_defunct t (leave_lists t s)
    else rt_object_detach (OThread t) (leave_lists t s))"
  have b: "buried ?c t s s'"
    using buried_leave_lists [OF assms(1), of t] by (simp add: s'_def)
  note d = buriedD [OF b]
  have ty: "rt_object_get_type x s' = (if x = OTimer (ThreadTimer t) \<or> \<not> ?c \<and> x = OThread t then 0
      else rt_object_get_type x s)" for x
    by (simp add: rt_object_get_type_def d(8))
  have ne: "thread_stat s t \<noteq> RT_THREAD_CLOSE" using assms(5) by auto
  show ?thesis
    using rt_thread_detach_eq [OF assms(1,3,4)] buried_inv [OF b assms(1) ne assms(5)]
      buried_object_inv [OF b assms(2)] assms(3) d
    by (intro exI [of _ s'])
      (simp add: ty is_thread_def thread_stat_def alive_def, simp add: s'_def class_defs)
qed

theorem detach_thread_witness:
  "\<exists>s'. rt_thread_detach 3 demo = Some (RT_EOK, s') \<and> queues s' (Suspend (QSem 1)) = [] \<and>
     timer_list s' = []"
proof -
  have st: "thread_stat demo 3 = RT_THREAD_SUSPEND" by (simp add: thread_stat_def)
  moreover have "alive demo 3" using core_invD(5) [OF demo_core] st by blast
  moreover have "rt_object_is_systemobject (OThread 3) demo"
    by (simp add: demo_types demo_type_def class_defs)
  ultimately obtain s' where s': "rt_thread_detach 3 demo = Some (RT_EOK, s')"
    "queues s' = q_remove 3 (demo_queues (QSem 1))" "core_inv s'"
    using detach_thread [OF demo_core demo_object, of 3] by (auto simp: demo_thread_def)
  have "s' = rt_object_detach (OThread 3) (leave_lists 3 demo)"
    using s'(1) rt_thread_detach_eq [OF demo_core \<open>alive demo 3\<close>
      \<open>rt_object_is_systemobject (OThread 3) demo\<close>] by (simp add: demo_thread_def)
  then have "timer_list s' = []"
    using buriedD(5) [OF buried_leave_lists(2) [OF demo_core, of 3]] by simp
  then show ?thesis using s' by (simp add: q_remove_def)
qed

text \<open>Changing the priority of a live thread to any valid one keeps the invariant: a ready
  thread goes to the end of the ready list of the new priority, a waiting thread keeps its
  place in the queue it waits in.  (The queue of an object with flag \<open>RT_IPC_FLAG_PRIO\<close> is not
  sorted again.)\<close>

theorem change_priority_moves:
  assumes "core_inv s" "thread_stat s t = RT_THREAD_READY \<or> thread_stat s t = RT_THREAD_SUSPEND"
    and "unat p < RT_THREAD_PRIORITY_MAX"
  shows "\<exists>s'. rt_thread_control t RT_THREAD_CTRL_CHANGE_PRIORITY p s = Some (RT_EOK, s') \<and>
    core_inv s' \<and> current_priority (threads s' t) = p \<and> thread_stat s' t = thread_stat s t \<and>
    (\<forall>u. u \<noteq> t \<longrightarrow> threads s' u = threads s u) \<and>
    queues s' = (if thread_stat s t = RT_THREAD_READY
                 then q_insert_tail (Ready (unat p)) t (q_remove t (queues s)) else queues s)"
proof -
  have "is_thread t s" using core_invD(5) [OF assms(1)] assms(2) by (auto simp: alive_def)
  note eq = rt_thread_control_priority [OF this]
  show ?thesis
  proof (cases "thread_stat s t = RT_THREAD_READY")
    case True
    then show ?thesis
      using change_priority_ready [OF assms(1) True assms(3)] eq by (auto simp: thread_stat_def)
  next
    case False
    then show ?thesis
      using change_priority_blocked [OF assms(1) False assms(3)] eq
      by (auto simp: thread_stat_def tstat_def)
  qed
qed

theorem change_priority_moves_witness:
  "\<exists>s'. rt_thread_control 2 RT_THREAD_CTRL_CHANGE_PRIORITY 31 demo = Some (RT_EOK, s') \<and>
     queues s' (Ready 31) = [0, 2]"
proof -
  obtain s' where "rt_thread_control 2 RT_THREAD_CTRL_CHANGE_PRIORITY 31 demo = Some (RT_EOK, s')"
    "queues s' = q_insert_tail (Ready 31) 2 (q_remove 2 (demo_queues (QSem 1)))"
    using change_priority_moves [OF demo_core, of 2 31]
    by (auto simp: thread_stat_def RT_THREAD_PRIORITY_MAX_def)
  then show ?thesis by (simp add: q_defs)
qed

text \<open>\<^verbatim>\<open>rt_tick_from_millisecond\<close> rounds up to whole ticks and never overflows for a
  non-negative argument, and turns a negative one into \<open>RT_WAITING_FOREVER\<close>.\<close>

theorem tick_from_millisecond:
  "uint (rt_tick_from_millisecond ms) =
     (if sint ms < 0 then 2 ^ 32 - 1 else (RT_TICK_PER_SECOND * sint ms + 999) div 1000)"
  using rt_tick_from_millisecond_ceil [of ms]
  by (simp add: rt_tick_from_millisecond_def unsigned_minus_1_eq_mask mask_eq_exp_minus_1)

section \<open>Semaphores\<close>

text \<open>A thread that takes a semaphore without a free token is suspended, at the place in the
  queue that the flag of the semaphore asks for, with its timer running if it waits for a
  limited time; the highest ready thread runs instead.\<close>

theorem sem_take_suspends:
  assumes "core_inv s" "sem_ok n s" "sem_value (sems s n) = 0"
    and "current_thread s = Some t" "thread_stat s t = RT_THREAD_READY"
    and "lock_nest s = 0" "irq_nest s = 0" "u \<noteq> t" "thread_stat s u = RT_THREAD_READY"
    and "time \<noteq> 0" "sint time \<noteq> 0x7fffffff"
  shows "\<exists>s'. rt_sem_take n time s = Some (Blocked, s') \<and> core_inv s' \<and> sem_ok n s' \<and>
    runs_highest s' \<and> current_thread s' \<noteq> Some t \<and> thread_stat s' t = RT_THREAD_SUSPEND \<and>
    sem_abs n s' = (0, ipc_insert (oflag (objs s (OSem n)))
      (\<lambda>u. current_priority (threads s u)) t (snd (sem_abs n s))) \<and>
    (if 0 < sint time
     then ThreadTimer t \<in> set (timer_list s') \<and> timer_key s' (ThreadTimer t) = sint time
     else timer_list s' = timer_list s)"
  using sem_take_blocks [OF assms] by auto

theorem sem_take_suspends_witness:
  "\<exists>s'. rt_sem_take 1 7 demo = Some (Blocked, s') \<and> sem_abs 1 s' = (0, [3, 1])"
proof -
  have "oflag (objs demo (OSem (Suc 0))) = RT_IPC_FLAG_FIFO"
    by (simp add: demo_on_def RT_IPC_FLAG_FIFO_def)
  then show ?thesis
    using sem_take_suspends [OF demo_core demo_sem(2), of 1 2 7]
    by (auto simp: thread_stat_def sem_abs_def ipc_insert_def)
qed

text \<open>C9: \<^verbatim>\<open>rt_sem_release\<close> is the release step of an abstract counting semaphore: it hands the
  token to the first waiting thread, or else increases the count, provided the count is not
  at its maximum of 65535.\<close>

theorem sem_release_step:
  assumes "core_inv s" "sem_ok n s" "current_thread s \<noteq> None" "sem_value (sems s n) \<noteq> 0xFFFF"
  shows "\<exists>s'. rt_sem_release n s = Some (RT_EOK, s') \<and> core_inv s' \<and> sem_ok n s' \<and>
    sem_abs n s' = abs_release (sem_abs n s)"
  by (rule sem_release_refines [OF assms])

theorem sem_release_step_witness:
  "\<exists>s'. rt_sem_release 1 demo = Some (RT_EOK, s') \<and> sem_abs 1 s' = (0, [])"
  using sem_release_step [OF demo_core demo_sem(2)] by (auto simp: sem_abs_def abs_release_def)

text \<open>The 16-bit count of a semaphore has no overflow check: a release at 65535 with nobody
  waiting succeeds and leaves no token.\<close>

theorem sem_release_overflow:
  assumes "is_sem n s" "queues s (Suspend (QSem n)) = []" "sem_value (sems s n) = 0xFFFF"
  shows "\<exists>s'. rt_sem_release n s = Some (RT_EOK, s') \<and> sem_value (sems s' n) = 0"
  by (rule sem_release_wraps [OF assms])

theorem sem_release_overflow_witness:
  "\<exists>s'. rt_sem_release 0 (upd_sem 0 (\<lambda>r. r\<lparr>sem_value := 0xFFFF\<rparr>) demo) = Some (RT_EOK, s') \<and>
     sem_value (sems s' 0) = 0"
  by (rule sem_release_overflow)
    (use demo_sem(1) in \<open>simp_all add: sem_ok_def is_sem_def rt_object_get_type_def\<close>)

text \<open>With the scheduler locked, a take that has to wait returns \<open>RT_EOK\<close> at once although
  there is no token, with the running thread linked in the queue of the semaphore.\<close>

theorem sem_take_locked_succeeds:
  assumes "core_inv s" "sem_ok n s" "sem_value (sems s n) = 0"
    and "current_thread s = Some t" "thread_stat s t = RT_THREAD_READY"
    and "lock_nest s \<noteq> 0" "irq_nest s = 0" "time \<noteq> 0" "sint time \<noteq> 0x7fffffff"
  shows "\<exists>s'. rt_sem_take n time s = Some (Return RT_EOK, s') \<and> sem_value (sems s' n) = 0 \<and>
    t \<in> set (queues s' (Suspend (QSem n)))"
  by (rule sem_take_locked [OF assms])

theorem sem_take_locked_succeeds_witness:
  "\<exists>s'. rt_sem_take 1 7 (rt_enter_critical demo) = Some (Return RT_EOK, s')"
proof -
  have c: "core_inv (rt_enter_critical demo)"
    by (rule core_inv_cong [OF demo_core]) (simp_all add: rt_enter_critical_def)
  have o: "sem_ok 1 (rt_enter_critical demo)"
    using demo_sem(2) by (simp add: sem_ok_def is_sem_def rt_object_get_type_def rt_enter_critical_def)
  show ?thesis
    using sem_take_locked_succeeds [OF c o, of 1 7]
    by (auto simp: rt_enter_critical_def thread_stat_def)
qed

text \<open>Detaching a semaphore releases every waiting thread, in order, with the error
  \<open>- RT_ERROR\<close>, and removes the object.\<close>

theorem sem_detach_flushes:
  assumes "core_inv s" "object_inv s" "is_sem n s" "rt_object_is_systemobject (OSem n) s"
  shows "\<exists>s'. rt_sem_detach n s = Some (RT_EOK, s') \<and> core_inv s' \<and> object_inv s' \<and>
    \<not> is_sem n s' \<and> queues s' (Suspend (QSem n)) = [] \<and>
    (\<forall>t \<in> set (queues s (Suspend (QSem n))). thread_stat s' t = RT_THREAD_READY \<and>
       th_error (threads s' t) = - RT_ERROR \<and> ThreadTimer t \<notin> set (timer_list s')) \<and>
    (\<forall>p. queues s' (Ready p) = queues s (Ready p) @
       filter (\<lambda>t. unat (current_priority (threads s t)) = p) (queues s (Suspend (QSem n))))"
proof -
  obtain s1 where s1: "rt_sem_detach n s = Some (RT_EOK, rt_object_detach (OSem n) s1)"
    "flushed (queues s (Suspend (QSem n))) s s1" "queues s1 (Suspend (QSem n)) = []"
    "core_inv (rt_object_detach (OSem n) s1)" "object_inv (rt_object_detach (OSem n) s1)"
    "\<not> is_sem n (rt_object_detach (OSem n) s1)"
    using sem_detach_spec [OF assms] by blast
  note f = flushedD [OF s1(2)]
  show ?thesis
    using s1(1,3-6) f(2,3,5,6)
    by (intro exI [of _ "rt_object_detach (OSem n) s1"]) (auto simp: thread_stat_def)
qed

theorem sem_detach_flushes_witness:
  "\<exists>s'. rt_sem_detach 1 demo = Some (RT_EOK, s') \<and> thread_stat s' 3 = RT_THREAD_READY"
proof -
  have "is_sem 1 demo" "rt_object_is_systemobject (OSem 1) demo"
    using demo_sem(2) by (simp_all add: sem_ok_def demo_types demo_type_def class_defs)
  then show ?thesis
    using sem_detach_flushes [OF demo_core demo_object, of 1] by auto
qed

section \<open>Objects\<close>

text \<open>A lookup by name in a class finds the first live object of the class, the youngest
  one, whose name agrees in its first eight characters, and changes nothing.\<close>

theorem object_find_correct:
  assumes "quiet s" "irq_nest s = 0" "c \<in> set object_classes"
  shows "rt_object_find (Some n) c s =
    Some (find (\<lambda>x. take RT_NAME_MAX (oname (objs s x)) = take RT_NAME_MAX n) (container s c), s)"
  by (rule object_find_spec [OF assms])

theorem object_find_correct_witness:
  "rt_object_find (Some ''main'') RT_Object_Class_Thread demo = Some (Some (OThread 1), demo)"
proof -
  have "container demo RT_Object_Class_Thread = [OThread 3, OThread 2, OThread 1, OThread 0]"
    by (simp add: demo_on_def demo_container_def class_defs)
  then show ?thesis
    using object_find_correct [OF demo_quiet, of RT_Object_Class_Thread "''main''"]
    by (simp add: object_classes_def) (simp add: demo_on_def RT_NAME_MAX_def)
qed

end
