(* ===== verification/Mutex.thy ===== *)
theory Mutex
  imports Ipc
begin

text \<open>
  Mutexes of \<^verbatim>\<open>src/ipc.c\<close>: recursive, owned, with priority inheritance.  \<open>mutex_ok\<close> ties the
  value, the owner, the hold count and the queue of a mutex together.
\<close>

section \<open>The routines\<close>

definition is_mutex :: "nat \<Rightarrow> kernel \<Rightarrow> bool" where
  "is_mutex n s \<longleftrightarrow> rt_object_get_type (OMutex n) s = RT_Object_Class_Mutex"

definition upd_mutex :: "nat \<Rightarrow> (rt_mutex \<Rightarrow> rt_mutex) \<Rightarrow> kernel \<Rightarrow> kernel" where
  "upd_mutex n f s = s\<lparr>mutexes := (mutexes s)(n := f (mutexes s n))\<rparr>"

text \<open>The fields of a mutex that nobody holds.\<close>

definition free_mutex :: rt_mutex where
  "free_mutex = \<lparr>mutex_value = 1, original_priority = 0xFF, hold = 0, owner = None\<rparr>"

definition rt_mutex_init :: "nat \<Rightarrow> string \<Rightarrow> u8 \<Rightarrow> kernel \<Rightarrow> (rt_err_t \<times> kernel) option" where
  "rt_mutex_init n name flag s = do {
     s \<leftarrow> rt_object_init (OMutex n) RT_Object_Class_Mutex name s;
     let s = rt_ipc_object_init (QMutex n) s;
     let s = upd_mutex n (\<lambda>_. free_mutex) s;
     Some (RT_EOK, upd_obj (OMutex n) (\<lambda>r. r\<lparr>oflag := flag\<rparr>) s)
   }"

definition rt_mutex_detach :: "nat \<Rightarrow> kernel \<Rightarrow> (rt_err_t \<times> kernel) option" where
  "rt_mutex_detach n s = do {
     RT_ASSERT (is_mutex n s);
     RT_ASSERT (rt_object_is_systemobject (OMutex n) s);
     s \<leftarrow> rt_ipc_list_resume_all (QMutex n) s;
     Some (RT_EOK, rt_object_detach (OMutex n) s)
   }"

definition rt_mutex_create ::
  "oref option \<Rightarrow> string \<Rightarrow> u8 \<Rightarrow> kernel \<Rightarrow> (nat option \<times> kernel) option" where
  "rt_mutex_create mem name flag s = do {
     RT_DEBUG_NOT_IN_INTERRUPT s;
     (x, s) \<leftarrow> rt_object_allocate mem RT_Object_Class_Mutex name s;
     (case x of
        Some (OMutex n) \<Rightarrow>
          let s = rt_ipc_object_init (QMutex n) s;
              s = upd_mutex n (\<lambda>_. free_mutex) s
          in Some (Some n, upd_obj (OMutex n) (\<lambda>r. r\<lparr>oflag := flag\<rparr>) s)
      | _ \<Rightarrow> Some (None, s))
   }"

definition rt_mutex_delete :: "nat \<Rightarrow> kernel \<Rightarrow> (rt_err_t \<times> kernel) option" where
  "rt_mutex_delete n s = do {
     RT_DEBUG_NOT_IN_INTERRUPT s;
     RT_ASSERT (is_mutex n s);
     RT_ASSERT (\<not> rt_object_is_systemobject (OMutex n) s);
     s \<leftarrow> rt_ipc_list_resume_all (QMutex n) s;
     s \<leftarrow> rt_object_delete (OMutex n) s;
     Some (RT_EOK, s)
   }"

text \<open>The code from the label \<^verbatim>\<open>__again\<close>, to which a thread jumps back that was interrupted by a
  signal while it waited.\<close>

partial_function (option) mutex_take_again ::
  "tid \<Rightarrow> nat \<Rightarrow> u32 \<Rightarrow> kernel \<Rightarrow> (rt_err_t call \<times> kernel) option" where
  "mutex_take_again t n time s =
     (if 0 < mutex_value (mutexes s n)
      then Some (Return RT_EOK, upd_mutex n (\<lambda>r. r\<lparr>mutex_value := mutex_value r - 1,
             owner := Some t, original_priority := current_priority (threads s t),
             hold := hold r + 1\<rparr>) s)
      else if time = 0
      then Some (Return (- RT_ETIMEOUT), upd_thread t (\<lambda>r. r\<lparr>th_error := - RT_ETIMEOUT\<rparr>) s)
      else do {
        ow \<leftarrow> owner (mutexes s n);
        s \<leftarrow> (if current_priority (threads s t) < current_priority (threads s ow) then do {
               (e, s) \<leftarrow> rt_thread_control ow RT_THREAD_CTRL_CHANGE_PRIORITY
                          (current_priority (threads s t)) s;
               Some s
             }
             else Some s);
        s \<leftarrow> suspend_with_timer t (QMutex n) (oflag (objs s (OMutex n))) time s;
        block_point t (FMutexTake n time)
          (\<lambda>s. if th_error (threads s t) \<noteq> RT_EOK
               then if th_error (threads s t) = - RT_EINTR then mutex_take_again t n time s
                    else Some (Return (th_error (threads s t)), s)
               else Some (Return RT_EOK, s)) s
      })"

definition rt_mutex_take_wake ::
  "tid \<Rightarrow> nat \<Rightarrow> u32 \<Rightarrow> kernel \<Rightarrow> (rt_err_t call \<times> kernel) option" where
  "rt_mutex_take_wake t n time s =
     (if th_error (threads s t) \<noteq> RT_EOK
      then if th_error (threads s t) = - RT_EINTR then mutex_take_again t n time s
           else Some (Return (th_error (threads s t)), s)
      else Some (Return RT_EOK, s))"

definition rt_mutex_take :: "nat \<Rightarrow> u32 \<Rightarrow> kernel \<Rightarrow> (rt_err_t call \<times> kernel) option" where
  "rt_mutex_take n time s = do {
     RT_DEBUG_IN_THREAD_CONTEXT s;
     RT_ASSERT (is_mutex n s);
     t \<leftarrow> rt_thread_self s;
     let s = upd_thread t (\<lambda>r. r\<lparr>th_error := RT_EOK\<rparr>) s;
     (if owner (mutexes s n) = Some t
      then Some (Return RT_EOK, upd_mutex n (\<lambda>r. r\<lparr>hold := hold r + 1\<rparr>) s)
      else mutex_take_again t n time s)
   }"

definition rt_mutex_release :: "nat \<Rightarrow> kernel \<Rightarrow> (rt_err_t \<times> kernel) option" where
  "rt_mutex_release n s = do {
     RT_ASSERT (is_mutex n s);
     RT_DEBUG_IN_THREAD_CONTEXT s;
     t \<leftarrow> rt_thread_self s;
     (if Some t \<noteq> owner (mutexes s n)
      then Some (- RT_ERROR, upd_thread t (\<lambda>r. r\<lparr>th_error := - RT_ERROR\<rparr>) s)
      else do {
        let s = upd_mutex n (\<lambda>r. r\<lparr>hold := hold r - 1\<rparr>) s;
        (need_schedule, s) \<leftarrow>
          (if hold (mutexes s n) = 0 then do {
             s \<leftarrow> (if original_priority (mutexes s n) \<noteq> current_priority (threads s t) then do {
                    (e, s) \<leftarrow> rt_thread_control t RT_THREAD_CTRL_CHANGE_PRIORITY
                               (original_priority (mutexes s n)) s;
                    Some s
                  }
                  else Some s);
             (case queues s (Suspend (QMutex n)) of
                w # _ \<Rightarrow> do {
                  let s = upd_mutex n (\<lambda>r. r\<lparr>owner := Some w,
                            original_priority := current_priority (threads s w),
                            hold := hold r + 1\<rparr>) s;
                  (e, s) \<leftarrow> rt_ipc_list_resume (QMutex n) s;
                  Some (True, s)
                }
              | [] \<Rightarrow> Some (False, upd_mutex n (\<lambda>r. r\<lparr>mutex_value := mutex_value r + 1,
                        owner := None, original_priority := 0xff\<rparr>) s))
           }
           else Some (False, s));
        s \<leftarrow> (if need_schedule then rt_schedule s else Some s);
        Some (RT_EOK, s)
      })
   }"

definition rt_mutex_control :: "nat \<Rightarrow> int \<Rightarrow> u32 \<Rightarrow> kernel \<Rightarrow> (rt_err_t \<times> kernel) option" where
  "rt_mutex_control n cmd arg s = do {
     RT_ASSERT (is_mutex n s);
     Some (- RT_ERROR, s)
   }"

section \<open>The invariant of a mutex\<close>

definition mutex_ok :: "nat \<Rightarrow> kernel \<Rightarrow> bool" where
  "mutex_ok n s \<longleftrightarrow> is_mutex n s \<and>
     (oflag (objs s (OMutex n)) = RT_IPC_FLAG_FIFO \<or> oflag (objs s (OMutex n)) = RT_IPC_FLAG_PRIO) \<and>
     (case owner (mutexes s n) of
        None \<Rightarrow> mutex_value (mutexes s n) = 1 \<and> hold (mutexes s n) = 0 \<and>
          queues s (Suspend (QMutex n)) = []
      | Some t \<Rightarrow> mutex_value (mutexes s n) = 0 \<and>
          unat (original_priority (mutexes s n)) < RT_THREAD_PRIORITY_MAX \<and>
          t \<notin> set (queues s (Suspend (QMutex n))))"

lemma upd_mutex_sel [simp]:
  "mutexes (upd_mutex n f s) = (mutexes s)(n := f (mutexes s n))"
  "queues (upd_mutex n f s) = queues s" "sems (upd_mutex n f s) = sems s"
  "threads (upd_mutex n f s) = threads s" "objs (upd_mutex n f s) = objs s"
  "ready_group (upd_mutex n f s) = ready_group s" "timers (upd_mutex n f s) = timers s"
  "timer_list (upd_mutex n f s) = timer_list s" "rt_tick (upd_mutex n f s) = rt_tick s"
  "container (upd_mutex n f s) = container s" "current_thread (upd_mutex n f s) = current_thread s"
  "lock_nest (upd_mutex n f s) = lock_nest s" "irq_nest (upd_mutex n f s) = irq_nest s"
  "frames (upd_mutex n f s) = frames s" "events (upd_mutex n f s) = events s"
  "mailboxes (upd_mutex n f s) = mailboxes s" "mqs (upd_mutex n f s) = mqs s"
  by (simp_all add: upd_mutex_def)

lemma upd_mutex_core_inv [simp]: "core_inv s \<Longrightarrow> core_inv (upd_mutex n f s)"
  by (rule core_inv_cong) simp_all

lemma is_mutex_cong: "otype (objs s' (OMutex n)) = otype (objs s (OMutex n)) \<Longrightarrow> is_mutex n s' = is_mutex n s"
  by (simp add: is_mutex_def rt_object_get_type_def)

section \<open>Taking\<close>

lemma mutex_take_free:
  assumes "core_inv s" "mutex_ok n s" "owner (mutexes s n) = None"
    and "current_thread s = Some t" "irq_nest s = 0" "thread_stat s t = RT_THREAD_READY"
  shows "\<exists>s'. rt_mutex_take n time s = Some (Return RT_EOK, s') \<and> core_inv s' \<and> mutex_ok n s' \<and>
    mutexes s' n = \<lparr>mutex_value = 0, original_priority = current_priority (threads s t), hold = 1,
      owner = Some t\<rparr> \<and> queues s' = queues s"
proof -
  let ?s1 = "upd_thread t (\<lambda>r. r\<lparr>th_error := RT_EOK\<rparr>) s"
  let ?s2 = "upd_mutex n (\<lambda>r. r\<lparr>mutex_value := mutex_value r - 1, owner := Some t,
     original_priority := current_priority (threads ?s1 t), hold := hold r + 1\<rparr>) ?s1"
  have v: "mutex_value (mutexes s n) = 1" "hold (mutexes s n) = 0"
      "queues s (Suspend (QMutex n)) = []"
    using assms(2,3) by (simp_all add: mutex_ok_def)
  have "rt_mutex_take n time s = Some (Return RT_EOK, ?s2)"
    using assms v by (simp add: rt_mutex_take_def debug_defs rt_thread_self_def mutex_ok_def
        mutex_take_again.simps)
  moreover have "core_inv ?s2"
    by (intro upd_mutex_core_inv upd_thread_cong_inv [OF assms(1)]) simp_all
  moreover have "unat (current_priority (threads s t)) < RT_THREAD_PRIORITY_MAX"
    using sched_okD(5) [OF core_invD(1) [OF assms(1)], of t] assms(6)
    by (simp add: thread_ok_def thread_stat_def)
  ultimately show ?thesis
    using assms(2) v by (simp add: mutex_ok_def is_mutex_def rt_object_get_type_def)
qed

lemma mutex_take_again_owner:
  assumes "mutex_ok n s" "current_thread s = Some t" "irq_nest s = 0" "owner (mutexes s n) = Some t"
  shows "rt_mutex_take n time s = Some (Return RT_EOK,
    upd_mutex n (\<lambda>r. r\<lparr>hold := hold r + 1\<rparr>) (upd_thread t (\<lambda>r. r\<lparr>th_error := RT_EOK\<rparr>) s))"
  using assms by (simp add: rt_mutex_take_def debug_defs rt_thread_self_def mutex_ok_def)

lemma mutex_take_timeout:
  assumes "mutex_ok n s" "current_thread s = Some t" "irq_nest s = 0"
    and "owner (mutexes s n) = Some u" "u \<noteq> t"
  shows "\<exists>s'. rt_mutex_take n 0 s = Some (Return (- RT_ETIMEOUT), s') \<and> mutexes s' = mutexes s \<and>
    queues s' = queues s"
  using assms by (simp add: rt_mutex_take_def debug_defs rt_thread_self_def mutex_ok_def
      mutex_take_again.simps)

text \<open>The first part of waiting: the owner is given the priority of the waiting thread if that
  is higher.\<close>

definition boost :: "tid \<Rightarrow> tid \<Rightarrow> kernel \<Rightarrow> kernel option" where
  "boost t ow s =
     (if current_priority (threads s t) < current_priority (threads s ow) then do {
        (e, s) \<leftarrow> rt_thread_control ow RT_THREAD_CTRL_CHANGE_PRIORITY
                   (current_priority (threads s t)) s;
        Some s
      }
      else Some s)"

lemma boost_spec:
  assumes inv: "core_inv s" and t: "thread_stat s t = RT_THREAD_READY" and al: "is_thread ow s"
    and ne: "ow \<noteq> t"
  shows "\<exists>s'. boost t ow s = Some s' \<and> core_inv s' \<and> kframe s s' \<and>
    current_priority (threads s' ow) =
      min (current_priority (threads s t)) (current_priority (threads s ow)) \<and>
    (\<forall>u. u \<noteq> ow \<longrightarrow> threads s' u = threads s u) \<and> (\<forall>u. thread_stat s' u = thread_stat s u) \<and>
    (\<forall>q. queues s' (Suspend q) = queues s (Suspend q)) \<and> timers s' = timers s \<and>
    timer_list s' = timer_list s"
proof (cases "current_priority (threads s t) < current_priority (threads s ow)")
  case False
  then show ?thesis using inv by (simp add: boost_def min_def)
next
  case True
  let ?p = "current_priority (threads s t)"
  have p: "unat ?p < RT_THREAD_PRIORITY_MAX"
    using sched_okD(5) [OF core_invD(1) [OF inv], of t] t by (simp add: thread_ok_def thread_stat_def)
  obtain s' where s': "change_priority ow ?p s = Some s'"
    using change_priority_ready [OF inv _ p, of ow] change_priority_blocked [OF inv _ p, of ow] by blast
  note c = change_priority_inv [OF inv s']
  have "boost t ow s = Some s'"
    using True s' by (simp add: boost_def rt_thread_control_priority [OF al])
  then show ?thesis using c(1,2,4-9) True by auto
qed

lemma mutex_take_blocks:
  assumes inv: "core_inv s" and ok: "mutex_ok n s" and ow: "owner (mutexes s n) = Some ow"
    and ne: "ow \<noteq> t" and al: "is_thread ow s"
    and cur: "current_thread s = Some t" and t: "thread_stat s t = RT_THREAD_READY"
    and ctx: "lock_nest s = 0" "irq_nest s = 0"
    and other: "u \<noteq> t" "thread_stat s u = RT_THREAD_READY"
    and time: "time \<noteq> 0" "sint time \<noteq> 0x7fffffff"
  shows "\<exists>s'. rt_mutex_take n time s = Some (Blocked, s') \<and> core_inv s' \<and> mutex_ok n s' \<and>
    runs_highest s' \<and> current_thread s' \<noteq> Some t \<and> thread_stat s' t = RT_THREAD_SUSPEND \<and>
    mutexes s' = mutexes s \<and> t \<in> set (queues s' (Suspend (QMutex n))) \<and>
    current_priority (threads s' ow) =
      min (current_priority (threads s t)) (current_priority (threads s ow)) \<and>
    frames s' = (frames s)(t := Some (FMutexTake n time))"
proof -
  let ?f = "oflag (objs s (OMutex n))"
  define s1 where "s1 = upd_thread t (\<lambda>r. r\<lparr>th_error := RT_EOK\<rparr>) s"
  have i1: "core_inv s1" unfolding s1_def by (rule upd_thread_cong_inv [OF inv]) simp_all
  have k1: "kframe s s1" by (simp add: s1_def)
  have st1: "thread_stat s1 v = thread_stat s v" for v by (simp add: s1_def thread_stat_def tstat_def)
  have t1: "thread_stat s1 t = RT_THREAD_READY" using t by (simp add: st1)
  have al1: "is_thread ow s1" using al by (simp add: kframe_sel [OF k1])
  obtain s2 where s2: "boost t ow s1 = Some s2" "core_inv s2" "kframe s1 s2"
      "current_priority (threads s2 ow) =
        min (current_priority (threads s1 t)) (current_priority (threads s1 ow))"
      "\<forall>u. thread_stat s2 u = thread_stat s1 u"
      "\<forall>q. queues s2 (Suspend q) = queues s1 (Suspend q)"
    using boost_spec [OF i1 t1 al1 ne] by blast
  have t2: "thread_stat s2 t = RT_THREAD_READY" using t1 s2(5) by simp
  have fl: "?f = RT_IPC_FLAG_FIFO \<or> ?f = RT_IPC_FLAG_PRIO" using ok by (simp add: mutex_ok_def)
  have o2: "objs s2 (OMutex n) = objs s (OMutex n)"
    using kframe_sel(18) [OF s2(3), of "OMutex n"] by (simp add: s1_def)
  obtain s3 where s3: "suspend_with_timer t (QMutex n) ?f time s2 = Some s3"
      "queued t (QMutex n) ?f s2 s3" "core_inv s3"
    using suspend_with_timer_spec [OF s2(2) t2 fl time(2), of "QMutex n"] by blast
  note d = queuedD [OF s3(2)]
  have k: "kframe s s3" using kframe_trans [OF kframe_trans [OF k1 s2(3)] d(1)] .
  have c3: "current_thread s3 = Some t" "lock_nest s3 = 0"
    using cur ctx by (simp_all add: kframe_sel [OF k])
  have nr: "thread_stat s3 t \<noteq> RT_THREAD_READY" by (simp add: d(4))
  have ur: "thread_stat s3 u = RT_THREAD_READY" using other s2(5) st1 by (simp add: d(4))
  obtain s4 s' where s': "block_point t (FMutexTake n time) (rt_mutex_take_wake t n time) s3 = Some (Blocked, s')"
      "core_inv s'" "runs_highest s'" "current_thread s' \<noteq> Some t"
    and fr: "sched_frame s3 s4" and eq: "s' = set_frame t (Some (FMutexTake n time)) s4"
    using block_point_spec [OF s3(3) nr c3 ur] by blast
  note g = sched_frame_sel [OF fr]
  have v: "mutex_value (mutexes s n) = 0" using ok ow by (simp add: mutex_ok_def)
  have m1: "mutexes s1 = mutexes s" by (simp add: s1_def)
  have again: "mutex_take_again t n time s1 = Some (Blocked, s')"
    using v ow time(1) s2(1) s3(1) s'(1)
    by (subst mutex_take_again.simps)
      (simp add: m1 o2 boost_def rt_mutex_take_wake_def [abs_def])
  have take: "rt_mutex_take n time s = Some (Blocked, s')"
    using ok ow ne cur ctx again
    by (simp add: rt_mutex_take_def mutex_ok_def debug_defs rt_thread_self_def Let_def m1 flip: s1_def)
  have sel: "queues s' = queues s3" "threads s' = threads s3" "mutexes s' = mutexes s"
      "frames s' = (frames s)(t := Some (FMutexTake n time))" "objs s' = objs s3"
    using g kframe_sel [OF k] by (simp_all add: eq set_frame_def)
  have q': "set (queues s' (Suspend (QMutex n))) = insert t (set (queues s (Suspend (QMutex n))))"
    using ipc_insert_set(1) [OF fl] s2(6) by (simp add: sel d(2)) (simp add: s1_def)
  have "mutex_ok n s'"
    using ok ow ne q' kframe_sel(18) [OF k, of "OMutex n"]
    by (auto simp: mutex_ok_def sel is_mutex_def rt_object_get_type_def)
  moreover have "thread_stat s' t = RT_THREAD_SUSPEND"
    using d(4) [of t] by (simp add: thread_stat_def sel)
  moreover have "current_priority (threads s' ow) =
      min (current_priority (threads s t)) (current_priority (threads s ow))"
    using s2(4) ne by (simp add: sel d(3)) (simp add: s1_def)
  ultimately show ?thesis using take s'(2-4) sel(3,4) q' by blast
qed

section \<open>Releasing\<close>

lemma mutex_release_not_owner:
  assumes "is_mutex n s" "current_thread s = Some t" "irq_nest s = 0" "owner (mutexes s n) \<noteq> Some t"
  shows "rt_mutex_release n s =
    Some (- RT_ERROR, upd_thread t (\<lambda>r. r\<lparr>th_error := - RT_ERROR\<rparr>) s)"
  using assms by (simp add: rt_mutex_release_def debug_defs rt_thread_self_def)

lemma mutex_release_nested:
  assumes "mutex_ok n s" "current_thread s = Some t" "irq_nest s = 0"
    and "owner (mutexes s n) = Some t" "hold (mutexes s n) \<noteq> 1"
  shows "rt_mutex_release n s = Some (RT_EOK, upd_mutex n (\<lambda>r. r\<lparr>hold := hold r - 1\<rparr>) s)"
  using assms by (simp add: rt_mutex_release_def debug_defs rt_thread_self_def mutex_ok_def)

text \<open>The owner gets its own priority back.\<close>

definition restore :: "tid \<Rightarrow> nat \<Rightarrow> kernel \<Rightarrow> kernel option" where
  "restore t n s =
     (if original_priority (mutexes s n) \<noteq> current_priority (threads s t) then do {
        (e, s) \<leftarrow> rt_thread_control t RT_THREAD_CTRL_CHANGE_PRIORITY
                   (original_priority (mutexes s n)) s;
        Some s
      }
      else Some s)"

lemma restore_spec:
  assumes inv: "core_inv s" and al: "is_thread t s"
    and p: "unat (original_priority (mutexes s n)) < RT_THREAD_PRIORITY_MAX"
  shows "\<exists>s'. restore t n s = Some s' \<and> core_inv s' \<and> kframe s s' \<and>
    current_priority (threads s' t) = original_priority (mutexes s n) \<and>
    (\<forall>u. u \<noteq> t \<longrightarrow> threads s' u = threads s u) \<and> (\<forall>u. thread_stat s' u = thread_stat s u) \<and>
    (\<forall>q. queues s' (Suspend q) = queues s (Suspend q))"
proof (cases "original_priority (mutexes s n) = current_priority (threads s t)")
  case True
  then show ?thesis using inv by (simp add: restore_def)
next
  case False
  obtain s' where s': "change_priority t (original_priority (mutexes s n)) s = Some s'"
    using change_priority_ready [OF inv _ p, of t] change_priority_blocked [OF inv _ p, of t] by blast
  note c = change_priority_inv [OF inv s']
  have "restore t n s = Some s'"
    using False s' by (simp add: restore_def rt_thread_control_priority [OF al])
  then show ?thesis using c(1,2,4,7-9) by auto
qed

lemma mutex_release_unfold:
  assumes "mutex_ok n s" "current_thread s = Some t" "irq_nest s = 0"
    and "owner (mutexes s n) = Some t" "hold (mutexes s n) = 1"
    and "restore t n (upd_mutex n (\<lambda>r. r\<lparr>hold := 0\<rparr>) s) = Some s1"
  shows "rt_mutex_release n s = (do {
     (need_schedule, s) \<leftarrow>
       (case queues s1 (Suspend (QMutex n)) of
          w # _ \<Rightarrow> do {
            let s = upd_mutex n (\<lambda>r. r\<lparr>owner := Some w,
                      original_priority := current_priority (threads s1 w),
                      hold := hold r + 1\<rparr>) s1;
            (e, s) \<leftarrow> rt_ipc_list_resume (QMutex n) s;
            Some (True, s)
          }
        | [] \<Rightarrow> Some (False, upd_mutex n (\<lambda>r. r\<lparr>mutex_value := mutex_value r + 1,
                  owner := None, original_priority := 0xff\<rparr>) s1));
     s \<leftarrow> (if need_schedule then rt_schedule s else Some s);
     Some (RT_EOK, s) })"
proof -
  have u: "upd_mutex n (\<lambda>r. r\<lparr>hold := hold r - 1\<rparr>) s = upd_mutex n (\<lambda>r. r\<lparr>hold := 0\<rparr>) s"
    using assms(5) by (simp add: upd_mutex_def)
  show ?thesis
    unfolding rt_mutex_release_def Let_def u restore_def [symmetric]
    using assms by (simp add: debug_defs rt_thread_self_def mutex_ok_def split: list.splits)
qed

text \<open>Without a waiting thread the mutex is free again.\<close>

lemma mutex_release_free:
  assumes inv: "core_inv s" and ok: "mutex_ok n s" and cur: "current_thread s = Some t"
    and irq: "irq_nest s = 0" and ow: "owner (mutexes s n) = Some t" and h: "hold (mutexes s n) = 1"
    and al: "is_thread t s" and q: "queues s (Suspend (QMutex n)) = []"
  shows "\<exists>s'. rt_mutex_release n s = Some (RT_EOK, s') \<and> core_inv s' \<and> mutex_ok n s' \<and>
    mutexes s' n = free_mutex \<and> current_thread s' = Some t \<and>
    current_priority (threads s' t) = original_priority (mutexes s n) \<and>
    (\<forall>u. u \<noteq> t \<longrightarrow> threads s' u = threads s u)"
proof -
  let ?s0 = "upd_mutex n (\<lambda>r. r\<lparr>hold := 0\<rparr>) s"
  have m: "mutex_value (mutexes s n) = 0" "unat (original_priority (mutexes s n)) < RT_THREAD_PRIORITY_MAX"
    using ok ow by (simp_all add: mutex_ok_def)
  have al0: "is_thread t ?s0" using al by (simp add: is_thread_def rt_object_get_type_def)
  obtain s1 where s1: "restore t n ?s0 = Some s1" "core_inv s1" "kframe ?s0 s1"
      "current_priority (threads s1 t) = original_priority (mutexes s n)"
      "\<forall>u. u \<noteq> t \<longrightarrow> threads s1 u = threads s u" "queues s1 (Suspend (QMutex n)) = []"
    using restore_spec [OF upd_mutex_core_inv [OF inv] al0, of n] m(2) q by auto
  let ?s2 = "upd_mutex n (\<lambda>r. r\<lparr>mutex_value := mutex_value r + 1,
                  owner := None, original_priority := 0xff\<rparr>) s1"
  have "rt_mutex_release n s = Some (RT_EOK, ?s2)"
    using mutex_release_unfold [OF ok cur irq ow h s1(1)] s1(6) by simp
  moreover have "mutexes s1 n = (mutexes s n)\<lparr>hold := 0\<rparr>"
    using kframe_sel(7) [OF s1(3)] by simp
  moreover have "objs s1 (OMutex n) = objs s (OMutex n)"
    using kframe_sel(18) [OF s1(3), of "OMutex n"] by simp
  ultimately show ?thesis
    using s1(2,4-6) m ok cur kframe_sel(3) [OF s1(3)]
    by (intro exI [of _ ?s2])
      (simp add: mutex_ok_def is_mutex_def rt_object_get_type_def free_mutex_def)
qed

text \<open>With a waiting thread the mutex is handed over, and the highest ready thread runs.\<close>

lemma mutex_release_handover:
  assumes inv: "core_inv s" and ok: "mutex_ok n s" and cur: "current_thread s = Some t"
    and ctx: "irq_nest s = 0" "lock_nest s = 0"
    and ow: "owner (mutexes s n) = Some t" and h: "hold (mutexes s n) = 1"
    and al: "is_thread t s" and q: "queues s (Suspend (QMutex n)) = w # ws"
  shows "\<exists>s'. rt_mutex_release n s = Some (RT_EOK, s') \<and> core_inv s' \<and> mutex_ok n s' \<and>
    mutexes s' n = \<lparr>mutex_value = 0, original_priority = current_priority (threads s w), hold = 1,
      owner = Some w\<rparr> \<and> queues s' (Suspend (QMutex n)) = ws \<and>
    thread_stat s' w = RT_THREAD_READY \<and> runs_highest s' \<and>
    current_priority (threads s' t) = original_priority (mutexes s n)"
proof -
  let ?s0 = "upd_mutex n (\<lambda>r. r\<lparr>hold := 0\<rparr>) s"
  have m: "mutex_value (mutexes s n) = 0" "unat (original_priority (mutexes s n)) < RT_THREAD_PRIORITY_MAX"
      "t \<noteq> w"
    using ok ow q by (auto simp: mutex_ok_def)
  have al0: "is_thread t ?s0" using al by (simp add: is_thread_def rt_object_get_type_def)
  obtain s1 where s1: "restore t n ?s0 = Some s1" "core_inv s1" "kframe ?s0 s1"
      "current_priority (threads s1 t) = original_priority (mutexes s n)"
      "\<forall>u. u \<noteq> t \<longrightarrow> threads s1 u = threads s u" "queues s1 (Suspend (QMutex n)) = w # ws"
    using restore_spec [OF upd_mutex_core_inv [OF inv] al0, of n] m(2) q by auto
  note k1 = kframe_sel [OF s1(3)]
  define s2 where "s2 = upd_mutex n (\<lambda>r. r\<lparr>owner := Some w,
      original_priority := current_priority (threads s1 w), hold := hold r + 1\<rparr>) s1"
  have i2: "core_inv s2" unfolding s2_def by (rule upd_mutex_core_inv [OF s1(2)])
  have q2: "queues s2 (Suspend (QMutex n)) = w # ws" by (simp add: s2_def s1(6))
  obtain s3 where s3: "rt_ipc_list_resume (QMutex n) s2 = Some (RT_EOK, s3)" "resumed w s2 s3"
      "core_inv s3" "queues s3 (Suspend (QMutex n)) = ws"
    using rt_ipc_list_resume_spec [OF i2 q2] by blast
  note d = resumedD [OF s3(2)] and k3 = kframe_sel [OF resumedD(1) [OF s3(2)]]
  have ne: "queues s3 (Ready (unat (current_priority (threads s2 w)))) \<noteq> []"
    by (simp add: d(2) q_insert_tail_def)
  have c3: "current_thread s3 \<noteq> None" "lock_nest s3 = 0"
    using cur ctx k1 k3 by (simp_all add: s2_def)
  obtain s' where s': "rt_schedule s3 = Some s'"
    using rt_schedule_total [OF core_invD(1) [OF s3(3)] ne c3(1)] by blast
  note g = rt_schedule_sel [OF s']
  have rel: "rt_mutex_release n s = Some (RT_EOK, s')"
    using mutex_release_unfold [OF ok cur ctx(1) ow h s1(1)] s1(6) s3(1) s'
    by (simp add: s2_def)
  have mx: "mutexes s' n = \<lparr>mutex_value = 0, original_priority = current_priority (threads s w), hold = 1,
      owner = Some w\<rparr>"
    using m s1(5) k1(7) k3(7) by (simp add: g s2_def)
  have pw: "unat (current_priority (threads s w)) < RT_THREAD_PRIORITY_MAX"
    using sched_okD(3) [OF core_invD(1) [OF inv], of w "QMutex n"]
      sched_okD(5) [OF core_invD(1) [OF inv], of w] q by (simp add: thread_ok_def)
  have "objs s' (OMutex n) = objs s (OMutex n)"
    using k3(18) [of "OMutex n"] k1(18) [of "OMutex n"] by (simp add: g s2_def)
  moreover have "w \<notin> set ws"
    using q_okD(1) [OF sched_okD(1) [OF core_invD(1) [OF inv]], of "Suspend (QMutex n)"] q by simp
  ultimately have "mutex_ok n s'"
    using ok mx pw s3(4) by (simp add: mutex_ok_def is_mutex_def rt_object_get_type_def g)
  moreover have "core_inv s'" using s3(3) rt_schedule_core_inv [OF s'] by simp
  moreover have "runs_highest s'" by (rule rt_schedule_runs_highest [OF s' c3(2)])
  moreover have "thread_stat s' w = RT_THREAD_READY"
    using d(6) [of w] by (simp add: thread_stat_def g)
  moreover have "current_priority (threads s' t) = original_priority (mutexes s n)"
    using s1(4) m(3) by (simp add: g d(3)) (simp add: s2_def)
  ultimately show ?thesis using rel mx s3(4) g by auto
qed

end
