(* ===== verification/Event.thy ===== *)
theory Event
  imports Ipc
begin

text \<open>
  Events of \<^verbatim>\<open>src/ipc.c\<close>: a set of 32 flags for which threads wait, all of them (AND) or any of
  them (OR), taking them away (CLEAR) or not.

  \<open>ev_scan\<close> is the effect of sending events on the waiting threads, as a function of the flags
  and the queue alone; the loop of \<^verbatim>\<open>rt_event_send\<close> refines it.
\<close>

section \<open>The routines\<close>

definition RT_EVENT_FLAG_AND :: u8 where "RT_EVENT_FLAG_AND = 0x01"
definition RT_EVENT_FLAG_OR :: u8 where "RT_EVENT_FLAG_OR = 0x02"
definition RT_EVENT_FLAG_CLEAR :: u8 where "RT_EVENT_FLAG_CLEAR = 0x04"

lemmas evflag_defs = RT_EVENT_FLAG_AND_def RT_EVENT_FLAG_OR_def RT_EVENT_FLAG_CLEAR_def

definition is_event :: "nat \<Rightarrow> kernel \<Rightarrow> bool" where
  "is_event n s \<longleftrightarrow> rt_object_get_type (OEvent n) s = RT_Object_Class_Event"

definition upd_event :: "nat \<Rightarrow> (rt_event \<Rightarrow> rt_event) \<Rightarrow> kernel \<Rightarrow> kernel" where
  "upd_event n f s = s\<lparr>events := (events s)(n := f (events s n))\<rparr>"

definition rt_event_init :: "nat \<Rightarrow> string \<Rightarrow> u8 \<Rightarrow> kernel \<Rightarrow> (rt_err_t \<times> kernel) option" where
  "rt_event_init n name flag s = do {
     s \<leftarrow> rt_object_init (OEvent n) RT_Object_Class_Event name s;
     let s = upd_obj (OEvent n) (\<lambda>r. r\<lparr>oflag := flag\<rparr>) s;
     let s = rt_ipc_object_init (QEvent n) s;
     Some (RT_EOK, upd_event n (\<lambda>r. r\<lparr>ev_set := 0\<rparr>) s)
   }"

definition rt_event_detach :: "nat \<Rightarrow> kernel \<Rightarrow> (rt_err_t \<times> kernel) option" where
  "rt_event_detach n s = do {
     RT_ASSERT (is_event n s);
     RT_ASSERT (rt_object_is_systemobject (OEvent n) s);
     s \<leftarrow> rt_ipc_list_resume_all (QEvent n) s;
     Some (RT_EOK, rt_object_detach (OEvent n) s)
   }"

definition rt_event_create ::
  "oref option \<Rightarrow> string \<Rightarrow> u8 \<Rightarrow> kernel \<Rightarrow> (nat option \<times> kernel) option" where
  "rt_event_create mem name flag s = do {
     RT_DEBUG_NOT_IN_INTERRUPT s;
     (x, s) \<leftarrow> rt_object_allocate mem RT_Object_Class_Event name s;
     (case x of
        Some (OEvent n) \<Rightarrow>
          let s = upd_obj (OEvent n) (\<lambda>r. r\<lparr>oflag := flag\<rparr>) s;
              s = rt_ipc_object_init (QEvent n) s
          in Some (Some n, upd_event n (\<lambda>r. r\<lparr>ev_set := 0\<rparr>) s)
      | _ \<Rightarrow> Some (None, s))
   }"

definition rt_event_delete :: "nat \<Rightarrow> kernel \<Rightarrow> (rt_err_t \<times> kernel) option" where
  "rt_event_delete n s = do {
     RT_ASSERT (is_event n s);
     RT_ASSERT (\<not> rt_object_is_systemobject (OEvent n) s);
     RT_DEBUG_NOT_IN_INTERRUPT s;
     s \<leftarrow> rt_ipc_list_resume_all (QEvent n) s;
     s \<leftarrow> rt_object_delete (OEvent n) s;
     Some (RT_EOK, s)
   }"

text \<open>The test that the loop of \<^verbatim>\<open>rt_event_send\<close> makes for one waiting thread, and what the
  thread's \<^verbatim>\<open>event_set\<close> is afterwards.\<close>

definition event_match :: "u8 \<Rightarrow> u32 \<Rightarrow> u32 \<Rightarrow> bool" where
  "event_match info want ev \<longleftrightarrow>
     (if info AND RT_EVENT_FLAG_AND \<noteq> 0 then want AND ev = want
      else info AND RT_EVENT_FLAG_OR \<noteq> 0 \<and> want AND ev \<noteq> 0)"

definition event_got :: "u8 \<Rightarrow> u32 \<Rightarrow> u32 \<Rightarrow> u32" where
  "event_got info want ev = (if info AND RT_EVENT_FLAG_AND \<noteq> 0 then want else want AND ev)"

text \<open>The loop over the queue; the successor of a node is read before the thread is unlinked, so
  it runs over the queue as it was at the start.\<close>

fun event_send_loop :: "nat \<Rightarrow> tid list \<Rightarrow> bool \<Rightarrow> kernel \<Rightarrow> (bool \<times> kernel) option" where
  "event_send_loop n [] need_schedule s = Some (need_schedule, s)"
| "event_send_loop n (t # ts) need_schedule s =
     (let info = event_info (threads s t); want = event_set (threads s t);
          ev = ev_set (events s n)
      in if event_match info want ev then do {
           let s = upd_thread t (\<lambda>r. r\<lparr>event_set := event_got info want ev\<rparr>) s;
           let s = (if info AND RT_EVENT_FLAG_CLEAR \<noteq> 0
                    then upd_event n (\<lambda>r. r\<lparr>ev_set := ev_set r AND NOT (event_set (threads s t))\<rparr>) s
                    else s);
           (e, s) \<leftarrow> rt_thread_resume t s;
           event_send_loop n ts True s
         }
         else event_send_loop n ts need_schedule s)"

definition rt_event_send :: "nat \<Rightarrow> u32 \<Rightarrow> kernel \<Rightarrow> (rt_err_t \<times> kernel) option" where
  "rt_event_send n evset s = do {
     RT_ASSERT (is_event n s);
     (if evset = 0 then Some (- RT_ERROR, s)
      else do {
        let s = upd_event n (\<lambda>r. r\<lparr>ev_set := ev_set r OR evset\<rparr>) s;
        (need_schedule, s) \<leftarrow> event_send_loop n (queues s (Suspend (QEvent n))) False s;
        s \<leftarrow> (if need_schedule then rt_schedule s else Some s);
        Some (RT_EOK, s)
      })
   }"

text \<open>The result is the error and what was stored in \<^verbatim>\<open>*recved\<close>, if anything was.\<close>

definition rt_event_recv_wake ::
  "tid \<Rightarrow> kernel \<Rightarrow> ((rt_err_t \<times> u32 option) call \<times> kernel) option" where
  "rt_event_recv_wake t s =
     (if th_error (threads s t) \<noteq> RT_EOK then Some (Return (th_error (threads s t), None), s)
      else Some (Return (th_error (threads s t), Some (event_set (threads s t))), s))"

definition event_test :: "u8 \<Rightarrow> u32 \<Rightarrow> u32 \<Rightarrow> bool option" where
  "event_test option evset ev =
     (if option AND RT_EVENT_FLAG_AND \<noteq> 0 then Some (ev AND evset = evset)
      else if option AND RT_EVENT_FLAG_OR \<noteq> 0 then Some (ev AND evset \<noteq> 0)
      else None)"

definition rt_event_recv ::
  "nat \<Rightarrow> u32 \<Rightarrow> u8 \<Rightarrow> u32 \<Rightarrow> kernel \<Rightarrow> ((rt_err_t \<times> u32 option) call \<times> kernel) option" where
  "rt_event_recv n evset option timeout s = do {
     RT_DEBUG_IN_THREAD_CONTEXT s;
     RT_ASSERT (is_event n s);
     (if evset = 0 then Some (Return (- RT_ERROR, None), s)
      else do {
        t \<leftarrow> rt_thread_self s;
        let s = upd_thread t (\<lambda>r. r\<lparr>th_error := RT_EOK\<rparr>) s;
        ok \<leftarrow> event_test option evset (ev_set (events s n));
        (if ok then
           Some (Return (th_error (threads s t), Some (ev_set (events s n) AND evset)),
             if option AND RT_EVENT_FLAG_CLEAR \<noteq> 0
             then upd_event n (\<lambda>r. r\<lparr>ev_set := ev_set r AND NOT evset\<rparr>) s else s)
         else if timeout = 0 then
           Some (Return (- RT_ETIMEOUT, None), upd_thread t (\<lambda>r. r\<lparr>th_error := - RT_ETIMEOUT\<rparr>) s)
         else do {
           let s = upd_thread t (\<lambda>r. r\<lparr>event_set := evset, event_info := option\<rparr>) s;
           s \<leftarrow> suspend_with_timer t (QEvent n) (oflag (objs s (OEvent n))) timeout s;
           block_point t (FEventRecv n) (rt_event_recv_wake t) s
         })
      })
   }"

definition rt_event_control :: "nat \<Rightarrow> int \<Rightarrow> u32 \<Rightarrow> kernel \<Rightarrow> (rt_err_t \<times> kernel) option" where
  "rt_event_control n cmd arg s = do {
     RT_ASSERT (is_event n s);
     (if cmd = RT_IPC_CMD_RESET then do {
        s \<leftarrow> rt_ipc_list_resume_all (QEvent n) s;
        let s = upd_event n (\<lambda>r. r\<lparr>ev_set := 0\<rparr>) s;
        s \<leftarrow> rt_schedule s;
        Some (RT_EOK, s)
      }
      else Some (- RT_ERROR, s))
   }"

section \<open>Flags\<close>

text \<open>A thread that is not satisfied stays so when flags are taken away.\<close>

lemma event_match_mono:
  assumes "event_match info want e'" "e' AND e = e'"
  shows "event_match info want e"
proof -
  have b: "bit e i" if "bit e' i" for i using that assms(2) by (metis bit_and_iff)
  show ?thesis
  proof (cases "info AND RT_EVENT_FLAG_AND \<noteq> 0")
    case True
    then have "want AND e' = want" using assms(1) by (simp add: event_match_def)
    then have "bit want i \<Longrightarrow> bit e i" for i by (metis bit_and_iff b)
    then have "want AND e = want" by (intro bit_eqI) (auto simp: bit_and_iff)
    then show ?thesis using True by (simp add: event_match_def)
  next
    case False
    then have o: "info AND RT_EVENT_FLAG_OR \<noteq> 0" "want AND e' \<noteq> 0"
      using assms(1) by (simp_all add: event_match_def)
    then obtain i where "bit want i" "bit e' i"
      by (metis (no_types) bit_and_iff bit_0_eq bit_eqI bot_apply bot_bool_def)
    then have "bit (want AND e) i" using b by (simp add: bit_and_iff)
    then have "want AND e \<noteq> 0" by auto
    then show ?thesis using False o by (simp add: event_match_def)
  qed
qed

text \<open>The effect of sending, on flags and queue: the flags that are left, and the threads that
  are satisfied with what each received.\<close>

fun ev_scan :: "(tid \<Rightarrow> rt_thread) \<Rightarrow> u32 \<Rightarrow> tid list \<Rightarrow> u32 \<times> (tid \<times> u32) list" where
  "ev_scan th ev [] = (ev, [])"
| "ev_scan th ev (t # ts) =
     (let info = event_info (th t); want = event_set (th t) in
      if event_match info want ev
      then let got = event_got info want ev;
               r = ev_scan th (if info AND RT_EVENT_FLAG_CLEAR \<noteq> 0 then ev AND NOT got else ev) ts
           in (fst r, (t, got) # snd r)
      else ev_scan th ev ts)"

lemma ev_scan_set: "fst ` set (snd (ev_scan th ev ts)) \<subseteq> set ts"
proof (induction ts arbitrary: ev)
  case (Cons t ts)
  then show ?case by (simp add: Let_def subset_insertI2)
qed simp

lemma ev_scan_distinct: "distinct ts \<Longrightarrow> distinct (map fst (snd (ev_scan th ev ts)))"
proof (induction ts arbitrary: ev)
  case (Cons t ts)
  have "t \<notin> fst ` set (snd (ev_scan th e ts))" for e
    using ev_scan_set [of th e ts] Cons.prems by auto
  then show ?case using Cons by (simp add: Let_def)
qed simp

lemma ev_scan_subset: "fst (ev_scan th ev ts) AND ev = fst (ev_scan th ev ts)"
proof (induction ts arbitrary: ev)
  case (Cons t ts)
  have clear: "x AND ev = x" if "x AND (ev AND NOT g) = x" for x g :: u32
    using that by (metis and.assoc and.commute and.idem)
  show ?case using Cons clear by (simp add: Let_def) blast
qed simp

lemma ev_scan_unsatisfied:
  assumes "t \<in> set ts" "t \<notin> fst ` set (snd (ev_scan th ev ts))"
  shows "\<not> event_match (event_info (th t)) (event_set (th t)) (fst (ev_scan th ev ts))"
  using assms
proof (induction ts arbitrary: ev)
  case (Cons u ts)
  show ?case
  proof (cases "event_match (event_info (th u)) (event_set (th u)) ev")
    case True
    then show ?thesis using Cons by (auto simp: Let_def split: if_splits)
  next
    case False
    show ?thesis
    proof (cases "t = u \<and> t \<notin> set ts")
      case True
      have "\<not> event_match (event_info (th u)) (event_set (th u)) (fst (ev_scan th ev ts))"
        using False event_match_mono ev_scan_subset by blast
      then show ?thesis using True False by (simp add: Let_def)
    next
      case not: False
      then show ?thesis using Cons False by (auto simp: Let_def)
    qed
  qed
qed simp

section \<open>Sending\<close>

lemma upd_event_sel [simp]:
  "events (upd_event n f s) = (events s)(n := f (events s n))"
  "queues (upd_event n f s) = queues s" "sems (upd_event n f s) = sems s"
  "threads (upd_event n f s) = threads s" "objs (upd_event n f s) = objs s"
  "ready_group (upd_event n f s) = ready_group s" "timers (upd_event n f s) = timers s"
  "timer_list (upd_event n f s) = timer_list s" "rt_tick (upd_event n f s) = rt_tick s"
  "container (upd_event n f s) = container s" "current_thread (upd_event n f s) = current_thread s"
  "lock_nest (upd_event n f s) = lock_nest s" "irq_nest (upd_event n f s) = irq_nest s"
  "frames (upd_event n f s) = frames s" "mutexes (upd_event n f s) = mutexes s"
  "mailboxes (upd_event n f s) = mailboxes s" "mqs (upd_event n f s) = mqs s"
  by (simp_all add: upd_event_def)

lemma upd_event_core_inv [simp]: "core_inv s \<Longrightarrow> core_inv (upd_event n f s)"
  by (rule core_inv_cong) simp_all

text \<open>What the threads look like after those in \<open>ws\<close> were released.\<close>

definition released :: "(tid \<times> u32) list \<Rightarrow> (tid \<Rightarrow> rt_thread) \<Rightarrow> tid \<Rightarrow> rt_thread" where
  "released ws th t = (case map_of ws t of
     None \<Rightarrow> th t | Some got \<Rightarrow> with_stat RT_THREAD_READY ((th t)\<lparr>event_set := got\<rparr>))"

definition sent :: "nat \<Rightarrow> u32 \<Rightarrow> (tid \<times> u32) list \<Rightarrow> kernel \<Rightarrow> kernel \<Rightarrow> bool" where
  "sent n ev ws s s' \<longleftrightarrow> ev_set (events s' n) = ev \<and> threads s' = released ws (threads s) \<and>
     queues s' (Suspend (QEvent n)) =
       filter (\<lambda>t. t \<notin> fst ` set ws) (queues s (Suspend (QEvent n))) \<and>
     objs s' (OEvent n) = objs s (OEvent n) \<and> lock_nest s' = lock_nest s \<and>
     current_thread s' = current_thread s \<and> irq_nest s' = irq_nest s"

lemma resume_event_step:
  assumes inv: "core_inv s" and t: "t \<in> set (queues s (Suspend (QEvent n)))"
  shows "\<exists>s2. rt_thread_resume t (if c then upd_event n f (upd_thread t (\<lambda>r. r\<lparr>event_set := got\<rparr>) s)
           else upd_thread t (\<lambda>r. r\<lparr>event_set := got\<rparr>) s) = Some (RT_EOK, s2) \<and> core_inv s2 \<and>
    threads s2 = (threads s)(t := with_stat RT_THREAD_READY ((threads s t)\<lparr>event_set := got\<rparr>)) \<and>
    queues s2 (Suspend (QEvent n)) = removeAll t (queues s (Suspend (QEvent n))) \<and>
    events s2 = (if c then (events s)(n := f (events s n)) else events s) \<and>
    objs s2 (OEvent n) = objs s (OEvent n) \<and> lock_nest s2 = lock_nest s \<and>
    current_thread s2 = current_thread s \<and> irq_nest s2 = irq_nest s \<and>
    queues s2 (Ready (unat (current_priority (threads s t)))) \<noteq> []"
proof -
  define s1 where "s1 = (if c then upd_event n f (upd_thread t (\<lambda>r. r\<lparr>event_set := got\<rparr>) s)
           else upd_thread t (\<lambda>r. r\<lparr>event_set := got\<rparr>) s)"
  have i0: "core_inv (upd_thread t (\<lambda>r. r\<lparr>event_set := got\<rparr>) s)"
    by (rule upd_thread_cong_inv [OF inv]) simp_all
  have i1: "core_inv s1" using upd_event_core_inv [OF i0, of n f] i0 by (simp add: s1_def)
  have sel1: "threads s1 = (threads s)(t := (threads s t)\<lparr>event_set := got\<rparr>)" "queues s1 = queues s"
      "events s1 = (if c then (events s)(n := f (events s n)) else events s)" "objs s1 = objs s"
      "lock_nest s1 = lock_nest s" "current_thread s1 = current_thread s" "irq_nest s1 = irq_nest s"
    by (simp_all add: s1_def)
  have "thread_stat s t = RT_THREAD_SUSPEND"
    using sched_okD(3) [OF core_invD(1) [OF inv] t] by (simp add: thread_stat_def)
  then have "thread_stat s1 t = RT_THREAD_SUSPEND" by (simp add: thread_stat_def sel1 tstat_def)
  then obtain s2 where s2: "rt_thread_resume t s1 = Some (RT_EOK, s2)" "resumed t s1 s2" "core_inv s2"
    using rt_thread_resume_spec [OF i1] by blast
  note d = resumedD [OF s2(2)] and k = kframe_sel [OF resumedD(1) [OF s2(2)]]
  show ?thesis
    using s2(1,3) d(2,3) k(1,3,5,8) k(18) [of "OEvent n"]
    by (intro exI [of _ s2]) (simp add: sel1 q_defs flip: s1_def)
qed

lemma event_send_loop_spec:
  assumes "core_inv s" "queues s (Suspend (QEvent n)) = xs @ ts"
  shows "\<exists>s'. event_send_loop n ts b s = Some (b \<or> snd (ev_scan (threads s) (ev_set (events s n)) ts) \<noteq> [], s') \<and>
    core_inv s' \<and> sent n (fst (ev_scan (threads s) (ev_set (events s n)) ts))
      (snd (ev_scan (threads s) (ev_set (events s n)) ts)) s s' \<and>
    (snd (ev_scan (threads s) (ev_set (events s n)) ts) = [] \<longrightarrow> s' = s) \<and>
    (snd (ev_scan (threads s) (ev_set (events s n)) ts) \<noteq> [] \<longrightarrow> (\<exists>p. queues s' (Ready p) \<noteq> []))"
  using assms
proof (induction ts arbitrary: s b xs)
  case Nil
  then show ?case by (simp add: sent_def released_def fun_eq_iff)
next
  case (Cons t ts)
  note inv = Cons.prems(1) and q = Cons.prems(2)
  let ?info = "event_info (threads s t)" and ?want = "event_set (threads s t)"
  let ?ev = "ev_set (events s n)"
  show ?case
  proof (cases "event_match ?info ?want ?ev")
    case False
    have "queues s (Suspend (QEvent n)) = (xs @ [t]) @ ts" using q by simp
    from Cons.IH [OF inv this, of b] False show ?thesis by (simp add: Let_def)
  next
    case True
    let ?got = "event_got ?info ?want ?ev"
    let ?c = "?info AND RT_EVENT_FLAG_CLEAR \<noteq> 0"
    let ?f = "\<lambda>r. r\<lparr>ev_set := ev_set r AND NOT ?got\<rparr>"
    have dist: "distinct (xs @ t # ts)"
      using q_okD(1) [OF sched_okD(1) [OF core_invD(1) [OF inv]], of "Suspend (QEvent n)"] q by simp
    have "t \<in> set (queues s (Suspend (QEvent n)))" using q by simp
    from resume_event_step [OF inv this, of ?c ?f ?got]
    obtain s2 where s2: "rt_thread_resume t (if ?c then upd_event n ?f (upd_thread t (\<lambda>r. r\<lparr>event_set := ?got\<rparr>) s)
           else upd_thread t (\<lambda>r. r\<lparr>event_set := ?got\<rparr>) s) = Some (RT_EOK, s2)" "core_inv s2"
      "threads s2 = (threads s)(t := with_stat RT_THREAD_READY ((threads s t)\<lparr>event_set := ?got\<rparr>))"
      "queues s2 (Suspend (QEvent n)) = removeAll t (queues s (Suspend (QEvent n)))"
      "events s2 = (if ?c then (events s)(n := ?f (events s n)) else events s)"
      "objs s2 (OEvent n) = objs s (OEvent n)" "lock_nest s2 = lock_nest s"
      "current_thread s2 = current_thread s" "irq_nest s2 = irq_nest s"
      "queues s2 (Ready (unat (current_priority (threads s t)))) \<noteq> []"
      by blast
    have q2: "queues s2 (Suspend (QEvent n)) = xs @ ts" using s2(4) q dist by simp
    have ev2: "ev_set (events s2 n) = (if ?c then ?ev AND NOT ?got else ?ev)" by (simp add: s2(5))
    have th: "ev_scan (threads s2) e ts = ev_scan (threads s) e ts" for e
    proof -
      have "\<forall>u \<in> set us. th u = th' u \<Longrightarrow> ev_scan th e us = ev_scan th' e us" for th th' us e
        by (induction us arbitrary: e) (simp_all add: Let_def)
      then show ?thesis using dist by (simp add: s2(3))
    qed
    let ?r = "ev_scan (threads s) (ev_set (events s2 n)) ts"
    obtain s' where s': "event_send_loop n ts True s2 = Some (True, s')" "core_inv s'"
      "sent n (fst ?r) (snd ?r) s2 s'" "snd ?r = [] \<longrightarrow> s' = s2"
      "snd ?r \<noteq> [] \<longrightarrow> (\<exists>p. queues s' (Ready p) \<noteq> [])"
      using Cons.IH [OF s2(2) q2, of True] unfolding th by auto
    have r: "ev_scan (threads s) ?ev (t # ts) = (fst ?r, (t, ?got) # snd ?r)"
      using True by (simp add: Let_def ev2)
    have nt: "t \<notin> fst ` set (snd ?r)" using ev_scan_set [of "threads s" _ ts] dist by auto
    have "released (snd ?r) (threads s2) = released ((t, ?got) # snd ?r) (threads s)"
    proof
      fix u
      have "map_of (snd ?r) t = None" using nt by (simp add: map_of_eq_None_iff)
      then show "released (snd ?r) (threads s2) u = released ((t, ?got) # snd ?r) (threads s) u"
        by (cases "u = t") (simp_all add: released_def s2(3) split: option.split)
    qed
    moreover have "filter (\<lambda>u. u \<notin> fst ` set (snd ?r)) (xs @ ts) =
        filter (\<lambda>u. u \<notin> fst ` set ((t, ?got) # snd ?r)) (xs @ t # ts)"
    proof -
      have "filter (\<lambda>u. u \<notin> insert t A) us = filter (\<lambda>u. u \<notin> A) us" if "t \<notin> set us" for A us
        using that by (intro filter_cong) auto
      then show ?thesis using dist by simp
    qed
    ultimately have "sent n (fst ?r) ((t, ?got) # snd ?r) s s'"
      using s'(3) s2(6-9) q q2 by (simp add: sent_def)
    moreover have "event_send_loop n (t # ts) b s = Some (True, s')"
      using True s2(1) s'(1) by (simp add: Let_def cong: if_cong)
    ultimately show ?thesis using s'(2,4,5) s2(10) unfolding r by auto
  qed
qed

text \<open>No waiting thread is left on the queue whose flags are all there: what every operation on
  an event keeps.\<close>

definition event_ok :: "nat \<Rightarrow> kernel \<Rightarrow> bool" where
  "event_ok n s \<longleftrightarrow> is_event n s \<and>
     (oflag (objs s (OEvent n)) = RT_IPC_FLAG_FIFO \<or> oflag (objs s (OEvent n)) = RT_IPC_FLAG_PRIO) \<and>
     (\<forall>t \<in> set (queues s (Suspend (QEvent n))).
        \<not> event_match (event_info (threads s t)) (event_set (threads s t)) (ev_set (events s n)))"

lemma is_event_cong: "objs s' (OEvent n) = objs s (OEvent n) \<Longrightarrow> is_event n s' = is_event n s"
  by (simp add: is_event_def rt_object_get_type_def)

lemma released_other: "t \<notin> fst ` set ws \<Longrightarrow> released ws th t = th t"
  using map_of_eq_None_iff [of ws t] by (simp add: released_def)

lemma released_in:
  "distinct (map fst ws) \<Longrightarrow> (t, got) \<in> set ws \<Longrightarrow>
   released ws th t = with_stat RT_THREAD_READY ((th t)\<lparr>event_set := got\<rparr>)"
  by (simp add: released_def)

lemma event_send_spec:
  assumes inv: "core_inv s" and ok: "event_ok n s" and e: "evset \<noteq> 0"
    and cur: "current_thread s \<noteq> None"
    and r: "ev_scan (threads s) (ev_set (events s n) OR evset) (queues s (Suspend (QEvent n))) = (ev, ws)"
  shows "\<exists>s'. rt_event_send n evset s = Some (RT_EOK, s') \<and> core_inv s' \<and> event_ok n s' \<and>
    ev_set (events s' n) = ev \<and> threads s' = released ws (threads s) \<and>
    queues s' (Suspend (QEvent n)) = filter (\<lambda>t. t \<notin> fst ` set ws) (queues s (Suspend (QEvent n))) \<and>
    (ws \<noteq> [] \<longrightarrow> lock_nest s = 0 \<longrightarrow> runs_highest s') \<and>
    (ws = [] \<longrightarrow> current_thread s' = current_thread s)"
proof -
  let ?s1 = "upd_event n (\<lambda>r. r\<lparr>ev_set := ev_set r OR evset\<rparr>) s"
  let ?q = "queues s (Suspend (QEvent n))"
  have "queues ?s1 (Suspend (QEvent n)) = [] @ ?q" by simp
  from event_send_loop_spec [OF upd_event_core_inv [OF inv] this, of False] r
  obtain s2 where s2: "event_send_loop n ?q False ?s1 = Some (ws \<noteq> [], s2)" "core_inv s2"
      "sent n ev ws ?s1 s2" "ws = [] \<longrightarrow> s2 = ?s1" "ws \<noteq> [] \<longrightarrow> (\<exists>p. queues s2 (Ready p) \<noteq> [])"
    by auto
  have f: "ev_set (events s2 n) = ev" "threads s2 = released ws (threads s)"
      "queues s2 (Suspend (QEvent n)) = filter (\<lambda>t. t \<notin> fst ` set ws) ?q"
      "objs s2 (OEvent n) = objs s (OEvent n)" "lock_nest s2 = lock_nest s"
      "current_thread s2 = current_thread s"
    using s2(3) by (simp_all add: sent_def)
  have left: "\<not> event_match (event_info (threads s2 t)) (event_set (threads s2 t)) ev"
    if "t \<in> set (queues s2 (Suspend (QEvent n)))" for t
    using that ev_scan_unsatisfied [of t ?q "threads s" "ev_set (events s n) OR evset"]
    by (simp add: f r released_other)
  have ok2: "event_ok n s2"
    using ok left f(4) is_event_cong [OF f(4)] by (simp add: event_ok_def f(1))
  have n: "is_event n s" using ok by (simp add: event_ok_def)
  show ?thesis
  proof (cases "ws = []")
    case True
    have "rt_event_send n evset s = Some (RT_EOK, s2)"
      using n e s2(1) True by (simp add: rt_event_send_def Let_def)
    then show ?thesis using True s2(2) ok2 f by (intro exI [of _ s2]) simp
  next
    case False
    obtain p where p: "queues s2 (Ready p) \<noteq> []" using s2(5) False by blast
    obtain s' where s': "rt_schedule s2 = Some s'"
      using rt_schedule_total [OF core_invD(1) [OF s2(2)] p] cur f(6) by auto
    note g = rt_schedule_sel [OF s']
    have "rt_event_send n evset s = Some (RT_EOK, s')"
      using n e s2(1) s' False by (simp add: rt_event_send_def Let_def)
    moreover have "core_inv s'" using s2(2) rt_schedule_core_inv [OF s'] by simp
    moreover have "event_ok n s'" using ok2 by (simp add: event_ok_def is_event_def rt_object_get_type_def g)
    moreover have "lock_nest s = 0 \<longrightarrow> runs_highest s'"
      using rt_schedule_runs_highest [OF s'] f(5) by simp
    ultimately show ?thesis using False f by (intro exI [of _ s']) (simp add: g)
  qed
qed

section \<open>Receiving\<close>

text \<open>Every combination of the flags AND and OR, but not neither of them.\<close>

lemma event_test_match:
  "event_test opt want ev = (if opt AND (RT_EVENT_FLAG_AND OR RT_EVENT_FLAG_OR) = 0 then None
     else Some (event_match opt want ev))"
  by (simp add: event_test_def event_match_def bit.conj_disj_distrib or_eq_0_iff and.commute [of ev])

lemma event_recv_now:
  assumes inv: "core_inv s" and ok: "event_ok n s" and want: "want \<noteq> 0"
    and opt: "opt AND (RT_EVENT_FLAG_AND OR RT_EVENT_FLAG_OR) \<noteq> 0"
    and cur: "current_thread s = Some t" and irq: "irq_nest s = 0"
    and m: "event_match opt want (ev_set (events s n))"
    and nq: "t \<notin> set (queues s (Suspend (QEvent n)))"
  shows "\<exists>s'. rt_event_recv n want opt timeout s =
      Some (Return (RT_EOK, Some (ev_set (events s n) AND want)), s') \<and> core_inv s' \<and> event_ok n s' \<and>
    queues s' = queues s \<and> ev_set (events s' n) =
      (if opt AND RT_EVENT_FLAG_CLEAR \<noteq> 0 then ev_set (events s n) AND NOT want else ev_set (events s n))"
proof -
  let ?s1 = "upd_thread t (\<lambda>r. r\<lparr>th_error := RT_EOK\<rparr>) s"
  let ?s' = "if opt AND RT_EVENT_FLAG_CLEAR \<noteq> 0
    then upd_event n (\<lambda>r. r\<lparr>ev_set := ev_set r AND NOT want\<rparr>) ?s1 else ?s1"
  have n: "is_event n ?s1" using ok by (simp add: event_ok_def is_event_def rt_object_get_type_def)
  have i1: "core_inv ?s1" by (rule upd_thread_cong_inv [OF inv]) simp_all
  have call: "rt_event_recv n want opt timeout s =
      Some (Return (RT_EOK, Some (ev_set (events s n) AND want)), ?s')"
    using ok want opt cur irq m
    by (simp add: rt_event_recv_def event_ok_def debug_defs rt_thread_self_def Let_def event_test_match)
  have i: "core_inv ?s'" using i1 by simp
  have sub: "(e AND NOT want) AND e = e AND NOT want" for e :: u32
    by (metis and.assoc and.commute and.idem)
  have keep: "\<not> event_match (event_info (threads s u)) (event_set (threads s u))
      (ev_set (events s n) AND NOT want)" if "u \<in> set (queues s (Suspend (QEvent n)))" for u
    using ok that event_match_mono [OF _ sub] unfolding event_ok_def by blast
  have "event_ok n ?s'"
    using ok n nq keep by (auto simp: event_ok_def is_event_def rt_object_get_type_def)
  then show ?thesis using call i by (intro exI [of _ ?s']) simp
qed

lemma event_recv_timeout:
  assumes ok: "event_ok n s" and want: "want \<noteq> 0"
    and opt: "opt AND (RT_EVENT_FLAG_AND OR RT_EVENT_FLAG_OR) \<noteq> 0"
    and cur: "current_thread s = Some t" and irq: "irq_nest s = 0"
    and m: "\<not> event_match opt want (ev_set (events s n))"
  shows "\<exists>s'. rt_event_recv n want opt 0 s = Some (Return (- RT_ETIMEOUT, None), s') \<and>
    events s' = events s \<and> queues s' = queues s \<and> event_ok n s' \<and> th_error (threads s' t) = - RT_ETIMEOUT"
proof -
  let ?s' = "upd_thread t (\<lambda>r. r\<lparr>th_error := - RT_ETIMEOUT\<rparr>) (upd_thread t (\<lambda>r. r\<lparr>th_error := RT_EOK\<rparr>) s)"
  have "rt_event_recv n want opt 0 s = Some (Return (- RT_ETIMEOUT, None), ?s')"
    using ok want opt cur irq m
    by (simp add: rt_event_recv_def event_ok_def debug_defs rt_thread_self_def Let_def event_test_match)
  moreover have "event_ok n ?s'"
    using ok by (simp add: event_ok_def is_event_def rt_object_get_type_def)
  ultimately show ?thesis by simp
qed

lemma event_recv_blocks:
  assumes inv: "core_inv s" and ok: "event_ok n s" and want: "want \<noteq> 0"
    and opt: "opt AND (RT_EVENT_FLAG_AND OR RT_EVENT_FLAG_OR) \<noteq> 0"
    and m: "\<not> event_match opt want (ev_set (events s n))"
    and cur: "current_thread s = Some t" and t: "thread_stat s t = RT_THREAD_READY"
    and ctx: "lock_nest s = 0" "irq_nest s = 0"
    and other: "u \<noteq> t" "thread_stat s u = RT_THREAD_READY"
    and time: "time \<noteq> 0" "sint time \<noteq> 0x7fffffff"
  shows "\<exists>s'. rt_event_recv n want opt time s = Some (Blocked, s') \<and> core_inv s' \<and> event_ok n s' \<and>
    runs_highest s' \<and> current_thread s' \<noteq> Some t \<and> thread_stat s' t = RT_THREAD_SUSPEND \<and>
    events s' = events s \<and> t \<in> set (queues s' (Suspend (QEvent n))) \<and>
    event_set (threads s' t) = want \<and> event_info (threads s' t) = opt \<and>
    frames s' = (frames s)(t := Some (FEventRecv n))"
proof -
  let ?f = "oflag (objs s (OEvent n))"
  define s1 where "s1 = upd_thread t (\<lambda>r. r\<lparr>event_set := want, event_info := opt\<rparr>)
    (upd_thread t (\<lambda>r. r\<lparr>th_error := RT_EOK\<rparr>) s)"
  have i1: "core_inv s1" unfolding s1_def
    by (rule upd_thread_cong_inv [OF upd_thread_cong_inv [OF inv]]) simp_all
  have k1: "kframe s s1" by (simp add: s1_def kframe_trans [OF kframe_upd(1) kframe_upd(1)])
  have st1: "thread_stat s1 v = thread_stat s v" for v by (simp add: s1_def thread_stat_def tstat_def)
  have th1: "threads s1 = (threads s)(t := (threads s t)\<lparr>th_error := RT_EOK, event_set := want, event_info := opt\<rparr>)"
      "queues s1 = queues s"
    by (simp_all add: s1_def)
  have t1: "thread_stat s1 t = RT_THREAD_READY" using t by (simp add: st1)
  have fl: "?f = RT_IPC_FLAG_FIFO \<or> ?f = RT_IPC_FLAG_PRIO" using ok by (simp add: event_ok_def)
  obtain s2 where s2: "suspend_with_timer t (QEvent n) ?f time s1 = Some s2"
      "queued t (QEvent n) ?f s1 s2" "core_inv s2"
    using suspend_with_timer_spec [OF i1 t1 fl time(2), of "QEvent n"] by blast
  note d = queuedD [OF s2(2)]
  have k: "kframe s s2" by (rule kframe_trans [OF k1 d(1)])
  have c2: "current_thread s2 = Some t" "lock_nest s2 = 0"
    using cur ctx by (simp_all add: kframe_sel [OF k])
  have nr: "thread_stat s2 t \<noteq> RT_THREAD_READY" by (simp add: d(4))
  have ur: "thread_stat s2 u = RT_THREAD_READY" using other by (simp add: d(4) st1)
  obtain s3 s' where s': "block_point t (FEventRecv n) (rt_event_recv_wake t) s2 = Some (Blocked, s')"
      "core_inv s'" "runs_highest s'" "current_thread s' \<noteq> Some t"
    and fr: "sched_frame s2 s3" and eq: "s' = set_frame t (Some (FEventRecv n)) s3"
    using block_point_spec [OF s2(3) nr c2 ur] by blast
  note g = sched_frame_sel [OF fr]
  have take: "rt_event_recv n want opt time s = Some (Blocked, s')"
    using ok want opt m time(1) cur ctx s2(1) s'(1)
    by (simp add: rt_event_recv_def event_ok_def debug_defs rt_thread_self_def Let_def
        event_test_match s1_def)
  have sel: "queues s' = queues s2" "threads s' = threads s2" "events s' = events s"
      "frames s' = (frames s)(t := Some (FEventRecv n))" "objs s' = objs s2"
    using g kframe_sel [OF k] by (simp_all add: eq set_frame_def)
  have q': "set (queues s' (Suspend (QEvent n))) = insert t (set (queues s (Suspend (QEvent n))))"
    using ipc_insert_set(1) [OF fl] by (simp add: sel d(2) th1)
  have th': "event_set (threads s' v) = (if v = t then want else event_set (threads s v))"
      "event_info (threads s' v) = (if v = t then opt else event_info (threads s v))" for v
    by (simp_all add: sel d(3) th1 with_stat_def)
  have "event_ok n s'"
    using ok m q' kframe_sel(18) [OF k, of "OEvent n"]
    by (auto simp: event_ok_def sel(3,5) is_event_def rt_object_get_type_def th')
  moreover have "thread_stat s' t = RT_THREAD_SUSPEND"
    using d(4) [of t] by (simp add: thread_stat_def sel)
  ultimately show ?thesis using take s'(2-4) sel(3,4) q' th' by simp
qed

end
