(* ===== verification/Bounded_Queue.thy ===== *)
theory Bounded_Queue
  imports Prelude
begin

text \<open>
  The interface of a bounded first-in first-out store, which the ring buffer of a mailbox, the
  linked blocks of a message queue and the receive buffer of the serial line all provide.
  \<open>stored v w\<close> says that \<open>w\<close> is what is read back for \<open>v\<close>: a message queue stores a message at
  the start of a block that may be longer.
\<close>

fun drain :: "('q \<Rightarrow> 'w \<times> 'q) \<Rightarrow> nat \<Rightarrow> 'q \<Rightarrow> 'w list \<times> 'q" where
  "drain get 0 q = ([], q)"
| "drain get (Suc n) q = (let (w, q) = get q; (ws, q) = drain get n q in (w # ws, q))"

lemma drain_add:
  "drain get (m + n) q = (let (ws, q) = drain get m q; (us, q) = drain get n q in (ws @ us, q))"
  by (induction m arbitrary: q) (simp_all add: Let_def case_prod_beta)

locale bounded_queue =
  fixes put :: "'v \<Rightarrow> 'q \<Rightarrow> 'q" and get :: "'q \<Rightarrow> 'w \<times> 'q"
    and contents :: "'q \<Rightarrow> 'w list" and room :: "'q \<Rightarrow> nat" and wf :: "'q \<Rightarrow> bool"
    and fits :: "'v \<Rightarrow> 'q \<Rightarrow> bool" and stored :: "'v \<Rightarrow> 'w \<Rightarrow> bool"
  assumes put_wf: "wf q \<Longrightarrow> fits v q \<Longrightarrow> 0 < room q \<Longrightarrow> wf (put v q)"
    and put_contents: "wf q \<Longrightarrow> fits v q \<Longrightarrow> 0 < room q \<Longrightarrow>
      \<exists>w. stored v w \<and> contents (put v q) = contents q @ [w]"
    and put_room: "wf q \<Longrightarrow> fits v q \<Longrightarrow> 0 < room q \<Longrightarrow> Suc (room (put v q)) = room q"
    and put_fits: "fits u (put v q) = fits u q"
    and get_wf: "wf q \<Longrightarrow> contents q \<noteq> [] \<Longrightarrow> wf (snd (get q))"
    and get_contents: "wf q \<Longrightarrow> contents q \<noteq> [] \<Longrightarrow>
      contents q = fst (get q) # contents (snd (get q))"
    and get_room: "wf q \<Longrightarrow> contents q \<noteq> [] \<Longrightarrow> room (snd (get q)) = Suc (room q)"
begin

lemma put_all:
  assumes "wf q" "\<forall>v \<in> set vs. fits v q" "length vs \<le> room q"
  shows "\<exists>ws. list_all2 stored vs ws \<and> contents (fold put vs q) = contents q @ ws \<and>
    wf (fold put vs q) \<and> room (fold put vs q) + length vs = room q"
  using assms
proof (induction vs arbitrary: q)
  case (Cons v vs)
  have 1: "fits v q" "0 < room q" using Cons.prems by auto
  obtain w where w: "stored v w" "contents (put v q) = contents q @ [w]"
    using put_contents [OF Cons.prems(1) 1] by blast
  have r: "Suc (room (put v q)) = room q" by (rule put_room [OF Cons.prems(1) 1])
  obtain ws where "list_all2 stored vs ws" "contents (fold put vs (put v q)) = contents (put v q) @ ws"
    "wf (fold put vs (put v q))" "room (fold put vs (put v q)) + length vs = room (put v q)"
    using Cons.IH [OF put_wf [OF Cons.prems(1) 1]] Cons.prems(2,3) r put_fits by auto
  with w r show ?case by (intro exI [of _ "w # ws"]) simp
qed simp

lemma drain_all:
  assumes "wf q" "contents q = ws @ rest"
  shows "\<exists>q'. drain get (length ws) q = (ws, q') \<and> wf q' \<and> contents q' = rest \<and>
    room q' = room q + length ws"
  using assms
proof (induction ws arbitrary: q)
  case (Cons w ws)
  have ne: "contents q \<noteq> []" using Cons.prems(2) by simp
  have g: "fst (get q) = w" "contents (snd (get q)) = ws @ rest"
    using get_contents [OF Cons.prems(1) ne] Cons.prems(2) by simp_all
  obtain q' where "drain get (length ws) (snd (get q)) = (ws, q')" "wf q'" "contents q' = rest"
      "room q' = room (snd (get q)) + length ws"
    using Cons.IH [OF get_wf [OF Cons.prems(1) ne] g(2)] by blast
  with g(1) get_room [OF Cons.prems(1) ne] show ?case
    by (intro exI [of _ q']) (simp add: case_prod_beta)
qed simp

text \<open>What goes in comes out, in the same order, behind what was there before.\<close>

lemma fifo:
  assumes "wf q" "\<forall>v \<in> set vs. fits v q" "length vs \<le> room q"
  shows "\<exists>ws q'. drain get (length (contents q) + length vs) (fold put vs q) = (contents q @ ws, q') \<and>
    list_all2 stored vs ws \<and> wf q' \<and> contents q' = [] \<and> room q' = room q + length (contents q)"
proof -
  obtain ws where ws: "list_all2 stored vs ws" "contents (fold put vs q) = contents q @ ws"
    "wf (fold put vs q)" "room (fold put vs q) + length vs = room q"
    using put_all [OF assms] by blast
  have l: "length ws = length vs" using ws(1) by (simp add: list_all2_lengthD)
  obtain q' where "drain get (length (contents q @ ws)) (fold put vs q) = (contents q @ ws, q')"
      "wf q'" "contents q' = []" "room q' = room (fold put vs q) + length (contents q @ ws)"
    using drain_all [OF ws(3), of "contents q @ ws" "[]"] ws(2) by auto
  then show ?thesis using ws(1,4) l by (intro exI [of _ ws] exI [of _ q']) simp
qed

end

text \<open>Positions in a ring of \<open>n\<close> cells.\<close>

lemma ring_mod: "a < n \<Longrightarrow> i \<le> n \<Longrightarrow> (a + i) mod n = (if a + i < n then a + i else a + i - n)"
  for a i n :: nat
  by (simp add: le_mod_geq)

lemma ring_inj:
  fixes a i j n :: nat
  assumes "a < n" "i < j" "j < n"
  shows "(a + i) mod n \<noteq> (a + j) mod n"
  using assms by (simp add: ring_mod) linarith

lemma ring_suc: "(Suc a mod n + i) mod n = (a + Suc i) mod n" for a i n :: nat
  by (simp add: mod_add_left_eq)

lemma map_upt_Suc_front: "map f [0..<Suc n] = f 0 # map (\<lambda>i. f (Suc i)) [0..<n]"
  by (simp add: upt_conv_Cons del: upt_Suc flip: map_Suc_upt)

end
