(* ===== verification/Mailbox.thy ===== *)
theory Mailbox
  imports Ipc Bounded_Queue
begin

text \<open>
  Mailboxes of \<^verbatim>\<open>src/ipc.c\<close>: a ring buffer of 32-bit mails with a queue of threads that wait for
  a mail and one of threads that wait for a free cell.  The ring buffer is an instance of the
  interface of theory \<open>Bounded_Queue\<close>.
\<close>

section \<open>The ring buffer\<close>

text \<open>The stores of \<^verbatim>\<open>rt_mb_send_wait\<close> and \<^verbatim>\<open>rt_mb_recv\<close> once there is room, or a mail.\<close>

definition mb_put :: "u32 \<Rightarrow> rt_mailbox \<Rightarrow> rt_mailbox" where
  "mb_put v mb =
     (let mb = mb\<lparr>msg_pool := (msg_pool mb)(unat (in_offset mb) := v)\<rparr>;
          mb = mb\<lparr>in_offset := in_offset mb + 1\<rparr>;
          mb = (if mb_size mb \<le> in_offset mb then mb\<lparr>in_offset := 0\<rparr> else mb)
      in mb\<lparr>mb_entry := mb_entry mb + 1\<rparr>)"

definition mb_get :: "rt_mailbox \<Rightarrow> u32 \<times> rt_mailbox" where
  "mb_get mb =
     (let v = msg_pool mb (unat (out_offset mb));
          mb = mb\<lparr>out_offset := out_offset mb + 1\<rparr>;
          mb = (if mb_size mb \<le> out_offset mb then mb\<lparr>out_offset := 0\<rparr> else mb)
      in (v, mb\<lparr>mb_entry := mb_entry mb - 1\<rparr>))"

text \<open>The mails in the order they were sent.\<close>

definition mb_contents :: "rt_mailbox \<Rightarrow> u32 list" where
  "mb_contents mb = map (\<lambda>i. msg_pool mb ((unat (out_offset mb) + i) mod unat (mb_size mb)))
     [0..<unat (mb_entry mb)]"

definition mb_room :: "rt_mailbox \<Rightarrow> nat" where
  "mb_room mb = unat (mb_size mb) - unat (mb_entry mb)"

definition ring_ok :: "rt_mailbox \<Rightarrow> bool" where
  "ring_ok mb \<longleftrightarrow> unat (mb_entry mb) \<le> unat (mb_size mb) \<and> unat (out_offset mb) < unat (mb_size mb) \<and>
     unat (in_offset mb) = (unat (out_offset mb) + unat (mb_entry mb)) mod unat (mb_size mb)"

lemma next_offset:
  fixes i n :: u16
  assumes "unat i < unat n"
  shows "unat (if n \<le> i + 1 then 0 else i + 1) = Suc (unat i) mod unat n"
proof (cases "unat n = Suc (unat i)")
  case True
  then show ?thesis using unat_Suc_less [OF assms] by (simp add: word_le_nat_alt)
next
  case False
  then have "Suc (unat i) < unat n" using assms by simp
  then show ?thesis using unat_Suc_less [OF assms] by (simp add: word_le_nat_alt)
qed

lemma mb_length: "length (mb_contents mb) = unat (mb_entry mb)"
  by (simp add: mb_contents_def)

lemma mb_put_sel:
  "mb_size (mb_put v mb) = mb_size mb" "out_offset (mb_put v mb) = out_offset mb"
  "mb_entry (mb_put v mb) = mb_entry mb + 1"
  "msg_pool (mb_put v mb) = (msg_pool mb)(unat (in_offset mb) := v)"
  "in_offset (mb_put v mb) = (if mb_size mb \<le> in_offset mb + 1 then 0 else in_offset mb + 1)"
  by (simp_all add: mb_put_def Let_def)

lemma mb_get_sel:
  "fst (mb_get mb) = msg_pool mb (unat (out_offset mb))"
  "mb_size (snd (mb_get mb)) = mb_size mb" "in_offset (snd (mb_get mb)) = in_offset mb"
  "mb_entry (snd (mb_get mb)) = mb_entry mb - 1" "msg_pool (snd (mb_get mb)) = msg_pool mb"
  "out_offset (snd (mb_get mb)) = (if mb_size mb \<le> out_offset mb + 1 then 0 else out_offset mb + 1)"
  by (simp_all add: mb_get_def Let_def)

lemma mb_put_entry:
  assumes "ring_ok mb" "0 < mb_room mb"
  shows "unat (mb_entry (mb_put v mb)) = Suc (unat (mb_entry mb))"
  using assms(2) unat_Suc_less [of "mb_entry mb" "mb_size mb"]
  by (simp add: mb_room_def mb_put_sel)

lemma mb_put_ring:
  assumes "ring_ok mb" "0 < mb_room mb"
  shows "ring_ok (mb_put v mb)"
proof -
  let ?n = "unat (mb_size mb)" and ?a = "unat (out_offset mb)" and ?k = "unat (mb_entry mb)"
  have r: "?k < ?n" "?a < ?n" "unat (in_offset mb) = (?a + ?k) mod ?n"
    using assms by (simp_all add: ring_ok_def mb_room_def)
  have "unat (in_offset mb) < ?n" using r by simp
  from next_offset [OF this] have "unat (in_offset (mb_put v mb)) = (?a + Suc ?k) mod ?n"
    by (simp add: mb_put_sel r(3) mod_Suc_eq)
  then show ?thesis using r mb_put_entry [OF assms, of v] by (simp add: ring_ok_def mb_put_sel(1,2))
qed

lemma mb_put_contents:
  assumes "ring_ok mb" "0 < mb_room mb"
  shows "mb_contents (mb_put v mb) = mb_contents mb @ [v]"
proof -
  let ?n = "unat (mb_size mb)" and ?a = "unat (out_offset mb)" and ?k = "unat (mb_entry mb)"
  have r: "?k < ?n" "?a < ?n" "unat (in_offset mb) = (?a + ?k) mod ?n"
    using assms by (simp_all add: ring_ok_def mb_room_def)
  have "(?a + i) mod ?n \<noteq> unat (in_offset mb)" if "i < ?k" for i
    using ring_inj [OF r(2) that r(1)] by (simp add: r(3))
  then have "map (\<lambda>i. ((msg_pool mb)(unat (in_offset mb) := v)) ((?a + i) mod ?n)) [0..<?k] = mb_contents mb"
    by (simp add: mb_contents_def)
  then show ?thesis
    by (simp add: mb_contents_def mb_put_entry [OF assms]) (simp add: mb_put_sel r(3))
qed

lemma mb_get_ok:
  assumes "ring_ok mb" "mb_contents mb \<noteq> []"
  shows "ring_ok (snd (mb_get mb))" "mb_contents mb = fst (mb_get mb) # mb_contents (snd (mb_get mb))"
    "mb_room (snd (mb_get mb)) = Suc (mb_room mb)"
proof -
  let ?n = "unat (mb_size mb)" and ?a = "unat (out_offset mb)" and ?k = "unat (mb_entry mb)"
  obtain k where k: "?k = Suc k" using assms(2) by (cases ?k) (simp_all add: mb_contents_def)
  have r: "?k \<le> ?n" "?a < ?n" "unat (in_offset mb) = (?a + ?k) mod ?n"
    using assms(1) by (simp_all add: ring_ok_def)
  have e: "unat (mb_entry (snd (mb_get mb))) = k"
    using unat_pred [OF k] by (simp add: mb_get_sel)
  have o: "unat (out_offset (snd (mb_get mb))) = Suc ?a mod ?n"
    by (simp add: mb_get_sel next_offset [OF r(2)])
  show "ring_ok (snd (mb_get mb))"
    using r k by (simp add: ring_ok_def e o) (simp add: mb_get_sel ring_suc)
  have "mb_contents (snd (mb_get mb)) = map (\<lambda>i. msg_pool mb ((?a + Suc i) mod ?n)) [0..<k]"
    by (simp add: mb_contents_def e o) (simp add: mb_get_sel ring_suc)
  moreover have "mb_contents mb = msg_pool mb (?a mod ?n) # map (\<lambda>i. msg_pool mb ((?a + Suc i) mod ?n)) [0..<k]"
    unfolding mb_contents_def k map_upt_Suc_front by simp
  ultimately show "mb_contents mb = fst (mb_get mb) # mb_contents (snd (mb_get mb))"
    using r(2) by (simp add: mb_get_sel)
  show "mb_room (snd (mb_get mb)) = Suc (mb_room mb)"
    using k r(1) by (simp add: mb_room_def e) (simp add: mb_get_sel)
qed

lemma mb_put_room:
  assumes "ring_ok mb" "0 < mb_room mb"
  shows "Suc (mb_room (mb_put v mb)) = mb_room mb"
  using assms(2) mb_put_entry [OF assms, of v] by (simp add: mb_room_def) (simp add: mb_put_sel)

interpretation mbq: bounded_queue mb_put mb_get mb_contents mb_room ring_ok "\<lambda>_ _. True" "(=)"
  by unfold_locales (use mb_put_ring mb_put_contents mb_put_room mb_get_ok in blast)+

section \<open>The routines\<close>

definition is_mb :: "nat \<Rightarrow> kernel \<Rightarrow> bool" where
  "is_mb n s \<longleftrightarrow> rt_object_get_type (OMailBox n) s = RT_Object_Class_MailBox"

definition upd_mb :: "nat \<Rightarrow> (rt_mailbox \<Rightarrow> rt_mailbox) \<Rightarrow> kernel \<Rightarrow> kernel" where
  "upd_mb n f s = s\<lparr>mailboxes := (mailboxes s)(n := f (mailboxes s n))\<rparr>"

text \<open>The pool is memory of the application, \<open>pool\<close> its first contents.  The field \<^verbatim>\<open>size\<close> is an
  \<^verbatim>\<open>rt_uint16_t\<close>, the argument an \<^verbatim>\<open>rt_size_t\<close>.\<close>

definition rt_mb_init ::
  "nat \<Rightarrow> string \<Rightarrow> (nat \<Rightarrow> u32) \<Rightarrow> u32 \<Rightarrow> u8 \<Rightarrow> kernel \<Rightarrow> (rt_err_t \<times> kernel) option" where
  "rt_mb_init n name pool sz flag s = do {
     s \<leftarrow> rt_object_init (OMailBox n) RT_Object_Class_MailBox name s;
     let s = upd_obj (OMailBox n) (\<lambda>r. r\<lparr>oflag := flag\<rparr>) s;
     let s = rt_ipc_object_init (QMailBox n) s;
     let s = upd_mb n (\<lambda>_. \<lparr>msg_pool = pool, mb_size = ucast sz, mb_entry = 0, in_offset = 0,
               out_offset = 0\<rparr>) s;
     Some (RT_EOK, s\<lparr>queues := (queues s)(Suspend (QMbSender n) := [])\<rparr>)
   }"

definition rt_mb_detach :: "nat \<Rightarrow> kernel \<Rightarrow> (rt_err_t \<times> kernel) option" where
  "rt_mb_detach n s = do {
     RT_ASSERT (is_mb n s);
     RT_ASSERT (rt_object_is_systemobject (OMailBox n) s);
     s \<leftarrow> rt_ipc_list_resume_all (QMailBox n) s;
     s \<leftarrow> rt_ipc_list_resume_all (QMbSender n) s;
     Some (RT_EOK, rt_object_detach (OMailBox n) s)
   }"

text \<open>The two allocations of \<^verbatim>\<open>rt_mb_create\<close> are parameters: the object that is found in memory,
  and the contents of the pool, if there is memory for it.\<close>

definition rt_mb_create ::
  "oref option \<Rightarrow> (nat \<Rightarrow> u32) option \<Rightarrow> string \<Rightarrow> u32 \<Rightarrow> u8 \<Rightarrow> kernel \<Rightarrow> (nat option \<times> kernel) option" where
  "rt_mb_create mem pool name sz flag s = do {
     RT_DEBUG_NOT_IN_INTERRUPT s;
     (x, s) \<leftarrow> rt_object_allocate mem RT_Object_Class_MailBox name s;
     (case x of
        Some (OMailBox n) \<Rightarrow> do {
          let s = upd_obj (OMailBox n) (\<lambda>r. r\<lparr>oflag := flag\<rparr>) s;
          let s = rt_ipc_object_init (QMailBox n) s;
          let s = upd_mb n (\<lambda>r. r\<lparr>mb_size := ucast sz\<rparr>) s;
          (case pool of
             None \<Rightarrow> do { s \<leftarrow> rt_object_delete (OMailBox n) s; Some (None, s) }
           | Some p \<Rightarrow> do {
               let s = upd_mb n (\<lambda>r. r\<lparr>msg_pool := p, mb_entry := 0, in_offset := 0, out_offset := 0\<rparr>) s;
               Some (Some n, s\<lparr>queues := (queues s)(Suspend (QMbSender n) := [])\<rparr>)
             })
        }
      | _ \<Rightarrow> Some (None, s))
   }"

definition rt_mb_delete :: "nat \<Rightarrow> kernel \<Rightarrow> (rt_err_t \<times> kernel) option" where
  "rt_mb_delete n s = do {
     RT_DEBUG_NOT_IN_INTERRUPT s;
     RT_ASSERT (is_mb n s);
     RT_ASSERT (\<not> rt_object_is_systemobject (OMailBox n) s);
     s \<leftarrow> rt_ipc_list_resume_all (QMailBox n) s;
     s \<leftarrow> rt_ipc_list_resume_all (QMbSender n) s;
     s \<leftarrow> rt_object_delete (OMailBox n) s;
     Some (RT_EOK, s)
   }"

text \<open>From \<^verbatim>\<open>set ptr\<close> on: the mail is stored and the first waiting receiver is resumed.\<close>

definition mb_send_now :: "nat \<Rightarrow> u32 \<Rightarrow> kernel \<Rightarrow> (rt_err_t call \<times> kernel) option" where
  "mb_send_now n v s = do {
     let s = upd_mb n (mb_put v) s;
     (if queues s (Suspend (QMailBox n)) \<noteq> [] then do {
        (e, s) \<leftarrow> rt_ipc_list_resume (QMailBox n) s;
        s \<leftarrow> rt_schedule s;
        Some (Return RT_EOK, s)
      }
      else Some (Return RT_EOK, s))
   }"

text \<open>The loop \<^verbatim>\<open>while (mb->entry == mb->size)\<close>; the thread comes back to its head each time it is
  resumed.\<close>

partial_function (option) mb_send_loop ::
  "tid option \<Rightarrow> nat \<Rightarrow> u32 \<Rightarrow> u32 \<Rightarrow> kernel \<Rightarrow> (rt_err_t call \<times> kernel) option" where
  "mb_send_loop self n v timeout s =
     (if mb_entry (mailboxes s n) = mb_size (mailboxes s n) then do {
        t \<leftarrow> self;
        let s = upd_thread t (\<lambda>r. r\<lparr>th_error := RT_EOK\<rparr>) s;
        (if timeout = 0 then Some (Return (- RT_EFULL), s)
         else do {
           RT_DEBUG_IN_THREAD_CONTEXT s;
           let start = (if 0 < sint timeout then rt_tick s else 0);
           s \<leftarrow> suspend_with_timer t (QMbSender n) (oflag (objs s (OMailBox n))) timeout s;
           block_point t (FMbSend n v timeout start)
             (\<lambda>s. if th_error (threads s t) \<noteq> RT_EOK then Some (Return (th_error (threads s t)), s)
                  else mb_send_loop self n v (time_left timeout start (rt_tick s)) s) s
         })
      }
      else mb_send_now n v s)"

definition rt_mb_send_wait :: "nat \<Rightarrow> u32 \<Rightarrow> u32 \<Rightarrow> kernel \<Rightarrow> (rt_err_t call \<times> kernel) option" where
  "rt_mb_send_wait n v timeout s = do {
     RT_ASSERT (is_mb n s);
     (if mb_entry (mailboxes s n) = mb_size (mailboxes s n) \<and> timeout = 0
      then Some (Return (- RT_EFULL), s)
      else mb_send_loop (current_thread s) n v timeout s)
   }"

definition rt_mb_send_wake ::
  "tid \<Rightarrow> nat \<Rightarrow> u32 \<Rightarrow> u32 \<Rightarrow> u32 \<Rightarrow> kernel \<Rightarrow> (rt_err_t call \<times> kernel) option" where
  "rt_mb_send_wake t n v timeout start s =
     (if th_error (threads s t) \<noteq> RT_EOK then Some (Return (th_error (threads s t)), s)
      else mb_send_loop (Some t) n v (time_left timeout start (rt_tick s)) s)"

definition rt_mb_send :: "nat \<Rightarrow> u32 \<Rightarrow> kernel \<Rightarrow> (rt_err_t call \<times> kernel) option" where
  "rt_mb_send n v s = rt_mb_send_wait n v 0 s"

text \<open>From \<^verbatim>\<open>fill ptr\<close> on: the oldest mail is taken and the first waiting sender is resumed.\<close>

definition mb_recv_now :: "nat \<Rightarrow> kernel \<Rightarrow> ((rt_err_t \<times> u32 option) call \<times> kernel) option" where
  "mb_recv_now n s = do {
     let (v, mb) = mb_get (mailboxes s n);
     let s = upd_mb n (\<lambda>_. mb) s;
     (if queues s (Suspend (QMbSender n)) \<noteq> [] then do {
        (e, s) \<leftarrow> rt_ipc_list_resume (QMbSender n) s;
        s \<leftarrow> rt_schedule s;
        Some (Return (RT_EOK, Some v), s)
      }
      else Some (Return (RT_EOK, Some v), s))
   }"

partial_function (option) mb_recv_loop ::
  "tid option \<Rightarrow> nat \<Rightarrow> u32 \<Rightarrow> kernel \<Rightarrow> ((rt_err_t \<times> u32 option) call \<times> kernel) option" where
  "mb_recv_loop self n timeout s =
     (if mb_entry (mailboxes s n) = 0 then do {
        t \<leftarrow> self;
        let s = upd_thread t (\<lambda>r. r\<lparr>th_error := RT_EOK\<rparr>) s;
        (if timeout = 0
         then Some (Return (- RT_ETIMEOUT, None), upd_thread t (\<lambda>r. r\<lparr>th_error := - RT_ETIMEOUT\<rparr>) s)
         else do {
           RT_DEBUG_IN_THREAD_CONTEXT s;
           let start = (if 0 < sint timeout then rt_tick s else 0);
           s \<leftarrow> suspend_with_timer t (QMailBox n) (oflag (objs s (OMailBox n))) timeout s;
           block_point t (FMbRecv n timeout start)
             (\<lambda>s. if th_error (threads s t) \<noteq> RT_EOK
                  then Some (Return (th_error (threads s t), None), s)
                  else mb_recv_loop self n (time_left timeout start (rt_tick s)) s) s
         })
      }
      else mb_recv_now n s)"

definition rt_mb_recv :: "nat \<Rightarrow> u32 \<Rightarrow> kernel \<Rightarrow> ((rt_err_t \<times> u32 option) call \<times> kernel) option" where
  "rt_mb_recv n timeout s = do {
     RT_ASSERT (is_mb n s);
     (if mb_entry (mailboxes s n) = 0 \<and> timeout = 0
      then Some (Return (- RT_ETIMEOUT, None), s)
      else mb_recv_loop (current_thread s) n timeout s)
   }"

definition rt_mb_recv_wake ::
  "tid \<Rightarrow> nat \<Rightarrow> u32 \<Rightarrow> u32 \<Rightarrow> kernel \<Rightarrow> ((rt_err_t \<times> u32 option) call \<times> kernel) option" where
  "rt_mb_recv_wake t n timeout start s =
     (if th_error (threads s t) \<noteq> RT_EOK then Some (Return (th_error (threads s t), None), s)
      else mb_recv_loop (Some t) n (time_left timeout start (rt_tick s)) s)"

definition rt_mb_control :: "nat \<Rightarrow> int \<Rightarrow> u32 \<Rightarrow> kernel \<Rightarrow> (rt_err_t \<times> kernel) option" where
  "rt_mb_control n cmd arg s = do {
     RT_ASSERT (is_mb n s);
     (if cmd = RT_IPC_CMD_RESET then do {
        s \<leftarrow> rt_ipc_list_resume_all (QMailBox n) s;
        s \<leftarrow> rt_ipc_list_resume_all (QMbSender n) s;
        let s = upd_mb n (\<lambda>r. r\<lparr>mb_entry := 0, in_offset := 0, out_offset := 0\<rparr>) s;
        s \<leftarrow> rt_schedule s;
        Some (RT_EOK, s)
      }
      else Some (- RT_ERROR, s))
   }"

section \<open>The invariant of a mailbox\<close>

definition mb_ok :: "nat \<Rightarrow> kernel \<Rightarrow> bool" where
  "mb_ok n s \<longleftrightarrow> is_mb n s \<and> ring_ok (mailboxes s n) \<and>
     (oflag (objs s (OMailBox n)) = RT_IPC_FLAG_FIFO \<or> oflag (objs s (OMailBox n)) = RT_IPC_FLAG_PRIO)"

lemma mb_ok_cong:
  "mailboxes s' n = mailboxes s n \<Longrightarrow> objs s' (OMailBox n) = objs s (OMailBox n) \<Longrightarrow> mb_ok n s' = mb_ok n s"
  by (simp add: mb_ok_def is_mb_def rt_object_get_type_def)

lemma upd_mb_sel [simp]:
  "mailboxes (upd_mb n f s) = (mailboxes s)(n := f (mailboxes s n))"
  "queues (upd_mb n f s) = queues s" "sems (upd_mb n f s) = sems s"
  "threads (upd_mb n f s) = threads s" "objs (upd_mb n f s) = objs s"
  "ready_group (upd_mb n f s) = ready_group s" "timers (upd_mb n f s) = timers s"
  "timer_list (upd_mb n f s) = timer_list s" "rt_tick (upd_mb n f s) = rt_tick s"
  "container (upd_mb n f s) = container s" "current_thread (upd_mb n f s) = current_thread s"
  "lock_nest (upd_mb n f s) = lock_nest s" "irq_nest (upd_mb n f s) = irq_nest s"
  "frames (upd_mb n f s) = frames s" "events (upd_mb n f s) = events s"
  "mutexes (upd_mb n f s) = mutexes s" "mqs (upd_mb n f s) = mqs s"
  by (simp_all add: upd_mb_def)

lemma upd_mb_core_inv [simp]: "core_inv s \<Longrightarrow> core_inv (upd_mb n f s)"
  by (rule core_inv_cong) simp_all

lemma mb_full: "ring_ok mb \<Longrightarrow> mb_entry mb = mb_size mb \<longleftrightarrow> mb_room mb = 0"
  by (auto simp: ring_ok_def mb_room_def word_unat_eq_iff)

lemma mb_empty: "mb_entry mb = 0 \<longleftrightarrow> mb_contents mb = []"
  by (simp add: mb_contents_def word_unat_eq_iff)

section \<open>Sending and receiving\<close>

lemma mb_send_now_spec:
  assumes inv: "core_inv s" and ok: "mb_ok n s" and cur: "current_thread s \<noteq> None"
    and room: "0 < mb_room (mailboxes s n)"
  shows "\<exists>s'. mb_send_now n v s = Some (Return RT_EOK, s') \<and> mb_ok n s' \<and>
    mb_contents (mailboxes s' n) = mb_contents (mailboxes s n) @ [v] \<and>
    served (QMailBox n) (upd_mb n (mb_put v) s) s'"
proof -
  let ?s = "upd_mb n (mb_put v) s"
  have r: "ring_ok (mailboxes s n)" using ok by (simp add: mb_ok_def)
  obtain s' where s': "mb_send_now n v s = Some (Return RT_EOK, s')" "served (QMailBox n) ?s s'"
    using serve_spec [of ?s "QMailBox n" "Return RT_EOK"] inv cur by (auto simp: mb_send_now_def Let_def)
  have m: "mailboxes s' n = mb_put v (mailboxes s n)" "objs s' (OMailBox n) = objs s (OMailBox n)"
    using s'(2) by (simp_all add: served_def)
  have "mb_ok n s'"
    using ok mb_put_ring [OF r room] m by (simp add: mb_ok_def is_mb_def rt_object_get_type_def)
  then show ?thesis using s' mb_put_contents [OF r room] m(1) by auto
qed

lemma mb_send_room:
  assumes inv: "core_inv s" and ok: "mb_ok n s" and cur: "current_thread s \<noteq> None"
    and room: "0 < mb_room (mailboxes s n)"
  shows "\<exists>s'. rt_mb_send_wait n v timeout s = Some (Return RT_EOK, s') \<and> mb_ok n s' \<and>
    mb_contents (mailboxes s' n) = mb_contents (mailboxes s n) @ [v] \<and>
    served (QMailBox n) (upd_mb n (mb_put v) s) s'"
proof -
  have nf: "mb_entry (mailboxes s n) \<noteq> mb_size (mailboxes s n)"
    using ok room mb_full by (simp add: mb_ok_def)
  then have "rt_mb_send_wait n v timeout s = mb_send_now n v s"
    using ok by (simp add: rt_mb_send_wait_def mb_ok_def mb_send_loop.simps)
  then show ?thesis using mb_send_now_spec [OF assms] by simp
qed

lemma mb_send_full:
  assumes "mb_ok n s" "mb_room (mailboxes s n) = 0"
  shows "rt_mb_send n v s = Some (Return (- RT_EFULL), s)"
  using assms mb_full by (simp add: rt_mb_send_def rt_mb_send_wait_def mb_ok_def)

lemma mb_send_blocks:
  assumes inv: "core_inv s" and ok: "mb_ok n s" and room: "mb_room (mailboxes s n) = 0"
    and cur: "current_thread s = Some t" and t: "thread_stat s t = RT_THREAD_READY"
    and ctx: "lock_nest s = 0" "irq_nest s = 0"
    and other: "u \<noteq> t" "thread_stat s u = RT_THREAD_READY"
    and time: "timeout \<noteq> 0" "sint timeout \<noteq> 0x7fffffff"
  shows "\<exists>s'. rt_mb_send_wait n v timeout s = Some (Blocked, s') \<and> core_inv s' \<and> mb_ok n s' \<and>
    waits t (QMbSender n) (FMbSend n v timeout (if 0 < sint timeout then rt_tick s else 0))
      (upd_thread t (\<lambda>r. r\<lparr>th_error := RT_EOK\<rparr>) s) s'"
proof -
  let ?s1 = "upd_thread t (\<lambda>r. r\<lparr>th_error := RT_EOK\<rparr>) s"
  define st where "st = (if 0 < sint timeout then rt_tick s else 0)"
  let ?fr = "FMbSend n v timeout st"
  let ?after = "\<lambda>s'. if th_error (threads s' t) \<noteq> RT_EOK then Some (Return (th_error (threads s' t)), s')
      else mb_send_loop (Some t) n v (time_left timeout st (rt_tick s')) s'"
  let ?f = "oflag (objs s (OMailBox n))"
  have i1: "core_inv ?s1" by (rule upd_thread_cong_inv [OF inv]) simp_all
  have st1: "thread_stat ?s1 w = thread_stat s w" for w by (simp add: thread_stat_def tstat_def)
  have fl: "?f = RT_IPC_FLAG_FIFO \<or> ?f = RT_IPC_FLAG_PRIO" using ok by (simp add: mb_ok_def)
  have c1: "?f = oflag (objs ?s1 (queue_object (QMbSender n)))" "current_thread ?s1 = Some t"
      "lock_nest ?s1 = 0" "thread_stat ?s1 t = RT_THREAD_READY" "thread_stat ?s1 u = RT_THREAD_READY"
    using cur ctx(1) t other(2) by (simp_all add: st1)
  obtain s2 s' where s': "suspend_with_timer t (QMbSender n) ?f timeout ?s1 = Some s2"
      "block_point t ?fr ?after s2 = Some (Blocked, s')" "core_inv s'" "waits t (QMbSender n) ?fr ?s1 s'"
    using wait_spec [OF i1 c1(4) fl c1(1-3) other(1) c1(5) time(2), of ?fr ?after] by blast
  have full: "mb_entry (mailboxes s n) = mb_size (mailboxes s n)"
    using ok room mb_full by (simp add: mb_ok_def)
  have "rt_mb_send_wait n v timeout s = Some (Blocked, s')"
    using ok full time(1) cur ctx s'(1,2)
    by (simp add: rt_mb_send_wait_def mb_ok_def, subst mb_send_loop.simps)
      (simp add: debug_defs rt_thread_self_def Let_def flip: st_def cong: if_cong)
  moreover have "mb_ok n s'"
    using ok waitsD(7) [OF s'(4), of "OMailBox n"] waitsD(8) [OF s'(4)] by (subst mb_ok_cong [of _ _ s]) simp_all
  ultimately show ?thesis using s'(3,4) unfolding st_def by blast
qed

lemma mb_recv_mail:
  assumes inv: "core_inv s" and ok: "mb_ok n s" and cur: "current_thread s \<noteq> None"
    and mails: "mb_contents (mailboxes s n) = v # vs"
  shows "\<exists>s'. rt_mb_recv n timeout s = Some (Return (RT_EOK, Some v), s') \<and> mb_ok n s' \<and>
    mb_contents (mailboxes s' n) = vs \<and>
    served (QMbSender n) (upd_mb n (\<lambda>mb. snd (mb_get mb)) s) s'"
proof -
  let ?s = "upd_mb n (\<lambda>_. snd (mb_get (mailboxes s n))) s"
  have r: "ring_ok (mailboxes s n)" using ok by (simp add: mb_ok_def)
  have ne: "mb_contents (mailboxes s n) \<noteq> []" using mails by simp
  note g = mb_get_ok [OF r ne]
  have v: "fst (mb_get (mailboxes s n)) = v" "mb_contents (snd (mb_get (mailboxes s n))) = vs"
    using g(2) mails by simp_all
  have upd: "upd_mb n (\<lambda>mb. snd (mb_get mb)) s = ?s" by (simp add: upd_mb_def)
  obtain s' where s': "mb_recv_now n s = Some (Return (RT_EOK, Some v), s')" "served (QMbSender n) ?s s'"
    using serve_spec [of ?s "QMbSender n" "Return (RT_EOK, Some v)"] inv cur
    by (auto simp: mb_recv_now_def Let_def case_prod_beta v(1) cong: if_cong)
  have "mb_entry (mailboxes s n) \<noteq> 0" using ne by (simp add: mb_empty)
  then have "rt_mb_recv n timeout s = Some (Return (RT_EOK, Some v), s')"
    using ok s'(1) by (simp add: rt_mb_recv_def mb_ok_def mb_recv_loop.simps)
  moreover have m: "mailboxes s' n = snd (mb_get (mailboxes s n))" "objs s' (OMailBox n) = objs s (OMailBox n)"
    using s'(2) by (simp_all add: served_def)
  moreover have "mb_ok n s'"
    using ok g(1) m by (simp add: mb_ok_def is_mb_def rt_object_get_type_def)
  ultimately show ?thesis using s'(2) v(2) unfolding upd by auto
qed

lemma mb_recv_empty:
  assumes "mb_ok n s" "mb_contents (mailboxes s n) = []"
  shows "rt_mb_recv n 0 s = Some (Return (- RT_ETIMEOUT, None), s)"
  using assms by (simp add: rt_mb_recv_def mb_ok_def mb_empty)

lemma mb_recv_blocks:
  assumes inv: "core_inv s" and ok: "mb_ok n s" and empty: "mb_contents (mailboxes s n) = []"
    and cur: "current_thread s = Some t" and t: "thread_stat s t = RT_THREAD_READY"
    and ctx: "lock_nest s = 0" "irq_nest s = 0"
    and other: "u \<noteq> t" "thread_stat s u = RT_THREAD_READY"
    and time: "timeout \<noteq> 0" "sint timeout \<noteq> 0x7fffffff"
  shows "\<exists>s'. rt_mb_recv n timeout s = Some (Blocked, s') \<and> core_inv s' \<and> mb_ok n s' \<and>
    waits t (QMailBox n) (FMbRecv n timeout (if 0 < sint timeout then rt_tick s else 0))
      (upd_thread t (\<lambda>r. r\<lparr>th_error := RT_EOK\<rparr>) s) s'"
proof -
  let ?s1 = "upd_thread t (\<lambda>r. r\<lparr>th_error := RT_EOK\<rparr>) s"
  define st where "st = (if 0 < sint timeout then rt_tick s else 0)"
  let ?fr = "FMbRecv n timeout st"
  let ?after = "\<lambda>s'. if th_error (threads s' t) \<noteq> RT_EOK then Some (Return (th_error (threads s' t), None), s')
      else mb_recv_loop (Some t) n (time_left timeout st (rt_tick s')) s'"
  let ?f = "oflag (objs s (OMailBox n))"
  have i1: "core_inv ?s1" by (rule upd_thread_cong_inv [OF inv]) simp_all
  have st1: "thread_stat ?s1 w = thread_stat s w" for w by (simp add: thread_stat_def tstat_def)
  have fl: "?f = RT_IPC_FLAG_FIFO \<or> ?f = RT_IPC_FLAG_PRIO" using ok by (simp add: mb_ok_def)
  have c1: "?f = oflag (objs ?s1 (queue_object (QMailBox n)))" "current_thread ?s1 = Some t"
      "lock_nest ?s1 = 0" "thread_stat ?s1 t = RT_THREAD_READY" "thread_stat ?s1 u = RT_THREAD_READY"
    using cur ctx(1) t other(2) by (simp_all add: st1)
  obtain s2 s' where s': "suspend_with_timer t (QMailBox n) ?f timeout ?s1 = Some s2"
      "block_point t ?fr ?after s2 = Some (Blocked, s')" "core_inv s'" "waits t (QMailBox n) ?fr ?s1 s'"
    using wait_spec [OF i1 c1(4) fl c1(1-3) other(1) c1(5) time(2), of ?fr ?after] by blast
  have "mb_entry (mailboxes s n) = 0" using empty by (simp add: mb_empty)
  then have "rt_mb_recv n timeout s = Some (Blocked, s')"
    using ok time(1) cur ctx s'(1,2)
    by (simp add: rt_mb_recv_def mb_ok_def, subst mb_recv_loop.simps)
      (simp add: debug_defs rt_thread_self_def Let_def flip: st_def cong: if_cong)
  moreover have "mb_ok n s'"
    using ok waitsD(7) [OF s'(4), of "OMailBox n"] waitsD(8) [OF s'(4)] by (subst mb_ok_cong [of _ _ s]) simp_all
  ultimately show ?thesis using s'(3,4) unfolding st_def by blast
qed

end
