(* ===== verification/Message_Blocks.thy ===== *)
theory Message_Blocks
  imports Kernel_State Bounded_Queue
begin

text \<open>
  The blocks of a message queue of \<^verbatim>\<open>src/ipc.c\<close>.  A block is on the list of queued messages, on
  the list of free blocks, or in the hands of a sender or receiver that copies to or from it
  with interrupts enabled.  The steps between two of these are the critical sections of
  \<^verbatim>\<open>rt_mq_send\<close>, \<^verbatim>\<open>rt_mq_urgent\<close> and \<^verbatim>\<open>rt_mq_recv\<close>; \<open>mq_step\<close> lets the steps of any number of
  senders and receivers interleave.
\<close>

section \<open>Steps\<close>

text \<open>First critical section of the senders: a block is taken off the free list.\<close>

definition mq_alloc :: "rt_messagequeue \<Rightarrow> (nat \<times> rt_messagequeue) option" where
  "mq_alloc q = (case msg_queue_free q of
     None \<Rightarrow> None
   | Some b \<Rightarrow> Some (b, q\<lparr>msg_queue_free := msg_next q b\<rparr>))"

text \<open>With interrupts enabled: the message is copied into the block.\<close>

definition mq_fill :: "nat \<Rightarrow> u8 list \<Rightarrow> rt_messagequeue \<Rightarrow> rt_messagequeue" where
  "mq_fill b buf q = q\<lparr>msg_data := (msg_data q)(b := buf @ drop (length buf) (msg_data q b))\<rparr>"

definition mq_clear_next :: "nat \<Rightarrow> rt_messagequeue \<Rightarrow> rt_messagequeue" where
  "mq_clear_next b q = q\<lparr>msg_next := (msg_next q)(b := None)\<rparr>"

text \<open>Second critical section of \<^verbatim>\<open>rt_mq_send\<close>: the block becomes the last one.\<close>

definition mq_link :: "nat \<Rightarrow> rt_messagequeue \<Rightarrow> rt_messagequeue" where
  "mq_link b q =
     (let q = (case msg_queue_tail q of
                 None \<Rightarrow> q | Some l \<Rightarrow> q\<lparr>msg_next := (msg_next q)(l := Some b)\<rparr>);
          q = q\<lparr>msg_queue_tail := Some b\<rparr>;
          q = (if msg_queue_head q = None then q\<lparr>msg_queue_head := Some b\<rparr> else q)
      in q\<lparr>mq_entry := mq_entry q + 1\<rparr>)"

text \<open>Second critical section of \<^verbatim>\<open>rt_mq_urgent\<close>: the block becomes the first one.\<close>

definition mq_push :: "nat \<Rightarrow> rt_messagequeue \<Rightarrow> rt_messagequeue" where
  "mq_push b q =
     (let q = q\<lparr>msg_next := (msg_next q)(b := msg_queue_head q)\<rparr>;
          q = q\<lparr>msg_queue_head := Some b\<rparr>;
          q = (if msg_queue_tail q = None then q\<lparr>msg_queue_tail := Some b\<rparr> else q)
      in q\<lparr>mq_entry := mq_entry q + 1\<rparr>)"

text \<open>The receiver takes the first block, copies, and puts the block on the free list.\<close>

definition mq_unlink :: "rt_messagequeue \<Rightarrow> (nat \<times> rt_messagequeue) option" where
  "mq_unlink q = (case msg_queue_head q of
     None \<Rightarrow> None
   | Some b \<Rightarrow> Some (b,
       let q = q\<lparr>msg_queue_head := msg_next q b\<rparr>
       in if msg_queue_tail q = Some b then q\<lparr>msg_queue_tail := None\<rparr> else q))"

definition mq_release :: "nat \<Rightarrow> rt_messagequeue \<Rightarrow> rt_messagequeue" where
  "mq_release b q =
     q\<lparr>msg_next := (msg_next q)(b := msg_queue_free q), msg_queue_free := Some b\<rparr>"

definition mq_pop :: "rt_messagequeue \<Rightarrow> (nat \<times> rt_messagequeue) option" where
  "mq_pop q = (case mq_unlink q of
     None \<Rightarrow> None | Some (b, q) \<Rightarrow> Some (b, q\<lparr>mq_entry := mq_entry q - 1\<rparr>))"

section \<open>The lists\<close>

fun blocks_from :: "(nat \<Rightarrow> nat option) \<Rightarrow> nat option \<Rightarrow> nat list \<Rightarrow> bool" where
  "blocks_from nxt p [] \<longleftrightarrow> p = None"
| "blocks_from nxt p (b # bs) \<longleftrightarrow> p = Some b \<and> blocks_from nxt (nxt b) bs"

fun walk :: "nat \<Rightarrow> (nat \<Rightarrow> nat option) \<Rightarrow> nat option \<Rightarrow> nat list" where
  "walk 0 nxt p = []"
| "walk (Suc k) nxt None = []"
| "walk (Suc k) nxt (Some b) = b # walk k nxt (nxt b)"

lemma walk_chain: "blocks_from nxt p bs \<Longrightarrow> length bs \<le> k \<Longrightarrow> walk k nxt p = bs"
proof (induction bs arbitrary: p k)
  case Nil
  then show ?case by (cases k) simp_all
next
  case (Cons b bs)
  then show ?case by (cases k) simp_all
qed

lemma blocks_from_upd [simp]: "b \<notin> set bs \<Longrightarrow> blocks_from (nxt(b := x)) p bs = blocks_from nxt p bs"
  by (induction bs arbitrary: p) auto

lemma blocks_from_append:
  "blocks_from nxt p bs \<Longrightarrow> distinct bs \<Longrightarrow> bs \<noteq> [] \<Longrightarrow> b \<notin> set bs \<Longrightarrow> nxt b = None \<Longrightarrow>
   blocks_from (nxt(last bs := Some b)) p (bs @ [b])"
proof (induction bs arbitrary: p)
  case (Cons c bs)
  then show ?case by (cases bs) auto
qed simp

text \<open>Where every block is.\<close>

record places =
  queued_blocks :: "nat list"
  free_blocks :: "nat list"

definition mq_at :: "rt_messagequeue \<Rightarrow> nat set \<Rightarrow> places \<Rightarrow> bool" where
  "mq_at q F pl \<longleftrightarrow> blocks_from (msg_next q) (msg_queue_head q) (queued_blocks pl) \<and>
     blocks_from (msg_next q) (msg_queue_free q) (free_blocks pl) \<and>
     msg_queue_tail q = (if queued_blocks pl = [] then None else Some (last (queued_blocks pl))) \<and>
     unat (mq_entry q) = length (queued_blocks pl) \<and>
     distinct (queued_blocks pl @ free_blocks pl) \<and>
     F \<inter> set (queued_blocks pl @ free_blocks pl) = {} \<and>
     F \<union> set (queued_blocks pl @ free_blocks pl) = {..<unat (max_msgs q)} \<and>
     (\<forall>b < unat (max_msgs q). length (msg_data q b) = unat (msg_size q))"

text \<open>The lists as functions of the queue.\<close>

definition mq_places :: "rt_messagequeue \<Rightarrow> places" where
  "mq_places q = \<lparr>queued_blocks = walk (unat (mq_entry q)) (msg_next q) (msg_queue_head q),
     free_blocks = walk (unat (max_msgs q)) (msg_next q) (msg_queue_free q)\<rparr>"

definition mq_ok :: "rt_messagequeue \<Rightarrow> nat set \<Rightarrow> bool" where
  "mq_ok q F \<longleftrightarrow> mq_at q F (mq_places q)"

definition mq_contents :: "rt_messagequeue \<Rightarrow> u8 list list" where
  "mq_contents q = map (msg_data q) (queued_blocks (mq_places q))"

definition mq_room :: "rt_messagequeue \<Rightarrow> nat" where
  "mq_room q = length (free_blocks (mq_places q))"

lemma mq_atD:
  assumes "mq_at q F pl"
  shows "blocks_from (msg_next q) (msg_queue_head q) (queued_blocks pl)"
    "blocks_from (msg_next q) (msg_queue_free q) (free_blocks pl)"
    "msg_queue_tail q = (if queued_blocks pl = [] then None else Some (last (queued_blocks pl)))"
    "unat (mq_entry q) = length (queued_blocks pl)"
    "distinct (queued_blocks pl)" "distinct (free_blocks pl)"
    "set (queued_blocks pl) \<inter> set (free_blocks pl) = {}"
    "F \<inter> set (queued_blocks pl) = {}" "F \<inter> set (free_blocks pl) = {}"
    "F \<union> (set (queued_blocks pl) \<union> set (free_blocks pl)) = {..<unat (max_msgs q)}"
    "b < unat (max_msgs q) \<Longrightarrow> length (msg_data q b) = unat (msg_size q)"
  using assms by (auto simp: mq_at_def)

lemma mq_at_bound:
  assumes "mq_at q F pl"
  shows "length (queued_blocks pl) + length (free_blocks pl) + card F = unat (max_msgs q)"
proof -
  note d = mq_atD [OF assms]
  have "finite F" using d(10) by (metis finite_Un finite_lessThan)
  then have "card (F \<union> (set (queued_blocks pl) \<union> set (free_blocks pl))) =
      card F + (card (set (queued_blocks pl)) + card (set (free_blocks pl)))"
    using d(7-9) by (subst card_Un_disjoint, simp, simp, blast, subst card_Un_disjoint) auto
  then show ?thesis using d(5,6,10) by (simp add: distinct_card)
qed

text \<open>The two lists of a queue are determined by its pointers.\<close>

lemma mq_at_unique:
  assumes "mq_at q F pl"
  shows "mq_places q = pl"
proof -
  note d = mq_atD [OF assms]
  have "length (free_blocks pl) \<le> unat (max_msgs q)" using mq_at_bound [OF assms] by simp
  then show ?thesis
    using walk_chain [OF d(1)] walk_chain [OF d(2)] d(4) by (cases pl) (simp add: mq_places_def)
qed

lemma mq_at_okI: "mq_at q F pl \<Longrightarrow> mq_ok q F"
  using mq_at_unique by (simp add: mq_ok_def)

section \<open>What the steps do to the lists\<close>

lemma mq_alloc_spec:
  assumes "mq_ok q F"
  shows "mq_alloc q = (case free_blocks (mq_places q) of [] \<Rightarrow> None
      | b # _ \<Rightarrow> Some (b, q\<lparr>msg_queue_free := msg_next q b\<rparr>))"
    and "free_blocks (mq_places q) = b # bs \<Longrightarrow>
      mq_at (q\<lparr>msg_queue_free := msg_next q b\<rparr>) (insert b F) ((mq_places q)\<lparr>free_blocks := bs\<rparr>)"
proof -
  have at: "mq_at q F (mq_places q)" using assms by (simp add: mq_ok_def)
  note d = mq_atD [OF at]
  show "mq_alloc q = (case free_blocks (mq_places q) of [] \<Rightarrow> None
      | b # _ \<Rightarrow> Some (b, q\<lparr>msg_queue_free := msg_next q b\<rparr>))"
    using d(2) by (auto simp: mq_alloc_def split: list.split)
  assume f: "free_blocks (mq_places q) = b # bs"
  show "mq_at (q\<lparr>msg_queue_free := msg_next q b\<rparr>) (insert b F) ((mq_places q)\<lparr>free_blocks := bs\<rparr>)"
    using at f by (auto simp: mq_at_def)
qed

lemma mq_fill_spec:
  assumes "mq_at q F pl" "b \<in> F" "length buf \<le> unat (msg_size q)"
  shows "mq_at (mq_fill b buf q) F pl"
  using assms mq_atD(11) [OF assms(1), of b] by (auto simp: mq_at_def mq_fill_def)

lemma mq_clear_next_spec:
  assumes "mq_at q F pl" "b \<in> F"
  shows "mq_at (mq_clear_next b q) F pl"
proof -
  have "b \<notin> set (queued_blocks pl)" "b \<notin> set (free_blocks pl)"
    using assms(2) mq_atD(8,9) [OF assms(1)] by auto
  then show ?thesis using assms(1) by (simp add: mq_at_def mq_clear_next_def)
qed

lemma mq_flight_entry:
  assumes "mq_at q F pl" "b \<in> F"
  shows "unat (mq_entry q + 1) = Suc (length (queued_blocks pl))"
proof -
  have "0 < card F"
    using assms(2) mq_atD(10) [OF assms(1)] by (metis card_gt_0_iff empty_iff finite_Un finite_lessThan)
  then have "unat (mq_entry q) < unat (max_msgs q)"
    using mq_at_bound [OF assms(1)] mq_atD(4) [OF assms(1)] by simp
  then show ?thesis using unat_Suc_less mq_atD(4) [OF assms(1)] by metis
qed

lemma mq_link_spec:
  assumes at: "mq_at q F pl" and b: "b \<in> F" and nxt: "msg_next q b = None"
  shows "mq_at (mq_link b q) (F - {b}) (pl\<lparr>queued_blocks := queued_blocks pl @ [b]\<rparr>)"
proof -
  note d = mq_atD [OF at]
  have nb: "b \<notin> set (queued_blocks pl)" "b \<notin> set (free_blocks pl)" using b d(8,9) by auto
  have e: "unat (mq_entry q + 1) = Suc (length (queued_blocks pl))" by (rule mq_flight_entry [OF at b])
  show ?thesis
  proof (cases "queued_blocks pl = []")
    case True
    then have "msg_queue_head q = None" "msg_queue_tail q = None" using d(1,3) by simp_all
    then have "mq_link b q = q\<lparr>msg_queue_tail := Some b, msg_queue_head := Some b, mq_entry := mq_entry q + 1\<rparr>"
      by (simp add: mq_link_def)
    then show ?thesis using at b nb True e nxt by (auto simp: mq_at_def)
  next
    case False
    let ?l = "last (queued_blocks pl)"
    have l: "?l \<notin> set (free_blocks pl)" using False d(7) by (meson disjoint_iff last_in_set)
    have h: "msg_queue_head q \<noteq> None" using d(1) False by (cases "queued_blocks pl") auto
    have "mq_link b q = q\<lparr>msg_next := (msg_next q)(?l := Some b), msg_queue_tail := Some b,
        mq_entry := mq_entry q + 1\<rparr>"
      using h False by (auto simp: mq_link_def d(3) Let_def)
    moreover have "blocks_from ((msg_next q)(?l := Some b)) (msg_queue_head q) (queued_blocks pl @ [b])"
      by (rule blocks_from_append [OF d(1) d(5) False nb(1) nxt])
    ultimately show ?thesis using at b nb False e l by (auto simp: mq_at_def)
  qed
qed

lemma mq_push_spec:
  assumes at: "mq_at q F pl" and b: "b \<in> F"
  shows "mq_at (mq_push b q) (F - {b}) (pl\<lparr>queued_blocks := b # queued_blocks pl\<rparr>)"
proof -
  note d = mq_atD [OF at]
  have nb: "b \<notin> set (queued_blocks pl)" "b \<notin> set (free_blocks pl)" using b d(8,9) by auto
  have e: "unat (mq_entry q + 1) = Suc (length (queued_blocks pl))" by (rule mq_flight_entry [OF at b])
  have "mq_push b q = q\<lparr>msg_next := (msg_next q)(b := msg_queue_head q), msg_queue_head := Some b,
      msg_queue_tail := Some (last (b # queued_blocks pl)), mq_entry := mq_entry q + 1\<rparr>"
    using d(3) by (cases q) (auto simp: mq_push_def)
  then show ?thesis using at b nb e by (auto simp: mq_at_def)
qed

lemma mq_unlink_spec:
  assumes at: "mq_at q F pl" and qb: "queued_blocks pl = b # bs"
  shows "mq_unlink q = Some (b, q\<lparr>msg_queue_head := msg_next q b,
      msg_queue_tail := (if bs = [] then None else Some (last bs))\<rparr>)"
proof -
  note d = mq_atD [OF at]
  have "bs \<noteq> [] \<Longrightarrow> last bs \<noteq> b" using d(5) qb by auto
  then show ?thesis using d(1,3) qb by (cases q) (auto simp: mq_unlink_def)
qed

lemma mq_pop_spec:
  assumes at: "mq_at q F pl" and qb: "queued_blocks pl = b # bs"
  shows "\<exists>q'. mq_pop q = Some (b, q') \<and> mq_at q' (insert b F) (pl\<lparr>queued_blocks := bs\<rparr>) \<and>
    msg_data q' = msg_data q"
proof -
  note d = mq_atD [OF at]
  let ?q = "q\<lparr>msg_queue_head := msg_next q b, msg_queue_tail := (if bs = [] then None else Some (last bs)),
     mq_entry := mq_entry q - 1\<rparr>"
  have "unat (mq_entry q - 1) = length bs" using unat_pred [of "mq_entry q"] d(4) qb by simp
  then have "mq_at ?q (insert b F) (pl\<lparr>queued_blocks := bs\<rparr>)"
    using at qb by (auto simp: mq_at_def)
  then show ?thesis using mq_unlink_spec [OF assms] by (simp add: mq_pop_def)
qed

lemma mq_pop_empty: "mq_at q F pl \<Longrightarrow> queued_blocks pl = [] \<Longrightarrow> mq_pop q = None"
  using mq_atD(1) [of q F pl] by (simp add: mq_pop_def mq_unlink_def)

lemma mq_release_spec:
  assumes at: "mq_at q F pl" and b: "b \<in> F"
  shows "mq_at (mq_release b q) (F - {b}) (pl\<lparr>free_blocks := b # free_blocks pl\<rparr>)"
proof -
  have "b \<notin> set (queued_blocks pl)" "b \<notin> set (free_blocks pl)"
    using b mq_atD(8,9) [OF at] by auto
  then show ?thesis using at b by (auto simp: mq_at_def mq_release_def)
qed

section \<open>A bounded queue of messages\<close>

definition stored :: "u8 list \<Rightarrow> u8 list \<Rightarrow> bool" where
  "stored m w \<longleftrightarrow> take (length m) w = m"

text \<open>The critical sections of one call, run without interruption.\<close>

definition mq_put :: "u8 list \<Rightarrow> rt_messagequeue \<Rightarrow> rt_messagequeue" where
  "mq_put m q = (case mq_alloc q of
     None \<Rightarrow> q | Some (b, q) \<Rightarrow> mq_link b (mq_fill b m (mq_clear_next b q)))"

definition mq_put_first :: "u8 list \<Rightarrow> rt_messagequeue \<Rightarrow> rt_messagequeue" where
  "mq_put_first m q = (case mq_alloc q of
     None \<Rightarrow> q | Some (b, q) \<Rightarrow> mq_push b (mq_fill b m q))"

definition mq_get :: "rt_messagequeue \<Rightarrow> u8 list \<times> rt_messagequeue" where
  "mq_get q = (case mq_pop q of
     None \<Rightarrow> ([], q) | Some (b, q) \<Rightarrow> (msg_data q b, mq_release b q))"

lemma mq_at_contents: "mq_at q F pl \<Longrightarrow> mq_contents q = map (msg_data q) (queued_blocks pl)"
  by (simp add: mq_contents_def mq_at_unique)

lemma mq_at_room: "mq_at q F pl \<Longrightarrow> mq_room q = length (free_blocks pl)"
  by (simp add: mq_room_def mq_at_unique)

lemma mq_step_sel [simp]:
  "msg_data (mq_link b q) = msg_data q" "msg_data (mq_push b q) = msg_data q"
  "msg_data (mq_clear_next b q) = msg_data q" "msg_data (mq_release b q) = msg_data q"
  "msg_size (mq_link b q) = msg_size q" "msg_size (mq_push b q) = msg_size q"
  "msg_size (mq_clear_next b q) = msg_size q" "msg_size (mq_release b q) = msg_size q"
  "msg_size (mq_fill b m q) = msg_size q"
  "msg_data (mq_fill b m q) c = (if c = b then m @ drop (length m) (msg_data q b) else msg_data q c)"
  "msg_next (mq_fill b m q) = msg_next q" "msg_next (mq_clear_next b q) b = None"
  "msg_next (mq_release b q) c = (if c = b then msg_queue_free q else msg_next q c)"
  by (simp_all add: mq_link_def mq_push_def mq_clear_next_def mq_release_def mq_fill_def Let_def
      split: option.split)

lemma stored_append [simp]: "stored m (m @ w)"
  by (simp add: stored_def)

lemma mq_put_at:
  assumes at: "mq_at q F pl" and f: "free_blocks pl = b # bs" and m: "length m \<le> unat (msg_size q)"
  shows "mq_at (mq_put m q) F (pl\<lparr>queued_blocks := queued_blocks pl @ [b], free_blocks := bs\<rparr>)"
    and "mq_at (mq_put_first m q) F (pl\<lparr>queued_blocks := b # queued_blocks pl, free_blocks := bs\<rparr>)"
    and "msg_data (mq_put m q) = (msg_data q)(b := m @ drop (length m) (msg_data q b))"
    and "msg_data (mq_put_first m q) = (msg_data q)(b := m @ drop (length m) (msg_data q b))"
    and "msg_size (mq_put m q) = msg_size q" and "msg_size (mq_put_first m q) = msg_size q"
proof -
  have ok: "mq_ok q F" and pl: "mq_places q = pl" using at by (rule mq_at_okI, rule mq_at_unique)
  let ?q1 = "q\<lparr>msg_queue_free := msg_next q b\<rparr>"
  let ?q2 = "mq_clear_next b ?q1"
  have swap: "pl\<lparr>free_blocks := bs, queued_blocks := x\<rparr> = pl\<lparr>queued_blocks := x, free_blocks := bs\<rparr>" for x
    by (cases pl) simp
  have al: "mq_alloc q = Some (b, ?q1)" using mq_alloc_spec(1) [OF ok] f by (simp add: pl)
  have 1: "mq_at ?q1 (insert b F) (pl\<lparr>free_blocks := bs\<rparr>)"
    using mq_alloc_spec(2) [OF ok, of b bs] f by (simp add: pl)
  have 2: "mq_at ?q2 (insert b F) (pl\<lparr>free_blocks := bs\<rparr>)"
    by (rule mq_clear_next_spec [OF 1]) simp
  have F: "insert b F - {b} = F" using mq_atD(9) [OF at] f by auto
  have "mq_at (mq_fill b m ?q1) (insert b F) (pl\<lparr>free_blocks := bs\<rparr>)"
    by (rule mq_fill_spec [OF 1]) (use m in simp_all)
  from mq_push_spec [OF this, of b] show "mq_at (mq_put_first m q) F (pl\<lparr>queued_blocks := b # queued_blocks pl, free_blocks := bs\<rparr>)"
    by (simp add: mq_put_first_def al F swap)
  have "mq_at (mq_fill b m ?q2) (insert b F) (pl\<lparr>free_blocks := bs\<rparr>)"
    by (rule mq_fill_spec [OF 2]) (use m in simp_all)
  from mq_link_spec [OF this, of b] show "mq_at (mq_put m q) F (pl\<lparr>queued_blocks := queued_blocks pl @ [b], free_blocks := bs\<rparr>)"
    by (simp add: mq_put_def al F swap)
  show "msg_data (mq_put m q) = (msg_data q)(b := m @ drop (length m) (msg_data q b))"
    "msg_data (mq_put_first m q) = (msg_data q)(b := m @ drop (length m) (msg_data q b))"
    "msg_size (mq_put m q) = msg_size q" "msg_size (mq_put_first m q) = msg_size q"
    by (auto simp: mq_put_def mq_put_first_def al)
qed

lemma mq_get_at:
  assumes at: "mq_at q F pl" and f: "queued_blocks pl = b # bs"
  shows "fst (mq_get q) = msg_data q b" "msg_data (snd (mq_get q)) = msg_data q"
    "mq_at (snd (mq_get q)) F (pl\<lparr>queued_blocks := bs, free_blocks := b # free_blocks pl\<rparr>)"
proof -
  obtain q' where q': "mq_pop q = Some (b, q')" "mq_at q' (insert b F) (pl\<lparr>queued_blocks := bs\<rparr>)"
      "msg_data q' = msg_data q"
    using mq_pop_spec [OF assms] by blast
  have F: "insert b F - {b} = F" using mq_atD(8) [OF at] f by auto
  show "fst (mq_get q) = msg_data q b" "msg_data (snd (mq_get q)) = msg_data q"
    "mq_at (snd (mq_get q)) F (pl\<lparr>queued_blocks := bs, free_blocks := b # free_blocks pl\<rparr>)"
    using mq_release_spec [OF q'(2), of b] by (simp_all add: mq_get_def q'(1,3) F)
qed

lemma mq_put_spec:
  assumes ok: "mq_ok q F" and m: "length m \<le> unat (msg_size q)" and r: "0 < mq_room q"
  shows "mq_ok (mq_put m q) F" "mq_ok (mq_put_first m q) F"
    "\<exists>w. stored m w \<and> mq_contents (mq_put m q) = mq_contents q @ [w]"
    "\<exists>w. stored m w \<and> mq_contents (mq_put_first m q) = w # mq_contents q"
    "Suc (mq_room (mq_put m q)) = mq_room q" "Suc (mq_room (mq_put_first m q)) = mq_room q"
proof -
  have at: "mq_at q F (mq_places q)" using ok by (simp add: mq_ok_def)
  obtain b bs where f: "free_blocks (mq_places q) = b # bs"
    using r by (cases "free_blocks (mq_places q)") (simp_all add: mq_room_def)
  note p = mq_put_at [OF at f m]
  show "mq_ok (mq_put m q) F" "mq_ok (mq_put_first m q) F"
    using mq_at_okI [OF p(1)] mq_at_okI [OF p(2)] by simp_all
  have "b \<notin> set (queued_blocks (mq_places q))" using mq_atD(7) [OF at] f by auto
  then show "\<exists>w. stored m w \<and> mq_contents (mq_put m q) = mq_contents q @ [w]"
    "\<exists>w. stored m w \<and> mq_contents (mq_put_first m q) = w # mq_contents q"
    by (simp_all add: mq_at_contents [OF p(1)] mq_at_contents [OF p(2)] mq_at_contents [OF at] p(3,4))
  show "Suc (mq_room (mq_put m q)) = mq_room q" "Suc (mq_room (mq_put_first m q)) = mq_room q"
    by (simp_all add: mq_at_room [OF p(1)] mq_at_room [OF p(2)] mq_at_room [OF at] f)
qed

lemma mq_get_spec:
  assumes ok: "mq_ok q F" and ne: "mq_contents q \<noteq> []"
  shows "mq_ok (snd (mq_get q)) F" "mq_contents q = fst (mq_get q) # mq_contents (snd (mq_get q))"
    "mq_room (snd (mq_get q)) = Suc (mq_room q)"
proof -
  have at: "mq_at q F (mq_places q)" using ok by (simp add: mq_ok_def)
  obtain b bs where f: "queued_blocks (mq_places q) = b # bs"
    using ne by (cases "queued_blocks (mq_places q)") (simp_all add: mq_contents_def)
  note g = mq_get_at [OF at f]
  show "mq_ok (snd (mq_get q)) F" using g(3) by (rule mq_at_okI)
  show "mq_contents q = fst (mq_get q) # mq_contents (snd (mq_get q))"
    by (simp add: mq_at_contents [OF g(3)] mq_at_contents [OF at] f g(1,2))
  show "mq_room (snd (mq_get q)) = Suc (mq_room q)"
    by (simp add: mq_at_room [OF g(3)] mq_at_room [OF at])
qed

lemma mq_put_size: "msg_size (mq_put m q) = msg_size q"
  by (auto simp: mq_put_def mq_alloc_def split: option.split)

interpretation mqq: bounded_queue mq_put mq_get mq_contents mq_room "\<lambda>q. mq_ok q F"
  "\<lambda>m q. length m \<le> unat (msg_size q)" stored for F
  by unfold_locales (use mq_put_spec mq_get_spec mq_put_size in \<open>fastforce+\<close>)

section \<open>Interleaving\<close>

text \<open>What a thread does with the block it holds: it has just been given it, it has filled it for
  \<^verbatim>\<open>rt_mq_send\<close> or \<^verbatim>\<open>rt_mq_urgent\<close>, or it reads it.\<close>

datatype stage = Owned | Filled "u8 list" | Filled_urgent "u8 list" | Reading "u8 list"

type_synonym mq_state = "rt_messagequeue \<times> (nat \<rightharpoonup> stage) \<times> u8 list list"

text \<open>The third component is the specification: the messages in the order in which they are to be
  received, as the last critical sections of the senders arrange them.\<close>

inductive mq_step :: "mq_state \<Rightarrow> mq_state \<Rightarrow> bool" where
  alloc: "mq_alloc q = Some (b, q') \<Longrightarrow> mq_step (q, h, ms) (q', h(b \<mapsto> Owned), ms)"
| copy: "h b = Some Owned \<Longrightarrow> length m \<le> unat (msg_size q) \<Longrightarrow>
    mq_step (q, h, ms) (mq_fill b m (mq_clear_next b q), h(b \<mapsto> Filled m), ms)"
| copy_urgent: "h b = Some Owned \<Longrightarrow> length m \<le> unat (msg_size q) \<Longrightarrow>
    mq_step (q, h, ms) (mq_fill b m q, h(b \<mapsto> Filled_urgent m), ms)"
| link: "h b = Some (Filled m) \<Longrightarrow> mq_step (q, h, ms) (mq_link b q, h(b := None), ms @ [m])"
| push: "h b = Some (Filled_urgent m) \<Longrightarrow> mq_step (q, h, ms) (mq_push b q, h(b := None), m # ms)"
| pop: "mq_pop q = Some (b, q') \<Longrightarrow> mq_step (q, h, ms) (q', h(b \<mapsto> Reading (hd ms)), tl ms)"
| release: "h b = Some (Reading m) \<Longrightarrow> mq_step (q, h, ms) (mq_release b q, h(b := None), ms)"

inductive_cases mq_stepE: "mq_step (q, h, ms) s'"

inductive mq_reach :: "mq_state \<Rightarrow> mq_state \<Rightarrow> bool" where
  mq_start: "mq_reach s s"
| mq_next: "mq_reach s s' \<Longrightarrow> mq_step s' s'' \<Longrightarrow> mq_reach s s''"

fun stage_ok :: "rt_messagequeue \<Rightarrow> nat \<Rightarrow> stage \<Rightarrow> bool" where
  "stage_ok q b Owned \<longleftrightarrow> True"
| "stage_ok q b (Filled m) \<longleftrightarrow> msg_next q b = None \<and> stored m (msg_data q b)"
| "stage_ok q b (Filled_urgent m) \<longleftrightarrow> stored m (msg_data q b)"
| "stage_ok q b (Reading m) \<longleftrightarrow> stored m (msg_data q b)"

definition mq_inv :: "mq_state \<Rightarrow> bool" where
  "mq_inv = (\<lambda>(q, h, ms). mq_ok q (dom h) \<and> list_all2 stored ms (mq_contents q) \<and>
     (\<forall>b st. h b = Some st \<longrightarrow> stage_ok q b st))"

lemma stage_ok_cong:
  "stage_ok q b st \<Longrightarrow> msg_next q' b = msg_next q b \<Longrightarrow> msg_data q' b = msg_data q b \<Longrightarrow> stage_ok q' b st"
  by (cases st) simp_all

lemma mq_invI:
  assumes "mq_at q (dom h) pl" "list_all2 stored ms (map (msg_data q) (queued_blocks pl))"
    and "\<And>b st. h b = Some st \<Longrightarrow> stage_ok q b st"
  shows "mq_inv (q, h, ms)"
  using assms by (simp add: mq_inv_def mq_at_okI mq_at_contents)

lemma mq_invE:
  assumes "mq_inv (q, h, ms)"
  obtains pl where "mq_at q (dom h) pl" "list_all2 stored ms (map (msg_data q) (queued_blocks pl))"
    "\<forall>b st. h b = Some st \<longrightarrow> stage_ok q b st"
  using assms by (auto simp: mq_inv_def mq_ok_def mq_contents_def)

text \<open>Blocks in the hands of a thread are on neither list, so copying touches no other message.\<close>

lemma fill_others:
  assumes "mq_at q (dom h) pl" "b \<in> dom h"
  shows "map (msg_data (mq_fill b m q')) (queued_blocks pl) = map (msg_data q') (queued_blocks pl)"
proof -
  have "b \<notin> set (queued_blocks pl)" using assms(2) mq_atD(8) [OF assms(1)] by auto
  then show ?thesis by (auto intro!: map_cong)
qed

lemma mq_inv_alloc:
  assumes "mq_inv (q, h, ms)" "mq_alloc q = Some (b, q')"
  shows "mq_inv (q', h(b \<mapsto> Owned), ms)"
proof -
  obtain pl where at: "mq_at q (dom h) pl" and c: "list_all2 stored ms (map (msg_data q) (queued_blocks pl))"
    and h: "\<forall>b st. h b = Some st \<longrightarrow> stage_ok q b st"
    using assms(1) by (rule mq_invE)
  note ok = mq_alloc_spec [OF mq_at_okI [OF at], unfolded mq_at_unique [OF at]]
  obtain bs where f: "free_blocks pl = b # bs" "q' = q\<lparr>msg_queue_free := msg_next q b\<rparr>"
    using ok(1) assms(2) by (auto split: list.splits)
  have "stage_ok q' c st" if "h c = Some st" for c st
    by (rule stage_ok_cong [of q]) (use h that f(2) in simp_all)
  then show ?thesis
    by (intro mq_invI [where pl = "pl\<lparr>free_blocks := bs\<rparr>"])
      (use ok(2) [OF f(1)] f(2) c in \<open>auto split: if_splits\<close>)
qed

lemma mq_inv_copy:
  assumes "mq_inv (q, h, ms)" "h b = Some st0" "length m \<le> unat (msg_size q)"
  shows "mq_inv (mq_fill b m (mq_clear_next b q), h(b \<mapsto> Filled m), ms)"
    and "mq_inv (mq_fill b m q, h(b \<mapsto> Filled_urgent m), ms)"
proof -
  obtain pl where at: "mq_at q (dom h) pl" and c: "list_all2 stored ms (map (msg_data q) (queued_blocks pl))"
    and h: "\<forall>b st. h b = Some st \<longrightarrow> stage_ok q b st"
    using assms(1) by (rule mq_invE)
  have b: "b \<in> dom h" "insert b (dom h) = dom h" using assms(2) by auto
  have other: "stage_ok (mq_fill b m (mq_clear_next b q)) x st" "stage_ok (mq_fill b m q) x st"
    if "h x = Some st" "x \<noteq> b" for x st
    by (rule stage_ok_cong [OF h [rule_format, OF that(1)]]; use that in \<open>simp add: mq_clear_next_def\<close>)+
  have m: "length m \<le> unat (msg_size (mq_clear_next b q))" using assms(3) by simp
  have *: "stage_ok (mq_fill b m (mq_clear_next b q)) b (Filled m)" "stage_ok (mq_fill b m q) b (Filled_urgent m)"
    by simp_all
  have d: "dom (h(b \<mapsto> st)) = dom h" for st using b(2) by simp
  have c1: "list_all2 stored ms (map (msg_data (mq_fill b m (mq_clear_next b q))) (queued_blocks pl))"
      "list_all2 stored ms (map (msg_data (mq_fill b m q)) (queued_blocks pl))"
    using c unfolding fill_others [OF at b(1)] by simp_all
  show "mq_inv (mq_fill b m (mq_clear_next b q), h(b \<mapsto> Filled m), ms)"
    by (rule mq_invI [OF _ c1(1)])
      (use mq_fill_spec [OF mq_clear_next_spec [OF at b(1)] b(1) m] d other(1) *(1)
        in \<open>auto simp del: stage_ok.simps split: if_splits\<close>)
  show "mq_inv (mq_fill b m q, h(b \<mapsto> Filled_urgent m), ms)"
    by (rule mq_invI [OF _ c1(2)])
      (use mq_fill_spec [OF at b(1) assms(3)] d other(2) *(2)
        in \<open>auto simp del: stage_ok.simps split: if_splits\<close>)
qed

lemma mq_inv_link:
  assumes "mq_inv (q, h, ms)" "h b = Some (Filled m)"
  shows "mq_inv (mq_link b q, h(b := None), ms @ [m])"
proof -
  obtain pl where at: "mq_at q (dom h) pl" and c: "list_all2 stored ms (map (msg_data q) (queued_blocks pl))"
    and h: "\<forall>b st. h b = Some st \<longrightarrow> stage_ok q b st"
    using assms(1) by (rule mq_invE)
  have b: "b \<in> dom h" "msg_next q b = None" "stored m (msg_data q b)" using h [rule_format, OF assms(2)] assms(2) by auto
  have "stage_ok (mq_link b q) x st" if "h x = Some st" "x \<noteq> b" for x st
  proof (rule stage_ok_cong [OF h [rule_format, OF that(1)]])
    have "x \<notin> set (queued_blocks pl)" using that mq_atD(8) [OF at] by auto
    then have "msg_queue_tail q \<noteq> Some x" using mq_atD(3) [OF at] by (auto split: if_splits)
    then show "msg_next (mq_link b q) x = msg_next q x"
      by (auto simp: mq_link_def Let_def split: option.split)
  qed simp
  then show ?thesis
    using mq_link_spec [OF at b(1,2)] c b(3)
    by (intro mq_invI [where pl = "pl\<lparr>queued_blocks := queued_blocks pl @ [b]\<rparr>"])
      (auto simp: list_all2_appendI split: if_splits)
qed

lemma mq_inv_push:
  assumes "mq_inv (q, h, ms)" "h b = Some (Filled_urgent m)"
  shows "mq_inv (mq_push b q, h(b := None), m # ms)"
proof -
  obtain pl where at: "mq_at q (dom h) pl" and c: "list_all2 stored ms (map (msg_data q) (queued_blocks pl))"
    and h: "\<forall>b st. h b = Some st \<longrightarrow> stage_ok q b st"
    using assms(1) by (rule mq_invE)
  have b: "b \<in> dom h" "stored m (msg_data q b)" using h [rule_format, OF assms(2)] assms(2) by auto
  have "stage_ok (mq_push b q) x st" if "h x = Some st" "x \<noteq> b" for x st
    by (rule stage_ok_cong [OF h [rule_format, OF that(1)]]) (use that in \<open>simp_all add: mq_push_def Let_def\<close>)
  then show ?thesis
    using mq_push_spec [OF at b(1)] c b(2)
    by (intro mq_invI [where pl = "pl\<lparr>queued_blocks := b # queued_blocks pl\<rparr>"]) (auto split: if_splits)
qed

lemma mq_inv_pop:
  assumes "mq_inv (q, h, ms)" "mq_pop q = Some (b, q')"
  shows "ms \<noteq> []" "stored (hd ms) (msg_data q b)" "mq_inv (q', h(b \<mapsto> Reading (hd ms)), tl ms)"
proof -
  obtain pl where at: "mq_at q (dom h) pl" and c: "list_all2 stored ms (map (msg_data q) (queued_blocks pl))"
    and h: "\<forall>b st. h b = Some st \<longrightarrow> stage_ok q b st"
    using assms(1) by (rule mq_invE)
  obtain c0 bs where f: "queued_blocks pl = c0 # bs"
    using mq_pop_empty [OF at] assms(2) by (cases "queued_blocks pl") auto
  have q': "c0 = b" "mq_at q' (insert b (dom h)) (pl\<lparr>queued_blocks := bs\<rparr>)" "msg_data q' = msg_data q"
    using mq_pop_spec [OF at f] assms(2) by auto
  have nx: "msg_next q' = msg_next q"
    using mq_unlink_spec [OF at f] assms(2) by (auto simp: mq_pop_def)
  obtain m ms' where ms: "ms = m # ms'" "stored m (msg_data q b)" "list_all2 stored ms' (map (msg_data q) bs)"
    using c f q'(1) by (auto simp: list_all2_Cons2)
  show "ms \<noteq> []" "stored (hd ms) (msg_data q b)" using ms by simp_all
  have "stage_ok q' x st" if "h x = Some st" for x st
    by (rule stage_ok_cong [OF h [rule_format, OF that]]) (use nx q'(3) in simp_all)
  then show "mq_inv (q', h(b \<mapsto> Reading (hd ms)), tl ms)"
    using q'(2,3) ms by (intro mq_invI [where pl = "pl\<lparr>queued_blocks := bs\<rparr>"]) (auto split: if_splits)
qed

lemma mq_inv_release:
  assumes "mq_inv (q, h, ms)" "h b = Some st0"
  shows "mq_inv (mq_release b q, h(b := None), ms)"
proof -
  obtain pl where at: "mq_at q (dom h) pl" and c: "list_all2 stored ms (map (msg_data q) (queued_blocks pl))"
    and h: "\<forall>b st. h b = Some st \<longrightarrow> stage_ok q b st"
    using assms(1) by (rule mq_invE)
  have b: "b \<in> dom h" using assms(2) by auto
  have "stage_ok (mq_release b q) x st" if "h x = Some st" "x \<noteq> b" for x st
    by (rule stage_ok_cong [OF h [rule_format, OF that(1)]]) (use that in simp_all)
  then show ?thesis
    using mq_release_spec [OF at b] c
    by (intro mq_invI [where pl = "pl\<lparr>free_blocks := b # free_blocks pl\<rparr>"]) (auto split: if_splits)
qed

lemma mq_step_inv: "mq_step s s' \<Longrightarrow> mq_inv s \<Longrightarrow> mq_inv s'"
  by (induction rule: mq_step.induct)
    (blast intro: mq_inv_alloc mq_inv_copy mq_inv_link mq_inv_push mq_inv_pop mq_inv_release)+

lemma mq_reach_inv: "mq_reach s s' \<Longrightarrow> mq_inv s \<Longrightarrow> mq_inv s'"
  by (induction rule: mq_reach.induct) (auto intro: mq_step_inv)

end
