(* ===== verification/Messagequeue.thy ===== *)
theory Messagequeue
  imports Ipc Message_Blocks
begin

text \<open>
  Message queues of \<^verbatim>\<open>src/ipc.c\<close> over the blocks of theory \<open>Message_Blocks\<close>.
\<close>

section \<open>The routines\<close>

definition is_mq :: "nat \<Rightarrow> kernel \<Rightarrow> bool" where
  "is_mq n s \<longleftrightarrow> rt_object_get_type (OMessageQueue n) s = RT_Object_Class_MessageQueue"

definition upd_mq :: "nat \<Rightarrow> (rt_messagequeue \<Rightarrow> rt_messagequeue) \<Rightarrow> kernel \<Rightarrow> kernel" where
  "upd_mq n f s = s\<lparr>mqs := (mqs s)(n := f (mqs s n))\<rparr>"

text \<open>One turn of the loop that links the blocks of a new pool, and the whole loop.\<close>

definition mq_format_block :: "nat \<Rightarrow> rt_messagequeue \<Rightarrow> rt_messagequeue" where
  "mq_format_block temp q =
     q\<lparr>msg_next := (msg_next q)(temp := msg_queue_free q), msg_queue_free := Some temp\<rparr>"

definition mq_format :: "rt_messagequeue \<Rightarrow> rt_messagequeue" where
  "mq_format q = (fold mq_format_block [0..<unat (max_msgs q)]
     (q\<lparr>msg_queue_head := None, msg_queue_tail := None, msg_queue_free := None\<rparr>))\<lparr>mq_entry := 0\<rparr>"

text \<open>The bytes behind the headers of the blocks of a pool; \<open>pool\<close> is the memory from
  \<^verbatim>\<open>msg_pool\<close> on, a header is a pointer of four bytes.\<close>

definition pool_data :: "(nat \<Rightarrow> u8) \<Rightarrow> u16 \<Rightarrow> nat \<Rightarrow> u8 list" where
  "pool_data pool sz b = map (\<lambda>k. pool (b * (unat sz + 4) + 4 + k)) [0..<unat sz]"

definition rt_mq_init ::
  "nat \<Rightarrow> string \<Rightarrow> (nat \<Rightarrow> u8) \<Rightarrow> u32 \<Rightarrow> u32 \<Rightarrow> u8 \<Rightarrow> kernel \<Rightarrow> (rt_err_t \<times> kernel) option" where
  "rt_mq_init n name pool msgsize pool_size flag s = do {
     s \<leftarrow> rt_object_init (OMessageQueue n) RT_Object_Class_MessageQueue name s;
     let s = upd_obj (OMessageQueue n) (\<lambda>r. r\<lparr>oflag := flag\<rparr>) s;
     let s = rt_ipc_object_init (QMessageQueue n) s;
     let sz = ucast (RT_ALIGN msgsize RT_ALIGN_SIZE);
     let s = upd_mq n (\<lambda>r. r\<lparr>msg_size := sz, max_msgs := ucast (pool_size div (ucast sz + 4)),
               msg_data := pool_data pool sz\<rparr>) s;
     Some (RT_EOK, upd_mq n mq_format s)
   }"

definition rt_mq_detach :: "nat \<Rightarrow> kernel \<Rightarrow> (rt_err_t \<times> kernel) option" where
  "rt_mq_detach n s = do {
     RT_ASSERT (is_mq n s);
     RT_ASSERT (rt_object_is_systemobject (OMessageQueue n) s);
     s \<leftarrow> rt_ipc_list_resume_all (QMessageQueue n) s;
     Some (RT_EOK, rt_object_detach (OMessageQueue n) s)
   }"

definition rt_mq_delete :: "nat \<Rightarrow> kernel \<Rightarrow> (rt_err_t \<times> kernel) option" where
  "rt_mq_delete n s = do {
     RT_DEBUG_NOT_IN_INTERRUPT s;
     RT_ASSERT (is_mq n s);
     RT_ASSERT (\<not> rt_object_is_systemobject (OMessageQueue n) s);
     s \<leftarrow> rt_ipc_list_resume_all (QMessageQueue n) s;
     s \<leftarrow> rt_object_delete (OMessageQueue n) s;
     Some (RT_EOK, s)
   }"

definition rt_mq_create ::
  "oref option \<Rightarrow> (nat \<Rightarrow> u8) option \<Rightarrow> string \<Rightarrow> u32 \<Rightarrow> u32 \<Rightarrow> u8 \<Rightarrow> kernel \<Rightarrow>
   (nat option \<times> kernel) option" where
  "rt_mq_create mem pool name msgsize maxmsgs flag s = do {
     RT_DEBUG_NOT_IN_INTERRUPT s;
     (x, s) \<leftarrow> rt_object_allocate mem RT_Object_Class_MessageQueue name s;
     (case x of
        Some (OMessageQueue n) \<Rightarrow> do {
          let s = upd_obj (OMessageQueue n) (\<lambda>r. r\<lparr>oflag := flag\<rparr>) s;
          let s = rt_ipc_object_init (QMessageQueue n) s;
          let sz = ucast (RT_ALIGN msgsize RT_ALIGN_SIZE);
          let s = upd_mq n (\<lambda>r. r\<lparr>msg_size := sz, max_msgs := ucast maxmsgs\<rparr>) s;
          (case pool of
             None \<Rightarrow> do { (e, s) \<leftarrow> rt_mq_delete n s; Some (None, s) }
           | Some p \<Rightarrow> Some (Some n, upd_mq n mq_format
                 (upd_mq n (\<lambda>r. r\<lparr>msg_data := pool_data p sz\<rparr>) s)))
        }
      | _ \<Rightarrow> Some (None, s))
   }"

text \<open>Reading \<open>sz\<close> bytes of the caller's buffer.\<close>

definition read_buffer :: "u8 list \<Rightarrow> u32 \<Rightarrow> u8 list option" where
  "read_buffer buf sz = (if unat sz \<le> length buf then Some (take (unat sz) buf) else None)"

text \<open>The end of both senders.\<close>

definition mq_wake :: "nat \<Rightarrow> kernel \<Rightarrow> (rt_err_t \<times> kernel) option" where
  "mq_wake n s =
     (if queues s (Suspend (QMessageQueue n)) \<noteq> [] then do {
        (e, s) \<leftarrow> rt_ipc_list_resume (QMessageQueue n) s;
        s \<leftarrow> rt_schedule s;
        Some (RT_EOK, s)
      }
      else Some (RT_EOK, s))"

definition rt_mq_send :: "nat \<Rightarrow> u8 list \<Rightarrow> u32 \<Rightarrow> kernel \<Rightarrow> (rt_err_t \<times> kernel) option" where
  "rt_mq_send n buf sz s = do {
     RT_ASSERT (is_mq n s);
     RT_ASSERT (sz \<noteq> 0);
     (if ucast (msg_size (mqs s n)) < sz then Some (- RT_ERROR, s)
      else case mq_alloc (mqs s n) of
        None \<Rightarrow> Some (- RT_EFULL, s)
      | Some (b, q) \<Rightarrow> do {
          let s = upd_mq n (\<lambda>_. q) s;
          let s = upd_mq n (mq_clear_next b) s;
          m \<leftarrow> read_buffer buf sz;
          let s = upd_mq n (mq_fill b m) s;
          let s = upd_mq n (mq_link b) s;
          mq_wake n s
        })
   }"

definition rt_mq_urgent :: "nat \<Rightarrow> u8 list \<Rightarrow> u32 \<Rightarrow> kernel \<Rightarrow> (rt_err_t \<times> kernel) option" where
  "rt_mq_urgent n buf sz s = do {
     RT_ASSERT (is_mq n s);
     RT_ASSERT (sz \<noteq> 0);
     (if ucast (msg_size (mqs s n)) < sz then Some (- RT_ERROR, s)
      else case mq_alloc (mqs s n) of
        None \<Rightarrow> Some (- RT_EFULL, s)
      | Some (b, q) \<Rightarrow> do {
          let s = upd_mq n (\<lambda>_. q) s;
          m \<leftarrow> read_buffer buf sz;
          let s = upd_mq n (mq_fill b m) s;
          let s = upd_mq n (mq_push b) s;
          mq_wake n s
        })
   }"

text \<open>From \<^verbatim>\<open>get message from queue\<close> on.  The result is the bytes that are stored in the caller's
  buffer; the routine has no other way to tell their number.\<close>

definition mq_recv_now :: "nat \<Rightarrow> u32 \<Rightarrow> kernel \<Rightarrow> ((rt_err_t \<times> u8 list option) call \<times> kernel) option" where
  "mq_recv_now n sz s = do {
     (b, q) \<leftarrow> mq_pop (mqs s n);
     let s = upd_mq n (\<lambda>_. q) s;
     let len = (if ucast (msg_size q) < sz then ucast (msg_size q) else sz);
     m \<leftarrow> read_buffer (msg_data q b) len;
     let s = upd_mq n (mq_release b) s;
     Some (Return (RT_EOK, Some m), s)
   }"

partial_function (option) mq_recv_loop ::
  "tid option \<Rightarrow> nat \<Rightarrow> u32 \<Rightarrow> u32 \<Rightarrow> kernel \<Rightarrow> ((rt_err_t \<times> u8 list option) call \<times> kernel) option" where
  "mq_recv_loop self n sz timeout s =
     (if mq_entry (mqs s n) = 0 then do {
        RT_DEBUG_IN_THREAD_CONTEXT s;
        t \<leftarrow> self;
        let s = upd_thread t (\<lambda>r. r\<lparr>th_error := RT_EOK\<rparr>) s;
        (if timeout = 0
         then Some (Return (- RT_ETIMEOUT, None), upd_thread t (\<lambda>r. r\<lparr>th_error := - RT_ETIMEOUT\<rparr>) s)
         else do {
           let start = (if 0 < sint timeout then rt_tick s else 0);
           s \<leftarrow> suspend_with_timer t (QMessageQueue n) (oflag (objs s (OMessageQueue n))) timeout s;
           block_point t (FMqRecv n sz timeout start)
             (\<lambda>s. if th_error (threads s t) \<noteq> RT_EOK
                  then Some (Return (th_error (threads s t), None), s)
                  else mq_recv_loop self n sz (time_left timeout start (rt_tick s)) s) s
         })
      }
      else mq_recv_now n sz s)"

definition rt_mq_recv ::
  "nat \<Rightarrow> u32 \<Rightarrow> u32 \<Rightarrow> kernel \<Rightarrow> ((rt_err_t \<times> u8 list option) call \<times> kernel) option" where
  "rt_mq_recv n sz timeout s = do {
     RT_ASSERT (is_mq n s);
     RT_ASSERT (sz \<noteq> 0);
     (if mq_entry (mqs s n) = 0 \<and> timeout = 0
      then Some (Return (- RT_ETIMEOUT, None), s)
      else mq_recv_loop (current_thread s) n sz timeout s)
   }"

definition rt_mq_recv_wake ::
  "tid \<Rightarrow> nat \<Rightarrow> u32 \<Rightarrow> u32 \<Rightarrow> u32 \<Rightarrow> kernel \<Rightarrow> ((rt_err_t \<times> u8 list option) call \<times> kernel) option" where
  "rt_mq_recv_wake t n sz timeout start s =
     (if th_error (threads s t) \<noteq> RT_EOK then Some (Return (th_error (threads s t), None), s)
      else mq_recv_loop (Some t) n sz (time_left timeout start (rt_tick s)) s)"

text \<open>The loop of the reset: every queued block is freed.\<close>

partial_function (option) mq_reset_loop :: "rt_messagequeue \<Rightarrow> rt_messagequeue option" where
  "mq_reset_loop q = (case mq_unlink q of
     None \<Rightarrow> Some q | Some bq \<Rightarrow> mq_reset_loop (mq_release (fst bq) (snd bq)))"

definition rt_mq_control :: "nat \<Rightarrow> int \<Rightarrow> u32 \<Rightarrow> kernel \<Rightarrow> (rt_err_t \<times> kernel) option" where
  "rt_mq_control n cmd arg s = do {
     RT_ASSERT (is_mq n s);
     (if cmd = RT_IPC_CMD_RESET then do {
        s \<leftarrow> rt_ipc_list_resume_all (QMessageQueue n) s;
        q \<leftarrow> mq_reset_loop (mqs s n);
        let s = upd_mq n (\<lambda>_. q\<lparr>mq_entry := 0\<rparr>) s;
        s \<leftarrow> rt_schedule s;
        Some (RT_EOK, s)
      }
      else Some (- RT_ERROR, s))
   }"

section \<open>A new pool\<close>

lemma mq_format_fold:
  "let q' = fold mq_format_block [0..<k] q in
   (msg_queue_free q = None \<longrightarrow> blocks_from (msg_next q') (msg_queue_free q') (rev [0..<k])) \<and>
   msg_queue_head q' = msg_queue_head q \<and> msg_queue_tail q' = msg_queue_tail q \<and>
   max_msgs q' = max_msgs q \<and> msg_size q' = msg_size q \<and> msg_data q' = msg_data q"
  by (induction k) (auto simp: mq_format_block_def Let_def)

lemma mq_format_ok:
  assumes "\<forall>b < unat (max_msgs q). length (msg_data q b) = unat (msg_size q)"
  shows "mq_ok (mq_format q) {}" "mq_contents (mq_format q) = []"
    "mq_room (mq_format q) = unat (max_msgs q)"
proof -
  let ?q0 = "q\<lparr>msg_queue_head := None, msg_queue_tail := None, msg_queue_free := None\<rparr>"
  let ?pl = "\<lparr>queued_blocks = [], free_blocks = rev [0..<unat (max_msgs q)]\<rparr>"
  have at: "mq_at (mq_format q) {} ?pl"
    using assms mq_format_fold [of "unat (max_msgs q)" ?q0]
    by (auto simp: mq_at_def mq_format_def Let_def atLeast0LessThan)
  show "mq_ok (mq_format q) {}" "mq_contents (mq_format q) = []"
    "mq_room (mq_format q) = unat (max_msgs q)"
    using mq_at_okI [OF at] by (simp_all add: mq_at_contents [OF at] mq_at_room [OF at])
qed

lemma mq_unlink_entry:
  "mq_unlink (q\<lparr>mq_entry := e\<rparr>) = map_option (\<lambda>(b, q). (b, q\<lparr>mq_entry := e\<rparr>)) (mq_unlink q)"
  by (cases q) (auto simp: mq_unlink_def Let_def split: option.split)

text \<open>The reset ends, whatever is queued, and leaves all blocks free.\<close>

lemma mq_reset_spec:
  assumes "mq_at (q\<lparr>mq_entry := of_nat (length (queued_blocks pl))\<rparr>) F pl"
  shows "\<exists>q'. mq_reset_loop q = Some q' \<and> mq_at (q'\<lparr>mq_entry := 0\<rparr>) F
    (pl\<lparr>queued_blocks := [], free_blocks := rev (queued_blocks pl) @ free_blocks pl\<rparr>)"
  using assms
proof (induction "queued_blocks pl" arbitrary: q pl)
  case Nil
  have "mq_at (q\<lparr>mq_entry := 0\<rparr>) F pl" using Nil by simp
  then have "mq_unlink q = None" using mq_atD(1) [of "q\<lparr>mq_entry := 0\<rparr>" F pl] Nil(1)
    by (simp add: mq_unlink_def flip: Nil(1))
  moreover have "pl\<lparr>queued_blocks := [], free_blocks := rev (queued_blocks pl) @ free_blocks pl\<rparr> = pl"
    using Nil(1) by (cases pl) simp
  ultimately show ?case using \<open>mq_at (q\<lparr>mq_entry := 0\<rparr>) F pl\<close>
    by (subst mq_reset_loop.simps) simp
next
  case (Cons b bs)
  let ?e = "of_nat (length (queued_blocks pl)) :: u16"
  let ?pl' = "pl\<lparr>queued_blocks := bs, free_blocks := b # free_blocks pl\<rparr>"
  note f = Cons.hyps(2) [symmetric]
  obtain q1 where q1: "mq_unlink q = Some (b, q1)"
      "mq_unlink (q\<lparr>mq_entry := ?e\<rparr>) = Some (b, q1\<lparr>mq_entry := ?e\<rparr>)"
    using mq_unlink_spec [OF Cons.prems f] by (auto simp: mq_unlink_entry)
  have "mq_at (snd (mq_get (q\<lparr>mq_entry := ?e\<rparr>))) F ?pl'" by (rule mq_get_at(3) [OF Cons.prems f])
  moreover have "snd (mq_get (q\<lparr>mq_entry := ?e\<rparr>)) = (mq_release b q1)\<lparr>mq_entry := of_nat (length bs)\<rparr>"
    using q1(2) by (simp add: mq_get_def mq_pop_def mq_release_def f)
  ultimately have "mq_at ((mq_release b q1)\<lparr>mq_entry := of_nat (length (queued_blocks ?pl'))\<rparr>) F ?pl'"
    by simp
  from Cons.hyps(1) [OF _ this] obtain q' where q': "mq_reset_loop (mq_release b q1) = Some q'"
    "mq_at (q'\<lparr>mq_entry := 0\<rparr>) F (?pl'\<lparr>queued_blocks := [], free_blocks := rev bs @ b # free_blocks pl\<rparr>)"
    by auto
  have "?pl'\<lparr>queued_blocks := [], free_blocks := rev bs @ b # free_blocks pl\<rparr> =
      pl\<lparr>queued_blocks := [], free_blocks := rev (queued_blocks pl) @ free_blocks pl\<rparr>"
    using f by (cases pl) simp
  then show ?case using q' q1(1) by (subst mq_reset_loop.simps) simp
qed

section \<open>The invariant of a message queue\<close>

text \<open>\<open>F\<close> are the blocks in the hands of senders and receivers that were interrupted while they
  copied.\<close>

definition mqueue_ok :: "nat \<Rightarrow> nat set \<Rightarrow> kernel \<Rightarrow> bool" where
  "mqueue_ok n F s \<longleftrightarrow> is_mq n s \<and> mq_ok (mqs s n) F \<and>
     (oflag (objs s (OMessageQueue n)) = RT_IPC_FLAG_FIFO \<or>
      oflag (objs s (OMessageQueue n)) = RT_IPC_FLAG_PRIO)"

lemma upd_mq_sel [simp]:
  "mqs (upd_mq n f s) = (mqs s)(n := f (mqs s n))"
  "queues (upd_mq n f s) = queues s" "sems (upd_mq n f s) = sems s"
  "threads (upd_mq n f s) = threads s" "objs (upd_mq n f s) = objs s"
  "ready_group (upd_mq n f s) = ready_group s" "timers (upd_mq n f s) = timers s"
  "timer_list (upd_mq n f s) = timer_list s" "rt_tick (upd_mq n f s) = rt_tick s"
  "container (upd_mq n f s) = container s" "current_thread (upd_mq n f s) = current_thread s"
  "lock_nest (upd_mq n f s) = lock_nest s" "irq_nest (upd_mq n f s) = irq_nest s"
  "frames (upd_mq n f s) = frames s" "events (upd_mq n f s) = events s"
  "mutexes (upd_mq n f s) = mutexes s" "mailboxes (upd_mq n f s) = mailboxes s"
  by (simp_all add: upd_mq_def)

lemma upd_mq_core_inv [simp]: "core_inv s \<Longrightarrow> core_inv (upd_mq n f s)"
  by (rule core_inv_cong) simp_all

lemma upd_mq_comp: "upd_mq n f (upd_mq n g s) = upd_mq n (\<lambda>q. f (g q)) s"
  by (simp add: upd_mq_def)

lemma upd_mq_fun: "f (mqs s n) = g (mqs s n) \<Longrightarrow> upd_mq n f s = upd_mq n g s"
  by (simp add: upd_mq_def)

lemma mqueue_ok_upd:
  assumes "mqueue_ok n F s" "mq_ok (mqs s' n) F" "objs s' (OMessageQueue n) = objs s (OMessageQueue n)"
  shows "mqueue_ok n F s'"
  using assms by (simp add: mqueue_ok_def is_mq_def rt_object_get_type_def)

lemma mq_at_entry:
  assumes "mq_ok q F"
  shows "mq_entry q = 0 \<longleftrightarrow> mq_contents q = []"
  using mq_atD(4) [OF assms [unfolded mq_ok_def]] by (simp add: mq_contents_def word_unat_eq_iff)

section \<open>Sending\<close>

lemma fits_iff: "ucast (w :: u16) < (sz :: u32) \<longleftrightarrow> unat w < unat sz"
  by (simp add: word_less_nat_alt unsigned_ucast_eq take_bit_nat_eq_self unsigned_less [THEN order_less_le_trans])

lemma mq_send_eq:
  assumes ok: "mqueue_ok n F s" and sz: "sz \<noteq> 0" "unat sz \<le> unat (msg_size (mqs s n))"
    and buf: "unat sz \<le> length buf" and room: "0 < mq_room (mqs s n)"
  shows "rt_mq_send n buf sz s = mq_wake n (upd_mq n (mq_put (take (unat sz) buf)) s)"
    and "rt_mq_urgent n buf sz s = mq_wake n (upd_mq n (mq_put_first (take (unat sz) buf)) s)"
proof -
  have mok: "mq_ok (mqs s n) F" and n: "is_mq n s" using ok by (simp_all add: mqueue_ok_def)
  obtain b bs where f: "free_blocks (mq_places (mqs s n)) = b # bs"
    using room by (cases "free_blocks (mq_places (mqs s n))") (simp_all add: mq_room_def)
  obtain q where al: "mq_alloc (mqs s n) = Some (b, q)" using mq_alloc_spec(1) [OF mok] f by simp
  have nl: "\<not> ucast (msg_size (mqs s n)) < sz" using sz(2) fits_iff by simp
  show "rt_mq_send n buf sz s = mq_wake n (upd_mq n (mq_put (take (unat sz) buf)) s)"
    using n sz(1) nl al buf
    by (simp add: rt_mq_send_def read_buffer_def Let_def upd_mq_comp)
      (rule arg_cong [where f = "mq_wake n"], rule upd_mq_fun, simp add: mq_put_def)
  show "rt_mq_urgent n buf sz s = mq_wake n (upd_mq n (mq_put_first (take (unat sz) buf)) s)"
    using n sz(1) nl al buf
    by (simp add: rt_mq_urgent_def read_buffer_def Let_def upd_mq_comp)
      (rule arg_cong [where f = "mq_wake n"], rule upd_mq_fun, simp add: mq_put_first_def)
qed

lemma mq_wake_spec:
  assumes "core_inv s" "current_thread s \<noteq> None"
  shows "\<exists>s'. mq_wake n s = Some (RT_EOK, s') \<and> served (QMessageQueue n) s s'"
  using serve_spec [OF assms, of "QMessageQueue n" RT_EOK] by (simp add: mq_wake_def)

lemma mq_send_room:
  assumes inv: "core_inv s" and ok: "mqueue_ok n F s" and cur: "current_thread s \<noteq> None"
    and sz: "sz \<noteq> 0" "unat sz \<le> unat (msg_size (mqs s n))"
    and buf: "unat sz \<le> length buf" and room: "0 < mq_room (mqs s n)"
  shows "\<exists>s' w. rt_mq_send n buf sz s = Some (RT_EOK, s') \<and> mqueue_ok n F s' \<and>
      mq_contents (mqs s' n) = mq_contents (mqs s n) @ [w] \<and> take (unat sz) w = take (unat sz) buf \<and>
      served (QMessageQueue n) (upd_mq n (mq_put (take (unat sz) buf)) s) s'"
    and "\<exists>s' w. rt_mq_urgent n buf sz s = Some (RT_EOK, s') \<and> mqueue_ok n F s' \<and>
      mq_contents (mqs s' n) = w # mq_contents (mqs s n) \<and> take (unat sz) w = take (unat sz) buf \<and>
      served (QMessageQueue n) (upd_mq n (mq_put_first (take (unat sz) buf)) s) s'"
proof -
  let ?m = "take (unat sz) buf"
  have mok: "mq_ok (mqs s n) F" using ok by (simp add: mqueue_ok_def)
  have cur': "current_thread (upd_mq n f s) \<noteq> None" for f using cur by simp
  have l: "length ?m = unat sz" using buf by simp
  then have "length ?m \<le> unat (msg_size (mqs s n))" using sz(2) by simp
  note p = mq_put_spec [OF mok this room]
  have st: "stored ?m w \<longleftrightarrow> take (unat sz) w = ?m" for w
    using l by (metis stored_def)
  obtain s' where s': "mq_wake n (upd_mq n (mq_put ?m) s) = Some (RT_EOK, s')"
      "served (QMessageQueue n) (upd_mq n (mq_put ?m) s) s'"
    using mq_wake_spec [OF upd_mq_core_inv [OF inv] cur'] by blast
  then have "mqs s' n = mq_put ?m (mqs s n)" "objs s' (OMessageQueue n) = objs s (OMessageQueue n)"
    by (simp_all add: served_def)
  then show "\<exists>s' w. rt_mq_send n buf sz s = Some (RT_EOK, s') \<and> mqueue_ok n F s' \<and>
      mq_contents (mqs s' n) = mq_contents (mqs s n) @ [w] \<and> take (unat sz) w = take (unat sz) buf \<and>
      served (QMessageQueue n) (upd_mq n (mq_put (take (unat sz) buf)) s) s'"
    using s' p(1,3) mqueue_ok_upd [OF ok, of s'] unfolding mq_send_eq(1) [OF ok sz buf room] st by auto
  obtain s'' where s'': "mq_wake n (upd_mq n (mq_put_first ?m) s) = Some (RT_EOK, s'')"
      "served (QMessageQueue n) (upd_mq n (mq_put_first ?m) s) s''"
    using mq_wake_spec [OF upd_mq_core_inv [OF inv] cur'] by blast
  then have "mqs s'' n = mq_put_first ?m (mqs s n)" "objs s'' (OMessageQueue n) = objs s (OMessageQueue n)"
    by (simp_all add: served_def)
  then show "\<exists>s' w. rt_mq_urgent n buf sz s = Some (RT_EOK, s') \<and> mqueue_ok n F s' \<and>
      mq_contents (mqs s' n) = w # mq_contents (mqs s n) \<and> take (unat sz) w = take (unat sz) buf \<and>
      served (QMessageQueue n) (upd_mq n (mq_put_first (take (unat sz) buf)) s) s'"
    using s'' p(2,4) mqueue_ok_upd [OF ok, of s''] unfolding mq_send_eq(2) [OF ok sz buf room] st by auto
qed

lemma mq_send_errors:
  assumes "mqueue_ok n F s" "sz \<noteq> 0"
  shows "unat (msg_size (mqs s n)) < unat sz \<Longrightarrow> rt_mq_send n buf sz s = Some (- RT_ERROR, s)"
    and "unat sz \<le> unat (msg_size (mqs s n)) \<Longrightarrow> mq_room (mqs s n) = 0 \<Longrightarrow>
      rt_mq_send n buf sz s = Some (- RT_EFULL, s)"
proof -
  have mok: "mq_ok (mqs s n) F" and n: "is_mq n s" using assms(1) by (simp_all add: mqueue_ok_def)
  show "unat (msg_size (mqs s n)) < unat sz \<Longrightarrow> rt_mq_send n buf sz s = Some (- RT_ERROR, s)"
    using n assms(2) by (simp add: rt_mq_send_def fits_iff)
  show "unat sz \<le> unat (msg_size (mqs s n)) \<Longrightarrow> mq_room (mqs s n) = 0 \<Longrightarrow>
      rt_mq_send n buf sz s = Some (- RT_EFULL, s)"
    using n assms(2) mq_alloc_spec(1) [OF mok] by (simp add: rt_mq_send_def fits_iff mq_room_def)
qed

section \<open>Receiving\<close>

lemma mq_recv_message:
  assumes ok: "mqueue_ok n F s" and sz: "sz \<noteq> 0" and ms: "mq_contents (mqs s n) = w # ws"
  shows "\<exists>s'. rt_mq_recv n sz timeout s = Some (Return (RT_EOK, Some (take (unat sz) w)), s') \<and>
    mqueue_ok n F s' \<and> mq_contents (mqs s' n) = ws \<and> mq_room (mqs s' n) = Suc (mq_room (mqs s n)) \<and>
    s' = upd_mq n (\<lambda>q. snd (mq_get q)) s"
proof -
  let ?q = "mqs s n"
  have mok: "mq_ok ?q F" and n: "is_mq n s" using ok by (simp_all add: mqueue_ok_def)
  then have at: "mq_at ?q F (mq_places ?q)" by (simp add: mq_ok_def)
  obtain b bs where f: "queued_blocks (mq_places ?q) = b # bs" "msg_data ?q b = w"
    using ms by (cases "queued_blocks (mq_places ?q)") (simp_all add: mq_contents_def)
  obtain q' where q': "mq_pop ?q = Some (b, q')" "mq_at q' (insert b F) ((mq_places ?q)\<lparr>queued_blocks := bs\<rparr>)"
      "msg_data q' = msg_data ?q"
    using mq_pop_spec [OF at f(1)] by blast
  have "b < unat (max_msgs q')" using mq_atD(10) [OF q'(2)] by blast
  then have len: "length w = unat (msg_size q')" using mq_atD(11) [OF q'(2)] q'(3) f(2) by metis
  let ?len = "if ucast (msg_size q') < sz then ucast (msg_size q') else sz"
  have "unat ?len \<le> length w" using len fits_iff
    by (auto simp: unsigned_ucast_eq take_bit_nat_eq_self unsigned_less [THEN order_less_le_trans] not_less)
  moreover have "take (unat ?len) w = take (unat sz) w" using len fits_iff
    by (auto simp: unsigned_ucast_eq take_bit_nat_eq_self unsigned_less [THEN order_less_le_trans])
  ultimately have rd: "read_buffer (msg_data q' b) ?len = Some (take (unat sz) w)"
    by (simp add: read_buffer_def q'(3) f(2))
  have e: "mq_entry ?q \<noteq> 0" using mq_at_entry [OF mok] ms by simp
  let ?s' = "upd_mq n (\<lambda>q. snd (mq_get q)) s"
  have upd: "upd_mq n (\<lambda>q. mq_release b q') s = ?s'"
    by (rule upd_mq_fun) (simp add: mq_get_def q'(1))
  have "mq_recv_now n sz s = Some (Return (RT_EOK, Some (take (unat sz) w)), ?s')"
    using q'(1) rd by (simp add: mq_recv_now_def Let_def upd_mq_comp upd cong: if_cong)
  then have "rt_mq_recv n sz timeout s = Some (Return (RT_EOK, Some (take (unat sz) w)), ?s')"
    using n sz e by (simp add: rt_mq_recv_def mq_recv_loop.simps)
  moreover have "mq_contents ?q \<noteq> []" using ms by simp
  note g = mq_get_spec [OF mok this]
  have "mqueue_ok n F ?s'" by (rule mqueue_ok_upd [OF ok]) (use g(1) in simp_all)
  ultimately show ?thesis using g(2,3) ms by simp
qed

lemma mq_recv_empty:
  assumes "mqueue_ok n F s" "sz \<noteq> 0" "mq_contents (mqs s n) = []"
  shows "rt_mq_recv n sz 0 s = Some (Return (- RT_ETIMEOUT, None), s)"
  using assms mq_at_entry [of "mqs s n" F] by (simp add: rt_mq_recv_def mqueue_ok_def)

lemma mq_recv_blocks:
  assumes inv: "core_inv s" and ok: "mqueue_ok n F s" and empty: "mq_contents (mqs s n) = []"
    and cur: "current_thread s = Some t" and t: "thread_stat s t = RT_THREAD_READY"
    and ctx: "lock_nest s = 0" "irq_nest s = 0"
    and other: "u \<noteq> t" "thread_stat s u = RT_THREAD_READY"
    and args: "sz \<noteq> 0" "timeout \<noteq> 0" "sint timeout \<noteq> 0x7fffffff"
  shows "\<exists>s'. rt_mq_recv n sz timeout s = Some (Blocked, s') \<and> core_inv s' \<and> mqueue_ok n F s' \<and>
    waits t (QMessageQueue n) (FMqRecv n sz timeout (if 0 < sint timeout then rt_tick s else 0))
      (upd_thread t (\<lambda>r. r\<lparr>th_error := RT_EOK\<rparr>) s) s'"
proof -
  let ?s1 = "upd_thread t (\<lambda>r. r\<lparr>th_error := RT_EOK\<rparr>) s"
  define st where "st = (if 0 < sint timeout then rt_tick s else 0)"
  let ?fr = "FMqRecv n sz timeout st"
  let ?after = "\<lambda>s'. if th_error (threads s' t) \<noteq> RT_EOK then Some (Return (th_error (threads s' t), None), s')
      else mq_recv_loop (Some t) n sz (time_left timeout st (rt_tick s')) s'"
  let ?f = "oflag (objs s (OMessageQueue n))"
  have i1: "core_inv ?s1" by (rule upd_thread_cong_inv [OF inv]) simp_all
  have st1: "thread_stat ?s1 w = thread_stat s w" for w by (simp add: thread_stat_def tstat_def)
  have fl: "?f = RT_IPC_FLAG_FIFO \<or> ?f = RT_IPC_FLAG_PRIO" using ok by (simp add: mqueue_ok_def)
  have c1: "?f = oflag (objs ?s1 (queue_object (QMessageQueue n)))" "current_thread ?s1 = Some t"
      "lock_nest ?s1 = 0" "thread_stat ?s1 t = RT_THREAD_READY" "thread_stat ?s1 u = RT_THREAD_READY"
    using cur ctx(1) t other(2) by (simp_all add: st1)
  obtain s2 s' where s': "suspend_with_timer t (QMessageQueue n) ?f timeout ?s1 = Some s2"
      "block_point t ?fr ?after s2 = Some (Blocked, s')" "core_inv s'" "waits t (QMessageQueue n) ?fr ?s1 s'"
    using wait_spec [OF i1 c1(4) fl c1(1-3) other(1) c1(5) args(3), of ?fr ?after] by blast
  have "mq_entry (mqs s n) = 0" using empty ok mq_at_entry [of "mqs s n" F] by (simp add: mqueue_ok_def)
  then have "rt_mq_recv n sz timeout s = Some (Blocked, s')"
    using ok args cur ctx s'(1,2)
    by (simp add: rt_mq_recv_def mqueue_ok_def, subst mq_recv_loop.simps)
      (simp add: debug_defs rt_thread_self_def Let_def flip: st_def cong: if_cong)
  moreover have "mqueue_ok n F s'"
    by (rule mqueue_ok_upd [OF ok])
      (use ok waitsD(7) [OF s'(4), of "OMessageQueue n"] waitsD(9) [OF s'(4)] in \<open>simp_all add: mqueue_ok_def\<close>)
  ultimately show ?thesis using s'(3,4) unfolding st_def by blast
qed

section \<open>Resetting\<close>

lemma mq_control_reset:
  assumes inv: "core_inv s" and ok: "mqueue_ok n F s" and cur: "current_thread s \<noteq> None"
    and u: "thread_stat s u = RT_THREAD_READY"
  shows "\<exists>s'. rt_mq_control n RT_IPC_CMD_RESET arg s = Some (RT_EOK, s') \<and> core_inv s' \<and>
    mqueue_ok n F s' \<and> mq_contents (mqs s' n) = [] \<and>
    mq_room (mqs s' n) = mq_room (mqs s n) + length (mq_contents (mqs s n)) \<and>
    queues s' (Suspend (QMessageQueue n)) = [] \<and>
    (\<forall>t \<in> set (queues s (Suspend (QMessageQueue n))).
       thread_stat s' t = RT_THREAD_READY \<and> th_error (threads s' t) = - RT_ERROR) \<and>
    (lock_nest s = 0 \<longrightarrow> runs_highest s')"
proof -
  let ?q = "mqs s n"
  have mok: "mq_ok ?q F" and n: "is_mq n s" using ok by (simp_all add: mqueue_ok_def)
  have at: "mq_at ?q F (mq_places ?q)" using mok by (simp add: mq_ok_def)
  obtain s1 where s1: "rt_ipc_list_resume_all (QMessageQueue n) s = Some s1"
      "flushed (queues s (Suspend (QMessageQueue n))) s s1" "core_inv s1"
      "queues s1 (Suspend (QMessageQueue n)) = []"
    using rt_ipc_list_resume_all_spec [OF inv refl, of "QMessageQueue n"] by blast
  note d = flushedD [OF s1(2)] and k = kframe_sel [OF flushedD(1) [OF s1(2)]]
  have "?q\<lparr>mq_entry := of_nat (length (queued_blocks (mq_places ?q)))\<rparr> = ?q"
    by (simp flip: mq_atD(4) [OF at])
  then obtain q' where q': "mq_reset_loop ?q = Some q'" "mq_at (q'\<lparr>mq_entry := 0\<rparr>) F
      ((mq_places ?q)\<lparr>queued_blocks := [], free_blocks := rev (queued_blocks (mq_places ?q)) @ free_blocks (mq_places ?q)\<rparr>)"
    using mq_reset_spec [of "mq_places ?q" ?q F] at by auto
  let ?s2 = "upd_mq n (\<lambda>_. q'\<lparr>mq_entry := 0\<rparr>) s1"
  have i2: "core_inv ?s2" using s1(3) by simp
  have "thread_stat ?s2 u = RT_THREAD_READY" using u d(6) [of u] by (simp add: thread_stat_def)
  then have "queues ?s2 (Ready (unat (current_priority (threads ?s2 u)))) \<noteq> []"
    using sched_okD(2) [OF core_invD(1) [OF i2], of u] by (force simp: thread_stat_def)
  then obtain s' where s': "rt_schedule ?s2 = Some s'"
    using rt_schedule_total [OF core_invD(1) [OF i2]] cur k(3) by auto
  note g = rt_schedule_sel [OF s']
  have call: "rt_mq_control n RT_IPC_CMD_RESET arg s = Some (RT_EOK, s')"
    using n s1(1) q'(1) s' by (simp add: rt_mq_control_def k)
  have "mqueue_ok n F s'"
    by (rule mqueue_ok_upd [OF ok]) (use mq_at_okI [OF q'(2)] k(18) [of "OMessageQueue n"] in \<open>simp_all add: g\<close>)
  moreover have "core_inv s'" using i2 rt_schedule_core_inv [OF s'] by simp
  moreover have "lock_nest s = 0 \<longrightarrow> runs_highest s'"
    using rt_schedule_runs_highest [OF s'] k(1) by simp
  moreover have "mq_contents (mqs s' n) = []" "mq_room (mqs s' n) = mq_room ?q + length (mq_contents ?q)"
    by (simp_all add: g mq_room_def mq_contents_def mq_at_unique [OF q'(2)])
  moreover have "thread_stat s' t = RT_THREAD_READY \<and> th_error (threads s' t) = - RT_ERROR"
    if "t \<in> set (queues s (Suspend (QMessageQueue n)))" for t
    using that d(2,6) [of t] by (simp add: thread_stat_def g)
  ultimately show ?thesis using call s1(4) g by auto
qed

end
