(* ===== verification/Ipc_Props.thy ===== *)
theory Ipc_Props
  imports Demo Mutex Event Mailbox Messagequeue
begin

text \<open>
  The properties of mutexes, events, mailboxes and message queues, with applications to the
  systems of theory \<open>Demo\<close>.
\<close>

section \<open>Mutexes\<close>

text \<open>C12: Priority inheritance.  A thread that takes a mutex held by another one waits on its
  queue, the owner runs from then on with the higher of the two priorities, and the ready
  thread of the highest priority runs.\<close>

theorem mutex_take_inherits:
  assumes "core_inv s" "mutex_ok n s" "owner (mutexes s n) = Some ow" "ow \<noteq> t" "is_thread ow s"
    and "current_thread s = Some t" "thread_stat s t = RT_THREAD_READY"
    and "lock_nest s = 0" "irq_nest s = 0" "u \<noteq> t" "thread_stat s u = RT_THREAD_READY"
    and "time \<noteq> 0" "sint time \<noteq> 0x7fffffff"
  shows "\<exists>s'. rt_mutex_take n time s = Some (Blocked, s') \<and> core_inv s' \<and> mutex_ok n s' \<and>
    runs_highest s' \<and> current_thread s' \<noteq> Some t \<and> thread_stat s' t = RT_THREAD_SUSPEND \<and>
    mutexes s' = mutexes s \<and> t \<in> set (queues s' (Suspend (QMutex n))) \<and>
    current_priority (threads s' ow) =
      min (current_priority (threads s t)) (current_priority (threads s ow)) \<and>
    frames s' = (frames s)(t := Some (FMutexTake n time))"
  by (rule mutex_take_blocks [OF assms])

text \<open>The idle thread holds the mutex.\<close>

definition demo_held :: "ipcq \<Rightarrow> tid \<Rightarrow> u8 \<Rightarrow> kernel" where
  "demo_held q t p = upd_mutex 0
     (\<lambda>_. \<lparr>mutex_value = 0, original_priority = p, hold = 1, owner = Some t\<rparr>) (demo_on q)"

lemma demo_held_core: "core_inv (demo_held q t p)"
  by (simp add: demo_held_def demo_on_core)

lemma demo_held_ok:
  "unat p < 32 \<Longrightarrow> t \<noteq> 3 \<Longrightarrow> mutex_ok 0 (demo_held q t p)"
  by (simp add: mutex_ok_def demo_held_def is_mutex_def rt_object_get_type_def RT_THREAD_PRIORITY_MAX_def demo_mem)
    (simp add: demo_on_def demo_type_def class_defs RT_IPC_FLAG_FIFO_def)

theorem mutex_take_inherits_witness:
  "\<exists>s'. rt_mutex_take 0 5 (demo_held (QSem 1) 0 31) = Some (Blocked, s') \<and>
     current_priority (threads s' 0) = 10 \<and> current_thread s' \<noteq> Some 1"
proof -
  let ?s = "demo_held (QSem 1) 0 31"
  have "is_thread 0 ?s" "thread_stat ?s 1 = RT_THREAD_READY" "thread_stat ?s 2 = RT_THREAD_READY"
    by (simp_all add: demo_held_def thread_stat_def demo_stat is_thread_def rt_object_get_type_def)
      (simp add: demo_on_def demo_type_def class_defs)
  then show ?thesis
    using mutex_take_inherits [OF demo_held_core demo_held_ok, of 31 0 "QSem 1" 0 1 2 5]
    by (auto simp: demo_held_def)
qed

text \<open>C13: Handing over.  When the owner releases a mutex on which threads wait, the first of them
  becomes the owner and ready, with its own priority as the one to be restored later; the old
  owner gets its priority back, and the ready thread of the highest priority runs.\<close>

theorem mutex_release_hands_over:
  assumes "core_inv s" "mutex_ok n s" "current_thread s = Some t" "irq_nest s = 0" "lock_nest s = 0"
    and "owner (mutexes s n) = Some t" "hold (mutexes s n) = 1" "is_thread t s"
    and "queues s (Suspend (QMutex n)) = w # ws"
  shows "\<exists>s'. rt_mutex_release n s = Some (RT_EOK, s') \<and> core_inv s' \<and> mutex_ok n s' \<and>
    mutexes s' n = \<lparr>mutex_value = 0, original_priority = current_priority (threads s w), hold = 1,
      owner = Some w\<rparr> \<and> queues s' (Suspend (QMutex n)) = ws \<and>
    thread_stat s' w = RT_THREAD_READY \<and> runs_highest s' \<and>
    current_priority (threads s' t) = original_priority (mutexes s n)"
  by (rule mutex_release_handover [OF assms])

theorem mutex_release_hands_over_witness:
  "\<exists>s'. rt_mutex_release 0 (demo_held (QMutex 0) 1 20) = Some (RT_EOK, s') \<and>
     owner (mutexes s' 0) = Some 3 \<and> current_priority (threads s' 1) = 20 \<and> runs_highest s'"
proof -
  let ?s = "demo_held (QMutex 0) 1 20"
  have "is_thread 1 ?s"
    by (simp add: demo_held_def is_thread_def rt_object_get_type_def)
      (simp add: demo_on_def demo_type_def class_defs)
  then show ?thesis
    using mutex_release_hands_over [OF demo_held_core demo_held_ok, of 20 1 "QMutex 0" 1 3 "[]"]
    by (auto simp: demo_held_def)
qed

text \<open>A mutex is recursive.  The owner takes it again without waiting, and the matching
  release leaves the mutex as it was.\<close>

theorem mutex_recursive:
  assumes "mutex_ok n s" "current_thread s = Some t" "irq_nest s = 0"
    and "owner (mutexes s n) = Some t" "hold (mutexes s n) \<noteq> 0"
  shows "\<exists>s1 s2. rt_mutex_take n time s = Some (Return RT_EOK, s1) \<and>
    hold (mutexes s1 n) = hold (mutexes s n) + 1 \<and>
    rt_mutex_release n s1 = Some (RT_EOK, s2) \<and> mutexes s2 = mutexes s \<and> queues s2 = queues s"
proof -
  let ?s1 = "upd_mutex n (\<lambda>r. r\<lparr>hold := hold r + 1\<rparr>) (upd_thread t (\<lambda>r. r\<lparr>th_error := RT_EOK\<rparr>) s)"
  have ok1: "mutex_ok n ?s1"
    using assms(1,4) by (simp add: mutex_ok_def is_mutex_def rt_object_get_type_def)
  have "rt_mutex_release n ?s1 = Some (RT_EOK, upd_mutex n (\<lambda>r. r\<lparr>hold := hold r - 1\<rparr>) ?s1)"
    using mutex_release_nested [OF ok1, of t] assms by simp
  then show ?thesis
    using mutex_take_again_owner [OF assms(1-4), of time] by (simp add: fun_upd_idem)
qed

theorem mutex_recursive_witness:
  "\<exists>s1 s2. rt_mutex_take 0 5 (demo_held (QSem 1) 1 10) = Some (Return RT_EOK, s1) \<and>
     rt_mutex_release 0 s1 = Some (RT_EOK, s2) \<and> mutexes s2 = mutexes (demo_held (QSem 1) 1 10)"
  using mutex_recursive [OF demo_held_ok, of 10 1 "QSem 1" 1 5] by (auto simp: demo_held_def)

text \<open>Releasing a mutex on which nobody waits gives the owner its lower priority back but does
  not call the scheduler: the thread goes on running although a ready thread has a higher
  priority now.\<close>

theorem mutex_release_no_schedule:
  assumes "core_inv s" "mutex_ok n s" "current_thread s = Some t" "irq_nest s = 0"
    and "owner (mutexes s n) = Some t" "hold (mutexes s n) = 1" "is_thread t s"
    and "queues s (Suspend (QMutex n)) = []" "u \<noteq> t" "thread_stat s u = RT_THREAD_READY"
    and "current_priority (threads s u) < original_priority (mutexes s n)"
  shows "\<exists>s'. rt_mutex_release n s = Some (RT_EOK, s') \<and> core_inv s' \<and>
    current_thread s' = Some t \<and> \<not> runs_highest s'"
proof -
  obtain s' where s': "rt_mutex_release n s = Some (RT_EOK, s')" "core_inv s'"
      "current_thread s' = Some t" "current_priority (threads s' t) = original_priority (mutexes s n)"
      "\<forall>v. v \<noteq> t \<longrightarrow> threads s' v = threads s v"
    using mutex_release_free [OF assms(1-8)] by blast
  have u: "thread_stat s' u = RT_THREAD_READY" "threads s' u = threads s u"
    using s'(5) assms(9,10) by (simp_all add: thread_stat_def)
  have "\<not> runs_highest s'"
  proof
    assume "runs_highest s'"
    from runs_highestD [OF core_invD(1) [OF s'(2)] this]
    have "current_priority (threads s' t) \<le> current_priority (threads s' u)"
      using s'(3) u(1) by auto
    then show False using s'(4) u(2) assms(11) by simp
  qed
  then show ?thesis using s' by blast
qed

theorem mutex_release_no_schedule_witness:
  "\<exists>s'. rt_mutex_release 0 (demo_held (QSem 1) 1 20) = Some (RT_EOK, s') \<and> \<not> runs_highest s'"
proof -
  let ?s = "demo_held (QSem 1) 1 20"
  have "is_thread 1 ?s" "thread_stat ?s 2 = RT_THREAD_READY"
    by (simp_all add: demo_held_def thread_stat_def demo_stat is_thread_def rt_object_get_type_def)
      (simp add: demo_on_def demo_type_def class_defs)
  then show ?thesis
    using mutex_release_no_schedule [OF demo_held_core demo_held_ok, of 20 1 "QSem 1" 1 2]
    by (auto simp: demo_held_def)
qed

section \<open>Events\<close>

text \<open>C14: Sending.  The flags that are set are offered to the waiting threads in the order of the
  queue, each taking its flags away if it asked for that (\<open>ev_scan\<close>).  The threads that are
  satisfied become ready with what they received, the others wait on, no thread is left waiting
  whose flags are all there, and if a thread was woken the ready thread of the highest priority
  runs.\<close>

theorem event_send_wakes:
  assumes "core_inv s" "event_ok n s" "evset \<noteq> 0" "current_thread s \<noteq> None" "lock_nest s = 0"
    and "ev_scan (threads s) (ev_set (events s n) OR evset) (queues s (Suspend (QEvent n))) = (ev, ws)"
  shows "\<exists>s'. rt_event_send n evset s = Some (RT_EOK, s') \<and> core_inv s' \<and> event_ok n s' \<and>
    ev_set (events s' n) = ev \<and>
    queues s' (Suspend (QEvent n)) = filter (\<lambda>t. t \<notin> fst ` set ws) (queues s (Suspend (QEvent n))) \<and>
    (\<forall>(t, got) \<in> set ws. thread_stat s' t = RT_THREAD_READY \<and> event_set (threads s' t) = got) \<and>
    (\<forall>t. t \<notin> fst ` set ws \<longrightarrow> threads s' t = threads s t) \<and>
    (ws \<noteq> [] \<longrightarrow> runs_highest s')"
proof -
  obtain s' where s': "rt_event_send n evset s = Some (RT_EOK, s')" "core_inv s'" "event_ok n s'"
      "ev_set (events s' n) = ev" "threads s' = released ws (threads s)"
      "queues s' (Suspend (QEvent n)) = filter (\<lambda>t. t \<notin> fst ` set ws) (queues s (Suspend (QEvent n)))"
      "ws \<noteq> [] \<longrightarrow> lock_nest s = 0 \<longrightarrow> runs_highest s'"
    using event_send_spec [OF assms(1-4,6)] by blast
  have "distinct (queues s (Suspend (QEvent n)))"
    by (rule q_okD(1) [OF sched_okD(1) [OF core_invD(1) [OF assms(1)]]])
  then have d: "distinct (map fst ws)" using ev_scan_distinct assms(6) by (metis snd_conv)
  have "thread_stat s' t = RT_THREAD_READY \<and> event_set (threads s' t) = got" if "(t, got) \<in> set ws" for t got
    using released_in [OF d that, of "threads s"] by (simp add: thread_stat_def s'(5)) (simp add: with_stat_def)
  then show ?thesis using s' assms(5) released_other [of _ ws "threads s"] by (intro exI [of _ s']) auto
qed

text \<open>Thread 3 waits for both of the flags 1 and 2, and takes them away.\<close>

definition demo_event :: kernel where
  "demo_event = upd_thread 3 (\<lambda>r. r\<lparr>event_set := 3, event_info := RT_EVENT_FLAG_AND OR RT_EVENT_FLAG_CLEAR\<rparr>)
     (upd_event 0 (\<lambda>r. r\<lparr>ev_set := 1\<rparr>) (demo_on (QEvent 0)))"

lemma demo_event_core: "core_inv demo_event"
  unfolding demo_event_def by (rule upd_thread_cong_inv [OF upd_event_core_inv [OF demo_on_core]]) simp_all

lemma demo_event_ok: "event_ok 0 demo_event"
  by (simp add: event_ok_def demo_event_def is_event_def rt_object_get_type_def event_match_def evflag_defs)
    (simp add: demo_on_def demo_type_def class_defs RT_IPC_FLAG_FIFO_def)

theorem event_send_wakes_witness:
  "\<exists>s'. rt_event_send 0 6 demo_event = Some (RT_EOK, s') \<and> ev_set (events s' 0) = 4 \<and>
     thread_stat s' 3 = RT_THREAD_READY \<and> runs_highest s'"
proof -
  have "ev_scan (threads demo_event) (ev_set (events demo_event 0) OR 6)
      (queues demo_event (Suspend (QEvent 0))) = (4, [(3, 3)])"
    by (simp add: demo_event_def event_match_def event_got_def evflag_defs)
  from event_send_wakes [OF demo_event_core demo_event_ok _ _ _ this] show ?thesis
    by (auto simp: demo_event_def)
qed

text \<open>Receiving.  With the flags there the call returns at once with them, taking them away if
  asked; otherwise it fails without waiting or queues the thread with what it waits for.\<close>

theorem event_recv_cases:
  assumes "core_inv s" "event_ok n s" "want \<noteq> 0" "opt AND (RT_EVENT_FLAG_AND OR RT_EVENT_FLAG_OR) \<noteq> 0"
    and "current_thread s = Some t" "thread_stat s t = RT_THREAD_READY" "lock_nest s = 0" "irq_nest s = 0"
    and "u \<noteq> t" "thread_stat s u = RT_THREAD_READY" "sint time \<noteq> 0x7fffffff"
  shows "\<exists>r s'. rt_event_recv n want opt time s = Some (r, s') \<and> event_ok n s' \<and>
    (if event_match opt want (ev_set (events s n))
     then r = Return (RT_EOK, Some (ev_set (events s n) AND want)) \<and> queues s' = queues s \<and>
       ev_set (events s' n) = (if opt AND RT_EVENT_FLAG_CLEAR \<noteq> 0
         then ev_set (events s n) AND NOT want else ev_set (events s n))
     else if time = 0 then r = Return (- RT_ETIMEOUT, None) \<and> queues s' = queues s \<and> events s' = events s
     else r = Blocked \<and> runs_highest s' \<and> current_thread s' \<noteq> Some t \<and> events s' = events s \<and>
       thread_stat s' t = RT_THREAD_SUSPEND \<and> t \<in> set (queues s' (Suspend (QEvent n))) \<and>
       event_set (threads s' t) = want \<and> event_info (threads s' t) = opt)"
proof (cases "event_match opt want (ev_set (events s n))")
  case True
  have "t \<notin> set (queues s (Suspend (QEvent n)))"
    using assms(6) sched_okD(3) [OF core_invD(1) [OF assms(1)], of t "QEvent n"] by (auto simp: thread_stat_def)
  from event_recv_now [OF assms(1-5,8) True this, of time] show ?thesis using True by auto
next
  case False
  show ?thesis
  proof (cases "time = 0")
    case True
    obtain s' where s': "rt_event_recv n want opt 0 s = Some (Return (- RT_ETIMEOUT, None), s')"
        "events s' = events s" "queues s' = queues s" "event_ok n s'"
      using assms(2) event_recv_timeout [OF assms(2-5,8) False] by blast
    then show ?thesis using True False by auto
  next
    case nz: False
    from event_recv_blocks [OF assms(1-4) False assms(5-10) nz assms(11)] show ?thesis
      using nz False by auto
  qed
qed

theorem event_recv_cases_witness:
  "\<exists>s'. rt_event_recv 0 1 RT_EVENT_FLAG_OR 5 demo_event = Some (Return (RT_EOK, Some 1), s') \<and>
     event_ok 0 s'"
proof -
  have "thread_stat demo_event 1 = RT_THREAD_READY" "thread_stat demo_event 2 = RT_THREAD_READY"
    by (simp_all add: demo_event_def thread_stat_def demo_stat)
  then show ?thesis
    using event_recv_cases [OF demo_event_core demo_event_ok, of 1 RT_EVENT_FLAG_OR 1 2 5]
    by (auto simp: demo_event_def event_match_def evflag_defs)
qed

section \<open>Mailboxes\<close>

text \<open>C15: The ring buffer of a mailbox is a queue.  As many mails as there are free cells can be put
  in, from any position of the offsets, wrap-around included; taking out as many as are there
  then yields the old mails and the new ones, in order.\<close>

theorem mailbox_fifo:
  assumes "ring_ok mb" "length vs \<le> mb_room mb"
  shows "\<exists>mb'. drain mb_get (length (mb_contents mb) + length vs) (fold mb_put vs mb) =
      (mb_contents mb @ vs, mb') \<and>
    ring_ok mb' \<and> mb_contents mb' = [] \<and> mb_room mb' = mb_room mb + length (mb_contents mb)"
proof -
  obtain ws mb' where "drain mb_get (length (mb_contents mb) + length vs) (fold mb_put vs mb) =
      (mb_contents mb @ ws, mb')" "list_all2 (=) vs ws" "ring_ok mb'" "mb_contents mb' = []"
      "mb_room mb' = mb_room mb + length (mb_contents mb)"
    using mbq.fifo [OF assms(1) _ assms(2)] by blast
  moreover from this(2) have "ws = vs" by (simp add: list.rel_eq)
  ultimately show ?thesis by blast
qed

definition demo_mb :: rt_mailbox where
  "demo_mb = \<lparr>msg_pool = (\<lambda>i. of_nat i), mb_size = 4, mb_entry = 2, in_offset = 1, out_offset = 3\<rparr>"

lemma demo_mb_ring: "ring_ok demo_mb" "mb_room demo_mb = 2" "mb_contents demo_mb = [3, 0]"
  by (simp_all add: ring_ok_def demo_mb_def mb_room_def mb_contents_def upt_rec)

theorem mailbox_fifo_witness:
  "\<exists>mb'. drain mb_get 4 (fold mb_put [7, 8] demo_mb) = ([3, 0, 7, 8], mb') \<and> mb_room mb' = 4"
proof -
  have "length (mb_contents demo_mb) + length [7, 8 :: u32] = 4" by (simp add: demo_mb_ring)
  from mailbox_fifo [OF demo_mb_ring(1), of "[7, 8]", unfolded this] obtain mb' where
    "drain mb_get 4 (fold mb_put [7, 8] demo_mb) = (mb_contents demo_mb @ [7, 8], mb')"
    "mb_room mb' = mb_room demo_mb + length (mb_contents demo_mb)"
    by (auto simp add: demo_mb_ring(2) simp del: drain.simps fold_simps)
  then show ?thesis by (simp add: demo_mb_ring del: drain.simps fold_simps)
qed

text \<open>Sending a mail.  In a mailbox that is not full the mail goes behind the others, and the
  first thread that waits for a mail, if any, becomes ready; a full mailbox makes a call that
  does not wait fail and leaves everything as it is, and queues a caller that waits.\<close>

theorem mb_send_cases:
  assumes "core_inv s" "mb_ok n s" "current_thread s = Some t" "thread_stat s t = RT_THREAD_READY"
    and "lock_nest s = 0" "irq_nest s = 0" "u \<noteq> t" "thread_stat s u = RT_THREAD_READY"
    and "sint timeout \<noteq> 0x7fffffff"
  shows "\<exists>r s'. rt_mb_send_wait n v timeout s = Some (r, s') \<and> core_inv s' \<and> mb_ok n s' \<and>
    (if 0 < mb_room (mailboxes s n)
     then r = Return RT_EOK \<and> mb_contents (mailboxes s' n) = mb_contents (mailboxes s n) @ [v] \<and>
       served (QMailBox n) (upd_mb n (mb_put v) s) s'
     else if timeout = 0 then r = Return (- RT_EFULL) \<and> s' = s
     else r = Blocked \<and> mailboxes s' = mailboxes s \<and>
       waits t (QMbSender n) (FMbSend n v timeout (if 0 < sint timeout then rt_tick s else 0))
         (upd_thread t (\<lambda>r. r\<lparr>th_error := RT_EOK\<rparr>) s) s')"
proof -
  have cur: "current_thread s \<noteq> None" using assms(3) by simp
  consider "0 < mb_room (mailboxes s n)" | "mb_room (mailboxes s n) = 0" "timeout = 0"
    | "mb_room (mailboxes s n) = 0" "timeout \<noteq> 0" by blast
  then show ?thesis
  proof cases
    case 1
    from mb_send_room [OF assms(1,2) cur 1, of v timeout] show ?thesis
      using 1 served_core_inv by (simp only: if_True) blast
  next
    case 2
    then show ?thesis using mb_send_full [OF assms(2) 2(1), of v] assms(1,2)
      by (auto simp: rt_mb_send_def)
  next
    case 3
    from mb_send_blocks [OF assms(1,2) 3(1) assms(3-8) 3(2) assms(9), of v]
    obtain s' where s': "rt_mb_send_wait n v timeout s = Some (Blocked, s')" "core_inv s'" "mb_ok n s'"
      "waits t (QMbSender n) (FMbSend n v timeout (if 0 < sint timeout then rt_tick s else 0))
      (upd_thread t (\<lambda>r. r\<lparr>th_error := RT_EOK\<rparr>) s) s'" by blast
    then show ?thesis using 3 waitsD(8) [OF s'(4)] by auto
  qed
qed

lemma demo_mb_ok: "mb_ok 0 (demo_on q)"
  by (simp add: mb_ok_def is_mb_def demo_types demo_type_def class_defs ring_ok_def)
    (simp add: demo_on_def RT_IPC_FLAG_FIFO_def zero_kernel_def)

theorem mb_send_cases_witness:
  "\<exists>s'. rt_mb_send_wait 0 42 0 (demo_on (QMailBox 0)) = Some (Return RT_EOK, s') \<and>
     mb_contents (mailboxes s' 0) = [42] \<and> thread_stat s' 3 = RT_THREAD_READY \<and> runs_highest s'"
proof -
  have "thread_stat (demo_on (QMailBox 0)) 1 = RT_THREAD_READY" "thread_stat (demo_on (QMailBox 0)) 2 = RT_THREAD_READY"
    by (simp_all add: thread_stat_def demo_stat)
  moreover have "mb_room (mailboxes (demo_on (QMailBox 0)) 0) = 4" "mb_contents (mailboxes (demo_on (QMailBox 0)) 0) = []"
    by (simp_all add: demo_on_def zero_kernel_def mb_room_def mb_contents_def)
  ultimately show ?thesis
    using mb_send_cases [OF demo_on_core demo_mb_ok, of "QMailBox 0" 1 2 0 42]
    by (auto simp: served_def)
qed

text \<open>Receiving a mail: the oldest mail is returned and the first waiting sender, if any,
  becomes ready; an empty mailbox makes a call that does not wait fail, and queues a caller
  that waits.\<close>

theorem mb_recv_cases:
  assumes "core_inv s" "mb_ok n s" "current_thread s = Some t" "thread_stat s t = RT_THREAD_READY"
    and "lock_nest s = 0" "irq_nest s = 0" "u \<noteq> t" "thread_stat s u = RT_THREAD_READY"
    and "sint timeout \<noteq> 0x7fffffff"
  shows "\<exists>r s'. rt_mb_recv n timeout s = Some (r, s') \<and> core_inv s' \<and> mb_ok n s' \<and>
    (case mb_contents (mailboxes s n) of
       v # vs \<Rightarrow> r = Return (RT_EOK, Some v) \<and> mb_contents (mailboxes s' n) = vs \<and>
         served (QMbSender n) (upd_mb n (\<lambda>mb. snd (mb_get mb)) s) s'
     | [] \<Rightarrow> if timeout = 0 then r = Return (- RT_ETIMEOUT, None) \<and> s' = s
         else r = Blocked \<and> mailboxes s' = mailboxes s \<and>
           waits t (QMailBox n) (FMbRecv n timeout (if 0 < sint timeout then rt_tick s else 0))
             (upd_thread t (\<lambda>r. r\<lparr>th_error := RT_EOK\<rparr>) s) s')"
proof (cases "mb_contents (mailboxes s n)")
  case (Cons v vs)
  have cur: "current_thread s \<noteq> None" using assms(3) by simp
  from mb_recv_mail [OF assms(1,2) cur Cons, of timeout] show ?thesis
    using served_core_inv unfolding Cons list.case by blast
next
  case Nil
  show ?thesis
  proof (cases "timeout = 0")
    case True
    then show ?thesis using mb_recv_empty [OF assms(2) Nil] assms(1,2) Nil by simp
  next
    case False
    from mb_recv_blocks [OF assms(1,2) Nil assms(3-8) False assms(9)]
    obtain s' where s': "rt_mb_recv n timeout s = Some (Blocked, s')" "core_inv s'" "mb_ok n s'"
      "waits t (QMailBox n) (FMbRecv n timeout (if 0 < sint timeout then rt_tick s else 0))
      (upd_thread t (\<lambda>r. r\<lparr>th_error := RT_EOK\<rparr>) s) s'" by blast
    then show ?thesis using Nil False waitsD(8) [OF s'(4)] by auto
  qed
qed

theorem mb_recv_cases_witness:
  "\<exists>s'. rt_mb_recv 0 5 demo = Some (Blocked, s') \<and> current_thread s' \<noteq> Some 1 \<and>
     queues s' (Suspend (QMailBox 0)) = [1]"
proof -
  have "thread_stat demo 1 = RT_THREAD_READY" "thread_stat demo 2 = RT_THREAD_READY"
    by (simp_all add: thread_stat_def demo_stat)
  moreover have "mb_contents (mailboxes demo 0) = []"
    by (simp add: demo_on_def zero_kernel_def mb_contents_def)
  moreover have "oflag (objs demo (OMailBox 0)) = RT_IPC_FLAG_FIFO"
    by (simp add: demo_on_def RT_IPC_FLAG_FIFO_def)
  ultimately show ?thesis
    using mb_recv_cases [OF demo_on_core demo_mb_ok, of "QSem 1" 1 2 5]
    by (auto simp: waits_def ipc_insert_def)
qed

text \<open>A call that is woken and has to wait once more waits only for what is left of its time, also
  when the tick counter wraps around in between: after \<open>n\<close> ticks the rest is the time minus
  \<open>n\<close>, or nothing.\<close>

theorem wait_time_left:
  assumes "0 < sint timeout" "n < 2 ^ 31"
  shows "sint (time_left timeout start (start + of_nat n)) = max 0 (sint timeout - int n) \<and>
    sint (time_left timeout start (start + of_nat n)) \<le> sint timeout"
  using time_left_pos [OF assms(1) refl assms(2)] assms(1) by simp

theorem wait_time_left_witness:
  "sint (time_left 100 0xfffffff0 14) = 70"
proof -
  have w: "(0xfffffff0 + of_nat 30 :: u32) = 14" by code_simp
  have h: "sint (100 :: u32) = 100" by code_simp
  have "0 < sint (100 :: u32)" "(30 :: nat) < 2 ^ 31" by (simp_all only: h) simp_all
  from wait_time_left [OF this, where start = "0xfffffff0", unfolded w h] show ?thesis by simp
qed

section \<open>Message queues\<close>

text \<open>C16: Any interleaving of the critical sections of any number of senders and receivers keeps
  the blocks apart and the messages in order.  From a freshly formatted pool, whatever steps
  were taken, every block is free, queued or in the hands of one thread; the queued messages
  are those that were sent and not yet received, in the order of the specification; and what a
  receiver that has taken a block reads is the whole message, however the others go on.\<close>

theorem mq_interleaving:
  assumes "\<forall>b < unat (max_msgs q0). length (msg_data q0 b) = unat (msg_size q0)"
    and "mq_reach (mq_format q0, Map.empty, []) (q, h, ms)"
  shows "mq_ok q (dom h) \<and> list_all2 stored ms (mq_contents q) \<and>
    length ms + mq_room q + card (dom h) = unat (max_msgs q) \<and>
    (\<forall>b m. h b = Some (Reading m) \<longrightarrow> stored m (msg_data q b)) \<and>
    (\<forall>b q'. mq_pop q = Some (b, q') \<longrightarrow> ms \<noteq> [] \<and> stored (hd ms) (msg_data q b))"
proof -
  have "mq_inv (mq_format q0, Map.empty, [])"
    using mq_format_ok [OF assms(1)] by (simp add: mq_inv_def)
  then have inv: "mq_inv (q, h, ms)" using mq_reach_inv assms(2) by blast
  then obtain pl where at: "mq_at q (dom h) pl"
    and c: "list_all2 stored ms (map (msg_data q) (queued_blocks pl))"
    and h: "\<forall>b st. h b = Some st \<longrightarrow> stage_ok q b st"
    by (rule mq_invE)
  have "length ms = length (queued_blocks pl)" using list_all2_lengthD [OF c] by simp
  then have "length ms + mq_room q + card (dom h) = unat (max_msgs q)"
    using mq_at_bound [OF at] by (simp add: mq_at_room [OF at])
  moreover have "ms \<noteq> [] \<and> stored (hd ms) (msg_data q b)" if "mq_pop q = Some (b, q')" for b q'
    using mq_inv_pop [OF inv that] by simp
  moreover have "stored m (msg_data q b)" if "h b = Some (Reading m)" for b m
    using h that by fastforce
  ultimately show ?thesis using mq_at_okI [OF at] c mq_at_contents [OF at] by simp
qed

text \<open>Two blocks of four bytes; two senders get a block each and finish in the opposite order.\<close>

definition demo_pool :: rt_messagequeue where
  "demo_pool = \<lparr>msg_size = 4, max_msgs = 2, mq_entry = 0, msg_queue_head = None, msg_queue_tail = None,
     msg_queue_free = None, msg_next = (\<lambda>_. None), msg_data = (\<lambda>_. [0, 0, 0, 0])\<rparr>"

definition demo_mq1 :: rt_messagequeue where
  "demo_mq1 = (mq_format demo_pool)\<lparr>msg_queue_free := None\<rparr>"

definition demo_mq2 :: rt_messagequeue where
  "demo_mq2 = mq_link 0 (mq_fill 0 [9] (mq_clear_next 0 demo_mq1))"

lemma demo_mq_run:
  "mq_reach (mq_format demo_pool, Map.empty, []) (demo_mq2, Map.empty(1 \<mapsto> Owned), [[9]])"
proof -
  have f: "mq_format demo_pool = demo_pool\<lparr>msg_next := (\<lambda>_. None)(1 := Some 0), msg_queue_free := Some 1\<rparr>"
    by (simp add: mq_format_def demo_pool_def mq_format_block_def upt_rec fun_eq_iff)
  let ?q1 = "(mq_format demo_pool)\<lparr>msg_queue_free := Some 0\<rparr>"
  have s1: "mq_step (mq_format demo_pool, Map.empty, []) (?q1, Map.empty(1 \<mapsto> Owned), [])"
    by (rule mq_step.alloc) (simp add: f mq_alloc_def)
  have s2: "mq_step (?q1, Map.empty(1 \<mapsto> Owned), []) (demo_mq1, Map.empty(1 \<mapsto> Owned, 0 \<mapsto> Owned), [])"
    unfolding demo_mq1_def f by (rule mq_step.alloc) (simp add: mq_alloc_def demo_pool_def)
  have s3: "mq_step (demo_mq1, Map.empty(1 \<mapsto> Owned, 0 \<mapsto> Owned), [])
      (mq_fill 0 [9] (mq_clear_next 0 demo_mq1), Map.empty(1 \<mapsto> Owned, 0 \<mapsto> Owned, 0 \<mapsto> Filled [9]), [])"
    unfolding demo_mq1_def f by (rule mq_step.copy) (simp_all add: demo_pool_def)
  have s4: "mq_step
      (mq_fill 0 [9] (mq_clear_next 0 demo_mq1), Map.empty(1 \<mapsto> Owned, 0 \<mapsto> Owned, 0 \<mapsto> Filled [9]), [])
      (demo_mq2, (Map.empty(1 \<mapsto> Owned, 0 \<mapsto> Owned, 0 \<mapsto> Filled [9]))(0 := None), [] @ [[9]])"
    unfolding demo_mq2_def by (rule mq_step.link) simp
  have m: "(Map.empty((1::nat) \<mapsto> Owned, 0 \<mapsto> Owned, 0 \<mapsto> Filled [9]))(0 := None) = Map.empty(1 \<mapsto> Owned)"
    by (simp add: fun_eq_iff)
  show ?thesis
    using mq_next [OF mq_next [OF mq_next [OF mq_next [OF mq_start s1] s2] s3] s4] by (simp add: m)
qed

theorem mq_interleaving_witness:
  "mq_ok demo_mq2 {1} \<and> mq_room demo_mq2 = 0 \<and> list_all2 stored [[9]] (mq_contents demo_mq2)"
proof -
  have "\<forall>b < unat (max_msgs demo_pool). length (msg_data demo_pool b) = unat (msg_size demo_pool)"
    by (simp add: demo_pool_def)
  from mq_interleaving [OF this demo_mq_run] show ?thesis
    by (simp add: demo_mq2_def demo_mq1_def mq_link_def mq_fill_def mq_clear_next_def mq_format_def
        demo_pool_def mq_format_block_def upt_rec)
qed


text \<open>The pool of two blocks as queue 0, a thread waits for a message.\<close>

definition demo_msgs :: kernel where
  "demo_msgs = upd_mq 0 (\<lambda>_. mq_format demo_pool) (demo_on (QMessageQueue 0))"

lemma demo_pool_ok:
  "mq_ok (mq_format demo_pool) {}" "mq_contents (mq_format demo_pool) = []" "mq_room (mq_format demo_pool) = 2"
  "msg_size (mq_format demo_pool) = 4"
proof -
  have "\<forall>b < unat (max_msgs demo_pool). length (msg_data demo_pool b) = unat (msg_size demo_pool)"
    by (simp add: demo_pool_def)
  note ok = mq_format_ok [OF this]
  show "mq_ok (mq_format demo_pool) {}" "mq_contents (mq_format demo_pool) = []"
    "mq_room (mq_format demo_pool) = 2" "msg_size (mq_format demo_pool) = 4"
    using ok by (simp_all add: demo_pool_def mq_format_def mq_format_block_def upt_rec)
qed

lemma demo_msgs_ok: "core_inv demo_msgs" "mqueue_ok 0 {} demo_msgs" "current_thread demo_msgs = Some 1"
    "lock_nest demo_msgs = 0" "mqs demo_msgs 0 = mq_format demo_pool"
    "queues demo_msgs (Suspend (QMessageQueue 0)) = [3]" "thread_stat demo_msgs 1 = RT_THREAD_READY"
proof -
  show "core_inv demo_msgs" by (simp add: demo_msgs_def demo_on_core)
  show "mqueue_ok 0 {} demo_msgs"
    using demo_pool_ok(1)
    by (simp add: mqueue_ok_def demo_msgs_def is_mq_def rt_object_get_type_def)
      (simp add: demo_on_def demo_type_def class_defs RT_IPC_FLAG_FIFO_def)
qed (simp_all add: demo_msgs_def thread_stat_def)


text \<open>Resetting a message queue ends, frees every queued block, releases all waiting threads
  with an error and keeps the blocks that others are copying apart.\<close>

theorem mq_reset_frees:
  assumes "core_inv s" "mqueue_ok n F s" "current_thread s \<noteq> None" "thread_stat s u = RT_THREAD_READY"
  shows "\<exists>s'. rt_mq_control n RT_IPC_CMD_RESET arg s = Some (RT_EOK, s') \<and> core_inv s' \<and>
    mqueue_ok n F s' \<and> mq_contents (mqs s' n) = [] \<and>
    mq_room (mqs s' n) = mq_room (mqs s n) + length (mq_contents (mqs s n)) \<and>
    queues s' (Suspend (QMessageQueue n)) = [] \<and>
    (\<forall>t \<in> set (queues s (Suspend (QMessageQueue n))).
       thread_stat s' t = RT_THREAD_READY \<and> th_error (threads s' t) = - RT_ERROR) \<and>
    (lock_nest s = 0 \<longrightarrow> runs_highest s')"
  by (rule mq_control_reset [OF assms])

theorem mq_reset_frees_witness:
  "\<exists>s'. rt_mq_control 0 RT_IPC_CMD_RESET 0 demo_msgs = Some (RT_EOK, s') \<and>
     thread_stat s' 3 = RT_THREAD_READY \<and> mq_room (mqs s' 0) = 2"
  using mq_reset_frees [OF demo_msgs_ok(1,2) _ demo_msgs_ok(7), of 0]
  by (auto simp: demo_msgs_ok demo_pool_ok)

end
