(* ===== verification/Mem.thy ===== *)
theory Mem
  imports Prelude
begin

text \<open>
  The small memory allocator of \<^verbatim>\<open>src/mem.c\<close>: the heap is a row of blocks, each with a header
  that points to the next and the previous one.

  Addresses inside the heap are 32-bit offsets from \<^verbatim>\<open>heap_ptr\<close>, as in the fields \<^verbatim>\<open>next\<close> and
  \<^verbatim>\<open>prev\<close>; the pointers \<^verbatim>\<open>lfree\<close> and \<^verbatim>\<open>heap_end\<close> are offsets too.  Headers are kept apart from
  the bytes of the user: \<open>hdrs\<close> gives the header that was last written at an offset.  The
  invariant shows that the routines only read headers that lie between the areas handed out.
\<close>

section \<open>The data\<close>

record heap_mem =
  mmagic :: u16
  mused :: u16
  mnext :: u32
  mprev :: u32

record heap =
  heap_ptr :: u32
  heap_end :: u32
  lfree :: u32
  mem_size_aligned :: u32
  used_mem :: u32
  max_mem :: u32
  hdrs :: "u32 \<Rightarrow> heap_mem"

definition HEAP_MAGIC :: u16 where "HEAP_MAGIC = 0x1ea0"
definition MIN_SIZE :: u32 where "MIN_SIZE = 12"
definition MIN_SIZE_ALIGNED :: u32 where "MIN_SIZE_ALIGNED = RT_ALIGN MIN_SIZE RT_ALIGN_SIZE"

text \<open>\<^verbatim>\<open>sizeof(struct heap_mem)\<close> is 12.\<close>

definition SIZEOF_STRUCT_MEM :: u32 where "SIZEOF_STRUCT_MEM = RT_ALIGN 12 RT_ALIGN_SIZE"

lemma mem_sizes [simp]: "MIN_SIZE_ALIGNED = 12" "SIZEOF_STRUCT_MEM = 12" "RT_ALIGN_SIZE = 4" "MIN_SIZE = 12"
  by (simp_all add: MIN_SIZE_ALIGNED_def SIZEOF_STRUCT_MEM_def RT_ALIGN_SIZE_def MIN_SIZE_def RT_ALIGN_def)

definition upd_hdr :: "u32 \<Rightarrow> (heap_mem \<Rightarrow> heap_mem) \<Rightarrow> heap \<Rightarrow> heap" where
  "upd_hdr p f h = h\<lparr>hdrs := (hdrs h)(p := f (hdrs h p))\<rparr>"

section \<open>The routines\<close>

text \<open>Joining two neighbours, the second of which disappears: both halves of \<^verbatim>\<open>plug_holes\<close>.\<close>

definition join_blocks :: "u32 \<Rightarrow> u32 \<Rightarrow> heap \<Rightarrow> heap" where
  "join_blocks a b h =
     (let h = (if lfree h = b then h\<lparr>lfree := a\<rparr> else h);
          h = upd_hdr a (\<lambda>r. r\<lparr>mnext := mnext (hdrs h b)\<rparr>) h
      in upd_hdr (mnext (hdrs h b)) (\<lambda>r. r\<lparr>mprev := a\<rparr>) h)"

definition plug_holes :: "u32 \<Rightarrow> heap \<Rightarrow> heap option" where
  "plug_holes mem h = do {
     RT_ASSERT (mem < heap_end h);
     RT_ASSERT (mused (hdrs h mem) = 0);
     let nmem = mnext (hdrs h mem);
     let h = (if mem \<noteq> nmem \<and> mused (hdrs h nmem) = 0 \<and> nmem \<noteq> heap_end h
              then join_blocks mem nmem h else h);
     let pmem = mprev (hdrs h mem);
     Some (if pmem \<noteq> mem \<and> mused (hdrs h pmem) = 0 then join_blocks pmem mem h else h)
   }"

text \<open>The heap after \<^verbatim>\<open>rt_system_heap_init\<close>, without the initialisation of the semaphore; with
  an unusable range the heap stays as it was.\<close>

definition rt_system_heap_init :: "u32 \<Rightarrow> u32 \<Rightarrow> heap \<Rightarrow> heap" where
  "rt_system_heap_init begin_addr end_addr h =
     (let begin_align = RT_ALIGN begin_addr RT_ALIGN_SIZE;
          end_align = RT_ALIGN_DOWN end_addr RT_ALIGN_SIZE
      in if 2 * SIZEOF_STRUCT_MEM < end_align \<and> begin_align \<le> end_align - 2 * SIZEOF_STRUCT_MEM then
           let sz = end_align - begin_align - 2 * SIZEOF_STRUCT_MEM; e = sz + SIZEOF_STRUCT_MEM
           in h\<lparr>heap_ptr := begin_align, mem_size_aligned := sz, heap_end := e, lfree := 0,
                hdrs := (hdrs h)(0 := \<lparr>mmagic = HEAP_MAGIC, mused = 0, mnext = e, mprev = 0\<rparr>,
                                 e := \<lparr>mmagic = HEAP_MAGIC, mused = 1, mnext = e, mprev = e\<rparr>)\<rparr>
         else h)"

text \<open>The search of \<^verbatim>\<open>rt_malloc\<close>: the offset of the first block from \<open>ptr\<close> on that is free and
  large enough.\<close>

partial_function (option) malloc_find :: "u32 \<Rightarrow> u32 \<Rightarrow> heap \<Rightarrow> u32 option option" where
  "malloc_find sz ptr h =
     (if ptr < mem_size_aligned h - sz then
        if mused (hdrs h ptr) = 0 \<and> sz \<le> mnext (hdrs h ptr) - (ptr + SIZEOF_STRUCT_MEM)
        then Some (Some ptr)
        else malloc_find sz (mnext (hdrs h ptr)) h
      else Some None)"

text \<open>\<^verbatim>\<open>while (lfree->used && lfree != heap_end) lfree = lfree->next\<close>\<close>

partial_function (option) lfree_loop :: "heap \<Rightarrow> heap option" where
  "lfree_loop h =
     (if mused (hdrs h (lfree h)) \<noteq> 0 \<and> lfree h \<noteq> heap_end h
      then lfree_loop (h\<lparr>lfree := mnext (hdrs h (lfree h))\<rparr>)
      else Some h)"

definition count_used :: "u32 \<Rightarrow> heap \<Rightarrow> heap" where
  "count_used n h =
     (let h = h\<lparr>used_mem := used_mem h + n\<rparr>
      in if max_mem h < used_mem h then h\<lparr>max_mem := used_mem h\<rparr> else h)"

text \<open>A new free block at \<open>ptr2\<close>, between \<open>ptr\<close> and the block behind it.\<close>

definition split_block :: "u32 \<Rightarrow> u32 \<Rightarrow> heap \<Rightarrow> heap" where
  "split_block ptr ptr2 h =
     (let h = h\<lparr>hdrs := (hdrs h)(ptr2 := \<lparr>mmagic = HEAP_MAGIC, mused = 0, mnext = mnext (hdrs h ptr),
                mprev = ptr\<rparr>)\<rparr>;
          h = upd_hdr ptr (\<lambda>b. b\<lparr>mnext := ptr2\<rparr>) h
      in if mnext (hdrs h ptr2) \<noteq> mem_size_aligned h + SIZEOF_STRUCT_MEM
         then upd_hdr (mnext (hdrs h ptr2)) (\<lambda>b. b\<lparr>mprev := ptr2\<rparr>) h else h)"

text \<open>What \<^verbatim>\<open>rt_malloc\<close> does with the block it found.\<close>

definition malloc_take :: "u32 \<Rightarrow> u32 \<Rightarrow> heap \<Rightarrow> heap option" where
  "malloc_take sz ptr h = do {
     let h = (if sz + SIZEOF_STRUCT_MEM + MIN_SIZE_ALIGNED \<le> mnext (hdrs h ptr) - (ptr + SIZEOF_STRUCT_MEM)
              then let h = upd_hdr ptr (\<lambda>b. b\<lparr>mused := 1\<rparr>) (split_block ptr (ptr + SIZEOF_STRUCT_MEM + sz) h)
                   in count_used (sz + SIZEOF_STRUCT_MEM) h
              else let h = upd_hdr ptr (\<lambda>b. b\<lparr>mused := 1\<rparr>) h
                   in count_used (mnext (hdrs h ptr) - ptr) h);
     let h = upd_hdr ptr (\<lambda>b. b\<lparr>mmagic := HEAP_MAGIC\<rparr>) h;
     h \<leftarrow> (if ptr = lfree h then do {
             h \<leftarrow> lfree_loop h;
             RT_ASSERT (lfree h = heap_end h \<or> mused (hdrs h (lfree h)) = 0);
             Some h
           }
           else Some h);
     RT_ASSERT (heap_ptr h + ptr + SIZEOF_STRUCT_MEM + sz \<le> heap_ptr h + heap_end h);
     RT_ASSERT ((heap_ptr h + ptr + SIZEOF_STRUCT_MEM) mod RT_ALIGN_SIZE = 0);
     RT_ASSERT ((heap_ptr h + ptr) AND (RT_ALIGN_SIZE - 1) = 0);
     Some h
   }"

text \<open>\<^verbatim>\<open>rt_malloc\<close> between taking and releasing the semaphore.  Pointers to the user's memory are
  offsets, \<open>None\<close> is \<^verbatim>\<open>RT_NULL\<close>.\<close>

definition mem_malloc :: "u32 \<Rightarrow> heap \<Rightarrow> (u32 option \<times> heap) option" where
  "mem_malloc sz h =
     (if sz = 0 then Some (None, h)
      else
        let sz = RT_ALIGN sz RT_ALIGN_SIZE
        in if mem_size_aligned h < sz then Some (None, h)
           else do {
             let sz = (if sz < MIN_SIZE_ALIGNED then MIN_SIZE_ALIGNED else sz);
             r \<leftarrow> malloc_find sz (lfree h) h;
             (case r of
                None \<Rightarrow> Some (None, h)
              | Some ptr \<Rightarrow> do {
                  h \<leftarrow> malloc_take sz ptr h;
                  Some (Some (ptr + SIZEOF_STRUCT_MEM), h)
                })
           })"

definition mem_free :: "u32 option \<Rightarrow> heap \<Rightarrow> heap option" where
  "mem_free rmem h = (case rmem of
     None \<Rightarrow> Some h
   | Some p \<Rightarrow> do {
       RT_ASSERT ((heap_ptr h + p) AND (RT_ALIGN_SIZE - 1) = 0);
       RT_ASSERT (p < heap_end h);
       let mem = p - SIZEOF_STRUCT_MEM;
       RT_ASSERT (mused (hdrs h mem) \<noteq> 0);
       RT_ASSERT (mmagic (hdrs h mem) = HEAP_MAGIC);
       let h = upd_hdr mem (\<lambda>b. b\<lparr>mused := 0, mmagic := HEAP_MAGIC\<rparr>) h;
       let h = (if mem < lfree h then h\<lparr>lfree := mem\<rparr> else h);
       let h = h\<lparr>used_mem := used_mem h - (mnext (hdrs h mem) - mem)\<rparr>;
       plug_holes mem h
     })"

text \<open>\<open>mem_realloc\<close> also says which bytes are copied where: \<open>Some (to, from, n)\<close>.\<close>

definition mem_realloc ::
  "u32 option \<Rightarrow> u32 \<Rightarrow> heap \<Rightarrow> (u32 option \<times> (u32 \<times> u32 \<times> u32) option \<times> heap) option" where
  "mem_realloc rmem newsize h =
     (let newsize = RT_ALIGN newsize RT_ALIGN_SIZE
      in if mem_size_aligned h < newsize then Some (None, None, h)
         else if newsize = 0 then do { h \<leftarrow> mem_free rmem h; Some (None, None, h) }
         else case rmem of
           None \<Rightarrow> do { (p, h) \<leftarrow> mem_malloc newsize h; Some (p, None, h) }
         | Some p \<Rightarrow>
           if heap_end h \<le> p then Some (Some p, None, h)
           else
             let ptr = p - SIZEOF_STRUCT_MEM; sz = mnext (hdrs h ptr) - ptr - SIZEOF_STRUCT_MEM
             in if sz = newsize then Some (Some p, None, h)
                else if newsize + SIZEOF_STRUCT_MEM + MIN_SIZE < sz then do {
                  let h = h\<lparr>used_mem := used_mem h - (sz - newsize)\<rparr>;
                  let ptr2 = ptr + SIZEOF_STRUCT_MEM + newsize;
                  let h = split_block ptr ptr2 h;
                  h \<leftarrow> plug_holes ptr2 h;
                  Some (Some p, None, h)
                }
                else do {
                  (nmem, h) \<leftarrow> mem_malloc newsize h;
                  (case nmem of
                     None \<Rightarrow> Some (None, None, h)
                   | Some q \<Rightarrow> do {
                       h \<leftarrow> mem_free (Some p) h;
                       Some (Some q, Some (q, p, if sz < newsize then sz else newsize), h)
                     })
                })"

text \<open>The second component is the number of bytes that are set to zero, from the returned pointer
  on.\<close>

definition mem_calloc :: "u32 \<Rightarrow> u32 \<Rightarrow> heap \<Rightarrow> (u32 option \<times> u32 \<times> heap) option" where
  "mem_calloc count sz h = do {
     (p, h) \<leftarrow> mem_malloc (count * sz) h;
     Some (p, if p = None then 0 else count * sz, h)
   }"

definition rt_memory_info :: "heap \<Rightarrow> u32 \<times> u32 \<times> u32" where
  "rt_memory_info h = (mem_size_aligned h, used_mem h, max_mem h)"

section \<open>The row of blocks\<close>

text \<open>\<open>row H a os e\<close>: the headers at \<open>os\<close> follow each other by their \<^verbatim>\<open>next\<close> fields from \<open>a\<close> to
  \<open>e\<close>; every block has a header and at least 12 bytes behind it, and is aligned.\<close>

fun row :: "(u32 \<Rightarrow> heap_mem) \<Rightarrow> u32 \<Rightarrow> u32 list \<Rightarrow> u32 \<Rightarrow> bool" where
  "row H a [] e \<longleftrightarrow> a = e"
| "row H a (b # bs) e \<longleftrightarrow> b = a \<and> unat a + 24 \<le> unat (mnext (H a)) \<and> 4 dvd unat a \<and>
     mmagic (H a) = HEAP_MAGIC \<and> mused (H a) \<in> {0, 1} \<and> row H (mnext (H a)) bs e"

fun backs :: "(u32 \<Rightarrow> heap_mem) \<Rightarrow> u32 \<Rightarrow> u32 list \<Rightarrow> bool" where
  "backs H p [] \<longleftrightarrow> True"
| "backs H p (b # bs) \<longleftrightarrow> mprev (H b) = p \<and> backs H b bs"

text \<open>No two blocks in a row are free.\<close>

fun merged :: "(u32 \<Rightarrow> heap_mem) \<Rightarrow> u32 list \<Rightarrow> bool" where
  "merged H (a # b # bs) \<longleftrightarrow> \<not> (mused (H a) = 0 \<and> mused (H b) = 0) \<and> merged H (b # bs)"
| "merged H bs \<longleftrightarrow> True"

text \<open>The bytes of the used blocks, headers included.\<close>

fun usage :: "(u32 \<Rightarrow> heap_mem) \<Rightarrow> u32 list \<Rightarrow> u32" where
  "usage H [] = 0"
| "usage H (b # bs) = (if mused (H b) = 0 then 0 else mnext (H b) - b) + usage H bs"

definition heap_row :: "heap \<Rightarrow> u32 list \<Rightarrow> bool" where
  "heap_row h os \<longleftrightarrow> row (hdrs h) 0 os (heap_end h) \<and> backs (hdrs h) 0 os \<and>
     heap_end h = mem_size_aligned h + 12 \<and> mused (hdrs h (heap_end h)) = 1 \<and>
     12 \<le> unat (mem_size_aligned h) \<and>
     unat (heap_ptr h) + unat (mem_size_aligned h) + 24 < 2 ^ 32 \<and> 4 dvd unat (heap_ptr h) \<and>
     4 dvd unat (mem_size_aligned h)"

definition lfree_ok :: "heap \<Rightarrow> u32 list \<Rightarrow> bool" where
  "lfree_ok h os \<longleftrightarrow> lfree h = heap_end h \<or> lfree h \<in> set os \<and> mused (hdrs h (lfree h)) = 0"

definition heap_at :: "heap \<Rightarrow> u32 list \<Rightarrow> bool" where
  "heap_at h os \<longleftrightarrow> heap_row h os \<and> merged (hdrs h) os \<and> lfree_ok h os \<and>
     used_mem h = usage (hdrs h) os"

text \<open>The list of blocks as a function of the heap; \<open>lowest\<close>: no free block lies in front of
  \<^verbatim>\<open>lfree\<close>.\<close>

fun walk_row :: "nat \<Rightarrow> (u32 \<Rightarrow> heap_mem) \<Rightarrow> u32 \<Rightarrow> u32 \<Rightarrow> u32 list" where
  "walk_row 0 H a e = []"
| "walk_row (Suc k) H a e = (if a = e then [] else a # walk_row k H (mnext (H a)) e)"

definition heap_blocks :: "heap \<Rightarrow> u32 list" where
  "heap_blocks h = walk_row (unat (heap_end h)) (hdrs h) 0 (heap_end h)"

definition heap_ok :: "heap \<Rightarrow> bool" where
  "heap_ok h \<longleftrightarrow> heap_at h (heap_blocks h)"

definition lowest_at :: "heap \<Rightarrow> u32 list \<Rightarrow> bool" where
  "lowest_at h os \<longleftrightarrow> (\<forall>b \<in> set os. mused (hdrs h b) = 0 \<longrightarrow> lfree h \<le> b)"

definition lowest :: "heap \<Rightarrow> bool" where
  "lowest h \<longleftrightarrow> lowest_at h (heap_blocks h)"

text \<open>The areas that are handed out: offset of the first byte and of the first byte behind.\<close>

definition areas :: "(u32 \<Rightarrow> heap_mem) \<Rightarrow> u32 list \<Rightarrow> (u32 \<times> u32) set" where
  "areas H os = {(b + 12, mnext (H b)) | b. b \<in> set os \<and> mused (H b) \<noteq> 0}"

definition allocated :: "heap \<Rightarrow> (u32 \<times> u32) set" where
  "allocated h = areas (hdrs h) (heap_blocks h)"

section \<open>Rows\<close>

lemma row_bound: "row H a bs e \<Longrightarrow> unat a + 24 * length bs \<le> unat e"
  by (induction bs arbitrary: a) fastforce+

lemma row_in:
  assumes "row H a bs e" "b \<in> set bs"
  shows "unat a \<le> unat b" "unat b + 24 \<le> unat (mnext (H b))" "unat (mnext (H b)) \<le> unat e"
    "4 dvd unat b" "mmagic (H b) = HEAP_MAGIC" "mused (H b) \<in> {0, 1}"
  using assms
proof (induction bs arbitrary: a)
  case (Cons c bs)
  {
    case 1
    then show ?case using Cons.IH(1) [of "mnext (H a)"] by (cases "b = c") auto
  next
    case 2
    then show ?case using Cons.IH(2) [of "mnext (H a)"] by (cases "b = c") auto
  next
    case 3
    then show ?case using Cons.IH(3) [of "mnext (H a)"] row_bound [of H "mnext (H a)" bs e]
      by (cases "b = c") auto
  next
    case 4
    then show ?case using Cons.IH(4) [of "mnext (H a)"] by (cases "b = c") auto
  next
    case 5
    then show ?case using Cons.IH(5) [of "mnext (H a)"] by (cases "b = c") auto
  next
    case 6
    then show ?case using Cons.IH(6) [of "mnext (H a)"] by (cases "b = c") auto
  }
qed simp_all

lemma row_append: "row H a (xs @ ys) e \<longleftrightarrow> (\<exists>m. row H a xs m \<and> row H m ys e)"
  by (induction xs arbitrary: a) auto

lemma row_distinct: "row H a bs e \<Longrightarrow> distinct bs"
proof (induction bs arbitrary: a)
  case (Cons c bs)
  then have "row H (mnext (H a)) bs e" "c = a" "unat a + 24 \<le> unat (mnext (H a))" by simp_all
  then show ?case using Cons.IH row_in(1) [of H "mnext (H a)" bs e c] by fastforce
qed simp

lemma row_end_notin: "row H a bs e \<Longrightarrow> e \<notin> set bs"
  using row_in(2,3) by fastforce

lemma row_cong:
  assumes "\<And>b. b \<in> set bs \<Longrightarrow> mnext (H' b) = mnext (H b) \<and> mused (H' b) = mused (H b) \<and>
    mmagic (H' b) = mmagic (H b)"
  shows "row H' a bs e = row H a bs e"
  using assms by (induction bs arbitrary: a) auto

lemma backs_append:
  "backs H p (xs @ ys) \<longleftrightarrow> backs H p xs \<and> backs H (if xs = [] then p else last xs) ys"
  by (induction xs arbitrary: p) auto

lemma backs_cong:
  assumes "\<And>b. b \<in> set bs \<Longrightarrow> mprev (H' b) = mprev (H b)"
  shows "backs H' p bs = backs H p bs"
  using assms by (induction bs arbitrary: p) auto

lemma merged_append:
  "merged H (xs @ ys) \<longleftrightarrow> merged H xs \<and> merged H ys \<and>
     (xs = [] \<or> ys = [] \<or> \<not> (mused (H (last xs)) = 0 \<and> mused (H (hd ys)) = 0))"
proof (induction xs)
  case (Cons x xs)
  show ?case
  proof (cases xs)
    case Nil
    then show ?thesis by (cases ys) auto
  next
    case (Cons y zs)
    then show ?thesis using Cons.IH by auto
  qed
qed simp

lemma merged_cong:
  assumes "\<And>b. b \<in> set bs \<Longrightarrow> mused (H' b) = mused (H b)"
  shows "merged H' bs = merged H bs"
  using assms by (induction H bs rule: merged.induct) auto

lemma merged_Cons: "merged H (b # bs) \<longleftrightarrow> merged H bs \<and> (bs = [] \<or> \<not> (mused (H b) = 0 \<and> mused (H (hd bs)) = 0))"
  by (cases bs) auto

lemma usage_append: "usage H (xs @ ys) = usage H xs + usage H ys"
  by (induction xs) auto

lemma usage_cong:
  assumes "\<And>b. b \<in> set bs \<Longrightarrow> mnext (H' b) = mnext (H b) \<and> mused (H' b) = mused (H b)"
  shows "usage H' bs = usage H bs"
  using assms by (induction bs) auto

lemma areas_simps [simp]:
  "areas H [] = {}"
  "areas H (b # bs) = (if mused (H b) = 0 then {} else {(b + 12, mnext (H b))}) \<union> areas H bs"
  "areas H (xs @ ys) = areas H xs \<union> areas H ys"
  by (auto simp: areas_def)

lemma areas_cong:
  assumes "\<And>b. b \<in> set bs \<Longrightarrow> mnext (H' b) = mnext (H b) \<and> mused (H' b) = mused (H b)"
  shows "areas H' bs = areas H bs"
  using assms by (induction bs) auto

lemma walk_row_eq: "row H a bs e \<Longrightarrow> length bs \<le> k \<Longrightarrow> walk_row k H a e = bs"
proof (induction bs arbitrary: a k)
  case Nil
  then show ?case by (cases k) simp_all
next
  case (Cons b bs)
  have "a \<noteq> e" using row_end_notin [OF Cons.prems(1)] Cons.prems(1) by auto
  then show ?case using Cons by (cases k) auto
qed

lemma heap_rowD:
  assumes "heap_row h os"
  shows "row (hdrs h) 0 os (heap_end h)" "backs (hdrs h) 0 os"
    "heap_end h = mem_size_aligned h + 12" "mused (hdrs h (heap_end h)) = 1"
    "unat (heap_end h) = unat (mem_size_aligned h) + 12"
    "unat (heap_ptr h) + unat (heap_end h) + 12 < 2 ^ 32"
    "4 dvd unat (heap_ptr h)" "12 \<le> unat (mem_size_aligned h)"
proof -
  show e: "heap_end h = mem_size_aligned h + 12" using assms unfolding heap_row_def by blast
  show "unat (heap_end h) = unat (mem_size_aligned h) + 12"
    using assms by (simp add: heap_row_def unat_word_ariths)
  then show "unat (heap_ptr h) + unat (heap_end h) + 12 < 2 ^ 32"
    using assms by (simp add: heap_row_def)
qed (use assms in \<open>unfold heap_row_def, blast+\<close>)

lemma heap_atD:
  assumes "heap_at h os"
  shows "heap_row h os" "merged (hdrs h) os" "lfree_ok h os" "used_mem h = usage (hdrs h) os"
  using assms unfolding heap_at_def by blast+

lemma heap_at_unique:
  assumes "heap_row h os"
  shows "heap_blocks h = os"
proof -
  note r = heap_rowD(1) [OF assms]
  then have "length os \<le> unat (heap_end h)" using row_bound by fastforce
  then show ?thesis unfolding heap_blocks_def by (rule walk_row_eq [OF r])
qed

lemma heap_at_views:
  assumes "heap_at h os"
  shows "heap_ok h" "allocated h = areas (hdrs h) os" "lowest h = lowest_at h os"
  using assms heap_at_unique [OF heap_atD(1) [OF assms]]
  by (simp_all add: heap_ok_def allocated_def lowest_def)

text \<open>Where a block lies in the row.\<close>

lemma heap_block:
  assumes "heap_row h os" "b \<in> set os"
  shows "unat b + 24 \<le> unat (mnext (hdrs h b))" "unat (mnext (hdrs h b)) \<le> unat (heap_end h)"
    "b < heap_end h" "b \<noteq> heap_end h" "mnext (hdrs h b) \<noteq> b"
    "unat (b + 12) = unat b + 12" "unat (mnext (hdrs h b) - (b + 12)) = unat (mnext (hdrs h b)) - unat b - 12"
    "4 dvd unat b" "mmagic (hdrs h b) = HEAP_MAGIC" "mused (hdrs h b) \<in> {0, 1}"
proof -
  note r = row_in [OF heap_rowD(1) [OF assms(1)] assms(2)]
  show b: "unat b + 24 \<le> unat (mnext (hdrs h b))" "unat (mnext (hdrs h b)) \<le> unat (heap_end h)"
    "4 dvd unat b" "mmagic (hdrs h b) = HEAP_MAGIC" "mused (hdrs h b) \<in> {0, 1}" using r by simp_all
  show "b < heap_end h" using b(1,2) by (simp add: word_less_nat_alt)
  then show "b \<noteq> heap_end h" by simp
  show "mnext (hdrs h b) \<noteq> b" using b(1) by auto
  have "unat (heap_end h) < 2 ^ 32" using heap_rowD(6) [OF assms(1)] by simp
  then show p: "unat (b + 12) = unat b + 12" using b(1,2) by (simp add: unat_word_ariths)
  then have "b + 12 \<le> mnext (hdrs h b)" using b(1) by (simp add: word_le_nat_alt)
  then show "unat (mnext (hdrs h b) - (b + 12)) = unat (mnext (hdrs h b)) - unat b - 12"
    using p by (simp add: unat_sub)
qed

text \<open>The blocks around one.\<close>

lemma row_around:
  assumes "row H 0 (xs @ b # ys) e"
  shows "row H 0 xs b" "row H (mnext (H b)) ys e" "mnext (H b) = (if ys = [] then e else hd ys)"
    "b \<notin> set xs" "b \<notin> set ys" "set xs \<inter> set ys = {}" "e \<notin> set xs" "e \<notin> set ys" "b \<noteq> e"
proof -
  show "row H 0 xs b" "row H (mnext (H b)) ys e" using assms by (auto simp: row_append)
  then show "mnext (H b) = (if ys = [] then e else hd ys)" by (cases ys) auto
  show "b \<notin> set xs" "b \<notin> set ys" "set xs \<inter> set ys = {}" using row_distinct [OF assms] by auto
  show "e \<notin> set xs" "e \<notin> set ys" "b \<noteq> e" using row_end_notin [OF assms] by auto
qed

section \<open>Joining\<close>

definition same_heap :: "heap \<Rightarrow> heap \<Rightarrow> bool" where
  "same_heap h h' \<longleftrightarrow> heap_ptr h' = heap_ptr h \<and> heap_end h' = heap_end h \<and>
     mem_size_aligned h' = mem_size_aligned h"

lemma same_heapD:
  "same_heap h h' \<Longrightarrow> heap_ptr h' = heap_ptr h" "same_heap h h' \<Longrightarrow> heap_end h' = heap_end h"
  "same_heap h h' \<Longrightarrow> mem_size_aligned h' = mem_size_aligned h"
  by (simp_all add: same_heap_def)

lemma same_heap_refl [simp]: "same_heap h h"
  by (simp add: same_heap_def)

lemma heap_row_same:
  assumes "heap_row h os" "same_heap h h'" "row (hdrs h') 0 os' (heap_end h)" "backs (hdrs h') 0 os'"
    and "mused (hdrs h' (heap_end h)) = 1"
  shows "heap_row h' os'"
  using assms by (auto simp only: heap_row_def same_heap_def)

lemma join_sel [simp]:
  "heap_ptr (join_blocks a b h) = heap_ptr h" "heap_end (join_blocks a b h) = heap_end h"
  "mem_size_aligned (join_blocks a b h) = mem_size_aligned h" "used_mem (join_blocks a b h) = used_mem h"
  "max_mem (join_blocks a b h) = max_mem h"
  "lfree (join_blocks a b h) = (if lfree h = b then a else lfree h)"
  "mused (hdrs (join_blocks a b h) p) = mused (hdrs h p)"
  "mmagic (hdrs (join_blocks a b h) p) = mmagic (hdrs h p)"
  by (simp_all add: join_blocks_def upd_hdr_def Let_def)

lemma join_links:
  assumes "a \<noteq> b"
  shows "mnext (hdrs (join_blocks a b h) p) = (if p = a then mnext (hdrs h b) else mnext (hdrs h p))"
    "mprev (hdrs (join_blocks a b h) p) = (if p = mnext (hdrs h b) then a else mprev (hdrs h p))"
  using assms by (simp_all add: join_blocks_def upd_hdr_def Let_def)

lemma join_row:
  assumes r: "heap_row h (xs @ a # b # ys)" and f: "mused (hdrs h a) = 0" "mused (hdrs h b) = 0"
  shows "heap_row (join_blocks a b h) (xs @ a # ys)"
    "usage (hdrs (join_blocks a b h)) (xs @ a # ys) = usage (hdrs h) (xs @ a # b # ys)"
    "areas (hdrs (join_blocks a b h)) (xs @ a # ys) = areas (hdrs h) (xs @ a # b # ys)"
    "lfree_ok h (xs @ a # b # ys) \<Longrightarrow> lfree_ok (join_blocks a b h) (xs @ a # ys)"
    "lowest_at h (xs @ a # b # ys) \<Longrightarrow> lowest_at (join_blocks a b h) (xs @ a # ys)"
proof -
  let ?h = "join_blocks a b h" and ?H = "hdrs h"
  note R = heap_rowD(1) [OF r]
  note A = row_around [OF R]
  have B: "row ?H 0 ((xs @ [a]) @ b # ys) (heap_end h)" using R by simp
  note B = row_around [OF B]
  have ne: "a \<noteq> b" using A(5) by auto
  note L = join_links [OF ne, of h]
  have ba: "mnext (?H a) = b" using A(3) by simp
  have ab: "unat a + 24 \<le> unat b" "unat b + 24 \<le> unat (mnext (?H b))" "4 dvd unat a" "mmagic (?H a) = HEAP_MAGIC"
    using row_in(2,4,5) [OF R, of a] row_in(2) [OF R, of b] ba by simp_all
  have "row (hdrs ?h) 0 xs a = row ?H 0 xs a"
    by (rule row_cong) (use A(4) L in auto)
  moreover have "row (hdrs ?h) (mnext (?H b)) ys (heap_end h) = row ?H (mnext (?H b)) ys (heap_end h)"
    by (rule row_cong) (use A(5) L in auto)
  ultimately have row: "row (hdrs ?h) 0 (xs @ a # ys) (heap_end h)"
    using A(1) B(2) ab f L by (simp add: row_append)
  have nb: "mnext (?H b) \<notin> set xs" "mnext (?H b) \<noteq> a"
    using B(3,4,6,7) A(4,5,6,7,9) by (cases ys; auto)+
  have p: "backs ?H 0 xs" "mprev (?H a) = (if xs = [] then 0 else last xs)" "backs ?H b ys"
    using heap_rowD(2) [OF r] by (auto simp: backs_append)
  have "backs (hdrs ?h) 0 xs = backs ?H 0 xs" by (rule backs_cong) (use nb L in auto)
  moreover have "backs (hdrs ?h) a ys"
  proof (cases ys)
    case (Cons y zs)
    have "backs (hdrs ?h) y zs = backs ?H y zs"
      by (rule backs_cong) (use Cons B(3,5) row_distinct [OF R] L in auto)
    then show ?thesis using p(3) Cons B(3) L by simp
  qed simp
  ultimately have "backs (hdrs ?h) 0 (xs @ a # ys)"
    using p(1,2) nb(2) L by (simp add: backs_append)
  then show "heap_row ?h (xs @ a # ys)"
    by (intro heap_row_same [OF r _ row]) (use heap_rowD(4) [OF r] in \<open>simp_all add: same_heap_def\<close>)
  have "usage (hdrs ?h) xs = usage ?H xs" "usage (hdrs ?h) ys = usage ?H ys"
    by (rule usage_cong; use A(4,5) L in auto)+
  then show "usage (hdrs ?h) (xs @ a # ys) = usage ?H (xs @ a # b # ys)"
    using f by (simp add: usage_append)
  have "areas (hdrs ?h) xs = areas ?H xs" "areas (hdrs ?h) ys = areas ?H ys"
    by (rule areas_cong; use A(4,5) L in auto)+
  then show "areas (hdrs ?h) (xs @ a # ys) = areas ?H (xs @ a # b # ys)" using f by simp
  show "lfree_ok h (xs @ a # b # ys) \<Longrightarrow> lfree_ok ?h (xs @ a # ys)"
    using f by (auto simp: lfree_ok_def)
  have "a \<le> b" using ab(1) by (simp add: word_le_nat_alt)
  then show "lowest_at h (xs @ a # b # ys) \<Longrightarrow> lowest_at ?h (xs @ a # ys)"
    using f by (auto simp: lowest_at_def)
qed

text \<open>\<open>tidied h os h' os'\<close>: joining free blocks turns the one row into the other.\<close>

definition tidied :: "heap \<Rightarrow> u32 list \<Rightarrow> heap \<Rightarrow> u32 list \<Rightarrow> bool" where
  "tidied h os h' os' \<longleftrightarrow> same_heap h h' \<and> heap_row h' os' \<and> used_mem h' = used_mem h \<and>
     usage (hdrs h') os' = usage (hdrs h) os \<and> areas (hdrs h') os' = areas (hdrs h) os \<and>
     (lfree_ok h os \<longrightarrow> lfree_ok h' os') \<and> (lowest_at h os \<longrightarrow> lowest_at h' os')"

lemma tidied_refl: "heap_row h os \<Longrightarrow> tidied h os h os"
  by (simp add: tidied_def)

lemma tidied_join:
  assumes "heap_row h (xs @ a # b # ys)" "mused (hdrs h a) = 0" "mused (hdrs h b) = 0"
  shows "tidied h (xs @ a # b # ys) (join_blocks a b h) (xs @ a # ys)"
  using join_row [OF assms] by (simp add: tidied_def same_heap_def)

lemma tidied_trans: "tidied h os h1 os1 \<Longrightarrow> tidied h1 os1 h2 os2 \<Longrightarrow> tidied h os h2 os2"
  by (simp add: tidied_def same_heap_def)

lemma plug_holes_spec:
  assumes r: "heap_row h (xs @ m # ys)" and f: "mused (hdrs h m) = 0"
    and mg: "merged (hdrs h) xs" "merged (hdrs h) ys"
  shows "\<exists>h' os'. plug_holes m h = Some h' \<and> tidied h (xs @ m # ys) h' os' \<and> merged (hdrs h') os'"
proof -
  note A = row_around [OF heap_rowD(1) [OF r]] and B = heap_block [OF r, of m]
  have stub: "mused (hdrs h (heap_end h)) \<noteq> 0" using heap_rowD(4) [OF r] by simp
  let ?n = "mnext (hdrs h m)"
  let ?c = "m \<noteq> ?n \<and> mused (hdrs h ?n) = 0 \<and> ?n \<noteq> heap_end h"
  define h1 where "h1 = (if ?c then join_blocks m ?n h else h)"
  obtain ys1 where 1: "tidied h (xs @ m # ys) h1 (xs @ m # ys1)" "merged (hdrs h) (m # ys1)"
      "mprev (hdrs h1 m) = mprev (hdrs h m)" "\<And>p. mused (hdrs h1 p) = mused (hdrs h p)"
  proof (cases ?c)
    case True
    then obtain n zs where ys: "ys = n # zs" "n = ?n" using A(3) by (cases ys) auto
    have mg': "merged (hdrs h) (m # zs)" using mg(2) True ys by (auto simp: merged_Cons)
    have d: "mnext (hdrs h n) \<noteq> m"
      using heap_block(1) [OF r, of n] B(1) ys by auto
    show thesis
      by (rule that [of zs]) (use tidied_join [of h xs m n zs] r f True ys mg' d B(5) in
          \<open>simp_all add: h1_def join_links\<close>)
  next
    case False
    have "merged (hdrs h) (m # ys)" using mg(2) False A(3,8) B(5) by (cases ys) (auto simp: merged_Cons)
    then show thesis using that [of ys] tidied_refl [OF r] by (simp add: h1_def False)
  qed
  have r1: "heap_row h1 (xs @ m # ys1)" using 1(1) by (simp add: tidied_def)
  have b: "mprev (hdrs h m) = (if xs = [] then 0 else last xs)"
    using heap_rowD(2) [OF r] by (simp add: backs_append)
  let ?p = "mprev (hdrs h1 m)"
  let ?h2 = "if ?p \<noteq> m \<and> mused (hdrs h1 ?p) = 0 then join_blocks ?p m h1 else h1"
  have "m < heap_end h" using B(3) by simp
  then have call: "plug_holes m h = Some ?h2"
    using f by (simp add: plug_holes_def Let_def h1_def)
  have m1: "merged (hdrs h1) bs = merged (hdrs h) bs" for bs
    by (rule merged_cong) (simp add: 1(4))
  show ?thesis
  proof (cases "?p \<noteq> m \<and> mused (hdrs h1 ?p) = 0")
    case True
    have "xs \<noteq> []"
    proof
      assume "xs = []"
      then have "m = 0" using heap_rowD(1) [OF r] by simp
      then show False using True 1(3) b \<open>xs = []\<close> by simp
    qed
    then obtain zs where xs: "xs = zs @ [?p]" using 1(3) b by (metis append_butlast_last_id)
    have "merged (hdrs h1) (zs @ ?p # ys1)"
      using mg(1) 1(2) True xs unfolding m1
      by (subst (asm) xs, subst merged_append) (auto simp: merged_append merged_Cons 1(4) f)
    then have "merged (hdrs ?h2) (zs @ ?p # ys1)"
      using True by (subst merged_cong [of _ _ "hdrs h1"]) simp_all
    moreover have "tidied h1 (xs @ m # ys1) ?h2 (zs @ ?p # ys1)"
      using tidied_join [of h1 zs ?p m ys1] r1 True f 1(4) xs by simp
    ultimately show ?thesis using call tidied_trans [OF 1(1)] by blast
  next
    case False
    have "xs = [] \<or> mused (hdrs h (last xs)) \<noteq> 0"
      using False 1(3,4) b A(4) by (auto split: if_splits)
    then have "merged (hdrs h1) (xs @ m # ys1)" unfolding m1 using mg(1) 1(2) by (auto simp: merged_append)
    then show ?thesis using call 1(1) False by (intro exI [of _ h1] exI [of _ "xs @ m # ys1"]) simp
  qed
qed

section \<open>Splitting\<close>

lemma split_sel [simp]:
  "heap_ptr (split_block a b h) = heap_ptr h" "heap_end (split_block a b h) = heap_end h"
  "mem_size_aligned (split_block a b h) = mem_size_aligned h" "used_mem (split_block a b h) = used_mem h"
  "max_mem (split_block a b h) = max_mem h" "lfree (split_block a b h) = lfree h"
  by (simp_all add: split_block_def upd_hdr_def Let_def)

lemma split_links:
  assumes "a \<noteq> b" "mnext (hdrs h a) \<noteq> b"
  shows "mnext (hdrs (split_block a b h) p) =
      (if p = a then b else if p = b then mnext (hdrs h a) else mnext (hdrs h p))"
    "mused (hdrs (split_block a b h) p) = (if p = b then 0 else mused (hdrs h p))"
    "mmagic (hdrs (split_block a b h) p) = (if p = b then HEAP_MAGIC else mmagic (hdrs h p))"
    "mprev (hdrs (split_block a b h) p) = (if p = b then a
       else if p = mnext (hdrs h a) \<and> mnext (hdrs h a) \<noteq> mem_size_aligned h + 12 then b
       else mprev (hdrs h p))"
  using assms by (auto simp: split_block_def upd_hdr_def Let_def)

lemma split_row:
  assumes r: "heap_row h (xs @ a # ys)"
    and b: "unat a + 24 \<le> unat b" "unat b + 24 \<le> unat (mnext (hdrs h a))" "4 dvd unat b"
  shows "heap_row (split_block a b h) (xs @ a # b # ys)"
    and "b \<notin> set (xs @ a # ys)"
proof -
  let ?h = "split_block a b h" and ?H = "hdrs h"
  note R = heap_rowD(1) [OF r]
  note A = row_around [OF R]
  have inx: "unat x \<le> unat a" if "x \<in> set xs" for x using row_in(2,3) [OF A(1) that] by simp
  have iny: "unat (mnext (?H a)) \<le> unat y" if "y \<in> set ys" for y using row_in(1) [OF A(2) that] .
  have ne: "a \<noteq> b" "mnext (?H a) \<noteq> b" "b \<notin> set xs" "b \<notin> set ys" "b \<noteq> heap_end h"
    using b inx iny heap_block(2) [OF r, of a] by fastforce+
  then show nin: "b \<notin> set (xs @ a # ys)" by simp
  note L = split_links [OF ne(1,2)]
  have "row (hdrs ?h) 0 xs a = row ?H 0 xs a" by (rule row_cong) (use A(4) ne L in auto)
  moreover have "row (hdrs ?h) (mnext (?H a)) ys (heap_end h) = row ?H (mnext (?H a)) ys (heap_end h)"
    by (rule row_cong) (use A(5) ne L in auto)
  ultimately have row: "row (hdrs ?h) 0 (xs @ a # b # ys) (heap_end h)"
    using A(1,2) b ne L row_in(4,5,6) [OF R, of a] by (simp add: row_append)
  have p: "backs ?H 0 xs" "mprev (?H a) = (if xs = [] then 0 else last xs)" "backs ?H a ys"
    using heap_rowD(2) [OF r] by (auto simp: backs_append)
  have nx: "mnext (?H a) \<notin> set xs" "mnext (?H a) \<noteq> a" using A(3,4,6,7,9) A(5) by (cases ys; auto)+
  have "backs (hdrs ?h) 0 xs = backs ?H 0 xs" by (rule backs_cong) (use nx ne L in auto)
  moreover have "backs (hdrs ?h) b ys"
  proof (cases ys)
    case (Cons y zs)
    have "backs (hdrs ?h) y zs = backs ?H y zs"
      by (rule backs_cong) (use Cons A(3,5) ne row_distinct [OF R] L in auto)
    moreover have "mprev (hdrs ?h y) = b"
      using Cons A(3,8) ne heap_rowD(3) [OF r] L by auto
    ultimately show ?thesis using p(3) Cons by simp
  qed simp
  ultimately have "backs (hdrs ?h) 0 (xs @ a # b # ys)"
    using p(1,2) nx(2) ne L by (simp add: backs_append)
  then show "heap_row ?h (xs @ a # b # ys)"
    by (intro heap_row_same [OF r _ row])
      (use heap_rowD(4) [OF r] ne(5) L in \<open>simp_all add: same_heap_def\<close>)
qed

lemma split_rest:
  assumes r: "heap_row h (xs @ a # ys)"
    and b: "unat a + 24 \<le> unat b" "unat b + 24 \<le> unat (mnext (hdrs h a))" "4 dvd unat b"
  shows "usage (hdrs (split_block a b h)) xs = usage (hdrs h) xs"
    "usage (hdrs (split_block a b h)) ys = usage (hdrs h) ys"
    "areas (hdrs (split_block a b h)) (xs @ a # b # ys) = areas (hdrs h) (xs @ ys) \<union>
       (if mused (hdrs h a) = 0 then {} else {(a + 12, b)})"
proof -
  let ?h = "split_block a b h" and ?H = "hdrs h"
  note A = row_around [OF heap_rowD(1) [OF r]]
  have ne: "a \<noteq> b" "mnext (?H a) \<noteq> b" "b \<notin> set xs" "b \<notin> set ys" using b split_row(2) [OF r b] by auto
  note L = split_links [OF ne(1,2)]
  show "usage (hdrs ?h) xs = usage ?H xs" "usage (hdrs ?h) ys = usage ?H ys"
    by (rule usage_cong; use A(4,5) ne L in auto)+
  have "areas (hdrs ?h) xs = areas ?H xs" "areas (hdrs ?h) ys = areas ?H ys"
    by (rule areas_cong; use A(4,5) ne L in auto)+
  then show "areas (hdrs ?h) (xs @ a # b # ys) = areas ?H (xs @ ys) \<union>
       (if mused (?H a) = 0 then {} else {(a + 12, b)})"
    using L ne(1) by auto
qed

section \<open>The loops\<close>

text \<open>Searching from a block on: the first free block that is large enough, of those that begin in
  front of the limit.\<close>

definition suits :: "u32 \<Rightarrow> heap \<Rightarrow> u32 \<Rightarrow> bool" where
  "suits sz h b \<longleftrightarrow> mused (hdrs h b) = 0 \<and> sz \<le> mnext (hdrs h b) - (b + 12) \<and>
     b < mem_size_aligned h - sz"

lemma malloc_find_spec:
  assumes "row (hdrs h) a bs (heap_end h)" "mem_size_aligned h - sz \<le> heap_end h"
  shows "malloc_find sz a h = Some (find (suits sz h) bs)"
  using assms(1)
proof (induction bs arbitrary: a)
  case Nil
  have "\<not> heap_end h < mem_size_aligned h - sz" using assms(2) by simp
  then show ?case using Nil by (subst malloc_find.simps) simp
next
  case (Cons b bs)
  then have r: "row (hdrs h) (mnext (hdrs h a)) bs (heap_end h)" "b = a"
      "unat a + 24 \<le> unat (mnext (hdrs h a))" by simp_all
  show ?case
  proof (cases "a < mem_size_aligned h - sz")
    case True
    then show ?thesis using Cons.IH [OF r(1)] r(2)
      by (subst malloc_find.simps) (simp add: suits_def [of sz h a])
  next
    case False
    have "\<not> suits sz h x" if "x \<in> set bs" for x
      using row_in(1) [OF r(1) that] r(3) False by (simp add: suits_def not_less word_le_nat_alt)
    then have "find (suits sz h) bs = None" by (simp add: find_None_iff)
    then show ?thesis using False r(2) by (subst malloc_find.simps) (simp add: suits_def [of sz h a])
  qed
qed

text \<open>The loop that moves \<^verbatim>\<open>lfree\<close> forward stops at the first free block, or at the end.\<close>

lemma lfree_loop_spec:
  assumes "row (hdrs h) a bs (heap_end h)"
  shows "lfree_loop (h\<lparr>lfree := a\<rparr>) =
    Some (h\<lparr>lfree := (case find (\<lambda>b. mused (hdrs h b) = 0) bs of None \<Rightarrow> heap_end h | Some b \<Rightarrow> b)\<rparr>)"
  using assms
proof (induction bs arbitrary: a)
  case Nil
  then show ?case by (subst lfree_loop.simps) simp
next
  case (Cons b bs)
  then have r: "row (hdrs h) (mnext (hdrs h a)) bs (heap_end h)" "b = a" by simp_all
  have "a \<noteq> heap_end h" using row_end_notin [OF Cons.prems] r(2) by auto
  then show ?case using Cons.IH [OF r(1)] r(2) by (subst lfree_loop.simps) simp
qed

section \<open>Alignment\<close>

lemma low_zero: "4 dvd unat x \<Longrightarrow> x AND 3 = 0" for x :: u32
proof -
  assume "4 dvd unat x"
  then have "unat (take_bit 2 x) = 0" by (simp add: unat_low)
  then show ?thesis by (simp add: take_bit_eq_mask mask_eq_exp_minus_1 unsigned_eq_0_iff)
qed

lemma mod_zero: "4 dvd unat x \<Longrightarrow> x mod 4 = 0" for x :: u32
  by (simp add: word_arith_nat_mod)

lemma find_split:
  "find P zs = Some c \<Longrightarrow> \<exists>us vs. zs = us @ c # vs \<and> P c \<and> (\<forall>u \<in> set us. \<not> P u)"
proof (induction zs)
  case (Cons z zs)
  show ?case
  proof (cases "P z")
    case True
    then show ?thesis using Cons.prems by (intro exI [of _ "[]"] exI [of _ zs]) auto
  next
    case False
    then obtain us vs where "zs = us @ c # vs" "P c" "\<forall>u \<in> set us. \<not> P u"
      using Cons by auto
    then show ?thesis using False by (intro exI [of _ "z # us"] exI [of _ vs]) auto
  qed
qed simp

section \<open>Marking blocks\<close>

lemma row_mark:
  assumes "row H a bs e"
    and "\<And>b. b \<in> set bs \<Longrightarrow> mnext (H' b) = mnext (H b) \<and> mused (H' b) \<in> {0, 1} \<and> mmagic (H' b) = HEAP_MAGIC"
  shows "row H' a bs e"
  using assms by (induction bs arbitrary: a) auto

text \<open>\<open>mark u m h\<close>: the block \<open>m\<close> is used, or free.\<close>

definition mark :: "u16 \<Rightarrow> u32 \<Rightarrow> heap \<Rightarrow> heap" where
  "mark u m h = upd_hdr m (\<lambda>b. b\<lparr>mused := u, mmagic := HEAP_MAGIC\<rparr>) h"

lemma mark_sel [simp]:
  "heap_ptr (mark u m h) = heap_ptr h" "heap_end (mark u m h) = heap_end h"
  "mem_size_aligned (mark u m h) = mem_size_aligned h" "used_mem (mark u m h) = used_mem h"
  "max_mem (mark u m h) = max_mem h" "lfree (mark u m h) = lfree h"
  "mnext (hdrs (mark u m h) p) = mnext (hdrs h p)" "mprev (hdrs (mark u m h) p) = mprev (hdrs h p)"
  "mused (hdrs (mark u m h) p) = (if p = m then u else mused (hdrs h p))"
  "mmagic (hdrs (mark u m h) p) = (if p = m then HEAP_MAGIC else mmagic (hdrs h p))"
  by (simp_all add: mark_def upd_hdr_def)

lemma mark_row:
  assumes r: "heap_row h os" and m: "m \<in> set os" and u: "u \<in> {0, 1}"
  shows "heap_row (mark u m h) os"
proof (rule heap_row_same [OF r])
  show "row (hdrs (mark u m h)) 0 os (heap_end h)"
    by (rule row_mark [OF heap_rowD(1) [OF r]]) (use heap_block(9,10) [OF r] u in auto)
  show "backs (hdrs (mark u m h)) 0 os"
    using heap_rowD(2) [OF r] by (subst backs_cong [of _ _ "hdrs h"]) simp_all
  show "mused (hdrs (mark u m h) (heap_end h)) = 1"
    using heap_rowD(4) [OF r] heap_block(4) [OF r m] by simp
qed (simp add: same_heap_def)

text \<open>Fields that only \<^verbatim>\<open>rt_malloc\<close> and the statistics look at.\<close>

lemma heap_row_cong:
  assumes "hdrs h' = hdrs h" "same_heap h h'"
  shows "heap_row h' os = heap_row h os"
  using assms by (simp add: heap_row_def same_heap_def)

section \<open>Allocating\<close>

text \<open>After a block has been marked as used, \<^verbatim>\<open>lfree\<close> moves on if it pointed to it.\<close>

lemma lfree_step:
  assumes r: "heap_row h (xs @ m # zs)" and m: "mused (hdrs h m) \<noteq> 0"
    and l: "lfree h = m \<or> lfree_ok h (xs @ m # zs)"
  shows "\<exists>l. (if m = lfree h then do {
       h \<leftarrow> lfree_loop h;
       RT_ASSERT (lfree h = heap_end h \<or> mused (hdrs h (lfree h)) = 0);
       Some h }
     else Some h) = Some (h\<lparr>lfree := l\<rparr>) \<and> lfree_ok (h\<lparr>lfree := l\<rparr>) (xs @ m # zs) \<and>
    (lowest_at h (xs @ m # zs) \<longrightarrow> lowest_at (h\<lparr>lfree := l\<rparr>) (xs @ m # zs))"
proof (cases "m = lfree h")
  case False
  then show ?thesis using l by (intro exI [of _ "lfree h"]) simp
next
  case True
  note A = row_around [OF heap_rowD(1) [OF r]]
  let ?l = "case find (\<lambda>b. mused (hdrs h b) = 0) zs of None \<Rightarrow> heap_end h | Some b \<Rightarrow> b"
  have suf: "row (hdrs h) m (m # zs) (heap_end h)" using heap_rowD(1) [OF r] by (auto simp: row_append)
  have "h\<lparr>lfree := m\<rparr> = h" using True by simp
  with lfree_loop_spec [OF suf] m have loop: "lfree_loop h = Some (h\<lparr>lfree := ?l\<rparr>)" by simp
  have f: "?l = heap_end h \<or> ?l \<in> set zs \<and> mused (hdrs h ?l) = 0"
    by (auto split: option.split dest!: find_split)
  have low: "?l \<le> b" if "b \<in> set zs" "mused (hdrs h b) = 0" for b
  proof (cases "find (\<lambda>b. mused (hdrs h b) = 0) zs")
    case None
    then show ?thesis using that by (simp add: find_None_iff)
  next
    case (Some c)
    then obtain us vs where z: "zs = us @ c # vs" "\<forall>u \<in> set us. mused (hdrs h u) \<noteq> 0"
      using find_split by fastforce
    then have "b = c \<or> b \<in> set vs" using that by auto
    moreover have "row (hdrs h) c (c # vs) (heap_end h)" using A(2) z(1) by (auto simp: row_append)
    ultimately show ?thesis using Some row_in(1) [of "hdrs h" c "c # vs" "heap_end h" b]
      by (auto simp: word_le_nat_alt)
  qed
  have "m \<le> b" if "lowest_at h (xs @ m # zs)" "b \<in> set xs" "mused (hdrs h b) = 0" for b
    using that True by (simp add: lowest_at_def)
  moreover have "\<not> m \<le> b" if "b \<in> set xs" for b
    using row_in(2,3) [OF A(1) that] by (simp add: word_le_nat_alt)
  ultimately have "lowest_at h (xs @ m # zs) \<longrightarrow> lowest_at (h\<lparr>lfree := ?l\<rparr>) (xs @ m # zs)"
    using low m by (auto simp: lowest_at_def)
  then show ?thesis using loop f True by (intro exI [of _ ?l]) (auto simp: lfree_ok_def)
qed

text \<open>The state in which \<^verbatim>\<open>rt_malloc\<close> checks \<^verbatim>\<open>lfree\<close>: the block \<open>m\<close> is marked, and what was left of
  it is a free block of its own.\<close>

lemma malloc_cut:
  assumes at: "heap_at h (xs @ m # ys)" and f: "mused (hdrs h m) = 0"
    and sz: "12 \<le> unat sz" "4 dvd unat sz" "unat sz \<le> unat (mem_size_aligned h)"
    and fit: "sz \<le> mnext (hdrs h m) - (m + 12)"
  shows "\<exists>h2 zs. (if sz + SIZEOF_STRUCT_MEM + MIN_SIZE_ALIGNED \<le> mnext (hdrs h m) - (m + SIZEOF_STRUCT_MEM)
       then count_used (sz + SIZEOF_STRUCT_MEM)
         (upd_hdr m (\<lambda>b. b\<lparr>mused := 1\<rparr>) (split_block m (m + SIZEOF_STRUCT_MEM + sz) h))
       else let h = upd_hdr m (\<lambda>b. b\<lparr>mused := 1\<rparr>) h
            in count_used (mnext (hdrs h m) - m) h) = h2 \<and>
    (let h3 = upd_hdr m (\<lambda>b. b\<lparr>mmagic := HEAP_MAGIC\<rparr>) h2 in
      same_heap h h3 \<and> heap_row h3 (xs @ m # zs) \<and> merged (hdrs h3) (xs @ m # zs) \<and>
      used_mem h3 = usage (hdrs h3) (xs @ m # zs) \<and> mused (hdrs h3 m) = 1 \<and> lfree h3 = lfree h \<and>
      (lfree h3 = m \<or> lfree_ok h3 (xs @ m # zs)) \<and>
      (lowest_at h (xs @ m # ys) \<longrightarrow> lowest_at h3 (xs @ m # zs)) \<and>
      areas (hdrs h3) (xs @ m # zs) = insert (m + 12, mnext (hdrs h3 m)) (areas (hdrs h) (xs @ m # ys)) \<and>
      unat m + 12 + unat sz \<le> unat (mnext (hdrs h3 m)))"
proof -
  have r: "heap_row h (xs @ m # ys)" and mg: "merged (hdrs h) (xs @ m # ys)"
    and lf: "lfree_ok h (xs @ m # ys)" and us: "used_mem h = usage (hdrs h) (xs @ m # ys)"
    using heap_atD [OF at] by simp_all
  note A = row_around [OF heap_rowD(1) [OF r]] and B = heap_block [OF r, of m, simplified]
  let ?k = "mnext (hdrs h m) - (m + 12)"
  have k: "unat ?k = unat (mnext (hdrs h m)) - unat m - 12" using B(7) by simp
  have lim: "unat (heap_end h) < 2 ^ 32" using heap_rowD(6) [OF r] by simp
  have s24: "unat (sz + 12 + 12) = unat sz + 24"
    using sz(3) heap_rowD(5,6) [OF r] by (simp add: unat_word_ariths)
  have fit': "unat sz \<le> unat (mnext (hdrs h m)) - unat m - 12" using fit k by (simp add: word_le_nat_alt)
  have ysu: "ys = [] \<or> mused (hdrs h (hd ys)) \<noteq> 0" using mg f by (auto simp: merged_append merged_Cons)
  have cu: "hdrs (count_used n h') = hdrs h'" "same_heap h' (count_used n h')" "lfree (count_used n h') = lfree h'"
    "used_mem (count_used n h') = used_mem h' + n" for n h'
    by (simp_all add: count_used_def Let_def same_heap_def)
  have mk: "upd_hdr m (\<lambda>b. b\<lparr>mmagic := HEAP_MAGIC\<rparr>) (count_used n (upd_hdr m (\<lambda>b. b\<lparr>mused := 1\<rparr>) h')) =
      count_used n (mark 1 m h')" for n h'
    by (simp add: count_used_def Let_def upd_hdr_def mark_def)
  have usu: "usage (hdrs (mark 1 m h')) bs = usage (hdrs h') bs" "areas (hdrs (mark 1 m h')) bs = areas (hdrs h') bs"
    if "m \<notin> set bs" for bs h'
    by (rule usage_cong areas_cong; use that in auto)+
  show ?thesis
  proof (cases "sz + 12 + 12 \<le> ?k")
    case True
    let ?b = "m + 12 + sz"
    let ?h1 = "split_block m ?b h"
    have "unat sz + 24 \<le> unat (mnext (hdrs h m)) - unat m - 12"
      using True k s24 by (simp add: word_le_nat_alt)
    then have sum: "unat m + 12 + unat sz + 24 \<le> unat (mnext (hdrs h m))" using B(1) by linarith
    have b: "unat ?b = unat m + 12 + unat sz" using sum B(2) lim by (simp add: unat_word_ariths)
    have b3: "unat m + 24 \<le> unat ?b" "unat ?b + 24 \<le> unat (mnext (hdrs h m))" "4 dvd unat ?b"
      using sum sz(1,2) B(8) b by (simp_all add: dvd_add)
    note R = split_row [OF r b3] and S = split_rest [OF r b3]
    have ne: "m \<noteq> ?b" "mnext (hdrs h m) \<noteq> ?b" "?b \<notin> set xs" "?b \<notin> set ys"
      using R(2) b3 by auto
    note L = split_links [OF ne(1,2)]
    let ?h3 = "count_used (sz + 12) (mark 1 m ?h1)"
    have row3: "heap_row ?h3 (xs @ m # ?b # ys)"
      using mark_row [OF R(1), of m 1] heap_row_cong [OF cu(1,2)] by simp
    have used3: "mused (hdrs ?h3 p) = (if p = m then 1 else if p = ?b then 0 else mused (hdrs h p))" for p
      using L(2) by (simp add: cu)
    have mg3: "merged (hdrs ?h3) (xs @ m # ?b # ys)"
    proof -
      have "merged (hdrs ?h3) xs = merged (hdrs h) xs" "merged (hdrs ?h3) ys = merged (hdrs h) ys"
        by (rule merged_cong; use A(4,5) ne used3 in auto)+
      moreover have "ys = [] \<or> mused (hdrs ?h3 (hd ys)) \<noteq> 0"
        using ysu A(5) ne(4) by (cases ys) (auto simp: used3)
      ultimately show ?thesis using mg by (auto simp: merged_append merged_Cons used3)
    qed
    have us3: "used_mem ?h3 = usage (hdrs ?h3) (xs @ m # ?b # ys)"
      using us f A(4,5) ne L by (simp add: cu usage_append usu S(1,2))
    have lf3: "lfree ?h3 = m \<or> lfree_ok ?h3 (xs @ m # ?b # ys)"
      using lf ne R(2) cu(2) by (auto simp: lfree_ok_def used3 cu(3) same_heap_def)
    have low3: "lowest_at h (xs @ m # ys) \<longrightarrow> lowest_at ?h3 (xs @ m # ?b # ys)"
    proof
      assume l: "lowest_at h (xs @ m # ys)"
      have "m \<le> ?b" using b3(1) by (simp add: word_le_nat_alt)
      moreover have "lfree h \<le> m" using l f by (simp add: lowest_at_def)
      ultimately have "lfree h \<le> ?b" by simp
      then show "lowest_at ?h3 (xs @ m # ?b # ys)" using l by (auto simp: lowest_at_def used3 cu(3))
    qed
    have ar3: "areas (hdrs ?h3) (xs @ m # ?b # ys) =
        insert (m + 12, mnext (hdrs ?h3 m)) (areas (hdrs h) (xs @ m # ys))"
      using S(3) f A(4,5) ne L by (auto simp: cu usu)
    have "unat m + 12 + unat sz \<le> unat (mnext (hdrs ?h3 m))" using b L by (simp add: cu)
    then show ?thesis
      using True row3 mg3 us3 lf3 low3 ar3 used3 [of m] cu(2) unfolding mem_sizes Let_def mk
      by (intro exI [of _ "count_used (sz + 12) (upd_hdr m (\<lambda>b. b\<lparr>mused := 1\<rparr>) ?h1)"] exI [of _ "?b # ys"])
        (simp add: mk cu same_heap_def)
  next
    case False
    let ?n = "mnext (hdrs h m) - m"
    let ?h3 = "count_used ?n (mark 1 m h)"
    have row3: "heap_row ?h3 (xs @ m # ys)"
      using mark_row [OF r, of m 1] heap_row_cong [OF cu(1,2)] by simp
    have used3: "mused (hdrs ?h3 p) = (if p = m then 1 else mused (hdrs h p))" for p
      by (simp add: cu)
    have mg3: "merged (hdrs ?h3) (xs @ m # ys)"
    proof -
      have "merged (hdrs ?h3) xs = merged (hdrs h) xs" "merged (hdrs ?h3) ys = merged (hdrs h) ys"
        by (rule merged_cong; use A(4,5) used3 in auto)+
      then show ?thesis using mg by (auto simp: merged_append merged_Cons used3)
    qed
    have us3: "used_mem ?h3 = usage (hdrs ?h3) (xs @ m # ys)"
      using us f A(4,5) by (simp add: cu usage_append usu)
    have lf3: "lfree ?h3 = m \<or> lfree_ok ?h3 (xs @ m # ys)"
      using lf cu(2) by (auto simp: lfree_ok_def used3 cu(3) same_heap_def)
    have low3: "lowest_at h (xs @ m # ys) \<longrightarrow> lowest_at ?h3 (xs @ m # ys)"
      by (auto simp: lowest_at_def used3 cu(3))
    have ar3: "areas (hdrs ?h3) (xs @ m # ys) =
        insert (m + 12, mnext (hdrs ?h3 m)) (areas (hdrs h) (xs @ m # ys))"
      using f A(4,5) by (auto simp: cu usu)
    have "unat m + 12 + unat sz \<le> unat (mnext (hdrs ?h3 m))" using fit' B(1) by (simp add: cu)
    moreover have "mnext (hdrs (upd_hdr m (\<lambda>b. b\<lparr>mused := 1\<rparr>) h) m) = mnext (hdrs h m)" by (simp add: upd_hdr_def)
    ultimately show ?thesis
      using False row3 mg3 us3 lf3 low3 ar3 used3 [of m] cu(2) unfolding mem_sizes Let_def mk
      by (intro exI [of _ "count_used ?n (upd_hdr m (\<lambda>b. b\<lparr>mused := 1\<rparr>) h)"] exI [of _ ys])
        (simp add: mk cu same_heap_def)
  qed
qed

end
