(* ===== verification/Mem_Alloc.thy ===== *)
theory Mem_Alloc
  imports Mem
begin

text \<open>
  What \<^verbatim>\<open>rt_malloc\<close>, \<^verbatim>\<open>rt_free\<close> and \<^verbatim>\<open>rt_realloc\<close> of \<^verbatim>\<open>src/mem.c\<close> do to the set of areas that are handed
  out, on a heap whose row of blocks is intact; and the properties of the allocator.
\<close>

section \<open>Taking a block\<close>

lemma malloc_take_spec:
  assumes at: "heap_at h (xs @ m # ys)" and f: "mused (hdrs h m) = 0"
    and sz: "12 \<le> unat sz" "4 dvd unat sz" "unat sz \<le> unat (mem_size_aligned h)"
    and fit: "sz \<le> mnext (hdrs h m) - (m + 12)"
  shows "\<exists>h' os'. malloc_take sz m h = Some h' \<and> heap_at h' os' \<and> same_heap h h' \<and>
    (lowest_at h (xs @ m # ys) \<longrightarrow> lowest_at h' os') \<and>
    areas (hdrs h') os' = insert (m + 12, mnext (hdrs h' m)) (areas (hdrs h) (xs @ m # ys)) \<and>
    unat m + 12 + unat sz \<le> unat (mnext (hdrs h' m)) \<and> m \<in> set os'"
proof -
  let ?c = "if sz + SIZEOF_STRUCT_MEM + MIN_SIZE_ALIGNED \<le> mnext (hdrs h m) - (m + SIZEOF_STRUCT_MEM)
       then count_used (sz + SIZEOF_STRUCT_MEM)
         (upd_hdr m (\<lambda>b. b\<lparr>mused := 1\<rparr>) (split_block m (m + SIZEOF_STRUCT_MEM + sz) h))
       else let h = upd_hdr m (\<lambda>b. b\<lparr>mused := 1\<rparr>) h
            in count_used (mnext (hdrs h m) - m) h"
  define h3 where "h3 = upd_hdr m (\<lambda>b. b\<lparr>mmagic := HEAP_MAGIC\<rparr>) ?c"
  obtain zs where
    3: "same_heap h h3" "heap_row h3 (xs @ m # zs)" "merged (hdrs h3) (xs @ m # zs)"
      "used_mem h3 = usage (hdrs h3) (xs @ m # zs)" "mused (hdrs h3 m) = 1"
      "lfree h3 = m \<or> lfree_ok h3 (xs @ m # zs)"
      "lowest_at h (xs @ m # ys) \<longrightarrow> lowest_at h3 (xs @ m # zs)"
      "areas (hdrs h3) (xs @ m # zs) = insert (m + 12, mnext (hdrs h3 m)) (areas (hdrs h) (xs @ m # ys))"
      "unat m + 12 + unat sz \<le> unat (mnext (hdrs h3 m))"
    using malloc_cut [OF at f sz fit] unfolding h3_def Let_def by blast
  obtain l where l: "(if m = lfree h3 then do {
       h \<leftarrow> lfree_loop h3;
       RT_ASSERT (lfree h = heap_end h \<or> mused (hdrs h (lfree h)) = 0);
       Some h }
     else Some h3) = Some (h3\<lparr>lfree := l\<rparr>)" "lfree_ok (h3\<lparr>lfree := l\<rparr>) (xs @ m # zs)"
    "lowest_at h3 (xs @ m # zs) \<longrightarrow> lowest_at (h3\<lparr>lfree := l\<rparr>) (xs @ m # zs)"
    using lfree_step [OF 3(2) _ 3(6)] 3(5) by auto
  let ?h = "h3\<lparr>lfree := l\<rparr>"
  have at': "heap_at ?h (xs @ m # zs)"
    using l(2) 3(2,3,4) heap_row_cong [of ?h h3] by (simp add: heap_at_def same_heap_def)
  note B = heap_block [OF 3(2), of m, simplified]
  note D = heap_rowD [OF 3(2)]
  have "unat (heap_ptr h3 + m + 12 + sz) = unat (heap_ptr h3) + unat m + 12 + unat sz"
    using 3(9) B(2) D(6) by (simp add: unat_word_ariths)
  moreover have "unat (heap_ptr h3 + heap_end h3) = unat (heap_ptr h3) + unat (heap_end h3)"
    using D(6) by (simp add: unat_word_ariths)
  ultimately have a1: "heap_ptr h3 + m + 12 + sz \<le> heap_ptr h3 + heap_end h3"
    using 3(9) B(2) by (simp add: word_le_nat_alt)
  have "unat (heap_ptr h3 + m + 12) = unat (heap_ptr h3) + unat m + 12"
      "unat (heap_ptr h3 + m) = unat (heap_ptr h3) + unat m"
    using B(1,2) D(6) by (simp_all add: unat_word_ariths)
  then have "4 dvd unat (heap_ptr h3 + m + 12)" "4 dvd unat (heap_ptr h3 + m)"
    using D(7) B(8) by (auto intro!: dvd_add)
  then have a2: "(heap_ptr h3 + m + 12) mod 4 = 0" "(heap_ptr h3 + m) AND 3 = 0"
    using mod_zero low_zero by blast+
  have "malloc_take sz m h = Some ?h"
    unfolding malloc_take_def Let_def h3_def [symmetric, unfolded Let_def] l(1)
    using a1 a2 by simp
  then show ?thesis
    using at' 3(1,7,8,9) l(3) by (intro exI [of _ ?h] exI [of _ "xs @ m # zs"]) (simp add: same_heap_def)
qed

section \<open>Allocating\<close>

text \<open>The bytes that a request takes, and whether a block with that much room is found.\<close>

definition request :: "u32 \<Rightarrow> nat" where
  "request sz = (if sz = 0 then 0 else Orderings.max 12 ((unat sz + 3) div 4 * 4))"

definition has_room :: "heap \<Rightarrow> nat \<Rightarrow> bool" where
  "has_room h n \<longleftrightarrow> (\<exists>b \<in> set (heap_blocks h). mused (hdrs h b) = 0 \<and>
     unat b + 12 + n \<le> unat (mnext (hdrs h b)) \<and> unat b + n < unat (mem_size_aligned h))"

lemma suits_nat:
  assumes "heap_row h os" "b \<in> set os" "unat sz \<le> unat (mem_size_aligned h)"
  shows "suits sz h b \<longleftrightarrow> mused (hdrs h b) = 0 \<and> unat b + 12 + unat sz \<le> unat (mnext (hdrs h b)) \<and>
    unat b + unat sz < unat (mem_size_aligned h)"
proof -
  have "sz \<le> mem_size_aligned h" using assms(3) by (simp add: word_le_nat_alt)
  then show ?thesis
    using heap_block(1,7) [OF assms(1,2)] assms(3)
    by (auto simp: suits_def word_le_nat_alt word_less_nat_alt unat_sub)
qed

lemma find_skip: "\<forall>x \<in> set xs. \<not> P x \<Longrightarrow> find P (xs @ ys) = find P ys"
  by (induction xs) auto

text \<open>The search from \<^verbatim>\<open>lfree\<close> on.\<close>

lemma find_from_lfree:
  assumes at: "heap_at h os" and sz: "sz \<le> mem_size_aligned h"
  obtains xs bs where "os = xs @ bs" "malloc_find sz (lfree h) h = Some (find (suits sz h) bs)"
    "lowest_at h os \<longrightarrow> find (suits sz h) bs = find (suits sz h) os"
proof -
  note r = heap_atD(1) [OF at]
  note R = heap_rowD [OF r]
  have "mem_size_aligned h - sz \<le> mem_size_aligned h"
    using sz by (simp add: word_le_nat_alt unat_sub)
  then have "mem_size_aligned h - sz \<le> heap_end h" using R(5) by (simp add: word_le_nat_alt)
  note F = malloc_find_spec [OF _ this]
  have skip: "find (suits sz h) (xs @ bs) = find (suits sz h) bs"
    if "lowest_at h (xs @ bs)" "\<forall>x \<in> set xs. unat x < unat (lfree h)" for xs bs
    using that by (intro find_skip) (fastforce simp: lowest_at_def suits_def word_le_nat_alt)
  have below: "\<forall>x \<in> set xs. unat x < unat m" if "row (hdrs h) 0 xs m" for xs m
    using row_in(2,3) [OF that] by fastforce
  consider "lfree h = heap_end h" | xs ys where "os = xs @ lfree h # ys"
    using heap_atD(3) [OF at] split_list [of "lfree h" os] by (auto simp: lfree_ok_def)
  then show thesis
  proof cases
    case 1
    have "\<forall>x \<in> set os. unat x < unat (lfree h)" using below R(1) 1 by simp
    then show thesis using that [of os "[]"] skip [of os "[]"] F [of "lfree h" "[]"] 1 by simp
  next
    case 2
    then have "row (hdrs h) 0 xs (lfree h)" "row (hdrs h) (lfree h) (lfree h # ys) (heap_end h)"
      using R(1) by (auto simp: row_append)
    then show thesis
      using that [of xs "lfree h # ys"] F [of "lfree h" "lfree h # ys"] skip [of xs "lfree h # ys"] below 2
      by auto
  qed
qed

lemma mem_malloc_at:
  assumes at: "heap_at h os" and sz: "sz \<noteq> 0" "unat sz + 3 < 2 ^ 32"
  obtains (none) "mem_malloc sz h = Some (None, h)" "lowest_at h os \<longrightarrow> \<not> has_room h (request sz)"
    | (some) m h' os' where "mem_malloc sz h = Some (Some (m + 12), h')" "heap_at h' os'" "same_heap h h'"
       "lowest_at h os \<longrightarrow> lowest_at h' os'"
       "areas (hdrs h') os' = insert (m + 12, mnext (hdrs h' m)) (areas (hdrs h) os)"
       "unat m + 12 + request sz \<le> unat (mnext (hdrs h' m))" "m \<in> set os'" "m \<in> set os"
       "mused (hdrs h m) = 0" "has_room h (request sz)"
proof -
  note r = heap_atD(1) [OF at]
  note R = heap_rowD [OF r]
  have os: "heap_blocks h = os" by (rule heap_at_unique [OF r])
  let ?a = "RT_ALIGN sz RT_ALIGN_SIZE"
  have a: "unat ?a = (unat sz + 3) div 4 * 4" by (rule unat_align [OF sz(2)])
  define s where "s = (if ?a < MIN_SIZE_ALIGNED then MIN_SIZE_ALIGNED else ?a)"
  have s: "unat s = request sz" "4 dvd unat s" "12 \<le> unat s"
    using a sz(1) by (auto simp: s_def request_def word_less_nat_alt Orderings.max_def)
  show thesis
  proof (cases "mem_size_aligned h < ?a")
    case True
    have "unat (mem_size_aligned h) < request sz"
      using True a sz(1) by (auto simp: request_def word_less_nat_alt)
    then have "\<not> has_room h (request sz)" by (auto simp: has_room_def)
    moreover have "mem_malloc sz h = Some (None, h)" using True sz(1) by (simp add: mem_malloc_def Let_def)
    ultimately show thesis using none by simp
  next
    case False
    have "unat s \<le> unat (mem_size_aligned h)"
      using False R(8) by (auto simp: s_def word_less_nat_alt)
    then have sle: "s \<le> mem_size_aligned h" "unat s \<le> unat (mem_size_aligned h)"
      by (simp_all add: word_le_nat_alt)
    obtain xs bs where f: "os = xs @ bs" "malloc_find s (lfree h) h = Some (find (suits s h) bs)"
      "lowest_at h os \<longrightarrow> find (suits s h) bs = find (suits s h) os"
      by (rule find_from_lfree [OF at sle(1)])
    have call: "mem_malloc sz h = (case find (suits s h) bs of
        None \<Rightarrow> Some (None, h)
      | Some ptr \<Rightarrow> do { h \<leftarrow> malloc_take s ptr h; Some (Some (ptr + 12), h) })"
      using False sz(1) f(2) unfolding mem_malloc_def Let_def s_def [symmetric] by simp
    have room: "has_room h (request sz) \<longleftrightarrow> (\<exists>b \<in> set os. suits s h b)"
      using suits_nat [OF r _ sle(2)] by (auto simp: has_room_def os s(1))
    show thesis
    proof (cases "find (suits s h) bs")
      case None
      then have "lowest_at h os \<longrightarrow> \<not> has_room h (request sz)"
        using f(3) room by (metis find_None_iff)
      then show thesis using none call None by simp
    next
      case (Some m)
      then obtain us vs where m: "os = (xs @ us) @ m # vs" "suits s h m"
        using find_split f(1) by (metis append.assoc)
      have "mused (hdrs h m) = 0" "s \<le> mnext (hdrs h m) - (m + 12)" using m(2) by (simp_all add: suits_def)
      from malloc_take_spec [OF at [unfolded m(1)] this(1) s(3,2) sle(2) this(2)]
      obtain h' os' where "malloc_take s m h = Some h'" "heap_at h' os'" "same_heap h h'"
          "lowest_at h os \<longrightarrow> lowest_at h' os'"
          "areas (hdrs h') os' = insert (m + 12, mnext (hdrs h' m)) (areas (hdrs h) os)"
          "unat m + 12 + request sz \<le> unat (mnext (hdrs h' m))" "m \<in> set os'"
        unfolding m(1) [symmetric] s(1) by blast
      moreover have "has_room h (request sz) \<and> m \<in> set os \<and> mused (hdrs h m) = 0"
        using m room by (auto simp: suits_def)
      ultimately show thesis using some call Some by simp
    qed
  qed
qed

section \<open>Freeing\<close>

lemma areas_remove:
  assumes r: "heap_row h os" and m: "m \<in> set os" "mused (hdrs h m) \<noteq> 0"
  shows "areas (hdrs (mark 0 m h)) os = areas (hdrs h) os - {(m + 12, mnext (hdrs h m))}"
  using m by (auto simp: areas_def)

lemma mem_free_at:
  assumes at: "heap_at h os" and m: "m \<in> set os" "mused (hdrs h m) \<noteq> 0"
  shows "\<exists>h' os'. mem_free (Some (m + 12)) h = Some h' \<and> heap_at h' os' \<and> same_heap h h' \<and>
    (lowest_at h os \<longrightarrow> lowest_at h' os') \<and>
    areas (hdrs h') os' = areas (hdrs h) os - {(m + 12, mnext (hdrs h m))}"
proof -
  note r = heap_atD(1) [OF at]
  note B = heap_block [OF r m(1)] and R = heap_rowD [OF r]
  obtain xs ys where os: "os = xs @ m # ys" using split_list [OF m(1)] by blast
  note A = row_around [OF R(1) [unfolded os]]
  define h1 where "h1 = mark 0 m h"
  define l where "l = (if m < lfree h then m else lfree h)"
  define h2 where "h2 = h1\<lparr>lfree := l, used_mem := used_mem h - (mnext (hdrs h m) - m)\<rparr>"
  have h2: "same_heap h h2" "hdrs h2 = hdrs h1" "lfree h2 = l"
    "used_mem h2 = used_mem h - (mnext (hdrs h m) - m)"
    by (simp_all add: h2_def h1_def same_heap_def)
  have r2: "heap_row h2 (xs @ m # ys)"
    using mark_row [OF r m(1), of 0] heap_row_cong [of h2 "mark 0 m h" os] h2 os
    by (simp add: h1_def same_heap_def)
  have u2: "mused (hdrs h2 p) = (if p = m then 0 else mused (hdrs h p))" for p by (simp add: h2 h1_def)
  have "merged (hdrs h) xs" "merged (hdrs h) ys"
    using heap_atD(2) [OF at] by (auto simp: os merged_append merged_Cons)
  moreover have "merged (hdrs h2) xs = merged (hdrs h) xs" "merged (hdrs h2) ys = merged (hdrs h) ys"
    by (rule merged_cong; use A(4,5) u2 in auto)+
  ultimately obtain h' os' where p: "plug_holes m h2 = Some h'" "tidied h2 os h' os'" "merged (hdrs h') os'"
    using plug_holes_spec [OF r2] u2 [of m] os by auto
  have "unat (heap_ptr h + (m + 12)) = unat (heap_ptr h) + (unat m + 12)"
    using B(1,2,6) R(6) by (simp add: unat_word_ariths)
  then have "4 dvd unat (heap_ptr h + (m + 12))" using R(7) B(8) by (auto intro!: dvd_add)
  then have a1: "(heap_ptr h + (m + 12)) AND 3 = 0" by (rule low_zero)
  have a2: "m + 12 < heap_end h" using B(1,2,6) by (simp add: word_less_nat_alt)
  have call: "mem_free (Some (m + 12)) h = Some h'"
    using a1 a2 m(2) B(9) p(1)
    by (simp add: mem_free_def Let_def h2_def h1_def l_def mark_def upd_hdr_def split: if_splits)
  have us: "used_mem h = usage (hdrs h) os" and lf: "lfree_ok h os" using heap_atD [OF at] by simp_all
  have "usage (hdrs h2) xs = usage (hdrs h) xs" "usage (hdrs h2) ys = usage (hdrs h) ys"
    by (rule usage_cong; use A(4,5) in \<open>auto simp: h2 h1_def\<close>)+
  then have us2: "used_mem h2 = usage (hdrs h2) os"
    using us m(2) by (simp add: h2(4) os usage_append u2)
  have lf2: "lfree_ok h2 os" using lf m(1) h2(1) by (auto simp: lfree_ok_def u2 h2(3) l_def same_heap_def)
  have low2: "lowest_at h os \<longrightarrow> lowest_at h2 os"
    by (auto simp: lowest_at_def u2 h2(3) l_def split: if_splits dest!: bspec)
  have "areas (hdrs h2) os = areas (hdrs h) os - {(m + 12, mnext (hdrs h m))}"
    using areas_remove [OF r m] by (simp add: h2(2) h1_def)
  then show ?thesis
    using call p(2,3) us2 lf2 low2 h2(1)
    by (intro exI [of _ h'] exI [of _ os']) (simp add: heap_at_def tidied_def same_heap_def)
qed

text \<open>The header of a freed block stays in memory as that of a free block, also when the block has
  been joined to the one in front.\<close>

lemma mem_free_unused:
  assumes "mem_free (Some p) h = Some h'"
  shows "mem_free (Some p) h' = None"
proof -
  have "mused (hdrs h' (p - 12)) = 0"
    using assms by (auto simp: mem_free_def plug_holes_def Let_def upd_hdr_def RT_ASSERT_bind split: if_splits)
  then show ?thesis by (simp add: mem_free_def RT_ASSERT_bind)
qed

section \<open>Areas\<close>

lemma areas_disjoint:
  assumes r: "heap_row h os" and in1: "(p, e) \<in> areas (hdrs h) os" and in2: "(q, f) \<in> areas (hdrs h) os"
    and ne: "p \<noteq> q"
  shows "unat e + 12 \<le> unat q \<or> unat f + 12 \<le> unat p"
proof -
  obtain b c where b: "b \<in> set os" "p = b + 12" "e = mnext (hdrs h b)"
    and c: "c \<in> set os" "q = c + 12" "f = mnext (hdrs h c)"
    using in1 in2 by (auto simp: areas_def)
  obtain xs ys where os: "os = xs @ b # ys" using split_list [OF b(1)] by blast
  note A = row_around [OF heap_rowD(1) [OF r, unfolded os]]
  have "c \<in> set xs \<or> c \<in> set ys" using c(1,2) b(2) ne os by auto
  then have "unat f \<le> unat b \<or> unat e \<le> unat c"
    using row_in(3) [OF A(1), of c] row_in(1) [OF A(2), of c] c(3) b(3) by auto
  then show ?thesis using heap_block(6) [OF r b(1)] heap_block(6) [OF r c(1)] b(2) c(2) by auto
qed

lemma areas_in:
  assumes r: "heap_row h os" and i: "(p, e) \<in> areas (hdrs h) os"
  shows "unat p + 12 \<le> unat e" "unat e \<le> unat (heap_end h)" "4 dvd unat (heap_ptr h + p)"
    "p - 12 \<in> set os" "mused (hdrs h (p - 12)) \<noteq> 0" "mnext (hdrs h (p - 12)) = e"
proof -
  obtain b where b: "b \<in> set os" "p = b + 12" "e = mnext (hdrs h b)" "mused (hdrs h b) \<noteq> 0"
    using i by (auto simp: areas_def)
  note B = heap_block [OF r b(1)] and R = heap_rowD [OF r]
  show "unat p + 12 \<le> unat e" "unat e \<le> unat (heap_end h)" using B b(2,3) by simp_all
  have "unat (heap_ptr h + (b + 12)) = unat (heap_ptr h) + (unat b + 12)"
    using B(1,2,6) R(6) by (simp add: unat_word_ariths)
  then show "4 dvd unat (heap_ptr h + p)" using R(7) B(8) b(2) by (auto intro!: dvd_add)
  show "p - 12 \<in> set os" "mused (hdrs h (p - 12)) \<noteq> 0" "mnext (hdrs h (p - 12)) = e" using b by simp_all
qed

section \<open>Reallocating\<close>

text \<open>The remainder of a block that shrinks becomes a free block.\<close>

lemma shrink_at:
  assumes at: "heap_at h os" and m: "m \<in> set os" "mused (hdrs h m) \<noteq> 0"
    and a: "12 \<le> unat a" "4 dvd unat a" "unat m + 12 + unat a + 24 < unat (mnext (hdrs h m))"
  shows "\<exists>h' os'. plug_holes (m + 12 + a) (split_block m (m + 12 + a)
       (h\<lparr>used_mem := used_mem h - (mnext (hdrs h m) - m - 12 - a)\<rparr>)) = Some h' \<and>
     heap_at h' os' \<and> same_heap h h' \<and> areas (hdrs h') os' =
       insert (m + 12, m + 12 + a) (areas (hdrs h) os - {(m + 12, mnext (hdrs h m))})"
proof -
  note r = heap_atD(1) [OF at]
  obtain xs ys where os: "os = xs @ m # ys" using split_list [OF m(1)] by blast
  note R = heap_rowD [OF r] and B = heap_block [OF r m(1)]
  note A = row_around [OF R(1) [unfolded os]]
  let ?b = "m + 12 + a"
  define h1 where "h1 = h\<lparr>used_mem := used_mem h - (mnext (hdrs h m) - m - 12 - a)\<rparr>"
  have h1: "hdrs h1 = hdrs h" "same_heap h h1" "lfree h1 = lfree h" by (simp_all add: h1_def same_heap_def)
  have r1: "heap_row h1 (xs @ m # ys)" using r heap_row_cong [OF h1(1,2)] os by simp
  have b: "unat ?b = unat m + 12 + unat a" using a(3) B(2) R(6) by (simp add: unat_word_ariths)
  have b3: "unat m + 24 \<le> unat ?b" "unat ?b + 24 \<le> unat (mnext (hdrs h1 m))" "4 dvd unat ?b"
    using a B(8) b by (simp_all add: dvd_add h1)
  note S = split_row [OF r1 b3] split_rest [OF r1 b3]
  let ?h2 = "split_block m ?b h1"
  have ne: "m \<noteq> ?b" "mnext (hdrs h1 m) \<noteq> ?b" "?b \<notin> set xs" "?b \<notin> set ys" using S(2) b3 by auto
  note L = split_links [OF ne(1,2)]
  have "merged (hdrs ?h2) (xs @ [m]) = merged (hdrs h) (xs @ [m])" "merged (hdrs ?h2) ys = merged (hdrs h) ys"
    by (rule merged_cong; use A(4,5) ne L in \<open>auto simp: h1\<close>)+
  then have mg: "merged (hdrs ?h2) (xs @ [m])" "merged (hdrs ?h2) ys"
    using heap_atD(2) [OF at] m(2) by (auto simp: os merged_append merged_Cons)
  obtain h' os' where p: "plug_holes ?b ?h2 = Some h'" "tidied ?h2 ((xs @ [m]) @ ?b # ys) h' os'"
      "merged (hdrs h') os'"
    using plug_holes_spec [of ?h2 "xs @ [m]" ?b ys] S(1) mg L by auto
  have us: "used_mem h = usage (hdrs h) os" and lf: "lfree_ok h os" using heap_atD [OF at] by simp_all
  have "used_mem ?h2 = usage (hdrs ?h2) ((xs @ [m]) @ ?b # ys)"
    using us m(2) ne L S(3,4) by (simp add: os usage_append h1 h1_def)
  moreover have "lfree_ok ?h2 ((xs @ [m]) @ ?b # ys)"
    using lf ne L by (auto simp: lfree_ok_def os h1 h1_def)
  moreover have "(m + 12, mnext (hdrs h m)) \<notin> areas (hdrs h) (xs @ ys)"
    using A(4,5) by (auto simp: areas_def)
  then have "areas (hdrs ?h2) ((xs @ [m]) @ ?b # ys) =
      insert (m + 12, ?b) (areas (hdrs h) os - {(m + 12, mnext (hdrs h m))})"
    using S(5) m(2) by (auto simp: h1 os)
  ultimately show ?thesis
    using p h1(2) unfolding h1_def [symmetric]
    by (intro exI [of _ h'] exI [of _ os']) (simp add: heap_at_def tidied_def same_heap_def)
qed

text \<open>Allocating elsewhere, and freeing the old block.\<close>

lemma move_at:
  assumes at: "heap_at h os" and m: "m \<in> set os" "mused (hdrs h m) \<noteq> 0"
    and a: "a \<noteq> 0" "unat a + 3 < 2 ^ 32"
  shows "mem_malloc a h = Some (None, h) \<or>
    (\<exists>q e h1 h' os'. mem_malloc a h = Some (Some q, h1) \<and> mem_free (Some (m + 12)) h1 = Some h' \<and>
       heap_at h' os' \<and> same_heap h h' \<and>
       areas (hdrs h') os' = insert (q, e) (areas (hdrs h) os - {(m + 12, mnext (hdrs h m))}) \<and>
       unat q + request a \<le> unat e \<and> q \<notin> fst ` areas (hdrs h) os \<and>
       (unat e + 12 \<le> unat (m + 12) \<or> unat (mnext (hdrs h m)) + 12 \<le> unat q))"
proof (cases rule: mem_malloc_at [OF at a, case_names none some])
  case (some c h1 os1)
  note 1 = some(1,2,3,5-9)
  note r1 = heap_atD(1) [OF 1(2)]
  have ne: "c \<noteq> m" using 1(8) m(2) by auto
  have i: "(m + 12, mnext (hdrs h m)) \<in> areas (hdrs h) os" using m by (auto simp: areas_def)
  then have i1: "(m + 12, mnext (hdrs h m)) \<in> areas (hdrs h1) os1" using 1(4) by simp
  have m1: "m \<in> set os1" "mused (hdrs h1 m) \<noteq> 0" "mnext (hdrs h1 m) = mnext (hdrs h m)"
    using areas_in(4-6) [OF r1 i1] by simp_all
  obtain h' os' where 2: "mem_free (Some (m + 12)) h1 = Some h'" "heap_at h' os'" "same_heap h1 h'"
      "areas (hdrs h') os' = areas (hdrs h1) os1 - {(m + 12, mnext (hdrs h m))}"
    using mem_free_at [OF 1(2) m1(1,2)] m1(3) by auto
  have "areas (hdrs h') os' = insert (c + 12, mnext (hdrs h1 c)) (areas (hdrs h) os - {(m + 12, mnext (hdrs h m))})"
    using 2(4) 1(4) ne by auto
  moreover have "unat (mnext (hdrs h1 c)) + 12 \<le> unat (m + 12) \<or> unat (mnext (hdrs h m)) + 12 \<le> unat (c + 12)"
    using areas_disjoint [OF r1, of "c + 12" "mnext (hdrs h1 c)" "m + 12"] 1(4) i1 ne by auto
  moreover have "c + 12 \<notin> fst ` areas (hdrs h) os" using some(9) by (auto simp: areas_def)
  ultimately show ?thesis
    using 1(1,3,5) 2(1,2,3) heap_block(6) [OF r1 1(6)]
    by (intro disjI2 exI [of _ "c + 12"] exI [of _ "mnext (hdrs h1 c)"] exI [of _ h1] exI [of _ h'] exI [of _ os'])
      (simp add: same_heap_def)
qed simp

end
