(* ===== verification/Allocator.thy ===== *)
theory Allocator
  imports Prelude
begin

text \<open>
  What the allocators of the kernel promise their clients, and what follows for a sequence of
  requests.  The locale \<open>allocator\<close> is interpreted by the small memory allocator (\<open>Mem_Props\<close>) and
  by the memory heaps (\<open>Memheap_Props\<close>).
\<close>

section \<open>Requests\<close>

text \<open>A client asks for an area, gives its \<open>k\<close>-th area back, or asks for another size of its \<open>k\<close>-th
  area.  The state of the client is the list of the areas it holds.\<close>

datatype 'z request = Ask 'z | Give nat | Change nat 'z

definition without :: "nat \<Rightarrow> 'a list \<Rightarrow> 'a list" where
  "without k hs = take k hs @ drop (Suc k) hs"

fun serve ::
  "('z \<Rightarrow> 's \<Rightarrow> ('a option \<times> 's) option) \<Rightarrow> ('a \<Rightarrow> 's \<Rightarrow> 's option) \<Rightarrow> ('a \<Rightarrow> 'z \<Rightarrow> 's \<Rightarrow> ('a option \<times> 's) option) \<Rightarrow>
    'z request \<Rightarrow> 'a list \<times> 's \<Rightarrow> ('a list \<times> 's) option" where
  "serve al de re (Ask z) (hs, s) = do {
     (r, s) \<leftarrow> al z s;
     Some (case r of None \<Rightarrow> hs | Some p \<Rightarrow> p # hs, s)
   }"
| "serve al de re (Give k) (hs, s) =
     (if k < length hs then do { s \<leftarrow> de (hs ! k) s; Some (without k hs, s) } else Some (hs, s))"
| "serve al de re (Change k z) (hs, s) =
     (if k < length hs then do {
        (r, s) \<leftarrow> re (hs ! k) z s;
        Some (case r of None \<Rightarrow> hs | Some p \<Rightarrow> p # without k hs, s)
      } else Some (hs, s))"

fun serve_all ::
  "('z \<Rightarrow> 's \<Rightarrow> ('a option \<times> 's) option) \<Rightarrow> ('a \<Rightarrow> 's \<Rightarrow> 's option) \<Rightarrow> ('a \<Rightarrow> 'z \<Rightarrow> 's \<Rightarrow> ('a option \<times> 's) option) \<Rightarrow>
    'z request list \<Rightarrow> 'a list \<times> 's \<Rightarrow> ('a list \<times> 's) option" where
  "serve_all al de re [] c = Some c"
| "serve_all al de re (r # rs) c = do { c \<leftarrow> serve al de re r c; serve_all al de re rs c }"

text \<open>The sizes of the requests are among those the contract is about.\<close>

fun sized :: "('z \<Rightarrow> bool) \<Rightarrow> ('z \<Rightarrow> bool) \<Rightarrow> 'z request \<Rightarrow> bool" where
  "sized f g (Ask z) = f z"
| "sized f g (Give k) = True"
| "sized f g (Change k z) = g z"

lemma set_without: "distinct hs \<Longrightarrow> k < length hs \<Longrightarrow> set (without k hs) = set hs - {hs ! k}"
proof -
  assume d: "distinct hs" and k: "k < length hs"
  have hs: "hs = take k hs @ hs ! k # drop (Suc k) hs" by (rule id_take_nth_drop [OF k])
  have "distinct (take k hs @ hs ! k # drop (Suc k) hs)" using d hs by simp
  then have "hs ! k \<notin> set (without k hs)" by (auto simp: without_def)
  moreover have "set hs = insert (hs ! k) (set (without k hs))"
    by (subst hs) (simp add: without_def)
  ultimately show ?thesis by simp
qed

lemma distinct_without: "distinct hs \<Longrightarrow> distinct (without k hs)"
  by (auto simp: without_def dest: set_take_disj_set_drop_if_distinct [of hs k "Suc k"])

section \<open>The contract\<close>

text \<open>\<open>areas\<close> are the pairs of the first address and the end that are handed out, \<open>shape\<close> is what no
  request changes.\<close>

locale allocator =
  fixes al :: "'z \<Rightarrow> 's \<Rightarrow> ('a option \<times> 's) option" and de :: "'a \<Rightarrow> 's \<Rightarrow> 's option"
    and re :: "'a \<Rightarrow> 'z \<Rightarrow> 's \<Rightarrow> ('a option \<times> 's) option"
    and areas :: "'s \<Rightarrow> ('a \<times> 'a) set" and wf :: "'s \<Rightarrow> bool" and shape :: "'s \<Rightarrow> 'g"
    and fits :: "'z \<Rightarrow> bool" and refits :: "'z \<Rightarrow> bool" and apart :: "'a \<times> 'a \<Rightarrow> 'a \<times> 'a \<Rightarrow> bool"
  assumes areas_apart: "wf s \<Longrightarrow> a \<in> areas s \<Longrightarrow> b \<in> areas s \<Longrightarrow> fst a = fst b \<and> a = b \<or> fst a \<noteq> fst b \<and> apart a b"
    and al_ok: "wf s \<Longrightarrow> fits z \<Longrightarrow>
      \<exists>r s'. al z s = Some (r, s') \<and> wf s' \<and> shape s' = shape s \<and>
        (case r of None \<Rightarrow> areas s' = areas s
         | Some p \<Rightarrow> p \<notin> fst ` areas s \<and> (\<exists>e. areas s' = insert (p, e) (areas s)))"
    and de_ok: "wf s \<Longrightarrow> (p, e) \<in> areas s \<Longrightarrow>
      \<exists>s'. de p s = Some s' \<and> wf s' \<and> shape s' = shape s \<and> areas s' = areas s - {(p, e)}"
    and re_ok: "wf s \<Longrightarrow> (p, e) \<in> areas s \<Longrightarrow> refits z \<Longrightarrow>
      \<exists>r s'. re p z s = Some (r, s') \<and> wf s' \<and> shape s' = shape s \<and>
        (case r of None \<Rightarrow> areas s' = areas s
         | Some q \<Rightarrow> q \<notin> fst ` (areas s - {(p, e)}) \<and> (\<exists>f. areas s' = insert (q, f) (areas s - {(p, e)})))"
begin

text \<open>The client holds exactly the areas that are handed out.\<close>

definition holds :: "'a list \<Rightarrow> 's \<Rightarrow> bool" where
  "holds hs s \<longleftrightarrow> wf s \<and> distinct hs \<and> fst ` areas s = set hs"

lemma named: "wf s \<Longrightarrow> (p, e) \<in> areas s \<Longrightarrow> fst ` (areas s - {(p, e)}) = fst ` areas s - {p}"
  using areas_apart [of s] by (force simp: image_iff)

lemma serve_ok:
  assumes h: "holds hs s" and z: "sized fits refits r"
  shows "\<exists>hs' s'. serve al de re r (hs, s) = Some (hs', s') \<and> holds hs' s' \<and> shape s' = shape s"
proof (cases r)
  case (Ask z)
  obtain x s' where a: "al z s = Some (x, s')" "wf s'" "shape s' = shape s"
    "case x of None \<Rightarrow> areas s' = areas s
     | Some p \<Rightarrow> p \<notin> fst ` areas s \<and> (\<exists>e. areas s' = insert (p, e) (areas s))"
    using al_ok [of s z] h z by (auto simp: holds_def Ask)
  have "holds (case x of None \<Rightarrow> hs | Some p \<Rightarrow> p # hs) s'"
  proof (cases x)
    case None
    then show ?thesis using a(2,4) h by (simp add: holds_def)
  next
    case (Some p)
    then obtain e where "p \<notin> set hs" "areas s' = insert (p, e) (areas s)" using a(4) h by (auto simp: holds_def)
    then show ?thesis using Some a(2) h by (simp add: holds_def)
  qed
  then show ?thesis using a(1,3) by (simp add: Ask)
next
  case (Give k)
  show ?thesis
  proof (cases "k < length hs")
    case True
    then obtain e where e: "(hs ! k, e) \<in> areas s" using h nth_mem [OF True] by (force simp: holds_def)
    have w: "wf s" "distinct hs" using h by (simp_all add: holds_def)
    obtain s' where d: "de (hs ! k) s = Some s'" "wf s'" "shape s' = shape s" "areas s' = areas s - {(hs ! k, e)}"
      using de_ok [OF w(1) e] by blast
    have "holds (without k hs) s'"
      using h d(2,4) named [OF w(1) e] set_without [OF w(2) True] distinct_without [OF w(2)]
      by (simp add: holds_def)
    then show ?thesis using True d(1,3) by (simp add: Give)
  qed (use h Give in simp)
next
  case (Change k z)
  show ?thesis
  proof (cases "k < length hs")
    case True
    then obtain e where e: "(hs ! k, e) \<in> areas s" using h nth_mem [OF True] by (force simp: holds_def)
    have w: "wf s" "distinct hs" "refits z" using h z by (simp_all add: holds_def Change)
    obtain x s' where d: "re (hs ! k) z s = Some (x, s')" "wf s'" "shape s' = shape s"
      "case x of None \<Rightarrow> areas s' = areas s
       | Some q \<Rightarrow> q \<notin> fst ` (areas s - {(hs ! k, e)}) \<and>
           (\<exists>f. areas s' = insert (q, f) (areas s - {(hs ! k, e)}))"
      using re_ok [OF w(1) e w(3)] by blast
    have n: "fst ` (areas s - {(hs ! k, e)}) = set (without k hs)"
      using named [OF w(1) e] h set_without [OF w(2) True] by (simp add: holds_def)
    have "holds (case x of None \<Rightarrow> hs | Some p \<Rightarrow> p # without k hs) s'"
    proof (cases x)
      case None
      then show ?thesis using d(2,4) h by (simp add: holds_def)
    next
      case (Some q)
      then obtain f where "q \<notin> set (without k hs)" "areas s' = insert (q, f) (areas s - {(hs ! k, e)})"
        using d(4) n by auto
      then show ?thesis using Some d(2) n distinct_without [OF w(2)] by (simp add: holds_def)
    qed
    then show ?thesis using True d(1,3) by (simp add: Change)
  qed (use h Change in simp)
qed

text \<open>No request of a client that holds what is handed out can fail, and the areas of the clients stay
  apart.\<close>

lemma serve_all_ok:
  "holds hs s \<Longrightarrow> \<forall>r \<in> set rs. sized fits refits r \<Longrightarrow>
    \<exists>hs' s'. serve_all al de re rs (hs, s) = Some (hs', s') \<and> holds hs' s' \<and> shape s' = shape s"
proof (induction rs arbitrary: hs s)
  case (Cons r rs)
  obtain h1 s1 where 1: "serve al de re r (hs, s) = Some (h1, s1)" "holds h1 s1" "shape s1 = shape s"
    using serve_ok [OF Cons.prems(1), of r] Cons.prems(2) by auto
  obtain hs' s' where "serve_all al de re rs (h1, s1) = Some (hs', s')" "holds hs' s'" "shape s' = shape s1"
    using Cons.IH [OF 1(2)] Cons.prems(2) by auto
  then show ?case using 1 by simp
qed simp

lemma requests_ok:
  assumes "wf s" "areas s = {}" "\<forall>r \<in> set rs. sized fits refits r"
  shows "\<exists>hs s'. serve_all al de re rs ([], s) = Some (hs, s') \<and> wf s' \<and> shape s' = shape s \<and>
    distinct hs \<and> fst ` areas s' = set hs \<and> (\<forall>a \<in> areas s'. \<forall>b \<in> areas s'. a \<noteq> b \<longrightarrow> apart a b)"
proof -
  obtain hs s' where r: "serve_all al de re rs ([], s) = Some (hs, s')" "holds hs s'" "shape s' = shape s"
    using serve_all_ok [of "[]" s rs] assms by (auto simp: holds_def)
  moreover have "\<forall>a \<in> areas s'. \<forall>b \<in> areas s'. a \<noteq> b \<longrightarrow> apart a b"
    using areas_apart [of s'] r(2) unfolding holds_def by blast
  ultimately show ?thesis by (auto simp: holds_def)
qed

end

end
