(* ===== verification/Mem_Props.thy ===== *)
theory Mem_Props
  imports Mem_Alloc Allocator
begin

text \<open>
  The properties of the allocator of \<^verbatim>\<open>src/mem.c\<close>: what the initialisation sets up, and what
  \<^verbatim>\<open>rt_malloc\<close>, \<^verbatim>\<open>rt_free\<close> and \<^verbatim>\<open>rt_realloc\<close> do to the areas that are handed out.
\<close>

section \<open>Any heap\<close>

lemma heap_okD: "heap_ok h \<Longrightarrow> heap_at h (heap_blocks h)"
  by (simp add: heap_ok_def)

lemma at_views:
  assumes "heap_at h os"
  shows "areas (hdrs h) os = allocated h" "lowest_at h os = lowest h"
  using heap_at_views [OF assms] by simp_all

lemma allocatedD:
  assumes "heap_ok h" "(p, e) \<in> allocated h"
  shows "p - 12 \<in> set (heap_blocks h)" "mused (hdrs h (p - 12)) \<noteq> 0" "mnext (hdrs h (p - 12)) = e"
    "unat p + 12 \<le> unat e" "unat e \<le> unat (heap_end h)" "4 dvd unat (heap_ptr h + p)"
  using areas_in [OF heap_atD(1) [OF heap_okD [OF assms(1)]], of p e] assms(2)
  by (simp_all add: allocated_def)

section \<open>Concrete heaps\<close>

text \<open>A heap of 256 bytes, and what it looks like after one and two calls of \<^verbatim>\<open>rt_malloc\<close>.\<close>

definition heap0 :: heap where
  "heap0 = rt_system_heap_init 0x80010000 0x80010100
     \<lparr>heap_ptr = 0, heap_end = 0, lfree = 0, mem_size_aligned = 0, used_mem = 0, max_mem = 0,
      hdrs = (\<lambda>_. \<lparr>mmagic = 0, mused = 0, mnext = 0, mprev = 0\<rparr>)\<rparr>"

definition heap1 :: heap where
  "heap1 = heap0\<lparr>lfree := 44, used_mem := 44, max_mem := 44,
     hdrs := (hdrs heap0)(0 := \<lparr>mmagic = HEAP_MAGIC, mused = 1, mnext = 44, mprev = 0\<rparr>,
       44 := \<lparr>mmagic = HEAP_MAGIC, mused = 0, mnext = 244, mprev = 0\<rparr>)\<rparr>"

definition heap2 :: heap where
  "heap2 = heap1\<lparr>lfree := 68, used_mem := 68, max_mem := 68,
     hdrs := (hdrs heap1)(44 := \<lparr>mmagic = HEAP_MAGIC, mused = 1, mnext = 68, mprev = 0\<rparr>,
       68 := \<lparr>mmagic = HEAP_MAGIC, mused = 0, mnext = 244, mprev = 44\<rparr>)\<rparr>"

lemma heap0_eq:
  "heap0 = \<lparr>heap_ptr = 0x80010000, heap_end = 244, lfree = 0, mem_size_aligned = 232, used_mem = 0,
     max_mem = 0, hdrs = (\<lambda>_. \<lparr>mmagic = 0, mused = 0, mnext = 0, mprev = 0\<rparr>)
       (0 := \<lparr>mmagic = HEAP_MAGIC, mused = 0, mnext = 244, mprev = 0\<rparr>,
        244 := \<lparr>mmagic = HEAP_MAGIC, mused = 1, mnext = 244, mprev = 244\<rparr>)\<rparr>"
  by (simp add: heap0_def rt_system_heap_init_def RT_ALIGN_def RT_ALIGN_DOWN_def Let_def)

lemmas heap_demo_defs = heap1_def heap2_def heap0_eq

lemma heap_at_demo: "heap_at heap0 [0]" "heap_at heap1 [0, 44]" "heap_at heap2 [0, 44, 68]"
  by (simp_all add: heap_demo_defs heap_at_def heap_row_def lfree_ok_def)

lemma lowest_demo: "lowest heap0" "lowest heap1" "lowest heap2"
  using heap_at_demo [THEN heap_at_views(3)] by (simp_all add: lowest_at_def heap_demo_defs)

lemma allocated_demo: "allocated heap0 = {}" "allocated heap1 = {(12, 44)}" "allocated heap2 = {(12, 44), (56, 68)}"
  using heap_at_demo [THEN heap_at_views(2)] by (auto simp: heap_demo_defs)

lemma malloc_demo: "mem_malloc 30 heap0 = Some (Some 12, heap1)" "mem_malloc 8 heap1 = Some (Some 56, heap2)"
  by (simp_all add: mem_malloc_def heap_demo_defs Let_def RT_ALIGN_def malloc_find.simps lfree_loop.simps
    malloc_take_def split_block_def upd_hdr_def count_used_def fun_eq_iff)

section \<open>The properties\<close>

lemma heap_init_spec:
  fixes a b :: u32
  defines "p \<equiv> RT_ALIGN a RT_ALIGN_SIZE" and "q \<equiv> RT_ALIGN_DOWN b RT_ALIGN_SIZE"
  assumes a: "unat a + 3 < 2 ^ 32" and room: "unat p + 36 \<le> unat q" and u: "used_mem h = 0"
  shows "heap_ok (rt_system_heap_init a b h) \<and> lowest (rt_system_heap_init a b h) \<and>
    allocated (rt_system_heap_init a b h) = {} \<and> heap_ptr (rt_system_heap_init a b h) = p \<and>
    unat p + unat (heap_end (rt_system_heap_init a b h)) + 12 = unat q \<and>
    (has_room (rt_system_heap_init a b h) n \<longleftrightarrow> n < unat (mem_size_aligned (rt_system_heap_init a b h)))"
proof -
  let ?h = "rt_system_heap_init a b h"
  let ?s = "q - p - 24"
  have p4: "4 dvd unat p" unfolding p_def unat_align [OF a] by simp
  have "q = b AND NOT 3" by (simp add: q_def RT_ALIGN_DOWN_def)
  then have q4: "4 dvd unat q" using unat_clear_low [of b] by (simp add: minus_mod_eq_div_mult)
  have "unat (q - p) = unat q - unat p" using room by (simp add: unat_sub word_le_nat_alt)
  moreover from this have "24 \<le> q - p" using room by (simp add: word_le_nat_alt)
  ultimately have s: "unat ?s = unat q - unat p - 24" by (simp add: unat_sub)
  have s4: "4 dvd unat ?s" unfolding s by (intro dvd_diff_nat p4 q4) simp
  have q32: "unat q < 2 ^ 32" using unsigned_less [of q] by simp
  have e: "unat (?s + 12) = unat ?s + 12"
    using s room q32 by (subst unat_add_lem [THEN iffD1]) simp_all
  have "unat (q - 24) = unat q - 24" using room by (simp add: unat_sub word_le_nat_alt)
  then have c: "24 < q" "p \<le> q - 24" using room by (simp_all add: word_le_nat_alt word_less_nat_alt)
  have h: "?h = h\<lparr>heap_ptr := p, mem_size_aligned := ?s, heap_end := ?s + 12, lfree := 0,
      hdrs := (hdrs h)(0 := \<lparr>mmagic = HEAP_MAGIC, mused = 0, mnext = ?s + 12, mprev = 0\<rparr>,
        ?s + 12 := \<lparr>mmagic = HEAP_MAGIC, mused = 1, mnext = ?s + 12, mprev = ?s + 12\<rparr>)\<rparr>"
    using c by (simp add: rt_system_heap_init_def Let_def p_def q_def)
  have ne: "?s + 12 \<noteq> 0" using e by auto
  have "12 \<le> unat ?s" using s room by simp
  then have at: "heap_at ?h [0]"
    using ne e s s4 p4 room u q32
    by (simp add: h heap_at_def heap_row_def lfree_ok_def)
  note v = heap_at_views [OF at]
  have "has_room ?h n \<longleftrightarrow> n < unat (mem_size_aligned ?h)"
    using ne e heap_at_unique [OF heap_atD(1) [OF at]] by (auto simp: has_room_def h)
  moreover have "heap_ok ?h" "lowest ?h" "allocated ?h = {}" using v ne by (simp_all add: h lowest_at_def)
  moreover have "heap_ptr ?h = p" "unat p + unat (heap_end ?h) + 12 = unat q"
    using e s room by (simp_all add: h)
  ultimately show ?thesis by blast
qed

lemma malloc_spec:
  assumes ok: "heap_ok h" and sz: "sz \<noteq> 0" "unat sz + 3 < 2 ^ 32"
  shows "\<exists>r h'. mem_malloc sz h = Some (r, h') \<and> heap_ok h' \<and> same_heap h h' \<and> (lowest h \<longrightarrow> lowest h') \<and>
    (case r of
       None \<Rightarrow> h' = h \<and> (lowest h \<longrightarrow> \<not> has_room h (request sz))
     | Some p \<Rightarrow> \<exists>e. allocated h' = insert (p, e) (allocated h) \<and> has_room h (request sz) \<and>
         unat p + unat sz \<le> unat e \<and> unat e \<le> unat (heap_end h) \<and> 4 dvd unat (heap_ptr h + p) \<and>
         (\<forall>(q, f) \<in> allocated h. unat e + 12 \<le> unat q \<or> unat f + 12 \<le> unat p))"
proof (cases rule: mem_malloc_at [OF heap_okD [OF ok] sz, case_names none some])
  case none
  then show ?thesis using ok by (simp add: at_views [OF heap_okD [OF ok]])
next
  case (some m h' os')
  note v = heap_at_views [OF some(2)] and V = at_views [OF heap_okD [OF ok]]
  note r' = heap_atD(1) [OF some(2)]
  have a: "allocated h' = insert (m + 12, mnext (hdrs h' m)) (allocated h)" using some(5) v(2) V(1) by simp
  have i: "(m + 12, mnext (hdrs h' m)) \<in> areas (hdrs h') os'" using a v(2) by simp
  have "unat sz \<le> request sz" using sz(1) by (simp add: request_def)
  then have "unat (m + 12) + unat sz \<le> unat (mnext (hdrs h' m))"
    using some(6) heap_block(6) [OF r' some(7)] by simp
  moreover have "unat (mnext (hdrs h' m)) + 12 \<le> unat q \<or> unat f + 12 \<le> unat (m + 12)"
    if "(q, f) \<in> allocated h" for q f
  proof -
    have old: "(q, f) \<in> areas (hdrs h) (heap_blocks h)" using that V(1) by simp
    then have "q \<noteq> m + 12" using some(9) by (auto simp: areas_def)
    moreover have "(q, f) \<in> areas (hdrs h') os'" using that a v(2) by simp
    ultimately show ?thesis using areas_disjoint [OF r' i] by metis
  qed
  moreover have "unat (mnext (hdrs h' m)) \<le> unat (heap_end h)" "4 dvd unat (heap_ptr h + (m + 12))"
    using areas_in(2,3) [OF r' i] some(3) by (simp_all add: same_heap_def)
  ultimately have "\<exists>e. allocated h' = insert (m + 12, e) (allocated h) \<and> has_room h (request sz) \<and>
         unat (m + 12) + unat sz \<le> unat e \<and> unat e \<le> unat (heap_end h) \<and> 4 dvd unat (heap_ptr h + (m + 12)) \<and>
         (\<forall>(q, f) \<in> allocated h. unat e + 12 \<le> unat q \<or> unat f + 12 \<le> unat (m + 12))"
    using a some(10) by blast
  then show ?thesis
    using some(1,3,4) v(1,3) V(2) by (intro exI [of _ "Some (m + 12)"] exI [of _ h']) simp
qed

lemma free_spec:
  assumes ok: "heap_ok h" and i: "(p, e) \<in> allocated h"
  shows "\<exists>h'. mem_free (Some p) h = Some h' \<and> heap_ok h' \<and> same_heap h h' \<and> (lowest h \<longrightarrow> lowest h') \<and>
    allocated h' = allocated h - {(p, e)} \<and> mem_free (Some p) h' = None"
proof -
  note A = allocatedD [OF ok i]
  obtain h' os' where f: "mem_free (Some p) h = Some h'" "heap_at h' os'" "same_heap h h'"
      "lowest_at h (heap_blocks h) \<longrightarrow> lowest_at h' os'"
      "areas (hdrs h') os' = areas (hdrs h) (heap_blocks h) - {(p, e)}"
    using mem_free_at [OF heap_okD [OF ok] A(1,2)] A(3) by auto
  have "mem_free (Some p) h' = None" using mem_free_unused [OF f(1)] .
  then show ?thesis
    using f heap_at_views [OF f(2)] at_views [OF heap_okD [OF ok]] by auto
qed

lemma realloc_spec:
  assumes ok: "heap_ok h" and i: "(p, e) \<in> allocated h" and sz: "9 \<le> unat sz" "unat sz + 3 < 2 ^ 32"
  shows "\<exists>r c h'. mem_realloc (Some p) sz h = Some (r, c, h') \<and> heap_ok h' \<and> same_heap h h' \<and>
    (case r of
       None \<Rightarrow> h' = h \<and> c = None
     | Some q \<Rightarrow> \<exists>f. allocated h' = insert (q, f) (allocated h - {(p, e)}) \<and> unat q + unat sz \<le> unat f \<and>
         (if q = p then c = None
          else q \<notin> fst ` allocated h \<and> (unat f + 12 \<le> unat p \<or> unat e + 12 \<le> unat q) \<and>
            (\<exists>k. c = Some (q, p, k) \<and> unat k = Orderings.min (unat (e - p)) ((unat sz + 3) div 4 * 4))))"
proof -
  define n where "n = RT_ALIGN sz RT_ALIGN_SIZE"
  have n: "unat n = (unat sz + 3) div 4 * 4" unfolding n_def by (rule unat_align [OF sz(2)])
  then have n': "4 dvd unat n" "12 \<le> unat n" "unat sz \<le> unat n" "n \<noteq> 0" using sz(1) by auto
  define m where "m = p - 12"
  have p: "p = m + 12" by (simp add: m_def)
  note at = heap_okD [OF ok]
  note M = allocatedD [OF ok i, folded m_def]
  note B = heap_block [OF heap_atD(1) [OF at] M(1), unfolded M(3)] and R = heap_rowD [OF heap_atD(1) [OF at]]
  have pe: "\<not> heap_end h \<le> p" using M(4,5) by (simp add: word_le_nat_alt)
  have "e - m - 12 = e - p" by (simp add: p)
  then have k: "unat (e - p) = unat e - unat p" "mnext (hdrs h m) - m - 12 = e - p" using B(6,7) M(3) p by simp_all
  note V = at_views [OF at]
  consider (big) "mem_size_aligned h < n" | (same) "\<not> mem_size_aligned h < n" "e - p = n"
    | (less) "\<not> mem_size_aligned h < n" "n + 12 + 12 < e - p" "e - p \<noteq> n"
    | (more) "\<not> mem_size_aligned h < n" "\<not> n + 12 + 12 < e - p" "e - p \<noteq> n" by blast
  then show ?thesis
  proof cases
    case big
    then have "mem_realloc (Some p) sz h = Some (None, None, h)" by (simp add: mem_realloc_def Let_def n_def)
    then show ?thesis using ok by (intro exI [of _ None] exI [of _ h]) simp
  next
    case same
    then have "mem_realloc (Some p) sz h = Some (Some p, None, h)"
      using n'(4) pe k(2) by (simp add: mem_realloc_def Let_def n_def [simplified, symmetric] m_def)
    moreover have "unat p + unat sz \<le> unat e" using same(2) k(1) n'(2,3) M(4) by simp
    ultimately show ?thesis
      using ok i by (intro exI [of _ "Some p"] exI [of _ None] exI [of _ h]) (auto intro!: exI [of _ e])
  next
    case less
    have "unat (n + 12 + 12) = unat n + 24"
      using less(1) R(5,6) by (simp add: unat_word_ariths word_less_nat_alt)
    then have fit: "unat m + 12 + unat n + 24 < unat (mnext (hdrs h m))"
      using less(2) k(1) B(6) M(3) p by (simp add: word_less_nat_alt)
    obtain h' os' where s: "plug_holes (m + 12 + n) (split_block m (m + 12 + n)
         (h\<lparr>used_mem := used_mem h - (mnext (hdrs h m) - m - 12 - n)\<rparr>)) = Some h'"
        "heap_at h' os'" "same_heap h h'" "areas (hdrs h') os' = insert (p, p + n) (allocated h - {(p, e)})"
      using shrink_at [OF at M(1,2) n'(2,1) fit] V(1) M(3) p by auto
    have "mem_realloc (Some p) sz h = Some (Some p, None, h')"
      using less n'(4) pe k(2) s(1)
      by (simp add: mem_realloc_def Let_def n_def [simplified, symmetric] m_def)
    moreover have "unat (p + n) = unat p + unat n"
      using fit B(2,6) M(3) R(6) p by (simp add: unat_word_ariths)
    ultimately show ?thesis
      using heap_at_views(1,2) [OF s(2)] s(3,4) n'(3)
      by (intro exI [of _ "Some p"] exI [of _ None] exI [of _ h']) (auto intro!: exI [of _ "p + n"])
  next
    case more
    have lim: "unat n + 3 < 2 ^ 32" using more(1) R(5,6) by (simp add: word_less_nat_alt)
    have rq: "request n = unat n" using n'(1,2,4) by (auto simp: request_def elim!: dvdE)
    have call: "mem_realloc (Some p) sz h = do {
        (nmem, h) \<leftarrow> mem_malloc n h;
        (case nmem of
           None \<Rightarrow> Some (None, None, h)
         | Some q \<Rightarrow> do {
             h \<leftarrow> mem_free (Some p) h;
             Some (Some q, Some (q, p, if e - p < n then e - p else n), h)
           })}"
      using more n'(4) pe unfolding mem_realloc_def Let_def n_def [symmetric]
      by (simp only: mem_sizes m_def [symmetric] k(2) option.case if_False simp_thms)
    show ?thesis
    proof (cases "mem_malloc n h = Some (None, h)")
      case True
      then show ?thesis using ok call by (intro exI [of _ None] exI [of _ h]) simp
    next
      case False
      then obtain q f h1 h' os' where v: "mem_malloc n h = Some (Some q, h1)" "mem_free (Some p) h1 = Some h'"
          "heap_at h' os'" "same_heap h h'" "areas (hdrs h') os' = insert (q, f) (allocated h - {(p, e)})"
          "unat q + unat n \<le> unat f" "q \<notin> fst ` allocated h" "unat f + 12 \<le> unat p \<or> unat e + 12 \<le> unat q"
        using move_at [OF at M(1,2) n'(4) lim] unfolding rq V(1) M(3) p by blast
      have "q \<noteq> p" using v(7) i by force
      moreover have "mem_realloc (Some p) sz h =
          Some (Some q, Some (q, p, if e - p < n then e - p else n), h')"
        by (simp add: call v(1,2))
      moreover have "unat (if e - p < n then e - p else n) = Orderings.min (unat (e - p)) (unat n)"
        by (simp add: word_less_nat_alt)
      ultimately show ?thesis
        using heap_at_views(1,2) [OF v(3)] v(4-8) n'(3) n
        by (intro exI [of _ "Some q"] exI [of _ "Some (q, p, if e - p < n then e - p else n)"] exI [of _ h'])
          (auto intro!: exI [of _ f])
    qed
  qed
qed

text \<open>C25: On an intact heap \<^verbatim>\<open>rt_malloc\<close> keeps the heap intact.  It returns \<^verbatim>\<open>RT_NULL\<close> and leaves the heap
  alone, or it hands out one more area, which has at least the bytes asked for, is aligned, lies
  inside the heap, and keeps a distance of a header to every area handed out before; and no
  assertion fails.  If \<^verbatim>\<open>lfree\<close> is the lowest free block, then it stays so and \<^verbatim>\<open>RT_NULL\<close> means that no
  block has room.\<close>

theorem malloc_hands_out:
  assumes ok: "heap_ok h" and sz: "sz \<noteq> 0" "unat sz + 3 < 2 ^ 32"
  shows "\<exists>r h'. mem_malloc sz h = Some (r, h') \<and> heap_ok h' \<and> same_heap h h' \<and> (lowest h \<longrightarrow> lowest h') \<and>
    (case r of
       None \<Rightarrow> h' = h \<and> (lowest h \<longrightarrow> \<not> has_room h (request sz))
     | Some p \<Rightarrow> \<exists>e. allocated h' = insert (p, e) (allocated h) \<and> has_room h (request sz) \<and>
         unat p + unat sz \<le> unat e \<and> unat e \<le> unat (heap_end h) \<and> 4 dvd unat (heap_ptr h + p) \<and>
         (\<forall>(q, f) \<in> allocated h. unat e + 12 \<le> unat q \<or> unat f + 12 \<le> unat p))"
  by (rule malloc_spec [OF assms])

theorem malloc_hands_out_witness:
  "\<exists>r h'. mem_malloc 8 heap1 = Some (r, h') \<and> heap_ok h'"
  using malloc_hands_out [of heap1 8] heap_at_views(1) [OF heap_at_demo(2)] by fastforce

text \<open>C26: \<^verbatim>\<open>rt_free\<close> of an area that is handed out succeeds: the heap stays intact, exactly that area is
  taken back, and \<^verbatim>\<open>lfree\<close> remains the lowest free block.  Freeing it once more fails an assertion.\<close>

theorem free_takes_back:
  assumes ok: "heap_ok h" and i: "(p, e) \<in> allocated h"
  shows "\<exists>h'. mem_free (Some p) h = Some h' \<and> heap_ok h' \<and> same_heap h h' \<and> (lowest h \<longrightarrow> lowest h') \<and>
    allocated h' = allocated h - {(p, e)} \<and> mem_free (Some p) h' = None"
  by (rule free_spec [OF assms])

theorem free_takes_back_witness:
  "\<exists>h'. mem_free (Some 12) heap2 = Some h' \<and> allocated h' = {(56, 68)} \<and> mem_free (Some 12) h' = None"
  using free_takes_back [of heap2 12 44] heap_at_views(1) [OF heap_at_demo(3)] by (auto simp: allocated_demo)

text \<open>C27: \<^verbatim>\<open>rt_realloc\<close> of an area that is handed out, to at least nine bytes: it returns \<^verbatim>\<open>RT_NULL\<close> and
  leaves the heap alone, or the area is replaced by one with at least the bytes asked for, either in
  place or at a new area that does not overlap the old one, to which the bytes that fit are copied.  The
  heap stays intact and the other areas are untouched.\<close>

theorem realloc_replaces:
  assumes ok: "heap_ok h" and i: "(p, e) \<in> allocated h" and sz: "9 \<le> unat sz" "unat sz + 3 < 2 ^ 32"
  shows "\<exists>r c h'. mem_realloc (Some p) sz h = Some (r, c, h') \<and> heap_ok h' \<and> same_heap h h' \<and>
    (case r of
       None \<Rightarrow> h' = h \<and> c = None
     | Some q \<Rightarrow> \<exists>f. allocated h' = insert (q, f) (allocated h - {(p, e)}) \<and> unat q + unat sz \<le> unat f \<and>
         (if q = p then c = None
          else q \<notin> fst ` allocated h \<and> (unat f + 12 \<le> unat p \<or> unat e + 12 \<le> unat q) \<and>
            (\<exists>k. c = Some (q, p, k) \<and> unat k = Orderings.min (unat (e - p)) ((unat sz + 3) div 4 * 4))))"
  by (rule realloc_spec [OF assms])

theorem realloc_replaces_witness:
  "\<exists>r c h'. mem_realloc (Some 12) 100 heap2 = Some (r, c, h') \<and> heap_ok h'"
  using realloc_replaces [of heap2 12 44 100] heap_at_views(1) [OF heap_at_demo(3)]
  by (fastforce simp: allocated_demo)

section \<open>Boundary cases\<close>

text \<open>The size is rounded up before it is compared with the size of the heap, and wraps around:
  a request for almost four gigabytes is answered with twelve bytes.  The product in \<^verbatim>\<open>rt_calloc\<close>
  wraps around too.\<close>

lemmas mem_steps = mem_malloc_def heap_demo_defs Let_def RT_ALIGN_def malloc_find.simps lfree_loop.simps
  malloc_take_def split_block_def upd_hdr_def count_used_def

theorem malloc_size_wraps: "map_option fst (mem_malloc 0xFFFFFFFD heap0) = Some (Some 12)"
  by (simp add: mem_steps)

theorem malloc_exact_fit_fails: "mem_malloc 232 heap0 = Some (None, heap0)"
  by (simp add: mem_steps)

theorem calloc_product_wraps:
  "map_option (\<lambda>(p, n, h). (p, n)) (mem_calloc 0x80000001 2 heap0) = Some (Some 12, 2)"
  by (simp add: mem_calloc_def mem_steps)

text \<open>A block that shrinks leaves a free block behind, and \<^verbatim>\<open>lfree\<close> is not moved down to it: the next
  requests do not find it.  Nor is the new size raised to \<^verbatim>\<open>MIN_SIZE\<close>.\<close>

definition heap3 :: heap where
  "heap3 = heap0\<lparr>lfree := 184, used_mem := 184, max_mem := 184,
     hdrs := (hdrs heap0)(0 := \<lparr>mmagic = HEAP_MAGIC, mused = 1, mnext = 112, mprev = 0\<rparr>,
       112 := \<lparr>mmagic = HEAP_MAGIC, mused = 1, mnext = 184, mprev = 0\<rparr>,
       184 := \<lparr>mmagic = HEAP_MAGIC, mused = 0, mnext = 244, mprev = 112\<rparr>)\<rparr>"

definition heap4 :: heap where
  "heap4 = heap3\<lparr>used_mem := 96,
     hdrs := (hdrs heap3)(0 := \<lparr>mmagic = HEAP_MAGIC, mused = 1, mnext = 24, mprev = 0\<rparr>,
       24 := \<lparr>mmagic = HEAP_MAGIC, mused = 0, mnext = 112, mprev = 0\<rparr>,
       112 := \<lparr>mmagic = HEAP_MAGIC, mused = 1, mnext = 184, mprev = 24\<rparr>)\<rparr>"

theorem realloc_forgets_lowest:
  "mem_realloc (Some 12) 12 heap3 = Some (Some 12, None, heap4) \<and> heap_ok heap3 \<and> lowest heap3 \<and>
     heap_ok heap4 \<and> \<not> lowest heap4 \<and> has_room heap4 60 \<and> mem_malloc 60 heap4 = Some (None, heap4)"
proof -
  have at: "heap_at heap3 [0, 112, 184]" "heap_at heap4 [0, 24, 112, 184]"
    by (simp_all add: heap3_def heap4_def heap0_eq heap_at_def heap_row_def lfree_ok_def)
  then have "heap_ok heap3" "lowest heap3" "heap_ok heap4" "\<not> lowest heap4"
    using at [THEN heap_at_views(3)] by (simp_all add: heap_at_views lowest_at_def heap3_def heap4_def heap0_eq)
  moreover have "heap_blocks heap4 = [0, 24, 112, 184]" by (rule heap_at_unique [OF heap_atD(1) [OF at(2)]])
  then have "has_room heap4 60" by (simp add: has_room_def heap3_def heap4_def heap0_eq)
  moreover have "mem_malloc 60 heap4 = Some (None, heap4)"
    by (simp add: heap3_def heap4_def mem_steps)
  moreover have "mem_realloc (Some 12) 12 heap3 = Some (Some 12, None, heap4)"
    by (simp add: mem_realloc_def plug_holes_def heap3_def heap4_def mem_steps fun_eq_iff)
  ultimately show ?thesis by blast
qed

theorem realloc_below_min_size:
  "map_option (\<lambda>(p, c, h). (p, mnext (hdrs h 0))) (mem_realloc (Some 12) 4 heap1) = Some (Some 12, 16)"
  by (simp add: mem_realloc_def plug_holes_def join_blocks_def mem_steps)

text \<open>On a heap of less than twelve bytes the limit of the search wraps around, and the search goes
  round at the end of the heap for ever.\<close>

definition tiny_heap :: heap where
  "tiny_heap = rt_system_heap_init 0x80010000 0x80010020
     \<lparr>heap_ptr = 0, heap_end = 0, lfree = 0, mem_size_aligned = 0, used_mem = 0, max_mem = 0,
      hdrs = (\<lambda>_. \<lparr>mmagic = 0, mused = 0, mnext = 0, mprev = 0\<rparr>)\<rparr>"

lemma malloc_find_stuck:
  assumes "malloc_find sz ptr h = Some r"
  shows "\<not> (ptr < mem_size_aligned h - sz \<and> mused (hdrs h ptr) \<noteq> 0 \<and> mnext (hdrs h ptr) = ptr)"
  by (rule malloc_find.raw_induct [where P = "\<lambda>sz ptr h r.
      \<not> (ptr < mem_size_aligned h - sz \<and> mused (hdrs h ptr) \<noteq> 0 \<and> mnext (hdrs h ptr) = ptr)", OF _ assms])
    (fastforce split: if_splits)

theorem tiny_heap_diverges: "mem_malloc 4 tiny_heap = None"
proof -
  have h: "tiny_heap = \<lparr>heap_ptr = 0x80010000, heap_end = 20, lfree = 0, mem_size_aligned = 8, used_mem = 0,
     max_mem = 0, hdrs = (\<lambda>_. \<lparr>mmagic = 0, mused = 0, mnext = 0, mprev = 0\<rparr>)
       (0 := \<lparr>mmagic = HEAP_MAGIC, mused = 0, mnext = 20, mprev = 0\<rparr>,
        20 := \<lparr>mmagic = HEAP_MAGIC, mused = 1, mnext = 20, mprev = 20\<rparr>)\<rparr>"
    by (simp add: tiny_heap_def rt_system_heap_init_def RT_ALIGN_def RT_ALIGN_DOWN_def Let_def)
  have "malloc_find 12 20 tiny_heap = None"
    using malloc_find_stuck [of 12 20 tiny_heap] by (cases "malloc_find 12 20 tiny_heap") (auto simp: h)
  moreover have "(0 :: u32) < - 4" by code_simp
  ultimately have "malloc_find 12 0 tiny_heap = None" by (subst malloc_find.simps) (simp add: h)
  then show ?thesis by (simp add: mem_malloc_def Let_def RT_ALIGN_def) (simp add: h)
qed

section \<open>Sequences of requests\<close>

text \<open>The allocator as the contract of \<open>allocator\<close> sees it.\<close>

definition mem_resize :: "u32 \<Rightarrow> u32 \<Rightarrow> heap \<Rightarrow> (u32 option \<times> heap) option" where
  "mem_resize p sz h = do { (r, _, h) \<leftarrow> mem_realloc (Some p) sz h; Some (r, h) }"

abbreviation heap_apart :: "u32 \<times> u32 \<Rightarrow> u32 \<times> u32 \<Rightarrow> bool" where
  "heap_apart \<equiv> \<lambda>(p, e) (q, f). unat e + 12 \<le> unat q \<or> unat f + 12 \<le> unat p"

abbreviation heap_request :: "u32 request \<Rightarrow> bool" where
  "heap_request \<equiv> sized (\<lambda>z. z \<noteq> 0 \<and> unat z + 3 < 2 ^ 32) (\<lambda>z. 9 \<le> unat z \<and> unat z + 3 < 2 ^ 32)"

lemma allocated_apart:
  assumes ok: "heap_ok h" and a: "(p, e) \<in> allocated h" "(q, f) \<in> allocated h"
  shows "p = q \<and> e = f \<or> p \<noteq> q \<and> heap_apart (p, e) (q, f)"
proof (cases "p = q")
  case True
  then show ?thesis using allocatedD(3) [OF ok a(1)] allocatedD(3) [OF ok a(2)] by simp
next
  case False
  then show ?thesis
    using areas_disjoint [OF heap_atD(1) [OF heap_okD [OF ok]], of p e q f] a by (simp add: allocated_def)
qed

interpretation small_heap: allocator mem_malloc "\<lambda>p. mem_free (Some p)" mem_resize allocated heap_ok
  "\<lambda>h. (heap_ptr h, heap_end h, mem_size_aligned h)" "\<lambda>z :: u32. z \<noteq> 0 \<and> unat z + 3 < 2 ^ 32"
  "\<lambda>z :: u32. 9 \<le> unat z \<and> unat z + 3 < 2 ^ 32" heap_apart
proof unfold_locales
  fix h a b assume "heap_ok h" "a \<in> allocated h" "b \<in> allocated h"
  then show "fst a = fst b \<and> a = b \<or> fst a \<noteq> fst b \<and> heap_apart a b"
    using allocated_apart [of h "fst a" "snd a" "fst b" "snd b"] by (cases a; cases b) auto
next
  fix h and z :: u32 assume h: "heap_ok h" and z: "z \<noteq> 0 \<and> unat z + 3 < 2 ^ 32"
  obtain r h' where m: "mem_malloc z h = Some (r, h')" "heap_ok h'" "same_heap h h'"
    and c: "case r of None \<Rightarrow> h' = h | Some p \<Rightarrow> \<exists>e. allocated h' = insert (p, e) (allocated h) \<and>
      unat p + unat z \<le> unat e \<and> (\<forall>(q, f) \<in> allocated h. unat e + 12 \<le> unat q \<or> unat f + 12 \<le> unat p)"
    using malloc_spec [OF h, of z] z by (fastforce split: option.splits)
  have "case r of None \<Rightarrow> allocated h' = allocated h
      | Some p \<Rightarrow> p \<notin> fst ` allocated h \<and> (\<exists>e. allocated h' = insert (p, e) (allocated h))"
  proof (cases r)
    case (Some p)
    then obtain e where e: "allocated h' = insert (p, e) (allocated h)" "unat p + unat z \<le> unat e"
      "\<forall>(q, f) \<in> allocated h. unat e + 12 \<le> unat q \<or> unat f + 12 \<le> unat p" using c by auto
    have "q \<noteq> p" if q: "(q, f) \<in> allocated h" for q f
      using e(2) bspec [OF e(3) q] allocatedD(4) [OF h q] by auto
    then show ?thesis using e(1) Some by force
  qed (use c in simp)
  then show "\<exists>r h'. mem_malloc z h = Some (r, h') \<and> heap_ok h' \<and>
      (heap_ptr h', heap_end h', mem_size_aligned h') = (heap_ptr h, heap_end h, mem_size_aligned h) \<and>
      (case r of None \<Rightarrow> allocated h' = allocated h
       | Some p \<Rightarrow> p \<notin> fst ` allocated h \<and> (\<exists>e. allocated h' = insert (p, e) (allocated h)))"
    using m same_heapD [OF m(3)] by (intro exI [of _ r] exI [of _ h']) simp
next
  fix h p e assume "heap_ok h" "(p, e) \<in> allocated h"
  then show "\<exists>h'. mem_free (Some p) h = Some h' \<and> heap_ok h' \<and>
      (heap_ptr h', heap_end h', mem_size_aligned h') = (heap_ptr h, heap_end h, mem_size_aligned h) \<and>
      allocated h' = allocated h - {(p, e)}"
    using free_spec [of h p e] same_heapD by fastforce
next
  fix h p e and z :: u32 assume h: "heap_ok h" and a: "(p, e) \<in> allocated h" and z: "9 \<le> unat z \<and> unat z + 3 < 2 ^ 32"
  obtain r c h' where m: "mem_realloc (Some p) z h = Some (r, c, h')" "heap_ok h'" "same_heap h h'"
    and c: "case r of None \<Rightarrow> h' = h \<and> c = None
     | Some q \<Rightarrow> \<exists>f. allocated h' = insert (q, f) (allocated h - {(p, e)}) \<and> unat q + unat z \<le> unat f \<and>
         (if q = p then c = None else q \<notin> fst ` allocated h \<and> (unat f + 12 \<le> unat p \<or> unat e + 12 \<le> unat q) \<and>
            (\<exists>k. c = Some (q, p, k) \<and> unat k = Orderings.min (unat (e - p)) ((unat z + 3) div 4 * 4)))"
    using realloc_spec [OF h a, of z] z by blast
  have "case r of None \<Rightarrow> allocated h' = allocated h
      | Some q \<Rightarrow> q \<notin> fst ` (allocated h - {(p, e)}) \<and> (\<exists>f. allocated h' = insert (q, f) (allocated h - {(p, e)}))"
  proof (cases r)
    case (Some q)
    then obtain f where f: "allocated h' = insert (q, f) (allocated h - {(p, e)})" "q = p \<or> q \<notin> fst ` allocated h"
      using c by (auto split: if_splits)
    have "q \<noteq> g" if "(g, k) \<in> allocated h - {(p, e)}" for g k
      using f(2) that allocated_apart [OF h a, of g k] by force
    then have "q \<notin> fst ` (allocated h - {(p, e)})" by force
    then show ?thesis using f(1) Some by auto
  qed (use c in simp)
  then show "\<exists>r h'. mem_resize p z h = Some (r, h') \<and> heap_ok h' \<and>
      (heap_ptr h', heap_end h', mem_size_aligned h') = (heap_ptr h, heap_end h, mem_size_aligned h) \<and>
      (case r of None \<Rightarrow> allocated h' = allocated h
       | Some q \<Rightarrow> q \<notin> fst ` (allocated h - {(p, e)}) \<and> (\<exists>f. allocated h' = insert (q, f) (allocated h - {(p, e)})))"
    using m same_heapD [OF m(3)] by (intro exI [of _ r] exI [of _ h']) (simp add: mem_resize_def)
qed

text \<open>When nothing is handed out, the heap is one free block again.\<close>

lemma heap_all_free:
  assumes ok: "heap_ok h" and e: "allocated h = {}"
  shows "has_room h n \<longleftrightarrow> n < unat (mem_size_aligned h)"
proof -
  note at = heap_okD [OF ok]
  note R = heap_rowD [OF heap_atD(1) [OF at]]
  have free: "mused (hdrs h b) = 0" if "b \<in> set (heap_blocks h)" for b
    using e that by (auto simp: allocated_def areas_def)
  have bs: "heap_blocks h = [0]"
  proof (cases "heap_blocks h")
    case Nil
    then show ?thesis using R(1,5) by simp
  next
    case (Cons a as)
    then show ?thesis using R(1) heap_atD(2) [OF at] free by (cases as) auto
  qed
  then have "mnext (hdrs h 0) = heap_end h" using R(1) by simp
  moreover have "unat (heap_end h) = unat (mem_size_aligned h) + 12"
    using R heap_block(1) [OF heap_atD(1) [OF at]] by simp
  ultimately show ?thesis using bs free by (auto simp: has_room_def)
qed



end
