(* ===== verification/Kservice_Mem.thy ===== *)
theory Kservice_Mem
  imports Prelude
begin

text \<open>
  The memory routines of \<^verbatim>\<open>src/kservice.c\<close>: \<^verbatim>\<open>rt_memset\<close>, \<^verbatim>\<open>rt_memcpy\<close> and \<^verbatim>\<open>rt_memmove\<close>, with their
  loops over words and over groups of four words, and \<^verbatim>\<open>rt_memcmp\<close>.

  The memory is a map from 32-bit addresses to bytes; address arithmetic wraps around as on the
  machine.  A word is stored with its least significant byte first, as on RISC-V.  The options
  \<^verbatim>\<open>RT_USING_TINY_SIZE\<close> and \<^verbatim>\<open>RT_USING_NEWLIB\<close> are off.
\<close>

type_synonym memory = "u32 \<Rightarrow> u8"

definition load32 :: "memory \<Rightarrow> u32 \<Rightarrow> u32" where
  "load32 M a = ucast (M a) OR push_bit 8 (ucast (M (a + 1))) OR push_bit 16 (ucast (M (a + 2))) OR
     push_bit 24 (ucast (M (a + 3)))"

definition store32 :: "u32 \<Rightarrow> u32 \<Rightarrow> memory \<Rightarrow> memory" where
  "store32 a w M = M(a := ucast w, a + 1 := ucast (drop_bit 8 w), a + 2 := ucast (drop_bit 16 w),
     a + 3 := ucast (drop_bit 24 w))"

section \<open>The routines\<close>

text \<open>The loops count down a 32-bit \<open>count\<close>; each returns the pointer and the count it ends with.\<close>

lemma unat_minus_less: "k \<noteq> 0 \<Longrightarrow> k \<le> n \<Longrightarrow> unat (n - k) < unat n" for k n :: u32
  using unat_gt_0 [of k] by (simp add: unat_sub word_le_nat_alt)

lemma unat_minus_one_less: "n \<noteq> 0 \<Longrightarrow> unat (n - 1) < unat n" for n :: u32
  using unat_gt_0 [of n] by (intro unat_minus_less) (simp_all add: word_le_nat_alt)

function memset_blocks :: "u32 \<Rightarrow> u32 \<Rightarrow> u32 \<Rightarrow> memory \<Rightarrow> u32 \<times> u32 \<times> memory" where
  "memset_blocks aligned_addr buffer count M =
     (if 16 \<le> count then
        memset_blocks (aligned_addr + 16) buffer (count - 16)
          (store32 (aligned_addr + 12) buffer (store32 (aligned_addr + 8) buffer
            (store32 (aligned_addr + 4) buffer (store32 aligned_addr buffer M))))
      else (aligned_addr, count, M))"
  by pat_completeness auto
termination by (relation "measure (\<lambda>(a, b, n, M). unat n)") (simp_all add: unat_minus_less)

function memset_words :: "u32 \<Rightarrow> u32 \<Rightarrow> u32 \<Rightarrow> memory \<Rightarrow> u32 \<times> u32 \<times> memory" where
  "memset_words aligned_addr buffer count M =
     (if 4 \<le> count then
        memset_words (aligned_addr + 4) buffer (count - 4) (store32 aligned_addr buffer M)
      else (aligned_addr, count, M))"
  by pat_completeness auto
termination by (relation "measure (\<lambda>(a, b, n, M). unat n)") (simp_all add: unat_minus_less)

function memset_bytes :: "u32 \<Rightarrow> u8 \<Rightarrow> u32 \<Rightarrow> memory \<Rightarrow> memory" where
  "memset_bytes m d count M =
     (if count = 0 then M else memset_bytes (m + 1) d (count - 1) (M(m := d)))"
  by pat_completeness auto
termination
  by (relation "measure (\<lambda>(m, d, n, M). unat n)") (simp_all add: unat_minus_one_less)

definition rt_memset :: "u32 \<Rightarrow> u32 \<Rightarrow> u32 \<Rightarrow> memory \<Rightarrow> memory" where
  "rt_memset s c count M =
     (let d = c AND 0xff
      in if \<not> count < 4 \<and> s AND 3 = 0 then
           let buffer = push_bit 8 d OR d;
               buffer = buffer OR push_bit 16 buffer;
               (aligned_addr, count, M) = memset_blocks s buffer count M;
               (aligned_addr, count, M) = memset_words aligned_addr buffer count M
           in memset_bytes aligned_addr (ucast d) count M
         else memset_bytes s (ucast d) count M)"

function memcpy_blocks :: "u32 \<Rightarrow> u32 \<Rightarrow> u32 \<Rightarrow> memory \<Rightarrow> u32 \<times> u32 \<times> u32 \<times> memory" where
  "memcpy_blocks dst src len M =
     (if 16 \<le> len then
        let M = store32 dst (load32 M src) M;
            M = store32 (dst + 4) (load32 M (src + 4)) M;
            M = store32 (dst + 8) (load32 M (src + 8)) M;
            M = store32 (dst + 12) (load32 M (src + 12)) M
        in memcpy_blocks (dst + 16) (src + 16) (len - 16) M
      else (dst, src, len, M))"
  by pat_completeness auto
termination by (relation "measure (\<lambda>(d, s, n, M). unat n)") (simp_all add: unat_minus_less)

function memcpy_words :: "u32 \<Rightarrow> u32 \<Rightarrow> u32 \<Rightarrow> memory \<Rightarrow> u32 \<times> u32 \<times> u32 \<times> memory" where
  "memcpy_words dst src len M =
     (if 4 \<le> len then
        memcpy_words (dst + 4) (src + 4) (len - 4) (store32 dst (load32 M src) M)
      else (dst, src, len, M))"
  by pat_completeness auto
termination by (relation "measure (\<lambda>(d, s, n, M). unat n)") (simp_all add: unat_minus_less)

text \<open>\<^verbatim>\<open>while (n--) *d++ = *s++;\<close>\<close>

function copy_up :: "u32 \<Rightarrow> u32 \<Rightarrow> u32 \<Rightarrow> memory \<Rightarrow> memory" where
  "copy_up d s n M = (if n = 0 then M else copy_up (d + 1) (s + 1) (n - 1) (M(d := M s)))"
  by pat_completeness auto
termination
  by (relation "measure (\<lambda>(d, s, n, M). unat n)") (simp_all add: unat_minus_one_less)

text \<open>\<^verbatim>\<open>while (n--) *(--tmp) = *(--s);\<close>\<close>

function copy_down :: "u32 \<Rightarrow> u32 \<Rightarrow> u32 \<Rightarrow> memory \<Rightarrow> memory" where
  "copy_down tmp s n M =
     (if n = 0 then M else copy_down (tmp - 1) (s - 1) (n - 1) (M(tmp - 1 := M (s - 1))))"
  by pat_completeness auto
termination
  by (relation "measure (\<lambda>(d, s, n, M). unat n)") (simp_all add: unat_minus_one_less)

text \<open>The comparisons of the signed \<^verbatim>\<open>len\<close> with \<^verbatim>\<open>sizeof\<close> are comparisons of unsigned words.\<close>

definition rt_memcpy :: "u32 \<Rightarrow> u32 \<Rightarrow> u32 \<Rightarrow> memory \<Rightarrow> memory" where
  "rt_memcpy dst src count M =
     (if \<not> count < 16 \<and> (src AND 3) OR (dst AND 3) = 0 then
        let (d, s, n, M) = memcpy_blocks dst src count M;
            (d, s, n, M) = memcpy_words d s n M
        in copy_up d s n M
      else copy_up dst src count M)"

definition rt_memmove :: "u32 \<Rightarrow> u32 \<Rightarrow> u32 \<Rightarrow> memory \<Rightarrow> memory" where
  "rt_memmove dest src n M =
     (if src < dest \<and> dest < src + n then copy_down (dest + n) (src + n) n M
      else copy_up dest src n M)"

text \<open>The result of \<^verbatim>\<open>rt_memcmp\<close> is an \<^verbatim>\<open>int\<close>: the difference of two bytes.\<close>

function rt_memcmp :: "memory \<Rightarrow> u32 \<Rightarrow> u32 \<Rightarrow> u32 \<Rightarrow> int" where
  "rt_memcmp M su1 su2 count =
     (if 0 < count then
        let res = uint (M su1) - uint (M su2)
        in if res \<noteq> 0 then res else rt_memcmp M (su1 + 1) (su2 + 1) (count - 1)
      else 0)"
  by pat_completeness auto
termination
  by (relation "measure (\<lambda>(M, a, b, n). unat n)") (simp_all add: unat_minus_one_less)

declare memset_blocks.simps [simp del] memset_words.simps [simp del] memset_bytes.simps [simp del]
  memcpy_blocks.simps [simp del] memcpy_words.simps [simp del] copy_up.simps [simp del]
  copy_down.simps [simp del] rt_memcmp.simps [simp del]

section \<open>Filling and copying, byte by byte\<close>

text \<open>The reference: what the routines leave at each address.\<close>

definition filled :: "u32 \<Rightarrow> u8 \<Rightarrow> u32 \<Rightarrow> memory \<Rightarrow> memory" where
  "filled s c n M = (\<lambda>a. if a - s < n then c else M a)"

definition copied :: "u32 \<Rightarrow> u32 \<Rightarrow> u32 \<Rightarrow> memory \<Rightarrow> memory" where
  "copied d s n M = (\<lambda>a. if a - d < n then M (s + (a - d)) else M a)"

lemma offset_split:
  fixes x k n :: u32
  assumes "k \<le> n"
  shows "x - k < n - k \<longleftrightarrow> k \<le> x \<and> x < n"
proof (cases "k \<le> x")
  case True
  then show ?thesis using assms by (simp add: word_less_nat_alt word_le_nat_alt unat_sub less_diff_iff)
next
  case False
  then have "unat (x - k) = 2 ^ 32 + unat x - unat k"
    using unat_sub_if' [of x k] by (auto simp: word_le_nat_alt)
  then have "\<not> x - k < n - k"
    using False assms u32_bound [of n] by (simp add: word_less_nat_alt word_le_nat_alt unat_sub)
  then show ?thesis using False by simp
qed

lemma filled_0 [simp]: "filled s c 0 M = M"
  by (simp add: filled_def)

lemma filled_more:
  assumes "k \<le> n"
  shows "filled (s + k) c (n - k) (filled s c k M) = filled s c n M"
proof
  fix a
  have x: "a - (s + k) = (a - s) - k" by simp
  show "filled (s + k) c (n - k) (filled s c k M) a = filled s c n M a"
    using offset_split [OF assms, of "a - s"] assms unfolding filled_def x by (auto simp: not_le)
qed

lemma copied_0 [simp]: "copied d s 0 M = M"
  by (simp add: copied_def)

text \<open>Copying upwards in pieces is right unless the target begins inside the source.\<close>

lemma copied_more:
  assumes k: "k \<le> n" and o: "n \<le> d - s \<or> d = s"
  shows "copied (d + k) (s + k) (n - k) (copied d s k M) = copied d s n M"
proof
  fix a
  have x: "a - (d + k) = (a - d) - k" "s + k + (a - d - k) = s + (a - d)" by simp_all
  show "copied (d + k) (s + k) (n - k) (copied d s k M) a = copied d s n M a"
  proof (cases "k \<le> a - d \<and> a - d < n")
    case True
    have "\<not> s + (a - d) - d < k \<or> d = s"
    proof (cases "d = s")
      case False
      then have D: "unat (a - d) < unat (d - s)" "unat k \<le> unat (a - d)"
        using o True by (simp_all add: word_less_nat_alt word_le_nat_alt)
      have e: "s + (a - d) - d = (a - d) - (d - s)" by simp
      have "unat ((a - d) - (d - s)) = 2 ^ 32 + unat (a - d) - unat (d - s)"
        using unat_sub_if' [of "a - d" "d - s"] D by simp
      then have "unat k \<le> unat (s + (a - d) - d)"
        unfolding e using D u32_bound [of "d - s"] by linarith
      then show ?thesis by (simp add: word_less_nat_alt)
    qed simp
    then show ?thesis using True offset_split [OF k, of "a - d"] unfolding copied_def x by auto
  next
    case False
    then show ?thesis using offset_split [OF k, of "a - d"] k unfolding copied_def x by auto
  qed
qed

section \<open>Words\<close>

lemma word_of_unat: "unat x = n \<Longrightarrow> x = of_nat n" for x :: u32
  by auto

lemma u32_less_4: "x < 4 \<longleftrightarrow> x = 0 \<or> x = 1 \<or> x = 2 \<or> x = 3" for x :: u32
proof
  assume "x < 4"
  then have "unat x = 0 \<or> unat x = 1 \<or> unat x = 2 \<or> unat x = 3" by (auto simp: word_less_nat_alt)
  then show "x = 0 \<or> x = 1 \<or> x = 2 \<or> x = 3" by (elim disjE) (auto dest: word_of_unat)
qed auto

lemma bytes_of_load32:
  "ucast (load32 M a) = M a" "ucast (drop_bit 8 (load32 M a)) = M (a + 1)"
  "ucast (drop_bit 16 (load32 M a)) = M (a + 2)" "ucast (drop_bit 24 (load32 M a)) = M (a + 3)"
  unfolding load32_def by (rule bit_word_eqI; auto simp: bit_simps dest: bit_imp_le_length)+

lemma store32_at:
  "store32 a w M x = (if x - a < 4 then ucast (drop_bit (unat (x - a) * 8) w) else M x)"
proof -
  have "x - a = k \<longleftrightarrow> x = a + k" for k by (auto simp: algebra_simps)
  note u32_less_4 [of "x - a", unfolded this]
  then show ?thesis by (auto simp: store32_def)
qed

lemma copy_word: "store32 d (load32 M s) M = copied d s 4 M"
proof
  fix x
  have "x - d = k \<longleftrightarrow> x = d + k" for k by (auto simp: algebra_simps)
  note u32_less_4 [of "x - d", unfolded this]
  then show "store32 d (load32 M s) M x = copied d s 4 M x"
    by (auto simp: store32_def copied_def bytes_of_load32)
qed

lemma copy_byte: "M(d := M s) = copied d s 1 M"
proof
  fix x
  have "x - d < 1 \<longleftrightarrow> x = d" by simp
  then show "(M(d := M s)) x = copied d s 1 M x" by (simp add: copied_def)
qed

definition bytes_all :: "u8 \<Rightarrow> u32" where
  "bytes_all c = (let b = push_bit 8 (ucast c) OR ucast c in b OR push_bit 16 b)"

lemma bytes_of_bytes_all:
  "ucast (bytes_all c) = c" "ucast (drop_bit 8 (bytes_all c)) = c" "ucast (drop_bit 16 (bytes_all c)) = c"
  "ucast (drop_bit 24 (bytes_all c)) = c"
  unfolding bytes_all_def Let_def by (rule bit_word_eqI; auto simp: bit_simps dest: bit_imp_le_length)+

lemma fill_word: "store32 s (bytes_all c) M = filled s c 4 M"
proof
  fix x
  have "x - s = k \<longleftrightarrow> x = s + k" for k by (auto simp: algebra_simps)
  note u32_less_4 [of "x - s", unfolded this]
  then show "store32 s (bytes_all c) M x = filled s c 4 M x"
    by (auto simp: store32_def filled_def bytes_of_bytes_all)
qed

lemma fill_byte: "M(s := c) = filled s c 1 M"
proof
  fix x
  have "x - s < 1 \<longleftrightarrow> x = s" by simp
  then show "(M(s := c)) x = filled s c 1 M x" by (simp add: filled_def)
qed

section \<open>The loops\<close>

lemma one_le: "n \<noteq> 0 \<Longrightarrow> 1 \<le> n" for n :: u32
  using unat_gt_0 [of n] by (simp add: word_le_nat_alt)

text \<open>A piece of length \<open>j\<close> and one of length \<open>k\<close>.\<close>

lemma pieces:
  fixes j k n :: u32
  assumes "j \<le> n" "k \<le> n - j"
  shows "j + k \<le> n" "j \<le> j + k" "j + k - j = k"
proof -
  have "unat (n - j) = unat n - unat j" "unat j \<le> unat n"
    using assms(1) by (simp_all add: word_le_nat_alt unat_sub)
  then have "unat j + unat k \<le> unat n" using assms(2) by (simp add: word_le_nat_alt)
  moreover from this have "unat (j + k) = unat j + unat k"
    using u32_bound [of n] by (simp add: unat_word_ariths)
  ultimately show "j + k \<le> n" "j \<le> j + k" by (simp_all add: word_le_nat_alt)
qed simp

lemma memset_bytes_spec: "memset_bytes m d n M = filled m d n M"
proof (induction m d n M rule: memset_bytes.induct)
  case (1 m d n M)
  show ?case
  proof (cases "n = 0")
    case False
    then show ?thesis
      using 1 filled_more [OF one_le [OF False], of m d M]
      by (subst memset_bytes.simps) (simp add: fill_byte)
  qed (simp add: memset_bytes.simps)
qed

text \<open>A loop over larger pieces does a part of the work: \<open>k\<close> bytes.\<close>

lemma memset_words_spec:
  "\<exists>k \<le> n. memset_words a (bytes_all c) n M = (a + k, n - k, filled a c k M)"
proof (induction a "bytes_all c" n M rule: memset_words.induct)
  case (1 a n M)
  show ?case
  proof (cases "4 \<le> n")
    case True
    then obtain k where k: "k \<le> n - 4" "memset_words (a + 4) (bytes_all c) (n - 4) (store32 a (bytes_all c) M) =
        (a + 4 + k, n - 4 - k, filled (a + 4) c k (store32 a (bytes_all c) M))"
      using 1 by blast
    note p = pieces [OF True k(1)]
    have "memset_words a (bytes_all c) n M = (a + (4 + k), n - (4 + k), filled a c (4 + k) M)"
      using True k(2) filled_more [OF p(2), of a c M] unfolding p(3)
      by (subst memset_words.simps) (simp add: fill_word add.assoc diff_diff_eq)
    then show ?thesis using p(1) by blast
  next
    case False
    then show ?thesis by (subst memset_words.simps) (auto intro!: exI [of _ 0])
  qed
qed

lemma four_words:
  assumes "16 \<le> n"
  shows "filled a c 16 M = filled (a + 12) c 4 (filled (a + 8) c 4 (filled (a + 4) c 4 (filled a c 4 M)))"
  using filled_more [of 4 16 a c M] filled_more [of 4 12 "a + 4" c] filled_more [of 4 8 "a + 8" c]
  by (simp add: add.assoc)

lemma memset_blocks_spec:
  "\<exists>k \<le> n. memset_blocks a (bytes_all c) n M = (a + k, n - k, filled a c k M)"
proof (induction a "bytes_all c" n M rule: memset_blocks.induct)
  case (1 a n M)
  show ?case
  proof (cases "16 \<le> n")
    case True
    then obtain k where k: "k \<le> n - 16"
      "memset_blocks (a + 16) (bytes_all c) (n - 16) (filled a c 16 M) =
        (a + 16 + k, n - 16 - k, filled (a + 16) c k (filled a c 16 M))"
      using 1 four_words [OF True, of a c M] by (auto simp: fill_word)
    note p = pieces [OF True k(1)]
    have "memset_blocks a (bytes_all c) n M = (a + (16 + k), n - (16 + k), filled a c (16 + k) M)"
      using True k(2) filled_more [OF p(2), of a c M] four_words [OF True, of a c M] unfolding p(3)
      by (subst memset_blocks.simps) (simp add: fill_word add.assoc diff_diff_eq)
    then show ?thesis using p(1) by blast
  next
    case False
    then show ?thesis by (subst memset_blocks.simps) (auto intro!: exI [of _ 0])
  qed
qed

lemma rt_memset_filled: "rt_memset s c n M = filled s (ucast c) n M"
proof -
  let ?d = "c AND 0xff" and ?c = "ucast c :: u8"
  have m: "(0xff :: u32) = mask 8" by (simp add: mask_eq_exp_minus_1)
  have d: "?d = ucast ?c" unfolding m by (rule bit_word_eqI) (auto simp: bit_simps)
  have b: "(push_bit 8 ?d OR ?d) OR push_bit 16 (push_bit 8 ?d OR ?d) = bytes_all ?c"
    unfolding bytes_all_def Let_def d ..
  have c: "ucast ?d = ?c" unfolding d by (rule bit_word_eqI) (simp add: bit_simps)
  obtain k where k: "k \<le> n" "memset_blocks s (bytes_all ?c) n M = (s + k, n - k, filled s ?c k M)"
    using memset_blocks_spec by blast
  obtain l where l: "l \<le> n - k" "memset_words (s + k) (bytes_all ?c) (n - k) (filled s ?c k M) =
      (s + k + l, n - k - l, filled (s + k) ?c l (filled s ?c k M))"
    using memset_words_spec by blast
  have "filled (s + k + l) ?c (n - k - l) (filled (s + k) ?c l (filled s ?c k M)) = filled s ?c n M"
    by (simp add: filled_more [OF l(1)] filled_more [OF k(1)])
  then show ?thesis
    unfolding rt_memset_def Let_def b c k(2) prod.case l(2) memset_bytes_spec by simp
qed

text \<open>Copying upwards.\<close>

definition upwards :: "u32 \<Rightarrow> u32 \<Rightarrow> u32 \<Rightarrow> bool" where
  "upwards d s n \<longleftrightarrow> n \<le> d - s \<or> d = s"

lemma upwards_less: "upwards d s n \<Longrightarrow> k \<le> n \<Longrightarrow> upwards d s k"
  by (auto simp: upwards_def)

lemma upwards_rest: "upwards d s n \<Longrightarrow> k \<le> n \<Longrightarrow> upwards (d + k) (s + k) (n - k)"
  by (auto simp: upwards_def word_le_nat_alt unat_sub)

lemma copy_pieces: "upwards d s n \<Longrightarrow> k \<le> n \<Longrightarrow> copied (d + k) (s + k) (n - k) (copied d s k M) = copied d s n M"
  using copied_more [of k n d s M] by (simp add: upwards_def)

lemma copy_up_spec: "upwards d s n \<Longrightarrow> copy_up d s n M = copied d s n M"
proof (induction d s n M rule: copy_up.induct)
  case (1 d s n M)
  show ?case
  proof (cases "n = 0")
    case False
    then show ?thesis
      using 1 copy_pieces [OF 1(2) one_le [OF False], of M] upwards_rest [OF 1(2) one_le [OF False]]
      by (subst copy_up.simps) (simp add: copy_byte)
  qed (simp add: copy_up.simps)
qed

lemma memcpy_words_spec:
  "upwards d s n \<Longrightarrow> \<exists>k \<le> n. memcpy_words d s n M = (d + k, s + k, n - k, copied d s k M)"
proof (induction d s n M rule: memcpy_words.induct)
  case (1 d s n M)
  show ?case
  proof (cases "4 \<le> n")
    case True
    then obtain k where k: "k \<le> n - 4" "memcpy_words (d + 4) (s + 4) (n - 4) (copied d s 4 M) =
        (d + 4 + k, s + 4 + k, n - 4 - k, copied (d + 4) (s + 4) k (copied d s 4 M))"
      using 1 upwards_rest [OF 1(2) True] by (auto simp: copy_word)
    note p = pieces [OF True k(1)]
    have "memcpy_words d s n M = (d + (4 + k), s + (4 + k), n - (4 + k), copied d s (4 + k) M)"
      using True k(2) copy_pieces [OF upwards_less [OF 1(2) p(1)] p(2), of M] unfolding p(3)
      by (subst memcpy_words.simps) (simp add: copy_word add.assoc diff_diff_eq)
    then show ?thesis using p(1) by blast
  next
    case False
    then show ?thesis by (subst memcpy_words.simps) (auto intro!: exI [of _ 0])
  qed
qed

lemma copy_four_words:
  assumes "upwards d s n" "16 \<le> n"
  shows "copied (d + 12) (s + 12) 4 (copied (d + 8) (s + 8) 4 (copied (d + 4) (s + 4) 4 (copied d s 4 M))) =
    copied d s 16 M"
proof -
  have "upwards d s 16" "upwards d s 12" "upwards d s 8"
    using assms by (auto intro: upwards_less elim!: order.trans [rotated])
  then show ?thesis
    using copy_pieces [of d s 16 12 M] copy_pieces [of d s 12 8 M] copy_pieces [of d s 8 4 M] by simp
qed

lemma memcpy_blocks_spec:
  "upwards d s n \<Longrightarrow> \<exists>k \<le> n. memcpy_blocks d s n M = (d + k, s + k, n - k, copied d s k M)"
proof (induction d s n M rule: memcpy_blocks.induct)
  case (1 d s n M)
  show ?case
  proof (cases "16 \<le> n")
    case True
    note w = copy_four_words [OF 1(2) True, of M]
    obtain k where k: "k \<le> n - 16" "memcpy_blocks (d + 16) (s + 16) (n - 16) (copied d s 16 M) =
        (d + 16 + k, s + 16 + k, n - 16 - k, copied (d + 16) (s + 16) k (copied d s 16 M))"
      using 1(1) [OF True refl refl refl refl upwards_rest [OF 1(2) True]] by (auto simp: copy_word w)
    note p = pieces [OF True k(1)]
    have "memcpy_blocks d s n M = (d + (16 + k), s + (16 + k), n - (16 + k), copied d s (16 + k) M)"
      using True k(2) copy_pieces [OF upwards_less [OF 1(2) p(1)] p(2), of M] unfolding p(3)
      by (subst memcpy_blocks.simps) (simp add: copy_word w Let_def add.assoc diff_diff_eq)
    then show ?thesis using p(1) by blast
  next
    case False
    then show ?thesis by (subst memcpy_blocks.simps) (auto intro!: exI [of _ 0])
  qed
qed

lemma rt_memcpy_copied:
  assumes u: "upwards d s n"
  shows "rt_memcpy d s n M = copied d s n M"
proof -
  obtain k where k: "k \<le> n" "memcpy_blocks d s n M = (d + k, s + k, n - k, copied d s k M)"
    using memcpy_blocks_spec [OF u] by blast
  note u1 = upwards_rest [OF u k(1)]
  obtain l where l: "l \<le> n - k" "memcpy_words (d + k) (s + k) (n - k) (copied d s k M) =
      (d + k + l, s + k + l, n - k - l, copied (d + k) (s + k) l (copied d s k M))"
    using memcpy_words_spec [OF u1] by blast
  have "copy_up (d + k + l) (s + k + l) (n - k - l) (copied (d + k) (s + k) l (copied d s k M)) = copied d s n M"
    by (simp add: copy_up_spec [OF upwards_rest [OF u1 l(1)]] copy_pieces [OF u1 l(1)] copy_pieces [OF u k(1)])
  then show ?thesis
    unfolding rt_memcpy_def Let_def k(2) prod.case l(2) copy_up_spec [OF u] by simp
qed

text \<open>Copying downwards.\<close>

lemma copy_down_spec:
  assumes "unat (d - s) + unat n \<le> 2 ^ 32"
  shows "copy_down (d + n) (s + n) n M = copied d s n M"
  using assms
proof (induction "unat n" arbitrary: n M)
  case 0
  then show ?case by (simp add: copy_down.simps unat_eq_0)
next
  case (Suc k)
  let ?m = "n - 1"
  have n: "n \<noteq> 0" using Suc(2) by auto
  have m: "unat ?m = k" using Suc(2) one_le [OF n] by (simp add: unat_sub word_le_nat_alt)
  have e: "d + n - 1 = d + ?m" "s + n - 1 = s + ?m" by simp_all
  let ?M = "M(d + ?m := M (s + ?m))"
  have "copy_down (d + n) (s + n) n M = copy_down (d + ?m) (s + ?m) ?m ?M"
    using n e by (subst copy_down.simps) (simp only: if_False)
  also have "\<dots> = copied d s ?m ?M" using Suc(1) [of ?m] Suc(2,3) m by simp
  also have "\<dots> = copied d s n M"
  proof
    fix a
    have mn: "?m < n" using m Suc(2) by (simp add: word_less_nat_alt)
    have ne: "s + (a - d) \<noteq> d + ?m" if "a - d < ?m"
    proof
      assume "s + (a - d) = d + ?m"
      then have e: "a - d = (d - s) + ?m" by (simp add: algebra_simps)
      have "unat ((d - s) + ?m) = unat (d - s) + k"
        using Suc(2,3) m by (simp add: unat_word_ariths)
      then show False using that m unfolding e word_less_nat_alt by linarith
    qed
    have "a - d < n \<longleftrightarrow> a - d < ?m \<or> a - d = ?m"
      using m Suc(2) by (auto simp: word_less_nat_alt less_Suc_eq word_unat_eq_iff)
    moreover have eq: "a = d + ?m \<longleftrightarrow> a - d = ?m" by (auto simp: algebra_simps)
    ultimately show "copied d s ?m ?M a = copied d s n M a"
      using ne eq by (auto simp: copied_def fun_upd_def simp del: diff_add_eq_diff_diff_swap)
  qed
  finally show ?case .
qed

lemma rt_memmove_copied:
  assumes s: "unat s + unat n < 2 ^ 32" and d: "unat d + unat n \<le> 2 ^ 32"
  shows "rt_memmove d s n M = copied d s n M"
proof (cases "s < d \<and> d < s + n")
  case True
  then have "unat (d - s) = unat d - unat s" by (simp add: unat_sub word_less_nat_alt word_le_nat_alt)
  then show ?thesis using True d by (simp add: rt_memmove_def copy_down_spec)
next
  case False
  have sn: "unat (s + n) = unat s + unat n" using s by (simp add: unat_word_ariths)
  have "upwards d s n"
  proof (cases "s < d")
    case True
    then show ?thesis using False sn
      by (auto simp: upwards_def word_less_nat_alt word_le_nat_alt unat_sub)
  next
    case lt: False
    then show ?thesis using unat_sub_if' [of d s] s u32_bound [of d]
      by (auto simp: upwards_def word_less_nat_alt word_le_nat_alt word_unat_eq_iff)
  qed
  then show ?thesis using False by (simp only: rt_memmove_def copy_up_spec if_False)
qed

section \<open>Comparing\<close>

text \<open>The bytes from an address on.\<close>

definition area :: "memory \<Rightarrow> u32 \<Rightarrow> nat \<Rightarrow> u8 list" where
  "area M p n = map (\<lambda>i. M (p + of_nat i)) [0..<n]"

lemma area_Suc [simp]: "area M p (Suc n) = M p # area M (p + 1) n" "area M p 0 = []"
  by (auto simp: area_def upt_conv_Cons map_Suc_upt [symmetric] algebra_simps simp del: upt_Suc)

lemma length_area [simp]: "length (area M p n) = n"
  by (simp add: area_def)

fun byte_diff :: "u8 list \<Rightarrow> u8 list \<Rightarrow> int" where
  "byte_diff (x # xs) (y # ys) = (if x = y then byte_diff xs ys else uint x - uint y)"
| "byte_diff xs ys = 0"

lemma rt_memcmp_diff: "rt_memcmp M p q n = byte_diff (area M p (unat n)) (area M q (unat n))"
proof (induction M p q n rule: rt_memcmp.induct)
  case (1 M p q n)
  show ?case
  proof (cases "n = 0")
    case False
    then have "unat n = Suc (unat (n - 1))" using one_le [of n] by (simp add: unat_sub word_le_nat_alt)
    then show ?thesis using 1 False
      by (subst rt_memcmp.simps) (auto simp: word_gt_0 Let_def word_uint_eq_iff)
  qed (simp add: rt_memcmp.simps)
qed

lemma byte_diff_0: "length xs = length ys \<Longrightarrow> byte_diff xs ys = 0 \<longleftrightarrow> xs = ys"
  by (induction xs ys rule: byte_diff.induct) (auto simp: word_uint_eq_iff)

end
