(* ===== verification/Kservice_Str.thy ===== *)
theory Kservice_Str
  imports Kservice_Mem "HOL-Library.Sublist"
begin

text \<open>
  The string routines of \<^verbatim>\<open>src/kservice.c\<close>.  A string is a pointer into the memory; \<open>cstr M p xs\<close>
  says that the bytes \<open>xs\<close> and a terminating zero are found at \<open>p\<close>.  A routine that runs until it
  finds a zero is a partial function, with \<open>None\<close> for a run that never ends.  A plain \<^verbatim>\<open>char\<close> is
  unsigned on RISC-V.
\<close>

section \<open>The routines\<close>

partial_function (option) strlen_loop :: "memory \<Rightarrow> u32 \<Rightarrow> u32 option" where
  "strlen_loop M sc = (if M sc \<noteq> 0 then strlen_loop M (sc + 1) else Some sc)"

definition rt_strlen :: "memory \<Rightarrow> u32 \<Rightarrow> u32 option" where
  "rt_strlen M s = map_option (\<lambda>sc. sc - s) (strlen_loop M s)"

text \<open>\<^verbatim>\<open>for (sc = s; *sc != 0 && (sc - s) < maxlen; ++sc)\<close>, with \<open>n\<close> for \<^verbatim>\<open>sc - s\<close>\<close>

function strnlen_loop :: "memory \<Rightarrow> u32 \<Rightarrow> u32 \<Rightarrow> u32 \<Rightarrow> u32" where
  "strnlen_loop M s n maxlen =
     (if M (s + n) \<noteq> 0 \<and> n < maxlen then strnlen_loop M s (n + 1) maxlen else n)"
  by pat_completeness auto
termination
proof (relation "measure (\<lambda>(M, s, n, maxlen). unat (maxlen - n))")
  fix M s and n maxlen :: u32
  assume "M (s + n) \<noteq> (0 :: u8) \<and> n < maxlen"
  then have "maxlen - n \<noteq> 0" by auto
  then have "unat (maxlen - n - 1) < unat (maxlen - n)" by (rule unat_minus_one_less)
  then show "((M, s, n + 1, maxlen), M, s, n, maxlen) \<in> measure (\<lambda>(M, s, n, maxlen). unat (maxlen - n))"
    by (simp add: diff_diff_eq)
qed simp

definition rt_strnlen :: "memory \<Rightarrow> u32 \<Rightarrow> u32 \<Rightarrow> u32" where
  "rt_strnlen M s maxlen = strnlen_loop M s 0 maxlen"

partial_function (option) rt_strcmp :: "memory \<Rightarrow> u32 \<Rightarrow> u32 \<Rightarrow> int option" where
  "rt_strcmp M cs ct =
     (if M cs \<noteq> 0 \<and> M cs = M ct then rt_strcmp M (cs + 1) (ct + 1)
      else Some (uint (M cs) - uint (M ct)))"

text \<open>The difference is stored in a \<^verbatim>\<open>signed char\<close>.\<close>

function strncmp_loop :: "memory \<Rightarrow> u32 \<Rightarrow> u32 \<Rightarrow> u32 \<Rightarrow> int \<Rightarrow> int" where
  "strncmp_loop M cs ct count res =
     (if count \<noteq> 0 then
        let res = sint (M cs - M ct)
        in if res \<noteq> 0 \<or> M cs = 0 then res
           else strncmp_loop M (cs + 1) (ct + 1) (count - 1) res
      else res)"
  by pat_completeness auto
termination
  by (relation "measure (\<lambda>(M, a, b, n, r). unat n)") (simp_all add: unat_minus_one_less)

definition rt_strncmp :: "memory \<Rightarrow> u32 \<Rightarrow> u32 \<Rightarrow> u32 \<Rightarrow> int" where
  "rt_strncmp M cs ct count = strncmp_loop M cs ct count 0"

text \<open>The capital letters are 65 to 90.\<close>

definition fold_case :: "u8 \<Rightarrow> int" where
  "fold_case c = (let ca = uint c in if 65 \<le> ca \<and> ca \<le> 90 then ca + (97 - 65) else ca)"

partial_function (option) rt_strcasecmp :: "memory \<Rightarrow> u32 \<Rightarrow> u32 \<Rightarrow> u32 option" where
  "rt_strcasecmp M a b =
     (let ca = fold_case (M a); cb = fold_case (M b)
      in if ca = cb \<and> ca \<noteq> 0 then rt_strcasecmp M (a + 1) (b + 1)
         else Some (word_of_int (ca - cb)))"

lemma unat_minus_two_less: "n \<noteq> 1 \<Longrightarrow> unat (n - 2) < unat (n - 1)" for n :: u32
  using unat_minus_one_less [of "n - 1"] by simp

text \<open>\<^verbatim>\<open>while (--n != 0) *d++ = 0;\<close> and the loop around it\<close>

function strncpy_pad :: "u32 \<Rightarrow> u32 \<Rightarrow> memory \<Rightarrow> memory" where
  "strncpy_pad d n M = (if n - 1 \<noteq> 0 then strncpy_pad (d + 1) (n - 1) (M(d := 0)) else M)"
  by pat_completeness auto
termination
  by (relation "measure (\<lambda>(d, n, M). unat (n - 1))") (simp_all add: unat_minus_two_less)

function strncpy_loop :: "u32 \<Rightarrow> u32 \<Rightarrow> u32 \<Rightarrow> memory \<Rightarrow> memory" where
  "strncpy_loop d s n M =
     (let c = M s; M = M(d := c)
      in if c = 0 then strncpy_pad (d + 1) n M
         else if n - 1 \<noteq> 0 then strncpy_loop (d + 1) (s + 1) (n - 1) M else M)"
  by pat_completeness auto
termination
  by (relation "measure (\<lambda>(d, s, n, M). unat (n - 1))") (simp_all add: unat_minus_two_less)

definition rt_strncpy :: "u32 \<Rightarrow> u32 \<Rightarrow> u32 \<Rightarrow> memory \<Rightarrow> memory" where
  "rt_strncpy dst src n M = (if n \<noteq> 0 then strncpy_loop dst src n M else M)"

text \<open>\<open>None\<close> as the result of the loop is \<^verbatim>\<open>RT_NULL\<close>.\<close>

function strstr_loop :: "memory \<Rightarrow> u32 \<Rightarrow> u32 \<Rightarrow> int \<Rightarrow> int \<Rightarrow> u32 option" where
  "strstr_loop M s1 s2 l1 l2 =
     (if l2 \<le> l1 then
        if rt_memcmp M s1 s2 (word_of_int l2) = 0 then Some s1
        else strstr_loop M (s1 + 1) s2 (l1 - 1) l2
      else None)"
  by pat_completeness auto
termination by (relation "measure (\<lambda>(M, a, b, l1, l2). nat (l1 - l2 + 1))") auto

definition rt_strstr :: "memory \<Rightarrow> u32 \<Rightarrow> u32 \<Rightarrow> u32 option option" where
  "rt_strstr M s1 s2 = do {
     l2 \<leftarrow> rt_strlen M s2;
     if l2 = 0 then Some (Some s1)
     else do {
       l1 \<leftarrow> rt_strlen M s1;
       Some (strstr_loop M s1 s2 (sint l1) (sint l2))
     }
   }"

declare strnlen_loop.simps [simp del] strncmp_loop.simps [simp del] strncpy_pad.simps [simp del]
  strncpy_loop.simps [simp del] strstr_loop.simps [simp del]

section \<open>Strings in memory\<close>

fun cstr :: "memory \<Rightarrow> u32 \<Rightarrow> u8 list \<Rightarrow> bool" where
  "cstr M p [] \<longleftrightarrow> M p = 0"
| "cstr M p (x # xs) \<longleftrightarrow> x \<noteq> 0 \<and> M p = x \<and> cstr M (p + 1) xs"

lemma cstr_nth:
  "cstr M p xs \<Longrightarrow> i \<le> length xs \<Longrightarrow> M (p + of_nat i) = (xs @ [0]) ! i"
proof (induction xs arbitrary: p i)
  case (Cons x xs)
  show ?case
  proof (cases i)
    case (Suc j)
    then have "M (p + 1 + of_nat j) = (xs @ [0]) ! j" using Cons by simp
    then show ?thesis using Suc by (simp add: algebra_simps)
  qed (use Cons in simp)
qed simp

lemma cstr_0: "cstr M p xs \<Longrightarrow> 0 \<notin> set xs"
  by (induction xs arbitrary: p) auto

lemma cstr_area: "cstr M p xs \<Longrightarrow> n \<le> Suc (length xs) \<Longrightarrow> area M p n = take n (xs @ [0])"
  by (rule nth_equalityI) (auto simp: area_def cstr_nth simp del: take_append)

text \<open>A string does not go round the whole memory.\<close>

lemma cstr_length: "cstr M p xs \<Longrightarrow> length xs < 2 ^ 32"
proof (rule ccontr)
  assume c: "cstr M p xs" and l: "\<not> length xs < 2 ^ 32"
  define k where "k = length xs - 2 ^ 32"
  have k: "length xs = k + 2 ^ 32" "k < length xs" using l by (simp_all add: k_def)
  have "(of_nat (length xs) :: u32) = of_nat k" unfolding k(1) by simp
  then have "M (p + of_nat k) = 0" using cstr_nth [OF c, of "length xs"] by simp
  moreover have "M (p + of_nat k) = xs ! k"
    using cstr_nth [OF c, of k] k(2) by (simp add: nth_append)
  ultimately show False using cstr_0 [OF c] nth_mem [OF k(2)] by simp
qed

lemma unat_length: "cstr M p xs \<Longrightarrow> unat (of_nat (length xs) :: u32) = length xs"
  using cstr_length [of M p xs] by (simp add: unsigned_of_nat take_bit_nat_eq_self)

section \<open>Lengths\<close>

lemma strlen_loop_end: "cstr M p xs \<Longrightarrow> strlen_loop M p = Some (p + of_nat (length xs))"
proof (induction xs arbitrary: p)
  case Nil
  then show ?case by (subst strlen_loop.simps) simp
next
  case (Cons x xs)
  then show ?case by (subst strlen_loop.simps) (simp add: algebra_simps)
qed

lemma strlen_length: "cstr M p xs \<Longrightarrow> rt_strlen M p = Some (of_nat (length xs))"
  by (simp add: rt_strlen_def strlen_loop_end)

section \<open>Comparing\<close>

lemma strcmp_diff:
  "cstr M p xs \<Longrightarrow> cstr M q ys \<Longrightarrow> rt_strcmp M p q = Some (byte_diff (xs @ [0]) (ys @ [0]))"
proof (induction xs arbitrary: p q ys)
  case Nil
  then show ?case by (cases ys) (subst rt_strcmp.simps; auto)+
next
  case (Cons x xs)
  show ?case
  proof (cases ys)
    case Nil
    then show ?thesis using Cons.prems by (subst rt_strcmp.simps) auto
  next
    case (Cons y zs)
    then show ?thesis using Cons.prems Cons.IH [of "p + 1" "q + 1" zs] by (subst rt_strcmp.simps) auto
  qed
qed

lemma byte_diff_order:
  assumes "0 \<notin> set xs" "0 \<notin> set ys"
  shows "byte_diff (xs @ [0]) (ys @ [0]) = 0 \<longleftrightarrow> xs = ys"
    "byte_diff (xs @ [0]) (ys @ [0]) < 0 \<longleftrightarrow> (xs, ys) \<in> lexord {(x, y). x < y}"
proof -
  have "(byte_diff (xs @ [0]) (ys @ [0]) = 0 \<longleftrightarrow> xs = ys) \<and>
      (byte_diff (xs @ [0]) (ys @ [0]) < 0 \<longleftrightarrow> (xs, ys) \<in> lexord {(x, y). x < y})"
    using assms
  proof (induction xs arbitrary: ys)
    case Nil
    then show ?case by (cases ys) (auto simp: word_uint_eq_iff word_less_def less_le)
  next
    case (Cons x xs)
    then show ?case by (cases ys) (auto simp: word_uint_eq_iff word_less_def)
  qed
  then show "byte_diff (xs @ [0]) (ys @ [0]) = 0 \<longleftrightarrow> xs = ys"
    "byte_diff (xs @ [0]) (ys @ [0]) < 0 \<longleftrightarrow> (xs, ys) \<in> lexord {(x, y). x < y}" by blast+
qed

lemma strncmp_loop_diff:
  assumes "cstr M p xs" "cstr M q ys"
  shows "strncmp_loop M p q n 0 =
    sint (word_of_int (byte_diff (take (unat n) (xs @ [0])) (take (unat n) (ys @ [0]))) :: u8)"
  using assms
proof (induction "unat n" arbitrary: p q n xs ys)
  case 0
  then show ?case by (subst strncmp_loop.simps) (simp add: unat_eq_0)
next
  case (Suc k)
  have n: "n \<noteq> 0" using Suc(2) by auto
  have k: "unat (n - 1) = k" using Suc(2) by (intro unat_pred) simp
  have hd: "M p = hd (xs @ [0])" "M q = hd (ys @ [0])" using Suc(3,4) by (cases xs; cases ys; simp)+
  have diff: "sint (M p - M q) = sint (word_of_int (uint (M p) - uint (M q)) :: u8)" by simp
  have z: "sint (M p - M q) = 0 \<longleftrightarrow> M p = M q" by (simp add: signed_eq_0_iff)
  show ?case
  proof (cases "M p = M q \<and> M p \<noteq> 0")
    case True
    then obtain x xs' ys' where xy: "xs = x # xs'" "ys = x # ys'" using hd by (cases xs; cases ys) auto
    then have "cstr M (p + 1) xs'" "cstr M (q + 1) ys'" using Suc(3,4) by simp_all
    from Suc(1) [OF k [symmetric] this] show ?thesis
      using True n k xy by (subst strncmp_loop.simps) (auto simp flip: Suc(2))
  next
    case False
    then show ?thesis
      using n hd z Suc(2-4) by (subst strncmp_loop.simps) (cases xs; cases ys; auto simp flip: Suc(2))
  qed
qed

definition lower :: "u8 \<Rightarrow> u8" where
  "lower c = word_of_int (fold_case c)"

lemma uint_lower: "uint (lower c) = fold_case c"
proof -
  have "0 \<le> uint c" "uint c < 256" using unsigned_less [of c] by simp_all
  then have "0 \<le> fold_case c" "fold_case c < 256" by (auto simp: fold_case_def Let_def)
  then show ?thesis by (simp add: lower_def unsigned_of_int take_bit_eq_mod)
qed

lemma fold_case_lower: "fold_case c = fold_case d \<longleftrightarrow> lower c = lower d" "fold_case c = 0 \<longleftrightarrow> c = 0"
proof -
  show "fold_case c = fold_case d \<longleftrightarrow> lower c = lower d" by (simp add: word_uint_eq_iff uint_lower)
  show "fold_case c = 0 \<longleftrightarrow> c = 0" by (auto simp: fold_case_def Let_def uint_0_iff)
qed

lemma lower_0 [simp]: "lower c = 0 \<longleftrightarrow> c = 0" "lower 0 = 0" "fold_case 0 = 0"
  using fold_case_lower(2) [of c] fold_case_lower(2) [of 0] by (simp_all add: word_uint_eq_iff uint_lower)

lemma strcasecmp_diff:
  "cstr M p xs \<Longrightarrow> cstr M q ys \<Longrightarrow>
   rt_strcasecmp M p q = Some (word_of_int (byte_diff (map lower (xs @ [0])) (map lower (ys @ [0]))))"
proof (induction xs arbitrary: p q ys)
  case Nil
  then show ?case
    by (cases ys) (subst rt_strcasecmp.simps; auto simp: fold_case_lower uint_lower Let_def)+
next
  case (Cons x xs)
  show ?case
  proof (cases ys)
    case Nil
    then show ?thesis using Cons.prems
      by (subst rt_strcasecmp.simps) (auto simp: fold_case_lower uint_lower Let_def)
  next
    case (Cons y zs)
    then show ?thesis using Cons.prems Cons.IH [of "p + 1" "q + 1" zs]
      by (subst rt_strcasecmp.simps) (auto simp: fold_case_lower uint_lower Let_def)
  qed
qed

section \<open>Copying\<close>

text \<open>What \<^verbatim>\<open>rt_strncpy\<close> writes: the string, cut or filled up with zeros to \<open>n\<close> bytes.\<close>

definition stored :: "u32 \<Rightarrow> u8 list \<Rightarrow> memory \<Rightarrow> memory" where
  "stored d bs M = (\<lambda>a. if unat (a - d) < length bs then bs ! unat (a - d) else M a)"

definition padded :: "nat \<Rightarrow> u8 list \<Rightarrow> u8 list" where
  "padded n xs = take n (xs @ replicate n 0)"

lemma stored_Nil [simp]: "stored d [] M = M"
  by (simp add: stored_def)

lemma stored_Cons:
  assumes "length bs < 2 ^ 32"
  shows "stored d (b # bs) M = stored (d + 1) bs (M(d := b))"
proof
  fix a
  show "stored d (b # bs) M a = stored (d + 1) bs (M(d := b)) a"
  proof (cases "a = d")
    case True
    have "unat (- 1 :: u32) = 2 ^ 32 - 1" by (simp add: unsigned_minus_1_eq_mask mask_eq_exp_minus_1)
    then show ?thesis using True assms by (simp add: stored_def)
  next
    case False
    then have "unat (a - d) = Suc (unat (a - d - 1))" using unat_minus_one [of "a - d"] unat_gt_0 [of "a - d"] by simp
    then show ?thesis using False by (simp add: stored_def diff_diff_eq)
  qed
qed

lemma cstr_cong:
  "(\<And>i. i \<le> length xs \<Longrightarrow> M' (p + of_nat i) = M (p + of_nat i)) \<Longrightarrow> cstr M' p xs = cstr M p xs"
proof (induction xs arbitrary: p)
  case Nil
  from Nil [of 0] show ?case by simp
next
  case (Cons x xs)
  have "M' (p + 1 + of_nat i) = M (p + 1 + of_nat i)" if "i \<le> length xs" for i
    using Cons.prems [of "Suc i"] that by (simp add: algebra_simps)
  then have "cstr M' (p + 1) xs = cstr M (p + 1) xs" by (rule Cons.IH)
  then show ?case using Cons.prems [of 0] by simp
qed

lemma strncpy_pad_stored:
  "unat n = Suc k \<Longrightarrow> strncpy_pad d n M = stored d (replicate k 0) M"
proof (induction k arbitrary: d n M)
  case 0
  then have "n - 1 = 0" using unat_pred [of n] by (simp add: unat_eq_0)
  then show ?case by (subst strncpy_pad.simps) simp
next
  case (Suc k)
  have n: "unat (n - 1) = Suc k" using Suc(2) by (rule unat_pred)
  then have nz: "n - 1 \<noteq> 0" by auto
  have "k < 2 ^ 32" using Suc(2) u32_bound [of n] by simp
  have "strncpy_pad d n M = strncpy_pad (d + 1) (n - 1) (M(d := 0))"
    using nz by (subst strncpy_pad.simps) simp
  also have "\<dots> = stored (d + 1) (replicate k 0) (M(d := 0))" by (rule Suc.IH [OF n])
  also have "\<dots> = stored d (replicate (Suc k) 0) M" using \<open>k < 2 ^ 32\<close> by (simp add: stored_Cons)
  finally show ?case .
qed

lemma strncpy_loop_stored:
  assumes "cstr M s xs" "unat n = Suc k"
    and "\<forall>i \<le> length xs. \<forall>j < unat n. s + of_nat i \<noteq> d + of_nat j"
  shows "strncpy_loop d s n M = stored d (padded (Suc k) xs) M"
  using assms
proof (induction xs arbitrary: d s n k M)
  case Nil
  have "k < 2 ^ 32" using Nil(2) u32_bound [of n] by simp
  then show ?case using Nil
    by (subst strncpy_loop.simps) (simp add: strncpy_pad_stored padded_def stored_Cons)
next
  case (Cons x xs)
  have x: "M s = x" "x \<noteq> 0" "cstr M (s + 1) xs" using Cons.prems(1) by simp_all
  have lim: "k < 2 ^ 32" using Cons.prems(2) u32_bound [of n] by simp
  show ?case
  proof (cases k)
    case 0
    then have "n - 1 = 0" using Cons.prems(2) unat_pred [of n] by (simp add: unat_eq_0)
    then show ?thesis using x 0
      by (subst strncpy_loop.simps) (simp add: padded_def stored_Cons Let_def)
  next
    case (Suc l)
    then have n: "unat (n - 1) = Suc l" using Cons.prems(2) by (intro unat_pred) simp
    then have nz: "n - 1 \<noteq> 0" by auto
    let ?M = "M(d := x)"
    have dis: "s + of_nat i \<noteq> d + of_nat j" if "i \<le> Suc (length xs)" "j < unat n" for i j
      using Cons.prems(3) that by simp
    have c: "cstr ?M (s + 1) xs = cstr M (s + 1) xs"
      by (rule cstr_cong) (use dis [of "Suc _" 0] Cons.prems(2) in \<open>auto simp: algebra_simps\<close>)
    have dd: "\<forall>i \<le> length xs. \<forall>j < unat (n - 1). s + 1 + of_nat i \<noteq> d + 1 + of_nat j"
      using dis [of "Suc _" "Suc _"] n Cons.prems(2) Suc by (auto simp: algebra_simps)
    have "strncpy_loop (d + 1) (s + 1) (n - 1) ?M = stored (d + 1) (padded (Suc l) xs) ?M"
      using x(3) unfolding c [symmetric] by (rule Cons.IH [OF _ n dd])
    moreover have "padded (Suc k) (x # xs) = x # padded k xs"
      by (simp add: padded_def replicate_append_same [symmetric])
    moreover have "length (padded k xs) < 2 ^ 32" using lim by (simp add: padded_def)
    ultimately show ?thesis using x nz Suc
      by (subst strncpy_loop.simps) (simp add: stored_Cons Let_def)
  qed
qed

section \<open>Searching\<close>

text \<open>The first position at which the one string begins in the other.\<close>

fun find_prefix :: "u8 list \<Rightarrow> u8 list \<Rightarrow> nat option" where
  "find_prefix ys [] = (if ys = [] then Some 0 else None)"
| "find_prefix ys (x # xs) = (if prefix ys (x # xs) then Some 0 else map_option Suc (find_prefix ys xs))"

lemma find_prefix_Some:
  "find_prefix ys xs = Some i \<longleftrightarrow>
    i \<le> length xs \<and> prefix ys (drop i xs) \<and> (\<forall>j < i. \<not> prefix ys (drop j xs))"
proof (induction xs arbitrary: i)
  case (Cons x xs)
  then show ?case by (cases i) (auto simp: All_less_Suc2)
qed auto

lemma find_prefix_None: "find_prefix ys xs = None \<longleftrightarrow> \<not> sublist ys xs"
  by (induction xs) (auto simp: sublist_Cons_right)

lemma memcmp_prefix:
  assumes "cstr M p xs" "cstr M q ys" "length ys \<le> length xs"
  shows "rt_memcmp M p q (of_nat (length ys)) = 0 \<longleftrightarrow> prefix ys xs"
proof -
  have "area M p (length ys) = take (length ys) xs" "area M q (length ys) = ys"
    using cstr_area [OF assms(1)] cstr_area [OF assms(2)] assms(3) by simp_all
  moreover have "take (length ys) xs = ys \<longleftrightarrow> prefix ys xs"
    by (metis append_eq_conv_conj prefix_def)
  ultimately show ?thesis
    using assms(3) by (simp add: rt_memcmp_diff unat_length [OF assms(2)] byte_diff_0)
qed

lemma strstr_loop_find:
  assumes "cstr M p xs" "cstr M q ys" "ys \<noteq> []"
  shows "strstr_loop M p q (int (length xs)) (int (length ys)) =
    map_option (\<lambda>i. p + of_nat i) (find_prefix ys xs)"
  using assms
proof (induction xs arbitrary: p)
  case Nil
  then show ?case by (subst strstr_loop.simps) simp
next
  case (Cons x xs)
  have w: "word_of_int (int (length ys)) = (of_nat (length ys) :: u32)" by simp
  show ?case
  proof (cases "length ys \<le> length (x # xs)")
    case True
    have "strstr_loop M (p + 1) q (int (length xs)) (int (length ys)) =
        map_option (\<lambda>i. p + 1 + of_nat i) (find_prefix ys xs)"
      using Cons by simp
    then show ?thesis
      using True memcmp_prefix [OF Cons.prems(1,2) True] unfolding w
      by (subst strstr_loop.simps) (simp add: option.map_comp comp_def algebra_simps)
  next
    case False
    then have "find_prefix ys (x # xs) = None"
      using sublist_length_le [of ys "x # xs"] by (auto simp: find_prefix_None simp del: find_prefix.simps)
    then show ?thesis using False by (subst strstr_loop.simps) simp
  qed
qed

lemma strstr_find:
  assumes x: "cstr M p xs" and y: "cstr M q ys" and l: "length xs < 2 ^ 31" "length ys < 2 ^ 31"
  shows "rt_strstr M p q = Some (map_option (\<lambda>i. p + of_nat i) (find_prefix ys xs))"
proof (cases "ys = []")
  case True
  then have "find_prefix ys xs = Some 0" by (cases xs) simp_all
  then show ?thesis using True strlen_length [OF y] by (simp add: rt_strstr_def)
next
  case False
  have "sint (of_nat n :: u32) = int n" if "n < 2 ^ 31" for n
    using that by (simp add: signed_of_nat signed_take_bit_int_eq_self)
  moreover have "(of_nat (length ys) :: u32) \<noteq> 0"
    using False unat_length [OF y] by (auto simp flip: unat_eq_0)
  ultimately show ?thesis
    using strlen_length [OF x] strlen_length [OF y] strstr_loop_find [OF x y False] l
    by (simp add: rt_strstr_def)
qed

end
