(* ===== verification/Kservice_Print.thy ===== *)
theory Kservice_Print
  imports Kservice_Str
begin

text \<open>
  The formatted output of \<^verbatim>\<open>src/kservice.c\<close>: \<^verbatim>\<open>print_number\<close> and \<^verbatim>\<open>rt_vsnprintf\<close>, in the
  configuration of the port (\<^verbatim>\<open>RT_PRINTF_PRECISION\<close> on, \<^verbatim>\<open>RT_PRINTF_LONGLONG\<close> and
  \<^verbatim>\<open>RT_PRINTF_SPECIAL\<close> off).

  The format and the strings among the arguments are lists of bytes, without the terminating
  zero; \<^verbatim>\<open>va_list\<close> is a list of arguments, and an argument that is missing or of another kind is
  \<open>None\<close>.  The output is a pointer together with the memory that is written; a pointer beyond
  \<^verbatim>\<open>end\<close> is moved on without writing.  Numbers in the format are unbounded integers: in the C
  code they overflow from \<open>2 ^ 31\<close> on.
\<close>

abbreviation ch :: "char \<Rightarrow> u8" where "ch \<equiv> of_char"

datatype arg = Word u32 | Str "u8 list option"

type_synonym out = "u32 \<times> memory"

section \<open>Numbers\<close>

definition ZEROPAD :: u8 where "ZEROPAD = 1"
definition SIGN :: u8 where "SIGN = 2"
definition PLUS :: u8 where "PLUS = 4"
definition SPACE :: u8 where "SPACE = 8"
definition LEFT :: u8 where "LEFT = 16"
definition SPECIAL :: u8 where "SPECIAL = 32"
definition LARGE :: u8 where "LARGE = 64"

lemmas flag_defs = ZEROPAD_def SIGN_def PLUS_def SPACE_def LEFT_def SPECIAL_def LARGE_def

definition divide :: "u32 \<Rightarrow> int \<Rightarrow> nat \<times> u32" where
  "divide n base = (if base = 10 then (unat (n mod 10), n div 10) else (unat (n mod 16), n div 16))"

definition is_digit :: "u8 \<Rightarrow> bool" where
  "is_digit c \<longleftrightarrow> c - ch CHR ''0'' < 10"

text \<open>The value, and the rest of the string.\<close>

fun skip_atoi_loop :: "int \<Rightarrow> u8 list \<Rightarrow> int \<times> u8 list" where
  "skip_atoi_loop i [] = (i, [])"
| "skip_atoi_loop i (c # cs) =
     (if is_digit c then skip_atoi_loop (i * 10 + uint c - uint (ch CHR ''0'')) cs else (i, c # cs))"

definition skip_atoi :: "u8 list \<Rightarrow> int \<times> u8 list" where
  "skip_atoi s = skip_atoi_loop 0 s"

definition small_digits :: "u8 list" where "small_digits = map of_char ''0123456789abcdef''"
definition large_digits :: "u8 list" where "large_digits = map of_char ''0123456789ABCDEF''"

text \<open>\<^verbatim>\<open>while (num != 0) tmp[i++] = digits[divide(&num, base)];\<close>\<close>

function digits_loop :: "u8 list \<Rightarrow> u32 \<Rightarrow> int \<Rightarrow> u8 list" where
  "digits_loop digits num base =
     (if num \<noteq> 0 then let (r, num) = divide num base in digits ! r # digits_loop digits num base else [])"
  by pat_completeness auto
termination
proof (relation "measure (\<lambda>(digits, num, base). unat num)")
  fix num :: u32 and digits :: "u8 list" and base r num' x
  assume "num \<noteq> 0" and x: "x = divide num base" "(r, num') = x"
  then have "0 < unat num" by (simp add: unat_gt_0)
  moreover have "unat (num div 10) = unat num div 10" "unat (num div 16) = unat num div 16"
    by (simp_all add: unat_div)
  ultimately have "unat num' < unat num" using x by (auto simp: divide_def split: if_splits)
  then show "((digits, num', base), digits, num, base) \<in> measure (\<lambda>(digits, num, base). unat num)" by simp
qed simp

declare digits_loop.simps [simp del]

text \<open>\<^verbatim>\<open>if (str < end) *str = c; ++ str;\<close>, and the loops \<^verbatim>\<open>while (size-- > 0)\<close> around it\<close>

definition emit :: "u32 \<Rightarrow> u8 \<Rightarrow> out \<Rightarrow> out" where
  "emit e c st = (case st of (str, M) \<Rightarrow> (str + 1, if str < e then M(str := c) else M))"

definition emits :: "u32 \<Rightarrow> u8 list \<Rightarrow> out \<Rightarrow> out" where
  "emits e cs st = fold (emit e) cs st"

function pad_loop :: "u32 \<Rightarrow> u8 \<Rightarrow> int \<Rightarrow> out \<Rightarrow> int \<times> out" where
  "pad_loop e c sz st = (if 0 < sz then pad_loop e c (sz - 1) (emit e c st) else (sz - 1, st))"
  by pat_completeness auto
termination by (relation "measure (\<lambda>(e, c, sz, st). nat sz)") auto

declare pad_loop.simps [simp del]

definition print_number :: "u32 \<Rightarrow> u32 \<Rightarrow> int \<Rightarrow> int \<Rightarrow> int \<Rightarrow> u8 \<Rightarrow> out \<Rightarrow> out" where
  "print_number e num base s precision type buf =
     (let digits = (if type AND LARGE \<noteq> 0 then large_digits else small_digits);
          type = (if type AND LEFT \<noteq> 0 then type AND NOT ZEROPAD else type);
          c = (if type AND ZEROPAD \<noteq> 0 then ch CHR ''0'' else ch CHR '' '');
          (sign, num) =
            (if type AND SIGN \<noteq> 0 then
               if sint num < 0 then (ch CHR ''-'', - num)
               else if type AND PLUS \<noteq> 0 then (ch CHR ''+'', num)
               else if type AND SPACE \<noteq> 0 then (ch CHR '' '', num) else (0, num)
             else (0, num));
          tmp = (if num = 0 then [ch CHR ''0''] else digits_loop digits num base);
          i = int (length tmp);
          precision_bak = precision;
          precision = (if precision < i then i else precision);
          sz = s - precision;
          (sz, buf) =
            (if type AND (ZEROPAD OR LEFT) = 0 then
               pad_loop e (ch CHR '' '') (if sign \<noteq> 0 \<and> 0 < sz then sz - 1 else sz) buf
             else (sz, buf));
          (sz, buf) = (if sign \<noteq> 0 then (sz - 1, emit e sign buf) else (sz, buf));
          (sz, buf) = (if type AND LEFT = 0 then pad_loop e c sz buf else (sz, buf));
          (_, buf) = pad_loop e (ch CHR ''0'') (precision - i) buf;
          buf = (if precision_bak \<noteq> 0 then emits e (rev tmp) buf else buf);
          (_, buf) = pad_loop e (ch CHR '' '') sz buf
      in buf)"

section \<open>The format\<close>

record spec =
  sflags :: u8
  field_width :: int
  sprecision :: int
  qualifier :: u8

fun parse_flags :: "u8 list \<Rightarrow> u8 \<Rightarrow> u8 \<times> u8 list" where
  "parse_flags [] flags = (flags, [])"
| "parse_flags (c # cs) flags =
     (if c = ch CHR ''-'' then parse_flags cs (flags OR LEFT)
      else if c = ch CHR ''+'' then parse_flags cs (flags OR PLUS)
      else if c = ch CHR '' '' then parse_flags cs (flags OR SPACE)
      else if c = ch CHR ''#'' then parse_flags cs (flags OR SPECIAL)
      else if c = ch CHR ''0'' then parse_flags cs (flags OR ZEROPAD)
      else (flags, c # cs))"

text \<open>\<^verbatim>\<open>va_arg(args, int)\<close>\<close>

definition next_int :: "arg list \<Rightarrow> (int \<times> arg list) option" where
  "next_int args = (case args of Word w # args \<Rightarrow> Some (sint w, args) | _ \<Rightarrow> None)"

definition first_is :: "u8 list \<Rightarrow> (u8 \<Rightarrow> bool) \<Rightarrow> bool" where
  "first_is cs P \<longleftrightarrow> (case cs of [] \<Rightarrow> False | c # _ \<Rightarrow> P c)"

definition parse_width :: "u8 list \<Rightarrow> u8 \<Rightarrow> arg list \<Rightarrow> (u8 \<times> int \<times> u8 list \<times> arg list) option" where
  "parse_width fmt flags args =
     (if first_is fmt is_digit then let (w, fmt) = skip_atoi fmt in Some (flags, w, fmt, args)
      else if first_is fmt (\<lambda>c. c = ch CHR ''*'') then do {
        (w, args) \<leftarrow> next_int args;
        Some (if w < 0 then (flags OR LEFT, - w, tl fmt, args) else (flags, w, tl fmt, args))
      }
      else Some (flags, - 1, fmt, args))"

definition parse_precision :: "u8 list \<Rightarrow> arg list \<Rightarrow> (int \<times> u8 list \<times> arg list) option" where
  "parse_precision fmt args =
     (if first_is fmt (\<lambda>c. c = ch CHR ''.'') then
        let fmt = tl fmt
        in if first_is fmt is_digit then
             let (p, fmt) = skip_atoi fmt in Some (if p < 0 then 0 else p, fmt, args)
           else if first_is fmt (\<lambda>c. c = ch CHR ''*'') then do {
             (p, args) \<leftarrow> next_int args;
             Some (if p < 0 then 0 else p, tl fmt, args)
           }
           else Some (0, fmt, args)
      else Some (- 1, fmt, args))"

text \<open>Everything between the percent sign and the conversion character.\<close>

definition parse_spec :: "u8 list \<Rightarrow> arg list \<Rightarrow> (spec \<times> u8 list \<times> arg list) option" where
  "parse_spec fmt args = do {
     let (flags, fmt) = parse_flags fmt 0;
     (flags, w, fmt, args) \<leftarrow> parse_width fmt flags args;
     (p, fmt, args) \<leftarrow> parse_precision fmt args;
     let (q, fmt) = (if first_is fmt (\<lambda>c. c = ch CHR ''h'' \<or> c = ch CHR ''l'') then (hd fmt, tl fmt) else (0, fmt));
     Some (\<lparr>sflags = flags, field_width = w, sprecision = p, qualifier = q\<rparr>, fmt, args)
   }"

text \<open>The argument of an integer conversion.\<close>

definition fetch_num :: "u8 \<Rightarrow> u8 \<Rightarrow> u32 \<Rightarrow> u32" where
  "fetch_num q flags w =
     (if q = ch CHR ''h'' then
        let num = ucast w :: u16 in if flags AND SIGN \<noteq> 0 then scast num else ucast num
      else w)"

text \<open>\<^verbatim>\<open>while (--field_width > 0)\<close> and \<^verbatim>\<open>while (len < field_width--)\<close>\<close>

function width_loop :: "u32 \<Rightarrow> int \<Rightarrow> out \<Rightarrow> int \<times> out" where
  "width_loop e w st =
     (let w = w - 1 in if 0 < w then width_loop e w (emit e (ch CHR '' '') st) else (w, st))"
  by pat_completeness auto
termination by (relation "measure (\<lambda>(e, w, st). nat w)") auto

function len_loop :: "u32 \<Rightarrow> int \<Rightarrow> int \<Rightarrow> out \<Rightarrow> int \<times> out" where
  "len_loop e len w st =
     (if len < w then len_loop e len (w - 1) (emit e (ch CHR '' '') st) else (w - 1, st))"
  by pat_completeness auto
termination by (relation "measure (\<lambda>(e, len, w, st). nat (w - len))") auto

declare width_loop.simps [simp del] len_loop.simps [simp del]

definition convert_char :: "u32 \<Rightarrow> spec \<Rightarrow> arg list \<Rightarrow> out \<Rightarrow> (out \<times> arg list) option" where
  "convert_char e sp args str =
     (let (w, str) = (if sflags sp AND LEFT = 0 then width_loop e (field_width sp) str else (field_width sp, str))
      in case args of
           Word c # args \<Rightarrow>
             let str = emit e (ucast c) str; (_, str) = width_loop e w str in Some (str, args)
         | _ \<Rightarrow> None)"

definition convert_string :: "u32 \<Rightarrow> spec \<Rightarrow> arg list \<Rightarrow> out \<Rightarrow> (out \<times> arg list) option" where
  "convert_string e sp args str =
     (case args of
        Str so # args \<Rightarrow>
          let s = (case so of None \<Rightarrow> map of_char ''(NULL)'' | Some s \<Rightarrow> s);
              len = int (length s);
              len = (if 0 < sprecision sp \<and> sprecision sp < len then sprecision sp else len);
              (w, str) = (if sflags sp AND LEFT = 0 then len_loop e len (field_width sp) str
                          else (field_width sp, str));
              str = emits e (take (nat len) s) str;
              (_, str) = len_loop e len w str
          in Some (str, args)
      | _ \<Rightarrow> None)"

definition convert_number :: "u32 \<Rightarrow> spec \<Rightarrow> int \<Rightarrow> u8 \<Rightarrow> arg list \<Rightarrow> out \<Rightarrow> (out \<times> arg list) option" where
  "convert_number e sp base flags args str =
     (case args of
        Word w # args \<Rightarrow>
          Some (print_number e (fetch_num (qualifier sp) flags w) base (field_width sp) (sprecision sp) flags str, args)
      | _ \<Rightarrow> None)"

definition convert_pointer :: "u32 \<Rightarrow> spec \<Rightarrow> arg list \<Rightarrow> out \<Rightarrow> (out \<times> arg list) option" where
  "convert_pointer e sp args str =
     (let (flags, w) = (if field_width sp = - 1 then (sflags sp OR ZEROPAD, 8) else (sflags sp, field_width sp))
      in case args of
           Word p # args \<Rightarrow> Some (print_number e p 16 w (sprecision sp) flags str, args)
         | _ \<Rightarrow> None)"

definition convert :: "u32 \<Rightarrow> spec \<Rightarrow> u8 \<Rightarrow> arg list \<Rightarrow> out \<Rightarrow> (out \<times> arg list) option" where
  "convert e sp c args str =
     (if c = ch CHR ''c'' then convert_char e sp args str
      else if c = ch CHR ''s'' then convert_string e sp args str
      else if c = ch CHR ''p'' then convert_pointer e sp args str
      else if c = ch CHR ''%'' then Some (emit e (ch CHR ''%'') str, args)
      else if c = ch CHR ''o'' then convert_number e sp 8 (sflags sp) args str
      else if c = ch CHR ''X'' then convert_number e sp 16 (sflags sp OR LARGE) args str
      else if c = ch CHR ''x'' then convert_number e sp 16 (sflags sp) args str
      else if c = ch CHR ''d'' \<or> c = ch CHR ''i'' then convert_number e sp 10 (sflags sp OR SIGN) args str
      else if c = ch CHR ''u'' then convert_number e sp 10 (sflags sp) args str
      else Some (emit e c (emit e (ch CHR ''%'') str), args))"

lemma length_skip_atoi: "length (snd (skip_atoi_loop i s)) \<le> length s"
  by (induction i s rule: skip_atoi_loop.induct) auto

lemma length_parse_flags: "length (snd (parse_flags s f)) \<le> length s"
  by (induction s f rule: parse_flags.induct) auto

lemma length_parse_spec: "parse_spec fmt args = Some (sp, rest, args') \<Longrightarrow> length rest \<le> length fmt"
proof -
  assume a: "parse_spec fmt args = Some (sp, rest, args')"
  obtain f1 flags where 1: "parse_flags fmt 0 = (flags, f1)" by fastforce
  obtain fl w f2 a2 where 2: "parse_width f1 flags args = Some (fl, w, f2, a2)"
    using a 1 by (auto simp: parse_spec_def)
  obtain p f3 a3 where 3: "parse_precision f2 a2 = Some (p, f3, a3)"
    using a 1 2 by (auto simp: parse_spec_def)
  have "length f1 \<le> length fmt" using length_parse_flags [of fmt 0] 1 by simp
  moreover have "length f2 \<le> length f1"
    using 2 length_skip_atoi [of 0 f1] by (auto simp: parse_width_def skip_atoi_def split: if_splits prod.splits)
  moreover have "length f3 \<le> length f2"
    using 3 length_skip_atoi [of 0 "tl f2"]
    by (auto simp: parse_precision_def skip_atoi_def Let_def split: if_splits prod.splits)
  moreover have "length rest \<le> length f3" using a 1 2 3 by (auto simp: parse_spec_def split: if_splits)
  ultimately show ?thesis by linarith
qed

function format_loop :: "u32 \<Rightarrow> u8 list \<Rightarrow> arg list \<Rightarrow> out \<Rightarrow> out option" where
  "format_loop e [] args str = Some str"
| "format_loop e (c # fmt) args str =
     (if c \<noteq> ch CHR ''%'' then format_loop e fmt args (emit e c str)
      else case parse_spec fmt args of
        None \<Rightarrow> None
      | Some (sp, [], args) \<Rightarrow> Some (emit e (ch CHR ''%'') str)
      | Some (sp, d # fmt, args) \<Rightarrow>
          (case convert e sp d args str of
             None \<Rightarrow> None
           | Some (str, args) \<Rightarrow> format_loop e fmt args str))"
  by pat_completeness auto
termination
  by (relation "measure (\<lambda>(e, fmt, args, str). length fmt)") (auto dest: length_parse_spec)

definition rt_vsnprintf :: "u32 \<Rightarrow> u32 \<Rightarrow> u8 list \<Rightarrow> arg list \<Rightarrow> memory \<Rightarrow> (u32 \<times> memory) option" where
  "rt_vsnprintf buf sz fmt args M = do {
     let e = buf + sz;
     let (e, sz) = (if e < buf then (- 1, - 1 - buf) else (e, sz));
     (str, M) \<leftarrow> format_loop e fmt args (buf, M);
     let M = (if 0 < sz then if str < e then M(str := 0) else M(e - 1 := 0) else M);
     Some (str - buf, M)
   }"

text \<open>The variadic functions take the same list of arguments.\<close>

definition rt_snprintf :: "u32 \<Rightarrow> u32 \<Rightarrow> u8 list \<Rightarrow> arg list \<Rightarrow> memory \<Rightarrow> (u32 \<times> memory) option" where
  "rt_snprintf buf sz fmt args M = rt_vsnprintf buf sz fmt args M"

definition rt_vsprintf :: "u32 \<Rightarrow> u8 list \<Rightarrow> arg list \<Rightarrow> memory \<Rightarrow> (u32 \<times> memory) option" where
  "rt_vsprintf buf fmt args M = rt_vsnprintf buf (- 1) fmt args M"

definition rt_sprintf :: "u32 \<Rightarrow> u8 list \<Rightarrow> arg list \<Rightarrow> memory \<Rightarrow> (u32 \<times> memory) option" where
  "rt_sprintf buf fmt args M = rt_vsprintf buf fmt args M"

section \<open>The text that is printed\<close>

text \<open>The reference: the text of each conversion, whatever the size of the buffer.\<close>

definition number_digits :: "u32 \<Rightarrow> int \<Rightarrow> u8 \<Rightarrow> u8 list" where
  "number_digits num base type = rev (if num = 0 then [ch CHR ''0'']
     else digits_loop (if type AND LARGE \<noteq> 0 then large_digits else small_digits) num base)"

definition number_sign :: "u32 \<Rightarrow> u8 \<Rightarrow> u8 list" where
  "number_sign num type =
     (if type AND SIGN = 0 then []
      else if sint num < 0 then [ch CHR ''-'']
      else if type AND PLUS \<noteq> 0 then [ch CHR ''+'']
      else if type AND SPACE \<noteq> 0 then [ch CHR '' ''] else [])"

definition magnitude :: "u32 \<Rightarrow> u8 \<Rightarrow> u32" where
  "magnitude num type = (if type AND SIGN \<noteq> 0 \<and> sint num < 0 then - num else num)"

text \<open>The sign, zeros up to the precision, the digits (none for the precision 0), and the filling:
  spaces behind, zeros behind the sign, or spaces in front.\<close>

definition number_text :: "u32 \<Rightarrow> int \<Rightarrow> int \<Rightarrow> int \<Rightarrow> u8 \<Rightarrow> u8 list" where
  "number_text num base s precision type =
     (let ds = number_digits (magnitude num type) base type; sg = number_sign num type;
          n = Orderings.max precision (int (length ds));
          body = replicate (nat (n - int (length ds))) (ch CHR ''0'') @ (if precision = 0 then [] else ds);
          fill = replicate (nat (s - n - int (length sg)))
      in if type AND LEFT \<noteq> 0 then sg @ body @ fill (ch CHR '' '')
         else if type AND ZEROPAD \<noteq> 0 then sg @ fill (ch CHR ''0'') @ body
         else fill (ch CHR '' '') @ sg @ body)"

lemma emits_append: "emits e (xs @ ys) st = emits e ys (emits e xs st)"
  by (simp add: emits_def)

lemma emits_simps [simp]: "emits e [] st = st" "emits e (x # xs) st = emits e xs (emit e x st)"
  by (simp_all add: emits_def)

lemma pad_loop_emits:
  "pad_loop e c sz st = (if 0 < sz then - 1 else sz - 1, emits e (replicate (nat sz) c) st)"
proof (induction e c sz st rule: pad_loop.induct)
  case (1 e c sz st)
  show ?case
  proof (cases "0 < sz")
    case True
    then have "nat sz = Suc (nat (sz - 1))" by simp
    then show ?thesis using 1 [OF True] True by (subst pad_loop.simps) auto
  qed (simp add: pad_loop.simps)
qed

lemma width_loop_emits:
  "width_loop e w st = (if 0 < w then 0 else w - 1, emits e (replicate (nat (w - 1)) (ch CHR '' '')) st)"
proof (induction e w st rule: width_loop.induct)
  case (1 e w st)
  show ?case
  proof (cases "1 < w")
    case True
    then have "nat (w - 1) = Suc (nat (w - 2))" by simp
    then show ?thesis using 1 [of "w - 1"] True by (subst width_loop.simps) (auto simp: Let_def)
  next
    case False
    then show ?thesis by (subst width_loop.simps) (auto simp: Let_def)
  qed
qed

lemma len_loop_emits:
  "len_loop e len w st =
    (if len < w then len - 1 else w - 1, emits e (replicate (nat (w - len)) (ch CHR '' '')) st)"
proof (induction e len w st rule: len_loop.induct)
  case (1 e len w st)
  show ?case
  proof (cases "len < w")
    case True
    then have "nat (w - len) = Suc (nat (w - 1 - len))" by simp
    then show ?thesis using 1 [OF True] True by (subst len_loop.simps) auto
  qed (simp add: len_loop.simps)
qed

text \<open>The flags as bits; \<^verbatim>\<open>ZEROPAD\<close> is cleared where \<^verbatim>\<open>LEFT\<close> is set.\<close>

lemma flag_bits:
  "t AND ZEROPAD = 0 \<longleftrightarrow> \<not> bit t 0" "t AND SIGN = 0 \<longleftrightarrow> \<not> bit t 1"
  "t AND PLUS = 0 \<longleftrightarrow> \<not> bit t 2" "t AND SPACE = 0 \<longleftrightarrow> \<not> bit t 3"
  "t AND LEFT = 0 \<longleftrightarrow> \<not> bit t 4" "t AND LARGE = 0 \<longleftrightarrow> \<not> bit t 6"
  using and_exp_eq_0_iff_not_bit [of t 0] and_exp_eq_0_iff_not_bit [of t 1] and_exp_eq_0_iff_not_bit [of t 2]
    and_exp_eq_0_iff_not_bit [of t 3] and_exp_eq_0_iff_not_bit [of t 4] and_exp_eq_0_iff_not_bit [of t 6]
  by (simp_all add: flag_defs)

lemma flag_bits_or: "t AND (ZEROPAD OR LEFT) = 0 \<longleftrightarrow> \<not> bit t 0 \<and> \<not> bit t 4"
  by (simp add: bit.conj_disj_distrib flag_bits or_eq_0_iff)

lemma bits_clear_zeropad: "bit (t AND NOT ZEROPAD) k \<longleftrightarrow> bit t k \<and> k \<noteq> 0"
  using bit_imp_le_length [of t k] by (auto simp: bit_simps ZEROPAD_def)

lemma print_number_emits:
  "print_number e num base s precision type st = emits e (number_text num base s precision type) st"
proof -
  define t where "t = (if type AND LEFT \<noteq> 0 then type AND NOT ZEROPAD else type)"
  have t: "bit t k \<longleftrightarrow> bit type k" if "k \<noteq> 0" for k using that by (simp add: t_def bits_clear_zeropad)
  have t0: "bit t 0 \<longleftrightarrow> bit type 0 \<and> \<not> bit type 4" by (simp add: t_def bits_clear_zeropad flag_bits)
  define sg where "sg = (case number_sign num type of [] \<Rightarrow> 0 | c # _ \<Rightarrow> c)"
  have sg: "(if t AND SIGN \<noteq> 0 then
               if sint num < 0 then (ch CHR ''-'', - num)
               else if t AND PLUS \<noteq> 0 then (ch CHR ''+'', num)
               else if t AND SPACE \<noteq> 0 then (ch CHR '' '', num) else (0, num)
             else (0, num)) = (sg, magnitude num type)"
    "number_sign num type = (if sg = 0 then [] else [sg])"
    by (simp_all add: sg_def number_sign_def magnitude_def flag_bits t)
  define ds where "ds = number_digits (magnitude num type) base type"
  have ds: "(if magnitude num type = 0 then [ch CHR ''0'']
      else digits_loop (if type AND LARGE \<noteq> 0 then large_digits else small_digits) (magnitude num type) base) = rev ds"
    by (simp add: ds_def number_digits_def)
  define p where "p = (if precision < int (length ds) then int (length ds) else precision)"
  have p: "Orderings.max precision (int (length ds)) = p" by (simp add: p_def)
  note unf = print_number_def Let_def t_def [symmetric] sg(1) prod.case ds length_rev rev_rev_ident p_def [symmetric]
    pad_loop_emits
  note goal_text = number_text_def Let_def ds_def [symmetric] p sg(2)
  consider (left) "bit type 4" | (zero) "\<not> bit type 4" "bit type 0" | (spaces) "\<not> bit type 4" "\<not> bit type 0" by blast
  then show ?thesis
  proof cases
    case left
    then have f: "bit t 4" "\<not> bit t 0" using t t0 by simp_all
    show ?thesis unfolding unf goal_text using left f
      by (cases "sg = 0") (simp_all add: flag_bits flag_bits_or emits_append)
  next
    case zero
    then have f: "\<not> bit t 4" "bit t 0" using t t0 by simp_all
    show ?thesis unfolding unf goal_text using zero f
      by (cases "sg = 0") (simp_all add: flag_bits flag_bits_or emits_append)
  next
    case spaces
    then have f: "\<not> bit t 4" "\<not> bit t 0" using t t0 by simp_all
    show ?thesis unfolding unf goal_text using spaces f
      by (cases "sg = 0"; cases "0 < s - p") (simp_all add: flag_bits flag_bits_or emits_append)
  qed
qed

text \<open>The text of a conversion, and the arguments that are left.\<close>

definition fill_text :: "spec \<Rightarrow> u8 list \<Rightarrow> u8 list" where
  "fill_text sp t =
     (let fill = replicate (nat (field_width sp - int (length t))) (ch CHR '' '')
      in if sflags sp AND LEFT = 0 then fill @ t else t @ fill)"

definition string_text :: "spec \<Rightarrow> u8 list option \<Rightarrow> u8 list" where
  "string_text sp so =
     (let s = (case so of None \<Rightarrow> map of_char ''(NULL)'' | Some s \<Rightarrow> s)
      in fill_text sp (if 0 < sprecision sp then take (nat (sprecision sp)) s else s))"

definition num_text :: "spec \<Rightarrow> int \<Rightarrow> u8 \<Rightarrow> u32 \<Rightarrow> u8 list" where
  "num_text sp base flags w =
     number_text (fetch_num (qualifier sp) flags w) base (field_width sp) (sprecision sp) flags"

definition pointer_text :: "spec \<Rightarrow> u32 \<Rightarrow> u8 list" where
  "pointer_text sp p =
     (if field_width sp = - 1 then number_text p 16 8 (sprecision sp) (sflags sp OR ZEROPAD)
      else number_text p 16 (field_width sp) (sprecision sp) (sflags sp))"

fun word_arg :: "(u32 \<Rightarrow> u8 list) \<Rightarrow> arg list \<Rightarrow> (u8 list \<times> arg list) option" where
  "word_arg f (Word w # args) = Some (f w, args)"
| "word_arg f args = None"

fun string_arg :: "(u8 list option \<Rightarrow> u8 list) \<Rightarrow> arg list \<Rightarrow> (u8 list \<times> arg list) option" where
  "string_arg f (Str s # args) = Some (f s, args)"
| "string_arg f args = None"

definition conversion_text :: "spec \<Rightarrow> u8 \<Rightarrow> arg list \<Rightarrow> (u8 list \<times> arg list) option" where
  "conversion_text sp c args =
     (if c = ch CHR ''c'' then word_arg (\<lambda>w. fill_text sp [ucast w]) args
      else if c = ch CHR ''s'' then string_arg (string_text sp) args
      else if c = ch CHR ''p'' then word_arg (pointer_text sp) args
      else if c = ch CHR ''%'' then Some ([c], args)
      else if c = ch CHR ''o'' then word_arg (num_text sp 8 (sflags sp)) args
      else if c = ch CHR ''X'' then word_arg (num_text sp 16 (sflags sp OR LARGE)) args
      else if c = ch CHR ''x'' then word_arg (num_text sp 16 (sflags sp)) args
      else if c = ch CHR ''d'' \<or> c = ch CHR ''i'' then word_arg (num_text sp 10 (sflags sp OR SIGN)) args
      else if c = ch CHR ''u'' then word_arg (num_text sp 10 (sflags sp)) args
      else Some ([ch CHR ''%'', c], args))"

function format_text :: "u8 list \<Rightarrow> arg list \<Rightarrow> u8 list option" where
  "format_text [] args = Some []"
| "format_text (c # fmt) args =
     (if c \<noteq> ch CHR ''%'' then map_option (Cons c) (format_text fmt args)
      else case parse_spec fmt args of
        None \<Rightarrow> None
      | Some (sp, [], args) \<Rightarrow> Some [ch CHR ''%'']
      | Some (sp, d # fmt, args) \<Rightarrow>
          (case conversion_text sp d args of
             None \<Rightarrow> None
           | Some (t, args) \<Rightarrow> map_option (append t) (format_text fmt args)))"
  by pat_completeness auto
termination
  by (relation "measure (\<lambda>(fmt, args). length fmt)") (auto dest: length_parse_spec)

section \<open>Printing is writing that text\<close>

definition on_text :: "u32 \<Rightarrow> out \<Rightarrow> (u8 list \<times> 'a) option \<Rightarrow> (out \<times> 'a) option" where
  "on_text e st r = map_option (\<lambda>(t, x). (emits e t st, x)) r"

lemma on_text_simps [simp]: "on_text e st None = None" "on_text e st (Some (t, x)) = Some (emits e t st, x)"
  by (simp_all add: on_text_def)

lemma convert_char_text:
  "convert_char e sp args st = on_text e st (word_arg (\<lambda>w. fill_text sp [ucast w]) args)"
proof (cases "(\<lambda>w :: u32. fill_text sp [ucast w], args)" rule: word_arg.cases)
  case (1 f w args')
  then show ?thesis
    by (cases "0 < field_width sp")
      (auto simp: convert_char_def fill_text_def Let_def width_loop_emits emits_append)
qed (auto simp: convert_char_def split: prod.split)

lemma convert_string_text:
  "convert_string e sp args st = on_text e st (string_arg (string_text sp) args)"
proof (cases "(string_text sp, args)" rule: string_arg.cases)
  case (1 f so args')
  define s where "s = (case so of None \<Rightarrow> map of_char ''(NULL)'' | Some s \<Rightarrow> s)"
  define t where "t = (if 0 < sprecision sp then take (nat (sprecision sp)) s else s)"
  have len: "(if 0 < sprecision sp \<and> sprecision sp < int (length s) then sprecision sp else int (length s)) = int (length t)"
    by (simp add: t_def)
  have "take (length t) s = t" by (auto simp: t_def min_def)
  moreover have "string_text sp so = fill_text sp t" by (simp add: string_text_def s_def t_def)
  ultimately show ?thesis
    using 1 unfolding convert_string_def
    by (simp add: s_def [symmetric] len Let_def)
      (auto simp: fill_text_def Let_def len_loop_emits emits_append)
qed (auto simp: convert_string_def)

lemma convert_number_text:
  "convert_number e sp base flags args st = on_text e st (word_arg (num_text sp base flags) args)"
  by (cases "(num_text sp base flags, args)" rule: word_arg.cases)
    (auto simp: convert_number_def num_text_def print_number_emits)

lemma convert_pointer_text:
  "convert_pointer e sp args st = on_text e st (word_arg (pointer_text sp) args)"
  by (cases "(pointer_text sp, args)" rule: word_arg.cases)
    (auto simp: convert_pointer_def pointer_text_def print_number_emits)

lemma convert_text: "convert e sp c args st = on_text e st (conversion_text sp c args)"
  by (simp add: convert_def conversion_text_def convert_char_text convert_string_text convert_number_text
    convert_pointer_text)

lemma format_loop_text: "format_loop e fmt args st = map_option (\<lambda>t. emits e t st) (format_text fmt args)"
proof (induction e fmt args st rule: format_loop.induct)
  case (2 e c fmt args st)
  show ?case
  proof (cases "c = ch CHR ''%''")
    case False
    then show ?thesis using 2(1) by (simp add: option.map_comp comp_def)
  next
    case True
    show ?thesis
    proof (cases "parse_spec fmt args")
      case (Some r)
      then obtain sp rest args1 where p: "parse_spec fmt args = Some (sp, rest, args1)" by (cases r) auto
      show ?thesis
      proof (cases rest)
        case (Cons d fmt1)
        show ?thesis
        proof (cases "conversion_text sp d args1")
          case (Some q)
          then obtain t args2 where q: "conversion_text sp d args1 = Some (t, args2)" by (cases q) auto
          have "format_loop e fmt1 args2 (emits e t st) = map_option (\<lambda>t'. emits e t' (emits e t st)) (format_text fmt1 args2)"
            using 2(2) True p Cons q by (auto simp: convert_text)
          then show ?thesis
            using True p Cons q by (simp add: convert_text option.map_comp comp_def emits_append)
        qed (use True p Cons in \<open>simp add: convert_text\<close>)
      qed (use True p in simp)
    qed (use True in simp)
  qed
qed simp

section \<open>The buffer\<close>

lemma stored_snoc:
  assumes "length bs < 2 ^ 32"
  shows "stored d (bs @ [b]) M = (stored d bs M)(d + of_nat (length bs) := b)"
proof
  fix a
  have "unat (of_nat (length bs) :: u32) = length bs"
    using assms by (simp add: unsigned_of_nat take_bit_nat_eq_self)
  then have e: "a = d + of_nat (length bs) \<longleftrightarrow> unat (a - d) = length bs"
    by (auto simp: algebra_simps dest: word_of_unat)
  then show "stored d (bs @ [b]) M a = ((stored d bs M)(d + of_nat (length bs) := b)) a"
    by (auto simp: stored_def nth_append less_Suc_eq fun_upd_def)
qed

text \<open>Writing a text: what lies behind \<^verbatim>\<open>end\<close> is dropped.\<close>

lemma emits_stored:
  assumes "unat str + length t < 2 ^ 32"
  shows "emits e t (str, M) = (str + of_nat (length t), stored str (take (unat e - unat str) t) M)"
  using assms
proof (induction t arbitrary: str M)
  case (Cons c t)
  have s1: "unat (str + 1) = Suc (unat str)" using Cons.prems by (simp add: unat_word_ariths)
  have IH: "emits e t (str + 1, N) = (str + 1 + of_nat (length t), stored (str + 1) (take (unat e - unat (str + 1)) t) N)" for N
    by (rule Cons.IH) (use Cons.prems s1 in simp)
  show ?case
  proof (cases "str < e")
    case True
    then have "unat e - unat str = Suc (unat e - unat (str + 1))"
      using s1 by (simp add: word_less_nat_alt)
    moreover have "length (take (unat e - unat (str + 1)) t) < 2 ^ 32" using Cons.prems by simp
    ultimately show ?thesis using True IH by (simp add: emit_def stored_Cons algebra_simps)
  next
    case False
    then have "unat e - unat str = 0" "unat e - unat (str + 1) = 0"
      using s1 by (simp_all add: word_less_nat_alt)
    then show ?thesis using False IH by (simp add: emit_def algebra_simps)
  qed
qed simp

text \<open>\<open>clip n t\<close>: what a buffer of \<open>n\<close> bytes holds, with the terminating zero.\<close>

definition clip :: "nat \<Rightarrow> u8 list \<Rightarrow> u8 list" where
  "clip n t = (if n = 0 then [] else take (n - 1) t @ [0])"

lemma vsnprintf_clip:
  assumes t: "format_text fmt args = Some t" and b: "unat buf + unat sz < 2 ^ 32" "unat buf + length t < 2 ^ 32"
  shows "rt_vsnprintf buf sz fmt args M = Some (of_nat (length t), stored buf (clip (unat sz) t) M)"
proof -
  let ?e = "buf + sz"
  have e: "unat ?e = unat buf + unat sz" using b(1) by (simp add: unat_word_ariths)
  then have ne: "\<not> ?e < buf" by (simp add: word_less_nat_alt)
  have w: "emits ?e t (buf, M) = (buf + of_nat (length t), stored buf (take (unat sz) t) M)"
    using emits_stored [OF b(2), of ?e M] e by simp
  have l: "unat (of_nat (length t) :: u32) = length t"
    using b(2) by (simp add: unsigned_of_nat take_bit_nat_eq_self)
  have str: "buf + of_nat (length t) < ?e \<longleftrightarrow> length t < unat sz"
    using b(2) l e by (simp add: word_less_nat_alt unat_word_ariths)
  have fl: "format_loop ?e fmt args (buf, M) = Some (buf + of_nat (length t), stored buf (take (unat sz) t) M)"
    using t w by (simp add: format_loop_text)
  consider (zero) "sz = 0" | (fits) "length t < unat sz" | (cut) "sz \<noteq> 0" "unat sz \<le> length t" by fastforce
  then have "(if 0 < sz then if buf + of_nat (length t) < ?e
         then (stored buf (take (unat sz) t) M)(buf + of_nat (length t) := 0)
         else (stored buf (take (unat sz) t) M)(?e - 1 := 0)
       else stored buf (take (unat sz) t) M) = stored buf (clip (unat sz) t) M"
  proof cases
    case zero
    then show ?thesis by (simp add: clip_def)
  next
    case fits
    then have "0 < sz" "unat sz \<noteq> 0" "take (unat sz - 1) t = t" by (auto simp: word_gt_0)
    moreover have "length t < 2 ^ 32" using b(2) by simp
    ultimately show ?thesis using fits str by (simp add: clip_def stored_snoc)
  next
    case cut
    then obtain k where k: "unat sz = Suc k" by (cases "unat sz") (auto simp: unat_eq_0)
    have "take (Suc k) t = take k t @ [t ! k]" using cut k by (intro take_Suc_conv_app_nth) simp
    moreover have kl: "length (take k t) = k" "k < 2 ^ 32" using cut k u32_bound [of sz] by simp_all
    moreover have e1: "?e - 1 = buf + of_nat k" using word_of_unat [OF k] by (simp add: algebra_simps)
    moreover have "0 < sz" using cut(1) by (simp add: word_gt_0)
    ultimately show ?thesis unfolding e1
      using cut str k stored_snoc [of "take k t" buf _ M] by (simp add: clip_def)
  qed
  then show ?thesis using ne fl by (simp add: rt_vsnprintf_def)
qed

section \<open>Digits\<close>

text \<open>The array \<^verbatim>\<open>tmp[16]\<close> is large enough.\<close>

lemma length_digits_loop:
  assumes "unat num < 10 ^ k" "base = 10 \<or> True"
  shows "length (digits_loop ds num base) \<le> k"
  using assms
proof (induction ds num base arbitrary: k rule: digits_loop.induct)
  case (1 ds num base)
  show ?case
  proof (cases "num = 0")
    case False
    then obtain j where k: "k = Suc j" using 1(2) by (cases k) (auto simp: unat_eq_0)
    define num' where "num' = snd (divide num base)"
    have "unat num div 16 \<le> unat num div 10" by (rule div_le_mono2) simp_all
    moreover have "unat num div 10 < 10 ^ j" using 1(2) k by (simp add: less_mult_imp_div_less mult.commute)
    ultimately have "unat num' < 10 ^ j" by (auto simp: num'_def divide_def unat_div)
    then have "length (digits_loop ds num' base) \<le> j"
      using 1(1) [OF False refl] by (cases "divide num base") (simp add: num'_def)
    then show ?thesis using False k
      by (subst digits_loop.simps) (cases "divide num base"; simp add: num'_def)
  qed (simp add: digits_loop.simps)
qed

lemma tmp_fits: "length (number_digits num base type) \<le> 10"
proof -
  have "unat num < 10 ^ 10" using u32_bound [of num] by simp
  then show ?thesis using length_digits_loop [of num 10 base] by (simp add: number_digits_def)
qed

text \<open>The parser of the field width reads a printed number back.\<close>

lemma skip_atoi_append:
  "\<forall>c \<in> set xs. is_digit c \<Longrightarrow> skip_atoi_loop i (xs @ ys) = skip_atoi_loop (fst (skip_atoi_loop i xs)) ys"
  by (induction xs arbitrary: i) auto

lemma skip_atoi_digit: "is_digit c \<Longrightarrow> skip_atoi_loop i (c # cs) = skip_atoi_loop (i * 10 + uint c - 48) cs"
  by simp

lemma digit_value:
  assumes "r < 10"
  shows "is_digit (small_digits ! r)" "uint (small_digits ! r) = 48 + int r"
proof -
  have "r = 0 \<or> r = 1 \<or> r = 2 \<or> r = 3 \<or> r = 4 \<or> r = 5 \<or> r = 6 \<or> r = 7 \<or> r = 8 \<or> r = 9"
    using assms by presburger
  then show "is_digit (small_digits ! r)" "uint (small_digits ! r) = 48 + int r"
    by (elim disjE; simp add: small_digits_def is_digit_def)+
qed

lemma digits_value:
  "(\<forall>c \<in> set (digits_loop small_digits num 10). is_digit c) \<and>
   skip_atoi_loop i (rev (digits_loop small_digits num 10)) =
     (i * 10 ^ length (digits_loop small_digits num 10) + uint num, [])"
proof (induction small_digits num "10 :: int" arbitrary: i rule: digits_loop.induct)
  case (1 num)
  show ?case
  proof (cases "num = 0")
    case False
    define r num' where "r = unat (num mod 10)" and "num' = num div 10"
    have d: "divide num 10 = (r, num')" by (simp add: divide_def r_def num'_def)
    note IH = 1 [OF False d [symmetric] refl]
    have r: "r < 10" by (simp add: r_def unat_mod)
    have v: "uint num = 10 * uint num' + int r"
      by (simp add: num'_def r_def uint_div unat_mod zmod_int)
    show ?thesis
      using False d IH digit_value [OF r] v
      by (subst (1 2 3) digits_loop.simps) (simp add: skip_atoi_append skip_atoi_digit algebra_simps del: skip_atoi_loop.simps(2))
  qed (simp add: digits_loop.simps)
qed

end
