(* ===== verification/Kservice_Heap.thy ===== *)
theory Kservice_Heap
  imports Mem_Props Kservice_Print
begin

text \<open>
  The routines of \<^verbatim>\<open>src/kservice.c\<close> that use the heap of \<^verbatim>\<open>src/mem.c\<close>: \<^verbatim>\<open>rt_strdup\<close>,
  \<^verbatim>\<open>rt_malloc_align\<close> and \<^verbatim>\<open>rt_free_align\<close>; and the properties of the kernel service.  Here a pointer
  to allocated memory is an address: \<^verbatim>\<open>heap_ptr\<close> and the offset in the heap.
\<close>

definition rt_strdup :: "u32 \<Rightarrow> heap \<Rightarrow> memory \<Rightarrow> (u32 option \<times> heap \<times> memory) option" where
  "rt_strdup s h M = do {
     n \<leftarrow> rt_strlen M s;
     let len = n + 1;
     (tmp, h) \<leftarrow> mem_malloc len h;
     (case tmp of
        None \<Rightarrow> Some (None, h, M)
      | Some q \<Rightarrow> Some (Some (heap_ptr h + q), h, rt_memcpy (heap_ptr h + q) s len M))
   }"

definition rt_malloc_align :: "u32 \<Rightarrow> u32 \<Rightarrow> heap \<Rightarrow> memory \<Rightarrow> (u32 option \<times> heap \<times> memory) option" where
  "rt_malloc_align sz align h M = do {
     let align = (align + 0x03) AND NOT 0x03;
     let align_size = ((sz + 0x03) AND NOT 0x03) + align;
     (q, h) \<leftarrow> mem_malloc align_size h;
     (case q of
        None \<Rightarrow> Some (None, h, M)
      | Some q \<Rightarrow>
          let ptr = heap_ptr h + q;
              align_ptr = (if ptr AND (align - 1) = 0 then ptr + align
                           else (ptr + (align - 1)) AND NOT (align - 1))
          in Some (Some align_ptr, h, store32 (align_ptr - 4) ptr M))
   }"

definition rt_free_align :: "u32 \<Rightarrow> heap \<Rightarrow> memory \<Rightarrow> heap option" where
  "rt_free_align ptr h M =
     (let real_ptr = load32 M (ptr - 4)
      in mem_free (if real_ptr = 0 then None else Some (real_ptr - heap_ptr h)) h)"

section \<open>Aligned memory\<close>

lemma clear_mask: "unat (x AND NOT (2 ^ k - 1)) = unat x - unat x mod 2 ^ k" if "k < 32" for x :: u32
proof -
  have "x AND NOT (mask k) = x - take_bit k x"
  proof -
    have "x AND NOT (mask k) = push_bit k (drop_bit k x)"
      by (rule bit_word_eqI) (auto simp: bit_simps not_less dest!: le_Suc_ex)
    then show ?thesis using bits_ident [of k x] by (simp add: algebra_simps)
  qed
  moreover have "unat (take_bit k x) = unat x mod 2 ^ k"
    unfolding unsigned_take_bit_eq by (simp add: take_bit_eq_mod)
  moreover from this have "take_bit k x \<le> x" by (simp add: word_le_nat_alt)
  ultimately show ?thesis by (simp add: mask_eq_exp_minus_1 unat_sub)
qed

lemma and_mask_mod: "unat (x AND (2 ^ k - 1)) = unat x mod 2 ^ k" for x :: u32
proof -
  have e: "x AND (2 ^ k - 1) = take_bit k x" by (simp add: take_bit_eq_mask mask_eq_exp_minus_1)
  have "unat (x AND (2 ^ k - 1)) = take_bit k (unat x)" unfolding e by (rule unsigned_take_bit_eq)
  then show ?thesis by (simp add: take_bit_eq_mod)
qed

lemma unat_exp: "k < 32 \<Longrightarrow> unat (2 ^ k :: u32) = 2 ^ k"
proof -
  assume k: "k < 32"
  have "unat (of_nat (2 ^ k) :: u32) = 2 ^ k"
    unfolding unsigned_of_nat using k by (simp add: take_bit_nat_eq_self)
  then show ?thesis by simp
qed

text \<open>Where the aligned pointer lies: at least four bytes and at most \<open>2 ^ k\<close> bytes behind.\<close>

lemma align_ptr:
  fixes ptr :: u32
  assumes k: "2 \<le> k" "k < 32" and p: "4 dvd unat ptr" "unat ptr + 2 ^ k < 2 ^ 32"
  defines "q \<equiv> (if ptr AND (2 ^ k - 1) = 0 then ptr + 2 ^ k else (ptr + (2 ^ k - 1)) AND NOT (2 ^ k - 1))"
  shows "2 ^ k dvd unat q" "unat ptr + 4 \<le> unat q" "unat q \<le> unat ptr + 2 ^ k"
proof -
  have k4: "4 dvd (2 :: nat) ^ k" using k(1) le_imp_power_dvd [of 2 k "2 :: nat"] by simp
  note uk = unat_exp [OF k(2)]
  have "2 ^ k dvd unat q \<and> unat ptr + 4 \<le> unat q \<and> unat q \<le> unat ptr + 2 ^ k"
  proof (cases "unat ptr mod 2 ^ k = 0")
    case True
    then have "ptr AND (2 ^ k - 1) = 0" using and_mask_mod [of ptr k] by (simp add: unat_eq_0)
    then have q: "unat q = unat ptr + 2 ^ k" using p(2) uk by (simp add: q_def unat_word_ariths)
    have "(4 :: nat) \<le> 2 ^ k" using k4 by (intro dvd_imp_le) simp_all
    then show ?thesis using q True by (auto intro: dvd_add simp: dvd_eq_mod_eq_0 [of _ "unat ptr"])
  next
    case False
    let ?a = "2 ^ k :: nat" and ?r = "unat ptr mod 2 ^ k"
    have d: "unat ptr = unat ptr div ?a * ?a + ?r" by (simp add: div_mult_mod_eq)
    have r: "0 < ?r" "?r < ?a" "4 dvd ?r" using False p(1) k4 by (simp_all add: dvd_mod)
    obtain x where x: "?r = 4 * x" using r(3) by (elim dvdE)
    obtain y where y: "?a = 4 * y" using k4 by (elim dvdE)
    have "0 < 4 * x" "4 * x < ?a" using r(1,2) unfolding x by simp_all
    then have "0 < x" "x < y" unfolding y by simp_all
    then have r4: "4 \<le> ?r" "?r + 4 \<le> ?a" unfolding x using y by simp_all
    have "unat (2 ^ k - 1 :: u32) = ?a - 1" by (rule unat_pred) (use uk in simp)
    then have x: "unat (ptr + (2 ^ k - 1)) = unat ptr + (?a - 1)" using p(2) by (simp add: unat_word_ariths)
    have "unat ptr + (?a - 1) = (unat ptr div ?a + 1) * ?a + (?r - 1)" using d r(1) by simp
    moreover have "?r - 1 < ?a" using r(1,2) by linarith
    ultimately have m: "(unat ptr + (?a - 1)) mod ?a = ?r - 1" by (metis mod_less mod_mult_self3)
    have "\<not> ptr AND (2 ^ k - 1) = 0" using False and_mask_mod [of ptr k] by auto
    then have q: "unat q = unat ptr + (?a - 1) - (?r - 1)"
      using clear_mask [OF k(2), of "ptr + (2 ^ k - 1)"] x m by (simp add: q_def)
    then have "unat q = (unat ptr div ?a + 1) * ?a" using d r(1) by simp
    then show ?thesis using q r4 by simp
  qed
  then show "2 ^ k dvd unat q" "unat ptr + 4 \<le> unat q" "unat q \<le> unat ptr + 2 ^ k" by blast+
qed

text \<open>A word that has been stored is read back.\<close>

lemma load32_store32: "load32 (store32 a w M) a = w"
proof -
  have ne: "a \<noteq> a + 1" "a \<noteq> a + 2" "a \<noteq> a + 3" "a + 1 \<noteq> a + 2" "a + 1 \<noteq> a + 3" "a + 2 \<noteq> a + 3" by simp_all
  have "load32 (store32 a w M) a = (ucast (ucast w :: u8) :: u32) OR push_bit 8 (ucast (ucast (drop_bit 8 w) :: u8)) OR
      push_bit 16 (ucast (ucast (drop_bit 16 w) :: u8)) OR push_bit 24 (ucast (ucast (drop_bit 24 w) :: u8))"
    using ne by (simp add: load32_def store32_def)
  also have "\<dots> = w"
  proof (rule bit_word_eqI)
    fix n
    assume "n < LENGTH(32)"
    then consider "n < 8" | "8 \<le> n" "n < 16" | "16 \<le> n" "n < 24" | "24 \<le> n" "n < 32" by fastforce
    then show "bit ((ucast (ucast w :: u8) :: u32) OR push_bit 8 (ucast (ucast (drop_bit 8 w) :: u8)) OR
        push_bit 16 (ucast (ucast (drop_bit 16 w) :: u8)) OR push_bit 24 (ucast (ucast (drop_bit 24 w) :: u8))) n = bit w n"
      by cases (auto simp: bit_simps)
  qed
  finally show ?thesis .
qed

lemma malloc_align_spec:
  assumes ok: "heap_ok h" and k: "2 \<le> k" "k < 32" and sz: "unat sz + 2 ^ k + 6 < 2 ^ 32"
  shows "\<exists>r h' M'. rt_malloc_align sz (2 ^ k) h M = Some (r, h', M') \<and> heap_ok h' \<and>
    (case r of
       None \<Rightarrow> h' = h \<and> M' = M
     | Some p \<Rightarrow> 2 ^ k dvd unat p \<and>
         (\<exists>q e. allocated h' = insert (q, e) (allocated h) \<and>
            unat (heap_ptr h) + unat q + 4 \<le> unat p \<and> unat p + unat sz \<le> unat (heap_ptr h) + unat e) \<and>
         (\<forall>N. load32 N (p - 4) = load32 M' (p - 4) \<longrightarrow>
            (\<exists>h''. rt_free_align p h' N = Some h'' \<and> heap_ok h'' \<and> allocated h'' = allocated h)))"
proof -
  have k4: "4 dvd (2 :: nat) ^ k" using k(1) le_imp_power_dvd [of 2 k "2 :: nat"] by simp
  define s' where "s' = (sz + 3) AND NOT 3"
  have s': "unat s' = (unat sz + 3) div 4 * 4"
    using unat_clear_low [of "sz + 3"] sz by (simp add: s'_def unat_word_ariths minus_mod_eq_div_mult)
  obtain y where y: "(2 :: nat) ^ k = 4 * y" using k4 by (elim dvdE)
  have "unat (2 ^ k + 3 :: u32) = 4 * y + 3"
    using sz unat_exp [OF k(2)] unfolding y by (simp add: unat_word_ariths)
  then have "unat ((2 ^ k + 3) AND NOT 3 :: u32) = 2 ^ k"
    using unat_clear_low [of "2 ^ k + 3"] unfolding y by simp
  then have a: "(2 ^ k + 3) AND NOT 3 = (2 ^ k :: u32)" using unat_exp [OF k(2)] by (simp add: word_unat_eq_iff)
  define n where "n = s' + 2 ^ k"
  have n: "unat n = unat s' + 2 ^ k" using sz s' unat_exp [OF k(2)] by (simp add: n_def unat_word_ariths)
  then have n': "n \<noteq> 0" "unat n + 3 < 2 ^ 32" "unat n \<le> request n" "unat sz \<le> unat s'"
    using s' sz by (auto simp: request_def)
  note call = rt_malloc_align_def [of sz "2 ^ k" h M, unfolded Let_def a s'_def [symmetric] n_def [symmetric]]
  show ?thesis
  proof (cases rule: mem_malloc_at [OF heap_okD [OF ok] n'(1,2), case_names none some])
    case none
    then show ?thesis using ok by (simp add: call)
  next
    case (some m h' os')
    note v = heap_at_views [OF some(2)] and V = at_views [OF heap_okD [OF ok]]
    note r' = heap_atD(1) [OF some(2)]
    note B = heap_block [OF r' some(7)] and R = heap_rowD [OF r']
    have same: "heap_ptr h' = heap_ptr h" using some(3) by (simp add: same_heap_def)
    let ?q = "m + 12" and ?e = "mnext (hdrs h' m)"
    define ptr where "ptr = heap_ptr h' + ?q"
    have ptr: "unat ptr = unat (heap_ptr h') + unat ?q"
      using B(1,2,6) R(6) by (simp add: ptr_def unat_word_ariths)
    have lim: "unat ?q + unat s' + 2 ^ k \<le> unat ?e" using some(6) n n'(3) B(6) by simp
    have "4 dvd unat ptr" using ptr R(7) B(6,8) by (simp add: dvd_add)
    moreover have "unat ptr + 2 ^ k < 2 ^ 32" using lim ptr B(2) R(6) by linarith
    ultimately have al: "4 dvd unat ptr" "unat ptr + 2 ^ k < 2 ^ 32" .
    define p where "p = (if ptr AND (2 ^ k - 1) = 0 then ptr + 2 ^ k else (ptr + (2 ^ k - 1)) AND NOT (2 ^ k - 1))"
    note P = align_ptr [OF k al, folded p_def]
    let ?M = "store32 (p - 4) ptr M"
    have c: "rt_malloc_align sz (2 ^ k) h M = Some (Some p, h', ?M)"
      using some(1) by (simp add: call ptr_def p_def)
    have A: "allocated h' = insert (?q, ?e) (allocated h)" using some(5) v(2) V(1) by simp
    have fresh: "(?q, ?e) \<notin> allocated h" using some(9) unfolding V(1) [symmetric] by (auto simp: areas_def)
    have used: "mused (hdrs h' m) \<noteq> 0" using areas_in(5) [OF r', of ?q ?e] some(5) by simp
    have "\<exists>h''. rt_free_align p h' N = Some h'' \<and> heap_ok h'' \<and> allocated h'' = allocated h"
      if "load32 N (p - 4) = load32 ?M (p - 4)" for N
    proof -
      have "load32 N (p - 4) = ptr" "ptr \<noteq> 0" "ptr - heap_ptr h' = ?q"
        using that ptr B(6) by (auto simp: load32_store32 ptr_def)
      then have "rt_free_align p h' N = mem_free (Some ?q) h'" by (simp add: rt_free_align_def Let_def)
      moreover obtain h'' os'' where "mem_free (Some ?q) h' = Some h''" "heap_at h'' os''"
          "areas (hdrs h'') os'' = areas (hdrs h') os' - {(?q, ?e)}"
        using mem_free_at [OF some(2,7) used] by auto
      ultimately show ?thesis using heap_at_views [of h'' os''] A v(2) fresh by auto
    qed
    moreover have "unat (heap_ptr h) + unat ?q + 4 \<le> unat p" using P(2) ptr same by simp
    moreover have "unat p + unat sz \<le> unat (heap_ptr h) + unat ?e" using P(3) ptr same lim n'(4) by simp
    ultimately show ?thesis using c v(1) P(1) A by (intro exI [of _ "Some p"] exI [of _ h'] exI [of _ ?M]) auto
  qed
qed

section \<open>The properties\<close>

definition demo_memory :: memory where
  "demo_memory = (\<lambda>_. 0)(0x100 := 97, 0x101 := 98, 0x102 := 99, 0x200 := 98, 0x201 := 99)"

text \<open>C31: The loops over words of \<^verbatim>\<open>rt_memset\<close> and \<^verbatim>\<open>rt_memcpy\<close> and the two directions of
  \<^verbatim>\<open>rt_memmove\<close> compute what a loop over bytes does: exactly the \<open>n\<close> bytes from the target on are
  set to the value, or to the bytes of the source as they were; for \<^verbatim>\<open>rt_memcpy\<close> if the target does
  not begin inside the source, for \<^verbatim>\<open>rt_memmove\<close> always, for areas that end below the last address.\<close>

theorem memory_routines:
  "rt_memset d c n M = (\<lambda>a. if a - d < n then ucast c else M a) \<and>
   (n \<le> d - s \<or> d = s \<longrightarrow> rt_memcpy d s n M = (\<lambda>a. if a - d < n then M (s + (a - d)) else M a)) \<and>
   (unat s + unat n < 2 ^ 32 \<and> unat d + unat n < 2 ^ 32 \<longrightarrow>
      rt_memmove d s n M = (\<lambda>a. if a - d < n then M (s + (a - d)) else M a))"
  using rt_memset_filled [of d c n M] rt_memcpy_copied [of d s n M] rt_memmove_copied [of s n d M]
  by (simp add: filled_def copied_def upwards_def)

theorem memory_routines_witness:
  "rt_memcpy 0x200 0x101 21 demo_memory 0x201 = 99 \<and> rt_memmove 0x101 0x100 21 demo_memory 0x103 = 99"
  using memory_routines [of "0x200" 0 21 demo_memory "0x101"] memory_routines [of "0x101" 0 21 demo_memory "0x100"]
  by (simp add: demo_memory_def)

text \<open>On strings in memory \<^verbatim>\<open>rt_strlen\<close> and \<^verbatim>\<open>rt_strcmp\<close> return; the one counts the bytes in front
  of the terminating zero, the other is zero exactly for equal strings and negative exactly if the
  first is smaller in the lexicographic order; and \<^verbatim>\<open>rt_strstr\<close> finds the first occurrence, or
  returns \<^verbatim>\<open>RT_NULL\<close> if there is none.\<close>

theorem strings_correct:
  assumes x: "cstr M p xs" and y: "cstr M q ys"
  shows "rt_strlen M p = Some (of_nat (length xs)) \<and> length xs < 2 ^ 32 \<and>
    (\<exists>r. rt_strcmp M p q = Some r \<and> (r = 0 \<longleftrightarrow> xs = ys) \<and> (r < 0 \<longleftrightarrow> (xs, ys) \<in> lexord {(a, b). a < b})) \<and>
    (length xs < 2 ^ 31 \<and> length ys < 2 ^ 31 \<longrightarrow>
       (\<exists>r. rt_strstr M p q = Some r \<and>
          (case r of
             None \<Rightarrow> \<not> sublist ys xs
           | Some t \<Rightarrow> \<exists>i \<le> length xs. t = p + of_nat i \<and> prefix ys (drop i xs) \<and>
               (\<forall>j < i. \<not> prefix ys (drop j xs)))))"
proof -
  have "case map_option (\<lambda>i. p + of_nat i) (find_prefix ys xs) of
      None \<Rightarrow> \<not> sublist ys xs
    | Some t \<Rightarrow> \<exists>i \<le> length xs. t = p + of_nat i \<and> prefix ys (drop i xs) \<and> (\<forall>j < i. \<not> prefix ys (drop j xs))"
  proof (cases "find_prefix ys xs")
    case None
    then show ?thesis using find_prefix_None [of ys xs] by simp
  next
    case (Some i)
    then show ?thesis using find_prefix_Some [of ys xs i] by auto
  qed
  then show ?thesis
    using strlen_length [OF x] cstr_length [OF x] strcmp_diff [OF x y]
      byte_diff_order [OF cstr_0 [OF x] cstr_0 [OF y]] strstr_find [OF x y] by auto
qed

lemma demo_strings: "cstr demo_memory 0x100 [97, 98, 99]" "cstr demo_memory 0x200 [98, 99]"
  by (simp_all add: demo_memory_def)

theorem strings_correct_witness:
  "rt_strlen demo_memory 0x100 = Some 3 \<and> (\<exists>r. rt_strstr demo_memory 0x100 0x200 = Some r)"
  using strings_correct [OF demo_strings] by auto



text \<open>A number that \<^verbatim>\<open>print_number\<close> prints in decimal is read back by the parser of the format
  with its value; it takes at most ten characters, so the array \<^verbatim>\<open>tmp\<close> does not overflow.\<close>

theorem decimal_roundtrip:
  "\<exists>t. print_number e num 10 (- 1) (- 1) 0 st = emits e t st \<and> skip_atoi t = (uint num, []) \<and>
     0 < length t \<and> length t \<le> 10"
proof -
  let ?t = "number_digits num 10 0"
  have "number_text num 10 (- 1) (- 1) 0 = ?t"
    by (simp add: number_text_def Let_def number_sign_def magnitude_def)
  moreover have "skip_atoi ?t = (uint num, [])"
    using digits_value [of num 0] by (auto simp: skip_atoi_def number_digits_def is_digit_def)
  moreover have "0 < length ?t"
    by (simp add: number_digits_def digits_loop.simps [of _ num] split: prod.split)
  ultimately show ?thesis using print_number_emits [of e num 10 "- 1" "- 1" 0 st] tmp_fits [of num 10 0] by auto
qed

text \<open>\<^verbatim>\<open>rt_malloc_align\<close> for a power of two returns an aligned pointer into a fresh area, with room
  for the size behind and for the saved pointer in front; if the application leaves the saved pointer
  alone, \<^verbatim>\<open>rt_free_align\<close> gives exactly that area back.\<close>

theorem aligned_roundtrip:
  assumes "heap_ok h" "2 \<le> k" "k < 32" "unat sz + 2 ^ k + 6 < 2 ^ 32"
  shows "\<exists>r h' M'. rt_malloc_align sz (2 ^ k) h M = Some (r, h', M') \<and> heap_ok h' \<and>
    (case r of
       None \<Rightarrow> h' = h \<and> M' = M
     | Some p \<Rightarrow> 2 ^ k dvd unat p \<and>
         (\<exists>q e. allocated h' = insert (q, e) (allocated h) \<and>
            unat (heap_ptr h) + unat q + 4 \<le> unat p \<and> unat p + unat sz \<le> unat (heap_ptr h) + unat e) \<and>
         (\<forall>N. load32 N (p - 4) = load32 M' (p - 4) \<longrightarrow>
            (\<exists>h''. rt_free_align p h' N = Some h'' \<and> heap_ok h'' \<and> allocated h'' = allocated h)))"
  by (rule malloc_align_spec [OF assms])

theorem aligned_roundtrip_witness:
  "\<exists>r h' M'. rt_malloc_align 20 (2 ^ 4) heap1 demo_memory = Some (r, h', M') \<and> heap_ok h'"
  using aligned_roundtrip [of heap1 4 20 demo_memory] heap_at_views(1) [OF heap_at_demo(2)] by fastforce

section \<open>Boundary cases\<close>

text \<open>The octal conversion divides by 16.\<close>

theorem octal_is_hexadecimal: "print_number e num 8 s precision type = print_number e num 16 s precision type"
proof -
  have "divide n 8 = divide n 16" for n by (simp add: divide_def)
  then have d: "digits_loop ds n 8 = digits_loop ds n 16" for ds n
    by (induction ds n "16 :: int" rule: digits_loop.induct)
      (subst (1 2) digits_loop.simps, auto split: prod.split)
  show ?thesis by (rule ext) (simp add: print_number_emits number_text_def number_digits_def d)
qed

text \<open>The difference of two bytes does not fit the \<^verbatim>\<open>signed char\<close> of \<^verbatim>\<open>rt_strncmp\<close>: the sign is lost.\<close>

theorem strncmp_sign_lost:
  "rt_strcmp ((\<lambda>_. 0)(0x100 := 1, 0x200 := 255)) 0x100 0x200 = Some (- 254) \<and>
   rt_strncmp ((\<lambda>_. 0)(0x100 := 1, 0x200 := 255)) 0x100 0x200 1 = 2"
  by (simp add: rt_strcmp.simps rt_strncmp_def strncmp_loop.simps Let_def)

end
