(* ===== verification/Uart_Buffer.thy ===== *)
theory Uart_Buffer
  imports Bounded_Queue
begin

text \<open>
  The receive buffer of the serial line, \<^verbatim>\<open>bsp/uart_irq.c\<close>: a ring of 64 cells of which one
  stays free, written by the interrupt handler and read by the shell.  The indices are
  signed in C; they never leave the range from 0 to 63, so \<open>mod\<close> is the remainder of C.
\<close>

definition UART_RX_BUF_SIZE :: int where "UART_RX_BUF_SIZE = 64"

record uart_rx_buf =
  buf :: "int \<Rightarrow> u8"
  write_idx :: int
  read_idx :: int

definition rb_put :: "u8 \<Rightarrow> uart_rx_buf \<Rightarrow> uart_rx_buf" where
  "rb_put c r =
     (if read_idx r = (write_idx r + 1) mod UART_RX_BUF_SIZE then r
      else let r = r\<lparr>buf := (buf r)(write_idx r := c)\<rparr>
           in r\<lparr>write_idx := (write_idx r + 1) mod UART_RX_BUF_SIZE\<rparr>)"

definition rb_get :: "uart_rx_buf \<Rightarrow> u8 \<times> uart_rx_buf" where
  "rb_get r =
     (let c = buf r (read_idx r)
      in (c, r\<lparr>read_idx := (read_idx r + 1) mod UART_RX_BUF_SIZE\<rparr>))"

definition rb_clear :: "uart_rx_buf \<Rightarrow> uart_rx_buf" where
  "rb_clear r = r\<lparr>buf := (\<lambda>i. if 0 \<le> i \<and> i < UART_RX_BUF_SIZE then 0 else buf r i)\<rparr>"

section \<open>The buffer as a queue\<close>

definition rb_len :: "uart_rx_buf \<Rightarrow> nat" where
  "rb_len r = nat ((write_idx r - read_idx r) mod UART_RX_BUF_SIZE)"

definition rb_contents :: "uart_rx_buf \<Rightarrow> u8 list" where
  "rb_contents r = map (\<lambda>i. buf r ((read_idx r + int i) mod UART_RX_BUF_SIZE)) [0..<rb_len r]"

definition rb_room :: "uart_rx_buf \<Rightarrow> nat" where
  "rb_room r = nat UART_RX_BUF_SIZE - 1 - rb_len r"

definition rb_ok :: "uart_rx_buf \<Rightarrow> bool" where
  "rb_ok r \<longleftrightarrow> 0 \<le> write_idx r \<and> write_idx r < UART_RX_BUF_SIZE \<and>
     0 \<le> read_idx r \<and> read_idx r < UART_RX_BUF_SIZE"

lemma rb_contents_length [simp]: "length (rb_contents r) = rb_len r"
  by (simp add: rb_contents_def)

lemma rb_len_less: "rb_len r < 64"
  by (simp add: rb_len_def UART_RX_BUF_SIZE_def nat_less_iff)

lemma ring_steps:
  fixes a b :: int
  assumes "0 \<le> a" "a < 64" "0 \<le> b" "b < 64"
  shows "(b - a) mod 64 = (if a \<le> b then b - a else b - a + 64)" "(a + 1) mod 64 = (if a = 63 then 0 else a + 1)"
proof -
  show "(b - a) mod 64 = (if a \<le> b then b - a else b - a + 64)"
  proof (cases "a \<le> b")
    case False
    have "(b - a) mod 64 = (b - a + 64) mod 64" by simp
    also have "\<dots> = b - a + 64" using assms False by (intro mod_pos_pos_trivial) simp_all
    finally show ?thesis using False by simp
  qed (use assms in \<open>simp add: mod_pos_pos_trivial\<close>)
  show "(a + 1) mod 64 = (if a = 63 then 0 else a + 1)"
    using assms by (simp add: mod_pos_pos_trivial)
qed

lemma ring_distinct:
  fixes a i j :: int
  assumes "(a + i) mod 64 = (a + j) mod 64" "0 \<le> i" "i < 64" "0 \<le> j" "j < 64"
  shows "i = j"
proof -
  have "(64 :: int) dvd i - j" using assms(1) by (simp add: mod_eq_dvd_iff)
  then obtain k where "i - j = 64 * k" ..
  moreover from this assms(2-) have "- 64 < 64 * k" "64 * k < 64" by linarith+
  ultimately show ?thesis by simp
qed

lemma rb_cases:
  assumes "rb_ok r"
  shows "int (rb_len r) = (if read_idx r \<le> write_idx r then write_idx r - read_idx r
      else write_idx r - read_idx r + 64)"
    and "write_idx r = (read_idx r + int (rb_len r)) mod 64"
proof -
  have "int (rb_len r) = (write_idx r - read_idx r) mod 64"
    by (simp add: rb_len_def UART_RX_BUF_SIZE_def)
  then show "int (rb_len r) = (if read_idx r \<le> write_idx r then write_idx r - read_idx r
      else write_idx r - read_idx r + 64)"
    using assms ring_steps(1) by (simp add: rb_ok_def UART_RX_BUF_SIZE_def)
  have "(read_idx r + (write_idx r - read_idx r) mod 64) mod 64 = write_idx r mod 64"
    by (simp add: mod_add_right_eq)
  then show "write_idx r = (read_idx r + int (rb_len r)) mod 64"
    using assms by (simp add: rb_len_def rb_ok_def UART_RX_BUF_SIZE_def)
qed

text \<open>The code's test for a full buffer.\<close>

lemma rb_full_iff:
  assumes "rb_ok r"
  shows "read_idx r = (write_idx r + 1) mod UART_RX_BUF_SIZE \<longleftrightarrow> rb_room r = 0"
proof -
  have "rb_room r = 0 \<longleftrightarrow> 63 \<le> int (rb_len r)" by (auto simp: rb_room_def UART_RX_BUF_SIZE_def)
  then show ?thesis
    using assms ring_steps(2) [of "write_idx r" 0] rb_cases(1) [OF assms]
    by (auto simp: rb_ok_def UART_RX_BUF_SIZE_def split: if_splits)
qed

lemma rb_put_full: "rb_ok r \<Longrightarrow> rb_room r = 0 \<Longrightarrow> rb_put c r = r"
  by (simp add: rb_put_def rb_full_iff)

lemma rb_put_room:
  assumes "rb_ok r" "0 < rb_room r"
  shows "rb_put c r = r\<lparr>buf := (buf r)(write_idx r := c), write_idx := (write_idx r + 1) mod 64\<rparr>"
    and "rb_ok (rb_put c r)" "rb_len (rb_put c r) = Suc (rb_len r)"
    and "rb_contents (rb_put c r) = rb_contents r @ [c]"
proof -
  show e: "rb_put c r = r\<lparr>buf := (buf r)(write_idx r := c), write_idx := (write_idx r + 1) mod 64\<rparr>"
    using assms(2) rb_full_iff [OF assms(1)] by (simp add: rb_put_def UART_RX_BUF_SIZE_def)
  show ok: "rb_ok (rb_put c r)"
    using assms(1) by (simp add: e rb_ok_def UART_RX_BUF_SIZE_def)
  have n: "rb_len r < 63" using assms(2) by (simp add: rb_room_def UART_RX_BUF_SIZE_def)
  have "int (rb_len (rb_put c r)) = int (rb_len r) + 1"
    using assms(1) rb_cases(1) [OF assms(1)] rb_cases(1) [OF ok] n ring_steps(2) [of "write_idx r" 0]
    by (auto simp: e rb_ok_def UART_RX_BUF_SIZE_def split: if_splits)
  then show l: "rb_len (rb_put c r) = Suc (rb_len r)" by simp
  have "(read_idx r + int i) mod 64 \<noteq> write_idx r" if "i < rb_len r" for i
    using ring_distinct [of "read_idx r" "int i" "int (rb_len r)"] rb_cases(2) [OF assms(1)] that n by auto
  then show "rb_contents (rb_put c r) = rb_contents r @ [c]"
    unfolding rb_contents_def l
    using rb_cases(2) [OF assms(1)] by (simp add: e UART_RX_BUF_SIZE_def)
qed

lemma rb_get_some:
  assumes "rb_ok r" "rb_contents r \<noteq> []"
  shows "rb_ok (snd (rb_get r))" "Suc (rb_len (snd (rb_get r))) = rb_len r"
    and "rb_contents r = fst (rb_get r) # rb_contents (snd (rb_get r))"
proof -
  let ?r = "snd (rb_get r)"
  have sel: "write_idx ?r = write_idx r" "buf ?r = buf r" "read_idx ?r = (read_idx r + 1) mod 64"
    by (simp_all add: rb_get_def UART_RX_BUF_SIZE_def)
  have n: "0 < rb_len r" using assms(2) by (auto simp: rb_contents_def)
  show ok: "rb_ok ?r" using assms(1) by (simp add: sel rb_ok_def UART_RX_BUF_SIZE_def)
  have "int (rb_len ?r) + 1 = int (rb_len r)"
    using assms(1) rb_cases(1) [OF assms(1)] rb_cases(1) [OF ok] n ring_steps(2) [of "read_idx r" 0]
    by (auto simp: sel rb_ok_def UART_RX_BUF_SIZE_def split: if_splits)
  then show l: "Suc (rb_len ?r) = rb_len r" by simp
  have "((read_idx r + 1) mod 64 + int i) mod 64 = (read_idx r + int (Suc i)) mod 64" for i
    by (simp add: mod_add_left_eq add.assoc)
  moreover have "fst (rb_get r) = buf r (read_idx r mod 64)"
    using assms(1) by (simp add: rb_get_def rb_ok_def UART_RX_BUF_SIZE_def)
  ultimately show "rb_contents r = fst (rb_get r) # rb_contents ?r"
    unfolding rb_contents_def l [symmetric] map_upt_Suc_front by (simp add: sel UART_RX_BUF_SIZE_def)
qed

interpretation rb: bounded_queue rb_put rb_get rb_contents rb_room rb_ok "\<lambda>_ _. True" "(=)"
proof (unfold_locales, goal_cases)
  case (1 q v) then show ?case by (intro rb_put_room(2))
next
  case (2 q v) then show ?case using rb_put_room(4) [OF 2(1,3)] by blast
next
  case (3 q v) then show ?case using rb_put_room(3) [OF 3(1,3)] by (simp add: rb_room_def)
next
  case 4 show ?case by (rule refl)
next
  case (5 q) then show ?case by (rule rb_get_some(1))
next
  case (6 q) then show ?case by (rule rb_get_some(3))
next
  case (7 q)
  then show ?case using rb_get_some(2) [OF 7] rb_len_less [of q] by (simp add: rb_room_def UART_RX_BUF_SIZE_def)
qed

text \<open>Reading an empty buffer makes it look full, and what is written to it from then on is lost.\<close>

lemma rb_get_empty:
  assumes "rb_ok r" "rb_contents r = []"
  shows "rb_len (snd (rb_get r)) = 63" "rb_ok (snd (rb_get r))" "rb_put c (snd (rb_get r)) = snd (rb_get r)"
proof -
  let ?r = "snd (rb_get r)"
  have e: "read_idx r = write_idx r"
    using assms rb_cases(1) [OF assms(1)] by (auto simp: rb_contents_def rb_ok_def UART_RX_BUF_SIZE_def split: if_splits)
  have sel: "write_idx ?r = write_idx r" "read_idx ?r = (read_idx r + 1) mod 64"
    by (simp_all add: rb_get_def UART_RX_BUF_SIZE_def)
  show ok: "rb_ok ?r" using assms(1) by (simp add: sel rb_ok_def UART_RX_BUF_SIZE_def)
  have "read_idx ?r = (write_idx ?r + 1) mod UART_RX_BUF_SIZE" by (simp add: sel e UART_RX_BUF_SIZE_def)
  then have full: "rb_room ?r = 0" using rb_full_iff [OF ok] by simp
  then show "rb_len ?r = 63" using rb_len_less [of ?r] by (simp add: rb_room_def UART_RX_BUF_SIZE_def)
  show "rb_put c ?r = ?r" by (rule rb_put_full [OF ok full])
qed

end
