(* ===== verification/Interrupt.thy ===== *)
theory Interrupt
  imports Semaphore Uart_Buffer
begin

text \<open>
  Interrupts: the controller driver \<^verbatim>\<open>libcpu/interrupt.c\<close> with the register accesses of
  \<^verbatim>\<open>libcpu/riscv-plic.h\<close>, and the dispatch from the trap entry to the handlers.

  A \<open>machine\<close> is the kernel with the state of the drivers: the memory-mapped registers of PLIC
  and CLINT by address, the CSRs the driver writes, the table of handlers, and the receive
  buffer of the serial line.  What the hardware answers to the reads of one trap (the
  counter, the claimed source, the registers of the UART) is an argument, \<open>trap_in\<close>.
\<close>

section \<open>The machine\<close>

text \<open>The handlers that are installed: \<^verbatim>\<open>uart_isr\<close> and functions of other drivers.\<close>

datatype isr = UartIsr | OtherIsr nat

record rt_irq_desc =
  handler :: "isr option"
  param :: nat

record machine =
  krn :: kernel
  mmio :: "u32 \<Rightarrow> u32"
  mie :: u32
  mip :: u32
  mtvec :: bool                        \<comment> \<open>whether it points to \<open>trap_entry\<close>\<close>
  irq_desc_table :: "nat \<Rightarrow> rt_irq_desc"
  g_uart_rx :: uart_rx_buf
  uart_ier :: u8

record trap_in =
  mtime_lo :: u32
  mtime_hi :: u32
  claim :: u32
  uart_lsr :: u8
  uart_rbr :: u8

definition MAX_IRQ_SOURCES :: int where "MAX_IRQ_SOURCES = 32"
definition IRQ_S_SOFT :: u32 where "IRQ_S_SOFT = 1"
definition IRQ_M_TIMER :: u32 where "IRQ_M_TIMER = 7"
definition IRQ_M_EXT :: u32 where "IRQ_M_EXT = 11"
definition PLIC_BASE_ADDR :: u32 where "PLIC_BASE_ADDR = 0x0C000000"
definition CLINT_BASE_ADDR :: u32 where "CLINT_BASE_ADDR = 0x02000000"
definition CLINT_MTIMECMP_OFFSET :: u32 where "CLINT_MTIMECMP_OFFSET = 0x4000"
definition TICK_CYCLES :: u32 where "TICK_CYCLES = 10000000 div 100"

lemmas irq_consts = MAX_IRQ_SOURCES_def IRQ_S_SOFT_def IRQ_M_TIMER_def IRQ_M_EXT_def PLIC_BASE_ADDR_def
  CLINT_BASE_ADDR_def CLINT_MTIMECMP_OFFSET_def TICK_CYCLES_def

definition store_reg :: "u32 \<Rightarrow> u32 \<Rightarrow> machine \<Rightarrow> machine" where
  "store_reg a v m = m\<lparr>mmio := (mmio m)(a := v)\<rparr>"

section \<open>The PLIC\<close>

text \<open>The registers of hart 0, the only one.\<close>

definition plic_set_threshold :: "u32 \<Rightarrow> machine \<Rightarrow> machine" where
  "plic_set_threshold threshold = store_reg (PLIC_BASE_ADDR + 0x00200000) threshold"

definition plic_set_priority :: "u32 \<Rightarrow> u32 \<Rightarrow> machine \<Rightarrow> machine" where
  "plic_set_priority source priority = store_reg (PLIC_BASE_ADDR + 0 + push_bit 2 source) priority"

definition plic_enable_addr :: "u32 \<Rightarrow> u32" where
  "plic_enable_addr source = PLIC_BASE_ADDR + 0x00002000 + push_bit 2 (drop_bit 5 source)"

definition plic_irq_enable :: "u32 \<Rightarrow> machine \<Rightarrow> machine" where
  "plic_irq_enable source m =
     (let current = mmio m (plic_enable_addr source);
          current = current OR push_bit (unat (source AND 0x1F)) 1
      in store_reg (plic_enable_addr source) current m)"

definition plic_irq_disable :: "u32 \<Rightarrow> machine \<Rightarrow> machine" where
  "plic_irq_disable source m =
     (let current = mmio m (plic_enable_addr source);
          current = current AND NOT (push_bit (unat (source AND 0x1F)) 1)
      in store_reg (plic_enable_addr source) current m)"

definition plic_irq_complete :: "u32 \<Rightarrow> machine \<Rightarrow> machine" where
  "plic_irq_complete source = store_reg (PLIC_BASE_ADDR + 0x00200004) source"

section \<open>The timer comparison\<close>

text \<open>The stores that set the 64-bit comparison register for the next tick, in their order: the
  low half is first set to the largest value, so that no intermediate value lies too low.\<close>

definition mtimecmp_stores :: "u32 \<Rightarrow> u32 \<Rightarrow> (u32 \<times> u32) list" where
  "mtimecmp_stores lo hi =
     (let next_lo = lo + TICK_CYCLES;
          hi = (if next_lo < lo then hi + 1 else hi);
          mtimecmp_lo = CLINT_BASE_ADDR + CLINT_MTIMECMP_OFFSET;
          mtimecmp_hi = CLINT_BASE_ADDR + CLINT_MTIMECMP_OFFSET + 4
      in [(mtimecmp_lo, NOT 0), (mtimecmp_hi, hi), (mtimecmp_lo, next_lo)])"

definition set_mtimecmp :: "trap_in \<Rightarrow> machine \<Rightarrow> machine" where
  "set_mtimecmp i m = fold (\<lambda>(a, v). store_reg a v) (mtimecmp_stores (mtime_lo i) (mtime_hi i)) m"

section \<open>Set-up\<close>

definition plic_reset :: "machine \<Rightarrow> machine" where
  "plic_reset = fold (\<lambda>k m. plic_set_priority (of_nat k) 0 (plic_irq_disable (of_nat k) m)) [1..<nat MAX_IRQ_SOURCES]"

definition rt_hw_interrupt_init :: "trap_in \<Rightarrow> machine \<Rightarrow> machine" where
  "rt_hw_interrupt_init i m =
     (let m = m\<lparr>irq_desc_table := (\<lambda>k. if int k < MAX_IRQ_SOURCES then \<lparr>handler = None, param = 0\<rparr>
                                       else irq_desc_table m k)\<rparr>;
          m = plic_reset m;
          m = plic_set_threshold 0 m;
          m = set_mtimecmp i m;
          m = m\<lparr>mie := mie m OR 0x80\<rparr>;
          m = m\<lparr>mie := mie m OR 0x800\<rparr>
      in m\<lparr>mtvec := True\<rparr>)"

definition rt_hw_interrupt_mask :: "int \<Rightarrow> machine \<Rightarrow> machine" where
  "rt_hw_interrupt_mask vector m =
     (if 0 \<le> vector \<and> vector < MAX_IRQ_SOURCES then plic_irq_disable (word_of_int vector) m
      else if vector = uint IRQ_M_TIMER then m\<lparr>mie := mie m AND NOT 0x80\<rparr>
      else if vector = uint IRQ_M_EXT then m\<lparr>mie := mie m AND NOT 0x800\<rparr>
      else m)"

definition rt_hw_interrupt_umask :: "int \<Rightarrow> machine \<Rightarrow> machine" where
  "rt_hw_interrupt_umask vector m =
     (if 0 \<le> vector \<and> vector < MAX_IRQ_SOURCES
      then plic_irq_enable (word_of_int vector) (plic_set_priority (word_of_int vector) 1 m)
      else if vector = uint IRQ_M_TIMER then m\<lparr>mie := mie m OR 0x80\<rparr>
      else if vector = uint IRQ_M_EXT then m\<lparr>mie := mie m OR 0x800\<rparr>
      else m)"

definition rt_hw_interrupt_install ::
  "int \<Rightarrow> isr option \<Rightarrow> nat \<Rightarrow> machine \<Rightarrow> isr option \<times> machine" where
  "rt_hw_interrupt_install vector h p m =
     (if vector < 0 \<or> MAX_IRQ_SOURCES \<le> vector then (None, m)
      else let old_handler = handler (irq_desc_table m (nat vector));
               m = m\<lparr>irq_desc_table := (irq_desc_table m)(nat vector := \<lparr>handler = h, param = p\<rparr>)\<rparr>
           in (old_handler, m))"

section \<open>Dispatch\<close>

text \<open>\<open>run h k p\<close> is the effect of handler \<open>h\<close>, called with source \<open>k\<close> and parameter \<open>p\<close>.\<close>

type_synonym isr_run = "isr \<Rightarrow> int \<Rightarrow> nat \<Rightarrow> machine \<Rightarrow> machine option"

definition rt_hw_timer_isr :: "callbacks \<Rightarrow> trap_in \<Rightarrow> machine \<Rightarrow> machine option" where
  "rt_hw_timer_isr cb i m = do {
     let m = set_mtimecmp i m;
     k \<leftarrow> rt_tick_increase cb (krn m);
     Some (m\<lparr>krn := k\<rparr>)
   }"

definition rt_hw_plic_dispatch :: "isr_run \<Rightarrow> trap_in \<Rightarrow> machine \<Rightarrow> machine option" where
  "rt_hw_plic_dispatch run i m =
     (let source = claim i in
      if source = 0 then Some m
      else do {
        m \<leftarrow> (if uint source < MAX_IRQ_SOURCES then
                let desc = irq_desc_table m (unat source)
                in (case handler desc of
                      Some h \<Rightarrow> run h (sint source) (param desc) m
                    | None \<Rightarrow> Some m)
              else Some m);
        Some (plic_irq_complete source m)
      })"

text \<open>An exception prints its registers and shuts the processor down, so the call does not
  return.\<close>

definition rt_hw_trap_handler :: "isr_run \<Rightarrow> callbacks \<Rightarrow> trap_in \<Rightarrow> u32 \<Rightarrow> machine \<Rightarrow> machine option" where
  "rt_hw_trap_handler run cb i mcause m =
     (if mcause AND 0x80000000 \<noteq> 0 then do {
        let cause = mcause AND 0x7FFFFFFF;
        let m = m\<lparr>krn := rt_interrupt_enter (krn m)\<rparr>;
        m \<leftarrow> (if cause = IRQ_M_TIMER then rt_hw_timer_isr cb i m
              else if cause = IRQ_M_EXT then rt_hw_plic_dispatch run i m
              else if cause = IRQ_S_SOFT then Some (m\<lparr>mip := mip m AND NOT 0x8\<rparr>)
              else Some m);
        Some (m\<lparr>krn := rt_interrupt_leave (krn m)\<rparr>)
      }
      else None)"

text \<open>A trap: the handler, and the switch that the exit path of \<^verbatim>\<open>trap_entry.S\<close> performs.\<close>

definition trap :: "isr_run \<Rightarrow> callbacks \<Rightarrow> trap_in \<Rightarrow> u32 \<Rightarrow> machine \<Rightarrow> machine option" where
  "trap run cb i mcause m = do {
     m \<leftarrow> rt_hw_trap_handler run cb i mcause m;
     Some (m\<lparr>krn := trap_exit (krn m)\<rparr>)
   }"

section \<open>Which thread the processor runs\<close>

text \<open>Outside interrupts the processor runs the current thread; in an interrupt a switch may be
  requested, and then it is to the current thread.\<close>

definition coherent :: "kernel \<Rightarrow> bool" where
  "coherent s \<longleftrightarrow> (if switch_flag s = 0 then cpu s = current_thread s
                  else irq_nest s \<noteq> 0 \<and> switch_to s = current_thread s)"

definition keeps_cpu :: "kernel \<Rightarrow> kernel \<Rightarrow> bool" where
  "keeps_cpu s s' \<longleftrightarrow> irq_nest s' = irq_nest s \<and> (coherent s \<longrightarrow> coherent s')"

lemma keeps_cpu_same:
  "irq_nest s' = irq_nest s \<Longrightarrow> switch_flag s' = switch_flag s \<Longrightarrow> switch_to s' = switch_to s \<Longrightarrow>
   cpu s' = cpu s \<Longrightarrow> current_thread s' = current_thread s \<Longrightarrow> keeps_cpu s s'"
  by (simp add: keeps_cpu_def coherent_def)

lemma keeps_cpu_trans [trans]: "keeps_cpu s t \<Longrightarrow> keeps_cpu t u \<Longrightarrow> keeps_cpu s u"
  by (simp add: keeps_cpu_def)

lemma keeps_cpu_refl [simp]: "keeps_cpu s s"
  by (simp add: keeps_cpu_def)

lemma schedule_keeps_cpu: "rt_schedule s = Some s' \<Longrightarrow> keeps_cpu s s'"
  by (elim rt_schedule_cases)
    (auto simp: keeps_cpu_def coherent_def rt_hw_context_switch_def rt_hw_context_switch_interrupt_def Let_def)

lemmas cpu_steps = upd_thread_def upd_obj_def upd_timer_def set_timer_flag_def rt_timer_remove_def
  rt_schedule_insert_thread_def Let_def RT_ASSERT_def

lemma timer_stop_keeps_cpu: "rt_timer_stop m s = Some (e, s') \<Longrightarrow> keeps_cpu s s'"
  by (rule keeps_cpu_same) (auto simp: rt_timer_stop_def cpu_steps split: if_splits)

lemma timer_start_keeps_cpu: "rt_timer_start m s = Some (e, s') \<Longrightarrow> keeps_cpu s s'"
  by (rule keeps_cpu_same) (auto simp: rt_timer_start_def cpu_steps split: if_splits)

lemma resume_keeps_cpu:
  assumes "rt_thread_resume t s = Some (e, s')"
  shows "keeps_cpu s s'"
proof (cases "thread_stat s t = RT_THREAD_SUSPEND")
  case True
  with assms obtain e' s2 where 2: "rt_timer_stop (ThreadTimer t) (s\<lparr>queues := q_remove t (queues s)\<rparr>) = Some (e', s2)"
      "s' = rt_schedule_insert_thread t s2"
    by (auto simp: rt_thread_resume_def RT_ASSERT_def Let_def split: if_splits bind_splits)
  have "keeps_cpu s (s\<lparr>queues := q_remove t (queues s)\<rparr>)" by (rule keeps_cpu_same) simp_all
  also have "keeps_cpu \<dots> s2" by (rule timer_stop_keeps_cpu [OF 2(1)])
  also have "keeps_cpu s2 s'" unfolding 2(2) by (rule keeps_cpu_same) (simp_all add: cpu_steps)
  finally show ?thesis .
next
  case False
  with assms show ?thesis by (simp add: rt_thread_resume_def RT_ASSERT_def split: if_splits)
qed

lemma yield_keeps_cpu:
  assumes "rt_thread_yield s = Some (e, s')"
  shows "keeps_cpu s s'"
proof -
  consider "s' = s" | Q where "rt_schedule (s\<lparr>queues := Q\<rparr>) = Some s'"
    using assms by (auto simp: rt_thread_yield_def Let_def split: if_splits bind_splits)
  then show ?thesis
  proof cases
    case (2 Q)
    have "keeps_cpu s (s\<lparr>queues := Q\<rparr>)" by (rule keeps_cpu_same) simp_all
    then show ?thesis using schedule_keeps_cpu [OF 2] by (rule keeps_cpu_trans)
  qed simp
qed

lemma timeout_keeps_cpu:
  assumes "rt_thread_timeout t s = Some s'"
  shows "keeps_cpu s s'"
proof -
  let ?s = "upd_thread t (\<lambda>r. r\<lparr>th_error := - RT_ETIMEOUT\<rparr>) s"
  let ?s2 = "rt_schedule_insert_thread t (?s\<lparr>queues := q_remove t (queues ?s)\<rparr>)"
  have "keeps_cpu s ?s2" by (rule keeps_cpu_same) (simp_all add: cpu_steps)
  moreover have "rt_schedule ?s2 = Some s'"
    using assms by (simp add: rt_thread_timeout_def RT_ASSERT_def Let_def split: if_splits)
  ultimately show ?thesis using schedule_keeps_cpu keeps_cpu_trans by blast
qed

text \<open>The application's time-out functions are expected to go through the scheduler, too.\<close>

definition cb_keeps_cpu :: "callbacks \<Rightarrow> bool" where
  "cb_keeps_cpu cb \<longleftrightarrow> (\<forall>f p s s'. cb f p s = Some s' \<longrightarrow> keeps_cpu s s')"

lemma expire_keeps_cpu:
  assumes "timer_expire cb m s = Some s'" "cb_keeps_cpu cb"
  shows "keeps_cpu s s'"
proof -
  from assms(1) obtain s2 where 2: "run_timeout cb m (rt_timer_remove m s) = Some s2"
      "(if timer_flag s2 m AND RT_TIMER_FLAG_PERIODIC \<noteq> 0 \<and> timer_flag s2 m AND RT_TIMER_FLAG_ACTIVATED \<noteq> 0
        then map_option snd (rt_timer_start m (set_timer_flag m (\<lambda>f. f AND NOT RT_TIMER_FLAG_ACTIVATED) s2))
        else Some (set_timer_flag m (\<lambda>f. f AND NOT RT_TIMER_FLAG_ACTIVATED) s2)) = Some s'"
    by (auto simp: timer_expire_def Let_def split: bind_splits if_splits)
  have "keeps_cpu s (rt_timer_remove m s)" by (rule keeps_cpu_same) (simp_all add: cpu_steps)
  also have "keeps_cpu \<dots> s2"
    using 2(1) assms(2) timeout_keeps_cpu
    by (auto simp: run_timeout_def cb_keeps_cpu_def split: timeout.splits)
  also have "keeps_cpu s2 (set_timer_flag m (\<lambda>f. f AND NOT RT_TIMER_FLAG_ACTIVATED) s2)"
    by (rule keeps_cpu_same) (simp_all add: cpu_steps)
  also have "keeps_cpu \<dots> s'"
    using 2(2) timer_start_keeps_cpu by (auto split: if_splits)
  finally show ?thesis .
qed

lemma check_loop_keeps_cpu:
  assumes "timer_check_loop cb now s = Some s'" "cb_keeps_cpu cb"
  shows "keeps_cpu s s'"
proof -
  have "cb_keeps_cpu cb \<longrightarrow> keeps_cpu s s'"
  proof (rule timer_check_loop.raw_induct [where P = "\<lambda>cb now s s'. cb_keeps_cpu cb \<longrightarrow> keeps_cpu s s'", OF _ assms(1)])
    fix loop cb now s s'
    assume IH: "\<And>cb now s s'. loop cb now s = Some s' \<Longrightarrow> cb_keeps_cpu cb \<longrightarrow> keeps_cpu s s'"
      and r: "(case timer_list s of [] \<Rightarrow> Some s
        | t # ts \<Rightarrow> if now - timeout_tick (timers s t) < RT_TICK_MAX div 2
            then timer_expire cb t s \<bind> (\<lambda>s. loop cb (rt_tick_get s) s) else Some s) = Some s'"
    show "cb_keeps_cpu cb \<longrightarrow> keeps_cpu s s'"
    proof
      assume cb: "cb_keeps_cpu cb"
      from r consider "s' = s" | t s2 where "timer_expire cb t s = Some s2" "loop cb (rt_tick_get s2) s2 = Some s'"
        by (auto split: list.splits if_splits bind_splits)
      then show "keeps_cpu s s'"
      proof cases
        case (2 t s2)
        then show ?thesis using expire_keeps_cpu [OF 2(1) cb] IH [OF 2(2)] cb keeps_cpu_trans by blast
      qed simp
    qed
  qed
  then show ?thesis using assms(2) by blast
qed

lemma tick_keeps_cpu:
  assumes "rt_tick_increase cb s = Some s'" "cb_keeps_cpu cb"
  shows "keeps_cpu s s'"
proof -
  let ?s0 = "s\<lparr>rt_tick := rt_tick s + 1\<rparr>"
  from assms(1) obtain t where t: "rt_thread_self ?s0 = Some t" by (auto simp: rt_tick_increase_def Let_def split: bind_splits)
  define s1 where "s1 = upd_thread t (\<lambda>r. r\<lparr>remaining_tick := remaining_tick r - 1\<rparr>) ?s0"
  from assms(1) t obtain s2 where 2: "rt_timer_check cb s2 = Some s'"
      "s2 = s1 \<or> (\<exists>e. rt_thread_yield (upd_thread t (\<lambda>r. r\<lparr>remaining_tick := th_init_tick r\<rparr>) s1) = Some (e, s2))"
    unfolding rt_tick_increase_def s1_def Let_def by (auto split: if_splits bind_splits)
  have "keeps_cpu s s1" by (rule keeps_cpu_same) (simp_all add: s1_def cpu_steps)
  also have "keeps_cpu s1 s2"
    using 2(2)
  proof (elim disjE exE)
    fix e assume y: "rt_thread_yield (upd_thread t (\<lambda>r. r\<lparr>remaining_tick := th_init_tick r\<rparr>) s1) = Some (e, s2)"
    have "keeps_cpu s1 (upd_thread t (\<lambda>r. r\<lparr>remaining_tick := th_init_tick r\<rparr>) s1)"
      by (rule keeps_cpu_same) (simp_all add: cpu_steps)
    then show "keeps_cpu s1 s2" using yield_keeps_cpu [OF y] by (rule keeps_cpu_trans)
  qed simp
  also have "keeps_cpu s2 s'" using check_loop_keeps_cpu assms(2) 2(1) by (simp add: rt_timer_check_def)
  finally show ?thesis .
qed

lemma sem_release_keeps_cpu:
  assumes "rt_sem_release n s = Some (e, s')"
  shows "keeps_cpu s s'"
proof (cases "queues s (Suspend (QSem n))")
  case Nil
  then show ?thesis
    using assms by (intro keeps_cpu_same) (auto simp: rt_sem_release_def RT_ASSERT_def upd_sem_def split: if_splits)
next
  case (Cons t ts)
  with assms obtain e2 s2 where 2: "rt_thread_resume t s = Some (e2, s2)" "rt_schedule s2 = Some s'"
    by (auto simp: rt_sem_release_def rt_ipc_list_resume_def RT_ASSERT_def split: if_splits bind_splits)
  show ?thesis by (rule keeps_cpu_trans [OF resume_keeps_cpu [OF 2(1)] schedule_keeps_cpu [OF 2(2)]])
qed

section \<open>The trap\<close>

lemma enter_sel [simp]:
  "queues (rt_interrupt_enter s) = queues s" "threads (rt_interrupt_enter s) = threads s"
  "timers (rt_interrupt_enter s) = timers s" "timer_list (rt_interrupt_enter s) = timer_list s"
  "rt_tick (rt_interrupt_enter s) = rt_tick s" "objs (rt_interrupt_enter s) = objs s"
  "ready_group (rt_interrupt_enter s) = ready_group s" "sems (rt_interrupt_enter s) = sems s"
  "current_thread (rt_interrupt_enter s) = current_thread s" "lock_nest (rt_interrupt_enter s) = lock_nest s"
  "timer_flag (rt_interrupt_enter s) = timer_flag s" "timer_key (rt_interrupt_enter s) = timer_key s"
  "irq_nest (rt_interrupt_enter s) = irq_nest s + 1"
  by (simp_all add: rt_interrupt_enter_def timer_flag_def timer_key_def fun_eq_iff)

lemma enter_inv [simp]: "core_inv s \<Longrightarrow> core_inv (rt_interrupt_enter s)"
  by (rule core_inv_cong) simp_all

lemma exit_sel [simp]:
  "queues (trap_exit (rt_interrupt_leave s)) = queues s" "threads (trap_exit (rt_interrupt_leave s)) = threads s"
  "timers (trap_exit (rt_interrupt_leave s)) = timers s"
  "timer_list (trap_exit (rt_interrupt_leave s)) = timer_list s"
  "rt_tick (trap_exit (rt_interrupt_leave s)) = rt_tick s" "objs (trap_exit (rt_interrupt_leave s)) = objs s"
  "ready_group (trap_exit (rt_interrupt_leave s)) = ready_group s" "sems (trap_exit (rt_interrupt_leave s)) = sems s"
  "current_thread (trap_exit (rt_interrupt_leave s)) = current_thread s"
  "lock_nest (trap_exit (rt_interrupt_leave s)) = lock_nest s"
  "irq_nest (trap_exit (rt_interrupt_leave s)) = irq_nest s - 1"
  "switch_flag (trap_exit (rt_interrupt_leave s)) = 0"
  "timer_key (trap_exit (rt_interrupt_leave s)) = timer_key s"
  by (simp_all add: rt_interrupt_leave_def trap_exit_def timer_key_def fun_eq_iff)

lemma exit_inv [simp]: "core_inv s \<Longrightarrow> core_inv (trap_exit (rt_interrupt_leave s))"
  by (rule core_inv_cong) simp_all

text \<open>When the outermost interrupt is left, the processor runs the current thread again.\<close>

lemma enter_coherent: "coherent s \<Longrightarrow> irq_nest s = 0 \<Longrightarrow> coherent (rt_interrupt_enter s)"
  by (simp add: coherent_def rt_interrupt_enter_def split: if_splits)

lemma exit_coherent:
  assumes "keeps_cpu (rt_interrupt_enter s) s'" "coherent s" "irq_nest s = 0"
  shows "irq_nest (trap_exit (rt_interrupt_leave s')) = 0" "coherent (trap_exit (rt_interrupt_leave s'))"
    "cpu (trap_exit (rt_interrupt_leave s')) = current_thread s'"
proof -
  have c: "coherent s'" and n: "irq_nest s' = 1"
    using assms enter_coherent by (simp_all add: keeps_cpu_def)
  show "irq_nest (trap_exit (rt_interrupt_leave s')) = 0" by (simp add: n)
  show e: "cpu (trap_exit (rt_interrupt_leave s')) = current_thread s'"
    using c by (simp add: coherent_def rt_interrupt_leave_def trap_exit_def split: if_splits)
  show "coherent (trap_exit (rt_interrupt_leave s'))" by (simp add: coherent_def e)
qed

section \<open>The tick\<close>

definition mtimecmp :: "machine \<Rightarrow> nat" where
  "mtimecmp m = 2 ^ 32 * unat (mmio m 0x02004004) + unat (mmio m 0x02004000)"

definition mtime :: "trap_in \<Rightarrow> nat" where
  "mtime i = 2 ^ 32 * unat (mtime_hi i) + unat (mtime_lo i)"

lemma store_reg_sel [simp]:
  "mmio (store_reg a v m) = (mmio m)(a := v)" "krn (store_reg a v m) = krn m"
  "irq_desc_table (store_reg a v m) = irq_desc_table m" "g_uart_rx (store_reg a v m) = g_uart_rx m"
  "mie (store_reg a v m) = mie m" "mip (store_reg a v m) = mip m"
  by (simp_all add: store_reg_def)

text \<open>The carry into the high half.\<close>

lemma next_tick:
  assumes "mtime i + 100000 < 2 ^ 64"
  shows "2 ^ 32 * unat (if mtime_lo i + 100000 < mtime_lo i then mtime_hi i + 1 else mtime_hi i) +
    unat (mtime_lo i + 100000) = mtime i + 100000"
proof (cases "unat (mtime_lo i) + 100000 < 2 ^ 32")
  case True
  then have "unat (mtime_lo i + 100000) = unat (mtime_lo i) + 100000"
    by (simp add: unat_word_ariths)
  then show ?thesis by (simp add: mtime_def word_less_nat_alt)
next
  case False
  have lo: "unat (mtime_lo i) < 2 ^ 32" by (rule u32_bound)
  have "unat (mtime_lo i + 100000) = (unat (mtime_lo i) + 100000) mod 2 ^ 32"
    by (simp add: unat_word_ariths)
  also have "\<dots> = unat (mtime_lo i) + 100000 - 2 ^ 32"
    using False lo by (simp add: mod_if le_mod_geq)
  finally have l: "unat (mtime_lo i + 100000) = unat (mtime_lo i) + 100000 - 2 ^ 32" .
  have "unat (mtime_hi i) + 1 < 2 ^ 32" using assms False unfolding mtime_def by simp
  then have "unat (mtime_hi i + 1) = unat (mtime_hi i) + 1" by (simp add: unat_word_ariths)
  then show ?thesis using False lo l by (simp add: mtime_def word_less_nat_alt)
qed

lemma set_mtimecmp_value:
  "mtime i + 100000 < 2 ^ 64 \<Longrightarrow> mtimecmp (set_mtimecmp i m) = mtime i + 100000"
  using next_tick [of i]
  by (simp add: mtimecmp_def set_mtimecmp_def mtimecmp_stores_def irq_consts Let_def)

lemma set_mtimecmp_safe:
  assumes "mtime i + 100000 < 2 ^ 64" "k \<le> 3"
  shows "min (mtimecmp m) (mtime i + 100000) \<le>
    mtimecmp (fold (\<lambda>(a, v). store_reg a v) (take k (mtimecmp_stores (mtime_lo i) (mtime_hi i))) m)"
proof -
  have le: "unat x \<le> unat (- 1 :: u32)" for x :: u32 by (simp add: word_le_nat_alt [symmetric])
  consider "k = 0" | "k = 1" | "k = 2" | "k = 3" using assms(2) by linarith
  then show ?thesis
  proof cases
    case 2
    then show ?thesis
      using le [of "mmio m 0x02004000"] by (simp add: mtimecmp_def mtimecmp_stores_def irq_consts Let_def)
  next
    case 3
    then show ?thesis
      using next_tick [OF assms(1)] le [of "mtime_lo i + 100000"]
      by (simp add: mtimecmp_def mtimecmp_stores_def irq_consts Let_def)
  next
    case 4
    then show ?thesis
      using next_tick [OF assms(1)] by (simp add: mtimecmp_def mtimecmp_stores_def irq_consts Let_def)
  qed simp
qed

lemma set_mtimecmp_sel [simp]: "krn (set_mtimecmp i m) = krn m" "g_uart_rx (set_mtimecmp i m) = g_uart_rx m"
  "irq_desc_table (set_mtimecmp i m) = irq_desc_table m"
  by (simp_all add: set_mtimecmp_def mtimecmp_stores_def Let_def)

lemma mtimecmp_krn [simp]: "mtimecmp (m\<lparr>krn := k\<rparr>) = mtimecmp m"
  by (simp add: mtimecmp_def)

lemma timer_cause: "(0x80000007 :: u32) AND 0x7FFFFFFF = IRQ_M_TIMER" "(0x80000007 :: u32) AND 0x80000000 \<noteq> 0"
  "(0x8000000B :: u32) AND 0x7FFFFFFF = IRQ_M_EXT" "(0x8000000B :: u32) AND 0x80000000 \<noteq> 0" "IRQ_M_EXT \<noteq> IRQ_M_TIMER"
  by (simp_all add: irq_consts)

lemma timer_trap_spec:
  assumes inv: "core_inv (krn m)" "timers_ahead (krn m)" "current_thread (krn m) \<noteq> None"
    and cb: "cb_ok cb" "cb_keeps_cpu cb"
    and per: "\<forall>t. timer_flag (krn m) t AND RT_TIMER_FLAG_PERIODIC \<noteq> 0 \<longrightarrow>
      0 < init_tick (timers (krn m) t) \<and> init_tick (timers (krn m) t) < RT_TICK_MAX div 2"
    and cpu: "coherent (krn m)" "irq_nest (krn m) = 0" and time: "mtime i + 100000 < 2 ^ 64"
  shows "\<exists>m'. trap run cb i 0x80000007 m = Some m' \<and> core_inv (krn m') \<and> timers_ahead (krn m') \<and>
    rt_tick (krn m') = rt_tick (krn m) + 1 \<and> irq_nest (krn m') = 0 \<and> coherent (krn m') \<and>
    cpu (krn m') = current_thread (krn m') \<and> current_thread (krn m') \<noteq> None \<and> mtimecmp m' = mtime i + 100000"
proof -
  let ?k = "rt_interrupt_enter (krn m)"
  have "core_inv ?k" "timers_ahead ?k" "current_thread ?k \<noteq> None"
    using inv by (simp_all add: timers_ahead_def)
  from rt_tick_increase_spec [OF this cb(1)]
  obtain k where k: "rt_tick_increase cb ?k = Some k" "core_inv k" "rt_tick k = rt_tick (krn m) + 1"
      "current_thread k \<noteq> None" "\<forall>t \<in> set (timer_list k). 0 < timer_key k t"
    using per by auto
  note c = exit_coherent [OF tick_keeps_cpu [OF k(1) cb(2)] cpu]
  have "trap run cb i 0x80000007 m =
      Some ((set_mtimecmp i (m\<lparr>krn := ?k\<rparr>))\<lparr>krn := trap_exit (rt_interrupt_leave k)\<rparr>)"
    using k(1) by (simp add: trap_def rt_hw_trap_handler_def rt_hw_timer_isr_def irq_consts Let_def)
  moreover have "timers_ahead (trap_exit (rt_interrupt_leave k))"
    using k(5) by (auto simp: timers_ahead_def intro: less_imp_le)
  ultimately show ?thesis
    using k(2-4) c set_mtimecmp_value [OF time] by simp
qed

section \<open>Masks and handlers\<close>

definition enabled :: "machine \<Rightarrow> nat \<Rightarrow> bool" where
  "enabled m k \<longleftrightarrow> bit (mmio m 0x0C002000) k"

lemma source_bits:
  assumes "0 \<le> v" "v < 32"
  shows "plic_enable_addr (word_of_int v) = 0x0C002000" "unat (word_of_int v AND (0x1F :: u32)) = nat v"
    "unat (word_of_int v :: u32) = nat v"
proof -
  show v: "unat (word_of_int v :: u32) = nat v" using assms by (simp add: unat_eq_nat_uint uint_word_of_int)
  have "unat (drop_bit 5 (word_of_int v :: u32)) = 0" using assms by (simp add: drop_bit_eq_div unat_div v)
  then have "drop_bit 5 (word_of_int v :: u32) = 0" by (simp add: unat_eq_0)
  then show "plic_enable_addr (word_of_int v) = 0x0C002000" by (simp add: plic_enable_addr_def irq_consts)
  have "word_of_int v AND (0x1F :: u32) = take_bit 5 (word_of_int v)" by (simp add: take_bit_eq_mask mask_numeral)
  then show "unat (word_of_int v AND (0x1F :: u32)) = nat v"
    using assms by (simp add: unsigned_take_bit_eq v take_bit_nat_eq_self)
qed

lemma bit_shifted: "bit (push_bit n (1 :: u32)) k \<longleftrightarrow> k = n \<and> n < 32"
  by (auto simp: bit_push_bit_iff bit_1_iff simp del: push_bit_of_1)

text \<open>Enabling and disabling one source of the PLIC changes its bit and no other.\<close>

lemma interrupt_umask_enabled:
  assumes "0 \<le> v" "v < 32"
  shows "enabled (rt_hw_interrupt_umask v m) k \<longleftrightarrow> k = nat v \<or> enabled m k"
proof -
  have "PLIC_BASE_ADDR + 0 + push_bit 2 (word_of_int v) \<noteq> (0x0C002000 :: u32)"
  proof
    assume "PLIC_BASE_ADDR + 0 + push_bit 2 (word_of_int v) = (0x0C002000 :: u32)"
    then have "push_bit 2 (word_of_int v) = (0x0C002000 - (PLIC_BASE_ADDR + 0) :: u32)"
      by (metis add_diff_cancel_left')
    then have "push_bit 2 (word_of_int v) = (0x2000 :: u32)" by (simp add: irq_consts)
    then have "unat (push_bit 2 (word_of_int v :: u32)) = 0x2000" by simp
    moreover have "unat (push_bit 2 (word_of_int v :: u32)) = 4 * nat v"
      using assms source_bits(3) [OF assms]
      by (simp add: unsigned_push_bit_eq push_bit_nat_def take_bit_nat_eq_self)
    ultimately show False using assms(2) by simp
  qed
  then have "mmio (plic_set_priority (word_of_int v) 1 m) 0x0C002000 = mmio m 0x0C002000"
    by (simp add: plic_set_priority_def)
  moreover have "rt_hw_interrupt_umask v m = plic_irq_enable (word_of_int v) (plic_set_priority (word_of_int v) 1 m)"
    using assms by (simp add: rt_hw_interrupt_umask_def MAX_IRQ_SOURCES_def)
  ultimately have "mmio (rt_hw_interrupt_umask v m) 0x0C002000 = mmio m 0x0C002000 OR push_bit (nat v) 1"
    by (simp only: plic_irq_enable_def source_bits [OF assms] Let_def store_reg_sel fun_upd_same)
  then show ?thesis
    using assms unfolding enabled_def by (auto simp: bit_or_iff bit_shifted simp del: push_bit_of_1)
qed

lemma interrupt_mask_enabled:
  assumes "0 \<le> v" "v < 32"
  shows "enabled (rt_hw_interrupt_mask v m) k \<longleftrightarrow> k \<noteq> nat v \<and> enabled m k"
proof -
  have "rt_hw_interrupt_mask v m = plic_irq_disable (word_of_int v) m"
    using assms by (simp add: rt_hw_interrupt_mask_def MAX_IRQ_SOURCES_def)
  then have "mmio (rt_hw_interrupt_mask v m) 0x0C002000 = mmio m 0x0C002000 AND NOT (push_bit (nat v) 1)"
    by (simp only: plic_irq_disable_def source_bits [OF assms] Let_def store_reg_sel fun_upd_same)
  moreover have "bit (mmio m 0x0C002000) k \<Longrightarrow> k < 32" using bit_imp_le_length [of "mmio m 0x0C002000" k] by simp
  ultimately show ?thesis
    using assms unfolding enabled_def
    by (auto simp: bit_and_iff bit_not_iff bit_shifted possible_bit_def simp del: push_bit_of_1)
qed

lemma interrupt_install_handler:
  assumes "0 \<le> v" "v < 32" "rt_hw_interrupt_install v h p m = (old, m')"
  shows "old = handler (irq_desc_table m (nat v))"
    "irq_desc_table m' = (irq_desc_table m)(nat v := \<lparr>handler = h, param = p\<rparr>)"
    "krn m' = krn m" "g_uart_rx m' = g_uart_rx m" "mmio m' = mmio m" "mie m' = mie m"
  using assms by (auto simp: rt_hw_interrupt_install_def MAX_IRQ_SOURCES_def Let_def)

end
