(* ===== verification/Uart.thy ===== *)
theory Uart
  imports Interrupt
begin

text \<open>
  The interrupt driven serial input of \<^verbatim>\<open>bsp/uart_irq.c\<close>: the handler puts a received byte into the
  ring buffer and releases a semaphore, the shell's \<^verbatim>\<open>rt_hw_console_getchar\<close> takes the
  semaphore and then a byte.

  What makes this correct is that the semaphore counts the bytes of the buffer: \<open>uart_inv p m\<close>
  says that the value of the semaphore and the \<open>p\<close> readers that were handed a token but did not
  run yet make up the number of bytes.
\<close>

section \<open>The routines\<close>

text \<open>The semaphore of the driver and the waiting time without limit.\<close>

definition g_uart_rx_sem :: nat where "g_uart_rx_sem = 1"

definition RT_WAITING_FOREVER :: u32 where "RT_WAITING_FOREVER = - 1"

definition uart_isr :: "trap_in \<Rightarrow> machine \<Rightarrow> machine option" where
  "uart_isr i m =
     (if uart_lsr i AND 0x01 = 0 then Some m
      else do {
        let m = m\<lparr>g_uart_rx := rb_put (uart_rbr i) (g_uart_rx m)\<rparr>;
        (e, k) \<leftarrow> rt_sem_release g_uart_rx_sem (krn m);
        Some (m\<lparr>krn := k\<rparr>)
      })"

definition uart_irq_init :: "machine \<Rightarrow> machine option" where
  "uart_irq_init m = do {
     let m = m\<lparr>g_uart_rx := rb_clear (g_uart_rx m)\<rparr>;
     (e, k) \<leftarrow> rt_sem_init g_uart_rx_sem ''urx'' 0 RT_IPC_FLAG_FIFO (krn m);
     let m = m\<lparr>krn := k\<rparr>;
     let (old, m) = rt_hw_interrupt_install 10 (Some UartIsr) 0 m;
     let m = rt_hw_interrupt_umask 10 m;
     Some (m\<lparr>uart_ier := 0x01\<rparr>)
   }"

text \<open>The rest of \<^verbatim>\<open>rt_hw_console_getchar\<close> after the semaphore, whose result is not looked at.\<close>

definition take_byte :: "(rt_err_t call \<times> kernel) \<Rightarrow> machine \<Rightarrow> u8 call \<times> machine" where
  "take_byte r m =
     (case r of
        (Return e, k) \<Rightarrow> (let (c, rx) = rb_get (g_uart_rx m) in (Return c, m\<lparr>krn := k, g_uart_rx := rx\<rparr>))
      | (Blocked, k) \<Rightarrow> (Blocked, m\<lparr>krn := k\<rparr>))"

definition rt_hw_console_getchar :: "machine \<Rightarrow> (u8 call \<times> machine) option" where
  "rt_hw_console_getchar m = do {
     r \<leftarrow> rt_sem_take g_uart_rx_sem RT_WAITING_FOREVER (krn m);
     Some (take_byte r m)
   }"

definition rt_hw_console_getchar_wake :: "tid \<Rightarrow> machine \<Rightarrow> (u8 call \<times> machine) option" where
  "rt_hw_console_getchar_wake t m = do {
     r \<leftarrow> rt_sem_take_wake t (krn m);
     Some (take_byte r m)
   }"

text \<open>The handlers by name; \<open>other\<close> stands for those of other drivers.\<close>

definition run_isr :: "(nat \<Rightarrow> int \<Rightarrow> nat \<Rightarrow> machine \<Rightarrow> machine option) \<Rightarrow> trap_in \<Rightarrow> isr_run" where
  "run_isr other i h vector p m =
     (case h of UartIsr \<Rightarrow> uart_isr i m | OtherIsr n \<Rightarrow> other n vector p m)"

section \<open>Bytes and tokens\<close>

definition uart_inv :: "nat \<Rightarrow> machine \<Rightarrow> bool" where
  "uart_inv p m \<longleftrightarrow> rb_ok (g_uart_rx m) \<and> sem_ok g_uart_rx_sem (krn m) \<and>
     unat (sem_value (sems (krn m) g_uart_rx_sem)) + p = rb_len (g_uart_rx m)"

abbreviation byte_in :: "u8 \<Rightarrow> trap_in \<Rightarrow> bool" where
  "byte_in c i \<equiv> uart_lsr i AND 0x01 \<noteq> 0 \<and> uart_rbr i = c"

abbreviation rx_waiting :: "machine \<Rightarrow> tid list" where
  "rx_waiting m \<equiv> queues (krn m) (Suspend (QSem g_uart_rx_sem))"

text \<open>A byte for which there is room: it is appended, and the token is counted or handed over.\<close>

lemma uart_isr_free:
  assumes "uart_inv p m" "byte_in c i" "0 < rb_room (g_uart_rx m)" "rx_waiting m = []"
  shows "\<exists>m'. uart_isr i m = Some m' \<and> uart_inv p m' \<and>
    m' = m\<lparr>g_uart_rx := rb_put c (g_uart_rx m),
           krn := upd_sem g_uart_rx_sem (\<lambda>r. r\<lparr>sem_value := sem_value r + 1\<rparr>) (krn m)\<rparr>"
proof -
  let ?v = "sem_value (sems (krn m) g_uart_rx_sem)"
  have rb: "rb_ok (g_uart_rx m)" and ok: "sem_ok g_uart_rx_sem (krn m)"
    and v: "unat ?v + p = rb_len (g_uart_rx m)" using assms(1) by (simp_all add: uart_inv_def)
  have "unat ?v < 64" using v rb_len_less [of "g_uart_rx m"] by linarith
  then have "unat (?v + 1) = unat ?v + 1" by (simp add: unat_word_ariths)
  moreover have "is_sem g_uart_rx_sem (krn m)" using ok by (simp add: sem_ok_def)
  ultimately show ?thesis
    using assms(2,4) rb ok v rb_put_room(2,3) [OF rb assms(3)] sem_release_free [of g_uart_rx_sem "krn m"]
    by (simp add: uart_isr_def uart_inv_def sem_ok_def is_sem_def rt_object_get_type_def)
qed

lemma uart_isr_waiter:
  assumes "uart_inv p m" "byte_in c i" "0 < rb_room (g_uart_rx m)" "rx_waiting m = t # ts"
    and "core_inv (krn m)" "current_thread (krn m) \<noteq> None"
  shows "\<exists>k. uart_isr i m = Some (m\<lparr>g_uart_rx := rb_put c (g_uart_rx m), krn := k\<rparr>) \<and>
    uart_inv (Suc p) (m\<lparr>g_uart_rx := rb_put c (g_uart_rx m), krn := k\<rparr>) \<and> core_inv k \<and>
    rt_sem_release g_uart_rx_sem (krn m) = Some (RT_EOK, k) \<and>
    queues k (Suspend (QSem g_uart_rx_sem)) = ts \<and> thread_stat k t = RT_THREAD_READY \<and>
    th_error (threads k t) = th_error (threads (krn m) t) \<and>
    (\<forall>u. u \<noteq> t \<longrightarrow> threads k u = threads (krn m) u) \<and> (lock_nest (krn m) = 0 \<longrightarrow> runs_highest k)"
proof -
  have rb: "rb_ok (g_uart_rx m)" and ok: "sem_ok g_uart_rx_sem (krn m)"
    and v: "unat (sem_value (sems (krn m) g_uart_rx_sem)) + p = rb_len (g_uart_rx m)"
    using assms(1) by (simp_all add: uart_inv_def)
  have n: "is_sem g_uart_rx_sem (krn m)" using ok by (simp add: sem_ok_def)
  obtain k1 k where k: "rt_sem_release g_uart_rx_sem (krn m) = Some (RT_EOK, k)" "resumed t (krn m) k1"
      "sched_frame k1 k" "core_inv k" "queues k (Suspend (QSem g_uart_rx_sem)) = ts" "sems k = sems (krn m)"
      "lock_nest (krn m) = 0 \<longrightarrow> runs_highest k"
    using sem_release_waiter [OF assms(5) n assms(4,6)] by blast
  have z: "sem_value (sems (krn m) g_uart_rx_sem) = 0" using ok assms(4) by (auto simp: sem_ok_def word_gt_0)
  have "objs k (OSem g_uart_rx_sem) = objs (krn m) (OSem g_uart_rx_sem)"
    using sched_frame_sel(5) [OF k(3)] kframe_sel(18) [OF resumedD(1) [OF k(2)], of "OSem g_uart_rx_sem"] by simp
  then have "sem_ok g_uart_rx_sem k"
    using ok z k(6) by (simp add: sem_ok_def is_sem_def rt_object_get_type_def)
  moreover note d = resumedD [OF k(2)] and th = sched_frame_sel(4) [OF k(3)]
  ultimately show ?thesis
    using k rb v assms(2) rb_put_room(2,3) [OF rb assms(3)]
    by (intro exI [of _ k]) (simp add: uart_isr_def uart_inv_def th)
qed

text \<open>Reading: a byte is there, or the reader queues up, or it was woken.\<close>

lemma getchar_token:
  assumes "is_sem g_uart_rx_sem (krn m)" "0 < sem_value (sems (krn m) g_uart_rx_sem)"
  shows "rt_hw_console_getchar m = Some (Return (fst (rb_get (g_uart_rx m))),
      m\<lparr>g_uart_rx := snd (rb_get (g_uart_rx m)),
        krn := upd_sem g_uart_rx_sem (\<lambda>r. r\<lparr>sem_value := sem_value r - 1\<rparr>) (krn m)\<rparr>)"
  using assms by (simp add: rt_hw_console_getchar_def rt_sem_take_def take_byte_def split: prod.split)

lemma getchar_wake_byte:
  assumes "uart_inv (Suc p) m" "th_error (threads (krn m) t) = RT_EOK"
  shows "\<exists>m'. rt_hw_console_getchar_wake t m = Some (Return (fst (rb_get (g_uart_rx m))), m') \<and> uart_inv p m' \<and>
    rb_contents (g_uart_rx m) = fst (rb_get (g_uart_rx m)) # rb_contents (g_uart_rx m') \<and>
    m' = m\<lparr>g_uart_rx := snd (rb_get (g_uart_rx m))\<rparr>"
proof -
  have rb: "rb_ok (g_uart_rx m)"
    and v: "unat (sem_value (sems (krn m) g_uart_rx_sem)) + Suc p = rb_len (g_uart_rx m)"
    using assms(1) by (simp_all add: uart_inv_def)
  have "0 < rb_len (g_uart_rx m)" using v by linarith
  then have ne: "rb_contents (g_uart_rx m) \<noteq> []" by (metis length_greater_0_conv rb_contents_length)
  have "rt_hw_console_getchar_wake t m = Some (Return (fst (rb_get (g_uart_rx m))),
      m\<lparr>g_uart_rx := snd (rb_get (g_uart_rx m))\<rparr>)"
    using assms(2)
    by (simp add: rt_hw_console_getchar_wake_def rt_sem_take_wake_def take_byte_def split: prod.split)
  then show ?thesis using rb_get_some [OF rb ne] v assms(1) by (simp add: uart_inv_def)
qed

lemma getchar_blocks:
  assumes inv: "core_inv (krn m)" and u: "uart_inv 0 m" and e: "rb_contents (g_uart_rx m) = []"
    and cur: "current_thread (krn m) = Some t" "thread_stat (krn m) t = RT_THREAD_READY"
    and ctx: "lock_nest (krn m) = 0" "irq_nest (krn m) = 0"
    and other: "u \<noteq> t" "thread_stat (krn m) u = RT_THREAD_READY"
  shows "\<exists>k. rt_hw_console_getchar m = Some (Blocked, m\<lparr>krn := k\<rparr>) \<and> core_inv k \<and> runs_highest k \<and>
    uart_inv 0 (m\<lparr>krn := k\<rparr>) \<and> t \<in> set (rx_waiting (m\<lparr>krn := k\<rparr>)) \<and>
    thread_stat k t = RT_THREAD_SUSPEND \<and> th_error (threads k t) = RT_EOK"
proof -
  have ok: "sem_ok g_uart_rx_sem (krn m)" using u by (simp add: uart_inv_def)
  have "rb_len (g_uart_rx m) = 0" using e by (metis length_0_conv rb_contents_length)
  then have v: "sem_value (sems (krn m) g_uart_rx_sem) = 0" using u by (simp add: uart_inv_def unat_eq_0)
  have time: "RT_WAITING_FOREVER \<noteq> 0" "sint RT_WAITING_FOREVER \<noteq> 0x7fffffff"
    by (simp_all add: RT_WAITING_FOREVER_def)
  from sem_take_blocks [OF inv ok v cur ctx other time]
  obtain k where k: "rt_sem_take g_uart_rx_sem RT_WAITING_FOREVER (krn m) = Some (Blocked, k)" "core_inv k"
      "sem_ok g_uart_rx_sem k" "runs_highest k"
      "sem_abs g_uart_rx_sem k = (0, ipc_insert (oflag (objs (krn m) (OSem g_uart_rx_sem)))
         (\<lambda>u. current_priority (threads (krn m) u)) t (snd (sem_abs g_uart_rx_sem (krn m))))"
      "thread_stat k t = RT_THREAD_SUSPEND" "th_error (threads k t) = RT_EOK"
    by blast
  have f: "oflag (objs (krn m) (OSem g_uart_rx_sem)) = RT_IPC_FLAG_FIFO \<or>
      oflag (objs (krn m) (OSem g_uart_rx_sem)) = RT_IPC_FLAG_PRIO" using ok by (simp add: sem_ok_def)
  have "sem_value (sems k g_uart_rx_sem) = 0" "t \<in> set (queues k (Suspend (QSem g_uart_rx_sem)))"
    using k(5) ipc_insert_set(1) [OF f] by (simp_all add: sem_abs_def unat_eq_0)
  then show ?thesis
    using k u v by (intro exI [of _ k]) (simp add: rt_hw_console_getchar_def take_byte_def uart_inv_def)
qed

section \<open>Many bytes\<close>

fun isr_bytes :: "trap_in list \<Rightarrow> machine \<Rightarrow> machine option" where
  "isr_bytes [] m = Some m"
| "isr_bytes (i # is) m = uart_isr i m \<bind> isr_bytes is"

fun getchars :: "nat \<Rightarrow> machine \<Rightarrow> (u8 list \<times> machine) option" where
  "getchars 0 m = Some ([], m)"
| "getchars (Suc n) m = do {
     (r, m) \<leftarrow> rt_hw_console_getchar m;
     (case r of
        Return c \<Rightarrow> map_option (\<lambda>(cs, m). (c # cs, m)) (getchars n m)
      | Blocked \<Rightarrow> None)
   }"

lemma isr_bytes_spec:
  assumes "uart_inv p m" "list_all2 byte_in cs is" "length cs \<le> rb_room (g_uart_rx m)" "rx_waiting m = []"
  shows "\<exists>m'. isr_bytes is m = Some m' \<and> uart_inv p m' \<and> g_uart_rx m' = fold rb_put cs (g_uart_rx m)"
  using assms
proof (induction cs arbitrary: m "is")
  case (Cons c cs)
  then obtain i "is'" where i: "is = i # is'" "byte_in c i" "list_all2 byte_in cs is'"
    by (auto simp: list_all2_Cons1)
  have room: "0 < rb_room (g_uart_rx m)" using Cons.prems(3) by simp
  obtain m1 where m1: "uart_isr i m = Some m1" "uart_inv p m1"
      "m1 = m\<lparr>g_uart_rx := rb_put c (g_uart_rx m),
             krn := upd_sem g_uart_rx_sem (\<lambda>r. r\<lparr>sem_value := sem_value r + 1\<rparr>) (krn m)\<rparr>"
    using uart_isr_free [OF Cons.prems(1) i(2) room Cons.prems(4)] by blast
  have "rb_ok (g_uart_rx m)" using Cons.prems(1) by (simp add: uart_inv_def)
  then have "Suc (rb_room (g_uart_rx m1)) = rb_room (g_uart_rx m)"
    using rb.put_room [of "g_uart_rx m" c] room by (simp add: m1(3))
  then show ?case
    using Cons.IH [OF m1(2) i(3)] Cons.prems(3,4) m1(1) by (simp add: i(1) m1(3))
qed simp

lemma getchars_drain:
  assumes "is_sem g_uart_rx_sem (krn m)" "n \<le> unat (sem_value (sems (krn m) g_uart_rx_sem))"
  shows "\<exists>m'. getchars n m = Some (fst (drain rb_get n (g_uart_rx m)), m') \<and>
    g_uart_rx m' = snd (drain rb_get n (g_uart_rx m)) \<and>
    unat (sem_value (sems (krn m') g_uart_rx_sem)) = unat (sem_value (sems (krn m) g_uart_rx_sem)) - n \<and>
    (\<forall>x. objs (krn m') x = objs (krn m) x) \<and> queues (krn m') = queues (krn m)"
  using assms
proof (induction n arbitrary: m)
  case (Suc n)
  let ?k = "upd_sem g_uart_rx_sem (\<lambda>r. r\<lparr>sem_value := sem_value r - 1\<rparr>) (krn m)"
  let ?m = "m\<lparr>g_uart_rx := snd (rb_get (g_uart_rx m)), krn := ?k\<rparr>"
  have v: "0 < sem_value (sems (krn m) g_uart_rx_sem)" using Suc.prems(2) by (simp add: word_less_nat_alt)
  obtain j where j: "unat (sem_value (sems (krn m) g_uart_rx_sem)) = Suc j"
    using Suc.prems(2) by (cases "unat (sem_value (sems (krn m) g_uart_rx_sem))") auto
  have 1: "is_sem g_uart_rx_sem (krn ?m)"
    using Suc.prems(1) by (simp add: is_sem_def rt_object_get_type_def)
  have 2: "n \<le> unat (sem_value (sems (krn ?m) g_uart_rx_sem))" using Suc.prems(2) j by (simp add: unat_pred [OF j])
  from Suc.IH [OF 1 2] getchar_token [OF Suc.prems(1) v] show ?case
    by (auto simp: case_prod_beta Let_def j unat_pred [OF j])
qed simp

text \<open>With a full buffer the byte is dropped but the token is not; the reader that uses this token
  later reads from an empty buffer, which then looks full for ever.\<close>

lemma uart_isr_full:
  assumes "uart_inv 0 m" "byte_in c i" "rb_room (g_uart_rx m) = 0" "rx_waiting m = []"
  shows "\<exists>m'. uart_isr i m = Some m' \<and> g_uart_rx m' = g_uart_rx m \<and> is_sem g_uart_rx_sem (krn m') \<and>
    unat (sem_value (sems (krn m') g_uart_rx_sem)) = Suc (rb_len (g_uart_rx m))"
proof -
  let ?v = "sem_value (sems (krn m) g_uart_rx_sem)"
  have rb: "rb_ok (g_uart_rx m)" and ok: "sem_ok g_uart_rx_sem (krn m)" and v: "unat ?v = rb_len (g_uart_rx m)"
    using assms(1) by (simp_all add: uart_inv_def)
  have "unat ?v < 64" using v rb_len_less [of "g_uart_rx m"] by linarith
  then have "unat (?v + 1) = Suc (unat ?v)" by (simp add: unat_word_ariths)
  moreover have "is_sem g_uart_rx_sem (krn m)" using ok by (simp add: sem_ok_def)
  ultimately show ?thesis
    using assms(2,4) v sem_release_free [of g_uart_rx_sem "krn m"] rb_put_full [OF rb assms(3)]
    by (simp add: uart_isr_def is_sem_def rt_object_get_type_def)
qed

lemma uart_overflow:
  assumes "uart_inv 0 m" "byte_in c i" "rb_room (g_uart_rx m) = 0" "rx_waiting m = []"
  shows "\<exists>m1 cs m2. uart_isr i m = Some m1 \<and> getchars 64 m1 = Some (cs, m2) \<and>
    take 63 cs = rb_contents (g_uart_rx m) \<and>
    sem_value (sems (krn m2) g_uart_rx_sem) = 0 \<and> (\<forall>d. rb_put d (g_uart_rx m2) = g_uart_rx m2)"
proof -
  let ?r = "g_uart_rx m"
  have rb: "rb_ok ?r" using assms(1) by (simp add: uart_inv_def)
  have len: "rb_len ?r = 63" using assms(3) rb_len_less [of ?r] by (simp add: rb_room_def UART_RX_BUF_SIZE_def)
  obtain m1 where m1: "uart_isr i m = Some m1" "g_uart_rx m1 = ?r" "is_sem g_uart_rx_sem (krn m1)"
      "unat (sem_value (sems (krn m1) g_uart_rx_sem)) = 64"
    using uart_isr_full [OF assms] len by auto
  obtain m2 where m2: "getchars 64 m1 = Some (fst (drain rb_get 64 ?r), m2)"
      "g_uart_rx m2 = snd (drain rb_get 64 ?r)" "unat (sem_value (sems (krn m2) g_uart_rx_sem)) = 0"
    using getchars_drain [OF m1(3), of 64] m1(2,4) by auto
  obtain q where q: "drain rb_get 63 ?r = (rb_contents ?r, q)" "rb_ok q" "rb_contents q = []"
    using rb.drain_all [OF rb, of "rb_contents ?r" "[]"] len by auto
  have "drain rb_get (63 + 1) ?r = (rb_contents ?r @ [fst (rb_get q)], snd (rb_get q))"
    unfolding drain_add by (simp add: q(1) case_prod_beta)
  then have d: "drain rb_get 64 ?r = (rb_contents ?r @ [fst (rb_get q)], snd (rb_get q))" by simp
  show ?thesis
    using m1(1) m2 rb_get_empty(3) [OF q(2,3)] len by (auto simp: d unat_eq_0)
qed

end
