(* ===== verification/Idle.thy ===== *)
theory Idle
  imports Ipc
begin

text \<open>
  The idle thread, \<^verbatim>\<open>src/idle.c\<close>: it takes the threads that ended off the defunct list, runs
  their cleanup functions and removes them from the object system.  Idle hooks, modules and
  signals are not configured.

  The cleanup functions are code of the application: \<open>cu t s\<close> is the kernel after the function of
  thread \<open>t\<close> has run.  \<open>cleanup_ok\<close> is what the kernel expects of them: they return and leave
  threads, lists, objects and timers alone.
\<close>

section \<open>The routines\<close>

definition has_defunct_thread :: "kernel \<Rightarrow> bool" where
  "has_defunct_thread s \<longleftrightarrow> queues s Defunct \<noteq> []"

text \<open>One round of the loop.  The result says whether the routine returns at once.  The memory of
  control block and stack goes back to the heap, which is no part of the kernel state.\<close>

definition idle_reap ::
  "(tid \<Rightarrow> kernel \<Rightarrow> kernel option) \<Rightarrow> tid \<Rightarrow> kernel \<Rightarrow> (bool \<times> kernel) option" where
  "idle_reap cu t s = do {
     let s = s\<lparr>queues := q_remove t (queues s)\<rparr>;
     let s = rt_enter_critical s;
     s \<leftarrow> (if cleanup (threads s t) then cu t s else Some s);
     (if rt_object_is_systemobject (OThread t) s then do {
        let s = rt_object_detach (OThread t) s;
        s \<leftarrow> rt_exit_critical s;
        Some (True, s)
      }
      else do {
        s \<leftarrow> rt_exit_critical s;
        s \<leftarrow> rt_object_delete (OThread t) s;
        Some (False, s)
      })
   }"

partial_function (option) rt_thread_idle_excute ::
  "(tid \<Rightarrow> kernel \<Rightarrow> kernel option) \<Rightarrow> kernel \<Rightarrow> kernel option" where
  "rt_thread_idle_excute cu s =
     (if has_defunct_thread s then do {
        RT_DEBUG_NOT_IN_INTERRUPT s;
        (ret, s) \<leftarrow> idle_reap cu (hd (queues s Defunct)) s;
        (if ret then Some s else rt_thread_idle_excute cu s)
      }
      else Some s)"

definition idle :: tid where "idle = 0"

definition rt_thread_idle_init :: "kernel \<Rightarrow> kernel option" where
  "rt_thread_idle_init s = do {
     (e, s) \<leftarrow> rt_thread_init idle ''tidle'' (of_nat (RT_THREAD_PRIORITY_MAX - 1)) 32 s;
     (e, s) \<leftarrow> rt_thread_startup idle s;
     Some s
   }"

definition rt_thread_idle_gethandler :: tid where "rt_thread_idle_gethandler = idle"

section \<open>One thread\<close>

definition cleanup_frame :: "kernel \<Rightarrow> kernel \<Rightarrow> bool" where
  "cleanup_frame s s' \<longleftrightarrow> queues s' = queues s \<and> ready_group s' = ready_group s \<and> threads s' = threads s \<and>
     timers s' = timers s \<and> timer_list s' = timer_list s \<and> rt_tick s' = rt_tick s \<and> objs s' = objs s \<and>
     container s' = container s \<and> current_thread s' = current_thread s \<and>
     lock_nest s' = lock_nest s \<and> irq_nest s' = irq_nest s"

definition cleanup_ok :: "(tid \<Rightarrow> kernel \<Rightarrow> kernel option) \<Rightarrow> bool" where
  "cleanup_ok cu \<longleftrightarrow> (\<forall>t s. \<exists>s'. cu t s = Some s' \<and> cleanup_frame s s')"

text \<open>\<open>unburied t s s'\<close>: thread \<open>t\<close> has left the defunct list and the object system.\<close>

definition unburied :: "tid \<Rightarrow> kernel \<Rightarrow> kernel \<Rightarrow> bool" where
  "unburied t s s' \<longleftrightarrow> queues s' = q_remove t (queues s) \<and> ready_group s' = ready_group s \<and>
     threads s' = threads s \<and> timers s' = timers s \<and> timer_list s' = timer_list s \<and> rt_tick s' = rt_tick s \<and>
     objs s' = (objs s)(OThread t := (objs s (OThread t))\<lparr>otype := 0\<rparr>) \<and>
     container s' = q_remove (OThread t) (container s) \<and>
     current_thread s' = current_thread s \<and> lock_nest s' = lock_nest s \<and> irq_nest s' = irq_nest s"

lemma unburiedD:
  assumes "unburied t s s'"
  shows "queues s' = q_remove t (queues s)" "ready_group s' = ready_group s" "threads s' = threads s"
    "timers s' = timers s" "timer_list s' = timer_list s" "rt_tick s' = rt_tick s"
    "objs s' = (objs s)(OThread t := (objs s (OThread t))\<lparr>otype := 0\<rparr>)"
    "container s' = q_remove (OThread t) (container s)"
    "current_thread s' = current_thread s" "lock_nest s' = lock_nest s" "irq_nest s' = irq_nest s"
  using assms by (simp_all add: unburied_def)

lemma unburied_core_inv:
  assumes u: "unburied t s s'" and inv: "core_inv s" and t: "queues s Defunct = t # ts"
  shows "core_inv s'" "queues s' = (queues s)(Defunct := ts)" "thread_stat s t = RT_THREAD_CLOSE"
proof -
  note d = unburiedD [OF u] and sc = core_invD(1) [OF inv]
  show q: "queues s' = (queues s)(Defunct := ts)"
    using aq.unlink_first [OF sched_okD(1) [OF sc] t] d(1) by simp
  show st: "thread_stat s t = RT_THREAD_CLOSE"
    using sched_okD(4) [OF sc, of t] t by (simp add: thread_stat_def)
  have "q_ok (queues s')" using sched_okD(1) [OF sc] by (simp add: d(1) q_ok_remove)
  then have sc': "sched_inv s'"
    using sc t unfolding sched_ok_def by (simp add: q d(2,3))
  have fl: "timer_flag s' = timer_flag s" by (simp add: timer_flag_def d(7) fun_eq_iff)
  have "ThreadTimer t \<notin> set (timer_list s)" using st core_invD(6) [OF inv, of t] by auto
  then show "core_inv s'"
    by (intro close_core_inv [OF inv sc' d(4), where t = t])
      (use st in \<open>auto simp: d(3,5,6,7) fl thread_stat_def\<close>)
qed

lemma unburied_object_inv:
  assumes u: "unburied t s s'" and inv: "object_inv s"
  shows "object_inv s'"
    "rt_object_get_type x s' = (if x = OThread t then 0 else rt_object_get_type x s)"
proof -
  have e: "rt_object_get_type x s' = rt_object_get_type x (rt_object_detach (OThread t) s)"
      "container s' = container (rt_object_detach (OThread t) s)" for x
    by (simp_all add: rt_object_get_type_def unburiedD [OF u])
  show "object_inv s'" using object_detach_inv(1) [OF inv, of "OThread t"] by (simp add: object_inv_def e)
  show "rt_object_get_type x s' = (if x = OThread t then 0 else rt_object_get_type x s)"
    by (simp add: rt_object_get_type_def unburiedD(7) [OF u])
qed

lemma quiet_ready:
  assumes "\<And>p. queues s' (Ready p) = queues s (Ready p)" "ready_group s' = ready_group s"
    "current_thread s' = current_thread s" "lock_nest s' = lock_nest s"
  shows "quiet s' = quiet s"
proof -
  have "highest_ready s' = highest_ready s" unfolding highest_ready_def Let_def assms(1,2) by (rule refl)
  then show ?thesis by (simp add: quiet_def runs_highest_def assms(3,4))
qed

lemma idle_reap_spec:
  assumes inv: "core_inv s" and q: "quiet s" and cu: "cleanup_ok cu" and t: "queues s Defunct = t # ts"
  shows "\<exists>s'. idle_reap cu t s = Some (rt_object_is_systemobject (OThread t) s, s') \<and>
    unburied t s s' \<and> quiet s'"
proof -
  let ?s1 = "s\<lparr>queues := q_remove t (queues s)\<rparr>"
  obtain s2 where s2: "(if cleanup (threads s t) then cu t (rt_enter_critical ?s1)
      else Some (rt_enter_critical ?s1)) = Some s2" and f: "cleanup_frame (rt_enter_critical ?s1) s2"
    using cu by (cases "cleanup (threads s t)") (auto simp: cleanup_ok_def cleanup_frame_def)
  define s5 where "s5 = s2\<lparr>lock_nest := lock_nest s\<rparr>"
  have enter: "rt_enter_critical s5 = s2"
    using f by (simp add: s5_def rt_enter_critical_def cleanup_frame_def)
  have sel: "queues s5 = q_remove t (queues s)" "ready_group s5 = ready_group s" "threads s5 = threads s"
      "timers s5 = timers s" "timer_list s5 = timer_list s" "rt_tick s5 = rt_tick s" "objs s5 = objs s"
      "container s5 = container s" "current_thread s5 = current_thread s" "lock_nest s5 = lock_nest s"
      "irq_nest s5 = irq_nest s"
    using f by (simp_all add: s5_def rt_enter_critical_def cleanup_frame_def)
  have "queues s5 (Ready p) = queues s (Ready p)" for p
    using aq.unlink_first [OF sched_okD(1) [OF core_invD(1) [OF inv]] t] by (simp add: sel(1))
  then have q5: "quiet s5" and qd: "quiet (rt_object_detach (OThread t) s5)"
    using quiet_ready [of s5 s] quiet_ready [of "rt_object_detach (OThread t) s5" s] q sel by simp_all
  have u: "unburied t s (rt_object_detach (OThread t) s5)" by (simp add: unburied_def sel)
  have st: "rt_object_is_systemobject (OThread t) s2 = rt_object_is_systemobject (OThread t) s"
      "otype (objs s5 (OThread t)) AND RT_Object_Class_Static = 0 \<longleftrightarrow> \<not> rt_object_is_systemobject (OThread t) s"
    using f by (simp_all add: rt_object_is_systemobject_def sel(7) cleanup_frame_def rt_enter_critical_def)
  have det: "rt_object_detach (OThread t) s2 = rt_enter_critical (rt_object_detach (OThread t) s5)"
    unfolding enter [symmetric] by (simp add: rt_object_detach_def upd_obj_def object_unlink_def rt_enter_critical_def)
  have "threads (rt_enter_critical ?s1) = threads s" by (simp add: rt_enter_critical_def)
  moreover have "rt_object_delete (OThread t) s5 = Some (rt_object_detach (OThread t) s5)"
    if "\<not> rt_object_is_systemobject (OThread t) s"
    using that st(2) by (simp add: rt_object_delete_def rt_object_detach_def Let_def)
  ultimately have "idle_reap cu t s =
      Some (rt_object_is_systemobject (OThread t) s, rt_object_detach (OThread t) s5)"
    using s2 st(1) critical_section [OF q5] critical_section [OF qd] by (auto simp: idle_reap_def enter det)
  then show ?thesis using u qd by blast
qed

section \<open>The loop\<close>

text \<open>The threads that one call removes: all up to and including the first static one.\<close>

definition idle_batch :: "kernel \<Rightarrow> tid list" where
  "idle_batch s = (let D = queues s Defunct
     in take (Suc (length (takeWhile (\<lambda>t. \<not> rt_object_is_systemobject (OThread t) s) D))) D)"

lemma systemobject_unburied:
  "unburied t s s' \<Longrightarrow> u \<noteq> t \<Longrightarrow>
   rt_object_is_systemobject (OThread u) s' = rt_object_is_systemobject (OThread u) s"
  by (simp add: rt_object_is_systemobject_def unburiedD)

lemma idle_batch_Cons:
  assumes "unburied t s s'" "queues s Defunct = t # ts" "queues s' Defunct = ts" "t \<notin> set ts"
  shows "idle_batch s = (if rt_object_is_systemobject (OThread t) s then [t] else t # idle_batch s')"
proof -
  have "takeWhile (\<lambda>u. \<not> rt_object_is_systemobject (OThread u) s) ts =
      takeWhile (\<lambda>u. \<not> rt_object_is_systemobject (OThread u) s') ts"
  proof (rule takeWhile_cong)
    fix u assume "u \<in> set ts"
    then have "u \<noteq> t" using assms(4) by blast
    then show "(\<not> rt_object_is_systemobject (OThread u) s) = (\<not> rt_object_is_systemobject (OThread u) s')"
      using systemobject_unburied [OF assms(1)] by simp
  qed simp
  then show ?thesis using assms(2,3) by (simp add: idle_batch_def)
qed

lemma idle_excute_spec:
  assumes "core_inv s" "object_inv s" "quiet s" "irq_nest s = 0" "cleanup_ok cu"
  shows "\<exists>s'. rt_thread_idle_excute cu s = Some s' \<and> core_inv s' \<and> object_inv s' \<and> quiet s' \<and>
    queues s' = (queues s)(Defunct := drop (length (idle_batch s)) (queues s Defunct)) \<and>
    threads s' = threads s \<and> current_thread s' = current_thread s \<and>
    (\<forall>x. rt_object_get_type x s' =
       (if x \<in> OThread ` set (idle_batch s) then 0 else rt_object_get_type x s))"
  using assms
proof (induction "queues s Defunct" arbitrary: s)
  case Nil
  have "(queues s)(Defunct := []) = queues s" using Nil(1) by (simp add: fun_eq_iff)
  then show ?case
    using Nil by (subst rt_thread_idle_excute.simps) (simp add: has_defunct_thread_def idle_batch_def)
next
  case (Cons t ts)
  note D = Cons(2) [symmetric]
  obtain s1 where s1: "idle_reap cu t s = Some (rt_object_is_systemobject (OThread t) s, s1)"
      "unburied t s s1" "quiet s1"
    using idle_reap_spec [OF Cons(3,5,7) D] by blast
  note c = unburied_core_inv [OF s1(2) Cons(3) D] and ob = unburied_object_inv [OF s1(2) Cons(4)]
  have nt: "t \<notin> set ts"
    using q_okD(1) [OF sched_okD(1) [OF core_invD(1) [OF Cons(3)]], of Defunct] D by simp
  have D1: "queues s1 Defunct = ts" by (simp add: c(2))
  note b = idle_batch_Cons [OF s1(2) D D1 nt]
  have run: "rt_thread_idle_excute cu s =
      (if rt_object_is_systemobject (OThread t) s then Some s1 else rt_thread_idle_excute cu s1)"
    using Cons(6) s1(1) D
    by (subst rt_thread_idle_excute.simps) (simp add: has_defunct_thread_def debug_defs)
  show ?case
  proof (cases "rt_object_is_systemobject (OThread t) s")
    case True
    then show ?thesis
      using run b c(1,2) ob s1(3) D by (simp add: unburiedD(3,9) [OF s1(2)])
  next
    case False
    have "irq_nest s1 = 0" using Cons(6) by (simp add: unburiedD(11) [OF s1(2)])
    from Cons(1) [OF D1 [symmetric] c(1) ob(1) s1(3) this Cons(7)]
    obtain s' where s': "rt_thread_idle_excute cu s1 = Some s'" "core_inv s'" "object_inv s'" "quiet s'"
        "queues s' = (queues s1)(Defunct := drop (length (idle_batch s1)) (queues s1 Defunct))"
        "threads s' = threads s1" "current_thread s' = current_thread s1"
        "\<forall>x. rt_object_get_type x s' =
           (if x \<in> OThread ` set (idle_batch s1) then 0 else rt_object_get_type x s1)"
      by blast
    have "queues s' = (queues s)(Defunct := drop (length (idle_batch s)) (queues s Defunct))"
      using False by (simp add: s'(5) c(2) b D)
    moreover have "rt_object_get_type x s' =
        (if x \<in> OThread ` set (idle_batch s) then 0 else rt_object_get_type x s)" for x
      using False s'(8) ob(2) by (auto simp: b)
    ultimately show ?thesis
      using False run s'(1-4,6,7) by (simp add: unburiedD(3,9) [OF s1(2)])
  qed
qed

end
