(* ===== verification/Startup.thy ===== *)
theory Startup
  imports Uart Idle Mem_Props
begin

text \<open>
  The start of the system, \<^verbatim>\<open>src/components.c\<close> and \<^verbatim>\<open>bsp/board.c\<close>: the drivers, the heap with
  its semaphore, the timers, the scheduler, the main thread, the idle thread, and the first
  thread.  \<open>boot\<close> shows that the invariants on which all other theories build hold when the
  first thread runs.

  The global interrupt enable bit is not modelled, \<^verbatim>\<open>rt_hw_interrupt_disable\<close> at the start
  leaves no trace; the software timer thread is not configured, and \<^verbatim>\<open>rt_show_version\<close> and the
  other messages only write to the console.
\<close>

section \<open>The routines\<close>

definition heap_sem :: nat where "heap_sem = 0"

text \<open>\<^verbatim>\<open>rt_system_heap_init\<close> with the semaphore of the heap, which is left out of theory \<open>Mem\<close>.\<close>

definition system_heap_init :: "u32 \<Rightarrow> u32 \<Rightarrow> heap \<times> machine \<Rightarrow> (heap \<times> machine) option" where
  "system_heap_init begin_addr end_addr = (\<lambda>(h, m). do {
     RT_DEBUG_NOT_IN_INTERRUPT (krn m);
     let begin_align = RT_ALIGN begin_addr RT_ALIGN_SIZE;
     let end_align = RT_ALIGN_DOWN end_addr RT_ALIGN_SIZE;
     (if 2 * SIZEOF_STRUCT_MEM < end_align \<and> begin_align \<le> end_align - 2 * SIZEOF_STRUCT_MEM then do {
        (e, k) \<leftarrow> rt_sem_init heap_sem ''heap'' 1 RT_IPC_FLAG_FIFO (krn m);
        Some (rt_system_heap_init begin_addr end_addr h, m\<lparr>krn := k\<rparr>)
      }
      else Some (h, m))
   })"

definition rt_hw_board_init :: "trap_in \<Rightarrow> u32 \<Rightarrow> u32 \<Rightarrow> heap \<times> machine \<Rightarrow> (heap \<times> machine) option" where
  "rt_hw_board_init i heap_begin heap_end_addr = (\<lambda>(h, m). do {
     let m = rt_hw_interrupt_init i m;
     (h, m) \<leftarrow> system_heap_init heap_begin heap_end_addr (h, m);
     m \<leftarrow> uart_irq_init m;
     Some (h, m)
   })"

text \<open>\<open>mem\<close> and \<open>stack\<close> are the answers of the allocator for the main thread.\<close>

definition rt_application_init :: "oref option \<Rightarrow> bool \<Rightarrow> kernel \<Rightarrow> kernel option" where
  "rt_application_init mem stack s = do {
     (t, s) \<leftarrow> rt_thread_create mem stack ''main'' 10 20 s;
     tid \<leftarrow> t;
     (e, s) \<leftarrow> rt_thread_startup tid s;
     Some s
   }"

definition rtthread_startup ::
  "trap_in \<Rightarrow> u32 \<Rightarrow> u32 \<Rightarrow> oref option \<Rightarrow> bool \<Rightarrow> heap \<times> machine \<Rightarrow> (heap \<times> machine) option" where
  "rtthread_startup i heap_begin heap_end_addr mem stack hm = do {
     (h, m) \<leftarrow> rt_hw_board_init i heap_begin heap_end_addr hm;
     let k = rt_system_timer_init (krn m);
     let k = rt_system_scheduler_init k;
     k \<leftarrow> rt_application_init mem stack k;
     k \<leftarrow> rt_thread_idle_init k;
     k \<leftarrow> rt_system_scheduler_start k;
     Some (h, m\<lparr>krn := k\<rparr>)
   }"

text \<open>The initialisation functions that the linker collects, by level: \<^verbatim>\<open>rt_components_init\<close> calls
  those of the levels 2 to 6 from the main thread before \<^verbatim>\<open>main()\<close>.\<close>

definition rt_components_board_init :: "(nat \<times> (machine \<Rightarrow> machine option)) list \<Rightarrow> machine \<Rightarrow> machine option" where
  "rt_components_board_init fns m = foldl (\<lambda>r (l, f). r \<bind> f) (Some m) (filter (\<lambda>(l, f). l = 1) fns)"

definition rt_components_init :: "(nat \<times> (machine \<Rightarrow> machine option)) list \<Rightarrow> machine \<Rightarrow> machine option" where
  "rt_components_init fns m = foldl (\<lambda>r (l, f). r \<bind> f) (Some m) (filter (\<lambda>(l, f). 2 \<le> l \<and> l \<le> 6) fns)"

section \<open>The semaphores of the drivers\<close>

definition sem_born :: "nat \<Rightarrow> kernel \<Rightarrow> kernel \<Rightarrow> bool" where
  "sem_born n s s' \<longleftrightarrow> (\<forall>x. x \<noteq> OSem n \<longrightarrow> objs s' x = objs s x) \<and> (\<forall>k. k \<noteq> n \<longrightarrow> sems s' k = sems s k) \<and>
     queues s' = queues s \<and> ready_group s' = ready_group s \<and> threads s' = threads s \<and> timers s' = timers s \<and>
     timer_list s' = timer_list s \<and> rt_tick s' = rt_tick s \<and> current_thread s' = current_thread s \<and>
     lock_nest s' = lock_nest s \<and> irq_nest s' = irq_nest s \<and> switch_flag s' = switch_flag s \<and> cpu s' = cpu s \<and>
     frames s' = frames s"

lemma sem_init_born:
  assumes inv: "core_inv s" and obj: "object_inv s" and q: "quiet s"
    and dead: "rt_object_get_type (OSem n) s = 0" and e: "queues s (Suspend (QSem n)) = []"
    and v: "value < 0x10000" and f: "flag = RT_IPC_FLAG_FIFO \<or> flag = RT_IPC_FLAG_PRIO"
  shows "\<exists>s'. rt_sem_init n name value flag s = Some (RT_EOK, s') \<and> core_inv s' \<and> object_inv s' \<and>
    sem_ok n s' \<and> sem_abs n s' = (unat value, []) \<and> sem_born n s s'"
proof -
  obtain s' where s': "rt_sem_init n name value flag s = Some (RT_EOK, s')" "core_inv s'" "object_inv s'"
      "sem_ok n s'" "sem_abs n s' = (unat value, [])"
    using sem_init_spec [OF assms, of name] by blast
  let ?C = RT_Object_Class_Semaphore
  have cls: "?C \<in> set object_classes" by (simp add: object_classes_def)
  obtain s1 where s1: "rt_object_init (OSem n) ?C name s = Some s1" and
    e1: "s1 = s\<lparr>objs := (objs s)(OSem n := (objs s (OSem n))\<lparr>otype := ?C OR RT_Object_Class_Static,
             oname := take RT_NAME_MAX name\<rparr>), container := q_insert_head ?C (OSem n) (container s)\<rparr>"
    using object_init_spec [OF q obj cls dead, of name] by blast
  have i1: "core_inv s1" unfolding e1 by (rule object_init_core_inv [OF inv]) simp_all
  have q1: "queues s1 (Suspend (QSem n)) = []" using e by (simp add: e1)
  have "s' = upd_obj (OSem n) (\<lambda>r. r\<lparr>oflag := flag\<rparr>) (upd_sem n (\<lambda>r. r\<lparr>sem_value := ucast value\<rparr>) s1)"
    using s'(1) v s1 by (simp add: rt_sem_init_def ipc_object_init_inv [OF i1 q1] Let_def)
  then have "sem_born n s s'" by (simp add: sem_born_def upd_obj_def e1 upd_sem_def)
  with s' show ?thesis by blast
qed

text \<open>What a semaphore is, is not changed by the birth of another object.\<close>

lemma sem_ok_unchanged:
  assumes "objs s' (OSem n) = objs s (OSem n)" "sems s' n = sems s n"
    "queues s' (Suspend (QSem n)) = queues s (Suspend (QSem n))"
  shows "sem_ok n s' = sem_ok n s" "sem_abs n s' = sem_abs n s"
  using assms by (simp_all add: sem_ok_def sem_abs_def is_sem_def rt_object_get_type_def)

lemma zero_core: "core_inv zero_kernel" "object_inv zero_kernel" "quiet zero_kernel" "coherent zero_kernel"
    "rt_object_get_type x zero_kernel = 0" "queues zero_kernel = (\<lambda>_. [])" "thread_stat zero_kernel t = RT_THREAD_INIT"
proof -
  show q: "queues zero_kernel = (\<lambda>_. [])" by (simp add: zero_kernel_def)
  have "\<not> bit (ready_group zero_kernel) p" for p by (simp add: zero_kernel_def)
  then have "sched_inv zero_kernel" by (simp add: sched_ok_def q_ok_def q)
  then show "core_inv zero_kernel"
    by (simp add: core_inv_def)
      (simp add: timer_inv_def wakeups_ok_def alive_ok_def thread_stat_def zero_kernel_def tstat_def stat_defs)
  show "object_inv zero_kernel" "quiet zero_kernel" "coherent zero_kernel" "rt_object_get_type x zero_kernel = 0"
    "thread_stat zero_kernel t = RT_THREAD_INIT"
    by (simp_all add: object_inv_def q_ok_def quiet_def coherent_def rt_object_get_type_def zero_kernel_def
        thread_stat_def tstat_def stat_defs)
qed

section \<open>The board\<close>

text \<open>The kernel after the drivers were set up: two semaphores, nothing else.\<close>

definition drivers_up :: "kernel \<Rightarrow> bool" where
  "drivers_up k \<longleftrightarrow> core_inv k \<and> object_inv k \<and>
     (\<forall>x. x \<noteq> OSem heap_sem \<and> x \<noteq> OSem g_uart_rx_sem \<longrightarrow> objs k x = objs zero_kernel x) \<and>
     queues k = (\<lambda>_. []) \<and> ready_group k = 0 \<and> threads k = threads zero_kernel \<and> timer_list k = [] \<and>
     current_thread k = None \<and> lock_nest k = 0 \<and> irq_nest k = 0 \<and> switch_flag k = 0 \<and> cpu k = None \<and>
     frames k = (\<lambda>_. None) \<and> sem_ok heap_sem k \<and> sem_abs heap_sem k = (1, []) \<and> sem_ok g_uart_rx_sem k \<and> sem_abs g_uart_rx_sem k = (0, [])"

lemma drivers_upD:
  assumes "drivers_up k"
  shows "core_inv k" "object_inv k" "x \<noteq> OSem heap_sem \<Longrightarrow> x \<noteq> OSem g_uart_rx_sem \<Longrightarrow> objs k x = objs zero_kernel x"
    "queues k = (\<lambda>_. [])" "ready_group k = 0" "threads k = threads zero_kernel" "timer_list k = []"
    "current_thread k = None" "lock_nest k = 0" "irq_nest k = 0" "switch_flag k = 0" "cpu k = None"
    "sem_ok heap_sem k" "sem_abs heap_sem k = (1, [])" "sem_ok g_uart_rx_sem k" "sem_abs g_uart_rx_sem k = (0, [])"
    "frames k = (\<lambda>_. None)"
  using assms by (simp_all add: drivers_up_def)

lemma drivers_up_sems: "drivers_up k \<Longrightarrow> sems_ok k"
  unfolding sems_ok_def
proof (intro allI impI)
  fix n assume d: "drivers_up k" and n: "is_sem n k"
  have "OSem n = OSem heap_sem \<or> OSem n = OSem g_uart_rx_sem"
  proof (rule ccontr)
    assume "\<not> ?thesis"
    then have "objs k (OSem n) = objs zero_kernel (OSem n)" using drivers_upD(3) [OF d] by blast
    then show False
      using n zero_core(5) [of "OSem n"] by (simp add: is_sem_def rt_object_get_type_def class_defs)
  qed
  then show "sem_ok n k" using drivers_upD(13,15) [OF d] by auto
qed

lemma zero_sel:
  "ready_group zero_kernel = 0" "timer_list zero_kernel = []" "current_thread zero_kernel = None"
  "lock_nest zero_kernel = 0" "irq_nest zero_kernel = 0" "switch_flag zero_kernel = 0" "cpu zero_kernel = None"
  "frames zero_kernel = (\<lambda>_. None)"
  by (simp_all add: zero_kernel_def)

lemma driver_sems:
  "\<exists>k1 k2. rt_sem_init heap_sem ''heap'' 1 RT_IPC_FLAG_FIFO zero_kernel = Some (RT_EOK, k1) \<and>
     rt_sem_init g_uart_rx_sem ''urx'' 0 RT_IPC_FLAG_FIFO k1 = Some (RT_EOK, k2) \<and> drivers_up k2"
proof -
  obtain k1 where k1: "rt_sem_init heap_sem ''heap'' 1 RT_IPC_FLAG_FIFO zero_kernel = Some (RT_EOK, k1)" "core_inv k1"
      "object_inv k1" "sem_ok heap_sem k1" "sem_abs heap_sem k1 = (unat (1 :: u32), [])"
    and b1: "sem_born heap_sem zero_kernel k1"
    using sem_init_born [OF zero_core(1-3) zero_core(5), of heap_sem 1 RT_IPC_FLAG_FIFO "''heap''"]
    by (auto simp: zero_core(6))
  note e1 = b1 [unfolded sem_born_def]
  have q1: "quiet k1" using e1 by (simp add: quiet_def zero_sel)
  have ne: "g_uart_rx_sem \<noteq> heap_sem" by (simp add: g_uart_rx_sem_def heap_sem_def)
  have d1: "rt_object_get_type (OSem g_uart_rx_sem) k1 = 0"
    using e1 ne zero_core(5) [of "OSem g_uart_rx_sem"] by (simp add: rt_object_get_type_def)
  obtain k2 where k2: "rt_sem_init g_uart_rx_sem ''urx'' 0 RT_IPC_FLAG_FIFO k1 = Some (RT_EOK, k2)" "core_inv k2"
      "object_inv k2" "sem_ok g_uart_rx_sem k2" "sem_abs g_uart_rx_sem k2 = (unat (0 :: u32), [])"
    and b2: "sem_born g_uart_rx_sem k1 k2"
    using sem_init_born [OF k1(2,3) q1 d1, of 0 RT_IPC_FLAG_FIFO "''urx''"] e1 by (auto simp: zero_core(6))
  note e2 = b2 [unfolded sem_born_def]
  have "sem_ok heap_sem k2" "sem_abs heap_sem k2 = (1, [])"
    using sem_ok_unchanged [of k2 heap_sem k1] e2 ne k1(4,5) by auto
  then have "drivers_up k2" using k2(2-5) e1 e2 by (auto simp: drivers_up_def zero_sel zero_core(6))
  with k1(1) k2(1) show ?thesis by blast
qed

lemma interrupt_init_sel:
  "krn (rt_hw_interrupt_init i m) = krn m" "g_uart_rx (rt_hw_interrupt_init i m) = g_uart_rx m"
proof -
  have "krn (fold (\<lambda>k m. plic_set_priority (of_nat k) 0 (plic_irq_disable (of_nat k) m)) ks m) = krn m \<and>
      g_uart_rx (fold (\<lambda>k m. plic_set_priority (of_nat k) 0 (plic_irq_disable (of_nat k) m)) ks m) = g_uart_rx m" for ks m
    by (induction ks arbitrary: m) (simp_all add: plic_set_priority_def plic_irq_disable_def Let_def)
  then show "krn (rt_hw_interrupt_init i m) = krn m" "g_uart_rx (rt_hw_interrupt_init i m) = g_uart_rx m"
    by (simp_all add: rt_hw_interrupt_init_def plic_reset_def plic_set_threshold_def Let_def)
qed

text \<open>The board: the heap is cut out of the memory behind the program, the serial line is empty and
  its interrupt is served.\<close>

lemma board_init_spec:
  assumes z: "krn m = zero_kernel" and rx: "rb_ok (g_uart_rx m)" "rb_len (g_uart_rx m) = 0"
    and valid: "2 * SIZEOF_STRUCT_MEM < RT_ALIGN_DOWN b RT_ALIGN_SIZE"
      "RT_ALIGN a RT_ALIGN_SIZE \<le> RT_ALIGN_DOWN b RT_ALIGN_SIZE - 2 * SIZEOF_STRUCT_MEM"
  shows "\<exists>m'. rt_hw_board_init i a b (h, m) = Some (rt_system_heap_init a b h, m') \<and> drivers_up (krn m') \<and>
    rb_ok (g_uart_rx m') \<and> rb_len (g_uart_rx m') = 0 \<and>
    handler (irq_desc_table m' 10) = Some UartIsr \<and> enabled m' 10 \<and> uart_ier m' = 1"
proof -
  obtain k1 k2 where k: "rt_sem_init heap_sem ''heap'' 1 RT_IPC_FLAG_FIFO zero_kernel = Some (RT_EOK, k1)"
      "rt_sem_init g_uart_rx_sem ''urx'' 0 RT_IPC_FLAG_FIFO k1 = Some (RT_EOK, k2)" "drivers_up k2"
    using driver_sems by blast
  let ?m0 = "rt_hw_interrupt_init i m"
  have k0: "krn ?m0 = zero_kernel" and rx0: "g_uart_rx ?m0 = g_uart_rx m" by (simp_all add: interrupt_init_sel z)
  have 1: "system_heap_init a b (h, ?m0) = Some (rt_system_heap_init a b h, ?m0\<lparr>krn := k1\<rparr>)"
    using valid k(1) by (simp add: system_heap_init_def k0 debug_defs Let_def zero_sel)
  let ?m2 = "?m0\<lparr>g_uart_rx := rb_clear (g_uart_rx ?m0), krn := k2\<rparr>"
  obtain old m3 where m3: "rt_hw_interrupt_install 10 (Some UartIsr) 0 ?m2 = (old, m3)" by fastforce
  note s3 = interrupt_install_handler [OF _ _ m3]
  let ?m4 = "rt_hw_interrupt_umask 10 m3"
  have s4: "krn ?m4 = krn m3" "g_uart_rx ?m4 = g_uart_rx m3" "irq_desc_table ?m4 = irq_desc_table m3"
    by (simp_all add: rt_hw_interrupt_umask_def plic_irq_enable_def plic_set_priority_def Let_def)
  have "uart_irq_init (?m0\<lparr>krn := k1\<rparr>) = Some (?m4\<lparr>uart_ier := 1\<rparr>)"
    using k(2) m3 by (simp add: uart_irq_init_def Let_def)
  with 1 have "rt_hw_board_init i a b (h, m) = Some (rt_system_heap_init a b h, ?m4\<lparr>uart_ier := 1\<rparr>)"
    by (simp add: rt_hw_board_init_def Let_def)
  moreover have "rb_ok (rb_clear r) = rb_ok r" "rb_len (rb_clear r) = rb_len r" for r
    by (simp_all add: rb_clear_def rb_ok_def rb_len_def)
  moreover have "enabled (?m4\<lparr>uart_ier := 1\<rparr>) 10"
    using interrupt_umask_enabled [of 10 m3 10] by (simp add: enabled_def)
  ultimately show ?thesis using k(3) s3 rx by (simp add: s4 rx0)
qed

section \<open>The first threads\<close>

lemma startup_keeps_cpu:
  assumes "rt_thread_startup t s = Some (e, s')"
  shows "keeps_cpu s s'"
proof -
  from assms obtain p n e1 s2 where 2: "rt_thread_resume t (upd_thread t (\<lambda>r. r\<lparr>stat := RT_THREAD_SUSPEND\<rparr>)
        (upd_thread t (\<lambda>r. r\<lparr>number_mask := n\<rparr>) (upd_thread t (\<lambda>r. r\<lparr>current_priority := p\<rparr>) s))) = Some (e1, s2)"
      "s2 = s' \<or> rt_schedule s2 = Some s'"
    by (auto simp: rt_thread_startup_def RT_ASSERT_def Let_def upd_thread_def split: if_splits bind_splits)
  have "keeps_cpu s (upd_thread t (\<lambda>r. r\<lparr>stat := RT_THREAD_SUSPEND\<rparr>)
        (upd_thread t (\<lambda>r. r\<lparr>number_mask := n\<rparr>) (upd_thread t (\<lambda>r. r\<lparr>current_priority := p\<rparr>) s)))"
    by (rule keeps_cpu_same) (simp_all add: upd_thread_def)
  also have "keeps_cpu \<dots> s2" by (rule resume_keeps_cpu [OF 2(1)])
  also have "keeps_cpu s2 s'" using 2(2) schedule_keeps_cpu by auto
  finally show ?thesis .
qed

lemma born_keeps_cpu: "born t s s' \<Longrightarrow> keeps_cpu s s'"
  by (rule keeps_cpu_same) (simp_all add: bornD)

text \<open>A thread that was just born is started before the scheduler runs.\<close>

lemma first_start:
  assumes inv: "core_inv s1" "object_inv s1" "alive s1 t" "thread_stat s1 t = RT_THREAD_INIT"
    and none: "current_thread s1 = None"
  shows "\<exists>s2. rt_thread_startup t s1 = Some (RT_EOK, s2) \<and> core_inv s2 \<and> object_inv s2 \<and> keeps_cpu s1 s2 \<and>
    queues s2 = q_insert_tail (Ready (unat (init_priority (threads s1 t)))) t (queues s1) \<and>
    thread_stat s2 t = RT_THREAD_READY \<and> (\<forall>u. u \<noteq> t \<longrightarrow> threads s2 u = threads s1 u) \<and>
    (\<forall>n. objs s2 (OSem n) = objs s1 (OSem n)) \<and> sems s2 = sems s1 \<and>
    (\<forall>x. rt_object_get_type x s2 = rt_object_get_type x s1) \<and>
    set (timer_list s2) \<subseteq> set (timer_list s1) \<and> current_thread s2 = None \<and> lock_nest s2 = lock_nest s1 \<and>
    frames s2 = frames s1"
proof -
  obtain s1' s2 where s2: "rt_thread_startup t s1 = Some (RT_EOK, s2)" "core_inv s2" "kframe s1 s1'"
      "queues s1' = q_insert_tail (Ready (unat (init_priority (threads s1 t)))) t (queues s1)"
      "thread_stat s2 t = RT_THREAD_READY" "\<forall>u. u \<noteq> t \<longrightarrow> threads s2 u = threads s1 u"
      "timer_list s2 = removeAll (ThreadTimer t) (timer_list s1)" "s2 = s1'"
    using rt_thread_startup_spec [OF inv(1,4,3)] none by blast
  note k = kframe_sel [OF s2(3)]
  have "object_inv s2" using inv(2) by (simp add: object_inv_def s2(8) k)
  then show ?thesis
    using s2 startup_keeps_cpu [OF s2(1)] none by (auto simp: k)
qed

lemma scheduler_up:
  assumes "drivers_up k"
  shows "rt_system_scheduler_init (rt_system_timer_init k) = k\<lparr>cur_priority := 31\<rparr>" "drivers_up (k\<lparr>cur_priority := 31\<rparr>)"
proof -
  note d = drivers_upD [OF assms]
  show "rt_system_scheduler_init (rt_system_timer_init k) = k\<lparr>cur_priority := 31\<rparr>"
  proof (rule kernel.equality)
    show "queues (rt_system_scheduler_init (rt_system_timer_init k)) = queues (k\<lparr>cur_priority := 31\<rparr>)"
      by (simp add: rt_system_scheduler_init_def rt_system_timer_init_def d(4) fun_eq_iff split: qhead.split)
  qed (simp_all add: d rt_system_scheduler_init_def rt_system_timer_init_def RT_THREAD_PRIORITY_MAX_def)
  have "core_inv (k\<lparr>cur_priority := 31\<rparr>)" by (rule core_inv_cong [OF d(1)]) simp_all
  moreover have "sem_ok n (k\<lparr>cur_priority := 31\<rparr>) = sem_ok n k" "sem_abs n (k\<lparr>cur_priority := 31\<rparr>) = sem_abs n k" for n
    by (rule sem_ok_unchanged; simp)+
  moreover have "object_inv (k\<lparr>cur_priority := 31\<rparr>) = object_inv k"
    by (simp add: object_inv_def rt_object_get_type_def)
  ultimately show "drivers_up (k\<lparr>cur_priority := 31\<rparr>)" using assms by (simp add: drivers_up_def)
qed

text \<open>\<open>up t k\<close>: the threads that are ready are \<open>t\<close> and the idle thread, and nobody runs yet.\<close>

definition threads_up :: "tid \<Rightarrow> kernel \<Rightarrow> bool" where
  "threads_up t k \<longleftrightarrow> core_inv k \<and> object_inv k \<and> coherent k \<and>
     queues k = (\<lambda>_. [])(Ready 10 := [t], Ready 31 := [idle]) \<and> timer_list k = [] \<and>
     frames k = (\<lambda>_. None) \<and> sems_ok k \<and>
     current_thread k = None \<and> lock_nest k = 0 \<and> irq_nest k = 0 \<and>
     sem_ok heap_sem k \<and> sem_abs heap_sem k = (1, []) \<and> sem_ok g_uart_rx_sem k \<and> sem_abs g_uart_rx_sem k = (0, [])"

lemma create_main:
  assumes "drivers_up k"
  shows "\<exists>k'. rt_application_init (Some (OThread t)) True k = Some k' \<and> core_inv k' \<and> object_inv k' \<and> keeps_cpu k k' \<and>
    queues k' = (\<lambda>_. [])(Ready 10 := [t]) \<and> (\<forall>u. u \<noteq> t \<longrightarrow> threads k' u = threads k u) \<and>
    (\<forall>n. objs k' (OSem n) = objs k (OSem n)) \<and> sems k' = sems k \<and>
    (\<forall>x. x \<noteq> OThread t \<and> x \<noteq> OTimer (ThreadTimer t) \<longrightarrow> rt_object_get_type x k' = rt_object_get_type x k) \<and>
    timer_list k' = [] \<and> current_thread k' = None \<and> lock_nest k' = 0 \<and> frames k' = frames k"
proof -
  note d = drivers_upD [OF assms]
  have q: "quiet k" by (simp add: quiet_def d)
  have "objs k x = objs zero_kernel x" if "x = OThread t \<or> x = OTimer (ThreadTimer t)" for x
    using that by (auto simp: d(3))
  then have dead: "rt_object_get_type (OThread t) k = 0" "rt_object_get_type (OTimer (ThreadTimer t)) k = 0"
    using zero_core(5) by (simp_all add: rt_object_get_type_def)
  have st: "thread_stat k t = RT_THREAD_INIT" by (simp add: thread_stat_def d(6))
  obtain k1 where k1: "rt_thread_create (Some (OThread t)) True ''main'' 10 20 k = Some (Some t, k1)" "core_inv k1"
      "object_inv k1" "alive k1 t" "thread_stat k1 t = RT_THREAD_INIT" "init_priority (threads k1 t) = 10" "born t k k1"
    using rt_thread_create_spec [OF d(1,2) q d(10) dead disjI1 [OF st], of 10 "''main''" 20]
    by (auto simp: RT_THREAD_PRIORITY_MAX_def)
  note b = bornD [OF k1(7)]
  have "current_thread k1 = None" by (simp add: b d)
  from first_start [OF k1(2-5) this] obtain k2 where
    k2: "rt_thread_startup t k1 = Some (RT_EOK, k2)" "core_inv k2" "object_inv k2" "keeps_cpu k1 k2"
      "queues k2 = q_insert_tail (Ready 10) t (queues k1)" "\<forall>u. u \<noteq> t \<longrightarrow> threads k2 u = threads k1 u"
      "\<forall>n. objs k2 (OSem n) = objs k1 (OSem n)" "sems k2 = sems k1"
      "\<forall>x. rt_object_get_type x k2 = rt_object_get_type x k1"
      "set (timer_list k2) \<subseteq> set (timer_list k1)" "current_thread k2 = None" "lock_nest k2 = lock_nest k1" "frames k2 = frames k1"
    by (auto simp: k1(6))
  have "rt_application_init (Some (OThread t)) True k = Some k2"
    using k1(1) k2(1) by (simp add: rt_application_init_def)
  moreover have "keeps_cpu k k2" by (rule keeps_cpu_trans [OF born_keeps_cpu [OF k1(7)] k2(4)])
  ultimately show ?thesis
    using k2(2,3,5-13) by (auto simp: b d q_insert_tail_def rt_object_get_type_def)
qed

lemma create_idle:
  assumes "core_inv k" "object_inv k" "current_thread k = None" "lock_nest k = 0"
    and "rt_object_get_type (OThread idle) k = 0" "rt_object_get_type (OTimer (ThreadTimer idle)) k = 0"
    and "thread_stat k idle = RT_THREAD_INIT" and "timer_list k = []"
  shows "\<exists>k'. rt_thread_idle_init k = Some k' \<and> core_inv k' \<and> object_inv k' \<and> keeps_cpu k k' \<and>
    queues k' = q_insert_tail (Ready 31) idle (queues k) \<and>
    (\<forall>n. objs k' (OSem n) = objs k (OSem n)) \<and> sems k' = sems k \<and>
    timer_list k' = [] \<and> current_thread k' = None \<and> lock_nest k' = 0 \<and> frames k' = frames k"
proof -
  have q: "quiet k" using assms(3,4) by (simp add: quiet_def)
  obtain k1 where k1: "rt_thread_init idle ''tidle'' 31 32 k = Some (RT_EOK, k1)" "core_inv k1"
      "object_inv k1" "alive k1 idle" "thread_stat k1 idle = RT_THREAD_INIT" "init_priority (threads k1 idle) = 31"
      "born idle k k1"
    using rt_thread_init_spec [OF assms(1,2) q assms(5,6) disjI1 [OF assms(7)], of 31 "''tidle''" 32]
    by (auto simp: RT_THREAD_PRIORITY_MAX_def)
  note b = bornD [OF k1(7)]
  have "current_thread k1 = None" by (simp add: b assms)
  from first_start [OF k1(2-5) this] obtain k2 where
    k2: "rt_thread_startup idle k1 = Some (RT_EOK, k2)" "core_inv k2" "object_inv k2" "keeps_cpu k1 k2"
      "queues k2 = q_insert_tail (Ready 31) idle (queues k1)" "\<forall>n. objs k2 (OSem n) = objs k1 (OSem n)" "sems k2 = sems k1"
      "set (timer_list k2) \<subseteq> set (timer_list k1)" "current_thread k2 = None" "lock_nest k2 = lock_nest k1" "frames k2 = frames k1"
    by (auto simp: k1(6))
  have "rt_thread_idle_init k = Some k2"
    using k1(1) k2(1) by (simp add: rt_thread_idle_init_def RT_THREAD_PRIORITY_MAX_def)
  moreover have "keeps_cpu k k2" by (rule keeps_cpu_trans [OF born_keeps_cpu [OF k1(7)] k2(4)])
  ultimately show ?thesis
    using k2(2,3,5-11) assms(4,8) by (simp add: b)
qed

lemma threads_up:
  assumes "drivers_up k" "t \<noteq> idle"
  shows "\<exists>k1 k2. rt_application_init (Some (OThread t)) True k = Some k1 \<and> rt_thread_idle_init k1 = Some k2 \<and>
    threads_up t k2"
proof -
  note d = drivers_upD [OF assms(1)]
  obtain k1 where k1: "rt_application_init (Some (OThread t)) True k = Some k1" "core_inv k1" "object_inv k1"
      "keeps_cpu k k1" "queues k1 = (\<lambda>_. [])(Ready 10 := [t])" "\<forall>u. u \<noteq> t \<longrightarrow> threads k1 u = threads k u"
      "\<forall>n. objs k1 (OSem n) = objs k (OSem n)" "sems k1 = sems k"
      "\<forall>x. x \<noteq> OThread t \<and> x \<noteq> OTimer (ThreadTimer t) \<longrightarrow> rt_object_get_type x k1 = rt_object_get_type x k"
      "timer_list k1 = []" "current_thread k1 = None" "lock_nest k1 = 0" "frames k1 = frames k"
    using create_main [OF assms(1), of t] by blast
  have "rt_object_get_type x k1 = 0" if "x = OThread idle \<or> x = OTimer (ThreadTimer idle)" for x
    using that k1(9) assms(2) d(3) [of x] zero_core(5) [of x] by (auto simp: rt_object_get_type_def)
  then have dead: "rt_object_get_type (OThread idle) k1 = 0" "rt_object_get_type (OTimer (ThreadTimer idle)) k1 = 0"
    by simp_all
  have "thread_stat k1 idle = RT_THREAD_INIT" using k1(6) assms(2) d(6) by (simp add: thread_stat_def)
  from create_idle [OF k1(2,3,11,12) dead this k1(10)] obtain k2 where
    k2: "rt_thread_idle_init k1 = Some k2" "core_inv k2" "object_inv k2" "keeps_cpu k1 k2"
      "queues k2 = q_insert_tail (Ready 31) idle (queues k1)" "\<forall>n. objs k2 (OSem n) = objs k1 (OSem n)"
      "sems k2 = sems k1" "timer_list k2 = []" "current_thread k2 = None" "lock_nest k2 = 0" "frames k2 = frames k1"
    by blast
  have sem: "sem_ok n k2 = sem_ok n k" "sem_abs n k2 = sem_abs n k" for n
    by (rule sem_ok_unchanged; simp add: k1(5,7,8) k2(5-7) d(4) q_insert_tail_def)+
  have "coherent k" by (simp add: coherent_def d)
  then have "coherent k2" "irq_nest k2 = 0"
    using k1(4) k2(4) d(10) by (simp_all add: keeps_cpu_def)
  moreover have "sems_ok k2"
  proof -
    have "is_sem n k2 = is_sem n k" for n using k1(7) k2(6) by (simp add: is_sem_def rt_object_get_type_def)
    then show ?thesis using drivers_up_sems [OF assms(1)] by (simp add: sems_ok_def sem)
  qed
  ultimately show ?thesis
    using k1(1,13) k2 d(13-17) by (simp add: threads_up_def sem k1(5) q_insert_tail_def)
qed

text \<open>The first thread.\<close>

lemma scheduler_starts:
  assumes "threads_up t k"
  shows "rt_system_scheduler_start k = Some (k\<lparr>current_thread := Some t, cpu := Some t\<rparr>)"
    "runs_highest (k\<lparr>current_thread := Some t, cpu := Some t\<rparr>)"
    "core_inv (k\<lparr>current_thread := Some t, cpu := Some t\<rparr>)"
    "coherent (k\<lparr>current_thread := Some t, cpu := Some t\<rparr>)"
proof -
  have inv: "core_inv k" and q: "queues k = (\<lambda>_. [])(Ready 10 := [t], Ready 31 := [idle])"
    and c: "coherent k" "irq_nest k = 0" using assms by (simp_all add: threads_up_def)
  have h: "highest_ready k = Some (10, t)"
    using highest_ready_iff [OF core_invD(1) [OF inv], of 10 t] by (simp add: q)
  then show "rt_system_scheduler_start k = Some (k\<lparr>current_thread := Some t, cpu := Some t\<rparr>)"
    by (simp add: rt_system_scheduler_start_def)
  have sel: "queues (k\<lparr>current_thread := Some t, cpu := Some t\<rparr>) = queues k"
      "ready_group (k\<lparr>current_thread := Some t, cpu := Some t\<rparr>) = ready_group k"
    by simp_all
  have "highest_ready (k\<lparr>current_thread := Some t, cpu := Some t\<rparr>) = highest_ready k"
    unfolding highest_ready_def sel by (rule refl)
  then show "runs_highest (k\<lparr>current_thread := Some t, cpu := Some t\<rparr>)"
    using h by (simp add: runs_highest_def)
  show "core_inv (k\<lparr>current_thread := Some t, cpu := Some t\<rparr>)" by (rule core_inv_cong [OF inv]) simp_all
  show "coherent (k\<lparr>current_thread := Some t, cpu := Some t\<rparr>)"
    using c by (simp add: coherent_def split: if_splits)
qed

lemma boot_spec:
  assumes z: "krn m = zero_kernel" and rx: "rb_ok (g_uart_rx m)" "rb_len (g_uart_rx m) = 0"
    and valid: "2 * SIZEOF_STRUCT_MEM < RT_ALIGN_DOWN b RT_ALIGN_SIZE"
      "RT_ALIGN a RT_ALIGN_SIZE \<le> RT_ALIGN_DOWN b RT_ALIGN_SIZE - 2 * SIZEOF_STRUCT_MEM"
    and t: "t \<noteq> idle"
  shows "\<exists>m'. rtthread_startup i a b (Some (OThread t)) True (h, m) = Some (rt_system_heap_init a b h, m') \<and>
    core_inv (krn m') \<and> object_inv (krn m') \<and> timers_ahead (krn m') \<and> runs_highest (krn m') \<and> coherent (krn m') \<and>
    current_thread (krn m') = Some t \<and> thread_stat (krn m') idle = RT_THREAD_READY \<and>
    irq_nest (krn m') = 0 \<and> lock_nest (krn m') = 0 \<and>
    timer_list (krn m') = [] \<and> frames (krn m') = (\<lambda>_. None) \<and> (\<forall>q. queues (krn m') (Suspend q) = []) \<and> sems_ok (krn m') \<and>
    sem_ok heap_sem (krn m') \<and> sem_abs heap_sem (krn m') = (1, []) \<and>
    uart_inv 0 m' \<and> rx_waiting m' = [] \<and> handler (irq_desc_table m' 10) = Some UartIsr \<and> enabled m' 10"
proof -
  obtain m1 where m1: "rt_hw_board_init i a b (h, m) = Some (rt_system_heap_init a b h, m1)" "drivers_up (krn m1)"
      "rb_ok (g_uart_rx m1)" "rb_len (g_uart_rx m1) = 0" "handler (irq_desc_table m1 10) = Some UartIsr" "enabled m1 10"
    using board_init_spec [OF z rx valid] by blast
  note s = scheduler_up [OF m1(2)]
  obtain k1 k where k: "rt_application_init (Some (OThread t)) True (krn m1\<lparr>cur_priority := 31\<rparr>) = Some k1"
      "rt_thread_idle_init k1 = Some k" "threads_up t k"
    using threads_up [OF s(2) t] by blast
  note st = scheduler_starts [OF k(3)] and up = k(3) [unfolded threads_up_def]
  let ?k = "k\<lparr>current_thread := Some t, cpu := Some t\<rparr>"
  have "rtthread_startup i a b (Some (OThread t)) True (h, m) = Some (rt_system_heap_init a b h, m1\<lparr>krn := ?k\<rparr>)"
    using m1(1) s(1) k(1,2) st(1) by (simp add: rtthread_startup_def Let_def)
  moreover have "sem_ok n ?k = sem_ok n k" "sem_abs n ?k = sem_abs n k" for n
    by (rule sem_ok_unchanged; simp)+
  moreover have "is_sem n ?k = is_sem n k" for n by (simp add: is_sem_def rt_object_get_type_def)
  moreover have "idle \<in> set (queues k (Ready 31))" using up by simp
  then have "tstat (threads k idle) = RT_THREAD_READY"
    using sched_okD(2) [OF core_invD(1), of k idle 31] up by blast
  then have "thread_stat ?k idle = RT_THREAD_READY" by (simp add: thread_stat_def)
  moreover have "object_inv ?k" using up by (simp add: object_inv_def rt_object_get_type_def)
  moreover have "enabled (m1\<lparr>krn := ?k\<rparr>) 10" using m1(6) by (simp add: enabled_def)
  ultimately show ?thesis
    using st(2-4) up m1(3-5) by (simp add: uart_inv_def sem_abs_def timers_ahead_def sems_ok_def)
qed

end
