(* ===== verification/System.thy ===== *)
theory System
  imports Idle Uart
begin

text \<open>
  The running system as a state machine: the thread on the processor makes calls, blocked calls
  go on when their thread is scheduled again, and interrupts come in between.  A step is one
  routine of the model from its call to its return, or up to the point where it gives up the
  processor, so a run is an arbitrary interleaving of threads and interrupts.

  The calls are those of semaphores, sleeping and yielding; semaphores are also released by
  interrupt handlers, as the serial driver does.  Every step that hands a token over is labelled
  with an event, and the invariants are proved by rule induction over the runs.
\<close>

section \<open>The steps\<close>

text \<open>\<open>Took t m\<close>: a take of semaphore \<open>m\<close> by thread \<open>t\<close> has returned \<open>RT_EOK\<close>.  \<open>Gave w m\<close>: it was
  released, by a thread or by an interrupt handler (\<open>None\<close>).\<close>

datatype event = Took tid nat | Gave "tid option" nat

text \<open>What happens in an interrupt: from the entry of the handler to the exit of the trap.\<close>

definition in_irq :: "(kernel \<Rightarrow> kernel option) \<Rightarrow> kernel \<Rightarrow> kernel option" where
  "in_irq f s = map_option (\<lambda>s. trap_exit (rt_interrupt_leave s)) (f (rt_interrupt_enter s))"

text \<open>A thread that is inside a blocked call has its frame; only that call can go on.  The idle
  thread must not block, and waiting times must be in the range of the timers.\<close>

inductive sys_step :: "kernel \<Rightarrow> event list \<Rightarrow> kernel \<Rightarrow> bool" where
  take: "current_thread s = Some c \<Longrightarrow> frames s c = None \<Longrightarrow> is_sem m s \<Longrightarrow> c \<noteq> idle \<Longrightarrow>
    sint time \<noteq> 0x7fffffff \<Longrightarrow> rt_sem_take m time s = Some (Return r, s') \<Longrightarrow>
    sys_step s (if r = RT_EOK then [Took c m] else []) s'"
| wait: "current_thread s = Some c \<Longrightarrow> frames s c = None \<Longrightarrow> is_sem m s \<Longrightarrow> c \<noteq> idle \<Longrightarrow>
    sint time \<noteq> 0x7fffffff \<Longrightarrow> rt_sem_take m time s = Some (Blocked, s') \<Longrightarrow> sys_step s [] s'"
| wake: "current_thread s = Some c \<Longrightarrow> frames s c = Some (FSemTake m) \<Longrightarrow>
    rt_sem_take_wake c (set_frame c None s) = Some (Return r, s') \<Longrightarrow>
    sys_step s (if r = RT_EOK then [Took c m] else []) s'"
| give: "current_thread s = Some c \<Longrightarrow> frames s c = None \<Longrightarrow> is_sem m s \<Longrightarrow>
    rt_sem_release m s = Some (r, s') \<Longrightarrow> sys_step s [Gave (Some c) m] s'"
| give_irq: "is_sem m s \<Longrightarrow> in_irq (\<lambda>s. map_option snd (rt_sem_release m s)) s = Some s' \<Longrightarrow>
    sys_step s [Gave None m] s'"
| yield: "current_thread s = Some c \<Longrightarrow> frames s c = None \<Longrightarrow>
    rt_thread_yield s = Some (r, s') \<Longrightarrow> sys_step s [] s'"
| sleep: "current_thread s = Some c \<Longrightarrow> frames s c = None \<Longrightarrow> c \<noteq> idle \<Longrightarrow>
    tick < RT_TICK_MAX div 2 \<Longrightarrow> rt_thread_sleep tick s = Some (r, s') \<Longrightarrow> sys_step s [] s'"
| awake: "current_thread s = Some c \<Longrightarrow> frames s c = Some FSleep \<Longrightarrow>
    rt_thread_sleep_wake c (set_frame c None s) = Some (r, s') \<Longrightarrow> sys_step s [] s'"
| tick: "in_irq (rt_tick_increase cb_none) s = Some s' \<Longrightarrow> sys_step s [] s'"

inductive sys_run :: "kernel \<Rightarrow> event list \<Rightarrow> kernel \<Rightarrow> bool" where
  start: "sys_run s [] s"
| more: "sys_run s es s1 \<Longrightarrow> sys_step s1 ev s2 \<Longrightarrow> sys_run s (es @ ev) s2"

section \<open>Who waits, and who has been served\<close>

abbreviation waiting :: "nat \<Rightarrow> kernel \<Rightarrow> tid set" where
  "waiting m s \<equiv> set (queues s (Suspend (QSem m)))"

text \<open>A thread in the queue of a semaphore is inside its take, with no error so far; one that has
  left the queue is ready and will run on.\<close>

definition waits_ok :: "kernel \<Rightarrow> bool" where
  "waits_ok s \<longleftrightarrow>
     (\<forall>t m. t \<in> waiting m s \<longrightarrow> frames s t = Some (FSemTake m) \<and> th_error (threads s t) = RT_EOK) \<and>
     (\<forall>t m. frames s t = Some (FSemTake m) \<and> t \<notin> waiting m s \<longrightarrow> thread_stat s t = RT_THREAD_READY) \<and>
     finite {t. frames s t \<noteq> None}"

text \<open>The threads that have been handed a token and have not run since.\<close>

definition served_by :: "nat \<Rightarrow> kernel \<Rightarrow> tid set" where
  "served_by m s = {t. frames s t = Some (FSemTake m) \<and> t \<notin> waiting m s \<and> th_error (threads s t) = RT_EOK}"

text \<open>The invariant of the running system, and what it adds outside interrupts.\<close>

definition sys_ok :: "kernel \<Rightarrow> bool" where
  "sys_ok s \<longleftrightarrow> core_inv s \<and> timers_ahead s \<and> runs_highest s \<and> lock_nest s = 0 \<and>
     thread_stat s idle = RT_THREAD_READY \<and> (\<forall>m \<in> set (timer_list s). \<exists>t. m = ThreadTimer t) \<and>
     sems_ok s \<and> waits_ok s"

definition sys_inv :: "kernel \<Rightarrow> bool" where
  "sys_inv s \<longleftrightarrow> sys_ok s \<and> coherent s \<and> irq_nest s = 0"

lemma waits_okD:
  assumes "waits_ok s"
  shows "t \<in> waiting m s \<Longrightarrow> frames s t = Some (FSemTake m)"
    "t \<in> waiting m s \<Longrightarrow> th_error (threads s t) = RT_EOK"
    "frames s t = Some (FSemTake m) \<Longrightarrow> t \<notin> waiting m s \<Longrightarrow> thread_stat s t = RT_THREAD_READY"
    "finite {t. frames s t \<noteq> None}"
  using assms unfolding waits_ok_def by blast+

lemma sys_invD:
  assumes "sys_inv s"
  shows "core_inv s" "timers_ahead s" "runs_highest s" "coherent s" "irq_nest s = 0" "lock_nest s = 0"
    "thread_stat s idle = RT_THREAD_READY" "\<forall>m \<in> set (timer_list s). \<exists>t. m = ThreadTimer t"
    "sems_ok s" "waits_ok s" "is_sem m s \<Longrightarrow> sem_ok m s" "sys_ok s"
  using assms by (simp_all add: sys_inv_def sys_ok_def sems_ok_def)

lemma sys_inv_current:
  assumes "sys_inv s"
  shows "\<exists>c. current_thread s = Some c \<and> thread_stat s c = RT_THREAD_READY"
  using runs_highest_cur_ready [OF sys_invD(1,3) [OF assms]] by (simp add: cur_ready_def)

lemma finite_served: "waits_ok s \<Longrightarrow> finite (served_by m s)"
  by (rule finite_subset [OF _ waits_okD(4)]) (auto simp: served_by_def)
section \<open>The tick\<close>

text \<open>\<open>wakes W s s'\<close>: the threads of \<open>W\<close> are woken by their timers, and nothing else happens to
  semaphores, waiting threads and blocked calls.\<close>

definition wakes :: "tid set \<Rightarrow> kernel \<Rightarrow> kernel \<Rightarrow> bool" where
  "wakes W s s' \<longleftrightarrow> sems s' = sems s \<and> frames s' = frames s \<and> lock_nest s' = lock_nest s \<and>
     (\<forall>n. objs s' (OSem n) = objs s (OSem n)) \<and>
     (\<forall>q. queues s' (Suspend q) = filter (\<lambda>t. t \<notin> W) (queues s (Suspend q))) \<and>
     (\<forall>t. th_error (threads s' t) = (if t \<in> W then - RT_ETIMEOUT else th_error (threads s t))) \<and>
     (\<forall>t. thread_stat s' t = (if t \<in> W then RT_THREAD_READY else thread_stat s t)) \<and>
     (\<forall>t \<in> W. thread_stat s t = RT_THREAD_SUSPEND)"

lemma wakesD:
  assumes "wakes W s s'"
  shows "sems s' = sems s" "frames s' = frames s" "lock_nest s' = lock_nest s" "objs s' (OSem n) = objs s (OSem n)"
    "queues s' (Suspend q) = filter (\<lambda>t. t \<notin> W) (queues s (Suspend q))"
    "th_error (threads s' t) = (if t \<in> W then - RT_ETIMEOUT else th_error (threads s t))"
    "thread_stat s' t = (if t \<in> W then RT_THREAD_READY else thread_stat s t)"
    "t \<in> W \<Longrightarrow> thread_stat s t = RT_THREAD_SUSPEND"
  using assms by (simp_all add: wakes_def)

lemma wakes_refl: "wakes {} s s"
  by (simp add: wakes_def)

lemma wakes_trans:
  assumes v: "wakes V s t" and w: "wakes W t u"
  shows "wakes (V \<union> W) s u"
proof -
  note d = wakesD [OF v] wakesD(1-7) [OF w]
  have "thread_stat s x = RT_THREAD_SUSPEND" if "x \<in> V \<union> W" for x
    using that wakesD(8) [OF v, of x] wakesD(8) [OF w, of x] wakesD(7) [OF v, of x] by (auto split: if_splits)
  then show ?thesis using d by (simp add: wakes_def conj_commute)
qed

lemma wakes_same:
  assumes "sems s' = sems s" "frames s' = frames s" "lock_nest s' = lock_nest s"
    "\<And>n. objs s' (OSem n) = objs s (OSem n)" "\<And>q. queues s' (Suspend q) = queues s (Suspend q)"
    "\<And>t. th_error (threads s' t) = th_error (threads s t)" "\<And>t. stat (threads s' t) = stat (threads s t)"
  shows "wakes {} s s'"
  using assms by (simp add: wakes_def thread_stat_def tstat_def)

lemma wakes_schedule: "rt_schedule s = Some s' \<Longrightarrow> wakes {} s s'"
  by (rule wakes_same) (simp_all add: rt_schedule_sel)

lemma wakes_then: "wakes V s t \<Longrightarrow> wakes {} t u \<Longrightarrow> wakes V s u"
  using wakes_trans [of V s t "{}" u] by simp

lemma wakes_first: "wakes {} s t \<Longrightarrow> wakes V t u \<Longrightarrow> wakes V s u"
  using wakes_trans [of "{}" s t V u] by simp

lemma timeout_wakes:
  assumes "rt_thread_timeout t s = Some s'"
  shows "wakes {t} s s'"
proof -
  let ?s = "upd_thread t (\<lambda>r. r\<lparr>th_error := - RT_ETIMEOUT\<rparr>) s"
  let ?s2 = "rt_schedule_insert_thread t (?s\<lparr>queues := q_remove t (queues ?s)\<rparr>)"
  have "filter (\<lambda>u. u \<noteq> t) us = removeAll t us" for us by (simp add: distinct_removeAll_eq_filter)
  moreover have "thread_stat s t = RT_THREAD_SUSPEND"
    using assms by (simp add: rt_thread_timeout_def)
  ultimately have "wakes {t} s ?s2"
    by (simp add: wakes_def insert_thread_sel q_defs thread_stat_def rt_schedule_insert_thread_def Let_def)
  moreover have "rt_schedule ?s2 = Some s'"
    using assms by (simp add: rt_thread_timeout_def RT_ASSERT_def Let_def split: if_splits)
  ultimately show ?thesis using wakes_schedule wakes_then by blast
qed

lemma yield_wakes:
  assumes "core_inv s" "rt_thread_yield s = Some (r, s')"
  shows "wakes {} s s'"
proof -
  note y = rt_thread_yield_inv [OF assms]
  have "frames s' = frames s"
    using assms(2) by (auto simp: rt_thread_yield_def Let_def rt_schedule_sel split: if_splits)
  then show ?thesis using y by (intro wakes_same) simp_all
qed

lemma expire_wakes:
  assumes "timer_expire cb_none m s = Some s'"
  shows "\<exists>W. wakes W s s'"
proof -
  from assms obtain s2 where 2: "run_timeout cb_none m (rt_timer_remove m s) = Some s2"
      "(if timer_flag s2 m AND RT_TIMER_FLAG_PERIODIC \<noteq> 0 \<and> timer_flag s2 m AND RT_TIMER_FLAG_ACTIVATED \<noteq> 0
        then map_option snd (rt_timer_start m (set_timer_flag m (\<lambda>f. f AND NOT RT_TIMER_FLAG_ACTIVATED) s2))
        else Some (set_timer_flag m (\<lambda>f. f AND NOT RT_TIMER_FLAG_ACTIVATED) s2)) = Some s'"
    by (auto simp: timer_expire_def Let_def split: bind_splits if_splits)
  have r: "wakes {} s (rt_timer_remove m s)" by (rule wakes_same) (simp_all add: rt_timer_remove_def)
  have "\<exists>W. wakes W (rt_timer_remove m s) s2"
  proof (cases "timeout_func (timers s m)")
    case (ThreadTimeout t)
    then show ?thesis using 2(1) timeout_wakes by (auto simp: run_timeout_def)
  next
    case (UserTimeout f p)
    then show ?thesis using 2(1) wakes_refl by (auto simp: run_timeout_def cb_none_def)
  qed
  then obtain W where W: "wakes W (rt_timer_remove m s) s2" by blast
  have f: "wakes {} s2 (set_timer_flag m (\<lambda>f. f AND NOT RT_TIMER_FLAG_ACTIVATED) s2)" (is "wakes {} s2 ?s3")
    by (rule wakes_same) (simp_all add: set_timer_flag_def upd_obj_def)
  have "wakes {} ?s3 s'"
  proof (cases "s' = ?s3")
    case True
    then show ?thesis by (simp add: wakes_refl)
  next
    case False
    then obtain e where "rt_timer_start m ?s3 = Some (e, s')" using 2(2) by (auto split: if_splits)
    from rt_timer_start_eq(7) [OF this] show ?thesis
      by (intro wakes_same) (simp_all add: timer_frame_def)
  qed
  then have "wakes W s s'" using wakes_then [OF wakes_then [OF wakes_first [OF r W] f]] by blast
  then show ?thesis by blast
qed

lemma check_loop_wakes:
  assumes "timer_check_loop cb_none now s = Some s'"
  shows "\<exists>W. wakes W s s'"
proof -
  have "cb_none = cb_none \<longrightarrow> (\<exists>W. wakes W s s')"
  proof (rule timer_check_loop.raw_induct [where P = "\<lambda>cb now s s'. cb = cb_none \<longrightarrow> (\<exists>W. wakes W s s')", OF _ assms])
    fix loop cb now s s'
    assume IH: "\<And>cb now s s'. loop cb now s = Some s' \<Longrightarrow> cb = cb_none \<longrightarrow> (\<exists>W. wakes W s s')"
      and r: "(case timer_list s of [] \<Rightarrow> Some s
        | t # ts \<Rightarrow> if now - timeout_tick (timers s t) < RT_TICK_MAX div 2
            then timer_expire cb t s \<bind> (\<lambda>s. loop cb (rt_tick_get s) s) else Some s) = Some s'"
    from r consider "s' = s" | t s2 where "timer_expire cb t s = Some s2" "loop cb (rt_tick_get s2) s2 = Some s'"
      by (auto split: list.splits if_splits bind_splits)
    then show "cb = cb_none \<longrightarrow> (\<exists>W. wakes W s s')"
    proof cases
      case 1
      then show ?thesis using wakes_refl by blast
    next
      case (2 t s2)
      then show ?thesis using expire_wakes [of t s s2] IH [OF 2(2)] wakes_trans by blast
    qed
  qed
  then show ?thesis by blast
qed

lemma tick_wakes:
  assumes inv: "core_inv s" "timers_ahead s" and ti: "rt_tick_increase cb_none s = Some s'"
  shows "\<exists>W. wakes W s s'"
proof -
  let ?s0 = "s\<lparr>rt_tick := rt_tick s + 1\<rparr>"
  from ti obtain t where t: "rt_thread_self ?s0 = Some t" by (auto simp: rt_tick_increase_def Let_def split: bind_splits)
  define s1 where "s1 = upd_thread t (\<lambda>r. r\<lparr>remaining_tick := remaining_tick r - 1\<rparr>) ?s0"
  let ?s2 = "upd_thread t (\<lambda>r. r\<lparr>remaining_tick := th_init_tick r\<rparr>) s1"
  from ti t obtain s3 where 3: "rt_timer_check cb_none s3 = Some s'" "s3 = s1 \<or> (\<exists>e. rt_thread_yield ?s2 = Some (e, s3))"
    unfolding rt_tick_increase_def s1_def Let_def by (auto split: if_splits bind_splits)
  have i1: "core_inv s1" unfolding s1_def
    by (rule upd_thread_cong_inv [OF advance_clock_core_inv [OF inv]]) simp_all
  then have i2: "core_inv ?s2" by (rule upd_thread_cong_inv) simp_all
  have w1: "wakes {} s s1" by (rule wakes_same) (simp_all add: s1_def)
  have w2: "wakes {} s1 ?s2" by (rule wakes_same) simp_all
  have "wakes {} s1 s3"
    using 3(2) wakes_refl wakes_then [OF w2] yield_wakes [OF i2] by blast
  moreover obtain W where "wakes W s3 s'"
    using 3(1) check_loop_wakes unfolding rt_timer_check_def by blast
  ultimately show ?thesis using wakes_first [OF wakes_then [OF w1]] by blast
qed
lemma wakes_waits_ok:
  assumes "wakes W s s'" "waits_ok s"
  shows "waits_ok s'"
  unfolding waits_ok_def
proof (intro conjI allI impI)
  note w = wakesD [OF assms(1)] and o = waits_okD [OF assms(2)]
  show "frames s' t = Some (FSemTake m)" "th_error (threads s' t) = RT_EOK" if "t \<in> waiting m s'" for t m
    using that o(1) [of t m] o(2) [of t m] by (auto simp: w)
  show "thread_stat s' t = RT_THREAD_READY" if "frames s' t = Some (FSemTake m) \<and> t \<notin> waiting m s'" for t m
    using that o(3) [of t m] by (auto simp: w)
  show "finite {t. frames s' t \<noteq> None}" using o(4) by (simp add: w)
qed

lemma wakes_served:
  assumes "wakes W s s'" "waits_ok s"
  shows "served_by m s' = served_by m s"
proof -
  note w = wakesD [OF assms(1)] and o = waits_okD [OF assms(2)]
  have "t \<notin> W" if "frames s t = Some (FSemTake m)" "t \<notin> waiting m s" for t
    using w(8) [of t] o(3) [OF that] by auto
  moreover have "- RT_ETIMEOUT \<noteq> RT_EOK" by (simp add: err_defs)
  ultimately show ?thesis unfolding served_by_def by (auto simp: w)
qed

lemma is_sem_cong: "objs s' (OSem n) = objs s (OSem n) \<Longrightarrow> is_sem n s' = is_sem n s"
  by (simp add: is_sem_def rt_object_get_type_def)

lemma wakes_sems_ok:
  assumes "wakes W s s'" "sems_ok s"
  shows "sems_ok s'"
  using assms(2) wakesD [OF assms(1)] is_sem_cong [of s' _ s]
  by (simp add: sems_ok_def sem_ok_def)

lemma tick_slice_runs_highest:
  assumes inv: "core_inv s" "timers_ahead s" "runs_highest s" "lock_nest s = 0" and ts: "tick_slice s = Some s'"
  shows "runs_highest s'"
proof -
  obtain t us where t: "current_thread s = Some t" "queues s (Ready (unat (current_priority (threads s t)))) = t # us"
    by (rule runs_highestD [OF core_invD(1) [OF inv(1)] inv(3)]) blast
  define s1 where "s1 = upd_thread t slice_thread (s\<lparr>rt_tick := rt_tick s + 1\<rparr>)"
  have i1: "core_inv s1" unfolding s1_def
    by (rule upd_thread_cong_inv [OF advance_clock_core_inv [OF inv(1,2)]]) (simp_all add: slice_thread_def)
  have rh: "runs_highest s1"
    using inv(3) runs_highest_cong [of s1 s] by (simp add: s1_def)
  have "s' = s1 \<or> (\<exists>e. rt_thread_yield s1 = Some (e, s'))"
    using ts t(1)
    by (auto simp: tick_slice_def rt_thread_self_def Let_def s1_def slice_thread_def upd_thread_def split: if_splits)
  moreover have "runs_highest s'" if y: "rt_thread_yield s1 = Some (e, s')" for e
  proof -
    have "queues s1 (Ready (unat (current_priority (threads s1 t)))) = t # us" "current_thread s1 = Some t"
        "lock_nest s1 = 0"
      using t inv(4) by (simp_all add: s1_def slice_thread_def)
    from rt_thread_yield_spec [OF i1 rh this(3,2,1)] show ?thesis using y by auto
  qed
  ultimately show ?thesis using rh by blast
qed

lemma tick_runs_highest:
  assumes inv: "core_inv s" "timers_ahead s" "runs_highest s" "lock_nest s = 0"
    and th: "\<forall>m \<in> set (timer_list s). \<exists>t. m = ThreadTimer t" and ti: "rt_tick_increase cb s = Some s'"
  shows "runs_highest s'"
proof -
  obtain t where t: "current_thread s = Some t" using inv(3) by (auto simp: runs_highest_def)
  obtain s1 where s1: "tick_slice s = Some s1" "core_inv s1" "lock_nest s1 = lock_nest s"
      "timer_list s1 = timer_list s" "current_thread s1 \<noteq> None"
    using tick_slice_spec [OF inv(1,2) t] by blast
  have loop: "timer_check_loop cb (rt_tick s1) s1 = Some s'"
    using ti s1(1) by (simp add: rt_tick_increase_split rt_timer_check_def rt_tick_get_def)
  show ?thesis
  proof (cases "\<exists>m \<in> set (timer_list s1). due s1 m")
    case False
    then have "s' = s1" using timer_check_no_due [of s1 cb] core_invD(2) [OF s1(2)] loop by simp
    then show ?thesis using tick_slice_runs_highest [OF inv s1(1)] by simp
  next
    case True
    have "\<forall>m \<in> set (timer_list s1). due s1 m \<longrightarrow> (\<exists>t. m = ThreadTimer t)" using th by (simp add: s1(4))
    then show ?thesis using timer_check_loop_wakes [OF s1(2,5), of cb] s1(3) inv(4) loop True by auto
  qed
qed
section \<open>A thread that moves\<close>

text \<open>The routines that the thread \<open>c\<close> calls change its own place and state only.\<close>

definition moves :: "tid \<Rightarrow> kernel \<Rightarrow> kernel \<Rightarrow> bool" where
  "moves c s s' \<longleftrightarrow> sems s' = sems s \<and> (\<forall>n. objs s' (OSem n) = objs s (OSem n)) \<and>
     (\<forall>t. t \<noteq> c \<longrightarrow> frames s' t = frames s t \<and> th_error (threads s' t) = th_error (threads s t) \<and>
        thread_stat s' t = thread_stat s t) \<and>
     (\<forall>q t. t \<noteq> c \<longrightarrow> t \<in> set (queues s' (Suspend q)) \<longleftrightarrow> t \<in> set (queues s (Suspend q)))"

lemma moves_waits_ok:
  assumes m: "moves c s s'" and ok: "waits_ok s"
    and "\<And>m. c \<in> waiting m s' \<Longrightarrow> frames s' c = Some (FSemTake m) \<and> th_error (threads s' c) = RT_EOK"
    and "\<And>m. frames s' c = Some (FSemTake m) \<Longrightarrow> c \<notin> waiting m s' \<Longrightarrow> thread_stat s' c = RT_THREAD_READY"
  shows "waits_ok s'"
proof -
  have "{t. frames s' t \<noteq> None} \<subseteq> insert c {t. frames s t \<noteq> None}"
    using m by (auto simp: moves_def)
  then have "finite {t. frames s' t \<noteq> None}"
    using waits_okD(4) [OF ok] finite_subset finite_insert by metis
  moreover have "frames s' t = Some (FSemTake n) \<and> th_error (threads s' t) = RT_EOK" if "t \<in> waiting n s'" for t n
    using that assms(3) waits_okD(1,2) [OF ok, of t n] m by (cases "t = c") (auto simp: moves_def)
  moreover have "thread_stat s' t = RT_THREAD_READY" if "frames s' t = Some (FSemTake n)" "t \<notin> waiting n s'" for t n
    using that assms(4) waits_okD(3) [OF ok, of t n] m by (cases "t = c") (auto simp: moves_def)
  ultimately show ?thesis unfolding waits_ok_def by blast
qed

lemma moves_served:
  assumes "moves c s s'"
  shows "served_by m s' - {c} = served_by m s - {c}"
  using assms by (auto simp: moves_def served_by_def)

lemma served_only_in_take: "frames s c \<noteq> Some (FSemTake m) \<Longrightarrow> c \<notin> served_by m s"
  by (simp add: served_by_def)

text \<open>The processor.\<close>

lemma suspend_keeps_cpu:
  assumes "rt_thread_suspend t s = Some (e, s')"
  shows "keeps_cpu s s'"
proof (cases "thread_stat s t = RT_THREAD_READY")
  case True
  let ?s = "rt_schedule_remove_thread t (upd_thread t (with_stat RT_THREAD_SUSPEND) s)"
  have "keeps_cpu s ?s"
    by (rule keeps_cpu_same) (simp_all add: rt_schedule_remove_thread_def cpu_steps)
  moreover obtain e' where "rt_timer_stop (ThreadTimer t) ?s = Some (e', s')"
    using assms True by (auto simp: rt_thread_suspend_def RT_ASSERT_def Let_def split: if_splits bind_splits)
  ultimately show ?thesis using timer_stop_keeps_cpu keeps_cpu_trans by blast
qed (use assms in \<open>auto simp: rt_thread_suspend_def RT_ASSERT_def split: if_splits\<close>)

lemma start_wait_timer_keeps_cpu:
  assumes "start_wait_timer t tick s = Some s'"
  shows "keeps_cpu s s'"
proof -
  obtain e v s1 e' where 1: "rt_timer_control (ThreadTimer t) RT_TIMER_CTRL_SET_TIME tick s = Some (e, v, s1)"
      "rt_timer_start (ThreadTimer t) s1 = Some (e', s')"
    using assms by (auto simp: start_wait_timer_def split: bind_splits)
  have "keeps_cpu s s1"
    using 1(1) by (intro keeps_cpu_same) (auto simp: rt_timer_control_def cpu_steps split: if_splits)
  then show ?thesis using timer_start_keeps_cpu [OF 1(2)] by (rule keeps_cpu_trans)
qed

lemma suspend_with_timer_keeps_cpu:
  assumes "suspend_with_timer t q f time s = Some s'"
  shows "keeps_cpu s s'"
proof -
  obtain e s1 Q where 1: "rt_thread_suspend t s = Some (e, s1)"
      "(if 0 < sint time then start_wait_timer t time (s1\<lparr>queues := Q\<rparr>) else Some (s1\<lparr>queues := Q\<rparr>)) = Some s'"
    using assms by (auto simp: suspend_with_timer_def rt_ipc_list_suspend_def Let_def split: if_splits bind_splits)
  have "keeps_cpu s s1" by (rule suspend_keeps_cpu [OF 1(1)])
  also have "keeps_cpu s1 (s1\<lparr>queues := Q\<rparr>)" by (rule keeps_cpu_same) simp_all
  also have "keeps_cpu \<dots> s'" using 1(2) start_wait_timer_keeps_cpu by (auto split: if_splits)
  finally show ?thesis .
qed

lemma set_frame_keeps_cpu: "keeps_cpu s (set_frame t fr s)"
  by (rule keeps_cpu_same) (simp_all add: set_frame_def)

lemma block_point_keeps_cpu:
  assumes "block_point t fr after s = Some (Blocked, s')" "\<And>s r. after s \<noteq> Some (Blocked, r)"
  shows "keeps_cpu s s'"
proof -
  obtain s1 where 1: "rt_schedule s = Some s1" "s' = set_frame t (Some fr) s1"
    using assms by (auto simp: block_point_def split: if_splits)
  show ?thesis unfolding 1(2)
    by (rule keeps_cpu_trans [OF schedule_keeps_cpu [OF 1(1)] set_frame_keeps_cpu])
qed
text \<open>What a step has to keep once the scheduler, the queues and the processor are in order.\<close>

lemma sys_invI:
  assumes "core_inv s'" "timers_ahead s'" "runs_highest s'" "keeps_cpu s s'" "sys_inv s" "lock_nest s' = 0"
    "thread_stat s' idle = RT_THREAD_READY" "\<forall>m \<in> set (timer_list s'). \<exists>t. m = ThreadTimer t"
    "sems_ok s'" "waits_ok s'"
  shows "sys_inv s'"
  using assms by (simp add: sys_inv_def sys_ok_def keeps_cpu_def)

text \<open>The take that finds no token.\<close>

lemma take_waits:
  assumes inv: "sys_inv s" and cur: "current_thread s = Some c" "c \<noteq> idle"
    and m: "is_sem m s" "sem_value (sems s m) = 0" and time: "time \<noteq> 0" "sint time \<noteq> 0x7fffffff"
  shows "\<exists>s'. rt_sem_take m time s = Some (Blocked, s') \<and> sys_inv s' \<and> moves c s s' \<and>
    frames s' c = Some (FSemTake m) \<and> c \<in> waiting m s'"
proof -
  note i = sys_invD [OF inv]
  let ?f = "oflag (objs s (OSem m))"
  have t: "thread_stat s c = RT_THREAD_READY" using sys_inv_current [OF inv] cur(1) by simp
  have sem: "sem_ok m s" using i(11) m(1) by blast
  define s1 where "s1 = upd_thread c (\<lambda>r. r\<lparr>th_error := RT_EOK\<rparr>) s"
  have i1: "core_inv s1" unfolding s1_def by (rule upd_thread_cong_inv [OF i(1)]) simp_all
  have st1: "thread_stat s1 t = thread_stat s t" for t by (simp add: s1_def thread_stat_def tstat_def)
  have f: "?f = RT_IPC_FLAG_FIFO \<or> ?f = RT_IPC_FLAG_PRIO" using sem by (simp add: sem_ok_def)
  have f1: "?f = oflag (objs s1 (queue_object (QSem m)))" by (simp add: s1_def)
  obtain s2 s' where s2: "suspend_with_timer c (QSem m) ?f time s1 = Some s2"
      and s': "block_point c (FSemTake m) (rt_sem_take_wake c) s2 = Some (Blocked, s')" "core_inv s'"
        "waits c (QSem m) (FSemTake m) s1 s'"
    using wait_spec [OF i1 _ f f1, of c idle time "FSemTake m" "rt_sem_take_wake c"] cur i(6,7) t time(2) st1
    by (auto simp: s1_def)
  have c1: "thread_stat s1 c = RT_THREAD_READY" using t st1 by simp
  have tm: "queued c (QSem m) ?f s1 s2" "if 0 < sint time
     then set (timer_list s2) = insert (ThreadTimer c) (set (timer_list s1)) \<and> timer_key s2 (ThreadTimer c) = sint time
     else timer_list s2 = timer_list s1" "\<forall>m. m \<noteq> ThreadTimer c \<longrightarrow> timer_key s2 m = timer_key s1 m"
    using suspend_with_timer_spec [OF i1 c1 f time(2), of "QSem m"] s2 by auto
  obtain s3 where s3: "rt_schedule s2 = Some s3" "s' = set_frame c (Some (FSemTake m)) s3"
    using s'(1) by (auto simp: block_point_def rt_sem_take_wake_def split: if_splits)
  have sel: "timer_list s' = timer_list s2" "timer_key s' = timer_key s2" "lock_nest s' = lock_nest s2"
    by (simp_all add: s3(2) set_frame_def rt_schedule_sel [OF s3(1)] timer_key_def fun_eq_iff)
  have k1: "timer_list s1 = timer_list s" "timer_key s1 = timer_key s" by (simp_all add: s1_def timer_key_def fun_eq_iff)
  have lock: "lock_nest s' = 0" using i(6) kframe_sel(1) [OF queuedD(1) [OF tm(1)]] by (simp add: sel s1_def)
  have "ThreadTimer c \<notin> set (timer_list s)" using core_invD(6) [OF i(1), of c] t by auto
  then have "\<forall>m \<in> set (timer_list s). timer_key s2 m = timer_key s m" using tm(3) by (metis k1(2))
  then have th: "\<forall>m \<in> set (timer_list s'). \<exists>t. m = ThreadTimer t" "timers_ahead s'"
    using i(2,8) tm(2) by (auto simp: sel k1 timers_ahead_def split: if_splits)
  have take: "rt_sem_take m time s = Some (Blocked, s')"
    using m time(1) cur i(5) s2 s'(1) by (simp add: rt_sem_take_def debug_defs rt_thread_self_def Let_def s1_def)
  have cpu: "keeps_cpu s s'"
  proof -
    have "keeps_cpu s s1" by (rule keeps_cpu_same) (simp_all add: s1_def upd_thread_def)
    also have "keeps_cpu s1 s2" by (rule suspend_with_timer_keeps_cpu [OF s2])
    also have "keeps_cpu s2 s'" by (rule block_point_keeps_cpu [OF s'(1)]) (simp add: rt_sem_take_wake_def)
    finally show ?thesis .
  qed
  note w = waitsD [OF s'(3)]
  have q: "waiting m s' = insert c (waiting m s)"
    unfolding w(4) f1 [symmetric] ipc_insert_set(1) [OF f] by (simp add: s1_def)
  have mv: "moves c s s'"
    unfolding moves_def
  proof (intro conjI allI impI)
    show "sems s' = sems s" using s'(3) by (simp add: waits_def s1_def)
    show "objs s' (OSem n) = objs s (OSem n)" for n using w(7) by (simp add: s1_def)
    fix t assume t: "t \<noteq> c"
    show "frames s' t = frames s t" using w(6) t by (simp add: s1_def)
    show "th_error (threads s' t) = th_error (threads s t)" "thread_stat s' t = thread_stat s t"
      using w(3) t by (simp_all add: s1_def thread_stat_def)
    show "t \<in> set (queues s' (Suspend p)) \<longleftrightarrow> t \<in> set (queues s (Suspend p))" for p
      using q t w(5) [of p] by (cases "p = QSem m") (simp_all add: s1_def)
  qed
  moreover have c: "frames s' c = Some (FSemTake m)" "c \<in> waiting m s'"
    using w(6) q by simp_all
  moreover have "sys_inv s'"
  proof (rule sys_invI [OF s'(2) th(2) w(1) cpu inv lock _ th(1)])
    show "thread_stat s' idle = RT_THREAD_READY" using mv cur(2) i(7) by (simp add: moves_def)
    have o: "objs s' (OSem n) = objs s (OSem n)" for n using mv by (simp add: moves_def)
    have queue: "n \<noteq> m \<Longrightarrow> queues s' (Suspend (QSem n)) = queues s (Suspend (QSem n))" for n
      using w(5) by (simp add: s1_def)
    show "sems_ok s'"
      unfolding sems_ok_def
    proof (intro allI impI)
      fix n assume "is_sem n s'"
      then have n: "sem_ok n s" using i(11) is_sem_cong [OF o] by simp
      have v: "sems s' = sems s" using mv by (simp add: moves_def)
      show "sem_ok n s'"
        using n queue [of n] m(2) by (cases "n = m") (simp_all add: sem_ok_def v o is_sem_cong [OF o])
    qed
    have e: "th_error (threads s' c) = RT_EOK" using w(3) by (simp add: s1_def)
    have u: "n = m" if "c \<in> waiting n s'" for n
      using q_okD(2) [OF sched_okD(1) [OF core_invD(1) [OF s'(2)]] that c(2)] by simp
    show "waits_ok s'"
    proof (rule moves_waits_ok [OF mv i(10)])
      show "frames s' c = Some (FSemTake n) \<and> th_error (threads s' c) = RT_EOK" if "c \<in> waiting n s'" for n
        using u [OF that] c(1) e by simp
      show "thread_stat s' c = RT_THREAD_READY" if "frames s' c = Some (FSemTake n)" "c \<notin> waiting n s'" for n
        using that c by simp
    qed
  qed
  ultimately show ?thesis using take by blast
qed
text \<open>Sleeping.\<close>

lemma sleep_frame:
  assumes inv: "core_inv s" and cur: "current_thread s = Some c" and t: "thread_stat s c = RT_THREAD_READY"
    and tick: "tick < RT_TICK_MAX div 2" and sl: "rt_thread_sleep tick s = Some (Blocked, s')"
  obtains s2 where "kframe s s2" "queues s2 = q_remove c (queues s)" "sched_frame s2 (set_frame c (frames s c) s')"
    "frames s' = (frames s)(c := Some FSleep)" "keeps_cpu s s'"
proof -
  obtain s1 where s1: "rt_thread_suspend c s = Some (RT_EOK, s1)" "suspended c s s1" "core_inv s1"
    using rt_thread_suspend_spec [OF inv t] by blast
  obtain s2 where s2: "start_wait_timer c tick s1 = Some s2" "timer_armed c tick s1 s2"
    using start_wait_timer_spec [OF s1(3) _ tick, of c] suspendedD(6) [OF s1(2), of c] by auto
  have k: "kframe s s2"
    using suspendedD(1) [OF s1(2)] timer_armedD(1) [OF s2(2)] by (rule kframe_trans)
  have bp: "block_point c FSleep (rt_thread_sleep_wake c) s2 = Some (Blocked, s')"
    using sl cur s1(1) s2(1) by (auto simp: rt_thread_sleep_def)
  obtain s3 where s3: "rt_schedule s2 = Some s3" "s' = set_frame c (Some FSleep) s3"
    using bp by (auto simp: block_point_def rt_thread_sleep_wake_def split: if_splits)
  have "frames s3 = frames s" using kframe_sel(11) [OF k] rt_schedule_sel [OF s3(1)] by simp
  then have "set_frame c (frames s c) s' = s3" "frames s' = (frames s)(c := Some FSleep)"
    by (simp_all add: s3(2) set_frame_def flip: fun_upd_def)
  moreover have "keeps_cpu s s'"
    using suspend_keeps_cpu [OF s1(1)] start_wait_timer_keeps_cpu [OF s2(1)]
      block_point_keeps_cpu [OF bp] keeps_cpu_trans by (simp add: rt_thread_sleep_wake_def)
  moreover have "queues s2 = q_remove c (queues s)"
    by (simp add: timer_armedD(2) [OF s2(2)] suspendedD(2) [OF s1(2)])
  ultimately show thesis using that k rt_schedule_frame [OF s3(1)] by simp
qed

lemma sems_ok_cong:
  assumes "sems_ok s" "sems s' = sems s" "\<And>n. objs s' (OSem n) = objs s (OSem n)"
    "\<And>n. queues s (Suspend (QSem n)) = [] \<Longrightarrow> queues s' (Suspend (QSem n)) = []"
  shows "sems_ok s'"
  using assms(1,2,4) is_sem_cong [OF assms(3)] by (simp add: sems_ok_def sem_ok_def assms(3))

lemma sleep_sleeps:
  assumes inv: "sys_inv s" and cur: "current_thread s = Some c" "c \<noteq> idle" and tick: "tick < RT_TICK_MAX div 2"
  shows "\<exists>s'. rt_thread_sleep tick s = Some (Blocked, s') \<and> sys_inv s' \<and> moves c s s' \<and> frames s' c = Some FSleep"
proof -
  note i = sys_invD [OF inv]
  have t: "thread_stat s c = RT_THREAD_READY" using sys_inv_current [OF inv] cur(1) by simp
  obtain s' where s': "rt_thread_sleep tick s = Some (Blocked, s')" "core_inv s'" "runs_highest s'"
    "frames s' c = Some FSleep" "\<forall>h. c \<notin> set (queues s' h)"
    "set (timer_list s') = insert (ThreadTimer c) (set (timer_list s))"
    "timer_key s' (ThreadTimer c) = int (unat tick)"
    "\<forall>m. m \<noteq> ThreadTimer c \<longrightarrow> timer_key s' m = timer_key s m" "lock_nest s' = 0"
    "\<forall>u. u \<noteq> c \<longrightarrow> threads s' u = threads s u"
    using rt_thread_sleep_spec [OF i(1) cur(1) i(6) t tick, of idle] cur(2) i(7) by blast
  obtain s2 where s2: "kframe s s2" "queues s2 = q_remove c (queues s)" "sched_frame s2 (set_frame c (frames s c) s')"
      "frames s' = (frames s)(c := Some FSleep)" "keeps_cpu s s'"
    by (rule sleep_frame [OF i(1) cur(1) t tick s'(1)])
  have sel: "queues s' = q_remove c (queues s)" "sems s' = sems s" "objs s' (OSem n) = objs s (OSem n)" for n
    using sched_frame_sel [OF s2(3)] kframe_sel(6) [OF s2(1)] kframe_sel(18) [OF s2(1), of "OSem n"] s2(2)
    by (simp_all add: set_frame_def)
  have mv: "moves c s s'"
    using s'(10) s2(4) by (simp add: moves_def sel q_remove_def thread_stat_def)
  moreover have "sys_inv s'"
  proof (rule sys_invI [OF s'(2) _ s'(3) s2(5) inv s'(9)])
    show "timers_ahead s'"
      using i(2) s'(6-8) unfolding timers_ahead_def by (metis insert_iff of_nat_0_le_iff)
    show "thread_stat s' idle = RT_THREAD_READY" using mv cur(2) i(7) by (simp add: moves_def)
    show "\<forall>m \<in> set (timer_list s'). \<exists>t. m = ThreadTimer t" using i(8) s'(6) by auto
    show "sems_ok s'" by (rule sems_ok_cong [OF i(9) sel(2,3)]) (simp add: sel(1) q_remove_def)
    show "waits_ok s'" by (rule moves_waits_ok [OF mv i(10)]) (use s'(4,5) in auto)
  qed
  ultimately show ?thesis using s'(1,4) by blast
qed

text \<open>A call that goes on: the frame is gone, and at most the error number is cleared.\<close>

definition goes_on :: "tid \<Rightarrow> kernel \<Rightarrow> kernel \<Rightarrow> bool" where
  "goes_on c s s' \<longleftrightarrow> s' = set_frame c None s \<or>
     s' = upd_thread c (\<lambda>r. r\<lparr>th_error := RT_EOK\<rparr>) (set_frame c None s)"

lemma goes_on_keeps:
  assumes inv: "sys_inv s" and cur: "current_thread s = Some c" and go: "goes_on c s s'"
  shows "sys_inv s'" "moves c s s'" "frames s' c = None"
proof -
  note i = sys_invD [OF inv]
  have t: "thread_stat s c = RT_THREAD_READY" using sys_inv_current [OF inv] cur by simp
  have nq: "c \<notin> set (queues s (Suspend q))" for q
    using t sched_okD(3) [OF core_invD(1) [OF i(1)], of c q] by (auto simp: thread_stat_def)
  have sel: "queues s' = queues s" "sems s' = sems s" "objs s' = objs s" "frames s' = (frames s)(c := None)"
      "timer_list s' = timer_list s" "timer_key s' = timer_key s" "lock_nest s' = lock_nest s"
      "ready_group s' = ready_group s" "current_thread s' = current_thread s" "thread_stat s' u = thread_stat s u"
      "u \<noteq> c \<Longrightarrow> threads s' u = threads s u" for u
    using go by (auto simp: goes_on_def set_frame_def upd_thread_def timer_key_def thread_stat_def tstat_def fun_eq_iff)
  have c: "core_inv s'"
    using go i(1) upd_thread_cong_inv [of "set_frame c None s" "\<lambda>r. r\<lparr>th_error := RT_EOK\<rparr>" c]
    by (auto simp: goes_on_def)
  show mv: "moves c s s'" by (simp add: moves_def sel)
  show "frames s' c = None" by (simp add: sel)
  show "sys_inv s'"
  proof (rule sys_invI [OF c _ _ _ inv])
    show "timers_ahead s'" using i(2) by (simp add: timers_ahead_def sel)
    show "runs_highest s'" using i(3) runs_highest_cong [of s' s] by (simp add: sel)
    show "keeps_cpu s s'" by (rule keeps_cpu_same) (use go in \<open>auto simp: goes_on_def set_frame_def upd_thread_def\<close>)
    show "sems_ok s'" by (rule sems_ok_cong [OF i(9)]) (simp_all add: sel)
    show "waits_ok s'" by (rule moves_waits_ok [OF mv i(10)]) (simp_all add: sel nq)
  qed (use i in \<open>simp_all add: sel\<close>)
qed
section \<open>Releasing\<close>

text \<open>A token goes to the first waiting thread or to the counter.\<close>

definition gives :: "nat \<Rightarrow> kernel \<Rightarrow> kernel \<Rightarrow> bool" where
  "gives m s s' \<longleftrightarrow> (\<forall>n. objs s' (OSem n) = objs s (OSem n)) \<and>
     (\<forall>n. n \<noteq> m \<longrightarrow> served_by n s' = served_by n s) \<and>
     (case queues s (Suspend (QSem m)) of
        [] \<Rightarrow> sems s' = (sems s)(m := (sems s m)\<lparr>sem_value := sem_value (sems s m) + 1\<rparr>) \<and>
              served_by m s' = served_by m s
      | t # ts \<Rightarrow> sems s' = sems s \<and> served_by m s' = insert t (served_by m s) \<and> t \<notin> served_by m s)"

lemma gives_cong:
  assumes "sems t' = sems s'" "\<And>n. served_by n t' = served_by n s'" "\<And>n. served_by n t = served_by n s"
    "sems t = sems s" "queues t = queues s" "objs t = objs s" "objs t' = objs s'"
  shows "gives m t t' = gives m s s'"
  using assms by (simp add: gives_def cong: list.case_cong)

lemma release_counts:
  assumes ok: "sys_ok s" and m: "is_sem m s" and q: "queues s (Suspend (QSem m)) = []"
  shows "sys_ok (upd_sem m (\<lambda>r. r\<lparr>sem_value := sem_value r + 1\<rparr>) s)" (is "sys_ok ?s")
    "gives m s (upd_sem m (\<lambda>r. r\<lparr>sem_value := sem_value r + 1\<rparr>) s)"
proof -
  have "runs_highest ?s = runs_highest s" by (rule runs_highest_cong) simp_all
  moreover have "timer_key ?s = timer_key s" by (simp add: timer_key_def fun_eq_iff)
  moreover have "sems_ok ?s"
    using ok q is_sem_cong [of ?s _ s] by (auto simp: sys_ok_def sems_ok_def sem_ok_def)
  ultimately show "sys_ok ?s"
    using ok by (simp add: sys_ok_def timers_ahead_def thread_stat_def waits_ok_def)
  show "gives m s ?s" by (simp add: gives_def q served_by_def)
qed

lemma resumed_moves:
  assumes "resumed t s s1" "sched_frame s1 s'" and u: "\<And>q. t \<notin> set (queues s' (Suspend q))"
  shows "moves t s s'" "frames s' = frames s" "th_error (threads s' t) = th_error (threads s t)"
    "thread_stat s' t = RT_THREAD_READY"
proof -
  note d = resumedD [OF assms(1)] and g = sched_frame_sel [OF assms(2)] and k = kframe_sel [OF resumedD(1) [OF assms(1)]]
  show "frames s' = frames s" by (simp add: g k)
  show "th_error (threads s' t) = th_error (threads s t)" by (simp add: g d(3))
  show "thread_stat s' t = RT_THREAD_READY" by (simp add: thread_stat_def g d(3))
  have "objs s' (OSem n) = objs s (OSem n)" for n using k(18) [of "OSem n"] by (simp add: g)
  moreover have "v \<in> set (queues s' (Suspend q)) \<longleftrightarrow> v \<in> set (queues s (Suspend q))" if "v \<noteq> t" for v q
    using that by (simp add: g d(2) q_defs)
  ultimately show "moves t s s'"
    by (simp add: moves_def g k(6,11) d(3) thread_stat_def)
qed

lemma release_hands_over:
  assumes ok: "sys_ok s" and m: "is_sem m s" and q: "queues s (Suspend (QSem m)) = t # ts"
  shows "\<exists>s'. rt_sem_release m s = Some (RT_EOK, s') \<and> sys_ok s' \<and> gives m s s'"
proof -
  note o = ok [unfolded sys_ok_def, THEN conjunct1]
  have w: "waits_ok s" and cur: "current_thread s \<noteq> None"
    using ok by (auto simp: sys_ok_def runs_highest_def)
  obtain s1 s' where s': "rt_sem_release m s = Some (RT_EOK, s')" "resumed t s s1" "sched_frame s1 s'"
      "core_inv s'" "queues s' (Suspend (QSem m)) = ts" "sems s' = sems s" "lock_nest s = 0 \<longrightarrow> runs_highest s'"
    using sem_release_waiter [OF o m q cur] by blast
  note d = resumedD [OF s'(2)] and g = sched_frame_sel [OF s'(3)] and k = kframe_sel [OF resumedD(1) [OF s'(2)]]
  have st: "thread_stat s' t = RT_THREAD_READY" by (simp add: thread_stat_def g d(3))
  have nq: "t \<notin> set (queues s' (Suspend p))" for p
    using sched_okD(3) [OF core_invD(1) [OF s'(4)], of t p] st by (auto simp: thread_stat_def)
  note mv = resumed_moves [OF s'(2,3) nq]
  have tm: "t \<in> waiting m s" by (simp add: q)
  have fr: "frames s' t = Some (FSemTake m)" "th_error (threads s' t) = RT_EOK"
    using waits_okD(1,2) [OF w tm] by (simp_all add: mv)
  have served: "served_by n s' = (if n = m then insert t (served_by m s) else served_by n s)" for n
    using moves_served [OF mv(1), of n] fr nq tm waits_okD(1) [OF w tm] by (auto simp: served_by_def split: if_splits)
  have not_served: "t \<notin> served_by m s" using tm by (simp add: served_by_def)
  have "gives m s s'"
    using served s'(6) tm not_served mv(1) by (simp add: gives_def q moves_def)
  moreover have "sys_ok s'"
    unfolding sys_ok_def
  proof (intro conjI)
    have key: "timer_key s' = timer_key s" by (simp add: timer_key_def g k d(4) fun_eq_iff)
    have tl: "timer_list s' = removeAll (ThreadTimer t) (timer_list s)" by (simp add: g d(5))
    show "timers_ahead s'" "\<forall>m \<in> set (timer_list s'). \<exists>t. m = ThreadTimer t"
      using ok by (simp_all add: sys_ok_def timers_ahead_def key tl)
    show "lock_nest s' = 0" "runs_highest s'" using ok s'(7) by (simp_all add: sys_ok_def g k)
    show "thread_stat s' idle = RT_THREAD_READY"
      using ok st mv(1) by (cases "idle = t") (auto simp: sys_ok_def moves_def)
    show "sems_ok s'"
    proof (rule sems_ok_cong [OF _ s'(6)])
      show "sems_ok s" using ok by (simp add: sys_ok_def)
      show "objs s' (OSem n) = objs s (OSem n)" for n using mv(1) by (simp add: moves_def)
      show "queues s (Suspend (QSem n)) = [] \<Longrightarrow> queues s' (Suspend (QSem n)) = []" for n
        by (simp add: g d(2) q_defs)
    qed
    show "waits_ok s'" by (rule moves_waits_ok [OF mv(1) w]) (simp_all add: nq st)
  qed (rule s'(4))
  ultimately show ?thesis using s'(1) by blast
qed

lemma release_gives:
  assumes "sys_ok s" "is_sem m s"
  shows "\<exists>s'. rt_sem_release m s = Some (RT_EOK, s') \<and> sys_ok s' \<and> gives m s s'"
proof (cases "queues s (Suspend (QSem m))")
  case Nil
  then show ?thesis using release_counts [OF assms Nil] sem_release_free [OF assms(2) Nil] by simp
qed (rule release_hands_over [OF assms])
section \<open>Interrupts\<close>

lemma sys_ok_cong:
  assumes "sys_ok s" "queues s' = queues s" "ready_group s' = ready_group s" "threads s' = threads s"
    "timers s' = timers s" "timer_list s' = timer_list s" "rt_tick s' = rt_tick s" "objs s' = objs s"
    "sems s' = sems s" "frames s' = frames s" "current_thread s' = current_thread s" "lock_nest s' = lock_nest s"
  shows "sys_ok s'" "served_by n s' = served_by n s"
proof -
  have "core_inv s'" using assms(1) by (intro core_inv_cong [OF _ assms(2-8)]) (simp add: sys_ok_def)
  moreover have "runs_highest s' = runs_highest s" by (rule runs_highest_cong) (simp_all add: assms)
  moreover have "timer_key s' = timer_key s" by (simp add: timer_key_def fun_eq_iff assms)
  ultimately show "sys_ok s'"
    using assms by (simp add: sys_ok_def timers_ahead_def thread_stat_def waits_ok_def sems_ok_def sem_ok_def
        is_sem_def rt_object_get_type_def)
  show "served_by n s' = served_by n s" by (simp add: served_by_def assms)
qed

lemma irq_frames [simp]:
  "frames (rt_interrupt_enter s) = frames s" "frames (trap_exit (rt_interrupt_leave s)) = frames s"
  by (simp_all add: rt_interrupt_enter_def rt_interrupt_leave_def trap_exit_def)

lemma enter_ok: "sys_ok s \<Longrightarrow> sys_ok (rt_interrupt_enter s)" "served_by n (rt_interrupt_enter s) = served_by n s"
  by (rule sys_ok_cong(1), assumption, simp_all) (simp add: served_by_def)

lemma exit_ok: "sys_ok s \<Longrightarrow> sys_ok (trap_exit (rt_interrupt_leave s))"
  "served_by n (trap_exit (rt_interrupt_leave s)) = served_by n s"
  by (rule sys_ok_cong(1), assumption, simp_all) (simp add: served_by_def)

text \<open>A handler that keeps the invariant and goes through the scheduler.\<close>

lemma in_irq_keeps:
  assumes inv: "sys_inv s" and f: "f (rt_interrupt_enter s) = Some s1"
    and ok: "sys_ok s1" "keeps_cpu (rt_interrupt_enter s) s1"
  shows "in_irq f s = Some (trap_exit (rt_interrupt_leave s1))" "sys_inv (trap_exit (rt_interrupt_leave s1))"
  using f exit_ok(1) [OF ok(1)] exit_coherent [OF ok(2) sys_invD(4,5) [OF inv]]
  by (simp_all add: in_irq_def sys_inv_def)

lemma tick_ok:
  assumes "sys_ok s"
  shows "\<exists>s' W. rt_tick_increase cb_none s = Some s' \<and> sys_ok s' \<and> wakes W s s'"
proof -
  have i: "core_inv s" "timers_ahead s" "runs_highest s" "lock_nest s = 0" "waits_ok s" "sems_ok s"
      "thread_stat s idle = RT_THREAD_READY" "\<forall>m \<in> set (timer_list s). \<exists>t. m = ThreadTimer t"
    using assms by (simp_all add: sys_ok_def)
  obtain c where c: "current_thread s = Some c" using i(3) by (auto simp: runs_highest_def)
  obtain s' where s': "rt_tick_increase cb_none s = Some s'" "core_inv s'" "timers_ahead s'" "lock_nest s' = 0"
      "timer_list s' = filter (\<lambda>m. 1 < timer_key s m) (timer_list s)"
    using tick_step_thread_timers [OF i(1,2) c i(4,8)] by blast
  obtain W where W: "wakes W s s'" using tick_wakes [OF i(1,2) s'(1)] by blast
  have "sys_ok s'"
    using s'(2-5) i(7,8) wakes_sems_ok [OF W i(6)] wakes_waits_ok [OF W i(5)] wakesD(7) [OF W, of idle]
      tick_runs_highest [OF i(1-4,8) s'(1)]
    by (simp add: sys_ok_def split: if_splits)
  then show ?thesis using s'(1) W by blast
qed

lemma cb_none_keeps_cpu: "cb_keeps_cpu cb_none"
  by (simp add: cb_keeps_cpu_def cb_none_def)

text \<open>Yielding.\<close>

lemma yield_ok:
  assumes inv: "sys_inv s" and y: "rt_thread_yield s = Some (r, s')"
  shows "sys_inv s'" "wakes {} s s'"
proof -
  note i = sys_invD [OF inv]
  obtain c us where c: "current_thread s = Some c" "queues s (Ready (unat (current_priority (threads s c)))) = c # us"
    by (rule runs_highestD [OF core_invD(1) [OF i(1)] i(3)]) blast
  have rh: "runs_highest s'" using rt_thread_yield_spec [OF i(1,3,6) c] y by auto
  note v = rt_thread_yield_inv [OF i(1) y]
  have key: "timer_key s' = timer_key s" by (simp add: timer_key_def v fun_eq_iff)
  show w: "wakes {} s s'" by (rule yield_wakes [OF i(1) y])
  show "sys_inv s'"
    by (rule sys_invI [OF v(1) _ rh yield_keeps_cpu [OF y] inv])
      (use i v wakes_sems_ok [OF w i(9)] wakes_waits_ok [OF w i(10)] wakesD(7) [OF w] in
        \<open>simp_all add: timers_ahead_def key\<close>)
qed
section \<open>The books of the tokens\<close>

fun took :: "nat \<Rightarrow> event list \<Rightarrow> nat" where
  "took m [] = 0"
| "took m (Took t n # es) = (if n = m then 1 else 0) + took m es"
| "took m (Gave w n # es) = took m es"

fun gave :: "nat \<Rightarrow> event list \<Rightarrow> nat" where
  "gave m [] = 0"
| "gave m (Took t n # es) = gave m es"
| "gave m (Gave w n # es) = (if n = m then 1 else 0) + gave m es"

lemma books_append [simp]: "took m (es @ fs) = took m es + took m fs" "gave m (es @ fs) = gave m es + gave m fs"
  by (induction m es rule: took.induct) simp_all

text \<open>The tokens that nobody has taken: those in the counter, and those on their way.\<close>

definition tokens :: "nat \<Rightarrow> kernel \<Rightarrow> nat" where
  "tokens m s = unat (sem_value (sems s m)) + card (served_by m s)"

text \<open>A step keeps the invariant and the books, unless a counter wraps around.\<close>

definition keeps_books :: "event list \<Rightarrow> kernel \<Rightarrow> kernel \<Rightarrow> bool" where
  "keeps_books es s s' \<longleftrightarrow> sys_inv s' \<and> (\<forall>n. is_sem n s' = is_sem n s) \<and>
     (\<forall>n. gave n es = 0 \<or> sem_value (sems s n) \<noteq> 0xFFFF \<longrightarrow> tokens n s' + took n es = tokens n s + gave n es)"

lemma keeps_booksD:
  "keeps_books es s s' \<Longrightarrow> gave n es = 0 \<or> sem_value (sems s n) \<noteq> 0xFFFF \<Longrightarrow>
   tokens n s' + took n es = tokens n s + gave n es"
  unfolding keeps_books_def by blast

lemma keeps_books_quiet:
  assumes "sys_inv s'" "\<And>n. objs s' (OSem n) = objs s (OSem n)" "sems s' = sems s"
    "\<And>n. served_by n s' = served_by n s"
  shows "keeps_books [] s s'"
  using assms is_sem_cong [OF assms(2)] by (simp add: keeps_books_def tokens_def)

lemma moves_books:
  assumes "sys_inv s'" "moves c s s'" "\<And>n. c \<notin> served_by n s" "\<And>n. c \<notin> served_by n s'"
  shows "keeps_books [] s s'"
  by (rule keeps_books_quiet [OF assms(1)])
    (use assms(2-4) moves_served [OF assms(2)] in \<open>auto simp: moves_def\<close>)

lemma wakes_books:
  assumes "sys_inv s'" "wakes W s s'" "waits_ok s"
  shows "keeps_books [] s s'"
  by (rule keeps_books_quiet [OF assms(1)]) (use wakesD [OF assms(2)] wakes_served [OF assms(2,3)] in simp_all)

lemma gives_books:
  assumes inv: "sys_inv s'" and g: "gives m s s'" and w: "waits_ok s"
  shows "keeps_books [Gave x m] s s'"
proof -
  have o: "objs s' (OSem n) = objs s (OSem n)" for n using g by (simp add: gives_def)
  have other: "tokens n s' = tokens n s" if "n \<noteq> m" for n
    using g that by (auto simp: gives_def tokens_def split: list.splits)
  have "tokens m s' = Suc (tokens m s)" if v: "sem_value (sems s m) \<noteq> 0xFFFF"
  proof (cases "queues s (Suspend (QSem m))")
    case Nil
    have "(- 1 :: u16) = 0xFFFF" by code_simp
    with v have "sem_value (sems s m) + 1 \<noteq> 0" by (metis add.commute add_eq_0_iff)
    then have "unat (sem_value (sems s m) + 1) = Suc (unat (sem_value (sems s m)))"
      by (simp add: add.commute unatSuc)
    then show ?thesis using g Nil by (simp add: gives_def tokens_def)
  next
    case (Cons t ts)
    then show ?thesis using g finite_served [OF w, of m] by (simp add: gives_def tokens_def)
  qed
  with other inv show ?thesis using is_sem_cong [OF o] by (auto simp: keeps_books_def)
qed

lemma take_books:
  assumes inv: "sys_inv s" and m: "is_sem m s" "0 < sem_value (sems s m)"
  shows "keeps_books [Took c m] s (upd_sem m (\<lambda>r. r\<lparr>sem_value := sem_value r - 1\<rparr>) s)" (is "keeps_books _ s ?s")
proof -
  note i = sys_invD [OF inv]
  have "queues s (Suspend (QSem m)) = []" using i(11) [OF m(1)] m(2) by (simp add: sem_ok_def)
  then have "sems_ok ?s" using i(9) by (auto simp: sems_ok_def sem_ok_def is_sem_def rt_object_get_type_def)
  moreover have "runs_highest ?s = runs_highest s" by (rule runs_highest_cong) simp_all
  moreover have "timer_key ?s = timer_key s" by (simp add: timer_key_def fun_eq_iff)
  moreover have "keeps_cpu s ?s" by (rule keeps_cpu_same) (simp_all add: upd_sem_def)
  ultimately have "sys_inv ?s"
    using i by (intro sys_invI [OF _ _ _ _ inv]) (simp_all add: timers_ahead_def thread_stat_def waits_ok_def)
  moreover have "unat (sem_value (sems s m) - 1) = unat (sem_value (sems s m)) - 1"
    using m(2) by (metis unat_minus_one word_neq_0_conv)
  moreover have "0 < unat (sem_value (sems s m))"
    using m(2) by (simp add: word_less_nat_alt)
  ultimately show ?thesis
    by (auto simp: keeps_books_def tokens_def served_by_def is_sem_def rt_object_get_type_def)
qed

lemma wake_books:
  assumes inv: "sys_inv s" and cur: "current_thread s = Some c" and f: "frames s c = Some (FSemTake m)"
  shows "keeps_books (if th_error (threads s c) = RT_EOK then [Took c m] else []) s (set_frame c None s)"
    (is "keeps_books ?es s ?s")
proof -
  note i = sys_invD [OF inv]
  have go: "goes_on c s ?s" by (simp add: goes_on_def)
  note k = goes_on_keeps [OF inv cur go]
  have "thread_stat s c = RT_THREAD_READY" using sys_inv_current [OF inv] cur by simp
  then have nq: "c \<notin> waiting m s"
    using sched_okD(3) [OF core_invD(1) [OF i(1)], of c "QSem m"] by (auto simp: thread_stat_def)
  have n: "served_by n ?s = served_by n s - {c}" for n
    using moves_served [OF k(2), of n] k(3) by (auto simp: served_by_def)
  have c: "c \<in> served_by n s \<longleftrightarrow> n = m \<and> th_error (threads s c) = RT_EOK" for n
    using f nq by (auto simp: served_by_def)
  have v: "sems ?s = sems s" by (simp add: set_frame_def)
  have "tokens n ?s + took n ?es = tokens n s" for n
  proof (cases "c \<in> served_by n s")
    case True
    then show ?thesis
      using card.remove [OF finite_served [OF i(10)] True] c [of n] by (simp add: tokens_def n v)
  next
    case False
    then show ?thesis using c [of n] by (auto simp: tokens_def n v)
  qed
  moreover have "gave n ?es = 0" for n by simp
  moreover have "is_sem n ?s = is_sem n s" for n by (rule is_sem_cong) (simp add: set_frame_def)
  ultimately show ?thesis using k(1) by (simp add: keeps_books_def)
qed
section \<open>Every step keeps the invariant and the books\<close>

lemma no_take_not_served: "frames s c = None \<Longrightarrow> c \<notin> served_by n s" "frames s c = Some FSleep \<Longrightarrow> c \<notin> served_by n s"
  by (simp_all add: served_by_def)

lemma waiting_not_served:
  assumes "frames s c = Some (FSemTake m)" "c \<in> waiting m s"
  shows "c \<notin> served_by n s"
  using assms by (auto simp: served_by_def)

text \<open>The three outcomes of a take.\<close>

lemma take_cases:
  assumes inv: "sys_inv s" and cur: "current_thread s = Some c" "c \<noteq> idle" and m: "is_sem m s"
    and time: "sint time \<noteq> 0x7fffffff"
  obtains (token) "0 < sem_value (sems s m)"
      "rt_sem_take m time s = Some (Return RT_EOK, upd_sem m (\<lambda>r. r\<lparr>sem_value := sem_value r - 1\<rparr>) s)"
  | (none) "sem_value (sems s m) = 0" "time = 0" "rt_sem_take m time s = Some (Return (- RT_ETIMEOUT), s)"
  | (blocks) s' where "sem_value (sems s m) = 0" "time \<noteq> 0" "rt_sem_take m time s = Some (Blocked, s')"
      "sys_inv s'" "moves c s s'" "frames s' c = Some (FSemTake m)" "c \<in> waiting m s'"
proof (cases "sem_value (sems s m) = 0")
  case False
  then show thesis
    by (intro token) (use m in \<open>simp_all add: rt_sem_take_def word_gt_0\<close>)
next
  case True
  show thesis
  proof (cases "time = 0")
    case True
    then show thesis
      using none \<open>sem_value (sems s m) = 0\<close> sem_take_timeout [OF m \<open>sem_value (sems s m) = 0\<close>] by simp
  next
    case False
    then show thesis using take_waits [OF inv cur m True False time] blocks True by blast
  qed
qed

lemma step_keeps:
  assumes "sys_step s es s'" "sys_inv s"
  shows "keeps_books es s s'"
  using assms
proof (induction rule: sys_step.induct)
  case (take s c m time r s')
  from take.prems take.hyps(1,4,3,5) show ?case
  proof (cases rule: take_cases)
    case token
    then show ?thesis using take_books [OF take.prems take.hyps(3)] take.hyps(6) by auto
  next
    case none
    then have "s' = s" "r \<noteq> RT_EOK" using take.hyps(6) by (auto simp: err_defs)
    then show ?thesis using keeps_books_quiet [OF take.prems] by simp
  qed (use take.hyps(6) in simp)
next
  case (wait s c m time s')
  from wait.prems wait.hyps(1,4,3,5) show ?case
  proof (cases rule: take_cases)
    case (blocks s'')
    then have "s'' = s'" using wait.hyps(6) by simp
    with blocks show ?thesis
      by (intro moves_books) (use no_take_not_served(1) [OF wait.hyps(2)] waiting_not_served in simp_all)
  qed (use wait.hyps(6) in simp_all)
next
  case (wake s c m r s')
  have "s' = set_frame c None s" "r = th_error (threads s c)"
    using wake.hyps(3) by (auto simp: rt_sem_take_wake_def set_frame_def split: if_splits)
  then show ?case using wake_books [OF wake.prems wake.hyps(1,2)] by simp
next
  case (give s c m r s')
  obtain s2 where s2: "rt_sem_release m s = Some (RT_EOK, s2)" "sys_ok s2" "gives m s s2"
    using release_gives [OF sys_invD(12) [OF give.prems] give.hyps(3)] by blast
  then have "s2 = s'" using give.hyps(4) by simp
  moreover have "sys_inv s2"
    using sem_release_keeps_cpu [OF s2(1)] s2(2) give.prems by (simp add: sys_inv_def keeps_cpu_def)
  ultimately show ?case using gives_books s2(3) sys_invD(10) [OF give.prems] by blast
next
  case (give_irq m s s')
  have m: "is_sem m (rt_interrupt_enter s)"
    using give_irq.hyps(1) by (simp add: is_sem_def rt_object_get_type_def)
  obtain s1 where s1: "rt_sem_release m (rt_interrupt_enter s) = Some (RT_EOK, s1)" "sys_ok s1"
      "gives m (rt_interrupt_enter s) s1"
    using release_gives [OF enter_ok(1) [OF sys_invD(12) [OF give_irq.prems]] m] by blast
  note k = in_irq_keeps [where f = "\<lambda>s. map_option snd (rt_sem_release m s)", OF give_irq.prems _ s1(2)
      sem_release_keeps_cpu [OF s1(1)]]
  have "s' = trap_exit (rt_interrupt_leave s1)" using k(1) s1(1) give_irq.hyps(2) by simp
  moreover have "gives m s (trap_exit (rt_interrupt_leave s1)) = gives m (rt_interrupt_enter s) s1"
    by (rule gives_cong) (simp_all add: enter_ok(2) exit_ok(2))
  ultimately show ?case using gives_books k(2) s1 sys_invD(10) [OF give_irq.prems] by simp
next
  case (yield s c r s')
  then show ?case
    using yield_ok wakes_books [OF _ _ sys_invD(10)] by blast
next
  case (sleep s c tick r s')
  obtain s2 where s2: "rt_thread_sleep tick s = Some (Blocked, s2)" "sys_inv s2" "moves c s s2" "frames s2 c = Some FSleep"
    using sleep_sleeps [OF sleep.prems sleep.hyps(1,3,4)] by blast
  then have "s2 = s'" using sleep.hyps(5) by simp
  with s2 show ?case
    by (intro moves_books) (use no_take_not_served sleep.hyps(2) in simp_all)
next
  case (awake s c r s')
  have go: "goes_on c s s'"
    using awake.hyps(3) by (auto simp: goes_on_def rt_thread_sleep_wake_def Let_def)
  show ?case
    by (rule moves_books [OF goes_on_keeps(1,2) [OF awake.prems awake.hyps(1) go]])
      (use no_take_not_served awake.hyps(2) goes_on_keeps(3) [OF awake.prems awake.hyps(1) go] in simp_all)
next
  case (tick s s')
  obtain s1 W where s1: "rt_tick_increase cb_none (rt_interrupt_enter s) = Some s1" "sys_ok s1"
      "wakes W (rt_interrupt_enter s) s1"
    using tick_ok [OF enter_ok(1) [OF sys_invD(12) [OF tick.prems]]] by blast
  note k = in_irq_keeps [where f = "rt_tick_increase cb_none", OF tick.prems s1(1,2) tick_keeps_cpu [OF s1(1) cb_none_keeps_cpu]]
  have "s' = trap_exit (rt_interrupt_leave s1)" using k(1) tick.hyps by simp
  moreover have w: "waits_ok (rt_interrupt_enter s)" using enter_ok(1) [OF sys_invD(12) [OF tick.prems]] by (simp add: sys_ok_def)
  ultimately show ?case
    using k(2) wakesD(1,4) [OF s1(3)] wakes_served [OF s1(3) w]
    by (intro keeps_books_quiet) (simp_all add: enter_ok(2) exit_ok(2))
qed
section \<open>Runs\<close>

lemma run_keeps:
  assumes "sys_run s es s'" "sys_inv s"
  shows "sys_inv s' \<and> (\<forall>n. is_sem n s' = is_sem n s)"
  using assms
proof (induction rule: sys_run.induct)
  case (more s es s1 ev s2)
  then show ?case using step_keeps [OF more.hyps(2)] by (simp add: keeps_books_def)
qed simp

text \<open>While all tokens fit the counter, none is lost and none comes out of nothing.\<close>

lemma run_books:
  assumes "sys_run s es s'" "sys_inv s" "tokens m s + gave m es < 65536"
  shows "tokens m s' + took m es = tokens m s + gave m es"
  using assms
proof (induction rule: sys_run.induct)
  case (more s es s1 ev s2)
  then have IH: "tokens m s1 + took m es = tokens m s + gave m es" by simp
  have k: "keeps_books ev s1 s2" using step_keeps [OF more.hyps(2)] run_keeps [OF more.hyps(1) more.prems(1)] by blast
  have "gave m ev = 0 \<or> sem_value (sems s1 m) \<noteq> 0xFFFF"
  proof (rule ccontr)
    assume "\<not> ?thesis"
    then have "65535 \<le> tokens m s1" "0 < gave m ev" by (simp_all add: tokens_def)
    then show False using IH more.prems(2) by simp
  qed
  from keeps_booksD [OF k this] show ?case using IH by simp
qed simp

text \<open>Who holds a semaphore that is used as a lock: every release is by a thread that has taken it.\<close>

fun holders :: "nat \<Rightarrow> event list \<Rightarrow> tid list \<Rightarrow> tid list option" where
  "holders m [] H = Some H"
| "holders m (Took t n # es) H = holders m es (if n = m then t # H else H)"
| "holders m (Gave w n # es) H =
     (if n \<noteq> m then holders m es H
      else case w of None \<Rightarrow> None | Some t \<Rightarrow> if t \<in> set H then holders m es (remove1 t H) else None)"

lemma holders_append: "holders m (es @ fs) H = holders m es H \<bind> holders m fs"
  by (induction m es H rule: holders.induct) (simp_all split: option.split)

lemma holders_length:
  "holders m es H = Some H' \<Longrightarrow> length H' + gave m es = length H + took m es"
  by (induction m es H rule: holders.induct)
    (auto simp: length_remove1 split: if_splits option.splits dest: length_pos_if_in_set)

lemma run_lock:
  assumes "sys_run s es s'" "sys_inv s" "tokens m s = 1" "holders m es [] = Some H"
  shows "tokens m s' + length H = 1"
  using assms
proof (induction arbitrary: H rule: sys_run.induct)
  case (more s es s1 ev s2)
  then obtain G where G: "holders m es [] = Some G" "holders m ev G = Some H"
    by (auto simp: holders_append)
  then have IH: "tokens m s1 + length G = 1" using more.IH more.prems(1,2) by simp
  have k: "keeps_books ev s1 s2" using step_keeps [OF more.hyps(2)] run_keeps [OF more.hyps(1) more.prems(1)] by blast
  have "gave m ev = 0 \<or> sem_value (sems s1 m) \<noteq> 0xFFFF"
    using IH by (auto simp: tokens_def)
  from keeps_booksD [OF k this] show ?case using IH holders_length [OF G(2)] by simp
qed simp

section \<open>No call gets stuck\<close>

text \<open>In a state of a run the thread on the processor can make every call, and interrupts are
  handled: no assertion fails and no routine runs into an undefined operation.  (A blocked call that
  goes on returns at once.)\<close>

definition can_go_on :: "kernel \<Rightarrow> bool" where
  "can_go_on s \<longleftrightarrow> (\<exists>c. current_thread s = Some c \<and> cpu s = Some c \<and>
     rt_thread_yield s \<noteq> None \<and>
     (\<forall>m. is_sem m s \<longrightarrow> rt_sem_release m s \<noteq> None) \<and>
     (c \<noteq> idle \<longrightarrow> (\<forall>m time. is_sem m s \<and> sint time \<noteq> 0x7fffffff \<longrightarrow> rt_sem_take m time s \<noteq> None) \<and>
        (\<forall>tick < RT_TICK_MAX div 2. rt_thread_sleep tick s \<noteq> None)) \<and>
     in_irq (rt_tick_increase cb_none) s \<noteq> None \<and>
     (\<forall>m. is_sem m s \<longrightarrow> in_irq (\<lambda>s. map_option snd (rt_sem_release m s)) s \<noteq> None))"

lemma inv_can_go_on:
  assumes inv: "sys_inv s"
  shows "can_go_on s"
proof -
  note i = sys_invD [OF inv]
  obtain c where c: "current_thread s = Some c" using sys_inv_current [OF inv] by blast
  have cpu: "cpu s = Some c" using i(4,5) c by (simp add: coherent_def split: if_splits)
  have y: "rt_thread_yield s \<noteq> None" using rt_thread_yield_total [OF i(1)] c by auto
  have g: "rt_sem_release m s \<noteq> None" if "is_sem m s" for m using release_gives [OF i(12) that] by auto
  have t: "rt_sem_take m time s \<noteq> None" if "c \<noteq> idle" "is_sem m s" "sint time \<noteq> 0x7fffffff" for m time
    using inv c that by (cases rule: take_cases) simp_all
  have sl: "rt_thread_sleep tick s \<noteq> None" if "c \<noteq> idle" "tick < RT_TICK_MAX div 2" for tick
    using sleep_sleeps [OF inv c that] by auto
  note e = enter_ok(1) [OF i(12)]
  have ti: "in_irq (rt_tick_increase cb_none) s \<noteq> None" using tick_ok [OF e] by (auto simp: in_irq_def)
  have gi: "in_irq (\<lambda>s. map_option snd (rt_sem_release m s)) s \<noteq> None" if "is_sem m s" for m
    using release_gives [OF e, of m] that by (auto simp: in_irq_def is_sem_def rt_object_get_type_def)
  show ?thesis
    unfolding can_go_on_def using c cpu y g t sl ti gi by blast
qed

end
