(* ===== verification/Board_Props.thy ===== *)
theory Board_Props
  imports Startup System Demo
begin

text \<open>
  The properties of the board: the start of the system, the timer interrupt, the serial input
  from the interrupt to the shell, and the idle thread.  The witnesses run on \<open>demo_machine\<close>, the
  system of theory \<open>Demo\<close> with the drivers of the board.
\<close>

definition zero_machine :: machine where
  "zero_machine = \<lparr>krn = zero_kernel, mmio = (\<lambda>_. 0), mie = 0, mip = 0, mtvec = False,
     irq_desc_table = (\<lambda>_. \<lparr>handler = None, param = 0\<rparr>),
     g_uart_rx = \<lparr>buf = (\<lambda>_. 0), write_idx = 0, read_idx = 0\<rparr>, uart_ier = 0\<rparr>"

definition zero_heap :: heap where
  "zero_heap = \<lparr>heap_ptr = 0, heap_end = 0, lfree = 0, mem_size_aligned = 0, used_mem = 0, max_mem = 0,
     hdrs = (\<lambda>_. \<lparr>mmagic = 0, mused = 0, mnext = 0, mprev = 0\<rparr>)\<rparr>"

definition demo_machine :: machine where
  "demo_machine = zero_machine\<lparr>krn := demo,
     irq_desc_table := (irq_desc_table zero_machine)(10 := \<lparr>handler = Some UartIsr, param = 0\<rparr>)\<rparr>"

definition demo_trap :: "u8 \<Rightarrow> trap_in" where
  "demo_trap c = \<lparr>mtime_lo = 0xFFFFFFF0, mtime_hi = 1, claim = 10, uart_lsr = 0x61, uart_rbr = c\<rparr>"

section \<open>The start\<close>



section \<open>The tick\<close>


lemma demo_coherent: "coherent (demo_on q)"
  by (simp add: coherent_def demo_on_def zero_kernel_def)

lemma no_timeouts: "cb_ok (\<lambda>_ _ s. Some s)" "cb_keeps_cpu (\<lambda>_ _ s. Some s)"
  by (simp_all add: cb_ok_def cb_keeps_cpu_def)


section \<open>The serial line\<close>

lemma trap_runs_highest:
  "runs_highest s \<Longrightarrow> runs_highest (trap_exit (rt_interrupt_leave s))"
proof -
  have "highest_ready (trap_exit (rt_interrupt_leave s)) = highest_ready s"
    unfolding highest_ready_def exit_sel by (rule refl)
  then show "runs_highest s \<Longrightarrow> runs_highest (trap_exit (rt_interrupt_leave s))"
    by (simp add: runs_highest_def)
qed

lemma plic_dispatch_uart:
  assumes "claim i = 10" "handler (irq_desc_table m 10) = Some UartIsr"
  shows "trap (run_isr other i) cb i 0x8000000B m =
    map_option (\<lambda>m. store_reg 0x0C200004 10 m\<lparr>krn := trap_exit (rt_interrupt_leave (krn m))\<rparr>)
      (uart_isr i (m\<lparr>krn := rt_interrupt_enter (krn m)\<rparr>))"
  using assms
  by (cases "uart_isr i (m\<lparr>krn := rt_interrupt_enter (krn m)\<rparr>)")
    (simp_all add: trap_def rt_hw_trap_handler_def rt_hw_plic_dispatch_def run_isr_def plic_irq_complete_def
      irq_consts Let_def)

lemma uart_inv_cong:
  assumes "g_uart_rx m' = g_uart_rx m" "sems (krn m') = sems (krn m)" "queues (krn m') = queues (krn m)"
    "objs (krn m') = objs (krn m)"
  shows "uart_inv p m' = uart_inv p m"
  using assms by (simp add: uart_inv_def sem_ok_def is_sem_def rt_object_get_type_def)

text \<open>C35: From the interrupt to the shell: when a byte arrives while a thread waits in
  \<^verbatim>\<open>rt_hw_console_getchar\<close>, the trap returns with the invariants kept, the source completed in the
  PLIC, the longest waiting reader ready and the processor on the highest ready thread; and the
  reader then returns from its call with this byte.\<close>

theorem uart_receive:
  assumes inv: "core_inv (krn m)" "coherent (krn m)" "irq_nest (krn m) = 0" "lock_nest (krn m) = 0"
      "current_thread (krn m) \<noteq> None"
    and drv: "uart_inv 0 m" "handler (irq_desc_table m 10) = Some UartIsr"
    and rd: "rx_waiting m = t # ts" "th_error (threads (krn m) t) = RT_EOK"
    and irq: "claim i = 10" "byte_in c i"
  shows "\<exists>m' m''. trap (run_isr other i) cb i 0x8000000B m = Some m' \<and> core_inv (krn m') \<and>
    runs_highest (krn m') \<and> irq_nest (krn m') = 0 \<and> coherent (krn m') \<and>
    cpu (krn m') = current_thread (krn m') \<and> thread_stat (krn m') t = RT_THREAD_READY \<and>
    rx_waiting m' = ts \<and> mmio m' 0x0C200004 = 10 \<and>
    rt_hw_console_getchar_wake t m' = Some (Return c, m'') \<and> uart_inv 0 m''"
proof -
  let ?m = "m\<lparr>krn := rt_interrupt_enter (krn m)\<rparr>"
  have rb: "rb_ok (g_uart_rx m)" and u: "uart_inv 0 ?m" using drv(1) uart_inv_cong [of ?m m 0]
    by (simp_all add: uart_inv_def)
  have "sem_value (sems (krn m) g_uart_rx_sem) = 0"
    using drv(1) rd(1) by (auto simp: uart_inv_def sem_ok_def word_gt_0)
  then have len: "rb_len (g_uart_rx m) = 0" using drv(1) by (simp add: uart_inv_def)
  then have room: "0 < rb_room (g_uart_rx m)" by (simp add: rb_room_def UART_RX_BUF_SIZE_def)
  obtain k where k: "uart_isr i ?m = Some (?m\<lparr>g_uart_rx := rb_put c (g_uart_rx m), krn := k\<rparr>)"
      "uart_inv (Suc 0) (?m\<lparr>g_uart_rx := rb_put c (g_uart_rx m), krn := k\<rparr>)" "core_inv k"
      "rt_sem_release g_uart_rx_sem (rt_interrupt_enter (krn m)) = Some (RT_EOK, k)"
      "queues k (Suspend (QSem g_uart_rx_sem)) = ts" "thread_stat k t = RT_THREAD_READY"
      "th_error (threads k t) = RT_EOK" "runs_highest k"
    using uart_isr_waiter [OF u irq(2), of t ts] room rd inv by auto
  note x = exit_coherent [OF sem_release_keeps_cpu [OF k(4)] inv(2,3)]
  define m' where "m' = store_reg 0x0C200004 10
    (m\<lparr>g_uart_rx := rb_put c (g_uart_rx m), krn := trap_exit (rt_interrupt_leave k)\<rparr>)"
  have t: "trap (run_isr other i) cb i 0x8000000B m = Some m'"
    by (simp add: plic_dispatch_uart [OF irq(1) drv(2)] k(1) m'_def store_reg_def)
  have u': "uart_inv (Suc 0) m'"
    using k(2) uart_inv_cong [of m' "?m\<lparr>g_uart_rx := rb_put c (g_uart_rx m), krn := k\<rparr>" "Suc 0"]
    by (simp add: m'_def)
  have e: "th_error (threads (krn m') t) = RT_EOK" using k(7) by (simp add: m'_def)
  have "rb_contents (g_uart_rx m) = []" using len by (simp add: rb_contents_def)
  then have "rb_contents (g_uart_rx m') = [c]" using rb_put_room(4) [OF rb room] by (simp add: m'_def)
  with getchar_wake_byte [OF u' e] obtain m'' where
    "rt_hw_console_getchar_wake t m' = Some (Return c, m'')" "uart_inv 0 m''" by auto
  then show ?thesis
    using t k(3,5,6) x trap_runs_highest [OF k(8)] by (auto simp: m'_def thread_stat_def)
qed

lemma demo_machine_uart: "uart_inv 0 demo_machine" "rx_waiting demo_machine = [3]"
  using demo_on_sem(2) [of "QSem 1"]
  by (simp_all add: uart_inv_def demo_machine_def zero_machine_def g_uart_rx_sem_def rb_ok_def rb_len_def
      UART_RX_BUF_SIZE_def)

theorem uart_receive_witness:
  "\<exists>m' m''. trap (run_isr (\<lambda>_ _ _ m. Some m) (demo_trap 65)) (\<lambda>_ _ s. Some s) (demo_trap 65) 0x8000000B
     demo_machine = Some m' \<and> rt_hw_console_getchar_wake 3 m' = Some (Return 65, m'')"
  using uart_receive [of demo_machine 3 "[]" "demo_trap 65" 65 "\<lambda>_ _ _ m. Some m" "\<lambda>_ _ s. Some s"]
    demo_machine_uart demo_core demo_coherent
  by (auto simp: demo_machine_def demo_trap_def RT_EOK_def)

text \<open>The serial input keeps its order: up to 63 bytes that arrive while nobody reads are returned
  by as many calls of \<^verbatim>\<open>rt_hw_console_getchar\<close>, in the order of their arrival.\<close>

theorem uart_stream:
  assumes "uart_inv 0 m" "rb_len (g_uart_rx m) = 0" "rx_waiting m = []"
    and "list_all2 byte_in cs is" "length cs \<le> 63"
  shows "\<exists>m' m''. isr_bytes is m = Some m' \<and> getchars (length cs) m' = Some (cs, m'') \<and>
    rb_len (g_uart_rx m'') = 0 \<and> sem_value (sems (krn m'') g_uart_rx_sem) = 0"
proof -
  have room: "length cs \<le> rb_room (g_uart_rx m)" using assms(2,5) by (simp add: rb_room_def UART_RX_BUF_SIZE_def)
  have rb: "rb_ok (g_uart_rx m)" and e: "rb_contents (g_uart_rx m) = []"
    using assms(1,2) by (simp_all add: uart_inv_def rb_contents_def)
  obtain m' where m': "isr_bytes is m = Some m'" "uart_inv 0 m'" "g_uart_rx m' = fold rb_put cs (g_uart_rx m)"
    using isr_bytes_spec [OF assms(1,4) room assms(3)] by blast
  obtain ws q where "drain rb_get (length cs) (fold rb_put cs (g_uart_rx m)) = (ws, q)" "list_all2 (=) cs ws"
      "rb_ok q" "rb_contents q = []"
    using rb.fifo [OF rb _ room] assms(2) e by auto
  then have q: "drain rb_get (length cs) (g_uart_rx m') = (cs, q)" "rb_len q = 0"
    unfolding m'(3) list.rel_eq by (simp_all flip: rb_contents_length)
  have "length cs + rb_room (g_uart_rx m') = rb_room (g_uart_rx m)"
    using rb.put_all [OF rb _ room] by (auto simp: m'(3))
  then have "rb_len (g_uart_rx m') = length cs"
    using assms(2,5) rb_len_less [of "g_uart_rx m'"] by (simp add: rb_room_def UART_RX_BUF_SIZE_def)
  then have v: "unat (sem_value (sems (krn m') g_uart_rx_sem)) = length cs" and n: "is_sem g_uart_rx_sem (krn m')"
    using m'(2) by (simp_all add: uart_inv_def sem_ok_def)
  from getchars_drain [OF n, of "length cs"] v obtain m'' where
    "getchars (length cs) m' = Some (cs, m'')" "g_uart_rx m'' = q" "unat (sem_value (sems (krn m'') g_uart_rx_sem)) = 0"
    by (auto simp: q(1))
  then show ?thesis using m'(1) q(2) by (auto simp: unat_eq_0)
qed

definition idle_machine :: machine where
  "idle_machine = zero_machine\<lparr>krn := demo_on (QSem 0)\<rparr>"

theorem uart_stream_witness:
  "\<exists>m' m''. isr_bytes [demo_trap 79, demo_trap 75, demo_trap 10] idle_machine = Some m' \<and>
     getchars 3 m' = Some ([79, 75, 10], m'')"
proof -
  have "uart_inv 0 idle_machine" "rb_len (g_uart_rx idle_machine) = 0" "rx_waiting idle_machine = []"
    using demo_on_sem(2) [of "QSem 0"]
    by (simp_all add: uart_inv_def idle_machine_def zero_machine_def g_uart_rx_sem_def rb_ok_def rb_len_def
        UART_RX_BUF_SIZE_def)
  from uart_stream [OF this, of "[79, 75, 10]" "[demo_trap 79, demo_trap 75, demo_trap 10]"]
  show ?thesis by (auto simp: demo_trap_def eval_nat_numeral)
qed

section \<open>The idle thread\<close>


text \<open>Three ended threads, of which the second has a static control block.\<close>

definition grave_type :: "tid \<Rightarrow> u8" where
  "grave_type t = (if t = 1 \<or> t = 3 then RT_Object_Class_Thread
     else if t = 2 then RT_Object_Class_Thread OR RT_Object_Class_Static else 0)"

definition grave :: kernel where
  "grave = zero_kernel\<lparr>queues := (queues zero_kernel)(Defunct := [1, 2, 3]),
     threads := (\<lambda>t. (threads zero_kernel t)\<lparr>stat := (if t \<in> {1, 2, 3} then RT_THREAD_CLOSE else 0)\<rparr>),
     objs := (\<lambda>x. \<lparr>oname = '''', otype = (case x of OThread t \<Rightarrow> grave_type t | _ \<Rightarrow> 0), oflag = 0\<rparr>),
     container := (container zero_kernel)(RT_Object_Class_Thread := [OThread 3, OThread 2, OThread 1])\<rparr>"

lemma grave_ok: "core_inv grave" "object_inv grave" "quiet grave" "irq_nest grave = 0"
proof -
  have q: "queues grave = (\<lambda>_. [])(Defunct := [1, 2, 3])" by (simp add: grave_def zero_core(6))
  have th: "tstat (threads grave t) = (if t \<in> {1, 2, 3} then RT_THREAD_CLOSE else RT_THREAD_INIT)"
      "thread_ok (threads grave t)" for t
    using zero_core(7) [of t] sched_okD(5) [OF core_invD(1) [OF zero_core(1)], of t]
    by (auto simp: grave_def tstat_def stat_defs thread_ok_def zero_kernel_def)
  have g: "\<not> bit (ready_group grave) p" for p by (simp add: grave_def zero_kernel_def)
  have "sched_inv grave" by (auto simp: sched_ok_def q_ok_def q th g stat_defs)
  then show "core_inv grave"
    by (simp add: core_inv_def)
      (simp add: timer_inv_def wakeups_ok_def alive_ok_def thread_stat_def th stat_defs,
        simp add: grave_def zero_kernel_def)
  have ty: "rt_object_get_type x grave = (case x of OThread t \<Rightarrow> if t \<in> {1, 2, 3} then RT_Object_Class_Thread else 0 | _ \<Rightarrow> 0)" for x
    by (auto simp: rt_object_get_type_def grave_def grave_type_def class_defs split: oref.split)
  have c: "container grave = (\<lambda>_. [])(RT_Object_Class_Thread := [OThread 3, OThread 2, OThread 1])"
    by (simp add: grave_def zero_kernel_def)
  show "object_inv grave" by (auto simp: object_inv_def ty c q_ok_def class_defs split: oref.splits)
  show "quiet grave" "irq_nest grave = 0" by (simp_all add: quiet_def grave_def zero_kernel_def)
qed

lemma grave_batch: "queues grave Defunct = [1, 2, 3]" "idle_batch grave = [1, 2]"
proof -
  show "queues grave Defunct = [1, 2, 3]" by (simp add: grave_def)
  then show "idle_batch grave = [1, 2]"
    by (simp add: idle_batch_def rt_object_is_systemobject_def) (simp add: grave_def grave_type_def class_defs)
qed

lemma no_cleanup: "cleanup_ok (\<lambda>_ s. Some s)"
  by (simp add: cleanup_ok_def cleanup_frame_def)


section \<open>What the code does not do\<close>

text \<open>The interrupts of the timer and of the PLIC as a whole cannot be masked: their numbers are
  taken for sources of the PLIC.\<close>

lemma machine_interrupts_not_masked:
  assumes "vector = uint IRQ_M_TIMER \<or> vector = uint IRQ_M_EXT"
  shows "mie (rt_hw_interrupt_mask vector m) = mie m" "mie (rt_hw_interrupt_umask vector m) = mie m"
  using assms
  by (auto simp: rt_hw_interrupt_mask_def rt_hw_interrupt_umask_def plic_irq_disable_def plic_irq_enable_def
      plic_set_priority_def irq_consts Let_def)

text \<open>A machine software interrupt (cause 3) is not acknowledged, its pending bit stays.\<close>

lemma soft_interrupt_stays_pending:
  assumes "trap run cb i 0x80000003 m = Some m'"
  shows "mip m' = mip m"
  using assms by (auto simp: trap_def rt_hw_trap_handler_def irq_consts Let_def)

text \<open>The low half of the counter is read before the high half.  When it carries in between, the
  comparison register is set \<open>2 ^ 32\<close> cycles too late.\<close>

lemma tick_read_across_carry:
  assumes "mtime_lo i = - 1" "mtime_hi i = hi + 1" "unat hi + 2 < 2 ^ 32"
  shows "mtimecmp (set_mtimecmp i m) = (2 ^ 32 * unat hi + (2 ^ 32 - 1)) + 100000 + 2 ^ 32"
proof -
  have "unat (hi + 1) = unat hi + 1" using assms(3) by (simp add: unat_word_ariths)
  moreover have "unat (- 1 :: u32) = 2 ^ 32 - 1" by (simp add: unsigned_minus_1_eq_mask mask_eq_exp_minus_1)
  ultimately have t: "mtime i = 2 ^ 32 * (unat hi + 1) + (2 ^ 32 - 1)" by (simp add: mtime_def assms)
  with assms(3) have "mtime i + 100000 < 2 ^ 64" by simp
  from set_mtimecmp_value [OF this, of m] show ?thesis by (simp add: t)
qed

text \<open>One call of \<^verbatim>\<open>rt_thread_idle_excute\<close> does not do all the cleanups: it stops behind the first
  static thread.\<close>

lemma idle_stops_at_static:
  "\<exists>s'. rt_thread_idle_excute (\<lambda>_ s. Some s) grave = Some s' \<and> has_defunct_thread s'"
  using idle_excute_spec [OF grave_ok no_cleanup] grave_batch by (auto simp: has_defunct_thread_def)

end
