(* ===== verification/Heap_Lock.thy ===== *)
theory Heap_Lock
  imports System Startup
begin

text \<open>
  The heap of \<^verbatim>\<open>src/mem.c\<close> under its semaphore: \<^verbatim>\<open>rt_malloc\<close> and \<^verbatim>\<open>rt_free\<close> take \<^verbatim>\<open>heap_sem\<close>, work on
  the heap, and release it.  First any data that a semaphore protects among the threads of theory
  \<open>System\<close>: a thread that has taken the semaphore works on the data as it found them, and its stores
  take effect when it releases the semaphore; that nobody else has changed the data meanwhile is what is
  proved.  Then the routines themselves, with the semaphore.
\<close>

section \<open>Data that a semaphore protects\<close>

fun concerns :: "nat \<Rightarrow> event \<Rightarrow> bool" where
  "concerns m (Took c n) = (n = m)"
| "concerns m (Gave w n) = (n = m)"

text \<open>The kernel, the data, and for each thread between its take and its release what it does, and the
  data that it found.\<close>

type_synonym ('o, 'd) guarded = "kernel \<times> 'd \<times> (tid \<Rightarrow> ('o \<times> 'd) option)"

inductive guarded_step ::
  "nat \<Rightarrow> ('o \<Rightarrow> 'd \<Rightarrow> 'd option) \<Rightarrow> ('o, 'd) guarded \<Rightarrow> event list \<Rightarrow> 'o list \<Rightarrow> ('o, 'd) guarded \<Rightarrow> bool"
  for m :: nat and act :: "'o \<Rightarrow> 'd \<Rightarrow> 'd option" where
  other: "sys_step s es s' \<Longrightarrow> \<forall>e \<in> set es. \<not> concerns m e \<Longrightarrow> guarded_step m act (s, d, W) es [] (s', d, W)"
| enter: "sys_step s [Took c m] s' \<Longrightarrow> W c = None \<Longrightarrow>
    guarded_step m act (s, d, W) [Took c m] [] (s', d, W(c \<mapsto> (a, d)))"
| leave: "W c = Some (a, g) \<Longrightarrow> act a g = Some g' \<Longrightarrow> sys_step s [Gave (Some c) m] s' \<Longrightarrow>
    guarded_step m act (s, d, W) [Gave (Some c) m] [a] (s', g', W(c := None))"

inductive guarded_run ::
  "nat \<Rightarrow> ('o \<Rightarrow> 'd \<Rightarrow> 'd option) \<Rightarrow> ('o, 'd) guarded \<Rightarrow> event list \<Rightarrow> 'o list \<Rightarrow> ('o, 'd) guarded \<Rightarrow> bool"
  for m :: nat and act :: "'o \<Rightarrow> 'd \<Rightarrow> 'd option" where
  start: "guarded_run m act x [] [] x"
| more: "guarded_run m act x es as y \<Longrightarrow> guarded_step m act y ev bs z \<Longrightarrow> guarded_run m act x (es @ ev) (as @ bs) z"

inductive_cases guarded_stepE: "guarded_step m act y ev bs z"

fun in_turn :: "('o \<Rightarrow> 'd \<Rightarrow> 'd option) \<Rightarrow> 'o list \<Rightarrow> 'd \<Rightarrow> 'd option" where
  "in_turn act [] d = Some d"
| "in_turn act (a # as) d = act a d \<bind> in_turn act as"

lemma in_turn_append: "in_turn act (as @ bs) d = in_turn act as d \<bind> in_turn act bs"
  by (induction as arbitrary: d) (simp_all split: Option.bind_split)

lemma holders_other: "\<forall>e \<in> set es. \<not> concerns m e \<Longrightarrow> holders m es H = Some H"
  by (induction m es H rule: holders.induct) auto

text \<open>The thread between its take and its release is the holder of the semaphore, and what it found is
  still what is there.\<close>

definition guards :: "nat \<Rightarrow> event list \<Rightarrow> ('o, 'd) guarded \<Rightarrow> bool" where
  "guards m es = (\<lambda>(s, d, W). \<exists>H. holders m es [] = Some H \<and> length H \<le> 1 \<and>
     (\<forall>c. W c \<noteq> None \<longleftrightarrow> c \<in> set H) \<and> (\<forall>c a g. W c = Some (a, g) \<longrightarrow> g = d))"

lemma guarded_inv:
  assumes "guarded_run m act x es as y" "sys_inv (fst x)" "tokens m (fst x) = 1" "\<forall>c. snd (snd x) c = None"
  shows "sys_run (fst x) es (fst y) \<and> guards m es y \<and> in_turn act as (fst (snd x)) = Some (fst (snd y))"
  using assms
proof (induction rule: guarded_run.induct)
  case (start x)
  then show ?case by (auto simp: guards_def split_beta intro: sys_run.start)
next
  case (more x es as y ev bs z)
  obtain s d W where y: "y = (s, d, W)" by (cases y)
  have r: "sys_run (fst x) es s" and t: "in_turn act as (fst (snd x)) = Some d"
    using more.IH more.prems by (simp_all add: y)
  obtain H where H: "holders m es [] = Some H" "length H \<le> 1" "\<And>c. W c \<noteq> None \<longleftrightarrow> c \<in> set H"
      "\<And>c a g. W c = Some (a, g) \<Longrightarrow> g = d"
    using more.IH more.prems by (auto simp: guards_def y)
  have lock: "length G \<le> 1" if "sys_run (fst x) es' s'" "holders m es' [] = Some G" for es' s' G
    using run_lock [OF that(1) more.prems(1,2) that(2)] by simp
  have goes: "sys_step s ev (fst z)" using more.hyps(2) by (auto simp: y elim: guarded_stepE)
  have r': "sys_run (fst x) (es @ ev) (fst z)" by (rule sys_run.more [OF r goes])
  from more.hyps(2) [unfolded y] show ?case
  proof (cases rule: guarded_step.cases)
    case (other s')
    then show ?thesis using r' t H by (auto simp: guards_def holders_append holders_other)
  next
    case (enter c s' a)
    have G: "holders m (es @ ev) [] = Some (c # H)" using H(1) enter(1) by (simp add: holders_append)
    then have "H = []" using lock [OF r'] by fastforce
    then show ?thesis using enter r' t H G by (auto simp: guards_def)
  next
    case (leave c a g g' s')
    have "c \<in> set H" "g = d" using H(3) [of c] H(4) leave(4) by auto
    then have "H = [c]" using H(2) by (cases H) auto
    then have "holders m (es @ ev) [] = Some []" using H(1) leave(1) by (simp add: holders_append)
    moreover have "W d' = None" if "d' \<noteq> c" for d' using H(3) [of d'] \<open>H = [c]\<close> that by (cases "W d'") auto
    ultimately show ?thesis using leave r' t \<open>g = d\<close> by (auto simp: guards_def in_turn_append)
  qed
qed

section \<open>The heap\<close>

text \<open>What is done between take and release, for a client that keeps a list of its areas.  \<^verbatim>\<open>rt_realloc\<close>
  is left out, as it may release the semaphore and take it again for \<^verbatim>\<open>rt_malloc\<close> and \<^verbatim>\<open>rt_free\<close>.\<close>

definition heap_act :: "u32 request \<Rightarrow> u32 list \<times> heap \<Rightarrow> (u32 list \<times> heap) option" where
  "heap_act r c = (case r of
     Change k z \<Rightarrow> None
   | _ \<Rightarrow> serve mem_malloc (\<lambda>p. mem_free (Some p)) mem_resize r c)"

fun heap_call :: "u32 request \<Rightarrow> bool" where
  "heap_call (Ask z) \<longleftrightarrow> z \<noteq> 0 \<and> unat z + 3 < 2 ^ 32"
| "heap_call (Give k) \<longleftrightarrow> True"
| "heap_call (Change k z) \<longleftrightarrow> False"

lemma heap_act_serve:
  "heap_call r \<Longrightarrow> heap_act r c = serve mem_malloc (\<lambda>p. mem_free (Some p)) mem_resize r c \<and> heap_request r"
  by (cases r) (simp_all add: heap_act_def)

lemma heap_acts_serve:
  "\<forall>r \<in> set rs. heap_call r \<Longrightarrow>
    in_turn heap_act rs c = serve_all mem_malloc (\<lambda>p. mem_free (Some p)) mem_resize rs c \<and> (\<forall>r \<in> set rs. heap_request r)"
proof (induction rs arbitrary: c)
  case (Cons r rs)
  then show ?case using heap_act_serve [of r] by (auto cong: Option.bind_cong)
qed simp

lemma heap_act_runs:
  assumes "small_heap.holds hs h" "heap_call r"
  shows "heap_act r (hs, h) \<noteq> None"
  using small_heap.serve_ok [OF assms(1), of r] heap_act_serve [OF assms(2), of "(hs, h)"] by auto
section \<open>The routines with the semaphore\<close>

text \<open>Taking the semaphore, a piece of work on the heap, releasing the semaphore.  If the thread has to
  wait, the result is \<open>Blocked\<close>; the work is done by \<open>heap_work\<close> when the thread runs again.  The
  result of the take is ignored, as in the code.\<close>

definition heap_work :: "(heap \<Rightarrow> ('r \<times> heap) option) \<Rightarrow> heap \<times> kernel \<Rightarrow> ('r call \<times> heap \<times> kernel) option" where
  "heap_work f = (\<lambda>(h, s). do {
     (r, h) \<leftarrow> f h;
     (e, s) \<leftarrow> rt_sem_release heap_sem s;
     Some (Return r, h, s)
   })"

definition with_heap :: "(heap \<Rightarrow> ('r \<times> heap) option) \<Rightarrow> heap \<times> kernel \<Rightarrow> ('r call \<times> heap \<times> kernel) option" where
  "with_heap f = (\<lambda>(h, s). do {
     (c, s) \<leftarrow> rt_sem_take heap_sem RT_WAITING_FOREVER s;
     (case c of Blocked \<Rightarrow> Some (Blocked, h, s) | Return e \<Rightarrow> heap_work f (h, s))
   })"

definition rt_malloc :: "u32 \<Rightarrow> heap \<times> kernel \<Rightarrow> (u32 option call \<times> heap \<times> kernel) option" where
  "rt_malloc sz = (\<lambda>(h, s).
     if sz = 0 then Some (Return None, h, s)
     else do {
       RT_DEBUG_NOT_IN_INTERRUPT s;
       (if mem_size_aligned h < RT_ALIGN sz RT_ALIGN_SIZE then Some (Return None, h, s)
        else with_heap (mem_malloc sz) (h, s))
     })"

definition rt_free :: "u32 option \<Rightarrow> heap \<times> kernel \<Rightarrow> (unit call \<times> heap \<times> kernel) option" where
  "rt_free rmem = (\<lambda>(h, s). case rmem of
     None \<Rightarrow> Some (Return (), h, s)
   | Some p \<Rightarrow> do {
       RT_DEBUG_NOT_IN_INTERRUPT s;
       RT_ASSERT ((heap_ptr h + p) AND (RT_ALIGN_SIZE - 1) = 0);
       RT_ASSERT (p < heap_end h);
       with_heap (\<lambda>h. do { h \<leftarrow> mem_free (Some p) h; Some ((), h) }) (h, s)
     })"

text \<open>What \<^verbatim>\<open>rt_realloc\<close> does with the semaphore: whether the block can stay, and its old size.\<close>

definition realloc_here :: "u32 \<Rightarrow> u32 \<Rightarrow> heap \<Rightarrow> ((bool \<times> u32) \<times> heap) option" where
  "realloc_here p newsize h =
     (if heap_end h \<le> p then Some ((True, 0), h)
      else
        let ptr = p - SIZEOF_STRUCT_MEM; sz = mnext (hdrs h ptr) - ptr - SIZEOF_STRUCT_MEM
        in if sz = newsize then Some ((True, sz), h)
           else if newsize + SIZEOF_STRUCT_MEM + MIN_SIZE < sz then do {
             let h = h\<lparr>used_mem := used_mem h - (sz - newsize)\<rparr>;
             let ptr2 = ptr + SIZEOF_STRUCT_MEM + newsize;
             let h = split_block ptr ptr2 h;
             h \<leftarrow> plug_holes ptr2 h;
             Some ((True, sz), h)
           }
           else Some ((False, sz), h))"

definition rt_realloc ::
  "u32 option \<Rightarrow> u32 \<Rightarrow> heap \<times> kernel \<Rightarrow> ((u32 option \<times> (u32 \<times> u32 \<times> u32) option) call \<times> heap \<times> kernel) option" where
  "rt_realloc rmem newsize = (\<lambda>(h, s). do {
     RT_DEBUG_NOT_IN_INTERRUPT s;
     let newsize = RT_ALIGN newsize RT_ALIGN_SIZE;
     (if mem_size_aligned h < newsize then Some (Return (None, None), h, s)
      else if newsize = 0 then do {
        (c, h, s) \<leftarrow> rt_free rmem (h, s);
        Some (case c of Blocked \<Rightarrow> Blocked | Return _ \<Rightarrow> Return (None, None), h, s)
      }
      else case rmem of
        None \<Rightarrow> do {
          (c, h, s) \<leftarrow> rt_malloc newsize (h, s);
          Some (case c of Blocked \<Rightarrow> Blocked | Return r \<Rightarrow> Return (r, None), h, s)
        }
      | Some p \<Rightarrow> do {
          (c, h, s) \<leftarrow> with_heap (realloc_here p newsize) (h, s);
          (case c of
             Blocked \<Rightarrow> Some (Blocked, h, s)
           | Return (stays, sz) \<Rightarrow>
               if stays then Some (Return (Some p, None), h, s)
               else do {
                 (c, h, s) \<leftarrow> rt_malloc newsize (h, s);
                 (case c of
                    Blocked \<Rightarrow> Some (Blocked, h, s)
                  | Return None \<Rightarrow> Some (Return (None, None), h, s)
                  | Return (Some q) \<Rightarrow> do {
                      (c, h, s) \<leftarrow> rt_free (Some p) (h, s);
                      Some (case c of Blocked \<Rightarrow> Blocked
                            | Return _ \<Rightarrow> Return (Some q, Some (q, p, if sz < newsize then sz else newsize)), h, s)
                    })
               })
        })
   })"

text \<open>When the semaphore is free, the routines are those of theory \<open>Mem\<close>, and the kernel is afterwards as
  it was before.\<close>

definition heap_free :: "kernel \<Rightarrow> bool" where
  "heap_free s \<longleftrightarrow> is_sem heap_sem s \<and> 0 < sem_value (sems s heap_sem) \<and> queues s (Suspend (QSem heap_sem)) = [] \<and>
     irq_nest s = 0"

lemma upd_sem_back: "(\<And>r. g (f r) = r) \<Longrightarrow> upd_sem n g (upd_sem n f s) = s"
  by (simp add: upd_sem_def)

lemma with_heap_free:
  assumes "heap_free s"
  shows "with_heap f (h, s) = do { (r, h) \<leftarrow> f h; Some (Return r, h, s) }"
proof -
  have "rt_sem_take heap_sem RT_WAITING_FOREVER s =
      Some (Return RT_EOK, upd_sem heap_sem (\<lambda>r. r\<lparr>sem_value := sem_value r - 1\<rparr>) s)"
    using assms by (simp add: heap_free_def rt_sem_take_def)
  moreover have "rt_sem_release heap_sem (upd_sem heap_sem (\<lambda>r. r\<lparr>sem_value := sem_value r - 1\<rparr>) s) = Some (RT_EOK, s)"
    using assms by (subst sem_release_free) (simp_all add: heap_free_def is_sem_def rt_object_get_type_def upd_sem_back)
  ultimately show ?thesis by (simp add: with_heap_def heap_work_def split_beta)
qed

lemma malloc_uncontended:
  "heap_free s \<Longrightarrow> rt_malloc sz (h, s) = do { (r, h) \<leftarrow> mem_malloc sz h; Some (Return r, h, s) }"
  by (simp add: rt_malloc_def with_heap_free heap_free_def [of s] debug_defs mem_malloc_def Let_def)

lemma free_uncontended:
  "heap_free s \<Longrightarrow> rt_free rmem (h, s) = do { h \<leftarrow> mem_free rmem h; Some (Return (), h, s) }"
proof (cases rmem)
  case (Some p)
  assume f: "heap_free s"
  then have "RT_DEBUG_NOT_IN_INTERRUPT s = Some ()" by (simp add: heap_free_def debug_defs)
  moreover have "mem_free (Some p) h = do {
      RT_ASSERT ((heap_ptr h + p) AND (RT_ALIGN_SIZE - 1) = 0); RT_ASSERT (p < heap_end h); mem_free (Some p) h }"
    by (cases "(heap_ptr h + p) AND (RT_ALIGN_SIZE - 1) = 0"; cases "p < heap_end h") (simp_all add: mem_free_def)
  ultimately show ?thesis
    using f by (cases "(heap_ptr h + p) AND (RT_ALIGN_SIZE - 1) = 0"; cases "p < heap_end h")
      (simp_all add: Some rt_free_def with_heap_free)
qed (simp add: rt_free_def mem_free_def)

lemma realloc_uncontended:
  assumes f: "heap_free s"
  shows "rt_realloc rmem sz (h, s) = do { (r, c, h) \<leftarrow> mem_realloc rmem sz h; Some (Return (r, c), h, s) }"
proof -
  have i: "RT_DEBUG_NOT_IN_INTERRUPT s = Some ()" using f by (simp add: heap_free_def debug_defs)
  have move: "(case c of Blocked \<Rightarrow> Some (Blocked, h, s) | Return None \<Rightarrow> Some (Return (None, None), h, s)
      | Return (Some q) \<Rightarrow> do {
          (c, h, s) \<leftarrow> rt_free (Some p) (h, s);
          Some (case c of Blocked \<Rightarrow> Blocked | Return _ \<Rightarrow> Return (Some q, Some (q, p, n)), h, s) }) =
    (case c of Blocked \<Rightarrow> Some (Blocked, h, s) | Return None \<Rightarrow> Some (Return (None, None), h, s)
      | Return (Some q) \<Rightarrow> do { h \<leftarrow> mem_free (Some p) h; Some (Return (Some q, Some (q, p, n)), h, s) })" for c h p n
    by (simp add: free_uncontended [OF f] split: call.split option.split)
  show ?thesis
    unfolding rt_realloc_def mem_realloc_def Let_def realloc_here_def
    by (cases rmem; cases "RT_ALIGN sz RT_ALIGN_SIZE = 0"; cases "mem_size_aligned h < RT_ALIGN sz RT_ALIGN_SIZE")
      (auto simp: i move malloc_uncontended [OF f] free_uncontended [OF f] with_heap_free [OF f]
        intro!: Option.bind_cong split: option.split)
qed

end
