(* ===== verification/System_Props.thy ===== *)
theory System_Props
  imports Board_Props Heap_Lock
begin

text \<open>
  The properties of the running system, for every interleaving of the calls of its threads and of
  interrupts.  The witnesses are runs of \<open>demo\<close>, whose semaphore 0 has one token.
\<close>

lemma demo_frames: "frames (demo_on q) t = (if t = 3 then Some (demo_frame q) else None)"
  by (simp add: demo_on_def zero_kernel_def)

lemma demo_sys: "sys_inv demo"
proof -
  have "sems_ok demo"
    unfolding sems_ok_def
  proof (intro allI impI)
    fix n assume "is_sem n demo"
    then have "n = 0 \<or> n = 1"
      by (auto simp: is_sem_def demo_types demo_type_def class_defs split: if_splits)
    then show "sem_ok n demo" using demo_sem by auto
  qed
  moreover have "waits_ok demo"
  proof -
    have w: "t \<in> waiting m demo \<longleftrightarrow> m = 1 \<and> t = 3" for t m by (auto simp: demo_mem)
    then show ?thesis unfolding waits_ok_def w by (simp add: demo_frames RT_EOK_def)
  qed
  moreover have "irq_nest demo = 0" "lock_nest demo = 0" by simp_all
  moreover have "thread_stat demo idle = RT_THREAD_READY" by (simp add: thread_stat_def idle_def)
  ultimately show ?thesis
    using demo_core demo_ahead demo_highest demo_coherent by (simp add: sys_inv_def sys_ok_def)
qed

text \<open>A run: thread 1 takes the lock and yields, thread 2 waits for it.\<close>

lemma demo_run:
  obtains s where "sys_run demo [Took 1 0] s" "2 \<in> waiting 0 s"
proof -
  have sem: "is_sem 0 demo" using demo_sem(1) by (simp add: sem_ok_def)
  define s1 where "s1 = upd_sem 0 (\<lambda>r. r\<lparr>sem_value := sem_value r - 1\<rparr>) demo"
  have t: "rt_sem_take 0 7 demo = Some (Return RT_EOK, s1)"
    using sem by (simp add: rt_sem_take_def s1_def)
  have r1: "sys_run demo [Took 1 0] s1"
    using sys_run.more [OF sys_run.start sys_step.take [OF _ _ sem _ _ t, of 1]] by (simp add: demo_frames idle_def)
  have i1: "sys_inv s1" using run_keeps [OF r1 demo_sys] by blast
  have "queues s1 (Ready (unat (current_priority (threads s1 1)))) = [1, 2]" "current_thread s1 = Some 1"
    by (simp_all add: s1_def)
  from rt_thread_yield_spec [OF sys_invD(1,3,6) [OF i1] this(2,1)] obtain s2 where
    s2: "rt_thread_yield s1 = Some (RT_EOK, s2)" "current_thread s2 = Some 2" by auto
  have r2: "sys_run demo [Took 1 0] s2"
    using sys_run.more [OF r1 sys_step.yield [OF _ _ s2(1), of 1]] by (simp add: s1_def demo_frames)
  have i2: "sys_inv s2" and w: "wakes {} s1 s2" using yield_ok [OF i1 s2(1)] by blast+
  have sel: "sems s2 = sems s1" "objs s2 (OSem 0) = objs s1 (OSem 0)" "frames s2 = frames s1"
    using wakesD [OF w] by simp_all
  have m: "is_sem 0 s2" "sem_value (sems s2 0) = 0"
    using run_keeps [OF r2 demo_sys] sem by (simp_all add: sel) (simp add: s1_def)
  obtain s3 where s3: "rt_sem_take 0 7 s2 = Some (Blocked, s3)" "2 \<in> waiting 0 s3"
    using take_waits [OF i2 s2(2) _ m, of 7] by (auto simp: idle_def)
  have "sys_run demo [Took 1 0] s3"
    using sys_run.more [OF r2 sys_step.wait [OF s2(2) _ m(1) _ _ s3(1)]] by (simp add: sel s1_def demo_frames idle_def)
  then show thesis using s3(2) by (rule that)
qed

text \<open>C3: Whatever the threads and interrupts do, and in whatever order, the state stays well formed:
  the invariant of scheduler, timers and threads holds, the processor runs the current thread, no
  ready thread has a higher priority, no timer is overdue, and a thread that waits for a
  semaphore waits for one without a free token, inside its take.\<close>

theorem runs_well_formed:
  assumes "sys_inv s" "sys_run s es s'"
  shows "core_inv s' \<and> timers_ahead s' \<and> irq_nest s' = 0 \<and>
    (\<exists>t. cpu s' = Some t \<and> current_thread s' = Some t \<and> thread_stat s' t = RT_THREAD_READY \<and>
      (\<forall>u. thread_stat s' u = RT_THREAD_READY \<longrightarrow>
         current_priority (threads s' t) \<le> current_priority (threads s' u))) \<and>
    (\<forall>m t. is_sem m s \<and> t \<in> waiting m s' \<longrightarrow>
       is_sem m s' \<and> sem_value (sems s' m) = 0 \<and> frames s' t = Some (FSemTake m))"
proof -
  have inv: "sys_inv s'" and n: "\<And>n. is_sem n s' = is_sem n s" using run_keeps [OF assms(2,1)] by blast+
  note i = sys_invD [OF inv]
  obtain t where t: "current_thread s' = Some t" "thread_stat s' t = RT_THREAD_READY"
      "\<And>u. thread_stat s' u = RT_THREAD_READY \<Longrightarrow> current_priority (threads s' t) \<le> current_priority (threads s' u)"
    by (rule runs_highestD [OF core_invD(1) [OF i(1)] i(3)]) blast
  have "cpu s' = Some t" using i(4,5) t(1) by (simp add: coherent_def split: if_splits)
  moreover have "sem_value (sems s' m) = 0" if "is_sem m s" "u \<in> waiting m s'" for m u
    using i(11) [of m] n that by (auto simp: sem_ok_def word_gt_0)
  ultimately show ?thesis using i(1,2,5) t n waits_okD(1) [OF i(10)] by blast
qed

theorem runs_well_formed_witness:
  "\<exists>s. sys_run demo [Took 1 0] s \<and> sem_value (sems s 0) = 0 \<and> frames s 2 = Some (FSemTake 0)"
proof -
  obtain s where s: "sys_run demo [Took 1 0] s" "2 \<in> waiting 0 s" by (rule demo_run)
  then show ?thesis using runs_well_formed [OF demo_sys s(1)] demo_sem(1) by (auto simp: sem_ok_def)
qed

text \<open>C5: No run gets stuck: in every state that it reaches the thread on the processor can yield,
  release any semaphore and, unless it is the idle thread, take any semaphore and sleep, and
  the tick interrupt and an interrupt that releases a semaphore return.  No assertion of the
  kernel fails.\<close>

theorem runs_go_on:
  assumes "sys_inv s" "sys_run s es s'"
  shows "can_go_on s'"
  using inv_can_go_on run_keeps [OF assms(2,1)] by blast

theorem runs_go_on_witness: "\<exists>s. sys_run demo [Took 1 0] s \<and> can_go_on s"
proof -
  obtain s where s: "sys_run demo [Took 1 0] s" by (rule demo_run)
  then show ?thesis using runs_go_on [OF demo_sys s] by blast
qed

text \<open>C4: Tokens are conserved: as long as all tokens fit the 16-bit counter, the tokens of a
  semaphore that are in its counter or on their way to a thread, plus those that were taken,
  are those it had at first plus those that were released; none is lost when a wake-up, a
  time-out and other threads come together.\<close>

theorem tokens_conserved:
  assumes "sys_inv s" "sys_run s es s'" "tokens m s + gave m es < 65536"
  shows "tokens m s' + took m es = tokens m s + gave m es"
  by (rule run_books [OF assms(2,1,3)])

lemma demo_tokens: "tokens 0 demo = 1"
proof -
  have "served_by 0 demo = {}" by (auto simp: served_by_def demo_frames split: if_splits)
  then show ?thesis by (simp add: tokens_def)
qed

theorem tokens_conserved_witness: "\<exists>s. sys_run demo [Took 1 0] s \<and> tokens 0 s = 0"
proof -
  obtain s where s: "sys_run demo [Took 1 0] s" by (rule demo_run)
  then show ?thesis using tokens_conserved [OF demo_sys s, of 0] demo_tokens by auto
qed

text \<open>C2: Mutual exclusion: a semaphore with one token, which is released only by threads that
  have taken it, is held by at most one thread in every state of every run, and it is free or
  on its way to a thread exactly when nobody holds it.\<close>

theorem mutual_exclusion:
  assumes "sys_inv s" "sys_run s es s'" "tokens m s = 1" "holders m es [] = Some H"
  shows "length H \<le> 1 \<and> (H = [] \<longleftrightarrow> tokens m s' = 1)"
  using run_lock [OF assms(2,1,3,4)] by auto

theorem mutual_exclusion_witness:
  "\<exists>s. sys_run demo [Took 1 0] s \<and> holders 0 [Took 1 0] [] = Some [1] \<and> tokens 0 s \<noteq> 1"
proof -
  obtain s where s: "sys_run demo [Took 1 0] s" by (rule demo_run)
  then show ?thesis using mutual_exclusion [OF demo_sys s demo_tokens, of "[1]"] by auto
qed

section \<open>The heap among threads\<close>

lemma heap_shared_inv:
  assumes "sys_inv s" "tokens heap_sem s = 1" and h: "heap_ok h" "allocated h = {}"
    and r: "guarded_run heap_sem heap_act (s, ([], h), \<lambda>_. None) es rs (s', (hs, h'), W)"
    and c: "\<forall>r \<in> set rs. heap_call r"
  shows "serve_all mem_malloc (\<lambda>p. mem_free (Some p)) mem_resize rs ([], h) = Some (hs, h') \<and>
    small_heap.holds hs h' \<and> guards heap_sem es (s', (hs, h'), W)"
proof -
  have i: "in_turn heap_act rs ([], h) = Some (hs, h')" "guards heap_sem es (s', (hs, h'), W)"
    using guarded_inv [OF r] assms(1,2) by simp_all
  have a: "serve_all mem_malloc (\<lambda>p. mem_free (Some p)) mem_resize rs ([], h) = Some (hs, h')"
    and q: "\<forall>r \<in> set rs. heap_request r"
    using i(1) heap_acts_serve [OF c, of "([], h)"] by simp_all
  have "small_heap.holds [] h" using h by (simp add: small_heap.holds_def)
  from small_heap.serve_all_ok [OF this q] show ?thesis using a i(2) by simp
qed

text \<open>C23: Threads that call \<^verbatim>\<open>rt_malloc\<close> and \<^verbatim>\<open>rt_free\<close>, each of which takes the semaphore of the heap,
  works on the heap and releases the semaphore, with other threads and interrupts in between at
  any point: the heap is at any time what the completed calls make of it one after the other, it is
  intact, and the areas that the clients hold are those that are handed out and lie apart.  At most
  one thread is between take and release; the heap that it found has not changed since, and its call
  will not fail an assertion or search for ever.\<close>

theorem heap_shared:
  assumes "sys_inv s" "tokens heap_sem s = 1" "heap_ok h" "allocated h = {}"
    and r: "guarded_run heap_sem heap_act (s, ([], h), \<lambda>_. None) es rs (s', (hs, h'), W)"
    and "\<forall>r \<in> set rs. heap_call r"
  shows "serve_all mem_malloc (\<lambda>p. mem_free (Some p)) mem_resize rs ([], h) = Some (hs, h') \<and>
    heap_ok h' \<and> distinct hs \<and> fst ` allocated h' = set hs \<and>
    (\<forall>x \<in> allocated h'. \<forall>y \<in> allocated h'. x \<noteq> y \<longrightarrow> heap_apart x y) \<and>
    (\<forall>c q g. W c = Some (q, g) \<longrightarrow> g = (hs, h') \<and> (\<forall>d. d \<noteq> c \<longrightarrow> W d = None) \<and>
       (heap_call q \<longrightarrow> heap_act q g \<noteq> None))"
proof -
  note i = heap_shared_inv [OF assms]
  have w: "heap_ok h'" "distinct hs" "fst ` allocated h' = set hs" using i by (simp_all add: small_heap.holds_def)
  have apart: "heap_apart x y" if "x \<in> allocated h'" "y \<in> allocated h'" "x \<noteq> y" for x y
    using allocated_apart [OF w(1), of "fst x" "snd x" "fst y" "snd y"] that by (cases x; cases y) auto
  obtain H where H: "length H \<le> 1" "\<And>c. W c \<noteq> None \<longleftrightarrow> c \<in> set H" "\<And>c q g. W c = Some (q, g) \<Longrightarrow> g = (hs, h')"
    using i by (auto simp: guards_def)
  have one: "W d = None" if "W c \<noteq> None" "d \<noteq> c" for c d
  proof (rule ccontr)
    assume "W d \<noteq> None"
    then have "d \<in> set H" "c \<in> set H" using H(2) that(1) by blast+
    then show False using H(1) that(2) by (cases H) auto
  qed
  have "g = (hs, h') \<and> (\<forall>d. d \<noteq> c \<longrightarrow> W d = None) \<and> (heap_call q \<longrightarrow> heap_act q g \<noteq> None)"
    if "W c = Some (q, g)" for c q g
    using H(3) [OF that] heap_act_runs [of hs h' q] i one [of c] that by auto
  then show ?thesis using i w apart by blast
qed

lemma demo_take:
  obtains s where "sys_step demo [Took 1 0] s"
proof -
  have sem: "is_sem 0 demo" using demo_sem(1) by (simp add: sem_ok_def)
  have "rt_sem_take 0 7 demo = Some (Return RT_EOK, upd_sem 0 (\<lambda>r. r\<lparr>sem_value := sem_value r - 1\<rparr>) demo)"
    using sem by (simp add: rt_sem_take_def)
  from sys_step.take [OF _ _ sem _ _ this, of 1] show thesis by (intro that) (simp add: demo_frames idle_def)
qed

theorem heap_shared_witness:
  "\<exists>s. guarded_run heap_sem heap_act (demo, ([], heap0), \<lambda>_. None) [Took 1 0] [] (s, ([], heap0), [1 \<mapsto> (Ask 30, ([], heap0))]) \<and>
    heap_act (Ask 30) ([], heap0) \<noteq> None"
proof -
  obtain s where s: "sys_step demo [Took 1 0] s" by (rule demo_take)
  have "guarded_step heap_sem heap_act (demo, ([], heap0), \<lambda>_. None) [Took 1 heap_sem] []
      (s, ([], heap0), (\<lambda>_. None)(1 \<mapsto> (Ask 30, ([], heap0))))"
    by (rule guarded_step.enter) (use s in \<open>simp_all add: heap_sem_def\<close>)
  from guarded_run.more [OF guarded_run.start this]
  have r: "guarded_run heap_sem heap_act (demo, ([], heap0), \<lambda>_. None) [Took 1 0] [] (s, ([], heap0), [1 \<mapsto> (Ask 30, ([], heap0))])"
    by (simp add: heap_sem_def)
  show ?thesis
    using heap_shared [OF demo_sys _ _ _ r] demo_tokens heap_at_views(1) [OF heap_at_demo(1)] allocated_demo(1) r
    by (fastforce simp: heap_sem_def)
qed



end
