(* ===== verification/Msh.thy ===== *)
theory Msh
  imports Prelude "HOL-Library.Sublist"
begin

text \<open>
  The command interpreter of the shell, \<^verbatim>\<open>finsh/msh.c\<close>: a line is split into arguments in place,
  the first one is looked up in the table of commands, and the beginning of a command is
  completed.

  A line is the array of its bytes; pointers into it are offsets, and an access outside the
  array has no defined value (\<open>None\<close>).  The functions of the commands are code of the
  application, \<open>call\<close>; what is printed is part of the result.
\<close>

type_synonym buffer = "u8 list"

definition rd :: "buffer \<Rightarrow> nat \<Rightarrow> u8 option" where
  "rd xs i = (if i < length xs then Some (xs ! i) else None)"

text \<open>The string that starts at an offset; it must end inside the array.\<close>

definition c_str :: "buffer \<Rightarrow> nat \<Rightarrow> u8 list option" where
  "c_str xs i = (if 0 \<in> set (drop i xs) then Some (takeWhile (\<lambda>c. c \<noteq> 0) (drop i xs)) else None)"

definition blank :: "u8 \<Rightarrow> bool" where "blank c \<longleftrightarrow> c = 0x20 \<or> c = 0x09"

abbreviation quote :: u8 where "quote \<equiv> 0x22"
abbreviation backslash :: u8 where "backslash \<equiv> 0x5C"

section \<open>Splitting a line\<close>

definition FINSH_ARG_MAX :: nat where "FINSH_ARG_MAX = 8"

function strip_blanks :: "nat \<Rightarrow> nat \<Rightarrow> buffer \<Rightarrow> nat \<Rightarrow> (buffer \<times> nat) option" where
  "strip_blanks cmd len buf pos = do {
     c \<leftarrow> rd buf (cmd + pos);
     (if blank c \<and> pos < len then strip_blanks cmd len (buf[cmd + pos := 0]) (Suc pos) else Some (buf, pos))
   }"
  by pat_completeness auto
termination by (relation "measure (\<lambda>(cmd, len, buf, pos). len - pos)") auto

function skip_string :: "nat \<Rightarrow> nat \<Rightarrow> buffer \<Rightarrow> nat \<Rightarrow> nat option" where
  "skip_string cmd len buf pos = do {
     c \<leftarrow> rd buf (cmd + pos);
     (if c \<noteq> quote \<and> pos < len then do {
        pos \<leftarrow> (if c = backslash then do {
                  d \<leftarrow> rd buf (cmd + pos + 1);
                  Some (if d = quote then pos + 1 else pos)
                }
                else Some pos);
        skip_string cmd len buf (pos + 1)
      }
      else Some pos)
   }"
  by pat_completeness auto
termination by (relation "measure (\<lambda>(cmd, len, buf, pos). len - pos)") (auto split: if_splits)

function skip_word :: "nat \<Rightarrow> nat \<Rightarrow> buffer \<Rightarrow> nat \<Rightarrow> nat option" where
  "skip_word cmd len buf pos = do {
     c \<leftarrow> rd buf (cmd + pos);
     (if \<not> blank c \<and> pos < len then skip_word cmd len buf (Suc pos) else Some pos)
   }"
  by pat_completeness auto
termination by (relation "measure (\<lambda>(cmd, len, buf, pos). len - pos)") auto

declare strip_blanks.simps [simp del] skip_string.simps [simp del] skip_word.simps [simp del]

lemma strip_blanks_result:
  assumes "strip_blanks cmd len buf pos = Some (buf', pos')"
  shows "pos \<le> pos'" "pos' < len \<Longrightarrow> cmd + pos' < length buf' \<and> \<not> blank (buf' ! (cmd + pos'))"
proof -
  have "pos \<le> pos' \<and> (pos' < len \<longrightarrow> cmd + pos' < length buf' \<and> \<not> blank (buf' ! (cmd + pos')))"
    using assms
  proof (induction cmd len buf pos rule: strip_blanks.induct)
    case (1 cmd len buf pos)
    from 1(2) obtain c where c: "rd buf (cmd + pos) = Some c" by (subst (asm) strip_blanks.simps) auto
    show ?case
    proof (cases "blank c \<and> pos < len")
      case True
      then show ?thesis
        using 1(1) [OF c True] 1(2) c by (subst (asm) (2) strip_blanks.simps) (simp add: Suc_le_eq)
    next
      case False
      then have "buf' = buf" "pos' = pos"
        using 1(2) c by (subst (asm) strip_blanks.simps, auto split: if_splits)+
      then show ?thesis using False c by (auto simp: rd_def split: if_splits)
    qed
  qed
  then show "pos \<le> pos'" "pos' < len \<Longrightarrow> cmd + pos' < length buf' \<and> \<not> blank (buf' ! (cmd + pos'))" by auto
qed

lemma skip_string_result: "skip_string cmd len buf pos = Some pos' \<Longrightarrow> pos \<le> pos'"
proof (induction cmd len buf pos rule: skip_string.induct)
  case (1 cmd len buf pos)
  from 1(2) obtain c where c: "rd buf (cmd + pos) = Some c" by (subst (asm) skip_string.simps) auto
  show ?case
  proof (cases "c \<noteq> quote \<and> pos < len")
    case True
    with 1(2) c obtain p where p: "(if c = backslash then do {
                  d \<leftarrow> rd buf (cmd + pos + 1);
                  Some (if d = quote then pos + 1 else pos)
                }
                else Some pos) = Some p" "skip_string cmd len buf (p + 1) = Some pos'"
      by (subst (asm) skip_string.simps) (auto simp del: One_nat_def)
    from 1(1) [OF c True p] p(1) show ?thesis by (auto split: if_splits)
  next
    case False
    then show ?thesis using 1(2) c by (subst (asm) skip_string.simps) (auto split: if_splits)
  qed
qed

lemma skip_word_le: "skip_word cmd len buf pos = Some pos' \<Longrightarrow> pos \<le> pos'"
proof (induction cmd len buf pos rule: skip_word.induct)
  case (1 cmd len buf pos)
  from 1(2) obtain c where c: "rd buf (cmd + pos) = Some c" by (subst (asm) skip_word.simps) auto
  then show ?case
    using 1(1) [OF c] 1(2) by (auto simp: skip_word.simps [of cmd len buf pos] split: if_splits)
qed

lemma skip_word_less:
  assumes "skip_word cmd len buf pos = Some pos'" "pos < len" "\<not> blank (buf ! (cmd + pos))"
  shows "pos < pos'"
  using assms skip_word_le [of cmd len buf "Suc pos" pos']
  by (auto simp: skip_word.simps [of cmd len buf pos] rd_def split: if_splits)

text \<open>The routine itself: the changed line, the offsets of the arguments, and what is printed.\<close>

definition too_many :: "buffer \<Rightarrow> nat list \<Rightarrow> u8 list option" where
  "too_many buf argv = do {
     strs \<leftarrow> those (map (c_str buf) argv);
     Some (map of_char ''Too many args ! We only Use:'' @ [0x0A] @ concat (map (\<lambda>a. a @ [0x20]) strs) @ [0x0A])
   }"

function split_loop :: "nat \<Rightarrow> nat \<Rightarrow> buffer \<Rightarrow> nat \<Rightarrow> nat list \<Rightarrow> (buffer \<times> nat list \<times> u8 list) option" where
  "split_loop cmd len buf pos argv =
     (if pos < len then do {
        (buf, pos) \<leftarrow> strip_blanks cmd len buf pos;
        (if FINSH_ARG_MAX \<le> length argv then do {
           out \<leftarrow> too_many buf argv;
           Some (buf, argv, out)
         }
         else if len \<le> pos then Some (buf, argv, [])
         else do {
           c \<leftarrow> rd buf (cmd + pos);
           (if c = quote then do {
              let pos = pos + 1;
              let argv = argv @ [cmd + pos];
              pos \<leftarrow> skip_string cmd len buf pos;
              (if len \<le> pos then Some (buf, argv, [])
               else split_loop cmd len (buf[cmd + pos := 0]) (pos + 1) argv)
            }
            else do {
              let argv = argv @ [cmd + pos];
              pos \<leftarrow> skip_word cmd len buf pos;
              (if len \<le> pos then Some (buf, argv, []) else split_loop cmd len buf pos argv)
            })
         })
      }
      else Some (buf, argv, []))"
  by pat_completeness auto
termination
proof (relation "measure (\<lambda>(cmd, len, buf, pos, argv). len - pos)", goal_cases)
  case (2 cmd len buf pos argv x buf' pos' c pos1 argv1 pos2)
  then show ?case using strip_blanks_result(1) [of cmd len buf pos buf' pos'] skip_string_result [of cmd len buf' pos1 pos2]
    by simp
next
  case (3 cmd len buf pos argv x buf' pos' c argv1 pos2)
  then show ?case
    using strip_blanks_result [of cmd len buf pos buf' pos'] skip_word_less [of cmd len buf' pos' pos2] by simp
qed simp

declare split_loop.simps [simp del]

definition msh_split :: "buffer \<Rightarrow> nat \<Rightarrow> nat \<Rightarrow> (buffer \<times> nat list \<times> u8 list) option" where
  "msh_split buf cmd len = split_loop cmd len buf 0 []"

section \<open>What the arguments are\<close>

text \<open>The length of a string up to its closing quote; \<open>\"\<close> does not close it.\<close>

fun str_len :: "u8 list \<Rightarrow> nat" where
  "str_len [] = 0"
| "str_len (c # cs) =
     (if c = quote then 0
      else if c = backslash \<and> cs \<noteq> [] \<and> hd cs = quote then Suc (Suc (str_len (tl cs)))
      else Suc (str_len cs))"

function args :: "u8 list \<Rightarrow> u8 list list" where
  "args cs =
     (case dropWhile blank cs of
        [] \<Rightarrow> []
      | d # ds \<Rightarrow>
          if d = quote then take (str_len ds) ds # args (drop (Suc (str_len ds)) ds)
          else takeWhile (\<lambda>c. \<not> blank c) (d # ds) # args (dropWhile (\<lambda>c. \<not> blank c) (d # ds)))"
  by pat_completeness auto
termination
proof (relation "measure length", goal_cases)
  case (2 cs d ds)
  then have "length (d # ds) \<le> length cs" by (metis length_dropWhile_le)
  then show ?case by simp
next
  case (3 cs d ds)
  then have "\<not> blank d" by (metis hd_dropWhile list.discI list.sel(1))
  moreover have "length (d # ds) \<le> length cs" using 3 by (metis length_dropWhile_le)
  ultimately show ?case using length_dropWhile_le [of "\<lambda>c. \<not> blank c" ds] by simp
qed simp

declare args.simps [simp del]

lemma str_len_le: "str_len cs \<le> length cs"
proof (induction cs rule: str_len.induct)
  case (2 c cs)
  then show ?case by (cases cs) auto
qed simp

text \<open>The loops on a line that is given as what lies before the position, the text from the
  position to the end, and the terminating zero with what follows it.\<close>

lemma rd_at [simp]:
  "length p = n \<Longrightarrow> rd (p @ c # q) n = Some c"
  by (auto simp: rd_def)

lemma not_blank_zero [simp]: "\<not> blank 0" by (simp add: blank_def)

lemma strip_blanks_spec:
  assumes "length p = cmd + pos" "len = pos + length cs"
  shows "strip_blanks cmd len (p @ cs @ 0 # q) pos =
    Some (p @ replicate (length (takeWhile blank cs)) 0 @ dropWhile blank cs @ 0 # q, pos + length (takeWhile blank cs))"
  using assms
proof (induction cs arbitrary: p pos)
  case Nil
  then show ?case by (subst strip_blanks.simps) simp
next
  case (Cons c cs)
  show ?case
  proof (cases "blank c")
    case True
    have "strip_blanks cmd len ((p @ [0]) @ cs @ 0 # q) (Suc pos) =
        Some ((p @ [0]) @ replicate (length (takeWhile blank cs)) 0 @ dropWhile blank cs @ 0 # q,
          Suc pos + length (takeWhile blank cs))"
      by (rule Cons.IH) (use Cons.prems in simp_all)
    then show ?thesis
      using Cons.prems True
      by (subst strip_blanks.simps) (simp add: list_update_append)
  next
    case False
    then show ?thesis using Cons.prems by (subst strip_blanks.simps) simp
  qed
qed

lemma skip_word_spec:
  assumes "length p = cmd + pos" "len = pos + length cs"
  shows "skip_word cmd len (p @ cs @ 0 # q) pos = Some (pos + length (takeWhile (\<lambda>c. \<not> blank c) cs))"
  using assms
proof (induction cs arbitrary: p pos)
  case Nil
  then show ?case by (subst skip_word.simps) simp
next
  case (Cons c cs)
  have "skip_word cmd len ((p @ [c]) @ cs @ 0 # q) (Suc pos) =
      Some (Suc pos + length (takeWhile (\<lambda>c. \<not> blank c) cs))"
    by (rule Cons.IH) (use Cons.prems in simp_all)
  then show ?case
    using Cons.prems by (subst skip_word.simps) simp
qed

lemma skip_string_spec:
  assumes "length p = cmd + pos" "len = pos + length cs"
  shows "skip_string cmd len (p @ cs @ 0 # q) pos = Some (pos + str_len cs)"
  using assms
proof (induction cs arbitrary: p pos rule: str_len.induct)
  case 1
  then show ?case by (subst skip_string.simps) simp
next
  case (2 c cs)
  show ?case
  proof (cases "c = backslash \<and> cs \<noteq> [] \<and> hd cs = quote")
    case True
    then obtain ds where ds: "cs = quote # ds" by (cases cs) auto
    have "skip_string cmd len ((p @ [backslash, quote]) @ ds @ 0 # q) (pos + 2) = Some (pos + 2 + str_len ds)"
      using 2(1) [of "p @ [backslash, quote]" "pos + 2"] 2(3,4) True by (simp add: ds)
    then show ?thesis
      using 2(3,4) True rd_at [of "p @ [backslash]" "Suc (cmd + pos)" quote "ds @ 0 # q"]
      by (subst skip_string.simps) (simp add: ds)
  next
    case False
    have "skip_string cmd len ((p @ [c]) @ cs @ 0 # q) (Suc pos) = Some (Suc pos + str_len cs)" if "c \<noteq> quote"
      using 2(2) [OF that False, of "p @ [c]" "Suc pos"] 2(3,4) by simp
    moreover have "rd (p @ c # cs @ 0 # q) (Suc (cmd + pos)) = Some (hd (cs @ [0]))"
      using rd_at [of "p @ [c]" "Suc (cmd + pos)" "hd (cs @ [0])" "tl (cs @ [0]) @ q"] 2(3) by (cases cs) auto
    moreover have "hd (cs @ [0]) = quote \<longleftrightarrow> cs \<noteq> [] \<and> hd cs = quote" by (cases cs) auto
    ultimately show ?thesis
      using 2(3,4) False by (subst skip_string.simps) (auto simp del: Option_bind_Some_iff)
  qed
qed

lemma takeWhile_zero: "0 \<notin> set s \<Longrightarrow> takeWhile (\<lambda>c. c \<noteq> 0) (s @ 0 # q) = s" for s :: "u8 list"
  by (induction s) auto

lemma c_str_at:
  "length p = n \<Longrightarrow> 0 \<notin> set s \<Longrightarrow> c_str (p @ s @ 0 # q) n = Some s"
  by (auto simp: c_str_def takeWhile_zero)

lemma c_str_some: "n \<le> length p \<Longrightarrow> \<exists>s. c_str (p @ 0 # q) n = Some s"
  by (simp add: c_str_def)

lemma too_many_some: "\<forall>a \<in> set argv. a \<le> length p \<Longrightarrow> \<exists>out. too_many (p @ 0 # q) argv = Some out"
proof (induction argv)
  case (Cons a argv)
  then show ?case using c_str_some [of a p q] by (auto simp: too_many_def)
qed (simp add: too_many_def)

lemma str_len_quote: "str_len cs < length cs \<Longrightarrow> cs ! str_len cs = quote"
proof (induction cs rule: str_len.induct)
  case (2 c cs)
  then show ?case by (cases cs) (auto split: if_splits)
qed simp

lemma args_blank: "\<forall>c \<in> set b. blank c \<Longrightarrow> args (b @ cs) = args cs"
  by (simp add: args.simps [of "b @ cs"] args.simps [of cs] dropWhile_append2)

lemma args_Nil: "args [] = []"
  by (simp add: args.simps)

lemma args_Cons:
  "\<not> blank d \<Longrightarrow> args (d # ds) =
     (if d = quote then take (str_len ds) ds # args (drop (Suc (str_len ds)) ds)
      else (d # takeWhile (\<lambda>c. \<not> blank c) ds) # args (dropWhile (\<lambda>c. \<not> blank c) ds))"
  by (simp add: args.simps [of "d # ds"])

lemma strip_blanks_parts:
  assumes "length p = cmd + pos" "len = pos + length b + length ds" "\<forall>c \<in> set b. blank c"
    and "ds = [] \<or> \<not> blank (hd ds)"
  shows "strip_blanks cmd len (p @ b @ ds @ 0 # q) pos =
    Some (p @ replicate (length b) 0 @ ds @ 0 # q, pos + length b)"
proof -
  have "takeWhile blank (b @ ds) = b" "dropWhile blank (b @ ds) = ds"
    using assms(3,4) by (cases ds; simp add: takeWhile_append2 dropWhile_append2)+
  then show ?thesis using strip_blanks_spec [of p cmd pos len "b @ ds" q] assms(1,2) by simp
qed

text \<open>One round of the loop.\<close>

lemma split_step:
  fixes d :: u8 and b ds p q :: buffer
  defines "p1 \<equiv> p @ replicate (length b) 0"
  assumes len: "length p = cmd + pos" "len = pos + length b + length (d # ds)"
    and b: "\<forall>c \<in> set b. blank c" and d: "\<not> blank d" and a: "length argv < FINSH_ARG_MAX"
  shows "split_loop cmd len (p @ b @ (d # ds) @ 0 # q) pos argv =
    (if d = quote then
       if str_len ds < length ds
       then split_loop cmd len ((p1 @ [d] @ take (str_len ds) ds @ [0]) @ drop (Suc (str_len ds)) ds @ 0 # q)
              (pos + length b + Suc (Suc (str_len ds))) (argv @ [Suc (length p1)])
       else Some (p1 @ (d # ds) @ 0 # q, argv @ [Suc (length p1)], [])
     else
       let w = takeWhile (\<lambda>c. \<not> blank c) ds
       in if length w < length ds
          then split_loop cmd len ((p1 @ d # w) @ dropWhile (\<lambda>c. \<not> blank c) ds @ 0 # q)
                 (pos + length b + Suc (length w)) (argv @ [length p1])
          else Some (p1 @ (d # ds) @ 0 # q, argv @ [length p1], []))"
proof -
  let ?w = "takeWhile (\<lambda>c. \<not> blank c) ds"
  have p1: "length p1 = cmd + (pos + length b)" by (simp add: p1_def len)
  have strip: "strip_blanks cmd len (p @ b @ (d # ds) @ 0 # q) pos = Some (p1 @ (d # ds) @ 0 # q, pos + length b)"
    using strip_blanks_parts [of p cmd pos len b "d # ds" q] len b d by (simp add: p1_def)
  have rd: "rd (p1 @ (d # ds) @ 0 # q) (cmd + (pos + length b)) = Some d"
    using rd_at [of p1] p1 by simp
  have word: "skip_word cmd len (p1 @ (d # ds) @ 0 # q) (pos + length b) = Some (pos + length b + Suc (length ?w))"
    using skip_word_spec [of p1 cmd "pos + length b" len "d # ds" q] p1 len d by simp
  have str: "skip_string cmd len (p1 @ (d # ds) @ 0 # q) (Suc (pos + length b)) = Some (Suc (pos + length b + str_len ds))"
    using skip_string_spec [of "p1 @ [d]" cmd "Suc (pos + length b)" len ds q] p1 len by simp
  have upd: "(p1 @ (d # ds) @ 0 # q)[cmd + Suc (pos + length b + str_len ds) := 0] =
      (p1 @ [d] @ take (str_len ds) ds @ [0]) @ drop (Suc (str_len ds)) ds @ 0 # q" if "str_len ds < length ds"
  proof -
    have e: "cmd + Suc (pos + length b + str_len ds) = length p1 + Suc (str_len ds)" by (simp add: p1)
    show ?thesis
      unfolding e using that by (simp add: list_update_append upd_conv_take_nth_drop)
  qed
  have "d # ds @ 0 # q = (d # ?w) @ dropWhile (\<lambda>c. \<not> blank c) ds @ 0 # q" by simp
  then have w: "p1 @ (d # ds) @ 0 # q = (p1 @ d # ?w) @ dropWhile (\<lambda>c. \<not> blank c) ds @ 0 # q"
    by (simp del: takeWhile_dropWhile_id)
  have lt: "pos < len" "\<not> len \<le> pos + length b" "\<not> FINSH_ARG_MAX \<le> length argv"
    using len(2) a by simp_all
  have main: "split_loop cmd len (p @ b @ (d # ds) @ 0 # q) pos argv =
    (if d = quote then
       if len \<le> Suc (pos + length b + str_len ds) then Some (p1 @ (d # ds) @ 0 # q, argv @ [Suc (length p1)], [])
       else split_loop cmd len ((p1 @ (d # ds) @ 0 # q)[cmd + Suc (pos + length b + str_len ds) := 0])
              (Suc (pos + length b + str_len ds) + 1) (argv @ [Suc (length p1)])
     else if len \<le> pos + length b + Suc (length ?w) then Some (p1 @ (d # ds) @ 0 # q, argv @ [length p1], [])
       else split_loop cmd len (p1 @ (d # ds) @ 0 # q) (pos + length b + Suc (length ?w)) (argv @ [length p1]))"
    using lt strip rd word str p1
    by (cases "d = quote"; subst split_loop.simps)
      (simp_all add: Let_def del: Option_bind_Some_iff append.simps append_Cons)
  have "len \<le> Suc (pos + length b + str_len ds) \<longleftrightarrow> \<not> str_len ds < length ds"
      "len \<le> pos + length b + Suc (length ?w) \<longleftrightarrow> \<not> length ?w < length ds"
    using len(2) by auto
  note main = main [unfolded this]
  show ?thesis
  proof (cases "d = quote")
    case True
    have "Suc (pos + length b + str_len ds) + 1 = pos + length b + Suc (Suc (str_len ds))" by simp
    then show ?thesis using True main upd by (cases "str_len ds < length ds") (simp_all del: append.simps append_Cons)
  next
    case False
    then show ?thesis unfolding Let_def using main w by (simp del: append.simps append_Cons takeWhile_dropWhile_id)
  qed
qed

text \<open>The arguments that are found behind a position of the line.\<close>

definition found :: "buffer \<Rightarrow> buffer \<Rightarrow> buffer \<Rightarrow> nat list \<Rightarrow> (buffer \<times> nat list \<times> u8 list) option \<Rightarrow> bool" where
  "found p cs q argv r \<longleftrightarrow> (\<exists>t ps out. r = Some (p @ t @ 0 # q, argv @ ps, out) \<and> length t = length cs \<and>
     (cs = [] \<or> blank (hd cs) \<longrightarrow> hd (t @ [0]) = 0) \<and>
     map (c_str (p @ t @ 0 # q)) ps = map Some (take (FINSH_ARG_MAX - length argv) (args cs)))"

lemma foundI:
  assumes "r = Some (p @ t @ 0 # q, argv @ ps, out)" "length t = length cs"
    "cs = [] \<or> blank (hd cs) \<Longrightarrow> hd (t @ [0]) = 0"
    "map (c_str (p @ t @ 0 # q)) ps = map Some (take (FINSH_ARG_MAX - length argv) (args cs))"
  shows "found p cs q argv r"
  using assms by (auto simp: found_def)

text \<open>What is found behind the first argument is found, with it, from its beginning on.\<close>

lemma found_string:
  assumes "found (p @ replicate (length b) 0 @ [quote] @ s @ [0]) cs q (argv @ [Suc (length p + length b)]) r"
    and "\<forall>c \<in> set b. blank c" "0 \<notin> set s" "length argv < FINSH_ARG_MAX"
    and "args (b @ quote # s @ x # cs) = s # args cs"
  shows "found p (b @ quote # s @ x # cs) q argv r"
proof -
  let ?p = "p @ replicate (length b) 0 @ [quote] @ s @ [0]"
  obtain t ps out where t: "r = Some (?p @ t @ 0 # q, (argv @ [Suc (length p + length b)]) @ ps, out)"
      "length t = length cs"
      "map (c_str (?p @ t @ 0 # q)) ps = map Some (take (FINSH_ARG_MAX - Suc (length argv)) (args cs))"
    using assms(1) by (auto simp: found_def)
  have "c_str (?p @ t @ 0 # q) (Suc (length p + length b)) = Some s"
    using c_str_at [of "p @ replicate (length b) 0 @ [quote]" "Suc (length p + length b)" s "t @ 0 # q"] assms(3) by simp
  moreover obtain j where "FINSH_ARG_MAX - length argv = Suc j" "FINSH_ARG_MAX - Suc (length argv) = j"
    using assms(4) by (cases "FINSH_ARG_MAX - length argv") auto
  ultimately have m: "map (c_str (?p @ t @ 0 # q)) (Suc (length p + length b) # ps) =
      map Some (take (FINSH_ARG_MAX - length argv) (s # args cs))"
    using t(3) by simp
  show ?thesis
  proof (rule foundI)
    show "r = Some (p @ (replicate (length b) 0 @ [quote] @ s @ [0] @ t) @ 0 # q, argv @ (Suc (length p + length b) # ps), out)"
      using t(1) by simp
    show "length (replicate (length b) 0 @ [quote] @ s @ [0] @ t) = length (b @ quote # s @ x # cs)"
      using t(2) by simp
    show "hd ((replicate (length b) 0 @ [quote] @ s @ [0] @ t) @ [0]) = 0"
      if "b @ quote # s @ x # cs = [] \<or> blank (hd (b @ quote # s @ x # cs))"
      using that by (cases b) (auto simp: blank_def)
    show "map (c_str (p @ (replicate (length b) 0 @ [quote] @ s @ [0] @ t) @ 0 # q)) (Suc (length p + length b) # ps) =
        map Some (take (FINSH_ARG_MAX - length argv) (args (b @ quote # s @ x # cs)))"
      unfolding assms(5) using m by (simp only: append_assoc)
  qed
qed

lemma found_word:
  assumes "found (p @ replicate (length b) 0 @ w) cs q (argv @ [length p + length b]) r"
    and "\<forall>c \<in> set b. blank c" "0 \<notin> set w" "w \<noteq> []" "\<not> blank (hd w)" "cs = [] \<or> blank (hd cs)" "length argv < FINSH_ARG_MAX"
    and "args (b @ w @ cs) = w # args cs"
  shows "found p (b @ w @ cs) q argv r"
proof -
  let ?p = "p @ replicate (length b) 0 @ w"
  obtain t ps out where t: "r = Some (?p @ t @ 0 # q, (argv @ [length p + length b]) @ ps, out)"
      "length t = length cs" "hd (t @ [0]) = 0"
      "map (c_str (?p @ t @ 0 # q)) ps = map Some (take (FINSH_ARG_MAX - Suc (length argv)) (args cs))"
    using assms(1,6) by (auto simp: found_def)
  obtain z where "t @ 0 # q = 0 # z" using t(3) by (cases t) auto
  then have "c_str (?p @ t @ 0 # q) (length p + length b) = Some w"
    using c_str_at [of "p @ replicate (length b) 0" "length p + length b" w z] assms(3) by simp
  moreover obtain j where "FINSH_ARG_MAX - length argv = Suc j" "FINSH_ARG_MAX - Suc (length argv) = j"
    using assms(7) by (cases "FINSH_ARG_MAX - length argv") auto
  ultimately have m: "map (c_str (?p @ t @ 0 # q)) ((length p + length b) # ps) =
      map Some (take (FINSH_ARG_MAX - length argv) (w # args cs))"
    using t(4) by simp
  show ?thesis
  proof (rule foundI)
    show "r = Some (p @ (replicate (length b) 0 @ w @ t) @ 0 # q, argv @ ((length p + length b) # ps), out)"
      using t(1) by simp
    show "length (replicate (length b) 0 @ w @ t) = length (b @ w @ cs)" using t(2) by simp
    show "hd ((replicate (length b) 0 @ w @ t) @ [0]) = 0" if "b @ w @ cs = [] \<or> blank (hd (b @ w @ cs))"
      using that assms(4,5) by (cases b) auto
    show "map (c_str (p @ (replicate (length b) 0 @ w @ t) @ 0 # q)) ((length p + length b) # ps) =
        map Some (take (FINSH_ARG_MAX - length argv) (args (b @ w @ cs)))"
      unfolding assms(8) using m by (simp only: append_assoc)
  qed
qed

lemma found_end: "found p [] q argv (Some (p @ 0 # q, argv, []))"
  by (rule foundI [where t = "[]" and ps = "[]" and out = "[]"]) (simp_all add: args_Nil)

lemma split_loop_spec:
  assumes "length p = cmd + pos" "len = pos + length cs" "0 \<notin> set cs" "length argv \<le> FINSH_ARG_MAX"
    and "\<forall>a \<in> set argv. a \<le> length p"
  shows "found p cs q argv (split_loop cmd len (p @ cs @ 0 # q) pos argv)"
  using assms
proof (induction "length cs" arbitrary: cs p pos argv rule: less_induct)
  case less
  note len = less.prems(1,2) and nz = less.prems(3) and argc = less.prems(4) and ptrs = less.prems(5)
  define b ds where "b = takeWhile blank cs" and "ds = dropWhile blank cs"
  have cs: "cs = b @ ds" and b: "\<forall>c \<in> set b. blank c"
    by (auto simp: b_def ds_def dest: set_takeWhileD)
  have nb: "ds = [] \<or> \<not> blank (hd ds)" using hd_dropWhile [of blank cs] unfolding ds_def by blast
  note strip = strip_blanks_parts [of p cmd pos len b ds q, OF len(1) _ b nb]
  consider "cs = []" | "cs \<noteq> []" "ds = [] \<or> FINSH_ARG_MAX \<le> length argv" | "ds \<noteq> []" "length argv < FINSH_ARG_MAX"
    using not_less by blast
  then show ?case
  proof cases
    case 1
    then show ?thesis using len by (subst split_loop.simps) (simp add: found_end)
  next
    case 2
    let ?p = "p @ replicate (length b) 0 @ ds"
    have "\<forall>a \<in> set argv. a \<le> length ?p" using ptrs by auto
    from too_many_some [OF this, of q] obtain out where out: "too_many (?p @ 0 # q) argv = Some out" by blast
    have st: "strip_blanks cmd len (p @ cs @ 0 # q) pos = Some (?p @ 0 # q, pos + length b)"
      using strip len(2) by (simp add: cs)
    have "pos < len" "FINSH_ARG_MAX \<le> length argv \<or> len \<le> pos + length b" using 2 len(2) by (auto simp: cs)
    then have loop: "split_loop cmd len (p @ cs @ 0 # q) pos argv =
        Some (?p @ 0 # q, argv, if FINSH_ARG_MAX \<le> length argv then out else [])"
      using out
      by (cases "FINSH_ARG_MAX \<le> length argv"; subst split_loop.simps) (simp_all add: st del: Option_bind_Some_iff)
    show ?thesis
    proof (rule foundI [where t = "replicate (length b) 0 @ ds" and ps = "[]"])
      show "split_loop cmd len (p @ cs @ 0 # q) pos argv = Some (p @ (replicate (length b) 0 @ ds) @ 0 # q,
          argv @ [], if FINSH_ARG_MAX \<le> length argv then out else [])"
        using loop by simp
      show "length (replicate (length b) 0 @ ds) = length cs" by (simp add: cs)
      show "hd ((replicate (length b) 0 @ ds) @ [0]) = 0" if "cs = [] \<or> blank (hd cs)"
        using that 2(1) nb by (cases b) (auto simp: cs)
      show "map (c_str (p @ (replicate (length b) 0 @ ds) @ 0 # q)) [] =
          map Some (take (FINSH_ARG_MAX - length argv) (args cs))"
        using 2(2) args_blank [OF b, of ds] by (auto simp: cs args_Nil)
    qed
  next
    case 3
    obtain d es where ds: "ds = d # es" "\<not> blank d" using 3(1) nb by (cases ds) auto
    have len2: "len = pos + length b + length (d # es)" using len(2) by (simp add: cs ds)
    have args: "args (b @ d # es) = args (d # es)" using args_blank [OF b] .
    note step = split_step [of p cmd pos len b d es argv q, OF len(1) len2 b ds(2) 3(2)]
    have es: "0 \<notin> set es" "d \<noteq> 0" using nz by (auto simp: cs ds)
    show ?thesis
    proof (cases "d = quote")
      case True
      define s where "s = take (str_len es) es"
      have s: "0 \<notin> set s" using es(1) by (auto simp: s_def dest: in_set_takeD)
      show ?thesis
      proof (cases "str_len es < length es")
        case lt: True
        define r where "r = drop (Suc (str_len es)) es"
        have e: "es = s @ quote # r"
          using id_take_nth_drop [OF lt] str_len_quote [OF lt] by (simp add: s_def r_def)
        have l: "length s = str_len es" using lt by (simp add: s_def)
        have "args (b @ quote # es) = s # args r"
          using args ds(2) True by (simp add: args_Cons s_def r_def)
        then have a: "args (b @ quote # s @ quote # r) = s # args r" unfolding e .
        have "found (p @ replicate (length b) 0 @ [quote] @ s @ [0]) r q (argv @ [Suc (length p + length b)])
            (split_loop cmd len ((p @ replicate (length b) 0 @ [quote] @ s @ [0]) @ r @ 0 # q)
              (pos + length b + Suc (Suc (str_len es))) (argv @ [Suc (length p + length b)]))"
          by (rule less.hyps) (use len len2 es ptrs 3(2) in \<open>auto simp: cs ds e l\<close>)
        from found_string [OF this b s 3(2) a] show ?thesis
          using step True lt by (simp add: cs ds e [symmetric] s_def [symmetric] r_def [symmetric])
      next
        case False
        then have l: "str_len es = length es" using str_len_le [of es] by simp
        have "c_str ((p @ replicate (length b) 0 @ [quote]) @ es @ 0 # q) (Suc (length p + length b)) = Some es"
          by (rule c_str_at) (use es in simp_all)
        moreover have "args (b @ quote # es) = [es]" using args ds(2) True l by (simp add: args_Cons args_Nil)
        moreover obtain j where "FINSH_ARG_MAX - length argv = Suc j"
          using 3(2) by (cases "FINSH_ARG_MAX - length argv") auto
        ultimately have m: "map (c_str ((p @ replicate (length b) 0 @ [quote]) @ es @ 0 # q)) [Suc (length p + length b)] =
            map Some (take (FINSH_ARG_MAX - length argv) (args (b @ quote # es)))"
          by simp
        show ?thesis
        proof (rule foundI [where t = "replicate (length b) 0 @ quote # es" and ps = "[Suc (length p + length b)]"])
          show "split_loop cmd len (p @ cs @ 0 # q) pos argv =
              Some (p @ (replicate (length b) 0 @ quote # es) @ 0 # q, argv @ [Suc (length p + length b)], [])"
            using step True l by (simp add: cs ds)
          show "length (replicate (length b) 0 @ quote # es) = length cs" by (simp add: cs ds)
          show "hd ((replicate (length b) 0 @ quote # es) @ [0]) = 0" if "cs = [] \<or> blank (hd cs)"
            using that ds True by (cases b) (auto simp: cs)
          show "map (c_str (p @ (replicate (length b) 0 @ quote # es) @ 0 # q)) [Suc (length p + length b)] =
              map Some (take (FINSH_ARG_MAX - length argv) (args cs))"
            using m True by (simp add: cs ds)
        qed
      qed
    next
      case False
      define w where "w = takeWhile (\<lambda>c. \<not> blank c) es"
      define r where "r = dropWhile (\<lambda>c. \<not> blank c) es"
      have e: "es = w @ r" by (simp add: w_def r_def)
      have "args (b @ d # es) = (d # w) # args r"
        using args ds(2) False by (simp add: args_Cons w_def r_def)
      then have a: "args (b @ (d # w) @ r) = (d # w) # args r" unfolding e by simp
      have w: "0 \<notin> set (d # w)" using es by (simp add: e)
      have rb: "r = [] \<or> blank (hd r)"
        using hd_dropWhile [of "\<lambda>c. \<not> blank c" es] unfolding r_def by blast
      have "found (p @ replicate (length b) 0 @ d # w) r q (argv @ [length p + length b])
          (if length w < length es
           then split_loop cmd len ((p @ replicate (length b) 0 @ d # w) @ r @ 0 # q)
             (pos + length b + Suc (length w)) (argv @ [length p + length b])
           else Some ((p @ replicate (length b) 0 @ d # w) @ r @ 0 # q, argv @ [length p + length b], []))"
      proof (cases "length w < length es")
        case True
        then show ?thesis
          unfolding if_P [OF True] by (intro less.hyps) (use len len2 es ptrs 3(2) in \<open>auto simp: cs ds e\<close>)
      next
        case False
        then have "r = []" by (simp add: e)
        then show ?thesis using False found_end [of "p @ replicate (length b) 0 @ d # w" q "argv @ [length p + length b]"] by simp
      qed
      from found_word [OF this b w _ _ rb 3(2) a] ds(2) show ?thesis
        using step False unfolding w_def [symmetric] r_def [symmetric] Let_def
        by (cases "r = []") (simp_all add: cs ds e)
    qed
  qed
qed

text \<open>The whole line: the strings at the offsets are the arguments, at most eight.\<close>

lemma msh_split_spec:
  assumes "length p = cmd" "0 \<notin> set cs"
  shows "\<exists>t argv out. msh_split (p @ cs @ 0 # q) cmd (length cs) = Some (p @ t @ 0 # q, argv, out) \<and>
    length t = length cs \<and> map (c_str (p @ t @ 0 # q)) argv = map Some (take FINSH_ARG_MAX (args cs))"
  using split_loop_spec [of p cmd 0 "length cs" cs "[]" q] assms
  by (auto simp: found_def msh_split_def)

section \<open>Running a command\<close>

text \<open>An entry of the table of commands; its strings are given without the terminating zero.  The
  commands of the interpreter are the entries whose names begin with \<open>__cmd_\<close>.\<close>

record 'f finsh_syscall =
  sc_name :: "u8 list"
  sc_desc :: "u8 list"
  sc_func :: 'f

definition cmd_mark :: "u8 list" where "cmd_mark = map of_char ''__cmd_''"

text \<open>Whether \<^verbatim>\<open>strncmp\<close> finds two strings equal; behind its end a string reads as zero.\<close>

definition head0 :: "u8 list \<Rightarrow> u8" where "head0 s = (case s of [] \<Rightarrow> 0 | c # cs \<Rightarrow> c)"

fun strneq :: "u8 list \<Rightarrow> u8 list \<Rightarrow> nat \<Rightarrow> bool" where
  "strneq s t 0 = True"
| "strneq s t (Suc n) =
     (if head0 s \<noteq> head0 t then False else if head0 s = 0 then True else strneq (tl s) (tl t) n)"

fun msh_get_cmd :: "'f finsh_syscall list \<Rightarrow> u8 list \<Rightarrow> nat \<Rightarrow> 'f option" where
  "msh_get_cmd [] cmd sz = None"
| "msh_get_cmd (index # tbl) cmd sz =
     (if \<not> strneq (sc_name index) cmd_mark 6 then msh_get_cmd tbl cmd sz
      else if strneq (drop 6 (sc_name index)) cmd sz \<and> head0 (drop (6 + sz) (sc_name index)) = 0
      then Some (sc_func index)
      else msh_get_cmd tbl cmd sz)"

text \<open>The code of the commands: it gets the number of the arguments, their offsets and the line,
  and returns its result, the line, what it prints and the state \<open>'w\<close> of the rest of the system.\<close>

type_synonym ('f, 'w) call = "'f \<Rightarrow> nat \<Rightarrow> nat list \<Rightarrow> buffer \<Rightarrow> 'w \<Rightarrow> (int \<times> buffer \<times> u8 list \<times> 'w) option"

text \<open>\<open>None\<close> in place of the result of the command is the return value \<^verbatim>\<open>-RT_ERROR\<close>.\<close>

definition msh_exec_cmd ::
  "'f finsh_syscall list \<Rightarrow> ('f, 'w) call \<Rightarrow> buffer \<Rightarrow> nat \<Rightarrow> nat \<Rightarrow> 'w \<Rightarrow> (int option \<times> buffer \<times> u8 list \<times> 'w) option" where
  "msh_exec_cmd tbl call buf cmd len w = do {
     cmd0_size \<leftarrow> skip_word cmd len buf 0;
     (if cmd0_size = 0 then Some (None, buf, [], w)
      else case msh_get_cmd tbl (drop cmd buf) cmd0_size of
          None \<Rightarrow> Some (None, buf, [], w)
        | Some f \<Rightarrow> do {
            (buf, argv, out) \<leftarrow> msh_split buf cmd len;
            (if argv = [] then Some (None, buf, out, w)
             else do {
               (r, buf, out2, w) \<leftarrow> call f (length argv) argv buf w;
               Some (Some r, buf, out @ out2, w)
             })
          })
   }"

fun msh_trim :: "buffer \<Rightarrow> nat \<Rightarrow> nat \<Rightarrow> (nat \<times> nat) option" where
  "msh_trim buf cmd 0 = Some (cmd, 0)"
| "msh_trim buf cmd (Suc len) = do {
     c \<leftarrow> rd buf cmd;
     (if blank c then msh_trim buf (Suc cmd) len else Some (cmd, Suc len))
   }"

function first_space :: "buffer \<Rightarrow> nat \<Rightarrow> nat option" where
  "first_space buf tcmd = do {
     c \<leftarrow> rd buf tcmd;
     (if c \<noteq> 0x20 \<and> c \<noteq> 0 then first_space buf (Suc tcmd) else Some tcmd)
   }"
  by pat_completeness auto
termination by (relation "measure (\<lambda>(buf, i). length buf - i)") (auto simp: rd_def split: if_splits)

declare first_space.simps [simp del]

definition msh_exec ::
  "'f finsh_syscall list \<Rightarrow> ('f, 'w) call \<Rightarrow> buffer \<Rightarrow> nat \<Rightarrow> nat \<Rightarrow> 'w \<Rightarrow> (int \<times> buffer \<times> u8 list \<times> 'w) option" where
  "msh_exec tbl call buf cmd len w = do {
     (cmd, len) \<leftarrow> msh_trim buf cmd len;
     (if len = 0 then Some (0, buf, [], w)
      else do {
        (r, buf, out, w) \<leftarrow> msh_exec_cmd tbl call buf cmd len w;
        (case r of
           Some cmd_ret \<Rightarrow> Some (cmd_ret, buf, out, w)
         | None \<Rightarrow> do {
             tcmd \<leftarrow> first_space buf cmd;
             let buf = buf[tcmd := 0];
             name \<leftarrow> c_str buf cmd;
             Some (- 1, buf, out @ name @ map of_char '': command not found.'' @ [0x0A], w)
           })
      })
   }"

section \<open>Completion\<close>

fun str_common :: "u8 list \<Rightarrow> u8 list \<Rightarrow> nat" where
  "str_common (x # xs) (y # ys) = (if x = y then Suc (str_common xs ys) else 0)"
| "str_common xs ys = 0"

definition commands :: "'f finsh_syscall list \<Rightarrow> 'f finsh_syscall list" where
  "commands tbl = filter (\<lambda>i. strneq (sc_name i) cmd_mark 6) tbl"

definition msh_help :: "'f finsh_syscall list \<Rightarrow> u8 list" where
  "msh_help tbl =
     map of_char ''RT-Thread shell commands:'' @ [0x0A] @
     concat (map (\<lambda>i. drop 6 (sc_name i) @ replicate (16 - length (drop 6 (sc_name i))) 0x20 @
       map of_char '' - '' @ sc_desc i @ [0x0A]) (commands tbl)) @ [0x0A]"

fun complete_scan ::
  "'f finsh_syscall list \<Rightarrow> u8 list \<Rightarrow> nat \<Rightarrow> u8 list option \<Rightarrow> nat \<times> u8 list option \<times> u8 list" where
  "complete_scan [] pre min_length name_ptr = (min_length, name_ptr, [])"
| "complete_scan (index # tbl) pre min_length name_ptr =
     (if \<not> strneq (sc_name index) cmd_mark 6 then complete_scan tbl pre min_length name_ptr
      else let cmd_name = drop 6 (sc_name index)
           in if strneq pre cmd_name (length pre) then
                let (min_length, name_ptr) =
                      (if min_length = 0 then (length cmd_name, Some cmd_name) else (min_length, name_ptr));
                    len = (case name_ptr of Some n \<Rightarrow> str_common n cmd_name | None \<Rightarrow> 0);
                    min_length = (if len < min_length then len else min_length);
                    (m, n, out) = complete_scan tbl pre min_length name_ptr
                in (m, n, cmd_name @ [0x0A] @ out)
              else complete_scan tbl pre min_length name_ptr)"

text \<open>The name is at least as long as the part that \<^verbatim>\<open>rt_strncpy\<close> copies.\<close>

definition msh_auto_complete :: "'f finsh_syscall list \<Rightarrow> buffer \<Rightarrow> (buffer \<times> u8 list) option" where
  "msh_auto_complete tbl buf = do {
     c \<leftarrow> rd buf 0;
     (if c = 0 then Some (buf, msh_help tbl)
      else do {
        pre \<leftarrow> c_str buf 0;
        let (min_length, name_ptr, out) = complete_scan tbl pre 0 None;
        (case name_ptr of
           None \<Rightarrow> Some (buf, out)
         | Some n \<Rightarrow>
             if min_length \<le> length buf then Some (take min_length n @ drop min_length buf, out) else None)
      })
   }"

section \<open>Looking up and running\<close>

lemma strneq_word:
  assumes "0 \<notin> set w" "length w = n"
  shows "strneq s (w @ q) n \<longleftrightarrow> take n s = w"
  using assms
proof (induction w arbitrary: s n)
  case (Cons x w)
  then show ?case by (cases s) (auto simp: head0_def split: if_splits)
qed simp

lemma strneq_prefix:
  assumes "0 \<notin> set p"
  shows "strneq p s (length p) \<longleftrightarrow> prefix p s"
  using assms
proof (induction p arbitrary: s)
  case (Cons x p)
  then show ?case by (cases s) (auto simp: head0_def)
qed simp

lemma cmd_mark_sel: "length cmd_mark = 6" "0 \<notin> set cmd_mark"
  by (simp_all add: cmd_mark_def)

lemma marked: "strneq s cmd_mark 6 \<longleftrightarrow> take 6 s = cmd_mark"
  using strneq_word [of cmd_mark 6 s "[]"] by (simp add: cmd_mark_sel)

text \<open>The command of a name is the first entry that has this name.\<close>

definition find_cmd :: "'f finsh_syscall list \<Rightarrow> u8 list \<Rightarrow> 'f option" where
  "find_cmd tbl w = map_option sc_func (find (\<lambda>i. sc_name i = cmd_mark @ w) tbl)"

definition names_ok :: "'f finsh_syscall list \<Rightarrow> bool" where
  "names_ok tbl \<longleftrightarrow> (\<forall>i \<in> set tbl. 0 \<notin> set (sc_name i))"

lemma msh_get_cmd_spec:
  assumes "names_ok tbl" "0 \<notin> set w"
  shows "msh_get_cmd tbl (w @ q) (length w) = find_cmd tbl w"
  using assms(1)
proof (induction tbl)
  case (Cons i tbl)
  have nz: "0 \<notin> set (sc_name i)" using Cons.prems by (simp add: names_ok_def)
  have "head0 (drop (6 + length w) (sc_name i)) = 0 \<longleftrightarrow> length (sc_name i) \<le> 6 + length w"
  proof (cases "drop (6 + length w) (sc_name i)")
    case (Cons c cs)
    then have "c \<in> set (sc_name i)" by (metis in_set_dropD list.set_intros(1))
    then have "c \<noteq> 0" using nz by blast
    moreover have "6 + length w < length (sc_name i)" using Cons by (metis drop_all list.discI not_le)
    ultimately show ?thesis using Cons by (simp add: head0_def)
  qed (simp add: head0_def)
  moreover have "take 6 (sc_name i) = cmd_mark \<and> take (length w) (drop 6 (sc_name i)) = w \<and>
      length (sc_name i) \<le> 6 + length w \<longleftrightarrow> sc_name i = cmd_mark @ w"
  proof
    assume a: "take 6 (sc_name i) = cmd_mark \<and> take (length w) (drop 6 (sc_name i)) = w \<and>
      length (sc_name i) \<le> 6 + length w"
    then have "take (length w) (drop 6 (sc_name i)) = drop 6 (sc_name i)" by (intro take_all) (simp add: le_diff_conv)
    then have "drop 6 (sc_name i) = w" using a by metis
    then show "sc_name i = cmd_mark @ w" using a by (metis append_take_drop_id)
  qed (simp add: cmd_mark_sel)
  ultimately have eq: "strneq (sc_name i) cmd_mark 6 \<and> strneq (drop 6 (sc_name i)) (w @ q) (length w) \<and>
      head0 (drop (6 + length w) (sc_name i)) = 0 \<longleftrightarrow> sc_name i = cmd_mark @ w"
    unfolding marked strneq_word [OF assms(2) refl] by blast
  have "msh_get_cmd (i # tbl) (w @ q) (length w) =
      (if sc_name i = cmd_mark @ w then Some (sc_func i) else msh_get_cmd tbl (w @ q) (length w))"
    unfolding eq [symmetric] by simp
  moreover have "msh_get_cmd tbl (w @ q) (length w) = find_cmd tbl w"
    using Cons by (simp add: names_ok_def)
  ultimately show ?case by (simp add: find_cmd_def)
qed (simp add: find_cmd_def)

lemma msh_trim_spec:
  assumes "length p = cmd"
  shows "msh_trim (p @ cs @ 0 # q) cmd (length cs) =
    Some (cmd + length (takeWhile blank cs), length (dropWhile blank cs))"
  using assms
proof (induction cs arbitrary: p cmd)
  case (Cons c cs)
  have "msh_trim ((p @ [c]) @ cs @ 0 # q) (Suc cmd) (length cs) =
      Some (Suc cmd + length (takeWhile blank cs), length (dropWhile blank cs))"
    by (rule Cons.IH) (use Cons.prems in simp)
  then show ?case using Cons.prems by simp
qed simp

text \<open>The three outcomes of a line: blank, a known command, an unknown one.\<close>

definition first_word :: "u8 list \<Rightarrow> u8 list" where
  "first_word cs = takeWhile (\<lambda>c. \<not> blank c) (dropWhile blank cs)"

lemma trimmed:
  obtains b d ds where "cs = b @ d # ds" "\<forall>c \<in> set b. blank c" "\<not> blank d" | "\<forall>c \<in> set cs. blank c"
proof (cases "dropWhile blank cs")
  case Nil
  then show ?thesis using that(2) by (simp add: dropWhile_eq_Nil_conv)
next
  case (Cons d ds)
  have "cs = takeWhile blank cs @ d # ds" by (metis Cons takeWhile_dropWhile_id)
  moreover have "\<not> blank d" using hd_dropWhile [of blank cs] Cons by simp
  ultimately show ?thesis using that(1) set_takeWhileD [of _ blank cs] by blast
qed

lemma msh_exec_blank:
  assumes "\<forall>c \<in> set cs. blank c"
  shows "msh_exec tbl call (cs @ 0 # q) 0 (length cs) w = Some (0, cs @ 0 # q, [], w)"
  using msh_trim_spec [of "[]" 0 cs q] assms by (simp add: msh_exec_def dropWhile_eq_Nil_conv [THEN iffD2])

lemma exec_cmd_word:
  assumes "names_ok tbl" "0 \<notin> set (d # ds)" "\<not> blank d" "length b = cmd"
  defines "w0 \<equiv> d # takeWhile (\<lambda>c. \<not> blank c) ds"
  shows "skip_word cmd (length (d # ds)) (b @ (d # ds) @ 0 # q) 0 = Some (length w0)"
    and "msh_get_cmd tbl (drop cmd (b @ (d # ds) @ 0 # q)) (length w0) = find_cmd tbl w0"
proof -
  show "skip_word cmd (length (d # ds)) (b @ (d # ds) @ 0 # q) 0 = Some (length w0)"
    using skip_word_spec [of b cmd 0 "length (d # ds)" "d # ds" q] assms by simp
  have "0 \<notin> set w0" using assms(2) by (auto simp: w0_def dest: set_takeWhileD)
  moreover have "drop cmd (b @ (d # ds) @ 0 # q) = w0 @ dropWhile (\<lambda>c. \<not> blank c) ds @ 0 # q"
    using assms(4) by (simp add: w0_def)
  ultimately show "msh_get_cmd tbl (drop cmd (b @ (d # ds) @ 0 # q)) (length w0) = find_cmd tbl w0"
    using msh_get_cmd_spec [OF assms(1)] by simp
qed

lemma msh_exec_known:
  assumes "names_ok tbl" "0 \<notin> set cs" "first_word cs \<noteq> []" "find_cmd tbl (first_word cs) = Some f"
  shows "\<exists>buf argv out. length buf = length (cs @ 0 # q) \<and>
    map (c_str buf) argv = map Some (take FINSH_ARG_MAX (args cs)) \<and>
    msh_exec tbl call (cs @ 0 # q) 0 (length cs) w =
      map_option (\<lambda>(r, buf, o2, w). (r, buf, out @ o2, w)) (call f (length argv) argv buf w)"
proof (cases rule: trimmed [of cs])
  case (1 b d ds)
  have trim: "msh_trim (cs @ 0 # q) 0 (length cs) = Some (length b, length (d # ds))"
    using msh_trim_spec [of "[]" 0 cs q] 1 by (simp add: takeWhile_append2 dropWhile_append2)
  have fw: "first_word cs = d # takeWhile (\<lambda>c. \<not> blank c) ds"
    using 1 by (simp add: first_word_def dropWhile_append2)
  have nz: "0 \<notin> set (d # ds)" using assms(2) 1(1) by simp
  note word = exec_cmd_word [OF assms(1) nz 1(3) refl, of b q]
  obtain t argv out where t: "msh_split (b @ (d # ds) @ 0 # q) (length b) (length (d # ds)) =
        Some (b @ t @ 0 # q, argv, out)"
      "length t = length (d # ds)" "map (c_str (b @ t @ 0 # q)) argv = map Some (take FINSH_ARG_MAX (args (d # ds)))"
    using msh_split_spec [OF refl nz, of b q] by blast
  have args: "args cs = args (d # ds)" using args_blank [OF 1(2)] 1(1) by simp
  have "args (d # ds) \<noteq> []" using args_Cons [OF 1(3)] by simp
  then have "argv \<noteq> []" using t(3) by (auto simp: FINSH_ARG_MAX_def)
  moreover have "(if len = 0 then A else B) = B" if "len = Suc n" for len n and A B :: 'z using that by simp
  ultimately have "msh_exec tbl call (cs @ 0 # q) 0 (length cs) w =
      map_option (\<lambda>(r, buf, o2, w). (r, buf, out @ o2, w)) (call f (length argv) argv (b @ t @ 0 # q) w)"
    using trim word t(1) assms(4) 1(1) unfolding fw
    by (cases "call f (length argv) argv (b @ t @ 0 # q) w")
      (simp_all add: msh_exec_def msh_exec_cmd_def case_prod_beta del: Option_bind_Some_iff)
  then show ?thesis
    unfolding args using t(2,3) 1(1) by (rule_tac x = "b @ t @ 0 # q" in exI, rule_tac x = argv in exI, rule_tac x = out in exI) simp
next
  case 2
  then show ?thesis using assms(3) by (simp add: first_word_def dropWhile_eq_Nil_conv [THEN iffD2])
qed

lemma first_space_spec:
  assumes "length p = i" "0 \<notin> set s"
  shows "first_space (p @ s @ 0 # q) i = Some (i + length (takeWhile (\<lambda>c. c \<noteq> 0x20) s))"
  using assms
proof (induction s arbitrary: p i)
  case Nil
  then show ?case by (subst first_space.simps) simp
next
  case (Cons c s)
  have "first_space ((p @ [c]) @ s @ 0 # q) (Suc i) = Some (Suc i + length (takeWhile (\<lambda>c. c \<noteq> 0x20) s))"
    by (rule Cons.IH) (use Cons.prems in simp_all)
  then show ?case using Cons.prems by (subst first_space.simps) simp
qed

lemma msh_exec_unknown:
  assumes "names_ok tbl" "0 \<notin> set cs" "first_word cs \<noteq> []" "find_cmd tbl (first_word cs) = None"
  shows "\<exists>buf. msh_exec tbl call (cs @ 0 # q) 0 (length cs) w =
    Some (- 1, buf, takeWhile (\<lambda>c. c \<noteq> 0x20) (dropWhile blank cs) @ map of_char '': command not found.'' @ [0x0A], w) \<and>
    length buf = length (cs @ 0 # q)"
proof (cases rule: trimmed [of cs])
  case (1 b d ds)
  let ?u = "takeWhile (\<lambda>c. c \<noteq> 0x20) (d # ds)"
  have dw: "dropWhile blank cs = d # ds" using 1 by (simp add: dropWhile_append2)
  have trim: "msh_trim (cs @ 0 # q) 0 (length cs) = Some (length b, length (d # ds))"
    using msh_trim_spec [of "[]" 0 cs q] 1 by (simp add: takeWhile_append2 dropWhile_append2)
  have fw: "first_word cs = d # takeWhile (\<lambda>c. \<not> blank c) ds"
    using 1 by (simp add: first_word_def dropWhile_append2)
  have nz: "0 \<notin> set (d # ds)" using assms(2) 1(1) by simp
  note word = exec_cmd_word [OF assms(1) nz 1(3) refl, of b q]
  have cmd: "msh_exec_cmd tbl call (cs @ 0 # q) (length b) (length (d # ds)) w = Some (None, cs @ 0 # q, [], w)"
    using word assms(4) 1(1) unfolding fw by (simp add: msh_exec_cmd_def del: Option_bind_Some_iff)
  have sp: "first_space (cs @ 0 # q) (length b) = Some (length b + length ?u)"
    using first_space_spec [OF refl nz, of b q] 1(1) by simp
  obtain x r where x: "(d # ds) @ 0 # q = ?u @ x # r"
  proof (cases "dropWhile (\<lambda>c. c \<noteq> 0x20) (d # ds)")
    case Nil
    then have "(d # ds) = ?u" by (metis append_Nil2 takeWhile_dropWhile_id)
    then show ?thesis using that by metis
  next
    case (Cons e es)
    then have "d # ds = ?u @ e # es" by (metis takeWhile_dropWhile_id)
    then show ?thesis using that [of e "es @ 0 # q"] by (metis append.assoc append_Cons)
  qed
  have "0 \<notin> set ?u" using nz by (auto dest: set_takeWhileD)
  then have "c_str (b @ ?u @ 0 # r) (length b) = Some ?u" by (rule c_str_at [OF refl])
  moreover have "cs @ 0 # q = b @ ?u @ x # r" using x 1(1) by simp
  then have "(cs @ 0 # q)[length b + length ?u := 0] = b @ ?u @ 0 # r"
    by (simp add: list_update_append)
  moreover have "length (cs @ 0 # q) = length (b @ ?u @ x # r)" using x 1(1) by simp
  ultimately show ?thesis
    using trim cmd sp unfolding dw by (simp add: msh_exec_def del: Option_bind_Some_iff takeWhile.simps)
next
  case 2
  then show ?thesis using assms(3) by (simp add: first_word_def dropWhile_eq_Nil_conv [THEN iffD2])
qed

section \<open>What completion finds\<close>

lemma str_common_prefix: "prefix q xs \<and> prefix q ys \<longleftrightarrow> prefix q (take (str_common xs ys) xs)"
proof (induction xs ys arbitrary: q rule: str_common.induct)
  case (1 x xs y ys)
  then show ?case by (cases q) auto
qed (auto simp: prefix_def)

lemma str_common_le: "str_common xs ys \<le> length xs"
  by (induction xs ys rule: str_common.induct) auto

lemma prefix_take: "prefix q (take m xs) \<longleftrightarrow> prefix q xs \<and> length q \<le> m"
proof
  assume "prefix q (take m xs)"
  then show "prefix q xs \<and> length q \<le> m"
    using prefix_order.trans [OF _ take_is_prefix] prefix_length_le [of q "take m xs"] by auto
next
  assume "prefix q xs \<and> length q \<le> m"
  then show "prefix q (take m xs)" by (auto simp: prefix_def)
qed

text \<open>The candidates, in the order of the table.\<close>

definition candidates :: "'f finsh_syscall list \<Rightarrow> u8 list \<Rightarrow> u8 list list" where
  "candidates tbl pre = filter (prefix pre) (map (\<lambda>i. drop 6 (sc_name i)) (commands tbl))"

lemma candidates_Cons:
  "candidates (i # tbl) pre =
     (if strneq (sc_name i) cmd_mark 6 \<and> prefix pre (drop 6 (sc_name i))
      then drop 6 (sc_name i) # candidates tbl pre else candidates tbl pre)"
  by (simp add: candidates_def commands_def)

lemma complete_scan_more:
  assumes "0 \<notin> set pre" "pre \<noteq> []" "prefix pre (take m n)" "m \<le> length n"
  shows "\<exists>m'. complete_scan tbl pre m (Some n) = (m', Some n, concat (map (\<lambda>c. c @ [0x0A]) (candidates tbl pre))) \<and>
    m' \<le> length n \<and> (\<forall>q. prefix q (take m' n) \<longleftrightarrow> prefix q (take m n) \<and> (\<forall>c \<in> set (candidates tbl pre). prefix q c))"
  using assms(3,4)
proof (induction tbl arbitrary: m)
  case Nil
  then show ?case by (simp add: candidates_def commands_def)
next
  case (Cons i tbl)
  let ?c = "drop 6 (sc_name i)"
  show ?case
  proof (cases "strneq (sc_name i) cmd_mark 6 \<and> prefix pre ?c")
    case True
    have "m \<noteq> 0"
    proof
      assume "m = 0"
      then show False using Cons.prems(1) assms(2) by simp
    qed
    define k where "k = (if str_common n ?c < m then str_common n ?c else m)"
    have k: "prefix q (take k n) \<longleftrightarrow> prefix q (take m n) \<and> prefix q ?c" for q
    proof -
      have "take k n = take m (take (str_common n ?c) n)" by (simp add: k_def min_def)
      then show ?thesis using str_common_prefix [of q n ?c] by (auto simp: prefix_take)
    qed
    then have "prefix pre (take k n)" "k \<le> length n" using True Cons.prems by (auto simp: k_def)
    from Cons.IH [OF this] obtain m' where
      "complete_scan tbl pre k (Some n) = (m', Some n, concat (map (\<lambda>c. c @ [0x0A]) (candidates tbl pre)))"
      "m' \<le> length n" "\<forall>q. prefix q (take m' n) \<longleftrightarrow> prefix q (take k n) \<and> (\<forall>c \<in> set (candidates tbl pre). prefix q c)"
      by blast
    moreover have "complete_scan (i # tbl) pre m (Some n) =
        (case complete_scan tbl pre k (Some n) of (m, n, out) \<Rightarrow> (m, n, ?c @ [0x0A] @ out))"
      using True \<open>m \<noteq> 0\<close> strneq_prefix [OF assms(1)] by (simp add: Let_def k_def)
    ultimately show ?thesis using True k by (intro exI [of _ m']) (simp add: candidates_Cons)
  next
    case False
    then show ?thesis
      using Cons.IH [OF Cons.prems] strneq_prefix [OF assms(1)] by (auto simp: candidates_Cons)
  qed
qed

lemma complete_scan_spec:
  assumes "0 \<notin> set pre" "pre \<noteq> []"
  shows "\<exists>m n. complete_scan tbl pre 0 None = (m, n, concat (map (\<lambda>c. c @ [0x0A]) (candidates tbl pre))) \<and>
    (case n of
       None \<Rightarrow> candidates tbl pre = []
     | Some c \<Rightarrow> c \<in> set (candidates tbl pre) \<and> m \<le> length c \<and>
         (\<forall>q. prefix q (take m c) \<longleftrightarrow> (\<forall>c \<in> set (candidates tbl pre). prefix q c)))"
proof (induction tbl)
  case Nil
  then show ?case by (simp add: candidates_def commands_def)
next
  case (Cons i tbl)
  let ?c = "drop 6 (sc_name i)"
  show ?case
  proof (cases "strneq (sc_name i) cmd_mark 6 \<and> prefix pre ?c")
    case True
    have common: "str_common ?c ?c = length ?c" for c :: "u8 list"
    proof -
      have "prefix ?c (take (str_common ?c ?c) ?c)" using str_common_prefix [of ?c ?c ?c] by simp
      then show ?thesis using prefix_length_le str_common_le [of ?c ?c] by fastforce
    qed
    obtain m' where m':
      "complete_scan tbl pre (length ?c) (Some ?c) = (m', Some ?c, concat (map (\<lambda>c. c @ [0x0A]) (candidates tbl pre)))"
      "m' \<le> length ?c"
      "\<forall>q. prefix q (take m' ?c) \<longleftrightarrow> prefix q (take (length ?c) ?c) \<and> (\<forall>c \<in> set (candidates tbl pre). prefix q c)"
      using complete_scan_more [OF assms, of "length ?c" ?c tbl] True by auto
    have "complete_scan (i # tbl) pre 0 None =
        (case complete_scan tbl pre (length ?c) (Some ?c) of (m, n, out) \<Rightarrow> (m, n, ?c @ [0x0A] @ out))"
      using True strneq_prefix [OF assms(1)] common by (simp add: Let_def)
    then show ?thesis
      using True m' by (intro exI [of _ m'] exI [of _ "Some ?c"]) (simp add: candidates_Cons)
  next
    case False
    then have same: "candidates (i # tbl) pre = candidates tbl pre"
        "complete_scan (i # tbl) pre 0 None = complete_scan tbl pre 0 None"
      using strneq_prefix [OF assms(1)] by (auto simp: candidates_Cons Let_def)
    show ?thesis unfolding same by (rule Cons.IH)
  qed
qed

text \<open>What completion does with a line that holds the beginning of a command: it prints the
  candidates and puts their longest common prefix into the line.\<close>

definition longest_common :: "u8 list \<Rightarrow> u8 list list \<Rightarrow> bool" where
  "longest_common r cs \<longleftrightarrow> (\<forall>q. prefix q r \<longleftrightarrow> (\<forall>c \<in> set cs. prefix q c))"

lemma auto_complete_spec:
  assumes ok: "names_ok tbl" and pre: "0 \<notin> set pre" "pre \<noteq> []"
    and fits: "\<forall>c \<in> set (candidates tbl pre). length c \<le> length pre + n"
  shows "\<exists>r. msh_auto_complete tbl (pre @ replicate n 0 @ 0 # q) =
      Some (r @ replicate (length pre + n - length r) 0 @ 0 # q, concat (map (\<lambda>c. c @ [0x0A]) (candidates tbl pre))) \<and>
    0 \<notin> set r \<and> length r \<le> length pre + n \<and> prefix pre r \<and>
    (if candidates tbl pre = [] then r = pre else longest_common r (candidates tbl pre))"
proof -
  let ?b = "pre @ replicate n 0 @ 0 # q"
  obtain z where z: "replicate n 0 @ 0 # q = 0 # z" by (cases n) auto
  have str: "c_str ?b 0 = Some pre" using c_str_at [of "[]" 0 pre z] pre(1) z by simp
  have first: "rd ?b 0 = Some (hd pre)" "hd pre \<noteq> 0" using pre by (cases pre; auto simp: rd_def)+
  obtain m name where scan: "complete_scan tbl pre 0 None = (m, name, concat (map (\<lambda>c. c @ [0x0A]) (candidates tbl pre)))"
    and found: "case name of None \<Rightarrow> candidates tbl pre = []
      | Some c \<Rightarrow> c \<in> set (candidates tbl pre) \<and> m \<le> length c \<and>
          (\<forall>q. prefix q (take m c) \<longleftrightarrow> (\<forall>c \<in> set (candidates tbl pre). prefix q c))"
    using complete_scan_spec [OF pre, of tbl] by blast
  show ?thesis
  proof (cases name)
    case None
    then show ?thesis
      using str first scan found pre(1) by (intro exI [of _ pre]) (simp add: msh_auto_complete_def)
  next
    case (Some c)
    then have c: "c \<in> set (candidates tbl pre)" "m \<le> length c"
        "\<forall>q. prefix q (take m c) \<longleftrightarrow> (\<forall>c \<in> set (candidates tbl pre). prefix q c)"
      using found by simp_all
    have p: "prefix pre (take m c)" using c(3) by (auto simp: candidates_def)
    then have le: "length pre \<le> m" "m \<le> length pre + n"
      using c(1,2) fits prefix_length_le [of pre "take m c"] by fastforce+
    have "0 \<notin> set c"
      using c(1) ok by (auto simp: candidates_def commands_def names_ok_def dest: in_set_dropD)
    then have nz: "0 \<notin> set (take m c)" by (auto dest: in_set_takeD)
    have "drop m ?b = replicate (length pre + n - m) 0 @ 0 # q" using le by simp
    then have "msh_auto_complete tbl ?b = Some (take m c @ replicate (length pre + n - m) 0 @ 0 # q,
        concat (map (\<lambda>c. c @ [0x0A]) (candidates tbl pre)))"
      using str first scan Some le by (simp add: msh_auto_complete_def del: Option_bind_Some_iff)
    moreover have "length (take m c) = m" using c(2) by simp
    moreover have "candidates tbl pre \<noteq> []" using c(1) by auto
    ultimately show ?thesis
      using le p nz c(3) unfolding longest_common_def by (intro exI [of _ "take m c"]) simp
  qed
qed

end
