(* ===== verification/Shell.thy ===== *)
theory Shell
  imports Msh
begin

text \<open>
  The line editor of the shell, \<^verbatim>\<open>finsh/shell.c\<close>: what \<^verbatim>\<open>finsh_thread_entry\<close> does with every
  character that it gets from the console, in the configuration of \<^verbatim>\<open>finsh_config.h\<close>: only the
  interpreter of theory \<open>Msh\<close>, no history and no password.

  A \<open>session\<close> is the state of the shell, all that has been printed, and the state \<open>'w\<close> of the
  rest of the system.  An access outside \<^verbatim>\<open>shell->line\<close> has no defined value (\<open>None\<close>).
\<close>

section \<open>The state\<close>

datatype input_stat = WAIT_NORMAL | WAIT_SPEC_KEY | WAIT_FUNC_KEY

definition FINSH_CMD_SIZE :: nat where "FINSH_CMD_SIZE = 80"

record finsh_shell =
  key_stat :: input_stat
  echo_mode :: bool
  prompt_mode :: bool
  line :: buffer
  line_position :: u16
  line_curpos :: u16

record 'w session =
  shell :: finsh_shell
  prompt_custom :: "u8 list option"
  tty :: "u8 list"
  world :: 'w

abbreviation upd_shell :: "(finsh_shell \<Rightarrow> finsh_shell) \<Rightarrow> 'w session \<Rightarrow> 'w session" where
  "upd_shell f s \<equiv> s\<lparr>shell := f (shell s)\<rparr>"

definition say :: "u8 list \<Rightarrow> 'w session \<Rightarrow> 'w session" where
  "say cs s = s\<lparr>tty := tty s @ cs\<rparr>"

abbreviation bs :: u8 where "bs \<equiv> 0x08"
abbreviation newline :: u8 where "newline \<equiv> 0x0A"

text \<open>A write to the line, and \<^verbatim>\<open>rt_memmove\<close> inside it (theory \<open>Kservice_Mem\<close> shows that the
  routine moves all bytes as they were).\<close>

definition wr :: "buffer \<Rightarrow> nat \<Rightarrow> u8 \<Rightarrow> buffer option" where
  "wr xs i c = (if i < length xs then Some (xs[i := c]) else None)"

definition move :: "nat \<Rightarrow> nat \<Rightarrow> nat \<Rightarrow> buffer \<Rightarrow> buffer option" where
  "move dst src n xs =
     (if dst + n \<le> length xs \<and> src + n \<le> length xs
      then Some (take dst xs @ take n (drop src xs) @ drop (dst + n) xs) else None)"

section \<open>The prompt and the modes\<close>

text \<open>\<open>mem\<close> is whether \<^verbatim>\<open>rt_malloc\<close> has memory for the copy.\<close>

definition finsh_set_prompt :: "bool \<Rightarrow> u8 list option \<Rightarrow> 'w session \<Rightarrow> 'w session" where
  "finsh_set_prompt mem prompt s = s\<lparr>prompt_custom := (if mem then prompt else None)\<rparr>"

definition RT_CONSOLEBUF_SIZE :: nat where "RT_CONSOLEBUF_SIZE = 256"

definition finsh_get_prompt :: "'w session \<Rightarrow> u8 list" where
  "finsh_get_prompt s =
     (if \<not> prompt_mode (shell s) then []
      else case prompt_custom s of
          Some p \<Rightarrow> take RT_CONSOLEBUF_SIZE p
        | None \<Rightarrow> map of_char ''msh '' @ map of_char ''>'')"

definition finsh_get_prompt_mode :: "'w session \<Rightarrow> u32" where
  "finsh_get_prompt_mode s = (if prompt_mode (shell s) then 1 else 0)"

text \<open>The modes are bit fields of width one.\<close>

definition finsh_set_prompt_mode :: "u32 \<Rightarrow> 'w session \<Rightarrow> 'w session" where
  "finsh_set_prompt_mode m = upd_shell (\<lambda>h. h\<lparr>prompt_mode := bit m 0\<rparr>)"

definition finsh_set_echo :: "u32 \<Rightarrow> 'w session \<Rightarrow> 'w session" where
  "finsh_set_echo e = upd_shell (\<lambda>h. h\<lparr>echo_mode := bit e 0\<rparr>)"

definition finsh_get_echo :: "'w session \<Rightarrow> u32" where
  "finsh_get_echo s = (if echo_mode (shell s) then 1 else 0)"

text \<open>One call of \<^verbatim>\<open>rt_kprintf\<close> prints at most two characters less than its buffer has.\<close>

definition clip :: "u8 list \<Rightarrow> u8 list" where "clip cs = take (RT_CONSOLEBUF_SIZE - 2) cs"

text \<open>The prompt is printed as the format of \<^verbatim>\<open>rt_kprintf\<close>: every \<open>%\<close> but \<open>%%\<close> takes an argument
  that is not there.\<close>

fun bare_format :: "u8 list \<Rightarrow> u8 list option" where
  "bare_format [] = Some []"
| "bare_format [c] = (if c = 0x25 then None else Some [c])"
| "bare_format (c # d # cs) =
     (if c = 0x25 then if d = 0x25 then map_option ((#) c) (bare_format cs) else None
      else map_option ((#) c) (bare_format (d # cs)))"

definition show_prompt :: "'w session \<Rightarrow> 'w session option" where
  "show_prompt s = map_option (\<lambda>p. say (clip p) s) (bare_format (finsh_get_prompt s))"

section \<open>The keys\<close>

definition key_left :: "'w session \<Rightarrow> 'w session" where
  "key_left s =
     (if line_curpos (shell s) \<noteq> 0
      then upd_shell (\<lambda>h. h\<lparr>line_curpos := line_curpos h - 1\<rparr>) (say [bs] s) else s)"

definition key_right :: "'w session \<Rightarrow> 'w session option" where
  "key_right s =
     (if line_curpos (shell s) < line_position (shell s) then do {
        c \<leftarrow> rd (line (shell s)) (unat (line_curpos (shell s)));
        Some (upd_shell (\<lambda>h. h\<lparr>line_curpos := line_curpos h + 1\<rparr>) (say [c] s))
      }
      else Some s)"

text \<open>The conversion of a difference of two positions to the length of \<^verbatim>\<open>rt_memmove\<close>.\<close>

definition pos_diff :: "u16 \<Rightarrow> u16 \<Rightarrow> nat" where
  "pos_diff a b = unat (word_of_int (uint a - uint b) :: u32)"

definition key_backspace :: "'w session \<Rightarrow> 'w session option" where
  "key_backspace s =
     (if line_curpos (shell s) = 0 then Some s
      else do {
        let s = upd_shell (\<lambda>h. h\<lparr>line_position := line_position h - 1\<rparr>) s;
        let s = upd_shell (\<lambda>h. h\<lparr>line_curpos := line_curpos h - 1\<rparr>) s;
        let pos = line_position (shell s);
        let cur = line_curpos (shell s);
        (if cur < pos then do {
           xs \<leftarrow> move (unat cur) (unat cur + 1) (pos_diff pos cur) (line (shell s));
           xs \<leftarrow> wr xs (unat pos) 0;
           let s = upd_shell (\<lambda>h. h\<lparr>line := xs\<rparr>) s;
           rest \<leftarrow> c_str xs (unat cur);
           let s = say ([bs] @ rest @ [0x20, 0x20, bs]) s;
           Some (say (replicate (nat (uint pos - uint cur + 1)) bs) s)
         }
         else do {
           let s = say [bs, 0x20, bs] s;
           xs \<leftarrow> wr (line (shell s)) (unat pos) 0;
           Some (upd_shell (\<lambda>h. h\<lparr>line := xs\<rparr>) s)
         })
      })"

definition shell_auto_complete :: "'f finsh_syscall list \<Rightarrow> 'w session \<Rightarrow> 'w session option" where
  "shell_auto_complete tbl s = do {
     let s = say [newline] s;
     (xs, out) \<leftarrow> msh_auto_complete tbl (line (shell s));
     let s = upd_shell (\<lambda>h. h\<lparr>line := xs\<rparr>) (say out s);
     pre \<leftarrow> c_str xs 0;
     Some (say (clip (finsh_get_prompt s @ pre)) s)
   }"

definition key_tab :: "'f finsh_syscall list \<Rightarrow> 'w session \<Rightarrow> 'w session option" where
  "key_tab tbl s = do {
     let s = say (replicate (unat (line_curpos (shell s))) bs) s;
     s \<leftarrow> shell_auto_complete tbl s;
     txt \<leftarrow> c_str (line (shell s)) 0;
     Some (upd_shell (\<lambda>h. h\<lparr>line_position := of_nat (length txt), line_curpos := of_nat (length txt)\<rparr>) s)
   }"

definition key_enter :: "'f finsh_syscall list \<Rightarrow> ('f, 'w) call \<Rightarrow> 'w session \<Rightarrow> 'w session option" where
  "key_enter tbl call s = do {
     let s = (if echo_mode (shell s) then say [newline] s else s);
     (r, xs, out, w) \<leftarrow> msh_exec tbl call (line (shell s)) 0 (unat (line_position (shell s))) (world s);
     let s = (upd_shell (\<lambda>h. h\<lparr>line := xs\<rparr>) (say out s))\<lparr>world := w\<rparr>;
     s \<leftarrow> show_prompt s;
     let s = upd_shell (\<lambda>h. h\<lparr>line := replicate (length (line h)) 0\<rparr>) s;
     Some (upd_shell (\<lambda>h. h\<lparr>line_position := 0, line_curpos := 0\<rparr>) s)
   }"

definition key_char :: "u8 \<Rightarrow> 'w session \<Rightarrow> 'w session option" where
  "key_char ch s = do {
     let s = (if FINSH_CMD_SIZE \<le> unat (line_position (shell s))
              then upd_shell (\<lambda>h. h\<lparr>line_position := 0\<rparr>) s else s);
     let pos = line_position (shell s);
     let cur = line_curpos (shell s);
     s \<leftarrow> (if cur < pos then do {
             xs \<leftarrow> move (unat cur + 1) (unat cur) (pos_diff pos cur) (line (shell s));
             xs \<leftarrow> wr xs (unat cur) ch;
             let s = upd_shell (\<lambda>h. h\<lparr>line := xs\<rparr>) s;
             s \<leftarrow> (if echo_mode (shell s) then map_option (\<lambda>rest. say rest s) (c_str xs (unat cur)) else Some s);
             Some (say (replicate (nat (uint pos - uint cur)) bs) s)
           }
           else do {
             xs \<leftarrow> wr (line (shell s)) (unat pos) ch;
             let s = upd_shell (\<lambda>h. h\<lparr>line := xs\<rparr>) s;
             Some (if echo_mode (shell s) then say [ch] s else s)
           });
     let s = upd_shell (\<lambda>h. h\<lparr>line_position := line_position h + 1\<rparr>) s;
     let s = upd_shell (\<lambda>h. h\<lparr>line_curpos := line_curpos h + 1\<rparr>) s;
     Some (if FINSH_CMD_SIZE \<le> unat (line_position (shell s))
           then upd_shell (\<lambda>h. h\<lparr>line_position := 0, line_curpos := 0\<rparr>) s else s)
   }"

text \<open>A character that is no part of the code of a cursor key.\<close>

definition plain_key :: "'f finsh_syscall list \<Rightarrow> ('f, 'w) call \<Rightarrow> u8 \<Rightarrow> 'w session \<Rightarrow> 'w session option" where
  "plain_key tbl call ch s =
     (if ch = 0 \<or> ch = 0xFF then Some s
      else if ch = 0x09 then key_tab tbl s
      else if ch = 0x7F \<or> ch = 0x08 then key_backspace s
      else if ch = 0x0D \<or> ch = 0x0A then key_enter tbl call s
      else key_char ch s)"

definition set_key_stat :: "input_stat \<Rightarrow> 'w session \<Rightarrow> 'w session" where
  "set_key_stat k = upd_shell (\<lambda>h. h\<lparr>key_stat := k\<rparr>)"

definition finsh_key :: "'f finsh_syscall list \<Rightarrow> ('f, 'w) call \<Rightarrow> u8 \<Rightarrow> 'w session \<Rightarrow> 'w session option" where
  "finsh_key tbl call ch s =
     (if ch = 0x1B then Some (set_key_stat WAIT_SPEC_KEY s)
      else if key_stat (shell s) = WAIT_SPEC_KEY then
        if ch = 0x5B then Some (set_key_stat WAIT_FUNC_KEY s)
        else plain_key tbl call ch (set_key_stat WAIT_NORMAL s)
      else if key_stat (shell s) = WAIT_FUNC_KEY then
        let s = set_key_stat WAIT_NORMAL s
        in if ch = 0x41 \<or> ch = 0x42 then Some s
           else if ch = 0x44 then Some (key_left s)
           else if ch = 0x43 then key_right s
           else plain_key tbl call ch s
      else plain_key tbl call ch s)"

text \<open>The loop of the thread on the characters that arrive.\<close>

fun finsh_keys :: "'f finsh_syscall list \<Rightarrow> ('f, 'w) call \<Rightarrow> u8 list \<Rightarrow> 'w session \<Rightarrow> 'w session option" where
  "finsh_keys tbl call [] s = Some s"
| "finsh_keys tbl call (ch # chs) s = finsh_key tbl call ch s \<bind> finsh_keys tbl call chs"

definition finsh_thread_entry :: "'f finsh_syscall list \<Rightarrow> ('f, 'w) call \<Rightarrow> u8 list \<Rightarrow> 'w session \<Rightarrow> 'w session option" where
  "finsh_thread_entry tbl call chs s = do {
     let s = upd_shell (\<lambda>h. h\<lparr>echo_mode := True\<rparr>) s;
     s \<leftarrow> show_prompt s;
     finsh_keys tbl call chs s
   }"

section \<open>The line as text with a cursor\<close>

text \<open>\<open>ed_at l r h\<close>: the line holds the text \<open>l @ r\<close>, followed by zeros, and the cursor is between
  \<open>l\<close> and \<open>r\<close>.\<close>

definition ed_at :: "u8 list \<Rightarrow> u8 list \<Rightarrow> finsh_shell \<Rightarrow> bool" where
  "ed_at l r h \<longleftrightarrow> line h = l @ r @ replicate (FINSH_CMD_SIZE - length l - length r) 0 \<and>
     line_position h = of_nat (length l + length r) \<and> line_curpos h = of_nat (length l) \<and>
     length l + length r < FINSH_CMD_SIZE \<and> 0 \<notin> set l \<and> 0 \<notin> set r"

lemma ed_atD:
  assumes "ed_at l r h"
  shows "line h = l @ r @ replicate (FINSH_CMD_SIZE - length l - length r) 0"
    "unat (line_position h) = length l + length r" "unat (line_curpos h) = length l"
    "uint (line_position h) = int (length l + length r)" "uint (line_curpos h) = int (length l)"
    "length l + length r < 80" "0 \<notin> set l" "0 \<notin> set r" "length (line h) = 80"
proof -
  show a: "line h = l @ r @ replicate (FINSH_CMD_SIZE - length l - length r) 0" "length l + length r < 80"
      "0 \<notin> set l" "0 \<notin> set r"
    using assms by (simp_all add: ed_at_def FINSH_CMD_SIZE_def)
  show p: "unat (line_position h) = length l + length r" "unat (line_curpos h) = length l"
    using assms a(2) by (simp_all add: ed_at_def unat_of_nat del: of_nat_add)
  show "uint (line_position h) = int (length l + length r)" "uint (line_curpos h) = int (length l)"
    using p by (simp_all add: uint_nat del: of_nat_add)
  show "length (line h) = 80" using a by (simp add: FINSH_CMD_SIZE_def)
qed

text \<open>The zeros behind the text: at least one.\<close>

lemma ed_zeros:
  assumes "length l + length r < 80"
  obtains z where "replicate (FINSH_CMD_SIZE - length l - length r) (0 :: u8) = 0 # z"
    "z = replicate (FINSH_CMD_SIZE - Suc (length l) - length r) 0"
proof -
  have "FINSH_CMD_SIZE - length l - length r = Suc (FINSH_CMD_SIZE - Suc (length l) - length r)"
    using assms by (simp add: FINSH_CMD_SIZE_def)
  then show ?thesis using that by simp
qed

lemma ed_text:
  assumes "ed_at l r h"
  shows "c_str (line h) 0 = Some (l @ r)" "c_str (line h) (length l) = Some r"
proof -
  note d = ed_atD [OF assms]
  obtain z where z: "replicate (FINSH_CMD_SIZE - length l - length r) (0 :: u8) = 0 # z"
    by (rule ed_zeros [OF d(6)])
  show "c_str (line h) 0 = Some (l @ r)" using c_str_at [of "[]" 0 "l @ r" z] d(1,7,8) z by simp
  show "c_str (line h) (length l) = Some r" using c_str_at [of l "length l" r z] d(1,7,8) z by simp
qed

section \<open>The screen\<close>

text \<open>What a terminal shows: the cells of the current row and the column of the cursor.\<close>

fun put :: "u8 \<Rightarrow> u8 list \<times> nat \<Rightarrow> u8 list \<times> nat" where
  "put c (row, col) =
     (if c = bs then (row, col - 1)
      else if c = newline then ([], 0)
      else (if col < length row then row[col := c] else row @ [c], Suc col))"

definition display :: "u8 list \<Rightarrow> u8 list \<times> nat \<Rightarrow> u8 list \<times> nat" where
  "display cs scr = fold put cs scr"

definition printable :: "u8 \<Rightarrow> bool" where
  "printable c \<longleftrightarrow> 0x20 \<le> c \<and> c < 0x7F"

lemma display_append: "display (cs @ ds) scr = display ds (display cs scr)"
  by (simp add: display_def)

lemma display_text:
  assumes "\<forall>c \<in> set cs. c \<noteq> bs \<and> c \<noteq> newline"
  shows "length old = length cs \<Longrightarrow> display cs (a @ old @ z, length a) = (a @ cs @ z, length a + length cs)"
    and "length old \<le> length cs \<Longrightarrow> display cs (a @ old, length a) = (a @ cs, length a + length cs)"
proof -
  show "length old = length cs \<Longrightarrow> display cs (a @ old @ z, length a) = (a @ cs @ z, length a + length cs)"
    using assms
  proof (induction cs arbitrary: a old)
    case (Cons c cs)
    then obtain x xs where o: "old = x # xs" "length xs = length cs" by (cases old) auto
    have "display cs ((a @ [c]) @ xs @ z, length (a @ [c])) = ((a @ [c]) @ cs @ z, length (a @ [c]) + length cs)"
      by (rule Cons.IH) (use Cons.prems o in simp_all)
    then show ?case using Cons.prems(2) by (simp add: display_def o)
  qed (simp add: display_def)
  show "length old \<le> length cs \<Longrightarrow> display cs (a @ old, length a) = (a @ cs, length a + length cs)"
    using assms
  proof (induction cs arbitrary: a old)
    case (Cons c cs)
    have "display cs ((a @ [c]) @ tl old, length (a @ [c])) = ((a @ [c]) @ cs, length (a @ [c]) + length cs)"
      by (rule Cons.IH) (use Cons.prems in auto)
    then show ?case using Cons.prems(2) by (cases old) (simp_all add: display_def)
  qed (simp add: display_def)
qed

lemma display_back: "display (replicate n bs) (row, col) = (row, col - n)"
  by (induction n arbitrary: col) (simp_all add: display_def)

text \<open>\<open>shows p l r scr\<close>: behind the prompt \<open>p\<close> the screen shows the text \<open>l @ r\<close>, then blanks, and
  the cursor is where it is in the line.\<close>

definition shows_line :: "u8 list \<Rightarrow> u8 list \<Rightarrow> u8 list \<Rightarrow> u8 list \<times> nat \<Rightarrow> bool" where
  "shows_line p l r scr \<longleftrightarrow> (\<exists>k. scr = (p @ l @ r @ replicate k 0x20, length p + length l))"

section \<open>One key\<close>

definition same_modes :: "finsh_shell \<Rightarrow> finsh_shell \<Rightarrow> bool" where
  "same_modes h h' \<longleftrightarrow> key_stat h' = key_stat h \<and> echo_mode h' = echo_mode h \<and> prompt_mode h' = prompt_mode h"

lemma pos_diff_nat: "uint b \<le> uint a \<Longrightarrow> pos_diff a b = unat a - unat b"
proof -
  assume le: "uint b \<le> uint a"
  have "uint a < 65536" "0 \<le> uint b" using uint_lt2p [of a] by simp_all
  then have "uint a - uint b < 65536" by linarith
  then have "(uint a - uint b) mod 2 ^ LENGTH(32) = uint a - uint b"
    using le by (intro mod_pos_pos_trivial) simp_all
  then have "uint (word_of_int (uint a - uint b) :: u32) = uint a - uint b"
    by (simp only: uint_word_of_int)
  then have "pos_diff a b = nat (uint a - uint b)" unfolding pos_diff_def unat_eq_nat_uint by (rule arg_cong)
  also have "\<dots> = nat (uint a) - nat (uint b)" using le by (intro nat_diff_distrib) simp_all
  finally show ?thesis unfolding unat_eq_nat_uint .
qed

lemma key_char_spec:
  assumes ed: "ed_at l r (shell s)" and room: "length l + length r < 79" and ch: "ch \<noteq> 0" and echo: "echo_mode (shell s)"
  shows "\<exists>h. key_char ch s = Some (s\<lparr>shell := h, tty := tty s @ ch # r @ replicate (length r) bs\<rparr>) \<and>
    ed_at (l @ [ch]) r h \<and> same_modes (shell s) h"
proof -
  note d = ed_atD [OF ed]
  obtain z where z: "replicate (FINSH_CMD_SIZE - length l - length r) (0 :: u8) = 0 # z"
    and z2: "z = replicate (FINSH_CMD_SIZE - Suc (length l) - length r) 0"
    by (rule ed_zeros [OF d(6)])
  let ?xs = "l @ ch # r @ z"
  define h where "h = (shell s)\<lparr>line := ?xs, line_position := line_position (shell s) + 1,
    line_curpos := line_curpos (shell s) + 1\<rparr>"
  have pos: "line_position h = of_nat (Suc (length l + length r))" "line_curpos h = of_nat (Suc (length l))"
    using ed by (simp_all add: h_def ed_at_def)
  then have upos: "unat (line_position h) = Suc (length l + length r)"
    using room by (simp add: unat_of_nat del: of_nat_add of_nat_Suc)
  have ed': "ed_at (l @ [ch]) r h"
    using room ch d(7,8) z2 pos by (simp add: ed_at_def h_def FINSH_CMD_SIZE_def)
  have big: "\<not> FINSH_CMD_SIZE \<le> unat (line_position (shell s))" "\<not> FINSH_CMD_SIZE \<le> unat (line_position h)"
    using room d(2) upos by (simp_all add: FINSH_CMD_SIZE_def)
  have line: "line (shell s) = l @ r @ 0 # z" using d(1) z by simp
  show ?thesis
  proof (cases "r = []")
    case True
    have "\<not> line_curpos (shell s) < line_position (shell s)" using d(2,3) True by (simp add: word_less_nat_alt)
    moreover have "wr (line (shell s)) (unat (line_position (shell s))) ch = Some ?xs"
      using line d(2) True by (simp add: wr_def list_update_append)
    ultimately have "key_char ch s = Some (s\<lparr>shell := h, tty := tty s @ ch # r @ replicate (length r) bs\<rparr>)"
      using big echo True by (simp add: key_char_def Let_def say_def h_def)
    then show ?thesis using ed' by (auto simp: same_modes_def h_def)
  next
    case False
    have lt: "line_curpos (shell s) < line_position (shell s)" using d(2,3) False by (simp add: word_less_nat_alt)
    have diff: "pos_diff (line_position (shell s)) (line_curpos (shell s)) = length r"
        "nat (uint (line_position (shell s)) - uint (line_curpos (shell s))) = length r"
      using d by (simp_all add: pos_diff_nat)
    obtain x y where x: "l @ r = (l @ [x]) @ y" "length y + 1 = length r" using False by (cases r) auto
    have mv: "move (Suc (length l)) (length l) (length r) (l @ r @ 0 # z) = Some ((l @ [x]) @ r @ z)"
    proof -
      have "l @ r @ 0 # z = (l @ [x]) @ y @ 0 # z" using x(1) by simp
      then have "take (Suc (length l)) (l @ r @ 0 # z) = l @ [x]" by simp
      then show ?thesis by (simp add: move_def)
    qed
    have w: "wr ((l @ [x]) @ r @ z) (length l) ch = Some ?xs" by (simp add: wr_def)
    have cs: "c_str ?xs (length l) = Some (ch # r)"
      using ed_text(2) [of l "ch # r" "h\<lparr>line_curpos := line_curpos (shell s)\<rparr>"] ed' z2 d(2,3) pos ed
      by (simp add: ed_at_def h_def FINSH_CMD_SIZE_def)
    have "key_char ch s = Some (s\<lparr>shell := h, tty := tty s @ ch # r @ replicate (length r) bs\<rparr>)"
      using big echo lt diff mv w cs line d(3)
      by (simp add: key_char_def Let_def say_def h_def del: Option_bind_Some_iff append.simps append_assoc)
    then show ?thesis using ed' by (auto simp: same_modes_def h_def)
  qed
qed

lemma key_backspace_spec:
  assumes ed: "ed_at (l @ [x]) r (shell s)"
  shows "\<exists>h out. key_backspace s = Some (s\<lparr>shell := h, tty := tty s @ out\<rparr>) \<and> ed_at l r h \<and> same_modes (shell s) h \<and>
    out = (if r = [] then [bs, 0x20, bs] else [bs] @ r @ [0x20, 0x20, bs] @ replicate (Suc (length r)) bs)"
proof -
  note d = ed_atD [OF ed]
  define zs where "zs = replicate (FINSH_CMD_SIZE - Suc (length l) - length r) (0 :: u8)"
  have line: "line (shell s) = l @ x # r @ zs" using d(1) by (simp add: zs_def)
  define h where "h = (shell s)\<lparr>line := l @ r @ 0 # zs, line_position := line_position (shell s) - 1,
    line_curpos := line_curpos (shell s) - 1\<rparr>"
  let ?s1 = "s\<lparr>shell := (shell s)\<lparr>line_position := line_position (shell s) - 1,
    line_curpos := line_curpos (shell s) - 1\<rparr>\<rparr>"
  have pos: "line_position (shell s) - 1 = of_nat (length l + length r)" "line_curpos (shell s) - 1 = of_nat (length l)"
    using ed by (simp_all add: ed_at_def)
  have upos: "unat (line_position (shell s) - 1) = length l + length r" "unat (line_curpos (shell s) - 1) = length l"
    unfolding pos using d(6) by (simp_all add: unat_of_nat del: of_nat_add)
  then have ipos: "uint (line_position (shell s) - 1) = int (length l + length r)"
      "uint (line_curpos (shell s) - 1) = int (length l)"
    by (simp_all add: uint_nat del: of_nat_add)
  have "0 # zs = replicate (FINSH_CMD_SIZE - length l - length r) 0"
    using d(6) by (simp add: zs_def FINSH_CMD_SIZE_def flip: replicate_Suc)
  then have ed': "ed_at l r h" using d(6-8) pos by (simp add: ed_at_def h_def FINSH_CMD_SIZE_def)
  have ne: "line_curpos (shell s) \<noteq> 0" using d(3) by auto
  show ?thesis
  proof (cases "r = []")
    case True
    have "\<not> line_curpos (shell s) - 1 < line_position (shell s) - 1" using upos True by (simp add: word_less_nat_alt)
    moreover have "wr (line (shell s)) (unat (line_position (shell s) - 1)) 0 = Some (l @ r @ 0 # zs)"
      using line upos True by (simp add: wr_def)
    ultimately have "key_backspace s = Some (s\<lparr>shell := h, tty := tty s @ [bs, 0x20, bs]\<rparr>)"
      using ne by (simp add: key_backspace_def Let_def say_def h_def)
    then show ?thesis using ed' True by (auto simp: same_modes_def h_def)
  next
    case False
    have lt: "line_curpos (shell s) - 1 < line_position (shell s) - 1" using upos False by (simp add: word_less_nat_alt)
    have diff: "pos_diff (line_position (shell s) - 1) (line_curpos (shell s) - 1) = length r"
        "nat (uint (line_position (shell s) - 1) - uint (line_curpos (shell s) - 1) + 1) = Suc (length r)"
      using upos ipos by (simp_all add: pos_diff_nat)
    obtain y e where y: "x # r = y @ [e]" "length y = length r" by (metis append_butlast_last_id length_butlast list.discI length_Cons diff_Suc_1)
    have mv: "move (length l) (Suc (length l)) (length r) (l @ x # r @ zs) = Some (l @ r @ e # zs)"
    proof -
      have "drop (length l + length r) (l @ x # r @ zs) = drop (length r) ((x # r) @ zs)" by simp
      also have "\<dots> = e # zs" unfolding y(1) using y(2) by simp
      finally show ?thesis by (simp add: move_def)
    qed
    have w: "wr (l @ r @ e # zs) (length l + length r) 0 = Some (l @ r @ 0 # zs)"
      by (simp add: wr_def list_update_append)
    have cs: "c_str (l @ r @ 0 # zs) (length l) = Some r"
      using ed_text(2) [OF ed'] by (simp add: h_def)
    have "key_backspace s = Some (s\<lparr>shell := h, tty := tty s @ [bs] @ r @ [0x20, 0x20, bs] @ replicate (Suc (length r)) bs\<rparr>)"
      using ne lt diff mv w cs line upos
      by (simp add: key_backspace_def Let_def say_def h_def del: Option_bind_Some_iff append.simps replicate.simps)
    then show ?thesis using ed' False by (auto simp: same_modes_def h_def)
  qed
qed

lemma key_left_spec:
  assumes ed: "ed_at (l @ [x]) r (shell s)"
  shows "\<exists>h. key_left s = s\<lparr>shell := h, tty := tty s @ [bs]\<rparr> \<and> ed_at l (x # r) h \<and> same_modes (shell s) h"
proof -
  note d = ed_atD [OF ed]
  define h where "h = (shell s)\<lparr>line_curpos := line_curpos (shell s) - 1\<rparr>"
  have "line_curpos (shell s) \<noteq> 0" using d(3) by auto
  then have "key_left s = s\<lparr>shell := h, tty := tty s @ [bs]\<rparr>" by (simp add: key_left_def h_def say_def)
  moreover have "ed_at l (x # r) h" using ed by (simp add: ed_at_def h_def)
  ultimately show ?thesis by (auto simp: same_modes_def h_def)
qed

lemma key_right_spec:
  assumes ed: "ed_at l (x # r) (shell s)"
  shows "\<exists>h. key_right s = Some (s\<lparr>shell := h, tty := tty s @ [x]\<rparr>) \<and> ed_at (l @ [x]) r h \<and> same_modes (shell s) h"
proof -
  note d = ed_atD [OF ed]
  define h where "h = (shell s)\<lparr>line_curpos := line_curpos (shell s) + 1\<rparr>"
  have "line_curpos (shell s) < line_position (shell s)" using d(2,3) by (simp add: word_less_nat_alt)
  moreover have "rd (line (shell s)) (unat (line_curpos (shell s))) = Some x" using d(1,3) by (simp add: rd_at)
  ultimately have "key_right s = Some (s\<lparr>shell := h, tty := tty s @ [x]\<rparr>)"
    by (simp add: key_right_def h_def say_def)
  moreover have "ed_at (l @ [x]) r h" using ed by (simp add: ed_at_def h_def)
  ultimately show ?thesis by (auto simp: same_modes_def h_def)
qed

text \<open>At the ends of the text the cursor keys and backspace do nothing.\<close>

lemma key_ends:
  assumes ed: "ed_at l r (shell s)"
  shows "l = [] \<Longrightarrow> key_backspace s = Some s" "l = [] \<Longrightarrow> key_left s = s" "r = [] \<Longrightarrow> key_right s = Some s"
  using ed_atD [OF ed]
  by (simp_all add: key_backspace_def key_left_def key_right_def unat_eq_0 word_less_nat_alt)

section \<open>The editor\<close>

text \<open>The keys by what they do, the codes that the terminal sends for them, and their effect on a
  text with a cursor.\<close>

datatype key = KChar u8 | KLeft | KRight | KBack

fun key_code :: "key \<Rightarrow> u8 list" where
  "key_code (KChar c) = [c]"
| "key_code KLeft = [0x1B, 0x5B, 0x44]"
| "key_code KRight = [0x1B, 0x5B, 0x43]"
| "key_code KBack = [0x08]"

fun edit :: "key \<Rightarrow> u8 list \<times> u8 list \<Rightarrow> u8 list \<times> u8 list" where
  "edit (KChar c) (l, r) = (l @ [c], r)"
| "edit KLeft (l, r) = (if l = [] then (l, r) else (butlast l, last l # r))"
| "edit KRight (l, r) = (case r of [] \<Rightarrow> (l, r) | x # xs \<Rightarrow> (l @ [x], xs))"
| "edit KBack (l, r) = (butlast l, r)"

text \<open>The state between two keys of a line, and how far a run of keys may change a session.\<close>

definition editing :: "u8 list \<times> u8 list \<Rightarrow> 'w session \<Rightarrow> bool" where
  "editing lr s \<longleftrightarrow> ed_at (fst lr) (snd lr) (shell s) \<and> key_stat (shell s) = WAIT_NORMAL \<and> echo_mode (shell s) \<and>
     (\<forall>c \<in> set (fst lr) \<union> set (snd lr). printable c)"

definition prints :: "u8 list \<Rightarrow> 'w session \<Rightarrow> 'w session \<Rightarrow> bool" where
  "prints out s s' \<longleftrightarrow> tty s' = tty s @ out \<and> world s' = world s \<and> prompt_custom s' = prompt_custom s \<and>
     prompt_mode (shell s') = prompt_mode (shell s)"

lemma prints_refl [simp]: "prints [] s s"
  by (simp add: prints_def)

lemma prints_trans: "prints a s t \<Longrightarrow> prints b t u \<Longrightarrow> prints (a @ b) s u"
  by (simp add: prints_def)

lemma printsI: "same_modes (shell s) h \<Longrightarrow> prints out s (s\<lparr>shell := h, tty := tty s @ out\<rparr>)"
  by (simp add: prints_def same_modes_def)

lemma printable_plain:
  "printable c \<Longrightarrow> c \<noteq> 0 \<and> c \<noteq> 0xFF \<and> c \<noteq> 0x09 \<and> c \<noteq> 0x7F \<and> c \<noteq> 0x08 \<and> c \<noteq> 0x0D \<and> c \<noteq> 0x0A \<and> c \<noteq> 0x1B"
  by (auto simp: printable_def word_less_nat_alt word_le_nat_alt)

lemma display_printable:
  assumes "\<forall>c \<in> set cs. printable c"
  shows "length old = length cs \<Longrightarrow> display cs (a @ old @ z, length a) = (a @ cs @ z, length a + length cs)"
    and "length old \<le> length cs \<Longrightarrow> display cs (a @ old, length a) = (a @ cs, length a + length cs)"
proof -
  have "\<forall>c \<in> set cs. c \<noteq> bs \<and> c \<noteq> newline" using assms printable_plain by blast
  from display_text [OF this]
  show "length old = length cs \<Longrightarrow> display cs (a @ old @ z, length a) = (a @ cs @ z, length a + length cs)"
    "length old \<le> length cs \<Longrightarrow> display cs (a @ old, length a) = (a @ cs, length a + length cs)" by blast+
qed

text \<open>Text that is written over text and blanks: the blanks give way or stay.\<close>

lemma display_over:
  assumes "\<forall>c \<in> set cs. printable c" "length old \<le> length cs"
  shows "\<exists>j. display cs (a @ old @ replicate k 0x20, length a) = (a @ cs @ replicate j 0x20, length a + length cs)"
proof (cases "length cs \<le> length old + k")
  case True
  have "old @ replicate k 0x20 = (old @ replicate (length cs - length old) 0x20) @ replicate (k - (length cs - length old)) (0x20 :: u8)"
    using True by (simp flip: replicate_add)
  then show ?thesis
    using display_printable(1) [OF assms(1), of "old @ replicate (length cs - length old) 0x20" a] assms(2) by auto
next
  case False
  then show ?thesis
    using display_printable(2) [OF assms(1), of "old @ replicate k 0x20" a] by (intro exI [of _ 0]) simp
qed

lemma finsh_keys_one: "finsh_keys tbl call [c] s = finsh_key tbl call c s"
  by (cases "finsh_key tbl call c s") simp_all

lemma finsh_keys_append: "finsh_keys tbl call (xs @ ys) s = finsh_keys tbl call xs s \<bind> finsh_keys tbl call ys"
  by (induction xs arbitrary: s) (simp_all add: bind_assoc split: bind_split)

text \<open>What a key prints keeps the screen showing the text.\<close>

lemma screen_char:
  assumes "printable c" "\<forall>x \<in> set r. printable x" "shows_line p l r scr"
  shows "shows_line p (l @ [c]) r (display (c # r @ replicate (length r) bs) scr)"
proof -
  obtain k where scr: "scr = ((p @ l) @ r @ replicate k 0x20, length (p @ l))"
    using assms(3) by (auto simp: shows_line_def)
  obtain j where "display (c # r) scr = ((p @ l) @ (c # r) @ replicate j 0x20, length (p @ l) + length (c # r))"
    using display_over [of "c # r" r "p @ l" k] assms(1,2) scr by auto
  then have "display (c # r @ replicate (length r) bs) scr =
      ((p @ l) @ (c # r) @ replicate j 0x20, length (p @ l) + length (c # r) - length r)"
    using display_append [of "c # r" "replicate (length r) bs" scr] display_back by simp
  then show ?thesis unfolding shows_line_def by (intro exI [of _ j]) simp
qed

lemma screen_left:
  assumes "shows_line p (l @ [x]) r scr"
  shows "shows_line p l (x # r) (display [bs] scr)"
  using assms by (auto simp: shows_line_def display_def)

lemma screen_right:
  assumes "printable x" "shows_line p l (x # r) scr"
  shows "shows_line p (l @ [x]) r (display [x] scr)"
proof -
  obtain k where scr: "scr = ((p @ l) @ [x] @ r @ replicate k 0x20, length (p @ l))"
    using assms(2) by (auto simp: shows_line_def)
  have "display [x] scr = ((p @ l) @ [x] @ r @ replicate k 0x20, length (p @ l) + 1)"
    using display_printable(1) [of "[x]" "[x]" "p @ l"] assms(1) scr by simp
  then show ?thesis unfolding shows_line_def by (intro exI [of _ k]) simp
qed

lemma screen_back:
  assumes "\<forall>x \<in> set r. printable x" "shows_line p (l @ [x]) r scr"
  shows "shows_line p l r (display (if r = [] then [bs, 0x20, bs]
    else [bs] @ r @ [0x20, 0x20, bs] @ replicate (Suc (length r)) bs) scr)"
proof -
  obtain k where scr: "display [bs] scr = ((p @ l) @ (x # r) @ replicate k 0x20, length (p @ l))"
    using assms(2) by (auto simp: shows_line_def display_def)
  have blank: "printable 0x20" by (simp add: printable_def)
  have main: "shows_line p l r (display ([bs] @ (r @ replicate n 0x20) @ replicate (length r + n) bs) scr)" if "0 < n" for n
  proof -
    have "\<forall>c \<in> set (r @ replicate n 0x20). printable c" "length (x # r) \<le> length (r @ replicate n (0x20 :: u8))"
      using assms(1) blank that by auto
    from display_over [OF this, of "p @ l" k] obtain j where "display (r @ replicate n 0x20) (display [bs] scr) =
        ((p @ l) @ (r @ replicate n 0x20) @ replicate j 0x20, length (p @ l) + length (r @ replicate n (0x20 :: u8)))"
      unfolding scr by blast
    then have "display ([bs] @ (r @ replicate n 0x20) @ replicate (length r + n) bs) scr =
        ((p @ l) @ (r @ replicate n 0x20) @ replicate j 0x20, length (p @ l) + (length r + n) - (length r + n))"
      unfolding display_append by (simp add: display_back)
    then show ?thesis unfolding shows_line_def by (intro exI [of _ "n + j"]) (simp add: replicate_add)
  qed
  have "replicate 2 (0x20 :: u8) = [0x20, 0x20]" by (simp add: numeral_2_eq_2)
  then show ?thesis using main [of 1] main [of 2] by (cases "r = []") simp_all
qed

lemma set_key_stat_sel [simp]:
  "set_key_stat a (set_key_stat b s) = set_key_stat a s" "key_stat (shell (set_key_stat a s)) = a"
  by (simp_all add: set_key_stat_def)

lemma set_key_stat_same: "key_stat (shell s) = a \<Longrightarrow> set_key_stat a s = s"
  by (simp add: set_key_stat_def)

lemma cursor_key:
  assumes "key_stat (shell s) = WAIT_NORMAL"
  shows "finsh_keys tbl call [0x1B, 0x5B, 0x44] s = Some (key_left s)"
    "finsh_keys tbl call [0x1B, 0x5B, 0x43] s = key_right s"
  using assms by (simp_all add: finsh_key_def set_key_stat_same split: bind_split)

lemma editingI:
  assumes "ed_at l r h" "same_modes (shell s) h" "editing lr s" "\<forall>c \<in> set l \<union> set r. printable c"
  shows "editing (l, r) (s\<lparr>shell := h, tty := out\<rparr>)"
  using assms by (simp add: editing_def same_modes_def)

lemma key_doneI:
  assumes "finsh_keys tbl call code s = Some (s\<lparr>shell := h, tty := tty s @ out\<rparr>)" "ed_at l' r' h"
    and "same_modes (shell s) h" "editing lr s" "\<forall>c \<in> set l' \<union> set r'. printable c"
    and "\<And>p scr. shows_line p l r scr \<Longrightarrow> shows_line p l' r' (display out scr)"
  shows "\<exists>s' out. finsh_keys tbl call code s = Some s' \<and> editing (l', r') s' \<and> prints out s s' \<and>
    (\<forall>p scr. shows_line p l r scr \<longrightarrow> shows_line p (fst (l', r')) (snd (l', r')) (display out scr))"
proof (intro exI conjI allI impI)
  show "finsh_keys tbl call code s = Some (s\<lparr>shell := h, tty := tty s @ out\<rparr>)" by (rule assms(1))
  show "editing (l', r') (s\<lparr>shell := h, tty := tty s @ out\<rparr>)" by (rule editingI [OF assms(2-5)])
  show "prints out s (s\<lparr>shell := h, tty := tty s @ out\<rparr>)" by (rule printsI [OF assms(3)])
  show "shows_line p (fst (l', r')) (snd (l', r')) (display out scr)" if "shows_line p l r scr" for p scr
    using assms(6) [OF that] by simp
qed

lemma edit_key:
  assumes ed: "editing (l, r) s" and k: "\<And>c. k = KChar c \<Longrightarrow> printable c \<and> length l + length r < 79"
  shows "\<exists>s' out. finsh_keys tbl call (key_code k) s = Some s' \<and> editing (edit k (l, r)) s' \<and> prints out s s' \<and>
    (\<forall>p scr. shows_line p l r scr \<longrightarrow> shows_line p (fst (edit k (l, r))) (snd (edit k (l, r))) (display out scr))"
proof -
  have e: "ed_at l r (shell s)" "key_stat (shell s) = WAIT_NORMAL" "echo_mode (shell s)"
      "\<forall>c \<in> set l. printable c" "\<forall>c \<in> set r. printable c"
    using ed by (auto simp: editing_def)
  have none: "\<exists>s' out. Some s = Some s' \<and> editing (l, r) s' \<and> prints out s s' \<and>
      (\<forall>p scr. shows_line p l r scr \<longrightarrow> shows_line p l r (display out scr))"
    using ed by (intro exI [of _ s] exI [of _ "[]"]) (simp add: display_def)
  show ?thesis
  proof (cases k)
    case (KChar c)
    note c = k [OF KChar]
    have "c \<noteq> 0" using printable_plain c by blast
    from key_char_spec [OF e(1) _ this e(3)] c obtain h where
      h: "key_char c s = Some (s\<lparr>shell := h, tty := tty s @ c # r @ replicate (length r) bs\<rparr>)"
        "ed_at (l @ [c]) r h" "same_modes (shell s) h"
      by blast
    have code: "finsh_keys tbl call [c] s = key_char c s"
      using printable_plain [OF conjunct1 [OF c]] e(2) unfolding finsh_keys_one by (simp add: finsh_key_def plain_key_def)
    show ?thesis
      unfolding KChar edit.simps key_code.simps
      by (rule key_doneI [OF _ h(2,3) ed _ screen_char [OF conjunct1 [OF c] e(5)]]) (use code h(1) e(4,5) c in auto)
  next
    case KLeft
    show ?thesis
    proof (cases l rule: rev_cases)
      case Nil
      have "finsh_keys tbl call (key_code KLeft) s = Some s" "edit KLeft (l, r) = (l, r)"
        unfolding key_code.simps cursor_key(1) [OF e(2)] key_ends(2) [OF e(1) Nil] by (simp_all add: Nil)
      then show ?thesis using none by (simp only: KLeft fst_conv snd_conv)
    next
      case (snoc l' x)
      obtain h where h: "key_left s = s\<lparr>shell := h, tty := tty s @ [bs]\<rparr>" "ed_at l' (x # r) h" "same_modes (shell s) h"
        using key_left_spec e(1) snoc by blast
      have code: "finsh_keys tbl call [0x1B, 0x5B, 0x44] s = Some (s\<lparr>shell := h, tty := tty s @ [bs]\<rparr>)"
        using cursor_key(1) [OF e(2), of tbl call] h(1) by (simp only:)
      have "edit KLeft (l, r) = (l', x # r)" by (simp add: snoc)
      then show ?thesis
        unfolding KLeft key_code.simps
        by (simp only:) (rule key_doneI [OF code h(2,3) ed _ screen_left], use e(4,5) in \<open>auto simp: snoc\<close>)
    qed
  next
    case KRight
    show ?thesis
    proof (cases r)
      case Nil
      have "finsh_keys tbl call (key_code KRight) s = Some s" "edit KRight (l, r) = (l, r)"
        unfolding key_code.simps cursor_key(2) [OF e(2)] key_ends(3) [OF e(1) Nil] by (simp_all add: Nil)
      then show ?thesis using none by (simp only: KRight fst_conv snd_conv)
    next
      case (Cons x r')
      obtain h where h: "key_right s = Some (s\<lparr>shell := h, tty := tty s @ [x]\<rparr>)" "ed_at (l @ [x]) r' h" "same_modes (shell s) h"
        using key_right_spec e(1) Cons by blast
      have code: "finsh_keys tbl call [0x1B, 0x5B, 0x43] s = Some (s\<lparr>shell := h, tty := tty s @ [x]\<rparr>)"
        using cursor_key(2) [OF e(2), of tbl call] h(1) by (simp only:)
      have "edit KRight (l, r) = (l @ [x], r')" by (simp add: Cons)
      then show ?thesis
        unfolding KRight key_code.simps
        by (simp only:) (rule key_doneI [OF code h(2,3) ed _ screen_right], use e(4,5) in \<open>auto simp: Cons\<close>)
    qed
  next
    case KBack
    have code: "finsh_keys tbl call [0x08] s = key_backspace s"
      using e(2) unfolding finsh_keys_one by (simp add: finsh_key_def plain_key_def)
    show ?thesis
    proof (cases l rule: rev_cases)
      case Nil
      have "finsh_keys tbl call (key_code KBack) s = Some s" "edit KBack (l, r) = (l, r)"
        unfolding key_code.simps code key_ends(1) [OF e(1) Nil] by (simp_all add: Nil)
      then show ?thesis using none by (simp only: KBack fst_conv snd_conv)
    next
      case (snoc l' x)
      obtain h out where h: "key_backspace s = Some (s\<lparr>shell := h, tty := tty s @ out\<rparr>)" "ed_at l' r h" "same_modes (shell s) h"
          "out = (if r = [] then [bs, 0x20, bs] else [bs] @ r @ [0x20, 0x20, bs] @ replicate (Suc (length r)) bs)"
        using key_backspace_spec e(1) snoc by blast
      have "shows_line p l' r (display out scr)" if "shows_line p l r scr" for p scr
        using screen_back [OF e(5)] that unfolding h(4) snoc by blast
      moreover have "edit KBack (l, r) = (l', r)" by (simp add: snoc)
      ultimately show ?thesis
        unfolding KBack key_code.simps
        by (simp only:) (rule key_doneI [OF _ h(2,3) ed], use h(1) code e(4,5) in \<open>auto simp: snoc\<close>)
    qed
  qed
qed

section \<open>Many keys, and the end of a line\<close>

fun typed :: "key list \<Rightarrow> u8 list" where
  "typed [] = []"
| "typed (KChar c # ks) = c # typed ks"
| "typed (k # ks) = typed ks"

definition key_codes :: "key list \<Rightarrow> u8 list" where
  "key_codes ks = concat (map key_code ks)"

abbreviation edit_all :: "key list \<Rightarrow> u8 list \<times> u8 list \<Rightarrow> u8 list \<times> u8 list" where
  "edit_all ks lr \<equiv> fold edit ks lr"

lemma edit_length:
  "length (fst (edit k lr)) + length (snd (edit k lr)) + length (typed ks) \<le> length (fst lr) + length (snd lr) + length (typed (k # ks))"
  by (cases k; cases lr) (auto split: list.splits)

lemma edit_keys:
  assumes "editing lr s" "\<forall>c \<in> set (typed ks). printable c"
    and "length (fst lr) + length (snd lr) + length (typed ks) < FINSH_CMD_SIZE"
  shows "\<exists>s' out. finsh_keys tbl call (key_codes ks) s = Some s' \<and> editing (edit_all ks lr) s' \<and> prints out s s' \<and>
    (\<forall>p scr. shows_line p (fst lr) (snd lr) scr \<longrightarrow>
       shows_line p (fst (edit_all ks lr)) (snd (edit_all ks lr)) (display out scr))"
  using assms
proof (induction ks arbitrary: lr s)
  case Nil
  then show ?case
    by (intro exI [of _ s] exI [of _ "[]"]) (simp add: key_codes_def display_def)
next
  case (Cons k ks)
  obtain l r where lr: "lr = (l, r)" by (cases lr)
  have room: "printable c \<and> length l + length r < 79" if "k = KChar c" for c
    using Cons.prems(2,3) that by (auto simp: lr FINSH_CMD_SIZE_def)
  obtain s1 out1 where s1: "finsh_keys tbl call (key_code k) s = Some s1" "editing (edit k lr) s1" "prints out1 s s1"
      "\<forall>p scr. shows_line p (fst lr) (snd lr) scr \<longrightarrow> shows_line p (fst (edit k lr)) (snd (edit k lr)) (display out1 scr)"
    using edit_key [of l r s k tbl call, OF _ room] Cons.prems(1) by (auto simp: lr)
  have "\<forall>c \<in> set (typed ks). printable c" using Cons.prems(2) by (cases k) auto
  moreover have "length (fst (edit k lr)) + length (snd (edit k lr)) + length (typed ks) < FINSH_CMD_SIZE"
    using edit_length [of k lr ks] Cons.prems(3) by linarith
  ultimately obtain s2 out2 where s2: "finsh_keys tbl call (key_codes ks) s1 = Some s2" "editing (edit_all ks (edit k lr)) s2"
      "prints out2 s1 s2"
      "\<forall>p scr. shows_line p (fst (edit k lr)) (snd (edit k lr)) scr \<longrightarrow>
         shows_line p (fst (edit_all ks (edit k lr))) (snd (edit_all ks (edit k lr))) (display out2 scr)"
    using Cons.IH [OF s1(2)] by blast
  have "finsh_keys tbl call (key_codes (k # ks)) s = Some s2"
    using s1(1) s2(1) by (simp add: key_codes_def finsh_keys_append)
  moreover have "shows_line p (fst (edit_all (k # ks) lr)) (snd (edit_all (k # ks) lr)) (display (out1 @ out2) scr)"
    if "shows_line p (fst lr) (snd lr) scr" for p scr
    using s2(4) [rule_format, OF s1(4) [rule_format, OF that]] by (simp add: display_append)
  ultimately show ?case
    using s2(2) prints_trans [OF s1(3) s2(3)] by (intro exI [of _ s2] exI [of _ "out1 @ out2"]) simp
qed

text \<open>Return runs the text of the line, wherever the cursor is, and begins a new one.\<close>

definition fresh_line :: "finsh_shell \<Rightarrow> finsh_shell" where
  "fresh_line h = h\<lparr>line := replicate FINSH_CMD_SIZE 0, line_position := 0, line_curpos := 0\<rparr>"

lemma key_enter_spec:
  assumes ed: "editing (l, r) s" and pr: "bare_format (finsh_get_prompt s) = Some pr"
    and run: "msh_exec tbl call ((l @ r) @ 0 # replicate (FINSH_CMD_SIZE - Suc (length (l @ r))) 0) 0 (length (l @ r)) (world s) =
      Some (rv, xs, out, w)" and len: "length xs = FINSH_CMD_SIZE"
  shows "finsh_key tbl call 0x0D s =
      Some (s\<lparr>shell := fresh_line (shell s), tty := tty s @ [newline] @ out @ clip pr, world := w\<rparr>)"
    "editing ([], []) (s\<lparr>shell := fresh_line (shell s), tty := tty s @ [newline] @ out @ clip pr, world := w\<rparr>)"
proof -
  have e: "ed_at l r (shell s)" "key_stat (shell s) = WAIT_NORMAL" "echo_mode (shell s)"
    using ed by (auto simp: editing_def)
  note d = ed_atD [OF e(1)]
  obtain z where z: "replicate (FINSH_CMD_SIZE - length l - length r) (0 :: u8) = 0 # z"
    and z2: "z = replicate (FINSH_CMD_SIZE - Suc (length l) - length r) 0"
    by (rule ed_zeros [OF d(6)])
  have line: "line (shell s) = (l @ r) @ 0 # replicate (FINSH_CMD_SIZE - Suc (length (l @ r))) 0"
    using d(1) unfolding z z2 by simp
  have pos: "unat (line_position (shell s)) = length (l @ r)" using d(2) by simp
  define s1 where "s1 = s\<lparr>tty := (tty s @ [newline]) @ out, shell := (shell s)\<lparr>line := xs\<rparr>, world := w\<rparr>"
  have "finsh_get_prompt s1 = finsh_get_prompt s" by (simp add: finsh_get_prompt_def s1_def)
  then have "show_prompt s1 = Some (say (clip pr) s1)" using pr by (simp add: show_prompt_def)
  moreover have "finsh_key tbl call 0x0D s = key_enter tbl call s" using e(2) by (simp add: finsh_key_def plain_key_def)
  moreover have "key_enter tbl call s = do {
     s \<leftarrow> show_prompt s1;
     let s = upd_shell (\<lambda>h. h\<lparr>line := replicate (length (line h)) 0\<rparr>) s;
     Some (upd_shell (\<lambda>h. h\<lparr>line_position := 0, line_curpos := 0\<rparr>) s)
   }"
    using run e(3) unfolding key_enter_def Let_def say_def
    by (simp add: line pos s1_def del: Option_bind_Some_iff append.simps append_assoc length_append)
  ultimately show "finsh_key tbl call 0x0D s =
      Some (s\<lparr>shell := fresh_line (shell s), tty := tty s @ [newline] @ out @ clip pr, world := w\<rparr>)"
    using len by (simp add: s1_def say_def fresh_line_def)
  show "editing ([], []) (s\<lparr>shell := fresh_line (shell s), tty := tty s @ [newline] @ out @ clip pr, world := w\<rparr>)"
    using e(2,3) by (simp add: editing_def ed_at_def fresh_line_def FINSH_CMD_SIZE_def)
qed

section \<open>The tabulator\<close>

lemma display_newline: "display (newline # cs) scr = display cs ([], 0)"
  by (cases scr) (simp add: display_def)

lemma display_lines: "display (concat (map (\<lambda>c. c @ [newline]) cs) @ ds) ([], 0) = display ds ([], 0)"
proof (induction cs)
  case (Cons c cs)
  have "display (c @ newline # es) ([], 0) = display es ([], 0)" for es
    using display_append [of c "newline # es"] display_newline by simp
  then show ?case using Cons by simp
qed simp

text \<open>The tabulator replaces the line by the longest common beginning of the candidates, lists them,
  and shows the new line behind a new prompt.\<close>

lemma key_tab_spec:
  assumes ed: "editing (l, r) s" and ok: "names_ok tbl" and ne: "l @ r \<noteq> []"
    and cand: "\<forall>c \<in> set (candidates tbl (l @ r)). length c < FINSH_CMD_SIZE \<and> (\<forall>x \<in> set c. printable x)"
  shows "\<exists>t s' out. finsh_key tbl call 0x09 s = Some s' \<and> editing (t, []) s' \<and> prints out s s' \<and> prefix (l @ r) t \<and>
    (if candidates tbl (l @ r) = [] then t = l @ r else longest_common t (candidates tbl (l @ r))) \<and>
    out = replicate (length l) bs @ [newline] @ concat (map (\<lambda>c. c @ [newline]) (candidates tbl (l @ r))) @
      clip (finsh_get_prompt s @ t)"
proof -
  have e: "ed_at l r (shell s)" "key_stat (shell s) = WAIT_NORMAL" "echo_mode (shell s)"
    using ed by (auto simp: editing_def)
  note d = ed_atD [OF e(1)]
  define n where "n = FINSH_CMD_SIZE - Suc (length (l @ r))"
  have nt: "length (l @ r) + n = 79" using d(6) by (simp add: n_def FINSH_CMD_SIZE_def)
  have "FINSH_CMD_SIZE - length l - length r = Suc n" using d(6) by (simp add: n_def FINSH_CMD_SIZE_def)
  then have "replicate (FINSH_CMD_SIZE - length l - length r) (0 :: u8) = replicate n 0 @ [0]"
    by (simp flip: replicate_append_same)
  then have line: "line (shell s) = (l @ r) @ replicate n 0 @ 0 # []" using d(1) by simp
  have fits: "\<forall>c \<in> set (candidates tbl (l @ r)). length c \<le> length (l @ r) + n"
    unfolding nt using cand by (auto simp: FINSH_CMD_SIZE_def)
  have "0 \<notin> set (l @ r)" using d(7,8) by simp
  from auto_complete_spec [OF ok this ne fits, of "[]"] obtain t where
    t: "msh_auto_complete tbl (line (shell s)) =
          Some (t @ replicate (79 - length t) 0 @ 0 # [], concat (map (\<lambda>c. c @ [newline]) (candidates tbl (l @ r))))"
      "0 \<notin> set t" "length t \<le> 79" "prefix (l @ r) t"
      "if candidates tbl (l @ r) = [] then t = l @ r else longest_common t (candidates tbl (l @ r))"
    unfolding line nt by blast
  let ?xs = "t @ replicate (79 - length t) 0 @ [0]"
  let ?out = "replicate (length l) bs @ [newline] @ concat (map (\<lambda>c. c @ [newline]) (candidates tbl (l @ r))) @
      clip (finsh_get_prompt s @ t)"
  define h where "h = (shell s)\<lparr>line := ?xs, line_position := of_nat (length t), line_curpos := of_nat (length t)\<rparr>"
  obtain z where "replicate (79 - length t) 0 @ [0] = 0 # (z :: u8 list)" by (cases "79 - length t") auto
  then have str: "c_str ?xs 0 = Some t" using c_str_at [of "[]" 0 t z] t(2) by simp
  have "FINSH_CMD_SIZE - length t = Suc (79 - length t)" using t(3) by (simp add: FINSH_CMD_SIZE_def)
  then have "replicate (FINSH_CMD_SIZE - length t) (0 :: u8) = replicate (79 - length t) 0 @ [0]"
    by (simp flip: replicate_append_same)
  then have ed': "ed_at t [] h" using t(2,3) by (simp add: ed_at_def h_def FINSH_CMD_SIZE_def)
  have pr: "\<forall>c \<in> set t. printable c"
  proof (cases "candidates tbl (l @ r) = []")
    case True
    then show ?thesis using t(5) ed by (auto simp: editing_def)
  next
    case False
    then obtain c where "c \<in> set (candidates tbl (l @ r))" by (cases "candidates tbl (l @ r)") auto
    moreover from this have "prefix t c" using t(5) False by (auto simp: longest_common_def)
    ultimately show ?thesis using cand set_mono_prefix by blast
  qed
  have "finsh_get_prompt (s\<lparr>tty := o1, shell := (shell s)\<lparr>line := ys\<rparr>\<rparr>) = finsh_get_prompt s" for ys o1
    by (simp add: finsh_get_prompt_def)
  then have "key_tab tbl s = Some (s\<lparr>shell := h, tty := tty s @ ?out\<rparr>)"
    using t(1) str d(3) by (simp add: key_tab_def shell_auto_complete_def say_def h_def)
  moreover have "finsh_key tbl call 0x09 s = key_tab tbl s" using e(2) by (simp add: finsh_key_def plain_key_def)
  moreover have "same_modes (shell s) h" by (simp add: same_modes_def h_def)
  ultimately show ?thesis
    using t(4,5) editingI [OF ed' _ ed] printsI [of s h ?out] pr
    by (rule_tac x = t in exI, rule_tac x = "s\<lparr>shell := h, tty := tty s @ ?out\<rparr>" in exI, rule_tac x = ?out in exI) simp
qed

section \<open>A line that is too long\<close>

text \<open>With the 80th character the text fills the array, the positions start again at zero, and the
  old text is not cleared.\<close>

lemma key_char_full:
  assumes ed: "ed_at l [] (shell s)" and full: "length l = 79" and echo: "echo_mode (shell s)"
  shows "\<exists>s'. key_char ch s = Some s' \<and> line (shell s') = l @ [ch] \<and> line_position (shell s') = 0 \<and>
    line_curpos (shell s') = 0 \<and> tty s' = tty s @ [ch] \<and> key_stat (shell s') = key_stat (shell s)"
proof -
  note d = ed_atD [OF ed]
  have "line_position (shell s) = 79" "line_curpos (shell s) = 79"
    using ed full by (simp_all add: ed_at_def)
  moreover have "wr (line (shell s)) 79 ch = Some (l @ [ch])"
    using d(1) full by (simp add: wr_def list_update_append FINSH_CMD_SIZE_def)
  ultimately show ?thesis
    using echo by (simp add: key_char_def Let_def say_def FINSH_CMD_SIZE_def)
qed

text \<open>The tabulator then reads the line as a string and runs out of the array.\<close>

lemma key_tab_full:
  assumes "0 \<notin> set (line (shell s))"
  shows "key_tab tbl s = None"
proof -
  have "c_str (line (shell s)) 0 = None" using assms by (simp add: c_str_def)
  moreover have "rd (line (shell s)) 0 \<noteq> Some 0" 
    using assms by (cases "line (shell s)") (auto simp: rd_def)
  ultimately have "msh_auto_complete tbl (line (shell s)) = None"
    by (cases "rd (line (shell s)) 0") (auto simp: msh_auto_complete_def)
  then show ?thesis by (simp add: key_tab_def shell_auto_complete_def say_def)
qed

text \<open>A command that is typed over the old text is found, but its last argument has no end inside
  the array.\<close>

lemma split_full:
  assumes "0 \<notin> set (w @ q)" "\<forall>c \<in> set w. \<not> blank c" "w \<noteq> []" "hd w \<noteq> quote" "q \<noteq> []"
  shows "msh_split (w @ q) 0 (length w) = Some (w @ q, [0], []) \<and> c_str (w @ q) 0 = None"
proof -
  have word: "skip_word 0 (length w) (w @ q) n = Some (length w)" if "n \<le> length w" for n
    using that
  proof (induction "length w - n" arbitrary: n)
    case 0
    then show ?case using assms(5) by (subst skip_word.simps) (simp add: rd_def)
  next
    case (Suc k)
    then have n: "n < length w" by simp
    then have "skip_word 0 (length w) (w @ q) (Suc n) = Some (length w)" using Suc by simp
    moreover have "rd (w @ q) n = Some (w ! n)" using n by (simp add: rd_def nth_append)
    moreover have "\<not> blank (w ! n)" using n assms(2) by simp
    ultimately show ?case using n by (subst skip_word.simps) simp
  qed
  obtain c v where w: "w = c # v" using assms(3) by (cases w) auto
  have "strip_blanks 0 (length w) (w @ q) 0 = Some (w @ q, 0)"
    using assms(2) by (subst strip_blanks.simps) (simp add: rd_def w)
  then have "msh_split (w @ q) 0 (length w) = Some (w @ q, [0], [])"
    using word [of 0] assms(3,4) unfolding msh_split_def
    by (subst split_loop.simps) (simp add: rd_def w FINSH_ARG_MAX_def)
  then show ?thesis using assms(1) by (simp add: c_str_def)
qed

text \<open>A character that is typed in the middle of 79 others leaves no room for the terminating zero
  that the echo of the rest of the line needs.\<close>

lemma key_char_middle_full:
  assumes ed: "ed_at l r (shell s)" and full: "length l + length r = 79" "r \<noteq> []" and ch: "ch \<noteq> 0"
    and echo: "echo_mode (shell s)"
  shows "key_char ch s = None"
proof -
  note d = ed_atD [OF ed]
  have "FINSH_CMD_SIZE - length l - length r = 1" using full(1) by (simp add: FINSH_CMD_SIZE_def)
  then have line: "line (shell s) = l @ r @ [0]" using d(1) by simp
  have lt: "line_curpos (shell s) < line_position (shell s)" using d(2,3) full(2) by (simp add: word_less_nat_alt)
  have diff: "pos_diff (line_position (shell s)) (line_curpos (shell s)) = length r"
    using d by (simp add: pos_diff_nat)
  obtain x y where x: "r = x # y" using full(2) by (cases r) auto
  have mv: "move (Suc (length l)) (length l) (length r) (l @ r @ [0]) = Some (l @ x # r)"
    by (simp add: move_def x)
  have w: "wr (l @ x # r) (length l) ch = Some (l @ ch # r)" by (simp add: wr_def)
  have cs: "c_str (l @ ch # r) (length l) = None" using d(8) ch by (simp add: c_str_def)
  show ?thesis
    using lt diff mv w cs line d(2,3) echo full
    by (simp add: key_char_def Let_def FINSH_CMD_SIZE_def del: Option_bind_Some_iff)
qed

text \<open>A prompt with a per cent sign is taken for a format.\<close>

lemma prompt_is_format:
  "prompt_mode (shell s) \<Longrightarrow> show_prompt (finsh_set_prompt True (Some [0x35, 0x30, 0x25]) s) = None"
  by (simp add: show_prompt_def finsh_get_prompt_def finsh_set_prompt_def RT_CONSOLEBUF_SIZE_def)

end
