(* ===== verification/Shell_Props.thy ===== *)
theory Shell_Props
  imports Shell
begin

text \<open>
  The properties of the shell: the arguments of a command line, the line editor with what the
  terminal shows, the command that a line runs, and completion.  They are applied to a shell
  with the commands \<open>ps\<close>, \<open>free\<close> and \<open>frame\<close>, which record their arguments.
\<close>

definition entry :: "string \<Rightarrow> nat finsh_syscall" where
  "entry n = \<lparr>sc_name = map of_char n, sc_desc = [], sc_func = length n\<rparr>"

definition demo_table :: "nat finsh_syscall list" where
  "demo_table = [entry ''list_thread'', entry ''__cmd_ps'', entry ''__cmd_free'', entry ''__cmd_frame'']"

definition record_args :: "(nat, (nat \<times> u8 list option list) list) call" where
  "record_args f argc argv buf w = Some (0, buf, [], w @ [(f, map (c_str buf) argv)])"

definition new_session :: "'w \<Rightarrow> 'w session" where
  "new_session w = \<lparr>shell = \<lparr>key_stat = WAIT_NORMAL, echo_mode = True, prompt_mode = True,
       line = replicate FINSH_CMD_SIZE 0, line_position = 0, line_curpos = 0\<rparr>,
     prompt_custom = None, tty = map of_char ''msh >'', world = w\<rparr>"

lemma new_session_ok:
  "editing ([], []) (new_session w)" "shows_line (map of_char ''msh >'') [] [] (display (tty (new_session w)) ([], 0))"
  "bare_format (finsh_get_prompt (new_session w)) = Some (map of_char ''msh >'')" "world (new_session w) = w"
  by (simp_all add: new_session_def editing_def ed_at_def FINSH_CMD_SIZE_def shows_line_def display_def
      finsh_get_prompt_def RT_CONSOLEBUF_SIZE_def)

lemma demo_names: "names_ok demo_table"
  by (simp add: names_ok_def demo_table_def entry_def)

section \<open>The arguments\<close>

text \<open>C39: \<^verbatim>\<open>msh_split\<close> splits a line in place: it returns, stays inside the line, and the strings at the
  offsets it returns are the first eight arguments of the text, where blanks separate
  arguments and a quoted string is one argument.\<close>

theorem msh_split_args:
  assumes "length p = cmd" "0 \<notin> set cs"
  shows "\<exists>t argv out. msh_split (p @ cs @ 0 # q) cmd (length cs) = Some (p @ t @ 0 # q, argv, out) \<and>
    length t = length cs \<and> map (c_str (p @ t @ 0 # q)) argv = map Some (take FINSH_ARG_MAX (args cs))"
  using assms by (rule msh_split_spec)

text \<open>The line \<open>echo "a b" c\<close>.\<close>

definition demo_line :: buffer where
  "demo_line = [101, 99, 104, 111, 32, 34, 97, 32, 98, 34, 32, 32, 99]"

lemma demo_args: "args demo_line = [[101, 99, 104, 111], [97, 32, 98], [99]]"
  by (simp add: demo_line_def args.simps blank_def)

theorem msh_split_args_witness:
  "\<exists>t argv out. msh_split (demo_line @ [0]) 0 13 = Some (t, argv, out) \<and>
     map (c_str t) argv = [Some [101, 99, 104, 111], Some [97, 32, 98], Some [99]]"
proof -
  have "length ([] :: buffer) = 0" "0 \<notin> set demo_line" "length demo_line = 13" by (simp_all add: demo_line_def)
  with msh_split_args [OF this(1,2), of "[]"] show ?thesis
    by (auto simp: demo_args FINSH_ARG_MAX_def)
qed

section \<open>The editor\<close>

text \<open>C37: The line editor implements a text with a cursor: after any sequence of printable
  characters, cursor keys and backspaces, of at most 79 characters in all, the line holds the
  text that the same sequence of edits gives, the cursor is in the same place, no access has
  left the array, and the terminal shows the prompt, this text and this cursor.\<close>

theorem editor_refines:
  assumes "editing lr s" "\<forall>c \<in> set (typed ks). printable c"
    and "length (fst lr) + length (snd lr) + length (typed ks) < FINSH_CMD_SIZE"
    and "shows_line p (fst lr) (snd lr) (display (tty s) scr)"
  shows "\<exists>s'. finsh_keys tbl call (key_codes ks) s = Some s' \<and> editing (edit_all ks lr) s' \<and> world s' = world s \<and>
    shows_line p (fst (edit_all ks lr)) (snd (edit_all ks lr)) (display (tty s') scr)"
proof -
  obtain s' out where s': "finsh_keys tbl call (key_codes ks) s = Some s'" "editing (edit_all ks lr) s'" "prints out s s'"
      "\<forall>p scr. shows_line p (fst lr) (snd lr) scr \<longrightarrow>
        shows_line p (fst (edit_all ks lr)) (snd (edit_all ks lr)) (display out scr)"
    using edit_keys [OF assms(1-3)] by blast
  have "display (tty s') scr = display out (display (tty s) scr)"
    using s'(3) by (simp add: prints_def display_append)
  then have "shows_line p (fst (edit_all ks lr)) (snd (edit_all ks lr)) (display (tty s') scr)"
    using s'(4) [rule_format, OF assms(4)] by simp
  then show ?thesis using s'(1-3) by (auto simp: prints_def)
qed

text \<open>Typing \<open>sx\<close>, a backspace, left, \<open>p\<close> gives \<open>ps\<close> with the cursor in the middle.\<close>

definition demo_keys :: "key list" where
  "demo_keys = [KChar 115, KChar 120, KBack, KLeft, KChar 112]"

theorem editor_refines_witness:
  "\<exists>s'. finsh_keys demo_table record_args [115, 120, 8, 27, 91, 68, 112] (new_session []) = Some s' \<and>
     take 3 (line (shell s')) = [112, 115, 0] \<and> line_curpos (shell s') = 1 \<and>
     shows_line (map of_char ''msh >'') [112] [115] (display (tty s') ([], 0))"
proof -
  have "edit_all demo_keys ([], []) = ([112], [115])" "key_codes demo_keys = [115, 120, 8, 27, 91, 68, 112]"
      "typed demo_keys = [115, 120, 112]"
    by (simp_all add: demo_keys_def key_codes_def)
  then show ?thesis
    using editor_refines [of "([], [])" "new_session []" demo_keys "map of_char ''msh >''" "([], 0)" demo_table record_args]
      new_session_ok
    by (fastforce simp: printable_def FINSH_CMD_SIZE_def editing_def ed_at_def)
qed

section \<open>The command of a line\<close>

definition call_ok :: "('f, 'w) call \<Rightarrow> bool" where
  "call_ok call \<longleftrightarrow> (\<forall>f argc argv buf w. \<exists>r buf' out w'. call f argc argv buf w = Some (r, buf', out, w') \<and>
     length buf' = length buf)"

text \<open>C38: From the keyboard to the command: a line that is typed and edited and ended with Return
  runs the command whose name is its first word, once, with the arguments of the edited text;
  a line with an unknown first word is answered with a message, a blank one with nothing.  In
  all cases an empty line follows.\<close>

theorem line_runs_command:
  assumes ed: "editing ([], []) s" and keys: "\<forall>c \<in> set (typed ks). printable c" "length (typed ks) < FINSH_CMD_SIZE"
    and prompt: "bare_format (finsh_get_prompt s) = Some pr" and ok: "names_ok tbl" "call_ok call"
    and cs: "edit_all ks ([], []) = (l, r)"
  shows "\<exists>s'. finsh_keys tbl call (key_codes ks @ [0x0D]) s = Some s' \<and> editing ([], []) s' \<and>
    (if first_word (l @ r) = [] then world s' = world s
     else case find_cmd tbl (first_word (l @ r)) of
         None \<Rightarrow> world s' = world s \<and> (\<exists>before. tty s' = before @ takeWhile (\<lambda>c. c \<noteq> 0x20) (dropWhile blank (l @ r)) @
           map of_char '': command not found.'' @ [newline] @ clip pr)
       | Some f \<Rightarrow> \<exists>argv buf rv buf' out. map (c_str buf) argv = map Some (take FINSH_ARG_MAX (args (l @ r))) \<and>
           call f (length argv) argv buf (world s) = Some (rv, buf', out, world s'))"
proof -
  let ?cs = "l @ r" and ?q = "replicate (FINSH_CMD_SIZE - Suc (length (l @ r))) (0 :: u8)"
  obtain s1 out1 where s1: "finsh_keys tbl call (key_codes ks) s = Some s1" "editing (l, r) s1" "prints out1 s s1"
    using edit_keys [OF ed keys(1), of tbl call] keys(2) cs by auto
  have w: "world s1 = world s" and p1: "finsh_get_prompt s1 = finsh_get_prompt s"
    using s1(3) by (simp_all add: prints_def finsh_get_prompt_def)
  note p1 = prompt [folded p1]
  have ed1: "ed_at l r (shell s1)" using s1(2) by (simp add: editing_def)
  have nz: "0 \<notin> set ?cs" and len: "length (?cs @ 0 # ?q) = FINSH_CMD_SIZE"
    using ed_atD(6-8) [OF ed1] by (simp_all add: FINSH_CMD_SIZE_def)
  have enter: "\<exists>s'. finsh_keys tbl call (key_codes ks @ [0x0D]) s = Some s' \<and> editing ([], []) s' \<and>
      world s' = w' \<and> tty s' = tty s1 @ [newline] @ out @ clip pr"
    if "msh_exec tbl call (?cs @ 0 # ?q) 0 (length ?cs) (world s) = Some (rv, xs, out, w')" "length xs = FINSH_CMD_SIZE"
    for rv xs out w'
    using key_enter_spec [OF s1(2) p1 that(1) [folded w] that(2)] s1(1)
    by (simp add: finsh_keys_append finsh_keys_one)
  consider "first_word ?cs = []" | "first_word ?cs \<noteq> []" "find_cmd tbl (first_word ?cs) = None"
    | f where "first_word ?cs \<noteq> []" "find_cmd tbl (first_word ?cs) = Some f"
    by fastforce
  then show ?thesis
  proof cases
    case 1
    have "\<forall>c \<in> set ?cs. blank c"
      by (rule trimmed [of ?cs]) (use 1 in \<open>auto simp: first_word_def dropWhile_append2\<close>)
    then show ?thesis using enter [OF msh_exec_blank len] 1 by auto
  next
    case 2
    then show ?thesis
      using msh_exec_unknown [OF ok(1) nz 2, of call ?q "world s"] enter len by fastforce
  next
    case 3
    obtain buf argv out0 where b: "length buf = length (?cs @ 0 # ?q)"
        "map (c_str buf) argv = map Some (take FINSH_ARG_MAX (args ?cs))"
        "msh_exec tbl call (?cs @ 0 # ?q) 0 (length ?cs) (world s) =
          map_option (\<lambda>(r, buf, o2, w). (r, buf, out0 @ o2, w)) (call f (length argv) argv buf (world s))"
      using msh_exec_known [OF ok(1) nz 3, of ?q call "world s"] by blast
    obtain rv buf' out w' where c: "call f (length argv) argv buf (world s) = Some (rv, buf', out, w')" "length buf' = length buf"
      using ok(2) unfolding call_ok_def by blast
    have "msh_exec tbl call (?cs @ 0 # ?q) 0 (length ?cs) (world s) = Some (rv, buf', out0 @ out, w')"
      using b(3) c(1) by simp
    then show ?thesis using enter [of rv buf' "out0 @ out" w'] b c len 3 by fastforce
  qed
qed

theorem line_runs_command_witness:
  "\<exists>s'. finsh_keys demo_table record_args [115, 120, 8, 27, 91, 68, 112, 13] (new_session []) = Some s' \<and>
     world s' = [(8, [Some [112, 115]])]"
proof -
  have e: "edit_all demo_keys ([], []) = ([112], [115])" "key_codes demo_keys = [115, 120, 8, 27, 91, 68, 112]"
      "typed demo_keys = [115, 120, 112]"
    by (simp_all add: demo_keys_def key_codes_def)
  have c: "first_word [112, 115] = [112, 115]" "find_cmd demo_table [112, 115] = Some 8" "args [112, 115] = [[112, 115]]"
    by (simp_all add: first_word_def find_cmd_def demo_table_def entry_def cmd_mark_def blank_def args.simps)
  have "call_ok record_args" by (simp add: call_ok_def record_args_def)
  then show ?thesis
    using line_runs_command [OF new_session_ok(1) _ _ new_session_ok(3) demo_names _ e(1), of record_args "[]"] e c
    by (auto simp: printable_def FINSH_CMD_SIZE_def FINSH_ARG_MAX_def record_args_def new_session_ok)
qed

section \<open>Completion\<close>

text \<open>The tabulator lists the commands that begin with the text of the line, completes the text
  to their longest common beginning, and shows prompt and text on a new row; a text that
  nothing begins with stays.\<close>

theorem tab_completes:
  assumes ed: "editing (l, r) s" and ok: "names_ok tbl" and ne: "l @ r \<noteq> []"
    and cand: "\<forall>c \<in> set (candidates tbl (l @ r)). length c < FINSH_CMD_SIZE \<and> (\<forall>x \<in> set c. printable x)"
    and prompt: "\<forall>c \<in> set (finsh_get_prompt s). printable c" "length (finsh_get_prompt s) \<le> 100"
  shows "\<exists>t s'. finsh_key tbl call 0x09 s = Some s' \<and> editing (t, []) s' \<and> world s' = world s \<and> prefix (l @ r) t \<and>
    (if candidates tbl (l @ r) = [] then t = l @ r else longest_common t (candidates tbl (l @ r))) \<and>
    shows_line (finsh_get_prompt s) t [] (display (tty s') scr)"
proof -
  let ?list = "concat (map (\<lambda>c. c @ [newline]) (candidates tbl (l @ r)))" and ?p = "finsh_get_prompt s"
  obtain t s' out where t: "finsh_key tbl call 0x09 s = Some s'" "editing (t, []) s'" "prints out s s'" "prefix (l @ r) t"
      "if candidates tbl (l @ r) = [] then t = l @ r else longest_common t (candidates tbl (l @ r))"
      "out = replicate (length l) bs @ [newline] @ ?list @ clip (?p @ t)"
    using key_tab_spec [OF ed ok ne cand] by blast
  have "ed_at t [] (shell s')" and pr: "\<forall>c \<in> set (?p @ t). printable c"
    using t(2) prompt(1) by (auto simp: editing_def)
  then have "length (?p @ t) \<le> 254" using ed_atD(6) prompt(2) by fastforce
  then have clip: "clip (?p @ t) = ?p @ t" by (simp add: clip_def RT_CONSOLEBUF_SIZE_def)
  have "display (tty s') scr = display (replicate (length l) bs @ newline # ?list @ (?p @ t)) (display (tty s) scr)"
    using t(3,6) clip by (simp add: prints_def display_append)
  also have "\<dots> = display (?p @ t) ([], 0)"
    unfolding display_append [of "replicate (length l) bs"] display_newline display_lines by (rule refl)
  also have "\<dots> = (?p @ t, length (?p @ t))"
    using display_printable(2) [OF pr, of "[]" "[]"] by simp
  finally have "shows_line ?p t [] (display (tty s') scr)" by (auto simp: shows_line_def)
  then show ?thesis using t(1-5) by (auto simp: prints_def)
qed

lemma demo_candidates: "candidates demo_table [102] = [[102, 114, 101, 101], [102, 114, 97, 109, 101]]"
  unfolding candidates_def commands_def demo_table_def entry_def marked by (simp add: cmd_mark_def)

theorem tab_completes_witness:
  "\<exists>s s'. finsh_keys demo_table record_args [102] (new_session []) = Some s \<and>
     finsh_key demo_table record_args 9 s = Some s' \<and> editing ([102, 114], []) s'"
proof -
  have "\<forall>c \<in> set (typed [KChar 102]). printable c" by (simp add: printable_def)
  from edit_keys [OF new_session_ok(1) this, of demo_table record_args "[]"] obtain s out where
    s: "finsh_keys demo_table record_args [102] (new_session []) = Some s" "editing ([102], []) s"
      "prints out (new_session []) s"
    by (auto simp: FINSH_CMD_SIZE_def key_codes_def simp del: finsh_keys.simps)
  have p: "finsh_get_prompt s = map of_char ''msh >''"
    using s(3) by (simp add: prints_def finsh_get_prompt_def new_session_def)
  have "longest_common [102, 114] [[102, 114, 101, 101], [102, 114, 97, 109, 101]]"
    by (auto simp: longest_common_def prefix_Cons)
  moreover have "t = [102, 114]" if "longest_common t cs" "longest_common [102, 114] cs" for t :: "u8 list" and cs
    using that unfolding longest_common_def by (metis prefix_order.antisym prefix_order.refl)
  ultimately show ?thesis
    using s tab_completes [OF s(2) demo_names, of record_args "([], 0)"] p
    by (auto simp: demo_candidates printable_def FINSH_CMD_SIZE_def)
qed

end
