(* ===== verification/Pool_Blocks.thy ===== *)
theory Pool_Blocks
  imports Kernel_State
begin

text \<open>
  The blocks of a memory pool of \<^verbatim>\<open>src/mempool.c\<close>: the linked list of free blocks that
  \<^verbatim>\<open>rt_mp_init\<close> writes into the memory of the pool, and the critical sections of \<^verbatim>\<open>rt_mp_alloc\<close>
  and \<^verbatim>\<open>rt_mp_free\<close>.  Block \<open>k\<close> starts at \<open>start_address + k * (block_size + 4)\<close> with the word that
  \<open>cells\<close> models; the block that is handed out follows it.  The locale \<open>resource_pool\<close> is the
  interface on which the users of a pool rely.
\<close>

section \<open>The routines\<close>

definition stride :: "rt_mempool \<Rightarrow> u32" where "stride mp = block_size mp + 4"

text \<open>The loop that links the blocks, for \<open>n\<close> blocks from number \<open>off\<close> on.\<close>

fun mp_link :: "u32 \<Rightarrow> u32 \<Rightarrow> u32 \<Rightarrow> nat \<Rightarrow> (u32 \<Rightarrow> cell) \<Rightarrow> u32 \<Rightarrow> cell" where
  "mp_link p w off 0 C = C"
| "mp_link p w off (Suc n) C = mp_link p w (off + 1) n (C(p + off * w := Block (p + (off + 1) * w)))"

definition mp_format :: "rt_mempool \<Rightarrow> (u32 \<Rightarrow> cell) \<Rightarrow> rt_mempool \<times> (u32 \<Rightarrow> cell)" where
  "mp_format mp C =
     (let p = start_address mp;
          w = stride mp;
          C = mp_link p w 0 (unat (block_total_count mp)) C;
          C = C(p + (block_total_count mp - 1) * w := Block 0)
      in (mp\<lparr>block_list := p\<rparr>, C))"

text \<open>Taking the first free block, for pool number \<open>n\<close>; the result is the address of the block.\<close>

definition mp_take :: "nat \<Rightarrow> rt_mempool \<times> (u32 \<Rightarrow> cell) \<Rightarrow> (u32 \<times> rt_mempool \<times> (u32 \<Rightarrow> cell)) option" where
  "mp_take n = (\<lambda>(mp, C). do {
     let mp = mp\<lparr>block_free_count := block_free_count mp - 1\<rparr>;
     let block_ptr = block_list mp;
     RT_ASSERT (block_ptr \<noteq> 0);
     link \<leftarrow> (case C block_ptr of Block q \<Rightarrow> Some q | Pool m \<Rightarrow> None);
     let mp = mp\<lparr>block_list := link\<rparr>;
     Some (block_ptr + 4, mp, C(block_ptr := Pool n))
   })"

text \<open>Linking a block in front of the free blocks.\<close>

definition mp_put :: "u32 \<Rightarrow> rt_mempool \<times> (u32 \<Rightarrow> cell) \<Rightarrow> rt_mempool \<times> (u32 \<Rightarrow> cell)" where
  "mp_put block = (\<lambda>(mp, C).
     (let block_ptr = block - 4;
          mp = mp\<lparr>block_free_count := block_free_count mp + 1\<rparr>;
          C = C(block_ptr := Block (block_list mp))
      in (mp\<lparr>block_list := block_ptr\<rparr>, C)))"

section \<open>The invariant\<close>

definition blocks :: "rt_mempool \<Rightarrow> u32 list" where
  "blocks mp = map (\<lambda>k. start_address mp + of_nat k * stride mp) [0..<unat (block_total_count mp)]"

text \<open>The pool lies in the address space, behind address 0, with at least one block.\<close>

definition pool_fits :: "rt_mempool \<Rightarrow> bool" where
  "pool_fits mp \<longleftrightarrow> 0 < unat (start_address mp) \<and> 0 < unat (block_total_count mp) \<and>
     unat (stride mp) = unat (block_size mp) + 4 \<and>
     unat (start_address mp) + unat (block_total_count mp) * unat (stride mp) < 2 ^ 32"

fun free_chain :: "(u32 \<Rightarrow> cell) \<Rightarrow> u32 \<Rightarrow> u32 list \<Rightarrow> bool" where
  "free_chain C p [] \<longleftrightarrow> p = 0"
| "free_chain C p (b # bs) \<longleftrightarrow> p = b \<and> b \<noteq> 0 \<and> (\<exists>q. C b = Block q \<and> free_chain C q bs)"

text \<open>\<open>F\<close> are the free blocks in the order of the list; all others belong to somebody.\<close>

definition pool_ok :: "nat \<Rightarrow> u32 list \<Rightarrow> rt_mempool \<times> (u32 \<Rightarrow> cell) \<Rightarrow> bool" where
  "pool_ok n F = (\<lambda>(mp, C). pool_fits mp \<and> free_chain C (block_list mp) F \<and> distinct F \<and>
     set F \<subseteq> set (blocks mp) \<and> unat (block_free_count mp) = length F \<and>
     (\<forall>b \<in> set (blocks mp) - set F. C b = Pool n))"

lemma free_chain_upd: "b \<notin> set F \<Longrightarrow> free_chain (C(b := c)) p F = free_chain C p F"
  by (induction F arbitrary: p) auto

lemma free_chain_unique: "free_chain C p F \<Longrightarrow> free_chain C p G \<Longrightarrow> F = G"
  by (induction F arbitrary: p G) (case_tac G; auto)+

lemma pool_fitsD:
  assumes "pool_fits mp"
  shows "0 < unat (start_address mp)" "0 < unat (block_total_count mp)" "0 < unat (stride mp)"
    "unat (stride mp) = unat (block_size mp) + 4"
    "unat (start_address mp) + unat (block_total_count mp) * unat (stride mp) < 2 ^ 32"
proof -
  show s: "unat (stride mp) = unat (block_size mp) + 4" using assms unfolding pool_fits_def by blast
  show "0 < unat (stride mp)" using s by linarith
qed (use assms in \<open>unfold pool_fits_def, blast\<close>)+

lemma block_end:
  assumes f: "pool_fits mp" and k: "k < unat (block_total_count mp)"
  shows "k * unat (stride mp) + unat (stride mp) \<le> unat (block_total_count mp) * unat (stride mp)"
  using mult_le_mono1 [of "Suc k" "unat (block_total_count mp)" "unat (stride mp)"] k by simp

lemma block_address:
  assumes f: "pool_fits mp" and k: "k < unat (block_total_count mp)"
  shows "unat (start_address mp + of_nat k * stride mp) = unat (start_address mp) + k * unat (stride mp)"
proof -
  note d = pool_fitsD [OF f]
  have le: "unat (start_address mp) + k * unat (stride mp) < 2 ^ 32" "k * unat (stride mp) < 2 ^ 32"
    using block_end [OF f k] d(3,5) by linarith+
  have "unat (block_total_count mp) < 2 ^ 32"
    using unsigned_less [of "block_total_count mp", where 'a = nat] by simp
  then have "k < 2 ^ 32" using k by linarith
  then have "unat (of_nat k * stride mp) = k * unat (stride mp)"
    using le(2) by (simp add: unat_word_ariths unat_of_nat)
  then show ?thesis using le(1) by (simp add: unat_word_ariths)
qed

lemma blocks_props:
  assumes f: "pool_fits mp"
  shows "distinct (blocks mp)" "0 \<notin> set (blocks mp)" "length (blocks mp) = unat (block_total_count mp)"
proof -
  note pos = pool_fitsD(3) [OF f]
  have "inj_on (\<lambda>k. start_address mp + of_nat k * stride mp) {0..<unat (block_total_count mp)}"
  proof (rule inj_onI)
    fix i j assume ij: "i \<in> {0..<unat (block_total_count mp)}" "j \<in> {0..<unat (block_total_count mp)}"
      "start_address mp + of_nat i * stride mp = start_address mp + of_nat j * stride mp"
    then have "unat (start_address mp) + i * unat (stride mp) = unat (start_address mp) + j * unat (stride mp)"
      using block_address [OF f, of i] block_address [OF f, of j] by (metis atLeastLessThan_iff)
    then show "i = j" using pos by simp
  qed
  then show "distinct (blocks mp)" by (simp add: blocks_def distinct_map)
  show "0 \<notin> set (blocks mp)"
  proof
    assume "0 \<in> set (blocks mp)"
    then obtain k where "k < unat (block_total_count mp)" "start_address mp + of_nat k * stride mp = 0"
      by (auto simp: blocks_def)
    then show False using block_address [OF f, of k] pool_fitsD(1) [OF f] by simp
  qed
  show "length (blocks mp) = unat (block_total_count mp)" by (simp add: blocks_def)
qed

text \<open>Two blocks of a pool do not overlap, and all lie inside the memory of the pool.\<close>

lemma blocks_apart:
  assumes f: "pool_fits mp" and b: "b \<in> set (blocks mp)" "c \<in> set (blocks mp)" "b \<noteq> c"
  shows "unat b + 4 + unat (block_size mp) \<le> unat c \<or> unat c + 4 + unat (block_size mp) \<le> unat b"
proof -
  obtain i j where ij: "i < unat (block_total_count mp)" "j < unat (block_total_count mp)"
      "b = start_address mp + of_nat i * stride mp" "c = start_address mp + of_nat j * stride mp"
    using b by (auto simp: blocks_def)
  note s = pool_fitsD(4) [OF f]
  have less: "i * unat (stride mp) + unat (stride mp) \<le> j * unat (stride mp)" if "i < j" for i j
    using mult_le_mono1 [of "Suc i" j "unat (stride mp)"] that by simp
  moreover have "i < j \<or> j < i" using b(3) ij(3,4) by (cases i j rule: linorder_cases) auto
  ultimately show ?thesis
    using less [of i j] less [of j i] block_address [OF f ij(1)] block_address [OF f ij(2)] s
    unfolding ij(3,4) by linarith
qed

lemma blocks_inside:
  assumes f: "pool_fits mp" and b: "b \<in> set (blocks mp)"
  shows "unat (start_address mp) \<le> unat b"
    "unat b + 4 + unat (block_size mp) \<le> unat (start_address mp) + unat (block_total_count mp) * unat (stride mp)"
proof -
  obtain k where k: "k < unat (block_total_count mp)" "b = start_address mp + of_nat k * stride mp"
    using b by (auto simp: blocks_def)
  note a = block_address [OF f k(1), folded k(2)]
  show "unat (start_address mp) \<le> unat b" by (simp add: a)
  show "unat b + 4 + unat (block_size mp) \<le> unat (start_address mp) + unat (block_total_count mp) * unat (stride mp)"
    using a block_end [OF f k(1)] pool_fitsD(4) [OF f] by linarith
qed
section \<open>What the routines do\<close>

lemma mp_link_other:
  "\<forall>k \<in> {i..<i + n}. a \<noteq> p + of_nat k * w \<Longrightarrow> mp_link p w (of_nat i) n C a = C a"
proof (induction n arbitrary: i C)
  case (Suc n)
  have i: "a \<noteq> p + of_nat i * w" using Suc.prems by simp
  have "mp_link p w (of_nat (Suc i)) n (C(p + of_nat i * w := Block (p + (of_nat i + 1) * w))) a
      = (C(p + of_nat i * w := Block (p + (of_nat i + 1) * w))) a"
    by (rule Suc.IH) (use Suc.prems in auto)
  then show ?case using i by (simp add: add.commute)
qed simp

lemma mp_link_at:
  assumes "inj_on (\<lambda>k. p + of_nat k * w) {i..<i + n}" "i \<le> k" "k < i + n"
  shows "mp_link p w (of_nat i) n C (p + of_nat k * w) = Block (p + of_nat (Suc k) * w)"
  using assms
proof (induction n arbitrary: i C)
  case (Suc n)
  have sub: "{Suc i..<Suc i + n} \<subseteq> {i..<i + Suc n}" by auto
  have inj: "inj_on (\<lambda>k. p + of_nat k * w) {Suc i..<Suc i + n}"
    by (rule inj_on_subset [OF Suc.prems(1) sub])
  show ?case
  proof (cases "k = i")
    case True
    have "\<forall>j \<in> {Suc i..<Suc i + n}. p + of_nat k * w \<noteq> p + of_nat j * w"
    proof
      fix j assume j: "j \<in> {Suc i..<Suc i + n}"
      then have "k \<in> {i..<i + Suc n}" "j \<in> {i..<i + Suc n}" "k \<noteq> j" using True by auto
      then show "p + of_nat k * w \<noteq> p + of_nat j * w" using Suc.prems(1) unfolding inj_on_def by blast
    qed
    from mp_link_other [OF this] True show ?thesis by (simp add: add.commute)
  next
    case False
    then have "Suc i \<le> k" "k < Suc i + n" using Suc.prems(2,3) by auto
    from Suc.IH [OF inj this] show ?thesis by (simp add: add.commute)
  qed
qed simp

lemma chain_of:
  assumes "\<And>k. i \<le> k \<Longrightarrow> k \<le> i + m \<Longrightarrow> f k \<noteq> 0 \<and> C (f k) = Block (if k = i + m then 0 else f (Suc k))"
  shows "free_chain C (f i) (map f [i..<Suc (i + m)])"
  using assms
proof (induction m arbitrary: i)
  case 0
  then show ?case using 0 [of i] by simp
next
  case (Suc m)
  have "free_chain C (f (Suc i)) (map f [Suc i..<Suc (Suc i + m)])"
  proof (rule Suc.IH)
    fix k assume "Suc i \<le> k" "k \<le> Suc i + m"
    then show "f k \<noteq> 0 \<and> C (f k) = Block (if k = Suc i + m then 0 else f (Suc k))"
      using Suc.prems [of k] by simp
  qed
  moreover have "[i..<Suc (i + Suc m)] = i # [Suc i..<Suc (Suc i + m)]" by (subst upt_rec) simp
  ultimately show ?case using Suc.prems [of i] by simp
qed

lemma blocks_inj:
  assumes f: "pool_fits mp"
  shows "inj_on (\<lambda>k. start_address mp + of_nat k * stride mp) {0..<unat (block_total_count mp)}"
  using blocks_props(1) [OF f] by (simp add: blocks_def distinct_map)

lemma blocks_upd [simp]:
  "blocks (mp\<lparr>block_list := p\<rparr>) = blocks mp" "blocks (mp\<lparr>block_free_count := c\<rparr>) = blocks mp"
  "blocks (mp\<lparr>suspend_thread_count := c\<rparr>) = blocks mp"
  by (simp_all add: blocks_def stride_def)

lemma pool_fits_upd [simp]:
  "pool_fits (mp\<lparr>block_list := p\<rparr>) = pool_fits mp"
  "pool_fits (mp\<lparr>block_free_count := c\<rparr>) = pool_fits mp"
  "pool_fits (mp\<lparr>suspend_thread_count := c\<rparr>) = pool_fits mp"
  by (simp_all add: pool_fits_def stride_def)

lemma pool_ok_upd [simp]: "pool_ok n F (mp\<lparr>suspend_thread_count := c\<rparr>, C) = pool_ok n F (mp, C)"
  by (simp add: pool_ok_def)

lemma mp_format_spec:
  assumes f: "pool_fits mp" and c: "block_free_count mp = block_total_count mp"
  shows "pool_ok n (blocks mp) (mp_format mp C)"
proof -
  define N where "N = unat (block_total_count mp)"
  define g where "g = (\<lambda>k. start_address mp + of_nat k * stride mp)"
  define C' where "C' = (mp_link (start_address mp) (stride mp) 0 N C)(g (N - 1) := Block 0)"
  have N: "0 < N" using pool_fitsD(2) [OF f] by (simp add: N_def)
  have inj: "inj_on g {0..<N}" using blocks_inj [OF f] by (simp add: g_def N_def)
  have last: "start_address mp + (block_total_count mp - 1) * stride mp = g (N - 1)"
    using N by (simp add: g_def N_def of_nat_diff)
  have eq: "mp_format mp C = (mp\<lparr>block_list := start_address mp\<rparr>, C')"
    by (simp only: mp_format_def Let_def C'_def last N_def)
  have bl: "blocks mp = map g [0..<N]" by (simp add: blocks_def g_def N_def)
  have "free_chain C' (g 0) (map g [0..<Suc (0 + (N - 1))])"
  proof (rule chain_of)
    fix k assume k: "0 \<le> k" "k \<le> 0 + (N - 1)"
    then have kN: "k < N" using N by simp
    have "g k \<noteq> 0" using blocks_props(2) [OF f] kN unfolding bl by force
    moreover have "C' (g k) = Block (g (Suc k))" if "k \<noteq> N - 1"
    proof -
      have "g k \<noteq> g (N - 1)" using inj_onD [OF inj, of k "N - 1"] that kN by auto
      moreover have "mp_link (start_address mp) (stride mp) (of_nat 0) N C (g k) = Block (g (Suc k))"
        using mp_link_at [of "start_address mp" "stride mp" 0 N k C] inj kN by (simp add: g_def)
      ultimately show ?thesis by (simp add: C'_def)
    qed
    moreover have "C' (g (N - 1)) = Block 0" by (simp add: C'_def)
    ultimately show "g k \<noteq> 0 \<and> C' (g k) = Block (if k = 0 + (N - 1) then 0 else g (Suc k))"
      by (cases "k = N - 1") simp_all
  qed
  then have "free_chain C' (start_address mp) (blocks mp)" using N by (simp add: bl g_def)
  then show ?thesis
    using f c blocks_props [OF f] by (simp add: eq pool_ok_def)
qed

lemma pool_okD:
  assumes "pool_ok n F (mp, C)"
  shows "pool_fits mp" "free_chain C (block_list mp) F" "distinct F" "set F \<subseteq> set (blocks mp)"
    "unat (block_free_count mp) = length F" "\<And>b. b \<in> set (blocks mp) \<Longrightarrow> b \<notin> set F \<Longrightarrow> C b = Pool n"
  using assms unfolding pool_ok_def by auto

lemma chain_cells: "free_chain C p F \<Longrightarrow> b \<in> set F \<Longrightarrow> \<exists>q. C b = Block q"
  by (induction F arbitrary: p) auto

lemma mp_take_spec:
  assumes ok: "pool_ok n (b # F) (mp, C)"
  shows "\<exists>q. C b = Block q \<and>
    mp_take n (mp, C) = Some (b + 4, mp\<lparr>block_free_count := block_free_count mp - 1, block_list := q\<rparr>, C(b := Pool n)) \<and>
    pool_ok n F (mp\<lparr>block_free_count := block_free_count mp - 1, block_list := q\<rparr>, C(b := Pool n))"
proof -
  note d = pool_okD [OF ok]
  obtain q where q: "block_list mp = b" "b \<noteq> 0" "C b = Block q" "free_chain C q F" using d(2) by auto
  have "unat (block_free_count mp - 1) = length F"
  proof -
    have "block_free_count mp \<noteq> 0" using d(5) by auto
    then show ?thesis using d(5) by (simp add: unat_minus_one)
  qed
  then have "pool_ok n F (mp\<lparr>block_free_count := block_free_count mp - 1, block_list := q\<rparr>, C(b := Pool n))"
    using d(1,3,4,6) q(4) by (auto simp: pool_ok_def free_chain_upd)
  then show ?thesis using q by (simp add: mp_take_def Let_def)
qed

lemma mp_put_spec:
  assumes ok: "pool_ok n F (mp, C)" and b: "b \<in> set (blocks mp)" "b \<notin> set F"
  shows "pool_ok n (b # F) (mp_put (b + 4) (mp, C))"
proof -
  note d = pool_okD [OF ok]
  have "length (b # F) \<le> length (blocks mp)"
    using card_mono [of "set (blocks mp)" "set (b # F)"] d(3,4) b blocks_props(1) [OF d(1)]
    by (simp add: distinct_card)
  then have le: "Suc (length F) \<le> unat (block_total_count mp)" using blocks_props(3) [OF d(1)] by simp
  have "unat (block_total_count mp) < 2 ^ 32"
    using unsigned_less [of "block_total_count mp", where 'a = nat] by simp
  then have "unat (block_free_count mp + 1) = Suc (length F)"
    using d(5) le by (simp add: unat_word_ariths)
  moreover have "b \<noteq> 0" using b(1) blocks_props(2) [OF d(1)] by blast
  ultimately show ?thesis
    using d(1-4,6) b by (auto simp: pool_ok_def mp_put_def Let_def free_chain_upd)
qed

lemma put_after_take:
  assumes "mp_take n p = Some (blk, p')"
  shows "mp_put blk p' = p"
proof -
  obtain mp C where p: "p = (mp, C)" by (cases p)
  show ?thesis using assms
    by (auto simp: p mp_take_def mp_put_def Let_def split: cell.splits if_splits)
qed

section \<open>The interface of a pool\<close>

text \<open>The events of a pool: a client gets a handle or puts one back.\<close>

datatype 'h use = Got 'h | Returned 'h

fun holding :: "'h use list \<Rightarrow> 'h set \<Rightarrow> 'h set" where
  "holding [] H = H"
| "holding (Got h # es) H = holding es (insert h H)"
| "holding (Returned h # es) H = holding es (H - {h})"

text \<open>Clients put back only what they hold; the pool hands out only what nobody holds.\<close>

fun proper :: "'h use list \<Rightarrow> 'h set \<Rightarrow> bool" where
  "proper [] H \<longleftrightarrow> True"
| "proper (Got h # es) H \<longleftrightarrow> proper es (insert h H)"
| "proper (Returned h # es) H \<longleftrightarrow> h \<in> H \<and> proper es (H - {h})"

fun exclusive :: "'h use list \<Rightarrow> 'h set \<Rightarrow> bool" where
  "exclusive [] H \<longleftrightarrow> True"
| "exclusive (Got h # es) H \<longleftrightarrow> h \<notin> H \<and> exclusive es (insert h H)"
| "exclusive (Returned h # es) H \<longleftrightarrow> exclusive es (H - {h})"

fun play :: "('p \<Rightarrow> ('h \<times> 'p) option) \<Rightarrow> ('h \<Rightarrow> 'p \<Rightarrow> 'p) \<Rightarrow> 'h use list \<Rightarrow> 'p \<Rightarrow> 'p option" where
  "play get put [] p = Some p"
| "play get put (Got h # es) p =
     (case get p of None \<Rightarrow> None | Some (g, p') \<Rightarrow> if g = h then play get put es p' else None)"
| "play get put (Returned h # es) p = play get put es (put h p)"

locale resource_pool =
  fixes get :: "'p \<Rightarrow> ('h \<times> 'p) option" and put :: "'h \<Rightarrow> 'p \<Rightarrow> 'p"
    and all :: "'p \<Rightarrow> 'h set" and held :: "'p \<Rightarrow> 'h set" and wf :: "'p \<Rightarrow> bool"
  assumes finite_all: "finite (all p)"
    and held_all: "wf p \<Longrightarrow> held p \<subseteq> all p"
    and get_some: "wf p \<Longrightarrow> held p \<noteq> all p \<Longrightarrow> \<exists>h p'. get p = Some (h, p')"
    and get_none: "wf p \<Longrightarrow> held p = all p \<Longrightarrow> get p = None"
    and get_wf: "wf p \<Longrightarrow> get p = Some (h, p') \<Longrightarrow>
      wf p' \<and> h \<in> all p \<and> h \<notin> held p \<and> held p' = insert h (held p) \<and> all p' = all p"
    and put_wf: "wf p \<Longrightarrow> h \<in> held p \<Longrightarrow>
      wf (put h p) \<and> held (put h p) = held p - {h} \<and> all (put h p) = all p"
begin

lemma play_ok:
  assumes "wf p" "play get put es p = Some p'" "proper es (held p)"
  shows "wf p' \<and> all p' = all p \<and> held p' = holding es (held p) \<and> exclusive es (held p)"
  using assms
proof (induction es arbitrary: p)
  case (Cons e es)
  show ?case
  proof (cases e)
    case (Got h)
    obtain p1 where p1: "get p = Some (h, p1)" "play get put es p1 = Some p'"
      using Cons.prems(2) by (auto simp: Got split: option.splits if_splits)
    note g = get_wf [OF Cons.prems(1) p1(1)]
    have "proper es (held p1)" using Cons.prems(3) g by (simp add: Got)
    then show ?thesis using Cons.IH [OF _ p1(2)] g by (simp add: Got)
  next
    case (Returned h)
    have h: "h \<in> held p" using Cons.prems(3) by (simp add: Returned)
    note g = put_wf [OF Cons.prems(1) h]
    have "play get put es (put h p) = Some p'" "proper es (held (put h p))"
      using Cons.prems(2,3) g by (simp_all add: Returned)
    then show ?thesis using Cons.IH [of "put h p"] g by (simp add: Returned)
  qed
qed simp

text \<open>From a pool of which nothing is held, as many handles as it has can be taken, and no more.\<close>

lemma take_all:
  assumes "wf p" "n + card (held p) = card (all p)"
  shows "\<exists>hs p'. length hs = n \<and> play get put (map Got hs) p = Some p' \<and> get p' = None"
  using assms
proof (induction n arbitrary: p)
  case 0
  then have "held p = all p" using card_subset_eq [OF finite_all held_all [OF 0(1)]] by simp
  then show ?case using get_none [OF 0(1)] by simp
next
  case (Suc n)
  have "held p \<noteq> all p" using Suc.prems(2) by auto
  then obtain h p1 where g: "get p = Some (h, p1)" using get_some [OF Suc.prems(1)] by blast
  note w = get_wf [OF Suc.prems(1) g]
  have "finite (held p)" using finite_subset [OF held_all finite_all] Suc.prems(1) by blast
  then have "n + card (held p1) = card (all p1)" using w Suc.prems(2) by simp
  then obtain hs p' where "length hs = n" "play get put (map Got hs) p1 = Some p'" "get p' = None"
    using Suc.IH w by blast
  then show ?case using g by (intro exI [of _ "h # hs"] exI [of _ p']) simp
qed

end

section \<open>The blocks of a memory pool\<close>

definition mp_all :: "rt_mempool \<times> (u32 \<Rightarrow> cell) \<Rightarrow> u32 set" where
  "mp_all = (\<lambda>(mp, C). (\<lambda>b. b + 4) ` set (blocks mp))"

definition mp_held :: "nat \<Rightarrow> rt_mempool \<times> (u32 \<Rightarrow> cell) \<Rightarrow> u32 set" where
  "mp_held n = (\<lambda>(mp, C). (\<lambda>b. b + 4) ` {b \<in> set (blocks mp). C b = Pool n})"

definition mp_ok :: "nat \<Rightarrow> rt_mempool \<times> (u32 \<Rightarrow> cell) \<Rightarrow> bool" where
  "mp_ok n p \<longleftrightarrow> (\<exists>F. pool_ok n F p)"

text \<open>\<open>rt_mp_alloc\<close> gets to the first free block only when there is one.\<close>

definition mp_get :: "nat \<Rightarrow> rt_mempool \<times> (u32 \<Rightarrow> cell) \<Rightarrow> (u32 \<times> rt_mempool \<times> (u32 \<Rightarrow> cell)) option" where
  "mp_get n p = (if block_free_count (fst p) = 0 then None else mp_take n p)"

lemma plus4: "(b + 4 = c + 4) = (b = (c::u32))" by simp

lemma held_free:
  assumes ok: "pool_ok n F (mp, C)" and b: "b \<in> set (blocks mp)"
  shows "b + 4 \<in> mp_held n (mp, C) \<longleftrightarrow> b \<notin> set F"
proof -
  have "C b = Pool n \<longleftrightarrow> b \<notin> set F"
    using pool_okD(6) [OF ok b] chain_cells [OF pool_okD(2) [OF ok], of b] by auto
  then show ?thesis using b by (auto simp: mp_held_def)
qed

lemma free_none:
  assumes ok: "pool_ok n F (mp, C)"
  shows "block_free_count mp = 0 \<longleftrightarrow> F = []" "mp_held n (mp, C) = mp_all (mp, C) \<longleftrightarrow> F = []"
proof -
  show "block_free_count mp = 0 \<longleftrightarrow> F = []"
    using pool_okD(5) [OF ok] by (simp add: unat_eq_0 [symmetric])
  show "mp_held n (mp, C) = mp_all (mp, C) \<longleftrightarrow> F = []"
  proof
    assume eq: "mp_held n (mp, C) = mp_all (mp, C)"
    show "F = []"
    proof (rule ccontr)
      assume "F \<noteq> []"
      then have "hd F \<in> set F" by simp
      moreover from this have "hd F \<in> set (blocks mp)" using pool_okD(4) [OF ok] by blast
      ultimately show False using held_free [OF ok, of "hd F"] eq by (auto simp: mp_all_def)
    qed
  next
    assume "F = []"
    then show "mp_held n (mp, C) = mp_all (mp, C)"
      using pool_okD(6) [OF ok] by (auto simp: mp_held_def mp_all_def)
  qed
qed

interpretation blocks: resource_pool "mp_get n" mp_put mp_all "mp_held n" "mp_ok n"
proof unfold_locales
  fix p :: "rt_mempool \<times> (u32 \<Rightarrow> cell)" and h p'
  obtain mp C where p: "p = (mp, C)" by (cases p)
  show "finite (mp_all p)" by (simp add: mp_all_def p)
  assume "mp_ok n p"
  then obtain F where F: "pool_ok n F (mp, C)" by (auto simp: mp_ok_def p)
  show "mp_held n p \<subseteq> mp_all p" by (auto simp: mp_held_def mp_all_def p)
  { assume "mp_held n p \<noteq> mp_all p"
    then obtain b F' where "F = b # F'" using free_none(2) [OF F] by (auto simp: p neq_Nil_conv)
    then show "\<exists>h p'. mp_get n p = Some (h, p')"
      using mp_take_spec [of n b F' mp C] F free_none(1) [OF F] by (auto simp: mp_get_def p) }
  { assume "mp_held n p = mp_all p"
    then show "mp_get n p = None" using free_none [OF F] by (simp add: mp_get_def p) }
  { assume g: "mp_get n p = Some (h, p')"
    then have "F \<noteq> []" using free_none(1) [OF F] by (auto simp: mp_get_def p)
    then obtain b F' where bF: "F = b # F'" by (auto simp: neq_Nil_conv)
    obtain q where q: "C b = Block q" "mp_take n (mp, C) =
        Some (b + 4, mp\<lparr>block_free_count := block_free_count mp - 1, block_list := q\<rparr>, C(b := Pool n))"
        "pool_ok n F' (mp\<lparr>block_free_count := block_free_count mp - 1, block_list := q\<rparr>, C(b := Pool n))"
      using mp_take_spec [of n b F' mp C] F bF by blast
    have h: "h = b + 4" "p' = (mp\<lparr>block_free_count := block_free_count mp - 1, block_list := q\<rparr>, C(b := Pool n))"
      using g q(2) by (auto simp: mp_get_def p split: if_splits)
    have b: "b \<in> set (blocks mp)" using pool_okD(4) [OF F] bF by simp
    have "mp_held n p' = insert h (mp_held n p)"
      using b by (auto simp: mp_held_def p h)
    moreover have "h \<notin> mp_held n p" using held_free [OF F b] bF by (simp add: p h)
    ultimately show "mp_ok n p' \<and> h \<in> mp_all p \<and> h \<notin> mp_held n p \<and>
        mp_held n p' = insert h (mp_held n p) \<and> mp_all p' = mp_all p"
      using q(3) b by (auto simp: mp_ok_def mp_all_def p h) }
  { assume "h \<in> mp_held n p"
    then obtain b where b: "h = b + 4" "b \<in> set (blocks mp)" "C b = Pool n"
      by (auto simp: mp_held_def p)
    then have "b \<notin> set F" using held_free [OF F b(2)] by (auto simp: mp_held_def)
    from mp_put_spec [OF F b(2) this] have "mp_ok n (mp_put h p)" by (auto simp: mp_ok_def p b)
    moreover have "mp_held n (mp_put h p) = mp_held n p - {h}" "mp_all (mp_put h p) = mp_all p"
      using b by (auto simp: mp_held_def mp_all_def mp_put_def p)
    ultimately show "mp_ok n (mp_put h p) \<and> mp_held n (mp_put h p) = mp_held n p - {h} \<and>
        mp_all (mp_put h p) = mp_all p" by blast }
qed

end
