(* ===== verification/Mempool.thy ===== *)
theory Mempool
  imports Ipc Pool_Blocks
begin

text \<open>
  Memory pools, \<^verbatim>\<open>src/mempool.c\<close>, and the error number of \<^verbatim>\<open>src/kservice.c\<close> in which
  \<^verbatim>\<open>rt_mp_alloc\<close> reports that it found no block.  A call that waits is cut at its
  \<^verbatim>\<open>rt_schedule\<close>, as for IPC objects; the hooks are not configured.  \<open>mp_inv\<close> ties the counter
  of waiting threads to the queue and the blocks to the invariant of \<^verbatim>\<open>Pool_Blocks\<close>.
\<close>

section \<open>The error number\<close>

definition rt_get_errno :: "kernel \<Rightarrow> rt_err_t" where
  "rt_get_errno s =
     (if irq_nest s \<noteq> 0 then global_errno s
      else case rt_thread_self s of None \<Rightarrow> global_errno s | Some tid \<Rightarrow> th_error (threads s tid))"

definition rt_set_errno :: "rt_err_t \<Rightarrow> kernel \<Rightarrow> kernel" where
  "rt_set_errno e s =
     (if irq_nest s \<noteq> 0 then s\<lparr>global_errno := e\<rparr>
      else case rt_thread_self s of
             None \<Rightarrow> s\<lparr>global_errno := e\<rparr>
           | Some tid \<Rightarrow> upd_thread tid (\<lambda>r. r\<lparr>th_error := e\<rparr>) s)"

text \<open>Where \<^verbatim>\<open>errno\<close> lies: in the control block of a thread, or (\<open>None\<close>) in the global variable.\<close>

definition rt_errno_at :: "kernel \<Rightarrow> tid option" where
  "rt_errno_at s = (if irq_nest s \<noteq> 0 then None else rt_thread_self s)"

section \<open>Creating and destroying\<close>

definition is_mp :: "nat \<Rightarrow> kernel \<Rightarrow> bool" where
  "is_mp n s \<longleftrightarrow> rt_object_get_type (OMemPool n) s = RT_Object_Class_MemPool"

definition upd_mp :: "nat \<Rightarrow> (rt_mempool \<Rightarrow> rt_mempool) \<Rightarrow> kernel \<Rightarrow> kernel" where
  "upd_mp n f s = s\<lparr>mempools := (mempools s)(n := f (mempools s n))\<rparr>"

text \<open>A pool together with the words in front of its blocks.\<close>

definition pool :: "nat \<Rightarrow> kernel \<Rightarrow> rt_mempool \<times> (u32 \<Rightarrow> cell)" where
  "pool n s = (mempools s n, cells s)"

definition set_pool :: "nat \<Rightarrow> rt_mempool \<times> (u32 \<Rightarrow> cell) \<Rightarrow> kernel \<Rightarrow> kernel" where
  "set_pool n p s = s\<lparr>mempools := (mempools s)(n := fst p), cells := snd p\<rparr>"

text \<open>Division by zero for the largest block sizes, which the alignment wraps around.\<close>

definition rt_mp_init ::
  "nat \<Rightarrow> string \<Rightarrow> u32 \<Rightarrow> u32 \<Rightarrow> u32 \<Rightarrow> kernel \<Rightarrow> (rt_err_t \<times> kernel) option" where
  "rt_mp_init n name start sz bsize s = do {
     s \<leftarrow> rt_object_init (OMemPool n) RT_Object_Class_MemPool name s;
     let sz = RT_ALIGN_DOWN sz RT_ALIGN_SIZE;
     let bsize = RT_ALIGN bsize RT_ALIGN_SIZE;
     RT_ASSERT (bsize + 4 \<noteq> 0);
     let s = upd_mp n (\<lambda>r. r\<lparr>start_address := start, mp_size := sz, block_size := bsize,
         block_total_count := sz div (bsize + 4), block_free_count := sz div (bsize + 4)\<rparr>) s;
     let s = rt_ipc_object_init (QMemPool n) s;
     let s = upd_mp n (\<lambda>r. r\<lparr>suspend_thread_count := 0\<rparr>) s;
     Some (RT_EOK, set_pool n (mp_format (mempools s n) (cells s)) s)
   }"

text \<open>The loop of \<^verbatim>\<open>rt_mp_detach\<close> and \<^verbatim>\<open>rt_mp_delete\<close>.\<close>

partial_function (option) mp_resume_all :: "nat \<Rightarrow> kernel \<Rightarrow> kernel option" where
  "mp_resume_all n s =
     (case queues s (Suspend (QMemPool n)) of
        [] \<Rightarrow> Some s
      | t # _ \<Rightarrow> do {
          let s = upd_thread t (\<lambda>r. r\<lparr>th_error := - RT_ERROR\<rparr>) s;
          (e, s) \<leftarrow> rt_thread_resume t s;
          mp_resume_all n (upd_mp n (\<lambda>r. r\<lparr>suspend_thread_count := suspend_thread_count r - 1\<rparr>) s)
        })"

definition rt_mp_detach :: "nat \<Rightarrow> kernel \<Rightarrow> (rt_err_t \<times> kernel) option" where
  "rt_mp_detach n s = do {
     RT_ASSERT (is_mp n s);
     RT_ASSERT (rt_object_is_systemobject (OMemPool n) s);
     s \<leftarrow> mp_resume_all n s;
     Some (RT_EOK, rt_object_detach (OMemPool n) s)
   }"

text \<open>\<open>heap\<close> is what \<^verbatim>\<open>rt_malloc\<close> returns for a number of bytes.\<close>

definition rt_mp_create ::
  "oref option \<Rightarrow> (u32 \<Rightarrow> u32) \<Rightarrow> string \<Rightarrow> u32 \<Rightarrow> u32 \<Rightarrow> kernel \<Rightarrow> (nat option \<times> kernel) option" where
  "rt_mp_create mem heap name count bsize s = do {
     RT_DEBUG_NOT_IN_INTERRUPT s;
     (x, s) \<leftarrow> rt_object_allocate mem RT_Object_Class_MemPool name s;
     (case x of
        Some (OMemPool n) \<Rightarrow> do {
          let bsize = RT_ALIGN bsize RT_ALIGN_SIZE;
          let start = heap ((bsize + 4) * count);
          let s = upd_mp n (\<lambda>r. r\<lparr>block_size := bsize, mp_size := (bsize + 4) * count, start_address := start\<rparr>) s;
          (if start = 0 then do {
             s \<leftarrow> rt_object_delete (OMemPool n) s;
             Some (None, s)
           }
           else do {
             let s = upd_mp n (\<lambda>r. r\<lparr>block_total_count := count, block_free_count := count\<rparr>) s;
             let s = rt_ipc_object_init (QMemPool n) s;
             let s = upd_mp n (\<lambda>r. r\<lparr>suspend_thread_count := 0\<rparr>) s;
             Some (Some n, set_pool n (mp_format (mempools s n) (cells s)) s)
           })
        }
      | _ \<Rightarrow> Some (None, s))
   }"

text \<open>The memory of the pool goes back to the heap, which is no part of the kernel state.\<close>

definition rt_mp_delete :: "nat \<Rightarrow> kernel \<Rightarrow> (rt_err_t \<times> kernel) option" where
  "rt_mp_delete n s = do {
     RT_DEBUG_NOT_IN_INTERRUPT s;
     RT_ASSERT (is_mp n s);
     RT_ASSERT (\<not> rt_object_is_systemobject (OMemPool n) s);
     s \<leftarrow> mp_resume_all n s;
     s \<leftarrow> rt_object_delete (OMemPool n) s;
     Some (RT_EOK, s)
   }"

section \<open>Allocating and freeing\<close>

text \<open>A waiting thread goes to the front of the queue, whatever \<^verbatim>\<open>rt_thread_suspend\<close> returned.\<close>

definition mp_suspend :: "tid \<Rightarrow> nat \<Rightarrow> u32 \<Rightarrow> kernel \<Rightarrow> kernel option" where
  "mp_suspend t n time s = do {
     (e, s) \<leftarrow> rt_thread_suspend t s;
     (if linked t s then None
      else do {
        let s = s\<lparr>queues := q_insert_head (Suspend (QMemPool n)) t (queues s)\<rparr>;
        let s = upd_mp n (\<lambda>r. r\<lparr>suspend_thread_count := suspend_thread_count r + 1\<rparr>) s;
        (if 0 < sint time then start_wait_timer t time s else Some s)
      })
   }"

definition mp_alloc_now :: "nat \<Rightarrow> kernel \<Rightarrow> (u32 option call \<times> kernel) option" where
  "mp_alloc_now n s = do {
     (block, p) \<leftarrow> mp_take n (pool n s);
     Some (Return (Some block), set_pool n p s)
   }"

text \<open>The loop \<^verbatim>\<open>while (mp->block_free_count == 0)\<close>.\<close>

partial_function (option) mp_alloc_loop ::
  "tid option \<Rightarrow> nat \<Rightarrow> u32 \<Rightarrow> kernel \<Rightarrow> (u32 option call \<times> kernel) option" where
  "mp_alloc_loop self n time s =
     (if block_free_count (mempools s n) = 0 then
        (if time = 0 then Some (Return None, rt_set_errno (- RT_ETIMEOUT) s)
         else do {
           RT_DEBUG_NOT_IN_INTERRUPT s;
           t \<leftarrow> self;
           let s = upd_thread t (\<lambda>r. r\<lparr>th_error := RT_EOK\<rparr>) s;
           let before_sleep = (if 0 < sint time then rt_tick s else 0);
           s \<leftarrow> mp_suspend t n time s;
           block_point t (FMpAlloc n time before_sleep)
             (\<lambda>s. if th_error (threads s t) \<noteq> RT_EOK then Some (Return None, s)
                  else mp_alloc_loop self n (time_left time before_sleep (rt_tick s)) s) s
         })
      else mp_alloc_now n s)"

definition rt_mp_alloc :: "nat \<Rightarrow> u32 \<Rightarrow> kernel \<Rightarrow> (u32 option call \<times> kernel) option" where
  "rt_mp_alloc n time s = mp_alloc_loop (rt_thread_self s) n time s"

text \<open>What \<^verbatim>\<open>rt_mp_alloc\<close> does after it was scheduled again.\<close>

definition rt_mp_alloc_wake ::
  "tid \<Rightarrow> nat \<Rightarrow> u32 \<Rightarrow> u32 \<Rightarrow> kernel \<Rightarrow> (u32 option call \<times> kernel) option" where
  "rt_mp_alloc_wake t n time before_sleep s =
     (if th_error (threads s t) \<noteq> RT_EOK then Some (Return None, s)
      else mp_alloc_loop (Some t) n (time_left time before_sleep (rt_tick s)) s)"

text \<open>Freeing a block that is not handed out follows a wild pointer.  With a counter above zero and
  an empty queue, the head of the queue itself is taken for a thread.\<close>

definition rt_mp_free :: "u32 \<Rightarrow> kernel \<Rightarrow> kernel option" where
  "rt_mp_free block s =
     (case cells s (block - 4) of
        Block q \<Rightarrow> None
      | Pool n \<Rightarrow> do {
          let s = set_pool n (mp_put block (pool n s)) s;
          (if 0 < suspend_thread_count (mempools s n) then
             (case queues s (Suspend (QMemPool n)) of
                [] \<Rightarrow> None
              | t # _ \<Rightarrow> do {
                  let s = upd_thread t (\<lambda>r. r\<lparr>th_error := RT_EOK\<rparr>) s;
                  (e, s) \<leftarrow> rt_thread_resume t s;
                  let s = upd_mp n (\<lambda>r. r\<lparr>suspend_thread_count := suspend_thread_count r - 1\<rparr>) s;
                  rt_schedule s
                })
           else Some s)
        })"

section \<open>The invariant of a pool\<close>

definition mp_inv :: "nat \<Rightarrow> kernel \<Rightarrow> bool" where
  "mp_inv n s \<longleftrightarrow> is_mp n s \<and> mp_ok n (pool n s) \<and>
     suspend_thread_count (mempools s n) = of_nat (length (queues s (Suspend (QMemPool n))))"

lemma upd_mp_sel [simp]:
  "mempools (upd_mp n f s) = (mempools s)(n := f (mempools s n))" "cells (upd_mp n f s) = cells s"
  "queues (upd_mp n f s) = queues s" "threads (upd_mp n f s) = threads s" "objs (upd_mp n f s) = objs s"
  "ready_group (upd_mp n f s) = ready_group s" "timers (upd_mp n f s) = timers s"
  "timer_list (upd_mp n f s) = timer_list s" "rt_tick (upd_mp n f s) = rt_tick s"
  "current_thread (upd_mp n f s) = current_thread s" "lock_nest (upd_mp n f s) = lock_nest s"
  "irq_nest (upd_mp n f s) = irq_nest s" "frames (upd_mp n f s) = frames s"
  "container (upd_mp n f s) = container s" "is_mp m (upd_mp n f s) = is_mp m s"
  by (simp_all add: upd_mp_def is_mp_def rt_object_get_type_def)

lemma set_pool_sel [simp]:
  "mempools (set_pool n p s) = (mempools s)(n := fst p)" "cells (set_pool n p s) = snd p"
  "queues (set_pool n p s) = queues s" "threads (set_pool n p s) = threads s" "objs (set_pool n p s) = objs s"
  "ready_group (set_pool n p s) = ready_group s" "timers (set_pool n p s) = timers s"
  "timer_list (set_pool n p s) = timer_list s" "rt_tick (set_pool n p s) = rt_tick s"
  "current_thread (set_pool n p s) = current_thread s" "lock_nest (set_pool n p s) = lock_nest s"
  "irq_nest (set_pool n p s) = irq_nest s" "frames (set_pool n p s) = frames s"
  "container (set_pool n p s) = container s" "is_mp m (set_pool n p s) = is_mp m s"
  by (simp_all add: set_pool_def is_mp_def rt_object_get_type_def)

lemma pool_of_set [simp]: "pool n (set_pool n p s) = p" "set_pool n (pool n s) s = s"
    "set_pool n q (set_pool n p s) = set_pool n q s"
  by (simp_all add: pool_def set_pool_def)

lemma mp_core_inv [simp]:
  "core_inv s \<Longrightarrow> core_inv (upd_mp n f s)" "core_inv s \<Longrightarrow> core_inv (set_pool n p s)"
  by (rule core_inv_cong; simp)+

lemma mp_inv_cong:
  assumes "mempools s' n = mempools s n" "cells s' = cells s"
    "otype (objs s' (OMemPool n)) = otype (objs s (OMemPool n))"
    "queues s' (Suspend (QMemPool n)) = queues s (Suspend (QMemPool n))"
  shows "mp_inv n s' = mp_inv n s"
  using assms by (simp add: mp_inv_def is_mp_def rt_object_get_type_def pool_def)

lemma mp_take_count:
  assumes "mp_take n p = Some (b, p')"
  shows "suspend_thread_count (fst p') = suspend_thread_count (fst p)"
  using assms by (auto simp: mp_take_def Let_def split: prod.splits cell.splits if_splits)

lemma mp_put_count: "suspend_thread_count (fst (mp_put b p)) = suspend_thread_count (fst p)"
  by (auto simp: mp_put_def Let_def split: prod.splits)

lemma free_count: "mp_ok n p \<Longrightarrow> block_free_count (fst p) = 0 \<longleftrightarrow> mp_held n p = mp_all p"
proof (cases p)
  case (Pair mp C)
  assume "mp_ok n p"
  then obtain F where F: "pool_ok n F (mp, C)" by (auto simp: mp_ok_def Pair)
  show ?thesis unfolding Pair free_none(2) [OF F] using free_none(1) [OF F] by simp
qed

section \<open>Allocating\<close>

lemma mp_alloc_free_block:
  assumes i: "mp_inv n s" and f: "mp_held n (pool n s) \<noteq> mp_all (pool n s)"
  shows "\<exists>b p. rt_mp_alloc n time s = Some (Return (Some b), set_pool n p s) \<and>
    mp_take n (pool n s) = Some (b, p) \<and> b \<in> mp_all (pool n s) \<and> b \<notin> mp_held n (pool n s) \<and>
    mp_held n p = insert b (mp_held n (pool n s)) \<and> mp_all p = mp_all (pool n s) \<and>
    mp_inv n (set_pool n p s)"
proof -
  have ok: "mp_ok n (pool n s)" using i by (simp add: mp_inv_def)
  obtain b p where g: "mp_get n (pool n s) = Some (b, p)" using blocks.get_some [OF ok f] by blast
  have c: "block_free_count (mempools s n) \<noteq> 0" using free_count [OF ok] f by (simp add: pool_def)
  then have t: "mp_take n (pool n s) = Some (b, p)" using g by (simp add: mp_get_def pool_def)
  then have "rt_mp_alloc n time s = Some (Return (Some b), set_pool n p s)"
    using c by (simp add: rt_mp_alloc_def mp_alloc_loop.simps mp_alloc_now_def)
  moreover have "mp_inv n (set_pool n p s)"
    using i blocks.get_wf [OF ok g] mp_take_count [OF t] by (simp add: mp_inv_def pool_def)
  ultimately show ?thesis using t blocks.get_wf [OF ok g] by blast
qed

text \<open>What \<^verbatim>\<open>rt_mp_free\<close> does to an allocated block: nobody waits, and the state is the old one.\<close>

lemma mp_free_after_alloc:
  assumes "mp_take n (pool n s) = Some (b, p)" "suspend_thread_count (mempools s n) = 0"
  shows "rt_mp_free b (set_pool n p s) = Some s"
proof -
  have "snd p (b - 4) = Pool n"
    using assms(1) by (auto simp: mp_take_def Let_def pool_def split: cell.splits if_splits)
  then show ?thesis
    using put_after_take [OF assms(1)] assms(2) by (simp add: rt_mp_free_def Let_def)
qed

lemma mp_alloc_empty:
  assumes i: "mp_inv n s" and f: "mp_held n (pool n s) = mp_all (pool n s)"
  shows "rt_mp_alloc n 0 s = Some (Return None, rt_set_errno (- RT_ETIMEOUT) s)"
  using assms free_count [of n "pool n s"]
  by (simp add: rt_mp_alloc_def mp_alloc_loop.simps mp_inv_def pool_def)

lemma errno_set_get: "rt_get_errno (rt_set_errno e s) = e"
  by (auto simp: rt_get_errno_def rt_set_errno_def rt_thread_self_def split: option.splits)

lemma set_errno_sel [simp]:
  "mempools (rt_set_errno e s) = mempools s" "cells (rt_set_errno e s) = cells s"
  "queues (rt_set_errno e s) = queues s" "objs (rt_set_errno e s) = objs s"
  by (auto simp: rt_set_errno_def upd_thread_def split: option.splits)

lemma errno_at:
  "rt_get_errno s = (case rt_errno_at s of None \<Rightarrow> global_errno s | Some t \<Rightarrow> th_error (threads s t))"
  by (simp add: rt_get_errno_def rt_errno_at_def)

section \<open>Waiting for a block\<close>

definition mp_queued :: "tid \<Rightarrow> nat \<Rightarrow> kernel \<Rightarrow> kernel \<Rightarrow> bool" where
  "mp_queued t n s s' \<longleftrightarrow>
     kframe (upd_mp n (\<lambda>r. r\<lparr>suspend_thread_count := suspend_thread_count r + 1\<rparr>) s) s' \<and>
     queues s' = q_insert_head (Suspend (QMemPool n)) t (q_remove t (queues s)) \<and>
     threads s' = (threads s)(t := with_stat RT_THREAD_SUSPEND (threads s t))"

lemma kframe_upd_mp: "kframe a b \<Longrightarrow> kframe (upd_mp n f a) (upd_mp n f b)"
  by (simp add: kframe_def upd_mp_def timer_flag_def)

lemma mp_suspend_spec:
  assumes inv: "core_inv s" and t: "thread_stat s t = RT_THREAD_READY" and time: "sint time \<noteq> 0x7fffffff"
  shows "\<exists>s'. mp_suspend t n time s = Some s' \<and> mp_queued t n s s' \<and> core_inv s'"
proof -
  let ?h = "Suspend (QMemPool n)"
  let ?up = "upd_mp n (\<lambda>r. r\<lparr>suspend_thread_count := suspend_thread_count r + 1\<rparr>)"
  obtain s1 where s1: "rt_thread_suspend t s = Some (RT_EOK, s1)" "suspended t s s1" "core_inv s1"
    using rt_thread_suspend_spec [OF inv t] by blast
  note d = suspendedD [OF s1(2)]
  have un: "\<forall>h. t \<notin> set (queues s1 h)" by (simp add: d(2) q_remove_def)
  define Q where "Q = (queues s1)(?h := t # queues s1 ?h)"
  have Qh: "Q = q_insert_head ?h t (queues s1)" by (simp add: Q_def q_insert_head_def)
  have "distinct (queues s1 ?h)" by (rule q_okD(1) [OF sched_okD(1) [OF core_invD(1) [OF s1(3)]]])
  then have ok: "q_ok Q"
    unfolding Q_def by (intro q_ok_link [OF sched_okD(1) [OF core_invD(1) [OF s1(3)]] un]) (simp_all add: un)
  have "sched_ok Q (ready_group s1) (threads s1)"
    by (rule sched_ok_link [OF core_invD(1) [OF s1(3)] un ok, where h = ?h])
      (use d(6) [of t] in \<open>auto simp: Q_def thread_stat_def\<close>)
  then have i2: "core_inv (?up (s1\<lparr>queues := Q\<rparr>))" by (intro mp_core_inv queues_core_inv s1(3)) simp
  let ?s2 = "?up (s1\<lparr>queues := Q\<rparr>)"
  have k2: "kframe (?up s) ?s2" by (intro kframe_upd_mp kframe_trans [OF d(1) kframe_upd(2)])
  have m2: "mp_queued t n s ?s2" using k2 by (simp add: mp_queued_def Qh d(2,3))
  have eq: "mp_suspend t n time s = (if 0 < sint time then start_wait_timer t time ?s2 else Some ?s2)"
    using un by (simp add: mp_suspend_def s1(1) Let_def linked_def Qh)
  show ?thesis
  proof (cases "0 < sint time")
    case False
    then show ?thesis using eq m2 i2 by simp
  next
    case True
    have "sint time < 2 ^ 31" using sint_lt [of time] by simp
    then have ub: "sint time < 0x7fffffff" using time by simp
    have "uint time = sint time"
      using True ub uint_sint [of time] by (simp add: take_bit_int_eq_self)
    then have tk: "time < RT_TICK_MAX div 2" using ub by (simp add: half_tick word_less_def)
    have st2: "thread_stat ?s2 t = RT_THREAD_SUSPEND" using d(6) [of t] by (simp add: thread_stat_def)
    obtain s3 where s3: "start_wait_timer t time ?s2 = Some s3" "timer_armed t time ?s2 s3" "core_inv s3"
      using start_wait_timer_spec [OF i2 st2 tk] by blast
    note a = timer_armedD [OF s3(2)]
    have "mp_queued t n s s3"
      using m2 kframe_trans [OF k2 a(1)] by (simp add: mp_queued_def a(2,3))
    then show ?thesis using eq True s3 by simp
  qed
qed

lemma mp_alloc_blocks:
  assumes inv: "core_inv s" and i: "mp_inv n s" and f: "mp_held n (pool n s) = mp_all (pool n s)"
    and cur: "current_thread s = Some t" and t: "thread_stat s t = RT_THREAD_READY"
    and ctx: "lock_nest s = 0" "irq_nest s = 0"
    and other: "u \<noteq> t" "thread_stat s u = RT_THREAD_READY"
    and time: "time \<noteq> 0" "sint time \<noteq> 0x7fffffff"
  shows "\<exists>s'. rt_mp_alloc n time s = Some (Blocked, s') \<and> core_inv s' \<and> mp_inv n s' \<and> runs_highest s' \<and>
    current_thread s' \<noteq> Some t \<and> thread_stat s' t = RT_THREAD_SUSPEND \<and> pool_ok n [] (pool n s') \<and>
    lock_nest s' = 0 \<and> mp_all (pool n s') = mp_all (pool n s) \<and>
    queues s' (Suspend (QMemPool n)) = t # queues s (Suspend (QMemPool n)) \<and>
    frames s' = (frames s)(t := Some (FMpAlloc n time (if 0 < sint time then rt_tick s else 0)))"
proof -
  let ?s1 = "upd_thread t (\<lambda>r. r\<lparr>th_error := RT_EOK\<rparr>) s"
  define st where "st = (if 0 < sint time then rt_tick s else 0)"
  let ?fr = "FMpAlloc n time st"
  let ?after = "\<lambda>s'. if th_error (threads s' t) \<noteq> RT_EOK then Some (Return None, s')
      else mp_alloc_loop (Some t) n (time_left time st (rt_tick s')) s'"
  have i1: "core_inv ?s1" by (rule upd_thread_cong_inv [OF inv]) simp_all
  have st1: "thread_stat ?s1 w = thread_stat s w" for w by (simp add: thread_stat_def tstat_def)
  obtain s2 where s2: "mp_suspend t n time ?s1 = Some s2" "mp_queued t n ?s1 s2" "core_inv s2"
    using mp_suspend_spec [OF i1 _ time(2), of t n] t by (auto simp: st1)
  have k: "kframe (upd_mp n (\<lambda>r. r\<lparr>suspend_thread_count := suspend_thread_count r + 1\<rparr>) ?s1) s2"
    and q2: "queues s2 = q_insert_head (Suspend (QMemPool n)) t (q_remove t (queues s))"
    and th2: "threads s2 = (threads ?s1)(t := with_stat RT_THREAD_SUSPEND (threads ?s1 t))"
    using s2(2) by (simp_all add: mp_queued_def)
  note ks = kframe_sel [OF k, simplified]
  have nr: "thread_stat s2 t \<noteq> RT_THREAD_READY" and ur: "thread_stat s2 u = RT_THREAD_READY"
    using other by (simp_all add: thread_stat_def th2)
  have c2: "current_thread s2 = Some t" "lock_nest s2 = 0" using cur ctx by (simp_all add: ks)
  obtain s3 s' where s': "block_point t ?fr ?after s2 = Some (Blocked, s')" "core_inv s'"
      "runs_highest s'" "current_thread s' \<noteq> Some t"
    and fr: "sched_frame s2 s3" and eq: "s' = set_frame t (Some ?fr) s3"
    using block_point_spec [OF s2(3) nr c2 ur] by blast
  note g = sched_frame_sel [OF fr]
  have tq: "t \<notin> set (queues s (Suspend q))" for q
    using t sched_okD(3) [OF core_invD(1) [OF inv], of t q] by (auto simp: thread_stat_def)
  have ok: "mp_ok n (pool n s)" using i by (simp add: mp_inv_def)
  have z: "block_free_count (mempools s n) = 0" using free_count [OF ok] f by (simp add: pool_def)
  have "rt_mp_alloc n time s = Some (Blocked, s')"
    using z time(1) cur ctx s2(1) s'(1)
    by (simp add: rt_mp_alloc_def, subst mp_alloc_loop.simps)
      (simp add: debug_defs rt_thread_self_def Let_def flip: st_def cong: if_cong)
  moreover have q': "queues s' (Suspend (QMemPool n)) = t # queues s (Suspend (QMemPool n))"
    using tq by (simp add: eq set_frame_def g q2 q_insert_head_def q_remove_def)
  moreover have pool': "mempools s' n = (mempools s n)\<lparr>suspend_thread_count := suspend_thread_count (mempools s n) + 1\<rparr>"
      "cells s' = cells s"
    by (simp_all add: eq set_frame_def g ks)
  moreover obtain F where F: "pool_ok n F (mempools s n, cells s)"
    using ok by (auto simp: mp_ok_def pool_def)
  have "F = []" using free_none(1) [OF F] z by simp
  with F have "pool_ok n [] (pool n s')"
    by (simp add: pool_def pool')
  moreover have "mp_all (pool n s') = mp_all (pool n s)" by (simp add: pool_def pool' mp_all_def)
  moreover have "lock_nest s' = 0" using ctx(1) by (simp add: eq set_frame_def g ks)
  moreover have "mp_inv n s'"
  proof -
    have "objs s' (OMemPool n) = objs s (OMemPool n)"
      using ks(18) [of "OMemPool n"] by (simp add: eq set_frame_def g)
    then show ?thesis using i q' pool' \<open>pool_ok n [] (pool n s')\<close>
      by (auto simp: mp_inv_def is_mp_def rt_object_get_type_def mp_ok_def)
  qed
  moreover have "thread_stat s' t = RT_THREAD_SUSPEND"
    by (simp add: eq set_frame_def thread_stat_def g th2)
  ultimately show ?thesis using s'(2-4) by (simp add: eq set_frame_def g ks st_def)
qed

section \<open>Freeing\<close>

lemma mp_held_cell:
  assumes "b \<in> mp_held n (pool n s)"
  shows "cells s (b - 4) = Pool n"
  using assms by (auto simp: mp_held_def pool_def)

lemma mp_put_inv:
  assumes i: "mp_inv n s" and b: "b \<in> mp_held n (pool n s)"
  shows "mp_ok n (mp_put b (pool n s))" "mp_held n (mp_put b (pool n s)) = mp_held n (pool n s) - {b}"
    "mp_all (mp_put b (pool n s)) = mp_all (pool n s)" "mp_inv n (set_pool n (mp_put b (pool n s)) s)"
proof -
  have ok: "mp_ok n (pool n s)" using i by (simp add: mp_inv_def)
  note p = blocks.put_wf [OF ok b]
  show "mp_ok n (mp_put b (pool n s))" "mp_held n (mp_put b (pool n s)) = mp_held n (pool n s) - {b}"
    "mp_all (mp_put b (pool n s)) = mp_all (pool n s)" using p by simp_all
  show "mp_inv n (set_pool n (mp_put b (pool n s)) s)"
    using i p mp_put_count [of b "pool n s"] by (simp add: mp_inv_def) (simp add: pool_def)
qed

lemma mp_free_quiet:
  assumes i: "mp_inv n s" and b: "b \<in> mp_held n (pool n s)" and q: "queues s (Suspend (QMemPool n)) = []"
  shows "rt_mp_free b s = Some (set_pool n (mp_put b (pool n s)) s)"
  using i q mp_held_cell [OF b] mp_put_count [of b "pool n s"]
  by (simp add: rt_mp_free_def Let_def mp_inv_def pool_def)

lemma mp_free_wakes:
  assumes inv: "core_inv s" and i: "mp_inv n s" and b: "b \<in> mp_held n (pool n s)"
    and q: "queues s (Suspend (QMemPool n)) = t # ts" "length ts < 2 ^ 32 - 1"
    and cur: "current_thread s \<noteq> None"
  shows "\<exists>s'. rt_mp_free b s = Some s' \<and> core_inv s' \<and> mp_inv n s' \<and>
    queues s' (Suspend (QMemPool n)) = ts \<and> thread_stat s' t = RT_THREAD_READY \<and>
    th_error (threads s' t) = RT_EOK \<and> mp_held n (pool n s') = mp_held n (pool n s) - {b} \<and>
    mp_all (pool n s') = mp_all (pool n s) \<and> (lock_nest s = 0 \<longrightarrow> runs_highest s')"
proof -
  let ?p = "mp_put b (pool n s)"
  let ?s1 = "set_pool n ?p s"
  define s2 where "s2 = upd_thread t (\<lambda>r. r\<lparr>th_error := RT_EOK\<rparr>) ?s1"
  note p = mp_put_inv [OF i b]
  have i2: "core_inv s2" unfolding s2_def by (rule upd_thread_cong_inv) (simp_all add: inv)
  have st: "thread_stat s2 t = RT_THREAD_SUSPEND"
    using sched_okD(3) [OF core_invD(1) [OF inv], of t "QMemPool n"]
    by (simp add: s2_def q thread_stat_def tstat_def)
  obtain s3 where s3: "rt_thread_resume t s2 = Some (RT_EOK, s3)" "resumed t s2 s3" "core_inv s3"
    using rt_thread_resume_spec [OF i2 st] by blast
  note d = resumedD [OF s3(2)] and k = kframe_sel [OF resumedD(1) [OF s3(2)]]
  have u: "q_remove t (queues s) = (queues s)(Suspend (QMemPool n) := ts)"
    by (rule aq.unlink_first [OF sched_okD(1) [OF core_invD(1) [OF inv]] q(1)])
  let ?s4 = "upd_mp n (\<lambda>r. r\<lparr>suspend_thread_count := suspend_thread_count r - 1\<rparr>) s3"
  have i4: "core_inv ?s4" using s3(3) by simp
  have "queues ?s4 (Ready (unat (current_priority (threads s2 t)))) \<noteq> []"
    by (simp add: d(2) q_insert_tail_def)
  moreover have "current_thread ?s4 \<noteq> None" using cur by (simp add: k s2_def)
  ultimately obtain s' where s': "rt_schedule ?s4 = Some s'"
    using rt_schedule_total [OF core_invD(1) [OF i4]] by blast
  note g = rt_schedule_sel [OF s'] and f = rt_schedule_frame [OF s']
  have c: "suspend_thread_count (fst ?p) = of_nat (length (t # ts))"
    using i q mp_put_count [of b "pool n s"] by (simp add: mp_inv_def pool_def)
  have "unat (of_nat (length (t # ts)) :: u32) = length (t # ts)"
    using q(2) by (simp add: unat_of_nat del: of_nat_Suc)
  then have pos: "(0 :: u32) < of_nat (length (t # ts))" unfolding word_less_nat_alt by simp
  have run: "rt_mp_free b s = Some s'"
    using mp_held_cell [OF b] s' s3(1) q(1) pos
    by (simp add: rt_mp_free_def Let_def c s2_def del: of_nat_Suc)
  have q': "queues s' (Suspend (QMemPool n)) = ts"
    by (simp add: g d(2) s2_def u q_insert_tail_def)
  have m': "mempools s' n = (fst ?p)\<lparr>suspend_thread_count := of_nat (length ts)\<rparr>" "cells s' = snd ?p"
    using sched_frame_sel [OF f] c by (simp_all add: k s2_def)
  have pool': "pool n s' = ((fst ?p)\<lparr>suspend_thread_count := of_nat (length ts)\<rparr>, snd ?p)"
    by (simp add: pool_def m')
  have "objs s' (OMemPool n) = objs s (OMemPool n)"
    using k(18) [of "OMemPool n"] by (simp add: g s2_def)
  moreover have "mp_ok n (pool n s')" using p(1) by (cases ?p) (simp add: pool' mp_ok_def)
  ultimately have "mp_inv n s'"
    using i q' by (simp add: mp_inv_def is_mp_def rt_object_get_type_def m')
  moreover have "mp_held n (pool n s') = mp_held n (pool n s) - {b}" "mp_all (pool n s') = mp_all (pool n s)"
    using p(2,3) by (cases ?p; simp add: pool' mp_held_def mp_all_def)+
  moreover have "thread_stat s' t = RT_THREAD_READY" "th_error (threads s' t) = RT_EOK"
    using d(6) [of t] sched_frame_thread(1) [OF f, of t]
    by (simp_all add: thread_stat_def sched_frame_sel [OF f] d(3) s2_def)
  moreover have "core_inv s'" using i4 rt_schedule_core_inv [OF s'] by simp
  moreover have "lock_nest s = 0 \<longrightarrow> runs_highest s'"
    using rt_schedule_runs_highest [OF s'] by (simp add: k s2_def)
  ultimately show ?thesis using run q' by blast
qed

text \<open>A woken thread goes on with the loop; when there is a free block, it gets it as a caller would.\<close>

lemma mp_loop_free:
  "block_free_count (mempools s n) \<noteq> 0 \<Longrightarrow> mp_alloc_loop self n time s = mp_alloc_now n s"
  by (simp add: mp_alloc_loop.simps)

lemma mp_wake_alloc:
  assumes "th_error (threads s t) = RT_EOK" "mp_inv n s" "mp_held n (pool n s) \<noteq> mp_all (pool n s)"
  shows "rt_mp_alloc_wake t n time st s = rt_mp_alloc n time s"
proof -
  have "block_free_count (mempools s n) \<noteq> 0"
    using assms(2,3) free_count [of n "pool n s"] by (simp add: mp_inv_def pool_def)
  then show ?thesis using assms(1) by (simp add: rt_mp_alloc_wake_def rt_mp_alloc_def mp_loop_free)
qed

text \<open>The freed block goes to the thread that waited for it.\<close>

lemma mp_alloc_last:
  assumes i: "mp_inv n s" and f: "mp_held n (pool n s) = mp_all (pool n s) - {b}" "b \<in> mp_all (pool n s)"
  shows "\<exists>p. rt_mp_alloc n time s = Some (Return (Some b), set_pool n p s) \<and> mp_inv n (set_pool n p s) \<and>
    mp_held n p = mp_all p"
proof -
  have "mp_held n (pool n s) \<noteq> mp_all (pool n s)" using f by auto
  from mp_alloc_free_block [OF i this, of time] obtain c p where
    "rt_mp_alloc n time s = Some (Return (Some c), set_pool n p s)" "c \<in> mp_all (pool n s)"
    "c \<notin> mp_held n (pool n s)" "mp_held n p = insert c (mp_held n (pool n s))" "mp_all p = mp_all (pool n s)"
    "mp_inv n (set_pool n p s)" by blast
  moreover from this have "c = b" using f by blast
  ultimately show ?thesis using f by (intro exI [of _ p]) auto
qed

section \<open>Releasing all waiting threads\<close>

lemma resumed_upd_mp: "resumed t a b \<Longrightarrow> resumed t (upd_mp n f a) (upd_mp n f b)"
  using kframe_upd_mp [of a b] by (simp add: resumed_def)

lemma mp_resume_all_spec:
  assumes "core_inv s" "queues s (Suspend (QMemPool n)) = ts"
  shows "\<exists>s'. mp_resume_all n s = Some s' \<and> core_inv s' \<and> queues s' (Suspend (QMemPool n)) = [] \<and>
    flushed ts (upd_mp n (\<lambda>r. r\<lparr>suspend_thread_count := suspend_thread_count r - of_nat (length ts)\<rparr>) s) s'"
  using assms
proof (induction ts arbitrary: s)
  case Nil
  then show ?case by (subst mp_resume_all.simps) (simp add: flushed_def kframe_def upd_mp_def timer_flag_def)
next
  case (Cons t ts)
  note inv = Cons.prems(1) and q = Cons.prems(2)
  note sc = core_invD(1) [OF inv]
  let ?dec = "\<lambda>k. upd_mp n (\<lambda>r. r\<lparr>suspend_thread_count := suspend_thread_count r - k\<rparr>)"
  let ?s = "upd_thread t (\<lambda>r. r\<lparr>th_error := - RT_ERROR\<rparr>) s"
  have i: "core_inv ?s" by (rule upd_thread_cong_inv [OF inv]) simp_all
  have st: "thread_stat s t = RT_THREAD_SUSPEND"
    using sched_okD(3) [OF sc, of t "QMemPool n"] by (simp add: q thread_stat_def)
  then have "thread_stat ?s t = RT_THREAD_SUSPEND" by (simp add: thread_stat_def tstat_def)
  then obtain s1 where s1: "rt_thread_resume t ?s = Some (RT_EOK, s1)" "resumed t ?s s1" "core_inv s1"
    using rt_thread_resume_spec [OF i] by blast
  have u: "q_remove t (queues s) = (queues s)(Suspend (QMemPool n) := ts)"
    by (rule aq.unlink_first [OF sched_okD(1) [OF sc] q])
  have q1: "queues (?dec 1 s1) (Suspend (QMemPool n)) = ts"
    by (simp add: resumedD(2) [OF s1(2)] u q_insert_tail_def)
  obtain s' where s': "mp_resume_all n (?dec 1 s1) = Some s'" "core_inv s'"
      "queues s' (Suspend (QMemPool n)) = []" "flushed ts (?dec (of_nat (length ts)) (?dec 1 s1)) s'"
    using Cons.IH [OF mp_core_inv(1) [OF s1(3)] q1] by blast
  have "?dec (of_nat (length ts)) (?dec 1 s1) = ?dec (of_nat (length (t # ts))) s1"
    by (simp add: upd_mp_def algebra_simps)
  then have fl: "flushed ts (?dec (of_nat (length (t # ts))) s1) s'" using s'(4) by simp
  have "?dec (of_nat (length (t # ts))) ?s
      = upd_thread t (\<lambda>r. r\<lparr>th_error := - RT_ERROR\<rparr>) (?dec (of_nat (length (t # ts))) s)"
    by (simp add: upd_mp_def upd_thread_def)
  then have re: "resumed t (upd_thread t (\<lambda>r. r\<lparr>th_error := - RT_ERROR\<rparr>) (?dec (of_nat (length (t # ts))) s))
      (?dec (of_nat (length (t # ts))) s1)"
    using resumed_upd_mp [OF s1(2), of n "\<lambda>r. r\<lparr>suspend_thread_count := suspend_thread_count r - of_nat (length (t # ts))\<rparr>"]
    by (simp only:)
  have "t \<notin> set ts" using q_okD(1) [OF sched_okD(1) [OF sc], of "Suspend (QMemPool n)"] by (simp add: q)
  moreover have "t \<notin> set (queues s (Ready p))" for p
    using sched_okD(2) [OF sc, of t p] st by (simp add: thread_stat_def)
  ultimately have "flushed (t # ts) (?dec (of_nat (length (t # ts))) s) s'"
    by (intro flushed_Cons [OF re _ _ fl]) (simp_all only: upd_mp_sel not_False_eq_True)
  moreover have "mp_resume_all n s = Some s'"
    using q s1(1) s'(1) by (subst mp_resume_all.simps) (simp add: Let_def)
  ultimately show ?case using s'(2,3) by blast
qed

lemma mp_detach_spec:
  assumes inv: "core_inv s" and obj: "object_inv s" and i: "mp_inv n s"
    and sys: "rt_object_is_systemobject (OMemPool n) s"
  shows "\<exists>s1. rt_mp_detach n s = Some (RT_EOK, rt_object_detach (OMemPool n) s1) \<and>
    flushed (queues s (Suspend (QMemPool n))) (upd_mp n (\<lambda>r. r\<lparr>suspend_thread_count := 0\<rparr>) s) s1 \<and>
    queues s1 (Suspend (QMemPool n)) = [] \<and> core_inv (rt_object_detach (OMemPool n) s1) \<and>
    object_inv (rt_object_detach (OMemPool n) s1) \<and> \<not> is_mp n (rt_object_detach (OMemPool n) s1)"
proof -
  let ?ts = "queues s (Suspend (QMemPool n))"
  obtain s1 where s1: "mp_resume_all n s = Some s1" "core_inv s1" "queues s1 (Suspend (QMemPool n)) = []"
      "flushed ?ts (upd_mp n (\<lambda>r. r\<lparr>suspend_thread_count := suspend_thread_count r - of_nat (length ?ts)\<rparr>) s) s1"
    using mp_resume_all_spec [OF inv refl] by blast
  have "suspend_thread_count (mempools s n) - of_nat (length ?ts) = 0" using i by (simp add: mp_inv_def)
  then have fl: "flushed ?ts (upd_mp n (\<lambda>r. r\<lparr>suspend_thread_count := 0\<rparr>) s) s1"
    using s1(4) by (simp add: upd_mp_def)
  note k = kframe_sel [OF flushedD(1) [OF fl]]
  have "rt_mp_detach n s = Some (RT_EOK, rt_object_detach (OMemPool n) s1)"
    using i sys s1(1) by (simp add: rt_mp_detach_def mp_inv_def)
  moreover have "object_inv s1"
    using obj by (simp add: object_inv_def k) (simp add: rt_object_get_type_def)
  moreover have "core_inv (rt_object_detach (OMemPool n) s1)"
    by (rule object_detach_core_inv [OF s1(2)]) simp_all
  moreover have "\<not> is_mp n (rt_object_detach (OMemPool n) s1)"
    by (simp add: is_mp_def rt_object_get_type_def class_defs)
  ultimately show ?thesis using fl s1(3) object_detach_inv by blast
qed

section \<open>Setting up a pool\<close>

lemma object_init_mp:
  assumes obj: "object_inv s" and q: "quiet s" and dead: "rt_object_get_type (OMemPool n) s = 0"
    and inv: "core_inv s"
  shows "\<exists>s1. rt_object_init (OMemPool n) RT_Object_Class_MemPool name s = Some s1 \<and> object_inv s1 \<and>
    core_inv s1 \<and> is_mp n s1 \<and> queues s1 = queues s \<and> mempools s1 = mempools s \<and> cells s1 = cells s"
proof -
  have cls: "RT_Object_Class_MemPool \<in> set object_classes" by (simp add: object_classes_def)
  obtain s1 where s1: "rt_object_init (OMemPool n) RT_Object_Class_MemPool name s = Some s1" "object_inv s1"
      "rt_object_get_type (OMemPool n) s1 = RT_Object_Class_MemPool"
    and e1: "s1 = s\<lparr>objs := (objs s)(OMemPool n := (objs s (OMemPool n))\<lparr>otype := RT_Object_Class_MemPool OR RT_Object_Class_Static,
             oname := take RT_NAME_MAX name\<rparr>), container := q_insert_head RT_Object_Class_MemPool (OMemPool n) (container s)\<rparr>"
    using object_init_spec [OF q obj cls dead] by blast
  have "core_inv s1" unfolding e1 by (rule object_init_core_inv [OF inv]) simp_all
  then show ?thesis using s1 by (intro exI [of _ s1]) (simp add: is_mp_def e1)
qed

lemma object_inv_cong: "objs s' = objs s \<Longrightarrow> container s' = container s \<Longrightarrow> object_inv s' = object_inv s"
  by (simp add: object_inv_def rt_object_get_type_def)

text \<open>The number of blocks that fit.\<close>

lemma mp_geometry:
  fixes sz bsize :: u32
  assumes b: "unat bsize + 7 < 2 ^ 32"
  defines "bs \<equiv> RT_ALIGN bsize RT_ALIGN_SIZE" and "z \<equiv> RT_ALIGN_DOWN sz RT_ALIGN_SIZE"
  shows "unat bs = (unat bsize + 3) div 4 * 4" "unat (bs + 4) = unat bs + 4"
    "unat (z div (bs + 4)) = unat z div (unat bs + 4)" "unat z \<le> unat sz"
    "unat (z div (bs + 4)) * unat (bs + 4) \<le> unat z"
proof -
  show bs: "unat bs = (unat bsize + 3) div 4 * 4" unfolding bs_def using b by (intro unat_align) simp
  have "unat bs \<le> unat bsize + 3" unfolding bs by (rule div_times_less_eq_dividend)
  then show s: "unat (bs + 4) = unat bs + 4" using b by (simp add: unat_word_ariths)
  show d: "unat (z div (bs + 4)) = unat z div (unat bs + 4)" by (simp add: unat_div s)
  show "unat z \<le> unat sz" unfolding z_def unat_align_down by (rule div_times_less_eq_dividend)
  show "unat (z div (bs + 4)) * unat (bs + 4) \<le> unat z" unfolding d s by (rule div_times_less_eq_dividend)
qed

lemma mp_init_spec:
  assumes inv: "core_inv s" and obj: "object_inv s" and q: "quiet s"
    and dead: "rt_object_get_type (OMemPool n) s = 0" and e: "queues s (Suspend (QMemPool n)) = []"
    and start: "start \<noteq> 0" "unat start + unat sz < 2 ^ 32"
    and room: "unat bsize + 7 < 2 ^ 32" "unat bsize + 7 \<le> unat (RT_ALIGN_DOWN sz RT_ALIGN_SIZE)"
  shows "\<exists>s'. rt_mp_init n name start sz bsize s = Some (RT_EOK, s') \<and> core_inv s' \<and> object_inv s' \<and>
    mp_inv n s' \<and> mp_held n (pool n s') = {} \<and> pool_fits (mempools s' n) \<and>
    start_address (mempools s' n) = start \<and> unat bsize \<le> unat (block_size (mempools s' n)) \<and>
    unat (block_total_count (mempools s' n)) * unat (stride (mempools s' n)) \<le> unat sz \<and>
    card (mp_all (pool n s')) =
      unat (RT_ALIGN_DOWN sz RT_ALIGN_SIZE) div ((unat bsize + 3) div 4 * 4 + 4)"
proof -
  let ?z = "RT_ALIGN_DOWN sz RT_ALIGN_SIZE" and ?b = "RT_ALIGN bsize RT_ALIGN_SIZE"
  note g = mp_geometry(1,2) [OF room(1)] mp_geometry(3-5) [OF room(1), of sz]
  obtain s1 where s1: "rt_object_init (OMemPool n) RT_Object_Class_MemPool name s = Some s1" "object_inv s1"
      "core_inv s1" "is_mp n s1" "queues s1 = queues s" "mempools s1 = mempools s" "cells s1 = cells s"
    using object_init_mp [OF obj q dead inv] by blast
  define s2 where "s2 = upd_mp n (\<lambda>r. r\<lparr>start_address := start, mp_size := ?z, block_size := ?b,
         block_total_count := ?z div (?b + 4), block_free_count := ?z div (?b + 4)\<rparr>) s1"
  have i2: "core_inv s2" "queues s2 (Suspend (QMemPool n)) = []" using s1 e by (simp_all add: s2_def)
  define s3 where "s3 = upd_mp n (\<lambda>r. r\<lparr>suspend_thread_count := 0\<rparr>) s2"
  define mp where "mp = mempools s3 n"
  have m: "start_address mp = start" "block_size mp = ?b" "stride mp = ?b + 4"
      "block_total_count mp = ?z div (?b + 4)" "block_free_count mp = ?z div (?b + 4)"
      "suspend_thread_count mp = 0"
    by (simp_all add: mp_def s3_def s2_def stride_def)
  have nz: "?b + 4 \<noteq> 0" using g(2) by auto
  have e3: "mempools s3 n = (mempools s2 n)\<lparr>suspend_thread_count := 0\<rparr>" "cells s3 = cells s2"
    by (simp_all add: s3_def)
  let ?s' = "set_pool n (mp_format mp (cells s3)) s3"
  have run: "rt_mp_init n name start sz bsize s = Some (RT_EOK, ?s')"
    using s1(1) nz ipc_object_init_inv [OF i2] e3
    by (simp add: rt_mp_init_def Let_def s2_def [symmetric] s3_def [symmetric] mp_def)
  have ub: "unat ?b \<le> unat bsize + 3" unfolding g(1) by (rule div_times_less_eq_dividend)
  have "unat bsize + 3 < Suc ((unat bsize + 3) div 4) * 4"
    using dividend_less_div_times [of 4 "unat bsize + 3"] by simp
  then have lb: "unat bsize \<le> unat ?b" unfolding g(1) by simp
  have "unat ?b + 4 \<le> unat ?z" using ub room(2) by linarith
  then have tot: "0 < unat (?z div (?b + 4))" unfolding g(3) by (simp add: div_greater_zero_iff)
  have fits: "pool_fits mp"
    unfolding pool_fits_def m using g(2,4,5) tot start unat_gt_0 [of start] by fastforce
  have "pool_ok n (blocks mp) (mp_format mp (cells s3))" by (rule mp_format_spec [OF fits]) (simp add: m)
  then have ok: "pool_ok n (blocks mp) (pool n ?s')" by simp
  have f: "mp_format mp (cells s3) = (mp\<lparr>block_list := start\<rparr>, snd (mp_format mp (cells s3)))"
    by (simp add: mp_format_def Let_def m(1))
  have m': "mempools ?s' n = mp\<lparr>block_list := start\<rparr>" by (subst f) simp
  have "suspend_thread_count (fst (mp_format mp C)) = 0" for C by (simp add: mp_format_def Let_def m(6))
  then have "mp_inv n ?s'"
    using ok s1(4,5) e by (auto simp: mp_inv_def mp_ok_def s3_def s2_def)
  moreover have "mp_held n (pool n ?s') = {}"
  proof -
    obtain C where C: "pool n ?s' = (mp\<lparr>block_list := start\<rparr>, C)" using f by simp
    have "x \<notin> mp_held n (mp\<lparr>block_list := start\<rparr>, C)" for x
    proof
      assume x: "x \<in> mp_held n (mp\<lparr>block_list := start\<rparr>, C)"
      then obtain b where "x = b + 4" "b \<in> set (blocks mp)" by (auto simp: mp_held_def)
      then show False using held_free [OF ok [unfolded C], of b] x by simp
    qed
    then show ?thesis unfolding C by blast
  qed
  moreover have "card (mp_all (pool n ?s')) = unat ?z div ((unat bsize + 3) div 4 * 4 + 4)"
  proof -
    obtain C where C: "pool n ?s' = (mp\<lparr>block_list := start\<rparr>, C)" using f by simp
    have "mp_all (pool n ?s') = (\<lambda>b. b + 4) ` set (blocks mp)" by (simp only: C) (simp add: mp_all_def)
    moreover have "card ((\<lambda>b. b + 4) ` set (blocks mp)) = length (blocks mp)"
      using blocks_props(1) [OF fits] by (subst card_image) (auto simp: inj_on_def distinct_card)
    ultimately show ?thesis using blocks_props(3) [OF fits] by (simp add: m g(1,3))
  qed
  moreover have "core_inv ?s'" using i2(1) by (simp add: s3_def)
  moreover have "object_inv ?s'" using s1(2) by (subst object_inv_cong [of _ s1]) (simp_all add: s3_def s2_def)
  moreover have "pool_fits (mempools ?s' n)" "start_address (mempools ?s' n) = start"
      "unat bsize \<le> unat (block_size (mempools ?s' n))"
    unfolding m' using fits lb by (simp_all add: m)
  moreover have "unat (block_total_count (mempools ?s' n)) * unat (stride (mempools ?s' n)) \<le> unat sz"
    unfolding m' using g(4,5) by (simp add: m stride_def)
  ultimately show ?thesis using run by blast
qed

section \<open>When the waiting time is over\<close>

text \<open>The routine of the timer takes the thread off the queue, but does not know the counter of the
  pool.  The next block that is freed finds a counter of one and an empty queue.\<close>

lemma mp_timeout_count:
  assumes inv: "core_inv s" and i: "mp_inv n s" and b: "b \<in> mp_held n (pool n s)"
    and q: "queues s (Suspend (QMemPool n)) = [t]"
    and nin: "ThreadTimer t \<notin> set (timer_list s)" and cur: "current_thread s \<noteq> None"
  shows "\<exists>s'. rt_thread_timeout t s = Some s' \<and> queues s' (Suspend (QMemPool n)) = [] \<and>
    suspend_thread_count (mempools s' n) = 1 \<and> rt_mp_free b s' = None"
proof -
  have st: "thread_stat s t = RT_THREAD_SUSPEND"
    using sched_okD(3) [OF core_invD(1) [OF inv], of t "QMemPool n"] by (simp add: q thread_stat_def)
  obtain s' where s': "rt_thread_timeout t s = Some s'" "timed_out t s s'"
    using rt_thread_timeout_spec [OF inv st nin cur] by blast
  obtain s1 where k: "kframe s s1" "sched_frame s1 s'"
    and q1: "queues s1 = q_insert_tail (Ready (unat (current_priority (threads s t)))) t (q_remove t (queues s))"
    using s'(2) by (auto simp: timed_out_def)
  note f = sched_frame_sel [OF k(2)] kframe_sel [OF k(1)]
  have q': "queues s' (Suspend (QMemPool n)) = []" by (simp add: f q1 q q_defs)
  have c: "suspend_thread_count (mempools s' n) = 1" using i q by (simp add: f mp_inv_def)
  have "rt_mp_free b s' = None"
    using mp_held_cell [OF b] c q' mp_put_count [of b "pool n s'"]
    by (simp add: rt_mp_free_def f Let_def pool_def)
  with s'(1) q' c show ?thesis by blast
qed

end
