(* ===== verification/Mempool_Props.thy ===== *)
theory Mempool_Props
  imports Mempool Demo
begin

text \<open>
  The properties of memory pools, with a pool of two blocks of eight bytes at address 4096 on
  which they are applied.
\<close>

section \<open>A pool\<close>

definition demo_mp :: rt_mempool where
  "demo_mp = \<lparr>start_address = 4096, mp_size = 24, block_size = 8, block_list = 0, block_total_count = 2,
     block_free_count = 2, suspend_thread_count = 0\<rparr>"

text \<open>With both blocks free, and with both handed out.\<close>

definition demo_free :: "rt_mempool \<times> (u32 \<Rightarrow> cell)" where
  "demo_free = mp_format demo_mp (\<lambda>_. Block 0)"

definition demo_used :: "rt_mempool \<times> (u32 \<Rightarrow> cell)" where
  "demo_used = (demo_mp\<lparr>block_free_count := 0\<rparr>, \<lambda>_. Pool 0)"

lemma mp_link_two: "mp_link p w off 2 C = mp_link p w off (Suc (Suc 0)) C"
  by (simp add: numeral_2_eq_2)

lemma demo_mp_blocks [simp]: "blocks demo_mp = [4096, 4108]" "pool_fits demo_mp"
  by (simp_all add: blocks_def pool_fits_def stride_def demo_mp_def upt_rec)

lemma demo_pools: "pool_ok 0 [4096, 4108] demo_free" "pool_ok 0 [] demo_used"
  using mp_format_spec [of demo_mp 0 "\<lambda>_. Block 0"]
  by (simp_all add: demo_free_def demo_used_def pool_ok_def) (simp_all add: demo_mp_def)

lemma demo_pool_sets: "mp_held 0 demo_used = {4100, 4112}" "mp_all demo_used = {4100, 4112}"
  by (auto simp: mp_held_def mp_all_def demo_used_def)

lemma demo_free_sets: "mp_held 0 demo_free = {}" "mp_all demo_free = {4100, 4112}"
proof -
  obtain mp C where e: "demo_free = (mp, C)" by (cases demo_free)
  then have bl: "blocks mp = [4096, 4108]" by (auto simp: demo_free_def mp_format_def Let_def)
  then show "mp_all demo_free = {4100, 4112}" by (simp add: e mp_all_def)
  have "x \<notin> mp_held 0 (mp, C)" for x
  proof
    assume x: "x \<in> mp_held 0 (mp, C)"
    then obtain b where "x = b + 4" "b \<in> set (blocks mp)" by (auto simp: mp_held_def)
    then show False using held_free [OF demo_pools(1) [unfolded e], of b] x by (simp add: bl)
  qed
  then show "mp_held 0 demo_free = {}" unfolding e by blast
qed

definition demo_kernel :: "rt_mempool \<times> (u32 \<Rightarrow> cell) \<Rightarrow> kernel" where
  "demo_kernel p = set_pool 0 p demo"

lemma demo_kernel_inv: "core_inv (demo_kernel p)" "pool 0 (demo_kernel p) = p"
  by (simp_all add: demo_kernel_def demo_on_core)

lemma demo_kernel_pool: "mp_inv 0 (demo_kernel demo_free)" "mp_inv 0 (demo_kernel demo_used)"
proof -
  have "is_mp 0 demo" by (simp add: is_mp_def demo_on_types demo_type_def class_defs)
  moreover have "suspend_thread_count (fst demo_free) = 0"
    by (simp add: demo_free_def mp_format_def Let_def demo_mp_def)
  ultimately show "mp_inv 0 (demo_kernel demo_free)" "mp_inv 0 (demo_kernel demo_used)"
    using demo_pools by (auto simp: mp_inv_def demo_kernel_def mp_ok_def demo_used_def demo_mp_def)
qed

section \<open>The properties\<close>

text \<open>C18: A memory pool never hands out a block that somebody holds.  In every sequence of allocations
  and releases, in which clients release only what they hold, each allocated block is free at that
  moment, the blocks that are held at the end are those that were taken and not put back, any two of
  them are a whole block apart, and all lie in the memory of the pool.\<close>

theorem pool_exclusive:
  assumes "mp_ok n (mp, C)" "play (mp_get n) mp_put es (mp, C) = Some p" "proper es (mp_held n (mp, C))"
  shows "exclusive es (mp_held n (mp, C)) \<and> mp_ok n p \<and> mp_held n p = holding es (mp_held n (mp, C)) \<and>
    (\<forall>b \<in> mp_held n p. \<forall>c \<in> mp_held n p. b \<noteq> c \<longrightarrow>
       unat b + unat (block_size mp) + 4 \<le> unat c \<or> unat c + unat (block_size mp) + 4 \<le> unat b) \<and>
    (\<forall>b \<in> mp_held n p. unat (start_address mp) + 4 \<le> unat b \<and>
       unat b + unat (block_size mp) \<le> unat (start_address mp) + unat (block_total_count mp) * unat (stride mp))"
proof -
  note r = blocks.play_ok [OF assms]
  have f: "pool_fits mp" using assms(1) pool_okD(1) by (auto simp: mp_ok_def)
  have h: "\<exists>c \<in> set (blocks mp). b = c + 4 \<and> unat b = unat c + 4" if b: "b \<in> mp_held n p" for b
  proof -
    have "b \<in> mp_all (mp, C)" using blocks.held_all [of n p] r b by auto
    then obtain c where c: "b = c + 4" "c \<in> set (blocks mp)" by (auto simp: mp_all_def)
    have "unat c + 4 < 2 ^ 32" using blocks_inside(2) [OF f c(2)] pool_fitsD(5) [OF f] by linarith
    then show ?thesis using c by (intro bexI [of _ c]) (simp_all add: unat_word_ariths)
  qed
  have "unat b + unat (block_size mp) + 4 \<le> unat c \<or> unat c + unat (block_size mp) + 4 \<le> unat b"
    if "b \<in> mp_held n p" "c \<in> mp_held n p" "b \<noteq> c" for b c
    using h [OF that(1)] h [OF that(2)] that(3) blocks_apart [OF f] by fastforce
  moreover have "unat (start_address mp) + 4 \<le> unat b \<and>
      unat b + unat (block_size mp) \<le> unat (start_address mp) + unat (block_total_count mp) * unat (stride mp)"
    if "b \<in> mp_held n p" for b
    using h [OF that] blocks_inside [OF f] by fastforce
  ultimately show ?thesis using r by blast
qed

theorem pool_exclusive_witness:
  "exclusive [Got (4100 :: u32), Got 4112, Returned 4100, Got 4100] {} \<and>
   (\<exists>p. play (mp_get 0) mp_put [Got 4100, Got 4112, Returned 4100, Got 4100] demo_free = Some p \<and>
     mp_held 0 p = {4100, 4112})"
proof -
  obtain mp C where e: "demo_free = (mp, C)" by (cases demo_free)
  let ?es = "[Got (4100 :: u32), Got 4112, Returned 4100, Got 4100]"
  have "play (mp_get 0) mp_put ?es demo_free \<noteq> None"
    by (simp add: demo_free_def mp_format_def demo_mp_def Let_def stride_def mp_get_def mp_take_def mp_put_def
        mp_link_two)
  then obtain p where p: "play (mp_get 0) mp_put ?es demo_free = Some p" by blast
  have "mp_ok 0 (mp, C)" using demo_pools(1) by (auto simp: mp_ok_def e)
  from pool_exclusive [OF this p [unfolded e]] demo_free_sets(1) p show ?thesis by (auto simp: e)
qed

text \<open>C19: Allocating a block and freeing it again.  When a block is free, \<^verbatim>\<open>rt_mp_alloc\<close> returns at once,
  whatever its waiting time, with a block that nobody holds; if no thread waits, \<^verbatim>\<open>rt_mp_free\<close> of
  this block leads back to exactly the old state of the kernel.\<close>

theorem pool_roundtrip:
  assumes "mp_inv n s" "mp_held n (pool n s) \<noteq> mp_all (pool n s)" "queues s (Suspend (QMemPool n)) = []"
  shows "\<exists>b s'. rt_mp_alloc n time s = Some (Return (Some b), s') \<and> mp_inv n s' \<and>
    b \<in> mp_all (pool n s) \<and> b \<notin> mp_held n (pool n s) \<and>
    mp_held n (pool n s') = insert b (mp_held n (pool n s)) \<and> rt_mp_free b s' = Some s"
proof -
  obtain b p where b: "rt_mp_alloc n time s = Some (Return (Some b), set_pool n p s)"
      "mp_take n (pool n s) = Some (b, p)" "b \<in> mp_all (pool n s)" "b \<notin> mp_held n (pool n s)"
      "mp_held n p = insert b (mp_held n (pool n s))" "mp_inv n (set_pool n p s)"
    using mp_alloc_free_block [OF assms(1,2), of time] by blast
  have "suspend_thread_count (mempools s n) = 0" using assms(1,3) by (simp add: mp_inv_def)
  then show ?thesis using b mp_free_after_alloc [OF b(2)] by auto
qed

theorem pool_roundtrip_witness:
  "\<exists>b s'. rt_mp_alloc 0 5 (demo_kernel demo_free) = Some (Return (Some b), s') \<and>
     rt_mp_free b s' = Some (demo_kernel demo_free)"
proof -
  have "mp_held 0 demo_free \<noteq> mp_all demo_free" by (simp add: demo_free_sets)
  moreover have "queues (demo_kernel demo_free) (Suspend (QMemPool 0)) = []" by (simp add: demo_kernel_def)
  ultimately show ?thesis
    using pool_roundtrip [OF demo_kernel_pool(1), of 5] by (fastforce simp: demo_kernel_inv)
qed



text \<open>C21: \<^verbatim>\<open>rt_mp_init\<close> sets up a pool in any memory behind address 0 that has room for one block.  As
  many blocks as fit are free, each of at least the requested size, and they lie in the memory that
  was handed in.\<close>

theorem pool_init_ready:
  assumes "core_inv s" "object_inv s" "quiet s" "rt_object_get_type (OMemPool n) s = 0"
    and "queues s (Suspend (QMemPool n)) = []" "start \<noteq> 0" "unat start + unat sz < 2 ^ 32"
    and "unat bsize + 7 < 2 ^ 32" "unat bsize + 7 \<le> unat (RT_ALIGN_DOWN sz RT_ALIGN_SIZE)"
  shows "\<exists>s'. rt_mp_init n name start sz bsize s = Some (RT_EOK, s') \<and> core_inv s' \<and> object_inv s' \<and>
    mp_inv n s' \<and> mp_held n (pool n s') = {} \<and>
    card (mp_all (pool n s')) = unat (RT_ALIGN_DOWN sz RT_ALIGN_SIZE) div ((unat bsize + 3) div 4 * 4 + 4) \<and>
    unat bsize \<le> unat (block_size (mempools s' n)) \<and>
    (\<forall>b \<in> set (blocks (mempools s' n)). unat start \<le> unat b \<and>
       unat b + 4 + unat (block_size (mempools s' n)) \<le> unat start + unat sz)"
proof -
  obtain s' where s': "rt_mp_init n name start sz bsize s = Some (RT_EOK, s')" "core_inv s'" "object_inv s'"
      "mp_inv n s'" "mp_held n (pool n s') = {}" "pool_fits (mempools s' n)"
      "start_address (mempools s' n) = start" "unat bsize \<le> unat (block_size (mempools s' n))"
      "unat (block_total_count (mempools s' n)) * unat (stride (mempools s' n)) \<le> unat sz"
      "card (mp_all (pool n s')) = unat (RT_ALIGN_DOWN sz RT_ALIGN_SIZE) div ((unat bsize + 3) div 4 * 4 + 4)"
    using mp_init_spec [OF assms, of name] by blast
  have "unat start \<le> unat b \<and> unat b + 4 + unat (block_size (mempools s' n)) \<le> unat start + unat sz"
    if "b \<in> set (blocks (mempools s' n))" for b
    using blocks_inside [OF s'(6) that] s'(7,9) by simp
  with s' show ?thesis by blast
qed

theorem pool_init_ready_witness:
  "\<exists>s'. rt_mp_init 7 ''mp'' 4096 100 10 demo = Some (RT_EOK, s') \<and> card (mp_all (pool 7 s')) = 6"
proof -
  have "unat (RT_ALIGN_DOWN 100 RT_ALIGN_SIZE) = 100" by (simp add: unat_align_down)
  moreover have "rt_object_get_type (OMemPool 7) demo = 0" by (simp add: demo_on_types demo_type_def)
  ultimately show ?thesis
    using pool_init_ready [OF demo_on_core demo_on_object demo_on_quiet, of 7 "QSem 1" 4096 100 10 "''mp''"]
    by fastforce
qed

end
