(* ===== verification/Memheap.thy ===== *)
theory Memheap
  imports Rt_List
begin

text \<open>
  Memory heaps, \<^verbatim>\<open>src/memheap.c\<close>: an allocator whose blocks form a ring in the order of their
  addresses, of which the free ones form a second ring around a header in the control block.
  \<open>mstore\<close> holds the headers of all blocks by address, with one pair of links for each ring, and
  the control blocks of the heaps by number.  Headers at different addresses are different
  cells of the model; the invariant \<open>mh_at\<close> keeps all headers in use a header's size apart, and no
  other is read.  The routines are the code between taking and releasing the lock of a heap.
\<close>

section \<open>The data\<close>

definition RT_MEMHEAP_MAGIC :: u32 where "RT_MEMHEAP_MAGIC = 0x1ea01ea0"
definition RT_MEMHEAP_MASK :: u32 where "RT_MEMHEAP_MASK = 0xfffffffe"
definition RT_MEMHEAP_USED :: u32 where "RT_MEMHEAP_USED = 0x01"
definition RT_MEMHEAP_MINIALLOC :: u32 where "RT_MEMHEAP_MINIALLOC = 12"
definition RT_MEMHEAP_SIZE :: u32 where "RT_MEMHEAP_SIZE = RT_ALIGN 24 RT_ALIGN_SIZE"

text \<open>The control block; \<open>free_header\<close> is the address of the member of that name.\<close>

record rt_memheap =
  start_addr :: u32
  pool_size :: u32
  available_size :: u32
  max_used_size :: u32
  mh_block_list :: u32
  free_list :: u32
  free_header :: u32

record mstore =
  magic :: "u32 \<Rightarrow> u32"
  pool_ptr :: "u32 \<Rightarrow> nat option"
  blk :: "u32 links"
  fre :: "u32 links"
  heaps :: "nat \<Rightarrow> rt_memheap"

definition MEMITEM_SIZE :: "mstore \<Rightarrow> u32 \<Rightarrow> u32" where
  "MEMITEM_SIZE st item = lnext (blk st) item - item - RT_MEMHEAP_SIZE"

definition RT_MEMHEAP_IS_USED :: "mstore \<Rightarrow> u32 \<Rightarrow> bool" where
  "RT_MEMHEAP_IS_USED st i \<longleftrightarrow> magic st i AND RT_MEMHEAP_USED \<noteq> 0"

section \<open>Stores\<close>

definition upd_heap :: "nat \<Rightarrow> (rt_memheap \<Rightarrow> rt_memheap) \<Rightarrow> mstore \<Rightarrow> mstore" where
  "upd_heap n f st = st\<lparr>heaps := (heaps st)(n := f (heaps st n))\<rparr>"

definition new_item :: "nat \<Rightarrow> u32 \<Rightarrow> mstore \<Rightarrow> mstore" where
  "new_item n p st = st\<lparr>magic := (magic st)(p := RT_MEMHEAP_MAGIC), pool_ptr := (pool_ptr st)(p := Some n)\<rparr>"

text \<open>Between its neighbours in the ring, \<open>p\<close> is left out.\<close>

definition take_off :: "u32 \<Rightarrow> u32 links \<Rightarrow> u32 links" where
  "take_off p h =
     (let h = set_prev (lnext h p) (lprev h p) h
      in set_next (lprev h p) (lnext h p) h)"

definition put_first :: "u32 \<Rightarrow> u32 \<Rightarrow> u32 links \<Rightarrow> u32 links" where
  "put_first l p h =
     (let h = set_next p (lnext h l) h;
          h = set_prev p l h;
          h = set_prev (lnext h l) p h
      in set_next l p h)"

definition link_behind :: "u32 \<Rightarrow> u32 \<Rightarrow> u32 links \<Rightarrow> u32 links" where
  "link_behind p new h =
     (let h = set_prev new p h;
          h = set_next new (lnext h p) h;
          h = set_prev (lnext h p) new h
      in set_next p new h)"

definition drop_links :: "u32 \<Rightarrow> u32 links \<Rightarrow> u32 links" where
  "drop_links p h = set_prev p 0 (set_next p 0 h)"

definition note_usage :: "nat \<Rightarrow> mstore \<Rightarrow> mstore" where
  "note_usage n st = upd_heap n (\<lambda>r.
     if max_used_size r < pool_size r - available_size r
     then r\<lparr>max_used_size := pool_size r - available_size r\<rparr> else r) st"

section \<open>The routines\<close>

definition rt_memheap_init :: "nat \<Rightarrow> u32 \<Rightarrow> u32 \<Rightarrow> mstore \<Rightarrow> mstore" where
  "rt_memheap_init n start sz st =
     (let st = upd_heap n (\<lambda>r. r\<lparr>start_addr := start, pool_size := RT_ALIGN_DOWN sz RT_ALIGN_SIZE\<rparr>) st;
          st = upd_heap n (\<lambda>r. r\<lparr>available_size := pool_size r - 2 * RT_MEMHEAP_SIZE\<rparr>) st;
          st = upd_heap n (\<lambda>r. r\<lparr>max_used_size := pool_size r - available_size r\<rparr>) st;
          item = free_header (heaps st n);
          st = new_item n item st;
          st = st\<lparr>blk := set_prev item 0 (set_next item 0 (blk st)),
                  fre := set_prev item item (set_next item item (fre st))\<rparr>;
          st = upd_heap n (\<lambda>r. r\<lparr>free_list := item\<rparr>) st;
          item = start;
          st = new_item n item st;
          st = st\<lparr>blk := set_prev item 0 (set_next item 0 (blk st)),
                  fre := set_prev item item (set_next item item (fre st))\<rparr>;
          st = st\<lparr>blk := set_next item (item + available_size (heaps st n) + RT_MEMHEAP_SIZE) (blk st)\<rparr>;
          st = st\<lparr>blk := set_prev item (lnext (blk st) item) (blk st)\<rparr>;
          st = upd_heap n (\<lambda>r. r\<lparr>mh_block_list := item\<rparr>) st;
          st = st\<lparr>fre := put_first (free_list (heaps st n)) item (fre st)\<rparr>;
          item = lnext (blk st) item;
          st = st\<lparr>magic := (magic st)(item := RT_MEMHEAP_MAGIC OR RT_MEMHEAP_USED),
                  pool_ptr := (pool_ptr st)(item := Some n)\<rparr>;
          st = st\<lparr>blk := set_prev item start (set_next item start (blk st))\<rparr>
      in st\<lparr>fre := drop_links item (fre st)\<rparr>)"

text \<open>The sizes that are served.\<close>

definition mh_request :: "u32 \<Rightarrow> u32" where
  "mh_request sz =
     (let sz = RT_ALIGN sz RT_ALIGN_SIZE
      in if sz < RT_MEMHEAP_MINIALLOC then RT_MEMHEAP_MINIALLOC else sz)"

text \<open>The search on the free list, from \<open>p\<close> on.\<close>

partial_function (option) mh_search :: "u32 \<Rightarrow> u32 \<Rightarrow> mstore \<Rightarrow> u32 \<Rightarrow> u32 \<Rightarrow> (u32 \<times> u32) option" where
  "mh_search l sz st p free_size =
     (if p \<noteq> l \<and> free_size < sz then
        let free_size = MEMITEM_SIZE st p
        in mh_search l sz st (if free_size < sz then lnext (fre st) p else p) free_size
      else Some (p, free_size))"

text \<open>What is done with the block that was found.\<close>

definition mh_take :: "nat \<Rightarrow> u32 \<Rightarrow> u32 \<Rightarrow> u32 \<Rightarrow> mstore \<Rightarrow> mstore" where
  "mh_take n sz p free_size st =
     (let st =
        (if sz + RT_MEMHEAP_SIZE + RT_MEMHEAP_MINIALLOC \<le> free_size then
           let new_ptr = p + sz + RT_MEMHEAP_SIZE;
               st = new_item n new_ptr st;
               st = st\<lparr>blk := link_behind p new_ptr (blk st)\<rparr>;
               st = st\<lparr>fre := drop_links p (take_off p (fre st))\<rparr>;
               st = st\<lparr>fre := put_first (free_list (heaps st n)) new_ptr (fre st)\<rparr>;
               st = upd_heap n (\<lambda>r. r\<lparr>available_size := available_size r - sz - RT_MEMHEAP_SIZE\<rparr>) st
           in note_usage n st
         else
           let st = upd_heap n (\<lambda>r. r\<lparr>available_size := available_size r - free_size\<rparr>) st;
               st = note_usage n st
           in st\<lparr>fre := drop_links p (take_off p (fre st))\<rparr>)
      in st\<lparr>magic := (magic st)(p := magic st p OR RT_MEMHEAP_USED)\<rparr>)"

definition mh_alloc :: "nat \<Rightarrow> u32 \<Rightarrow> mstore \<Rightarrow> (u32 option \<times> mstore) option" where
  "mh_alloc n sz st =
     (let sz = mh_request sz
      in if sz < available_size (heaps st n) then do {
           let l = free_list (heaps st n);
           (p, free_size) \<leftarrow> mh_search l sz st (lnext (fre st) l) 0;
           (if sz \<le> free_size then Some (Some (p + RT_MEMHEAP_SIZE), mh_take n sz p free_size st)
            else Some (None, st))
         }
         else Some (None, st))"

text \<open>Merging the free block \<open>p\<close> with the block in front of it, and behind it.  The results of the
  first are the merged block and whether it still has to go on the free list.\<close>

definition mh_merge_left :: "nat \<Rightarrow> u32 \<Rightarrow> mstore \<Rightarrow> u32 \<times> bool \<times> mstore" where
  "mh_merge_left n p st =
     (if \<not> RT_MEMHEAP_IS_USED st (lprev (blk st) p) then
        let st = upd_heap n (\<lambda>r. r\<lparr>available_size := available_size r + RT_MEMHEAP_SIZE\<rparr>) st;
            st = st\<lparr>blk := set_next (lprev (blk st) p) (lnext (blk st) p) (blk st)\<rparr>;
            st = st\<lparr>blk := set_prev (lnext (blk st) p) (lprev (blk st) p) (blk st)\<rparr>
        in (lprev (blk st) p, False, st)
      else (p, True, st))"

definition mh_merge_right :: "nat \<Rightarrow> u32 \<Rightarrow> mstore \<Rightarrow> mstore" where
  "mh_merge_right n p st =
     (if \<not> RT_MEMHEAP_IS_USED st (lnext (blk st) p) then
        let st = upd_heap n (\<lambda>r. r\<lparr>available_size := available_size r + RT_MEMHEAP_SIZE\<rparr>) st;
            new_ptr = lnext (blk st) p;
            st = st\<lparr>blk := set_prev (lnext (blk st) new_ptr) p (blk st)\<rparr>;
            st = st\<lparr>blk := set_next p (lnext (blk st) new_ptr) (blk st)\<rparr>
        in st\<lparr>fre := take_off new_ptr (fre st)\<rparr>
      else st)"

text \<open>Freeing the block \<open>p\<close>.\<close>

definition mh_release :: "nat \<Rightarrow> u32 \<Rightarrow> mstore \<Rightarrow> mstore" where
  "mh_release n p st =
     (let st = st\<lparr>magic := (magic st)(p := magic st p AND NOT RT_MEMHEAP_USED)\<rparr>;
          st = upd_heap n (\<lambda>r. r\<lparr>available_size := available_size r + MEMITEM_SIZE st p\<rparr>) st;
          (p, insert_header, st) = mh_merge_left n p st;
          st = mh_merge_right n p st
      in if insert_header then st\<lparr>fre := put_first (free_list (heaps st n)) p (fre st)\<rparr> else st)"

definition mh_free :: "u32 \<Rightarrow> mstore \<Rightarrow> mstore option" where
  "mh_free ptr st =
     (if ptr = 0 then Some st
      else do {
        let p = ptr - RT_MEMHEAP_SIZE;
        RT_ASSERT (magic st p AND RT_MEMHEAP_MASK = RT_MEMHEAP_MAGIC);
        RT_ASSERT (magic st p AND RT_MEMHEAP_USED \<noteq> 0);
        RT_ASSERT (magic st (lnext (blk st) p) AND RT_MEMHEAP_MASK = RT_MEMHEAP_MAGIC);
        n \<leftarrow> pool_ptr st p;
        Some (mh_release n p st)
      })"

text \<open>A block that grows into the free block behind it.\<close>

definition mh_grow :: "nat \<Rightarrow> u32 \<Rightarrow> u32 \<Rightarrow> u32 \<Rightarrow> mstore \<Rightarrow> mstore" where
  "mh_grow n ptr newsize oldsize st =
     (let p = ptr - RT_MEMHEAP_SIZE;
          next_ptr = lnext (blk st) p;
          st = upd_heap n (\<lambda>r. r\<lparr>available_size := available_size r - (newsize - oldsize)\<rparr>) st;
          st = note_usage n st;
          st = st\<lparr>fre := take_off next_ptr (fre st)\<rparr>;
          st = st\<lparr>blk := take_off next_ptr (blk st)\<rparr>;
          next_ptr = ptr + newsize;
          st = new_item n next_ptr st;
          st = st\<lparr>blk := link_behind p next_ptr (blk st)\<rparr>
      in st\<lparr>fre := put_first (free_list (heaps st n)) next_ptr (fre st)\<rparr>)"

text \<open>The end of a block that shrinks is split off, and merged with a free block behind it.\<close>

definition mh_shrink :: "nat \<Rightarrow> u32 \<Rightarrow> u32 \<Rightarrow> mstore \<Rightarrow> mstore" where
  "mh_shrink n ptr newsize st =
     (let p = ptr - RT_MEMHEAP_SIZE;
          new_ptr = p + newsize + RT_MEMHEAP_SIZE;
          st = new_item n new_ptr st;
          st = st\<lparr>blk := link_behind p new_ptr (blk st)\<rparr>;
          st =
            (if \<not> RT_MEMHEAP_IS_USED st (lnext (blk st) new_ptr) then
               let free_ptr = lnext (blk st) new_ptr;
                   st = upd_heap n (\<lambda>r. r\<lparr>available_size := available_size r - MEMITEM_SIZE st free_ptr\<rparr>) st;
                   st = st\<lparr>blk := set_prev (lnext (blk st) free_ptr) new_ptr (blk st)\<rparr>;
                   st = st\<lparr>blk := set_next new_ptr (lnext (blk st) free_ptr) (blk st)\<rparr>
               in st\<lparr>fre := take_off free_ptr (fre st)\<rparr>
             else st);
          st = st\<lparr>fre := put_first (free_list (heaps st n)) new_ptr (fre st)\<rparr>
      in upd_heap n (\<lambda>r. r\<lparr>available_size := available_size r + MEMITEM_SIZE st new_ptr\<rparr>) st)"

text \<open>The second result is the copy that is made: target, source and number of bytes.\<close>

definition mh_realloc ::
  "nat \<Rightarrow> u32 \<Rightarrow> u32 \<Rightarrow> mstore \<Rightarrow> (u32 option \<times> (u32 \<times> u32 \<times> u32) option \<times> mstore) option" where
  "mh_realloc n ptr newsize st =
     (if newsize = 0 then do { st \<leftarrow> mh_free ptr st; Some (None, None, st) }
      else
        let newsize = mh_request newsize
        in if ptr = 0 then do { (r, st) \<leftarrow> mh_alloc n newsize st; Some (r, None, st) }
           else do {
             let p = ptr - RT_MEMHEAP_SIZE;
             let oldsize = MEMITEM_SIZE st p;
             (if oldsize < newsize then do {
                let next_ptr = lnext (blk st) p;
                RT_ASSERT (p < next_ptr);
                (if \<not> RT_MEMHEAP_IS_USED st next_ptr \<and>
                    newsize + RT_MEMHEAP_MINIALLOC < MEMITEM_SIZE st next_ptr + oldsize
                 then Some (Some ptr, None, mh_grow n ptr newsize oldsize st)
                 else do {
                   (r, st) \<leftarrow> mh_alloc n newsize st;
                   (case r of
                      None \<Rightarrow> Some (None, None, st)
                    | Some q \<Rightarrow> do {
                        st \<leftarrow> mh_free ptr st;
                        Some (Some q, Some (q, ptr, if oldsize < newsize then oldsize else newsize), st)
                      })
                 })
              }
              else if oldsize \<le> newsize + RT_MEMHEAP_SIZE + RT_MEMHEAP_MINIALLOC
              then Some (Some ptr, None, st)
              else Some (Some ptr, None, mh_shrink n ptr newsize st))
           })"

section \<open>Rings\<close>

text \<open>A ring has no head: \<open>ring h bs\<close> says that the links lead through \<open>bs\<close> and back to its start.\<close>

definition ring :: "'a links \<Rightarrow> 'a list \<Rightarrow> bool" where
  "ring h bs \<longleftrightarrow> (case bs of [] \<Rightarrow> False | a # r \<Rightarrow> dll h a r)"

lemma ring_Cons [simp]: "ring h (a # r) = dll h a r"
  by (simp add: ring_def)

lemma ring_nodup: "ring h bs \<Longrightarrow> distinct bs"
  by (cases bs) (auto simp: ring_def dll_def)

lemma ring_rotate: "ring h (xs @ ys) \<Longrightarrow> ring h (ys @ xs)"
proof (cases xs; cases ys)
  fix x xs' y ys' assume r: "ring h (xs @ ys)" and e: "xs = x # xs'" "ys = y # ys'"
  have "chain h x xs' y \<and> chain h y ys' x" using r by (simp add: e dll_def)
  then show "ring h (ys @ xs)" using r by (auto simp: e dll_def)
qed simp_all

lemma ring_next: "ring h (xs @ p # q # ys) \<Longrightarrow> lnext h p = q \<and> lprev h q = p"
  using ring_rotate [of h xs "p # q # ys"] by (simp add: dll_def)

lemma ring_wrap: "ring h (a # xs @ [z]) \<Longrightarrow> lnext h z = a \<and> lprev h a = z"
  using ring_rotate [of h "a # xs" "[z]"] by (simp add: dll_def)

lemma ring_frame:
  "ring h bs \<Longrightarrow> (\<And>b. b \<in> set bs \<Longrightarrow> lnext h' b = lnext h b \<and> lprev h' b = lprev h b) \<Longrightarrow> ring h' bs"
  by (cases bs) (auto simp: ring_def intro: dll_frame)

lemma ring_behind:
  assumes r: "ring h (xs @ p # ys)" and n: "n \<notin> set (xs @ p # ys)"
  shows "ring (rt_list_insert_after p n h) (xs @ p # n # ys)"
proof -
  have "ring h (p # ys @ xs)" using ring_rotate [OF r] by simp
  then have "dll (rt_list_insert_after p n h) p (n # ys @ xs)"
    using n by (auto intro: dll_insert_after_head)
  then show ?thesis using ring_rotate [of _ "p # n # ys" xs] by simp
qed

lemma ring_drop:
  assumes r: "ring h (xs @ p # ys)" and ne: "xs @ ys \<noteq> []"
  shows "ring (rt_list_remove p h) (xs @ ys)"
proof -
  have "ring (rt_list_remove p h) (ys @ xs)"
  proof (cases "ys @ xs")
    case Nil
    then show ?thesis using ne by auto
  next
    case (Cons a zs)
    have "ring h ((ys @ xs) @ [p])" using ring_rotate [OF r] ring_rotate [of h "[p]" "ys @ xs"] by simp
    then have "dll h a (zs @ [p])" by (simp add: Cons)
    then show ?thesis using dll_remove(1) [of h a zs p "[]"] by (simp add: Cons)
  qed
  then show ?thesis by (rule ring_rotate)
qed

lemma links_eqI: "lnext g = lnext h \<Longrightarrow> lprev g = lprev h \<Longrightarrow> g = (h :: 'a links)"
  by simp

text \<open>The stores of the allocator are those of the list routines, except that a removed node keeps its
  links.\<close>

lemma put_first_eq: "lnext h l \<noteq> n \<Longrightarrow> l \<noteq> n \<Longrightarrow> put_first l n h = rt_list_insert_after l n h"
  by (rule links_eqI) (auto simp: put_first_def links_after Let_def fun_eq_iff)

lemma link_behind_eq: "lnext h p \<noteq> n \<Longrightarrow> p \<noteq> n \<Longrightarrow> link_behind p n h = rt_list_insert_after p n h"
  by (rule links_eqI) (auto simp: link_behind_def links_after Let_def fun_eq_iff)

lemma ring_member: "ring h bs \<Longrightarrow> b \<in> set bs \<Longrightarrow> lnext h b \<in> set bs \<and> lprev h b \<in> set bs"
proof -
  assume r: "ring h bs" and "b \<in> set bs"
  then obtain xs ys where "bs = xs @ b # ys" by (auto dest: split_list)
  then have c: "chain h b (ys @ xs) b" and s: "set bs = set ((ys @ xs) @ [b])" "set bs = set (b # ys @ xs)"
    using ring_rotate [of h xs "b # ys"] r by (auto simp: dll_def)
  have "lnext h b \<in> set bs" unfolding chain_first [OF c] s(1) by (rule hd_in_set) simp
  moreover have "lprev h b \<in> set bs" unfolding chain_last [OF c] s(2) by (rule last_in_set) simp
  ultimately show ?thesis ..
qed

lemma ring_put_first:
  assumes r: "ring h (l # fs)" and n: "n \<notin> set (l # fs)"
  shows "ring (put_first l n h) (l # n # fs)"
proof -
  have "lnext h l \<noteq> n" "l \<noteq> n" using ring_member [OF r, of l] n by auto
  then show ?thesis using ring_behind [of h "[]" l fs n] r n by (simp add: put_first_eq)
qed

lemma ring_link_behind:
  assumes r: "ring h (xs @ p # ys)" and n: "n \<notin> set (xs @ p # ys)"
  shows "ring (link_behind p n h) (xs @ p # n # ys)"
proof -
  have "lnext h p \<noteq> n" "p \<noteq> n" using ring_member [OF r, of p] n by auto
  then show ?thesis using ring_behind [OF assms] by (simp add: link_behind_eq)
qed

lemma ring_same:
  assumes r: "ring h (xs @ p # ys)" and ne: "xs @ ys \<noteq> []"
    and g: "lnext g = (lnext h)(lprev h p := lnext h p)" "lprev g = (lprev h)(lnext h p := lprev h p)"
  shows "ring g (xs @ ys)"
proof (rule ring_frame [OF ring_drop [OF r ne]])
  fix b assume "b \<in> set (xs @ ys)"
  moreover have "distinct (xs @ p # ys)" by (rule ring_nodup [OF r])
  ultimately have b: "b \<noteq> p" by auto
  have np: "lnext h p \<noteq> p"
  proof
    assume "lnext h p = p"
    moreover have "ring h (p # ys @ xs)" using ring_rotate [OF r] by simp
    ultimately show False using ne by (cases "ys @ xs") (auto simp: dll_def)
  qed
  show "lnext g b = lnext (rt_list_remove p h) b \<and> lprev g b = lprev (rt_list_remove p h) b"
    using b np by (simp add: g links_remove)
qed

lemma ring_prev_ne:
  assumes r: "ring h (xs @ p # ys)" and ne: "xs @ ys \<noteq> []"
  shows "lprev h p \<noteq> p" "lnext h p \<noteq> p"
proof -
  have d: "dll h p (ys @ xs)" using ring_rotate [OF r] by simp
  then have c: "chain h p (ys @ xs) p" "p \<notin> set (ys @ xs)" by (simp_all add: dll_def)
  show "lprev h p \<noteq> p" using chain_last [OF c(1)] c(2) ne by (metis last_ConsR last_in_set append_is_Nil_conv)
  show "lnext h p \<noteq> p" using chain_first [OF c(1)] c(2) ne by (cases "ys @ xs") auto
qed

lemma ring_take_off:
  assumes r: "ring h (xs @ p # ys)" and ne: "xs @ ys \<noteq> []"
  shows "ring (take_off p h) (xs @ ys)"
  by (rule ring_same [OF assms]) (use ring_prev_ne [OF assms] in \<open>auto simp: take_off_def Let_def\<close>)

lemma ring_drop_links: "ring h bs \<Longrightarrow> p \<notin> set bs \<Longrightarrow> ring (drop_links p h) bs"
  by (rule ring_frame) (auto simp: drop_links_def)

text \<open>The two orders in which the merging of neighbours writes the links.\<close>

lemma ring_merge_left:
  assumes r: "ring h (xs @ p # ys)" and ne: "xs @ ys \<noteq> []"
  shows "ring (let h = set_next (lprev h p) (lnext h p) h in set_prev (lnext h p) (lprev h p) h) (xs @ ys)"
  by (rule ring_same [OF assms]) (use ring_prev_ne [OF assms] in \<open>auto simp: Let_def\<close>)

lemma ring_merge_right:
  assumes r: "ring h (xs @ p # q # ys)"
  shows "ring (let h = set_prev (lnext h q) p h in set_next p (lnext h q) h) (xs @ p # ys)"
proof -
  have p: "lprev h q = p" using ring_next [OF r] by simp
  have r2: "ring h ((xs @ [p]) @ q # ys)" using r by simp
  have "ring (let h = set_prev (lnext h q) p h in set_next p (lnext h q) h) ((xs @ [p]) @ ys)"
    by (rule ring_same [OF r2]) (use p in \<open>auto simp: Let_def\<close>)
  then show ?thesis by simp
qed

section \<open>The invariant\<close>

abbreviation used :: "mstore \<Rightarrow> u32 \<Rightarrow> bool" where "used \<equiv> RT_MEMHEAP_IS_USED"

text \<open>Room in the free blocks of a list of adjacent blocks.\<close>

fun room :: "(u32 \<Rightarrow> bool) \<Rightarrow> u32 list \<Rightarrow> nat" where
  "room u (a # b # bs) = (if u a then 0 else unat b - unat a - 24) + room u (b # bs)"
| "room u bs = 0"

abbreviation spaced :: "u32 list \<Rightarrow> bool" where
  "spaced \<equiv> successively (\<lambda>a b. unat a + 24 \<le> unat b)"

text \<open>No two free blocks are neighbours.\<close>

abbreviation coalesced :: "(u32 \<Rightarrow> bool) \<Rightarrow> u32 list \<Rightarrow> bool" where
  "coalesced u \<equiv> successively (\<lambda>a b. u a \<or> u b)"

text \<open>\<open>D\<close> are free blocks that are not (yet) on the free list.\<close>

definition mh_pre :: "nat \<Rightarrow> u32 list \<Rightarrow> u32 list \<Rightarrow> u32 set \<Rightarrow> mstore \<Rightarrow> bool" where
  "mh_pre n bs fs D st \<longleftrightarrow>
     ring (blk st) bs \<and> ring (fre st) (free_list (heaps st n) # fs) \<and>
     (unat (free_list (heaps st n)) < unat (hd bs) \<or> unat (last bs) < unat (free_list (heaps st n))) \<and>
     2 \<le> length bs \<and> hd bs = start_addr (heaps st n) \<and> 0 < unat (hd bs) \<and>
     unat (last bs) + 24 = unat (hd bs) + unat (pool_size (heaps st n)) \<and> unat (last bs) + 24 < 2 ^ 32 \<and>
     spaced bs \<and> set fs \<union> D = {b \<in> set bs. \<not> used st b} \<and> set fs \<inter> D = {} \<and> used st (last bs) \<and>
     (\<forall>b \<in> set bs. magic st b AND RT_MEMHEAP_MASK = RT_MEMHEAP_MAGIC \<and> pool_ptr st b = Some n) \<and>
     unat (available_size (heaps st n)) = room (used st) bs"

definition mh_at :: "nat \<Rightarrow> u32 list \<Rightarrow> u32 list \<Rightarrow> mstore \<Rightarrow> bool" where
  "mh_at n bs fs st \<longleftrightarrow> mh_pre n bs fs {} st \<and> coalesced (used st) bs"

text \<open>The areas that are handed out, as pairs of the first address and the end.\<close>

definition mh_blocks :: "nat \<Rightarrow> mstore \<Rightarrow> u32 list" where
  "mh_blocks n st = (case rt_list_for_each (start_addr (heaps st n)) (blk st) of
     None \<Rightarrow> [] | Some bs \<Rightarrow> start_addr (heaps st n) # bs)"

fun hand :: "(u32 \<Rightarrow> bool) \<Rightarrow> u32 list \<Rightarrow> (u32 \<times> u32) set" where
  "hand u (a # b # bs) = (if u a then {(a + 24, b)} else {}) \<union> hand u (b # bs)"
| "hand u bs = {}"

definition mh_allocated :: "nat \<Rightarrow> mstore \<Rightarrow> (u32 \<times> u32) set" where
  "mh_allocated n st = hand (used st) (mh_blocks n st)"

definition mh_ok :: "nat \<Rightarrow> mstore \<Rightarrow> bool" where
  "mh_ok n st \<longleftrightarrow> (\<exists>fs. mh_at n (mh_blocks n st) fs st)"

lemma mh_blocks_eq: "mh_pre n bs fs D st \<Longrightarrow> mh_blocks n st = bs"
  unfolding mh_pre_def mh_blocks_def ring_def
  by (cases bs) (auto dest: rt_list_for_each_dll)

lemma mh_okI: "mh_at n bs fs st \<Longrightarrow> mh_ok n st \<and> mh_blocks n st = bs \<and> mh_allocated n st = hand (used st) bs"
  using mh_blocks_eq by (auto simp: mh_ok_def mh_at_def mh_allocated_def)

end
