(* ===== verification/Memheap_Ops.thy ===== *)
theory Memheap_Ops
  imports Memheap
begin

text \<open>
  What the routines of \<^verbatim>\<open>src/memheap.c\<close> do to the blocks: each keeps the invariant \<open>mh_at\<close> and
  changes the set of areas that are handed out.
\<close>

section \<open>Lists of adjacent blocks\<close>

lemma room_append: "room u (xs @ p # ys) = room u (xs @ [p]) + room u (p # ys)"
proof (induction xs)
  case (Cons a xs)
  then show ?case by (cases xs) simp_all
qed simp

lemma room_cong: "(\<And>b. b \<in> set (butlast bs) \<Longrightarrow> u b = v b) \<Longrightarrow> room u bs = room v bs"
  by (induction u bs rule: room.induct) auto

lemma hand_append: "hand u (xs @ p # ys) = hand u (xs @ [p]) \<union> hand u (p # ys)"
proof (induction xs)
  case (Cons a xs)
  then show ?case by (cases xs) auto
qed simp

lemma hand_cong: "(\<And>b. b \<in> set (butlast bs) \<Longrightarrow> u b = v b) \<Longrightarrow> hand u bs = hand v bs"
  by (induction u bs rule: hand.induct) auto

lemma room_prefix: "p \<notin> set xs \<Longrightarrow> room (u(p := c)) (xs @ [p]) = room u (xs @ [p])"
  by (rule room_cong) auto

lemma hand_prefix: "p \<notin> set xs \<Longrightarrow> hand (u(p := c)) (xs @ [p]) = hand u (xs @ [p])"
  by (rule hand_cong) auto

lemma room_other: "p \<notin> set bs \<Longrightarrow> room (u(p := c)) bs = room u bs"
  by (rule room_cong) (auto dest: in_set_butlastD)

lemma hand_other: "p \<notin> set bs \<Longrightarrow> hand (u(p := c)) bs = hand u bs"
  by (rule hand_cong) (auto dest: in_set_butlastD)

lemma coalesced_cong: "(\<And>b. b \<in> set bs \<Longrightarrow> u b = v b) \<Longrightarrow> coalesced u bs = coalesced v bs"
  by (intro successively_cong) auto

lemma coalesced_other: "p \<notin> set bs \<Longrightarrow> coalesced (u(p := c)) bs = coalesced u bs"
  by (rule coalesced_cong) auto

lemma spaced_first: "spaced (a # bs) \<Longrightarrow> b \<in> set bs \<Longrightarrow> unat a + 24 \<le> unat b"
proof (induction bs arbitrary: a)
  case (Cons c bs)
  then show ?case using Cons.IH [of c] by fastforce
qed simp

lemma spaced_append: "spaced (xs @ p # ys) \<longleftrightarrow> spaced (xs @ [p]) \<and> spaced (p # ys)"
  by (auto simp: successively_append_iff)

lemma coalesced_append: "coalesced u (xs @ p # ys) \<longleftrightarrow> coalesced u (xs @ [p]) \<and> coalesced u (p # ys)"
  by (auto simp: successively_append_iff)

lemma spaced_last: "spaced (xs @ [p]) \<Longrightarrow> b \<in> set xs \<Longrightarrow> unat b + 24 \<le> unat p"
  by (induction xs) (auto simp: successively_Cons intro: spaced_first)

lemma spaced_distinct: "spaced bs \<Longrightarrow> distinct bs"
  by (induction bs) (fastforce dest: spaced_first simp: successively_Cons)+

text \<open>Where an area that is handed out lies.\<close>

lemma hand_in: "spaced bs \<Longrightarrow> (q, e) \<in> hand u bs \<Longrightarrow>
    \<exists>b \<in> set (butlast bs). u b \<and> q = b + 24 \<and> e \<in> set (tl bs) \<and> unat b + 24 \<le> unat e"
  by (induction u bs rule: hand.induct) (auto split: if_splits)

lemma hand_mem: "(q, e) \<in> hand u bs \<Longrightarrow> \<exists>xs ys b. bs = xs @ b # e # ys \<and> u b \<and> q = b + 24"
proof (induction u bs rule: hand.induct)
  case (1 u a b bs)
  show ?case
  proof (cases "(q, e) \<in> hand u (b # bs)")
    case True
    then obtain xs ys c where "b # bs = xs @ c # e # ys" "u c" "q = c + 24" using 1 by blast
    then show ?thesis by (intro exI [of _ "a # xs"] exI [of _ ys] exI [of _ c]) simp
  next
    case False
    then have "u a" "q = a + 24" "e = b" using 1 by (auto split: if_splits)
    then show ?thesis by (intro exI [of _ "[]"] exI [of _ bs] exI [of _ a]) simp
  qed
qed simp_all

lemma hand_here: "u b \<Longrightarrow> (b + 24, e) \<in> hand u (xs @ b # e # ys)"
  by (subst hand_append) simp

section \<open>Headers\<close>

lemma memheap_sizes [simp]: "RT_MEMHEAP_SIZE = 24" "RT_MEMHEAP_MINIALLOC = 12"
  by (simp_all add: RT_MEMHEAP_SIZE_def RT_MEMHEAP_MINIALLOC_def RT_ALIGN_def RT_ALIGN_SIZE_def)

lemma magic_bits [simp]:
  "RT_MEMHEAP_MAGIC AND RT_MEMHEAP_MASK = RT_MEMHEAP_MAGIC" "RT_MEMHEAP_MAGIC AND RT_MEMHEAP_USED = 0"
  "(m OR RT_MEMHEAP_USED) AND RT_MEMHEAP_MASK = m AND RT_MEMHEAP_MASK"
  "(m OR RT_MEMHEAP_USED) AND RT_MEMHEAP_USED \<noteq> 0"
  "(m AND NOT RT_MEMHEAP_USED) AND RT_MEMHEAP_MASK = m AND RT_MEMHEAP_MASK"
  "(m AND NOT RT_MEMHEAP_USED) AND RT_MEMHEAP_USED = 0" "RT_MEMHEAP_USED \<noteq> 0"
proof -
  show "RT_MEMHEAP_MAGIC AND RT_MEMHEAP_MASK = RT_MEMHEAP_MAGIC" "RT_MEMHEAP_MAGIC AND RT_MEMHEAP_USED = 0"
    by (simp_all add: RT_MEMHEAP_MAGIC_def RT_MEMHEAP_MASK_def RT_MEMHEAP_USED_def)
  show "RT_MEMHEAP_USED \<noteq> 0" by (simp add: RT_MEMHEAP_USED_def)
  have 1: "RT_MEMHEAP_USED AND RT_MEMHEAP_MASK = 0" "RT_MEMHEAP_USED \<noteq> 0"
    "NOT RT_MEMHEAP_USED AND RT_MEMHEAP_MASK = RT_MEMHEAP_MASK"
    by (simp_all add: RT_MEMHEAP_MASK_def RT_MEMHEAP_USED_def)
  show "(m OR RT_MEMHEAP_USED) AND RT_MEMHEAP_MASK = m AND RT_MEMHEAP_MASK"
    by (simp add: bit.conj_disj_distrib2 1)
  have "(m OR RT_MEMHEAP_USED) AND RT_MEMHEAP_USED = RT_MEMHEAP_USED" by (rule bit_word_eqI) (auto simp: bit_simps)
  then show "(m OR RT_MEMHEAP_USED) AND RT_MEMHEAP_USED \<noteq> 0" using 1(2) by simp
  show "(m AND NOT RT_MEMHEAP_USED) AND RT_MEMHEAP_MASK = m AND RT_MEMHEAP_MASK"
    by (simp add: and.assoc 1(3))
  show "(m AND NOT RT_MEMHEAP_USED) AND RT_MEMHEAP_USED = 0"
    by (rule bit_word_eqI) (auto simp: bit_simps)
qed

lemma used_eq: "used st = (\<lambda>b. magic st b AND RT_MEMHEAP_USED \<noteq> 0)"
  by (simp add: RT_MEMHEAP_IS_USED_def fun_eq_iff)

lemma mstore_sel [simp]:
  "magic (upd_heap n f st) = magic st" "pool_ptr (upd_heap n f st) = pool_ptr st"
  "blk (upd_heap n f st) = blk st" "fre (upd_heap n f st) = fre st"
  "heaps (upd_heap n f st) = (heaps st)(n := f (heaps st n))"
  "magic (new_item n p st) = (magic st)(p := RT_MEMHEAP_MAGIC)"
  "pool_ptr (new_item n p st) = (pool_ptr st)(p := Some n)" "blk (new_item n p st) = blk st"
  "fre (new_item n p st) = fre st" "heaps (new_item n p st) = heaps st"
  "magic (note_usage n st) = magic st" "pool_ptr (note_usage n st) = pool_ptr st"
  "blk (note_usage n st) = blk st" "fre (note_usage n st) = fre st"
  "start_addr (heaps (note_usage n st) n) = start_addr (heaps st n)"
  "pool_size (heaps (note_usage n st) n) = pool_size (heaps st n)"
  "available_size (heaps (note_usage n st) n) = available_size (heaps st n)"
  "free_list (heaps (note_usage n st) n) = free_list (heaps st n)"
  by (simp_all add: upd_heap_def new_item_def note_usage_def)

lemma mh_preD:
  assumes "mh_pre n bs fs D st"
  shows "ring (blk st) bs" "ring (fre st) (free_list (heaps st n) # fs)"
    "unat (free_list (heaps st n)) < unat (hd bs) \<or> unat (last bs) < unat (free_list (heaps st n))"
    "2 \<le> length bs" "hd bs = start_addr (heaps st n)" "0 < unat (hd bs)"
    "unat (last bs) + 24 = unat (hd bs) + unat (pool_size (heaps st n))" "unat (last bs) + 24 < 2 ^ 32"
    "spaced bs" "set fs \<union> D = {b \<in> set bs. \<not> used st b}" "set fs \<inter> D = {}" "used st (last bs)"
    "\<And>b. b \<in> set bs \<Longrightarrow> magic st b AND RT_MEMHEAP_MASK = RT_MEMHEAP_MAGIC"
    "\<And>b. b \<in> set bs \<Longrightarrow> pool_ptr st b = Some n"
    "unat (available_size (heaps st n)) = room (used st) bs"
  using assms unfolding mh_pre_def by blast+

text \<open>Two neighbours.\<close>

lemma mh_pair:
  assumes i: "mh_pre n (xs @ p # q # ys) fs D st"
  shows "lnext (blk st) p = q" "lprev (blk st) q = p" "unat p + 24 \<le> unat q" "unat q + 24 < 2 ^ 32"
    "unat (MEMITEM_SIZE st p) = unat q - unat p - 24" "unat (p + 24) = unat p + 24"
proof -
  show l: "lnext (blk st) p = q" and "lprev (blk st) q = p" using ring_next [OF mh_preD(1) [OF i]] by simp_all
  have s: "spaced (xs @ p # q # ys)" by (rule mh_preD(9) [OF i])
  then show le: "unat p + 24 \<le> unat q" by (simp add: successively_append_iff)
  have "unat q \<le> unat (last (q # ys))"
    using s spaced_first [of q ys "last ys"] by (auto simp: successively_append_iff successively_Cons)
  then show q: "unat q + 24 < 2 ^ 32" using mh_preD(8) [OF i] by simp
  show p24: "unat (p + 24) = unat p + 24" using le q by (simp add: unat_word_ariths)
  have "unat (q - p) = unat q - unat p" using le by (intro unat_sub) (simp add: word_le_nat_alt)
  then show "unat (MEMITEM_SIZE st p) = unat q - unat p - 24"
    using le by (simp add: MEMITEM_SIZE_def l unat_sub word_le_nat_alt)
qed

text \<open>All blocks lie between the first and the last one; the header of the free list does not.\<close>

lemma mh_inner:
  assumes i: "mh_pre n bs fs D st" and b: "b \<in> set bs"
  shows "unat (hd bs) \<le> unat b" "unat b \<le> unat (last bs)" "free_list (heaps st n) \<notin> set bs"
proof -
  have in1: "unat (hd bs) \<le> unat c" "unat c \<le> unat (last bs)" if c: "c \<in> set bs" for c
  proof -
    obtain a r where ar: "bs = a # r" using c by (cases bs) auto
    show "unat (hd bs) \<le> unat c" using mh_preD(9) [OF i] spaced_first [of a r c] c by (auto simp: ar)
    obtain z zs where z: "bs = zs @ [z]" using c by (cases bs rule: rev_cases) auto
    show "unat c \<le> unat (last bs)" using mh_preD(9) [OF i] spaced_last [of zs z c] c by (auto simp: z)
  qed
  show "unat (hd bs) \<le> unat b" "unat b \<le> unat (last bs)" using in1 [OF b] by simp_all
  show "free_list (heaps st n) \<notin> set bs" using in1 mh_preD(3) [OF i] by fastforce
qed

section \<open>The search\<close>

lemma mh_search_chain:
  assumes "chain (fre st) a fs l" "l \<notin> set fs" "f < sz"
  shows "case find (\<lambda>b. sz \<le> MEMITEM_SIZE st b) fs of
      None \<Rightarrow> \<exists>g < sz. mh_search l sz st (lnext (fre st) a) f = Some (l, g)
    | Some b \<Rightarrow> mh_search l sz st (lnext (fre st) a) f = Some (b, MEMITEM_SIZE st b)"
  using assms
proof (induction fs arbitrary: a f)
  case Nil
  then show ?case by (auto simp: mh_search.simps)
next
  case (Cons b fs)
  have b: "lnext (fre st) a = b" "b \<noteq> l" using Cons.prems(1,2) by auto
  show ?case
  proof (cases "sz \<le> MEMITEM_SIZE st b")
    case True
    have "mh_search l sz st b (MEMITEM_SIZE st b) = Some (b, MEMITEM_SIZE st b)"
      using True by (subst mh_search.simps) (auto simp: not_le [symmetric])
    moreover have "mh_search l sz st b f = mh_search l sz st b (MEMITEM_SIZE st b)"
      using True b Cons.prems(3) by (subst mh_search.simps) (simp add: Let_def flip: not_le)
    ultimately show ?thesis using True b by simp
  next
    case False
    then have m: "MEMITEM_SIZE st b < sz" by simp
    have "mh_search l sz st (lnext (fre st) a) f = mh_search l sz st (lnext (fre st) b) (MEMITEM_SIZE st b)"
      using b Cons.prems(3) m by (subst mh_search.simps) (simp add: Let_def)
    moreover have "chain (fre st) b fs l" "l \<notin> set fs" using Cons.prems(1,2) by simp_all
    from Cons.IH [OF this m] have "case find (\<lambda>b. sz \<le> MEMITEM_SIZE st b) fs of
        None \<Rightarrow> \<exists>g < sz. mh_search l sz st (lnext (fre st) b) (MEMITEM_SIZE st b) = Some (l, g)
      | Some c \<Rightarrow> mh_search l sz st (lnext (fre st) b) (MEMITEM_SIZE st b) = Some (c, MEMITEM_SIZE st c)" .
    ultimately show ?thesis using False by (auto split: option.splits)
  qed
qed

section \<open>Allocating\<close>

text \<open>A free block is split: \<open>new\<close> is its end.\<close>

lemma split_pre:
  assumes i: "mh_at n (xs @ p # q # ys) (us @ p # vs) st"
    and sz: "unat sz + 24 + 12 \<le> unat q - unat p - 24"
  defines "new \<equiv> p + sz + 24"
  shows "unat new = unat p + unat sz + 24" "new \<notin> set (xs @ p # q # ys)"
    "mh_at n (xs @ p # new # q # ys) (new # us @ vs) (mh_take n sz p (MEMITEM_SIZE st p) st)"
    "hand (used (mh_take n sz p (MEMITEM_SIZE st p) st)) (xs @ p # new # q # ys) =
       insert (p + 24, new) (hand (used st) (xs @ p # q # ys))"
proof -
  have i': "mh_pre n (xs @ p # q # ys) (us @ p # vs) {} st" using i by (simp add: mh_at_def)
  note d = mh_preD [OF i'] and g = mh_pair [OF i']
  show nu: "unat new = unat p + unat sz + 24"
    unfolding new_def using sz g(3,4) by (simp add: unat_word_ariths)
  have nq: "unat new + 24 \<le> unat q" "unat p + 24 \<le> unat new" using nu sz g(3) by linarith+
  have s: "spaced (xs @ [p])" "spaced (q # ys)" using d(9) by (simp_all add: successively_append_iff)
  show nn: "new \<notin> set (xs @ p # q # ys)"
    using spaced_last [OF s(1), of new] spaced_first [OF s(2), of new] nq by (auto simp: successively_Cons)
  let ?l = "free_list (heaps st n)" and ?st = "mh_take n sz p (MEMITEM_SIZE st p) st"
  have c: "sz + 24 + 12 \<le> MEMITEM_SIZE st p"
    using sz g(5) by (simp add: word_le_nat_alt unat_word_ariths)
  have blk': "blk ?st = link_behind p new (blk st)"
    and fre': "fre ?st = put_first ?l new (drop_links p (take_off p (fre st)))"
    and magic': "magic ?st = (magic st)(new := RT_MEMHEAP_MAGIC, p := magic st p OR RT_MEMHEAP_USED)"
    and pool': "pool_ptr ?st = (pool_ptr st)(new := Some n)"
    and heap': "start_addr (heaps ?st n) = start_addr (heaps st n)" "pool_size (heaps ?st n) = pool_size (heaps st n)"
      "free_list (heaps ?st n) = ?l" "available_size (heaps ?st n) = available_size (heaps st n) - sz - 24"
    using c nn by (auto simp: mh_take_def Let_def new_def add.commute add.left_commute fun_eq_iff)
  have dist: "distinct (xs @ p # q # ys)" by (rule ring_nodup [OF d(1)])
  have pf: "p \<in> set (us @ p # vs)" by simp
  have fr: "\<not> used st p" "set (us @ p # vs) = {b \<in> set (xs @ p # q # ys). \<not> used st b}" using d(10) by auto
  have u': "used ?st = (used st)(new := False, p := True)" by (simp add: used_eq magic' fun_eq_iff)
  have uq: "used st q" using i fr(1) by (auto simp: mh_at_def successively_append_iff)
  have xn: "new \<notin> set xs" "p \<notin> set xs" "new \<noteq> p" "new \<notin> set (q # ys)" "p \<notin> set (q # ys)" using nn dist by auto
  have same: "used ?st b = used st b" if "b \<in> set xs \<or> b \<in> set (q # ys)" for b
    unfolding u' using that xn by (metis fun_upd_other)
  have pre: "room (used ?st) (xs @ [p]) = room (used st) (xs @ [p])"
      "hand (used ?st) (xs @ [p]) = hand (used st) (xs @ [p])"
    by (rule room_cong hand_cong, rule same, simp)+
  have suf: "room (used ?st) (q # ys) = room (used st) (q # ys)" "hand (used ?st) (q # ys) = hand (used st) (q # ys)"
    by (rule room_cong hand_cong, rule same, blast dest: in_set_butlastD)+
  show "hand (used ?st) (xs @ p # new # q # ys) = insert (p + 24, new) (hand (used st) (xs @ p # q # ys))"
    by (subst (1 2) hand_append) (use fr xn(3) in \<open>simp add: pre suf u'[symmetric], simp add: u'\<close>)
  have nl: "new \<noteq> ?l"
    using mh_inner [OF i', of p] mh_inner [OF i', of q] nq d(3) by auto
  show "mh_at n (xs @ p # new # q # ys) (new # us @ vs) ?st"
  proof -
    have r: "ring (blk ?st) (xs @ p # new # q # ys)"
      unfolding blk' by (rule ring_link_behind) (use d(1) nn in auto)
    have "ring (take_off p (fre st)) ((?l # us) @ vs)" by (rule ring_take_off) (use d(2) in auto)
    then have "ring (drop_links p (take_off p (fre st))) ((?l # us) @ vs)"
      by (rule ring_drop_links) (use ring_nodup [OF d(2)] in auto)
    moreover have "new \<notin> set (?l # us @ vs)" using nl nn fr(2) by auto
    ultimately have f: "ring (fre ?st) (?l # new # us @ vs)" unfolding fre' by (intro ring_put_first) simp_all
    have "room (used ?st) (xs @ p # new # q # ys) + unat sz + 24 = room (used st) (xs @ p # q # ys)"
      by (subst (1 2) room_append) (use fr nq nu g(3) xn(3) in \<open>simp add: pre suf u'[symmetric], simp add: u'\<close>)
    moreover have "unat (available_size (heaps st n) - sz - 24) = unat (available_size (heaps st n)) - unat sz - 24"
      if "unat sz + 24 \<le> unat (available_size (heaps st n))"
      using that by (simp add: unat_sub word_le_nat_alt)
    ultimately have a: "unat (available_size (heaps ?st n)) = room (used ?st) (xs @ p # new # q # ys)"
      using d(15) by (simp add: heap')
    have sp: "spaced (xs @ p # new # q # ys)" using d(9) nq by (auto simp: successively_append_iff)
    have "set (new # us @ vs) = {b \<in> set (xs @ p # new # q # ys). \<not> used ?st b}"
      using fr(2) ring_nodup [OF d(2)] xn nn by (auto simp: u')
    moreover have "coalesced (used ?st) (xs @ p # new # q # ys)"
    proof -
      have "coalesced (used st) (xs @ [p])" "coalesced (used st) (q # ys)"
        using i by (simp_all add: mh_at_def successively_append_iff)
      then have "coalesced (used ?st) xs" "coalesced (used ?st) (q # ys)"
        using coalesced_cong [of xs "used ?st" "used st"] coalesced_cong [of "q # ys" "used ?st" "used st"] same
        by (simp_all add: successively_append_iff)
      then show ?thesis using uq xn by (auto simp: successively_append_iff u')
    qed
    moreover have "used ?st (last (xs @ p # new # q # ys))" using d(12) xn by (auto simp: u' last_append)
    moreover have "hd (xs @ p # new # q # ys) = hd (xs @ p # q # ys)" "last (xs @ p # new # q # ys) = last (xs @ p # q # ys)"
      by (cases xs) simp_all
    ultimately show ?thesis
      using r f sp a d(3-8,13,14) nl unfolding mh_at_def mh_pre_def heap' by (auto simp: magic' pool')
  qed
qed

text \<open>A free block that is not much larger is handed out as a whole.\<close>

lemma whole_pre:
  assumes i: "mh_at n (xs @ p # q # ys) (us @ p # vs) st"
    and sz: "unat q - unat p - 24 < unat sz + 24 + 12" "unat sz \<le> unat q - unat p - 24"
  shows "mh_at n (xs @ p # q # ys) (us @ vs) (mh_take n sz p (MEMITEM_SIZE st p) st)"
    "hand (used (mh_take n sz p (MEMITEM_SIZE st p) st)) (xs @ p # q # ys) =
       insert (p + 24, q) (hand (used st) (xs @ p # q # ys))"
proof -
  have i': "mh_pre n (xs @ p # q # ys) (us @ p # vs) {} st" using i by (simp add: mh_at_def)
  note d = mh_preD [OF i'] and g = mh_pair [OF i']
  let ?l = "free_list (heaps st n)" and ?st = "mh_take n sz p (MEMITEM_SIZE st p) st"
  let ?bs = "xs @ p # q # ys"
  have "0 < unat p" using mh_inner(1) [OF i', of p] d(6) by simp
  then have "unat sz + 36 < 2 ^ 32" using sz(2) g(3,4) by linarith
  then have "unat (sz + 24 + 12) = unat sz + 36" by (simp add: unat_word_ariths)
  then have c: "\<not> sz + 24 + 12 \<le> MEMITEM_SIZE st p"
    using sz(1) g(5) by (simp only: word_le_nat_alt)
  have sel: "blk ?st = blk st" "fre ?st = drop_links p (take_off p (fre st))"
      "magic ?st = (magic st)(p := magic st p OR RT_MEMHEAP_USED)" "pool_ptr ?st = pool_ptr st"
      "start_addr (heaps ?st n) = start_addr (heaps st n)" "pool_size (heaps ?st n) = pool_size (heaps st n)"
      "free_list (heaps ?st n) = ?l"
      "available_size (heaps ?st n) = available_size (heaps st n) - MEMITEM_SIZE st p"
    using c by (simp_all add: mh_take_def Let_def)
  have dist: "distinct ?bs" by (rule ring_nodup [OF d(1)])
  have fr: "\<not> used st p" "set (us @ p # vs) = {b \<in> set ?bs. \<not> used st b}" using d(10) by auto
  have u': "used ?st = (used st)(p := True)" by (simp add: used_eq sel fun_eq_iff)
  have uq: "used st q" using i fr(1) by (auto simp: mh_at_def successively_append_iff)
  have xn: "p \<notin> set xs" "p \<notin> set (q # ys)" using dist by auto
  note pre = room_prefix [OF xn(1), of "used st" True] hand_prefix [OF xn(1), of "used st" True]
    and suf = room_other [OF xn(2), of "used st" True] hand_other [OF xn(2), of "used st" True]
  show "hand (used ?st) ?bs = insert (p + 24, q) (hand (used st) ?bs)"
    by (subst (1 2) hand_append) (use fr in \<open>simp add: pre suf u'\<close>)
  have "ring (take_off p (fre st)) ((?l # us) @ vs)" by (rule ring_take_off) (use d(2) in auto)
  then have f: "ring (fre ?st) (?l # us @ vs)"
    unfolding sel by (intro ring_drop_links) (use ring_nodup [OF d(2)] in auto)
  have "room (used ?st) ?bs + (unat q - unat p - 24) = room (used st) ?bs"
    by (subst (1 2) room_append) (use fr in \<open>simp add: pre suf u'\<close>)
  then have a: "unat (available_size (heaps ?st n)) = room (used ?st) ?bs"
    using d(15) g(5) by (simp add: sel unat_sub word_le_nat_alt)
  have fs: "set (us @ vs) = {b \<in> set ?bs. \<not> used ?st b}"
    using fr(2) ring_nodup [OF d(2)] by (auto simp: u')
  have m: "coalesced (used ?st) ?bs"
    using i successively_mono [of "\<lambda>a b. used st a \<or> used st b" ?bs "\<lambda>a b. used ?st a \<or> used ?st b"]
    by (auto simp: mh_at_def u')
  have "used ?st (last ?bs)" using d(12) by (simp add: u')
  then show "mh_at n ?bs (us @ vs) ?st"
    using f fs m a d(1,3-9,13,14) unfolding mh_at_def mh_pre_def sel(1,4-7) by (auto simp: sel(3))
qed

section \<open>The size that is served\<close>

lemma mh_request_size:
  assumes "unat sz + 3 < 2 ^ 32"
  shows "unat (mh_request sz) = Orderings.max 12 ((unat sz + 3) div 4 * 4)" "unat sz \<le> unat (mh_request sz)"
    "12 \<le> unat (mh_request sz)"
proof -
  show r: "unat (mh_request sz) = Orderings.max 12 ((unat sz + 3) div 4 * 4)"
    using unat_align [OF assms] by (auto simp: mh_request_def Let_def word_less_nat_alt)
  have "unat sz < (unat sz + 3) div 4 * 4 + 1" using dividend_less_div_times [of 4 "unat sz + 3"] by simp
  then show "unat sz \<le> unat (mh_request sz)" unfolding r by simp
  show "12 \<le> unat (mh_request sz)" unfolding r by simp
qed

text \<open>What an allocation returns.  \<open>b\<close> and \<open>e\<close> delimit the area; nothing changes if there is none.\<close>

lemma mh_alloc_at:
  assumes i: "mh_at n bs fs st" and sz: "unat sz + 3 < 2 ^ 32"
  shows "(\<exists>b e bs' fs' st'. mh_alloc n sz st = Some (Some b, st') \<and> mh_at n bs' fs' st' \<and>
      hand (used st') bs' = insert (b, e) (hand (used st) bs) \<and> unat b + unat (mh_request sz) \<le> unat e \<and>
      (\<exists>p. b = p + 24 \<and> p \<in> set bs \<and> \<not> used st p \<and> unat b = unat p + 24)) \<or>
    mh_alloc n sz st = Some (None, st) \<and> (available_size (heaps st n) \<le> mh_request sz \<or>
      (\<forall>p \<in> set fs. MEMITEM_SIZE st p < mh_request sz))"
proof (cases "mh_request sz < available_size (heaps st n)")
  case False
  then have "mh_alloc n sz st = Some (None, st)" by (simp add: mh_alloc_def Let_def)
  with False show ?thesis by (simp add: not_less)
next
  case True
  let ?r = "mh_request sz" and ?l = "free_list (heaps st n)"
  have i': "mh_pre n bs fs {} st" using i by (simp add: mh_at_def)
  note d = mh_preD [OF i']
  have c: "chain (fre st) ?l fs ?l" "?l \<notin> set fs" using d(2) by (simp_all add: dll_def)
  have pos: "0 < ?r" using mh_request_size(3) [OF sz] by (simp add: word_gt_0 flip: unat_0_iff)
  note f = mh_search_chain [OF c pos]
  show ?thesis
  proof (cases "find (\<lambda>b. ?r \<le> MEMITEM_SIZE st b) fs")
    case None
    then obtain g where "g < ?r" "mh_search ?l ?r st (lnext (fre st) ?l) 0 = Some (?l, g)" using f by auto
    then have "mh_alloc n sz st = Some (None, st)" using True by (simp add: mh_alloc_def Let_def)
    then show ?thesis using None by (auto simp: find_None_iff not_le)
  next
    case (Some p)
    then have p: "p \<in> set fs" "?r \<le> MEMITEM_SIZE st p" by (auto simp: find_Some_iff)
    have run: "mh_alloc n sz st = Some (Some (p + 24), mh_take n ?r p (MEMITEM_SIZE st p) st)"
      using f Some True p(2) by (simp add: mh_alloc_def Let_def)
    have pb: "p \<in> set bs" "\<not> used st p" using d(10) p(1) by auto
    then obtain xs zs where "bs = xs @ p # zs" by (auto dest: split_list)
    moreover have "zs \<noteq> []" using pb(2) d(12) calculation by auto
    ultimately obtain q ys where bs: "bs = xs @ p # q # ys" by (cases zs) auto
    obtain us vs where fs: "fs = us @ p # vs" using p(1) by (auto dest: split_list)
    note g = mh_pair [OF i' [unfolded bs]]
    have rs: "unat ?r \<le> unat q - unat p - 24" using p(2) g(5) by (simp add: word_le_nat_alt)
    show ?thesis
    proof (cases "unat ?r + 24 + 12 \<le> unat q - unat p - 24")
      case True
      note s = split_pre [OF i [unfolded bs fs] True]
      have "unat (p + 24) + unat ?r \<le> unat (p + ?r + 24)" using s(1) g(6) by simp
      then show ?thesis using run s(3,4) pb g(6) unfolding bs by blast
    next
      case False
      then have "unat q - unat p - 24 < unat ?r + 24 + 12" by simp
      note s = whole_pre [OF i [unfolded bs fs] this rs]
      have "unat (p + 24) + unat ?r \<le> unat q" using rs g(3,6) p(2) mh_request_size(3) [OF sz] by linarith
      then show ?thesis using run s pb g(6) unfolding bs by blast
    qed
  qed
qed

section \<open>Freeing\<close>

lemma room_le: "bs \<noteq> [] \<Longrightarrow> spaced bs \<Longrightarrow> unat (hd bs) + room u bs \<le> unat (last bs)"
  by (induction u bs rule: room.induct) auto

lemma unat_sum: "unat a + unat m = r \<Longrightarrow> r < 2 ^ 32 \<Longrightarrow> unat (a + m) = r" for a m :: u32
  by (simp add: unat_word_ariths)

lemma room_bound: "mh_pre n bs fs D st \<Longrightarrow> room u bs < 2 ^ 32"
  using room_le [of bs u] mh_preD(4,8,9) [of n bs fs D st] by fastforce

lemma hand_remove:
  assumes "distinct (xs @ p # q # ys)" "u p"
  shows "hand (u(p := False)) (xs @ p # q # ys) = hand u (xs @ p # q # ys) - {(p + 24, q)}"
proof -
  have n: "p \<notin> set xs" "p \<notin> set (q # ys)" using assms(1) by auto
  have "(p + 24, q) \<notin> hand u (xs @ [p])" "(p + 24, q) \<notin> hand u (q # ys)"
  proof -
    have False if h: "(p + 24, q) \<in> hand u (xs @ [p])"
    proof -
      obtain vs ws b where "xs @ [p] = vs @ b # q # ws" using hand_mem [OF h] by blast
      then have "q \<in> set (xs @ [p])" by simp
      then show False using assms(1) by auto
    qed
    then show "(p + 24, q) \<notin> hand u (xs @ [p])" by blast
    have False if h: "(p + 24, q) \<in> hand u (q # ys)"
    proof -
      obtain vs ws b where "q # ys = vs @ b # q # ws" "p + 24 = b + 24" using hand_mem [OF h] by blast
      then have "p \<in> set (q # ys)" by simp
      then show False using n(2) by blast
    qed
    then show "(p + 24, q) \<notin> hand u (q # ys)" by blast
  qed
  then show ?thesis
    by (subst (1 2) hand_append) (use n assms(2) in \<open>auto simp: hand_prefix hand_other [OF n(2)]\<close>)
qed

text \<open>The block is marked free but is not yet on the free list.\<close>

lemma mark_pre:
  assumes i: "mh_pre n (xs @ p # q # ys) fs {} st" and u: "used st p"
  defines "st1 \<equiv> upd_heap n (\<lambda>r. r\<lparr>available_size := available_size r + MEMITEM_SIZE st p\<rparr>)
      (st\<lparr>magic := (magic st)(p := magic st p AND NOT RT_MEMHEAP_USED)\<rparr>)"
  shows "mh_pre n (xs @ p # q # ys) fs {p} st1" "used st1 = (used st)(p := False)"
proof -
  note d = mh_preD [OF i] and g = mh_pair [OF i]
  let ?bs = "xs @ p # q # ys"
  have dist: "distinct ?bs" by (rule ring_nodup [OF d(1)])
  then have xn: "p \<notin> set xs" "p \<notin> set (q # ys)" by auto
  show u': "used st1 = (used st)(p := False)" by (simp add: st1_def used_eq fun_eq_iff)
  have "room (used st1) ?bs = room (used st) ?bs + (unat q - unat p - 24)"
    by (subst (1 2) room_append) (use u xn in \<open>simp add: u' room_prefix room_other [OF xn(2)]\<close>)
  then have "unat (available_size (heaps st n)) + unat (MEMITEM_SIZE st p) = room (used st1) ?bs"
    using d(15) g(5) by simp
  then have a: "unat (available_size (heaps st1 n)) = room (used st1) ?bs"
    using room_bound [OF i] by (simp add: st1_def unat_sum)
  have "last ?bs \<noteq> p" using xn(2) by (simp add: last_append) (metis last_in_set list.distinct(1) list.set_intros)
  then have "used st1 (last ?bs)" using d(12) by (simp add: u')
  moreover have "set fs \<union> {p} = {b \<in> set ?bs. \<not> used st1 b}" "set fs \<inter> {p} = {}" using d(10) u by (auto simp: u')
  ultimately show "mh_pre n ?bs fs {p} st1"
    using a d(1-9,13,14) unfolding mh_pre_def by (auto simp: st1_def)
qed

lemma room_merge:
  assumes "\<not> u a" "\<not> u b" "unat a + 24 \<le> unat b" "unat b + 24 \<le> unat c"
  shows "room u (xs @ a # c # zs) = room u (xs @ a # b # c # zs) + 24"
  by (subst (1 2) room_append) (use assms in simp)

lemma hand_merge: "\<not> u a \<Longrightarrow> \<not> u b \<Longrightarrow> hand u (xs @ a # c # zs) = hand u (xs @ a # b # c # zs)"
  by (subst (1 2) hand_append) simp

text \<open>Two free neighbours \<open>a\<close> and \<open>b\<close> become one.\<close>

lemma merge_pre:
  assumes i: "mh_pre n (xs @ a # b # c # zs) fs D st" and u: "\<not> used st a" "\<not> used st b"
    and r: "ring (blk st') (xs @ a # c # zs)" "ring (fre st') (free_list (heaps st n) # fs')"
    and f: "set fs' \<union> D' = set fs \<union> D - {b}" "set fs' \<inter> D' = {}"
    and s: "magic st' = magic st" "pool_ptr st' = pool_ptr st"
      "heaps st' n = (heaps st n)\<lparr>available_size := available_size (heaps st n) + 24\<rparr>"
  shows "mh_pre n (xs @ a # c # zs) fs' D' st'"
proof -
  note d = mh_preD [OF i]
  have g: "unat a + 24 \<le> unat b" "unat b + 24 \<le> unat c" using d(9) by (simp_all add: successively_append_iff)
  have u': "used st' = used st" by (simp add: used_eq s)
  have dist: "distinct (xs @ a # b # c # zs)" by (rule ring_nodup [OF d(1)])
  note rm = room_merge [OF u g, of xs zs]
  have sp: "spaced (xs @ a # c # zs)" using d(9) by (auto simp: successively_append_iff)
  have ends: "hd (xs @ a # c # zs) = hd (xs @ a # b # c # zs)" "last (xs @ a # c # zs) = last (xs @ a # b # c # zs)"
    by (cases xs) simp_all
  have "room (used st) (xs @ a # c # zs) < 2 ^ 32"
    using room_le [OF _ sp, of "used st"] d(8) ends by simp
  then have "unat (available_size (heaps st n) + 24) = room (used st) (xs @ a # c # zs)"
    using rm d(15) by (intro unat_sum) simp_all
  moreover have "set fs' \<union> D' = {x \<in> set (xs @ a # c # zs). \<not> used st x}"
    unfolding f(1) d(10) using dist u by auto
  ultimately show ?thesis
    using r f(2) sp d(3-8,12,13,14) unfolding mh_pre_def ends by (auto simp: s u')
qed

lemma insert_pre:
  assumes i: "mh_pre n bs fs {p} st"
  shows "mh_pre n bs (p # fs) {} (st\<lparr>fre := put_first (free_list (heaps st n)) p (fre st)\<rparr>)"
proof -
  note d = mh_preD [OF i]
  have p: "p \<in> set bs" "p \<notin> set fs" using d(10,11) by auto
  have "ring (put_first (free_list (heaps st n)) p (fre st)) (free_list (heaps st n) # p # fs)"
    by (rule ring_put_first [OF d(2)]) (use p mh_inner(3) [OF i p(1)] in auto)
  then show ?thesis using i d(10) unfolding mh_pre_def by (auto simp: used_eq)
qed

lemma merge_left_step:
  assumes i: "mh_pre n (xs @ p # q # ys) fs {p} st" and m: "coalesced (used st) xs"
  shows "\<exists>h ins st2 zs. mh_merge_left n p st = (h, ins, st2) \<and>
    mh_pre n (zs @ h # q # ys) fs (if ins then {h} else {}) st2 \<and> used st2 = used st \<and> \<not> used st h \<and>
    (zs \<noteq> [] \<longrightarrow> used st (last zs)) \<and> coalesced (used st) zs \<and>
    hand (used st) (zs @ h # q # ys) = hand (used st) (xs @ p # q # ys)"
proof (cases xs rule: rev_cases)
  case Nil
  note d = mh_preD [OF i]
  obtain ws z where z: "q # ys = ws @ [z]" by (cases "q # ys" rule: rev_cases) auto
  have "ring (blk st) (p # ws @ [z])" using d(1) z by (simp add: Nil)
  then have "lprev (blk st) p = last (xs @ p # q # ys)" using ring_wrap z by (fastforce simp: Nil)
  then have "mh_merge_left n p st = (p, True, st)" using d(12) by (simp add: mh_merge_left_def)
  moreover have "\<not> used st p" using d(10) by auto
  ultimately show ?thesis using i m by (intro exI [of _ p] exI [of _ True] exI [of _ st] exI [of _ xs]) (simp add: Nil)
next
  case (snoc ws a)
  note d = mh_preD [OF i]
  have up: "\<not> used st p" using d(10) by auto
  have i2: "mh_pre n (ws @ a # p # q # ys) fs {p} st" using i by (simp add: snoc)
  have l: "lprev (blk st) p = a" and nx: "lnext (blk st) p = q"
    using mh_pair(2) [OF i2] mh_pair(1) [OF i] by simp_all
  show ?thesis
  proof (cases "used st a")
    case True
    then have "mh_merge_left n p st = (p, True, st)" by (simp add: mh_merge_left_def l)
    then show ?thesis using i m up True
      by (intro exI [of _ p] exI [of _ True] exI [of _ st] exI [of _ xs]) (simp add: snoc)
  next
    case False
    define st2 where "st2 = snd (snd (mh_merge_left n p st))"
    have ap: "a \<noteq> p" using ring_nodup [OF mh_preD(1) [OF i2]] by auto
    have pq: "p \<noteq> q" using ring_nodup [OF mh_preD(1) [OF i2]] by auto
    have st2: "blk st2 = (let h = set_next (lprev (blk st) p) (lnext (blk st) p) (blk st) in set_prev (lnext h p) (lprev h p) h)"
        "fre st2 = fre st" "magic st2 = magic st" "pool_ptr st2 = pool_ptr st"
        "heaps st2 n = (heaps st n)\<lparr>available_size := available_size (heaps st n) + 24\<rparr>"
      and eq: "mh_merge_left n p st = (a, False, st2)"
      using False ap pq by (simp_all add: mh_merge_left_def l nx Let_def st2_def)
    have r: "ring (blk st2) (ws @ a # q # ys)"
      using ring_merge_left [of "blk st" "ws @ [a]" p "q # ys"] mh_preD(1) [OF i2] unfolding st2(1) by simp
    have "mh_pre n (ws @ a # q # ys) fs {} st2"
      by (rule merge_pre [OF i2 False up r _ _ _ st2(3-5)])
        (use mh_preD(2,11) [OF i] in \<open>auto simp: st2\<close>)
    moreover have "used st2 = used st" by (simp add: used_eq st2)
    moreover have "ws \<noteq> [] \<longrightarrow> used st (last ws)" "coalesced (used st) ws"
      using m False by (auto simp: snoc successively_append_iff)
    moreover have "hand (used st) (ws @ a # q # ys) = hand (used st) (xs @ p # q # ys)"
      using hand_merge [of "used st" a p ws q ys] False up by (simp add: snoc)
    ultimately show ?thesis using eq False
      by (intro exI [of _ a] exI [of _ False] exI [of _ st2] exI [of _ ws]) simp
  qed
qed

lemma merge_right_step:
  assumes i: "mh_pre n (zs @ h # q # ys) fs D st" and h: "\<not> used st h" and D: "D \<subseteq> {h}"
    and z: "zs \<noteq> [] \<longrightarrow> used st (last zs)" "coalesced (used st) zs" and m: "coalesced (used st) (q # ys)"
  shows "\<exists>fs' ys'. mh_pre n (zs @ h # ys') fs' D (mh_merge_right n h st) \<and>
    used (mh_merge_right n h st) = used st \<and> coalesced (used st) (zs @ h # ys') \<and>
    hand (used st) (zs @ h # ys') = hand (used st) (zs @ h # q # ys)"
proof (cases "used st q")
  case True
  have "mh_merge_right n h st = st" using True by (simp add: mh_merge_right_def mh_pair(1) [OF i])
  moreover have "coalesced (used st) (zs @ h # q # ys)" using z m True by (auto simp: successively_append_iff)
  ultimately show ?thesis using i by (intro exI [of _ fs] exI [of _ "q # ys"]) simp
next
  case False
  note d = mh_preD [OF i]
  have dist: "distinct (zs @ h # q # ys)" by (rule ring_nodup [OF d(1)])
  have "ys \<noteq> []" using d(12) False by auto
  then obtain c ys' where ys: "ys = c # ys'" by (cases ys) auto
  have uc: "used st c" using m False by (simp add: ys)
  have qf: "q \<in> set fs" "q \<notin> D" using d(10) D False dist by auto
  then obtain us vs where fs: "fs = us @ q # vs" by (auto dest: split_list)
  let ?st = "mh_merge_right n h st"
  have nx: "lnext (blk st) h = q" by (rule mh_pair(1) [OF i])
  have hq: "h \<noteq> q" using dist by auto
  have st: "blk ?st = (let g = set_prev (lnext (blk st) q) h (blk st) in set_next h (lnext g q) g)"
      "fre ?st = take_off q (fre st)" "magic ?st = magic st" "pool_ptr ?st = pool_ptr st"
      "heaps ?st n = (heaps st n)\<lparr>available_size := available_size (heaps st n) + 24\<rparr>"
    using False hq by (simp_all add: mh_merge_right_def nx Let_def)
  have r: "ring (blk ?st) (zs @ h # c # ys')"
    using ring_merge_right [of "blk st" zs h q "c # ys'"] d(1) unfolding st(1) ys by simp
  have "ring (take_off q (fre st)) ((free_list (heaps st n) # us) @ vs)"
    by (rule ring_take_off) (use d(2) in \<open>auto simp: fs\<close>)
  then have f: "ring (fre ?st) (free_list (heaps st n) # us @ vs)" by (simp add: st)
  have "distinct fs" using ring_nodup [OF d(2)] by simp
  then have "mh_pre n (zs @ h # c # ys') (us @ vs) D ?st"
    using d(11) qf by (intro merge_pre [OF i [unfolded ys] h False r f _ _ st(3-5)]) (auto simp: fs)
  moreover have "used ?st = used st" by (simp add: used_eq st)
  moreover have "coalesced (used st) (zs @ h # c # ys')"
    using z m uc by (auto simp: ys successively_append_iff)
  ultimately show ?thesis using hand_merge [of "used st" h q zs c ys'] h False
    by (intro exI [of _ "us @ vs"] exI [of _ "c # ys'"]) (simp add: ys)
qed

lemma mh_release_at:
  assumes i: "mh_at n (xs @ p # q # ys) fs st" and u: "used st p"
  shows "\<exists>bs' fs'. mh_at n bs' fs' (mh_release n p st) \<and>
    hand (used (mh_release n p st)) bs' = hand (used st) (xs @ p # q # ys) - {(p + 24, q)} \<and>
    \<not> used (mh_release n p st) p"
proof -
  have i': "mh_pre n (xs @ p # q # ys) fs {} st" and m: "coalesced (used st) (xs @ p # q # ys)"
    using i by (simp_all add: mh_at_def)
  have dist: "distinct (xs @ p # q # ys)" by (rule ring_nodup [OF mh_preD(1) [OF i']])
  define st1 where "st1 = upd_heap n (\<lambda>r. r\<lparr>available_size := available_size r + MEMITEM_SIZE st p\<rparr>)
      (st\<lparr>magic := (magic st)(p := magic st p AND NOT RT_MEMHEAP_USED)\<rparr>)"
  note s1 = mark_pre [OF i' u, folded st1_def]
  have ms: "coalesced (used st1) xs" "coalesced (used st1) (q # ys)"
  proof -
    have "coalesced (used st) xs" "coalesced (used st) (q # ys)" using m by (auto simp: successively_append_iff)
    moreover have "p \<notin> set xs" "p \<notin> set (q # ys)" using dist by auto
    ultimately show "coalesced (used st1) xs" "coalesced (used st1) (q # ys)"
      unfolding s1(2) using coalesced_other by blast+
  qed
  obtain h ins st2 zs where s2: "mh_merge_left n p st1 = (h, ins, st2)"
      "mh_pre n (zs @ h # q # ys) fs (if ins then {h} else {}) st2" "used st2 = used st1" "\<not> used st1 h"
      "zs \<noteq> [] \<longrightarrow> used st1 (last zs)" "coalesced (used st1) zs"
      "hand (used st1) (zs @ h # q # ys) = hand (used st1) (xs @ p # q # ys)"
    using merge_left_step [OF s1(1) ms(1)] by blast
  let ?st3 = "mh_merge_right n h st2"
  obtain fs' ys' where s3: "mh_pre n (zs @ h # ys') fs' (if ins then {h} else {}) ?st3" "used ?st3 = used st2"
      "coalesced (used st2) (zs @ h # ys')" "hand (used st2) (zs @ h # ys') = hand (used st2) (zs @ h # q # ys)"
  proof -
    have "(if ins then {h} else {}) \<subseteq> {h}" by simp
    moreover have "\<not> used st2 h" "zs \<noteq> [] \<longrightarrow> used st2 (last zs)" "coalesced (used st2) zs" "coalesced (used st2) (q # ys)"
      using s2(4-6) ms(2) by (simp_all add: s2(3))
    ultimately show ?thesis using merge_right_step [OF s2(2)] that by blast
  qed
  have hand1: "hand (used st1) (xs @ p # q # ys) = hand (used st) (xs @ p # q # ys) - {(p + 24, q)}"
    unfolding s1(2) using dist u by (rule hand_remove)
  have st1_eq: "mh_release n p st = (if ins then ?st3\<lparr>fre := put_first (free_list (heaps ?st3 n)) h (fre ?st3)\<rparr> else ?st3)"
    using s2(1) by (simp add: mh_release_def Let_def st1_def MEMITEM_SIZE_def)
  show ?thesis
  proof (cases ins)
    case True
    let ?st4 = "?st3\<lparr>fre := put_first (free_list (heaps ?st3 n)) h (fre ?st3)\<rparr>"
    have "used ?st4 = used st1" by (simp add: used_eq) (simp add: s2(3) s3(2) flip: used_eq)
    moreover have "mh_pre n (zs @ h # ys') (h # fs') {} ?st4" using insert_pre s3(1) True by simp
    ultimately have "mh_at n (zs @ h # ys') (h # fs') ?st4" using s3(3) s2(3) by (simp add: mh_at_def)
    then show ?thesis using True st1_eq \<open>used ?st4 = used st1\<close> s3(4) s2(3,7) hand1 s1(2) by auto
  next
    case False
    then have "mh_at n (zs @ h # ys') fs' ?st3" using s3 s2(3) by (simp add: mh_at_def)
    then show ?thesis using False st1_eq s3(2,4) s2(3,7) hand1 s1(2) by auto
  qed
qed

text \<open>Every area that is handed out can be freed, and not twice.\<close>

lemma mh_free_at:
  assumes i: "mh_at n bs fs st" and a: "(b, e) \<in> hand (used st) bs"
  shows "\<exists>st' bs' fs'. mh_free b st = Some st' \<and> mh_at n bs' fs' st' \<and>
    hand (used st') bs' = hand (used st) bs - {(b, e)} \<and> mh_free b st' = None"
proof -
  have i': "mh_pre n bs fs {} st" using i by (simp add: mh_at_def)
  obtain xs ys p where bs: "bs = xs @ p # e # ys" and p: "used st p" "b = p + 24" using hand_mem [OF a] by blast
  note g = mh_pair [OF i' [unfolded bs]]
  have b0: "b \<noteq> 0" using g(6) p(2) by auto
  have nx: "lnext (blk st) p = e" by (rule g(1))
  have run: "mh_free b st = Some (mh_release n p st)"
    using b0 mh_preD(13) [OF i', of p] mh_preD(13) [OF i', of e] mh_preD(14) [OF i', of p] p
    by (simp add: mh_free_def Let_def nx bs RT_MEMHEAP_IS_USED_def)
  obtain bs' fs' where r: "mh_at n bs' fs' (mh_release n p st)"
      "hand (used (mh_release n p st)) bs' = hand (used st) bs - {(p + 24, e)}" "\<not> used (mh_release n p st) p"
    using mh_release_at [OF i [unfolded bs] p(1)] by (auto simp: bs)
  have "mh_free b (mh_release n p st) = None"
    using r(3) b0 p(2) by (simp add: mh_free_def Let_def RT_MEMHEAP_IS_USED_def RT_ASSERT_def)
  then show ?thesis using run r p(2) by auto
qed

section \<open>Resizing\<close>

text \<open>Between a used block \<open>p\<close> and a used block \<open>c\<close>, a free block \<open>new\<close> takes the place of the
  free block there, if there was one.\<close>

lemma tail_new:
  assumes i: "mh_pre n (xs @ p # mid @ c # zs) fs D st" and mid: "mid = [] \<or> (\<exists>q. mid = [q] \<and> q \<noteq> new)"
    and pos: "unat p + 24 \<le> unat new" "unat new + 24 \<le> unat c"
  shows "new \<notin> set (xs @ p # mid @ c # zs)" "new \<noteq> free_list (heaps st n)"
proof -
  note d = mh_preD [OF i]
  have s: "spaced (xs @ [p])" "spaced (c # zs)" using d(9) mid by (auto simp: successively_append_iff)
  show "new \<notin> set (xs @ p # mid @ c # zs)"
    using spaced_last [OF s(1), of new] spaced_first [OF s(2), of new] pos mid by (auto simp: successively_Cons)
  show "new \<noteq> free_list (heaps st n)"
    using mh_inner(1) [OF i, of p] mh_inner(2) [OF i, of c] pos d(3) by auto
qed

lemma tail_at:
  assumes i: "mh_at n (xs @ p # mid @ c # zs) fs st"
    and mid: "mid = [] \<or> (\<exists>q. mid = [q] \<and> q \<noteq> new \<and> \<not> used st q)"
    and u: "used st p" "used st c" and pos: "unat p + 24 \<le> unat new" "unat new + 24 \<le> unat c"
    and r: "ring (blk st') (xs @ p # new # c # zs)"
    and f: "ring (fre st') (free_list (heaps st n) # new # fs')" "set fs' = set fs - set mid"
    and s: "magic st' = (magic st)(new := RT_MEMHEAP_MAGIC)" "pool_ptr st' = (pool_ptr st)(new := Some n)"
      "start_addr (heaps st' n) = start_addr (heaps st n)" "pool_size (heaps st' n) = pool_size (heaps st n)"
      "free_list (heaps st' n) = free_list (heaps st n)"
    and a: "unat (available_size (heaps st' n)) + room (used st) (p # mid @ [c]) =
       unat (available_size (heaps st n)) + (unat c - unat new - 24)"
  shows "mh_at n (xs @ p # new # c # zs) (new # fs') st' \<and>
    hand (used st') (xs @ p # new # c # zs) =
      insert (p + 24, new) (hand (used st) (xs @ p # mid @ c # zs) - {(p + 24, hd (mid @ [c]))})"
proof -
  let ?bs = "xs @ p # mid @ c # zs" and ?cs = "xs @ p # new # c # zs"
  have i': "mh_pre n ?bs fs {} st" and m: "coalesced (used st) ?bs" using i by (simp_all add: mh_at_def)
  note d = mh_preD [OF i']
  have mid': "mid = [] \<or> (\<exists>q. mid = [q] \<and> q \<noteq> new)" using mid by blast
  note nn = tail_new [OF i' mid' pos]
  have dist: "distinct ?bs" by (rule ring_nodup [OF d(1)])
  have u': "used st' = (used st)(new := False)" by (simp add: used_eq s fun_eq_iff)
  have nx: "new \<notin> set (xs @ [p])" "new \<notin> set (c # zs)" "new \<noteq> p" "new \<noteq> c" using nn by auto
  have r1: "room (used st') ?cs = room (used st) (xs @ [p]) + (unat c - unat new - 24) + room (used st) (c # zs)"
    by (subst room_append) (use u nx in \<open>simp add: u' room_other [OF nx(1)] room_other [OF nx(2)]\<close>)
  have "room (used st) ?bs = room (used st) (xs @ [p]) + room (used st) (p # mid @ c # zs)"
    by (rule room_append)
  also have "room (used st) (p # mid @ c # zs) = room (used st) (p # mid @ [c]) + room (used st) (c # zs)"
    using room_append [of "used st" "p # mid" c zs] by simp
  finally have av: "unat (available_size (heaps st' n)) = room (used st') ?cs" using a d(15) r1 by linarith
  have h1: "hand (used st') ?cs = hand (used st) (xs @ [p]) \<union> {(p + 24, new)} \<union> hand (used st) (c # zs)"
    by (subst hand_append) (use u nx in \<open>auto simp: u' hand_other [OF nx(1)] hand_other [OF nx(2)]\<close>)
  have h2: "hand (used st) ?bs - {(p + 24, hd (mid @ [c]))} = hand (used st) (xs @ [p]) \<union> hand (used st) (c # zs)"
  proof -
    obtain q ys where q: "mid @ c # zs = q # ys" "q = hd (mid @ [c])" using mid by (cases mid) auto
    have "hand (used st) ?bs - {(p + 24, q)} = hand ((used st)(p := False)) ?bs"
      using hand_remove [of xs p q ys "used st"] dist u(1) by (simp add: q(1))
    also have "\<dots> = hand (used st) (xs @ [p]) \<union> hand ((used st)(p := False)) (p # mid @ c # zs)"
      by (subst hand_append) (use dist in \<open>simp add: hand_prefix\<close>)
    also have "hand ((used st)(p := False)) (p # mid @ c # zs) = hand (used st) (c # zs)"
    proof -
      have "hand ((used st)(p := False)) (p # mid @ c # zs) = hand ((used st)(p := False)) (c # zs)"
        using mid dist by auto
      also have "\<dots> = hand (used st) (c # zs)" using dist by (intro hand_other) auto
      finally show ?thesis .
    qed
    finally show ?thesis by (simp add: q(2))
  qed
  have sp: "spaced ?cs" using d(9) pos mid by (auto simp: successively_append_iff)
  have mg: "coalesced (used st') ?cs"
  proof -
    have "coalesced (used st) (xs @ [p])" "coalesced (used st) (c # zs)"
      using m mid by (auto simp: successively_append_iff)
    then have "coalesced (used st') (xs @ [p])" "coalesced (used st') (c # zs)"
      unfolding u' using coalesced_other [OF nx(1)] coalesced_other [OF nx(2)] by blast+
    then show ?thesis using u nx by (auto simp: successively_append_iff u')
  qed
  have fs: "set (new # fs') = {b \<in> set ?cs. \<not> used st' b}"
  proof -
    have "set fs = {b \<in> set ?bs. \<not> used st b}" using d(10) by simp
    then have "set fs' = {b \<in> set (xs @ p # c # zs). \<not> used st b}" unfolding f(2) using dist mid by auto
    then show ?thesis using nx by (auto simp: u')
  qed
  have ends: "hd ?cs = hd ?bs" "last ?cs = last ?bs" by (cases xs; simp)+
  have "used st' (last ?cs)" using d(12) nx(2) by (simp add: u' last_append) (metis last.simps last_in_set list.distinct(1) nx(2))
  then have "mh_at n ?cs (new # fs') st'"
    using r f(1) sp mg fs av d(3-8,13,14) mid unfolding mh_at_def mh_pre_def ends s(3-5) by (auto simp: s(1,2))
  then show ?thesis using h1 h2 by auto
qed

lemma take_free:
  assumes i: "mh_pre n bs (us @ q # vs) D st"
  shows "ring (take_off q (fre st)) (free_list (heaps st n) # us @ vs)" "q \<notin> set (us @ vs)"
    "set (us @ vs) = set (us @ q # vs) - {q}"
proof -
  note d = mh_preD [OF i]
  have "ring (take_off q (fre st)) ((free_list (heaps st n) # us) @ vs)"
    by (rule ring_take_off) (use d(2) in auto)
  then show "ring (take_off q (fre st)) (free_list (heaps st n) # us @ vs)" by simp
  show "q \<notin> set (us @ vs)" "set (us @ vs) = set (us @ q # vs) - {q}" using ring_nodup [OF d(2)] by auto
qed

text \<open>Growing into the free block \<open>q\<close>.\<close>

lemma mh_grow_at:
  assumes i: "mh_at n (xs @ p # q # c # zs) (us @ q # vs) st" and u: "used st p"
    and sz: "unat q - unat p - 24 < unat sz" "unat sz + 12 < (unat c - unat q - 24) + (unat q - unat p - 24)"
  defines "new \<equiv> p + 24 + sz" and "st' \<equiv> mh_grow n (p + 24) sz (MEMITEM_SIZE st p) st"
  shows "mh_at n (xs @ p # new # c # zs) (new # us @ vs) st'"
    "hand (used st') (xs @ p # new # c # zs) =
       insert (p + 24, new) (hand (used st) (xs @ p # q # c # zs) - {(p + 24, q)})"
    "unat (p + 24) + unat sz = unat new"
proof -
  have i': "mh_pre n (xs @ p # q # c # zs) (us @ q # vs) {} st" using i by (simp add: mh_at_def)
  have i2: "mh_pre n ((xs @ [p]) @ q # c # zs) (us @ q # vs) {} st" using i' by simp
  note d = mh_preD [OF i'] and g = mh_pair [OF i'] and g2 = mh_pair [OF i2]
  have uq: "\<not> used st q" using d(10) by auto
  then have uc: "used st c" using i by (auto simp: mh_at_def successively_append_iff)
  show nu: "unat (p + 24) + unat sz = unat new"
    unfolding new_def using sz g(3,6) g2(3,4) by (simp add: unat_word_ariths)
  have pos: "unat p + 24 \<le> unat new" "unat new + 24 \<le> unat c" and qn: "unat q < unat new"
    using nu g(6,3) g2(3) sz by linarith+
  let ?l = "free_list (heaps st n)"
  have mid: "[q] = [] \<or> (\<exists>r. [q] = [r] \<and> r \<noteq> new)" using qn by auto
  have new: "new \<notin> set (xs @ p # q # c # zs)" "new \<noteq> ?l" using tail_new [of n xs p "[q]" c zs, OF _ mid pos] i' by simp_all
  have sel: "blk st' = link_behind p new (take_off q (blk st))" "fre st' = put_first ?l new (take_off q (fre st))"
      "magic st' = (magic st)(new := RT_MEMHEAP_MAGIC)" "pool_ptr st' = (pool_ptr st)(new := Some n)"
      "start_addr (heaps st' n) = start_addr (heaps st n)" "pool_size (heaps st' n) = pool_size (heaps st n)"
      "free_list (heaps st' n) = ?l"
      "available_size (heaps st' n) = available_size (heaps st n) - (sz - MEMITEM_SIZE st p)"
    by (simp_all add: st'_def mh_grow_def Let_def g(1) new_def)
  have "ring (take_off q (blk st)) ((xs @ [p]) @ c # zs)" by (rule ring_take_off) (use d(1) in auto)
  then have r: "ring (blk st') (xs @ p # new # c # zs)" unfolding sel by (intro ring_link_behind) (use new in auto)
  note tf = take_free [OF i2]
  have "new \<notin> set (us @ vs)" using d(10) new(1) by auto
  then have f: "ring (fre st') (?l # new # us @ vs)" unfolding sel using tf(1) new(2) by (intro ring_put_first) auto
  have m: "unat (sz - MEMITEM_SIZE st p) = unat sz - (unat q - unat p - 24)"
    using sz(1) g(5) by (simp add: unat_sub word_le_nat_alt)
  have rm: "room (used st) (p # [q] @ [c]) = unat c - unat q - 24" using u uq by simp
  have av: "unat c - unat q - 24 \<le> unat (available_size (heaps st n))"
    unfolding d(15) by (subst room_append) (use u uq in simp)
  obtain x where x: "unat q = unat p + 24 + x" using g(3) le_Suc_ex by blast
  obtain y where y: "unat c = unat q + 24 + y" using g2(3) le_Suc_ex by blast
  obtain z where z: "unat c = unat new + 24 + z" using pos(2) le_Suc_ex by blast
  have xyz: "unat q - unat p - 24 = x" "unat c - unat q - 24 = y" "unat c - unat new - 24 = z"
    using x y z by simp_all
  have s: "x < unat sz" "y + x = unat sz + z" using sz(1) nu g(6) x y z by simp_all
  then have "unat (sz - MEMITEM_SIZE st p) \<le> unat (available_size (heaps st n))"
    using av unfolding m xyz by simp
  then have "unat (available_size (heaps st' n)) = unat (available_size (heaps st n)) - (unat sz - x)"
    unfolding sel using m [unfolded xyz] by (simp add: unat_sub word_le_nat_alt)
  then have a: "unat (available_size (heaps st' n)) + room (used st) (p # [q] @ [c]) =
      unat (available_size (heaps st n)) + (unat c - unat new - 24)"
    using av s unfolding rm xyz by simp
  have i3: "mh_at n (xs @ p # [q] @ c # zs) (us @ q # vs) st" using i by simp
  have md: "[q] = [] \<or> (\<exists>r. [q] = [r] \<and> r \<noteq> new \<and> \<not> used st r)" using qn uq by auto
  have f2: "set (us @ vs) = set (us @ q # vs) - set [q]" unfolding tf(3) by simp
  have "mh_at n (xs @ p # new # c # zs) (new # us @ vs) st' \<and>
      hand (used st') (xs @ p # new # c # zs) =
        insert (p + 24, new) (hand (used st) (xs @ p # [q] @ c # zs) - {(p + 24, hd ([q] @ [c]))})"
    by (rule tail_at [OF i3 md u uc pos r f f2 sel(3-7) a])
  then show "mh_at n (xs @ p # new # c # zs) (new # us @ vs) st'"
    "hand (used st') (xs @ p # new # c # zs) =
       insert (p + 24, new) (hand (used st) (xs @ p # q # c # zs) - {(p + 24, q)})" by simp_all
qed

text \<open>Giving the end of a block back.\<close>

lemma mh_shrink_at:
  assumes i: "mh_at n (xs @ p # q # zs) fs st" and u: "used st p"
    and sz: "unat sz + 24 + 12 < unat q - unat p - 24"
  defines "new \<equiv> p + sz + 24" and "st' \<equiv> mh_shrink n (p + 24) sz st"
  shows "\<exists>bs' fs'. mh_at n bs' fs' st' \<and> hand (used st') bs' =
      insert (p + 24, new) (hand (used st) (xs @ p # q # zs) - {(p + 24, q)})"
    "unat (p + 24) + unat sz = unat new"
proof -
  have i': "mh_pre n (xs @ p # q # zs) fs {} st" using i by (simp add: mh_at_def)
  note d = mh_preD [OF i'] and g = mh_pair [OF i']
  show nu: "unat (p + 24) + unat sz = unat new"
    unfolding new_def using sz g(3,4,6) by (simp add: unat_word_ariths)
  have pos: "unat p + 24 \<le> unat new" "unat new + 24 \<le> unat q" using nu g(6,3) sz by linarith+
  let ?l = "free_list (heaps st n)"
  have i0: "mh_pre n (xs @ p # [] @ q # zs) fs {} st" using i' by simp
  have new: "new \<notin> set (xs @ p # q # zs)" "new \<noteq> ?l" using tail_new [OF i0 _ pos] by simp_all
  define b1 where "b1 = link_behind p new (blk st)"
  have r1: "ring b1 (xs @ p # new # q # zs)" unfolding b1_def by (rule ring_link_behind) (use d(1) new in auto)
  have n1: "lnext b1 new = q" "lprev b1 q = new" using ring_next [of b1 "xs @ [p]" new q zs] r1 by simp_all
  have nf: "new \<notin> set fs" using d(10) new(1) by auto
  have item: "lnext b new = e \<Longrightarrow> unat new + 24 \<le> unat e \<Longrightarrow>
      unat (lnext b new - new - 24) = unat e - unat new - 24" for b :: "u32 links" and e
    by (simp add: unat_sub word_le_nat_alt)
  have rb: "room (used st) (xs @ p # q # zs) + (unat q - unat p - 24) < 2 ^ 32"
  proof -
    have "unat (hd (xs @ p # q # zs)) + room ((used st)(p := False)) (xs @ p # q # zs) \<le> unat (last (xs @ p # q # zs))"
      using room_le [OF _ d(9)] by blast
    moreover have "room ((used st)(p := False)) (xs @ p # q # zs) = room (used st) (xs @ p # q # zs) + (unat q - unat p - 24)"
      by (subst (1 2) room_append)
        (use u ring_nodup [OF d(1)] in \<open>simp add: room_prefix room_other [of p "q # zs"]\<close>)
    ultimately show ?thesis using d(8) by linarith
  qed
  have used_new: "used (new_item n new st\<lparr>blk := b\<rparr>) q = used st q" for b
    using new(1) by (auto simp: RT_MEMHEAP_IS_USED_def)
  show "\<exists>bs' fs'. mh_at n bs' fs' st' \<and> hand (used st') bs' =
      insert (p + 24, new) (hand (used st) (xs @ p # q # zs) - {(p + 24, q)})"
  proof (cases "used st q")
    case True
    have sel: "blk st' = b1" "fre st' = put_first ?l new (fre st)"
        "magic st' = (magic st)(new := RT_MEMHEAP_MAGIC)" "pool_ptr st' = (pool_ptr st)(new := Some n)"
        "start_addr (heaps st' n) = start_addr (heaps st n)" "pool_size (heaps st' n) = pool_size (heaps st n)"
        "free_list (heaps st' n) = ?l"
        "available_size (heaps st' n) = available_size (heaps st n) + (lnext b1 new - new - 24)"
      using True used_new unfolding st'_def mh_shrink_def Let_def memheap_sizes add_diff_cancel_right' new_def [symmetric]
      by (simp_all add: n1(1) MEMITEM_SIZE_def flip: b1_def)
    have f: "ring (fre st') (?l # new # fs)" unfolding sel by (rule ring_put_first) (use d(2) new nf in auto)
    have "room (used st) (xs @ p # q # zs) + (unat q - unat new - 24) < 2 ^ 32" using rb pos by simp
    then have "unat (available_size (heaps st' n)) = unat (available_size (heaps st n)) + (unat q - unat new - 24)"
      unfolding sel using item [OF n1(1) pos(2)] d(15) by (intro unat_sum) simp_all
    then have "mh_at n (xs @ p # new # q # zs) (new # fs) st' \<and>
        hand (used st') (xs @ p # new # q # zs) =
          insert (p + 24, new) (hand (used st) (xs @ p # [] @ q # zs) - {(p + 24, hd ([] @ [q]))})"
      using i u True pos r1 f sel by (intro tail_at) auto
    then show ?thesis by auto
  next
    case False
    have "zs \<noteq> []" using d(12) False by auto
    then obtain c ys where zs: "zs = c # ys" by (cases zs) auto
    have uc: "used st c" using i False by (auto simp: mh_at_def successively_append_iff zs)
    have "q \<in> set fs" using d(10) False by auto
    then obtain us vs where fs: "fs = us @ q # vs" by (auto dest: split_list)
    have i2: "mh_pre n ((xs @ [p]) @ q # c # ys) fs {} st" using i' by (simp add: zs)
    note g2 = mh_pair [OF i2]
    have n2: "lnext b1 q = c" using ring_next [of b1 "xs @ [p, new]" q c ys] r1 by (simp add: zs)
    have nq: "new \<noteq> q" "new \<noteq> c" using new by (auto simp: zs)
    let ?b2 = "let h = set_prev (lnext b1 q) new b1 in set_next new (lnext h q) h"
    have r2: "ring ?b2 (xs @ p # new # c # ys)"
      using ring_merge_right [of b1 "xs @ [p]" new q "c # ys"] r1 by (simp add: zs)
    have n3: "lnext ?b2 new = c" by (simp add: Let_def n2)
    have sel: "blk st' = ?b2" "fre st' = put_first ?l new (take_off q (fre st))"
        "magic st' = (magic st)(new := RT_MEMHEAP_MAGIC)" "pool_ptr st' = (pool_ptr st)(new := Some n)"
        "start_addr (heaps st' n) = start_addr (heaps st n)" "pool_size (heaps st' n) = pool_size (heaps st n)"
        "free_list (heaps st' n) = ?l"
        "available_size (heaps st' n) = available_size (heaps st n) - (lnext b1 q - q - 24) + (lnext ?b2 new - new - 24)"
      using False used_new unfolding st'_def mh_shrink_def Let_def memheap_sizes add_diff_cancel_right' new_def [symmetric]
      by (simp_all add: n1(1) MEMITEM_SIZE_def flip: b1_def)
    note tf = take_free [OF i2 [unfolded fs]]
    have "new \<notin> set (us @ vs)" using nf by (auto simp: fs)
    then have f: "ring (fre st') (?l # new # us @ vs)"
      unfolding sel using tf(1) new(2) by (intro ring_put_first) auto
    have rm: "room (used st) (p # [q] @ [c]) = unat c - unat q - 24" using u False by simp
    have le: "unat c - unat q - 24 \<le> unat (available_size (heaps st n))"
      unfolding d(15) zs by (subst room_append) (use u False in simp)
    have s1: "unat (available_size (heaps st n) - (lnext b1 q - q - 24)) = unat (available_size (heaps st n)) - (unat c - unat q - 24)"
      using le g2(3) by (simp add: n2 unat_sub word_le_nat_alt)
    obtain x where x: "unat q = unat p + 24 + x" using g(3) le_Suc_ex by blast
    obtain y where y: "unat c = unat q + 24 + y" using g2(3) le_Suc_ex by blast
    have cn: "unat new + 24 \<le> unat c" using pos g2(3) by simp
    then obtain z where z: "unat c = unat new + 24 + z" using le_Suc_ex by blast
    have xyz: "unat q - unat p - 24 = x" "unat c - unat q - 24 = y" "unat c - unat new - 24 = z"
      using x y z by simp_all
    have s: "y + x = unat sz + z" "y \<le> unat (available_size (heaps st n))" using nu g(6) x y z le xyz by simp_all
    then have "unat (available_size (heaps st n)) - y + z < 2 ^ 32" using rb d(15) unfolding xyz by simp
    then have "unat (available_size (heaps st' n)) = unat (available_size (heaps st n)) - y + z"
      unfolding sel(8) using item [OF n3 cn, unfolded xyz] s1 [unfolded xyz] by (intro unat_sum) simp_all
    then have a: "unat (available_size (heaps st' n)) + room (used st) (p # [q] @ [c]) =
        unat (available_size (heaps st n)) + (unat c - unat new - 24)"
      using s unfolding rm xyz by simp
    have i3: "mh_at n (xs @ p # [q] @ c # ys) (us @ q # vs) st" using i by (simp add: zs fs)
    have md: "[q] = [] \<or> (\<exists>r. [q] = [r] \<and> r \<noteq> new \<and> \<not> used st r)" using nq(1) False by auto
    have f2: "set (us @ vs) = set (us @ q # vs) - set [q]" unfolding tf(3) by simp
    have "mh_at n (xs @ p # new # c # ys) (new # us @ vs) st' \<and>
        hand (used st') (xs @ p # new # c # ys) =
          insert (p + 24, new) (hand (used st) (xs @ p # [q] @ c # ys) - {(p + 24, hd ([q] @ [c]))})"
      by (rule tail_at [OF i3 md u uc pos(1) cn r2 [folded sel(1)] f f2 sel(3-7) a])
    then show ?thesis by (auto simp: zs)
  qed
qed

end
