(* ===== verification/Memheap_Realloc.thy ===== *)
theory Memheap_Realloc
  imports Memheap_Ops
begin

text \<open>
  Asking a memory heap for another size of an area, and setting up a heap.
\<close>

section \<open>Areas\<close>

text \<open>Two areas that are handed out lie apart: the header of the later one is in between.\<close>

lemma unat_plus_header: "unat c + 24 \<le> unat g \<Longrightarrow> unat (c + 24) = unat c + 24" for c g :: u32
proof -
  assume "unat c + 24 \<le> unat g"
  also have "unat g < 2 ^ 32" using unsigned_less [of g] by simp
  finally show ?thesis by (simp add: unat_word_ariths)
qed

lemma hand_apart:
  assumes s: "spaced bs" and a: "(p, e) \<in> hand u bs" "(q, f) \<in> hand u bs"
  shows "p = q \<and> e = f \<or> p \<noteq> q \<and> (unat e + 24 \<le> unat q \<or> unat f + 24 \<le> unat p)"
  using assms
proof (induction u bs rule: hand.induct)
  case (1 u a b bs)
  have first: "unat b + 24 \<le> unat r \<and> a + 24 \<noteq> r" if r: "(r, g) \<in> hand u (b # bs)" for r g
  proof -
    have s: "spaced (b # bs)" "unat a + 24 \<le> unat b" using 1(2) by simp_all
    obtain c where c: "c \<in> set (butlast (b # bs))" "r = c + 24" "unat c + 24 \<le> unat g"
      using hand_in [OF s(1) r] by blast
    have "c = b \<or> c \<in> set bs" using in_set_butlastD [OF c(1)] by simp
    then have bc: "unat b \<le> unat c" using spaced_first [OF s(1), of c] by auto
    have "unat r = unat c + 24" using c(2) unat_plus_header [OF c(3)] by simp
    moreover have "unat (a + 24) = unat a + 24" by (rule unat_plus_header [OF s(2)])
    ultimately show ?thesis using bc s(2) by auto
  qed
  have s: "spaced (b # bs)" using 1(2) by simp
  consider "(p, e) = (a + 24, b)" "(q, f) = (a + 24, b)" | "(p, e) = (a + 24, b)" "(q, f) \<in> hand u (b # bs)"
    | "(p, e) \<in> hand u (b # bs)" "(q, f) = (a + 24, b)" | "(p, e) \<in> hand u (b # bs)" "(q, f) \<in> hand u (b # bs)"
    using 1(3,4) by (auto split: if_splits)
  then show ?case
  proof cases
    case 2
    then show ?thesis using first [OF 2(2)] by simp
  next
    case 3
    then show ?thesis using first [OF 3(1)] by auto
  next
    case 4
    then show ?thesis using 1(1) s by blast
  qed simp
qed simp_all

lemma hand_not_free: "\<not> u b \<Longrightarrow> b + 24 \<notin> fst ` hand u bs"
  by (auto dest: hand_mem)

section \<open>Another size\<close>

text \<open>Asking for another size: the area is replaced, in place or by a copy, or nothing changes.\<close>

lemma request_again: "unat sz + 3 < 4294967296 \<Longrightarrow> mh_request (mh_request sz) = mh_request sz"
proof -
  assume "unat sz + 3 < 4294967296"
  then have sz: "unat sz + 3 < 2 ^ 32" by simp
  obtain k where k: "(unat sz + 3) div 4 * 4 = 4 * k" by auto
  have r: "unat (mh_request sz) = Orderings.max 12 (4 * k)" using mh_request_size(1) [OF sz] by (simp add: k)
  have "4 * k < 4294967296" using div_times_less_eq_dividend [of "unat sz + 3" 4] sz by (simp add: k)
  then have "k < 1073741824" by simp
  then have "4 * k + 3 < 4294967296" by linarith
  then have b: "unat (mh_request sz) + 3 < 2 ^ 32" unfolding r by simp
  have "4 dvd unat (mh_request sz)" unfolding r by (auto simp: max_def)
  then obtain j where "unat (mh_request sz) = 4 * j" by (auto elim: dvdE)
  then have "unat (mh_request (mh_request sz)) = unat (mh_request sz)"
    using mh_request_size(1) [OF b] mh_request_size(3) [OF sz] by simp
  then show ?thesis by (simp add: word_unat_eq_iff)
qed

lemma mh_realloc_at:
  assumes i: "mh_at n bs fs st" and a: "(b, e) \<in> hand (used st) bs" and sz: "sz \<noteq> 0" "unat sz + 15 < 2 ^ 32"
  shows "\<exists>r cpy st' bs' fs'. mh_realloc n b sz st = Some (r, cpy, st') \<and> mh_at n bs' fs' st' \<and>
    (case r of
       None \<Rightarrow> st' = st \<and> cpy = None
     | Some q \<Rightarrow> \<exists>f. hand (used st') bs' = insert (q, f) (hand (used st) bs - {(b, e)}) \<and>
         unat q + unat sz \<le> unat f \<and>
         (if q = b then cpy = None
          else q \<notin> fst ` hand (used st) bs \<and> (unat f + 24 \<le> unat b \<or> unat e + 24 \<le> unat q) \<and>
            (\<exists>k. cpy = Some (q, b, k) \<and> unat k = unat e - unat b \<and> unat k < unat f - unat q)))"
proof -
  let ?r = "mh_request sz"
  have sz3: "unat sz + 3 < 2 ^ 32" and sz4: "unat sz + 3 < 4294967296" using sz(2) by simp_all
  note rq = mh_request_size [OF sz3]
  have "(unat sz + 3) div 4 * 4 \<le> unat sz + 3" by (rule div_times_less_eq_dividend)
  then have rb: "unat ?r + 12 < 2 ^ 32" using sz(2) by (simp add: rq(1))
  have r0: "?r \<noteq> 0" using rq(3) by auto
  have i': "mh_pre n bs fs {} st" using i by (simp add: mh_at_def)
  obtain xs zs p where bs: "bs = xs @ p # e # zs" and p: "used st p" "b = p + 24" using hand_mem [OF a] by blast
  note g = mh_pair [OF i' [unfolded bs]]
  have b0: "b \<noteq> 0" "b - 24 = p" using g(6) p(2) by auto
  have pe: "p < e" using g(3) by (simp add: word_less_nat_alt)
  define old where "old = MEMITEM_SIZE st p"
  have old: "unat old = unat e - unat b" using g(5,6) p(2) by (simp add: old_def)
  have step: "mh_realloc n b sz st =
     (if old < ?r then
        (if \<not> used st e \<and> ?r + 12 < MEMITEM_SIZE st e + old then Some (Some b, None, mh_grow n b ?r old st)
         else do {
           (r, st) \<leftarrow> mh_alloc n ?r st;
           (case r of None \<Rightarrow> Some (None, None, st)
            | Some q \<Rightarrow> do { st \<leftarrow> mh_free b st; Some (Some q, Some (q, b, old), st) }) })
      else if old \<le> ?r + 24 + 12 then Some (Some b, None, st)
      else Some (Some b, None, mh_shrink n b ?r st))"
    unfolding mh_realloc_def Let_def memheap_sizes b0(2) g(1) old_def [symmetric] using pe
    by (simp add: sz(1) b0(1) cong: if_cong)
  show ?thesis
  proof (cases "old < ?r")
    case larger: True
    then have lt: "unat e - unat p - 24 < unat ?r" using g(5) by (simp add: old_def word_less_nat_alt)
    show ?thesis
    proof (cases "\<not> used st e \<and> ?r + 12 < MEMITEM_SIZE st e + old")
      case True
      have "zs \<noteq> []" using mh_preD(12) [OF i'] True by (auto simp: bs)
      then obtain c ys where zs: "zs = c # ys" by (cases zs) auto
      have "e \<in> set fs" using mh_preD(10) [OF i'] True by (auto simp: bs)
      then obtain us vs where fs: "fs = us @ e # vs" by (auto dest: split_list)
      have i2: "mh_pre n ((xs @ [p]) @ e # c # ys) fs {} st" using i' by (simp add: bs zs)
      note g2 = mh_pair [OF i2]
      have r12: "unat (?r + 12) = unat ?r + 12" using rb by (simp add: unat_word_ariths)
      have s: "unat (MEMITEM_SIZE st e + old) = (unat c - unat e - 24) + (unat e - unat p - 24)"
        using g(3,5) g2(3,4,5) by (intro unat_sum) (simp_all add: old_def)
      have "unat (?r + 12) < unat (MEMITEM_SIZE st e + old)" using True by (simp add: word_less_nat_alt)
      then have "unat ?r + 12 < (unat c - unat e - 24) + (unat e - unat p - 24)" unfolding r12 s .
      note gr = mh_grow_at [OF i [unfolded bs zs fs] p(1) lt this, folded p(2) old_def]
      have "unat b + unat sz \<le> unat (b + ?r)" using gr(3) rq(2) by linarith
      then show ?thesis using True larger gr(1,2) unfolding step bs zs by auto
    next
      case False
      note al = mh_alloc_at [OF i, of "?r"]
      have "unat ?r + 3 < 2 ^ 32" using rb by simp
      from mh_alloc_at [OF i this, unfolded request_again [OF sz4]] show ?thesis
      proof
        assume "\<exists>b' e' bs' fs' st'. mh_alloc n ?r st = Some (Some b', st') \<and> mh_at n bs' fs' st' \<and>
          hand (used st') bs' = insert (b', e') (hand (used st) bs) \<and> unat b' + unat ?r \<le> unat e' \<and>
          (\<exists>p. b' = p + 24 \<and> p \<in> set bs \<and> \<not> used st p \<and> unat b' = unat p + 24)"
        then obtain b' e' bs' fs' st' p' where al: "mh_alloc n ?r st = Some (Some b', st')" "mh_at n bs' fs' st'"
          "hand (used st') bs' = insert (b', e') (hand (used st) bs)" "unat b' + unat ?r \<le> unat e'"
          "b' = p' + 24" "\<not> used st p'" by blast
        have ne: "b' \<noteq> b" using al(5,6) p by auto
        have "(b, e) \<in> hand (used st') bs'" using al(3) a by simp
        from mh_free_at [OF al(2) this] obtain st2 bs2 fs2 where fr: "mh_free b st' = Some st2" "mh_at n bs2 fs2 st2"
          "hand (used st2) bs2 = hand (used st') bs' - {(b, e)}" by blast
        have "hand (used st2) bs2 = insert (b', e') (hand (used st) bs - {(b, e)})" using fr(3) al(3) ne by auto
        moreover have "mh_realloc n b sz st = Some (Some b', Some (b', b, old), st2)"
          using False larger al(1) fr(1) by (simp add: step)
        moreover have "unat old < unat e' - unat b'" using larger al(4) rq(3) by (simp add: word_less_nat_alt)
        moreover have "unat b' + unat sz \<le> unat e'" using al(4) rq(2) by linarith
        moreover have "b' \<notin> fst ` hand (used st) bs" using hand_not_free [of "used st" p'] al(5,6) by simp
        moreover have "spaced bs'" using al(2) mh_preD(9) unfolding mh_at_def by blast
        then have "unat e' + 24 \<le> unat b \<or> unat e + 24 \<le> unat b'"
          using hand_apart [of bs' b' e' "used st'" b e] al(3) a ne by simp
        ultimately show ?thesis using fr(2) ne old by (intro exI [of _ "Some b'"] exI [of _ "Some (b', b, old)"] exI [of _ st2]) auto
      next
        assume "mh_alloc n ?r st = Some (None, st) \<and> (available_size (heaps st n) \<le> ?r \<or> (\<forall>p \<in> set fs. MEMITEM_SIZE st p < ?r))"
        then have "mh_realloc n b sz st = Some (None, None, st)" using False larger by (simp add: step)
        then show ?thesis using i by (intro exI [of _ None] exI [of _ st]) auto
      qed
    qed
  next
    case False
    then have le: "unat ?r \<le> unat e - unat b" using old by (simp add: word_le_nat_alt flip: not_le)
    show ?thesis
    proof (cases "old \<le> ?r + 24 + 12")
      case True
      have "unat b \<le> unat e" using g(3,6) p(2) by simp
      then have "unat b + unat sz \<le> unat e" using le rq(2,3) by linarith
      moreover have "hand (used st) bs = insert (b, e) (hand (used st) bs - {(b, e)})" using a by auto
      ultimately show ?thesis using True False i unfolding step
        by (intro exI [of _ "Some b"] exI [of _ None] exI [of _ st] exI [of _ bs] exI [of _ fs]) auto
    next
      case shrink: False
      have "0 < unat p" using mh_inner(1) [OF i', of p] mh_preD(6) [OF i'] by (simp add: bs)
      then have "unat ?r + 36 < 2 ^ 32" using le [unfolded p(2) g(6)] g(3,4) by linarith
      then have "unat (?r + 24 + 12) = unat ?r + 36" by (simp add: unat_word_ariths)
      moreover have "unat (?r + 24 + 12) < unat old" using shrink by (simp only: not_le word_less_nat_alt)
      ultimately have s: "unat ?r + 24 + 12 < unat e - unat p - 24" using g(5) by (simp add: old_def)
      note sh = mh_shrink_at [OF i [unfolded bs] p(1) s, folded p(2)]
      have "unat b + unat sz \<le> unat (p + ?r + 24)" using sh(2) rq(2) by linarith
      then show ?thesis using sh(1) shrink False unfolding step bs by auto
    qed
  qed
qed

section \<open>A new heap\<close>

lemma mh_init_at:
  assumes start: "start \<noteq> 0" and z: "48 \<le> unat (RT_ALIGN_DOWN sz RT_ALIGN_SIZE)"
      "unat start + unat (RT_ALIGN_DOWN sz RT_ALIGN_SIZE) < 2 ^ 32"
    and hdr: "unat (free_header (heaps st n)) < unat start \<or>
      unat start + unat (RT_ALIGN_DOWN sz RT_ALIGN_SIZE) \<le> unat (free_header (heaps st n))"
  defines "st' \<equiv> rt_memheap_init n start sz st" and "tail \<equiv> start + (RT_ALIGN_DOWN sz RT_ALIGN_SIZE - 24)"
  shows "mh_at n [start, tail] [start] st'" "hand (used st') [start, tail] = {}"
    "unat tail + 24 = unat start + unat (RT_ALIGN_DOWN sz RT_ALIGN_SIZE)"
proof -
  let ?z = "RT_ALIGN_DOWN sz RT_ALIGN_SIZE" and ?l = "free_header (heaps st n)"
  have z24: "unat (?z - 24) = unat ?z - 24" "unat (?z - 48) = unat ?z - 48" using z(1) by (simp_all add: unat_sub word_le_nat_alt)
  show tl: "unat tail + 24 = unat start + unat ?z"
    unfolding tail_def using z z24(1) by (simp add: unat_word_ariths)
  have ne: "?l \<noteq> start" "?l \<noteq> tail" "start \<noteq> tail" using hdr z tl by auto
  have t: "start + (?z - 48) + 24 = tail" by (simp add: tail_def)
  have sel: "lnext (blk st') start = tail" "lprev (blk st') start = tail" "lnext (blk st') tail = start"
      "lprev (blk st') tail = start" "lnext (fre st') ?l = start" "lprev (fre st') ?l = start"
      "lnext (fre st') start = ?l" "lprev (fre st') start = ?l"
      "magic st' start = RT_MEMHEAP_MAGIC" "magic st' tail = RT_MEMHEAP_MAGIC OR RT_MEMHEAP_USED"
      "pool_ptr st' start = Some n" "pool_ptr st' tail = Some n"
      "start_addr (heaps st' n) = start" "pool_size (heaps st' n) = ?z" "available_size (heaps st' n) = ?z - 48"
      "free_list (heaps st' n) = ?l"
    using ne t by (simp_all add: st'_def rt_memheap_init_def Let_def put_first_def drop_links_def)
  have us: "\<not> used st' start" "used st' tail" by (simp_all add: RT_MEMHEAP_IS_USED_def sel)
  then show "hand (used st') [start, tail] = {}" by simp
  have "0 < unat start" using start by (simp add: unat_gt_0)
  then show "mh_at n [start, tail] [start] st'"
    using us ne tl z z24 hdr by (auto simp: mh_at_def mh_pre_def sel dll_def)
qed

end
