(* ===== verification/Memheap_Props.thy ===== *)
theory Memheap_Props
  imports Memheap_Realloc Allocator
begin

text \<open>
  What the memory heaps of \<^verbatim>\<open>src/memheap.c\<close> promise: the areas that are handed out lie inside the pool
  and apart from each other, each routine changes exactly one of them, and the contract \<open>allocator\<close>
  holds.  At the end, what happens at the limits of the sizes.
\<close>

section \<open>The areas\<close>

definition mh_shape :: "nat \<Rightarrow> mstore \<Rightarrow> u32 \<times> u32" where
  "mh_shape n st = (start_addr (heaps st n), pool_size (heaps st n))"

lemma mh_okD: "mh_ok n st \<Longrightarrow> \<exists>fs. mh_at n (mh_blocks n st) fs st"
  by (simp add: mh_ok_def)

abbreviation mh_apart :: "u32 \<times> u32 \<Rightarrow> u32 \<times> u32 \<Rightarrow> bool" where
  "mh_apart \<equiv> \<lambda>(p, e) (q, f). unat e + 24 \<le> unat q \<or> unat f + 24 \<le> unat p"

lemma mh_allocated_apart:
  "mh_ok n st \<Longrightarrow> (p, e) \<in> mh_allocated n st \<Longrightarrow> (q, f) \<in> mh_allocated n st \<Longrightarrow>
    p = q \<and> e = f \<or> p \<noteq> q \<and> mh_apart (p, e) (q, f)"
proof -
  assume "mh_ok n st" "(p, e) \<in> mh_allocated n st" "(q, f) \<in> mh_allocated n st"
  moreover from this(1) obtain fs where "mh_pre n (mh_blocks n st) fs {} st" using mh_okD by (auto simp: mh_at_def)
  ultimately show ?thesis using hand_apart [OF mh_preD(9)] by (simp add: mh_allocated_def)
qed

lemma mh_allocated_in:
  assumes ok: "mh_ok n st" and a: "(p, e) \<in> mh_allocated n st"
  shows "unat (start_addr (heaps st n)) + 24 \<le> unat p" "unat p \<le> unat e"
    "unat e + 24 \<le> unat (start_addr (heaps st n)) + unat (pool_size (heaps st n))"
proof -
  obtain fs where i: "mh_pre n (mh_blocks n st) fs {} st" using mh_okD [OF ok] by (auto simp: mh_at_def)
  obtain xs ys b where b: "mh_blocks n st = xs @ b # e # ys" "p = b + 24"
    using a hand_mem unfolding mh_allocated_def by blast
  note g = mh_pair [OF i [unfolded b(1)]]
  have in1: "b \<in> set (mh_blocks n st)" "e \<in> set (mh_blocks n st)" by (simp_all add: b(1))
  show "unat (start_addr (heaps st n)) + 24 \<le> unat p" "unat p \<le> unat e"
    "unat e + 24 \<le> unat (start_addr (heaps st n)) + unat (pool_size (heaps st n))"
    using mh_inner [OF i in1(1)] mh_inner [OF i in1(2)] mh_preD(5,7) [OF i] g(3,6) b(2) by simp_all
qed

text \<open>When nothing is handed out, the pool is one free block.\<close>

lemma mh_all_free:
  assumes ok: "mh_ok n st" and e: "mh_allocated n st = {}"
  shows "mh_blocks n st = [start_addr (heaps st n), start_addr (heaps st n) + (pool_size (heaps st n) - 24)]"
    "unat (available_size (heaps st n)) = unat (pool_size (heaps st n)) - 48"
proof -
  obtain fs where at: "mh_at n (mh_blocks n st) fs st" using mh_okD [OF ok] by blast
  have i: "mh_pre n (mh_blocks n st) fs {} st" using at by (simp add: mh_at_def)
  note d = mh_preD [OF i]
  obtain a b cs where bs: "mh_blocks n st = a # b # cs"
    using d(4) by (cases "mh_blocks n st"; cases "tl (mh_blocks n st)") auto
  have u: "\<not> used st a" using e by (auto simp: mh_allocated_def bs)
  have cs: "cs = []"
  proof (cases cs)
    case (Cons c ds)
    then have "\<not> used st b" using e by (auto simp: mh_allocated_def bs)
    then show ?thesis using at u by (simp add: mh_at_def bs)
  qed
  have g: "unat a + 24 \<le> unat b" "unat b + 24 = unat a + unat (pool_size (heaps st n))" "a = start_addr (heaps st n)"
    using d(5,7,9) by (simp_all add: bs cs)
  have "unat (pool_size (heaps st n) - 24) = unat (pool_size (heaps st n)) - 24"
    using g(1,2) by (simp add: unat_sub word_le_nat_alt)
  then have "unat (a + (pool_size (heaps st n) - 24)) = unat b"
    using g(1,2) d(8) by (simp add: unat_word_ariths bs cs)
  then show "mh_blocks n st = [start_addr (heaps st n), start_addr (heaps st n) + (pool_size (heaps st n) - 24)]"
    using g(3) by (simp add: bs cs word_unat_eq_iff)
  show "unat (available_size (heaps st n)) = unat (pool_size (heaps st n)) - 48"
    using d(15) u g(1,2) by (simp add: bs cs)
qed
section \<open>What no routine changes\<close>

lemma shape_upd [simp]: "mh_shape n (upd_heap m f st) = (if n = m then (start_addr (f (heaps st n)), pool_size (f (heaps st n))) else mh_shape n st)"
  by (simp add: mh_shape_def)

lemma shape_simps [simp]:
  "mh_shape n (new_item m p st) = mh_shape n st" "mh_shape n (note_usage m st) = mh_shape n st"
  "mh_shape n (st\<lparr>magic := a\<rparr>) = mh_shape n st" "mh_shape n (st\<lparr>pool_ptr := b\<rparr>) = mh_shape n st"
  "mh_shape n (st\<lparr>blk := c\<rparr>) = mh_shape n st" "mh_shape n (st\<lparr>fre := c\<rparr>) = mh_shape n st"
  by (simp_all add: mh_shape_def note_usage_def upd_heap_def new_item_def)

lemma shape_heap: "start_addr (heaps st n) = fst (mh_shape n st)" "pool_size (heaps st n) = snd (mh_shape n st)"
  by (simp_all add: mh_shape_def)

lemma shape_take: "mh_shape n (mh_take m sz p z st) = mh_shape n st"
  by (simp add: mh_take_def Let_def shape_heap)

lemma shape_release: "mh_shape n (mh_release m p st) = mh_shape n st"
  by (simp add: mh_release_def mh_merge_left_def mh_merge_right_def Let_def shape_heap split: prod.split)

lemma shape_grow: "mh_shape n (mh_grow m p z o' st) = mh_shape n st"
  by (simp add: mh_grow_def Let_def shape_heap)

lemma shape_shrink: "mh_shape n (mh_shrink m p z st) = mh_shape n st"
  by (simp add: mh_shrink_def Let_def shape_heap)

lemma shape_alloc: "mh_alloc m sz st = Some (r, st') \<Longrightarrow> mh_shape n st' = mh_shape n st"
  by (auto simp: mh_alloc_def Let_def shape_take split: if_splits)

lemma shape_free: "mh_free p st = Some st' \<Longrightarrow> mh_shape n st' = mh_shape n st"
  by (auto simp: mh_free_def Let_def shape_release split: if_splits)

lemma shape_realloc: "mh_realloc m p sz st = Some (r, c, st') \<Longrightarrow> mh_shape n st' = mh_shape n st"
proof (cases "sz = 0 \<or> p = 0")
  case True
  assume "mh_realloc m p sz st = Some (r, c, st')"
  with True show ?thesis by (auto simp: mh_realloc_def Let_def shape_alloc shape_free split: if_splits)
next
  case False
  assume "mh_realloc m p sz st = Some (r, c, st')"
  with False consider "st' = st" | (g) a b d where "st' = mh_grow m a b d st" | (s) a b where "st' = mh_shrink m a b st"
    | (a) z x where "mh_alloc m z st = Some (x, st')"
    | (af) z x s where "mh_alloc m z st = Some (x, s)" "mh_free p s = Some st'"
    unfolding mh_realloc_def Let_def
    by (simp split: if_split_asm option.split_asm) blast+
  then show ?thesis by cases (simp_all add: shape_grow shape_shrink shape_alloc shape_free)
qed
section \<open>What each routine does\<close>

lemma mh_alloc_spec:
  assumes ok: "mh_ok n st" and sz: "unat sz + 3 < 2 ^ 32"
  shows "\<exists>r st'. mh_alloc n sz st = Some (r, st') \<and> mh_ok n st' \<and> mh_shape n st' = mh_shape n st \<and>
    (case r of
       None \<Rightarrow> st' = st \<and> (available_size (heaps st n) \<le> mh_request sz \<or>
         (\<forall>b \<in> set (mh_blocks n st). used st b \<or> MEMITEM_SIZE st b < mh_request sz))
     | Some p \<Rightarrow> \<exists>e. mh_allocated n st' = insert (p, e) (mh_allocated n st) \<and> unat p + unat sz \<le> unat e \<and>
         p \<notin> fst ` mh_allocated n st \<and> (\<forall>a \<in> mh_allocated n st. mh_apart (p, e) a))"
proof -
  obtain fs where at: "mh_at n (mh_blocks n st) fs st" using mh_okD [OF ok] by blast
  have A: "mh_allocated n st = hand (used st) (mh_blocks n st)" by (simp add: mh_allocated_def)
  have fs: "set fs = {b \<in> set (mh_blocks n st). \<not> used st b}" using at mh_preD(10) by (fastforce simp: mh_at_def)
  from mh_alloc_at [OF at sz] show ?thesis
  proof
    assume "\<exists>b e bs' fs' st'. mh_alloc n sz st = Some (Some b, st') \<and> mh_at n bs' fs' st' \<and>
      hand (used st') bs' = insert (b, e) (hand (used st) (mh_blocks n st)) \<and> unat b + unat (mh_request sz) \<le> unat e \<and>
      (\<exists>p. b = p + 24 \<and> p \<in> set (mh_blocks n st) \<and> \<not> used st p \<and> unat b = unat p + 24)"
    then obtain b e bs' fs' st' p where m: "mh_alloc n sz st = Some (Some b, st')" "mh_at n bs' fs' st'"
      "hand (used st') bs' = insert (b, e) (hand (used st) (mh_blocks n st))" "unat b + unat (mh_request sz) \<le> unat e"
      "b = p + 24" "\<not> used st p" by blast
    have ok': "mh_ok n st'" and A': "mh_allocated n st' = insert (b, e) (mh_allocated n st)"
      using mh_okI [OF m(2)] m(3) by (simp_all add: A)
    have new: "b \<notin> fst ` mh_allocated n st" unfolding A m(5) by (rule hand_not_free) (rule m(6))
    have "mh_apart (b, e) a" if a: "a \<in> mh_allocated n st" for a
      using mh_allocated_apart [OF ok', of b e "fst a" "snd a"] a new unfolding A' by (cases a) force
    moreover have "unat b + unat sz \<le> unat e" using m(4) mh_request_size(2) [OF sz] by linarith
    ultimately show ?thesis
      using m(1) ok' A' new shape_alloc [OF m(1)] by (intro exI [of _ "Some b"] exI [of _ st']) auto
  next
    assume "mh_alloc n sz st = Some (None, st) \<and> (available_size (heaps st n) \<le> mh_request sz \<or>
      (\<forall>p \<in> set fs. MEMITEM_SIZE st p < mh_request sz))"
    then show ?thesis using ok by (intro exI [of _ None] exI [of _ st]) (auto simp: fs)
  qed
qed

lemma mh_free_spec:
  assumes ok: "mh_ok n st" and a: "(p, e) \<in> mh_allocated n st"
  shows "\<exists>st'. mh_free p st = Some st' \<and> mh_ok n st' \<and> mh_shape n st' = mh_shape n st \<and>
    mh_allocated n st' = mh_allocated n st - {(p, e)} \<and> mh_free p st' = None"
proof -
  obtain fs where at: "mh_at n (mh_blocks n st) fs st" using mh_okD [OF ok] by blast
  obtain st' bs' fs' where f: "mh_free p st = Some st'" "mh_at n bs' fs' st'"
    "hand (used st') bs' = hand (used st) (mh_blocks n st) - {(p, e)}" "mh_free p st' = None"
    using mh_free_at [OF at a [unfolded mh_allocated_def]] by blast
  then show ?thesis using mh_okI [OF f(2)] shape_free [OF f(1)] by (auto simp: mh_allocated_def)
qed

lemma mh_realloc_spec:
  assumes ok: "mh_ok n st" and a: "(p, e) \<in> mh_allocated n st" and sz: "sz \<noteq> 0" "unat sz + 15 < 2 ^ 32"
  shows "\<exists>r c st'. mh_realloc n p sz st = Some (r, c, st') \<and> mh_ok n st' \<and> mh_shape n st' = mh_shape n st \<and>
    (case r of
       None \<Rightarrow> st' = st \<and> c = None
     | Some q \<Rightarrow> \<exists>f. mh_allocated n st' = insert (q, f) (mh_allocated n st - {(p, e)}) \<and>
         unat q + unat sz \<le> unat f \<and>
         (if q = p then c = None
          else q \<notin> fst ` mh_allocated n st \<and> mh_apart (q, f) (p, e) \<and>
            (\<exists>k. c = Some (q, p, k) \<and> unat k = unat e - unat p \<and> unat k < unat f - unat q)))"
proof -
  obtain fs where at: "mh_at n (mh_blocks n st) fs st" using mh_okD [OF ok] by blast
  obtain r c st' bs' fs' where m: "mh_realloc n p sz st = Some (r, c, st')" "mh_at n bs' fs' st'"
    and r: "case r of
       None \<Rightarrow> st' = st \<and> c = None
     | Some q \<Rightarrow> \<exists>f. hand (used st') bs' = insert (q, f) (hand (used st) (mh_blocks n st) - {(p, e)}) \<and>
         unat q + unat sz \<le> unat f \<and>
         (if q = p then c = None
          else q \<notin> fst ` hand (used st) (mh_blocks n st) \<and> (unat f + 24 \<le> unat p \<or> unat e + 24 \<le> unat q) \<and>
            (\<exists>k. c = Some (q, p, k) \<and> unat k = unat e - unat p \<and> unat k < unat f - unat q))"
    using mh_realloc_at [OF at a [unfolded mh_allocated_def] sz] by blast
  have A: "hand (used st) (mh_blocks n st) = mh_allocated n st" "hand (used st') bs' = mh_allocated n st'"
    and ok': "mh_ok n st'" using mh_okI [OF m(2)] by (simp_all add: mh_allocated_def)
  show ?thesis
    by (intro exI [of _ r] exI [of _ c] exI [of _ st'] conjI)
      (use m(1) r [unfolded A] ok' shape_realloc [OF m(1)] in \<open>simp_all only: prod.case\<close>)
qed
section \<open>Sequences of requests\<close>

definition mh_resize :: "nat \<Rightarrow> u32 \<Rightarrow> u32 \<Rightarrow> mstore \<Rightarrow> (u32 option \<times> mstore) option" where
  "mh_resize n p sz st = do { (r, _, st) \<leftarrow> mh_realloc n p sz st; Some (r, st) }"

abbreviation memheap_request :: "u32 request \<Rightarrow> bool" where
  "memheap_request \<equiv> sized (\<lambda>z. unat z + 3 < 2 ^ 32) (\<lambda>z. z \<noteq> 0 \<and> unat z + 15 < 2 ^ 32)"

interpretation memheap: allocator "mh_alloc n" mh_free "mh_resize n" "mh_allocated n" "mh_ok n" "mh_shape n"
  "\<lambda>z :: u32. unat z + 3 < 2 ^ 32" "\<lambda>z :: u32. z \<noteq> 0 \<and> unat z + 15 < 2 ^ 32" mh_apart
  for n
proof unfold_locales
  fix s a b assume "mh_ok n s" "a \<in> mh_allocated n s" "b \<in> mh_allocated n s"
  then show "fst a = fst b \<and> a = b \<or> fst a \<noteq> fst b \<and> mh_apart a b"
    using mh_allocated_apart [of n s "fst a" "snd a" "fst b" "snd b"] by (cases a; cases b) auto
next
  fix s and z :: u32 assume "mh_ok n s" "unat z + 3 < 2 ^ 32"
  from mh_alloc_spec [OF this] obtain r s' where m: "mh_alloc n z s = Some (r, s')" "mh_ok n s'" "mh_shape n s' = mh_shape n s"
    and c: "case r of
       None \<Rightarrow> s' = s \<and> (available_size (heaps s n) \<le> mh_request z \<or>
         (\<forall>b \<in> set (mh_blocks n s). used s b \<or> MEMITEM_SIZE s b < mh_request z))
     | Some p \<Rightarrow> \<exists>e. mh_allocated n s' = insert (p, e) (mh_allocated n s) \<and> unat p + unat z \<le> unat e \<and>
         p \<notin> fst ` mh_allocated n s \<and> (\<forall>a \<in> mh_allocated n s. mh_apart (p, e) a)" by blast
  then show "\<exists>r s'. mh_alloc n z s = Some (r, s') \<and> mh_ok n s' \<and> mh_shape n s' = mh_shape n s \<and>
      (case r of None \<Rightarrow> mh_allocated n s' = mh_allocated n s
       | Some p \<Rightarrow> p \<notin> fst ` mh_allocated n s \<and> (\<exists>e. mh_allocated n s' = insert (p, e) (mh_allocated n s)))"
    by (intro exI [of _ r] exI [of _ s']) (cases r; auto)
next
  fix s p e assume "mh_ok n s" "(p, e) \<in> mh_allocated n s"
  from mh_free_spec [OF this] show "\<exists>s'. mh_free p s = Some s' \<and> mh_ok n s' \<and> mh_shape n s' = mh_shape n s \<and>
      mh_allocated n s' = mh_allocated n s - {(p, e)}" by blast
next
  fix s p e and z :: u32 assume h: "mh_ok n s" "(p, e) \<in> mh_allocated n s" and z: "z \<noteq> 0 \<and> unat z + 15 < 2 ^ 32"
  from mh_realloc_spec [OF h, of z] z obtain r c s' where m: "mh_realloc n p z s = Some (r, c, s')" "mh_ok n s'"
      "mh_shape n s' = mh_shape n s"
    and r: "case r of
       None \<Rightarrow> s' = s \<and> c = None
     | Some q \<Rightarrow> \<exists>f. mh_allocated n s' = insert (q, f) (mh_allocated n s - {(p, e)}) \<and>
         unat q + unat z \<le> unat f \<and>
         (if q = p then c = None
          else q \<notin> fst ` mh_allocated n s \<and> mh_apart (q, f) (p, e) \<and>
            (\<exists>k. c = Some (q, p, k) \<and> unat k = unat e - unat p \<and> unat k < unat f - unat q))" by blast
  have "case r of None \<Rightarrow> mh_allocated n s' = mh_allocated n s
      | Some q \<Rightarrow> q \<notin> fst ` (mh_allocated n s - {(p, e)}) \<and> (\<exists>f. mh_allocated n s' = insert (q, f) (mh_allocated n s - {(p, e)}))"
  proof (cases r)
    case (Some q)
    then obtain f where f: "mh_allocated n s' = insert (q, f) (mh_allocated n s - {(p, e)})"
      "q = p \<or> q \<notin> fst ` mh_allocated n s" using r by (auto split: if_splits)
    have "q \<noteq> g" if "(g, k) \<in> mh_allocated n s - {(p, e)}" for g k
      using f(2) that mh_allocated_apart [OF h, of g k] by force
    then have "q \<notin> fst ` (mh_allocated n s - {(p, e)})" by force
    then show ?thesis using f(1) Some by auto
  qed (use r in simp)
  then show "\<exists>r s'. mh_resize n p z s = Some (r, s') \<and> mh_ok n s' \<and> mh_shape n s' = mh_shape n s \<and>
      (case r of None \<Rightarrow> mh_allocated n s' = mh_allocated n s
       | Some q \<Rightarrow> q \<notin> fst ` (mh_allocated n s - {(p, e)}) \<and>
           (\<exists>f. mh_allocated n s' = insert (q, f) (mh_allocated n s - {(p, e)})))"
    using m by (intro exI [of _ r] exI [of _ s']) (simp add: mh_resize_def)
qed
section \<open>Concrete heaps\<close>

text \<open>A pool of 256 bytes at address 4096; then with one area of 40 bytes.\<close>

definition mh0 :: mstore where
  "mh0 = rt_memheap_init 0 4096 256
     \<lparr>magic = (\<lambda>_. 0), pool_ptr = (\<lambda>_. None), blk = \<lparr>lnext = (\<lambda>_. 0), lprev = (\<lambda>_. 0)\<rparr>,
      fre = \<lparr>lnext = (\<lambda>_. 0), lprev = (\<lambda>_. 0)\<rparr>,
      heaps = (\<lambda>_. \<lparr>start_addr = 0, pool_size = 0, available_size = 0, max_used_size = 0,
        mh_block_list = 0, free_list = 0, free_header = 64\<rparr>)\<rparr>"

definition mh1 :: mstore where "mh1 = mh_take 0 40 4096 208 mh0"

lemma mh0_at: "mh_at 0 [4096, 4328] [4096] mh0" "hand (used mh0) [4096, 4328] = {}"
proof -
  let ?s = "\<lparr>magic = (\<lambda>_. 0), pool_ptr = (\<lambda>_. None), blk = \<lparr>lnext = (\<lambda>_. 0), lprev = (\<lambda>_. 0)\<rparr>,
      fre = \<lparr>lnext = (\<lambda>_. 0), lprev = (\<lambda>_. 0)\<rparr>,
      heaps = (\<lambda>_. \<lparr>start_addr = 0, pool_size = 0, available_size = 0, max_used_size = 0,
        mh_block_list = 0, free_list = 0, free_header = 64\<rparr>)\<rparr> :: mstore"
  have a: "RT_ALIGN_DOWN 256 RT_ALIGN_SIZE = (256 :: u32)" by (simp add: RT_ALIGN_DOWN_def RT_ALIGN_SIZE_def)
  show "mh_at 0 [4096, 4328] [4096] mh0" "hand (used mh0) [4096, 4328] = {}"
    using mh_init_at(1,2) [of 4096 256 ?s 0] unfolding mh0_def a by simp_all
qed

lemma mh0_ok: "mh_ok 0 mh0" "mh_allocated 0 mh0 = {}" "mh_blocks 0 mh0 = [4096, 4328]"
  using mh_okI [OF mh0_at(1)] mh0_at(2) by simp_all

lemma mh0_item: "MEMITEM_SIZE mh0 4096 = 208" "lnext (fre mh0) 64 = 4096" "free_list (heaps mh0 0) = 64"
    "available_size (heaps mh0 0) = 208"
  by (simp_all add: mh0_def rt_memheap_init_def MEMITEM_SIZE_def Let_def put_first_def drop_links_def
    RT_ALIGN_DOWN_def RT_ALIGN_SIZE_def)

lemma mh0_alloc:
  assumes "mh_request sz \<le> 207"
  shows "mh_alloc 0 sz mh0 = Some (Some 4120, mh_take 0 (mh_request sz) 4096 208 mh0)"
proof -
  have r: "mh_request sz < 208" "mh_request sz \<noteq> 0"
    using assms by (auto simp: mh_request_def Let_def word_le_nat_alt word_less_nat_alt split: if_splits)
  have "mh_search 64 (mh_request sz) mh0 4096 208 = Some (4096, 208)"
    using r(1) by (subst mh_search.simps) auto
  moreover have "0 < mh_request sz" using r(2) by (simp add: word_gt_0)
  ultimately have "mh_search 64 (mh_request sz) mh0 4096 0 = Some (4096, 208)"
    using r by (subst mh_search.simps) (auto simp: mh0_item)
  then show ?thesis using r(1) by (simp add: mh_alloc_def Let_def mh0_item less_imp_le)
qed

lemma request_40: "mh_request 40 = 40" "mh_request 0xFFFFFFFD = 12" "mh_request 208 = 208" "mh_request 0xFFFFFFF4 = 0xFFFFFFF4"
  by (simp_all add: mh_request_def RT_ALIGN_def RT_ALIGN_SIZE_def Let_def)

lemma mh1_ok: "mh_ok 0 mh1" "\<exists>e. mh_allocated 0 mh1 = {(4120, e)}"
proof -
  have a: "mh_alloc 0 40 mh0 = Some (Some 4120, mh1)" using mh0_alloc [of 40] by (simp add: request_40 mh1_def)
  show "mh_ok 0 mh1" "\<exists>e. mh_allocated 0 mh1 = {(4120, e)}"
    using mh_alloc_spec [OF mh0_ok(1), of 40] a by (auto simp: mh0_ok(2))
qed
section \<open>The properties\<close>

text \<open>C28: On a pool that \<^verbatim>\<open>rt_memheap_init\<close> set up - with room for two headers, not wrapped around the
  end of the addresses, and with the control block outside - every sequence of calls of
  \<^verbatim>\<open>rt_memheap_alloc\<close>, \<^verbatim>\<open>rt_memheap_free\<close> and \<^verbatim>\<open>rt_memheap_realloc\<close> in which a client gives back or
  changes only areas that it holds runs through: no assertion fails, no search goes on for ever.  The
  areas that are handed out are those that the client holds, and lie apart by a header; when all are
  given back, the pool is one free block again.\<close>

theorem memheap_clients:
  assumes start: "start \<noteq> 0" and z: "48 \<le> unat (RT_ALIGN_DOWN sz RT_ALIGN_SIZE)"
      "unat start + unat (RT_ALIGN_DOWN sz RT_ALIGN_SIZE) < 2 ^ 32"
    and hdr: "unat (free_header (heaps st n)) < unat start \<or>
      unat start + unat (RT_ALIGN_DOWN sz RT_ALIGN_SIZE) \<le> unat (free_header (heaps st n))"
    and rs: "\<forall>r \<in> set rs. memheap_request r"
  shows "\<exists>hs st'. serve_all (mh_alloc n) mh_free (mh_resize n) rs ([], rt_memheap_init n start sz st) = Some (hs, st') \<and>
    mh_ok n st' \<and> start_addr (heaps st' n) = start \<and> pool_size (heaps st' n) = RT_ALIGN_DOWN sz RT_ALIGN_SIZE \<and>
    distinct hs \<and> fst ` mh_allocated n st' = set hs \<and>
    (\<forall>x \<in> mh_allocated n st'. \<forall>y \<in> mh_allocated n st'. x \<noteq> y \<longrightarrow> mh_apart x y) \<and>
    (hs = [] \<longrightarrow> mh_blocks n st' = [start, start + (RT_ALIGN_DOWN sz RT_ALIGN_SIZE - 24)] \<and>
       unat (available_size (heaps st' n)) = unat (RT_ALIGN_DOWN sz RT_ALIGN_SIZE) - 48)"
proof -
  let ?s = "rt_memheap_init n start sz st"
  note i = mh_init_at [OF start z hdr]
  have ok: "mh_ok n ?s" "mh_allocated n ?s = {}" using mh_okI [OF i(1)] i(2) by simp_all
  have sh: "mh_shape n ?s = (start, RT_ALIGN_DOWN sz RT_ALIGN_SIZE)"
    by (simp add: mh_shape_def rt_memheap_init_def Let_def)
  obtain hs st' where s: "serve_all (mh_alloc n) mh_free (mh_resize n) rs ([], ?s) = Some (hs, st')" "mh_ok n st'"
      "mh_shape n st' = mh_shape n ?s" "distinct hs" "fst ` mh_allocated n st' = set hs"
      "\<forall>x \<in> mh_allocated n st'. \<forall>y \<in> mh_allocated n st'. x \<noteq> y \<longrightarrow> mh_apart x y"
    using memheap.requests_ok [OF ok rs] by blast
  have h: "start_addr (heaps st' n) = start" "pool_size (heaps st' n) = RT_ALIGN_DOWN sz RT_ALIGN_SIZE"
    using s(3) sh by (simp_all add: mh_shape_def)
  have "mh_blocks n st' = [start, start + (RT_ALIGN_DOWN sz RT_ALIGN_SIZE - 24)] \<and>
       unat (available_size (heaps st' n)) = unat (RT_ALIGN_DOWN sz RT_ALIGN_SIZE) - 48" if "hs = []"
    using mh_all_free [OF s(2)] s(5) that by (simp add: h)
  then show ?thesis using s(1,2,4-6) h by blast
qed

theorem memheap_clients_witness:
  "\<exists>hs st'. serve_all (mh_alloc 0) mh_free (mh_resize 0) [Ask 40, Ask 30, Give 1, Change 0 90] ([], mh0) = Some (hs, st') \<and>
    mh_ok 0 st'"
proof -
  let ?s = "\<lparr>magic = (\<lambda>_. 0), pool_ptr = (\<lambda>_. None), blk = \<lparr>lnext = (\<lambda>_. 0), lprev = (\<lambda>_. 0)\<rparr>,
      fre = \<lparr>lnext = (\<lambda>_. 0), lprev = (\<lambda>_. 0)\<rparr>,
      heaps = (\<lambda>_. \<lparr>start_addr = 0, pool_size = 0, available_size = 0, max_used_size = 0,
        mh_block_list = 0, free_list = 0, free_header = 64\<rparr>)\<rparr> :: mstore"
  let ?rs = "[Ask 40, Ask 30, Give 1, Change 0 90] :: u32 request list"
  have rs: "\<forall>r \<in> set ?rs. memheap_request r" by simp
  have "RT_ALIGN_DOWN 256 RT_ALIGN_SIZE = (256 :: u32)" by (simp add: RT_ALIGN_DOWN_def RT_ALIGN_SIZE_def)
  then show ?thesis unfolding mh0_def using memheap_clients [of 4096 256 ?s 0, OF _ _ _ _ rs] by fastforce
qed

text \<open>\<^verbatim>\<open>rt_memheap_alloc\<close> on an intact heap: it hands out one new area with at least the bytes asked
  for, which lies a header apart from every other one; or it returns \<^verbatim>\<open>RT_NULL\<close>, changes nothing, and
  either the request is not smaller than what is available or every free block is too small.\<close>

theorem memheap_alloc_hands_out:
  assumes ok: "mh_ok n st" and sz: "unat sz + 3 < 2 ^ 32"
  shows "\<exists>r st'. mh_alloc n sz st = Some (r, st') \<and> mh_ok n st' \<and> mh_shape n st' = mh_shape n st \<and>
    (case r of
       None \<Rightarrow> st' = st \<and> (available_size (heaps st n) \<le> mh_request sz \<or>
         (\<forall>b \<in> set (mh_blocks n st). used st b \<or> MEMITEM_SIZE st b < mh_request sz))
     | Some p \<Rightarrow> \<exists>e. mh_allocated n st' = insert (p, e) (mh_allocated n st) \<and> unat p + unat sz \<le> unat e \<and>
         p \<notin> fst ` mh_allocated n st \<and> (\<forall>a \<in> mh_allocated n st. mh_apart (p, e) a))"
  by (rule mh_alloc_spec [OF assms])

theorem memheap_alloc_hands_out_witness:
  "\<exists>r st'. mh_alloc 0 100 mh1 = Some (r, st') \<and> mh_ok 0 st'"
  using memheap_alloc_hands_out [OF mh1_ok(1), of 100] by fastforce

text \<open>C29: \<^verbatim>\<open>rt_memheap_free\<close> of an area that is handed out takes back exactly that area, and merges it with
  the free blocks around it.  Freeing it once more fails an assertion.\<close>

theorem memheap_free_takes_back:
  assumes ok: "mh_ok n st" and a: "(p, e) \<in> mh_allocated n st"
  shows "\<exists>st'. mh_free p st = Some st' \<and> mh_ok n st' \<and> mh_shape n st' = mh_shape n st \<and>
    mh_allocated n st' = mh_allocated n st - {(p, e)} \<and> mh_free p st' = None"
  by (rule mh_free_spec [OF assms])

theorem memheap_free_takes_back_witness:
  "\<exists>st'. mh_free 4120 mh1 = Some st' \<and> mh_allocated 0 st' = {} \<and> mh_free 4120 st' = None"
proof -
  obtain e where "mh_allocated 0 mh1 = {(4120, e)}" using mh1_ok(2) by blast
  then show ?thesis using memheap_free_takes_back [OF mh1_ok(1), of 4120 e] by auto
qed

text \<open>C30: \<^verbatim>\<open>rt_memheap_realloc\<close> of an area that is handed out, to a size that does not wrap around: it
  returns \<^verbatim>\<open>RT_NULL\<close> and changes nothing, or the area is replaced by one with at least the bytes asked
  for - in place, or at a new area apart from the old one, into which all bytes of the old one are
  copied.\<close>

theorem memheap_realloc_replaces:
  assumes ok: "mh_ok n st" and a: "(p, e) \<in> mh_allocated n st" and sz: "sz \<noteq> 0" "unat sz + 15 < 2 ^ 32"
  shows "\<exists>r c st'. mh_realloc n p sz st = Some (r, c, st') \<and> mh_ok n st' \<and> mh_shape n st' = mh_shape n st \<and>
    (case r of
       None \<Rightarrow> st' = st \<and> c = None
     | Some q \<Rightarrow> \<exists>f. mh_allocated n st' = insert (q, f) (mh_allocated n st - {(p, e)}) \<and>
         unat q + unat sz \<le> unat f \<and>
         (if q = p then c = None
          else q \<notin> fst ` mh_allocated n st \<and> mh_apart (q, f) (p, e) \<and>
            (\<exists>k. c = Some (q, p, k) \<and> unat k = unat e - unat p \<and> unat k < unat f - unat q)))"
  by (rule mh_realloc_spec [OF assms])

theorem memheap_realloc_replaces_witness:
  "\<exists>r c st'. mh_realloc 0 4120 60 mh1 = Some (r, c, st') \<and> mh_ok 0 st'"
proof -
  obtain e where "mh_allocated 0 mh1 = {(4120, e)}" using mh1_ok(2) by blast
  then show ?thesis using memheap_realloc_replaces [OF mh1_ok(1), of 4120 e 60] by fastforce
qed

section \<open>Boundary cases\<close>

text \<open>As in the small memory allocator the size is rounded up before it is compared, and wraps around.
  A request for all that is available fails.\<close>

theorem memheap_size_wraps: "map_option fst (mh_alloc 0 0xFFFFFFFD mh0) = Some (Some 4120)"
  using mh0_alloc [of "0xFFFFFFFD"] by (simp add: request_40)

theorem memheap_exact_fit_fails: "mh_alloc 0 208 mh0 = Some (None, mh0)"
  by (simp add: mh_alloc_def Let_def request_40 mh0_item)

text \<open>\<^verbatim>\<open>rt_memheap_realloc\<close> adds \<^verbatim>\<open>RT_MEMHEAP_MINIALLOC\<close> to the size without a check: a request for almost
  four gigabytes is taken to fit in the free block behind, and the header of a new free block is
  written into the header of the block itself.\<close>

theorem memheap_realloc_wraps:
  "\<exists>st'. mh_realloc 0 4120 0xFFFFFFF4 mh1 = Some (Some 4120, None, st') \<and> lnext (blk st') 4096 = 4108"
proof -
  have m: "MEMITEM_SIZE mh1 4096 = 40" "lnext (blk mh1) 4096 = 4160" "\<not> used mh1 4160" "MEMITEM_SIZE mh1 4160 = 144"
    "lnext (blk mh1) 4160 = 4328"
    by (simp_all add: mh1_def mh_take_def mh0_def rt_memheap_init_def MEMITEM_SIZE_def Let_def put_first_def
      drop_links_def link_behind_def RT_ALIGN_DOWN_def RT_ALIGN_SIZE_def RT_MEMHEAP_IS_USED_def)
  have "mh_realloc 0 4120 0xFFFFFFF4 mh1 = Some (Some 4120, None, mh_grow 0 4120 0xFFFFFFF4 40 mh1)"
    using m by (simp add: mh_realloc_def Let_def request_40)
  moreover have "lnext (blk (mh_grow 0 4120 0xFFFFFFF4 40 mh1)) 4096 = 4108"
    using m by (simp add: mh_grow_def Let_def link_behind_def take_off_def)
  ultimately show ?thesis by blast
qed

end
