(* ===== verification/Cmd.thy ===== *)
theory Cmd
  imports Object Kservice_Heap Msh
begin

text \<open>
  The commands of \<^verbatim>\<open>finsh/cmd.c\<close> that list the objects of the kernel, with \<^verbatim>\<open>rt_kprintf\<close> of
  \<^verbatim>\<open>src/kservice.c\<close> and \<^verbatim>\<open>rt_hw_console_output\<close> of \<^verbatim>\<open>bsp/board.c\<close>.  A command walks through the objects of
  a class in batches of eight, with interrupts disabled only while it collects a batch and while it
  looks at the type of one object; what the kernel is at each of these points is an argument of the
  commands, a function from the number of the point.  The address space has no stacks, so what
  \<^verbatim>\<open>list_thread\<close> prints of them is an argument too.
\<close>

section \<open>The console\<close>

text \<open>\<open>rt_log_buf\<close> is the address of the buffer, \<open>sent\<close> what has been written to the device.\<close>

record console =
  rt_log_buf :: u32
  con_mem :: memory
  sent :: "u8 list"

partial_function (option) rt_hw_console_output :: "u32 \<Rightarrow> console \<Rightarrow> console option" where
  "rt_hw_console_output str c =
     (if con_mem c str \<noteq> 0
      then rt_hw_console_output (str + 1)
        (c\<lparr>sent := sent c @ con_mem c str # (if con_mem c str = 10 then [13] else [])\<rparr>)
      else Some c)"

text \<open>Without a console device.\<close>

definition RT_CONSOLEBUF_SIZE :: u32 where "RT_CONSOLEBUF_SIZE = 256"

definition rt_kprintf :: "string \<Rightarrow> arg list \<Rightarrow> console \<Rightarrow> console option" where
  "rt_kprintf fmt vs c = do {
     (len, M) \<leftarrow> rt_vsnprintf (rt_log_buf c) (RT_CONSOLEBUF_SIZE - 1) (map of_char fmt) vs (con_mem c);
     rt_hw_console_output (rt_log_buf c) (c\<lparr>con_mem := M\<rparr>)
   }"

section \<open>The walk through a container\<close>

definition LIST_FIND_OBJ_NR :: nat where "LIST_FIND_OBJ_NR = 8"

text \<open>The objects that are found, and the last one of them if there may be more.\<close>

definition list_get_next :: "oref option \<Rightarrow> u8 \<Rightarrow> nat \<Rightarrow> kernel \<Rightarrow> oref option \<times> oref list" where
  "list_get_next current cls nr s =
     (if nr = 0 \<or> cls = 0 then (None, [])
      else
        let rest = (case current of
              None \<Rightarrow> Some (container s cls)
            | Some x \<Rightarrow>
                if rt_object_get_type x s \<noteq> cls then None
                else Some (tl (dropWhile (\<lambda>y. y \<noteq> x) (container s cls))))
        in case rest of
             None \<Rightarrow> (None, [])
           | Some xs \<Rightarrow> (if nr \<le> length xs then Some (xs ! (nr - 1)) else None, take nr xs))"

type_synonym history = "nat \<Rightarrow> kernel"
type_synonym shower = "oref \<Rightarrow> kernel \<Rightarrow> console \<Rightarrow> console option"

text \<open>The loop over a batch: an object that is no longer of the class is passed over.\<close>

fun list_batch :: "shower \<Rightarrow> u8 \<Rightarrow> history \<Rightarrow> nat \<Rightarrow> oref list \<Rightarrow> console \<Rightarrow> (nat \<times> console) option" where
  "list_batch show cls e t [] c = Some (t, c)"
| "list_batch show cls e t (x # xs) c = do {
     c \<leftarrow> (if rt_object_get_type x (e t) \<noteq> cls then Some c else show x (e (Suc t)) c);
     list_batch show cls e (t + 2) xs c
   }"

partial_function (option) list_objects ::
  "shower \<Rightarrow> u8 \<Rightarrow> history \<Rightarrow> nat \<Rightarrow> oref option \<Rightarrow> console \<Rightarrow> (nat \<times> console) option" where
  "list_objects show cls e t next c = do {
     let (next, found) = list_get_next next cls LIST_FIND_OBJ_NR (e t);
     (t, c) \<leftarrow> list_batch show cls e (Suc t) found c;
     (if next \<noteq> None then list_objects show cls e t next c else Some (t, c))
   }"

section \<open>What is printed of an object\<close>

abbreviation name_of :: "oref \<Rightarrow> kernel \<Rightarrow> arg" where
  "name_of x s \<equiv> Str (Some (map of_char (oname (objs s x))))"

abbreviation num :: "('a :: len) word \<Rightarrow> arg" where "num w \<equiv> Word (ucast w)"
abbreviation maxlen :: arg where "maxlen \<equiv> Word 8"
abbreviation queue_len :: "ipcq \<Rightarrow> kernel \<Rightarrow> arg" where
  "queue_len q s \<equiv> Word (of_nat (length (queues s (Suspend q))))"

fun object_split :: "nat \<Rightarrow> console \<Rightarrow> console option" where
  "object_split 0 c = Some c"
| "object_split (Suc len) c = do { c \<leftarrow> rt_kprintf ''-'' [] c; object_split len c }"

text \<open>\<^verbatim>\<open>name[RT_NAME_MAX]\<close> is followed by the type and the flags of the object: the string that starts
  at the name, unless it runs into the pointers behind them.\<close>

definition name_string :: "oref \<Rightarrow> kernel \<Rightarrow> u8 list option" where
  "name_string x s =
     (let r = objs s x; nm = map of_char (oname r)
      in if length nm < RT_NAME_MAX \<or> otype r = 0 then Some nm
         else if oflag r = 0 then Some (nm @ [otype r]) else None)"

fun show_names :: "tid list \<Rightarrow> kernel \<Rightarrow> console \<Rightarrow> console option" where
  "show_names [] s c = Some c"
| "show_names (t # ts) s c = do {
     nm \<leftarrow> name_string (OThread t) s;
     c \<leftarrow> rt_kprintf ''%s'' [Str (Some nm)] c;
     c \<leftarrow> (if ts \<noteq> [] then rt_kprintf ''/'' [] c else Some c);
     show_names ts s c
   }"

definition show_wait_queue :: "ipcq \<Rightarrow> kernel \<Rightarrow> console \<Rightarrow> console option" where
  "show_wait_queue q s c = show_names (queues s (Suspend q)) s c"

definition list_header :: "string \<Rightarrow> string \<Rightarrow> string \<Rightarrow> console \<Rightarrow> console option" where
  "list_header title columns line c = do {
     c \<leftarrow> rt_kprintf (''%-*.s'' @ columns) [maxlen, Str (Some (map of_char title))] c;
     c \<leftarrow> object_split RT_NAME_MAX c;
     rt_kprintf line [] c
   }"
abbreviation nl :: string where "nl \<equiv> [CHR 0x0A]"

text \<open>\<^verbatim>\<open>thread->stat\<close> and \<^verbatim>\<open>RT_THREAD_RUNNING\<close>.\<close>

definition RT_THREAD_RUNNING :: u8 where "RT_THREAD_RUNNING = 0x03"

definition stat_text :: "u8 \<Rightarrow> string" where
  "stat_text st =
     (if st = RT_THREAD_READY then '' ready  ''
      else if st = RT_THREAD_SUSPEND then '' suspend''
      else if st = RT_THREAD_INIT then '' init   ''
      else if st = RT_THREAD_CLOSE then '' close  ''
      else if st = RT_THREAD_RUNNING then '' running'' else [])"

text \<open>The first byte of a stack that has been written to.\<close>

partial_function (option) stack_mark :: "memory \<Rightarrow> u32 \<Rightarrow> u32 option" where
  "stack_mark M ptr = (if M ptr = of_char CHR ''#'' then stack_mark M (ptr + 1) else Some ptr)"

text \<open>\<open>stk\<close>: the stack pointer, the stack and its size.\<close>

definition show_thread :: "(tid \<Rightarrow> u32 \<times> u32 \<times> u32) \<Rightarrow> shower" where
  "show_thread stk x s c = (case x of
     OThread t \<Rightarrow> do {
       let th = threads s t;
       c \<leftarrow> rt_kprintf ''%-*.*s %3d '' [maxlen, maxlen, name_of x s, num (current_priority th)] c;
       c \<leftarrow> (let txt = stat_text (stat th AND RT_THREAD_STAT_MASK)
             in if txt = [] then Some c else rt_kprintf txt [] c);
       let (sp, stack_addr, stack_size) = stk t;
       ptr \<leftarrow> stack_mark (con_mem c) stack_addr;
       (if stack_size = 0 then None else Some ());
       rt_kprintf ('' 0x%08x 0x%08x    %02d%%   0x%08x %03d'' @ nl)
         [Word (stack_size + (stack_addr - sp)), Word stack_size,
          Word ((stack_size - (ptr - stack_addr)) * 100 div stack_size),
          Word (remaining_tick th), Word (of_int (th_error th))] c
     }
   | _ \<Rightarrow> None)"

definition show_sem :: shower where
  "show_sem x s c = (case x of
     OSem n \<Rightarrow>
       (if queues s (Suspend (QSem n)) \<noteq> [] then do {
          c \<leftarrow> rt_kprintf ''%-*.*s %03d %d:''
            [maxlen, maxlen, name_of x s, num (sem_value (sems s n)), queue_len (QSem n) s] c;
          c \<leftarrow> show_wait_queue (QSem n) s c;
          rt_kprintf nl [] c
        }
        else rt_kprintf (''%-*.*s %03d %d'' @ nl)
          [maxlen, maxlen, name_of x s, num (sem_value (sems s n)), queue_len (QSem n) s] c)
   | _ \<Rightarrow> None)"

definition show_event :: shower where
  "show_event x s c = (case x of
     OEvent n \<Rightarrow>
       (if queues s (Suspend (QEvent n)) \<noteq> [] then do {
          c \<leftarrow> rt_kprintf ''%-*.*s  0x%08x %03d:''
            [maxlen, maxlen, name_of x s, Word (ev_set (events s n)), queue_len (QEvent n) s] c;
          c \<leftarrow> show_wait_queue (QEvent n) s c;
          rt_kprintf nl [] c
        }
        else rt_kprintf (''%-*.*s  0x%08x 0'' @ nl)
          [maxlen, maxlen, name_of x s, Word (ev_set (events s n))] c)
   | _ \<Rightarrow> None)"

text \<open>The name is the first field of a thread: without an owner its address is the null pointer.\<close>

definition show_mutex :: shower where
  "show_mutex x s c = (case x of
     OMutex n \<Rightarrow>
       rt_kprintf (''%-*.*s %-8.*s %04d %d'' @ nl)
         [maxlen, maxlen, name_of x s, maxlen,
          Str (map_option (\<lambda>t. map of_char (oname (objs s (OThread t)))) (owner (mutexes s n))),
          num (hold (mutexes s n)), queue_len (QMutex n) s] c
   | _ \<Rightarrow> None)"

definition show_mailbox :: shower where
  "show_mailbox x s c = (case x of
     OMailBox n \<Rightarrow>
       let vs = [maxlen, maxlen, name_of x s, num (mb_entry (mailboxes s n)), num (mb_size (mailboxes s n)),
             queue_len (QMailBox n) s]
       in if queues s (Suspend (QMailBox n)) \<noteq> [] then do {
            c \<leftarrow> rt_kprintf ''%-*.*s %04d  %04d %d:'' vs c;
            c \<leftarrow> show_wait_queue (QMailBox n) s c;
            rt_kprintf nl [] c
          }
          else rt_kprintf (''%-*.*s %04d  %04d %d'' @ nl) vs c
   | _ \<Rightarrow> None)"

definition show_msgqueue :: shower where
  "show_msgqueue x s c = (case x of
     OMessageQueue n \<Rightarrow>
       let vs = [maxlen, maxlen, name_of x s, num (mq_entry (mqs s n)), queue_len (QMessageQueue n) s]
       in if queues s (Suspend (QMessageQueue n)) \<noteq> [] then do {
            c \<leftarrow> rt_kprintf ''%-*.*s %04d  %d:'' vs c;
            c \<leftarrow> show_wait_queue (QMessageQueue n) s c;
            rt_kprintf nl [] c
          }
          else rt_kprintf (''%-*.*s %04d  %d'' @ nl) vs c
   | _ \<Rightarrow> None)"

definition show_mempool :: shower where
  "show_mempool x s c = (case x of
     OMemPool n \<Rightarrow>
       let mp = mempools s n;
           vs = [maxlen, maxlen, name_of x s, Word (block_size mp), Word (block_total_count mp),
             Word (block_free_count mp), queue_len (QMemPool n) s]
       in if 0 < length (queues s (Suspend (QMemPool n))) then do {
            c \<leftarrow> rt_kprintf ''%-*.*s %04d  %04d  %04d %d:'' vs c;
            c \<leftarrow> show_wait_queue (QMemPool n) s c;
            rt_kprintf nl [] c
          }
          else rt_kprintf (''%-*.*s %04d  %04d  %04d %d'' @ nl) vs c
   | _ \<Rightarrow> None)"

definition show_timer :: shower where
  "show_timer x s c = (case x of
     OTimer m \<Rightarrow> do {
       c \<leftarrow> rt_kprintf ''%-*.*s 0x%08x 0x%08x ''
         [maxlen, maxlen, name_of x s, Word (init_tick (timers s m)), Word (timeout_tick (timers s m))] c;
       rt_kprintf ((if oflag (objs s x) AND RT_TIMER_FLAG_ACTIVATED \<noteq> 0 then ''activated'' else ''deactivated'') @ nl) [] c
     }
   | _ \<Rightarrow> None)"

section \<open>The commands\<close>

definition list_class ::
  "string \<Rightarrow> string \<Rightarrow> string \<Rightarrow> shower \<Rightarrow> u8 \<Rightarrow> history \<Rightarrow> console \<Rightarrow> (nat \<times> console) option" where
  "list_class title columns line show cls e c = do {
     c \<leftarrow> list_header title (columns @ nl) (line @ nl) c;
     list_objects show cls e 0 None c
   }"

definition list_thread :: "(tid \<Rightarrow> u32 \<times> u32 \<times> u32) \<Rightarrow> history \<Rightarrow> console \<Rightarrow> console option" where
  "list_thread stk e c = map_option snd (list_class ''thread''
     '' pri  status      sp     stack size max used left tick  error''
     '' ---  ------- ---------- ----------  ------  ---------- ---'' (show_thread stk) RT_Object_Class_Thread e c)"

definition list_sem :: "history \<Rightarrow> console \<Rightarrow> console option" where
  "list_sem e c = map_option snd (list_class ''semaphore'' '' v   suspend thread'' '' --- --------------''
     show_sem RT_Object_Class_Semaphore e c)"

definition list_event :: "history \<Rightarrow> console \<Rightarrow> console option" where
  "list_event e c = map_option snd (list_class ''event'' ''      set    suspend thread''
     ''  ---------- --------------'' show_event RT_Object_Class_Event e c)"

definition list_mutex :: "history \<Rightarrow> console \<Rightarrow> console option" where
  "list_mutex e c = map_option snd (list_class ''mutex'' ''   owner  hold suspend thread''
     '' -------- ---- --------------'' show_mutex RT_Object_Class_Mutex e c)"

definition list_mailbox :: "history \<Rightarrow> console \<Rightarrow> console option" where
  "list_mailbox e c = map_option snd (list_class ''mailbox'' '' entry size suspend thread''
     '' ----  ---- --------------'' show_mailbox RT_Object_Class_MailBox e c)"

definition list_msgqueue :: "history \<Rightarrow> console \<Rightarrow> console option" where
  "list_msgqueue e c = map_option snd (list_class ''msgqueue'' '' entry suspend thread''
     '' ----  --------------'' show_msgqueue RT_Object_Class_MessageQueue e c)"

definition list_mempool :: "history \<Rightarrow> console \<Rightarrow> console option" where
  "list_mempool e c = map_option snd (list_class ''mempool'' '' block total free suspend thread''
     '' ----  ----  ---- --------------'' show_mempool RT_Object_Class_MemPool e c)"

definition list_timer :: "history \<Rightarrow> console \<Rightarrow> console option" where
  "list_timer e c = do {
     (t, c) \<leftarrow> list_class ''timer'' ''  periodic   timeout       flag'' '' ---------- ---------- -----------''
       show_timer RT_Object_Class_Timer e c;
     rt_kprintf (''current tick:0x%08x'' @ nl) [Word (rt_tick (e t))] c
   }"

text \<open>\<^verbatim>\<open>list\<close>, as configured: the commands that are not internal.\<close>

fun list_functions :: "'f finsh_syscall list \<Rightarrow> console \<Rightarrow> console option" where
  "list_functions [] c = Some c"
| "list_functions (f # fs) c = do {
     c \<leftarrow> (if take 2 (sc_name f) = map of_char ''__'' then Some c
           else rt_kprintf (''%-16s -- %s'' @ nl) [Str (Some (sc_name f)), Str (Some (sc_desc f))] c);
     list_functions fs c
   }"

definition list_command :: "'f finsh_syscall list \<Rightarrow> console \<Rightarrow> console option" where
  "list_command table c = do {
     c \<leftarrow> rt_kprintf (''--Function List:'' @ nl) [] c;
     list_functions table c
   }"

definition hello :: "console \<Rightarrow> console option" where
  "hello c = rt_kprintf (''Hello RT-Thread!'' @ nl) [] c"

text \<open>\<open>date\<close> is \<^verbatim>\<open>__DATE__\<close>.\<close>

definition rt_show_version :: "u8 list \<Rightarrow> console \<Rightarrow> console option" where
  "rt_show_version date c = do {
     c \<leftarrow> rt_kprintf (nl @ '' '' @ [CHR 0x5C] @ '' | /'' @ nl) [] c;
     c \<leftarrow> rt_kprintf (''- RT -     Thread Operating System'' @ nl) [] c;
     c \<leftarrow> rt_kprintf ('' / | '' @ [CHR 0x5C] @ ''     %d.%d.%d build %s'' @ nl)
       [Word 3, Word 1, Word 3, Str (Some date)] c;
     rt_kprintf ('' 2006 - 2019 Copyright by rt-thread team'' @ nl) [] c
   }"

section \<open>What the console receives\<close>

definition crlf :: "u8 list \<Rightarrow> u8 list" where
  "crlf t = concat (map (\<lambda>b. if b = 10 then [10, 13] else [b]) t)"

lemma crlf_simps [simp]: "crlf [] = []" "crlf (b # t) = b # (if b = 10 then [13] else []) @ crlf t"
  "crlf (t @ u) = crlf t @ crlf u"
  by (simp_all add: crlf_def)

lemma console_output_string:
  "cstr (con_mem c) p t \<Longrightarrow> rt_hw_console_output p c = Some (c\<lparr>sent := sent c @ crlf t\<rparr>)"
proof (induction t arbitrary: p c)
  case Nil
  then show ?case by (subst rt_hw_console_output.simps) simp
next
  case (Cons b t)
  then show ?case by (subst rt_hw_console_output.simps) simp
qed

lemma cstr_stored: "0 \<notin> set t \<Longrightarrow> length t < 2 ^ 32 - 1 \<Longrightarrow> cstr (stored p (t @ [0]) M) p t"
proof -
  assume t: "0 \<notin> set t" "length t < 2 ^ 32 - 1"
  have "cstr N q (drop k t)"
    if "\<And>i. i \<le> length t \<Longrightarrow> N (p + of_nat i) = (t @ [0]) ! i" "q = p + of_nat k" "k \<le> length t" for N q k
    using that
  proof (induction "length t - k" arbitrary: k q)
    case 0
    then have "k = length t" by simp
    then show ?case using 0 by (simp add: nth_append)
  next
    case (Suc m)
    then have k: "k < length t" by simp
    then have "cstr N (q + 1) (drop (Suc k) t)"
      using Suc.prems Suc.hyps by (intro Suc.hyps(1)) (simp_all add: algebra_simps)
    moreover have "N q = t ! k" using Suc.prems k by (simp add: nth_append)
    moreover have "t ! k \<noteq> 0" using t(1) k by (metis nth_mem)
    ultimately show ?case using k by (simp add: Cons_nth_drop_Suc [symmetric])
  qed
  from this [of "stored p (t @ [0]) M" p 0] show ?thesis
    using t(2) by (simp add: stored_def unsigned_of_nat take_bit_nat_eq_self)
qed

text \<open>\<open>rt_kprintf\<close> sends the text of the format, at most 254 bytes of it, and writes into its buffer only.\<close>

definition console_ok :: "console \<Rightarrow> bool" where
  "console_ok c \<longleftrightarrow> unat (rt_log_buf c) + 2 ^ 16 < 2 ^ 32"

definition prints :: "(console \<Rightarrow> console option) \<Rightarrow> u8 list \<Rightarrow> bool" where
  "prints f t \<longleftrightarrow> (\<forall>c. console_ok c \<longrightarrow> (\<exists>M. f c = Some (c\<lparr>con_mem := M, sent := sent c @ crlf t\<rparr>)))"

lemma kprintf_stored:
  assumes t: "format_text (map of_char fmt) vs = Some t" "0 \<notin> set t" "length t < 2 ^ 16" and c: "console_ok c"
  shows "rt_kprintf fmt vs c =
    Some (c\<lparr>con_mem := stored (rt_log_buf c) (take 254 t @ [0]) (con_mem c), sent := sent c @ crlf (take 254 t)\<rparr>)"
proof -
  let ?b = "rt_log_buf c"
  have b: "unat ?b + unat (255 :: u32) < 2 ^ 32" "unat ?b + length t < 2 ^ 32" using c t(3) by (simp_all add: console_ok_def)
  have v: "rt_vsnprintf ?b (RT_CONSOLEBUF_SIZE - 1) (map of_char fmt) vs (con_mem c) =
      Some (of_nat (length t), stored ?b (take 254 t @ [0]) (con_mem c))"
    using vsnprintf_clip [OF t(1) b, of "con_mem c"] by (simp add: clip_def RT_CONSOLEBUF_SIZE_def)
  have "cstr (stored ?b (take 254 t @ [0]) (con_mem c)) ?b (take 254 t)"
    using t(2) by (intro cstr_stored) (auto dest: in_set_takeD)
  then show ?thesis
    unfolding rt_kprintf_def v by (subst bind.bind_lunit) (auto simp: console_output_string)
qed

lemma kprintf_prints:
  assumes "format_text (map of_char fmt) vs = Some t" "0 \<notin> set t" "length t < 2 ^ 16"
  shows "prints (rt_kprintf fmt vs) (take 254 t)"
  using kprintf_stored [OF assms] by (auto simp: prints_def)

lemma prints_bind:
  assumes f: "prints f t" and g: "prints g u"
  shows "prints (\<lambda>c. f c \<bind> g) (t @ u)"
  unfolding prints_def
proof (intro allI impI)
  fix c assume c: "console_ok c"
  obtain M where M: "f c = Some (c\<lparr>con_mem := M, sent := sent c @ crlf t\<rparr>)" using f c by (auto simp: prints_def)
  have "console_ok (c\<lparr>con_mem := M, sent := sent c @ crlf t\<rparr>)" using c by (simp add: console_ok_def)
  then show "\<exists>M. f c \<bind> g = Some (c\<lparr>con_mem := M, sent := sent c @ crlf (t @ u)\<rparr>)"
    using g M by (fastforce simp: prints_def)
qed

lemma prints_nothing [simp]: "prints Some []"
  unfolding prints_def
proof (intro allI impI)
  fix c :: console
  show "\<exists>M. Some c = Some (c\<lparr>con_mem := M, sent := sent c @ crlf []\<rparr>)"
    by (intro exI [of _ "con_mem c"]) simp
qed

section \<open>Every object is shown once\<close>

text \<open>The objects with the points at which they are looked at.\<close>

fun batch_visits :: "nat \<Rightarrow> oref list \<Rightarrow> (oref \<times> nat) list" where
  "batch_visits t [] = []"
| "batch_visits t (x # xs) = (x, Suc t) # batch_visits (t + 2) xs"

function visits :: "nat \<Rightarrow> oref list \<Rightarrow> (oref \<times> nat) list" where
  "visits t xs = (if xs = [] then [] else batch_visits (Suc t) (take 8 xs) @ visits (t + 17) (drop 8 xs))"
  by pat_completeness auto
termination by (relation "measure (\<lambda>(t, xs). length xs)") auto

declare visits.simps [simp del]

lemma visits_Nil: "visits t [] = []"
  by (subst visits.simps) simp

lemma batch_visits_fst [simp]: "map fst (batch_visits t xs) = xs"
  by (induction t xs rule: batch_visits.induct) simp_all

lemma visits_fst [simp]: "map fst (visits t xs) = xs"
proof (induction t xs rule: visits.induct)
  case (1 t xs)
  then show ?case by (subst visits.simps) simp
qed

fun show_each :: "shower \<Rightarrow> history \<Rightarrow> (oref \<times> nat) list \<Rightarrow> console \<Rightarrow> console option" where
  "show_each show e [] c = Some c"
| "show_each show e ((x, t) # vs) c = show x (e t) c \<bind> show_each show e vs"

lemma show_each_append: "show_each show e (us @ vs) c = show_each show e us c \<bind> show_each show e vs"
  by (induction "show" e us c rule: show_each.induct) (simp_all split: Option.bind_split)

text \<open>While the objects \<open>xs\<close> stay registered, others may be added (in front, as \<^verbatim>\<open>rt_object_init\<close> does).\<close>

definition stay :: "u8 \<Rightarrow> history \<Rightarrow> oref list \<Rightarrow> bool" where
  "stay cls e xs \<longleftrightarrow> (\<forall>t. \<exists>new. container (e t) cls = new @ xs \<and> distinct (new @ xs)) \<and>
     (\<forall>t. \<forall>x \<in> set xs. rt_object_get_type x (e t) = cls)"

lemma list_batch_while:
  "\<forall>u < t + 2 * length xs. \<forall>x \<in> set xs. rt_object_get_type x (e u) = cls \<Longrightarrow>
   list_batch show cls e t xs c = map_option (Pair (t + 2 * length xs)) (show_each show e (batch_visits t xs) c)"
proof (induction xs arbitrary: t c)
  case (Cons x xs)
  have "rt_object_get_type x (e t) = cls" using Cons.prems by simp
  moreover have "\<forall>u < t + 2 + 2 * length xs. \<forall>y \<in> set xs. rt_object_get_type y (e u) = cls"
    using Cons.prems by simp
  ultimately show ?case using Cons.IH [of "t + 2"] by (cases "show x (e (Suc t)) c") simp_all
qed simp

lemma list_batch_shows:
  "\<forall>t. \<forall>x \<in> set xs. rt_object_get_type x (e t) = cls \<Longrightarrow>
   list_batch show cls e t xs c = map_option (Pair (t + 2 * length xs)) (show_each show e (batch_visits t xs) c)"
  by (rule list_batch_while) simp

lemma get_next_stays:
  assumes s: "stay cls e (done @ xs)" and c: "cls \<noteq> 0" and n: "next = (if done = [] then None else Some (last done))"
    and first: "done = [] \<Longrightarrow> container (e t) cls = xs"
  shows "list_get_next next cls LIST_FIND_OBJ_NR (e t) = (if 8 \<le> length xs then Some (xs ! 7) else None, take 8 xs)"
proof (cases "done = []")
  case True
  then show ?thesis using c n first by (simp add: list_get_next_def LIST_FIND_OBJ_NR_def)
next
  case False
  then obtain ds d where d: "done = ds @ [d]" by (cases "done" rule: rev_cases) auto
  obtain new where new: "container (e t) cls = new @ ds @ d # xs" "distinct (new @ ds @ d # xs)"
    using s by (force simp: stay_def d)
  have "dropWhile (\<lambda>y. y \<noteq> d) ((new @ ds) @ d # xs) = d # xs"
    using new(2) by (subst dropWhile_append2) auto
  moreover have "rt_object_get_type d (e t) = cls" using s by (simp add: stay_def d)
  ultimately show ?thesis using c n new(1) by (simp add: list_get_next_def LIST_FIND_OBJ_NR_def d)
qed

lemma list_objects_shows:
  assumes "stay cls e (done @ xs)" "cls \<noteq> 0" "next = (if done = [] then None else Some (last done))"
    "done = [] \<Longrightarrow> container (e t) cls = xs"
  shows "map_option snd (list_objects show cls e t next c) = show_each show e (visits t xs) c"
  using assms
proof (induction "length xs" arbitrary: "done" xs "next" t c rule: less_induct)
  case less
  note g = get_next_stays [OF less.prems]
  have ty: "\<forall>t. \<forall>x \<in> set (take 8 xs). rt_object_get_type x (e t) = cls"
    using less.prems(1) by (auto simp: stay_def dest: in_set_takeD)
  note b = list_batch_shows [OF ty]
  show ?case
  proof (cases "8 \<le> length xs")
    case False
    then have le: "length xs \<le> 8" by simp
    have v: "visits t xs = batch_visits (Suc t) xs" "take 8 xs = xs"
      by (subst visits.simps, simp add: visits_Nil le) (simp add: le)
    show ?thesis using False g b unfolding v(2)
      by (subst list_objects.simps) (cases "show_each show e (batch_visits (Suc t) xs) c"; simp add: v(1))
  next
    case True
    then have xs: "xs = take 8 xs @ drop 8 xs" "xs \<noteq> []" "length (take 8 xs) = 8" by auto
    have last: "last (done @ take 8 xs) = xs ! 7"
      using True by (simp add: last_conv_nth min_def nth_append flip: length_greater_0_conv)
    have IH: "map_option snd (list_objects show cls e (t + 17) (Some (xs ! 7)) c) =
        show_each show e (visits (t + 17) (drop 8 xs)) c" for c
    proof (rule less.hyps)
      show "length (drop 8 xs) < length xs" using True by simp
      show "stay cls e ((done @ take 8 xs) @ drop 8 xs)" using less.prems(1) by simp
      show "cls \<noteq> 0" by (rule less.prems(2))
      show "Some (xs ! 7) = (if done @ take 8 xs = [] then None else Some (last (done @ take 8 xs)))"
        using xs(2) last by simp
    qed (use xs(2) in simp)
    have v: "visits t xs = batch_visits (Suc t) (take 8 xs) @ visits (t + 17) (drop 8 xs)"
      using xs(2) by (subst visits.simps) simp
    have t: "Suc t + 2 * length (take 8 xs) = t + 17" using xs(3) by simp
    show ?thesis unfolding v show_each_append using True g b [of "show" "Suc t" c, unfolded t] IH
      by (subst list_objects.simps) (cases "show_each show e (batch_visits (Suc t) (take 8 xs)) c"; simp)
  qed
qed

end
