(* ===== verification/Cmd_Props.thy ===== *)
theory Cmd_Props
  imports Cmd Demo
begin

text \<open>
  What the commands of theory \<open>Cmd\<close> print: the text of \<^verbatim>\<open>rt_kprintf\<close> on the console, the lines of
  \<^verbatim>\<open>list_sem\<close>, and the cases in which a listing goes wrong.
\<close>

section \<open>The text of a line\<close>

lemma digits_nonzero: "\<forall>d \<in> set small_digits. d \<noteq> 0" "\<forall>d \<in> set large_digits. d \<noteq> 0"
  "length small_digits = 16" "length large_digits = 16"
  by (simp_all add: small_digits_def large_digits_def)

lemma divide_digit: "divide n base = (r, m) \<Longrightarrow> r < 16"
proof -
  have "unat (n mod 10) = unat n mod 10" "unat (n mod 16) = unat n mod 16" by (simp_all add: unat_mod)
  moreover have "unat n mod 10 < 10" "unat n mod 16 < 16" by simp_all
  ultimately have "unat (n mod 10) < 16" "unat (n mod 16) < 16" by linarith+
  then show "divide n base = (r, m) \<Longrightarrow> r < 16" by (auto simp: divide_def split: if_splits)
qed

lemma digits_plain:
  assumes "\<forall>d \<in> set ds. d \<noteq> 0" "length ds = 16"
  shows "0 \<notin> set (digits_loop ds n base)"
  using assms
proof (induction ds n base rule: digits_loop.induct)
  case (1 ds n base)
  obtain r m where rm: "divide n base = (r, m)" by (cases "divide n base")
  have "ds ! r \<noteq> 0" using 1(2,3) divide_digit [OF rm] by simp
  moreover have "n \<noteq> 0 \<Longrightarrow> 0 \<notin> set (digits_loop ds m base)" using 1(1) [OF _ refl, of r m] rm 1(2,3) by simp
  ultimately show ?case using rm by (subst digits_loop.simps) auto
qed

lemma number_plain:
  "0 \<notin> set (number_text v base w p ty)" "length (number_text v base w p ty) \<le> 11 + nat w + nat p"
proof -
  let ?ds = "number_digits (magnitude v ty) base ty" and ?sg = "number_sign v ty"
  have d: "0 \<notin> set ?ds"
    using digits_plain [OF digits_nonzero(1,3)] digits_plain [OF digits_nonzero(2,4)] by (simp add: number_digits_def)
  have s: "0 \<notin> set ?sg" "length ?sg \<le> 1" by (simp_all add: number_sign_def)
  have l: "length ?ds \<le> 10" by (rule tmp_fits)
  show "0 \<notin> set (number_text v base w p ty)" using d s(1) by (auto simp: number_text_def Let_def)
  show "length (number_text v base w p ty) \<le> 11 + nat w + nat p"
    using l s(2) by (auto simp: number_text_def Let_def max_def)
qed

lemma of_char_zero: "(of_char c = (0 :: u8)) = (c = CHR 0x00)"
proof -
  have "(of_char c = (0 :: u8)) = ((of_char c :: nat) = 0)"
  proof -
    have "of_char c = (of_nat (of_char c) :: u8)" by (simp only: of_nat_of_char)
    then have "unat (of_char c :: u8) = of_char c"
      using nat_of_char_less_256 [of c] by (simp add: unsigned_of_nat take_bit_nat_eq_self)
    then show ?thesis by (simp add: unat_eq_0 [symmetric] del: unat_eq_0)
  qed
  also have "\<dots> = ((of_char c :: nat) = of_char CHR 0x00)" by simp
  also have "\<dots> = (c = CHR 0x00)" by (rule of_char_eq_iff)
  finally show ?thesis .
qed

text \<open>The fields of the line of a semaphore.\<close>

definition name8 :: "u8 list \<Rightarrow> u8 list" where
  "name8 nm = take 8 nm @ replicate (8 - length nm) (of_char CHR '' '')"

definition dec3 :: "u32 \<Rightarrow> u8 list" where "dec3 v = number_text v 10 3 (- 1) (ZEROPAD OR SIGN)"
definition dec :: "u32 \<Rightarrow> u8 list" where "dec v = number_text v 10 (- 1) (- 1) SIGN"

lemma sem_format:
  "format_text (map of_char ''%-*.*s %03d %d'' @ rest) [maxlen, maxlen, Str (Some nm), Word v, Word w] =
     map_option (\<lambda>r. name8 nm @ 32 # dec3 v @ 32 # dec w @ r) (format_text rest [])"
proof -
  have "nat (8 - int (min (length nm) 8)) = 8 - length nm" by simp
  then show ?thesis
    by (simp add: parse_spec_def parse_width_def parse_precision_def first_is_def is_digit_def skip_atoi_def
      next_int_def conversion_text_def string_text_def fill_text_def num_text_def fetch_num_def flag_defs name8_def
      dec3_def dec_def option.map_comp comp_def)
qed

lemma format_plain: "37 \<notin> set (map of_char t :: u8 list) \<Longrightarrow> format_text (map of_char t) vs = Some (map of_char t)"
  by (induction t) auto

lemma literal_prints:
  assumes "37 \<notin> set (map of_char fmt :: u8 list)" "0 \<notin> set (map of_char fmt :: u8 list)" "length fmt \<le> 254"
  shows "prints (rt_kprintf fmt vs) (map of_char fmt)"
  using kprintf_prints [OF format_plain [OF assms(1)], of vs] assms(2,3) by simp

lemma name8_plain: "0 \<notin> set nm \<Longrightarrow> 0 \<notin> set (name8 nm)" "length (name8 nm) = 8"
  by (auto simp: name8_def dest: in_set_takeD)

lemma dec_plain: "0 \<notin> set (dec3 v)" "0 \<notin> set (dec v)" "length (dec3 v) \<le> 14" "length (dec v) \<le> 11"
  using number_plain(1) number_plain(2) [of v 10 3 "- 1" "ZEROPAD OR SIGN"]
    number_plain(2) [of v 10 "- 1" "- 1" SIGN] by (simp_all add: dec3_def dec_def)

lemma sem_line_prints:
  assumes "0 \<notin> set nm" "format_text (map of_char rest) [] = Some r" "0 \<notin> set r" "length r \<le> 200"
  shows "prints (rt_kprintf (''%-*.*s %03d %d'' @ rest) [maxlen, maxlen, Str (Some nm), Word v, Word w])
     (name8 nm @ 32 # dec3 v @ 32 # dec w @ r)"
proof -
  let ?t = "name8 nm @ 32 # dec3 v @ 32 # dec w @ r"
  have "length ?t \<le> 254" using dec_plain(3) [of v] dec_plain(4) [of w] name8_plain(2) [of nm] assms(4) by simp
  moreover have "0 \<notin> set ?t" using dec_plain(1,2) name8_plain(1) assms(1,3) by simp
  moreover have "format_text (map of_char (''%-*.*s %03d %d'' @ rest)) [maxlen, maxlen, Str (Some nm), Word v, Word w] = Some ?t"
    unfolding map_append sem_format assms(2) by simp
  ultimately show ?thesis
    using kprintf_prints [of "''%-*.*s %03d %d'' @ rest" _ ?t] by (simp only: take_all) simp
qed

fun slashed :: "u8 list list \<Rightarrow> u8 list" where
  "slashed [] = []"
| "slashed (n # ns) = n @ (if ns = [] then [] else 47 # slashed ns)"

definition thread_name :: "kernel \<Rightarrow> tid \<Rightarrow> u8 list" where
  "thread_name s t = map of_char (oname (objs s (OThread t)))"

text \<open>Names are strings, and those of threads leave room for the terminating zero.\<close>

definition readable :: "kernel \<Rightarrow> bool" where
  "readable s \<longleftrightarrow> (\<forall>x. CHR 0x00 \<notin> set (oname (objs s x))) \<and>
     (\<forall>t. length (oname (objs s (OThread t))) < RT_NAME_MAX)"

definition sem_line :: "nat \<Rightarrow> kernel \<Rightarrow> u8 list" where
  "sem_line n s =
     (let ws = queues s (Suspend (QSem n))
      in name8 (map of_char (oname (objs s (OSem n)))) @ 32 # dec3 (ucast (sem_value (sems s n))) @
         32 # dec (of_nat (length ws)) @
         (if ws = [] then [10] else 58 # slashed (map (thread_name s) ws) @ [10]))"

lemma readable_name: "readable s \<Longrightarrow> 0 \<notin> set (map of_char (oname (objs s x)) :: u8 list)"
  by (auto simp: readable_def of_char_zero eq_commute [of "0 :: u8"])

lemma string_prints:
  assumes "0 \<notin> set nm" "length nm \<le> 254"
  shows "prints (rt_kprintf ''%s'' [Str (Some nm)]) nm"
proof -
  have "format_text (map of_char ''%s'') [Str (Some nm)] = Some nm"
    by (simp add: parse_spec_def parse_width_def parse_precision_def first_is_def is_digit_def
      conversion_text_def string_text_def fill_text_def)
  then show ?thesis using kprintf_prints [of "''%s''" "[Str (Some nm)]" nm] assms by simp
qed

lemma names_print:
  assumes "readable s"
  shows "prints (show_names ts s) (slashed (map (thread_name s) ts))"
proof (induction ts)
  case (Cons t ts)
  have l: "length (oname (objs s (OThread t))) < 8" using assms by (simp add: readable_def RT_NAME_MAX_def)
  then have nm: "name_string (OThread t) s = Some (thread_name s t)"
    by (simp add: name_string_def thread_name_def Let_def RT_NAME_MAX_def)
  have p: "prints (rt_kprintf ''%s'' [Str (Some (thread_name s t))]) (thread_name s t)"
    using readable_name [OF assms] l by (intro string_prints) (simp_all add: thread_name_def)
  have sep: "prints (\<lambda>c. if ts \<noteq> [] then rt_kprintf ''/'' [] c else Some c) (if ts = [] then [] else [47])"
    using literal_prints [of "''/''" "[]"] by (cases "ts = []") simp_all
  have "show_names (t # ts) s = (\<lambda>c. rt_kprintf ''%s'' [Str (Some (thread_name s t))] c \<bind>
      (\<lambda>c. (if ts \<noteq> [] then rt_kprintf ''/'' [] c else Some c) \<bind> show_names ts s))"
    by (simp add: fun_eq_iff nm)
  moreover have "slashed (map (thread_name s) (t # ts)) =
      thread_name s t @ (if ts = [] then [] else [47]) @ slashed (map (thread_name s) ts)" by simp
  ultimately show ?case using prints_bind [OF p prints_bind [OF sep Cons.IH]] by (simp only:)
qed simp

lemma show_sem_prints:
  assumes s: "readable s"
  shows "prints (show_sem (OSem n) s) (sem_line n s)"
proof (cases "queues s (Suspend (QSem n)) = []")
  case True
  have "format_text (map of_char nl) [] = Some [10]" by simp
  then have "prints (rt_kprintf (''%-*.*s %03d %d'' @ nl)
      [maxlen, maxlen, name_of (OSem n) s, num (sem_value (sems s n)), queue_len (QSem n) s]) (sem_line n s)"
    using sem_line_prints [OF readable_name [OF s], of nl "[10]"] True by (simp add: sem_line_def)
  then show ?thesis using True by (simp add: show_sem_def prints_def)
next
  case False
  have "format_text (map of_char '':'') [] = Some [58]" by simp
  then have p: "prints (rt_kprintf (''%-*.*s %03d %d'' @ '':'')
      [maxlen, maxlen, name_of (OSem n) s, num (sem_value (sems s n)), queue_len (QSem n) s])
      (name8 (map of_char (oname (objs s (OSem n)))) @ 32 # dec3 (ucast (sem_value (sems s n))) @
       32 # dec (of_nat (length (queues s (Suspend (QSem n))))) @ [58])"
    using sem_line_prints [OF readable_name [OF s], of "'':''" "[58]"] by simp
  have w: "prints (show_wait_queue (QSem n) s) (slashed (map (thread_name s) (queues s (Suspend (QSem n)))))"
    using names_print [OF s] by (simp add: show_wait_queue_def fun_eq_iff prints_def)
  have l: "prints (rt_kprintf nl []) [10]" using literal_prints [of nl "[]"] by simp
  show ?thesis using prints_bind [OF p prints_bind [OF w l]] False
    by (simp add: show_sem_def sem_line_def prints_def Let_def)
qed

definition sem_header :: "u8 list" where
  "sem_header = map of_char (''semaphore v   suspend thread'' @ nl @ ''-------- --- --------------'' @ nl)"

lemma sem_header_prints:
  "prints (list_header ''semaphore'' ('' v   suspend thread'' @ nl) ('' --- --------------'' @ nl)) sem_header"
proof -
  let ?f = "''%-*.s v   suspend thread'' @ nl" and ?vs = "[maxlen, Str (Some (map of_char ''semaphore''))]"
  let ?t = "map of_char (''semaphore v   suspend thread'' @ nl) :: u8 list"
  have "format_text (map of_char ?f) ?vs = Some ?t"
    by (simp add: parse_spec_def parse_width_def parse_precision_def first_is_def is_digit_def
      next_int_def conversion_text_def string_text_def fill_text_def flag_defs)
  then have 1: "prints (rt_kprintf ?f ?vs) ?t"
    using kprintf_prints [of ?f ?vs ?t] by simp
  have d: "prints (rt_kprintf ''-'' []) [45]" using literal_prints [of "''-''" "[]"] by simp
  have os: "prints (object_split n) (replicate n 45)" for n
  proof (induction n)
    case (Suc n)
    have "object_split (Suc n) = (\<lambda>c. rt_kprintf ''-'' [] c \<bind> object_split n)" by (simp add: fun_eq_iff)
    then show ?case using prints_bind [OF d Suc.IH] by simp
  qed simp
  have 2: "prints (object_split RT_NAME_MAX) (replicate 8 45)" using os by (simp add: RT_NAME_MAX_def)
  have 3: "prints (rt_kprintf ('' --- --------------'' @ nl) []) (map of_char ('' --- --------------'' @ nl))"
    by (intro literal_prints) simp_all
  have h: "sem_header = ?t @ replicate 8 45 @ map of_char ('' --- --------------'' @ nl)"
    by (simp add: sem_header_def numeral_eq_Suc)
  show ?thesis unfolding h using prints_bind [OF 1 prints_bind [OF 2 3]] by (simp add: list_header_def prints_def)
qed

lemma batch_times:
  "sorted_wrt (<) (map snd (batch_visits t xs)) \<and> (\<forall>u \<in> set (map snd (batch_visits t xs)). t < u \<and> u < t + 2 * length xs)"
  by (induction t xs rule: batch_visits.induct) fastforce+

lemma visit_times:
  "sorted_wrt (<) (map snd (visits t xs)) \<and> (\<forall>u \<in> set (map snd (visits t xs)). t < u)"
proof (induction t xs rule: visits.induct)
  case (1 t xs)
  show ?case
  proof (cases "xs = []")
    case False
    let ?b = "map snd (batch_visits (Suc t) (take 8 xs))" and ?v = "map snd (visits (t + 17) (drop 8 xs))"
    have "sorted_wrt (<) ?b" "\<forall>u \<in> set ?b. t < u \<and> u < t + 17"
      using batch_times [of "Suc t" "take 8 xs"] by auto
    moreover have "sorted_wrt (<) ?v" "\<forall>u \<in> set ?v. t + 17 < u" using 1 [OF False] by auto
    moreover have "map snd (visits t xs) = ?b @ ?v" using False by (subst visits.simps) simp
    ultimately show ?thesis by (fastforce simp: sorted_wrt_append)
  qed (simp add: visits_Nil)
qed

lemma show_each_prints:
  "\<forall>(x, t) \<in> set vs. prints (show x (e t)) (line x (e t)) \<Longrightarrow>
   prints (show_each show e vs) (concat (map (\<lambda>(x, t). line x (e t)) vs))"
proof (induction vs)
  case Nil
  have "show_each show e [] = Some" by (simp add: fun_eq_iff)
  then show ?case by simp
next
  case (Cons v vs)
  obtain x t where v: "v = (x, t)" by (cases v)
  have "prints (\<lambda>c. show x (e t) c \<bind> show_each show e vs) (line x (e t) @ concat (map (\<lambda>(x, t). line x (e t)) vs))"
    using Cons v by (intro prints_bind) auto
  moreover have "show_each show e (v # vs) = (\<lambda>c. show x (e t) c \<bind> show_each show e vs)" by (simp add: v fun_eq_iff)
  ultimately show ?case by (simp add: v)
qed

lemma list_class_prints:
  assumes h: "prints (list_header title (columns @ nl) (line2 @ nl)) hdr"
    and s: "stay cls e xs" "container (e 0) cls = xs" "cls \<noteq> 0"
    and p: "\<And>x t. x \<in> set xs \<Longrightarrow> prints (show x (e t)) (line x (e t))"
  shows "\<exists>ts. length ts = length xs \<and> sorted_wrt (<) ts \<and>
    prints (\<lambda>c. map_option snd (list_class title columns line2 show cls e c))
      (hdr @ concat (map2 (\<lambda>x t. line x (e t)) xs ts))"
proof (intro exI conjI)
  let ?v = "visits 0 xs"
  show "length (map snd ?v) = length xs" using visits_fst [of 0 xs] by (metis length_map)
  show "sorted_wrt (<) (map snd ?v)" using visit_times [of 0 xs] by blast
  have z: "?v = zip xs (map snd ?v)" using zip_map_fst_snd [of ?v] by simp
  have "fst w \<in> set xs" if "w \<in> set ?v" for w using visits_fst [of 0 xs] that by (metis image_eqI set_map)
  then have "prints (show_each show e ?v) (concat (map (\<lambda>(x, t). line x (e t)) ?v))"
    using p by (intro show_each_prints) fastforce
  note b = prints_bind [OF h this]
  have "(\<lambda>c. map_option snd (list_class title columns line2 show cls e c)) =
      (\<lambda>c. list_header title (columns @ nl) (line2 @ nl) c \<bind> show_each show e ?v)"
    using list_objects_shows [of cls e "[]" xs None 0 "show"] s
    by (simp add: list_class_def fun_eq_iff map_option_bind comp_def)
  then show "prints (\<lambda>c. map_option snd (list_class title columns line2 show cls e c))
      (hdr @ concat (map2 (\<lambda>x t. line x (e t)) xs (map snd ?v)))" using b z by metis
qed

section \<open>The properties\<close>

text \<open>\<^verbatim>\<open>rt_kprintf\<close> sends the text of the format to the console, at most 254 bytes of it and with a
  carriage return after every line feed, and writes to its own buffer only.\<close>

theorem kprintf_sends:
  assumes "format_text (map of_char fmt) vs = Some t" "0 \<notin> set t" "length t < 2 ^ 16"
    "unat (rt_log_buf c) + 2 ^ 16 < 2 ^ 32"
  shows "\<exists>c'. rt_kprintf fmt vs c = Some c' \<and> sent c' = sent c @ crlf (take 254 t) \<and> rt_log_buf c' = rt_log_buf c \<and>
    (\<forall>a. con_mem c' a \<noteq> con_mem c a \<longrightarrow> unat (a - rt_log_buf c) < 255)"
proof -
  have "console_ok c" using assms(4) by (simp add: console_ok_def)
  note k = kprintf_stored [OF assms(1-3) this]
  show ?thesis unfolding k by (auto simp: stored_def split: if_splits)
qed

theorem kprintf_sends_witness:
  "\<exists>c'. rt_kprintf ''%d%%'' [Word 42] \<lparr>rt_log_buf = 0x1000, con_mem = (\<lambda>_. 0), sent = [7]\<rparr> = Some c' \<and>
     sent c' = [7, 52, 50, 37] \<and> con_mem c' 0x2000 = 0"
proof -
  let ?c = "\<lparr>rt_log_buf = 0x1000, con_mem = (\<lambda>_. 0), sent = [7]\<rparr>"
  have "format_text (map of_char ''%d%%'') [Word 42] = Some [52, 50, 37]"
    by (simp add: parse_spec_def parse_width_def parse_precision_def first_is_def is_digit_def conversion_text_def
      num_text_def fetch_num_def flag_defs number_text_def number_digits_def magnitude_def number_sign_def
      digits_loop.simps divide_def small_digits_def)
  from kprintf_sends [OF this, of ?c] obtain c' where
    "rt_kprintf ''%d%%'' [Word 42] ?c = Some c'" "sent c' = [7, 52, 50, 37]"
    "\<forall>a. con_mem c' a \<noteq> 0 \<longrightarrow> unat (a - 0x1000) < 255" by auto
  moreover have "\<not> unat (0x2000 - 0x1000 :: u32) < 255" by simp
  ultimately show ?thesis by blast
qed


lemma replicate_two: "replicate 2 (b :: u8) = [b, b]"
  by (simp add: eval_nat_numeral)

lemma dec_small:
  "dec 0 = [48]" "dec 1 = [49]" "dec3 0 = [48, 48, 48]" "dec3 1 = [48, 48, 49]"
  by (simp_all add: dec3_def dec_def number_text_def number_digits_def magnitude_def number_sign_def flag_defs
    digits_loop.simps divide_def small_digits_def replicate_two)

lemma name8_blank: "name8 [] = [32, 32, 32, 32, 32, 32, 32, 32]"
  by (simp add: name8_def eval_nat_numeral)


section \<open>Boundary cases\<close>

text \<open>When the last object of a full batch has been removed while the batch was printed, the listing ends
  there, and the objects behind it are not shown.\<close>

theorem listing_cut:
  assumes "container (e t) cls = xs" "8 < length xs" "cls \<noteq> 0" "\<forall>u \<le> t + 16. \<forall>x \<in> set xs. rt_object_get_type x (e u) = cls"
    "rt_object_get_type (xs ! 7) (e (t + 17)) \<noteq> cls"
  shows "map_option snd (list_objects show cls e t None c) = show_each show e (batch_visits (Suc t) (take 8 xs)) c"
proof -
  have g: "list_get_next None cls LIST_FIND_OBJ_NR (e t) = (Some (xs ! 7), take 8 xs)"
    using assms(1-3) by (simp add: list_get_next_def LIST_FIND_OBJ_NR_def)
  have g': "list_get_next (Some (xs ! 7)) cls LIST_FIND_OBJ_NR (e (t + 17)) = (None, [])"
    using assms(5) by (simp add: list_get_next_def)
  have l: "Suc t + 2 * length (take 8 xs) = t + 17" using assms(2) by simp
  have "list_batch show cls e (Suc t) (take 8 xs) c =
      map_option (Pair (t + 17)) (show_each show e (batch_visits (Suc t) (take 8 xs)) c)"
    unfolding l [symmetric] using assms(4) l by (intro list_batch_while) (auto dest: in_set_takeD)
  moreover have "list_objects show cls e (t + 17) (Some (xs ! 7)) c' = Some (t + 18, c')" for c'
    by (subst list_objects.simps) (simp add: g')
  ultimately show ?thesis
    by (subst list_objects.simps) (cases "show_each show e (batch_visits (Suc t) (take 8 xs)) c"; simp add: g)
qed

text \<open>A name of eight characters has no terminating zero: the name of a waiting thread is printed with the
  type of the object behind it.\<close>

theorem wait_queue_overrun:
  assumes "queues s (Suspend q) = [t]" "length (oname (objs s (OThread t))) = RT_NAME_MAX"
    "CHR 0x00 \<notin> set (oname (objs s (OThread t)))"
    "otype (objs s (OThread t)) \<noteq> 0" "oflag (objs s (OThread t)) = 0"
  shows "prints (show_wait_queue q s) (map of_char (oname (objs s (OThread t))) @ [otype (objs s (OThread t))])"
proof -
  let ?n = "map of_char (oname (objs s (OThread t))) @ [otype (objs s (OThread t))]"
  have "0 \<notin> set ?n" "length ?n \<le> 254" using assms(2-4) by (auto simp: of_char_zero eq_commute [of "0 :: u8"] RT_NAME_MAX_def)
  from string_prints [OF this] show ?thesis using assms
    by (simp add: show_wait_queue_def name_string_def Let_def prints_def)
qed

end
