(* ===== verification/Spec2Isabelle.thy ===== *)
theory Spec2Isabelle
  imports Kernel_Props Ipc_Props Kservice_Heap Board_Props System_Props Shell_Props Mempool_Props Memheap_Props Cmd_Props
begin

text \<open>
  A model of RT-Thread Nano 3.1.3 and its port to a RISC-V (RV32) board, with the theorems that make
  it correct.  Paths are relative to \<^verbatim>\<open>src/\<close>; the configuration is the one of \<^verbatim>\<open>bsp/rtconfig.h\<close>.

  \<^bold>\<open>The program.\<close>  The kernel keeps threads with fixed priorities on ready lists and always runs the
  first thread of the highest ready priority (\<^verbatim>\<open>src/scheduler.c\<close>, with the bit search of
  \<^verbatim>\<open>src/kservice.c\<close>).  A thread gives up the processor by sleeping or by waiting for an IPC object
  (\<^verbatim>\<open>src/ipc.c\<close>, \<^verbatim>\<open>src/mempool.c\<close>); it is then linked in the queue of the object, and its timer
  (\<^verbatim>\<open>src/timer.c\<close>) is started if the wait is limited.  The tick interrupt (\<^verbatim>\<open>src/clock.c\<close>) ends time
  slices and expires timers.  Threads that end are reaped by the idle thread (\<^verbatim>\<open>src/idle.c\<close>).  All
  objects are kept in containers by class (\<^verbatim>\<open>src/object.c\<close>).  The port brings the interrupt controller
  and the trap handler (\<^verbatim>\<open>libcpu/interrupt.c\<close>), a serial driver (\<^verbatim>\<open>bsp/uart_irq.c\<close>) and the start of the
  system (\<^verbatim>\<open>src/components.c\<close>, \<^verbatim>\<open>bsp/board.c\<close>); on top of it runs a shell (\<^verbatim>\<open>finsh/\<close>).  Memory comes from
  \<^verbatim>\<open>src/mem.c\<close>, \<^verbatim>\<open>src/memheap.c\<close> and \<^verbatim>\<open>src/mempool.c\<close>; \<^verbatim>\<open>src/kservice.c\<close> has the routines on bytes,
  strings and formatted text.

  \<^bold>\<open>Conventions.\<close>  A C integer is a word of its width.  A routine is a function from the old state to
  the new one; \<open>None\<close> stands for a failing \<^verbatim>\<open>RT_ASSERT\<close> and for a loop that does not end, so a theorem
  that concludes \<open>f s = Some s'\<close> also says that the code returns and that no assertion fails.  Loops that
  end by their shape are \<open>fun\<close> or \<open>function\<close> with a measure; loops over linked structures are
  \<open>partial_function\<close>, never fuel, so there is no bound to choose and termination is a theorem.
  Error numbers are the negative values of \<^verbatim>\<open>rtdef.h\<close>.  A routine in which a thread can block is
  split where the thread gives up the processor: the first part ends with the thread suspended, and a
  second definition (\<open>rt_sem_take_wake\<close>, \<open>rt_mp_alloc_wake\<close> and so on) is what it does when it runs
  again.  The disabling of interrupts is the atomicity of these pieces; where a routine enables them in
  between (message queues), the critical sections are separate definitions that interleave.

  \<^bold>\<open>Theories.\<close>
  \<^item> \<open>Prelude\<close>: integers, error numbers, \<^verbatim>\<open>RT_ASSERT\<close>, alignment, lemmas on lists, options and words.
  \<^item> \<open>Rt_List\<close>, \<open>Queues\<close>: the intrusive lists of \<^verbatim>\<open>include/rtservice.h\<close> on a map of pointers, and families of
    lists.  The locale \<open>list_heads\<close> is the interface that the kernel relies on; it is interpreted on the
    pointers and on a function from heads to lists, and the kernel of the other theories uses the latter.
  \<^item> \<open>Ffs\<close>: \<^verbatim>\<open>__rt_ffs\<close> and its table.
  \<^item> \<open>Kernel_State\<close>: the structs of \<^verbatim>\<open>include/rtdef.h\<close> as records; the record \<open>kernel\<close> holds all of them by
    number, the lists, the ready mask, the current thread, the tick and the interrupt nesting.
  \<^item> \<open>Scheduler\<close>, \<open>Object\<close>, \<open>Timer\<close>, \<open>Thread\<close>, \<open>Clock\<close>, \<open>Idle\<close>: the files of the same names.  The
    invariants are \<open>sched_ok\<close> (the ready mask and the lists agree, states match the lists), \<open>timer_inv\<close>
    (the timer list is sorted in the wrapping order of ticks) and \<open>object_inv\<close>.
  \<^item> \<open>Ipc\<close>, \<open>Semaphore\<close>, \<open>Mutex\<close>, \<open>Event\<close>, \<open>Mailbox\<close>, \<open>Message_Blocks\<close>, \<open>Messagequeue\<close>: \<^verbatim>\<open>src/ipc.c\<close>.
    The locale \<open>bounded_queue\<close> (theory \<open>Bounded_Queue\<close>) is the contract of a bounded first-in first-out
    store; the ring of a mailbox, the blocks of a message queue and the receive buffer of the serial
    line are interpretations of it.
  \<^item> \<open>Pool_Blocks\<close>, \<open>Mempool\<close>: \<^verbatim>\<open>src/mempool.c\<close>, with the locale \<open>resource_pool\<close> (blocks are handed out
    exclusively) interpreted on the list of free blocks.
  \<^item> \<open>Mem\<close>, \<open>Mem_Alloc\<close>, \<open>Mem_Props\<close>: \<^verbatim>\<open>src/mem.c\<close>, a row of blocks with headers; \<open>Memheap\<close>,
    \<open>Memheap_Ops\<close>, \<open>Memheap_Realloc\<close>, \<open>Memheap_Props\<close>: \<^verbatim>\<open>src/memheap.c\<close>, two rings of blocks.  Both are
    interpretations of the locale \<open>allocator\<close> (theory \<open>Allocator\<close>), from which it follows that no
    sequence of requests of clients that keep to what they hold can fail or make areas overlap.
  \<^item> \<open>Heap_Lock\<close>: the routines of \<^verbatim>\<open>src/mem.c\<close> with the semaphore of the heap, and the heap as data that
    the threads of theory \<open>System\<close> share under a semaphore.
  \<^item> \<open>Kservice_Mem\<close>, \<open>Kservice_Str\<close>, \<open>Kservice_Print\<close>, \<open>Kservice_Heap\<close>: the routines of \<^verbatim>\<open>src/kservice.c\<close>
    on a memory of bytes.
  \<^item> \<open>Uart_Buffer\<close>, \<open>Interrupt\<close>, \<open>Uart\<close>, \<open>Startup\<close>: the port, with the answers of the hardware to
    reads as arguments and the writes to its registers in the state.
  \<^item> \<open>Msh\<close>, \<open>Shell\<close>: \<^verbatim>\<open>finsh/msh.c\<close> and \<^verbatim>\<open>finsh/shell.c\<close>; the functions of the commands are a parameter.
  \<^item> \<open>System\<close>: the kernel as a step relation: the running thread calls, blocked calls go on when
    their thread is scheduled, interrupts come in between.
  \<^item> \<open>Cmd\<close>, \<open>Cmd_Props\<close>: \<^verbatim>\<open>rt_kprintf\<close>, the console, and the listings of \<^verbatim>\<open>finsh/cmd.c\<close>, which look at the
    kernel at a sequence of moments between which anything may happen.
  \<^item> \<open>Demo\<close>: a small system on which the properties are applied.

  \<^bold>\<open>What is shown.\<close>  \<open>Kernel_Props\<close>: the scheduler picks the highest ready thread, the timer list stays
  sorted, a tick returns and leaves no due timer, a sleeping thread wakes at its tick, list and bit
  search routines agree with their specifications, a release of a semaphore refines a counting
  semaphore with a queue.  \<open>Ipc_Props\<close>: priority inheritance and handing over of mutexes, wake-up by
  events, first-in first-out order and all error results of mailboxes and message queues, for the
  latter under every interleaving of their critical sections.  \<open>System_Props\<close>: for every run of threads
  and interrupts, the invariants hold, mutual exclusion by a semaphore, no token is lost, no state is
  stuck; and the heap that threads share under its semaphore is what their completed calls make of it in
  turn.  \<open>Mempool_Props\<close>, \<open>Mem_Props\<close>, \<open>Memheap_Props\<close>: areas that are handed out do not overlap,
  freeing takes back exactly one, sequences of requests never fail an assertion, and free space is merged
  again.  \<open>Kservice_Heap\<close>: block copies equal their definition byte by byte, formatted output is cut to
  its buffer.  \<open>Board_Props\<close>: the start of the system establishes all invariants; a timer trap keeps
  them; a byte that arrives reaches the reader that waits for it.  \<open>Shell_Props\<close>: the editor refines a
  text with a cursor, and a typed line runs the command of its first word with its arguments.
  \<open>Cmd_Props\<close>: a listing shows every registered object once, in order.  Theorems
  under headings such as \<^emph>\<open>Boundary cases\<close> show what the code does outside these contracts.

  \<^bold>\<open>Not modelled.\<close>  The context switch and the trap entry are assembly; the request of a switch is
  part of the model, and which thread runs is the current thread of the state.  \<^verbatim>\<open>src/cpu.c\<close> is compiled for
  several processors only, \<^verbatim>\<open>src/slab.c\<close> is an alternative to \<^verbatim>\<open>src/mem.c\<close> that is not configured.
  Of \<^verbatim>\<open>finsh/cmd.c\<close>, \<open>list_memheap\<close> and \<open>list_device\<close> are left out; the console device is always ready.
  The benchmark under \<^verbatim>\<open>coremark/\<close> and \<^verbatim>\<open>applications/\<close> are not part of the operating system.  Hooks,
  debug output, modules and the soft timer thread are not configured.  Stacks and registers of threads are
  not part of the state.  The steps of theory \<open>System\<close> are those of semaphores, sleeping and yielding;
  its runs assume that the timers are those of threads and that the idle thread does not block.  Memory
  heaps are the code between taking and releasing their semaphores; blocks of different heaps are not
  related to each other.
\<close>

end
